(* ===== verification/Recast_Prelude.thy ===== *)
theory Recast_Prelude
  imports Main "HOL-Library.Word"
begin

text \<open>
  Shared vocabulary of the development.

  \<^item> C++ exceptions are the values of \<open>exc\<close>, one constructor per standard exception class that
    the sources throw, carrying the message; \<open>FAISS_THROW_IF_NOT_MSG\<close> throws a \<open>Faiss_exception\<close>, and a
    failing \<open>FAISS_ASSERT\<close>, which ends the process, is the value \<open>Aborted\<close>. A function that may throw
    returns \<open>'a res\<close>, whose \<open>Inl\<close> is the exception.
  \<^item> \<open>size_t\<close> and \<open>uint64_t\<close> are 64 bits wide. Sizes are natural numbers and every check that the
    code makes against \<open>std::numeric_limits<size_t>::max()\<close> is written out with \<open>size_max\<close>;
    \<open>uint32_t\<close> and bytes are words, and a \<open>static_cast<uint32_t>\<close> is \<open>of_nat\<close>, which wraps.
  \<^item> Raw buffers are byte lists. \<open>segment\<close> reads a byte range and \<open>patch\<close> overwrites one, which is
    what \<open>memcpy\<close>, \<open>pread\<close> and \<open>pwrite\<close> do.
\<close>

section \<open>Exceptions and results\<close>

datatype exc =
    Invalid_argument string
  | Runtime_error string
  | Logic_error string
  | Overflow_error string
  | Out_of_range string
  | Faiss_exception string
  | Aborted string

type_synonym 'a res = "exc + 'a"

type_synonym u8 = "8 word"
type_synonym u32 = "32 word"
type_synonym u64 = "64 word"

definition res_bind :: "'a res \<Rightarrow> ('a \<Rightarrow> 'b res) \<Rightarrow> 'b res" where
  "res_bind m f = (case m of Inl e \<Rightarrow> Inl e | Inr x \<Rightarrow> f x)"

lemma res_bind_simps [simp]:
  "res_bind (Inl e) f = Inl e"
  "res_bind (Inr x) f = f x"
  by (simp_all add: res_bind_def)

lemma res_bind_eq_Inr [simp]:
  "res_bind m f = Inr y \<longleftrightarrow> (\<exists>x. m = Inr x \<and> f x = Inr y)"
  by (cases m) auto

text \<open>A loop whose body may throw: it stops at the first exception.\<close>

fun res_fold :: "('a \<Rightarrow> 's \<Rightarrow> 's res) \<Rightarrow> 'a list \<Rightarrow> 's \<Rightarrow> 's res" where
  "res_fold f [] s = Inr s"
| "res_fold f (x # xs) s = res_bind (f x s) (res_fold f xs)"

lemma res_fold_append:
  "res_fold f (xs @ ys) s = res_bind (res_fold f xs s) (res_fold f ys)"
proof (induction xs arbitrary: s)
  case Nil
  then show ?case by simp
next
  case (Cons x xs)
  then show ?case by (cases "f x s") auto
qed

text \<open>A loop body that never throws under an invariant never stops the loop.\<close>

lemma res_fold_total:
  assumes "\<And>x s. x \<in> set xs \<Longrightarrow> I s \<Longrightarrow> \<exists>s'. f x s = Inr s' \<and> I s'" and "I s"
  shows "\<exists>s'. res_fold f xs s = Inr s' \<and> I s'"
  using assms
proof (induction xs arbitrary: s)
  case Nil
  then show ?case by simp
next
  case (Cons x xs)
  then obtain s1 where "f x s = Inr s1" and "I s1"
    by (meson list.set_intros(1))
  with Cons show ?case by simp
qed

section \<open>size\_t arithmetic\<close>

definition size_max :: nat where
  "size_max = 2 ^ 64 - 1"

definition u32_max :: nat where
  "u32_max = 2 ^ 32 - 1"

lemma u32_less_pow [simp]: "unat (x :: u32) < 4294967296"
proof -
  have "unat x < 2 ^ LENGTH(32)" by (rule unsigned_less)
  then show ?thesis by simp
qed

lemma u32_less_max [simp]: "unat (x :: u32) \<le> u32_max"
proof -
  have "u32_max = 4294967295" by (simp add: u32_max_def)
  then show ?thesis using u32_less_pow [of x] by linarith
qed

lemma unat_u32_of_nat: "n \<le> u32_max \<Longrightarrow> unat (of_nat n :: u32) = n"
  by (simp add: u32_max_def unat_of_nat take_bit_nat_eq_self)

lemma u32_max_le_size_max: "u32_max \<le> size_max"
  by (simp add: u32_max_def size_max_def)

text \<open>The overflow guards on sizes (src/adapters/external\_io\_util.h; pq4\_update\_packing.cpp has a
  copy of the second).\<close>

definition checked_add :: "nat \<Rightarrow> nat \<Rightarrow> string \<Rightarrow> nat res" where
  "checked_add lhs rhs msg =
    (if rhs > size_max - lhs then Inl (Overflow_error msg) else Inr (lhs + rhs))"

definition checked_multiply :: "nat \<Rightarrow> nat \<Rightarrow> string \<Rightarrow> nat res" where
  "checked_multiply lhs rhs msg =
    (if lhs \<noteq> 0 \<and> rhs > size_max div lhs then Inl (Overflow_error msg) else Inr (lhs * rhs))"

lemma checked_add_ok: "a + b \<le> size_max \<Longrightarrow> checked_add a b msg = Inr (a + b)"
  by (simp add: checked_add_def)

lemma checked_add_iff: "a \<le> size_max \<Longrightarrow> checked_add a b msg = Inr n \<longleftrightarrow> n = a + b \<and> a + b \<le> size_max"
  by (auto simp: checked_add_def)

lemma mult_guard: "\<not> (a \<noteq> 0 \<and> n div a < b) \<longleftrightarrow> a * b \<le> n" for a b n :: nat
proof (cases "a = 0")
  case False
  then have "b \<le> n div a \<longleftrightarrow> b * a \<le> n" by (simp add: less_eq_div_iff_mult_less_eq)
  with False show ?thesis by (simp add: not_less mult.commute)
qed simp

lemma checked_multiply_iff: "checked_multiply a b msg = Inr n \<longleftrightarrow> n = a * b \<and> a * b \<le> size_max"
  unfolding checked_multiply_def using mult_guard [of a size_max b] by auto

lemma checked_multiply_ok: "a * b \<le> size_max \<Longrightarrow> checked_multiply a b msg = Inr (a * b)"
  by (simp add: checked_multiply_iff)

section \<open>Byte ranges\<close>

type_synonym bytes = "u8 list"

definition segment :: "'a list \<Rightarrow> nat \<Rightarrow> nat \<Rightarrow> 'a list" where
  "segment xs off n = take n (drop off xs)"

definition patch :: "'a list \<Rightarrow> nat \<Rightarrow> 'a list \<Rightarrow> 'a list" where
  "patch xs off ys = take off xs @ ys @ drop (off + length ys) xs"

lemma length_segment: "length (segment xs off n) = min n (length xs - off)"
  by (simp add: segment_def min.commute)

lemma length_segment_in [simp]: "off + n \<le> length xs \<Longrightarrow> length (segment xs off n) = n"
  by (simp add: length_segment)

lemma length_patch [simp]:
  "off + length ys \<le> length xs \<Longrightarrow> length (patch xs off ys) = length xs"
  by (simp add: patch_def)

lemma length_patch_max:
  "off \<le> length xs \<Longrightarrow> length (patch xs off ys) = max (length xs) (off + length ys)"
  by (simp add: patch_def)

lemma nth_segment: "i < n \<Longrightarrow> off + n \<le> length xs \<Longrightarrow> segment xs off n ! i = xs ! (off + i)"
  by (simp add: segment_def)

lemma nth_patch:
  assumes "off \<le> length xs" and "i < max (length xs) (off + length ys)"
  shows "patch xs off ys ! i =
    (if off \<le> i \<and> i < off + length ys then ys ! (i - off) else xs ! i)"
  using assms by (auto simp: patch_def nth_append)

text \<open>Reading back what was written, and reading what a write does not touch.\<close>

lemma segment_patch_same: "off \<le> length xs \<Longrightarrow> segment (patch xs off ys) off (length ys) = ys"
  by (simp add: segment_def patch_def)

lemma segment_patch_inside:
  assumes "off \<le> length xs" and "off \<le> o'" and "o' + n \<le> off + length ys"
  shows "segment (patch xs off ys) o' n = segment ys (o' - off) n"
proof (rule nth_equalityI)
  have len: "o' + n \<le> length (patch xs off ys)"
    using assms by (simp add: length_patch_max)
  then show "length (segment (patch xs off ys) o' n) = length (segment ys (o' - off) n)"
    using assms by (simp add: length_segment)
  fix i assume "i < length (segment (patch xs off ys) o' n)"
  then have "i < n" by (simp add: length_segment)
  with len assms show "segment (patch xs off ys) o' n ! i = segment ys (o' - off) n ! i"
    by (simp add: nth_segment nth_patch length_patch_max)
qed

lemma segment_patch_other:
  assumes "off \<le> length xs" and "o' + n \<le> length xs"
    and "o' + n \<le> off \<or> off + length ys \<le> o'"
  shows "segment (patch xs off ys) o' n = segment xs o' n"
proof (rule nth_equalityI)
  have len: "o' + n \<le> length (patch xs off ys)"
    using assms by (simp add: length_patch_max)
  then show "length (segment (patch xs off ys) o' n) = length (segment xs o' n)"
    using assms by simp
  fix i assume "i < length (segment (patch xs off ys) o' n)"
  then have "i < n" by (simp add: length_segment)
  with len assms show "segment (patch xs off ys) o' n ! i = segment xs o' n ! i"
    by (auto simp: nth_segment nth_patch length_patch_max)
qed

lemma segment_segment:
  "o' + m \<le> n \<Longrightarrow> segment (segment xs off n) o' m = segment xs (off + o') m"
  by (simp add: segment_def drop_take min_absorb1 add.commute)

lemma segment_take: "off + n \<le> m \<Longrightarrow> segment (take m xs) off n = segment xs off n"
  by (simp add: segment_def drop_take min_absorb1)

lemma segment_append_left:
  "off + n \<le> length xs \<Longrightarrow> segment (xs @ ys) off n = segment xs off n"
  by (simp add: segment_def)

lemma segment_split: "segment xs rd (m + n) = segment xs rd m @ segment xs (rd + m) n"
  by (simp add: segment_def take_add add.commute)

lemma segment_min: "segment xs off (min n (length xs - off)) = segment xs off n"
  by (cases "n \<le> length xs - off") (simp_all add: segment_def min_def)

lemma segment_0 [simp]: "segment xs off 0 = []"
  by (simp add: segment_def)

lemma segment_full [simp]: "segment xs 0 (length xs) = xs"
  by (simp add: segment_def)

lemma segment_map: "segment (map f xs) off n = map f (segment xs off n)"
  by (simp add: segment_def take_map drop_map)

section \<open>Insertion-sorted lists and the k smallest elements\<close>

lemma filter_eq_take_count:
  "\<forall>x \<in> set (take k xs). P x \<Longrightarrow> \<forall>x \<in> set (drop k xs). \<not> P x \<Longrightarrow> filter P xs = take k xs"
  by (metis append_Nil2 append_take_drop_id filter_False filter_True filter_append)

section \<open>Batches sorted by page\<close>

text \<open>
  The adapters sort a batch of requests by page, serve each run of one page together and store every
  answer at its input position.
\<close>

lemma fold_assign:
  assumes "\<forall>q \<in> set qs. inp q < length res \<and> v q = g (inp q)"
  shows "length (fold (\<lambda>q res. res[inp q := v q]) qs res) = length res
    \<and> (\<forall>i < length res. fold (\<lambda>q res. res[inp q := v q]) qs res ! i =
        (if i \<in> inp ` set qs then g i else res ! i))"
  using assms
proof (induction qs arbitrary: res)
  case (Cons q qs)
  then show ?case by (auto simp: nth_list_update)
qed simp

lemma fold_assign_all:
  assumes "inp ` set qs = {0..<n}" and "\<And>q. q \<in> set qs \<Longrightarrow> v q = g (inp q)"
  shows "fold (\<lambda>q res. res[inp q := v q]) qs (replicate n t) = map g [0..<n]"
proof -
  have "\<forall>q \<in> set qs. inp q < length (replicate n t) \<and> v q = g (inp q)" using assms by auto
  from fold_assign [OF this] assms(1) show ?thesis by (intro nth_equalityI) simp_all
qed

lemma sorted_group_split:
  assumes "sorted (map f (x # xs))"
  shows "\<forall>y \<in> set (x # takeWhile (\<lambda>v. f v = f x) xs). f y = f x"
    and "\<forall>y \<in> set (dropWhile (\<lambda>v. f v = f x) xs). f x < (f y :: nat)"
    and "sorted (map f (dropWhile (\<lambda>v. f v = f x) xs))"
proof -
  show "\<forall>y \<in> set (x # takeWhile (\<lambda>v. f v = f x) xs). f y = f x" by (auto dest: set_takeWhileD)
  have s: "sorted (map f xs)" and ge: "\<forall>y \<in> set xs. f x \<le> f y" using assms by auto
  show sd: "sorted (map f (dropWhile (\<lambda>v. f v = f x) xs))" using s by (simp add: dropWhile_eq_drop drop_map [symmetric] sorted_wrt_drop)
  show "\<forall>y \<in> set (dropWhile (\<lambda>v. f v = f x) xs). f x < f y"
  proof (cases "dropWhile (\<lambda>v. f v = f x) xs")
    case (Cons z zs)
    then have "f z \<noteq> f x" and "z \<in> set xs"
      using hd_dropWhile [of "\<lambda>v. f v = f x" xs] set_dropWhileD [of z "\<lambda>v. f v = f x" xs] by auto
    then have "f x < f z" using ge by (simp add: le_neq_implies_less)
    then show ?thesis using sd unfolding Cons by fastforce
  next
    case Nil
    show ?thesis unfolding Nil by simp
  qed
qed

end
