(* ===== verification/Float32.thy ===== *)
theory Float32
  imports Complex_Main Recast_Prelude
begin

text \<open>
  The C++ type \<open>float\<close> is IEEE-754 binary32. A value is its 32-bit pattern, so that
  \<open>std::memcpy\<close> between \<open>float\<close> and \<open>uint32_t\<close> is the identity. Comparisons are read off the sign
  and the magnitude bits; addition, subtraction and multiplication compute the exact result as an
  integer and round it once to nearest, ties to even. The rounding result is
  monotone and exact on representable values, which is all that the interval arithmetic of the
  scanner relies on.
\<close>

unbundle bit_operations_syntax

section \<open>Bit patterns\<close>

type_synonym f32 = u32

definition f32_sign :: "f32 \<Rightarrow> bool" where
  "f32_sign x \<longleftrightarrow> 2 ^ 31 \<le> unat x"

definition f32_mag :: "f32 \<Rightarrow> nat" where
  "f32_mag x = unat x mod 2 ^ 31"

definition f32_make :: "bool \<Rightarrow> nat \<Rightarrow> f32" where
  "f32_make s m = of_nat (m + (if s then 2 ^ 31 else 0))"

definition inf_mag :: nat where
  "inf_mag = 2139095040"

definition f32_inf :: f32 where
  "f32_inf = 0x7F800000"

definition f32_ninf :: f32 where
  "f32_ninf = 0xFF800000"

definition f32_nan :: f32 where
  "f32_nan = 0x7FC00000"

definition f32_is_nan :: "f32 \<Rightarrow> bool" where
  "f32_is_nan x \<longleftrightarrow> inf_mag < f32_mag x"

definition f32_is_inf :: "f32 \<Rightarrow> bool" where
  "f32_is_inf x \<longleftrightarrow> f32_mag x = inf_mag"

definition f32_is_finite :: "f32 \<Rightarrow> bool" where
  "f32_is_finite x \<longleftrightarrow> f32_mag x < inf_mag"

text \<open>The signed magnitude orders all values that are not NaN; both zeros have magnitude 0.\<close>

definition f32_smag :: "f32 \<Rightarrow> int" where
  "f32_smag x = (if f32_sign x then - int (f32_mag x) else int (f32_mag x))"

definition f32_lt :: "f32 \<Rightarrow> f32 \<Rightarrow> bool" where
  "f32_lt a b \<longleftrightarrow> \<not> f32_is_nan a \<and> \<not> f32_is_nan b \<and> f32_smag a < f32_smag b"

definition f32_le :: "f32 \<Rightarrow> f32 \<Rightarrow> bool" where
  "f32_le a b \<longleftrightarrow> \<not> f32_is_nan a \<and> \<not> f32_is_nan b \<and> f32_smag a \<le> f32_smag b"

definition f32_eq :: "f32 \<Rightarrow> f32 \<Rightarrow> bool" where
  "f32_eq a b \<longleftrightarrow> \<not> f32_is_nan a \<and> \<not> f32_is_nan b \<and> f32_smag a = f32_smag b"

lemmas f32_class_defs = f32_is_nan_def f32_is_inf_def f32_is_finite_def
lemmas f32_order_defs = f32_lt_def f32_le_def f32_eq_def

lemma f32_mag_less: "f32_mag x < 2147483648"
  by (simp add: f32_mag_def)

lemma f32_make_unat:
  "m < 2 ^ 31 \<Longrightarrow> unat (f32_make s m) = m + (if s then 2 ^ 31 else 0)"
  unfolding f32_make_def by (rule unat_u32_of_nat) (auto simp: u32_max_def)

lemma f32_make_fields [simp]:
  "m < 2147483648 \<Longrightarrow> f32_sign (f32_make s m) = s"
  "m < 2147483648 \<Longrightarrow> f32_mag (f32_make s m) = m"
  by (simp_all add: f32_sign_def f32_mag_def f32_make_unat)

lemma split_sign_bit:
  "n < 4294967296 \<Longrightarrow> n = n mod 2147483648 + (if 2147483648 \<le> n then 2147483648 else 0)" for n :: nat
proof (cases "2147483648 \<le> n")
  case True
  assume "n < 4294967296"
  with True have "n - 2147483648 < 2147483648" by linarith
  with True show ?thesis by (simp add: le_mod_geq)
qed simp

lemma f32_unat: "unat w = f32_mag w + (if f32_sign w then 2147483648 else 0)" for w :: f32
  using split_sign_bit [OF u32_less_pow, of w] by (simp add: f32_mag_def f32_sign_def)

lemma f32_fields_eq: "f32_sign a = f32_sign b \<Longrightarrow> f32_mag a = f32_mag b \<Longrightarrow> a = b"
  by (simp add: word_unat_eq_iff f32_unat)

lemma f32_make_id: "f32_make (f32_sign x) (f32_mag x) = x"
  by (rule f32_fields_eq) (simp_all add: f32_mag_less)

lemma f32_class_cases:
  obtains "f32_is_nan x" | "f32_is_inf x" | "f32_is_finite x"
  by (meson f32_class_defs linorder_cases)

lemma f32_smag_make:
  "m < 2147483648 \<Longrightarrow> f32_smag (f32_make s m) = (if s then - int m else int m)"
  by (simp add: f32_smag_def)

lemma f32_constants [simp]:
  "f32_mag f32_inf = inf_mag" "\<not> f32_sign f32_inf"
  "f32_mag f32_ninf = inf_mag" "f32_sign f32_ninf"
  "f32_is_nan f32_nan" "f32_mag 0 = 0" "\<not> f32_sign 0"
  by (simp_all add: f32_mag_def f32_sign_def f32_inf_def f32_ninf_def f32_nan_def inf_mag_def
      f32_is_nan_def)

lemma f32_constants_class [simp]:
  "\<not> f32_is_nan f32_inf" "\<not> f32_is_nan f32_ninf" "\<not> f32_is_nan 0"
  "f32_is_inf f32_inf" "f32_is_inf f32_ninf" "\<not> f32_is_inf 0"
  "\<not> f32_is_finite f32_inf" "\<not> f32_is_finite f32_ninf" "f32_is_finite 0"
  "f32_smag f32_inf = int inf_mag" "f32_smag f32_ninf = - int inf_mag" "f32_smag 0 = 0"
  by (simp_all add: f32_class_defs f32_smag_def, simp_all add: inf_mag_def)

lemma f32_not_nan_bounds:
  "\<not> f32_is_nan x \<Longrightarrow> - int inf_mag \<le> f32_smag x \<and> f32_smag x \<le> int inf_mag"
  by (auto simp: f32_is_nan_def f32_smag_def)

lemma f32_finite_iff: "f32_is_finite x \<longleftrightarrow> \<not> f32_is_nan x \<and> \<not> f32_is_inf x"
  by (auto simp: f32_class_defs)

lemma f32_finite_not_nan: "f32_is_finite x \<Longrightarrow> \<not> f32_is_nan x"
  by (simp add: f32_class_defs)

lemma f32_le_inf: "\<not> f32_is_nan x \<Longrightarrow> f32_le x f32_inf"
  using f32_not_nan_bounds [of x] by (simp add: f32_le_def)

lemma f32_ninf_le: "\<not> f32_is_nan x \<Longrightarrow> f32_le f32_ninf x"
  using f32_not_nan_bounds [of x] by (simp add: f32_le_def)

section \<open>Numerical meaning\<close>

text \<open>
  A finite magnitude denotes \<open>f32_units\<close> multiples of \<open>2^-149\<close>, the least positive value:
  biased exponents 0 and 1 share the spacing, each further exponent doubles it.
\<close>

definition f32_units :: "nat \<Rightarrow> nat" where
  "f32_units m = (if m < 2 ^ 24 then m else (2 ^ 23 + m mod 2 ^ 23) * 2 ^ (m div 2 ^ 23 - 1))"

definition f32_sunits :: "f32 \<Rightarrow> int" where
  "f32_sunits x = (if f32_sign x then - int (f32_units (f32_mag x)) else int (f32_units (f32_mag x)))"

definition f32_real :: "f32 \<Rightarrow> real" where
  "f32_real x = real_of_int (f32_sunits x) / 2 ^ 149"

lemma f32_units_shape:
  assumes "2 ^ 24 \<le> m"
  obtains f e where "f32_units m = f * 2 ^ e" and "2 ^ 23 \<le> f" and "f < 2 ^ 24" and "1 \<le> e"
    and "m = f + e * 2 ^ 23"
proof
  let ?f = "2 ^ 23 + m mod 2 ^ 23" and ?e = "m div 2 ^ 23 - 1"
  show "f32_units m = ?f * 2 ^ ?e" using assms by (simp add: f32_units_def)
  show "(2::nat) ^ 23 \<le> ?f" by simp
  show "?f < 2 ^ 24" by simp
  have "2 \<le> m div 2 ^ 23" using assms by simp
  then show "1 \<le> ?e" by simp
  then show "m = ?f + ?e * 2 ^ 23"
    using assms mod_mult_div_eq [of m "2 ^ 23"] by (simp add: algebra_simps)
qed

lemma f32_units_Suc_less: "f32_units m < f32_units (Suc m)"
proof (cases "Suc m < 2 ^ 24")
  case True
  then show ?thesis by (simp add: f32_units_def)
next
  case False
  show ?thesis
  proof (cases "m < 2 ^ 24")
    case True
    with False have "m = 2 ^ 24 - 1" by simp
    then show ?thesis by (simp add: f32_units_def)
  next
    case ge: False
    define q r where "q = m div 8388608" and "r = m mod 8388608"
    have q: "2 \<le> q" using ge by (simp add: q_def)
    show ?thesis
    proof (cases "Suc r = 2 ^ 23")
      case True
      then have "Suc m div 2 ^ 23 = Suc q" and "Suc m mod 2 ^ 23 = 0"
        by (simp_all add: q_def r_def div_Suc mod_Suc)
      moreover from q obtain q' where q': "q = Suc q'" by (cases q) auto
      moreover have "(2 ^ 23 + r) * 2 ^ q' < 2 ^ 24 * (2::nat) ^ q'"
        using True by (intro mult_strict_right_mono) auto
      ultimately show ?thesis
        using ge False by (simp add: f32_units_def flip: q_def r_def)
    next
      case False
      then have "Suc m div 2 ^ 23 = q" and "Suc m mod 2 ^ 23 = Suc r"
        by (simp_all add: q_def r_def div_Suc mod_Suc)
      with ge show ?thesis by (simp add: f32_units_def flip: q_def r_def)
    qed
  qed
qed

lemma f32_units_mono_strict: "m < n \<Longrightarrow> f32_units m < f32_units n"
  by (rule lift_Suc_mono_less [where f = f32_units, OF f32_units_Suc_less])

lemma f32_units_less_iff [simp]: "f32_units m < f32_units n \<longleftrightarrow> m < n"
  by (rule strict_mono_less) (simp add: strict_mono_def f32_units_mono_strict)

lemma f32_units_0 [simp]: "f32_units 0 = 0"
  by (simp add: f32_units_def)

lemma f32_units_eq_0 [simp]: "f32_units m = 0 \<longleftrightarrow> m = 0"
  using f32_units_less_iff [of 0 m] by (cases m) auto

lemma f32_units_pos [simp]: "0 < f32_units m \<longleftrightarrow> 0 < m"
  using f32_units_less_iff [of 0 m] by simp

lemma f32_sunits_less_iff: "f32_sunits a < f32_sunits b \<longleftrightarrow> f32_smag a < f32_smag b"
proof -
  define m n where "m = f32_mag a" and "n = f32_mag b"
  have "- int (f32_units m) < int (f32_units n) \<longleftrightarrow> - int m < int n"
    using f32_units_pos [of m] f32_units_pos [of n] by linarith
  moreover have "\<not> int (f32_units m) < - int (f32_units n)" and "\<not> int m < - int n"
    by linarith+
  moreover have "int (f32_units m) < int (f32_units n) \<longleftrightarrow> int m < int n"
    and "- int (f32_units m) < - int (f32_units n) \<longleftrightarrow> - int m < - int n"
    by simp_all
  ultimately show ?thesis
    by (cases "f32_sign a"; cases "f32_sign b")
      (simp_all only: f32_sunits_def f32_smag_def if_True if_False m_def n_def)
qed

lemma f32_sunits_le_iff: "f32_sunits a \<le> f32_sunits b \<longleftrightarrow> f32_smag a \<le> f32_smag b"
  by (metis f32_sunits_less_iff linorder_not_less)

lemma f32_sunits_eq_iff: "f32_sunits a = f32_sunits b \<longleftrightarrow> f32_smag a = f32_smag b"
  by (simp add: order_eq_iff f32_sunits_le_iff)

lemma f32_lt_real:
  "f32_is_finite a \<Longrightarrow> f32_is_finite b \<Longrightarrow> f32_lt a b \<longleftrightarrow> f32_real a < f32_real b"
  by (simp add: f32_lt_def f32_finite_not_nan f32_real_def divide_less_cancel f32_sunits_less_iff)

section \<open>Rounding to nearest, ties to even\<close>

text \<open>Number of significant bits.\<close>

fun bitlen :: "nat \<Rightarrow> nat" where
  "bitlen n = (if n = 0 then 0 else Suc (bitlen (n div 2)))"

declare bitlen.simps [simp del]

lemma bitlen_le_iff: "bitlen n \<le> k \<longleftrightarrow> n < 2 ^ k"
proof (induction n arbitrary: k rule: bitlen.induct)
  case (1 n)
  show ?case
  proof (cases k)
    case 0
    then show ?thesis by (simp add: bitlen.simps [of n])
  next
    case (Suc j)
    with 1 [of j] show ?thesis by (auto simp: bitlen.simps [of n])
  qed
qed

lemma bitlen_mono: "m \<le> n \<Longrightarrow> bitlen m \<le> bitlen n"
  by (meson bitlen_le_iff order_le_less_trans order_refl)

lemma bitlen_ge: "k < bitlen n \<Longrightarrow> 2 ^ k \<le> n"
  using bitlen_le_iff [of n k] by linarith

text \<open>Drop \<open>k\<close> low bits, rounding to nearest and a tie to the even quotient.\<close>

definition rne_shift :: "nat \<Rightarrow> nat \<Rightarrow> nat" where
  "rne_shift n k =
    (let q = n div 2 ^ k; r = n mod 2 ^ k
     in if 2 ^ k < 2 * r \<or> (2 * r = 2 ^ k \<and> odd q) then q + 1 else q)"

lemma rne_shift_bounds: "n div 2 ^ k \<le> rne_shift n k" "rne_shift n k \<le> n div 2 ^ k + 1"
  by (simp_all add: rne_shift_def Let_def)

lemma rne_shift_mono:
  assumes "m \<le> n"
  shows "rne_shift m k \<le> rne_shift n k"
proof (cases "m div 2 ^ k = n div 2 ^ k")
  case True
  moreover have "m mod 2 ^ k \<le> n mod 2 ^ k"
    using assms True by (metis add_le_cancel_left mult_div_mod_eq)
  ultimately show ?thesis by (auto simp: rne_shift_def Let_def)
next
  case False
  then have "m div 2 ^ k + 1 \<le> n div 2 ^ k"
    using div_le_mono [OF assms, of "2 ^ k"] by linarith
  then show ?thesis
    using rne_shift_bounds(2) [of m k] rne_shift_bounds(1) [of n k] by linarith
qed

lemma rne_shift_exact [simp]: "rne_shift (q * 2 ^ k) k = q"
  by (simp add: rne_shift_def)

text \<open>
  Magnitude of the nearest float to \<open>n * 2^-(149 + s)\<close>: keep 24 significant bits but never finer
  than \<open>2^-149\<close>. A carry out of the significand moves to the next exponent by itself, because the
  exponent field sits just above it; past the largest finite value the result is infinity.
\<close>

definition round_mag :: "nat \<Rightarrow> nat \<Rightarrow> nat" where
  "round_mag s n =
    (let k = max s (bitlen n - 24) in min inf_mag (rne_shift n k + (k - s) * 2 ^ 23))"

lemma rne_shift_lower: "2 ^ (k + 23) \<le> n \<Longrightarrow> 2 ^ 23 \<le> rne_shift n k"
proof -
  assume "2 ^ (k + 23) \<le> n"
  then have "2 ^ 23 * 2 ^ k \<le> n" by (simp only: power_add mult.commute)
  then have "2 ^ 23 \<le> n div 2 ^ k" by (simp add: less_eq_div_iff_mult_less_eq)
  then show ?thesis using rne_shift_bounds(1) [of n k] by linarith
qed

lemma rne_shift_upper: "n < 2 ^ (k + 24) \<Longrightarrow> rne_shift n k \<le> 2 ^ 24"
proof -
  assume "n < 2 ^ (k + 24)"
  then have "n < 2 ^ 24 * 2 ^ k" by (simp only: power_add mult.commute)
  then have "n div 2 ^ k < 2 ^ 24" by (simp add: less_mult_imp_div_less)
  then show ?thesis using rne_shift_bounds(2) [of n k] by linarith
qed

lemma round_mag_mono:
  assumes "m \<le> n"
  shows "round_mag s m \<le> round_mag s n"
proof -
  define j k where "j = max s (bitlen m - 24)" and "k = max s (bitlen n - 24)"
  have jk: "s \<le> j" "j \<le> k"
    using bitlen_mono [OF assms] by (simp_all add: j_def k_def)
  have "rne_shift m j + (j - s) * 2 ^ 23 \<le> rne_shift n k + (k - s) * 2 ^ 23"
  proof (cases "j = k")
    case True
    then show ?thesis by (simp add: rne_shift_mono [OF assms])
  next
    case False
    with jk have lt: "j + 1 \<le> k" by simp
    then have "k + 23 < bitlen n" using jk by (simp add: k_def j_def split: if_splits)
    then have up: "2 ^ 23 \<le> rne_shift n k" by (intro rne_shift_lower bitlen_ge)
    have "bitlen m \<le> j + 24" by (simp add: j_def)
    then have lo: "rne_shift m j \<le> 2 ^ 24" by (intro rne_shift_upper) (simp only: bitlen_le_iff)
    have "(j - s + 1) * 2 ^ 23 \<le> (k - s) * 2 ^ 23" using lt jk by (intro mult_right_mono) auto
    with lo up show ?thesis by (simp add: algebra_simps)
  qed
  then show ?thesis
    unfolding round_mag_def Let_def j_def [symmetric] k_def [symmetric] by linarith
qed

lemma bitlen_scaled:
  assumes "2 ^ 23 \<le> f" and "f < 2 ^ 24"
  shows "bitlen (f * 2 ^ e) = e + 24"
proof (rule antisym)
  have "f * 2 ^ e < 2 ^ 24 * 2 ^ e" using assms by simp
  then show "bitlen (f * 2 ^ e) \<le> e + 24" by (simp add: bitlen_le_iff power_add mult.commute)
  have "2 ^ 23 * 2 ^ e \<le> f * 2 ^ e" using assms by simp
  then have "\<not> bitlen (f * 2 ^ e) \<le> e + 23" by (simp add: bitlen_le_iff power_add mult.commute not_less)
  then show "e + 24 \<le> bitlen (f * 2 ^ e)" by linarith
qed

text \<open>Rounding leaves a representable value alone.\<close>

lemma round_mag_exact:
  assumes "m \<le> inf_mag"
  shows "round_mag s (f32_units m * 2 ^ s) = m"
proof (cases "m < 2 ^ 24")
  case True
  then have "m * 2 ^ s < 2 ^ 24 * 2 ^ s" by simp
  then have "bitlen (m * 2 ^ s) \<le> s + 24" by (simp add: bitlen_le_iff power_add mult.commute)
  then have "max s (bitlen (m * 2 ^ s) - 24) = s" by simp
  with True assms show ?thesis by (simp add: round_mag_def Let_def f32_units_def)
next
  case False
  then obtain f e where m: "f32_units m = f * 2 ^ e" "2 ^ 23 \<le> f" "f < 2 ^ 24" "1 \<le> e"
    "m = f + e * 2 ^ 23"
    by (meson f32_units_shape not_less)
  have "f32_units m * 2 ^ s = f * 2 ^ (e + s)" by (simp add: m(1) power_add)
  moreover have "max s (bitlen (f * 2 ^ (e + s)) - 24) = e + s"
    using bitlen_scaled [OF m(2,3), of "e + s"] by simp
  ultimately show ?thesis
    using assms m(5) by (simp add: round_mag_def Let_def del: rne_shift_exact)
      (simp add: rne_shift_exact min_absorb2)
qed

lemma round_mag_le_inf [simp]: "round_mag s n \<le> inf_mag"
  by (simp add: round_mag_def Let_def)

lemma round_mag_less [simp]: "round_mag s n < 2147483648"
  using round_mag_le_inf [of s n] by (simp add: inf_mag_def)

lemma round_mag_0 [simp]: "round_mag s 0 = 0"
  by (simp add: round_mag_def Let_def rne_shift_def bitlen.simps)

section \<open>Arithmetic\<close>

definition f32_neg :: "f32 \<Rightarrow> f32" where
  "f32_neg x = f32_make (\<not> f32_sign x) (f32_mag x)"

definition f32_add :: "f32 \<Rightarrow> f32 \<Rightarrow> f32" where
  "f32_add a b =
    (if f32_is_nan a \<or> f32_is_nan b then f32_nan
     else if f32_is_inf a then
       (if f32_is_inf b \<and> f32_sign a \<noteq> f32_sign b then f32_nan else a)
     else if f32_is_inf b then b
     else let v = f32_sunits a + f32_sunits b
       in if v = 0 then f32_make (f32_sign a \<and> f32_sign b) 0
          else f32_make (v < 0) (round_mag 0 (nat \<bar>v\<bar>)))"

definition f32_sub :: "f32 \<Rightarrow> f32 \<Rightarrow> f32" where
  "f32_sub a b = f32_add a (f32_neg b)"

definition f32_mul :: "f32 \<Rightarrow> f32 \<Rightarrow> f32" where
  "f32_mul a b =
    (let s = (f32_sign a \<noteq> f32_sign b)
     in if f32_is_nan a \<or> f32_is_nan b then f32_nan
        else if f32_is_inf a \<or> f32_is_inf b then
          (if f32_mag a = 0 \<or> f32_mag b = 0 then f32_nan else f32_make s inf_mag)
        else f32_make s (round_mag 149 (f32_units (f32_mag a) * f32_units (f32_mag b))))"

definition round_signed :: "int \<Rightarrow> int" where
  "round_signed v = (if v < 0 then - int (round_mag 0 (nat (- v))) else int (round_mag 0 (nat v)))"

lemma round_signed_mono: "v \<le> w \<Longrightarrow> round_signed v \<le> round_signed w"
  by (auto simp: round_signed_def intro!: round_mag_mono)

lemma round_signed_sunits: "\<not> f32_is_nan x \<Longrightarrow> round_signed (f32_sunits x) = f32_smag x"
  using round_mag_exact [of "f32_mag x" 0]
  by (auto simp: round_signed_def f32_sunits_def f32_smag_def f32_is_nan_def)

lemma f32_neg_simps [simp]:
  "f32_sign (f32_neg x) \<longleftrightarrow> \<not> f32_sign x" "f32_mag (f32_neg x) = f32_mag x"
  "f32_is_nan (f32_neg x) \<longleftrightarrow> f32_is_nan x" "f32_is_inf (f32_neg x) \<longleftrightarrow> f32_is_inf x"
  "f32_is_finite (f32_neg x) \<longleftrightarrow> f32_is_finite x" "f32_smag (f32_neg x) = - f32_smag x"
  by (simp_all add: f32_neg_def f32_class_defs f32_smag_def f32_mag_less)

lemma f32_add_finite:
  assumes "f32_is_finite a" and "f32_is_finite b"
  shows "f32_smag (f32_add a b) = round_signed (f32_sunits a + f32_sunits b)"
    and "\<not> f32_is_nan (f32_add a b)"
proof -
  have nn: "\<not> f32_is_nan a" "\<not> f32_is_nan b" "\<not> f32_is_inf a" "\<not> f32_is_inf b"
    using assms by (simp_all add: f32_class_defs)
  show "f32_smag (f32_add a b) = round_signed (f32_sunits a + f32_sunits b)"
    by (simp add: f32_add_def nn Let_def f32_smag_make round_signed_def)
  show "\<not> f32_is_nan (f32_add a b)"
    by (simp add: f32_add_def nn Let_def) (simp add: f32_is_nan_def not_less)
qed

text \<open>Adding something that is not negative never decreases a value.\<close>

lemma f32_add_ge:
  assumes "\<not> f32_is_nan (f32_add a b)" and "0 \<le> f32_smag b"
  shows "f32_smag a \<le> f32_smag (f32_add a b)"
proof -
  have nn: "\<not> f32_is_nan a" "\<not> f32_is_nan b"
    using assms(1) by (auto simp: f32_add_def)
  show ?thesis
  proof (cases "f32_is_finite a \<and> f32_is_finite b")
    case True
    have "f32_sunits 0 \<le> f32_sunits b"
      using assms(2) by (simp only: f32_sunits_le_iff) simp
    then have "f32_sunits a \<le> f32_sunits a + f32_sunits b" by (simp add: f32_sunits_def)
    then show ?thesis
      using True nn by (metis f32_add_finite(1) round_signed_mono round_signed_sunits)
  next
    case False
    then consider "f32_is_inf a" | "\<not> f32_is_inf a" "f32_is_inf b"
      using nn by (auto simp: f32_class_defs)
    then show ?thesis
    proof cases
      case 1
      then show ?thesis using nn assms(1) by (auto simp: f32_add_def split: if_splits)
    next
      case 2
      then have "f32_smag b = int inf_mag"
        using assms(2) by (auto simp: f32_smag_def f32_is_inf_def inf_mag_def split: if_splits)
      with 2 nn f32_not_nan_bounds [of a] show ?thesis by (simp add: f32_add_def)
    qed
  qed
qed

lemma f32_sub_le:
  assumes "\<not> f32_is_nan (f32_sub a b)" and "0 \<le> f32_smag b"
  shows "f32_smag (f32_sub a b) \<le> f32_smag a"
proof -
  have flip: "f32_smag (f32_add x y) = - f32_smag (f32_add (f32_neg x) (f32_neg y))"
    if "\<not> f32_is_nan (f32_add x y)" for x y
  proof -
    have "f32_sunits (f32_neg z) = - f32_sunits z" for z by (simp add: f32_sunits_def)
    moreover have "round_signed (- v) = - round_signed v" for v by (simp add: round_signed_def)
    ultimately have "f32_smag (f32_add (f32_neg x) (f32_neg y)) = - f32_smag (f32_add x y)"
      if "f32_is_finite x" "f32_is_finite y"
      using that f32_add_finite(1) [of "f32_neg x" "f32_neg y"] f32_add_finite(1) [of x y]
      by (metis f32_neg_simps(5) minus_add_distrib)
    then show ?thesis
      using that by (auto simp: f32_add_def f32_finite_iff split: if_splits)
  qed
  have "\<not> f32_is_nan (f32_add (f32_neg a) b)"
  proof (cases "f32_is_finite a \<and> f32_is_finite b")
    case True
    then show ?thesis by (simp add: f32_add_finite(2))
  next
    case False
    then show ?thesis
      using assms(1) by (auto simp: f32_sub_def f32_add_def f32_finite_iff split: if_splits)
  qed
  from f32_add_ge [OF this assms(2)] have "- f32_smag a \<le> f32_smag (f32_add (f32_neg a) b)"
    by simp
  moreover have "f32_neg (f32_neg b) = b"
    by (rule f32_fields_eq) simp_all
  ultimately show ?thesis
    using flip [of a "f32_neg b"] assms(1) by (simp add: f32_sub_def)
qed

lemma f32_mul_nonneg:
  "\<not> f32_is_nan (f32_mul a b) \<Longrightarrow> \<not> f32_sign a \<Longrightarrow> \<not> f32_sign b \<Longrightarrow> 0 \<le> f32_smag (f32_mul a b)"
  by (auto simp: f32_mul_def Let_def f32_smag_make inf_mag_def split: if_splits)

lemma f32_mul_commute: "f32_mul a b = f32_mul b a"
proof -
  have s: "(f32_sign a \<noteq> f32_sign b) = (f32_sign b \<noteq> f32_sign a)" by blast
  show ?thesis
    unfolding f32_mul_def Let_def s by (simp add: mult.commute disj_commute)
qed

end
