(* ===== verification/Recast_Types.thy ===== *)
theory Recast_Types
  imports Recast_Prelude Float32
begin

text \<open>
  The plain data of src/include/recastlib/types.h, quantizer.h and fastscan.h, and the interval
  endpoints of a distance estimate.
\<close>

section \<open>Records and enumerations\<close>

record metadata =
  md_norm :: u8
  md_scale :: u8
  md_error :: u8

record metadata_decode_parameters =
  norm_max :: f32
  norm_step :: f32
  scale_max :: f32
  scale_step :: f32

record query_context =
  centered_query :: "f32 list"
  transformed_query :: "f32 list"
  dot_lut :: "f32 list"
  query_norm :: f32
  query_norm_squared :: f32
  mean_dot_query :: f32

text \<open>The optional explicit ids are \<open>None\<close> for a null pointer.\<close>

record code_block_view =
  packed_codes :: bytes
  packed_metadata :: bytes
  block_ids :: "u32 list option"
  block_rows :: nat
  padded_rows :: nat
  block_width :: nat
  implicit_id_base :: u32

record distance_estimate =
  de_id :: u32
  estimated_distance :: f32
  uncertainty :: f32

record selection_result =
  candidates :: "distance_estimate list"
  kth_upper_bound :: f32
  truncated :: bool

record neighbor =
  nb_id :: u32
  nb_distance :: f32

datatype distance_metric = SquaredL2 | InnerProduct | Cosine

datatype grouping_mode = Uniform | Uneven

datatype transform_mode = TransformNone | Pca | ParametricOpq

datatype centering_mode = CenteringNone | Mean

datatype lut_mode = Auto | ExactFloat | QuantizedUint8 | ScalarFloat

section \<open>Interval endpoints\<close>

definition estimate_lower :: "f32 \<Rightarrow> distance_estimate \<Rightarrow> f32" where
  "estimate_lower z d =
    (if f32_eq z 0 \<or> f32_eq (uncertainty d) 0 then estimated_distance d
     else if f32_is_inf (uncertainty d) then f32_ninf
     else let endpoint = f32_sub (estimated_distance d) (f32_mul z (uncertainty d))
          in if f32_is_nan endpoint then f32_ninf else endpoint)"

definition estimate_upper :: "f32 \<Rightarrow> distance_estimate \<Rightarrow> f32" where
  "estimate_upper z d =
    (if f32_eq z 0 \<or> f32_eq (uncertainty d) 0 then estimated_distance d
     else if f32_is_inf (uncertainty d) then f32_inf
     else let endpoint = f32_add (estimated_distance d) (f32_mul z (uncertainty d))
          in if f32_is_nan endpoint then f32_inf else endpoint)"

lemma endpoints_not_nan:
  assumes "\<not> f32_is_nan (estimated_distance d)"
  shows "\<not> f32_is_nan (estimate_lower z d)" and "\<not> f32_is_nan (estimate_upper z d)"
  using assms by (auto simp: estimate_lower_def estimate_upper_def Let_def)

text \<open>A radius is a product of two non-negative floats, so it never moves an endpoint inwards.\<close>

lemma radius_nonneg:
  "\<not> f32_is_nan (f32_mul z u) \<Longrightarrow> 0 \<le> f32_smag z \<Longrightarrow> 0 \<le> f32_smag u \<Longrightarrow>
    0 \<le> f32_smag (f32_mul z u)"
  by (auto simp: f32_mul_def Let_def f32_smag_make f32_smag_def inf_mag_def split: if_splits)

lemma f32_add_not_nanD: "\<not> f32_is_nan (f32_add a b) \<Longrightarrow> \<not> f32_is_nan b"
  by (auto simp: f32_add_def)

lemma endpoints_enclose:
  assumes "\<not> f32_is_nan (estimated_distance d)" and "0 \<le> f32_smag z"
    and "0 \<le> f32_smag (uncertainty d)"
  shows "f32_le (estimate_lower z d) (estimated_distance d) \<and>
    f32_le (estimated_distance d) (estimate_upper z d)"
proof
  let ?e = "estimated_distance d" and ?r = "f32_mul z (uncertainty d)"
  have sub: "f32_smag (f32_sub ?e ?r) \<le> f32_smag ?e" if "\<not> f32_is_nan (f32_sub ?e ?r)"
  proof (rule f32_sub_le [OF that])
    have "\<not> f32_is_nan (f32_neg ?r)"
      using that f32_add_not_nanD [of ?e "f32_neg ?r"] by (simp only: f32_sub_def) simp
    then show "0 \<le> f32_smag ?r" using assms by (simp add: radius_nonneg)
  qed
  have add: "f32_smag ?e \<le> f32_smag (f32_add ?e ?r)" if "\<not> f32_is_nan (f32_add ?e ?r)"
    using assms that by (intro f32_add_ge radius_nonneg) (auto dest: f32_add_not_nanD)
  show "f32_le (estimate_lower z d) ?e"
    using assms sub f32_not_nan_bounds [OF assms(1)]
    by (auto simp: estimate_lower_def f32_le_def Let_def)
  show "f32_le ?e (estimate_upper z d)"
    using assms add f32_not_nan_bounds [OF assms(1)]
    by (auto simp: estimate_upper_def f32_le_def Let_def)
qed

text \<open>
  The two endpoints of an estimate enclose it. For a non-negative confidence multiplier and a
  non-negative radius, \<open>lower(z) <= estimated_distance <= upper(z)\<close> holds in the binary32
  arithmetic of the code, with all its roundings, overflows and the infinite radius of an
  overflowed record, and no endpoint is a NaN when the estimate is not one.
\<close>

theorem endpoints_enclose_estimate:
  assumes "\<not> f32_is_nan (estimated_distance d)" and "0 \<le> f32_smag z"
    and "0 \<le> f32_smag (uncertainty d)"
  shows "f32_le (estimate_lower z d) (estimated_distance d) \<and>
    f32_le (estimated_distance d) (estimate_upper z d)"
  using assms by (rule endpoints_enclose)

theorem endpoints_enclose_estimate_witness:
  "let d = \<lparr>de_id = 7, estimated_distance = 0x40000000, uncertainty = 0x3F800000\<rparr>
   in f32_le (estimate_lower 0x3F000000 d) 0x40000000 \<and>
      f32_le 0x40000000 (estimate_upper 0x3F000000 d)"
  using endpoints_enclose_estimate
    [of "\<lparr>de_id = 7, estimated_distance = 0x40000000, uncertainty = 0x3F800000\<rparr>" "0x3F000000"]
  by (simp add: f32_is_nan_def f32_smag_def f32_mag_def f32_sign_def inf_mag_def)

end
