(* ===== verification/Bounded_Heap.thy ===== *)
theory Bounded_Heap
  imports Recast_Prelude "HOL-Library.Multiset"
begin

text \<open>
  \<open>std::priority_queue\<close> and its use as a bounded selector of the \<open>k\<close> smallest elements.

  The queue of the standard library is modelled by the list of its elements in descending key
  order: \<open>top\<close> is the head. Its interface is the locale \<open>max_heap\<close>; the two bounded-insertion
  idioms of the sources (replace the top when the new element is smaller, and push followed by a
  pop when the queue got too big) are proved once inside the locale to keep the \<open>k\<close> smallest
  elements seen.
\<close>

section \<open>The k smallest elements of a multiset\<close>

definition smallest_part :: "('a \<Rightarrow> 'k :: linorder) \<Rightarrow> nat \<Rightarrow> 'a multiset \<Rightarrow> 'a multiset \<Rightarrow> bool" where
  "smallest_part key k S T \<longleftrightarrow>
    T \<subseteq># S \<and> size T = min k (size S) \<and> (\<forall>x \<in># T. \<forall>y \<in># S - T. key x \<le> key y)"

lemma smallest_part_empty [simp]: "smallest_part key k {#} {#}"
  by (simp add: smallest_part_def)

lemma smallest_part_grow:
  assumes "smallest_part key k S T" and "size T < k"
  shows "smallest_part key k (add_mset x S) (add_mset x T)"
proof -
  have "T \<subseteq># S" and sz: "size T = size S" using assms by (auto simp: smallest_part_def)
  then obtain R where "S = T + R" by (metis mset_subset_eq_exists_conv)
  with sz have "T = S" by simp
  with assms show ?thesis by (simp add: smallest_part_def)
qed

lemma smallest_part_reject:
  assumes "smallest_part key k S T" and "size T = k" and "\<And>y. y \<in># T \<Longrightarrow> key y \<le> key x"
  shows "smallest_part key k (add_mset x S) T"
proof -
  obtain R where S: "S = T + R"
    using assms(1) by (metis mset_subset_eq_exists_conv smallest_part_def)
  then have "add_mset x S - T = add_mset x R" by simp
  with assms S show ?thesis by (auto simp: smallest_part_def)
qed

lemma smallest_part_replace:
  assumes "smallest_part key k S T" and "size T = k" and "t \<in># T"
    and "\<And>y. y \<in># T \<Longrightarrow> key y \<le> key t" and "key x \<le> key t"
  shows "smallest_part key k (add_mset x S) (add_mset x (T - {#t#}))"
proof -
  obtain U where T: "T = add_mset t U" using assms(3) by (metis mset_add)
  from assms(1) have sub: "add_mset t U \<subseteq># S" and le: "\<And>a b. a \<in># T \<Longrightarrow> b \<in># S - T \<Longrightarrow> key a \<le> key b"
    by (auto simp: smallest_part_def T)
  then obtain R where S: "S = add_mset t U + R" by (metis mset_subset_eq_exists_conv)
  have R: "key a \<le> key b" if "a \<in># T" "b \<in># R" for a b
    using le [OF that(1), of b] that(2) by (simp add: S T)
  have "key a \<le> key b" if "a \<in># add_mset x U" "b \<in># add_mset t R" for a b
  proof (cases "a = x \<and> a \<notin># U")
    case True
    then show ?thesis using that(2) assms(5) R [of t b] by (auto simp: T intro: order_trans)
  next
    case False
    then have "a \<in># T" using that(1) by (auto simp: T)
    then show ?thesis using that(2) assms(4) [of a] R [of a b] by auto
  qed
  moreover have "add_mset x S - add_mset x U = add_mset t R" by (simp add: S)
  moreover have "size (add_mset x U) = min k (size (add_mset x S))"
    using assms(2) by (simp add: S T)
  ultimately show ?thesis
    by (simp add: smallest_part_def T) (simp add: S)
qed

text \<open>The selected keys are the first \<open>k\<close> of the sorted keys, whatever the ties.\<close>

lemma sorted_list_of_multiset_append:
  assumes "\<And>a b. a \<in># A \<Longrightarrow> b \<in># B \<Longrightarrow> a \<le> b"
  shows "sorted_list_of_multiset (A + B) = sorted_list_of_multiset A @ sorted_list_of_multiset B"
proof -
  have "sorted (sorted_list_of_multiset A @ sorted_list_of_multiset B)"
    using assms by (simp add: sorted_append)
  then show ?thesis
    by (metis mset_append mset_sorted_list_of_multiset sorted_list_of_multiset_mset sorted_sort_id)
qed

lemma smallest_part_keys:
  assumes "smallest_part key k S T"
  shows "sorted_list_of_multiset (image_mset key T)
    = take k (sorted_list_of_multiset (image_mset key S))"
proof -
  from assms have S: "S = T + (S - T)" and sz: "size T = min k (size S)"
    by (auto simp: smallest_part_def)
  have "sorted_list_of_multiset (image_mset key T + image_mset key (S - T)) =
      sorted_list_of_multiset (image_mset key T) @ sorted_list_of_multiset (image_mset key (S - T))"
    using assms by (intro sorted_list_of_multiset_append) (auto simp: smallest_part_def)
  then have app: "sorted_list_of_multiset (image_mset key S) =
      sorted_list_of_multiset (image_mset key T) @ sorted_list_of_multiset (image_mset key (S - T))"
    by (metis S image_mset_union)
  have "length (sorted_list_of_multiset (image_mset key M)) = size M" for M :: "'a multiset"
    by (metis mset_sorted_list_of_multiset size_image_mset size_mset)
  moreover have "size (S - T) = 0" if "size T < k"
    using that sz assms by (auto simp: smallest_part_def size_Diff_submset)
  ultimately show ?thesis
    using sz by (cases "size T < k") (auto simp: app)
qed

lemma smallest_part_max:
  assumes "smallest_part key k S T" and "0 < k" and "k \<le> size S"
    and "t \<in># T" and "\<And>y. y \<in># T \<Longrightarrow> key y \<le> key t"
  shows "key t = sorted_list_of_multiset (image_mset key S) ! (k - 1)"
proof -
  let ?s = "sorted_list_of_multiset (image_mset key T)"
  have len: "length ?s = k"
    using assms by (metis min.absorb1 mset_sorted_list_of_multiset size_image_mset size_mset smallest_part_def)
  have "key t \<in> set ?s" using assms(4) by simp
  then obtain i where i: "i < k" "?s ! i = key t" using len by (metis in_set_conv_nth)
  have "?s ! i \<le> ?s ! (k - 1)"
    using i(1) len by (intro sorted_nth_mono sorted_sorted_list_of_multiset) auto
  moreover have "?s ! (k - 1) \<in> set ?s" using len assms(2) by (intro nth_mem) auto
  then have "?s ! (k - 1) \<le> key t" using assms(5) by auto
  ultimately have "key t = ?s ! (k - 1)" using i(2) by simp
  also have "?s ! (k - 1) = sorted_list_of_multiset (image_mset key S) ! (k - 1)"
    using assms(2) by (simp add: smallest_part_keys [OF assms(1)])
  finally show ?thesis .
qed

section \<open>The queue interface\<close>

locale max_heap =
  fixes key :: "'a \<Rightarrow> 'k :: linorder"
    and hempty :: 'h
    and push :: "'a \<Rightarrow> 'h \<Rightarrow> 'h"
    and top :: "'h \<Rightarrow> 'a"
    and pop :: "'h \<Rightarrow> 'h"
    and invar :: "'h \<Rightarrow> bool"
    and items :: "'h \<Rightarrow> 'a multiset"
  assumes invar_empty: "invar hempty"
    and items_empty: "items hempty = {#}"
    and invar_push: "invar h \<Longrightarrow> invar (push x h)"
    and items_push: "invar h \<Longrightarrow> items (push x h) = add_mset x (items h)"
    and top_in: "invar h \<Longrightarrow> items h \<noteq> {#} \<Longrightarrow> top h \<in># items h"
    and top_max: "invar h \<Longrightarrow> y \<in># items h \<Longrightarrow> key y \<le> key (top h)"
    and invar_pop: "invar h \<Longrightarrow> invar (pop h)"
    and items_pop: "invar h \<Longrightarrow> items h \<noteq> {#} \<Longrightarrow> items (pop h) = items h - {#top h#}"
begin

lemma grow:
  "invar h \<Longrightarrow> smallest_part key k S (items h) \<Longrightarrow> size (items h) < k \<Longrightarrow>
    invar (push x h) \<and> smallest_part key k (add_mset x S) (items (push x h))"
  by (simp add: invar_push items_push smallest_part_grow)

text \<open>Replace the top when the new element is smaller.\<close>

lemma replace_top:
  assumes "invar h" and "smallest_part key k S (items h)" and "size (items h) = k" and "0 < k"
    and "key x \<le> key (top h)"
  shows "invar (push x (pop h)) \<and> smallest_part key k (add_mset x S) (items (push x (pop h)))"
proof -
  have ne: "items h \<noteq> {#}" using assms(3,4) by auto
  then show ?thesis
    using smallest_part_replace [OF assms(2,3) top_in [OF assms(1) ne] top_max [OF assms(1)] assms(5)]
    by (simp add: assms(1) invar_push invar_pop items_push items_pop)
qed

lemma reject:
  assumes "invar h" and "smallest_part key k S (items h)" and "size (items h) = k"
    and "0 < k \<Longrightarrow> key (top h) \<le> key x"
  shows "smallest_part key k (add_mset x S) (items h)"
proof (rule smallest_part_reject [OF assms(2,3)])
  fix y assume y: "y \<in># items h"
  then have "0 < k" using assms(3) by (cases k) auto
  then show "key y \<le> key x" using top_max [OF assms(1) y] assms(4) by (meson order_trans)
qed

text \<open>Push, then pop when more than \<open>k\<close> elements are queued.\<close>

lemma push_pop:
  assumes "invar h" and "smallest_part key k S (items h)" and "size (items h) = k"
  shows "smallest_part key k (add_mset x S) (items (pop (push x h)))"
proof -
  let ?h = "push x h"
  have inv: "invar ?h" using assms(1) by (rule invar_push)
  have it: "items ?h = add_mset x (items h)" using assms(1) by (rule items_push)
  have pop: "items (pop ?h) = items ?h - {#top ?h#}"
    using inv by (rule items_pop) (simp add: it)
  have in_: "top ?h \<in># add_mset x (items h)"
    using top_in [OF inv] by (simp add: it)
  have mx: "key y \<le> key (top ?h)" if "y \<in># add_mset x (items h)" for y
    using top_max [OF inv, of y] that by (simp add: it)
  show ?thesis
  proof (cases "top ?h = x")
    case True
    then have "items (pop ?h) = items h" by (simp add: pop it)
    moreover have "smallest_part key k (add_mset x S) (items h)"
      using assms(2,3) mx True by (intro smallest_part_reject) auto
    ultimately show ?thesis by simp
  next
    case False
    with in_ have t: "top ?h \<in># items h" by simp
    have "items (pop ?h) = add_mset x (items h - {#top ?h#})"
      using False by (simp add: pop it)
    moreover have "smallest_part key k (add_mset x S) (add_mset x (items h - {#top ?h#}))"
      using assms(2,3) t mx by (intro smallest_part_replace) auto
    ultimately show ?thesis by simp
  qed
qed

lemma top_is_kth:
  assumes "invar h" and "smallest_part key k S (items h)" and "0 < k" and "k \<le> size S"
  shows "key (top h) = sorted_list_of_multiset (image_mset key S) ! (k - 1)"
proof -
  have "items h \<noteq> {#}" using assms(2-4) by (auto simp: smallest_part_def)
  then show ?thesis
    using smallest_part_max [OF assms(2-4) top_in [OF assms(1)] top_max [OF assms(1)]] by blast
qed

end

section \<open>std::priority\_queue\<close>

text \<open>
  Elements in descending key order. \<open>pop\<close> and \<open>top\<close> on an empty queue are undefined
  behaviour in C++; the sources call them on non-empty queues only.
\<close>

fun pq_push :: "('a \<Rightarrow> 'k :: linorder) \<Rightarrow> 'a \<Rightarrow> 'a list \<Rightarrow> 'a list" where
  "pq_push key x [] = [x]"
| "pq_push key x (y # ys) = (if key y \<le> key x then x # y # ys else y # pq_push key x ys)"

definition pq_top :: "'a list \<Rightarrow> 'a" where
  "pq_top h = hd h"

definition pq_pop :: "'a list \<Rightarrow> 'a list" where
  "pq_pop h = tl h"

definition pq_ok :: "('a \<Rightarrow> 'k :: linorder) \<Rightarrow> 'a list \<Rightarrow> bool" where
  "pq_ok key h \<longleftrightarrow> sorted_wrt (\<lambda>a b. key b \<le> key a) h"

lemma mset_pq_push [simp]: "mset (pq_push key x h) = add_mset x (mset h)"
  by (induction h) auto

lemma set_pq_push [simp]: "set (pq_push key x h) = insert x (set h)"
  using mset_pq_push [of key x h] by (metis set_mset_add_mset_insert set_mset_mset)

lemma length_pq_push [simp]: "length (pq_push key x h) = Suc (length h)"
  by (induction h) auto

lemma pq_ok_push: "pq_ok key h \<Longrightarrow> pq_ok key (pq_push key x h)"
  unfolding pq_ok_def by (induction h) (auto intro: order_trans)

lemma pq_ok_Nil [simp]: "pq_ok key []"
  by (simp add: pq_ok_def)

lemma pq_ok_Cons: "pq_ok key (x # xs) \<longleftrightarrow> (\<forall>y \<in> set xs. key y \<le> key x) \<and> pq_ok key xs"
  by (simp add: pq_ok_def)

interpretation pq: max_heap key "[]" "pq_push key" pq_top pq_pop "pq_ok key" mset
  for key :: "'a \<Rightarrow> 'k :: linorder"
proof (unfold_locales, goal_cases)
  case (5 h)
  then show ?case by (cases h) (simp_all add: pq_top_def)
next
  case (6 h y)
  then show ?case by (cases h) (auto simp: pq_top_def pq_ok_Cons)
next
  case (7 h)
  then show ?case by (cases h) (simp_all add: pq_pop_def pq_ok_Cons)
next
  case (8 h)
  then show ?case by (cases h) (simp_all add: pq_pop_def pq_top_def)
qed (simp_all add: pq_ok_push)

end
