(* ===== verification/Interval_Threshold.thy ===== *)
theory Interval_Threshold
  imports Recast_Types Bounded_Heap "HOL-Library.Product_Lexorder"
begin

text \<open>
  The fuzzy rank threshold of src/src/interval_selection_internal.h: a cut (estimate, id) that keeps
  between \<open>q_min\<close> and \<open>q_max\<close> of the rows, found by sampling with at most 200 rounds and, failing
  that, by an exact selection. The lemmas show that the two internal consistency checks of the code
  never fire and that the cut keeps exactly the announced number of rows, whatever the samples are.
\<close>

section \<open>Definitions\<close>

record fuzzy_rank_threshold =
  ft_estimate :: f32
  ft_id :: u32
  ft_output_size :: nat
  ft_equal_to_keep :: nat

definition fuzzy_median3 :: "f32 \<Rightarrow> f32 \<Rightarrow> f32 \<Rightarrow> f32" where
  "fuzzy_median3 a b c =
    (let (a, b) = (if f32_lt b a then (b, a) else (a, b))
     in if f32_lt b c then b else if f32_lt a c then c else a)"

definition big_prime :: nat where
  "big_prime = 6700417"

text \<open>The sampling loop from index \<open>i\<close> with \<open>n\<close> rounds left; it breaks at the third sample.\<close>

fun sample_loop :: "f32 list \<Rightarrow> f32 \<Rightarrow> f32 \<Rightarrow> nat \<Rightarrow> nat \<Rightarrow> f32 list \<Rightarrow> f32 list" where
  "sample_loop vals lower upper i 0 sample = sample"
| "sample_loop vals lower upper i (Suc n) sample =
    (let v = vals ! (((i * big_prime) mod 2 ^ 64) mod length vals);
         sample' = (if f32_lt lower v \<and> f32_lt v upper then sample @ [v] else sample)
     in if length sample' = 3 then sample' else sample_loop vals lower upper (i + 1) n sample')"

definition sample_fuzzy_threshold :: "f32 list \<Rightarrow> f32 \<Rightarrow> f32 \<Rightarrow> f32" where
  "sample_fuzzy_threshold vals lower upper =
    (let sample = sample_loop vals lower upper 0 (length vals) []
     in if length sample = 3 then fuzzy_median3 (sample ! 0) (sample ! 1) (sample ! 2)
        else if sample = [] then lower else sample ! 0)"

text \<open>How many values are less than, and equal to, the threshold.\<close>

fun count_fuzzy_threshold :: "f32 list \<Rightarrow> f32 \<Rightarrow> nat \<times> nat" where
  "count_fuzzy_threshold [] t = (0, 0)"
| "count_fuzzy_threshold (v # vs) t =
    (let (n_less, n_equal) = count_fuzzy_threshold vs t
     in (n_less + of_bool (f32_lt v t), n_equal + of_bool (f32_eq v t)))"

text \<open>
  \<open>std::nth_element\<close> leaves at position \<open>k\<close> an element of rank \<open>k\<close> under \<open>operator<\<close>. Elements that
  the order does not separate (the two zeros) are interchangeable below.
\<close>

definition nth_element :: "('a \<Rightarrow> 'k :: linorder) \<Rightarrow> 'a list \<Rightarrow> nat \<Rightarrow> 'a" where
  "nth_element key xs k = sort_key key xs ! k"

text \<open>The search loop: \<open>Some (threshold, n_less, n_equal, output)\<close> once \<open>found\<close>.\<close>

fun fuzzy_search :: "nat \<Rightarrow> f32 list \<Rightarrow> nat \<Rightarrow> nat \<Rightarrow> f32 \<Rightarrow> f32 \<Rightarrow> f32 \<Rightarrow>
    (f32 \<times> nat \<times> nat \<times> nat) option" where
  "fuzzy_search 0 es q_min q_max t lower upper = None"
| "fuzzy_search (Suc n) es q_min q_max t lower upper =
    (let (n_less, n_equal) = count_fuzzy_threshold es t
     in if n_less \<le> q_min \<and> q_min \<le> n_less + n_equal then Some (t, n_less, n_equal, q_min)
        else if q_min < n_less \<and> n_less \<le> q_max then Some (t, n_less, n_equal, n_less)
        else let lower' = (if n_less \<le> q_min then t else lower);
                 upper' = (if n_less \<le> q_min then upper else t);
                 nxt = sample_fuzzy_threshold es lower' upper'
             in if f32_eq nxt lower' then None
                else fuzzy_search n es q_min q_max nxt lower' upper')"

definition fuzzy_rounds :: nat where
  "fuzzy_rounds = 200"

text \<open>Threshold, counts and output size: by sampling when there are three rows, else exactly.\<close>

definition fuzzy_partition :: "f32 list \<Rightarrow> nat \<Rightarrow> nat \<Rightarrow> f32 \<times> nat \<times> nat \<times> nat" where
  "fuzzy_partition es q_min q_max =
    (case (if 3 \<le> length es
           then fuzzy_search fuzzy_rounds es q_min q_max
                  (fuzzy_median3 (es ! 0) (es ! (length es div 2)) (es ! (length es - 1)))
                  f32_ninf f32_inf
           else None) of
       Some r \<Rightarrow> r
     | None \<Rightarrow>
         (let t = nth_element f32_smag es (q_min - 1);
              (n_less, n_equal) = count_fuzzy_threshold es t
          in (t, n_less, n_equal, q_min)))"

definition find_fuzzy_rank_threshold ::
    "f32 list \<Rightarrow> u32 list \<Rightarrow> nat \<Rightarrow> nat \<Rightarrow> fuzzy_rank_threshold res" where
  "find_fuzzy_rank_threshold es vids q_min q_max =
    (if q_min = 0 \<or> q_min > q_max \<or> q_max \<ge> length es
     then Inl (Invalid_argument ''invalid fuzzy rank partition input'')
     else let (t, n_less, n_equal, output) = fuzzy_partition es q_min q_max
          in if n_less > output \<or> output - n_less > n_equal
             then Inl (Logic_error ''fuzzy rank partition produced an invalid rank'')
             else let keep = output - n_less;
                      tid = (if keep > 0
                             then nth_element (\<lambda>i. i)
                               (map snd (filter (\<lambda>(e, i). f32_eq e t) (zip es vids))) (keep - 1)
                             else 0)
                  in Inr \<lparr>ft_estimate = t, ft_id = tid, ft_output_size = output,
                          ft_equal_to_keep = keep\<rparr>)"

text \<open>The rows that a threshold keeps, as the callers test it.\<close>

definition fuzzy_keeps :: "fuzzy_rank_threshold \<Rightarrow> f32 \<Rightarrow> u32 \<Rightarrow> bool" where
  "fuzzy_keeps t e i \<longleftrightarrow> f32_lt e (ft_estimate t) \<or>
    (ft_equal_to_keep t > 0 \<and> f32_eq e (ft_estimate t) \<and> i \<le> ft_id t)"

section \<open>Ranks\<close>

lemma count_fuzzy_threshold_filter:
  "count_fuzzy_threshold es t =
    (length (filter (\<lambda>e. f32_lt e t) es), length (filter (\<lambda>e. f32_eq e t) es))"
  by (induction es) auto

text \<open>At least \<open>k + 1\<close> elements are at most the element of rank \<open>k\<close>, and at most \<open>k\<close> are below it.\<close>

lemma length_filter_sort_key: "length (filter P (sort_key key xs)) = length (filter P xs)"
  by (metis mset_filter mset_sort size_mset)

lemma nth_element_in: "k < length xs \<Longrightarrow> nth_element key xs k \<in> set xs"
  unfolding nth_element_def by (metis length_sort nth_mem set_sort)

lemma sorted_nth_key:
  "i \<le> j \<Longrightarrow> j < length xs \<Longrightarrow> key (sort_key key xs ! i) \<le> key (sort_key key xs ! j)"
  using sorted_nth_mono [OF sorted_sort_key [of key xs], of i j] by simp

lemma nth_element_rank:
  assumes "k < length xs"
  shows "length (filter (\<lambda>x. key x < key (nth_element key xs k)) xs) \<le> k"
    and "k < length (filter (\<lambda>x. key x \<le> key (nth_element key xs k)) xs)"
proof -
  let ?s = "sort_key key xs" and ?t = "key (nth_element key xs k)"
  have "filter (\<lambda>x. key x < ?t) ?s = filter (\<lambda>x. key x < ?t) (take k ?s)"
  proof -
    have "filter (\<lambda>x. key x < ?t) (drop k ?s) = []"
      using assms
      by (auto simp: filter_empty_conv in_set_conv_nth nth_element_def not_less less_diff_conv2
          intro!: sorted_nth_key)
    then show ?thesis by (metis append_Nil2 append_take_drop_id filter_append)
  qed
  then have "length (filter (\<lambda>x. key x < ?t) ?s) \<le> length (take k ?s)"
    by (metis length_filter_le)
  then show "length (filter (\<lambda>x. key x < ?t) xs) \<le> k"
    by (simp add: length_filter_sort_key)
  have "filter (\<lambda>x. key x \<le> ?t) (take (Suc k) ?s) = take (Suc k) ?s"
    using assms by (auto simp: filter_id_conv in_set_conv_nth nth_element_def intro!: sorted_nth_key)
  moreover have "length (filter (\<lambda>x. key x \<le> ?t) (take (Suc k) ?s))
      \<le> length (filter (\<lambda>x. key x \<le> ?t) ?s)"
    by (metis append_take_drop_id filter_append le_add1 length_append)
  ultimately show "k < length (filter (\<lambda>x. key x \<le> ?t) xs)"
    using assms by (simp add: length_filter_sort_key)
qed

text \<open>With pairwise different keys the cut at rank \<open>k\<close> is exact.\<close>

lemma nth_element_exact:
  assumes "k < length xs" and "distinct (map key xs)"
  shows "length (filter (\<lambda>x. key x \<le> key (nth_element key xs k)) xs) = Suc k"
proof -
  let ?s = "sort_key key xs"
  have "distinct (map key ?s)"
    using assms(2) by (metis mset_eq_imp_distinct_iff mset_map mset_sort)
  then have ne: "key (?s ! i) \<noteq> key (?s ! k)" if "k < i" "i < length xs" for i
    using that assms(1) by (simp add: distinct_conv_nth)
  have "filter (\<lambda>x. key x \<le> key (?s ! k)) ?s = take (Suc k) ?s"
  proof (rule filter_eq_take_count)
    show "\<forall>x \<in> set (take (Suc k) ?s). key x \<le> key (?s ! k)"
      using assms(1) by (auto simp: in_set_conv_nth intro!: sorted_nth_key)
    show "\<forall>x \<in> set (drop (Suc k) ?s). \<not> key x \<le> key (?s ! k)"
    proof
      fix x assume "x \<in> set (drop (Suc k) ?s)"
      then obtain i where i: "i < length xs - Suc k" and x: "x = ?s ! (Suc k + i)"
        by (auto simp: in_set_conv_nth)
      then have "Suc k + i < length xs" by linarith
      with x ne [of "Suc k + i"] sorted_nth_key [of k "Suc k + i" xs key]
      show "\<not> key x \<le> key (?s ! k)" by auto
    qed
  qed
  then show ?thesis
    using assms(1) length_filter_sort_key [of "\<lambda>x. key x \<le> key (?s ! k)" key xs]
    by (simp add: nth_element_def)
qed

section \<open>The search only returns consistent ranks\<close>

lemma fuzzy_search_sound:
  assumes "fuzzy_search n es q_min q_max t lower upper = Some (t', n_less, n_equal, output)"
    and "q_min \<le> q_max"
  shows "count_fuzzy_threshold es t' = (n_less, n_equal) \<and> n_less \<le> output \<and> output - n_less \<le> n_equal
    \<and> q_min \<le> output \<and> output \<le> q_max"
  using assms
proof (induction n es q_min q_max t lower upper rule: fuzzy_search.induct)
  case (1 es q_min q_max t lower upper)
  then show ?case by simp
next
  case (2 n es q_min q_max t lower upper)
  obtain l e where c: "count_fuzzy_threshold es t = (l, e)" by fastforce
  show ?case
    using 2 c by (auto simp: Let_def split: if_splits)
qed

lemma f32_lt_key: "\<not> f32_is_nan a \<Longrightarrow> \<not> f32_is_nan b \<Longrightarrow> f32_lt a b \<longleftrightarrow> f32_smag a < f32_smag b"
  by (simp add: f32_lt_def)

lemma f32_eq_key: "\<not> f32_is_nan a \<Longrightarrow> \<not> f32_is_nan b \<Longrightarrow> f32_eq a b \<longleftrightarrow> f32_smag a = f32_smag b"
  by (simp add: f32_eq_def)

lemma fuzzy_partition_sound:
  assumes "0 < q_min" and "q_min \<le> q_max" and "q_max < length es"
    and nn: "\<forall>e \<in> set es. \<not> f32_is_nan e"
    and p: "fuzzy_partition es q_min q_max = (t, n_less, n_equal, output)"
  shows "count_fuzzy_threshold es t = (n_less, n_equal) \<and> n_less \<le> output \<and> output - n_less \<le> n_equal
    \<and> q_min \<le> output \<and> output \<le> q_max"
proof -
  define found where "found = (if 3 \<le> length es
      then fuzzy_search fuzzy_rounds es q_min q_max
        (fuzzy_median3 (es ! 0) (es ! (length es div 2)) (es ! (length es - 1))) f32_ninf f32_inf
      else None)"
  show ?thesis
  proof (cases found)
    case (Some r)
    with p have "r = (t, n_less, n_equal, output)"
      by (simp add: fuzzy_partition_def flip: found_def)
    with Some show ?thesis
      using fuzzy_search_sound assms(2) by (auto simp: found_def split: if_splits)
  next
    case None
    then have t: "t = nth_element f32_smag es (q_min - 1)"
      and c: "count_fuzzy_threshold es t = (n_less, n_equal)" and o': "output = q_min"
      using p by (auto simp: fuzzy_partition_def Let_def split: prod.splits simp flip: found_def)
    have rank: "q_min - 1 < length es" using assms by linarith
    have tn: "\<not> f32_is_nan t" using nth_element_in [OF rank, of f32_smag] nn t by blast
    have l: "n_less = length (filter (\<lambda>e. f32_smag e < f32_smag t) es)"
      and e: "n_equal = length (filter (\<lambda>e. f32_smag e = f32_smag t) es)"
      using c nn tn by (auto simp: count_fuzzy_threshold_filter f32_lt_key f32_eq_key
          intro!: arg_cong [where f = length] filter_cong)
    have "length (filter (\<lambda>e. f32_smag e \<le> f32_smag t) es) = n_less + n_equal"
      unfolding l e by (induction es) auto
    then have "q_min - 1 < n_less + n_equal" and "n_less \<le> q_min - 1"
      using nth_element_rank [OF rank, of f32_smag] by (simp_all add: l t)
    then show ?thesis using c o' assms by auto
  qed
qed


text \<open>The cut keeps exactly the announced number of rows.\<close>

lemma filter_split_length:
  "(\<And>x. x \<in> set xs \<Longrightarrow> \<not> (P x \<and> Q x)) \<Longrightarrow>
    length (filter (\<lambda>x. P x \<or> Q x) xs) = length (filter P xs) + length (filter Q xs)"
  by (induction xs) auto

lemma length_filter_fst:
  "length es = length vids \<Longrightarrow>
    length (filter (\<lambda>(e, i). P e) (zip es vids)) = length (filter P es)"
  by (induction es vids rule: list_induct2) auto

definition rank_keys_distinct :: "f32 list \<Rightarrow> u32 list \<Rightarrow> bool" where
  "rank_keys_distinct es vids \<longleftrightarrow> distinct (zip (map f32_smag es) vids)"

lemma distinct_equal_ids:
  assumes "rank_keys_distinct es vids"
  shows "distinct (map snd (filter (\<lambda>(e, i). f32_eq e t) (zip es vids)))"
  using assms
proof (induction es arbitrary: vids)
  case Nil
  then show ?case by simp
next
  case (Cons e es)
  show ?case
  proof (cases vids)
    case Nil
    then show ?thesis by simp
  next
    case v: (Cons i js)
    have "i \<notin> snd ` {p \<in> set (zip es js). f32_eq (fst p) t}" if "f32_eq e t"
    proof
      assume "i \<in> snd ` {p \<in> set (zip es js). f32_eq (fst p) t}"
      then obtain a where a: "(a, i) \<in> set (zip es js)" and "f32_eq a t" by auto
      with that have "f32_smag a = f32_smag e" by (simp add: f32_eq_def)
      with a have "(f32_smag e, i) \<in> set (zip (map f32_smag es) js)"
        by (force simp: in_set_zip)
      with Cons.prems show False by (simp add: v rank_keys_distinct_def)
    qed
    moreover have "rank_keys_distinct es js"
      using Cons.prems by (simp add: v rank_keys_distinct_def)
    ultimately show ?thesis
      using Cons.IH [of "js"] by (auto simp: v case_prod_beta image_iff)
  qed
qed

lemma find_fuzzy_rank_threshold_total:
  assumes q: "0 < q_min" "q_min \<le> q_max" "q_max < length es" and len: "length vids = length es"
    and nn: "\<forall>e \<in> set es. \<not> f32_is_nan e" and dist: "rank_keys_distinct es vids"
  obtains r where "find_fuzzy_rank_threshold es vids q_min q_max = Inr r"
    and "q_min \<le> ft_output_size r" and "ft_output_size r \<le> q_max"
    and "\<not> f32_is_nan (ft_estimate r)" and "ft_equal_to_keep r = 0 \<longrightarrow> ft_id r = 0"
    and "length (filter (\<lambda>(e, i). fuzzy_keeps r e i) (zip es vids)) = ft_output_size r"
proof -
  obtain t nl ne out where p: "fuzzy_partition es q_min q_max = (t, nl, ne, out)"
    by (metis prod_cases4)
  have c: "count_fuzzy_threshold es t = (nl, ne)"
    and b: "nl \<le> out" "out - nl \<le> ne" "q_min \<le> out" "out \<le> q_max"
    using fuzzy_partition_sound [OF q nn p] by auto
  from c have nl: "nl = length (filter (\<lambda>e. f32_lt e t) es)"
    and ne: "ne = length (filter (\<lambda>e. f32_eq e t) es)"
    by (simp_all add: count_fuzzy_threshold_filter)
  have tn: "\<not> f32_is_nan t"
  proof
    assume "f32_is_nan t"
    then have "nl = 0" and "ne = 0" by (simp_all add: nl ne f32_lt_def f32_eq_def)
    with b q show False by simp
  qed
  let ?eq = "map snd (filter (\<lambda>(e, i). f32_eq e t) (zip es vids))"
  have leq: "length ?eq = ne" using len by (simp add: ne length_filter_fst)
  define tid where "tid = (if out - nl > 0 then nth_element (\<lambda>i. i) ?eq (out - nl - 1) else 0)"
  define r where "r = \<lparr>ft_estimate = t, ft_id = tid, ft_output_size = out,
    ft_equal_to_keep = out - nl\<rparr>"
  have res: "find_fuzzy_rank_threshold es vids q_min q_max = Inr r"
    using q b by (simp add: find_fuzzy_rank_threshold_def p Let_def tid_def r_def)
  have eqn: "length (filter (\<lambda>(e, i). out - nl > 0 \<and> f32_eq e t \<and> i \<le> tid) (zip es vids))
      = out - nl"
  proof (cases "out - nl > 0")
    case True
    then have rank: "out - nl - 1 < length ?eq" using b leq by linarith
    have "length (filter (\<lambda>i. i \<le> tid) ?eq) = out - nl"
      using nth_element_exact [OF rank, of "\<lambda>i. i"] distinct_equal_ids [OF dist, of t] True
      by (simp add: tid_def)
    moreover have "length (filter (\<lambda>(e, i). f32_eq e t \<and> i \<le> tid) (zip es vids))
        = length (filter (\<lambda>i. i \<le> tid) ?eq)"
      by (simp add: filter_map o_def case_prod_unfold conj_commute)
    ultimately show ?thesis using True by simp
  qed simp
  have "length (filter (\<lambda>(e, i). fuzzy_keeps r e i) (zip es vids))
      = length (filter (\<lambda>(e, i). f32_lt e t) (zip es vids))
        + length (filter (\<lambda>(e, i). out - nl > 0 \<and> f32_eq e t \<and> i \<le> tid) (zip es vids))"
    unfolding fuzzy_keeps_def r_def case_prod_beta fuzzy_rank_threshold.simps
    by (rule filter_split_length) (auto simp: f32_lt_def f32_eq_def)
  also have "\<dots> = nl + (out - nl)" using len by (simp only: eqn) (simp add: length_filter_fst nl)
  finally have "length (filter (\<lambda>(e, i). fuzzy_keeps r e i) (zip es vids)) = ft_output_size r"
    using b by (simp add: r_def)
  with that [OF res] b tn show thesis by (auto simp: r_def tid_def)
qed


text \<open>
  C28. The fuzzy cut is an exact rank cut. For \<open>0 < q_min <= q_max < count\<close>, estimates that are not
  NaN and pairwise different (estimate, id) pairs, the partition returns a threshold (its internal
  check "invalid rank" never fires, however the samples fall and whether or not the 200 rounds are
  used up), the announced output size lies between \<open>q_min\<close> and \<open>q_max\<close>, and exactly that many rows
  pass the test that the callers compact with.
\<close>

theorem fuzzy_cut_exact:
  assumes "0 < q_min" and "q_min \<le> q_max" and "q_max < length es" and "length vids = length es"
    and "\<forall>e \<in> set es. \<not> f32_is_nan e" and "rank_keys_distinct es vids"
  shows "\<exists>r. find_fuzzy_rank_threshold es vids q_min q_max = Inr r
    \<and> q_min \<le> ft_output_size r \<and> ft_output_size r \<le> q_max
    \<and> length (filter (\<lambda>(e, i). fuzzy_keeps r e i) (zip es vids)) = ft_output_size r"
  using find_fuzzy_rank_threshold_total [OF assms] by blast

theorem fuzzy_cut_exact_witness:
  "\<exists>r. find_fuzzy_rank_threshold [0x40400000, 0x3F800000, 0x40000000, 0x3F800000] [7, 9, 8, 3] 1 2
      = Inr r
    \<and> 1 \<le> ft_output_size r \<and> ft_output_size r \<le> 2
    \<and> length (filter (\<lambda>(e, i). fuzzy_keeps r e i)
        (zip [0x40400000, 0x3F800000, 0x40000000, 0x3F800000] [7, 9, 8, 3])) = ft_output_size r"
  by (rule fuzzy_cut_exact)
    (simp_all add: f32_is_nan_def f32_mag_def inf_mag_def rank_keys_distinct_def f32_smag_def
      f32_sign_def)

end
