(* ===== verification/Rank_Key.thy ===== *)
theory Rank_Key
  imports Float32 "HOL-Library.Product_Lexorder"
begin

text \<open>
  The compact rank keys of the fused selector (\<open>FusedIntervalAccumulator::ordered_float_key\<close>,
  \<open>float_from_ordered_key\<close> and \<open>rank_key\<close> in src/src/fastscan.cpp): an unsigned integer whose
  integer order is the order of the floats, and a 64-bit key whose order is the lexicographic order
  of (estimate, id).
\<close>

unbundle bit_operations_syntax

definition ordered_float_key :: "f32 \<Rightarrow> u32" where
  "ordered_float_key value =
    (let bits = (if f32_eq value 0 then 0 else value)
     in if bits AND 0x80000000 \<noteq> 0 then NOT bits else bits XOR 0x80000000)"

definition float_from_ordered_key :: "u32 \<Rightarrow> f32" where
  "float_from_ordered_key ordered =
    (if ordered AND 0x80000000 \<noteq> 0 then ordered XOR 0x80000000 else NOT ordered)"

definition rank_key :: "f32 \<Rightarrow> u32 \<Rightarrow> u64" where
  "rank_key estimate vid =
    push_bit 32 (ucast (ordered_float_key estimate)) OR ucast vid"

section \<open>Sign bit operations on unsigned values\<close>

lemma sign_bit_set_iff: "x AND 0x80000000 \<noteq> 0 \<longleftrightarrow> f32_sign x" for x :: u32
proof -
  have "(0x80000000 :: u32) = 2 ^ 31" by simp
  then have "x AND 0x80000000 \<noteq> 0 \<longleftrightarrow> bit x 31"
    by (metis and_exp_eq_0_iff_not_bit)
  also have "bit x 31 \<longleftrightarrow> bit (unat x) 31" by (simp add: bit_unsigned_iff)
  also have "\<dots> \<longleftrightarrow> odd (unat x div 2 ^ 31)" by (rule bit_iff_odd)
  also have "\<dots> \<longleftrightarrow> f32_sign x"
  proof -
    have "unat x div 2 ^ 31 < 2"
      using u32_less_pow [of x] by (simp add: div_less_iff_less_mult)
    then show ?thesis
      by (auto simp: f32_sign_def less_2_cases_iff div_eq_0_iff)
  qed
  finally show ?thesis .
qed

lemma unat_NOT_u32: "unat (NOT x) = 4294967295 - unat x" for x :: u32
proof -
  have eq: "NOT x = - 1 - x" by (simp add: not_eq_complement)
  have "unat (- 1 - x) = unat (- 1 :: u32) - unat x"
    by (intro unat_sub) simp
  moreover have "unat (- 1 :: u32) = 4294967295"
    by (simp add: unsigned_minus_1_eq_mask mask_eq_exp_minus_1)
  ultimately show ?thesis by (simp only: eq)
qed

lemma unat_XOR_sign: "unat (x XOR 0x80000000) =
    (if f32_sign x then unat x - 2147483648 else unat x + 2147483648)" for x :: u32
proof (cases "f32_sign x")
  case False
  then have "x AND 0x80000000 = 0" by (metis sign_bit_set_iff)
  then have "x XOR 0x80000000 = x + 0x80000000" by (metis disjunctive_add_eq_xor)
  moreover have "unat (x + 0x80000000) = unat x + unat (0x80000000 :: u32)"
    using False by (subst unat_add_lem [symmetric]) (simp add: f32_sign_def)
  ultimately show ?thesis using False by simp
next
  case True
  define y where "y = x - 0x80000000"
  have y: "unat y = unat x - 2147483648"
    using True by (simp add: y_def unat_sub f32_sign_def word_le_nat_alt)
  moreover have "unat x - 2147483648 < 2147483648" using u32_less_pow [of x] by linarith
  ultimately have "\<not> f32_sign y" by (simp add: f32_sign_def)
  then have "y AND 0x80000000 = 0" by (metis sign_bit_set_iff)
  then have "y XOR 0x80000000 = x" by (metis disjunctive_add_eq_xor y_def diff_add_cancel)
  then have "x XOR 0x80000000 = y" by (metis xor.assoc xor_self_eq xor.right_neutral)
  with y True show ?thesis by simp
qed

lemma f32_eq_0_iff: "f32_eq x 0 \<longleftrightarrow> f32_mag x = 0"
  by (auto simp: f32_eq_def f32_smag_def f32_is_nan_def)

lemma unat_ordered_float_key:
  "unat (ordered_float_key x) =
    nat ((if f32_smag x < 0 then 2147483647 else 2147483648) + f32_smag x)"
proof (cases "f32_mag x = 0")
  case True
  then show ?thesis
    by (simp add: ordered_float_key_def f32_eq_0_iff sign_bit_set_iff unat_XOR_sign f32_smag_def)
next
  case False
  then show ?thesis
    using f32_mag_less [of x]
    by (simp add: ordered_float_key_def f32_eq_0_iff sign_bit_set_iff unat_XOR_sign unat_NOT_u32
        f32_smag_def f32_unat [of x] nat_diff_distrib nat_add_distrib)
qed

lemma f32_smag_lower: "- 2147483647 \<le> f32_smag x"
  using f32_mag_less [of x] by (simp add: f32_smag_def)

lemma ordered_key_strict:
  "f32_smag a < f32_smag b \<Longrightarrow> ordered_float_key a < ordered_float_key b"
  using f32_smag_lower [of a] f32_smag_lower [of b]
  by (simp add: word_less_nat_alt unat_ordered_float_key zless_nat_conj)

lemma ordered_key_eq:
  "f32_smag a = f32_smag b \<Longrightarrow> ordered_float_key a = ordered_float_key b"
  by (simp add: word_unat_eq_iff unat_ordered_float_key)

text \<open>The integer order of the keys is the order of the floats.\<close>

lemma ordered_key_less_iff:
  "ordered_float_key a < ordered_float_key b \<longleftrightarrow> f32_smag a < f32_smag b"
  by (metis linorder_less_linear ordered_key_eq ordered_key_strict order_less_asym)

lemma ordered_key_eq_iff:
  "ordered_float_key a = ordered_float_key b \<longleftrightarrow> f32_smag a = f32_smag b"
  by (metis linorder_less_linear ordered_key_eq ordered_key_strict order_less_irrefl)

text \<open>Decoding a key gives the float back, up to the sign of zero.\<close>

lemma float_from_ordered_key_inverse:
  "float_from_ordered_key (ordered_float_key x) = (if f32_eq x 0 then 0 else x)"
proof -
  define y where "y = (if f32_eq x 0 then 0 else x)"
  have "float_from_ordered_key (if f32_sign y then NOT y else y XOR 0x80000000) = y"
  proof (cases "f32_sign y")
    case True
    have "\<not> f32_sign (NOT y)"
      using True u32_less_pow [of y] unfolding f32_sign_def unat_NOT_u32 by simp
    with True show ?thesis by (simp add: float_from_ordered_key_def sign_bit_set_iff)
  next
    case False
    then have "f32_sign (y XOR 0x80000000)"
      unfolding f32_sign_def unat_XOR_sign by (simp add: f32_sign_def)
    with False show ?thesis
      by (simp add: float_from_ordered_key_def sign_bit_set_iff xor.assoc)
  qed
  then show ?thesis
    by (simp add: ordered_float_key_def Let_def sign_bit_set_iff flip: y_def)
qed

lemma smag_from_ordered_key: "f32_smag (float_from_ordered_key (ordered_float_key x)) = f32_smag x"
  by (auto simp: float_from_ordered_key_inverse f32_eq_def)

section \<open>The 64-bit rank key\<close>

lemma unat_ucast_32_64 [simp]: "unat (ucast x :: u64) = unat (x :: u32)"
proof -
  have "unat x < 2 ^ 64" by (rule less_trans [OF u32_less_pow]) simp
  then show ?thesis by (simp add: unsigned_ucast_eq take_bit_nat_eq_self)
qed

lemma unat_rank_key:
  "unat (rank_key e i) = unat (ordered_float_key e) * 4294967296 + unat i"
proof -
  let ?h = "push_bit 32 (ucast (ordered_float_key e)) :: u64" and ?l = "ucast i :: u64"
  have "?h AND ?l = 0"
    by (rule bit_word_eqI) (auto simp: bit_simps dest: bit_imp_le_length)
  then have "rank_key e i = ?h + ?l" by (simp add: rank_key_def disjunctive_add_eq_or)
  moreover have h: "unat ?h = unat (ordered_float_key e) * 4294967296"
  proof -
    have "unat (ordered_float_key e) * 4294967296 < 2 ^ 64"
      using u32_less_pow [of "ordered_float_key e"] by simp
    then show ?thesis
      by (simp add: push_bit_eq_mult unat_word_ariths take_bit_nat_eq_self mult.commute)
  qed
  moreover have "unat (?h + ?l) = unat ?h + unat ?l"
  proof (subst unat_add_lem [symmetric])
    have "a * 4294967296 + b < 18446744073709551616"
      if "a < 4294967296" "b < 4294967296" for a b :: nat
      using that by linarith
    from this [OF u32_less_pow u32_less_pow]
    show "unat ?h + unat ?l < 2 ^ LENGTH(64)" by (simp only: h unat_ucast_32_64) simp
  qed
  ultimately show ?thesis by simp
qed

lemma rank_key_less_iff:
  "rank_key e i < rank_key f j \<longleftrightarrow>
    f32_smag e < f32_smag f \<or> (f32_smag e = f32_smag f \<and> i < j)"
proof -
  have "a * 4294967296 + i' < b * 4294967296 + j' \<longleftrightarrow> a < b \<or> (a = b \<and> i' < j')"
    if "i' < 4294967296" "j' < 4294967296" for a b i' j' :: nat
    using that by (cases a b rule: linorder_cases) linarith+
  then show ?thesis
    using u32_less_pow [of i] u32_less_pow [of j] ordered_key_less_iff [of e f]
      ordered_key_eq_iff [of e f]
    by (simp add: word_less_nat_alt unat_rank_key word_unat_eq_iff)
qed

lemma rank_key_parts:
  "ucast (drop_bit 32 (rank_key e i)) = ordered_float_key e"
  "ucast (rank_key e i) = i"
  by (rule bit_word_eqI, auto simp: rank_key_def bit_simps dest: bit_imp_le_length)+

end
