(* ===== verification/Fused_Accumulator.thy ===== *)
theory Fused_Accumulator
  imports Interval_Threshold Rank_Key
begin

text \<open>
  \<open>FusedIntervalAccumulator\<close> of src/src/fastscan.cpp: the K smallest upper endpoints in a bounded
  heap, and the R best rows (estimate, id) in three parallel planes that are compacted in place.
  Both the portable operations and the 16-lane AVX-512 ones are modelled; a 16-bit mask is a list of
  16 booleans and a ZMM register a list of 16 lanes.
\<close>

section \<open>The three planes\<close>

type_synonym planes = "f32 list \<times> f32 list \<times> u32 list"

type_synonym row = "f32 \<times> f32 \<times> u32"

definition rows_of :: "planes \<Rightarrow> row list" where
  "rows_of p = (case p of (es, us, vids) \<Rightarrow> zip es (zip us vids))"

text \<open>
  The portable compaction loop, from index \<open>rd\<close> with \<open>n\<close> rows left: a kept row is copied to \<open>wr\<close>.
\<close>

fun compact_scalar :: "(row \<Rightarrow> bool) \<Rightarrow> nat \<Rightarrow> nat \<Rightarrow> nat \<Rightarrow> planes \<Rightarrow> planes \<times> nat" where
  "compact_scalar keep rd 0 wr p = (p, wr)"
| "compact_scalar keep rd (Suc n) wr (es, us, vids) =
    (if keep (es ! rd, us ! rd, vids ! rd)
     then compact_scalar keep (rd + 1) n (wr + 1)
       (es[wr := es ! rd], us[wr := us ! rd], vids[wr := vids ! rd])
     else compact_scalar keep (rd + 1) n wr (es, us, vids))"

text \<open>\<open>_mm512_mask_compressstoreu\<close>: the selected lanes, stored contiguously.\<close>

definition compress :: "bool list \<Rightarrow> 'a list \<Rightarrow> 'a list" where
  "compress msk xs = map snd (filter fst (zip msk xs))"

definition popcount :: "bool list \<Rightarrow> nat" where
  "popcount msk = length (filter (\<lambda>b. b) msk)"

definition compress_store :: "planes \<Rightarrow> nat \<Rightarrow> bool list \<Rightarrow> planes \<Rightarrow> planes" where
  "compress_store p wr msk lanes =
    (case (p, lanes) of ((es, us, vids), (es', us', vids')) \<Rightarrow>
      (patch es wr (compress msk es'), patch us wr (compress msk us'),
       patch vids wr (compress msk vids')))"

definition load_lanes :: "planes \<Rightarrow> nat \<Rightarrow> planes" where
  "load_lanes p rd =
    (case p of (es, us, vids) \<Rightarrow> (segment es rd 16, segment us rd 16, segment vids rd 16))"

text \<open>The vector loop over 16-row chunks followed by the scalar tail.\<close>

function compact_avx512 :: "(row \<Rightarrow> bool) \<Rightarrow> nat \<Rightarrow> nat \<Rightarrow> nat \<Rightarrow> planes \<Rightarrow> planes \<times> nat" where
  "compact_avx512 keep cnt rd wr p =
    (if rd + 16 \<le> cnt
     then let lanes = load_lanes p rd;
              msk = map keep (rows_of lanes)
          in compact_avx512 keep cnt (rd + 16) (wr + popcount msk)
               (compress_store p wr msk lanes)
     else compact_scalar keep rd (cnt - rd) wr p)"
  by pat_completeness auto
termination by (relation "measure (\<lambda>(keep, cnt, rd, wr, p). cnt - rd)") auto

declare compact_avx512.simps [simp del]

section \<open>State\<close>

record fused =
  fa_topk :: nat
  fa_z_score :: f32
  fa_max_candidates :: nat
  fa_capacity :: nat
  fa_size :: nat
  fa_seen :: nat
  fa_uppers :: "f32 list"
  fa_planes :: planes
  fa_threshold_estimate :: f32
  fa_threshold_id :: u32
  fa_has_threshold :: bool

definition resize :: "'a \<Rightarrow> 'a list \<Rightarrow> nat \<Rightarrow> 'a list" where
  "resize d xs n = take n xs @ replicate (n - length xs) d"

definition resize_planes :: "planes \<Rightarrow> nat \<Rightarrow> planes" where
  "resize_planes p n =
    (case p of (es, us, vids) \<Rightarrow> (resize 0 es n, resize 0 us n, resize 0 vids n))"

definition fused_new :: "nat \<Rightarrow> f32 \<Rightarrow> nat \<Rightarrow> fused res" where
  "fused_new topk z_score max_candidates =
    (if topk = 0 \<or> \<not> f32_is_finite z_score \<or> f32_lt z_score 0
        \<or> (max_candidates > 0 \<and> max_candidates < topk) \<or> max_candidates > size_max div 2
     then Inl (Invalid_argument ''invalid fused interval selection parameters'')
     else Inr \<lparr>fa_topk = topk, fa_z_score = z_score, fa_max_candidates = max_candidates,
       fa_capacity = (if max_candidates > 0 then 2 * max_candidates else 0),
       fa_size = 0, fa_seen = 0, fa_uppers = [],
       fa_planes = (if max_candidates > 0 then resize_planes ([], [], []) (2 * max_candidates + 16)
                    else ([], [], [])),
       fa_threshold_estimate = f32_inf, fa_threshold_id = - 1, fa_has_threshold = False\<rparr>)"

section \<open>Operations\<close>

definition admit :: "fused \<Rightarrow> f32 \<Rightarrow> u32 \<Rightarrow> bool" where
  "admit s e i \<longleftrightarrow> \<not> fa_has_threshold s \<or> f32_lt e (fa_threshold_estimate s)
    \<or> (f32_eq e (fa_threshold_estimate s) \<and> i < fa_threshold_id s)"

definition update_upper :: "f32 \<Rightarrow> fused \<Rightarrow> fused" where
  "update_upper u s =
    (if length (fa_uppers s) < fa_topk s
     then s\<lparr>fa_uppers := pq_push f32_smag u (fa_uppers s)\<rparr>
     else if f32_lt u (pq_top (fa_uppers s))
     then s\<lparr>fa_uppers := pq_push f32_smag u (pq_pop (fa_uppers s))\<rparr>
     else s)"

definition ensure_uncapped_space :: "nat \<Rightarrow> fused \<Rightarrow> fused" where
  "ensure_uncapped_space n s =
    (if fa_max_candidates s > 0 then s
     else s\<lparr>fa_planes := resize_planes (fa_planes s) (fa_size s + n)\<rparr>)"

text \<open>
  Host capability \<open>exact_pq4_avx512_supported\<close>: whether the vector code runs. It is an argument.
\<close>

definition compact :: "bool \<Rightarrow> (row \<Rightarrow> bool) \<Rightarrow> fused \<Rightarrow> fused" where
  "compact avx keep s =
    (let (p, wr) = (if avx then compact_avx512 keep (fa_size s) 0 0 (fa_planes s)
                    else compact_scalar keep 0 (fa_size s) 0 (fa_planes s))
     in s\<lparr>fa_planes := p, fa_size := wr\<rparr>)"

text \<open>The test of \<open>compact_threshold_avx512\<close> and of the two portable loops.\<close>

definition threshold_keeps :: "f32 \<Rightarrow> u32 \<Rightarrow> bool \<Rightarrow> row \<Rightarrow> bool" where
  "threshold_keeps te ti include_equal r =
    (case r of (e, u, i) \<Rightarrow> f32_lt e te \<or> (include_equal \<and> f32_eq e te \<and> i \<le> ti))"

definition fuzzy_shrink_shortlist :: "bool \<Rightarrow> nat \<Rightarrow> nat \<Rightarrow> fused \<Rightarrow> fused res" where
  "fuzzy_shrink_shortlist avx q_min q_max s =
    (if fa_size s \<le> q_max then Inr s
     else case fa_planes s of (es, us, vids) \<Rightarrow>
       res_bind (find_fuzzy_rank_threshold (take (fa_size s) es) (take (fa_size s) vids) q_min q_max)
       (\<lambda>t. let s1 = s\<lparr>fa_threshold_estimate := ft_estimate t, fa_threshold_id := ft_id t,
                      fa_has_threshold := True\<rparr>;
                s2 = compact avx
                  (threshold_keeps (ft_estimate t) (ft_id t) (ft_equal_to_keep t > 0)) s1
            in if fa_size s2 \<noteq> ft_output_size t
               then Inl (Logic_error ''fuzzy reservoir compaction size mismatch'')
               else Inr s2))"

definition shrink_if_full :: "bool \<Rightarrow> fused \<Rightarrow> fused res" where
  "shrink_if_full avx s =
    (if fa_max_candidates s = 0 \<or> fa_size s < fa_capacity s then Inr s
     else fuzzy_shrink_shortlist avx (fa_max_candidates s)
       (fa_max_candidates s + (fa_capacity s - fa_max_candidates s) div 2) s)"

definition append_scalar :: "bool \<Rightarrow> row \<Rightarrow> fused \<Rightarrow> fused res" where
  "append_scalar avx r s =
    (let s1 = ensure_uncapped_space 1 s; n = fa_size s1
     in case (fa_planes s1, r) of ((es, us, vids), (e, u, i)) \<Rightarrow>
       shrink_if_full avx
         (s1\<lparr>fa_planes := (es[n := e], us[n := u], vids[n := i]), fa_size := n + 1\<rparr>))"

text \<open>A lane of a portable block: its id is explicit or the base plus the lane number.\<close>

definition lane_id :: "u32 list option \<Rightarrow> u32 \<Rightarrow> nat \<Rightarrow> u32" where
  "lane_id ids base lane = (case ids of None \<Rightarrow> base + of_nat lane | Some js \<Rightarrow> js ! lane)"

definition add_scalar_block ::
    "bool \<Rightarrow> u32 list option \<Rightarrow> u32 \<Rightarrow> f32 list \<Rightarrow> f32 list \<Rightarrow> f32 list \<Rightarrow> nat \<Rightarrow> fused \<Rightarrow> fused res" where
  "add_scalar_block avx ids base es us ups cnt s =
    (let s1 = s\<lparr>fa_seen := fa_seen s + cnt\<rparr>;
         s2 = fold (\<lambda>lane. update_upper (ups ! lane)) [0..<cnt] s1
     in res_fold (\<lambda>lane t.
          if admit t (es ! lane) (lane_id ids base lane)
          then append_scalar avx (es ! lane, us ! lane, lane_id ids base lane) t
          else Inr t) [0..<cnt] s2)"

definition load_ids_avx512 :: "u32 list option \<Rightarrow> u32 \<Rightarrow> u32 list" where
  "load_ids_avx512 ids base =
    (case ids of Some js \<Rightarrow> take 16 js | None \<Rightarrow> map (\<lambda>l. base + of_nat l) [0..<16])"

definition mask_and :: "bool list \<Rightarrow> bool list \<Rightarrow> bool list" where
  "mask_and a b = map2 (\<and>) a b"

definition mask_or :: "bool list \<Rightarrow> bool list \<Rightarrow> bool list" where
  "mask_or a b = map2 (\<or>) a b"

text \<open>Stage 1 of \<open>add_16_avx512\<close>: the lanes whose upper endpoint may enter the heap.\<close>

definition upper_mask :: "fused \<Rightarrow> bool list \<Rightarrow> f32 list \<Rightarrow> bool list" where
  "upper_mask s logical ups =
    (if fa_topk s \<le> length (fa_uppers s)
     then mask_and logical (map (\<lambda>u. f32_lt u (pq_top (fa_uppers s))) ups)
     else logical)"

text \<open>Stage 2: the lanes that pass the admission threshold.\<close>

definition admission_mask :: "fused \<Rightarrow> bool list \<Rightarrow> f32 list \<Rightarrow> u32 list \<Rightarrow> bool list" where
  "admission_mask s logical es vids =
    (if fa_has_threshold s
     then let below = mask_and logical (map (\<lambda>e. f32_lt e (fa_threshold_estimate s)) es);
              equal = mask_and logical (map (\<lambda>e. f32_eq e (fa_threshold_estimate s)) es)
          in if True \<in> set equal
             then mask_or below (mask_and equal (map (\<lambda>i. i < fa_threshold_id s) vids))
             else below
     else logical)"

definition add_16_avx512 ::
    "u32 list option \<Rightarrow> u32 \<Rightarrow> f32 list \<Rightarrow> f32 list \<Rightarrow> f32 list \<Rightarrow> nat \<Rightarrow> fused \<Rightarrow> fused res" where
  "add_16_avx512 ids base es us ups cnt s =
    (if cnt = 0 then Inr s
     else let logical = map (\<lambda>l. l < cnt) [0..<16];
              s1 = s\<lparr>fa_seen := fa_seen s + cnt\<rparr>;
              s2 = fold update_upper (compress (upper_mask s1 logical ups) ups) s1;
              vids = load_ids_avx512 ids base;
              msk = admission_mask s2 logical es vids;
              accepted = popcount msk
          in if accepted = 0 then Inr s2
             else let s3 = ensure_uncapped_space accepted s2
                  in shrink_if_full True
                       (s3\<lparr>fa_planes := compress_store (fa_planes s3) (fa_size s3) msk (es, us, vids),
                           fa_size := fa_size s3 + accepted\<rparr>))"

definition shrink_shortlist :: "bool \<Rightarrow> nat \<Rightarrow> fused \<Rightarrow> fused" where
  "shrink_shortlist avx keep s =
    (if fa_size s \<le> keep then s
     else case fa_planes s of (es, us, vids) \<Rightarrow>
       let rank_keys = map2 rank_key (take (fa_size s) es) (take (fa_size s) vids);
           threshold_key = nth_element (\<lambda>k. k) rank_keys (keep - 1);
           te = float_from_ordered_key (ucast (drop_bit 32 threshold_key));
           ti = (ucast threshold_key :: u32);
           s1 = s\<lparr>fa_threshold_estimate := te, fa_threshold_id := ti, fa_has_threshold := True\<rparr>;
           s2 = compact avx (threshold_keeps te ti True) s1
       in s2\<lparr>fa_size := min (fa_size s2) keep\<rparr>)"

text \<open>
  The lower-bound filter: the portable loop uses \<open>DistanceEstimate::lower\<close>, the vector code the
  plain difference.
\<close>

definition row_estimate :: "row \<Rightarrow> distance_estimate" where
  "row_estimate r = (case r of (e, u, i) \<Rightarrow>
    \<lparr>de_id = i, estimated_distance = e, uncertainty = u\<rparr>)"

definition lower_keeps_scalar :: "f32 \<Rightarrow> f32 \<Rightarrow> row \<Rightarrow> bool" where
  "lower_keeps_scalar z kth r = f32_le (estimate_lower z (row_estimate r)) kth"

definition lower_keeps_avx512 :: "f32 \<Rightarrow> f32 \<Rightarrow> row \<Rightarrow> bool" where
  "lower_keeps_avx512 z kth r =
    (case r of (e, u, i) \<Rightarrow>
      f32_le (if f32_eq z 0 then e else f32_sub e (f32_mul u z)) kth)"

definition filter_by_lower :: "bool \<Rightarrow> f32 \<Rightarrow> fused \<Rightarrow> fused" where
  "filter_by_lower avx kth s =
    compact avx (if avx then lower_keeps_avx512 (fa_z_score s) kth
                 else lower_keeps_scalar (fa_z_score s) kth) s"

definition live_rows :: "fused \<Rightarrow> row list" where
  "live_rows s = take (fa_size s) (rows_of (fa_planes s))"

definition estimate_key :: "distance_estimate \<Rightarrow> int \<times> u32" where
  "estimate_key d = (f32_smag (estimated_distance d), de_id d)"

definition finish :: "bool \<Rightarrow> fused \<Rightarrow> selection_result res" where
  "finish avx s =
    (if fa_seen s < fa_topk s
     then Inl (Invalid_argument ''fewer scanned estimates than topk'')
     else let kth = pq_top (fa_uppers s);
              s1 = (if fa_max_candidates s > 0 then shrink_shortlist avx (fa_max_candidates s) s
                    else s);
              s2 = filter_by_lower avx kth s1
          in Inr \<lparr>candidates = sort_key estimate_key (map row_estimate (live_rows s2)),
                  kth_upper_bound = kth,
                  truncated = (fa_max_candidates s > 0 \<and> fa_seen s > fa_max_candidates s)\<rparr>)"

end
