(* ===== verification/Fused_Correct.thy ===== *)
theory Fused_Correct
  imports Fused_Accumulator
begin

text \<open>
  Correctness of the fused selector: the in-place compactions are filters, the heap holds the K
  smallest uppers, the reservoir never loses one of the R best rows and never outgrows its planes,
  and \<open>finish\<close> returns the specified selection. The portable and the AVX-512 adders are two
  instances of one contract, the locale \<open>batch_selector\<close>.
\<close>

section \<open>Planes as one list of rows\<close>

definition planes_ok :: "planes \<Rightarrow> bool" where
  "planes_ok p \<longleftrightarrow> (case p of (es, us, vids) \<Rightarrow> length us = length es \<and> length vids = length es)"

lemma length_rows_of: "planes_ok (es, us, vids) \<Longrightarrow> length (rows_of (es, us, vids)) = length es"
  by (simp add: planes_ok_def rows_of_def)

lemma rows_of_update:
  assumes "planes_ok (es, us, vids)"
  shows "planes_ok (es[n := e], us[n := u], vids[n := i])"
    and "rows_of (es[n := e], us[n := u], vids[n := i]) = (rows_of (es, us, vids))[n := (e, u, i)]"
  using assms by (simp_all add: planes_ok_def rows_of_def update_zip)

lemma nth_rows_of:
  "planes_ok (es, us, vids) \<Longrightarrow> n < length es \<Longrightarrow>
    rows_of (es, us, vids) ! n = (es ! n, us ! n, vids ! n)"
  by (simp add: planes_ok_def rows_of_def)

lemma zip_patch:
  "length a = length b \<Longrightarrow> length x = length y \<Longrightarrow> off \<le> length a \<Longrightarrow>
    zip (patch a off x) (patch b off y) = patch (zip a b) off (zip x y)"
  by (simp add: patch_def zip_append take_zip drop_zip)

lemma compress_Nil [simp]: "compress [] xs = []"
  by (simp add: compress_def)

lemma compress_Cons [simp]:
  "compress (b # bs) (x # xs) = (if b then x # compress bs xs else compress bs xs)"
  by (simp add: compress_def)

lemma length_compress: "length m = length xs \<Longrightarrow> length (compress m xs) = popcount m"
  by (induction m xs rule: list_induct2) (auto simp: popcount_def)

lemma zip_compress:
  "length m = length a \<Longrightarrow> length a = length b \<Longrightarrow>
    zip (compress m a) (compress m b) = compress m (zip a b)"
  by (induction m a b rule: list_induct3) auto

lemma compress_map_filter: "compress (map P xs) xs = filter P xs"
  by (induction xs) auto

lemma compress_conj:
  "length m = length xs \<Longrightarrow> compress (mask_and m (map P xs)) xs = filter P (compress m xs)"
  by (induction m xs rule: list_induct2) (auto simp: mask_and_def)

lemma compress_below: "compress (map (\<lambda>l. l < n) [0..<length xs]) xs = take n xs"
proof (induction xs arbitrary: n)
  case Nil
  then show ?case by simp
next
  case (Cons x xs)
  have "map (\<lambda>l. l < n) [0..<length (x # xs)] =
      (0 < n) # map (\<lambda>l. l < n - 1) [0..<length xs]"
    by (simp add: upt_conv_Cons map_Suc_upt [symmetric] o_def less_diff_conv del: upt_Suc)
  then show ?case using Cons [of "n - 1"] by (cases n) simp_all
qed

lemma rows_of_compress_store:
  assumes "planes_ok p" and "planes_ok lanes" and "length m = length (rows_of lanes)"
    and "wr \<le> length (rows_of p)"
  shows "rows_of (compress_store p wr m lanes) = patch (rows_of p) wr (compress m (rows_of lanes))"
    and "planes_ok (compress_store p wr m lanes)"
proof -
  obtain es us vids where p: "p = (es, us, vids)" by (cases p)
  obtain es' us' vids' where l: "lanes = (es', us', vids')" by (cases lanes)
  have len: "length us = length es" "length vids = length es" "length us' = length es'"
    "length vids' = length es'" "length m = length es'" "wr \<le> length es"
    using assms by (simp_all add: p l planes_ok_def rows_of_def)
  then show "rows_of (compress_store p wr m lanes)
      = patch (rows_of p) wr (compress m (rows_of lanes))"
    by (simp add: p l compress_store_def rows_of_def zip_patch zip_compress length_compress)
  show "planes_ok (compress_store p wr m lanes)"
    using len by (simp add: p l compress_store_def planes_ok_def patch_def length_compress)
qed

lemma load_lanes_rows:
  assumes "planes_ok p" and "rd + 16 \<le> length (rows_of p)"
  shows "planes_ok (load_lanes p rd)" and "rows_of (load_lanes p rd) = segment (rows_of p) rd 16"
  using assms
  by (auto simp: planes_ok_def rows_of_def load_lanes_def segment_def take_zip drop_zip
      split: prod.splits)

section \<open>Compaction is a filter\<close>

definition compacted :: "(row \<Rightarrow> bool) \<Rightarrow> nat \<Rightarrow> nat \<Rightarrow> nat \<Rightarrow> planes \<Rightarrow> planes \<times> nat \<Rightarrow> bool" where
  "compacted keep rd n wr p r \<longleftrightarrow>
    (case r of (q, wr') \<Rightarrow>
      planes_ok q \<and> length (rows_of q) = length (rows_of p)
      \<and> take wr' (rows_of q) = take wr (rows_of p) @ filter keep (segment (rows_of p) rd n)
      \<and> wr' = wr + length (filter keep (segment (rows_of p) rd n)))"

lemma segment_Suc:
  "rd < length xs \<Longrightarrow> segment xs rd (Suc n) = xs ! rd # segment xs (Suc rd) n"
  by (simp add: segment_def Cons_nth_drop_Suc [symmetric])

lemma segment_update_before: "wr < rd \<Longrightarrow> segment (xs[wr := x]) rd n = segment xs rd n"
  by (simp add: segment_def drop_update_cancel)

lemma compact_scalar_filter:
  "planes_ok p \<Longrightarrow> wr \<le> rd \<Longrightarrow> rd + n \<le> length (rows_of p) \<Longrightarrow>
    compacted keep rd n wr p (compact_scalar keep rd n wr p)"
proof (induction keep rd n wr p rule: compact_scalar.induct)
  case (1 keep rd wr p)
  then show ?case by (simp add: compacted_def segment_def)
next
  case (2 keep rd n wr es us vids)
  let ?p = "(es, us, vids)" and ?r = "(es ! rd, us ! rd, vids ! rd)"
  let ?q = "(es[wr := es ! rd], us[wr := us ! rd], vids[wr := vids ! rd])"
  have rd: "rd < length (rows_of ?p)" using 2 by simp
  with 2 have nth: "rows_of ?p ! rd = ?r" by (simp add: nth_rows_of length_rows_of)
  show ?case
  proof (cases "keep ?r")
    case True
    have q: "planes_ok ?q" "rows_of ?q = (rows_of ?p)[wr := ?r]"
      using rows_of_update [OF "2.prems"(1)] by simp_all
    have "compacted keep (rd + 1) n (wr + 1) ?q (compact_scalar keep (rd + 1) n (wr + 1) ?q)"
      using 2 True q by simp
    then show ?thesis
      using True 2 rd
      by (auto simp: compacted_def q(2) segment_Suc nth segment_update_before take_Suc_conv_app_nth
          split: prod.splits)
  next
    case False
    then show ?thesis
      using 2 rd by (auto simp: compacted_def segment_Suc nth split: prod.splits)
  qed
qed

lemma segment_patch_after:
  "off + length ys \<le> rd \<Longrightarrow> off \<le> length xs \<Longrightarrow> segment (patch xs off ys) rd n = segment xs rd n"
  by (simp add: segment_def patch_def)

lemma take_patch: "off \<le> length xs \<Longrightarrow> take (off + length ys) (patch xs off ys) = take off xs @ ys"
  by (simp add: patch_def)

lemma compact_avx512_filter:
  "planes_ok p \<Longrightarrow> wr \<le> rd \<Longrightarrow> rd \<le> cnt \<Longrightarrow> cnt \<le> length (rows_of p) \<Longrightarrow>
    compacted keep rd (cnt - rd) wr p (compact_avx512 keep cnt rd wr p)"
proof (induction keep cnt rd wr p rule: compact_avx512.induct)
  case (1 keep cnt rd wr p)
  show ?case
  proof (cases "rd + 16 \<le> cnt")
    case False
    then show ?thesis
      using 1 compact_scalar_filter [of p wr rd "cnt - rd" keep]
      by (simp add: compact_avx512.simps [of keep cnt rd wr p])
  next
    case True
    define fs where "fs = filter keep (segment (rows_of p) rd 16)"
    define lanes where "lanes = load_lanes p rd"
    define msk where "msk = map keep (rows_of lanes)"
    define q where "q = compress_store p wr msk lanes"
    have lanes: "planes_ok lanes" "rows_of lanes = segment (rows_of p) rd 16"
      using load_lanes_rows [of p rd] 1 True by (simp_all add: lanes_def)
    have fs: "compress msk (rows_of lanes) = fs" "popcount msk = length fs" "length fs \<le> 16"
      using length_compress [of msk "rows_of lanes"] length_filter_le [of keep "segment (rows_of p) rd 16"]
        1 True
      by (simp_all add: msk_def fs_def lanes(2) compress_map_filter length_segment)
    have q: "rows_of q = patch (rows_of p) wr fs" "planes_ok q"
      using rows_of_compress_store [of p lanes msk wr] 1 lanes fs
      by (simp_all add: q_def msk_def)
    have len: "length (rows_of q) = length (rows_of p)"
      using 1 True fs by (simp add: q(1))
    have "compacted keep (rd + 16) (cnt - (rd + 16)) (wr + length fs) q
        (compact_avx512 keep cnt (rd + 16) (wr + length fs) q)"
      using 1 True fs q len by (simp add: lanes_def msk_def q_def)
    moreover have "compact_avx512 keep cnt rd wr p =
        compact_avx512 keep cnt (rd + 16) (wr + length fs) q"
      using True by (simp add: compact_avx512.simps [of keep cnt rd wr p] Let_def fs(2)
          flip: lanes_def msk_def q_def)
    moreover have "segment (rows_of p) rd (cnt - rd)
        = segment (rows_of p) rd 16 @ segment (rows_of p) (rd + 16) (cnt - (rd + 16))"
      using True segment_split [of "rows_of p" rd 16 "cnt - (rd + 16)"] by simp
    moreover have "segment (rows_of q) (rd + 16) (cnt - (rd + 16))
        = segment (rows_of p) (rd + 16) (cnt - (rd + 16))"
      using 1 True fs by (simp add: q(1) segment_patch_after)
    moreover have "take (wr + length fs) (rows_of q) = take wr (rows_of p) @ fs"
      using 1 by (simp add: q(1) take_patch)
    ultimately show ?thesis
      using len by (auto simp: compacted_def fs_def split: prod.splits)
  qed
qed

definition reservoir_ok :: "fused \<Rightarrow> bool" where
  "reservoir_ok s \<longleftrightarrow> planes_ok (fa_planes s) \<and> fa_size s \<le> length (rows_of (fa_planes s))"

text \<open>Both backends compact to the same live rows, and touch nothing else of the state.\<close>

lemma compact_live_rows:
  assumes "reservoir_ok s"
  shows "reservoir_ok (compact avx keep s)"
    and "live_rows (compact avx keep s) = filter keep (live_rows s)"
    and "fa_size (compact avx keep s) = length (filter keep (live_rows s))"
    and "length (rows_of (fa_planes (compact avx keep s))) = length (rows_of (fa_planes s))"
proof -
  have "compacted keep 0 (fa_size s) 0 (fa_planes s)
      (if avx then compact_avx512 keep (fa_size s) 0 0 (fa_planes s)
       else compact_scalar keep 0 (fa_size s) 0 (fa_planes s))"
    using assms compact_avx512_filter [of "fa_planes s" 0 0 "fa_size s" keep]
      compact_scalar_filter [of "fa_planes s" 0 0 "fa_size s" keep]
    by (simp add: reservoir_ok_def)
  moreover have "segment (rows_of (fa_planes s)) 0 (fa_size s) = live_rows s"
    by (simp add: segment_def live_rows_def)
  moreover have "length (filter keep (live_rows s)) \<le> length (rows_of (fa_planes s))"
    using length_filter_le [of keep "live_rows s"] by (simp add: live_rows_def)
  ultimately show "reservoir_ok (compact avx keep s)"
    and "live_rows (compact avx keep s) = filter keep (live_rows s)"
    and "fa_size (compact avx keep s) = length (filter keep (live_rows s))"
    and "length (rows_of (fa_planes (compact avx keep s))) = length (rows_of (fa_planes s))"
    by (auto simp: compact_def compacted_def reservoir_ok_def live_rows_def split: prod.splits)
qed

lemma compact_fields [simp]:
  "fa_topk (compact avx keep s) = fa_topk s" "fa_z_score (compact avx keep s) = fa_z_score s"
  "fa_max_candidates (compact avx keep s) = fa_max_candidates s"
  "fa_capacity (compact avx keep s) = fa_capacity s" "fa_seen (compact avx keep s) = fa_seen s"
  "fa_uppers (compact avx keep s) = fa_uppers s"
  "fa_threshold_estimate (compact avx keep s) = fa_threshold_estimate s"
  "fa_threshold_id (compact avx keep s) = fa_threshold_id s"
  "fa_has_threshold (compact avx keep s) = fa_has_threshold s"
  by (simp_all add: compact_def split: prod.splits)


section \<open>The selector invariant\<close>

definition row_key :: "row \<Rightarrow> int \<times> u32" where
  "row_key r = (case r of (e, u, i) \<Rightarrow> (f32_smag e, i))"

definition threshold_key :: "fused \<Rightarrow> int \<times> u32" where
  "threshold_key s = (f32_smag (fa_threshold_estimate s), fa_threshold_id s)"

text \<open>The scanned rows: no NaN estimate, and no two rows with the same rank key.\<close>

definition scan_ok :: "row list \<Rightarrow> bool" where
  "scan_ok A \<longleftrightarrow> (\<forall>r \<in> set A. \<not> f32_is_nan (fst r)) \<and> distinct (map row_key A)"

definition heap_inv :: "fused \<Rightarrow> f32 list \<Rightarrow> bool" where
  "heap_inv s U \<longleftrightarrow> 0 < fa_topk s \<and> pq_ok f32_smag (fa_uppers s)
    \<and> (\<forall>u \<in> set (fa_uppers s). \<not> f32_is_nan u)
    \<and> smallest_part f32_smag (fa_topk s) (mset U) (mset (fa_uppers s))"

text \<open>
  What the reservoir knows about the rows \<open>A\<close> scanned so far: without a threshold it holds them all;
  with one, it holds at least R rows, none beyond the threshold, and every dropped row is at or
  beyond it.
\<close>

definition rank_inv :: "fused \<Rightarrow> row list \<Rightarrow> bool" where
  "rank_inv s A \<longleftrightarrow> reservoir_ok s \<and> mset (live_rows s) \<subseteq># mset A \<and>
    (if fa_has_threshold s
     then 0 < fa_max_candidates s \<and> \<not> f32_is_nan (fa_threshold_estimate s)
       \<and> fa_max_candidates s \<le> fa_size s
       \<and> (\<forall>r \<in> set (live_rows s). row_key r \<le> threshold_key s)
       \<and> (\<forall>r \<in># mset A - mset (live_rows s). threshold_key s \<le> row_key r)
     else mset (live_rows s) = mset A)"

definition space_inv :: "fused \<Rightarrow> bool" where
  "space_inv s \<longleftrightarrow>
    (if 0 < fa_max_candidates s
     then fa_capacity s = 2 * fa_max_candidates s
       \<and> length (rows_of (fa_planes s)) = 2 * fa_max_candidates s + 16
     else length (rows_of (fa_planes s)) = fa_size s \<and> fa_capacity s = 0)"

definition not_full :: "fused \<Rightarrow> bool" where
  "not_full s \<longleftrightarrow> (0 < fa_max_candidates s \<longrightarrow> fa_size s < 2 * fa_max_candidates s)"

lemma length_live_rows: "reservoir_ok s \<Longrightarrow> length (live_rows s) = fa_size s"
  by (simp add: live_rows_def reservoir_ok_def)

subsection \<open>The heap of uppers\<close>

lemma update_upper_fields [simp]:
  "fa_topk (update_upper u s) = fa_topk s" "fa_z_score (update_upper u s) = fa_z_score s"
  "fa_max_candidates (update_upper u s) = fa_max_candidates s"
  "fa_capacity (update_upper u s) = fa_capacity s" "fa_seen (update_upper u s) = fa_seen s"
  "fa_size (update_upper u s) = fa_size s" "fa_planes (update_upper u s) = fa_planes s"
  "fa_threshold_estimate (update_upper u s) = fa_threshold_estimate s"
  "fa_threshold_id (update_upper u s) = fa_threshold_id s"
  "fa_has_threshold (update_upper u s) = fa_has_threshold s"
  by (simp_all add: update_upper_def)

lemma pq_top_in: "h \<noteq> [] \<Longrightarrow> pq_top h \<in> set h"
  by (cases h) (simp_all add: pq_top_def)

lemma heap_full_nonempty:
  "heap_inv s U \<Longrightarrow> fa_topk s \<le> length (fa_uppers s) \<Longrightarrow> fa_uppers s \<noteq> []
    \<and> length (fa_uppers s) = fa_topk s"
  by (auto simp: heap_inv_def smallest_part_def)

lemma update_upper_heap:
  assumes h: "heap_inv s U" and nn: "\<not> f32_is_nan u"
  shows "heap_inv (update_upper u s) (U @ [u])"
proof -
  let ?h = "fa_uppers s"
  note hi = h [unfolded heap_inv_def]
  consider (room) "length ?h < fa_topk s"
    | (below) "fa_topk s \<le> length ?h" "f32_lt u (pq_top ?h)"
    | (above) "fa_topk s \<le> length ?h" "\<not> f32_lt u (pq_top ?h)" by linarith
  then show ?thesis
  proof cases
    case room
    with hi nn show ?thesis
      using pq.grow [of f32_smag ?h "fa_topk s" "mset U" u]
      by (auto simp: heap_inv_def update_upper_def)
  next
    case below
    have ne: "?h \<noteq> []" "length ?h = fa_topk s" using heap_full_nonempty [OF h below(1)] by auto
    have "set (pq_pop ?h) \<subseteq> set ?h" by (simp add: pq_pop_def) (meson list.set_sel(2) ne(1) subsetI)
    with hi nn ne below show ?thesis
      using pq.replace_top [of f32_smag ?h "fa_topk s" "mset U" u]
      by (auto simp: heap_inv_def update_upper_def f32_lt_def)
  next
    case above
    have ne: "?h \<noteq> []" "length ?h = fa_topk s" using heap_full_nonempty [OF h above(1)] by auto
    with hi nn above have "f32_smag (pq_top ?h) \<le> f32_smag u"
      using pq_top_in [OF ne(1)] by (auto simp: f32_lt_def)
    with hi ne above show ?thesis
      using pq.reject [of f32_smag ?h "fa_topk s" "mset U" u]
      by (auto simp: heap_inv_def update_upper_def)
  qed
qed

lemma update_uppers_heap:
  "heap_inv s U \<Longrightarrow> \<forall>u \<in> set us. \<not> f32_is_nan u \<Longrightarrow> heap_inv (fold update_upper us s) (U @ us)"
proof (induction us arbitrary: s U)
  case Nil
  then show ?case by simp
next
  case (Cons u us)
  then show ?case using Cons.IH [of "update_upper u s" "U @ [u]"] by (simp add: update_upper_heap)
qed

lemma fold_update_upper_fields [simp]:
  "fa_topk (fold update_upper us s) = fa_topk s" "fa_z_score (fold update_upper us s) = fa_z_score s"
  "fa_max_candidates (fold update_upper us s) = fa_max_candidates s"
  "fa_capacity (fold update_upper us s) = fa_capacity s" "fa_seen (fold update_upper us s) = fa_seen s"
  "fa_size (fold update_upper us s) = fa_size s" "fa_planes (fold update_upper us s) = fa_planes s"
  "fa_threshold_estimate (fold update_upper us s) = fa_threshold_estimate s"
  "fa_threshold_id (fold update_upper us s) = fa_threshold_id s"
  "fa_has_threshold (fold update_upper us s) = fa_has_threshold s"
  by (induction us arbitrary: s) simp_all

text \<open>
  An upper that does not beat the root before a batch cannot enter the heap during it: the masked
  vector path inserts fewer values and ends in a heap that is just as right.
\<close>

lemma smallest_part_add_large:
  "smallest_part key k S T \<Longrightarrow> size T = k \<Longrightarrow> (\<And>x y. x \<in># X \<Longrightarrow> y \<in># T \<Longrightarrow> key y \<le> key x) \<Longrightarrow>
    smallest_part key k (S + X) T"
proof (induction X)
  case empty
  then show ?case by simp
next
  case (add x X)
  then show ?case
    using smallest_part_reject [of key k "S + X" T x] by simp
qed

lemma update_upper_root_le:
  assumes "heap_inv s U" and "\<not> f32_is_nan u" and "fa_topk s \<le> length (fa_uppers s)"
    and "\<forall>v \<in> set (fa_uppers s). f32_smag v \<le> b"
  shows "fa_topk s \<le> length (fa_uppers (update_upper u s))
    \<and> (\<forall>v \<in> set (fa_uppers (update_upper u s)). f32_smag v \<le> b)"
proof -
  have ne: "fa_uppers s \<noteq> []" using heap_full_nonempty [OF assms(1,3)] by simp
  then have "f32_smag (pq_top (fa_uppers s)) \<le> b" using assms(4) pq_top_in by blast
  moreover have "set (pq_pop (fa_uppers s)) \<subseteq> set (fa_uppers s)"
    by (simp add: pq_pop_def) (meson list.set_sel(2) ne subsetI)
  ultimately show ?thesis
    using assms ne by (auto simp: update_upper_def f32_lt_def pq_pop_def)
qed

lemma update_uppers_root_le:
  "heap_inv s U \<Longrightarrow> \<forall>u \<in> set us. \<not> f32_is_nan u \<Longrightarrow> fa_topk s \<le> length (fa_uppers s) \<Longrightarrow>
    \<forall>v \<in> set (fa_uppers s). f32_smag v \<le> b \<Longrightarrow>
    \<forall>v \<in> set (fa_uppers (fold update_upper us s)). f32_smag v \<le> b"
proof (induction us arbitrary: s U)
  case Nil
  then show ?case by simp
next
  case (Cons u us)
  have "heap_inv (update_upper u s) (U @ [u])"
    using Cons.prems by (simp add: update_upper_heap)
  moreover have "fa_topk s \<le> length (fa_uppers (update_upper u s))
      \<and> (\<forall>v \<in> set (fa_uppers (update_upper u s)). f32_smag v \<le> b)"
    using Cons.prems by (intro update_upper_root_le) simp_all
  ultimately show ?case
    using Cons.IH [of "update_upper u s" "U @ [u]"] Cons.prems(2) by simp
qed

lemma masked_uppers_heap:
  assumes h: "heap_inv s U" and nn: "\<forall>u \<in> set us. \<not> f32_is_nan u"
    and full: "fa_topk s \<le> length (fa_uppers s)"
  shows "heap_inv (fold update_upper (filter (\<lambda>u. f32_lt u (pq_top (fa_uppers s))) us) s) (U @ us)"
proof -
  let ?r = "pq_top (fa_uppers s)"
  let ?in = "filter (\<lambda>u. f32_lt u ?r) us" and ?out = "filter (\<lambda>u. \<not> f32_lt u ?r) us"
  let ?t = "fold update_upper ?in s"
  have t: "heap_inv ?t (U @ ?in)" using h nn by (simp add: update_uppers_heap)
  have ne: "fa_uppers s \<noteq> []" using heap_full_nonempty [OF h full] by simp
  have "f32_smag v \<le> f32_smag ?r" if "v \<in> set (fa_uppers s)" for v
    using pq.top_max [of f32_smag "fa_uppers s" v] that h by (simp add: heap_inv_def)
  then have root: "\<forall>v \<in> set (fa_uppers ?t). f32_smag v \<le> f32_smag ?r"
    using update_uppers_root_le [OF h _ full, of ?in "f32_smag ?r"] nn by simp
  have "f32_smag ?r \<le> f32_smag x" if "x \<in> set ?out" for x
    using that nn h pq_top_in [OF ne] by (auto simp: f32_lt_def heap_inv_def)
  then have "smallest_part f32_smag (fa_topk s) (mset (U @ ?in) + mset ?out) (mset (fa_uppers ?t))"
    using t root h full
    by (intro smallest_part_add_large) (force simp: heap_inv_def smallest_part_def)+
  moreover have "mset (U @ ?in) + mset ?out = mset (U @ us)" by simp
  ultimately have "smallest_part f32_smag (fa_topk s) (mset (U @ us)) (mset (fa_uppers ?t))"
    by (simp only:)
  then show ?thesis using t by (simp add: heap_inv_def)
qed


subsection \<open>The reservoir\<close>

definition admits :: "fused \<Rightarrow> row \<Rightarrow> bool" where
  "admits s r = (case r of (e, u, i) \<Rightarrow> admit s e i)"

lemma admits_key:
  assumes "fa_has_threshold s" and "\<not> f32_is_nan (fa_threshold_estimate s)"
    and "\<not> f32_is_nan (fst r)"
  shows "admits s r \<longleftrightarrow> row_key r < threshold_key s"
  using assms
  by (cases r) (auto simp: admits_def admit_def row_key_def threshold_key_def f32_lt_def f32_eq_def)

text \<open>Appending the admitted rows of a batch keeps what is known of the ranks.\<close>

lemma rank_extend:
  assumes inv: "rank_inv s A" and ok: "scan_ok (A @ B)" and res: "reservoir_ok s'"
    and live: "live_rows s' = live_rows s @ filter (admits s) B"
    and same: "fa_max_candidates s' = fa_max_candidates s"
      "fa_has_threshold s' = fa_has_threshold s"
      "fa_threshold_estimate s' = fa_threshold_estimate s" "fa_threshold_id s' = fa_threshold_id s"
  shows "rank_inv s' (A @ B)"
proof -
  let ?in = "filter (admits s) B" and ?out = "filter (\<lambda>r. \<not> admits s r) B"
  have tk: "threshold_key s' = threshold_key s" by (simp add: threshold_key_def same)
  have sub: "mset (live_rows s) \<subseteq># mset A" using inv by (simp add: rank_inv_def)
  have B: "mset B = mset ?in + mset ?out" by simp
  have diff: "mset (A @ B) - mset (live_rows s') = (mset A - mset (live_rows s)) + mset ?out"
  proof -
    obtain X where X: "mset A = mset (live_rows s) + X"
      using sub by (metis mset_subset_eq_exists_conv)
    have "mset (A @ B) - mset (live_rows s') = X + (mset ?in + mset ?out) - mset ?in"
      unfolding live mset_append X B [symmetric] by (simp add: add.assoc)
    also have "\<dots> = (mset A - mset (live_rows s)) + mset ?out"
      unfolding X by (simp only: add.left_commute [of X] add_diff_cancel_left')
    finally show ?thesis .
  qed
  have sub': "mset (live_rows s') \<subseteq># mset (A @ B)"
    unfolding live mset_append using sub by (intro subset_mset.add_mono) simp_all
  show ?thesis
  proof (cases "fa_has_threshold s")
    case False
    then have "?in = B" by (simp add: admits_def admit_def)
    with False inv show ?thesis
      using res sub' by (simp add: rank_inv_def same live)
  next
    case True
    with inv have t: "\<not> f32_is_nan (fa_threshold_estimate s)" by (simp add: rank_inv_def)
    have key: "admits s r \<longleftrightarrow> row_key r < threshold_key s" if "r \<in> set B" for r
      using admits_key [OF True t] ok that by (simp add: scan_ok_def)
    have "fa_size s \<le> fa_size s'"
      using length_live_rows [OF res] inv length_live_rows [of s] by (simp add: rank_inv_def live)
    moreover have "threshold_key s' \<le> row_key r" if r: "r \<in># mset (A @ B) - mset (live_rows s')" for r
    proof -
      from r have "r \<in># mset A - mset (live_rows s) \<or> r \<in> set ?out"
        unfolding diff by (simp only: union_iff set_mset_mset)
      then show ?thesis using inv True key [of r] tk by (auto simp: rank_inv_def not_less)
    qed
    moreover have "row_key r \<le> threshold_key s'" if "r \<in> set (live_rows s')" for r
      using that inv True key [of r] tk by (auto simp: rank_inv_def live less_imp_le)
    ultimately show ?thesis
      using inv True res sub' t unfolding rank_inv_def by (auto simp: same)
  qed
qed

lemma distinct_sub_mset: "mset xs \<subseteq># mset ys \<Longrightarrow> distinct ys \<Longrightarrow> distinct xs"
proof -
  assume "mset xs \<subseteq># mset ys" and d: "distinct ys"
  then obtain X where "mset ys = mset xs + X" by (metis mset_subset_eq_exists_conv)
  moreover obtain zs where "mset zs = X" by (metis ex_mset)
  ultimately have "mset ys = mset (xs @ zs)" by simp
  then have "distinct (xs @ zs)" using d mset_eq_imp_distinct_iff by blast
  then show ?thesis by simp
qed

lemma live_rows_ok:
  assumes "rank_inv s A" and "scan_ok A"
  shows "scan_ok (live_rows s)"
proof -
  have sub: "mset (live_rows s) \<subseteq># mset A" using assms by (simp add: rank_inv_def)
  then have "mset (map row_key (live_rows s)) \<subseteq># mset (map row_key A)"
    by (simp add: image_mset_subseteq_mono)
  then have "distinct (map row_key (live_rows s))"
    using assms(2) unfolding scan_ok_def by (metis distinct_sub_mset)
  moreover have "set (live_rows s) \<subseteq> set A" using sub by (metis mset_subset_eqD set_mset_mset subsetI)
  ultimately show ?thesis using assms(2) by (auto simp: scan_ok_def)
qed

lemma live_rows_planes:
  assumes "reservoir_ok s" and "fa_planes s = (es, us, vids)"
  shows "live_rows s = zip (take (fa_size s) es) (zip (take (fa_size s) us) (take (fa_size s) vids))"
    and "length (take (fa_size s) es) = fa_size s" and "length (take (fa_size s) us) = fa_size s"
    and "length (take (fa_size s) vids) = fa_size s"
  using assms by (simp_all add: reservoir_ok_def planes_ok_def live_rows_def rows_of_def take_zip)

lemma rows_keys_zip:
  "length es = length us \<Longrightarrow> length us = length vids \<Longrightarrow>
    map row_key (zip es (zip us vids)) = zip (map f32_smag es) vids"
  by (induction es us vids rule: list_induct3) (auto simp: row_key_def)

lemma rows_filter_zip:
  "length es = length us \<Longrightarrow> length us = length vids \<Longrightarrow>
    length (filter (\<lambda>(e, u, i). P e i) (zip es (zip us vids)))
    = length (filter (\<lambda>(e, i). P e i) (zip es vids))"
  by (induction es us vids rule: list_induct3) auto

lemma mset_subset_eq_trans_left: "X + Y \<subseteq># Z \<Longrightarrow> X \<subseteq># Z"
  by (rule subset_mset.order_trans [OF mset_subset_eq_add_left])

text \<open>A cut at a threshold: what is known of the ranks after one.\<close>

lemma rank_cut:
  assumes inv: "rank_inv s A" and res: "reservoir_ok s'"
    and live: "live_rows s' = filter keep (live_rows s)"
    and t: "fa_has_threshold s'" "\<not> f32_is_nan (fa_threshold_estimate s')"
    and R: "0 < fa_max_candidates s'" "fa_max_candidates s' \<le> fa_size s'"
    and lo: "\<And>r. r \<in> set (live_rows s) \<Longrightarrow> keep r \<Longrightarrow> row_key r \<le> threshold_key s'"
    and hi: "\<And>r. r \<in> set (live_rows s) \<Longrightarrow> \<not> keep r \<Longrightarrow> threshold_key s' \<le> row_key r"
    and drop: "r0 \<in> set (live_rows s)" "\<not> keep r0"
  shows "rank_inv s' A"
proof -
  let ?out = "filter (\<lambda>r. \<not> keep r) (live_rows s)"
  have sub: "mset (live_rows s) \<subseteq># mset A" using inv by (simp add: rank_inv_def)
  have split: "mset (live_rows s) = mset (live_rows s') + mset ?out" by (simp add: live)
  have sub': "mset (live_rows s') \<subseteq># mset A"
    using sub unfolding split by (rule mset_subset_eq_trans_left)
  obtain X where X: "mset A = mset (live_rows s) + X" using sub by (metis mset_subset_eq_exists_conv)
  have diff: "mset A - mset (live_rows s') = (mset A - mset (live_rows s)) + mset ?out"
    unfolding X split by simp
  have "threshold_key s' \<le> row_key r" if "r \<in># mset A - mset (live_rows s)" for r
  proof (cases "fa_has_threshold s")
    case True
    then have "row_key r0 \<le> threshold_key s" and "threshold_key s \<le> row_key r"
      using inv that drop by (simp_all add: rank_inv_def)
    with hi [OF drop] show ?thesis by (metis order_trans)
  next
    case False
    with inv that show ?thesis by (simp add: rank_inv_def)
  qed
  moreover have "threshold_key s' \<le> row_key r" if "r \<in> set ?out" for r
    using that hi by simp
  moreover have "row_key r \<le> threshold_key s'" if "r \<in> set (live_rows s')" for r
    using that lo by (simp add: live)
  ultimately show ?thesis
    using res sub' t R unfolding rank_inv_def diff by auto
qed

lemma threshold_keeps_key:
  assumes "\<not> f32_is_nan te" and "\<not> f32_is_nan (fst r)"
  shows "threshold_keeps te ti True r \<longleftrightarrow> row_key r \<le> (f32_smag te, ti)"
    and "threshold_keeps te 0 False r \<longleftrightarrow> row_key r < (f32_smag te, 0)"
  using assms by (cases r; auto simp: threshold_keeps_def row_key_def f32_lt_def f32_eq_def)+

definition kept_frame :: "fused \<Rightarrow> fused \<Rightarrow> bool" where
  "kept_frame s s' \<longleftrightarrow> fa_topk s' = fa_topk s \<and> fa_z_score s' = fa_z_score s
    \<and> fa_max_candidates s' = fa_max_candidates s \<and> fa_seen s' = fa_seen s
    \<and> fa_uppers s' = fa_uppers s"

lemma fuzzy_shrink_ok:
  assumes inv: "rank_inv s A" "space_inv s" and ok: "scan_ok A"
    and q: "fa_max_candidates s = q_min" "0 < q_min" "q_min \<le> q_max"
  shows "\<exists>s'. fuzzy_shrink_shortlist avx q_min q_max s = Inr s' \<and> rank_inv s' A \<and> space_inv s'
    \<and> kept_frame s s' \<and> fa_size s' \<le> q_max"
proof (cases "fa_size s \<le> q_max")
  case True
  then show ?thesis using inv by (simp add: fuzzy_shrink_shortlist_def kept_frame_def)
next
  case False
  obtain es us vids where p: "fa_planes s = (es, us, vids)" by (cases "fa_planes s")
  have res: "reservoir_ok s" using inv by (simp add: rank_inv_def)
  note lr = live_rows_planes [OF res p]
  let ?n = "fa_size s"
  have live: "scan_ok (live_rows s)" using live_rows_ok inv ok by blast
  have dist: "rank_keys_distinct (take ?n es) (take ?n vids)"
    using live by (simp only: scan_ok_def rank_keys_distinct_def lr(1) rows_keys_zip [OF _ _] lr(2-4))
  have nn: "\<forall>e \<in> set (take ?n es). \<not> f32_is_nan e"
  proof
    fix e assume "e \<in> set (take ?n es)"
    moreover have "map fst (live_rows s) = take ?n es"
      unfolding lr(1) by (rule map_fst_zip) (simp only: length_zip lr(2-4) min.idem)
    ultimately have "e \<in> fst ` set (live_rows s)" by (metis set_map)
    with live show "\<not> f32_is_nan e" by (auto simp: scan_ok_def)
  qed
  obtain t where find: "find_fuzzy_rank_threshold (take ?n es) (take ?n vids) q_min q_max = Inr t"
    and out: "q_min \<le> ft_output_size t" "ft_output_size t \<le> q_max"
    and te: "\<not> f32_is_nan (ft_estimate t)" "ft_equal_to_keep t = 0 \<longrightarrow> ft_id t = 0"
    and cnt: "length (filter (\<lambda>(e, i). fuzzy_keeps t e i) (zip (take ?n es) (take ?n vids)))
      = ft_output_size t"
  proof (rule find_fuzzy_rank_threshold_total [OF q(2,3) _ _ nn dist])
    show "q_max < length (take ?n es)" using False by (simp only: lr(2) not_le)
    show "length (take ?n vids) = length (take ?n es)" by (simp only: lr(2,4))
  qed
  define keep where "keep = threshold_keeps (ft_estimate t) (ft_id t) (ft_equal_to_keep t > 0)"
  define s1 where "s1 = s\<lparr>fa_threshold_estimate := ft_estimate t, fa_threshold_id := ft_id t,
    fa_has_threshold := True\<rparr>"
  have res1: "reservoir_ok s1" and live1: "live_rows s1 = live_rows s"
    using res by (simp_all add: s1_def reservoir_ok_def live_rows_def)
  note c = compact_live_rows [OF res1, of avx keep]
  have keep: "keep = (\<lambda>(e, u, i). fuzzy_keeps t e i)"
    by (simp add: keep_def threshold_keeps_def fuzzy_keeps_def fun_eq_iff)
  have size: "fa_size (compact avx keep s1) = ft_output_size t"
    unfolding c(3) live1 lr(1) unfolding keep using cnt
    by (subst rows_filter_zip) (simp_all only: lr(2-4))
  have r: "fuzzy_shrink_shortlist avx q_min q_max s = Inr (compact avx keep s1)"
    using False find size by (simp add: fuzzy_shrink_shortlist_def p s1_def keep_def Let_def)
  have tk: "threshold_key (compact avx keep s1) = (f32_smag (ft_estimate t), ft_id t)"
    by (simp add: threshold_key_def s1_def)
  have kk: "keep r \<longrightarrow> row_key r \<le> threshold_key (compact avx keep s1)"
    "\<not> keep r \<longrightarrow> threshold_key (compact avx keep s1) \<le> row_key r" if "r \<in> set (live_rows s)" for r
  proof -
    have n: "\<not> f32_is_nan (fst r)" using that live by (simp add: scan_ok_def)
    have "keep r \<longleftrightarrow> (if ft_equal_to_keep t = 0 then row_key r < (f32_smag (ft_estimate t), ft_id t)
        else row_key r \<le> (f32_smag (ft_estimate t), ft_id t))"
      using threshold_keeps_key [OF te(1) n] te(2) by (simp add: keep_def)
    then show "keep r \<longrightarrow> row_key r \<le> threshold_key (compact avx keep s1)"
      and "\<not> keep r \<longrightarrow> threshold_key (compact avx keep s1) \<le> row_key r"
      unfolding tk by (meson less_imp_le linorder_not_less nle_le)+
  qed
  have "length (filter keep (live_rows s)) < length (live_rows s)"
    using size out False by (simp add: c live1 length_live_rows res)
  then obtain r0 where r0: "r0 \<in> set (live_rows s)" "\<not> keep r0"
    by (metis filter_True less_irrefl)
  have "rank_inv (compact avx keep s1) A"
  proof (rule rank_cut [OF inv(1) c(1), where keep = keep])
    show "live_rows (compact avx keep s1) = filter keep (live_rows s)" by (simp only: c(2) live1)
    show "fa_has_threshold (compact avx keep s1)"
      and "\<not> f32_is_nan (fa_threshold_estimate (compact avx keep s1))"
      using te by (simp_all add: s1_def)
    show "0 < fa_max_candidates (compact avx keep s1)" using q by (simp add: s1_def)
    show "fa_max_candidates (compact avx keep s1) \<le> fa_size (compact avx keep s1)"
      using q out size by (simp add: s1_def)
  qed (use kk r0 in blast)+
  moreover have "space_inv (compact avx keep s1)"
    using inv(2) c(4) q by (simp add: space_inv_def s1_def)
  ultimately show ?thesis
    using r out size by (simp add: kept_frame_def s1_def)
qed

lemma shrink_if_full_ok:
  assumes "rank_inv s A" and "space_inv s" and "scan_ok A"
  shows "\<exists>s'. shrink_if_full avx s = Inr s' \<and> rank_inv s' A \<and> space_inv s' \<and> kept_frame s s'
    \<and> not_full s'"
proof (cases "fa_max_candidates s = 0 \<or> fa_size s < fa_capacity s")
  case True
  then show ?thesis
    using assms by (auto simp: shrink_if_full_def kept_frame_def not_full_def space_inv_def)
next
  case False
  then have cap: "0 < fa_max_candidates s" "fa_capacity s = 2 * fa_max_candidates s"
    using assms by (simp_all add: space_inv_def)
  let ?q = "fa_max_candidates s + fa_max_candidates s div 2"
  obtain s' where "fuzzy_shrink_shortlist avx (fa_max_candidates s) ?q s = Inr s'" "rank_inv s' A"
      "space_inv s'" "kept_frame s s'" "fa_size s' \<le> ?q"
    using fuzzy_shrink_ok [OF assms, of "fa_max_candidates s" ?q avx] cap by auto
  with False cap show ?thesis
    by (auto simp: shrink_if_full_def not_full_def kept_frame_def)
qed

end
