(* ===== verification/Fused_Selection.thy ===== *)
theory Fused_Selection
  imports Fused_Correct
begin

text \<open>
  The adders and \<open>finish\<close> of the fused selector against the selection they implement:
  the portable and the AVX-512 adders satisfy the contract \<open>batch_selector\<close>, and any sequence of
  batches followed by \<open>finish\<close> yields the K-th smallest upper endpoint and the R best rows that
  pass the lower-bound test.
\<close>

section \<open>Storing admitted rows\<close>

lemma rows_of_resize:
  assumes "planes_ok p"
  shows "planes_ok (resize_planes p n)" and "length (rows_of (resize_planes p n)) = n"
    and "m \<le> n \<Longrightarrow> m \<le> length (rows_of p) \<Longrightarrow> take m (rows_of (resize_planes p n)) = take m (rows_of p)"
  using assms
  by (auto simp: planes_ok_def resize_planes_def resize_def rows_of_def take_zip split: prod.splits)

lemma ensure_space:
  assumes "reservoir_ok s" and "space_inv s" and "not_full s" and "k \<le> 16"
  defines "t \<equiv> ensure_uncapped_space k s"
  shows "reservoir_ok t" and "live_rows t = live_rows s" and "fa_size t = fa_size s"
    and "fa_size s + k \<le> length (rows_of (fa_planes t))"
    and "0 < fa_max_candidates s \<Longrightarrow>
      length (rows_of (fa_planes t)) = length (rows_of (fa_planes s))"
    and "fa_max_candidates s = 0 \<Longrightarrow> length (rows_of (fa_planes t)) = fa_size s + k"
    and "kept_frame s t" and "fa_has_threshold t = fa_has_threshold s"
    and "fa_threshold_estimate t = fa_threshold_estimate s"
    and "fa_threshold_id t = fa_threshold_id s" and "fa_capacity t = fa_capacity s"
  using assms rows_of_resize [of "fa_planes s" "fa_size s + k"]
    rows_of_resize(3) [of "fa_planes s" "fa_size s" "fa_size s + k"]
  by (auto simp: t_def ensure_uncapped_space_def reservoir_ok_def live_rows_def kept_frame_def
      space_inv_def not_full_def)

definition grown :: "fused \<Rightarrow> row list \<Rightarrow> fused \<Rightarrow> bool" where
  "grown s F t \<longleftrightarrow> reservoir_ok t \<and> live_rows t = live_rows s @ F \<and> space_inv t
    \<and> kept_frame s t \<and> fa_has_threshold t = fa_has_threshold s
    \<and> fa_threshold_estimate t = fa_threshold_estimate s \<and> fa_threshold_id t = fa_threshold_id s"

lemma grown_store:
  assumes s: "reservoir_ok s" "space_inv s" "not_full s" and k: "length F = k" "k \<le> 16"
    and t: "t = ensure_uncapped_space k s"
    and q: "planes_ok q" "length (rows_of q) = length (rows_of (fa_planes t))"
      "take (fa_size t + k) (rows_of q) = take (fa_size t) (rows_of (fa_planes t)) @ F"
  shows "grown s F (t\<lparr>fa_planes := q, fa_size := fa_size t + k\<rparr>)"
proof -
  note e = ensure_space [OF s k(2), folded t]
  show ?thesis
    using s q e by (auto simp: grown_def reservoir_ok_def live_rows_def space_inv_def kept_frame_def)
qed

lemma grown_ok:
  assumes "rank_inv s A" and "scan_ok (A @ B)" and "grown s (filter (admits s) B) t"
  shows "\<exists>s'. shrink_if_full avx t = Inr s' \<and> rank_inv s' (A @ B) \<and> space_inv s' \<and> kept_frame s s'
    \<and> not_full s'"
proof -
  have "rank_inv t (A @ B)"
    using assms by (intro rank_extend [OF assms(1,2)]) (simp_all add: grown_def kept_frame_def)
  then show ?thesis
    using shrink_if_full_ok [of t "A @ B" avx] assms by (auto simp: grown_def kept_frame_def)
qed

lemma append_scalar_ok:
  assumes inv: "rank_inv s A" "space_inv s" "not_full s" and ok: "scan_ok (A @ [r])"
    and adm: "admits s r"
  shows "\<exists>s'. append_scalar avx r s = Inr s' \<and> rank_inv s' (A @ [r]) \<and> space_inv s'
    \<and> kept_frame s s' \<and> not_full s'"
proof -
  have res: "reservoir_ok s" using inv by (simp add: rank_inv_def)
  define t where "t = ensure_uncapped_space 1 s"
  note e = ensure_space [OF res inv(2,3), of 1, folded t_def]
  obtain es us vids where p: "fa_planes t = (es, us, vids)" by (cases "fa_planes t")
  obtain e u i where r: "r = (e, u, i)" by (cases r)
  let ?q = "(es[fa_size t := e], us[fa_size t := u], vids[fa_size t := i])"
  have ok_t: "planes_ok (es, us, vids)" using e(1) by (simp add: reservoir_ok_def p)
  note q = rows_of_update [OF ok_t, of "fa_size t" e u i]
  have "fa_size t < length (rows_of (es, us, vids))" using e(3,4) by (simp add: p)
  then have "grown s [r] (t\<lparr>fa_planes := ?q, fa_size := fa_size t + 1\<rparr>)"
    using q by (intro grown_store [OF res inv(2,3) _ _ t_def])
      (simp_all add: p r take_Suc_conv_app_nth)
  then have "grown s (filter (admits s) [r]) (t\<lparr>fa_planes := ?q, fa_size := fa_size t + 1\<rparr>)"
    using adm by simp
  from grown_ok [OF inv(1) ok this] show ?thesis
    by (simp add: append_scalar_def p r Let_def flip: t_def [simplified])
qed

section \<open>The contract of an adder\<close>

definition sel_inv :: "fused \<Rightarrow> row list \<Rightarrow> f32 list \<Rightarrow> bool" where
  "sel_inv s A U \<longleftrightarrow> heap_inv s U \<and> rank_inv s A \<and> space_inv s \<and> not_full s
    \<and> fa_seen s = length A \<and> length U = length A"

definition same_params :: "fused \<Rightarrow> fused \<Rightarrow> bool" where
  "same_params s s' \<longleftrightarrow> fa_topk s' = fa_topk s \<and> fa_z_score s' = fa_z_score s
    \<and> fa_max_candidates s' = fa_max_candidates s"

locale batch_selector =
  fixes add :: "'b \<Rightarrow> fused \<Rightarrow> fused res"
    and rows :: "'b \<Rightarrow> row list"
    and ups :: "'b \<Rightarrow> f32 list"
    and wf :: "'b \<Rightarrow> bool"
  assumes add_ok: "wf b \<Longrightarrow> sel_inv s A U \<Longrightarrow> scan_ok (A @ rows b) \<Longrightarrow>
    \<forall>u \<in> set (ups b). \<not> f32_is_nan u \<Longrightarrow>
    \<exists>s'. add b s = Inr s' \<and> sel_inv s' (A @ rows b) (U @ ups b) \<and> same_params s s'"
begin

lemma add_all:
  "\<forall>b \<in> set bs. wf b \<and> (\<forall>u \<in> set (ups b). \<not> f32_is_nan u) \<Longrightarrow> sel_inv s A U \<Longrightarrow>
    scan_ok (A @ concat (map rows bs)) \<Longrightarrow>
    \<exists>s'. res_fold add bs s = Inr s'
      \<and> sel_inv s' (A @ concat (map rows bs)) (U @ concat (map ups bs)) \<and> same_params s s'"
proof (induction bs arbitrary: s A U)
  case Nil
  then show ?case by (simp add: same_params_def)
next
  case (Cons b bs)
  have "scan_ok (A @ rows b)" using Cons.prems(3) by (auto simp: scan_ok_def)
  then obtain s1 where s1: "add b s = Inr s1" "sel_inv s1 (A @ rows b) (U @ ups b)"
      "same_params s s1"
    using add_ok [of b s A U] Cons.prems by auto
  then show ?case
    using Cons.IH [OF _ s1(2)] Cons.prems by (auto simp: same_params_def)
qed

end

section \<open>The portable adder\<close>

lemma rank_inv_same:
  "fa_planes t = fa_planes s \<Longrightarrow> fa_size t = fa_size s \<Longrightarrow>
    fa_max_candidates t = fa_max_candidates s \<Longrightarrow> fa_has_threshold t = fa_has_threshold s \<Longrightarrow>
    fa_threshold_estimate t = fa_threshold_estimate s \<Longrightarrow> fa_threshold_id t = fa_threshold_id s \<Longrightarrow>
    rank_inv t A = rank_inv s A"
  by (simp add: rank_inv_def reservoir_ok_def live_rows_def threshold_key_def)

lemma space_inv_same:
  "fa_planes t = fa_planes s \<Longrightarrow> fa_size t = fa_size s \<Longrightarrow> fa_capacity t = fa_capacity s \<Longrightarrow>
    fa_max_candidates t = fa_max_candidates s \<Longrightarrow> space_inv t = space_inv s \<and> not_full t = not_full s"
  by (simp add: space_inv_def not_full_def)

lemma res_fold_map: "res_fold f (map g xs) s = res_fold (\<lambda>x. f (g x)) xs s"
proof (induction xs arbitrary: s)
  case (Cons x xs)
  then show ?case by (cases "f (g x) s") simp_all
qed simp

definition add_row :: "bool \<Rightarrow> row \<Rightarrow> fused \<Rightarrow> fused res" where
  "add_row avx r t = (if admits t r then append_scalar avx r t else Inr t)"

lemma kept_frame_trans: "kept_frame a b \<Longrightarrow> kept_frame b c \<Longrightarrow> kept_frame a c"
  by (simp add: kept_frame_def)

lemma add_rows_ok:
  "rank_inv s A \<Longrightarrow> space_inv s \<Longrightarrow> not_full s \<Longrightarrow> scan_ok (A @ B) \<Longrightarrow>
    \<exists>s'. res_fold (add_row avx) B s = Inr s' \<and> rank_inv s' (A @ B) \<and> space_inv s'
      \<and> kept_frame s s' \<and> not_full s'"
proof (induction B arbitrary: s A)
  case Nil
  then show ?case by (simp add: kept_frame_def)
next
  case (Cons r B)
  have ok: "scan_ok (A @ [r])" using Cons.prems(4) by (auto simp: scan_ok_def)
  have "\<exists>t. add_row avx r s = Inr t \<and> rank_inv t (A @ [r]) \<and> space_inv t \<and> kept_frame s t \<and> not_full t"
  proof (cases "admits s r")
    case True
    then show ?thesis using append_scalar_ok [OF Cons.prems(1-3) ok] by (simp add: add_row_def)
  next
    case False
    then have "rank_inv s (A @ [r])"
      using Cons.prems(1) by (intro rank_extend [OF Cons.prems(1) ok]) (simp_all add: rank_inv_def)
    with False show ?thesis using Cons.prems by (simp add: add_row_def kept_frame_def)
  qed
  then obtain t where t: "add_row avx r s = Inr t" "rank_inv t (A @ [r])" "space_inv t"
      "kept_frame s t" "not_full t" by blast
  then show ?case
    using Cons.IH [OF t(2,3,5)] Cons.prems(4) kept_frame_trans [OF t(4)] by auto
qed

type_synonym batch = "u32 list option \<times> u32 \<times> f32 list \<times> f32 list \<times> f32 list \<times> nat"

definition batch_rows :: "batch \<Rightarrow> row list" where
  "batch_rows b = (case b of (ids, base, es, us, ups, n) \<Rightarrow>
    map (\<lambda>l. (es ! l, us ! l, lane_id ids base l)) [0..<n])"

definition batch_uppers :: "batch \<Rightarrow> f32 list" where
  "batch_uppers b = (case b of (ids, base, es, us, ups, n) \<Rightarrow> take n ups)"

definition portable_batch :: "batch \<Rightarrow> bool" where
  "portable_batch b = (case b of (ids, base, es, us, ups, n) \<Rightarrow>
    n \<le> length es \<and> n \<le> length us \<and> n \<le> length ups \<and> (\<forall>js. ids = Some js \<longrightarrow> n \<le> length js))"

definition add_portable :: "bool \<Rightarrow> batch \<Rightarrow> fused \<Rightarrow> fused res" where
  "add_portable avx b s = (case b of (ids, base, es, us, ups, n) \<Rightarrow>
    add_scalar_block avx ids base es us ups n s)"

lemma fold_lanes: "n \<le> length xs \<Longrightarrow> fold (\<lambda>l. f (xs ! l)) [0..<n] s = fold f (take n xs) s"
proof -
  assume "n \<le> length xs"
  then have "take n xs = map ((!) xs) [0..<n]" by (simp add: list_eq_iff_nth_eq)
  then show ?thesis by (simp only: fold_map comp_def)
qed

lemma add_portable_ok:
  assumes wf: "portable_batch b" and inv: "sel_inv s A U" and ok: "scan_ok (A @ batch_rows b)"
    and nn: "\<forall>u \<in> set (batch_uppers b). \<not> f32_is_nan u"
  shows "\<exists>s'. add_portable avx b s = Inr s' \<and> sel_inv s' (A @ batch_rows b) (U @ batch_uppers b)
    \<and> same_params s s'"
proof -
  obtain ids base es us ups n where b: "b = (ids, base, es, us, ups, n)" by (cases b)
  have n: "n \<le> length ups" using wf by (simp add: b portable_batch_def)
  define s1 where "s1 = s\<lparr>fa_seen := fa_seen s + n\<rparr>"
  define s2 where "s2 = fold update_upper (take n ups) s1"
  have "heap_inv s1 U" using inv by (simp add: sel_inv_def heap_inv_def s1_def)
  then have h2: "heap_inv s2 (U @ take n ups)"
    using nn unfolding s2_def by (intro update_uppers_heap) (simp_all add: b batch_uppers_def)
  have r2: "rank_inv s2 A" "space_inv s2" "not_full s2"
    using inv rank_inv_same [of s2 s A] space_inv_same [of s2 s]
    by (simp_all add: sel_inv_def s2_def s1_def)
  obtain s' where s': "res_fold (add_row avx) (batch_rows b) s2 = Inr s'"
      "rank_inv s' (A @ batch_rows b)" "space_inv s'" "kept_frame s2 s'" "not_full s'"
    using add_rows_ok [OF r2 ok] by blast
  have "add_portable avx b s = Inr s'"
    using s'(1) by (simp add: b add_portable_def add_scalar_block_def batch_rows_def res_fold_map
        add_row_def [abs_def] admits_def fold_lanes [OF n] Let_def flip: s1_def s2_def)
  moreover have "sel_inv s' (A @ batch_rows b) (U @ batch_uppers b)"
    using s' h2 inv n by (simp add: sel_inv_def heap_inv_def kept_frame_def b batch_rows_def
        batch_uppers_def s2_def s1_def)
  moreover have "same_params s s'"
    using s'(4) by (simp add: same_params_def kept_frame_def s2_def s1_def)
  ultimately show ?thesis by blast
qed

interpretation portable: batch_selector "add_portable avx" batch_rows batch_uppers portable_batch
  for avx
  by unfold_locales (rule add_portable_ok)


section \<open>The AVX-512 adder\<close>

text \<open>A vector batch has sixteen readable lanes, of which \<open>n\<close> are logical rows.\<close>

definition vector_batch :: "batch \<Rightarrow> bool" where
  "vector_batch b = (case b of (ids, base, es, us, ups, n) \<Rightarrow>
    n \<le> 16 \<and> length es = 16 \<and> length us = 16 \<and> length ups = 16
    \<and> (\<forall>js. ids = Some js \<longrightarrow> 16 \<le> length js))"

definition add_vector :: "batch \<Rightarrow> fused \<Rightarrow> fused res" where
  "add_vector b s = (case b of (ids, base, es, us, ups, n) \<Rightarrow> add_16_avx512 ids base es us ups n s)"

lemma mask_and_or:
  "mask_or (mask_and m (map P xs)) (mask_and (mask_and m (map Q xs)) (map R xs))
    = mask_and m (map (\<lambda>x. P x \<or> Q x \<and> R x) xs)"
proof (induction m arbitrary: xs)
  case Nil
  then show ?case by (simp add: mask_and_def mask_or_def)
next
  case (Cons b m)
  then show ?case by (cases xs) (auto simp: mask_and_def mask_or_def)
qed

lemma mask_and_none:
  "True \<notin> set (mask_and m (map Q xs)) \<Longrightarrow>
    mask_and m (map P xs) = mask_and m (map (\<lambda>x. P x \<or> Q x \<and> R x) xs)"
proof (induction m arbitrary: xs)
  case Nil
  then show ?case by (simp add: mask_and_def)
next
  case (Cons b m)
  then show ?case by (cases xs) (auto simp: mask_and_def)
qed

lemma mask_and_all: "length m = length xs \<Longrightarrow> mask_and m (map (\<lambda>x. True) xs) = m"
  by (induction m xs rule: list_induct2) (auto simp: mask_and_def)

lemma zip_planes_map:
  "length us = length es \<Longrightarrow> length vids = length es \<Longrightarrow>
    map f es = map (\<lambda>r. f (fst r)) (zip es (zip us vids))
    \<and> map g vids = map (\<lambda>r. g (snd (snd r))) (zip es (zip us vids))"
  by (simp add: list_eq_iff_nth_eq)

text \<open>The admission mask selects the logical lanes that the scalar test \<open>admit\<close> accepts.\<close>

lemma admission_mask_eq:
  assumes "length us = length es" and "length vids = length es" and "length m = length es"
  shows "admission_mask s m es vids = mask_and m (map (admits s) (zip es (zip us vids)))"
proof (cases "fa_has_threshold s")
  case False
  then have "admits s = (\<lambda>r. True)" by (simp add: fun_eq_iff admits_def admit_def split: prod.splits)
  with False assms show ?thesis by (simp add: admission_mask_def mask_and_all)
next
  case True
  let ?R = "zip es (zip us vids)" and ?te = "fa_threshold_estimate s"
  have e: "map (\<lambda>e. f32_lt e ?te) es = map (\<lambda>r. f32_lt (fst r) ?te) ?R"
    "map (\<lambda>e. f32_eq e ?te) es = map (\<lambda>r. f32_eq (fst r) ?te) ?R"
    "map (\<lambda>i. i < fa_threshold_id s) vids = map (\<lambda>r. snd (snd r) < fa_threshold_id s) ?R"
    using zip_planes_map [OF assms(1,2)] by auto
  have a: "admits s = (\<lambda>r. f32_lt (fst r) ?te \<or> f32_eq (fst r) ?te \<and> snd (snd r) < fa_threshold_id s)"
    using True by (simp add: fun_eq_iff admits_def admit_def)
  show ?thesis
    using True mask_and_none [of m "\<lambda>r. f32_eq (fst r) ?te" ?R]
    by (auto simp: admission_mask_def e Let_def mask_and_or a)
qed

lemma load_ids_lane: "l < 16 \<Longrightarrow> (\<forall>js. ids = Some js \<longrightarrow> 16 \<le> length js) \<Longrightarrow>
    load_ids_avx512 ids base ! l = lane_id ids base l"
  by (cases ids) (simp_all add: load_ids_avx512_def lane_id_def)

lemma length_load_ids: "(\<forall>js. ids = Some js \<longrightarrow> 16 \<le> length js) \<Longrightarrow> length (load_ids_avx512 ids base) = 16"
  by (cases ids) (simp_all add: load_ids_avx512_def)

text \<open>Stage 1: the masked uppers leave the heap with the K smallest uppers.\<close>

lemma upper_stage:
  assumes h: "heap_inv s U" and nn: "\<forall>u \<in> set (take n ups). \<not> f32_is_nan u"
    and len: "length ups = 16"
  shows "heap_inv (fold update_upper (compress (upper_mask s (map (\<lambda>l. l < n) [0..<16]) ups) ups) s)
    (U @ take n ups)"
proof -
  have below: "compress (map (\<lambda>l. l < n) [0..<16]) ups = take n ups"
    using compress_below [of n ups] by (simp only: len)
  show ?thesis
  proof (cases "fa_topk s \<le> length (fa_uppers s)")
    case True
    then show ?thesis
      using masked_uppers_heap [OF h nn True] len
      by (simp only: upper_mask_def if_True compress_conj length_map length_upt below)
  next
    case False
    then show ?thesis using update_uppers_heap [OF h nn] by (simp only: upper_mask_def if_False below)
  qed
qed

lemma batch_rows_lanes:
  assumes "vector_batch (ids, base, es, us, ups, n)"
  shows "take n (zip es (zip us (load_ids_avx512 ids base))) = batch_rows (ids, base, es, us, ups, n)"
  using assms length_load_ids [of ids base]
  by (auto simp: vector_batch_def batch_rows_def load_ids_lane list_eq_iff_nth_eq)

lemma admission_stage:
  fixes s :: fused
  assumes wf: "vector_batch (ids, base, es, us, ups, n)"
  defines "m \<equiv> admission_mask s (map (\<lambda>l. l < n) [0..<16]) es (load_ids_avx512 ids base)"
    and "F \<equiv> filter (admits s) (batch_rows (ids, base, es, us, ups, n))"
  shows "compress m (zip es (zip us (load_ids_avx512 ids base))) = F"
    and "length m = 16" and "popcount m = length F" and "popcount m \<le> 16"
proof -
  let ?F = F
  let ?vids = "load_ids_avx512 ids base" and ?l = "map (\<lambda>l. l < n) [0..<16]"
  let ?R = "zip es (zip us ?vids)"
  have len: "length es = 16" "length us = 16" "length ?vids = 16"
    using wf by (simp_all add: vector_batch_def length_load_ids)
  then have lr: "length ?R = 16" by simp
  have below: "compress ?l ?R = take n ?R"
    using compress_below [of n ?R] by (simp only: lr)
  have m: "m = mask_and ?l (map (admits s) ?R)"
    unfolding m_def using len by (intro admission_mask_eq) simp_all
  then show c: "compress m ?R = ?F"
    using lr by (simp only: m compress_conj length_map length_upt below batch_rows_lanes [OF wf] F_def)
  show lm: "length m = 16" using lr by (simp add: m mask_and_def)
  then show pc: "popcount m = length ?F" using length_compress [of m ?R] by (simp only: c lr)
  show "popcount m \<le> 16" unfolding popcount_def using length_filter_le [of "\<lambda>b. b" m] by (simp only: lm)
qed

lemma add_vector_ok:
  assumes wf: "vector_batch b" and inv: "sel_inv s A U" and ok: "scan_ok (A @ batch_rows b)"
    and nn: "\<forall>u \<in> set (batch_uppers b). \<not> f32_is_nan u"
  shows "\<exists>s'. add_vector b s = Inr s' \<and> sel_inv s' (A @ batch_rows b) (U @ batch_uppers b)
    \<and> same_params s s'"
proof -
  obtain ids base es us ups n where b: "b = (ids, base, es, us, ups, n)" by (cases b)
  note wf' = wf [unfolded b]
  have len: "length es = 16" "length us = 16" "length ups = 16" "n \<le> 16"
    using wf' by (simp_all add: vector_batch_def)
  define l16 where "l16 = map (\<lambda>l. l < n) [0..<16]"
  define vids where "vids = load_ids_avx512 ids base"
  have lv: "length vids = 16" using wf' by (simp add: vids_def vector_batch_def length_load_ids)
  define s1 where "s1 = s\<lparr>fa_seen := fa_seen s + n\<rparr>"
  define s2 where "s2 = fold update_upper (compress (upper_mask s1 l16 ups) ups) s1"
  define m where "m = admission_mask s2 l16 es vids"
  define F where "F = filter (admits s2) (batch_rows b)"
  have "heap_inv s1 U" using inv by (simp add: sel_inv_def heap_inv_def s1_def)
  then have h2: "heap_inv s2 (U @ batch_uppers b)"
    unfolding s2_def l16_def using upper_stage [of s1 U n ups] nn len by (simp add: b batch_uppers_def)
  have r2: "rank_inv s2 A" "space_inv s2" "not_full s2"
    using inv rank_inv_same [of s2 s A] space_inv_same [of s2 s]
    by (simp_all add: sel_inv_def s2_def s1_def)
  have adm: "compress m (zip es (zip us vids)) = F" "length m = 16" "popcount m = length F"
      "popcount m \<le> 16"
    using admission_stage [OF wf', of s2] by (simp_all add: m_def F_def l16_def vids_def b)
  have fin: ?thesis if "add_vector b s = Inr s'" and "rank_inv s' (A @ batch_rows b)"
    and "space_inv s'" and "kept_frame s2 s'" and "not_full s'" for s'
  proof -
    have "sel_inv s' (A @ batch_rows b) (U @ batch_uppers b)"
      using that h2 inv len by (simp add: sel_inv_def heap_inv_def kept_frame_def b batch_rows_def
          batch_uppers_def s2_def s1_def)
    with that show ?thesis by (auto simp: same_params_def kept_frame_def s2_def s1_def)
  qed
  show ?thesis
  proof (cases "n = 0")
    case True
    then show ?thesis
      using inv by (simp add: b add_vector_def add_16_avx512_def batch_rows_def batch_uppers_def
          same_params_def)
  next
    case n: False
    then have add: "add_vector b s = (if popcount m = 0 then Inr s2
        else let t = ensure_uncapped_space (popcount m) s2
             in shrink_if_full True
                  (t\<lparr>fa_planes := compress_store (fa_planes t) (fa_size t) m (es, us, vids),
                      fa_size := fa_size t + popcount m\<rparr>))"
      by (simp only: add_vector_def b prod.case add_16_avx512_def if_False Let_def
          flip: l16_def vids_def s1_def s2_def m_def)
    show ?thesis
    proof (cases "popcount m = 0")
      case True
      then have "F = []" using adm by simp
      then have "rank_inv s2 (A @ batch_rows b)"
        using r2 by (intro rank_extend [OF r2(1) ok]) (simp_all add: rank_inv_def F_def)
      with True r2 add show ?thesis by (intro fin [of s2]) (simp_all add: kept_frame_def)
    next
      case False
      define t where "t = ensure_uncapped_space (popcount m) s2"
      have res: "reservoir_ok s2" using r2 by (simp add: rank_inv_def)
      note e = ensure_space [OF res r2(2,3) adm(4), folded t_def]
      have lanes: "planes_ok (es, us, vids)" "rows_of (es, us, vids) = zip es (zip us vids)"
        using len lv by (simp_all add: planes_ok_def rows_of_def)
      have p: "planes_ok (fa_planes t)" and wr: "fa_size t \<le> length (rows_of (fa_planes t))"
        using e by (simp_all add: reservoir_ok_def)
      have lm: "length m = length (rows_of (es, us, vids))" using adm(2) len lv lanes by simp
      note cs = rows_of_compress_store [OF p lanes(1) lm wr, unfolded lanes(2) adm(1)]
      have "grown s2 F (t\<lparr>fa_planes := compress_store (fa_planes t) (fa_size t) m (es, us, vids),
          fa_size := fa_size t + popcount m\<rparr>)"
        using cs e(3,4) wr adm(3) take_patch [of "fa_size t" "rows_of (fa_planes t)" F]
        by (intro grown_store [OF res r2(2,3) adm(3)[symmetric] adm(4) t_def]) simp_all
      then obtain s' where "shrink_if_full True
          (t\<lparr>fa_planes := compress_store (fa_planes t) (fa_size t) m (es, us, vids),
            fa_size := fa_size t + popcount m\<rparr>) = Inr s'" "rank_inv s' (A @ batch_rows b)"
          "space_inv s'" "kept_frame s2 s'" "not_full s'"
        using grown_ok [OF r2(1) ok] F_def by blast
      with False add show ?thesis by (intro fin [of s']) (simp_all flip: t_def)
    qed
  qed
qed

interpretation vector: batch_selector add_vector batch_rows batch_uppers vector_batch
  by unfold_locales (rule add_vector_ok)


section \<open>The exact cut of \<open>finish\<close>\<close>

definition packed_key :: "row \<Rightarrow> u64" where
  "packed_key r = (case r of (e, u, i) \<Rightarrow> rank_key e i)"

lemma packed_key_less: "packed_key r < packed_key q \<longleftrightarrow> row_key r < row_key q"
  by (cases r; cases q) (auto simp: packed_key_def row_key_def rank_key_less_iff)

lemma packed_key_le: "packed_key r \<le> packed_key q \<longleftrightarrow> row_key r \<le> row_key q"
  by (metis packed_key_less linorder_not_less)

lemma packed_key_eq: "packed_key r = packed_key q \<longleftrightarrow> row_key r = row_key q"
  by (metis packed_key_le order_antisym order_refl)

lemma distinct_packed: "distinct (map packed_key xs) \<longleftrightarrow> distinct (map row_key xs)"
  by (simp add: distinct_conv_nth packed_key_eq)

lemma sort_map_key: "sort_key (\<lambda>k. k) (map f xs) = map f (sort_key f xs)"
  by (rule properties_for_sort) simp_all

lemma nth_element_map:
  "k < length xs \<Longrightarrow> nth_element (\<lambda>k. k) (map f xs) k = f (nth_element f xs k)"
  by (simp add: nth_element_def sort_map_key)

lemma rank_keys_map:
  "length es = length us \<Longrightarrow> length us = length vids \<Longrightarrow>
    map2 rank_key es vids = map packed_key (zip es (zip us vids))"
  by (induction es us vids rule: list_induct3) (auto simp: packed_key_def)

text \<open>Rows below every dropped row are the smallest part of all scanned rows.\<close>

lemma rank_inv_part:
  assumes inv: "rank_inv s A" and part: "smallest_part row_key k (mset (live_rows s)) T"
    and k: "k \<le> fa_size s \<or> \<not> fa_has_threshold s"
  shows "smallest_part row_key k (mset A) T"
proof (cases "fa_has_threshold s")
  case False
  then show ?thesis using inv part by (simp add: rank_inv_def)
next
  case True
  have sub: "mset (live_rows s) \<subseteq># mset A" using inv by (simp add: rank_inv_def)
  then obtain X where X: "mset A = mset (live_rows s) + X" by (metis mset_subset_eq_exists_conv)
  have T: "T \<subseteq># mset (live_rows s)" "size T = min k (length (live_rows s))"
    using part by (auto simp: smallest_part_def)
  obtain Y where Y: "mset (live_rows s) = T + Y" using T(1) by (metis mset_subset_eq_exists_conv)
  have len: "length (live_rows s) = fa_size s"
    using inv by (simp add: rank_inv_def length_live_rows)
  have "row_key x \<le> row_key y" if "x \<in># T" "y \<in># Y + X" for x y
  proof (cases "y \<in># Y")
    case True
    then show ?thesis using part that by (simp add: smallest_part_def Y)
  next
    case False
    then have "y \<in># mset A - mset (live_rows s)" using that by (simp add: X)
    moreover have "x \<in> set (live_rows s)" using mset_subset_eqD [OF T(1) that(1)] by simp
    ultimately have "row_key x \<le> threshold_key s" and "threshold_key s \<le> row_key y"
      using inv True by (simp_all add: rank_inv_def)
    then show ?thesis by (rule order_trans)
  qed
  moreover have "size T = min k (length A)"
    using T(2) k True len size_mset_mono [OF sub] by simp
  moreover have eq: "mset A = T + (Y + X)" using X Y by (simp add: add.assoc)
  have "mset A - T = Y + X" and "T \<subseteq># mset A" by (simp_all add: eq)
  ultimately show ?thesis by (simp add: smallest_part_def)
qed

lemma smallest_part_all: "size S \<le> k \<Longrightarrow> smallest_part key k S S"
  by (simp add: smallest_part_def)

lemma smallest_part_filter:
  assumes "length (filter (\<lambda>x. key x \<le> t) xs) = k"
  shows "smallest_part key k (mset xs) (mset (filter (\<lambda>x. key x \<le> t) xs))"
proof -
  have d: "mset xs - mset (filter (\<lambda>x. key x \<le> t) xs) = mset (filter (\<lambda>x. \<not> key x \<le> t) xs)"
  proof -
    have "mset xs = mset (filter (\<lambda>x. key x \<le> t) xs) + mset (filter (\<lambda>x. \<not> key x \<le> t) xs)" by simp
    then show ?thesis by (metis add_diff_cancel_left')
  qed
  show ?thesis
    unfolding smallest_part_def d using assms length_filter_le [of "\<lambda>x. key x \<le> t" xs]
    by (auto simp: multiset_filter_subset simp flip: size_mset)
qed

lemma shrink_shortlist_ok:
  fixes avx :: bool
  assumes inv: "rank_inv s A" and ok: "scan_ok A" and R: "0 < k" "fa_max_candidates s = k"
  defines "t \<equiv> shrink_shortlist avx k s"
  shows "reservoir_ok t \<and> smallest_part row_key k (mset A) (mset (live_rows t)) \<and> kept_frame s t"
proof (cases "fa_size s \<le> k")
  case True
  have res: "reservoir_ok s" using inv by (simp add: rank_inv_def)
  have "smallest_part row_key k (mset A) (mset (live_rows s))"
    using inv R True length_live_rows [OF res]
    by (intro rank_inv_part [OF inv] smallest_part_all) (auto simp: rank_inv_def)
  then show ?thesis using True res by (simp add: t_def shrink_shortlist_def kept_frame_def)
next
  case False
  have res: "reservoir_ok s" using inv by (simp add: rank_inv_def)
  obtain es us vids where p: "fa_planes s = (es, us, vids)" by (cases "fa_planes s")
  note lr = live_rows_planes [OF res p]
  have live: "scan_ok (live_rows s)" using live_rows_ok inv ok by blast
  have len: "k - 1 < length (live_rows s)" using False R length_live_rows [OF res] by simp
  obtain e u i where r0: "nth_element packed_key (live_rows s) (k - 1) = (e, u, i)"
    by (metis prod_cases3)
  then have "(e, u, i) \<in> set (live_rows s)" using nth_element_in [OF len, of packed_key] by simp
  then have e: "\<not> f32_is_nan e" using live by (auto simp: scan_ok_def)
  have keys: "map2 rank_key (take (fa_size s) es) (take (fa_size s) vids) = map packed_key (live_rows s)"
    unfolding lr(1) by (rule rank_keys_map) (simp_all only: lr(2-4))
  have nk: "nth_element (\<lambda>k. k) (map packed_key (live_rows s)) (k - Suc 0) = rank_key e i"
    using nth_element_map [OF len, of packed_key] r0 by (simp add: packed_key_def)
  define te where "te = float_from_ordered_key (ordered_float_key e)"
  have te: "f32_smag te = f32_smag e" "\<not> f32_is_nan te"
    using e by (simp add: te_def smag_from_ordered_key)
      (use e in \<open>simp add: te_def float_from_ordered_key_inverse\<close>)
  define s1 where "s1 = s\<lparr>fa_threshold_estimate := te, fa_threshold_id := i, fa_has_threshold := True\<rparr>"
  define keep where "keep = threshold_keeps te i True"
  have res1: "reservoir_ok s1" and live1: "live_rows s1 = live_rows s"
    using res by (simp_all add: s1_def reservoir_ok_def live_rows_def)
  note c = compact_live_rows [OF res1, of avx keep]
  have flt: "filter keep (live_rows s) = filter (\<lambda>r. row_key r \<le> row_key (e, u, i)) (live_rows s)"
  proof (rule filter_cong [OF refl])
    fix r assume "r \<in> set (live_rows s)"
    then have "\<not> f32_is_nan (fst r)" using live by (simp add: scan_ok_def)
    then show "keep r = (row_key r \<le> row_key (e, u, i))"
      using threshold_keeps_key(1) [OF te(2)] te(1) by (simp add: keep_def row_key_def)
  qed
  have cnt: "length (filter keep (live_rows s)) = k"
    using nth_element_exact [OF len, of packed_key] live R(1)
    unfolding flt r0 packed_key_le by (simp add: scan_ok_def distinct_packed)
  have t: "t = (compact avx keep s1)\<lparr>fa_size := k\<rparr>"
    using False cnt c(3)
    by (simp add: t_def shrink_shortlist_def p keys nk
        rank_key_parts live1 Let_def flip: te_def s1_def keep_def)
  have "fa_size (compact avx keep s1) = k" using c(3) cnt by (simp add: live1)
  then have t': "t = compact avx keep s1" by (simp add: t)
  have "smallest_part row_key k (mset (live_rows s)) (mset (live_rows t))"
    unfolding t' c(2) live1 flt by (rule smallest_part_filter) (use cnt flt in simp)
  then have "smallest_part row_key k (mset A) (mset (live_rows t))"
    by (rule rank_inv_part [OF inv]) (use False in linarith)
  then show ?thesis
    using c(1) by (simp add: t' kept_frame_def s1_def)
qed

section \<open>The selection as a specification\<close>

text \<open>
  The best \<open>R\<close> rows under the rank (estimate, id); all of them when \<open>R = 0\<close>.
\<close>

definition best_rows :: "nat \<Rightarrow> row list \<Rightarrow> row list" where
  "best_rows R A = (if 0 < R then take R (sort_key row_key A) else sort_key row_key A)"

definition kth_smallest :: "nat \<Rightarrow> f32 list \<Rightarrow> int" where
  "kth_smallest k U = sort (map f32_smag U) ! (k - 1)"

definition lower_keeps :: "bool \<Rightarrow> f32 \<Rightarrow> f32 \<Rightarrow> row \<Rightarrow> bool" where
  "lower_keeps avx z kth = (if avx then lower_keeps_avx512 z kth else lower_keeps_scalar z kth)"

lemma smallest_part_sorted:
  assumes part: "smallest_part row_key k (mset A) (mset L)" and dist: "distinct (map row_key A)"
  shows "sort_key row_key L = take k (sort_key row_key A)"
proof -
  have ms: "sorted_list_of_multiset (image_mset row_key (mset xs)) = map row_key (sort_key row_key xs)"
    for xs
    by (metis mset_map sort_map_key sorted_list_of_multiset_mset)
  have "map row_key (sort_key row_key L) = map row_key (take k (sort_key row_key A))"
    using smallest_part_keys [OF part] by (simp only: ms take_map)
  moreover have "inj_on row_key (set A)" using dist by (simp add: distinct_map)
  moreover have "set (sort_key row_key L) \<subseteq> set A"
    using part by (simp add: smallest_part_def) (metis mset_subset_eqD set_mset_mset subsetI)
  moreover have "set (take k (sort_key row_key A)) \<subseteq> set A"
    by (metis set_sort set_take_subset)
  ultimately show ?thesis by (meson inj_on_map_eq_map inj_on_subset Un_least)
qed

lemma sort_estimates:
  "sort_key estimate_key (map row_estimate xs) = map row_estimate (sort_key row_key xs)"
proof (rule sym)
  have key: "estimate_key \<circ> row_estimate = row_key"
    by (auto simp: fun_eq_iff estimate_key_def row_estimate_def row_key_def)
  show "map row_estimate (sort_key row_key xs) = sort_key estimate_key (map row_estimate xs)"
  proof (induction xs)
    case (Cons x xs)
    have ins: "insort_key estimate_key (row_estimate x) (map row_estimate ys)
        = map row_estimate (insort_key row_key x ys)" for ys
      by (induction ys) (simp_all add: key [THEN fun_cong, simplified comp_def])
    show ?case using Cons by (simp add: ins [symmetric])
  qed simp
qed

lemma finish_correct:
  assumes inv: "sel_inv s A U" and ok: "scan_ok A" and n: "fa_topk s \<le> length A"
  shows "\<exists>r. finish avx s = Inr r \<and> f32_smag (kth_upper_bound r) = kth_smallest (fa_topk s) U
    \<and> \<not> f32_is_nan (kth_upper_bound r)
    \<and> candidates r = map row_estimate (filter (lower_keeps avx (fa_z_score s) (kth_upper_bound r))
        (best_rows (fa_max_candidates s) A))
    \<and> (truncated r \<longleftrightarrow> 0 < fa_max_candidates s \<and> fa_max_candidates s < length A)"
proof -
  have hi: "heap_inv s U" and ri: "rank_inv s A" and seen: "fa_seen s = length A" "length U = length A"
    using inv by (simp_all add: sel_inv_def)
  let ?R = "fa_max_candidates s"
  define kth where "kth = pq_top (fa_uppers s)"
  define s1 where "s1 = (if ?R > 0 then shrink_shortlist avx ?R s else s)"
  have k0: "0 < fa_topk s" using hi by (simp add: heap_inv_def)
  have kth: "f32_smag kth = kth_smallest (fa_topk s) U"
    using pq.top_is_kth [of f32_smag "fa_uppers s" "fa_topk s" "mset U"] hi n k0 seen
    by (simp add: heap_inv_def kth_def kth_smallest_def flip: sorted_list_of_multiset_mset mset_map)
  have "fa_topk s \<le> length (fa_uppers s)"
    using hi n seen by (simp add: heap_inv_def smallest_part_def)
  then have nn: "\<not> f32_is_nan kth"
    using hi heap_full_nonempty [OF hi] pq_top_in [of "fa_uppers s"] by (simp add: heap_inv_def kth_def)
  have res: "reservoir_ok s" using ri by (simp add: rank_inv_def)
  have live: "reservoir_ok s1 \<and> fa_z_score s1 = fa_z_score s
      \<and> sort_key row_key (live_rows s1) = best_rows ?R A"
  proof (cases "0 < ?R")
    case True
    then have "reservoir_ok s1 \<and> smallest_part row_key ?R (mset A) (mset (live_rows s1))
        \<and> kept_frame s s1"
      using shrink_shortlist_ok [OF ri ok True refl, of avx] by (simp add: s1_def)
    then show ?thesis
      using True smallest_part_sorted [of ?R A "live_rows s1"] ok
      by (simp add: kept_frame_def best_rows_def scan_ok_def)
  next
    case False
    then have "mset (live_rows s) = mset A" using ri by (simp add: rank_inv_def split: if_splits)
    then have "smallest_part row_key (length A) (mset A) (mset (live_rows s))"
      by (simp add: smallest_part_all)
    then show ?thesis
      using False smallest_part_sorted [of "length A" A "live_rows s"] ok res
      by (simp add: s1_def best_rows_def scan_ok_def)
  qed
  have "finish avx s = Inr \<lparr>candidates = map row_estimate
        (filter (lower_keeps avx (fa_z_score s) kth) (best_rows ?R A)),
      kth_upper_bound = kth, truncated = (0 < ?R \<and> ?R < length A)\<rparr>"
    using n seen live
    by (auto simp: finish_def Let_def filter_by_lower_def compact_live_rows sort_estimates
        lower_keeps_def filter_sort [symmetric] simp flip: kth_def s1_def)
  then show ?thesis using kth nn by simp
qed


section \<open>Whole selections\<close>

definition selector_args_ok :: "nat \<Rightarrow> f32 \<Rightarrow> nat \<Rightarrow> bool" where
  "selector_args_ok K z R \<longleftrightarrow> 0 < K \<and> f32_is_finite z \<and> \<not> f32_lt z 0 \<and> (R = 0 \<or> K \<le> R)
    \<and> R \<le> size_max div 2"

definition select_portable :: "bool \<Rightarrow> nat \<Rightarrow> f32 \<Rightarrow> nat \<Rightarrow> batch list \<Rightarrow> selection_result res" where
  "select_portable avx K z R bs =
    res_bind (fused_new K z R) (\<lambda>s. res_bind (res_fold (add_portable avx) bs s) (finish avx))"

definition select_vector :: "nat \<Rightarrow> f32 \<Rightarrow> nat \<Rightarrow> batch list \<Rightarrow> selection_result res" where
  "select_vector K z R bs =
    res_bind (fused_new K z R) (\<lambda>s. res_bind (res_fold add_vector bs s) (finish True))"

definition scanned_rows :: "batch list \<Rightarrow> row list" where
  "scanned_rows bs = concat (map batch_rows bs)"

definition scanned_uppers :: "batch list \<Rightarrow> f32 list" where
  "scanned_uppers bs = concat (map batch_uppers bs)"

lemma fused_new_iff: "(\<exists>s. fused_new K z R = Inr s) \<longleftrightarrow> selector_args_ok K z R"
  by (auto simp: fused_new_def selector_args_ok_def)

lemma fused_new_inv:
  assumes "fused_new K z R = Inr s"
  shows "sel_inv s [] []" and "fa_topk s = K" and "fa_z_score s = z" and "fa_max_candidates s = R"
  using assms
  by (auto simp: fused_new_def sel_inv_def heap_inv_def rank_inv_def reservoir_ok_def planes_ok_def
      live_rows_def rows_of_def space_inv_def not_full_def resize_planes_def resize_def
      split: if_splits)

text \<open>
  The specification: the K-th smallest upper endpoint, and the best R rows whose lower endpoint does
  not exceed it, in rank order.
\<close>

definition selection_spec ::
    "bool \<Rightarrow> nat \<Rightarrow> f32 \<Rightarrow> nat \<Rightarrow> row list \<Rightarrow> f32 list \<Rightarrow> selection_result \<Rightarrow> bool" where
  "selection_spec avx K z R A U r \<longleftrightarrow>
    f32_smag (kth_upper_bound r) = kth_smallest K U \<and> \<not> f32_is_nan (kth_upper_bound r)
    \<and> candidates r = map row_estimate (filter (lower_keeps avx z (kth_upper_bound r)) (best_rows R A))
    \<and> (truncated r \<longleftrightarrow> 0 < R \<and> R < length A)"

lemma finish_spec:
  "sel_inv s A U \<Longrightarrow> scan_ok A \<Longrightarrow> fa_topk s = K \<Longrightarrow> fa_z_score s = z \<Longrightarrow>
    fa_max_candidates s = R \<Longrightarrow> K \<le> length A \<Longrightarrow>
    \<exists>r. finish avx s = Inr r \<and> selection_spec avx K z R A U r"
  using finish_correct [of s A U avx] by (auto simp: selection_spec_def)

lemma select_portable_ok:
  assumes "selector_args_ok K z R" and "\<forall>b \<in> set bs. portable_batch b"
    and "\<forall>u \<in> set (scanned_uppers bs). \<not> f32_is_nan u" and "scan_ok (scanned_rows bs)"
    and "K \<le> length (scanned_rows bs)"
  shows "\<exists>r. select_portable avx K z R bs = Inr r
    \<and> selection_spec avx K z R (scanned_rows bs) (scanned_uppers bs) r"
proof -
  obtain s0 where s0: "fused_new K z R = Inr s0" using assms(1) fused_new_iff by blast
  note n = fused_new_inv [OF s0]
  obtain s where "res_fold (add_portable avx) bs s0 = Inr s"
      "sel_inv s (scanned_rows bs) (scanned_uppers bs)" "same_params s0 s"
    using portable.add_all [OF _ n(1), of bs avx] assms
    by (auto simp: scanned_rows_def scanned_uppers_def)
  with s0 n show ?thesis
    using finish_spec [of s "scanned_rows bs" "scanned_uppers bs" K z R avx] assms
    by (simp add: select_portable_def same_params_def)
qed

lemma select_vector_ok:
  assumes "selector_args_ok K z R" and "\<forall>b \<in> set bs. vector_batch b"
    and "\<forall>u \<in> set (scanned_uppers bs). \<not> f32_is_nan u" and "scan_ok (scanned_rows bs)"
    and "K \<le> length (scanned_rows bs)"
  shows "\<exists>r. select_vector K z R bs = Inr r
    \<and> selection_spec True K z R (scanned_rows bs) (scanned_uppers bs) r"
proof -
  obtain s0 where s0: "fused_new K z R = Inr s0" using assms(1) fused_new_iff by blast
  note n = fused_new_inv [OF s0]
  obtain s where "res_fold add_vector bs s0 = Inr s"
      "sel_inv s (scanned_rows bs) (scanned_uppers bs)" "same_params s0 s"
    using vector.add_all [OF _ n(1), of bs] assms
    by (auto simp: scanned_rows_def scanned_uppers_def)
  with s0 n show ?thesis
    using finish_spec [of s "scanned_rows bs" "scanned_uppers bs" K z R True] assms
    by (simp add: select_vector_def same_params_def)
qed

text \<open>A concrete batch of three rows out of sixteen lanes, used by the witnesses below.\<close>

definition sample_batch :: batch where
  "sample_batch = (Some [8, 3, 5, 0, 0, 0, 0, 0, 0, 0, 0, 0, 0, 0, 0, 0], 0,
    [0x40400000, 0x3F800000, 0x40000000, 0, 0, 0, 0, 0, 0, 0, 0, 0, 0, 0, 0, 0],
    replicate 16 0x3F000000,
    [0x40600000, 0x3FC00000, 0x40200000, 0, 0, 0, 0, 0, 0, 0, 0, 0, 0, 0, 0, 0], 3)"

lemma sample_scan:
  "portable_batch sample_batch" "vector_batch sample_batch"
  "scanned_rows [sample_batch] = [(0x40400000, 0x3F000000, 8), (0x3F800000, 0x3F000000, 3),
    (0x40000000, 0x3F000000, 5)]"
  "scanned_uppers [sample_batch] = [0x40600000, 0x3FC00000, 0x40200000]"
  by (simp_all add: sample_batch_def portable_batch_def vector_batch_def scanned_rows_def
      batch_rows_def scanned_uppers_def batch_uppers_def lane_id_def numeral_eq_Suc)

lemma sample_ok:
  "scan_ok (scanned_rows [sample_batch])" "\<forall>u \<in> set (scanned_uppers [sample_batch]). \<not> f32_is_nan u"
  "selector_args_ok 2 0x3F800000 2" "2 \<le> length (scanned_rows [sample_batch])"
  by (simp_all add: sample_scan scan_ok_def row_key_def f32_is_nan_def f32_mag_def inf_mag_def
      f32_smag_def f32_sign_def selector_args_ok_def f32_is_finite_def f32_lt_def size_max_def)

lemma sample_new: "\<exists>s. fused_new 2 0x3F800000 2 = Inr s"
  using sample_ok(3) fused_new_iff by blast



text \<open>
  C14. Correctness of the AVX-512 selector, over sixteen-lane batches, with the same specification.
  The masked admission, the compress-stores into the planes, the sixteen-row compaction and the
  batched threshold test lose and duplicate no row.
\<close>

theorem vector_selection_correct:
  assumes "selector_args_ok K z R" and "\<forall>b \<in> set bs. vector_batch b"
    and "\<forall>u \<in> set (scanned_uppers bs). \<not> f32_is_nan u" and "scan_ok (scanned_rows bs)"
    and "K \<le> length (scanned_rows bs)"
  shows "\<exists>r. select_vector K z R bs = Inr r
    \<and> selection_spec True K z R (scanned_rows bs) (scanned_uppers bs) r"
  using assms by (rule select_vector_ok)

theorem vector_selection_correct_witness:
  "\<exists>r. select_vector 2 0x3F800000 2 [sample_batch] = Inr r
    \<and> selection_spec True 2 0x3F800000 2 (scanned_rows [sample_batch])
        (scanned_uppers [sample_batch]) r"
  by (rule vector_selection_correct [OF sample_ok(3) _ sample_ok(2,1,4)])
    (simp add: sample_scan(2))

text \<open>
  Memory bound of the reservoir. After any run of sixteen-lane batches with a positive cap R,
  fewer than 2R rows are live and the three planes still have their 2R + 16 elements, so the next
  sixteen-lane compress-store stays inside the allocation.
\<close>

theorem reservoir_bound:
  assumes "fused_new K z R = Inr s0" and "0 < R" and "\<forall>b \<in> set bs. vector_batch b"
    and "\<forall>u \<in> set (scanned_uppers bs). \<not> f32_is_nan u" and "scan_ok (scanned_rows bs)"
  shows "\<exists>s. res_fold add_vector bs s0 = Inr s \<and> fa_size s < 2 * R
    \<and> length (rows_of (fa_planes s)) = 2 * R + 16"
proof -
  note n = fused_new_inv [OF assms(1)]
  obtain s where "res_fold add_vector bs s0 = Inr s"
      "sel_inv s (scanned_rows bs) (scanned_uppers bs)" "same_params s0 s"
    using vector.add_all [OF _ n(1), of bs] assms
    by (auto simp: scanned_rows_def scanned_uppers_def)
  then show ?thesis using n assms(2) by (auto simp: sel_inv_def same_params_def space_inv_def not_full_def)
qed

theorem reservoir_bound_witness:
  "\<exists>s0 s. fused_new 2 0x3F800000 2 = Inr s0 \<and> res_fold add_vector [sample_batch] s0 = Inr s
    \<and> fa_size s < 2 * 2 \<and> length (rows_of (fa_planes s)) = 2 * 2 + 16"
proof -
  obtain s0 where s0: "fused_new 2 0x3F800000 2 = Inr s0" using sample_new by blast
  have "\<exists>s. res_fold add_vector [sample_batch] s0 = Inr s \<and> fa_size s < 2 * 2
      \<and> length (rows_of (fa_planes s)) = 2 * 2 + 16"
    by (rule reservoir_bound [OF s0 _ _ sample_ok(2,1)]) (simp_all add: sample_scan(2))
  with s0 show ?thesis by blast
qed

section \<open>Agreement of the two lower-bound filters\<close>

lemma f32_mul_inf: "f32_is_inf u \<Longrightarrow> f32_is_finite z \<Longrightarrow> f32_mag z \<noteq> 0 \<Longrightarrow> \<not> f32_sign z \<Longrightarrow> \<not> f32_sign u \<Longrightarrow>
    f32_mul u z = f32_inf"
  by (rule f32_fields_eq) (auto simp: f32_mul_def Let_def f32_class_defs inf_mag_def)


lemma f32_sub_zero:
  assumes "\<not> f32_is_nan e" and "f32_mag r = 0"
  shows "f32_smag (f32_sub e r) = f32_smag e" and "\<not> f32_is_nan (f32_sub e r)"
proof -
  have r: "f32_is_finite r" "f32_sunits r = 0" "\<not> f32_is_nan r" "\<not> f32_is_inf r"
    using assms(2) by (simp_all add: f32_class_defs inf_mag_def f32_sunits_def)
  have "f32_sunits (f32_neg r) = 0" using assms(2) by (simp add: f32_sunits_def)
  then show "f32_smag (f32_sub e r) = f32_smag e" and "\<not> f32_is_nan (f32_sub e r)"
    using f32_add_finite [of e "f32_neg r"] round_signed_sunits [OF assms(1)] assms(1) r
    by (cases "f32_is_inf e"; simp add: f32_sub_def f32_finite_iff f32_add_def)+
qed

lemma f32_sub_finite_inf:
  "f32_is_finite e \<Longrightarrow> f32_sub e f32_inf = f32_ninf"
  by (rule f32_fields_eq)
    (simp_all add: f32_sub_def f32_add_def f32_finite_iff)

lemma f32_sub_finite_not_nan:
  assumes "f32_is_finite e" and "\<not> f32_is_nan r"
  shows "\<not> f32_is_nan (f32_sub e r)"
  using assms f32_add_finite(2) [of e "f32_neg r"]
  by (cases "f32_is_inf r") (auto simp: f32_sub_def f32_add_def f32_finite_iff)

lemma f32_mul_not_nan: "f32_is_finite z \<Longrightarrow> f32_is_finite u \<Longrightarrow> \<not> f32_is_nan (f32_mul u z)"
  by (auto simp: f32_mul_def Let_def f32_finite_iff f32_is_nan_def not_less)

lemma f32_mul_zero: "f32_mag u = 0 \<Longrightarrow> f32_is_finite z \<Longrightarrow> f32_mag (f32_mul u z) = 0"
  by (auto simp: f32_mul_def Let_def f32_class_defs inf_mag_def)

lemma filters_agree:
  assumes "f32_is_finite e" and "\<not> f32_is_nan u" and "\<not> f32_sign u" and "f32_is_finite z"
    and "\<not> f32_lt z 0" and "\<not> f32_is_nan kth"
  shows "lower_keeps_avx512 z kth (e, u, i) = lower_keeps_scalar z kth (e, u, i)"
proof -
  have e: "\<not> f32_is_nan e" using assms(1) by (rule f32_finite_not_nan)
  consider (zero) "f32_eq z 0" | (tight) "\<not> f32_eq z 0" "f32_eq u 0"
    | (unbounded) "\<not> f32_eq z 0" "f32_is_inf u"
    | (finite) "\<not> f32_eq z 0" "\<not> f32_eq u 0" "f32_is_finite u"
    using assms(2) f32_finite_iff by blast
  then show ?thesis
  proof cases
    case zero
    then show ?thesis
      by (simp add: lower_keeps_avx512_def lower_keeps_scalar_def estimate_lower_def row_estimate_def)
  next
    case tight
    then have "f32_mag (f32_mul u z) = 0" using assms(4) by (simp add: f32_eq_0_iff f32_mul_zero)
    from f32_sub_zero [OF e this] tight e show ?thesis
      by (simp add: lower_keeps_avx512_def lower_keeps_scalar_def estimate_lower_def row_estimate_def
          f32_le_def)
  next
    case unbounded
    have "f32_mag z \<noteq> 0" using unbounded(1) by (simp add: f32_eq_0_iff)
    moreover have "\<not> f32_sign z"
    proof
      assume "f32_sign z"
      then have "f32_smag z < 0" using \<open>f32_mag z \<noteq> 0\<close> by (simp add: f32_smag_def)
      then show False using assms(4,5) by (simp add: f32_lt_def f32_finite_not_nan)
    qed
    ultimately have "f32_mul u z = f32_inf" using f32_mul_inf unbounded assms by blast
    moreover have "\<not> f32_eq u 0"
      using unbounded by (simp add: f32_eq_0_iff f32_is_inf_def inf_mag_def)
    ultimately show ?thesis
      using unbounded assms f32_ninf_le [OF assms(6)]
      by (simp add: lower_keeps_avx512_def lower_keeps_scalar_def estimate_lower_def row_estimate_def
          f32_sub_finite_inf)
  next
    case finite
    have "\<not> f32_is_nan (f32_sub e (f32_mul u z))"
      using assms(1,4) finite(3) by (intro f32_sub_finite_not_nan f32_mul_not_nan) simp_all
    then show ?thesis
      using finite
      by (simp add: lower_keeps_avx512_def lower_keeps_scalar_def estimate_lower_def row_estimate_def
          f32_finite_iff f32_mul_commute [of z u])
  qed
qed

text \<open>
  The vector lower-bound filter agrees with the portable one on every row with a finite
  estimate: for a valid z and a radius that is not negative (zero, finite or infinite), comparing
  \<open>estimate - uncertainty * z\<close> with the threshold keeps exactly the rows that
  \<open>DistanceEstimate::lower\<close> keeps, with all its special cases for zero and infinite radii.
\<close>

theorem lower_filters_agree:
  assumes "f32_is_finite e" and "\<not> f32_is_nan u" and "\<not> f32_sign u" and "f32_is_finite z"
    and "\<not> f32_lt z 0" and "\<not> f32_is_nan kth"
  shows "lower_keeps_avx512 z kth (e, u, i) = lower_keeps_scalar z kth (e, u, i)"
  using assms by (rule filters_agree)

theorem lower_filters_agree_witness:
  "lower_keeps_avx512 0x3F800000 0x40000000 (0x40400000, f32_inf, 8)
    = lower_keeps_scalar 0x3F800000 0x40000000 (0x40400000, f32_inf, 8)"
  by (rule lower_filters_agree)
    (simp_all add: f32_class_defs f32_lt_def f32_smag_def f32_mag_def f32_sign_def inf_mag_def
      f32_inf_def)

text \<open>The batch of one row with infinite estimate and radius.\<close>

definition infinite_row_batch :: batch where
  "infinite_row_batch = (None, 7, replicate 16 f32_inf, replicate 16 f32_inf, replicate 16 f32_inf, 1)"

lemma infinite_row_scan:
  "portable_batch infinite_row_batch" "vector_batch infinite_row_batch"
  "scanned_rows [infinite_row_batch] = [(f32_inf, f32_inf, 7)]"
  "scanned_uppers [infinite_row_batch] = [f32_inf]"
  by (simp_all add: infinite_row_batch_def portable_batch_def vector_batch_def scanned_rows_def
      batch_rows_def scanned_uppers_def batch_uppers_def lane_id_def numeral_eq_Suc)

lemma f32_one: "f32_is_finite 0x3F800000" "\<not> f32_is_nan 0x3F800000" "\<not> f32_is_inf 0x3F800000"
  "\<not> f32_lt 0x3F800000 0" "\<not> f32_eq 0x3F800000 0" "f32_mag 0x3F800000 \<noteq> 0" "\<not> f32_sign 0x3F800000"
  by (simp_all add: f32_class_defs f32_order_defs f32_smag_def f32_mag_def f32_sign_def inf_mag_def)

text \<open>
  C40. Where they do not agree: on a row whose estimate and radius are both infinite (the values the
  metric code substitutes for an overflowed record), infinity minus infinity is a NaN, which fails
  every comparison, so a scan of that single row with K = 1 returns it on a portable host and
  returns no candidate at all on an AVX-512 host.
\<close>

theorem backends_differ_on_infinite_rows:
  "(\<exists>r. select_portable False 1 0x3F800000 1 [infinite_row_batch] = Inr r
      \<and> candidates r = [\<lparr>de_id = 7, estimated_distance = f32_inf, uncertainty = f32_inf\<rparr>])
    \<and> (\<exists>r. select_vector 1 0x3F800000 1 [infinite_row_batch] = Inr r \<and> candidates r = [])"
proof
  have args: "selector_args_ok 1 0x3F800000 1"
    by (simp add: selector_args_ok_def f32_one size_max_def)
  have scan: "scan_ok [(f32_inf, f32_inf, 7)]" by (simp add: scan_ok_def)
  obtain r where r: "select_portable False 1 0x3F800000 1 [infinite_row_batch] = Inr r"
      "selection_spec False 1 0x3F800000 1 [(f32_inf, f32_inf, 7)] [f32_inf] r"
    using select_portable_ok [OF args, of "[infinite_row_batch]" False] scan
    by (auto simp: infinite_row_scan)
  have "lower_keeps_scalar 0x3F800000 kth (f32_inf, f32_inf, 7)" if "\<not> f32_is_nan kth" for kth
    using that by (simp add: lower_keeps_scalar_def estimate_lower_def row_estimate_def f32_one
        f32_ninf_le f32_eq_0_iff inf_mag_def)
  with r show "\<exists>r. select_portable False 1 0x3F800000 1 [infinite_row_batch] = Inr r
      \<and> candidates r = [\<lparr>de_id = 7, estimated_distance = f32_inf, uncertainty = f32_inf\<rparr>]"
    by (auto simp: selection_spec_def lower_keeps_def best_rows_def row_estimate_def)
  obtain r where r: "select_vector 1 0x3F800000 1 [infinite_row_batch] = Inr r"
      "selection_spec True 1 0x3F800000 1 [(f32_inf, f32_inf, 7)] [f32_inf] r"
    using select_vector_ok [OF args, of "[infinite_row_batch]"] scan
    by (auto simp: infinite_row_scan)
  have "f32_mul f32_inf 0x3F800000 = f32_inf" by (rule f32_mul_inf) (simp_all add: f32_one)
  then have "f32_is_nan (f32_sub f32_inf (f32_mul f32_inf 0x3F800000))"
    by (simp add: f32_sub_def f32_add_def)
  then have "\<not> lower_keeps_avx512 0x3F800000 kth (f32_inf, f32_inf, 7)" for kth
    by (simp add: lower_keeps_avx512_def f32_one f32_le_def)
  with r show "\<exists>r. select_vector 1 0x3F800000 1 [infinite_row_batch] = Inr r \<and> candidates r = []"
    by (auto simp: selection_spec_def lower_keeps_def best_rows_def)
qed

end
