(* ===== verification/Pq4_Layout.thy ===== *)
theory Pq4_Layout
  imports Recast_Prelude
begin

text \<open>
  The Faiss 1.8.0 operations on bbs=32 packed PQ4 codes that the sources call
  (\<open>pq4_get_packed_element\<close>, \<open>pq4_pack_codes_range\<close>, \<open>CodePackerPQ4::unpack_all\<close> and
  \<open>pack_all\<close>). Faiss is not part of the repository: its operations are the fields of a record, and
  the locale \<open>faiss_pq4\<close> states the documented behaviour that the sources rely on. The layout that
  the AVX-512 kernel of src/src/exact_pq4.cpp decodes (32 bytes per pair of subquantizers, the lane
  order 0, 8, 1, 9, ..., rows 0..15 in the low nibbles and 16..31 in the high ones) gives a concrete
  instance of the record that satisfies the contract.
\<close>

unbundle bit_operations_syntax

section \<open>Nibbles\<close>

definition low_nibble :: "u8 \<Rightarrow> u8" where
  "low_nibble b = b AND mask 4"

definition high_nibble :: "u8 \<Rightarrow> u8" where
  "high_nibble b = drop_bit 4 b"

definition nibble :: "bool \<Rightarrow> u8 \<Rightarrow> u8" where
  "nibble hi b = (if hi then high_nibble b else low_nibble b)"

text \<open>Or a 4-bit value into one half of a byte.\<close>

definition or_nibble :: "bool \<Rightarrow> u8 \<Rightarrow> u8 \<Rightarrow> u8" where
  "or_nibble hi v b = b OR (if hi then push_bit 4 v else v)"

definition is_nibble :: "u8 \<Rightarrow> bool" where
  "is_nibble v \<longleftrightarrow> v AND mask 4 = v"

lemma is_nibble_bit: "is_nibble v \<longleftrightarrow> (\<forall>n. bit v n \<longrightarrow> n < 4)"
proof -
  have "bit (v AND mask 4) n \<longleftrightarrow> bit v n \<and> n < 4" for n
    by (auto simp: bit_and_iff bit_mask_iff)
  then show ?thesis unfolding is_nibble_def by (metis bit_word_eqI)
qed

lemma nibble_is_nibble [simp]: "is_nibble (nibble hi b)"
  by (auto simp: is_nibble_bit nibble_def high_nibble_def low_nibble_def bit_simps
      dest: bit_imp_le_length)

lemma nibble_or_same: "is_nibble v \<Longrightarrow> nibble hi b = 0 \<Longrightarrow> nibble hi (or_nibble hi v b) = v"
  unfolding is_nibble_bit
  by (rule bit_word_eqI)
    (auto simp: bit_eq_iff nibble_def or_nibble_def high_nibble_def low_nibble_def bit_simps
      split: if_splits)

lemma nibble_or_other: "is_nibble v \<Longrightarrow> hi \<noteq> hi' \<Longrightarrow> nibble hi' (or_nibble hi v b) = nibble hi' b"
  unfolding is_nibble_bit
  by (rule bit_word_eqI)
    (auto simp: nibble_def or_nibble_def high_nibble_def low_nibble_def bit_simps)

lemma nibbles_determine: "nibble True a = nibble True b \<Longrightarrow> nibble False a = nibble False b \<Longrightarrow> a = b"
proof (rule bit_word_eqI)
  fix n
  assume h: "nibble True a = nibble True b" and l: "nibble False a = nibble False b"
  from h have "bit a (4 + (n - 4)) = bit b (4 + (n - 4))"
    unfolding nibble_def high_nibble_def by (simp only: if_True) (metis bit_drop_bit_eq comp_apply)
  moreover from l have "bit (a AND mask 4) n = bit (b AND mask 4) n" by (simp add: nibble_def low_nibble_def)
  ultimately show "bit a n = bit b n" by (cases "n < 4") (simp_all add: bit_and_iff bit_mask_iff)
qed

section \<open>Flat codes\<close>

text \<open>Row-major flat codes: \<open>cs = M / 2\<close> bytes per row, two subquantizers per byte, low nibble first.\<close>

definition flat_code :: "bytes \<Rightarrow> nat \<Rightarrow> nat \<Rightarrow> nat \<Rightarrow> u8" where
  "flat_code flat cs row m = nibble (odd m) (flat ! (row * cs + m div 2))"

lemma flat_codes_determine:
  assumes "length a = n * cs" and "length b = n * cs"
    and "\<And>row m. row < n \<Longrightarrow> m < 2 * cs \<Longrightarrow> flat_code a cs row m = flat_code b cs row m"
  shows "a = b"
proof (rule nth_equalityI)
  show "length a = length b" using assms by simp
  fix i assume "i < length a"
  then have cs: "0 < cs" and i: "i < n * cs" using assms(1) by (auto intro: gr0I)
  have row: "i div cs < n" using i by (simp add: less_mult_imp_div_less)
  define j where "j = i mod cs"
  have "j < cs" using cs by (simp add: j_def)
  then have l: "2 * j < 2 * cs" "2 * j + 1 < 2 * cs" by linarith+
  have c: "flat_code a cs (i div cs) (2 * j) = flat_code b cs (i div cs) (2 * j)"
    "flat_code a cs (i div cs) (2 * j + 1) = flat_code b cs (i div cs) (2 * j + 1)"
    by (rule assms(3) [OF row l(1)], rule assms(3) [OF row l(2)])
  have "i div cs * cs + j = i" by (simp add: j_def)
  with c show "a ! i = b ! i"
    using nibbles_determine [of "a ! i" "b ! i"] by (simp add: flat_code_def)
qed

section \<open>The contract of the Faiss operations\<close>

record faiss_pq4_ops =
  get_packed_element :: "bytes \<Rightarrow> nat \<Rightarrow> nat \<Rightarrow> nat \<Rightarrow> nat \<Rightarrow> u8"
  pack_codes_range :: "bytes \<Rightarrow> nat \<Rightarrow> nat \<Rightarrow> nat \<Rightarrow> nat \<Rightarrow> nat \<Rightarrow> bytes \<Rightarrow> bytes"
  packer_unpack_all :: "nat \<Rightarrow> nat \<Rightarrow> bytes \<Rightarrow> bytes"
  packer_pack_all :: "nat \<Rightarrow> nat \<Rightarrow> bytes \<Rightarrow> bytes \<Rightarrow> bytes"

definition even_subquantizers :: "nat \<Rightarrow> bool" where
  "even_subquantizers M \<longleftrightarrow> 0 < M \<and> even M"

locale faiss_pq4 =
  fixes F :: faiss_pq4_ops
  assumes get_nibble: "is_nibble (get_packed_element F buf 32 M row m)"
    and get_tile: "even_subquantizers M \<Longrightarrow> m < M \<Longrightarrow> row < 32 * blocks \<Longrightarrow>
      length buf = 16 * M * blocks \<Longrightarrow>
      get_packed_element F buf 32 M row m =
      get_packed_element F (segment buf (row div 32 * (16 * M)) (16 * M)) 32 M (row mod 32) m"
    and get_zero: "even_subquantizers M \<Longrightarrow> m < M \<Longrightarrow> row < 32 * blocks \<Longrightarrow>
      get_packed_element F (replicate (16 * M * blocks) 0) 32 M row m = 0"
    and pack_length: "length (pack_codes_range F flat M i0 i1 32 M buf) = length buf"
    and pack_get: "even_subquantizers M \<Longrightarrow> i0 \<le> i1 \<Longrightarrow> i1 \<le> 32 * blocks \<Longrightarrow>
      length buf = 16 * M * blocks \<Longrightarrow> length flat = (i1 - i0) * (M div 2) \<Longrightarrow>
      \<forall>row m. i0 \<le> row \<and> row < i1 \<and> m < M \<longrightarrow> get_packed_element F buf 32 M row m = 0 \<Longrightarrow>
      row < 32 * blocks \<Longrightarrow> m < M \<Longrightarrow>
      get_packed_element F (pack_codes_range F flat M i0 i1 32 M buf) 32 M row m =
      (if i0 \<le> row \<and> row < i1 then flat_code flat (M div 2) (row - i0) m
       else get_packed_element F buf 32 M row m)"
    and unpack_length: "even_subquantizers M \<Longrightarrow> length tile = 16 * M \<Longrightarrow>
      length (packer_unpack_all F M 32 tile) = 16 * M"
    and unpack_code: "even_subquantizers M \<Longrightarrow> length tile = 16 * M \<Longrightarrow> row < 32 \<Longrightarrow> m < M \<Longrightarrow>
      flat_code (packer_unpack_all F M 32 tile) (M div 2) row m = get_packed_element F tile 32 M row m"
    and pack_all_length: "even_subquantizers M \<Longrightarrow> length flat = 16 * M \<Longrightarrow> length tile = 16 * M \<Longrightarrow>
      length (packer_pack_all F M 32 flat tile) = 16 * M"
    and pack_all_get: "even_subquantizers M \<Longrightarrow> length flat = 16 * M \<Longrightarrow> length tile = 16 * M \<Longrightarrow>
      row < 32 \<Longrightarrow> m < M \<Longrightarrow>
      get_packed_element F (packer_pack_all F M 32 flat tile) 32 M row m = flat_code flat (M div 2) row m"
begin

text \<open>Repacking the unpacked rows of a tile, and unpacking a packed tile.\<close>

lemma unpack_pack_all:
  assumes "even_subquantizers M" and "length flat = 16 * M" and "length tile = 16 * M"
  shows "packer_unpack_all F M 32 (packer_pack_all F M 32 flat tile) = flat"
proof -
  have M: "32 * (M div 2) = 16 * M" "2 * (M div 2) = M"
    using assms(1) by (auto simp: even_subquantizers_def)
  show ?thesis
  proof (rule flat_codes_determine [of _ 32 "M div 2"])
    show "length (packer_unpack_all F M 32 (packer_pack_all F M 32 flat tile)) = 32 * (M div 2)"
      and "length flat = 32 * (M div 2)"
      using assms by (simp_all only: unpack_length pack_all_length M)
  qed (use assms in \<open>simp add: M unpack_code pack_all_get pack_all_length\<close>)
qed

lemma pack_unpack_all:
  assumes "even_subquantizers M" and "length tile = 16 * M" and "length old = 16 * M"
    and "row < 32" and "m < M"
  shows "get_packed_element F (packer_pack_all F M 32 (packer_unpack_all F M 32 tile) old) 32 M row m
    = get_packed_element F tile 32 M row m"
  using assms by (simp add: unpack_code pack_all_get unpack_length)

end

section \<open>The kernel's layout\<close>

text \<open>Position of a row of a 16-row half: the inverse of \<open>sequential_order\<close>.\<close>

definition lane_position :: "nat \<Rightarrow> nat" where
  "lane_position r = (if r < 8 then 2 * r else 2 * (r - 8) + 1)"

definition code_byte :: "nat \<Rightarrow> nat \<Rightarrow> nat \<Rightarrow> nat" where
  "code_byte M row m = row div 32 * (16 * M) + m div 2 * 32 + m mod 2 * 16
    + lane_position (row mod 16)"

definition code_high :: "nat \<Rightarrow> bool" where
  "code_high row \<longleftrightarrow> 16 \<le> row mod 32"

definition layout_get :: "bytes \<Rightarrow> nat \<Rightarrow> nat \<Rightarrow> nat \<Rightarrow> nat \<Rightarrow> u8" where
  "layout_get codes bbs M row m = nibble (code_high row) (codes ! code_byte M row m)"

definition layout_or :: "nat \<Rightarrow> nat \<Rightarrow> nat \<Rightarrow> u8 \<Rightarrow> bytes \<Rightarrow> bytes" where
  "layout_or M row m v codes =
    codes[code_byte M row m := or_nibble (code_high row) v (codes ! code_byte M row m)]"

definition cells :: "nat \<Rightarrow> nat \<Rightarrow> nat \<Rightarrow> (nat \<times> nat) list" where
  "cells M i0 i1 = List.product [i0..<i1] [0..<M]"

definition layout_pack_range ::
    "bytes \<Rightarrow> nat \<Rightarrow> nat \<Rightarrow> nat \<Rightarrow> nat \<Rightarrow> nat \<Rightarrow> bytes \<Rightarrow> bytes" where
  "layout_pack_range flat M i0 i1 bbs nsq buf =
    fold (\<lambda>(row, m). layout_or M row m (flat_code flat (M div 2) (row - i0) m)) (cells M i0 i1) buf"

definition layout_unpack_all :: "nat \<Rightarrow> nat \<Rightarrow> bytes \<Rightarrow> bytes" where
  "layout_unpack_all M bbs tile =
    map (\<lambda>i. layout_get tile bbs M (i div (M div 2)) (2 * (i mod (M div 2)))
          OR push_bit 4 (layout_get tile bbs M (i div (M div 2)) (2 * (i mod (M div 2)) + 1)))
      [0..<32 * (M div 2)]"

definition layout_pack_all :: "nat \<Rightarrow> nat \<Rightarrow> bytes \<Rightarrow> bytes \<Rightarrow> bytes" where
  "layout_pack_all M bbs flat tile = layout_pack_range flat M 0 32 bbs M (replicate (16 * M) 0)"

definition kernel_layout :: faiss_pq4_ops where
  "kernel_layout = \<lparr>get_packed_element = layout_get, pack_codes_range = layout_pack_range,
    packer_unpack_all = layout_unpack_all, packer_pack_all = layout_pack_all\<rparr>"

lemma lane_position_less: "r < 16 \<Longrightarrow> lane_position r < 16"
  unfolding lane_position_def by arith

lemma lane_position_inj: "lane_position r = lane_position r' \<Longrightarrow> r < 16 \<Longrightarrow> r' < 16 \<Longrightarrow> r = r'"
  unfolding lane_position_def by (simp split: if_splits) presburger+

lemma pair_offset: "m div 2 * 32 + m mod 2 * 16 = 16 * m" for m :: nat
proof -
  have "m = 2 * (m div 2) + m mod 2" by simp
  then show ?thesis by linarith
qed

lemma code_byte_parts:
  fixes row :: nat
  assumes "even_subquantizers M" and "m < M"
  defines "o' \<equiv> m div 2 * 32 + m mod 2 * 16 + lane_position (row mod 16)"
  shows "code_byte M row m div (16 * M) = row div 32" and "code_byte M row m mod (16 * M) = o'"
    and "o' div 16 = m" and "o' mod 16 = lane_position (row mod 16)"
proof -
  have p: "lane_position (row mod 16) < 16" by (simp add: lane_position_less)
  have o16: "o' = 16 * m + lane_position (row mod 16)" by (simp only: o'_def pair_offset)
  have o: "o' < 16 * M" using p assms(2) unfolding o16 by linarith
  have eq: "code_byte M row m = row div 32 * (16 * M) + o'" by (simp add: code_byte_def o'_def)
  show "code_byte M row m div (16 * M) = row div 32" and "code_byte M row m mod (16 * M) = o'"
    using o by (simp_all add: eq)
  from o16 p show "o' div 16 = m" and "o' mod 16 = lane_position (row mod 16)" by simp_all
qed

lemma code_cell_inj:
  assumes M: "even_subquantizers M" and "m < M" "m' < M"
    and eq: "code_byte M row m = code_byte M row' m'" and hi: "code_high row = code_high row'"
  shows "row = row' \<and> m = m'"
proof -
  note p = code_byte_parts [OF M assms(2), of row] and p' = code_byte_parts [OF M assms(3), of row']
  have d: "row div 32 = row' div 32" using p(1) p'(1) eq by simp
  have off: "m div 2 * 32 + m mod 2 * 16 + lane_position (row mod 16)
      = m' div 2 * 32 + m' mod 2 * 16 + lane_position (row' mod 16)"
    using p(2) p'(2) eq by simp
  have m: "m = m'" using p(3) p'(3) unfolding off by simp
  have "lane_position (row mod 16) = lane_position (row' mod 16)"
    using p(4) p'(4) unfolding off by simp
  then have "row mod 16 = row' mod 16" by (rule lane_position_inj) simp_all
  moreover have "n mod 32 = 16 * (n div 16 mod 2) + n mod 16" for n :: nat
    using mod_mult2_eq [of n 16 2] by simp
  moreover have "16 \<le> n mod 32 \<longleftrightarrow> n div 16 mod 2 = 1" for n :: nat
    using mod_mult2_eq [of n 16 2] mod_less_divisor [of 16 n]
    by (cases "even (n div 16)") (simp_all add: mod2_eq_if del: mod_less_divisor)
  ultimately have "row mod 32 = row' mod 32"
    using hi unfolding code_high_def by (metis mod2_eq_if)
  with d m show ?thesis by (metis div_mult_mod_eq)
qed

lemma code_byte_bound:
  assumes "even_subquantizers M" and "m < M" and "row < 32 * blocks"
  shows "code_byte M row m < 16 * M * blocks"
proof -
  have "row div 32 < blocks" using assms(3) by (simp add: less_mult_imp_div_less mult.commute)
  then have "code_byte M row m div (16 * M) < blocks" using code_byte_parts(1) [OF assms(1,2)] by simp
  moreover have "0 < 16 * M" using assms(1) by (simp add: even_subquantizers_def)
  ultimately show ?thesis by (simp add: div_less_iff_less_mult mult.commute)
qed


section \<open>The kernel's layout satisfies the contract\<close>

lemma length_layout_or [simp]: "length (layout_or M row m v codes) = length codes"
  by (simp add: layout_or_def)

lemma length_fold_layout_or [simp]:
  "length (fold (\<lambda>(row, m). layout_or M row m (f row m)) cs buf) = length buf"
  by (induction cs arbitrary: buf) auto

lemma layout_get_or:
  assumes "even_subquantizers M" and "m < M" "m' < M" and "row < 32 * blocks"
    and "length codes = 16 * M * blocks" and "is_nibble v"
  shows "layout_get (layout_or M row m v codes) bbs M row' m' =
    (if row' = row \<and> m' = m \<and> layout_get codes bbs M row m = 0 then v
     else if row' = row \<and> m' = m then nibble (code_high row)
       (or_nibble (code_high row) v (codes ! code_byte M row m))
     else layout_get codes bbs M row' m')"
proof (cases "code_byte M row' m' = code_byte M row m")
  case False
  then have "\<not> (row' = row \<and> m' = m)" by auto
  with False show ?thesis by (auto simp: layout_get_def layout_or_def)
next
  case True
  have b: "code_byte M row m < length codes"
    using code_byte_bound [OF assms(1,2,4)] assms(5) by simp
  show ?thesis
  proof (cases "code_high row' = code_high row")
    case hi: True
    then have "row' = row \<and> m' = m" using code_cell_inj [OF assms(1,3,2) True] by simp
    then show ?thesis using b assms(6) by (simp add: layout_get_def layout_or_def nibble_or_same)
  next
    case False
    then have "\<not> (row' = row \<and> m' = m)" by auto
    with False True b assms(6) show ?thesis
      by (auto simp: layout_get_def layout_or_def nibble_or_other)
  qed
qed

lemma fold_cells:
  assumes "even_subquantizers M" and "length buf = 16 * M * blocks"
    and "\<forall>(row, m) \<in> set cs. row < 32 * blocks \<and> m < M" and "distinct cs"
    and "\<forall>(row, m) \<in> set cs. layout_get buf bbs M row m = 0" and "\<And>row m. is_nibble (f row m)"
    and "m' < M"
  shows "layout_get (fold (\<lambda>(row, m). layout_or M row m (f row m)) cs buf) bbs M row' m' =
    (if (row', m') \<in> set cs then f row' m' else layout_get buf bbs M row' m')"
  using assms
proof (induction cs arbitrary: buf)
  case Nil
  then show ?case by simp
next
  case (Cons c cs)
  obtain row m where c: "c = (row, m)" by (cases c)
  have m: "m < M" "row < 32 * blocks" using Cons.prems(3) by (simp_all add: c)
  let ?b = "layout_or M row m (f row m) buf"
  have get: "layout_get ?b bbs M row'' m'' =
      (if row'' = row \<and> m'' = m then f row m else layout_get buf bbs M row'' m'')"
    if "m'' < M" for row'' m''
    using layout_get_or [OF Cons.prems(1) m(1) that m(2) Cons.prems(2,6), of row m bbs row'']
      Cons.prems(5) by (simp add: c)
  have "layout_get (fold (\<lambda>(row, m). layout_or M row m (f row m)) cs ?b) bbs M row' m' =
      (if (row', m') \<in> set cs then f row' m' else layout_get ?b bbs M row' m')"
  proof (rule Cons.IH)
    show "\<forall>(row, m) \<in> set cs. layout_get ?b bbs M row m = 0"
    proof clarify
      fix a b assume ab: "(a, b) \<in> set cs"
      then have "b < M" and "layout_get buf bbs M a b = 0" and "\<not> (a = row \<and> b = m)"
        using Cons.prems(3,4,5) by (auto simp: c)
      then show "layout_get ?b bbs M a b = 0" using get by presburger
    qed
  qed (use Cons.prems in \<open>simp_all add: c\<close>)
  then show ?case using get [OF Cons.prems(7)] by (auto simp: c)
qed

lemma set_cells [simp]: "set (cells M i0 i1) = {i0..<i1} \<times> {0..<M}"
  by (auto simp: cells_def)

lemma layout_pack_get:
  assumes "even_subquantizers M" and "i1 \<le> 32 * blocks" and "length buf = 16 * M * blocks"
    and "\<forall>row m. i0 \<le> row \<and> row < i1 \<and> m < M \<longrightarrow> layout_get buf bbs M row m = 0" and "m < M"
  shows "layout_get (layout_pack_range flat M i0 i1 bbs nsq buf) bbs M row m =
    (if i0 \<le> row \<and> row < i1 then flat_code flat (M div 2) (row - i0) m
     else layout_get buf bbs M row m)"
proof -
  have "distinct (cells M i0 i1)" by (simp add: cells_def distinct_product)
  then show ?thesis
    using fold_cells [OF assms(1,3), of "cells M i0 i1" bbs
        "\<lambda>row m. flat_code flat (M div 2) (row - i0) m" m row] assms(2,4,5)
    by (auto simp: layout_pack_range_def flat_code_def)
qed

lemma layout_get_tile:
  assumes "even_subquantizers M" and "m < M" and "row < 32 * blocks"
    and "length buf = 16 * M * blocks"
  shows "layout_get buf 32 M row m =
    layout_get (segment buf (row div 32 * (16 * M)) (16 * M)) 32 M (row mod 32) m"
proof -
  have "row div 32 < blocks" using assms(3) by (simp add: less_mult_imp_div_less mult.commute)
  then have "Suc (row div 32) * (16 * M) \<le> blocks * (16 * M)" by (intro mult_le_mono1) simp
  then have fit: "row div 32 * (16 * M) + 16 * M \<le> length buf"
    using assms(4) by (simp add: mult.commute add.commute)
  have o': "code_byte M (row mod 32) m < 16 * M"
    using code_byte_bound [OF assms(1,2), of "row mod 32" 1] by simp
  have "code_byte M row m = row div 32 * (16 * M) + code_byte M (row mod 32) m"
    by (simp add: code_byte_def mod_mod_cancel)
  then show ?thesis
    using nth_segment [OF o' fit] by (simp add: layout_get_def code_high_def)
qed

lemma layout_get_zero:
  assumes "even_subquantizers M" and "m < M" and "row < 32 * blocks"
  shows "layout_get (replicate (16 * M * blocks) 0) bbs M row m = 0"
  using code_byte_bound [OF assms]
  by (simp add: layout_get_def nibble_def low_nibble_def high_nibble_def)

lemma unpack_nibbles:
  assumes "is_nibble a" and "is_nibble b"
  shows "nibble False (a OR push_bit 4 b) = a" and "nibble True (a OR push_bit 4 b) = b"
  using assms unfolding is_nibble_bit
  by (intro bit_word_eqI; auto simp: nibble_def low_nibble_def high_nibble_def bit_simps
      dest: bit_imp_le_length)+

lemma layout_get_is_nibble: "is_nibble (layout_get buf bbs M row m)"
  by (simp add: layout_get_def)

lemma layout_unpack_code:
  assumes "even_subquantizers M" and "row < 32" and "m < M"
  shows "flat_code (layout_unpack_all M 32 tile) (M div 2) row m = layout_get tile 32 M row m"
proof -
  let ?cs = "M div 2"
  have cs: "0 < ?cs" "m div 2 < ?cs" using assms by (auto simp: even_subquantizers_def elim!: evenE)
  then have i: "(row * ?cs + m div 2) div ?cs = row" "(row * ?cs + m div 2) mod ?cs = m div 2"
    by simp_all
  have "row * ?cs + m div 2 < Suc row * ?cs" using cs by simp
  also have "\<dots> \<le> 32 * ?cs" using assms(2) by (intro mult_le_mono1) simp
  finally have "layout_unpack_all M 32 tile ! (row * ?cs + m div 2) =
      layout_get tile 32 M row (2 * (m div 2)) OR push_bit 4 (layout_get tile 32 M row (2 * (m div 2) + 1))"
    using cs(2) by (simp add: layout_unpack_all_def i)
  then show ?thesis
    by (cases "even m") (simp_all add: flat_code_def unpack_nibbles layout_get_is_nibble)
qed

interpretation kernel: faiss_pq4 kernel_layout
proof (unfold_locales, goal_cases)
  case (1 buf M row m)
  then show ?case by (simp add: kernel_layout_def layout_get_is_nibble)
next
  case (2 M m row blocks buf)
  then show ?case by (simp add: kernel_layout_def layout_get_tile)
next
  case (3 M m row blocks)
  then show ?case by (simp add: kernel_layout_def layout_get_zero)
next
  case (4 flat M i0 i1 buf)
  then show ?case by (simp add: kernel_layout_def layout_pack_range_def)
next
  case (5 M i0 i1 blocks buf flat row m)
  then show ?case by (simp add: kernel_layout_def layout_pack_get)
next
  case (6 M tile)
  then show ?case by (auto simp: kernel_layout_def layout_unpack_all_def even_subquantizers_def)
next
  case (7 M tile row m)
  then show ?case by (simp add: kernel_layout_def layout_unpack_code)
next
  case (8 M flat tile)
  then show ?case by (simp add: kernel_layout_def layout_pack_all_def layout_pack_range_def)
next
  case (9 M flat tile row m)
  then show ?case
    using layout_get_zero [of M _ _ 1] layout_pack_get [of M 32 1 "replicate (16 * M) 0" 0 32 m]
    by (simp add: kernel_layout_def layout_pack_all_def)
qed

end
