(* ===== verification/Metadata_Packing.thy ===== *)
theory Metadata_Packing
  imports Recast_Types
begin

text \<open>
  The 96-byte metadata tiles: \<open>packed_metadata_size_bbs32\<close>, \<open>pack_metadata_bbs32\<close> and
  \<open>metadata_at_lane\<close> of src/src/fastscan.cpp, and the metadata half of
  src/adapters/pq4_update_packing.cpp. A buffer is a byte list, so the null-pointer guards have no
  counterpart; the overlap guard takes the outcome of \<open>ranges_overlap\<close> on the two buffers as an
  argument.
\<close>

section \<open>Sizes and address ranges\<close>

definition block_lanes :: nat where
  "block_lanes = 32"

definition metadata_block_bytes :: nat where
  "metadata_block_bytes = block_lanes * 3"

definition packed_metadata_size_bbs32 :: "nat \<Rightarrow> nat res" where
  "packed_metadata_size_bbs32 padded =
    (if padded mod block_lanes \<noteq> 0
     then Inl (Invalid_argument ''packed metadata row count must be a multiple of 32'')
     else if padded > size_max div 3 then Inl (Overflow_error ''packed metadata size overflow'')
     else Inr (padded * 3))"

definition ranges_overlap :: "nat \<Rightarrow> nat \<Rightarrow> nat \<Rightarrow> nat \<Rightarrow> bool res" where
  "ranges_overlap a na b nb =
    (if na = 0 \<or> nb = 0 then Inr False
     else if a > size_max - na \<or> b > size_max - nb
     then Inl (Overflow_error ''pointer range overflows uintptr_t'')
     else Inr (a < b + nb \<and> b < a + na))"

definition round_up_block :: "nat \<Rightarrow> nat" where
  "round_up_block n = (n + block_lanes - 1) div block_lanes * block_lanes"

section \<open>Tiles\<close>

text \<open>Byte index of field \<open>f\<close> (norm 0, scale 1, error 2) of a row.\<close>

definition lane_index :: "nat \<Rightarrow> nat \<Rightarrow> nat" where
  "lane_index row f = (row div block_lanes) * metadata_block_bytes + f * block_lanes
    + row mod block_lanes"

definition put_metadata :: "nat \<Rightarrow> metadata \<Rightarrow> bytes \<Rightarrow> bytes" where
  "put_metadata row m out =
    out[lane_index row 0 := md_norm m, lane_index row 1 := md_scale m, lane_index row 2 := md_error m]"

definition get_metadata :: "bytes \<Rightarrow> nat \<Rightarrow> metadata" where
  "get_metadata buf row =
    \<lparr>md_norm = buf ! lane_index row 0, md_scale = buf ! lane_index row 1,
     md_error = buf ! lane_index row 2\<rparr>"

definition metadata_at_lane :: "bytes \<Rightarrow> nat \<Rightarrow> metadata" where
  "metadata_at_lane tile lane =
    \<lparr>md_norm = tile ! lane, md_scale = tile ! (block_lanes + lane),
     md_error = tile ! (2 * block_lanes + lane)\<rparr>"

definition empty_metadata :: metadata where
  "empty_metadata = \<lparr>md_norm = 255, md_scale = 255, md_error = 255\<rparr>"

definition pack_metadata_bbs32 :: "metadata list \<Rightarrow> nat \<Rightarrow> nat \<Rightarrow> bytes \<Rightarrow> bytes res" where
  "pack_metadata_bbs32 ms n padded out =
    (if n > padded \<or> padded mod block_lanes \<noteq> 0
     then Inl (Invalid_argument ''invalid bbs=32 metadata packing input'')
     else if padded = 0 then Inr out
     else res_bind (packed_metadata_size_bbs32 padded)
       (\<lambda>sz. Inr (fold (\<lambda>i. put_metadata i (ms ! i)) [0..<n] (patch out 0 (replicate sz 255)))))"

definition validate_empty_packed_metadata_range_bbs32 :: "nat \<Rightarrow> nat \<Rightarrow> bytes \<Rightarrow> unit res" where
  "validate_empty_packed_metadata_range_bbs32 from until buf =
    (if from > until then Inl (Invalid_argument ''invalid packed metadata validation range'')
     else if from = until then Inr ()
     else if until > size_max - (block_lanes - 1)
     then Inl (Overflow_error ''packed metadata validation row count overflows'')
     else res_bind (checked_multiply (round_up_block until) 3
         ''packed metadata validation size overflows'')
       (\<lambda>required. if length buf < required
          then Inl (Invalid_argument ''packed metadata validation buffer is too small'')
          else res_fold (\<lambda>row _. if buf ! lane_index row 0 \<noteq> 255 \<or> buf ! lane_index row 1 \<noteq> 255
                 \<or> buf ! lane_index row 2 \<noteq> 255
               then Inl (Logic_error ''packed metadata destination lane is not empty'')
               else Inr ()) [from..<until] ()))"

definition write_metadata_range_bbs32 ::
    "bool res \<Rightarrow> metadata list \<Rightarrow> nat \<Rightarrow> nat \<Rightarrow> bytes \<Rightarrow> bytes res" where
  "write_metadata_range_bbs32 overlap ms from until buf =
    (if from > until \<or> length ms \<noteq> until - from
     then Inl (Invalid_argument ''invalid packed metadata append range'')
     else if length ms = 0 then Inr buf
     else res_bind (checked_multiply (length ms) 3 ''metadata append source size overflows'') (\<lambda>_.
       res_bind overlap (\<lambda>ov.
         if ov then Inl (Invalid_argument ''flat and packed metadata append buffers must not overlap'')
         else res_bind (validate_empty_packed_metadata_range_bbs32 from until buf) (\<lambda>_.
           Inr (fold (\<lambda>i. put_metadata (from + i) (ms ! i)) [0..<length ms] buf)))))"

definition unpack_metadata_block_bbs32 :: "bool res \<Rightarrow> bytes \<Rightarrow> nat \<Rightarrow> metadata list res" where
  "unpack_metadata_block_bbs32 overlap tile n =
    (if length tile \<noteq> metadata_block_bytes \<or> n \<noteq> block_lanes
     then Inl (Invalid_argument ''invalid metadata block unpack buffers'')
     else res_bind overlap (\<lambda>ov.
       if ov then Inl (Invalid_argument ''packed and flat metadata unpack buffers must not overlap'')
       else Inr (map (metadata_at_lane tile) [0..<block_lanes])))"

definition rewrite_metadata_block_bbs32 :: "bool res \<Rightarrow> metadata list \<Rightarrow> bytes \<Rightarrow> bytes res" where
  "rewrite_metadata_block_bbs32 overlap ms tile =
    (if length ms \<noteq> block_lanes \<or> length tile \<noteq> metadata_block_bytes
     then Inl (Invalid_argument ''invalid metadata block rewrite buffers'')
     else res_bind overlap (\<lambda>ov.
       if ov then Inl (Invalid_argument ''flat and packed metadata rewrite buffers must not overlap'')
       else pack_metadata_bbs32 ms block_lanes block_lanes tile))"

section \<open>The layout is injective\<close>

lemmas block_defs = block_lanes_def metadata_block_bytes_def

lemma lane_index_div: "f < 3 \<Longrightarrow> lane_index row f div 96 = row div 32"
  by (simp add: lane_index_def block_defs div_mult_self3 div_eq_0_iff less_mult_imp_div_less
      add.assoc)

lemma lane_index_mod: "f < 3 \<Longrightarrow> lane_index row f mod 96 = f * 32 + row mod 32"
  using mod_less_divisor [of 32 row] by (simp add: lane_index_def block_defs add.assoc)

lemma lane_index_inj:
  assumes "lane_index r f = lane_index r' f'" and "f < 3" and "f' < 3"
  shows "r = r' \<and> f = f'"
proof -
  have d: "r div 32 = r' div 32" using lane_index_div assms by metis
  have "f * 32 + r mod 32 = f' * 32 + r' mod 32" using lane_index_mod assms by metis
  then have "(f * 32 + r mod 32) div 32 = (f' * 32 + r' mod 32) div 32
      \<and> (f * 32 + r mod 32) mod 32 = (f' * 32 + r' mod 32) mod 32" by simp
  then have "f = f'" and "r mod 32 = r' mod 32" by simp_all
  with d show ?thesis by (metis div_mult_mod_eq)
qed

lemma lane_index_bound:
  assumes "row < 32 * blocks" and "f < 3"
  shows "lane_index row f < 96 * blocks"
proof -
  have "row div 32 < blocks" using assms(1) by (simp add: less_mult_imp_div_less mult.commute)
  then have "lane_index row f div 96 < blocks" using assms(2) by (simp add: lane_index_div)
  then show ?thesis by (simp add: div_less_iff_less_mult mult.commute)
qed

lemma lane_index_eq [simp]:
  "lane_index r 0 = lane_index r' 0 \<longleftrightarrow> r = r'" "lane_index r 1 = lane_index r' 1 \<longleftrightarrow> r = r'"
  "lane_index r 2 = lane_index r' 2 \<longleftrightarrow> r = r'"
  "lane_index r 0 \<noteq> lane_index r' 1" "lane_index r 0 \<noteq> lane_index r' 2"
  "lane_index r 1 \<noteq> lane_index r' 0" "lane_index r 1 \<noteq> lane_index r' 2"
  "lane_index r 2 \<noteq> lane_index r' 0" "lane_index r 2 \<noteq> lane_index r' 1"
  "lane_index r (Suc 0) = lane_index r' (Suc 0) \<longleftrightarrow> r = r'"
  "lane_index r 0 \<noteq> lane_index r' (Suc 0)" "lane_index r (Suc 0) \<noteq> lane_index r' 0"
  "lane_index r (Suc 0) \<noteq> lane_index r' 2" "lane_index r 2 \<noteq> lane_index r' (Suc 0)"
  by (force dest: lane_index_inj)+

section \<open>Reading and writing rows\<close>

lemma length_put_metadata [simp]: "length (put_metadata row m out) = length out"
  by (simp add: put_metadata_def)

lemma get_put_metadata:
  assumes "row < 32 * blocks" and "96 * blocks \<le> length out"
  shows "get_metadata (put_metadata row m out) row = m"
proof -
  have "lane_index row f < length out" if "f < 3" for f
    using lane_index_bound [OF assms(1) that] assms(2) by linarith
  from this [of 0] this [of 1] this [of 2] show ?thesis
    by (simp add: get_metadata_def put_metadata_def)
qed

lemma get_put_metadata_other [simp]:
  "row \<noteq> row' \<Longrightarrow> get_metadata (put_metadata row m out) row' = get_metadata out row'"
  by (simp add: get_metadata_def put_metadata_def)

lemma put_rows:
  assumes "from + n \<le> 32 * blocks" and "96 * blocks \<le> length out" and "n \<le> length ms"
  shows "length (fold (\<lambda>i. put_metadata (from + i) (ms ! i)) [0..<n] out) = length out
    \<and> (\<forall>row. get_metadata (fold (\<lambda>i. put_metadata (from + i) (ms ! i)) [0..<n] out) row =
      (if from \<le> row \<and> row < from + n then ms ! (row - from) else get_metadata out row))"
  using assms
proof (induction n)
  case 0
  then show ?case by auto
next
  case (Suc n)
  let ?o = "fold (\<lambda>i. put_metadata (from + i) (ms ! i)) [0..<n] out"
  have IH: "length ?o = length out" "\<And>row. get_metadata ?o row =
      (if from \<le> row \<and> row < from + n then ms ! (row - from) else get_metadata out row)"
    using Suc by auto
  have "get_metadata (put_metadata (from + n) (ms ! n) ?o) (from + n) = ms ! n"
    using Suc.prems IH(1) by (intro get_put_metadata [of _ blocks]) simp_all
  moreover have "get_metadata (put_metadata (from + n) (ms ! n) ?o) row = get_metadata ?o row"
    if "row \<noteq> from + n" for row
    using that by simp
  ultimately show ?case using IH by (auto simp: less_Suc_eq)
qed

lemma get_metadata_filled:
  assumes "row < 32 * blocks"
  shows "get_metadata (patch out 0 (replicate (96 * blocks) 255)) row = empty_metadata"
proof -
  have "patch out 0 (replicate (96 * blocks) 255) ! lane_index row f = 255" if "f < 3" for f
    using lane_index_bound [OF assms that] by (simp add: patch_def nth_append)
  from this [of 0] this [of 1] this [of 2] show ?thesis
    by (simp add: get_metadata_def empty_metadata_def)
qed

lemma validate_metadata_range_iff:
  assumes "from < until" and "until \<le> 32 * blocks" and "length buf = 96 * blocks"
    and "96 * blocks \<le> size_max - 31"
  shows "validate_empty_packed_metadata_range_bbs32 from until buf =
    (if \<forall>row. from \<le> row \<and> row < until \<longrightarrow> get_metadata buf row = empty_metadata then Inr ()
     else Inl (Logic_error ''packed metadata destination lane is not empty''))"
proof -
  have loop: "res_fold (\<lambda>row _. if Q row then Inl e else Inr ()) xs () =
      (if \<forall>row \<in> set xs. \<not> Q row then Inr () else Inl e)" for Q xs and e :: exc
    by (induction xs) auto
  have "round_up_block until \<le> 32 * blocks"
  proof -
    have "(until + 31) div 32 \<le> (32 * blocks + 31) div 32" using assms(2) by (intro div_le_mono) simp
    then show ?thesis by (simp add: round_up_block_def block_defs)
  qed
  moreover then have "checked_multiply (round_up_block until) 3 msg = Inr (round_up_block until * 3)"
    for msg
    using assms(4) by (intro checked_multiply_ok) linarith
  moreover have "until \<le> size_max - 31" using assms(2,4) by linarith
  moreover have "get_metadata buf row = empty_metadata \<longleftrightarrow> \<not> (buf ! lane_index row 0 \<noteq> 255 \<or>
      buf ! lane_index row 1 \<noteq> 255 \<or> buf ! lane_index row 2 \<noteq> 255)" for row
    by (auto simp: get_metadata_def empty_metadata_def)
  ultimately show ?thesis
    using assms by (auto simp: validate_empty_packed_metadata_range_bbs32_def block_lanes_def loop)
qed

lemma metadata_at_lane_get:
  assumes "row < 32 * blocks" and "length buf = 96 * blocks"
  shows "metadata_at_lane (segment buf (row div 32 * 96) 96) (row mod 32) = get_metadata buf row"
proof -
  have "row div 32 < blocks" using assms(1) by (simp add: less_mult_imp_div_less mult.commute)
  then have fit: "row div 32 * 96 + 96 \<le> length buf" using assms(2) by linarith
  have "segment buf (row div 32 * 96) 96 ! (f * 32 + row mod 32) = buf ! lane_index row f"
    if "f < 3" for f
    using that fit mod_less_divisor [of 32 row]
    by (subst nth_segment) (simp_all add: lane_index_def block_defs add.assoc)
  from this [of 0] this [of 1] this [of 2] show ?thesis
    by (simp add: metadata_at_lane_def get_metadata_def block_lanes_def)
qed


section \<open>Round trips\<close>

lemma pack_metadata_rows:
  assumes "n \<le> 32 * blocks" and "length ms = n" and "96 * blocks \<le> size_max"
    and "96 * blocks \<le> length out"
  obtains packed where "pack_metadata_bbs32 ms n (32 * blocks) out = Inr packed"
    and "length packed = length out"
    and "\<And>row. row < 32 * blocks \<Longrightarrow>
      get_metadata packed row = (if row < n then ms ! row else empty_metadata)"
proof (cases "blocks = 0")
  case True
  then show thesis using assms that [of out] by (simp add: pack_metadata_bbs32_def block_lanes_def)
next
  case False
  let ?o = "patch out 0 (replicate (96 * blocks) 255)"
  let ?p = "fold (\<lambda>i. put_metadata i (ms ! i)) [0..<n] ?o"
  have sz: "packed_metadata_size_bbs32 (32 * blocks) = Inr (96 * blocks)"
    using assms(3) mult_guard [of 3 size_max "32 * blocks"]
    by (simp add: packed_metadata_size_bbs32_def block_lanes_def not_less)
  have lo: "length ?o = length out" using assms(4) by simp
  note rows = put_rows [of 0 n blocks ?o ms, simplified lo, simplified]
  show thesis
  proof (rule that [of ?p])
    show "pack_metadata_bbs32 ms n (32 * blocks) out = Inr ?p"
      using assms(1) False by (simp add: pack_metadata_bbs32_def sz) (simp add: block_lanes_def)
    show "length ?p = length out" using rows assms by simp
    show "get_metadata ?p row = (if row < n then ms ! row else empty_metadata)"
      if "row < 32 * blocks" for row
      using rows assms that by (simp add: get_metadata_filled)
  qed
qed

text \<open>
  Packing metadata records and reading the rows back. For \<open>n\<close> records and \<open>blocks\<close> tiles with
  room for them, \<open>pack_metadata_bbs32\<close> succeeds, row i of the packed buffer decodes to record i in
  every tile and lane, and each padding lane decodes to the 255 sentinel in all three fields.
\<close>

theorem pack_metadata_roundtrip:
  assumes "n \<le> 32 * blocks" and "length ms = n" and "96 * blocks \<le> size_max"
    and "length out = 96 * blocks"
  shows "\<exists>packed. pack_metadata_bbs32 ms n (32 * blocks) out = Inr packed
    \<and> length packed = 96 * blocks
    \<and> (\<forall>row < 32 * blocks.
        metadata_at_lane (segment packed (row div 32 * 96) 96) (row mod 32)
        = (if row < n then ms ! row else empty_metadata))"
  using pack_metadata_rows [OF assms(1-3)] assms(4) metadata_at_lane_get by (metis order_refl)

theorem pack_metadata_roundtrip_witness:
  "\<exists>packed. pack_metadata_bbs32 [\<lparr>md_norm = 1, md_scale = 2, md_error = 3\<rparr>] 1 (32 * 1)
      (replicate 96 0) = Inr packed
    \<and> length packed = 96 * 1
    \<and> (\<forall>row < 32 * 1. metadata_at_lane (segment packed (row div 32 * 96) 96) (row mod 32)
        = (if row < 1 then [\<lparr>md_norm = 1, md_scale = 2, md_error = 3\<rparr>] ! row else empty_metadata))"
  by (rule pack_metadata_roundtrip) (simp_all add: size_max_def)

lemma write_metadata_range_ok:
  assumes "from \<le> until" and "until \<le> 32 * blocks" and "length buf = 96 * blocks"
    and "96 * blocks \<le> size_max - 31" and "length ms = until - from"
    and "\<forall>row. from \<le> row \<and> row < until \<longrightarrow> get_metadata buf row = empty_metadata"
  obtains out where "write_metadata_range_bbs32 (Inr False) ms from until buf = Inr out"
    and "length out = length buf"
    and "\<And>row. get_metadata out row =
      (if from \<le> row \<and> row < until then ms ! (row - from) else get_metadata buf row)"
proof (cases "from = until")
  case True
  show thesis
  proof (rule that [of buf])
    show "write_metadata_range_bbs32 (Inr False) ms from until buf = Inr buf"
      using True assms by (simp add: write_metadata_range_bbs32_def)
  qed (use True in auto)
next
  case False
  let ?p = "fold (\<lambda>i. put_metadata (from + i) (ms ! i)) [0..<length ms] buf"
  have valid: "validate_empty_packed_metadata_range_bbs32 from until buf = Inr ()"
    using validate_metadata_range_iff [of "from" until blocks buf] assms False by simp
  have mul: "checked_multiply (until - from) 3 msg = Inr ((until - from) * 3)" for msg
    using assms by (intro checked_multiply_ok) linarith
  show thesis
  proof (rule that [of ?p])
    show "write_metadata_range_bbs32 (Inr False) ms from until buf = Inr ?p"
      using assms False by (simp add: write_metadata_range_bbs32_def valid mul)
    show "length ?p = length buf"
      using put_rows [of "from" "length ms" blocks buf ms] assms by simp
    show "get_metadata ?p row =
        (if from \<le> row \<and> row < until then ms ! (row - from) else get_metadata buf row)" for row
      using put_rows [of "from" "length ms" blocks buf ms] assms by simp
  qed
qed

text \<open>
  Appending metadata to a packed list. Writing records into an empty range succeeds, the range
  then reads back as the records, and every other row of the list keeps its bytes; on a range with
  any lane that is not empty the call throws the logic error before it writes anything.
\<close>

theorem write_metadata_range_correct:
  assumes "from < until" and "until \<le> 32 * blocks" and "length buf = 96 * blocks"
    and "96 * blocks \<le> size_max - 31" and "length ms = until - from"
  shows "if \<forall>row. from \<le> row \<and> row < until \<longrightarrow> get_metadata buf row = empty_metadata
    then \<exists>out. write_metadata_range_bbs32 (Inr False) ms from until buf = Inr out
      \<and> length out = length buf
      \<and> (\<forall>row. get_metadata out row =
          (if from \<le> row \<and> row < until then ms ! (row - from) else get_metadata buf row))
    else write_metadata_range_bbs32 (Inr False) ms from until buf
      = Inl (Logic_error ''packed metadata destination lane is not empty'')"
proof (cases "\<forall>row. from \<le> row \<and> row < until \<longrightarrow> get_metadata buf row = empty_metadata")
  case True
  have "from \<le> until" using assms(1) by simp
  from write_metadata_range_ok [OF this assms(2-5) True] True show ?thesis by metis
next
  case False
  have "checked_multiply (length ms) 3 msg = Inr (length ms * 3)" for msg
    using assms by (intro checked_multiply_ok) linarith
  moreover have "validate_empty_packed_metadata_range_bbs32 from until buf =
      Inl (Logic_error ''packed metadata destination lane is not empty'')"
    using validate_metadata_range_iff [OF assms(1-4)] unfolding if_not_P [OF False] .
  ultimately show ?thesis
    unfolding if_not_P [OF False] using assms by (simp add: write_metadata_range_bbs32_def)
qed

theorem write_metadata_range_correct_witness:
  "\<exists>out. write_metadata_range_bbs32 (Inr False) [\<lparr>md_norm = 1, md_scale = 2, md_error = 3\<rparr>] 4 5
      (replicate 96 255) = Inr out
    \<and> length out = length (replicate 96 (255 :: u8))
    \<and> (\<forall>row. get_metadata out row =
        (if 4 \<le> row \<and> row < 5 then [\<lparr>md_norm = 1, md_scale = 2, md_error = 3\<rparr>] ! (row - 4)
         else get_metadata (replicate 96 255) row))"
proof -
  have "get_metadata (replicate 96 255) row = empty_metadata" if "row < 32 * 1" for row
    using get_metadata_filled [OF that, of "[]"] by (simp add: patch_def)
  then show ?thesis
    using write_metadata_range_correct [of 4 5 1 "replicate 96 255"
        "[\<lparr>md_norm = 1, md_scale = 2, md_error = 3\<rparr>]"]
    by (simp add: size_max_def)
qed

lemma unpack_metadata_block_rows:
  "length tile = 96 \<Longrightarrow>
    unpack_metadata_block_bbs32 (Inr False) tile 32 = Inr (map (get_metadata tile) [0..<32])"
proof -
  assume len: "length tile = 96"
  have "metadata_at_lane tile lane = get_metadata tile lane" if "lane < 32" for lane
    using metadata_at_lane_get [of lane 1 tile] that len segment_full [of tile] by simp
  then show ?thesis
    using len by (simp add: unpack_metadata_block_bbs32_def block_defs)
qed

text \<open>
  Rewriting a metadata tile and unpacking it gives the 32 records back, whatever the tile held.
\<close>

theorem metadata_block_roundtrip:
  assumes "length ms = 32" and "length tile = 96"
  shows "\<exists>tile'. rewrite_metadata_block_bbs32 (Inr False) ms tile = Inr tile'
    \<and> length tile' = 96 \<and> unpack_metadata_block_bbs32 (Inr False) tile' 32 = Inr ms"
proof -
  obtain t where t: "pack_metadata_bbs32 ms 32 (32 * 1) tile = Inr t" "length t = 96"
      "\<And>row. row < 32 * 1 \<Longrightarrow> get_metadata t row = (if row < 32 then ms ! row else empty_metadata)"
    using pack_metadata_rows [of 32 1 ms tile] assms by (auto simp: size_max_def)
  then have "map (get_metadata t) [0..<32] = ms"
    using assms(1) by (simp add: list_eq_iff_nth_eq)
  with t assms show ?thesis
    by (simp add: rewrite_metadata_block_bbs32_def unpack_metadata_block_rows block_defs)
qed

theorem metadata_block_roundtrip_witness:
  "\<exists>tile'. rewrite_metadata_block_bbs32 (Inr False) (replicate 32 empty_metadata) (replicate 96 0)
      = Inr tile'
    \<and> length tile' = 96 \<and> unpack_metadata_block_bbs32 (Inr False) tile' 32
      = Inr (replicate 32 empty_metadata)"
  by (rule metadata_block_roundtrip) simp_all

text \<open>
  The alias guard is exact: for two ranges inside the address space it reports an overlap iff
  some byte belongs to both.
\<close>

theorem ranges_overlap_exact:
  assumes "a + na \<le> size_max" and "b + nb \<le> size_max"
  shows "ranges_overlap a na b nb = Inr ({a..<a + na} \<inter> {b..<b + nb} \<noteq> {})"
proof -
  have "{a..<a + na} \<inter> {b..<b + nb} \<noteq> {} \<longleftrightarrow> 0 < na \<and> 0 < nb \<and> a < b + nb \<and> b < a + na"
  proof
    assume "{a..<a + na} \<inter> {b..<b + nb} \<noteq> {}"
    then show "0 < na \<and> 0 < nb \<and> a < b + nb \<and> b < a + na" by auto
  next
    assume "0 < na \<and> 0 < nb \<and> a < b + nb \<and> b < a + na"
    then have "max a b \<in> {a..<a + na} \<inter> {b..<b + nb}" by auto
    then show "{a..<a + na} \<inter> {b..<b + nb} \<noteq> {}" by blast
  qed
  with assms show ?thesis by (auto simp: ranges_overlap_def)
qed

theorem ranges_overlap_exact_witness:
  "ranges_overlap 100 8 107 4 = Inr ({100..<100 + 8} \<inter> {107..<107 + (4 :: nat)} \<noteq> {})"
  by (rule ranges_overlap_exact) (simp_all add: size_max_def)

end
