(* ===== verification/Pq4_Packing.thy ===== *)
theory Pq4_Packing
  imports Pq4_Layout Metadata_Packing Float32
begin

text \<open>
  The code half of src/adapters/pq4_update_packing.cpp and the two LUT kernels of
  src/src/exact_pq4.cpp. Packing delegates to Faiss through \<open>faiss_pq4_ops\<close>; the properties of the
  wrappers hold for every implementation of the contract \<open>faiss_pq4\<close>, and the vector kernel, which
  reads the bytes itself, is proved equal to the portable one.
\<close>

section \<open>Update packing\<close>

definition flat_code_size :: "nat \<Rightarrow> nat res" where
  "flat_code_size M =
    (if M = 0 \<or> M mod 2 \<noteq> 0
     then Inl (Invalid_argument ''mutable PQ4 packing requires a positive even subquantizer count'')
     else Inr (M div 2))"

definition packed_code_block_bytes :: "nat \<Rightarrow> nat res" where
  "packed_code_block_bytes M =
    res_bind (flat_code_size M) (\<lambda>cs. checked_multiply block_lanes cs ''packed PQ4 block size overflows'')"

definition validate_empty_packed_code_range_bbs32 ::
    "faiss_pq4_ops \<Rightarrow> nat \<Rightarrow> nat \<Rightarrow> nat \<Rightarrow> bytes \<Rightarrow> unit res" where
  "validate_empty_packed_code_range_bbs32 F M from until codes =
    res_bind (flat_code_size M) (\<lambda>cs.
      if from > until then Inl (Invalid_argument ''invalid packed PQ4 validation range'')
      else if from = until then Inr ()
      else if until > size_max - (block_lanes - 1)
      then Inl (Overflow_error ''packed PQ4 validation row count overflows'')
      else res_bind (checked_multiply (round_up_block until) cs ''packed PQ4 validation size overflows'')
        (\<lambda>required. if length codes < required
           then Inl (Invalid_argument ''packed PQ4 validation buffer is too small'')
           else res_fold (\<lambda>row _. res_fold (\<lambda>m _.
                  if get_packed_element F codes block_lanes M row m \<noteq> 0
                  then Inl (Logic_error ''pq4_pack_codes_range destination lane is not zero'')
                  else Inr ()) [0..<M] ()) [from..<until] ()))"

definition append_flat_codes_bbs32 ::
    "faiss_pq4_ops \<Rightarrow> bool res \<Rightarrow> bytes \<Rightarrow> nat \<Rightarrow> nat \<Rightarrow> nat \<Rightarrow> bytes \<Rightarrow> bytes res" where
  "append_flat_codes_bbs32 F overlap flat M from until codes =
    res_bind (flat_code_size M) (\<lambda>cs.
      if from > until then Inl (Invalid_argument ''invalid packed PQ4 append range'')
      else res_bind (checked_multiply (until - from) cs ''flat PQ4 append size overflows'') (\<lambda>expected.
        if length flat \<noteq> expected
        then Inl (Invalid_argument ''flat PQ4 append byte count is inconsistent'')
        else if until - from = 0 then Inr codes
        else res_bind overlap (\<lambda>ov.
          if ov then Inl (Invalid_argument ''flat and packed PQ4 append buffers must not overlap'')
          else res_bind (validate_empty_packed_code_range_bbs32 F M from until codes) (\<lambda>_.
            Inr (pack_codes_range F flat M from until block_lanes M codes)))))"

definition unpack_flat_block_bbs32 ::
    "faiss_pq4_ops \<Rightarrow> bool res \<Rightarrow> bytes \<Rightarrow> nat \<Rightarrow> nat \<Rightarrow> bytes res" where
  "unpack_flat_block_bbs32 F overlap tile M flat_bytes =
    res_bind (packed_code_block_bytes M) (\<lambda>expected.
      if length tile \<noteq> expected \<or> flat_bytes \<noteq> expected
      then Inl (Invalid_argument ''invalid PQ4 block unpack buffers'')
      else res_bind overlap (\<lambda>ov.
        if ov then Inl (Invalid_argument ''packed and flat PQ4 unpack buffers must not overlap'')
        else Inr (packer_unpack_all F M block_lanes tile)))"

definition rewrite_flat_block_bbs32 ::
    "faiss_pq4_ops \<Rightarrow> bool res \<Rightarrow> bytes \<Rightarrow> nat \<Rightarrow> bytes \<Rightarrow> bytes res" where
  "rewrite_flat_block_bbs32 F overlap flat M tile =
    res_bind (packed_code_block_bytes M) (\<lambda>expected.
      if length flat \<noteq> expected \<or> length tile \<noteq> expected
      then Inl (Invalid_argument ''invalid PQ4 block rewrite buffers'')
      else res_bind overlap (\<lambda>ov.
        if ov then Inl (Invalid_argument ''flat and packed PQ4 rewrite buffers must not overlap'')
        else Inr (packer_pack_all F M block_lanes flat tile)))"

section \<open>LUT kernels\<close>

definition dot_of_row :: "(nat \<Rightarrow> u8) \<Rightarrow> f32 list \<Rightarrow> nat \<Rightarrow> f32" where
  "dot_of_row code lut M =
    fold (\<lambda>m sum. f32_add sum (lut ! (m * 16 + unat (code m)))) [0..<M] 0"

definition accumulate_exact_pq4_lut_scalar ::
    "faiss_pq4_ops \<Rightarrow> nat \<Rightarrow> nat \<Rightarrow> nat \<Rightarrow> nat \<Rightarrow> bytes \<Rightarrow> f32 list \<Rightarrow> f32 list res" where
  "accumulate_exact_pq4_lut_scalar F cnt padded bs M codes lut =
    (if cnt > padded \<or> bs = 0 \<or> padded mod bs \<noteq> 0 \<or> M = 0 \<or> M mod 2 \<noteq> 0
     then Inl (Invalid_argument ''invalid scalar PQ4 kernel arguments'')
     else Inr (fold (\<lambda>i out. out[i := dot_of_row (get_packed_element F codes bs M i) lut M])
       [0..<cnt] (replicate padded 0)))"

text \<open>\<open>_mm512_permutexvar\<close>: lane i of the result is the source lane that index i names.\<close>

definition permutexvar :: "nat list \<Rightarrow> 'a list \<Rightarrow> 'a list" where
  "permutexvar idx src = map (\<lambda>i. src ! (i mod 16)) idx"

definition sequential_order :: "nat list" where
  "sequential_order = [0, 2, 4, 6, 8, 10, 12, 14, 1, 3, 5, 7, 9, 11, 13, 15]"

definition pair_step :: "bytes \<Rightarrow> f32 list \<Rightarrow> nat \<Rightarrow> f32 list \<times> f32 list \<Rightarrow> f32 list \<times> f32 list" where
  "pair_step tile lut m acc =
    (let (low_sums, high_sums) = acc;
         packed0 = segment tile (m div 2 * 32) 16;
         packed1 = segment tile (m div 2 * 32 + 16) 16;
         lut0 = segment lut (m * 16) 16;
         lut1 = segment lut ((m + 1) * 16) 16;
         low_sums = map2 f32_add low_sums (permutexvar (map (unat \<circ> low_nibble) packed0) lut0);
         low_sums = map2 f32_add low_sums (permutexvar (map (unat \<circ> low_nibble) packed1) lut1);
         high_sums = map2 f32_add high_sums (permutexvar (map (unat \<circ> high_nibble) packed0) lut0);
         high_sums = map2 f32_add high_sums (permutexvar (map (unat \<circ> high_nibble) packed1) lut1)
     in (low_sums, high_sums))"

definition avx512_block :: "bytes \<Rightarrow> nat \<Rightarrow> f32 list \<Rightarrow> f32 list" where
  "avx512_block tile M lut =
    (let (low_sums, high_sums) =
       fold (pair_step tile lut) (map (\<lambda>k. 2 * k) [0..<(M + 1) div 2]) (replicate 16 0, replicate 16 0)
     in permutexvar sequential_order low_sums @ permutexvar sequential_order high_sums)"

definition accumulate_exact_pq4_lut_avx512_impl :: "nat \<Rightarrow> nat \<Rightarrow> nat \<Rightarrow> bytes \<Rightarrow> f32 list \<Rightarrow> f32 list" where
  "accumulate_exact_pq4_lut_avx512_impl padded M M2 codes lut =
    concat (map (\<lambda>b. avx512_block (drop (b * (M2 div 2 * 32)) codes) M lut) [0..<padded div 32])"

definition accumulate_exact_pq4_lut_avx512 ::
    "bool \<Rightarrow> nat \<Rightarrow> nat \<Rightarrow> nat \<Rightarrow> bytes \<Rightarrow> f32 list \<Rightarrow> f32 list res" where
  "accumulate_exact_pq4_lut_avx512 supported padded bs M codes lut =
    (if \<not> supported
     then Inl (Runtime_error ''AVX-512F exact-float PQ4 kernel is unavailable on this host'')
     else if bs \<noteq> 32 \<or> padded mod 32 \<noteq> 0 \<or> M = 0 \<or> M mod 2 \<noteq> 0
     then Inl (Invalid_argument ''invalid exact-float PQ4 kernel arguments'')
     else Inr (accumulate_exact_pq4_lut_avx512_impl padded M M codes lut))"

section \<open>The vector kernel computes the same sums\<close>

lemma sequential_position: "r < 16 \<Longrightarrow> sequential_order ! r = lane_position r \<and> lane_position r < 16"
  by (auto simp: less_Suc_eq numeral_eq_Suc sequential_order_def lane_position_def)

lemma length_sequential [simp]: "length sequential_order = 16"
  by (simp add: sequential_order_def)

lemma nibble_unat_less: "is_nibble v \<Longrightarrow> unat v < 16"
proof -
  assume "is_nibble v"
  then have "v = take_bit 4 v" by (simp add: is_nibble_def take_bit_eq_mask)
  then have "unat v = unat (take_bit 4 v)" by simp
  also have "\<dots> = unat v mod 16" by (simp only: unsigned_take_bit_eq) (simp add: take_bit_eq_mod)
  finally have "unat v = unat v mod 16" .
  moreover have "unat v mod 16 < 16" by simp
  ultimately show ?thesis by linarith
qed


lemma nth_permutexvar: "p < length idx \<Longrightarrow> permutexvar idx src ! p = src ! (idx ! p mod 16)"
  by (simp add: permutexvar_def)

lemma length_permutexvar [simp]: "length (permutexvar idx src) = length idx"
  by (simp add: permutexvar_def)

lemma nth_map2_two:
  assumes "length a = 16" and "length b = 16" and "length c = 16" and "p < 16"
  shows "map2 f (map2 f a b) c ! p = f (f (a ! p) (b ! p)) (c ! p)"
    and "length (map2 f (map2 f a b) c) = 16"
  using assms by simp_all

lemma lut_lookup:
  assumes "length ns = 16" and "p < 16" and "16 * (m + 1) \<le> length lut" and "is_nibble (f (ns ! p))"
  shows "permutexvar (map (unat \<circ> f) ns) (segment lut (m * 16) 16) ! p = lut ! (m * 16 + unat (f (ns ! p)))"
proof -
  have n: "unat (f (ns ! p)) < 16" using assms(4) by (rule nibble_unat_less)
  then show ?thesis using assms by (simp add: permutexvar_def nth_segment)
qed

definition row_sum :: "bytes \<Rightarrow> f32 list \<Rightarrow> nat \<Rightarrow> nat \<Rightarrow> nat \<Rightarrow> f32" where
  "row_sum tile lut M r n =
    fold (\<lambda>m sum. f32_add sum (lut ! (m * 16 + unat (layout_get tile 32 M r m)))) [0..<n] 0"

lemma row_sum_two:
  "row_sum tile lut M r (2 * k + 2) =
    f32_add (f32_add (row_sum tile lut M r (2 * k))
      (lut ! (2 * k * 16 + unat (layout_get tile 32 M r (2 * k)))))
      (lut ! ((2 * k + 1) * 16 + unat (layout_get tile 32 M r (2 * k + 1))))"
  by (simp add: row_sum_def add.commute)

lemma half_rows:
  assumes "r < 16"
  shows "layout_get tile 32 M r (2 * k) = low_nibble (tile ! (k * 32 + lane_position r))"
    and "layout_get tile 32 M r (2 * k + 1) = low_nibble (tile ! (k * 32 + 16 + lane_position r))"
    and "layout_get tile 32 M (16 + r) (2 * k) = high_nibble (tile ! (k * 32 + lane_position r))"
    and "layout_get tile 32 M (16 + r) (2 * k + 1) = high_nibble (tile ! (k * 32 + 16 + lane_position r))"
  using assms by (simp_all add: layout_get_def code_high_def code_byte_def nibble_def)

lemma low_high_nibble [simp]: "is_nibble (low_nibble b)" "is_nibble (high_nibble b)"
  using nibble_is_nibble [of False b] nibble_is_nibble [of True b] by (simp_all add: nibble_def)

lemma pair_step_nth:
  assumes "length lo = 16" and "length hi = 16" and "p < 16" and "32 * (k + 1) \<le> length tile"
    and "32 * (k + 1) \<le> length lut"
  shows "pair_step tile lut (2 * k) (lo, hi) = (lo', hi') \<Longrightarrow>
    length lo' = 16 \<and> length hi' = 16
    \<and> lo' ! p = f32_add (f32_add (lo ! p) (lut ! (2 * k * 16 + unat (low_nibble (tile ! (k * 32 + p))))))
        (lut ! ((2 * k + 1) * 16 + unat (low_nibble (tile ! (k * 32 + 16 + p)))))
    \<and> hi' ! p = f32_add (f32_add (hi ! p) (lut ! (2 * k * 16 + unat (high_nibble (tile ! (k * 32 + p))))))
        (lut ! ((2 * k + 1) * 16 + unat (high_nibble (tile ! (k * 32 + 16 + p)))))"
proof -
  assume step: "pair_step tile lut (2 * k) (lo, hi) = (lo', hi')"
  let ?s0 = "segment tile (k * 32) 16" and ?s1 = "segment tile (k * 32 + 16) 16"
  have l: "length ?s0 = 16" "length ?s1 = 16" using assms(4) by simp_all
  have n: "?s0 ! p = tile ! (k * 32 + p)" "?s1 ! p = tile ! (k * 32 + 16 + p)"
    using assms(3,4) by (simp_all add: nth_segment)
  have a: "16 * (2 * k + 1) \<le> length lut" "16 * ((2 * k + 1) + 1) \<le> length lut" using assms(5) by simp_all
  have look: "permutexvar (map (unat \<circ> f) ?s0) (segment lut (2 * k * 16) 16) ! p
        = lut ! (2 * k * 16 + unat (f (tile ! (k * 32 + p))))"
    "permutexvar (map (unat \<circ> f) ?s1) (segment lut ((2 * k + 1) * 16) 16) ! p
        = lut ! ((2 * k + 1) * 16 + unat (f (tile ! (k * 32 + 16 + p))))"
    if "\<And>b. is_nibble (f b)" for f
    using lut_lookup [OF l(1) assms(3) a(1), of f] lut_lookup [OF l(2) assms(3) a(2), of f] that n
    by simp_all
  have lp: "length (permutexvar (map g ?s0) src) = 16" "length (permutexvar (map g ?s1) src) = 16" for g src
    using l by (simp_all add: permutexvar_def)
  have lo': "lo' = map2 f32_add (map2 f32_add lo
      (permutexvar (map (unat \<circ> low_nibble) ?s0) (segment lut (2 * k * 16) 16)))
      (permutexvar (map (unat \<circ> low_nibble) ?s1) (segment lut ((2 * k + 1) * 16) 16))"
    and hi': "hi' = map2 f32_add (map2 f32_add hi
      (permutexvar (map (unat \<circ> high_nibble) ?s0) (segment lut (2 * k * 16) 16)))
      (permutexvar (map (unat \<circ> high_nibble) ?s1) (segment lut ((2 * k + 1) * 16) 16))"
    using step by (auto simp: pair_step_def Let_def)
  show ?thesis
    unfolding lo' hi'
    by (simp only: nth_map2_two [OF assms(1) lp assms(3)] nth_map2_two [OF assms(2) lp assms(3)]
        look [of low_nibble, OF low_high_nibble(1)] look [of high_nibble, OF low_high_nibble(2)] simp_thms)
qed

lemma pair_fold:
  assumes "even_subquantizers M" and "16 * M \<le> length tile" and "16 * M \<le> length lut" and "2 * k \<le> M"
  shows "\<exists>lo hi. fold (pair_step tile lut) (map (\<lambda>k. 2 * k) [0..<k]) (replicate 16 0, replicate 16 0) = (lo, hi)
    \<and> length lo = 16 \<and> length hi = 16
    \<and> (\<forall>r < 16. lo ! lane_position r = row_sum tile lut M r (2 * k)
        \<and> hi ! lane_position r = row_sum tile lut M (16 + r) (2 * k))"
  using assms(4)
proof (induction k)
  case 0
  then show ?case using sequential_position by (simp add: row_sum_def)
next
  case (Suc k)
  then obtain lo hi where IH: "fold (pair_step tile lut) (map (\<lambda>k. 2 * k) [0..<k])
      (replicate 16 0, replicate 16 0) = (lo, hi)" "length lo = 16" "length hi = 16"
      "\<forall>r < 16. lo ! lane_position r = row_sum tile lut M r (2 * k)
        \<and> hi ! lane_position r = row_sum tile lut M (16 + r) (2 * k)"
    by (meson Suc_leD less_imp_le_nat mult_le_mono2 order_trans lessI)
  obtain lo' hi' where step: "pair_step tile lut (2 * k) (lo, hi) = (lo', hi')" by fastforce
  have "32 * (k + 1) \<le> 16 * M" using Suc.prems by simp
  with assms(2,3) have k: "32 * (k + 1) \<le> length tile" "32 * (k + 1) \<le> length lut"
    by (blast intro: order_trans)+
  have len: "length lo' = 16" "length hi' = 16"
    using pair_step_nth [OF IH(2,3) _ k step, of 0] by simp_all
  have "lo' ! lane_position r = row_sum tile lut M r (2 * k + 2)
      \<and> hi' ! lane_position r = row_sum tile lut M (16 + r) (2 * k + 2)" if r: "r < 16" for r
  proof -
    have p: "lane_position r < 16" using sequential_position [OF r] by simp
    show ?thesis
      using pair_step_nth [OF IH(2,3) p k step] IH(4) r unfolding row_sum_two half_rows [OF r] by simp
  qed
  then show ?case using IH(1) step len by simp
qed

lemma avx512_block_rows:
  assumes "even_subquantizers M" and "16 * M \<le> length tile" and "16 * M \<le> length lut"
  shows "length (avx512_block tile M lut) = 32"
    and "r < 32 \<Longrightarrow> avx512_block tile M lut ! r = row_sum tile lut M r M"
proof -
  have M: "(M + 1) div 2 = M div 2" "2 * (M div 2) = M"
    using assms(1) by (auto simp: even_subquantizers_def)
  obtain lo hi where f: "fold (pair_step tile lut) (map (\<lambda>k. 2 * k) [0..<M div 2])
      (replicate 16 0, replicate 16 0) = (lo, hi)" "length lo = 16" "length hi = 16"
      "\<forall>r < 16. lo ! lane_position r = row_sum tile lut M r M
        \<and> hi ! lane_position r = row_sum tile lut M (16 + r) M"
    using pair_fold [OF assms, of "M div 2"] by (auto simp: M(2))
  have b: "avx512_block tile M lut = permutexvar sequential_order lo @ permutexvar sequential_order hi"
    unfolding avx512_block_def M(1) f(1) by simp
  show "length (avx512_block tile M lut) = 32" by (simp add: b permutexvar_def)
  have nth: "permutexvar sequential_order xs ! r = xs ! lane_position r" if "r < 16" for r and xs :: "f32 list"
    using sequential_position [OF that] that by (simp add: nth_permutexvar)
  show "avx512_block tile M lut ! r = row_sum tile lut M r M" if "r < 32"
  proof (cases "r < 16")
    case True
    then show ?thesis using f(4) by (simp add: b nth_append nth)
  next
    case False
    then have "r - 16 < 16" using that by simp
    then show ?thesis using f(4) False by (simp add: b nth_append nth)
  qed
qed


lemma concat_uniform:
  assumes "\<And>b. b < n \<Longrightarrow> length (f b) = k"
  shows "length (concat (map f [0..<n])) = k * n
    \<and> (\<forall>b r. b < n \<longrightarrow> r < k \<longrightarrow> concat (map f [0..<n]) ! (b * k + r) = f b ! r)"
  using assms
proof (induction n)
  case 0
  then show ?case by simp
next
  case (Suc n)
  let ?c = "concat (map f [0..<n])"
  have IH: "length ?c = k * n" "\<And>b r. b < n \<Longrightarrow> r < k \<Longrightarrow> ?c ! (b * k + r) = f b ! r"
    using Suc by simp_all
  have "(?c @ f n) ! (b * k + r) = f b ! r" if "b < Suc n" "r < k" for b r
  proof (cases "b < n")
    case True
    then have "b * k + r < Suc b * k" using that(2) by simp
    also have "\<dots> \<le> n * k" using True by (intro mult_le_mono1) simp
    finally have "b * k + r < k * n" by (simp only: mult.commute [of k])
    then show ?thesis using IH True that by (simp add: nth_append)
  next
    case False
    then show ?thesis using that IH(1) by (simp add: nth_append less_Suc_eq mult.commute)
  qed
  then show ?case using IH(1) Suc.prems by simp
qed

lemma fold_update_nth:
  assumes "n \<le> length out"
  shows "length (fold (\<lambda>i out. out[i := g i]) [0..<n] out) = length out
    \<and> (\<forall>i < length out. fold (\<lambda>i out. out[i := g i]) [0..<n] out ! i = (if i < n then g i else out ! i))"
  using assms by (induction n) (auto simp: nth_list_update less_Suc_eq)

lemma layout_get_drop:
  assumes "b * (16 * M) \<le> length codes" and "r < 32"
  shows "layout_get (drop (b * (16 * M)) codes) bbs M r m = layout_get codes bbs M (b * 32 + r) m"
proof -
  have "(b * 32 + r) mod 16 = r mod 16"
    by (metis dvd_def mod_add_left_eq mod_mult_self1_is_0 add_0 mult.assoc mult.commute
        mod_mult_self3 num_double numeral_times_numeral)
  moreover have "(b * 32 + r) mod 32 = r mod 32" "(b * 32 + r) div 32 = b + r div 32" by simp_all
  ultimately have "code_byte M (b * 32 + r) m = b * (16 * M) + code_byte M r m"
      "code_high (b * 32 + r) = code_high r"
    using assms(2) by (simp_all only: code_byte_def code_high_def) simp_all
  then show ?thesis using assms(1) by (simp add: layout_get_def)
qed

lemma avx512_rows:
  assumes "even_subquantizers M" and "length codes = 16 * M * blocks" and "16 * M \<le> length lut"
  defines "out \<equiv> accumulate_exact_pq4_lut_avx512_impl (32 * blocks) M M codes lut"
  shows "length out = 32 * blocks"
    and "i < 32 * blocks \<Longrightarrow> out ! i = dot_of_row (layout_get codes 32 M i) lut M"
proof -
  have M: "M div 2 * 32 = 16 * M" using assms(1) by (auto simp: even_subquantizers_def elim!: evenE)
  let ?f = "\<lambda>b. avx512_block (drop (b * (16 * M)) codes) M lut"
  have fit: "b * (16 * M) + 16 * M \<le> length codes" if "b < blocks" for b
  proof -
    have "Suc b * (16 * M) \<le> blocks * (16 * M)" using that by (intro mult_le_mono1) simp
    then show ?thesis using assms(2) by (simp add: mult.commute add.commute)
  qed
  have rows: "length (?f b) = 32" "\<And>r. r < 32 \<Longrightarrow> ?f b ! r = row_sum (drop (b * (16 * M)) codes) lut M r M"
    if "b < blocks" for b
    using avx512_block_rows [OF assms(1) _ assms(3), of "drop (b * (16 * M)) codes"] fit [OF that]
    by simp_all
  have out: "out = concat (map ?f [0..<blocks])"
    by (simp add: out_def accumulate_exact_pq4_lut_avx512_impl_def M)
  note c = concat_uniform [of blocks ?f 32, OF rows(1)]
  show "length out = 32 * blocks" using c by (simp add: out)
  show "out ! i = dot_of_row (layout_get codes 32 M i) lut M" if "i < 32 * blocks"
  proof -
    define b r where "b = i div 32" and "r = i mod 32"
    have i: "i = b * 32 + r" "b < blocks" "r < 32"
      using that by (simp_all add: b_def r_def less_mult_imp_div_less mult.commute)
    have "out ! i = row_sum (drop (b * (16 * M)) codes) lut M r M"
      using c rows(2) [OF i(2,3)] i by (simp add: out)
    also have "\<dots> = dot_of_row (layout_get codes 32 M i) lut M"
      using layout_get_drop [of b M codes r] fit [OF i(2)] i by (simp add: row_sum_def dot_of_row_def)
    finally show ?thesis .
  qed
qed

text \<open>
  C36. The AVX-512 LUT kernel is bitwise equal to the portable one. For an even positive number of
  subquantizers, \<open>blocks\<close> packed tiles and a full lookup table, and a Faiss accessor that reads the
  documented bbs=32 layout, both kernels succeed and produce the same float in every logical row:
  the nibble unpacking, the table permutations, the order of the float additions and the final
  reordering agree with the row-wise sum.
\<close>

theorem lut_kernels_agree:
  assumes "even_subquantizers M" and "length codes = 16 * M * blocks" and "length lut = 16 * M"
    and "cnt \<le> 32 * blocks"
    and "\<forall>row < 32 * blocks. \<forall>m < M.
      get_packed_element F codes 32 M row m = layout_get codes 32 M row m"
  shows "\<exists>a v. accumulate_exact_pq4_lut_scalar F cnt (32 * blocks) 32 M codes lut = Inr a
    \<and> accumulate_exact_pq4_lut_avx512 True (32 * blocks) 32 M codes lut = Inr v
    \<and> length a = 32 * blocks \<and> length v = 32 * blocks \<and> take cnt a = take cnt v"
proof -
  have M: "M \<noteq> 0" "M mod 2 = 0" using assms(1) by (auto simp: even_subquantizers_def)
  let ?v = "accumulate_exact_pq4_lut_avx512_impl (32 * blocks) M M codes lut"
  let ?a = "fold (\<lambda>i out. out[i := dot_of_row (get_packed_element F codes 32 M i) lut M]) [0..<cnt]
    (replicate (32 * blocks) 0)"
  have dot: "dot_of_row (get_packed_element F codes 32 M i) lut M = dot_of_row (layout_get codes 32 M i) lut M"
    if "i < 32 * blocks" for i
    unfolding dot_of_row_def using assms(5) that by (intro fold_cong) auto
  have v: "length ?v = 32 * blocks" "\<And>i. i < 32 * blocks \<Longrightarrow> ?v ! i = dot_of_row (layout_get codes 32 M i) lut M"
    using avx512_rows [OF assms(1,2), of lut] assms(3) by simp_all
  have a: "length ?a = 32 * blocks" "\<And>i. i < cnt \<Longrightarrow>
      ?a ! i = dot_of_row (get_packed_element F codes 32 M i) lut M"
    using fold_update_nth [of cnt "replicate (32 * blocks) 0"
        "\<lambda>i. dot_of_row (get_packed_element F codes 32 M i) lut M"] assms(4)
    by simp_all
  have "take cnt ?a = take cnt ?v"
    using a v dot assms(4) by (auto simp: list_eq_iff_nth_eq)
  then show ?thesis
    using a(1) v(1) M assms(4)
    by (simp add: accumulate_exact_pq4_lut_scalar_def accumulate_exact_pq4_lut_avx512_def)
qed

theorem lut_kernels_agree_witness:
  "\<exists>a v. accumulate_exact_pq4_lut_scalar kernel_layout 3 (32 * 1) 32 2 (replicate 32 0x21)
      (replicate 32 0x3F800000) = Inr a
    \<and> accumulate_exact_pq4_lut_avx512 True (32 * 1) 32 2 (replicate 32 0x21) (replicate 32 0x3F800000)
      = Inr v
    \<and> length a = 32 * 1 \<and> length v = 32 * 1 \<and> take 3 a = take 3 v"
  by (rule lut_kernels_agree) (simp_all add: even_subquantizers_def kernel_layout_def)

section \<open>The packing wrappers over the Faiss contract\<close>

lemma packed_code_block_bytes_ok:
  "even_subquantizers M \<Longrightarrow> 16 * M \<le> size_max \<Longrightarrow> packed_code_block_bytes M = Inr (16 * M)"
proof -
  assume "even_subquantizers M" and "16 * M \<le> size_max"
  then have "M mod 2 = 0" "0 < M" "block_lanes * (M div 2) = 16 * M"
    by (auto simp: even_subquantizers_def block_lanes_def)
  moreover then have "checked_multiply block_lanes (M div 2) msg = Inr (16 * M)" for msg
    using \<open>16 * M \<le> size_max\<close> checked_multiply_ok [of block_lanes "M div 2" msg] by simp
  ultimately show ?thesis by (simp add: packed_code_block_bytes_def flat_code_size_def)
qed

lemma res_fold_guard:
  "res_fold (\<lambda>x _. if Q x then Inl e else Inr ()) xs () =
    (if \<forall>x \<in> set xs. \<not> Q x then Inr () else Inl e)"
  by (induction xs) auto

lemma validate_codes_iff:
  assumes "even_subquantizers M" and "from < until" and "until \<le> 32 * blocks"
    and "length codes = 16 * M * blocks" and "16 * M * blocks \<le> size_max" and "32 * blocks \<le> size_max - 31"
  shows "validate_empty_packed_code_range_bbs32 F M from until codes =
    (if \<forall>row m. from \<le> row \<and> row < until \<and> m < M \<longrightarrow> get_packed_element F codes 32 M row m = 0
     then Inr () else Inl (Logic_error ''pq4_pack_codes_range destination lane is not zero''))"
proof -
  let ?e = "Logic_error ''pq4_pack_codes_range destination lane is not zero''"
  have M: "M mod 2 = 0" "0 < M" using assms(1) by (auto simp: even_subquantizers_def)
  have loop: "res_fold (\<lambda>row. res_fold (\<lambda>m _. if Q row m then Inl e else Inr ()) ms) rs () =
      (if \<forall>row \<in> set rs. \<forall>m \<in> set ms. \<not> Q row m then Inr () else Inl e)" for Q ms rs and e :: exc
    by (induction rs) (auto simp: res_fold_guard)
  have up: "round_up_block until \<le> 32 * blocks"
  proof -
    have "(until + 31) div 32 \<le> (32 * blocks + 31) div 32" using assms(3) by (intro div_le_mono) simp
    then show ?thesis by (simp add: round_up_block_def block_lanes_def)
  qed
  have "2 * (round_up_block until * (M div 2)) \<le> 32 * blocks * M"
    using up M(1) by (metis even_two_times_div_two mod_0_imp_dvd mult.left_commute mult_le_mono1)
  then have req: "round_up_block until * (M div 2) \<le> 16 * M * blocks" by (simp add: mult_ac)
  then have "checked_multiply (round_up_block until) (M div 2) msg = Inr (round_up_block until * (M div 2))"
    for msg
    using assms(5) by (intro checked_multiply_ok) linarith
  moreover have "until \<le> size_max - 31" using assms(3,6) by linarith
  ultimately show ?thesis
    using M assms(2,4) req
    by (auto simp: validate_empty_packed_code_range_bbs32_def flat_code_size_def block_lanes_def loop)
qed

lemma append_flat_codes_ok:
  assumes F: "faiss_pq4 F" and M: "even_subquantizers M" and "from \<le> until" and "until \<le> 32 * blocks"
    and "length codes = 16 * M * blocks" and "16 * M * blocks \<le> size_max" and "32 * blocks \<le> size_max - 31"
    and "length flat = (until - from) * (M div 2)"
    and zero: "\<forall>row m. from \<le> row \<and> row < until \<and> m < M \<longrightarrow> get_packed_element F codes 32 M row m = 0"
  obtains out where "append_flat_codes_bbs32 F (Inr False) flat M from until codes = Inr out"
    and "length out = length codes"
    and "\<And>row m. row < 32 * blocks \<Longrightarrow> m < M \<Longrightarrow> get_packed_element F out 32 M row m =
      (if from \<le> row \<and> row < until then flat_code flat (M div 2) (row - from) m
       else get_packed_element F codes 32 M row m)"
proof -
  have M': "M mod 2 = 0" "0 < M" using M by (auto simp: even_subquantizers_def)
  have "(until - from) * (M div 2) \<le> 32 * blocks * (M div 2)"
    using assms(4) by (intro mult_le_mono1) simp
  moreover have "32 * blocks * (M div 2) = 16 * M * blocks" using M'(1) by auto
  ultimately have mul: "checked_multiply (until - from) (M div 2) msg = Inr ((until - from) * (M div 2))"
    for msg
    using assms(6) by (intro checked_multiply_ok) linarith
  show thesis
  proof (cases "from = until")
    case True
    show thesis
    proof (rule that [of codes])
      show "append_flat_codes_bbs32 F (Inr False) flat M from until codes = Inr codes"
        using True M' assms(8) mul by (simp add: append_flat_codes_bbs32_def flat_code_size_def)
    qed (use True in auto)
  next
    case False
    let ?out = "pack_codes_range F flat M from until block_lanes M codes"
    have v: "validate_empty_packed_code_range_bbs32 F M from until codes = Inr ()"
      using validate_codes_iff [OF M _ assms(4-7), of "from" F] zero False assms(3) by simp
    show thesis
    proof (rule that [of ?out])
      show "append_flat_codes_bbs32 F (Inr False) flat M from until codes = Inr ?out"
        using False M' assms(3,8) mul v by (simp add: append_flat_codes_bbs32_def flat_code_size_def)
      show "length ?out = length codes"
        using faiss_pq4.pack_length [OF F] by (simp add: block_lanes_def)
      show "get_packed_element F ?out 32 M row m =
          (if from \<le> row \<and> row < until then flat_code flat (M div 2) (row - from) m
           else get_packed_element F codes 32 M row m)" if "row < 32 * blocks" "m < M" for row m
        using faiss_pq4.pack_get [OF F M assms(3,4,5,8) zero that] by (simp add: block_lanes_def)
    qed
  qed
qed

text \<open>
  Appending flat PQ4 codes. For every Faiss implementation of the packing contract: into a range
  of empty lanes the append succeeds, the rows of the range decode to the flat codes and every other
  row of the list decodes as before; if any destination lane is not zero (the case in which Faiss
  would silently OR two codes) the wrapper throws its logic error.
\<close>

theorem append_flat_codes_correct:
  assumes "faiss_pq4 F" and "even_subquantizers M" and "from < until" and "until \<le> 32 * blocks"
    and "length codes = 16 * M * blocks" and "16 * M * blocks \<le> size_max" and "32 * blocks \<le> size_max - 31"
    and "length flat = (until - from) * (M div 2)"
  shows "if \<forall>row m. from \<le> row \<and> row < until \<and> m < M \<longrightarrow> get_packed_element F codes 32 M row m = 0
    then \<exists>out. append_flat_codes_bbs32 F (Inr False) flat M from until codes = Inr out
      \<and> length out = length codes
      \<and> (\<forall>row < 32 * blocks. \<forall>m < M. get_packed_element F out 32 M row m =
          (if from \<le> row \<and> row < until then flat_code flat (M div 2) (row - from) m
           else get_packed_element F codes 32 M row m))
    else append_flat_codes_bbs32 F (Inr False) flat M from until codes
      = Inl (Logic_error ''pq4_pack_codes_range destination lane is not zero'')"
proof (cases "\<forall>row m. from \<le> row \<and> row < until \<and> m < M \<longrightarrow> get_packed_element F codes 32 M row m = 0")
  case True
  have "from \<le> until" using assms(3) by simp
  from append_flat_codes_ok [OF assms(1,2) this assms(4-8) True] show ?thesis
    unfolding if_P [OF True] by metis
next
  case False
  have M': "M mod 2 = 0" "0 < M" using assms(2) by (auto simp: even_subquantizers_def)
  have "(until - from) * (M div 2) \<le> 32 * blocks * (M div 2)"
    using assms(4) by (intro mult_le_mono1) simp
  moreover have "32 * blocks * (M div 2) = 16 * M * blocks" using M'(1) by auto
  ultimately have "checked_multiply (until - from) (M div 2) msg = Inr ((until - from) * (M div 2))"
    for msg
    using assms(6) by (intro checked_multiply_ok) linarith
  moreover have "validate_empty_packed_code_range_bbs32 F M from until codes =
      Inl (Logic_error ''pq4_pack_codes_range destination lane is not zero'')"
    using validate_codes_iff [OF assms(2-7), of F] unfolding if_not_P [OF False] .
  ultimately show ?thesis
    unfolding if_not_P [OF False] using assms(3,8) M'
    by (simp add: append_flat_codes_bbs32_def flat_code_size_def)
qed

theorem append_flat_codes_correct_witness:
  "\<exists>out. append_flat_codes_bbs32 kernel_layout (Inr False) [0x21] 2 5 6 (replicate 32 0) = Inr out
    \<and> length out = length (replicate 32 (0 :: u8))
    \<and> (\<forall>row < 32 * 1. \<forall>m < 2. get_packed_element kernel_layout out 32 2 row m =
        (if 5 \<le> row \<and> row < 6 then flat_code [0x21] (2 div 2) (row - 5) m
         else get_packed_element kernel_layout (replicate 32 0) 32 2 row m))"
proof -
  have "\<forall>row m. 5 \<le> row \<and> row < 6 \<and> m < 2 \<longrightarrow>
      get_packed_element kernel_layout (replicate 32 0) 32 2 row m = 0"
    using kernel.get_zero [of 2 _ _ 1] by (simp add: even_subquantizers_def)
  then show ?thesis
    using append_flat_codes_correct [OF kernel.faiss_pq4_axioms, of 2 5 6 1 "replicate 32 0" "[0x21]"]
    by (simp add: even_subquantizers_def size_max_def)
qed

text \<open>
  Repacking a PQ4 tile. For every Faiss implementation of the contract, unpacking the tile that
  \<open>rewrite_flat_block_bbs32\<close> writes gives exactly the 32 flat codes back, whatever the tile held
  before.
\<close>

theorem code_block_roundtrip:
  assumes "faiss_pq4 F" and "even_subquantizers M" and "16 * M \<le> size_max"
    and "length flat = 16 * M" and "length tile = 16 * M"
  shows "\<exists>tile'. rewrite_flat_block_bbs32 F (Inr False) flat M tile = Inr tile'
    \<and> length tile' = 16 * M
    \<and> unpack_flat_block_bbs32 F (Inr False) tile' M (16 * M) = Inr flat"
  using assms faiss_pq4.unpack_pack_all [OF assms(1,2,4,5)] faiss_pq4.pack_all_length [OF assms(1,2,4,5)]
  by (simp add: rewrite_flat_block_bbs32_def unpack_flat_block_bbs32_def packed_code_block_bytes_ok
      block_lanes_def)

theorem code_block_roundtrip_witness:
  "\<exists>tile'. rewrite_flat_block_bbs32 kernel_layout (Inr False) (replicate 32 0x5A) 2 (replicate 32 0xFF)
      = Inr tile'
    \<and> length tile' = 16 * 2
    \<and> unpack_flat_block_bbs32 kernel_layout (Inr False) tile' 2 (16 * 2) = Inr (replicate 32 0x5A)"
  by (rule code_block_roundtrip [OF kernel.faiss_pq4_axioms])
    (simp_all add: even_subquantizers_def size_max_def)

end
