(* ===== verification/External_Io.thy ===== *)
theory External_Io
  imports Recast_Prelude
begin

text \<open>
  The operating-system side of the adapters (src/adapters/external\_io\_util.h). A disk is the map
  from paths to file contents, the directories that exist, and two scripts with the outcomes of the
  next system calls: one for \<open>pread\<close>/\<open>pwrite\<close>, which may be interrupted, short or failing, and one for
  all others. An empty script means success. An operation returns its result or exception together
  with the disk, so that what a failed operation left behind is part of the model.

  A file descriptor is its path (the adapters close every descriptor on every path, and nothing
  renames a file while it is open). \<open>O_DIRECT\<close> only constrains alignment and is not modelled.
\<close>

unbundle bit_operations_syntax

section \<open>Disks and the I/O monad\<close>

datatype transfer = Xfer nat | Eintr | Xfail string

record disk =
  files :: "string \<Rightarrow> bytes option"
  dirs :: "string set"
  transfers :: "transfer list"
  faults :: "string option list"

type_synonym 'a io = "disk \<Rightarrow> 'a res \<times> disk"

definition io_return :: "'a \<Rightarrow> 'a io" where
  "io_return x d = (Inr x, d)"

definition io_throw :: "exc \<Rightarrow> 'a io" where
  "io_throw e d = (Inl e, d)"

definition io_bind :: "'a io \<Rightarrow> ('a \<Rightarrow> 'b io) \<Rightarrow> 'b io" where
  "io_bind m f d = (case m d of (Inl e, d') \<Rightarrow> (Inl e, d') | (Inr x, d') \<Rightarrow> f x d')"

definition io_lift :: "'a res \<Rightarrow> 'a io" where
  "io_lift r d = (r, d)"

fun io_fold :: "('a \<Rightarrow> 's \<Rightarrow> 's io) \<Rightarrow> 'a list \<Rightarrow> 's \<Rightarrow> 's io" where
  "io_fold f [] s = io_return s"
| "io_fold f (x # xs) s = io_bind (f x s) (io_fold f xs)"

lemma io_simps [simp]:
  "io_return x d = (Inr x, d)" "io_throw e d = (Inl e, d)" "io_lift r d = (r, d)"
  by (simp_all add: io_return_def io_throw_def io_lift_def)

lemma io_bind_Inr [simp]: "m d = (Inr x, d') \<Longrightarrow> io_bind m f d = f x d'"
  by (simp add: io_bind_def)

lemma io_bind_Inl [simp]: "m d = (Inl e, d') \<Longrightarrow> io_bind m f d = (Inl e, d')"
  by (simp add: io_bind_def)

lemma io_bind_lift [simp]:
  "io_bind (io_lift (Inr x)) f = f x" "io_bind (io_return x) f = f x"
  by (auto simp: io_bind_def)

lemma io_bind_cases:
  assumes "io_bind m f d = (r, d2)"
  obtains e where "m d = (Inl e, d2)" and "r = Inl e"
  | x d1 where "m d = (Inr x, d1)" and "f x d1 = (r, d2)"
  using assms by (auto simp: io_bind_def split: prod.splits sum.splits)

section \<open>Size guards and little-endian words\<close>

text \<open>\<open>sizeof(void*)\<close> on the 64-bit hosts the adapters build for.\<close>

definition pointer_size :: nat where
  "pointer_size = 8"

definition is_power_of_two :: "u64 \<Rightarrow> bool" where
  "is_power_of_two v \<longleftrightarrow> v \<noteq> 0 \<and> v AND (v - 1) = 0"

definition aligned_buffer :: "nat \<Rightarrow> nat \<Rightarrow> unit res" where
  "aligned_buffer alignment n =
    (if \<not> is_power_of_two (of_nat alignment) \<or> alignment < pointer_size \<or> n = 0
     then Inl (Invalid_argument ''invalid aligned I/O buffer size'') else Inr ())"

text \<open>\<open>linux_aio\<close> says whether the build has \<open>O_DIRECT\<close>.\<close>

definition direct_flag :: "bool \<Rightarrow> bool \<Rightarrow> unit res" where
  "direct_flag linux_aio enabled =
    (if enabled \<and> \<not> linux_aio
     then Inl (Invalid_argument ''O_DIRECT external-list storage is available only in Linux builds'')
     else Inr ())"

definition off_max :: nat where
  "off_max = 2 ^ 63 - 1"

definition le32 :: "u32 \<Rightarrow> bytes" where
  "le32 w = [ucast w, ucast (drop_bit 8 w), ucast (drop_bit 16 w), ucast (drop_bit 24 w)]"

definition of_le32 :: "bytes \<Rightarrow> u32" where
  "of_le32 bs = ucast (bs ! 0) OR push_bit 8 (ucast (bs ! 1)) OR push_bit 16 (ucast (bs ! 2))
    OR push_bit 24 (ucast (bs ! 3))"

lemma length_le32 [simp]: "length (le32 w) = 4"
  by (simp add: le32_def)

lemma of_le32_le32 [simp]: "of_le32 (le32 w) = w"
proof (rule bit_word_eqI)
  fix n assume "n < LENGTH(32)"
  then consider "n < 8" | "8 \<le> n" "n < 16" | "16 \<le> n" "n < 24" | "24 \<le> n" "n < 32" by fastforce
  then show "bit (of_le32 (le32 w)) n = bit w n"
    by cases (auto simp: of_le32_def le32_def bit_simps dest: bit_imp_le_length)
qed

lemma le32_of_le32: "length bs = 4 \<Longrightarrow> le32 (of_le32 bs) = bs"
proof -
  assume "length bs = 4"
  then obtain a b c e where bs: "bs = [a, b, c, e]"
    by (auto simp: numeral_eq_Suc length_Suc_conv)
  have "ucast (of_le32 bs) = a" "ucast (drop_bit 8 (of_le32 bs)) = b"
    "ucast (drop_bit 16 (of_le32 bs)) = c" "ucast (drop_bit 24 (of_le32 bs)) = e"
    by (rule bit_word_eqI, auto simp: bs of_le32_def bit_simps dest: bit_imp_le_length)+
  then show ?thesis by (simp add: le32_def bs)
qed

section \<open>System calls\<close>

definition system_error :: "string \<Rightarrow> string \<Rightarrow> exc" where
  "system_error operation err = Runtime_error (operation @ '' failed: '' @ err)"

text \<open>A call other than a transfer: it fails when the next fault says so.\<close>

definition sys_call :: "string \<Rightarrow> unit io" where
  "sys_call operation d =
    (case faults d of
       [] \<Rightarrow> (Inr (), d)
     | None # fs \<Rightarrow> (Inr (), d\<lparr>faults := fs\<rparr>)
     | Some err # fs \<Rightarrow> (Inl (system_error operation err), d\<lparr>faults := fs\<rparr>))"

definition next_transfer :: "disk \<Rightarrow> transfer option \<times> disk" where
  "next_transfer d = (case transfers d of [] \<Rightarrow> (None, d)
    | t # ts \<Rightarrow> (Some t, d\<lparr>transfers := ts\<rparr>))"

definition file_write :: "bytes \<Rightarrow> nat \<Rightarrow> bytes \<Rightarrow> bytes" where
  "file_write f off ys =
    (if ys = [] then f else patch (f @ replicate (off - length f) 0) off ys)"

definition file_truncate :: "bytes \<Rightarrow> nat \<Rightarrow> bytes" where
  "file_truncate f n = take n f @ replicate (n - length f) 0"

definition content :: "disk \<Rightarrow> string \<Rightarrow> bytes" where
  "content d p = (case files d p of None \<Rightarrow> [] | Some f \<Rightarrow> f)"

definition set_content :: "string \<Rightarrow> bytes \<Rightarrow> disk \<Rightarrow> disk" where
  "set_content p f d = d\<lparr>files := (files d)(p \<mapsto> f)\<rparr>"

definition sys_open :: "bool \<Rightarrow> bool \<Rightarrow> string \<Rightarrow> unit io" where
  "sys_open create trunc p =
    io_bind (sys_call (''open('' @ p @ '')'')) (\<lambda>_ d.
      case files d p of
        None \<Rightarrow> if create then (Inr (), set_content p [] d)
                else (Inl (system_error (''open('' @ p @ '')'') ''No such file or directory''), d)
      | Some f \<Rightarrow> (Inr (), if trunc then set_content p [] d else d))"

definition sys_fstat :: "string \<Rightarrow> nat io" where
  "sys_fstat p = io_bind (sys_call (''fstat('' @ p @ '')'')) (\<lambda>_ d. (Inr (length (content d p)), d))"

definition sys_ftruncate :: "string \<Rightarrow> string \<Rightarrow> nat \<Rightarrow> unit io" where
  "sys_ftruncate operation p n =
    io_bind (sys_call operation) (\<lambda>_ d. (Inr (), set_content p (file_truncate (content d p) n) d))"

definition sync_file :: "bool \<Rightarrow> unit io" where
  "sync_file enabled = (if enabled then sys_call ''fdatasync'' else io_return ())"

definition create_directories :: "string \<Rightarrow> unit io" where
  "create_directories p =
    io_bind (sys_call ''create_directories'') (\<lambda>_ d. (Inr (), d\<lparr>dirs := insert p (dirs d)\<rparr>))"

text \<open>
  One \<open>pread\<close> of \<open>n\<close> bytes: at the end of the file it returns nothing, otherwise at least one byte
  unless it is interrupted or fails. One \<open>pwrite\<close> stores a prefix of its buffer, which may be empty.
\<close>

datatype 'a sysret = Ret 'a | Ret_eintr | Ret_err string

definition sys_pread :: "string \<Rightarrow> nat \<Rightarrow> nat \<Rightarrow> disk \<Rightarrow> bytes sysret \<times> disk" where
  "sys_pread p off n d =
    (let (t, d') = next_transfer d; avail = segment (content d p) off n
     in case t of
          None \<Rightarrow> (Ret avail, d')
        | Some (Xfer k) \<Rightarrow> (Ret (take (max 1 k) avail), d')
        | Some Eintr \<Rightarrow> (Ret_eintr, d')
        | Some (Xfail e) \<Rightarrow> (Ret_err e, d'))"

definition sys_pwrite :: "string \<Rightarrow> nat \<Rightarrow> bytes \<Rightarrow> disk \<Rightarrow> nat sysret \<times> disk" where
  "sys_pwrite p off ys d =
    (let (t, d') = next_transfer d;
         store = (\<lambda>k. (Ret (min k (length ys)),
           set_content p (file_write (content d p) off (take k ys)) d'))
     in case t of
          None \<Rightarrow> store (length ys)
        | Some (Xfer k) \<Rightarrow> store k
        | Some Eintr \<Rightarrow> (Ret_eintr, d')
        | Some (Xfail e) \<Rightarrow> (Ret_err e, d'))"

section \<open>The exact transfer loops\<close>

text \<open>\<open>got\<close> holds the bytes completed so far.\<close>

function pread_loop :: "string \<Rightarrow> nat \<Rightarrow> nat \<Rightarrow> bytes \<Rightarrow> bytes io" where
  "pread_loop p off n got d =
    (if n \<le> length got then (Inr got, d)
     else case sys_pread p (off + length got) (n - length got) d of
       (Ret_eintr, d') \<Rightarrow> pread_loop p off n got d'
     | (Ret_err e, d') \<Rightarrow> (Inl (system_error ''pread'' e), d')
     | (Ret ys, d') \<Rightarrow>
         if ys = [] then (Inl (Runtime_error ''unexpected end of external file''), d')
         else pread_loop p off n (got @ ys) d')"
  by pat_completeness auto

lemma next_transfer_smaller:
  "next_transfer d = (Some t, d') \<Longrightarrow> length (transfers d') < length (transfers d)"
  "next_transfer d = (None, d') \<Longrightarrow> d' = d"
  by (auto simp: next_transfer_def split: list.splits)

lemma sys_pread_measure:
  "sys_pread p off n d = (Ret_eintr, d') \<Longrightarrow> length (transfers d') < length (transfers d)"
  "sys_pread p off n d = (Ret ys, d') \<Longrightarrow> length (transfers d') \<le> length (transfers d)"
  using next_transfer_smaller [of d]
  by (auto simp: sys_pread_def Let_def split: prod.splits option.splits transfer.splits)

termination pread_loop
  by (relation "measures [\<lambda>(p, off, n, got, d). length (transfers d) + (n - length got)]")
    (auto dest!: sys_pread_measure(1)[OF sym] sys_pread_measure(2)[OF sym]
      simp flip: length_greater_0_conv)

declare pread_loop.simps [simp del]

definition pread_exact :: "string \<Rightarrow> nat \<Rightarrow> nat \<Rightarrow> bytes io" where
  "pread_exact p n off = pread_loop p off n []"

text \<open>\<open>completed\<close> bytes of the buffer are already written.\<close>

function pwrite_loop :: "string \<Rightarrow> nat \<Rightarrow> bytes \<Rightarrow> nat \<Rightarrow> unit io" where
  "pwrite_loop p off buf completed d =
    (if length buf \<le> completed then (Inr (), d)
     else case sys_pwrite p (off + completed) (drop completed buf) d of
       (Ret_eintr, d') \<Rightarrow> pwrite_loop p off buf completed d'
     | (Ret_err e, d') \<Rightarrow> (Inl (system_error ''pwrite'' e), d')
     | (Ret k, d') \<Rightarrow>
         if k = 0 then (Inl (Runtime_error ''pwrite made no progress''), d')
         else pwrite_loop p off buf (completed + k) d')"
  by pat_completeness auto

lemma sys_pwrite_measure:
  "sys_pwrite p off ys d = (Ret_eintr, d') \<Longrightarrow> length (transfers d') < length (transfers d)"
  "sys_pwrite p off ys d = (Ret k, d') \<Longrightarrow> length (transfers d') \<le> length (transfers d)"
  using next_transfer_smaller [of d]
  by (auto simp: sys_pwrite_def Let_def set_content_def split: prod.splits option.splits transfer.splits)

termination pwrite_loop
  by (relation "measures [\<lambda>(p, off, buf, completed, d). length (transfers d) + (length buf - completed)]")
    (auto dest!: sys_pwrite_measure(1)[OF sym] sys_pwrite_measure(2)[OF sym])

declare pwrite_loop.simps [simp del]

definition pwrite_exact :: "string \<Rightarrow> bytes \<Rightarrow> nat \<Rightarrow> unit io" where
  "pwrite_exact p buf off = pwrite_loop p off buf 0"


section \<open>What the loops do\<close>

text \<open>A disk that never fails: transfers are interrupted or short, but every one makes progress.\<close>

definition benign :: "disk \<Rightarrow> bool" where
  "benign d \<longleftrightarrow> (\<forall>t \<in> set (transfers d). t = Eintr \<or> (\<exists>k > 0. t = Xfer k)) \<and> set (faults d) \<subseteq> {None}"

lemma benign_set_content [simp]: "benign (set_content p f d) = benign d"
  by (simp add: benign_def set_content_def)

lemma files_set_content [simp]:
  "files (set_content p f d) = (files d)(p \<mapsto> f)" "content (set_content p f d) p = f"
  "p \<noteq> q \<Longrightarrow> content (set_content p f d) q = content d q" "dirs (set_content p f d) = dirs d"
  by (simp_all add: set_content_def content_def)

lemma next_transfer_cases:
  assumes "next_transfer d = (t, d')"
  shows "files d' = files d" and "dirs d' = dirs d" and "benign d \<Longrightarrow> benign d'"
    and "benign d \<Longrightarrow> t = None \<or> t = Some Eintr \<or> (\<exists>k > 0. t = Some (Xfer k))"
  using assms by (auto simp: next_transfer_def benign_def split: list.splits)

lemma content_cong: "files d = files d' \<Longrightarrow> content d p = content d' p"
  by (simp add: content_def)

lemma sys_pread_result:
  assumes "sys_pread p off n d = (r, d')" and "0 < n"
  shows "files d' = files d" and "dirs d' = dirs d" and "benign d \<Longrightarrow> benign d'"
    and "benign d \<Longrightarrow> r \<noteq> Ret_err e"
    and "r = Ret ys \<Longrightarrow> ys = segment (content d p) off (length ys) \<and> length ys \<le> n"
    and "r = Ret [] \<Longrightarrow> length (content d p) \<le> off"
proof -
  obtain t d1 where t: "next_transfer d = (t, d1)" by fastforce
  note nt = next_transfer_cases [OF t]
  have d': "d' = d1" using assms(1) t by (auto simp: sys_pread_def Let_def split: option.splits transfer.splits)
  show "files d' = files d" and "dirs d' = dirs d" and "benign d \<Longrightarrow> benign d'" using nt d' by simp_all
  show "benign d \<Longrightarrow> r \<noteq> Ret_err e"
    using nt(4) assms(1) t by (auto simp: sys_pread_def Let_def split: option.splits transfer.splits)
  have take: "take k (segment xs off n) = segment xs off (length (take k (segment xs off n)))"
    for k and xs :: bytes
    by (simp add: segment_def min_def)
  have whole: "segment xs off n = segment xs off (length (segment xs off n))" for xs :: bytes
    by (simp add: length_segment segment_min)
  show "r = Ret ys \<Longrightarrow> ys = segment (content d p) off (length ys) \<and> length ys \<le> n"
    using assms(1) t take whole
    by (auto simp: sys_pread_def Let_def split: option.splits transfer.splits)
      (simp_all add: length_segment)
  show "r = Ret [] \<Longrightarrow> length (content d p) \<le> off"
    using assms t by (auto simp: sys_pread_def Let_def segment_def split: option.splits transfer.splits)
qed

lemma pread_loop_result:
  assumes "pread_loop p off n got d = (r, d')" and "segment (content d p) off (length got) = got"
    and "length got \<le> n"
  shows "files d' = files d \<and> dirs d' = dirs d \<and> (benign d \<longrightarrow> benign d')
    \<and> (\<forall>ys. r = Inr ys \<longrightarrow> ys = segment (content d p) off n \<and> length ys = n)
    \<and> (benign d \<longrightarrow> off + n \<le> length (content d p) \<longrightarrow> r = Inr (segment (content d p) off n))"
  using assms
proof (induction p off n got d rule: pread_loop.induct)
  case (1 p off n got d)
  note step = "1.prems"(1) [unfolded pread_loop.simps [of p off n got d]]
  show ?case
  proof (cases "n \<le> length got")
    case True
    then have "length got = n" using "1.prems"(3) by simp
    then show ?thesis using step "1.prems"(2) by auto
  next
    case False
    obtain q d1 where q: "sys_pread p (off + length got) (n - length got) d = (q, d1)" by fastforce
    have pos: "0 < n - length got" using False by simp
    note sr = sys_pread_result [OF q pos]
    have c: "content d1 p = content d p" using sr(1) by (rule content_cong)
    show ?thesis
    proof (cases q)
      case Ret_eintr
      have "pread_loop p off n got d1 = (r, d')" using step False q Ret_eintr by simp
      from "1.IH"(2) [OF False q [symmetric] Ret_eintr this, unfolded c sr(1,2), OF "1.prems"(2,3)]
      show ?thesis using sr(3) by blast
    next
      case (Ret_err e)
      have "(r, d') = (Inl (system_error ''pread'' e), d1)" using step False q Ret_err by simp
      moreover have "\<not> benign d" using sr(4) Ret_err by blast
      ultimately show ?thesis using sr(1,2) by simp
    next
      case (Ret ys)
      note ys = sr(5) [OF Ret]
      show ?thesis
      proof (cases "ys = []")
        case True
        then have "length (content d p) \<le> off + length got" using sr(6) Ret by simp
        then have "\<not> off + n \<le> length (content d p)" using False by linarith
        moreover have "(r, d') = (Inl (Runtime_error ''unexpected end of external file''), d1)"
          using step False q Ret True by simp
        ultimately show ?thesis using sr(1-3) by simp
      next
        case ne: False
        have "pread_loop p off n (got @ ys) d1 = (r, d')" using step False q Ret ne by simp
        moreover have "segment (content d1 p) off (length (got @ ys)) = got @ ys"
          using ys [THEN conjunct1, symmetric] "1.prems"(2) segment_split [of "content d p" off "length got" "length ys"]
          by (simp add: c)
        moreover have "length (got @ ys) \<le> n" using ys [THEN conjunct2] False by simp
        ultimately show ?thesis
          using "1.IH"(1) [OF False q [symmetric] Ret ne, unfolded c sr(1,2)] sr(3) unfolding c by blast
      qed
    qed
  qed
qed

text \<open>
  A read returns exactly the requested bytes or throws; it never changes a file, and it succeeds
  whenever the range exists and no transfer fails.
\<close>

lemma pread_exact_result:
  assumes "pread_exact p n off d = (r, d')"
  shows "files d' = files d" and "dirs d' = dirs d" and "benign d \<Longrightarrow> benign d'"
    and "r = Inr ys \<Longrightarrow> ys = segment (content d p) off n \<and> length ys = n"
    and "benign d \<Longrightarrow> off + n \<le> length (content d p) \<Longrightarrow> r = Inr (segment (content d p) off n)"
proof -
  note res = pread_loop_result [OF assms [unfolded pread_exact_def], simplified]
  show "files d' = files d" and "dirs d' = dirs d" and "benign d \<Longrightarrow> benign d'"
    and "r = Inr ys \<Longrightarrow> ys = segment (content d p) off n \<and> length ys = n"
    and "benign d \<Longrightarrow> off + n \<le> length (content d p) \<Longrightarrow> r = Inr (segment (content d p) off n)"
    using res by blast+
qed


subsection \<open>Writing\<close>

lemma file_write_Nil [simp]: "file_write f off [] = f"
  by (simp add: file_write_def)

lemma length_file_write:
  "ys \<noteq> [] \<Longrightarrow> length (file_write f off ys) = max (length f) (off + length ys)"
  by (simp add: file_write_def length_patch_max)

lemma length_file_write_ge: "length f \<le> length (file_write f off ys)"
  by (cases "ys = []") (simp_all add: length_file_write)

lemma nth_file_write:
  assumes "i < length (file_write f off ys)"
  shows "file_write f off ys ! i =
    (if off \<le> i \<and> i < off + length ys then ys ! (i - off) else if i < length f then f ! i else 0)"
proof (cases "ys = []")
  case True
  with assms show ?thesis by auto
next
  case False
  let ?g = "f @ replicate (off - length f) 0"
  have "i < max (length ?g) (off + length ys)"
    using assms False by (simp add: length_file_write)
  then have "file_write f off ys ! i =
      (if off \<le> i \<and> i < off + length ys then ys ! (i - off) else ?g ! i)"
    using False nth_patch [of off ?g i ys] by (simp add: file_write_def)
  moreover have "i < off + length ys \<or> i < length f"
    using assms False by (auto simp: length_file_write)
  ultimately show ?thesis by (auto simp: nth_append)
qed

lemma file_write_file_write:
  "k \<le> length ys \<Longrightarrow> file_write (file_write f off (take k ys)) (off + k) (take m (drop k ys))
    = file_write f off (take (k + m) ys)"
proof (cases "drop k ys = [] \<or> m = 0")
  case True
  assume "k \<le> length ys"
  with True show ?thesis by auto
next
  case False
  assume k: "k \<le> length ys"
  let ?m = "min m (length ys - k)"
  have m: "0 < ?m" using False by auto
  have len: "length (take m (drop k ys)) = ?m" "length (take k ys) = k" "length (take (k + m) ys) = k + ?m"
    using k by auto
  have ne: "take m (drop k ys) \<noteq> []" "take (k + m) ys \<noteq> []" using m len by (metis length_0_conv less_irrefl, metis length_0_conv add_gr_0 less_irrefl)
  show ?thesis
  proof (rule nth_equalityI)
    show l: "length (file_write (file_write f off (take k ys)) (off + k) (take m (drop k ys)))
        = length (file_write f off (take (k + m) ys))"
      using len ne by (cases "take k ys = []") (auto simp: length_file_write max_def)
    fix i assume i: "i < length (file_write (file_write f off (take k ys)) (off + k) (take m (drop k ys)))"
    have a: "file_write (file_write f off (take k ys)) (off + k) (take m (drop k ys)) ! i =
        (if off + k \<le> i \<and> i < off + k + ?m then ys ! (i - off)
         else if i < length (file_write f off (take k ys)) then file_write f off (take k ys) ! i else 0)"
      unfolding nth_file_write [OF i] len(1) using len(1) by auto
    have b: "file_write f off (take (k + m) ys) ! i =
        (if off \<le> i \<and> i < off + k + ?m then ys ! (i - off) else if i < length f then f ! i else 0)"
      unfolding nth_file_write [OF i [unfolded l]] using len(3) by auto
    have c: "file_write f off (take k ys) ! i =
        (if off \<le> i \<and> i < off + k then ys ! (i - off) else if i < length f then f ! i else 0)"
      if "i < length (file_write f off (take k ys))"
      unfolding nth_file_write [OF that] using len(2) by auto
    have d: "\<not> i < length (file_write f off (take k ys)) \<Longrightarrow> \<not> i < length f \<and> \<not> (off \<le> i \<and> i < off + k)"
      using len(2) length_file_write_ge [of f off "take k ys"]
      by (cases "take k ys = []") (auto simp: length_file_write)
    show "file_write (file_write f off (take k ys)) (off + k) (take m (drop k ys)) ! i
        = file_write f off (take (k + m) ys) ! i"
      using a b c d by (cases "off + k \<le> i \<and> i < off + k + ?m") auto
  qed
qed

lemma sys_pwrite_result:
  assumes "sys_pwrite p off ys d = (r, d')" and "ys \<noteq> []"
  shows "\<exists>k. content d' p = file_write (content d p) off (take k ys) \<and> k \<le> length ys
    \<and> (\<forall>n. r = Ret n \<longrightarrow> n = k) \<and> ((\<forall>n. r \<noteq> Ret n) \<longrightarrow> k = 0)"
    and "\<forall>q. q \<noteq> p \<longrightarrow> files d' q = files d q" and "files d p \<noteq> None \<Longrightarrow> files d' p \<noteq> None"
    and "dirs d' = dirs d" and "benign d \<Longrightarrow> benign d'"
    and "benign d \<Longrightarrow> r \<noteq> Ret_err e \<and> r \<noteq> Ret 0"
proof -
  obtain t d1 where t: "next_transfer d = (t, d1)" by fastforce
  note nt = next_transfer_cases [OF t]
  have c: "content d1 p = content d p" using nt(1) by (rule content_cong)
  have step: "(r, d') = (case t of
        None \<Rightarrow> (Ret (length ys), set_content p (file_write (content d p) off ys) d1)
      | Some (Xfer k) \<Rightarrow> (Ret (min k (length ys)), set_content p (file_write (content d p) off (take k ys)) d1)
      | Some Eintr \<Rightarrow> (Ret_eintr, d1) | Some (Xfail e) \<Rightarrow> (Ret_err e, d1))"
    using assms(1) t by (simp add: sys_pwrite_def Let_def split: option.splits transfer.splits)
  show "\<forall>q. q \<noteq> p \<longrightarrow> files d' q = files d q" and "files d p \<noteq> None \<Longrightarrow> files d' p \<noteq> None"
    and "dirs d' = dirs d" and "benign d \<Longrightarrow> benign d'"
    using step nt(1-3) by (auto split: option.splits transfer.splits)
  show "benign d \<Longrightarrow> r \<noteq> Ret_err e \<and> r \<noteq> Ret 0"
    using step nt(4) assms(2) by (auto split: option.splits transfer.splits)
  have tk: "take (min k (length ys)) ys = take k ys" for k by (simp add: min_def)
  show "\<exists>k. content d' p = file_write (content d p) off (take k ys) \<and> k \<le> length ys
    \<and> (\<forall>n. r = Ret n \<longrightarrow> n = k) \<and> ((\<forall>n. r \<noteq> Ret n) \<longrightarrow> k = 0)"
  proof (cases t)
    case None
    then show ?thesis using step nt(1) by (intro exI [of _ "length ys"]) simp
  next
    case (Some tr)
    show ?thesis
    proof (cases tr)
      case (Xfer k)
      then show ?thesis using step nt(1) Some tk by (intro exI [of _ "min k (length ys)"]) simp
    qed (use step Some c in \<open>auto intro!: exI [of _ 0]\<close>)
  qed
qed


definition others_kept :: "string \<Rightarrow> disk \<Rightarrow> disk \<Rightarrow> bool" where
  "others_kept p d d' \<longleftrightarrow> (\<forall>q. q \<noteq> p \<longrightarrow> files d' q = files d q) \<and> dirs d' = dirs d
    \<and> (files d p \<noteq> None \<longrightarrow> files d' p \<noteq> None)"

lemma others_kept_trans: "others_kept p a b \<Longrightarrow> others_kept p b c \<Longrightarrow> others_kept p a c"
  by (simp add: others_kept_def)

lemma others_kept_same: "files d' = files d \<Longrightarrow> dirs d' = dirs d \<Longrightarrow> others_kept p d d'"
  by (simp add: others_kept_def)

lemma pwrite_loop_result:
  assumes "pwrite_loop p off buf k d = (r, d')" and "content d p = file_write f off (take k buf)"
    and "k \<le> length buf"
  shows "\<exists>n. k \<le> n \<and> n \<le> length buf \<and> content d' p = file_write f off (take n buf)
    \<and> (r = Inr () \<longrightarrow> n = length buf) \<and> (benign d \<longrightarrow> r = Inr () \<and> benign d') \<and> others_kept p d d'"
  using assms
proof (induction p off buf k d rule: pwrite_loop.induct)
  case (1 p off buf k d)
  note step = "1.prems"(1) [unfolded pwrite_loop.simps [of p off buf k d]]
  show ?case
  proof (cases "length buf \<le> k")
    case True
    then show ?thesis using step "1.prems"(2,3) by (auto simp: others_kept_def)
  next
    case False
    obtain q d1 where q: "sys_pwrite p (off + k) (drop k buf) d = (q, d1)" by fastforce
    have ne: "drop k buf \<noteq> []" using False by simp
    note sr = sys_pwrite_result [OF q ne]
    have ok1: "others_kept p d d1" using sr(2-4) by (simp add: others_kept_def)
    obtain j where j: "content d1 p = file_write (content d p) (off + k) (take j (drop k buf))"
        "j \<le> length buf - k" "\<forall>n. q = Ret n \<longrightarrow> n = j" "(\<forall>n. q \<noteq> Ret n) \<longrightarrow> j = 0"
      using sr(1) by auto
    have c1: "content d1 p = file_write f off (take (k + j) buf)"
      unfolding j(1) "1.prems"(2) by (rule file_write_file_write [OF "1.prems"(3)])
    show ?thesis
    proof (cases q)
      case Ret_eintr
      have "pwrite_loop p off buf k d1 = (r, d')" using step False q Ret_eintr by simp
      moreover have "content d1 p = file_write f off (take k buf)" using c1 j(4) Ret_eintr by simp
      ultimately obtain n where "k \<le> n" "n \<le> length buf" "content d' p = file_write f off (take n buf)"
          "r = Inr () \<longrightarrow> n = length buf" "benign d1 \<longrightarrow> r = Inr () \<and> benign d'" "others_kept p d1 d'"
        using "1.IH"(2) [OF False q [symmetric] Ret_eintr _ _ "1.prems"(3)] by blast
      then show ?thesis using sr(5) others_kept_trans [OF ok1] by blast
    next
      case (Ret_err e)
      have r: "r = Inl (system_error ''pwrite'' e)" "d' = d1" using step False q Ret_err by simp_all
      have "\<not> benign d" using sr(6) Ret_err by blast
      moreover have "content d' p = file_write f off (take k buf)" using c1 j(4) Ret_err r by simp
      ultimately show ?thesis using r ok1 "1.prems"(3) by blast
    next
      case (Ret n)
      then have n: "n = j" using j(3) by blast
      show ?thesis
      proof (cases "n = 0")
        case True
        have r: "r = Inl (Runtime_error ''pwrite made no progress'')" "d' = d1"
          using step False q Ret True by simp_all
        have "\<not> benign d" using sr(6) Ret True by blast
        moreover have "content d' p = file_write f off (take k buf)" using c1 n True r by simp
        ultimately show ?thesis using r ok1 "1.prems"(3) by blast
      next
        case n0: False
        have "pwrite_loop p off buf (k + n) d1 = (r, d')" using step False q Ret n0 by simp
        moreover have "k + n \<le> length buf" using j(2) n False by linarith
        ultimately obtain m where "k + n \<le> m" "m \<le> length buf"
            "content d' p = file_write f off (take m buf)" "r = Inr () \<longrightarrow> m = length buf"
            "benign d1 \<longrightarrow> r = Inr () \<and> benign d'" "others_kept p d1 d'"
          using "1.IH"(1) [OF False q [symmetric] Ret n0] c1 n by blast
        moreover from this(1) have "k \<le> m" by simp
        ultimately show ?thesis using sr(5) others_kept_trans [OF ok1] by blast
      qed
    qed
  qed
qed

text \<open>
  Whatever happens, a write leaves a prefix of its buffer in the file and touches nothing else; it
  returns only when the whole buffer is written, and it does when no transfer fails.
\<close>

lemma pwrite_exact_result:
  assumes "pwrite_exact p buf off d = (r, d')"
  obtains n where "n \<le> length buf" and "content d' p = file_write (content d p) off (take n buf)"
    and "r = Inr () \<Longrightarrow> n = length buf" and "benign d \<Longrightarrow> r = Inr () \<and> benign d'"
    and "others_kept p d d'"
  using pwrite_loop_result [OF assms [unfolded pwrite_exact_def], of "content d p"] by auto

lemma pwrite_exact_done:
  assumes "pwrite_exact p buf off d = (Inr x, d')"
  shows "content d' p = file_write (content d p) off buf \<and> others_kept p d d' \<and> (benign d \<longrightarrow> benign d')"
  by (rule pwrite_exact_result [OF assms]) auto

lemma pwrite_exact_failed:
  assumes "pwrite_exact p buf off d = (Inl e, d')"
  shows "(\<exists>n. content d' p = file_write (content d p) off (take n buf)) \<and> others_kept p d d' \<and> \<not> benign d"
  by (rule pwrite_exact_result [OF assms]) auto

subsection \<open>The other calls\<close>

lemma sys_call_result:
  assumes "sys_call msg d = (r, d')"
  shows "files d' = files d" and "dirs d' = dirs d" and "benign d \<Longrightarrow> r = Inr () \<and> benign d'"
  using assms by (auto simp: sys_call_def benign_def split: list.splits option.splits)

lemma sys_call_cases:
  assumes "io_bind (sys_call msg) f d = (r, d2)"
  obtains e where "r = Inl e" and "files d2 = files d" and "dirs d2 = dirs d" and "\<not> benign d"
  | d1 where "files d1 = files d" and "dirs d1 = dirs d" and "benign d \<longrightarrow> benign d1"
    and "f () d1 = (r, d2)"
  using assms
proof (cases rule: io_bind_cases)
  case (1 e)
  then show thesis using sys_call_result [OF 1(1)] that(1) by auto
next
  case (2 x d1)
  then show thesis using sys_call_result [OF 2(1)] that(2) [of d1] by auto
qed

lemma sys_fstat_result:
  assumes "sys_fstat p d = (r, d')"
  shows "files d' = files d" and "dirs d' = dirs d"
    and "benign d \<Longrightarrow> r = Inr (length (content d p)) \<and> benign d'"
    and "r = Inr n \<Longrightarrow> n = length (content d p)"
  using assms unfolding sys_fstat_def
  by (auto elim!: sys_call_cases simp: content_def)

lemma sys_open_existing:
  assumes "sys_open False False p d = (r, d')"
  shows "files d' = files d \<and> dirs d' = dirs d \<and> (r = Inr () \<longrightarrow> files d p \<noteq> None)
    \<and> (benign d \<longrightarrow> benign d') \<and> (benign d \<longrightarrow> files d p \<noteq> None \<longrightarrow> r = Inr () \<and> benign d')"
proof (rule sys_call_cases [OF assms [unfolded sys_open_def]])
  fix d1
  assume "files d1 = files d" "dirs d1 = dirs d" "benign d \<longrightarrow> benign d1"
    and "(case files d1 p of
           None \<Rightarrow> if False then (Inr (), set_content p [] d1)
                   else (Inl (system_error (''open('' @ p @ '')'') ''No such file or directory''), d1)
         | Some f \<Rightarrow> (Inr (), if False then set_content p [] d1 else d1)) = (r, d')"
  then show ?thesis by (cases "files d p") auto
qed auto

lemma sys_open_create:
  assumes "sys_open True False p d = (r, d')"
  shows "content d' p = content d p \<and> others_kept p d d' \<and> (r = Inr () \<longrightarrow> files d' p \<noteq> None)
    \<and> (benign d \<longrightarrow> r = Inr () \<and> benign d')"
proof (rule sys_call_cases [OF assms [unfolded sys_open_def]])
  fix d1
  assume "files d1 = files d" "dirs d1 = dirs d" "benign d \<longrightarrow> benign d1"
    and "(case files d1 p of
           None \<Rightarrow> if True then (Inr (), set_content p [] d1)
                   else (Inl (system_error (''open('' @ p @ '')'') ''No such file or directory''), d1)
         | Some f \<Rightarrow> (Inr (), if False then set_content p [] d1 else d1)) = (r, d')"
  note f = this
  show ?thesis
  proof (cases "files d p")
    case None
    then have "r = Inr ()" and "d' = set_content p [] d1" using f by simp_all
    with None f(1-3) show ?thesis by (simp add: others_kept_def content_def)
  next
    case (Some x)
    then have "r = Inr ()" and "d' = d1" using f by simp_all
    with Some f(1-3) show ?thesis by (simp add: others_kept_def content_def)
  qed
qed (simp add: others_kept_def content_def)

lemma sys_ftruncate_result:
  assumes "sys_ftruncate msg p n d = (r, d')"
  shows "others_kept p d d' \<and> (r = Inr () \<longrightarrow> content d' p = file_truncate (content d p) n)
    \<and> (\<forall>e. r = Inl e \<longrightarrow> files d' = files d) \<and> (benign d \<longrightarrow> r = Inr () \<and> benign d')"
proof (rule sys_call_cases [OF assms [unfolded sys_ftruncate_def]])
  fix d1
  assume "files d1 = files d" "dirs d1 = dirs d" "benign d \<longrightarrow> benign d1"
    and "(Inr (), set_content p (file_truncate (content d1 p) n) d1) = (r, d')"
  note f = this
  then have "r = Inr ()" and "d' = set_content p (file_truncate (content d p) n) d1"
    by (simp_all add: content_def)
  with f(1-3) show ?thesis by (simp add: others_kept_def)
qed (simp add: others_kept_def)

lemma sync_file_result:
  assumes "sync_file b d = (r, d')"
  shows "files d' = files d \<and> dirs d' = dirs d \<and> (benign d \<longrightarrow> r = Inr () \<and> benign d')"
  using assms sys_call_result [of "''fdatasync''" d r d'] by (auto simp: sync_file_def split: if_splits)

lemma benign_dirs [simp]: "benign (d\<lparr>dirs := x\<rparr>) = benign d"
  by (simp add: benign_def)

lemma create_directories_result:
  assumes "create_directories p d = (r, d')"
  shows "files d' = files d \<and> (benign d \<longrightarrow> r = Inr () \<and> benign d')"
proof (rule sys_call_cases [OF assms [unfolded create_directories_def]])
  fix d1
  assume "files d1 = files d" "dirs d1 = dirs d" "benign d \<longrightarrow> benign d1"
    and "(Inr (), d1\<lparr>dirs := insert p (dirs d1)\<rparr>) = (r, d')"
  then show ?thesis by auto
qed auto


section \<open>The transfer contracts\<close>

text \<open>
  \<open>pread_exact\<close> is exact under every outcome script (interrupted, short and failing calls): it
  changes no file, a normal return delivers precisely the requested byte range, and when no transfer
  fails and the range lies inside the file it does return. In particular the retry loop terminates.
\<close>

theorem pread_exact_correct:
  assumes "pread_exact p n off d = (r, d')"
  shows "files d' = files d
    \<and> (\<forall>ys. r = Inr ys \<longrightarrow> ys = segment (content d p) off n \<and> length ys = n)
    \<and> (benign d \<and> off + n \<le> length (content d p) \<longrightarrow> r = Inr (segment (content d p) off n))"
  using pread_exact_result [OF assms] by blast

text \<open>
  C37. \<open>pwrite_exact\<close> under every outcome script: the file becomes the old file overwritten with a
  prefix of the buffer (the whole buffer exactly when the call returns normally; a gap before the
  offset reads as zeros), every other file is untouched, and it returns when no transfer fails.
\<close>

theorem pwrite_exact_correct:
  assumes "pwrite_exact p buf off d = (r, d')"
  shows "\<exists>n \<le> length buf. content d' p = file_write (content d p) off (take n buf)
    \<and> (r = Inr () \<longrightarrow> n = length buf) \<and> (benign d \<longrightarrow> r = Inr ())
    \<and> (\<forall>q. q \<noteq> p \<longrightarrow> files d' q = files d q)"
  by (rule pwrite_exact_result [OF assms]) (auto simp: others_kept_def)

definition flaky_disk :: disk where
  "flaky_disk = \<lparr>files = [''f'' \<mapsto> [1, 2, 3, 4]], dirs = {}, transfers = [Eintr, Xfer 1, Eintr, Xfer 2],
    faults = []\<rparr>"

theorem pread_exact_correct_witness:
  "\<exists>r d'. pread_exact ''f'' 3 1 flaky_disk = (r, d') \<and> files d' = files flaky_disk
    \<and> (\<forall>ys. r = Inr ys \<longrightarrow> ys = segment (content flaky_disk ''f'') 1 3 \<and> length ys = 3)
    \<and> (benign flaky_disk \<and> 1 + 3 \<le> length (content flaky_disk ''f'') \<longrightarrow>
        r = Inr (segment (content flaky_disk ''f'') 1 3))"
  using pread_exact_correct [of "''f''" 3 1 flaky_disk] by (metis surj_pair)

theorem pwrite_exact_correct_witness:
  "\<exists>r d' n. pwrite_exact ''f'' [7, 8, 9] 6 flaky_disk = (r, d') \<and> n \<le> length [7, 8, 9 :: u8]
    \<and> content d' ''f'' = file_write (content flaky_disk ''f'') 6 (take n [7, 8, 9])"
proof -
  obtain r d' where "pwrite_exact ''f'' [7, 8, 9] 6 flaky_disk = (r, d')" by fastforce
  with pwrite_exact_correct [OF this] show ?thesis by blast
qed

end
