(* ===== verification/Location_Directory.thy ===== *)
theory Location_Directory
  imports External_Io "HOL-Library.Product_Lexorder" "HOL-Library.Multiset"
begin

text \<open>
  \<open>ExternalLocationDirectory\<close> (src/adapters/external\_location\_directory.cpp): the headerless file
  that maps a logical id to its list and offset, eight bytes per entry, read and rewritten page by
  page. The constructor's host check \<open>is_little_endian\<close> is the byte order of \<open>le32\<close>.
\<close>

section \<open>Entries\<close>

record disk_location =
  dl_list :: u32
  dl_offset :: u32

definition tombstone :: disk_location where
  "tombstone = \<lparr>dl_list = - 1, dl_offset = - 1\<rparr>"

definition location_active :: "disk_location \<Rightarrow> bool" where
  "location_active l \<longleftrightarrow> dl_list l \<noteq> - 1 \<and> dl_offset l \<noteq> - 1"

definition entry_bytes :: nat where
  "entry_bytes = 8"

definition encode_location :: "disk_location \<Rightarrow> bytes" where
  "encode_location l = le32 (dl_list l) @ le32 (dl_offset l)"

definition decode_location :: "bytes \<Rightarrow> disk_location" where
  "decode_location bs = \<lparr>dl_list = of_le32 (take 4 bs), dl_offset = of_le32 (drop 4 bs)\<rparr>"

definition page_entry :: "bytes \<Rightarrow> nat \<Rightarrow> disk_location" where
  "page_entry page k = decode_location (segment page (k * entry_bytes) entry_bytes)"

definition set_page_entry :: "nat \<Rightarrow> disk_location \<Rightarrow> bytes \<Rightarrow> bytes" where
  "set_page_entry k l page = patch page (k * entry_bytes) (encode_location l)"

section \<open>The directory object\<close>

record directory =
  dir_path :: string
  dir_page_size :: nat
  dir_direct_io :: bool
  dir_sync :: bool

definition directory_args_ok :: "directory \<Rightarrow> bool" where
  "directory_args_ok dir \<longleftrightarrow> dir_path dir \<noteq> [] \<and> is_power_of_two (of_nat (dir_page_size dir))
    \<and> pointer_size \<le> dir_page_size dir \<and> dir_page_size dir mod entry_bytes = 0"

text \<open>
  The constructor. \<open>parent\<close> is \<open>std::filesystem::path::parent_path\<close>.
\<close>

definition directory_open :: "(string \<Rightarrow> string) \<Rightarrow> bool \<Rightarrow> directory \<Rightarrow> bool \<Rightarrow> directory io" where
  "directory_open parent linux_aio dir create =
    (if \<not> directory_args_ok dir
     then io_throw (Invalid_argument ''invalid external location directory layout'')
     else io_bind (io_lift (direct_flag linux_aio (dir_direct_io dir))) (\<lambda>_.
       io_bind (if parent (dir_path dir) \<noteq> [] then create_directories (parent (dir_path dir))
                else io_return ()) (\<lambda>_.
         io_bind (sys_open create create (dir_path dir)) (\<lambda>_. io_return dir))))"

definition entries_per_page :: "directory \<Rightarrow> nat" where
  "entries_per_page dir = dir_page_size dir div entry_bytes"

definition checked_offset :: "nat \<Rightarrow> nat \<Rightarrow> nat res" where
  "checked_offset page page_size =
    (if page > off_max div page_size
     then Inl (Overflow_error ''external directory offset exceeds off_t'')
     else Inr (page * page_size))"

text \<open>The common prologue of both operations: open, stat, page alignment; the result is the file size.\<close>

definition directory_size :: "directory \<Rightarrow> nat io" where
  "directory_size dir =
    io_bind (sys_open False False (dir_path dir)) (\<lambda>_.
      io_bind (sys_fstat (dir_path dir)) (\<lambda>fsize.
        if fsize mod dir_page_size dir \<noteq> 0
        then io_throw (Runtime_error ''external directory is not page aligned'')
        else io_return fsize))"

section \<open>Batched reads\<close>

record request =
  rq_page :: nat
  rq_id :: u32
  rq_input :: nat

definition requests_of :: "directory \<Rightarrow> u32 list \<Rightarrow> request list" where
  "requests_of dir ids = sort_key (\<lambda>r. (rq_page r, unat (rq_id r)))
    (map (\<lambda>i. \<lparr>rq_page = unat (ids ! i) div entries_per_page dir, rq_id = ids ! i, rq_input = i\<rparr>)
      [0..<length ids])"

function read_groups ::
    "directory \<Rightarrow> nat \<Rightarrow> request list \<Rightarrow> disk_location list \<Rightarrow> disk_location list io" where
  "read_groups dir fsize [] result = io_return result"
| "read_groups dir fsize (r # rs) result =
    io_bind (io_lift (checked_offset (rq_page r) (dir_page_size dir))) (\<lambda>off.
      if off + dir_page_size dir > fsize
      then io_throw (Out_of_range ''Logical ID is outside locations.bin'')
      else io_bind (pread_exact (dir_path dir) (dir_page_size dir) off) (\<lambda>page.
        read_groups dir fsize (dropWhile (\<lambda>q. rq_page q = rq_page r) rs)
          (fold (\<lambda>q res. res[rq_input q := page_entry page (unat (rq_id q) mod entries_per_page dir)])
            (r # takeWhile (\<lambda>q. rq_page q = rq_page r) rs) result)))"
  by pat_completeness auto
termination
  by (relation "measure (\<lambda>(dir, fsize, rs, result). length rs)")
    (auto simp: less_Suc_eq_le length_dropWhile_le)

definition read_batch :: "directory \<Rightarrow> u32 list \<Rightarrow> disk_location list io" where
  "read_batch dir ids =
    (if ids = [] then io_return []
     else io_bind (directory_size dir) (\<lambda>fsize.
       io_bind (io_lift (aligned_buffer (dir_page_size dir) (dir_page_size dir))) (\<lambda>_.
         read_groups dir fsize (requests_of dir ids) (replicate (length ids) tombstone))))"

section \<open>Batched writes\<close>

type_synonym update = "u32 \<times> disk_location"

definition update_page :: "directory \<Rightarrow> update \<Rightarrow> nat" where
  "update_page dir u = unat (fst u) div entries_per_page dir"

definition apply_updates :: "directory \<Rightarrow> update list \<Rightarrow> bytes \<Rightarrow> bytes" where
  "apply_updates dir us page =
    fold (\<lambda>u. set_page_entry (unat (fst u) mod entries_per_page dir) (snd u)) us page"

function write_groups :: "directory \<Rightarrow> nat \<Rightarrow> update list \<Rightarrow> nat io" where
  "write_groups dir fsize [] = io_return fsize"
| "write_groups dir fsize (u # us) =
    io_bind (io_lift (checked_offset (update_page dir u) (dir_page_size dir))) (\<lambda>off.
      io_bind (if off < fsize then pread_exact (dir_path dir) (dir_page_size dir) off
               else io_return (replicate (dir_page_size dir) 255)) (\<lambda>page.
        io_bind (pwrite_exact (dir_path dir)
            (apply_updates dir (u # takeWhile (\<lambda>v. update_page dir v = update_page dir u) us) page) off)
          (\<lambda>_. write_groups dir (max fsize (off + dir_page_size dir))
            (dropWhile (\<lambda>v. update_page dir v = update_page dir u) us))))"
  by pat_completeness auto
termination
  by (relation "measure (\<lambda>(dir, fsize, us). length us)")
    (auto simp: less_Suc_eq_le length_dropWhile_le)

definition write_batch :: "directory \<Rightarrow> update list \<Rightarrow> unit io" where
  "write_batch dir updates =
    (if updates = [] then io_return ()
     else let us = sort_key (\<lambda>u. unat (fst u)) updates
          in if \<not> distinct_adj (map fst us)
             then io_throw (Invalid_argument ''duplicate Logical ID directory update'')
             else io_bind (directory_size dir) (\<lambda>fsize.
               io_bind (io_lift (aligned_buffer (dir_page_size dir) (dir_page_size dir))) (\<lambda>_.
                 io_bind (write_groups dir fsize us) (\<lambda>final.
                   io_bind (sys_ftruncate (''ftruncate('' @ dir_path dir @ '')'') (dir_path dir) final) (\<lambda>_.
                     sync_file (dir_sync dir))))))"


section \<open>Looking up entries\<close>

text \<open>The entry of an id in the contents of the directory file.\<close>

definition dir_lookup :: "bytes \<Rightarrow> u32 \<Rightarrow> disk_location" where
  "dir_lookup f i = decode_location (segment f (unat i * entry_bytes) entry_bytes)"

definition dir_has :: "bytes \<Rightarrow> u32 \<Rightarrow> bool" where
  "dir_has f i \<longleftrightarrow> unat i * entry_bytes + entry_bytes \<le> length f"

lemma length_encode [simp]: "length (encode_location l) = entry_bytes"
  by (simp add: encode_location_def entry_bytes_def)

lemma decode_encode [simp]: "decode_location (encode_location l) = l"
  by (simp add: decode_location_def encode_location_def)

lemma page_geometry:
  assumes "directory_args_ok dir"
  shows "dir_page_size dir = entries_per_page dir * entry_bytes" and "0 < entries_per_page dir"
    and "0 < dir_page_size dir"
  using assms by (auto simp: directory_args_ok_def entries_per_page_def pointer_size_def
      entry_bytes_def div_greater_zero_iff)

lemma checked_offset_ok:
  fixes i :: u32
  assumes "directory_args_ok dir"
  shows "checked_offset (unat i div entries_per_page dir) (dir_page_size dir)
    = Inr (unat i div entries_per_page dir * dir_page_size dir)"
proof -
  let ?e = "entries_per_page dir"
  have "unat i div ?e * ?e \<le> unat i" by simp
  then have "unat i div ?e * dir_page_size dir \<le> unat i * entry_bytes"
    unfolding page_geometry(1) [OF assms] mult.assoc [symmetric] by (rule mult_le_mono1)
  also have "\<dots> \<le> off_max"
  proof -
    have "off_max = 9223372036854775807" by (simp add: off_max_def)
    then show ?thesis unfolding entry_bytes_def using u32_less_pow [of i] by linarith
  qed
  finally have "unat i div ?e \<le> off_max div dir_page_size dir"
    using page_geometry(3) [OF assms] by (simp add: less_eq_div_iff_mult_less_eq)
  then show ?thesis by (simp add: checked_offset_def)
qed

lemma entry_position:
  fixes i :: u32
  assumes "directory_args_ok dir"
  shows "unat i * entry_bytes = unat i div entries_per_page dir * dir_page_size dir
    + unat i mod entries_per_page dir * entry_bytes"
proof -
  have "unat i * entry_bytes = (unat i div entries_per_page dir * entries_per_page dir
      + unat i mod entries_per_page dir) * entry_bytes" by simp
  then show ?thesis unfolding page_geometry(1) [OF assms] by (simp only: add_mult_distrib mult.assoc)
qed

lemma entry_in_page:
  fixes i :: u32
  assumes "directory_args_ok dir"
  shows "unat i mod entries_per_page dir * entry_bytes + entry_bytes \<le> dir_page_size dir"
proof -
  have "Suc (unat i mod entries_per_page dir) \<le> entries_per_page dir"
    using page_geometry(2) [OF assms] by (simp add: Suc_le_eq)
  then have "Suc (unat i mod entries_per_page dir) * entry_bytes \<le> entries_per_page dir * entry_bytes"
    by (rule mult_le_mono1)
  then show ?thesis unfolding page_geometry(1) [OF assms] by simp
qed

lemma page_entry_lookup:
  assumes "directory_args_ok dir"
  shows "page_entry (segment f (unat i div entries_per_page dir * dir_page_size dir) (dir_page_size dir))
      (unat i mod entries_per_page dir) = dir_lookup f i"
  using entry_in_page [OF assms, of i]
  by (simp add: page_entry_def dir_lookup_def segment_segment entry_position [OF assms, of i])

lemma whole_page:
  assumes "directory_args_ok dir" and "dir_page_size dir dvd length f" and "dir_has f i"
  shows "unat i div entries_per_page dir * dir_page_size dir + dir_page_size dir \<le> length f"
proof -
  let ?P = "dir_page_size dir" and ?g = "unat i div entries_per_page dir"
  obtain n where n: "length f = ?P * n" using assms(2) by (rule dvdE)
  have "?g * ?P + entry_bytes \<le> length f"
    using assms(3) entry_position [OF assms(1), of i] by (simp add: dir_has_def)
  then have "?g * ?P + 8 \<le> n * ?P" by (simp only: n entry_bytes_def mult.commute)
  then have "?g * ?P < n * ?P" by linarith
  then have "Suc ?g \<le> n" by simp
  then have "Suc ?g * ?P \<le> n * ?P" by (rule mult_le_mono1)
  then show ?thesis by (simp add: n mult.commute add.commute)
qed

lemma lookup_cong:
  assumes "dir_has f i" and "length f \<le> length f'"
    and "\<And>j. unat i * entry_bytes \<le> j \<Longrightarrow> j < unat i * entry_bytes + entry_bytes \<Longrightarrow> f' ! j = f ! j"
  shows "dir_lookup f' i = dir_lookup f i"
proof -
  have "segment f' (unat i * entry_bytes) entry_bytes = segment f (unat i * entry_bytes) entry_bytes"
    using assms by (intro nth_equalityI) (auto simp: dir_has_def nth_segment)
  then show ?thesis by (simp add: dir_lookup_def)
qed

section \<open>Reads\<close>

lemma directory_size_result:
  assumes "directory_size dir d = (r, d')"
  shows "files d' = files d \<and> dirs d' = dirs d \<and> (benign d \<longrightarrow> benign d')
    \<and> (\<forall>n. r = Inr n \<longrightarrow> n = length (content d (dir_path dir)) \<and> dir_page_size dir dvd n
        \<and> files d (dir_path dir) \<noteq> None)
    \<and> (benign d \<and> files d (dir_path dir) \<noteq> None \<and> dir_page_size dir dvd length (content d (dir_path dir))
        \<longrightarrow> r = Inr (length (content d (dir_path dir))))"
proof -
  let ?p = "dir_path dir"
  from assms [unfolded directory_size_def] show ?thesis
  proof (cases rule: io_bind_cases)
    case (1 e)
    then show ?thesis using sys_open_existing [OF 1(1)] by simp
  next
    case (2 u d1)
    note o = sys_open_existing [OF 2(1)]
    have c: "content d1 ?p = content d ?p" using o by (simp add: content_def)
    from 2(2) show ?thesis
    proof (cases rule: io_bind_cases)
      case (1 e)
      then show ?thesis using o sys_fstat_result [OF 1(1)] by auto
    next
      case (2 n d2)
      note f = sys_fstat_result [OF 2(1)]
      have "n = length (content d ?p)" using f(4) c by simp
      then show ?thesis
        using 2(2) o f(1-3) by (auto simp: dvd_eq_mod_eq_0 c split: if_splits)
    qed
  qed
qed


lemma read_groups_result:
  assumes "read_groups dir fsize rs res d = (r, d')" and args: "directory_args_ok dir"
    and "\<forall>q \<in> set rs. rq_page q = unat (rq_id q) div entries_per_page dir"
  shows "files d' = files d \<and> dirs d' = dirs d \<and> (benign d \<longrightarrow> benign d')
    \<and> (\<forall>ls. r = Inr ls \<longrightarrow>
        ls = fold (\<lambda>q res. res[rq_input q := dir_lookup (content d (dir_path dir)) (rq_id q)]) rs res)
    \<and> (benign d \<longrightarrow> fsize = length (content d (dir_path dir)) \<longrightarrow> dir_page_size dir dvd fsize \<longrightarrow>
        (\<forall>q \<in> set rs. dir_has (content d (dir_path dir)) (rq_id q)) \<longrightarrow> (\<exists>ls. r = Inr ls))"
  using assms(1,3)
proof (induction rs arbitrary: res d rule: measure_induct_rule [where f = length])
  case (less rqs)
  note prem = less.prems
  show ?case
  proof (cases rqs)
    case Nil
    then show ?thesis using prem by auto
  next
    case (Cons r0 rs)
  note prems = prem [unfolded Cons]
  let ?p = "dir_path dir" and ?P = "dir_page_size dir" and ?e = "entries_per_page dir"
  let ?f = "content d ?p" and ?g = "unat (rq_id r0) div entries_per_page dir"
  let ?grp = "r0 # takeWhile (\<lambda>q. rq_page q = rq_page r0) rs"
  let ?rest = "dropWhile (\<lambda>q. rq_page q = rq_page r0) rs"
  have pg: "rq_page r0 = ?g" using prems(2) by simp
  have split: "r0 # rs = ?grp @ ?rest" by simp
  have off: "checked_offset (rq_page r0) ?P = Inr (?g * ?P)" by (simp add: pg checked_offset_ok [OF args])
  show ?thesis
  proof (cases "?g * ?P + ?P > fsize")
    case True
    then have "(r, d') = (Inl (Out_of_range ''Logical ID is outside locations.bin''), d)"
      using prems(1) off by simp
    moreover have "\<not> dir_has ?f (rq_id r0)" if "fsize = length ?f" "?P dvd fsize"
      using whole_page [OF args, of ?f "rq_id r0"] that True by auto
    ultimately show ?thesis by (auto simp: Cons)
  next
    case False
    then have "io_bind (pread_exact ?p ?P (?g * ?P)) (\<lambda>page. read_groups dir fsize ?rest
        (fold (\<lambda>q res. res[rq_input q := page_entry page (unat (rq_id q) mod ?e)]) ?grp res)) d = (r, d')"
      using prems(1) off by simp
    then show ?thesis
    proof (cases rule: io_bind_cases)
      case (1 e)
      note pr = pread_exact_result [OF 1(1)]
      have "?g * ?P + ?P \<le> length ?f" if "fsize = length ?f" using False that by simp
      then have "\<not> benign d \<or> fsize \<noteq> length ?f" using pr(5) by blast
      then show ?thesis using pr(1-3) 1(2) by auto
    next
      case (2 page d1)
      note pr = pread_exact_result [OF 2(1)]
      have page: "page = segment ?f (?g * ?P) ?P" using pr(4) by blast
      have grp: "page_entry page (unat (rq_id q) mod ?e) = dir_lookup ?f (rq_id q)" if "q \<in> set ?grp" for q
      proof -
        have "rq_page q = rq_page r0" and "q \<in> set (r0 # rs)" using that by (auto dest: set_takeWhileD)
        then have "unat (rq_id q) div ?e = ?g" using prems(2) pg by metis
        then show ?thesis using page_entry_lookup [OF args, of ?f "rq_id q"] by (simp add: page)
      qed
      let ?res = "fold (\<lambda>q res. res[rq_input q := dir_lookup ?f (rq_id q)]) ?grp res"
      have fe: "fold (\<lambda>q res. res[rq_input q := page_entry page (unat (rq_id q) mod ?e)]) ?grp res = ?res"
        by (rule fold_cong) (simp_all add: grp)
      have "length ?rest < length rqs"
        using length_dropWhile_le [of _ rs] by (simp add: Cons less_Suc_eq_le)
      moreover have "read_groups dir fsize ?rest ?res d1 = (r, d')" using 2(2) by (simp only: fe)
      moreover have "\<forall>q \<in> set ?rest. rq_page q = unat (rq_id q) div ?e"
        using prems(2) by (auto dest: set_dropWhileD)
      ultimately have IH: "files d' = files d1 \<and> dirs d' = dirs d1 \<and> (benign d1 \<longrightarrow> benign d')
        \<and> (\<forall>ls. r = Inr ls \<longrightarrow>
            ls = fold (\<lambda>q res. res[rq_input q := dir_lookup (content d1 ?p) (rq_id q)]) ?rest ?res)
        \<and> (benign d1 \<longrightarrow> fsize = length (content d1 ?p) \<longrightarrow> ?P dvd fsize \<longrightarrow>
            (\<forall>q \<in> set ?rest. dir_has (content d1 ?p) (rq_id q)) \<longrightarrow> (\<exists>ls. r = Inr ls))"
        by (rule less.IH)
      have c: "content d1 ?p = ?f" using pr(1) by (rule content_cong)
      have F: "fold (\<lambda>q res. res[rq_input q := dir_lookup ?f (rq_id q)]) ?rest ?res
          = fold (\<lambda>q res. res[rq_input q := dir_lookup ?f (rq_id q)]) (r0 # rs) res"
        by (subst split) (simp only: fold_append comp_apply)
      have S: "set ?rest \<subseteq> set (r0 # rs)" by (auto dest: set_dropWhileD)
      show ?thesis unfolding Cons
      proof (intro conjI impI allI)
        show "files d' = files d" and "dirs d' = dirs d" using IH pr(1,2) by simp_all
        show "benign d'" if "benign d" using IH pr(3) that by blast
        show "ls = fold (\<lambda>q res. res[rq_input q := dir_lookup ?f (rq_id q)]) (r0 # rs) res"
          if "r = Inr ls" for ls
          using IH that unfolding c F by blast
        show "\<exists>ls. r = Inr ls"
          if "benign d" "fsize = length ?f" "?P dvd fsize" "\<forall>q \<in> set (r0 # rs). dir_has ?f (rq_id q)"
          using IH pr(3) that S unfolding c by blast
      qed
    qed
  qed
  qed
qed


lemma requests_of_set:
  "set (requests_of dir ids) =
    (\<lambda>i. \<lparr>rq_page = unat (ids ! i) div entries_per_page dir, rq_id = ids ! i, rq_input = i\<rparr>) ` {0..<length ids}"
  by (simp add: requests_of_def)

lemma requests_result:
  "fold (\<lambda>q res. res[rq_input q := h (rq_id q)]) (requests_of dir ids) (replicate (length ids) t) = map h ids"
proof -
  have "fold (\<lambda>q res. res[rq_input q := h (rq_id q)]) (requests_of dir ids) (replicate (length ids) t)
      = map (\<lambda>i. h (ids ! i)) [0..<length ids]"
    by (rule fold_assign_all) (auto simp: requests_of_set image_image)
  also have "\<dots> = map h ids" by (rule nth_equalityI) simp_all
  finally show ?thesis .
qed

lemma aligned_buffer_ok: "directory_args_ok dir \<Longrightarrow> aligned_buffer (dir_page_size dir) (dir_page_size dir) = Inr ()"
  using page_geometry(3) by (auto simp: aligned_buffer_def directory_args_ok_def)

lemma read_batch_result:
  assumes "directory_args_ok dir" and "read_batch dir ids d = (r, d')"
  shows "files d' = files d
    \<and> (\<forall>ls. r = Inr ls \<longrightarrow> ls = map (dir_lookup (content d (dir_path dir))) ids)
    \<and> (benign d \<and> files d (dir_path dir) \<noteq> None
        \<and> dir_page_size dir dvd length (content d (dir_path dir))
        \<and> (\<forall>i \<in> set ids. dir_has (content d (dir_path dir)) i)
        \<longrightarrow> r = Inr (map (dir_lookup (content d (dir_path dir))) ids))"
proof (cases "ids = []")
  case True
  then show ?thesis using assms(2) by (auto simp: read_batch_def)
next
  case False
  let ?p = "dir_path dir"
  have "io_bind (directory_size dir) (\<lambda>fsize.
       io_bind (io_lift (aligned_buffer (dir_page_size dir) (dir_page_size dir))) (\<lambda>_.
         read_groups dir fsize (requests_of dir ids) (replicate (length ids) tombstone))) d = (r, d')"
    using assms(2) False by (simp add: read_batch_def)
  then show ?thesis
  proof (cases rule: io_bind_cases)
    case (1 e)
    have "files d' = files d" by (rule conjunct1 [OF directory_size_result [OF 1(1)]])
    moreover have "\<not> (benign d \<and> files d ?p \<noteq> None \<and> dir_page_size dir dvd length (content d ?p))"
      using directory_size_result [OF 1(1)] by blast
    ultimately show ?thesis using 1(2) by blast
  next
    case (2 n d1)
    note ds = directory_size_result [OF 2(1)]
    have c: "content d1 ?p = content d ?p" using ds by (simp add: content_def)
    have rg: "read_groups dir n (requests_of dir ids) (replicate (length ids) tombstone) d1 = (r, d')"
      using 2(2) by (simp add: aligned_buffer_ok [OF assms(1)])
    have pages: "\<forall>q \<in> set (requests_of dir ids). rq_page q = unat (rq_id q) div entries_per_page dir"
      by (auto simp: requests_of_set)
    note g = read_groups_result [OF rg assms(1) pages, unfolded requests_result c]
    have "(\<forall>q \<in> set (requests_of dir ids). dir_has f (rq_id q)) \<longleftrightarrow> (\<forall>i \<in> set ids. dir_has f i)" for f
    proof -
      have "rq_id ` set (requests_of dir ids) = set ids"
        by (simp add: requests_of_set image_image) (auto simp: set_conv_nth)
      then show ?thesis by (metis (no_types, lifting) image_iff)
    qed
    note has = this
    show ?thesis
    proof (intro conjI allI impI)
      show "files d' = files d" by (rule trans [OF conjunct1 [OF g] conjunct1 [OF ds]])
      show "ls = map (dir_lookup (content d ?p)) ids" if "r = Inr ls" for ls using g that by blast
      assume b: "benign d \<and> files d ?p \<noteq> None \<and> dir_page_size dir dvd length (content d ?p)
          \<and> (\<forall>i \<in> set ids. dir_has (content d ?p) i)"
      then have "Inr n = (Inr (length (content d ?p)) :: nat res)" using ds by blast
      then have "n = length (content d ?p)" by simp
      then have "\<exists>ls. r = Inr ls" using g b ds has by blast
      then show "r = Inr (map (dir_lookup (content d ?p)) ids)" using g by blast
    qed
  qed
qed


text \<open>
  Batched directory reads. Under every outcome script a read changes no file; a normal return
  is the list of the stored entries of the ids, in input order and with repetitions; and it returns
  normally when the file exists, is page aligned, contains all the ids, and no call fails.
\<close>

theorem read_batch_correct:
  assumes "directory_args_ok dir" and "read_batch dir ids d = (r, d')"
  shows "files d' = files d
    \<and> (\<forall>ls. r = Inr ls \<longrightarrow> ls = map (dir_lookup (content d (dir_path dir))) ids)
    \<and> (benign d \<and> files d (dir_path dir) \<noteq> None
        \<and> dir_page_size dir dvd length (content d (dir_path dir))
        \<and> (\<forall>i \<in> set ids. dir_has (content d (dir_path dir)) i)
        \<longrightarrow> r = Inr (map (dir_lookup (content d (dir_path dir))) ids))"
  by (rule read_batch_result [OF assms])

section \<open>Writes\<close>

definition slot :: "directory \<Rightarrow> u32 \<Rightarrow> nat" where
  "slot dir i = unat i mod entries_per_page dir"

lemma page_slot_inject:
  "unat i div entries_per_page dir = unat j div entries_per_page dir \<Longrightarrow> slot dir i = slot dir j \<Longrightarrow> i = j"
  for i j :: u32
  by (metis slot_def div_mult_mod_eq word_unat_eq_iff)

lemma slot_in_page: "directory_args_ok dir \<Longrightarrow> slot dir i * entry_bytes + entry_bytes \<le> dir_page_size dir"
  using entry_in_page [of dir i] by (simp add: slot_def)

lemma apply_updates_Cons:
  "apply_updates dir (u # us) page = apply_updates dir us (set_page_entry (slot dir (fst u)) (snd u) page)"
  by (simp add: apply_updates_def slot_def)

lemma apply_updates_Nil [simp]: "apply_updates dir [] page = page"
  by (simp add: apply_updates_def)

lemma length_set_page_entry:
  "directory_args_ok dir \<Longrightarrow> length page = dir_page_size dir \<Longrightarrow>
    length (set_page_entry (slot dir i) l page) = dir_page_size dir"
  using slot_in_page [of dir i] by (simp add: set_page_entry_def)

lemma length_apply_updates:
  "directory_args_ok dir \<Longrightarrow> length page = dir_page_size dir \<Longrightarrow>
    length (apply_updates dir us page) = dir_page_size dir"
  by (induction us arbitrary: page) (simp_all add: apply_updates_Cons length_set_page_entry)

text \<open>A byte that no updated slot covers keeps its value; slots are disjoint eight-byte ranges.\<close>

lemma apply_updates_other:
  assumes "directory_args_ok dir" and "length page = dir_page_size dir" and "b < dir_page_size dir"
    and "\<forall>u \<in> set us. slot dir (fst u) \<noteq> b div entry_bytes"
  shows "apply_updates dir us page ! b = page ! b"
  using assms
proof (induction us arbitrary: page)
  case (Cons u us)
  let ?k = "slot dir (fst u)"
  have "?k \<noteq> b div entry_bytes" using Cons.prems(4) by simp
  then have "\<not> (?k * entry_bytes \<le> b \<and> b < ?k * entry_bytes + entry_bytes)"
    by (simp add: entry_bytes_def) linarith
  then have "set_page_entry ?k (snd u) page ! b = page ! b"
    using slot_in_page [OF Cons.prems(1), of "fst u"] Cons.prems(2,3)
    by (auto simp: set_page_entry_def nth_patch)
  then show ?case
    using Cons.IH [OF Cons.prems(1) length_set_page_entry [OF Cons.prems(1,2)] Cons.prems(3)] Cons.prems(4)
    by (simp add: apply_updates_Cons)
qed simp

lemma page_entry_cong:
  assumes "length p = length q" and "k * entry_bytes + entry_bytes \<le> length p"
    and "\<And>b. b < length p \<Longrightarrow> b div entry_bytes = k \<Longrightarrow> p ! b = q ! b"
  shows "page_entry p k = page_entry q k"
proof -
  have "segment p (k * entry_bytes) entry_bytes = segment q (k * entry_bytes) entry_bytes"
    using assms by (intro nth_equalityI) (simp_all add: nth_segment entry_bytes_def)
  then show ?thesis by (simp add: page_entry_def)
qed

lemma page_entry_set:
  assumes "k * entry_bytes + entry_bytes \<le> length page"
  shows "page_entry (set_page_entry k l page) k = l"
  using segment_patch_same [of "k * entry_bytes" page "encode_location l"] assms
  by (simp add: page_entry_def set_page_entry_def)

lemma apply_updates_entry:
  assumes "directory_args_ok dir" and "length page = dir_page_size dir"
    and "\<forall>u \<in> set us. update_page dir u = g" and "distinct (map fst us)" and "unat i div entries_per_page dir = g"
  shows "page_entry (apply_updates dir us page) (slot dir i) =
    (case map_of us i of Some l \<Rightarrow> l | None \<Rightarrow> page_entry page (slot dir i))"
  using assms
proof (induction us arbitrary: page)
  case (Cons u us)
  note args = Cons.prems(1)
  let ?page = "set_page_entry (slot dir (fst u)) (snd u) page"
  have L: "length ?page = dir_page_size dir" by (rule length_set_page_entry [OF args Cons.prems(2)])
  have IH: "page_entry (apply_updates dir us ?page) (slot dir i) =
      (case map_of us i of Some l \<Rightarrow> l | None \<Rightarrow> page_entry ?page (slot dir i))"
    using Cons.prems by (intro Cons.IH args L) simp_all
  show ?case
  proof (cases "i = fst u")
    case True
    then have "map_of us i = None" using Cons.prems(4) by (simp add: map_of_eq_None_iff)
    then show ?thesis
      using IH True page_entry_set [of "slot dir i" page "snd u"] slot_in_page [OF args, of i] Cons.prems(2)
      by (simp add: apply_updates_Cons)
  next
    case False
    then have "slot dir (fst u) \<noteq> slot dir i"
      using page_slot_inject [of "fst u" dir i] Cons.prems(3,5) by (auto simp: update_page_def)
    then have "?page ! b = page ! b" if "b < length ?page" "b div entry_bytes = slot dir i" for b
      using apply_updates_other [OF args Cons.prems(2), of b "[u]"] that L
      by (simp add: apply_updates_Cons)
    then have "page_entry ?page (slot dir i) = page_entry page (slot dir i)"
      using slot_in_page [OF args, of i] L Cons.prems(2) by (intro page_entry_cong) simp_all
    then show ?thesis using IH False by (cases "map_of us i") (simp_all add: apply_updates_Cons)
  qed
qed simp


text \<open>
  What a batch of updates makes of an entry: the update, the old entry, a tombstone in a page that the
  batch appended, and zeros in a page that it skipped over.
\<close>

definition entry_after :: "directory \<Rightarrow> bytes \<Rightarrow> update list \<Rightarrow> u32 \<Rightarrow> disk_location" where
  "entry_after dir f us i =
    (case map_of us i of
       Some l \<Rightarrow> l
     | None \<Rightarrow> if dir_has f i then dir_lookup f i
               else if unat i div entries_per_page dir \<in> update_page dir ` set us then tombstone
               else \<lparr>dl_list = 0, dl_offset = 0\<rparr>)"

lemma decode_zeros: "decode_location (replicate entry_bytes 0) = \<lparr>dl_list = 0, dl_offset = 0\<rparr>"
  by (simp add: decode_location_def entry_bytes_def of_le32_def numeral_eq_Suc)

lemma decode_ones: "decode_location (replicate entry_bytes 255) = tombstone"
proof -
  have "of_le32 [255, 255, 255, 255] = - 1" unfolding of_le32_def by (simp; code_simp)
  then show ?thesis by (simp add: decode_location_def entry_bytes_def tombstone_def numeral_eq_Suc)
qed

definition page_before :: "directory \<Rightarrow> bytes \<Rightarrow> nat \<Rightarrow> bytes" where
  "page_before dir f g =
    (if g * dir_page_size dir < length f then segment f (g * dir_page_size dir) (dir_page_size dir)
     else replicate (dir_page_size dir) 255)"

lemma page_inside:
  fixes g P n :: nat
  assumes "P dvd n" and "g * P < n"
  shows "g * P + P \<le> n"
proof -
  obtain m where m: "n = P * m" using assms(1) by (rule dvdE)
  then have "Suc g * P \<le> m * P" using assms(2) by (intro mult_le_mono1) (simp add: mult.commute)
  then show ?thesis by (simp add: m mult.commute)
qed

lemma length_page_before:
  assumes "dir_page_size dir dvd length f"
  shows "length (page_before dir f g) = dir_page_size dir"
  using page_inside [OF assms, of g] by (simp add: page_before_def)

lemma dir_has_page:
  assumes "directory_args_ok dir" and "dir_page_size dir dvd length f"
  shows "dir_has f i \<longleftrightarrow> unat i div entries_per_page dir * dir_page_size dir < length f"
proof
  assume "dir_has f i"
  from whole_page [OF assms this] show "unat i div entries_per_page dir * dir_page_size dir < length f"
    using page_geometry(3) [OF assms(1)] by simp
next
  assume "unat i div entries_per_page dir * dir_page_size dir < length f"
  from page_inside [OF assms(2) this] show "dir_has f i"
    using entry_in_page [OF assms(1), of i] entry_position [OF assms(1), of i] by (simp add: dir_has_def)
qed

text \<open>One rewritten page: all of it, and any prefix of it.\<close>

lemma write_page_frame:
  assumes "directory_args_ok dir" and "dir_page_size dir dvd length f"
    and "\<forall>u \<in> set us. update_page dir u = g" and "dir_has f i" and "i \<notin> fst ` set us"
  shows "dir_lookup (file_write f (g * dir_page_size dir) (take n (apply_updates dir us (page_before dir f g)))) i
    = dir_lookup f i"
proof (rule lookup_cong [OF assms(4) length_file_write_ge])
  let ?P = "dir_page_size dir" and ?buf = "apply_updates dir us (page_before dir f g)"
  let ?f = "file_write f (g * ?P) (take n ?buf)"
  fix j assume j: "unat i * entry_bytes \<le> j" "j < unat i * entry_bytes + entry_bytes"
  have jf: "j < length f" using assms(4) j by (simp add: dir_has_def)
  then have jl: "j < length ?f" using length_file_write_ge [of f "g * ?P" "take n ?buf"] by simp
  have L: "length ?buf = ?P" by (rule length_apply_updates [OF assms(1) length_page_before [OF assms(2)]])
  show "?f ! j = f ! j"
  proof (cases "g * ?P \<le> j \<and> j < g * ?P + length (take n ?buf)")
    case False
    then show ?thesis using nth_file_write [OF jl] jf by auto
  next
    case True
    then have b: "j - g * ?P < ?P" using L by auto
    let ?gi = "unat i div entries_per_page dir"
    have pos: "unat i * entry_bytes = ?gi * ?P + slot dir i * entry_bytes"
      using entry_position [OF assms(1), of i] by (simp add: slot_def)
    have in_i: "?gi * ?P \<le> j" "j < ?gi * ?P + ?P" using j pos slot_in_page [OF assms(1), of i] by simp_all
    have g: "?gi = g"
    proof -
      have "j div ?P = ?gi" using in_i by (intro div_nat_eqI) (simp_all add: mult.commute)
      moreover have "j div ?P = g" using True b by (intro div_nat_eqI) (simp_all add: mult.commute)
      ultimately show ?thesis by simp
    qed
    have "(j - g * ?P) div entry_bytes = slot dir i"
      using j pos g by (intro div_nat_eqI) (simp_all add: mult.commute)
    moreover have "slot dir (fst u) \<noteq> slot dir i" if "u \<in> set us" for u
      using page_slot_inject [of "fst u" dir i] assms(3,5) that g by (auto simp: update_page_def)
    ultimately have "?buf ! (j - g * ?P) = page_before dir f g ! (j - g * ?P)"
      using apply_updates_other [OF assms(1) length_page_before [OF assms(2)] b] by metis
    moreover have "page_before dir f g ! (j - g * ?P) = f ! j"
      using True jf b page_inside [OF assms(2), of g] by (simp add: page_before_def nth_segment)
    moreover have "j - g * ?P < n" using True by auto
    ultimately show ?thesis using nth_file_write [OF jl] True by simp
  qed
qed


lemma write_page_length:
  assumes "directory_args_ok dir" and "dir_page_size dir dvd length f"
  shows "length (file_write f (g * dir_page_size dir) (apply_updates dir us (page_before dir f g)))
    = max (length f) (g * dir_page_size dir + dir_page_size dir)"
proof -
  have L: "length (apply_updates dir us (page_before dir f g)) = dir_page_size dir"
    by (rule length_apply_updates [OF assms(1) length_page_before [OF assms(2)]])
  then have "apply_updates dir us (page_before dir f g) \<noteq> []" using page_geometry(3) [OF assms(1)] by auto
  then show ?thesis by (simp add: length_file_write L)
qed

lemma write_page_entries:
  assumes "directory_args_ok dir" and "dir_page_size dir dvd length f" and "us \<noteq> []"
    and "\<forall>u \<in> set us. update_page dir u = g" and "distinct (map fst us)"
  defines "f' \<equiv> file_write f (g * dir_page_size dir) (apply_updates dir us (page_before dir f g))"
  assumes "dir_has f' i"
  shows "dir_lookup f' i = entry_after dir f us i"
proof -
  let ?P = "dir_page_size dir" and ?page = "page_before dir f g" and ?gi = "unat i div entries_per_page dir"
  let ?buf = "apply_updates dir us ?page"
  have LP: "length ?page = ?P" by (rule length_page_before [OF assms(2)])
  have L: "length ?buf = ?P" by (rule length_apply_updates [OF assms(1) LP])
  have len: "length f' = max (length f) (g * ?P + ?P)"
    unfolding f'_def by (rule write_page_length [OF assms(1,2)])
  have pages: "update_page dir ` set us = {g}" using assms(3,4) by (cases us) auto
  show ?thesis
  proof (cases "?gi = g")
    case True
    have "segment f' (g * ?P) ?P = ?buf"
      using len nth_file_write [of _ f "g * ?P" ?buf] L
      by (intro nth_equalityI) (auto simp: nth_segment f'_def [symmetric])
    then have "dir_lookup f' i = page_entry ?buf (slot dir i)"
      using page_entry_lookup [OF assms(1), of f' i] True by (simp add: slot_def)
    also have "\<dots> = (case map_of us i of Some l \<Rightarrow> l | None \<Rightarrow> page_entry ?page (slot dir i))"
      by (rule apply_updates_entry [OF assms(1) LP assms(4,5) True])
    also have "page_entry ?page (slot dir i) = (if dir_has f i then dir_lookup f i else tombstone)"
    proof (cases "g * ?P < length f")
      case True
      then show ?thesis
        using page_entry_lookup [OF assms(1), of f i] dir_has_page [OF assms(1,2), of i] \<open>?gi = g\<close>
        by (simp add: page_before_def slot_def)
    next
      case False
      have "segment (replicate ?P (255 :: u8)) (slot dir i * entry_bytes) entry_bytes = replicate entry_bytes 255"
        using slot_in_page [OF assms(1), of i] by (intro nth_equalityI) (simp_all add: nth_segment)
      then show ?thesis
        using False dir_has_page [OF assms(1,2), of i] \<open>?gi = g\<close> by (simp add: page_before_def page_entry_def decode_ones)
    qed
    finally show ?thesis using True by (simp add: entry_after_def pages)
  next
    case False
    have none: "map_of us i = None"
      using False assms(4) by (auto simp: map_of_eq_None_iff update_page_def)
    have ps: "unat i * entry_bytes = ?gi * ?P + slot dir i * entry_bytes"
      using entry_position [OF assms(1), of i] by (simp add: slot_def)
    have out: "f' ! j = (if j < length f then f ! j else 0)"
      if j: "unat i * entry_bytes \<le> j" "j < unat i * entry_bytes + entry_bytes" for j
    proof -
      have "j < length f'" using assms(7) j by (simp add: dir_has_def)
      moreover have "j div ?P = ?gi"
        using j ps slot_in_page [OF assms(1), of i] by (intro div_nat_eqI) (simp_all add: mult.commute)
      then have "\<not> (g * ?P \<le> j \<and> j < g * ?P + ?P)"
        using False div_nat_eqI [of ?P g j] by (auto simp: mult.commute)
      ultimately show ?thesis using nth_file_write [of j f "g * ?P" ?buf] L by (auto simp: f'_def)
    qed
    show ?thesis
    proof (cases "dir_has f i")
      case True
      then have "dir_lookup f' i = dir_lookup f i"
        using len out by (intro lookup_cong) (auto simp: dir_has_def)
      then show ?thesis using True none by (simp add: entry_after_def)
    next
      case nh: False
      have "length f \<le> ?gi * ?P" using nh dir_has_page [OF assms(1,2), of i] by simp
      then have "segment f' (unat i * entry_bytes) entry_bytes = replicate entry_bytes 0"
        using out ps assms(7) by (intro nth_equalityI) (simp_all add: nth_segment dir_has_def)
      then have "dir_lookup f' i = \<lparr>dl_list = 0, dl_offset = 0\<rparr>" by (simp add: dir_lookup_def decode_zeros)
      then show ?thesis using nh none False by (simp add: entry_after_def pages)
    qed
  qed
qed

lemma entry_after_append:
  assumes "directory_args_ok dir" and "dir_page_size dir dvd length f" and "length f' = max (length f) (g * dir_page_size dir + dir_page_size dir)"
    and "us \<noteq> []" and "\<forall>u \<in> set us. update_page dir u = g" and "\<forall>u \<in> set vs. g < update_page dir u"
    and "\<forall>i. dir_has f' i \<longrightarrow> dir_lookup f' i = entry_after dir f us i" and "distinct (map fst (us @ vs))"
  shows "entry_after dir f' vs i = entry_after dir f (us @ vs) i"
proof -
  let ?P = "dir_page_size dir" and ?gi = "unat i div entries_per_page dir"
  have pages: "update_page dir ` set us = {g}" using assms(4,5) by (cases us) auto
  have P': "?P dvd length f'" unfolding assms(3) using assms(2) by (auto simp: max_def)
  have has: "dir_has f' i \<longleftrightarrow> dir_has f i \<or> ?gi \<le> g"
    unfolding dir_has_page [OF assms(1,2)] dir_has_page [OF assms(1) P'] assms(3)
    using page_geometry(3) [OF assms(1)] mult_less_cancel2 [of ?gi ?P "Suc g"] by (auto simp: less_max_iff_disj)
  show ?thesis
  proof (cases "map_of vs i")
    case (Some l)
    then have "i \<in> fst ` set vs" by (auto dest!: map_of_SomeD intro!: image_eqI)
    then have "map_of us i = None" using assms(8) by (auto simp: map_of_eq_None_iff)
    then show ?thesis using Some by (simp add: entry_after_def map_add_def)
  next
    case None
    show ?thesis
    proof (cases "dir_has f' i")
      case True
      then have "?gi \<notin> update_page dir ` set vs \<or> dir_has f i" using has assms(6) by fastforce
      then show ?thesis using True None assms(7) pages by (auto simp: entry_after_def map_add_def split: option.splits)
    next
      case False
      then have "?gi \<noteq> g" "\<not> dir_has f i" using has by auto
      moreover from this(1) have "map_of us i = None"
        using assms(5) by (auto simp: map_of_eq_None_iff update_page_def)
      ultimately show ?thesis using None False pages by (simp add: entry_after_def map_add_def image_Un)
    qed
  qed
qed


text \<open>What a run of \<open>write_groups\<close> or \<open>write_batch\<close> guarantees, on success and on every failure.\<close>

definition updates_ok :: "directory \<Rightarrow> update list \<Rightarrow> disk \<Rightarrow> disk \<Rightarrow> bool" where
  "updates_ok dir us d d' \<longleftrightarrow>
    dir_page_size dir dvd length (content d' (dir_path dir))
    \<and> (\<forall>u \<in> set us. dir_has (content d' (dir_path dir)) (fst u))
    \<and> (\<forall>i. dir_has (content d' (dir_path dir)) i \<longrightarrow>
        dir_lookup (content d' (dir_path dir)) i = entry_after dir (content d (dir_path dir)) us i)"

definition untouched_kept :: "directory \<Rightarrow> update list \<Rightarrow> disk \<Rightarrow> disk \<Rightarrow> bool" where
  "untouched_kept dir us d d' \<longleftrightarrow> others_kept (dir_path dir) d d'
    \<and> length (content d (dir_path dir)) \<le> length (content d' (dir_path dir))
    \<and> (\<forall>i. dir_has (content d (dir_path dir)) i \<longrightarrow> i \<notin> fst ` set us \<longrightarrow>
        dir_lookup (content d' (dir_path dir)) i = dir_lookup (content d (dir_path dir)) i)"

lemma untouched_kept_same:
  "files d' = files d \<Longrightarrow> dirs d' = dirs d \<Longrightarrow> untouched_kept dir us d d'"
  by (simp add: untouched_kept_def others_kept_same content_def)

lemma untouched_kept_trans:
  assumes "untouched_kept dir us a b" and "untouched_kept dir vs b c" and "set us \<union> set vs \<subseteq> set ws"
  shows "untouched_kept dir ws a c"
  unfolding untouched_kept_def
proof (intro conjI allI impI)
  show "others_kept (dir_path dir) a c"
    using assms(1,2) others_kept_trans unfolding untouched_kept_def by blast
  show "length (content a (dir_path dir)) \<le> length (content c (dir_path dir))"
    using assms(1,2) unfolding untouched_kept_def by linarith
  fix i assume i: "dir_has (content a (dir_path dir)) i" "i \<notin> fst ` set ws"
  then have "dir_has (content b (dir_path dir)) i"
    using assms(1) by (auto simp: untouched_kept_def dir_has_def)
  moreover have "i \<notin> fst ` set us" "i \<notin> fst ` set vs" using i(2) assms(3) by auto
  ultimately show "dir_lookup (content c (dir_path dir)) i = dir_lookup (content a (dir_path dir)) i"
    using assms(1,2) i(1) by (simp add: untouched_kept_def)
qed

lemma write_page_untouched:
  assumes "directory_args_ok dir" and "dir_page_size dir dvd length (content d (dir_path dir))"
    and "\<forall>u \<in> set us. update_page dir u = g" and "others_kept (dir_path dir) d d'"
    and "content d' (dir_path dir) = file_write (content d (dir_path dir)) (g * dir_page_size dir)
      (take n (apply_updates dir us (page_before dir (content d (dir_path dir)) g)))"
  shows "untouched_kept dir us d d'"
  unfolding untouched_kept_def assms(5)
  using assms(4) write_page_frame [OF assms(1-3)] length_file_write_ge by blast

lemma write_groups_result:
  assumes "write_groups dir fsize us d = (r, d')" and args: "directory_args_ok dir"
    and "fsize = length (content d (dir_path dir))" and "dir_page_size dir dvd fsize"
    and "sorted (map (update_page dir) us)" and "distinct (map fst us)"
  shows "untouched_kept dir us d d' \<and> (benign d \<longrightarrow> benign d' \<and> (\<exists>n. r = Inr n))
    \<and> (\<forall>n. r = Inr n \<longrightarrow> n = length (content d' (dir_path dir)) \<and> updates_ok dir us d d')"
  using assms(1,3-6)
proof (induction us arbitrary: fsize d rule: measure_induct_rule [where f = length])
  case (less uss)
  note prem = less.prems
  let ?p = "dir_path dir" and ?P = "dir_page_size dir"
  let ?f = "content d ?p"
  have dv: "?P dvd length ?f" using prem(2,3) by simp
  show ?case
  proof (cases uss)
    case Nil
    then show ?thesis
      using prem dv by (auto simp: untouched_kept_same updates_ok_def entry_after_def)
  next
    case (Cons u us)
    let ?g = "update_page dir u"
    let ?grp = "u # takeWhile (\<lambda>v. update_page dir v = ?g) us"
    let ?rest = "dropWhile (\<lambda>v. update_page dir v = ?g) us"
    have app: "uss = ?grp @ ?rest" by (simp add: Cons)
    note grp = sorted_group_split [OF prem(4) [unfolded Cons]]
    have "distinct (map fst (?grp @ ?rest))" using prem(5) by (simp only: app [symmetric])
    then have dist: "distinct (map fst ?grp)" "distinct (map fst ?rest)"
      unfolding map_append distinct_append by blast+
    have parts: "set uss = set ?grp \<union> set ?rest" by (subst app) (rule set_append)
    then have sub: "set ?grp \<subseteq> set uss" "set ?rest \<subseteq> set uss" "set [] \<subseteq> set uss" by auto
    have off: "checked_offset ?g ?P = Inr (?g * ?P)" by (simp add: update_page_def checked_offset_ok [OF args])
    let ?buf = "apply_updates dir ?grp (page_before dir ?f ?g)"
    have "io_bind (if ?g * ?P < fsize then pread_exact ?p ?P (?g * ?P) else io_return (replicate ?P 255)) (\<lambda>page.
        io_bind (pwrite_exact ?p (apply_updates dir ?grp page) (?g * ?P))
          (\<lambda>_. write_groups dir (max fsize (?g * ?P + ?P)) ?rest)) d = (r, d')"
      using prem(1) off by (simp add: Cons)
    then show ?thesis
    proof (cases rule: io_bind_cases)
      case (1 e)
      then have lt: "?g * ?P < fsize" and "pread_exact ?p ?P (?g * ?P) d = (Inl e, d')" by (auto split: if_splits)
      note pr = pread_exact_result [OF this(2)]
      have "\<not> benign d" using pr(5) page_inside [OF prem(3) lt] prem(2) by blast
      then show ?thesis using pr(1,2) 1(2) by (simp add: untouched_kept_same)
    next
      case (2 page d1)
      have R: "files d1 = files d \<and> dirs d1 = dirs d \<and> (benign d \<longrightarrow> benign d1) \<and> page = page_before dir ?f ?g"
      proof (cases "?g * ?P < fsize")
        case True
        then have "pread_exact ?p ?P (?g * ?P) d = (Inr page, d1)" using 2(1) by simp
        note pr = pread_exact_result [OF this]
        show ?thesis using pr(1-4) True prem(2) by (simp add: page_before_def)
      next
        case False
        then show ?thesis using 2(1) prem(2) by (simp add: page_before_def)
      qed
      have c1: "content d1 ?p = ?f" using R by (simp add: content_def)
      have "io_bind (pwrite_exact ?p ?buf (?g * ?P)) (\<lambda>_. write_groups dir (max fsize (?g * ?P + ?P)) ?rest) d1 = (r, d')"
        using 2(2) R by simp
      then show ?thesis
      proof (cases rule: io_bind_cases)
        case (1 e)
        from pwrite_exact_failed [OF 1(1)] obtain n where
          n: "content d' ?p = file_write (content d1 ?p) (?g * ?P) (take n ?buf)"
          "\<not> benign d1" "others_kept ?p d1 d'" by blast
        have "others_kept ?p d d'" using n(3) others_kept_same R others_kept_trans by metis
        then have "untouched_kept dir ?grp d d'"
          by (rule write_page_untouched [OF args dv grp(1)]) (simp add: n(1) c1)
        then have "untouched_kept dir uss d d'"
          by (rule untouched_kept_trans [OF _ untouched_kept_same [OF refl refl, of _ "[]"]])
            (use sub in blast)
        then show ?thesis using n(2) R 1(2) by auto
      next
        case (2 x d2)
        have w: "content d2 ?p = file_write (content d1 ?p) (?g * ?P) ?buf" "others_kept ?p d1 d2"
          "benign d1 \<longrightarrow> benign d2" using pwrite_exact_done [OF 2(1)] by blast+
        have c2: "content d2 ?p = file_write ?f (?g * ?P) ?buf" using w(1) c1 by simp
        have "others_kept ?p d d2" using w(2) others_kept_same R others_kept_trans by metis
        then have U: "untouched_kept dir ?grp d d2"
          using write_page_untouched [OF args dv grp(1), of d2 "length ?buf"] c2 by simp
        have len: "length (content d2 ?p) = max (length ?f) (?g * ?P + ?P)"
          unfolding c2 by (rule write_page_length [OF args dv])
        have ents: "\<forall>i. dir_has (content d2 ?p) i \<longrightarrow> dir_lookup (content d2 ?p) i = entry_after dir ?f ?grp i"
          unfolding c2 using write_page_entries [OF args dv _ grp(1) dist(1)] by blast
        have sh: "length ?rest < length uss" by (simp add: Cons less_Suc_eq_le length_dropWhile_le)
        have fs: "max fsize (?g * ?P + ?P) = length (content d2 ?p)" using len prem(2) by simp
        have dv2: "?P dvd max fsize (?g * ?P + ?P)" using prem(3) by (auto simp: max_def)
        note IH = less.IH [OF sh 2(2) fs dv2 grp(3) dist(2)]
        have U': "untouched_kept dir uss d d'"
          by (rule untouched_kept_trans [OF U conjunct1 [OF IH]])
            (use sub in blast)
        have ok: "updates_ok dir uss d d'" if "updates_ok dir ?rest d2 d'"
          unfolding updates_ok_def
        proof (intro conjI ballI allI impI)
          show "?P dvd length (content d' ?p)" using that by (simp add: updates_ok_def)
          have A: "entry_after dir (content d2 ?p) ?rest i = entry_after dir ?f uss i" for i
            using entry_after_append [OF args dv len _ grp(1,2) ents] prem(5) app by simp
          show "dir_lookup (content d' ?p) i = entry_after dir ?f uss i" if "dir_has (content d' ?p) i" for i
            using \<open>updates_ok dir ?rest d2 d'\<close> that A by (simp add: updates_ok_def)
          fix v assume "v \<in> set uss"
          then consider "v \<in> set ?grp" | "v \<in> set ?rest" unfolding parts by blast
          then show "dir_has (content d' ?p) (fst v)"
          proof cases
            case 1
            then have "update_page dir v = ?g" using grp(1) by blast
            moreover have "?P dvd length (content d2 ?p)" using dv2 fs by simp
            ultimately have "dir_has (content d2 ?p) (fst v)"
              using dir_has_page [OF args, of "content d2 ?p" "fst v"] len page_geometry(3) [OF args]
              by (simp add: update_page_def less_max_iff_disj)
            moreover have "length (content d2 ?p) \<le> length (content d' ?p)"
              using IH by (simp add: untouched_kept_def)
            ultimately show ?thesis by (simp add: dir_has_def)
          next
            case 2
            then show ?thesis using that by (simp add: updates_ok_def)
          qed
        qed
        show ?thesis using U' ok IH w(3) R by blast
      qed
    qed
  qed
qed


subsection \<open>The batch\<close>

lemma file_truncate_self [simp]: "file_truncate f (length f) = f"
  by (simp add: file_truncate_def)

lemma distinct_adj_sorted: "sorted xs \<Longrightarrow> distinct_adj xs \<Longrightarrow> distinct (xs :: nat list)"
proof (induction xs rule: induct_list012)
  case (3 x y zs)
  then show ?case by (auto simp: order_le_less)
qed auto

lemma sorted_updates:
  fixes ups :: "update list"
  defines "us \<equiv> sort_key (\<lambda>u. unat (fst u)) ups"
  shows "distinct_adj (map fst us) \<longleftrightarrow> distinct (map fst ups)" and "sorted (map (update_page dir) us)"
    and "set us = set ups"
    and "distinct (map fst ups) \<Longrightarrow> map_of us = map_of ups"
proof -
  have m: "mset us = mset ups" by (simp add: us_def)
  have s: "sorted (map (\<lambda>u. unat (fst u)) us)" by (simp add: us_def)
  have "distinct (map fst us) \<longleftrightarrow> distinct (map fst ups)"
    by (metis m mset_eq_imp_distinct_iff mset_map)
  moreover have "distinct_adj (map fst us) \<longleftrightarrow> distinct (map fst us)"
  proof
    assume "distinct_adj (map fst us)"
    then have "distinct_adj (map unat (map fst us))" by (subst distinct_adj_map_iff) (simp_all add: inj_on_def word_unat_eq_iff)
    then have "distinct (map unat (map fst us))"
      using s by (intro distinct_adj_sorted) (simp_all add: comp_def)
    then show "distinct (map fst us)" by (simp only: distinct_map)
  next
    assume "distinct (map fst us)"
    then show "distinct_adj (map fst us)" by (auto simp: distinct_adj_conv_nth nth_eq_iff_index_eq simp del: nth_map)
  qed
  ultimately show "distinct_adj (map fst us) \<longleftrightarrow> distinct (map fst ups)" by simp
  show "sorted (map (update_page dir) us)"
    using s by (induction us) (auto simp: update_page_def intro: div_le_mono)
  show st: "set us = set ups" by (simp add: us_def)
  show "map_of us = map_of ups" if "distinct (map fst ups)"
    using that \<open>distinct (map fst us) \<longleftrightarrow> distinct (map fst ups)\<close> st by (metis map_of_inject_set)
qed

lemma write_batch_result:
  assumes "directory_args_ok dir" and "write_batch dir ups d = (r, d')"
  shows "(\<not> distinct (map fst ups) \<longrightarrow> d' = d \<and> r = Inl (Invalid_argument ''duplicate Logical ID directory update''))
    \<and> untouched_kept dir ups d d'
    \<and> (r = Inr () \<and> ups \<noteq> [] \<longrightarrow> updates_ok dir ups d d')
    \<and> (benign d \<and> files d (dir_path dir) \<noteq> None \<and> dir_page_size dir dvd length (content d (dir_path dir))
        \<and> distinct (map fst ups) \<longrightarrow> r = Inr () \<and> benign d')"
proof -
  let ?us = "sort_key (\<lambda>u. unat (fst u)) ups" and ?p = "dir_path dir" and ?P = "dir_page_size dir"
  consider "ups = []" | "ups \<noteq> []" "\<not> distinct (map fst ups)" | "ups \<noteq> []" "distinct (map fst ups)" by blast
  then show ?thesis
  proof cases
    case 1
    then show ?thesis using assms(2) by (simp add: write_batch_def untouched_kept_same)
  next
    case 2
    then show ?thesis
      using assms(2) by (auto simp: write_batch_def sorted_updates(1) untouched_kept_same)
  next
    case 3
    have "distinct (map fst ?us)" using 3(2) sorted_updates(3) [of ups]
      by (metis mset_eq_imp_distinct_iff mset_map mset_sort)
    note D = this
    have "io_bind (directory_size dir) (\<lambda>fsize.
        io_bind (io_lift (aligned_buffer ?P ?P)) (\<lambda>_.
          io_bind (write_groups dir fsize ?us) (\<lambda>final.
            io_bind (sys_ftruncate (''ftruncate('' @ ?p @ '')'') ?p final) (\<lambda>_.
              sync_file (dir_sync dir))))) d = (r, d')"
      using assms(2) 3 by (simp add: write_batch_def sorted_updates(1) del: distinct_map)
    then show ?thesis
    proof (cases rule: io_bind_cases)
      case (1 e)
      note ds = directory_size_result [OF 1(1)]
      have "untouched_kept dir ups d d'" using ds untouched_kept_same by blast
      then show ?thesis using ds 3(2) 1(2) by auto
    next
      case (2 n d1)
      note ds = directory_size_result [OF 2(1)]
      have c1: "content d1 ?p = content d ?p" using ds by (simp add: content_def)
      have "n = length (content d1 ?p)" "?P dvd n" using ds unfolding c1 by blast+
      note geo = this
      have U1: "untouched_kept dir ups d d1" using ds untouched_kept_same by blast
      have "io_bind (write_groups dir n ?us) (\<lambda>final.
            io_bind (sys_ftruncate (''ftruncate('' @ ?p @ '')'') ?p final) (\<lambda>_. sync_file (dir_sync dir))) d1 = (r, d')"
        using 2(2) by (simp add: aligned_buffer_ok [OF assms(1)])
      then show ?thesis
      proof (cases rule: io_bind_cases)
        case (1 e)
        note g = write_groups_result [OF 1(1) assms(1) geo sorted_updates(2) D]
        have "untouched_kept dir ups d d'"
          by (rule untouched_kept_trans [OF U1 conjunct1 [OF g]]) (simp add: sorted_updates(3))
        then show ?thesis using g ds 3(2) 1(2) by blast
      next
        case (2 final d2)
        note g = write_groups_result [OF 2(1) assms(1) geo sorted_updates(2) D]
        have U2: "untouched_kept dir ups d d2"
          by (rule untouched_kept_trans [OF U1 conjunct1 [OF g]]) (simp add: sorted_updates(3))
        have fin: "final = length (content d2 ?p)" and ok2: "updates_ok dir ?us d1 d2" using g by blast+
        have tail: "content d' ?p = content d2 ?p \<and> others_kept ?p d2 d' \<and> (benign d2 \<longrightarrow> r = Inr () \<and> benign d')"
          using 2(2)
        proof (cases rule: io_bind_cases)
          case (1 e)
          note t = sys_ftruncate_result [OF 1(1)]
          then have "content d' ?p = content d2 ?p" by (simp add: content_def)
          then show ?thesis using t 1(2) by blast
        next
          case (2 x d3)
          note t = sys_ftruncate_result [OF 2(1)] and sy = sync_file_result [OF 2(2)]
          have "content d3 ?p = content d2 ?p" using t fin by simp
          then have "content d' ?p = content d2 ?p" using sy by (simp add: content_def)
          moreover have "others_kept ?p d2 d'"
            by (rule others_kept_trans [OF conjunct1 [OF t]]) (use sy in \<open>simp add: others_kept_same\<close>)
          ultimately show ?thesis using t sy by blast
        qed
        have c: "content d' ?p = content d2 ?p" using tail by blast
        have "others_kept ?p d2 d'" using tail by blast
        then have "others_kept ?p d d'" using U2 others_kept_trans unfolding untouched_kept_def by blast
        then have "untouched_kept dir ups d d'" using U2 by (simp add: untouched_kept_def c)
        moreover have "updates_ok dir ups d d'"
          using ok2 by (simp add: updates_ok_def entry_after_def c c1 sorted_updates(3) sorted_updates(4) [OF 3(2)])
        ultimately show ?thesis using tail g ds 3(2) by blast
      qed
    qed
  qed
qed


text \<open>
  C33. Batched directory writes. A batch with two updates of one id is refused before any call. On
  every other outcome, failures and torn page writes included, the entries of ids outside the batch
  keep their value and no other file changes. After a normal return the file is page aligned and
  every entry in it is as \<open>entry_after\<close> says: updated ids read back the update, old entries are
  kept, fresh entries of written pages are tombstones. A batch on an aligned existing file returns
  normally when no call fails.
\<close>

theorem write_batch_correct:
  assumes "directory_args_ok dir" and "write_batch dir ups d = (r, d')"
  shows "(\<not> distinct (map fst ups) \<longrightarrow> d' = d \<and> r = Inl (Invalid_argument ''duplicate Logical ID directory update''))
    \<and> untouched_kept dir ups d d'
    \<and> (r = Inr () \<and> ups \<noteq> [] \<longrightarrow> updates_ok dir ups d d')
    \<and> (benign d \<and> files d (dir_path dir) \<noteq> None \<and> dir_page_size dir dvd length (content d (dir_path dir))
        \<and> distinct (map fst ups) \<longrightarrow> r = Inr () \<and> benign d')"
  by (rule write_batch_result [OF assms])

section \<open>Concrete directories\<close>

text \<open>Eight-byte pages hold one entry each; ids 0 and 1 are stored.\<close>

definition small_directory :: directory where
  "small_directory = \<lparr>dir_path = ''locations.bin'', dir_page_size = 8, dir_direct_io = False, dir_sync = True\<rparr>"

definition small_disk :: disk where
  "small_disk = \<lparr>files = [''locations.bin'' \<mapsto>
      encode_location \<lparr>dl_list = 5, dl_offset = 9\<rparr> @ encode_location \<lparr>dl_list = 6, dl_offset = 2\<rparr>],
    dirs = {}, transfers = [Eintr, Xfer 3], faults = []\<rparr>"

lemma small_directory_ok: "directory_args_ok small_directory"
  by (simp add: directory_args_ok_def small_directory_def is_power_of_two_def pointer_size_def entry_bytes_def)

lemma small_disk_ok:
  "benign small_disk" "files small_disk (dir_path small_directory) \<noteq> None"
  "dir_page_size small_directory dvd length (content small_disk (dir_path small_directory))"
  "dir_has (content small_disk (dir_path small_directory)) 1"
  by (simp_all add: benign_def small_disk_def small_directory_def content_def dir_has_def entry_bytes_def)

lemma small_ids: "\<forall>i \<in> set [1, 1]. dir_has (content small_disk (dir_path small_directory)) i"
  using small_disk_ok(4) by simp

theorem read_batch_correct_witness:
  "\<exists>d'. read_batch small_directory [1, 1] small_disk =
    (Inr (map (dir_lookup (content small_disk (dir_path small_directory))) [1, 1]), d')"
proof -
  obtain r d' where r: "read_batch small_directory [1, 1] small_disk = (r, d')" by fastforce
  have "r = Inr (map (dir_lookup (content small_disk (dir_path small_directory))) [1, 1])"
    using read_batch_correct [OF small_directory_ok r] small_disk_ok small_ids by blast
  with r show ?thesis by blast
qed

theorem write_batch_correct_witness:
  "\<exists>d'. write_batch small_directory [(3, \<lparr>dl_list = 1, dl_offset = 1\<rparr>)] small_disk = (Inr (), d')
    \<and> updates_ok small_directory [(3, \<lparr>dl_list = 1, dl_offset = 1\<rparr>)] small_disk d'"
proof -
  obtain r d' where r: "write_batch small_directory [(3, \<lparr>dl_list = 1, dl_offset = 1\<rparr>)] small_disk = (r, d')"
    by fastforce
  note w = write_batch_correct [OF small_directory_ok r]
  have "r = Inr ()" using w small_disk_ok by simp
  then show ?thesis using w r by simp
qed

definition empty_directory_disk :: disk where
  "empty_directory_disk = \<lparr>files = [''locations.bin'' \<mapsto> []], dirs = {}, transfers = [], faults = []\<rparr>"

text \<open>
  The entries of a page that a write skips over are not tombstones: growing an empty directory by
  the entry of id 2 (one entry per page) leaves id 0 as the active location of list 0, offset 0,
  although the interface promises that all entries of a new page other than the written ones are
  tombstones.
\<close>

theorem skipped_page_reads_active:
  "\<exists>d1 d2. write_batch small_directory [(2, \<lparr>dl_list = 7, dl_offset = 4\<rparr>)] empty_directory_disk = (Inr (), d1)
    \<and> read_batch small_directory [0, 2] d1
      = (Inr [\<lparr>dl_list = 0, dl_offset = 0\<rparr>, \<lparr>dl_list = 7, dl_offset = 4\<rparr>], d2)
    \<and> location_active \<lparr>dl_list = 0, dl_offset = 0\<rparr>"
proof -
  let ?p = "dir_path small_directory" and ?u = "[(2 :: u32, \<lparr>dl_list = 7, dl_offset = 4\<rparr>)]"
  obtain r d1 where w: "write_batch small_directory ?u empty_directory_disk = (r, d1)" by fastforce
  note wr = write_batch_result [OF small_directory_ok w]
  have empty: "content empty_directory_disk ?p = []" "files empty_directory_disk ?p \<noteq> None" "benign empty_directory_disk"
    by (simp_all add: empty_directory_disk_def small_directory_def content_def benign_def)
  have r: "r = Inr ()" and b1: "benign d1" using wr empty by simp_all
  have ok: "updates_ok small_directory ?u empty_directory_disk d1"
    and some: "files d1 ?p \<noteq> None"
    using wr r empty(2) by (simp_all add: untouched_kept_def others_kept_def)
  have has: "\<forall>i \<in> set [0, 2]. dir_has (content d1 ?p) i"
    using ok by (simp add: updates_ok_def dir_has_def entry_bytes_def)
  have "dir_lookup (content d1 ?p) i = entry_after small_directory [] ?u i" if "i \<in> set [0, 2]" for i
    using ok that has empty(1) by (auto simp: updates_ok_def)
  then have "map (dir_lookup (content d1 ?p)) [0, 2] = [\<lparr>dl_list = 0, dl_offset = 0\<rparr>, \<lparr>dl_list = 7, dl_offset = 4\<rparr>]"
    by (simp add: entry_after_def dir_has_def update_page_def entries_per_page_def small_directory_def entry_bytes_def)
  moreover obtain q d2 where q: "read_batch small_directory [0, 2] d1 = (q, d2)" by fastforce
  moreover have "dir_page_size small_directory dvd length (content d1 ?p)" using ok by (simp add: updates_ok_def)
  ultimately have "q = Inr [\<lparr>dl_list = 0, dl_offset = 0\<rparr>, \<lparr>dl_list = 7, dl_offset = 4\<rparr>]"
    using read_batch_result [OF small_directory_ok q] b1 some has by metis
  with w r q show ?thesis by (auto simp: location_active_def)
qed

end
