(* ===== verification/Record_Store.thy ===== *)
theory Record_Store
  imports External_Io "HOL-Library.Product_Lexorder"
begin

text \<open>
  \<open>ListFileRecordStore\<close> (src/adapters/list\_file\_record\_store.cpp): one headerless file per inverted
  list, made of pages that hold whole records \<open>{LogicalID, ExactVector}\<close>. Rows are appended at the
  published size of the list, ids are read back in page batches, and a deletion first prepares all
  page images and then commits them.

  Pointers that the code compares with \<open>nullptr\<close> are options. Page numbers and rows are natural
  numbers; the 64-bit products of page counts and page size wrap in \<open>u64_mult\<close>.
\<close>

section \<open>The store object\<close>

record store_options =
  so_page_size :: nat
  so_payload_bytes :: nat
  so_lists_per_shard :: nat
  so_direct_io :: bool
  so_sync_writes :: bool

record record_store =
  st_root :: string
  st_nlist :: nat
  st_options :: store_options
  st_stride :: nat
  st_per_page :: nat

abbreviation page_size :: "record_store \<Rightarrow> nat" where
  "page_size st \<equiv> so_page_size (st_options st)"

abbreviation payload_bytes :: "record_store \<Rightarrow> nat" where
  "payload_bytes st \<equiv> so_payload_bytes (st_options st)"

definition u64_mult :: "nat \<Rightarrow> nat \<Rightarrow> nat" where
  "u64_mult a b = (a * b) mod 2 ^ 64"

text \<open>The members that the constructor's initialiser list sets, and the check of its body.\<close>

definition make_store :: "string \<Rightarrow> nat \<Rightarrow> store_options \<Rightarrow> record_store" where
  "make_store root n opts =
    (let stride = 4 + so_payload_bytes opts
     in \<lparr>st_root = root, st_nlist = n, st_options = opts, st_stride = stride,
         st_per_page = (if stride = 0 then 0 else so_page_size opts div stride)\<rparr>)"

definition store_args_ok :: "record_store \<Rightarrow> bool" where
  "store_args_ok st \<longleftrightarrow> st_root st \<noteq> [] \<and> st_nlist st \<noteq> 0 \<and> payload_bytes st \<noteq> 0
    \<and> so_lists_per_shard (st_options st) \<noteq> 0 \<and> is_power_of_two (of_nat (page_size st))
    \<and> pointer_size \<le> page_size st \<and> st_stride st \<le> page_size st \<and> st_per_page st \<noteq> 0"

text \<open>\<open>operator/\<close> of \<open>std::filesystem::path\<close> for a relative right operand.\<close>

definition path_join :: "string \<Rightarrow> string \<Rightarrow> string" where
  "path_join a b = (if a = [] \<or> last a = CHR ''/'' then a @ b else a @ ''/'' @ b)"

definition store_open :: "bool \<Rightarrow> string \<Rightarrow> nat \<Rightarrow> store_options \<Rightarrow> bool \<Rightarrow> record_store io" where
  "store_open linux_aio root n opts create =
    (let st = make_store root n opts; records = path_join root ''records''
     in if \<not> store_args_ok st then io_throw (Invalid_argument ''invalid list-file record-store layout'')
        else io_bind (io_lift (direct_flag linux_aio (so_direct_io opts))) (\<lambda>_.
          if create then io_bind (create_directories records) (\<lambda>_. io_return st)
          else (\<lambda>d. if records \<in> dirs d then (Inr st, d)
                    else (Inl (Invalid_argument ''list-file record directory does not exist''), d))))"

section \<open>Paths\<close>

definition digit :: "nat \<Rightarrow> char" where
  "digit n = char_of (48 + n)"

fun decimal :: "nat \<Rightarrow> string" where
  "decimal n = (if n < 10 then [digit n] else decimal (n div 10) @ [digit (n mod 10)])"

declare decimal.simps [simp del]

text \<open>\<open>std::setw\<close> with \<open>std::setfill('0')\<close>.\<close>

definition zero_fill :: "nat \<Rightarrow> string \<Rightarrow> string" where
  "zero_fill w s = replicate (w - length s) (CHR ''0'') @ s"

definition shard_name :: "record_store \<Rightarrow> u32 \<Rightarrow> string" where
  "shard_name st list_no =
    zero_fill 6 (decimal (unat (list_no div of_nat (so_lists_per_shard (st_options st)))))"

definition list_dir :: "record_store \<Rightarrow> u32 \<Rightarrow> string" where
  "list_dir st list_no = path_join (path_join (st_root st) ''records'') (shard_name st list_no)"

definition list_path :: "record_store \<Rightarrow> u32 \<Rightarrow> string res" where
  "list_path st list_no =
    (if unat list_no \<ge> st_nlist st then Inl (Out_of_range ''IVF list number is invalid'')
     else Inr (path_join (list_dir st list_no)
       (''list_'' @ zero_fill 8 (decimal (unat list_no)) @ ''.bin'')))"

section \<open>Pages and records\<close>

definition page_offset :: "nat \<Rightarrow> nat \<Rightarrow> nat res" where
  "page_offset page psize =
    (if page > off_max div psize then Inl (Overflow_error ''list record page offset exceeds off_t'')
     else Inr (page * psize))"

definition page_count :: "nat \<Rightarrow> nat \<Rightarrow> nat" where
  "page_count rows per_page = (if rows = 0 then 0 else 1 + (rows - 1) div per_page)"

definition put_record :: "record_store \<Rightarrow> nat \<Rightarrow> u32 \<Rightarrow> bytes \<Rightarrow> bytes \<Rightarrow> bytes" where
  "put_record st in_page i payload page =
    patch (patch page in_page (le32 i)) (in_page + 4) payload"

definition expect_size :: "string \<Rightarrow> nat \<Rightarrow> string \<Rightarrow> unit io" where
  "expect_size p expected msg d = (case sys_fstat p d of
     (Inl e, d') \<Rightarrow> (Inl (Runtime_error msg), d')
   | (Inr n, d') \<Rightarrow> if n \<noteq> expected then (Inl (Runtime_error msg), d') else (Inr (), d'))"

section \<open>Appending\<close>

definition fill_page :: "record_store \<Rightarrow> nat \<Rightarrow> nat \<Rightarrow> u32 list \<Rightarrow> bytes \<Rightarrow> nat \<Rightarrow> nat \<Rightarrow> bytes \<Rightarrow> bytes" where
  "fill_page st old_size new_size ids payloads pstride page_id page =
    (let page_first = page_id * st_per_page st;
         begin_row = max old_size page_first;
         end_row = min new_size (page_first + st_per_page st)
     in fold (\<lambda>row. put_record st ((row - page_first) * st_stride st) (ids ! (row - old_size))
          (segment payloads ((row - old_size) * pstride) (payload_bytes st)))
        [begin_row..<end_row] page)"

definition append_page :: "record_store \<Rightarrow> string \<Rightarrow> nat \<Rightarrow> nat \<Rightarrow> u32 list \<Rightarrow> bytes \<Rightarrow> nat \<Rightarrow> nat \<Rightarrow> unit \<Rightarrow> unit io" where
  "append_page st p old_size new_size ids payloads pstride page_id _ =
    io_bind (if page_id < page_count old_size (st_per_page st)
             then io_bind (io_lift (page_offset page_id (page_size st))) (pread_exact p (page_size st))
             else io_return (replicate (page_size st) 0)) (\<lambda>page.
      io_bind (io_lift (page_offset page_id (page_size st))) (\<lambda>off.
        pwrite_exact p (fill_page st old_size new_size ids payloads pstride page_id page) off))"

definition resize_file :: "string \<Rightarrow> nat \<Rightarrow> unit io" where
  "resize_file p final_bytes =
    (if final_bytes > off_max then io_throw (system_error (''ftruncate('' @ p @ '')'') '''')
     else sys_ftruncate (''ftruncate('' @ p @ '')'') p final_bytes)"

definition append_records :: "record_store \<Rightarrow> u32 \<Rightarrow> u32 \<Rightarrow> u32 list option \<Rightarrow> bytes option \<Rightarrow> nat \<Rightarrow> nat \<Rightarrow> unit io" where
  "append_records st list_no old_size ids payloads pstride cnt =
    (if cnt = 0 then io_return ()
     else if ids = None \<or> payloads = None \<or> pstride < payload_bytes st \<or> cnt > u32_max - unat old_size
     then io_throw (Invalid_argument ''invalid list record append'')
     else io_bind (io_lift (list_path st list_no)) (\<lambda>p.
       io_bind (create_directories (list_dir st list_no)) (\<lambda>_.
       io_bind (sys_open True False p) (\<lambda>_.
       io_bind (sys_fstat p) (\<lambda>fsize.
         let old_pages = page_count (unat old_size) (st_per_page st);
             expected_bytes = u64_mult old_pages (page_size st)
         in if fsize < expected_bytes \<or> fsize mod page_size st \<noteq> 0
            then io_throw (Runtime_error ''list file size disagrees with logical_size'')
            else io_bind (if fsize > expected_bytes
                then sys_ftruncate (''truncate unpublished list tail('' @ p @ '')'') p expected_bytes
                else io_return ()) (\<lambda>_.
              let new_size = old_size + of_nat cnt;
                  new_pages = page_count (unat new_size) (st_per_page st)
              in io_bind (io_lift (aligned_buffer (page_size st) (page_size st))) (\<lambda>_.
                 io_bind (io_fold (append_page st p (unat old_size) (unat new_size) (the ids) (the payloads) pstride)
                    [unat old_size div st_per_page st..<new_pages] ()) (\<lambda>_.
                 io_bind (resize_file p (u64_mult new_pages (page_size st))) (\<lambda>_.
                   sync_file (so_sync_writes (st_options st)))))))))))"

section \<open>Reading ids\<close>

record id_request =
  ir_page :: u32
  ir_offset :: u32
  ir_input :: nat

definition id_requests :: "record_store \<Rightarrow> u32 list \<Rightarrow> id_request list" where
  "id_requests st offsets = sort_key (\<lambda>r. (unat (ir_page r), unat (ir_offset r)))
    (map (\<lambda>i. \<lparr>ir_page = offsets ! i div of_nat (st_per_page st), ir_offset = offsets ! i, ir_input = i\<rparr>)
      [0..<length offsets])"

definition id_in_page :: "record_store \<Rightarrow> bytes \<Rightarrow> nat \<Rightarrow> u32" where
  "id_in_page st page lane = of_le32 (segment page (lane * st_stride st) 4)"

function read_id_groups :: "record_store \<Rightarrow> string \<Rightarrow> id_request list \<Rightarrow> u32 list \<Rightarrow> u32 list io" where
  "read_id_groups st p [] result = io_return result"
| "read_id_groups st p (r # rs) result =
    io_bind (io_lift (page_offset (unat (ir_page r)) (page_size st))) (\<lambda>off.
      io_bind (pread_exact p (page_size st) off) (\<lambda>page.
        read_id_groups st p (dropWhile (\<lambda>q. ir_page q = ir_page r) rs)
          (fold (\<lambda>q res. res[ir_input q := id_in_page st page (unat (ir_offset q) mod st_per_page st)])
            (r # takeWhile (\<lambda>q. ir_page q = ir_page r) rs) result)))"
  by pat_completeness auto
termination
  by (relation "measure (\<lambda>(st, p, rs, result). length rs)")
    (auto simp: less_Suc_eq_le length_dropWhile_le)

definition read_logical_ids :: "record_store \<Rightarrow> u32 \<Rightarrow> u32 \<Rightarrow> u32 list \<Rightarrow> u32 list io" where
  "read_logical_ids st list_no logical_size offsets =
    (if offsets = [] then io_return []
     else if \<exists>off \<in> set offsets. logical_size \<le> off
     then io_throw (Out_of_range ''record offset exceeds list logical size'')
     else io_bind (io_lift (list_path st list_no)) (\<lambda>p.
       io_bind (sys_open False False p) (\<lambda>_.
       io_bind (expect_size p (u64_mult (page_count (unat logical_size) (st_per_page st)) (page_size st))
           ''list file size disagrees with logical_size'') (\<lambda>_.
       io_bind (io_lift (aligned_buffer (page_size st) (page_size st))) (\<lambda>_.
         read_id_groups st p (id_requests st offsets) (replicate (length offsets) 0))))))"

definition validate_list_file :: "record_store \<Rightarrow> u32 \<Rightarrow> u32 \<Rightarrow> unit io" where
  "validate_list_file st list_no logical_size =
    io_bind (io_lift (list_path st list_no)) (\<lambda>p d.
      case sys_call (''stat('' @ p @ '')'') d of
        (Inl e, d') \<Rightarrow> (Inl e, d')
      | (Inr _, d') \<Rightarrow> (case files d' p of
          None \<Rightarrow> if logical_size = 0 then (Inr (), d')
                  else (Inl (system_error (''stat('' @ p @ '')'') ''No such file or directory''), d')
        | Some f \<Rightarrow> if length f \<noteq> u64_mult (page_count (unat logical_size) (st_per_page st)) (page_size st)
                    then (Inl (Runtime_error ''list file size disagrees with checkpoint''), d')
                    else (Inr (), d')))"

section \<open>Prepared deletions\<close>

record record_move =
  mv_destination :: u32
  mv_source :: u32

record prepared =
  pr_path :: string
  pr_list_no :: u32
  pr_old_pages :: nat
  pr_new_pages :: nat
  pr_page_size :: nat
  pr_stride :: nat
  pr_per_page :: nat
  pr_pages :: "nat \<Rightarrow> bytes option"
  pr_write_pages :: "nat list"
  pr_observed :: "u32 list"

definition row_page :: "record_store \<Rightarrow> u32 \<Rightarrow> nat" where
  "row_page st row = unat row div st_per_page st"

definition row_lane :: "record_store \<Rightarrow> u32 \<Rightarrow> nat" where
  "row_lane st row = unat row mod st_per_page st"

text \<open>The retained tail page, when the new size does not end on a page boundary.\<close>

definition tail_page :: "record_store \<Rightarrow> u32 \<Rightarrow> nat list" where
  "tail_page st new_size =
    (if new_size \<noteq> 0 \<and> row_lane st new_size \<noteq> 0 then [row_page st new_size] else [])"

definition needed_pages :: "record_store \<Rightarrow> u32 \<Rightarrow> record_move list \<Rightarrow> u32 list \<Rightarrow> nat list" where
  "needed_pages st new_size moves observed = sorted_list_of_set (set
    (map (row_page st) observed @ map (\<lambda>m. row_page st (mv_destination m)) moves
      @ map (\<lambda>m. row_page st (mv_source m)) moves @ tail_page st new_size))"

definition write_pages :: "record_store \<Rightarrow> u32 \<Rightarrow> record_move list \<Rightarrow> nat list" where
  "write_pages st new_size moves = sorted_list_of_set (set
    (map (\<lambda>m. row_page st (mv_destination m)) moves @ tail_page st new_size))"

definition page_at :: "(nat \<Rightarrow> bytes option) \<Rightarrow> nat \<Rightarrow> bytes res" where
  "page_at pages k = (case pages k of None \<Rightarrow> Inl (Out_of_range ''map::at'') | Some b \<Rightarrow> Inr b)"

definition load_page :: "record_store \<Rightarrow> string \<Rightarrow> nat \<Rightarrow> (nat \<Rightarrow> bytes option) \<Rightarrow> (nat \<Rightarrow> bytes option) io" where
  "load_page st p page_id pages =
    io_bind (io_lift (aligned_buffer (page_size st) (page_size st))) (\<lambda>_.
    io_bind (io_lift (page_offset page_id (page_size st))) (\<lambda>off.
    io_bind (pread_exact p (page_size st) off) (\<lambda>page. io_return (pages(page_id \<mapsto> page)))))"

fun observe :: "record_store \<Rightarrow> (nat \<Rightarrow> bytes option) \<Rightarrow> u32 list \<Rightarrow> u32 list res" where
  "observe st pages [] = Inr []"
| "observe st pages (off # offs) =
    res_bind (page_at pages (row_page st off)) (\<lambda>page.
    res_bind (observe st pages offs) (\<lambda>ids. Inr (id_in_page st page (row_lane st off) # ids)))"

fun snapshot :: "record_store \<Rightarrow> (nat \<Rightarrow> bytes option) \<Rightarrow> record_move list \<Rightarrow> bytes list res" where
  "snapshot st pages [] = Inr []"
| "snapshot st pages (m # ms) =
    res_bind (page_at pages (row_page st (mv_source m))) (\<lambda>page.
    res_bind (snapshot st pages ms) (\<lambda>recs.
      Inr (segment page (row_lane st (mv_source m) * st_stride st) (st_stride st) # recs)))"

definition place_record :: "record_store \<Rightarrow> record_move \<times> bytes \<Rightarrow> (nat \<Rightarrow> bytes option) \<Rightarrow> (nat \<Rightarrow> bytes option) res" where
  "place_record st mb pages =
    (case mb of (m, rec) \<Rightarrow>
      res_bind (page_at pages (row_page st (mv_destination m))) (\<lambda>page.
        Inr (pages(row_page st (mv_destination m) \<mapsto>
          patch page (row_lane st (mv_destination m) * st_stride st) rec))))"

definition clear_tail :: "record_store \<Rightarrow> u32 \<Rightarrow> (nat \<Rightarrow> bytes option) \<Rightarrow> (nat \<Rightarrow> bytes option) res" where
  "clear_tail st new_size pages =
    res_fold (\<lambda>k pages. res_bind (page_at pages k) (\<lambda>page.
      Inr (pages(k \<mapsto> patch page (row_lane st new_size * st_stride st)
        (replicate ((st_per_page st - row_lane st new_size) * st_stride st) 0)))))
      (tail_page st new_size) pages"

definition moves_ok :: "u32 \<Rightarrow> u32 \<Rightarrow> record_move list \<Rightarrow> bool" where
  "moves_ok old_size new_size moves \<longleftrightarrow>
    (\<forall>m \<in> set moves. \<not> (mv_destination m \<ge> new_size \<or> mv_source m < new_size \<or> mv_source m \<ge> old_size))"

definition prepare_images ::
    "record_store \<Rightarrow> string \<Rightarrow> u32 \<Rightarrow> u32 \<Rightarrow> u32 \<Rightarrow> record_move list \<Rightarrow> u32 list \<Rightarrow> (nat \<Rightarrow> bytes option) \<Rightarrow> prepared res" where
  "prepare_images st p list_no old_size new_size moves observed loaded =
    res_bind (observe st loaded observed) (\<lambda>ids.
    res_bind (checked_multiply (length moves) (st_stride st) ''record move snapshots overflow'') (\<lambda>_.
    res_bind (snapshot st loaded moves) (\<lambda>recs.
    res_bind (res_fold (place_record st) (zip moves recs) loaded) (\<lambda>placed.
    res_bind (clear_tail st new_size placed) (\<lambda>pages.
      let new_pages = page_count (unat new_size) (st_per_page st)
      in Inr \<lparr>pr_path = p, pr_list_no = list_no,
           pr_old_pages = page_count (unat old_size) (st_per_page st), pr_new_pages = new_pages,
           pr_page_size = page_size st, pr_stride = st_stride st, pr_per_page = st_per_page st,
           pr_pages = pages,
           pr_write_pages = filter (\<lambda>k. k < new_pages) (write_pages st new_size moves),
           pr_observed = ids\<rparr>)))))"

definition prepare_moves_and_truncate ::
    "record_store \<Rightarrow> u32 \<Rightarrow> u32 \<Rightarrow> u32 \<Rightarrow> record_move list \<Rightarrow> u32 list \<Rightarrow> prepared io" where
  "prepare_moves_and_truncate st list_no old_size new_size moves observed =
    (if new_size > old_size then io_throw (Invalid_argument ''record deletion cannot grow a list'')
     else if \<not> moves_ok old_size new_size moves then io_throw (Invalid_argument ''invalid list record move'')
     else if \<exists>off \<in> set observed. old_size \<le> off
     then io_throw (Invalid_argument ''observed record offset exceeds old list size'')
     else io_bind (io_lift (list_path st list_no)) (\<lambda>p.
       io_bind (sys_open False False p) (\<lambda>_.
       io_bind (expect_size p (u64_mult (page_count (unat old_size) (st_per_page st)) (page_size st))
           ''list file size disagrees with deletion input'') (\<lambda>_.
       io_bind (io_fold (load_page st p) (needed_pages st new_size moves observed) (\<lambda>_. None)) (\<lambda>loaded.
         io_lift (prepare_images st p list_no old_size new_size moves observed loaded))))))"

definition write_prepared :: "prepared \<Rightarrow> nat \<Rightarrow> nat \<Rightarrow> unit \<Rightarrow> unit io" where
  "write_prepared pr psize k _ =
    io_bind (io_lift (page_at (pr_pages pr) k)) (\<lambda>page.
    io_bind (io_lift (page_offset k psize)) (pwrite_exact (pr_path pr) page))"

definition commit_prepared_mutation :: "record_store \<Rightarrow> prepared option \<Rightarrow> unit io" where
  "commit_prepared_mutation st mutation =
    (case mutation of
       None \<Rightarrow> io_throw (Invalid_argument ''record mutation belongs to another store'')
     | Some pr \<Rightarrow>
        if pr_page_size pr \<noteq> page_size st \<or> pr_stride pr \<noteq> st_stride st \<or> pr_per_page pr \<noteq> st_per_page st
        then io_throw (Invalid_argument ''record mutation belongs to another store'')
        else io_bind (io_lift (list_path st (pr_list_no pr))) (\<lambda>p.
          if pr_path pr \<noteq> p
          then io_throw (Invalid_argument ''record mutation belongs to another store'')
          else io_bind (sys_open False False (pr_path pr)) (\<lambda>_.
            io_bind (expect_size (pr_path pr) (u64_mult (pr_old_pages pr) (page_size st))
                ''list file changed after deletion preparation'') (\<lambda>_.
            io_bind (io_fold (write_prepared pr (page_size st)) (pr_write_pages pr) ()) (\<lambda>_.
            io_bind (resize_file (pr_path pr) (u64_mult (pr_new_pages pr) (page_size st))) (\<lambda>_.
              sync_file (so_sync_writes (st_options st))))))))"

definition apply_moves_and_truncate :: "record_store \<Rightarrow> u32 \<Rightarrow> u32 \<Rightarrow> u32 \<Rightarrow> record_move list \<Rightarrow> unit io" where
  "apply_moves_and_truncate st list_no old_size new_size moves =
    io_bind (prepare_moves_and_truncate st list_no old_size new_size moves [])
      (\<lambda>pr. commit_prepared_mutation st (Some pr))"

end
