(* ===== verification/Record_Rows.thy ===== *)
theory Record_Rows
  imports Record_Store
begin

text \<open>
  The rows of a list file: where they lie (\<open>row_pos\<close>), what page writes do to them, and from that the
  results of appending and of reading ids. A row is read through \<open>record_at\<close>; \<open>rows_kept\<close> and
  \<open>files_kept\<close> are the frames that hold under every outcome. The last section shows that lists have
  their own files.
\<close>

section \<open>Geometry\<close>

text \<open>
  A constructed store whose page size is at most 2 GiB: then no product of a page count of a list
  (fewer than \<open>2 ^ 32\<close> rows) and the page size exceeds \<open>off_t\<close>.
\<close>

definition store_ok :: "record_store \<Rightarrow> bool" where
  "store_ok st \<longleftrightarrow> store_args_ok st \<and> st = make_store (st_root st) (st_nlist st) (st_options st)
    \<and> page_size st \<le> 2 ^ 31"

definition row_pos :: "record_store \<Rightarrow> nat \<Rightarrow> nat" where
  "row_pos st i = i div st_per_page st * page_size st + i mod st_per_page st * st_stride st"

definition record_at :: "record_store \<Rightarrow> bytes \<Rightarrow> nat \<Rightarrow> bytes" where
  "record_at st f i = segment f (row_pos st i) (st_stride st)"

text \<open>The bytes of a record and the records of an appended range.\<close>

definition record_bytes :: "record_store \<Rightarrow> u32 list \<Rightarrow> bytes \<Rightarrow> nat \<Rightarrow> nat \<Rightarrow> bytes" where
  "record_bytes st ids payloads pstride j =
    le32 (ids ! j) @ segment payloads (j * pstride) (payload_bytes st)"

lemma store_geometry:
  assumes "store_ok st"
  shows "st_stride st = 4 + payload_bytes st" and "0 < st_per_page st" and "0 < page_size st"
    and "st_per_page st * st_stride st \<le> page_size st" and "page_size st \<le> 2 ^ 31"
    and "0 < st_stride st"
    and "st_per_page st \<le> u32_max"
proof -
  have m: "st_stride st = 4 + payload_bytes st" "st_per_page st = page_size st div st_stride st"
    and P: "page_size st \<le> 2 ^ 31"
    using assms by (auto simp: store_ok_def make_store_def Let_def intro: arg_cong) (metis record_store.select_convs(3-5))+
  show "st_stride st = 4 + payload_bytes st" by (rule m(1))
  show "0 < st_per_page st" "0 < page_size st"
    using assms by (auto simp: store_ok_def store_args_ok_def pointer_size_def)
  show "st_per_page st * st_stride st \<le> page_size st" by (simp add: m(2))
  show "page_size st \<le> 2 ^ 31" by (rule P)
  show "0 < st_stride st" by (simp add: m(1))
  have "st_per_page st \<le> page_size st" by (simp add: m(2))
  then show "st_per_page st \<le> u32_max" using P by (simp add: u32_max_def)
qed

lemma lane_in_page:
  assumes "store_ok st"
  shows "i mod st_per_page st * st_stride st + st_stride st \<le> page_size st"
proof -
  have "Suc (i mod st_per_page st) \<le> st_per_page st" using store_geometry(2) [OF assms] by (simp add: Suc_le_eq)
  then have "Suc (i mod st_per_page st) * st_stride st \<le> st_per_page st * st_stride st" by (rule mult_le_mono1)
  then show ?thesis using store_geometry(4) [OF assms] by simp
qed

lemma page_of_row: "i < n \<Longrightarrow> i div r < page_count n r"
  by (simp add: page_count_def less_Suc_eq_le div_le_mono)

lemma row_of_page:
  assumes "k < page_count n r" and "0 < r"
  shows "k * r < n"
proof -
  have n: "0 < n" and "k \<le> (n - 1) div r" using assms(1) by (simp_all add: page_count_def split: if_splits)
  then have "k * r \<le> n - 1" using assms(2) by (simp add: less_eq_div_iff_mult_less_eq)
  with n show ?thesis by simp
qed

lemma page_count_mono: "m \<le> n \<Longrightarrow> page_count m r \<le> page_count n r"
  by (simp add: page_count_def div_le_mono)

lemma page_count_le: "page_count n r \<le> n"
  by (simp add: page_count_def) (metis Suc_leI Suc_pred div_le_dividend le_imp_less_Suc not_gr_zero)

lemma row_in_file:
  assumes "store_ok st" and "i < n"
  shows "row_pos st i + st_stride st \<le> page_count n (st_per_page st) * page_size st"
proof -
  have "Suc (i div st_per_page st) * page_size st \<le> page_count n (st_per_page st) * page_size st"
    using page_of_row [OF assms(2), of "st_per_page st"] by (intro mult_le_mono1) simp
  then show ?thesis using lane_in_page [OF assms(1), of i] by (simp add: row_pos_def)
qed

lemma page_bytes_bound:
  assumes "store_ok st" and "n \<le> u32_max"
  shows "page_count n r * page_size st \<le> off_max" and "u64_mult (page_count n r) (page_size st) = page_count n r * page_size st"
proof -
  have "page_count n r * page_size st \<le> u32_max * 2 ^ 31"
    using assms(2) page_count_le [of n r] store_geometry(5) [OF assms(1)] by (intro mult_le_mono) simp_all
  moreover have "u32_max * 2 ^ 31 \<le> off_max" by (simp add: u32_max_def off_max_def)
  ultimately show b: "page_count n r * page_size st \<le> off_max" by (rule le_trans)
  have "off_max < 2 ^ 64" by (simp add: off_max_def)
  with b have "page_count n r * page_size st < 2 ^ 64" by linarith
  then show "u64_mult (page_count n r) (page_size st) = page_count n r * page_size st"
    by (simp add: u64_mult_def)
qed

lemma page_offset_ok:
  assumes "store_ok st" and "k \<le> u32_max"
  shows "page_offset k (page_size st) = Inr (k * page_size st)"
proof -
  have "k * page_size st \<le> u32_max * 2 ^ 31"
    using assms(2) store_geometry(5) [OF assms(1)] by (intro mult_le_mono) simp_all
  also have "\<dots> \<le> off_max" by (simp add: u32_max_def off_max_def)
  finally have "k \<le> off_max div page_size st"
    using store_geometry(3) [OF assms(1)] by (simp add: less_eq_div_iff_mult_less_eq)
  then show ?thesis by (simp add: page_offset_def)
qed

lemma store_buffer_ok: "store_ok st \<Longrightarrow> aligned_buffer (page_size st) (page_size st) = Inr ()"
  using store_geometry(3) by (auto simp: aligned_buffer_def store_ok_def store_args_ok_def)

section \<open>Rewriting one page\<close>

lemma record_at_page:
  assumes "store_ok st"
  shows "record_at st f i = segment (segment f (i div st_per_page st * page_size st) (page_size st))
    (i mod st_per_page st * st_stride st) (st_stride st)"
  using lane_in_page [OF assms, of i] by (simp add: record_at_def row_pos_def segment_segment)

lemma page_write_kept:
  assumes st: "store_ok st" and L: "length buf = page_size st" and i: "row_pos st i + st_stride st \<le> length f"
    and same: "i div st_per_page st = k \<Longrightarrow> segment buf (i mod st_per_page st * st_stride st) (st_stride st) = record_at st f i"
  shows "record_at st (file_write f (k * page_size st) (take n buf)) i = record_at st f i"
  unfolding record_at_def
proof (rule nth_equalityI)
  let ?P = "page_size st" and ?f = "file_write f (k * page_size st) (take n buf)" and ?pos = "row_pos st i"
  have len: "length f \<le> length ?f" by (rule length_file_write_ge)
  then show "length (segment ?f ?pos (st_stride st)) = length (segment f ?pos (st_stride st))" using i by simp
  fix j assume "j < length (segment ?f ?pos (st_stride st))"
  then have j: "j < st_stride st" using i len by simp
  then have jl: "?pos + j < length ?f" using i len by simp
  have "?f ! (?pos + j) = f ! (?pos + j)"
  proof (cases "k * ?P \<le> ?pos + j \<and> ?pos + j < k * ?P + length (take n buf)")
    case False
    then show ?thesis using nth_file_write [OF jl] i j by auto
  next
    case True
    then have b: "?pos + j - k * ?P < ?P" "?pos + j - k * ?P < n" using L by auto
    have in_i: "i div st_per_page st * ?P \<le> ?pos + j" "?pos + j < i div st_per_page st * ?P + ?P"
      using lane_in_page [OF st, of i] j by (simp_all add: row_pos_def)
    have k: "i div st_per_page st = k"
    proof -
      have "(?pos + j) div ?P = i div st_per_page st"
        using in_i by (intro div_nat_eqI) (simp_all add: mult.commute)
      moreover have "(?pos + j) div ?P = k" using True b by (intro div_nat_eqI) (simp_all add: mult.commute)
      ultimately show ?thesis by simp
    qed
    have "?pos + j - k * ?P = i mod st_per_page st * st_stride st + j" using k by (simp add: row_pos_def)
    then have "take n buf ! (?pos + j - k * ?P) = buf ! (i mod st_per_page st * st_stride st + j)"
      using b(2) by simp
    also have "\<dots> = segment buf (i mod st_per_page st * st_stride st) (st_stride st) ! j"
      using lane_in_page [OF st, of i] j L by (simp add: nth_segment)
    also have "\<dots> = f ! (?pos + j)" unfolding same [OF k] using i j by (simp add: record_at_def nth_segment)
    finally show ?thesis using nth_file_write [OF jl] True by simp
  qed
  then show "segment ?f ?pos (st_stride st) ! j = segment f ?pos (st_stride st) ! j"
    using i len j by (simp add: nth_segment)
qed

lemma page_write_new:
  assumes st: "store_ok st" and L: "length buf = page_size st" and k: "i div st_per_page st = k"
  shows "record_at st (file_write f (k * page_size st) buf) i =
    segment buf (i mod st_per_page st * st_stride st) (st_stride st)"
proof -
  let ?f = "file_write f (k * page_size st) buf"
  have ne: "buf \<noteq> []" using L store_geometry(3) [OF st] by auto
  have "segment ?f (k * page_size st) (page_size st) = buf"
    using ne L nth_file_write [of _ f "k * page_size st" buf]
    by (intro nth_equalityI) (auto simp: nth_segment length_file_write)
  then show ?thesis by (simp add: record_at_page [OF st] k)
qed


section \<open>Appending rows\<close>

lemma put_record_eq:
  assumes "pos + (4 + length payload) \<le> length page"
  shows "put_record st pos i payload page = patch page pos (le32 i @ payload)"
  using assms by (intro nth_equalityI) (auto simp: put_record_def nth_patch nth_append)

lemma patch_lane_same:
  assumes "l * s + s \<le> length page" and "length rec = s"
  shows "segment (patch page (l * s) rec) (l * s) s = rec"
  using segment_patch_same [of "l * s" page rec] assms by simp

lemma patch_lane_other:
  fixes l l' s :: nat
  assumes "l \<noteq> l'" and "l * s + s \<le> length page" and "l' * s + s \<le> length page" and "length rec = s"
  shows "segment (patch page (l * s) rec) (l' * s) s = segment page (l' * s) s"
proof -
  have "Suc l' * s \<le> l * s \<or> Suc l * s \<le> l' * s"
    using assms(1) mult_le_mono1 [of "Suc l'" l s] mult_le_mono1 [of "Suc l" l' s] by linarith
  then show ?thesis using assms by (intro segment_patch_other) auto
qed

lemma put_record_lanes:
  assumes st: "store_ok st" and "length page = page_size st" and "k < st_per_page st" and "length payload = payload_bytes st"
  shows "length (put_record st (k * st_stride st) i payload page) = page_size st"
    and "l < st_per_page st \<Longrightarrow> segment (put_record st (k * st_stride st) i payload page) (l * st_stride st) (st_stride st) =
      (if l = k then le32 i @ payload else segment page (l * st_stride st) (st_stride st))"
proof -
  let ?S = "st_stride st"
  have room: "l * ?S + ?S \<le> page_size st" if "l < st_per_page st" for l
    using lane_in_page [OF st, of l] that by simp
  have "k * ?S + (4 + length payload) \<le> length page"
    using assms(2,4) room [OF assms(3)] store_geometry(1) [OF st] by simp
  then have eq: "put_record st (k * ?S) i payload page = patch page (k * ?S) (le32 i @ payload)"
    by (rule put_record_eq)
  have rec: "length (le32 i @ payload) = ?S" using assms(4) store_geometry(1) [OF st] by simp
  show "length (put_record st (k * ?S) i payload page) = page_size st"
    unfolding eq using rec room [OF assms(3)] assms(2) by (subst length_patch) simp_all
  assume l: "l < st_per_page st"
  show "segment (put_record st (k * ?S) i payload page) (l * ?S) ?S =
      (if l = k then le32 i @ payload else segment page (l * ?S) ?S)"
    unfolding eq using patch_lane_same [of k ?S page, OF _ rec] patch_lane_other [of k l ?S page, OF _ _ _ rec]
      room [OF l] room [OF assms(3)] assms(2) by auto
qed

lemma fill_rows:
  fixes a :: "nat \<Rightarrow> u32"
  assumes st: "store_ok st" and "length page = page_size st" and "distinct rows"
    and "\<forall>row \<in> set rows. pf \<le> row \<and> row < pf + st_per_page st" and "\<forall>row \<in> set rows. length (c row) = payload_bytes st"
  defines "step \<equiv> \<lambda>row. put_record st ((row - pf) * st_stride st) (a row) (c row)"
  shows "length (fold step rows page) = page_size st
    \<and> (\<forall>l < st_per_page st. segment (fold step rows page) (l * st_stride st) (st_stride st) =
      (if pf + l \<in> set rows then le32 (a (pf + l)) @ c (pf + l)
       else segment page (l * st_stride st) (st_stride st)))"
  using assms(2-5)
proof (induction rows arbitrary: page)
  case (Cons row rows)
  have k: "row - pf < st_per_page st" and c: "length (c row) = payload_bytes st" using Cons.prems(3,4) by auto
  have P: "length (step row page) = page_size st"
    "\<And>l. l < st_per_page st \<Longrightarrow> segment (step row page) (l * st_stride st) (st_stride st) =
      (if l = row - pf then le32 (a row) @ c row else segment page (l * st_stride st) (st_stride st))"
    unfolding step_def by (rule put_record_lanes [OF st Cons.prems(1) k c], assumption?)+
  have IH: "length (fold step rows (step row page)) = page_size st
    \<and> (\<forall>l < st_per_page st. segment (fold step rows (step row page)) (l * st_stride st) (st_stride st) =
      (if pf + l \<in> set rows then le32 (a (pf + l)) @ c (pf + l)
       else segment (step row page) (l * st_stride st) (st_stride st)))"
    using Cons.prems P(1) by (intro Cons.IH) simp_all
  obtain m where "row = pf + m" using Cons.prems(3) by (auto simp: le_iff_add)
  then show ?case using IH P(2) Cons.prems(2) by auto
qed simp

lemma fill_page_lanes:
  assumes st: "store_ok st" and L: "length page = page_size st"
    and pay: "\<forall>j. old \<le> j \<and> j < new \<longrightarrow> length (segment payloads ((j - old) * pstride) (payload_bytes st)) = payload_bytes st"
  shows "length (fill_page st old new ids payloads pstride k page) = page_size st"
    and "i div st_per_page st = k \<Longrightarrow>
      segment (fill_page st old new ids payloads pstride k page) (i mod st_per_page st * st_stride st) (st_stride st) =
        (if old \<le> i \<and> i < new then record_bytes st ids payloads pstride (i - old)
         else segment page (i mod st_per_page st * st_stride st) (st_stride st))"
proof -
  let ?r = "st_per_page st"
  let ?rows = "[max old (k * ?r)..<min new (k * ?r + ?r)]"
  have rows: "\<forall>row \<in> set ?rows. k * ?r \<le> row \<and> row < k * ?r + ?r"
    "\<forall>row \<in> set ?rows. length (segment payloads ((row - old) * pstride) (payload_bytes st)) = payload_bytes st"
    using pay by auto
  note F = conjunct1 [OF fill_rows [OF st L distinct_upt rows, where a = "\<lambda>row. ids ! (row - old)"]]
    conjunct2 [OF fill_rows [OF st L distinct_upt rows, where a = "\<lambda>row. ids ! (row - old)"], rule_format]
  show "length (fill_page st old new ids payloads pstride k page) = page_size st"
    using F(1) by (simp add: fill_page_def Let_def)
  assume i: "i div ?r = k"
  have l: "i mod ?r < ?r" using store_geometry(2) [OF st] by simp
  have ki: "k * ?r + i mod ?r = i" using i by auto
  then have "i \<in> set ?rows \<longleftrightarrow> old \<le> i \<and> i < new" using l by auto
  with F(2) [OF l] show "segment (fill_page st old new ids payloads pstride k page) (i mod ?r * st_stride st) (st_stride st) =
      (if old \<le> i \<and> i < new then record_bytes st ids payloads pstride (i - old)
       else segment page (i mod ?r * st_stride st) (st_stride st))"
    by (simp add: fill_page_def Let_def ki record_bytes_def)
qed

text \<open>The published rows of a file are those of another one.\<close>

definition rows_kept :: "record_store \<Rightarrow> nat \<Rightarrow> bytes \<Rightarrow> bytes \<Rightarrow> bool" where
  "rows_kept st n f f' \<longleftrightarrow> page_count n (st_per_page st) * page_size st \<le> length f'
    \<and> (\<forall>i < n. record_at st f' i = record_at st f i)"

text \<open>Pages before \<open>k\<close> hold the appended rows.\<close>

definition appended_to :: "record_store \<Rightarrow> nat \<Rightarrow> nat \<Rightarrow> u32 list \<Rightarrow> bytes \<Rightarrow> nat \<Rightarrow> bytes \<Rightarrow> nat \<Rightarrow> bytes \<Rightarrow> bool" where
  "appended_to st old new ids payloads pstride f0 k f \<longleftrightarrow> rows_kept st old f0 f
    \<and> length f = max (page_count old (st_per_page st) * page_size st) (k * page_size st)
    \<and> (\<forall>i. old \<le> i \<and> i < new \<and> i div st_per_page st < k \<longrightarrow>
        record_at st f i = record_bytes st ids payloads pstride (i - old))"

definition files_kept :: "string \<Rightarrow> disk \<Rightarrow> disk \<Rightarrow> bool" where
  "files_kept p d d' \<longleftrightarrow> (\<forall>q. q \<noteq> p \<longrightarrow> files d' q = files d q) \<and> (files d p \<noteq> None \<longrightarrow> files d' p \<noteq> None)"

lemma files_kept_trans: "files_kept p a b \<Longrightarrow> files_kept p b c \<Longrightarrow> files_kept p a c"
  by (simp add: files_kept_def)

lemma files_kept_same: "files d' = files d \<Longrightarrow> files_kept p d d'"
  by (simp add: files_kept_def)

lemma others_kept_files: "others_kept p d d' \<Longrightarrow> files_kept p d d'"
  by (simp add: others_kept_def files_kept_def)

lemma append_page_result:
  assumes st: "store_ok st" and run: "append_page st p old new ids payloads pstride k () d = (r, d')"
    and inv: "appended_to st old new ids payloads pstride f0 k (content d p)" and k: "k \<le> u32_max"
    and pay: "\<forall>j. old \<le> j \<and> j < new \<longrightarrow> length (segment payloads ((j - old) * pstride) (payload_bytes st)) = payload_bytes st"
  shows "files_kept p d d' \<and> rows_kept st old f0 (content d' p)
    \<and> (r = Inr () \<longrightarrow> appended_to st old new ids payloads pstride f0 (Suc k) (content d' p))
    \<and> (benign d \<longrightarrow> r = Inr () \<and> benign d')"
proof -
  let ?P = "page_size st" and ?r = "st_per_page st" and ?S = "st_stride st"
  let ?f = "content d p" and ?pc = "page_count old (st_per_page st)"
  let ?page = "if k < ?pc then segment ?f (k * ?P) ?P else replicate ?P 0"
  let ?buf = "fill_page st old new ids payloads pstride k ?page"
  have off: "page_offset k ?P = Inr (k * ?P)" by (rule page_offset_ok [OF st k])
  have len: "length ?f = max (?pc * ?P) (k * ?P)" and kept: "rows_kept st old f0 ?f"
    and app: "\<And>i. old \<le> i \<Longrightarrow> i < new \<Longrightarrow> i div ?r < k \<Longrightarrow> record_at st ?f i = record_bytes st ids payloads pstride (i - old)"
    using inv by (simp_all add: appended_to_def)
  have room: "k * ?P + ?P \<le> length ?f" if "k < ?pc"
    using mult_le_mono1 [of "Suc k" ?pc ?P] that by (simp add: len)
  have L: "length ?page = ?P" using room by simp
  note F = fill_page_lanes [OF st L pay, where ids = ids and k = k]
  from run [unfolded append_page_def] show ?thesis
  proof (cases rule: io_bind_cases)
    case (1 e)
    then have kp: "k < ?pc" and rd: "pread_exact p ?P (k * ?P) d = (Inl e, d')"
      using off by (auto split: if_splits)
    note pr = pread_exact_result [OF rd]
    have "\<not> benign d" using pr(5) room [OF kp] by blast
    moreover have "content d' p = ?f" using pr(1) by (simp add: content_def)
    ultimately show ?thesis using pr(1) kept 1(2) by (simp add: files_kept_same)
  next
    case (2 page d1)
    have R: "files d1 = files d \<and> (benign d \<longrightarrow> benign d1) \<and> page = ?page"
    proof (cases "k < ?pc")
      case True
      then have "pread_exact p ?P (k * ?P) d = (Inr page, d1)" using 2(1) off by simp
      note pr = pread_exact_result [OF this]
      show ?thesis using pr(1,3,4) True by simp
    next
      case False
      then show ?thesis using 2(1) by simp
    qed
    have c1: "content d1 p = ?f" using R by (simp add: content_def)
    have fk1: "files_kept p d d1" using R by (simp add: files_kept_same)
    have wr: "pwrite_exact p ?buf (k * ?P) d1 = (r, d')" using 2(2) off R by simp
    have old_rows: "record_at st (file_write ?f (k * ?P) (take n ?buf)) i = record_at st f0 i" if "i < old" for i n
    proof -
      have "row_pos st i + ?S \<le> length ?f" using row_in_file [OF st that] len by simp
      then have "record_at st (file_write ?f (k * ?P) (take n ?buf)) i = record_at st ?f i"
      proof (rule page_write_kept [OF st F(1)])
        assume i: "i div ?r = k"
        then have "k < ?pc" using page_of_row [OF that, of ?r] by simp
        then show "segment ?buf (i mod ?r * ?S) ?S = record_at st ?f i"
          using F(2) [OF i] that i by (simp add: record_at_page [OF st])
      qed
      then show ?thesis using kept that by (simp add: rows_kept_def)
    qed
    have frame: "rows_kept st old f0 (file_write ?f (k * ?P) (take n ?buf))" for n
      using old_rows length_file_write_ge [of ?f "k * ?P" "take n ?buf"] len by (simp add: rows_kept_def)
    show ?thesis
    proof (cases r)
      case (Inl e)
      note w = pwrite_exact_failed [OF wr [unfolded Inl]]
      then obtain n where "content d' p = file_write ?f (k * ?P) (take n ?buf)" using c1 by auto
      then have "rows_kept st old f0 (content d' p)" using frame by simp
      moreover have "files_kept p d d'" using w fk1 files_kept_trans others_kept_files by blast
      ultimately show ?thesis using w R Inl by blast
    next
      case (Inr x)
      note w = pwrite_exact_done [OF wr [unfolded Inr]]
      have c: "content d' p = file_write ?f (k * ?P) ?buf" using w c1 by simp
      have ne: "?buf \<noteq> []" using F(1) store_geometry(3) [OF st] by (metis length_0_conv less_irrefl)
      have "length (content d' p) = max (?pc * ?P) (Suc k * ?P)"
        using len F(1) by (simp add: c length_file_write [OF ne])
      moreover have rk: "rows_kept st old f0 (content d' p)" using frame [of "length ?buf"] by (simp add: c)
      moreover have "record_at st (content d' p) i = record_bytes st ids payloads pstride (i - old)"
        if "old \<le> i" "i < new" "i div ?r < Suc k" for i
      proof (cases "i div ?r = k")
        case True
        show ?thesis using page_write_new [OF st F(1) True] F(2) [OF True] that by (simp add: c)
      next
        case False
        then have lt: "i div ?r < k" using that by simp
        then have "Suc (i div ?r) * ?P \<le> k * ?P" by (intro mult_le_mono1) simp
        then have pos: "row_pos st i + ?S \<le> length ?f" using lane_in_page [OF st, of i] len by (simp add: row_pos_def)
        have "record_at st (content d' p) i = record_at st ?f i"
          using page_write_kept [OF st F(1) pos, of k "length ?buf"] False by (simp add: c)
        then show ?thesis using app [OF that(1,2) lt] by simp
      qed
      ultimately have "appended_to st old new ids payloads pstride f0 (Suc k) (content d' p)"
        by (simp add: appended_to_def)
      moreover have "files_kept p d d'" using w fk1 files_kept_trans others_kept_files by blast
      ultimately show ?thesis using w R Inr rk by simp
    qed
  qed
qed

lemma append_loop_result:
  assumes st: "store_ok st"
    and pay: "\<forall>j. old \<le> j \<and> j < new \<longrightarrow> length (segment payloads ((j - old) * pstride) (payload_bytes st)) = payload_bytes st"
    and "io_fold (append_page st p old new ids payloads pstride) [k..<n] () d = (r, d')"
    and "appended_to st old new ids payloads pstride f0 k (content d p)" and "n \<le> u32_max" and "k \<le> n"
  shows "files_kept p d d' \<and> rows_kept st old f0 (content d' p)
    \<and> (r = Inr () \<longrightarrow> appended_to st old new ids payloads pstride f0 n (content d' p))
    \<and> (benign d \<longrightarrow> r = Inr () \<and> benign d')"
  using assms(3-)
proof (induction "n - k" arbitrary: k d)
  case 0
  then have kn: "k = n" by simp
  with 0 have "r = Inr ()" and "d' = d" by auto
  then show ?case using 0 kn by (simp add: appended_to_def files_kept_same)
next
  case (Suc m)
  then have lt: "k < n" by simp
  have "io_bind (append_page st p old new ids payloads pstride k ())
      (io_fold (append_page st p old new ids payloads pstride) [Suc k..<n]) d = (r, d')"
    using Suc.prems(1) by (simp add: upt_conv_Cons [OF lt])
  then show ?case
  proof (cases rule: io_bind_cases)
    case (1 e)
    have "k \<le> u32_max" using lt Suc.prems(3) by simp
    from append_page_result [OF st 1(1) Suc.prems(2) this pay] show ?thesis using 1(2) by auto
  next
    case (2 x d1)
    have "k \<le> u32_max" using lt Suc.prems(3) by simp
    from append_page_result [OF st 2(1) Suc.prems(2) this pay]
    have A: "files_kept p d d1" "appended_to st old new ids payloads pstride f0 (Suc k) (content d1 p)"
      "benign d \<longrightarrow> benign d1" by auto
    have run: "io_fold (append_page st p old new ids payloads pstride) [Suc k..<n] () d1 = (r, d')"
      using 2(2) by simp
    have "m = n - Suc k" using Suc.hyps(2) by simp
    from Suc.hyps(1) [OF this run A(2) Suc.prems(3) Suc_leI [OF lt]] show ?thesis
      using A(1,3) files_kept_trans by blast
  qed
qed


lemma resize_file_result:
  assumes "resize_file p n d = (r, d')"
  shows "others_kept p d d' \<and> (r = Inr () \<longrightarrow> content d' p = file_truncate (content d p) n)
    \<and> (\<forall>e. r = Inl e \<longrightarrow> files d' = files d) \<and> (benign d \<and> n \<le> off_max \<longrightarrow> r = Inr () \<and> benign d')"
proof (cases "n > off_max")
  case True
  then show ?thesis using assms by (auto simp: resize_file_def others_kept_same)
next
  case False
  then have "sys_ftruncate (''ftruncate('' @ p @ '')'') p n d = (r, d')"
    using assms by (simp add: resize_file_def)
  from sys_ftruncate_result [OF this] show ?thesis by blast
qed

lemma file_truncate_shorter: "n \<le> length f \<Longrightarrow> file_truncate f n = take n f"
  by (simp add: file_truncate_def)

lemma rows_kept_truncate:
  assumes "store_ok st" and "rows_kept st n f0 f" and "page_count n (st_per_page st) * page_size st \<le> m" and "m \<le> length f"
  shows "rows_kept st n f0 (file_truncate f m)"
  unfolding rows_kept_def
proof (intro conjI allI impI)
  show "page_count n (st_per_page st) * page_size st \<le> length (file_truncate f m)"
    using assms(3) by (simp add: file_truncate_def)
  fix i assume "i < n"
  then have "row_pos st i + st_stride st \<le> m" using row_in_file [OF assms(1)] assms(3) by fastforce
  then have "record_at st (file_truncate f m) i = record_at st f i"
    by (simp add: record_at_def file_truncate_shorter [OF assms(4)] segment_take)
  then show "record_at st (file_truncate f m) i = record_at st f0 i"
    using assms(2) \<open>i < n\<close> by (simp add: rows_kept_def)
qed

text \<open>The tail of \<open>append_records\<close>: write the pages, resize, sync.\<close>

lemma append_tail_result:
  fixes old :: u32
  assumes st: "store_ok st" and cnt: "unat old + cnt \<le> u32_max"
    and pay: "\<forall>j < cnt. length (segment payloads (j * pstride) (payload_bytes st)) = payload_bytes st"
    and len: "length (content d p) = page_count (unat old) (st_per_page st) * page_size st"
    and run: "io_bind (io_fold (append_page st p (unat old) (unat old + cnt) ids payloads pstride)
          [unat old div st_per_page st..<page_count (unat old + cnt) (st_per_page st)] ()) (\<lambda>_.
        io_bind (resize_file p (u64_mult (page_count (unat old + cnt) (st_per_page st)) (page_size st))) (\<lambda>_.
          sync_file sync)) d = (r, d')"
  shows "files_kept p d d' \<and> rows_kept st (unat old) (content d p) (content d' p)
    \<and> (r = Inr () \<longrightarrow> length (content d' p) = page_count (unat old + cnt) (st_per_page st) * page_size st
        \<and> (\<forall>j < cnt. record_at st (content d' p) (unat old + j) = record_bytes st ids payloads pstride j))
    \<and> (benign d \<longrightarrow> r = Inr () \<and> benign d')"
proof -
  let ?P = "page_size st" and ?r = "st_per_page st" and ?o = "unat old" and ?n = "unat old + cnt"
  let ?f = "content d p" and ?K = "page_count (unat old + cnt) (st_per_page st)"
  have pay': "\<forall>j. ?o \<le> j \<and> j < ?n \<longrightarrow> length (segment payloads ((j - ?o) * pstride) (payload_bytes st)) = payload_bytes st"
    using pay by auto
  have r: "0 < ?r" by (rule store_geometry(2) [OF st])
  have pc: "?o div ?r \<le> page_count ?o ?r"
  proof (cases "?o = 0")
    case False
    have "?o div ?r \<le> (?o - 1 + ?r) div ?r" using r by (intro div_le_mono) simp
    also have "\<dots> = (?o - 1) div ?r + 1" by (rule div_add_self2) (use r in simp)
    also have "\<dots> = page_count ?o ?r" using False by (simp add: page_count_def)
    finally show ?thesis .
  qed simp
  have K: "?o div ?r \<le> ?K" "?K \<le> u32_max"
    using pc page_count_mono [of ?o ?n ?r] page_count_le [of ?n ?r] cnt by simp_all
  have len_max: "max (page_count ?o ?r * ?P) (?o div ?r * ?P) = page_count ?o ?r * ?P"
    using mult_le_mono1 [OF pc, of ?P] by (simp add: max_absorb1)
  have new: "?o div ?r \<le> i div ?r" if "?o \<le> i" for i using that by (rule div_le_mono)
  have start: "appended_to st ?o ?n ids payloads pstride ?f (?o div ?r) ?f"
    using new by (force simp: appended_to_def rows_kept_def len_max len)
  note loop = append_loop_result [OF st pay' _ start K(2,1)]
  from run show ?thesis
  proof (cases rule: io_bind_cases)
    case (1 e)
    from loop [OF 1(1)] 1(2) show ?thesis by auto
  next
    case (2 x d1)
    note L = loop [OF 2(1)]
    have A: "appended_to st ?o ?n ids payloads pstride ?f ?K (content d1 p)" using L by simp
    have len1: "length (content d1 p) = ?K * ?P"
      using A page_count_mono [of ?o ?n ?r] by (simp add: appended_to_def max_def)
    have keep: "rows_kept st ?o ?f (content d1 p)" using L by blast
    have rows: "record_at st (content d1 p) (?o + j) = record_bytes st ids payloads pstride j" if "j < cnt" for j
      using A that page_of_row [of "?o + j" ?n ?r] by (simp add: appended_to_def)
    have bytes: "u64_mult ?K ?P = ?K * ?P" "?K * ?P \<le> off_max"
      using page_bytes_bound [OF st cnt] by simp_all
    have tail: "content d' p = content d1 p \<and> files_kept p d1 d' \<and> (benign d1 \<longrightarrow> r = Inr () \<and> benign d')"
      using 2(2)
    proof (cases rule: io_bind_cases)
      case (1 e)
      note t = resize_file_result [OF 1(1)]
      then have "content d' p = content d1 p" by (simp add: content_def)
      then show ?thesis using t 1(2) bytes others_kept_files by auto
    next
      case (2 y d2)
      note t = resize_file_result [OF 2(1)] and sy = sync_file_result [OF 2(2)]
      have "content d2 p = content d1 p" using t bytes len1 by (simp add: file_truncate_shorter)
      then have "content d' p = content d1 p" using sy by (simp add: content_def)
      moreover have "files_kept p d1 d'"
        by (rule files_kept_trans [OF others_kept_files [OF conjunct1 [OF t]]]) (use sy in \<open>simp add: files_kept_same\<close>)
      ultimately show ?thesis using t sy bytes by auto
    qed
    have c: "content d' p = content d1 p" and tk: "files_kept p d1 d'" using tail by blast+
    show ?thesis unfolding c using tail L tk files_kept_trans len1 keep rows by blast
  qed
qed


text \<open>A guard of \<open>append_records\<close> and the path of the list.\<close>

lemma list_path_ok: "unat list_no < st_nlist st \<Longrightarrow> \<exists>p. list_path st list_no = Inr p"
  by (simp add: list_path_def)

lemma append_records_result:
  assumes st: "store_ok st" and path: "list_path st list_no = Inr p" and cnt: "0 < cnt" "unat old + cnt \<le> u32_max"
    and stride: "payload_bytes st \<le> pstride"
    and pay: "\<forall>j < cnt. length (segment payloads (j * pstride) (payload_bytes st)) = payload_bytes st"
    and fits: "page_count (unat old) (st_per_page st) * page_size st \<le> length (content d p)"
    and run: "append_records st list_no old (Some ids) (Some payloads) pstride cnt d = (r, d')"
  shows "files_kept p d d' \<and> rows_kept st (unat old) (content d p) (content d' p)
    \<and> (r = Inr () \<longrightarrow> length (content d' p) = page_count (unat old + cnt) (st_per_page st) * page_size st
        \<and> (\<forall>j < cnt. record_at st (content d' p) (unat old + j) = record_bytes st ids payloads pstride j))
    \<and> (benign d \<and> page_size st dvd length (content d p) \<longrightarrow> r = Inr () \<and> benign d')"
proof -
  let ?P = "page_size st" and ?r = "st_per_page st" and ?f = "content d p"
  let ?E = "page_count (unat old) ?r * ?P"
  have new: "unat (old + of_nat cnt) = unat old + cnt"
    using cnt(2) by (simp add: unat_word_ariths unat_u32_of_nat u32_max_def unat_of_nat take_bit_nat_eq_self mod_less)
  have E: "u64_mult (page_count (unat old) ?r) ?P = ?E" by (rule page_bytes_bound(2) [OF st]) simp
  have kept0: "rows_kept st (unat old) ?f ?f" using fits by (simp add: rows_kept_def)
  have guard: "\<not> cnt > u32_max - unat old" using cnt(2) by simp
  have step: "io_bind (create_directories (list_dir st list_no)) (\<lambda>_.
       io_bind (sys_open True False p) (\<lambda>_.
       io_bind (sys_fstat p) (\<lambda>fsize.
         if fsize < ?E \<or> fsize mod ?P \<noteq> 0
            then io_throw (Runtime_error ''list file size disagrees with logical_size'')
            else io_bind (if fsize > ?E
                then sys_ftruncate (''truncate unpublished list tail('' @ p @ '')'') p ?E
                else io_return ()) (\<lambda>_.
              io_bind (io_lift (aligned_buffer ?P ?P)) (\<lambda>_.
                 io_bind (io_fold (append_page st p (unat old) (unat old + cnt) ids payloads pstride)
                    [unat old div ?r..<page_count (unat old + cnt) ?r] ()) (\<lambda>_.
                 io_bind (resize_file p (u64_mult (page_count (unat old + cnt) ?r) ?P)) (\<lambda>_.
                   sync_file (so_sync_writes (st_options st))))))))) d = (r, d')"
    using run cnt(1) stride guard unfolding append_records_def Let_def new E option.sel by (simp add: path)
  then show ?thesis
  proof (cases rule: io_bind_cases)
    case (1 e)
    note c = create_directories_result [OF 1(1)]
    then have "content d' p = ?f" by (simp add: content_def)
    then show ?thesis using c 1(2) kept0 by (auto simp: files_kept_same)
  next
    case (2 x d1)
    note c = create_directories_result [OF 2(1)]
    have c1: "content d1 p = ?f" using c by (simp add: content_def)
    have k1: "files_kept p d d1" using c by (simp add: files_kept_same)
    from 2(2) show ?thesis
    proof (cases rule: io_bind_cases)
      case (1 e)
      note o = sys_open_create [OF 1(1)]
      have "content d' p = ?f" "files_kept p d d'"
        using o c1 files_kept_trans [OF k1 others_kept_files] by auto
      then show ?thesis using o c 1(2) kept0 by auto
    next
      case (2 y d2)
      note o = sys_open_create [OF 2(1)]
      have c2: "content d2 p = ?f" and k2: "files_kept p d d2"
        using o c1 files_kept_trans [OF k1 others_kept_files] by auto
      from 2(2) show ?thesis
      proof (cases rule: io_bind_cases)
        case (1 e)
        note fs = sys_fstat_result [OF 1(1)]
        have "content d' p = ?f" "files_kept p d d'"
          using fs(1) c2 k2 files_kept_trans [OF k2 files_kept_same] by (auto simp: content_def)
        then show ?thesis using fs o c 1(2) kept0 by auto
      next
        case (2 n d3)
        note fs = sys_fstat_result [OF 2(1)]
        have n: "n = length ?f" using fs(4) c2 by simp
        have c3: "content d3 p = ?f" using fs(1) c2 by (simp add: content_def)
        have k3: "files_kept p d d3" using files_kept_trans [OF k2 files_kept_same [OF fs(1)]] .
        have b3: "benign d \<longrightarrow> benign d3" using fs(3) o c by blast
        show ?thesis
        proof (cases "n mod ?P = 0")
          case False
          then have "r = Inl (Runtime_error ''list file size disagrees with logical_size'')" "d' = d3"
            using 2(2) by simp_all
          moreover have "\<not> ?P dvd length ?f" using False n by (simp add: dvd_eq_mod_eq_0)
          ultimately show ?thesis using c3 k3 kept0 by simp
        next
          case True
          have "io_bind (if n > ?E then sys_ftruncate (''truncate unpublished list tail('' @ p @ '')'') p ?E else io_return ())
              (\<lambda>_. io_bind (io_fold (append_page st p (unat old) (unat old + cnt) ids payloads pstride)
                    [unat old div ?r..<page_count (unat old + cnt) ?r] ()) (\<lambda>_.
                 io_bind (resize_file p (u64_mult (page_count (unat old + cnt) ?r) ?P)) (\<lambda>_.
                   sync_file (so_sync_writes (st_options st))))) d3 = (r, d')"
            using 2(2) True fits n by (simp add: store_buffer_ok [OF st])
          then show ?thesis
          proof (cases rule: io_bind_cases)
            case (1 e)
            then have "n > ?E" and "sys_ftruncate (''truncate unpublished list tail('' @ p @ '')'') p ?E d3 = (Inl e, d')"
              by (auto split: if_splits)
            note t = sys_ftruncate_result [OF this(2)]
            have "content d' p = ?f" using t c3 by (simp add: content_def)
            moreover have "files_kept p d d'" using t files_kept_trans [OF k3 others_kept_files] by blast
            ultimately show ?thesis using t b3 1(2) kept0 by auto
          next
            case (2 z d4)
            have T: "content d4 p = file_truncate ?f ?E \<and> files_kept p d d4 \<and> (benign d3 \<longrightarrow> benign d4)"
            proof (cases "n > ?E")
              case True
              then have "sys_ftruncate (''truncate unpublished list tail('' @ p @ '')'') p ?E d3 = (Inr z, d4)"
                using 2(1) by simp
              note t = sys_ftruncate_result [OF this]
              then show ?thesis using c3 files_kept_trans [OF k3 others_kept_files] by auto
            next
              case False
              then show ?thesis using 2(1) c3 k3 n fits by (simp add: file_truncate_def)
            qed
            have len4: "length (content d4 p) = ?E" using T fits by (simp add: file_truncate_def)
            have rk: "rows_kept st (unat old) ?f (content d4 p)"
              using T rows_kept_truncate [OF st kept0 order_refl fits] by simp
            note A = append_tail_result [OF st cnt(2) pay len4 2(2)]
            have "rows_kept st (unat old) ?f (content d' p)" using A rk by (simp add: rows_kept_def)
            then show ?thesis using A T b3 files_kept_trans by blast
          qed
        qed
      qed
    qed
  qed
qed


section \<open>Reading ids back\<close>

definition row_id :: "record_store \<Rightarrow> bytes \<Rightarrow> nat \<Rightarrow> u32" where
  "row_id st f i = of_le32 (take 4 (record_at st f i))"

lemma id_in_page_row:
  assumes "store_ok st" and "i div st_per_page st = k"
  shows "id_in_page st (segment f (k * page_size st) (page_size st)) (i mod st_per_page st) = row_id st f i"
proof -
  have "4 \<le> st_stride st" using store_geometry(1) [OF assms(1)] by simp
  then have "take 4 (segment page (i mod st_per_page st * st_stride st) (st_stride st)) =
      segment page (i mod st_per_page st * st_stride st) 4" for page :: bytes
    by (simp add: segment_def min_def)
  then show ?thesis using record_at_page [OF assms(1), of f i] assms(2)
    by (simp add: id_in_page_def row_id_def)
qed

lemma page_in_file:
  assumes "i < n" and "length f = page_count n r * P"
  shows "i div r * P + P \<le> length f"
  using mult_le_mono1 [OF Suc_leI [OF page_of_row [OF assms(1), of r]], of P] assms(2) by simp

lemma read_id_groups_result:
  assumes st: "store_ok st" and "read_id_groups st p rs res d = (r, d')"
    and file_len: "length (content d p) = page_count n (st_per_page st) * page_size st"
    and "\<forall>q \<in> set rs. unat (ir_page q) = unat (ir_offset q) div st_per_page st \<and> unat (ir_offset q) < n"
  shows "files d' = files d \<and> (benign d \<longrightarrow> benign d' \<and> (\<exists>ls. r = Inr ls))
    \<and> (\<forall>ls. r = Inr ls \<longrightarrow>
        ls = fold (\<lambda>q res. res[ir_input q := row_id st (content d p) (unat (ir_offset q))]) rs res)"
  using assms(2-4)
proof (induction rs arbitrary: res d rule: measure_induct_rule [where f = length])
  case (less rqs)
  note prem = less.prems
  show ?case
  proof (cases rqs)
    case Nil
    then show ?thesis using prem by auto
  next
    case (Cons r0 rs)
    note prems = prem [unfolded Cons]
    let ?P = "page_size st" and ?f = "content d p" and ?k = "unat (ir_page r0)"
    let ?grp = "r0 # takeWhile (\<lambda>q. ir_page q = ir_page r0) rs"
    let ?rest = "dropWhile (\<lambda>q. ir_page q = ir_page r0) rs"
    let ?ans = "\<lambda>f q res. res[ir_input q := row_id st f (unat (ir_offset q))]"
    have k: "?k = unat (ir_offset r0) div st_per_page st" and lt: "unat (ir_offset r0) < n"
      using prems(3) by auto
    have "?k \<le> u32_max" by simp
    then have off: "page_offset ?k ?P = Inr (?k * ?P)" by (rule page_offset_ok [OF st])
    have room: "?k * ?P + ?P \<le> length ?f" unfolding k by (rule page_in_file [OF lt prems(2)])
    have run: "io_bind (pread_exact p ?P (?k * ?P)) (\<lambda>page. read_id_groups st p ?rest
        (fold (\<lambda>q res. res[ir_input q := id_in_page st page (unat (ir_offset q) mod st_per_page st)]) ?grp res)) d = (r, d')"
      using prems(1) off by simp
    then show ?thesis
    proof (cases rule: io_bind_cases)
      case (1 e)
      note pr = pread_exact_result [OF 1(1)]
      show ?thesis using pr(1,5) room 1(2) by auto
    next
      case (2 page d1)
      note pr = pread_exact_result [OF 2(1)]
      have page: "page = segment ?f (?k * ?P) ?P" using pr(4) by blast
      have c: "content d1 p = ?f" using pr(1) by (simp add: content_def)
      have "id_in_page st page (unat (ir_offset q) mod st_per_page st) = row_id st ?f (unat (ir_offset q))"
        if "q \<in> set ?grp" for q
      proof -
        have "ir_page q = ir_page r0" and "q \<in> set (r0 # rs)" using that by (auto dest: set_takeWhileD)
        then have "unat (ir_offset q) div st_per_page st = ?k" using prems(3) by metis
        then show ?thesis using id_in_page_row [OF st] page by simp
      qed
      then have fe: "fold (\<lambda>q res. res[ir_input q := id_in_page st page (unat (ir_offset q) mod st_per_page st)]) ?grp res
          = fold (?ans ?f) ?grp res" by (intro fold_cong) simp_all
      have sh: "length ?rest < length rqs" using length_dropWhile_le [of _ rs] by (simp add: Cons less_Suc_eq_le)
      have rr: "read_id_groups st p ?rest (fold (?ans ?f) ?grp res) d1 = (r, d')" using 2(2) by (simp only: fe)
      have pr3: "\<forall>q \<in> set ?rest. unat (ir_page q) = unat (ir_offset q) div st_per_page st \<and> unat (ir_offset q) < n"
        using prems(3) by (auto dest: set_dropWhileD)
      have IH: "files d' = files d1 \<and> (benign d1 \<longrightarrow> benign d' \<and> (\<exists>ls. r = Inr ls))
          \<and> (\<forall>ls. r = Inr ls \<longrightarrow> ls = fold (?ans (content d1 p)) ?rest (fold (?ans ?f) ?grp res))"
        by (rule less.IH [OF sh rr _ pr3]) (use c prems(2) in simp)
      have F: "fold (?ans ?f) ?rest (fold (?ans ?f) ?grp res) = fold (?ans ?f) (r0 # rs) res"
      proof -
        have "r0 # rs = ?grp @ ?rest" by simp
        then have "fold (?ans ?f) (r0 # rs) res = fold (?ans ?f) (?grp @ ?rest) res" by (rule arg_cong)
        then show ?thesis by (simp only: fold_append comp_apply)
      qed
      have "files d' = files d" by (rule trans [OF conjunct1 [OF IH] pr(1)])
      moreover have "benign d \<longrightarrow> benign d' \<and> (\<exists>ls. r = Inr ls)" using IH pr(3) by blast
      ultimately show ?thesis unfolding Cons using IH unfolding c F by blast
    qed
  qed
qed

lemma expect_size_result:
  assumes "expect_size p n msg d = (r, d')"
  shows "files d' = files d \<and> (benign d \<longrightarrow> benign d')
    \<and> (r = Inr () \<longrightarrow> length (content d p) = n)
    \<and> (benign d \<and> length (content d p) = n \<longrightarrow> r = Inr ())"
proof -
  obtain q d1 where q: "sys_fstat p d = (q, d1)" by fastforce
  note fs = sys_fstat_result [OF q]
  show ?thesis
  proof (cases q)
    case (Inl e)
    then show ?thesis using assms fs(1,3) q by (auto simp: expect_size_def)
  next
    case (Inr m)
    then have "m = length (content d p)" by (rule fs(4))
    then show ?thesis using assms fs(1,3) q Inr by (auto simp: expect_size_def split: if_splits)
  qed
qed

lemma id_requests_set:
  "set (id_requests st offs) =
    (\<lambda>i. \<lparr>ir_page = offs ! i div of_nat (st_per_page st), ir_offset = offs ! i, ir_input = i\<rparr>) ` {0..<length offs}"
  by (simp add: id_requests_def)

lemma id_requests_result:
  "fold (\<lambda>q res. res[ir_input q := h (ir_offset q)]) (id_requests st offs) (replicate (length offs) t) = map h offs"
proof -
  have "fold (\<lambda>q res. res[ir_input q := h (ir_offset q)]) (id_requests st offs) (replicate (length offs) t)
      = map (\<lambda>i. h (offs ! i)) [0..<length offs]"
    by (rule fold_assign_all) (auto simp: id_requests_set image_image)
  also have "\<dots> = map h offs" by (rule nth_equalityI) simp_all
  finally show ?thesis .
qed

lemma read_logical_ids_result:
  assumes st: "store_ok st" and path: "list_path st list_no = Inr p"
    and run: "read_logical_ids st list_no n offs d = (r, d')"
  shows "files d' = files d
    \<and> (\<forall>ids. r = Inr ids \<longrightarrow> ids = map (\<lambda>off. row_id st (content d p) (unat off)) offs)
    \<and> (benign d \<and> files d p \<noteq> None \<and> (\<forall>off \<in> set offs. off < n)
        \<and> length (content d p) = page_count (unat n) (st_per_page st) * page_size st
        \<longrightarrow> (\<exists>ids. r = Inr ids) \<and> benign d')"
proof (cases "offs = [] \<or> (\<exists>off \<in> set offs. n \<le> off)")
  case True
  then show ?thesis using run by (auto simp: read_logical_ids_def linorder_not_less split: if_splits)
next
  case False
  let ?E = "page_count (unat n) (st_per_page st) * page_size st"
  have E: "u64_mult (page_count (unat n) (st_per_page st)) (page_size st) = ?E"
    by (rule page_bytes_bound(2) [OF st]) simp
  have "io_bind (sys_open False False p) (\<lambda>_.
       io_bind (expect_size p ?E ''list file size disagrees with logical_size'') (\<lambda>_.
         read_id_groups st p (id_requests st offs) (replicate (length offs) 0))) d = (r, d')"
    using run False by (simp add: read_logical_ids_def path E store_buffer_ok [OF st])
  then show ?thesis
  proof (cases rule: io_bind_cases)
    case (1 e)
    from sys_open_existing [OF 1(1)] 1(2) show ?thesis by auto
  next
    case (2 x d1)
    note o = sys_open_existing [OF 2(1)]
    have c1: "content d1 p = content d p" using o by (simp add: content_def)
    from 2(2) show ?thesis
    proof (cases rule: io_bind_cases)
      case (1 e)
      from expect_size_result [OF 1(1)] 1(2) o c1 show ?thesis by auto
    next
      case (2 y d2)
      note x = expect_size_result [OF 2(1)]
      have c2: "content d2 p = content d p" using o x by (simp add: content_def)
      have len: "length (content d2 p) = ?E" using x c1 c2 by simp
      have w: "unat (of_nat (st_per_page st) :: u32) = st_per_page st"
        by (rule unat_u32_of_nat [OF store_geometry(7) [OF st]])
      have pages: "\<forall>q \<in> set (id_requests st offs).
          unat (ir_page q) = unat (ir_offset q) div st_per_page st \<and> unat (ir_offset q) < unat n"
        using False by (auto simp: id_requests_set unat_div w linorder_not_le word_less_nat_alt)
      note g = read_id_groups_result [OF st 2(2) len pages,
          unfolded c2 id_requests_result [where h = "\<lambda>off. row_id st (content d p) (unat off)"]]
      have "files d' = files d" by (rule trans [OF conjunct1 [OF g] trans [OF conjunct1 [OF x] conjunct1 [OF o]]])
      moreover have "benign d \<longrightarrow> benign d2" using x o by blast
      moreover have "\<forall>ids. r = Inr ids \<longrightarrow> ids = map (\<lambda>off. row_id st (content d p) (unat off)) offs"
        by (rule conjunct2 [OF conjunct2 [OF g]])
      moreover have "benign d2 \<longrightarrow> benign d' \<and> (\<exists>ids. r = Inr ids)" by (rule conjunct1 [OF conjunct2 [OF g]])
      ultimately show ?thesis by blast
    qed
  qed
qed


section \<open>Lists have their own files\<close>

fun undec :: "nat \<Rightarrow> string \<Rightarrow> nat" where
  "undec v [] = v"
| "undec v (c # s) = undec (10 * v + (of_char c - 48)) s"

lemma undec_append: "undec v (s @ t) = undec (undec v s) t"
  by (induction s arbitrary: v) simp_all

lemma of_char_digit: "n < 10 \<Longrightarrow> of_char (digit n) = 48 + n"
  by (simp add: digit_def)

lemma undec_decimal: "undec 0 (decimal n) = n"
proof (induction n rule: decimal.induct)
  case (1 n)
  show ?case
  proof (cases "n < 10")
    case True
    then show ?thesis by (subst decimal.simps) (simp add: of_char_digit)
  next
    case False
    then show ?thesis using 1 by (subst decimal.simps) (simp add: undec_append of_char_digit)
  qed
qed

lemma undec_zero_fill: "undec 0 (zero_fill w s) = undec 0 s"
proof -
  have "undec 0 (replicate n (CHR ''0'') @ s) = undec 0 s" for n by (induction n) simp_all
  then show ?thesis by (simp add: zero_fill_def)
qed

lemma decimal_chars: "c \<in> set (decimal n) \<Longrightarrow> (48 :: nat) \<le> of_char c"
proof (induction n rule: decimal.induct)
  case (1 n)
  then show ?case
    by (subst (asm) (2) decimal.simps) (auto simp: of_char_digit split: if_splits)
qed

lemma zero_fill_chars: "c \<in> set (zero_fill w (decimal n)) \<Longrightarrow> (48 :: nat) \<le> of_char c"
  using decimal_chars [of c n] by (auto simp: zero_fill_def split: if_splits)

lemma no_slash: "(48 :: nat) \<le> of_char c \<Longrightarrow> c \<noteq> CHR ''/''"
  by auto

lemma decimal_not_Nil: "decimal n \<noteq> []"
  by (subst decimal.simps) simp

lemma list_dir_plain: "list_dir st l \<noteq> [] \<and> last (list_dir st l) \<noteq> CHR ''/''"
proof -
  let ?s = "shard_name st l"
  have ne: "?s \<noteq> []" using decimal_not_Nil by (simp add: shard_name_def zero_fill_def)
  then have "last ?s \<in> set ?s" by simp
  then have "last ?s \<noteq> CHR ''/''" using zero_fill_chars no_slash unfolding shard_name_def by blast
  with ne show ?thesis by (simp add: list_dir_def path_join_def)
qed

text \<open>The file name is what follows the last separator of a list path.\<close>

definition base_name :: "string \<Rightarrow> string" where
  "base_name p = rev (takeWhile (\<lambda>c. c \<noteq> CHR ''/'') (rev p))"

lemma base_name_append: "\<forall>c \<in> set s. c \<noteq> CHR ''/'' \<Longrightarrow> base_name (t @ CHR ''/'' # s) = s"
  by (subst base_name_def) (simp add: takeWhile_append)

lemma base_name_list_path:
  assumes "list_path st l = Inr p"
  shows "base_name p = ''list_'' @ zero_fill 8 (decimal (unat l)) @ ''.bin''"
proof -
  have p: "p = list_dir st l @ CHR ''/'' # ''list_'' @ zero_fill 8 (decimal (unat l)) @ ''.bin''"
    using assms list_dir_plain [of st l] by (auto simp: list_path_def path_join_def split: if_splits)
  show ?thesis unfolding p by (rule base_name_append) (use zero_fill_chars no_slash in fastforce)
qed

lemma list_path_inject:
  assumes "list_path st a = Inr p" and "list_path st b = Inr p"
  shows "a = b"
proof -
  have "zero_fill 8 (decimal (unat a)) = zero_fill 8 (decimal (unat b))"
    using base_name_list_path [OF assms(1)] base_name_list_path [OF assms(2)] by simp
  then have "undec 0 (decimal (unat a)) = undec 0 (decimal (unat b))" using undec_zero_fill by metis
  then show ?thesis by (simp add: undec_decimal word_unat_eq_iff)
qed

end
