(* ===== verification/Record_Deletion.thy ===== *)
theory Record_Deletion
  imports Record_Rows
begin

text \<open>
  Prepared deletions: the page images that \<open>prepare_moves_and_truncate\<close> builds (\<open>row_in\<close>,
  \<open>prepared_ok\<close>) hold the moved rows (\<open>moved_row\<close>), and committing them moves the rows of the file
  page by page (\<open>commit_inv\<close>). Then the contracts of the whole store, and a concrete store.
\<close>

section \<open>Deletions\<close>

subsection \<open>The page images\<close>

text \<open>The record of a row in a set of page images.\<close>

definition row_in :: "record_store \<Rightarrow> (nat \<Rightarrow> bytes option) \<Rightarrow> nat \<Rightarrow> bytes" where
  "row_in st pages i = (case pages (i div st_per_page st) of None \<Rightarrow> []
    | Some page \<Rightarrow> segment page (i mod st_per_page st * st_stride st) (st_stride st))"

definition images_ok :: "record_store \<Rightarrow> (nat \<Rightarrow> bytes option) \<Rightarrow> bool" where
  "images_ok st pages \<longleftrightarrow> (\<forall>k page. pages k = Some page \<longrightarrow> length page = page_size st)"

definition loaded_from :: "record_store \<Rightarrow> bytes \<Rightarrow> nat set \<Rightarrow> nat \<Rightarrow> bytes option" where
  "loaded_from st f K k = (if k \<in> K then Some (segment f (k * page_size st) (page_size st)) else None)"

lemma row_in_loaded:
  assumes "store_ok st" and "i div st_per_page st \<in> K"
  shows "row_in st (loaded_from st f K) i = record_at st f i"
  using assms(2) by (simp add: row_in_def loaded_from_def record_at_page [OF assms(1)])

lemma observe_loaded:
  assumes st: "store_ok st" and "\<forall>off \<in> set offs. row_page st off \<in> K"
  shows "observe st (loaded_from st f K) offs = Inr (map (\<lambda>off. row_id st f (unat off)) offs)"
  using assms(2) id_in_page_row [OF st]
  by (induction offs) (simp_all add: page_at_def loaded_from_def row_page_def row_lane_def)

lemma snapshot_loaded:
  assumes st: "store_ok st" and "\<forall>m \<in> set ms. row_page st (mv_source m) \<in> K"
  shows "snapshot st (loaded_from st f K) ms = Inr (map (\<lambda>m. record_at st f (unat (mv_source m))) ms)"
  using assms(2)
  by (induction ms) (simp_all add: page_at_def loaded_from_def row_page_def row_lane_def record_at_page [OF st])

definition placed :: "record_move list \<Rightarrow> bytes list \<Rightarrow> nat \<Rightarrow> bytes option" where
  "placed ms recs = map_of (zip (map (\<lambda>m. unat (mv_destination m)) ms) recs)"

lemma place_one:
  assumes st: "store_ok st" and ok: "images_ok st pages" and dest: "row_page st (mv_destination m) \<in> dom pages"
    and rec: "length rec = st_stride st"
  obtains pages' where "place_record st (m, rec) pages = Inr pages'" and "dom pages' = dom pages" and "images_ok st pages'"
    and "\<And>i. row_in st pages' i = (if i = unat (mv_destination m) then rec else row_in st pages i)"
proof -
  let ?d = "unat (mv_destination m)" and ?S = "st_stride st" and ?r = "st_per_page st"
  obtain page where page: "pages (?d div ?r) = Some page" using dest by (auto simp: row_page_def)
  let ?pages = "pages(?d div ?r \<mapsto> patch page (?d mod ?r * ?S) rec)"
  have L: "length page = page_size st" using ok page by (simp add: images_ok_def)
  have room: "i mod ?r * ?S + ?S \<le> length page" for i using lane_in_page [OF st, of i] L by simp
  have "place_record st (m, rec) pages = Inr ?pages"
    using page by (simp add: place_record_def row_page_def row_lane_def page_at_def)
  moreover have "dom ?pages = dom pages" using page by auto
  moreover have "images_ok st ?pages" using ok L room [of ?d] rec by (simp add: images_ok_def)
  moreover have "row_in st ?pages i = (if i = ?d then rec else row_in st pages i)" for i
  proof (cases "i div ?r = ?d div ?r")
    case True
    show ?thesis
    proof (cases "i = ?d")
      case False
      then have "?d mod ?r \<noteq> i mod ?r" using True by (metis div_mult_mod_eq)
      from patch_lane_other [OF this room room rec] False True page show ?thesis by (simp add: row_in_def)
    qed (use patch_lane_same [OF room rec, of ?d] page in \<open>simp add: row_in_def\<close>)
  next
    case False
    then show ?thesis by (auto simp: row_in_def)
  qed
  ultimately show thesis by (rule that)
qed

lemma place_all:
  assumes st: "store_ok st" and "images_ok st pages" and "\<forall>m \<in> set ms. row_page st (mv_destination m) \<in> dom pages"
    and "length recs = length ms" and "\<forall>rec \<in> set recs. length rec = st_stride st"
    and "distinct (map mv_destination ms)"
  shows "\<exists>pages'. res_fold (place_record st) (zip ms recs) pages = Inr pages' \<and> dom pages' = dom pages \<and> images_ok st pages'
    \<and> (\<forall>i. row_in st pages' i = (case placed ms recs i of Some rec \<Rightarrow> rec | None \<Rightarrow> row_in st pages i))"
  using assms(2-6)
proof (induction ms arbitrary: pages recs)
  case Nil
  then show ?case by (simp add: placed_def)
next
  case (Cons m ms)
  then obtain rec recs' where recs: "recs = rec # recs'" by (cases recs) auto
  have rec: "length rec = st_stride st" using Cons.prems(4) recs by simp
  have "row_page st (mv_destination m) \<in> dom pages" using Cons.prems(2) by simp
  from place_one [OF st Cons.prems(1) this rec] obtain p1 where p1:
    "place_record st (m, rec) pages = Inr p1" "dom p1 = dom pages" "images_ok st p1"
    "\<And>i. row_in st p1 i = (if i = unat (mv_destination m) then rec else row_in st pages i)" by blast
  have "\<exists>pages'. res_fold (place_record st) (zip ms recs') p1 = Inr pages' \<and> dom pages' = dom p1 \<and> images_ok st pages'
    \<and> (\<forall>i. row_in st pages' i = (case placed ms recs' i of Some rec \<Rightarrow> rec | None \<Rightarrow> row_in st p1 i))"
    using Cons.prems recs p1 by (intro Cons.IH) auto
  then obtain pages' where P: "res_fold (place_record st) (zip ms recs') p1 = Inr pages'" "dom pages' = dom p1"
    "images_ok st pages'" "\<And>i. row_in st pages' i = (case placed ms recs' i of Some rec \<Rightarrow> rec | None \<Rightarrow> row_in st p1 i)"
    by blast
  have none: "placed ms recs' (unat (mv_destination m)) = None"
    using Cons.prems(5) by (auto simp: placed_def map_of_eq_None_iff word_unat_eq_iff dest!: set_zip_leftD)
  have "row_in st pages' i = (case placed (m # ms) recs i of Some rec \<Rightarrow> rec | None \<Rightarrow> row_in st pages i)" for i
    using P(4) [of i] p1(4) [of i] none recs by (auto simp: placed_def split: option.splits)
  with P p1 recs show ?case by auto
qed

lemma clear_tail_rows:
  assumes st: "store_ok st" and ok: "images_ok st pages" and dom: "set (tail_page st new_size) \<subseteq> dom pages"
  shows "\<exists>pages'. clear_tail st new_size pages = Inr pages' \<and> dom pages' = dom pages \<and> images_ok st pages'
    \<and> (\<forall>i < unat new_size. row_in st pages' i = row_in st pages i)"
proof (cases "tail_page st new_size = []")
  case True
  then show ?thesis using ok by (simp add: clear_tail_def)
next
  case False
  let ?n = "unat new_size" and ?S = "st_stride st" and ?r = "st_per_page st"
  have tp: "tail_page st new_size = [?n div ?r]" using False by (auto simp: tail_page_def row_page_def split: if_splits)
  obtain page where page: "pages (?n div ?r) = Some page" using dom tp by auto
  have L: "length page = page_size st" using ok page by (simp add: images_ok_def)
  let ?z = "replicate ((?r - ?n mod ?r) * ?S) (0 :: u8)"
  let ?pages = "pages(?n div ?r \<mapsto> patch page (?n mod ?r * ?S) ?z)"
  have r: "?n mod ?r < ?r" using store_geometry(2) [OF st] by simp
  have "?n mod ?r * ?S + (?r - ?n mod ?r) * ?S = ?r * ?S"
    using r by (simp add: add_mult_distrib [symmetric])
  then have fit: "?n mod ?r * ?S + length ?z \<le> length page" using store_geometry(4) [OF st] L by simp
  have run: "clear_tail st new_size pages = Inr ?pages"
    using page tp by (simp add: clear_tail_def page_at_def row_lane_def)
  have dom': "dom ?pages = dom pages" using page by auto
  have ok': "images_ok st ?pages" using ok L length_patch [OF fit] by (simp add: images_ok_def)
  have "row_in st ?pages i = row_in st pages i" if "i < ?n" for i
  proof (cases "i div ?r = ?n div ?r")
    case True
    have "i mod ?r < ?n mod ?r" using that True by (metis add_less_cancel_left div_mult_mod_eq)
    then have "Suc (i mod ?r) * ?S \<le> ?n mod ?r * ?S" by (intro mult_le_mono1) simp
    then have "segment (patch page (?n mod ?r * ?S) ?z) (i mod ?r * ?S) ?S = segment page (i mod ?r * ?S) ?S"
      using fit lane_in_page [OF st, of i] L by (intro segment_patch_other) auto
    then show ?thesis using True page by (simp add: row_in_def)
  qed (simp add: row_in_def)
  with run dom' ok' show ?thesis by blast
qed


subsection \<open>Preparation\<close>

lemma load_pages_result:
  assumes st: "store_ok st" and "io_fold (load_page st p) ks pages d = (r, d')"
    and "\<forall>k \<in> set ks. k < page_count n (st_per_page st)" and "length (content d p) = page_count n (st_per_page st) * page_size st"
    and "n \<le> u32_max" and "pages = loaded_from st (content d p) K"
  shows "files d' = files d \<and> (benign d \<longrightarrow> benign d' \<and> (\<exists>x. r = Inr x))
    \<and> (\<forall>x. r = Inr x \<longrightarrow> x = loaded_from st (content d p) (K \<union> set ks))"
  using assms(2-4,6)
proof (induction ks arbitrary: pages K d)
  case Nil
  then show ?case by auto
next
  case (Cons k ks)
  let ?P = "page_size st" and ?f = "content d p"
  have kn: "k < page_count n (st_per_page st)" using Cons.prems(2) by simp
  then have "k \<le> u32_max" using page_count_le [of n "st_per_page st"] assms(5) by simp
  then have off: "page_offset k ?P = Inr (k * ?P)" by (rule page_offset_ok [OF st])
  have room: "k * ?P + ?P \<le> length ?f" using mult_le_mono1 [OF Suc_leI [OF kn], of ?P] Cons.prems(3) by simp
  have "io_bind (io_bind (pread_exact p ?P (k * ?P)) (\<lambda>page. io_return (pages(k \<mapsto> page)))) (io_fold (load_page st p) ks) d = (r, d')"
    using Cons.prems(1) off by (simp add: load_page_def [of st p k] store_buffer_ok [OF st])
  then show ?case
  proof (cases rule: io_bind_cases)
    case (1 e)
    from 1(1) show ?thesis
    proof (cases rule: io_bind_cases)
      case (1 e')
      from pread_exact_result [OF 1(1)] room have "files d' = files d" "\<not> benign d" by auto
      then show ?thesis using \<open>r = Inl e\<close> by simp
    qed simp
  next
    case (2 m d1)
    from 2(1) obtain page where "pread_exact p ?P (k * ?P) d = (Inr page, d1)" and m: "m = pages(k \<mapsto> page)"
      by (auto elim!: io_bind_cases)
    note pr = pread_exact_result [OF this(1)]
    have c: "content d1 p = ?f" using pr(1) by (simp add: content_def)
    have page: "page = segment ?f (k * ?P) ?P" using pr(4) by blast
    have "m = loaded_from st (content d1 p) (insert k K)"
      using Cons.prems(4) page m c by (auto simp: loaded_from_def)
    then have IH: "files d' = files d1 \<and> (benign d1 \<longrightarrow> benign d' \<and> (\<exists>x. r = Inr x))
      \<and> (\<forall>x. r = Inr x \<longrightarrow> x = loaded_from st (content d1 p) (insert k K \<union> set ks))"
      using Cons.prems(2,3) c by (intro Cons.IH [OF 2(2)]) simp_all
    have K: "insert k K \<union> set ks = K \<union> set (k # ks)" by auto
    have "files d' = files d" by (rule trans [OF conjunct1 [OF IH] pr(1)])
    moreover have "benign d \<longrightarrow> benign d' \<and> (\<exists>x. r = Inr x)" using IH pr(3) by blast
    ultimately show ?thesis using IH unfolding c K by blast
  qed
qed

text \<open>What a prepared mutation of a list file is: its images agree with the moved rows.\<close>

definition moved_row :: "record_store \<Rightarrow> record_move list \<Rightarrow> bytes \<Rightarrow> nat \<Rightarrow> bytes" where
  "moved_row st moves f i =
    (case map_of (map (\<lambda>m. (unat (mv_destination m), unat (mv_source m))) moves) i of
       Some s \<Rightarrow> record_at st f s
     | None \<Rightarrow> record_at st f i)"

definition prepared_ok :: "record_store \<Rightarrow> string \<Rightarrow> u32 \<Rightarrow> u32 \<Rightarrow> u32 \<Rightarrow> record_move list \<Rightarrow> u32 list \<Rightarrow> bytes \<Rightarrow> prepared \<Rightarrow> bool" where
  "prepared_ok st p list_no old_size new_size moves observed f pr \<longleftrightarrow>
    pr_path pr = p \<and> pr_list_no pr = list_no
    \<and> pr_old_pages pr = page_count (unat old_size) (st_per_page st)
    \<and> pr_new_pages pr = page_count (unat new_size) (st_per_page st)
    \<and> pr_page_size pr = page_size st \<and> pr_stride pr = st_stride st \<and> pr_per_page pr = st_per_page st
    \<and> pr_observed pr = map (\<lambda>off. row_id st f (unat off)) observed
    \<and> pr_write_pages pr = filter (\<lambda>k. k < page_count (unat new_size) (st_per_page st)) (write_pages st new_size moves)
    \<and> set (write_pages st new_size moves) \<subseteq> dom (pr_pages pr)
    \<and> images_ok st (pr_pages pr)
    \<and> (\<forall>i < unat new_size. i div st_per_page st \<in> dom (pr_pages pr) \<longrightarrow> row_in st (pr_pages pr) i = moved_row st moves f i)"

lemma needed_pages_set:
  "set (needed_pages st new_size moves observed) = row_page st ` set observed \<union> (\<lambda>m. row_page st (mv_destination m)) ` set moves
    \<union> (\<lambda>m. row_page st (mv_source m)) ` set moves \<union> set (tail_page st new_size)"
  by (auto simp: needed_pages_def)

lemma write_pages_set:
  "set (write_pages st new_size moves) = (\<lambda>m. row_page st (mv_destination m)) ` set moves \<union> set (tail_page st new_size)"
  by (auto simp: write_pages_def)

lemma placed_moved:
  assumes "i div st_per_page st \<in> K" and st: "store_ok st"
  shows "(case placed moves (map (\<lambda>m. record_at st f (unat (mv_source m))) moves) i of
      Some rec \<Rightarrow> rec | None \<Rightarrow> row_in st (loaded_from st f K) i) = moved_row st moves f i"
proof -
  have "placed moves (map (\<lambda>m. record_at st f (unat (mv_source m))) moves) i
      = map_option (record_at st f) (map_of (map (\<lambda>m. (unat (mv_destination m), unat (mv_source m))) moves) i)"
    by (induction moves) (simp_all add: placed_def)
  then show ?thesis using row_in_loaded [OF st assms(1)]
    by (simp add: moved_row_def split: option.splits)
qed

lemma needed_in_file:
  assumes "\<not> new_size > old_size" and "moves_ok old_size new_size moves" and "\<forall>off \<in> set observed. off < old_size"
    and "k \<in> set (needed_pages st new_size moves observed)" and "0 < st_per_page st"
  shows "k < page_count (unat old_size) (st_per_page st)"
proof -
  have row: "row_page st x < page_count (unat old_size) (st_per_page st)" if "x < old_size" for x
    using page_of_row [of "unat x" "unat old_size"] that by (simp add: row_page_def word_less_nat_alt)
  have "k \<in> set (tail_page st new_size) \<Longrightarrow> ?thesis"
  proof -
    assume k: "k \<in> set (tail_page st new_size)"
    then have z: "unat new_size mod st_per_page st \<noteq> 0" and kk: "k = unat new_size div st_per_page st"
      by (auto simp: tail_page_def row_lane_def row_page_def split: if_splits)
    have "page_count (unat new_size) (st_per_page st) \<le> page_count (unat old_size) (st_per_page st)"
      using assms(1) by (intro page_count_mono) (simp add: word_le_nat_alt linorder_not_less)
    moreover have "k < page_count (unat new_size) (st_per_page st)"
    proof -
      have "unat new_size div st_per_page st * st_per_page st < unat new_size"
        using z by (metis div_mult_mod_eq less_add_same_cancel1 not_gr_zero)
      from page_of_row [OF this, of "st_per_page st"] kk assms(5) show ?thesis by simp
    qed
    ultimately show ?thesis by simp
  qed
  moreover have "mv_destination m < old_size \<and> mv_source m < old_size" if "m \<in> set moves" for m
    using assms(1,2) that by (auto simp: moves_ok_def)
  ultimately show ?thesis using assms(3,4) row by (auto simp: needed_pages_set)
qed

lemma snapshot_room:
  assumes st: "store_ok st" and "distinct (map mv_destination moves)" and "moves_ok old_size new_size moves"
  shows "length moves * st_stride st \<le> size_max"
proof -
  have "length moves = card (unat ` set (map mv_destination moves))"
    using distinct_card [OF assms(2)] by (subst card_image) (simp_all add: inj_on_def word_unat_eq_iff)
  also have "\<dots> \<le> card {0..<unat new_size}"
    using assms(3) by (intro card_mono) (auto simp: moves_ok_def word_less_nat_alt linorder_not_le)
  finally have "length moves \<le> unat new_size" by simp
  then have "length moves \<le> u32_max" by (rule le_trans [OF _ u32_less_max])
  moreover have "st_stride st \<le> 2 ^ 31"
    using lane_in_page [OF st, of 0] store_geometry(5) [OF st] by simp
  ultimately have "length moves * st_stride st \<le> u32_max * 2 ^ 31" by (rule mult_le_mono)
  then show ?thesis by (simp add: u32_max_def size_max_def)
qed

lemma prepare_images_result:
  fixes new_size :: u32
  assumes st: "store_ok st" and dist: "distinct (map mv_destination moves)" and mv: "moves_ok old_size new_size moves"
    and K: "K = set (needed_pages st new_size moves observed)" and len: "\<forall>k \<in> K. k * page_size st + page_size st \<le> length f"
  shows "\<exists>pr. prepare_images st p list_no old_size new_size moves observed (loaded_from st f K) = Inr pr
    \<and> prepared_ok st p list_no old_size new_size moves observed f pr"
proof -
  let ?L = "loaded_from st f K" and ?recs = "map (\<lambda>m. record_at st f (unat (mv_source m))) moves"
  have dom: "dom ?L = K" by (auto simp: loaded_from_def split: if_splits)
  have ok: "images_ok st ?L" using len by (auto simp: images_ok_def loaded_from_def split: if_splits)
  have subs: "\<forall>off \<in> set observed. row_page st off \<in> K" "\<forall>m \<in> set moves. row_page st (mv_source m) \<in> K"
    "\<forall>m \<in> set moves. row_page st (mv_destination m) \<in> dom ?L" "set (tail_page st new_size) \<subseteq> K"
    "set (write_pages st new_size moves) \<subseteq> K"
    unfolding dom by (auto simp: K needed_pages_set write_pages_set)
  have "length (record_at st f (unat (mv_source m))) = st_stride st" if "m \<in> set moves" for m
  proof -
    have "length (segment f (unat (mv_source m) div st_per_page st * page_size st) (page_size st)) = page_size st"
      using subs(2) len that by (auto simp: row_page_def)
    then show ?thesis using lane_in_page [OF st, of "unat (mv_source m)"] by (simp add: record_at_page [OF st])
  qed
  then have recs: "\<forall>rec \<in> set ?recs. length rec = st_stride st" by simp
  obtain p1 where p1: "res_fold (place_record st) (zip moves ?recs) ?L = Inr p1" "dom p1 = K" "images_ok st p1"
    "\<And>i. row_in st p1 i = (case placed moves ?recs i of Some rec \<Rightarrow> rec | None \<Rightarrow> row_in st ?L i)"
    using place_all [OF st ok subs(3) _ recs dist] unfolding dom by auto
  obtain p2 where p2: "clear_tail st new_size p1 = Inr p2" "dom p2 = K" "images_ok st p2"
    "\<And>i. i < unat new_size \<Longrightarrow> row_in st p2 i = row_in st p1 i"
    using clear_tail_rows [OF st p1(3), of new_size] subs(4) unfolding p1(2) by auto
  have rows: "row_in st p2 i = moved_row st moves f i" if "i < unat new_size" "i div st_per_page st \<in> K" for i
    using p2(4) [OF that(1)] p1(4) [of i] placed_moved [OF that(2) st, of f moves] by simp
  have "prepare_images st p list_no old_size new_size moves observed ?L = Inr
      \<lparr>pr_path = p, pr_list_no = list_no, pr_old_pages = page_count (unat old_size) (st_per_page st),
       pr_new_pages = page_count (unat new_size) (st_per_page st), pr_page_size = page_size st,
       pr_stride = st_stride st, pr_per_page = st_per_page st, pr_pages = p2,
       pr_write_pages = filter (\<lambda>k. k < page_count (unat new_size) (st_per_page st)) (write_pages st new_size moves),
       pr_observed = map (\<lambda>off. row_id st f (unat off)) observed\<rparr>"
    by (simp add: prepare_images_def observe_loaded [OF st subs(1)] snapshot_loaded [OF st subs(2)] p1(1) p2(1)
        checked_multiply_ok [OF snapshot_room [OF st dist mv]] Let_def)
  then show ?thesis using p2(2,3) rows subs(5) by (auto simp: prepared_ok_def)
qed

lemma prepare_result:
  assumes st: "store_ok st" and path: "list_path st list_no = Inr p" and dist: "distinct (map mv_destination moves)"
    and run: "prepare_moves_and_truncate st list_no old_size new_size moves observed d = (r, d')"
  shows "files d' = files d \<and> (benign d \<longrightarrow> benign d')
    \<and> (\<forall>pr. r = Inr pr \<longrightarrow> length (content d p) = page_count (unat old_size) (st_per_page st) * page_size st
        \<and> new_size \<le> old_size \<and> moves_ok old_size new_size moves
        \<and> prepared_ok st p list_no old_size new_size moves observed (content d p) pr)
    \<and> (benign d \<and> files d p \<noteq> None \<and> length (content d p) = page_count (unat old_size) (st_per_page st) * page_size st
        \<and> new_size \<le> old_size \<and> moves_ok old_size new_size moves \<and> (\<forall>off \<in> set observed. off < old_size)
        \<longrightarrow> (\<exists>pr. r = Inr pr))"
proof (cases "new_size > old_size \<or> \<not> moves_ok old_size new_size moves \<or> (\<exists>off \<in> set observed. old_size \<le> off)")
  case True
  then have "(\<exists>e. r = Inl e) \<and> d' = d"
    using run by (auto simp: prepare_moves_and_truncate_def split: if_splits)
  then show ?thesis using True by (auto simp: linorder_not_less)
next
  case False
  let ?E = "page_count (unat old_size) (st_per_page st) * page_size st" and ?f = "content d p"
  let ?ks = "needed_pages st new_size moves observed"
  have E: "u64_mult (page_count (unat old_size) (st_per_page st)) (page_size st) = ?E"
    by (rule page_bytes_bound(2) [OF st]) simp
  have guards: "new_size \<le> old_size" "moves_ok old_size new_size moves" "\<forall>off \<in> set observed. off < old_size"
    using False by (auto simp: linorder_not_le)
  have "io_bind (sys_open False False p) (\<lambda>_.
       io_bind (expect_size p ?E ''list file size disagrees with deletion input'') (\<lambda>_.
       io_bind (io_fold (load_page st p) ?ks (\<lambda>_. None)) (\<lambda>loaded.
         io_lift (prepare_images st p list_no old_size new_size moves observed loaded)))) d = (r, d')"
    using run False by (simp add: prepare_moves_and_truncate_def path E)
  then show ?thesis
  proof (cases rule: io_bind_cases)
    case (1 e)
    from sys_open_existing [OF 1(1)] 1(2) show ?thesis by auto
  next
    case (2 x d1)
    note o = sys_open_existing [OF 2(1)]
    have c1: "content d1 p = ?f" using o by (simp add: content_def)
    from 2(2) show ?thesis
    proof (cases rule: io_bind_cases)
      case (1 e)
      from expect_size_result [OF 1(1)] 1(2) o c1 show ?thesis by auto
    next
      case (2 y d2)
      note x = expect_size_result [OF 2(1)]
      have c2: "content d2 p = ?f" using o x by (simp add: content_def)
      have len: "length ?f = ?E" using x c1 by simp
      have f2: "files d2 = files d" using o x by simp
      have b2: "benign d \<longrightarrow> benign d2" using o x by blast
      have none: "(\<lambda>_. None) = loaded_from st g {}" for g by (simp add: loaded_from_def fun_eq_iff)
      have kb: "k < page_count (unat old_size) (st_per_page st)" if "k \<in> set ?ks" for k
        using needed_in_file [OF _ guards(2,3) that store_geometry(2) [OF st]] guards(1) by simp
      from 2(2) show ?thesis
      proof (cases rule: io_bind_cases)
        case (1 e)
        have l: "files d' = files d2 \<and> (benign d2 \<longrightarrow> (\<exists>x. (Inl e :: (nat \<Rightarrow> bytes option) res) = Inr x))"
          using load_pages_result [OF st 1(1) _ _ _ none, of "unat old_size"] kb len c2 by simp
        then have "\<not> benign d" using b2 by auto
        then show ?thesis using l f2 1(2) by simp
      next
        case (2 loaded d3)
        have l: "files d3 = files d2 \<and> (benign d2 \<longrightarrow> benign d3) \<and> loaded = loaded_from st ?f (set ?ks)"
          using load_pages_result [OF st 2(1) _ _ _ none, of "unat old_size"] kb len c2 by simp
        have room: "\<forall>k \<in> set ?ks. k * page_size st + page_size st \<le> length ?f"
          using mult_le_mono1 [OF Suc_leI [OF kb], of _ "page_size st"] len by (simp add: add.commute)
        from prepare_images_result [OF st dist guards(2) refl room, of p list_no] obtain pr where
          pr: "prepare_images st p list_no old_size new_size moves observed loaded = Inr pr"
            "prepared_ok st p list_no old_size new_size moves observed ?f pr"
          using l by auto
        have "r = Inr pr" "d' = d3" using 2(2) pr(1) by simp_all
        then show ?thesis using l f2 b2 len guards pr(2) by simp
      qed
    qed
  qed
qed


subsection \<open>Commit\<close>

text \<open>
  The file while the prepared pages are written: the rows of finished pages are moved, all others are
  as before.
\<close>

definition commit_inv :: "record_store \<Rightarrow> nat \<Rightarrow> record_move list \<Rightarrow> bytes \<Rightarrow> nat set \<Rightarrow> bytes \<Rightarrow> bool" where
  "commit_inv st n moves f finished g \<longleftrightarrow> length g = length f
    \<and> (\<forall>i < n. record_at st g i = (if i div st_per_page st \<in> finished then moved_row st moves f i else record_at st f i))"

text \<open>The rows that no move overwrites.\<close>

definition unmoved_kept :: "record_store \<Rightarrow> nat \<Rightarrow> record_move list \<Rightarrow> bytes \<Rightarrow> bytes \<Rightarrow> bool" where
  "unmoved_kept st n moves f g \<longleftrightarrow>
    (\<forall>i < n. i \<notin> (\<lambda>m. unat (mv_destination m)) ` set moves \<longrightarrow> record_at st g i = record_at st f i)"

lemma moved_row_other: "i \<notin> (\<lambda>m. unat (mv_destination m)) ` set moves \<Longrightarrow> moved_row st moves f i = record_at st f i"
proof -
  assume "i \<notin> (\<lambda>m. unat (mv_destination m)) ` set moves"
  then have "map_of (map (\<lambda>m. (unat (mv_destination m), unat (mv_source m))) moves) i = None"
    by (auto simp: map_of_eq_None_iff image_image)
  then show ?thesis by (simp add: moved_row_def)
qed

lemma commit_inv_unmoved: "commit_inv st n moves f D g \<Longrightarrow> unmoved_kept st n moves f g"
  by (auto simp: commit_inv_def unmoved_kept_def moved_row_other)

lemma write_prepared_result:
  assumes st: "store_ok st" and run: "write_prepared pr (page_size st) k () d = (r, d')"
    and path: "pr_path pr = p" and ok: "images_ok st (pr_pages pr)" and k: "k \<in> dom (pr_pages pr)"
    and rows: "\<forall>i < n. i div st_per_page st \<in> dom (pr_pages pr) \<longrightarrow> row_in st (pr_pages pr) i = moved_row st moves f i"
    and inv: "commit_inv st n moves f D (content d p)" and kn: "k < page_count n (st_per_page st)" and n: "n \<le> u32_max"
    and len: "page_count n (st_per_page st) * page_size st \<le> length f" and new: "k \<notin> D"
  shows "files_kept p d d' \<and> (benign d \<longrightarrow> r = Inr () \<and> benign d')
    \<and> unmoved_kept st n moves f (content d' p) \<and> (r = Inr () \<longrightarrow> commit_inv st n moves f (insert k D) (content d' p))
    \<and> length (content d' p) = length f"
proof -
  let ?P = "page_size st" and ?S = "st_stride st" and ?r = "st_per_page st" and ?g = "content d p"
  obtain buf where buf: "pr_pages pr k = Some buf" using k by blast
  have L: "length buf = ?P" using ok buf by (simp add: images_ok_def)
  have "k \<le> u32_max" using kn page_count_le [of n ?r] n by simp
  then have run': "pwrite_exact p buf (k * ?P) d = (r, d')"
    using run buf path by (simp add: write_prepared_def page_at_def page_offset_ok [OF st])
  have lg: "length ?g = length f" using inv by (simp add: commit_inv_def)
  have fit: "k * ?P + ?P \<le> length ?g" using mult_le_mono1 [OF Suc_leI [OF kn], of ?P] len lg by simp
  have len': "length (file_write ?g (k * ?P) (take m buf)) = length f" for m
    using fit L lg by (cases "take m buf = []") (auto simp: length_file_write)
  have lane: "segment buf (i mod ?r * ?S) ?S = moved_row st moves f i" if "i < n" "i div ?r = k" for i
    using rows that buf by (auto simp: row_in_def)
  have kept: "record_at st (file_write ?g (k * ?P) (take m buf)) i = record_at st ?g i"
    if "i < n" "i div ?r = k \<Longrightarrow> moved_row st moves f i = record_at st ?g i" for i m
  proof (rule page_write_kept [OF st L])
    show "row_pos st i + ?S \<le> length ?g" using row_in_file [OF st that(1)] len lg by simp
  qed (use lane that in simp)
  have U: "unmoved_kept st n moves f (file_write ?g (k * ?P) (take m buf))" for m
    using kept inv new moved_row_other by (auto simp: unmoved_kept_def commit_inv_def)
  show ?thesis
  proof (cases r)
    case (Inl e)
    note w = pwrite_exact_failed [OF run' [unfolded Inl]]
    then show ?thesis using U len' others_kept_files Inl by auto
  next
    case (Inr x)
    note w = pwrite_exact_done [OF run' [unfolded Inr]]
    have c: "content d' p = file_write ?g (k * ?P) buf" using w by blast
    have "commit_inv st n moves f (insert k D) (content d' p)"
      unfolding commit_inv_def
    proof (intro conjI allI impI)
      show "length (content d' p) = length f" using len' [of "length buf"] by (simp add: c)
      fix i assume i: "i < n"
      show "record_at st (content d' p) i =
          (if i div ?r \<in> insert k D then moved_row st moves f i else record_at st f i)"
      proof (cases "i div ?r = k")
        case True
        then show ?thesis using page_write_new [OF st L True] lane [OF i True] by (simp add: c)
      next
        case False
        then show ?thesis using kept [OF i, of "length buf"] inv i by (simp add: c commit_inv_def)
      qed
    qed
    then show ?thesis using w U [of "length buf"] len' [of "length buf"] others_kept_files Inr by (auto simp: c)
  qed
qed

lemma commit_loop_result:
  assumes st: "store_ok st" and "io_fold (write_prepared pr (page_size st)) ks () d = (r, d')"
    and path: "pr_path pr = p" and ok: "images_ok st (pr_pages pr)" and "set ks \<subseteq> dom (pr_pages pr)"
    and rows: "\<forall>i < n. i div st_per_page st \<in> dom (pr_pages pr) \<longrightarrow> row_in st (pr_pages pr) i = moved_row st moves f i"
    and "commit_inv st n moves f D (content d p)" and "\<forall>k \<in> set ks. k < page_count n (st_per_page st)" and n: "n \<le> u32_max"
    and len: "page_count n (st_per_page st) * page_size st \<le> length f" and "distinct ks" and "set ks \<inter> D = {}"
  shows "files_kept p d d' \<and> (benign d \<longrightarrow> r = Inr () \<and> benign d')
    \<and> unmoved_kept st n moves f (content d' p) \<and> (r = Inr () \<longrightarrow> commit_inv st n moves f (set ks \<union> D) (content d' p))
    \<and> length (content d' p) = length f"
  using assms(2,5,7,8,11,12)
proof (induction ks arbitrary: d D)
  case Nil
  then have "r = Inr ()" "d' = d" by simp_all
  moreover have "length (content d p) = length f" using Nil.prems(3) by (simp add: commit_inv_def)
  ultimately show ?case
    using Nil.prems(3) commit_inv_unmoved [OF Nil.prems(3)] by (simp add: files_kept_same)
next
  case (Cons k ks)
  have one: "files_kept p d d1 \<and> (benign d \<longrightarrow> q = Inr () \<and> benign d1)
    \<and> unmoved_kept st n moves f (content d1 p) \<and> (q = Inr () \<longrightarrow> commit_inv st n moves f (insert k D) (content d1 p))
    \<and> length (content d1 p) = length f" if "write_prepared pr (page_size st) k () d = (q, d1)" for q d1
    using Cons.prems by (intro write_prepared_result [OF st that path ok _ rows _ _ n len]) auto
  have "io_bind (write_prepared pr (page_size st) k ()) (io_fold (write_prepared pr (page_size st)) ks) d = (r, d')"
    using Cons.prems(1) by simp
  then show ?case
  proof (cases rule: io_bind_cases)
    case (1 e)
    from one [OF 1(1)] 1(2) show ?thesis by auto
  next
    case (2 x d1)
    note o = one [OF 2(1)]
    have run: "io_fold (write_prepared pr (page_size st)) ks () d1 = (r, d')" using 2(2) by simp
    have "files_kept p d1 d' \<and> (benign d1 \<longrightarrow> r = Inr () \<and> benign d')
      \<and> unmoved_kept st n moves f (content d' p)
      \<and> (r = Inr () \<longrightarrow> commit_inv st n moves f (set ks \<union> insert k D) (content d' p))
      \<and> length (content d' p) = length f"
      using Cons.prems o by (intro Cons.IH [OF run]) auto
    moreover have "set ks \<union> insert k D = set (k # ks) \<union> D" by auto
    ultimately show ?thesis using o files_kept_trans by metis
  qed
qed


lemma commit_result:
  assumes st: "store_ok st" and path: "list_path st list_no = Inr p" and le: "new_size \<le> old_size"
    and ok: "prepared_ok st p list_no old_size new_size moves observed f pr" and mv: "moves_ok old_size new_size moves"
    and f: "content d p = f" "length f = page_count (unat old_size) (st_per_page st) * page_size st"
    and run: "commit_prepared_mutation st (Some pr) d = (r, d')"
  shows "files_kept p d d' \<and> (benign d \<and> files d p \<noteq> None \<longrightarrow> r = Inr () \<and> benign d')
    \<and> unmoved_kept st (unat new_size) moves f (content d' p)
    \<and> (r = Inr () \<longrightarrow> length (content d' p) = page_count (unat new_size) (st_per_page st) * page_size st
        \<and> (\<forall>i < unat new_size. record_at st (content d' p) i = moved_row st moves f i))"
proof -
  let ?P = "page_size st" and ?r = "st_per_page st" and ?n = "unat new_size"
  let ?E = "page_count (unat old_size) ?r * ?P" and ?N = "page_count ?n ?r * ?P" and ?ks = "pr_write_pages pr"
  have pr: "pr_path pr = p" "pr_list_no pr = list_no" "pr_old_pages pr = page_count (unat old_size) ?r"
    "pr_new_pages pr = page_count ?n ?r" "pr_page_size pr = ?P" "pr_stride pr = st_stride st" "pr_per_page pr = ?r"
    "?ks = filter (\<lambda>k. k < page_count ?n ?r) (write_pages st new_size moves)"
    "set (write_pages st new_size moves) \<subseteq> dom (pr_pages pr)" "images_ok st (pr_pages pr)"
    "\<forall>i < ?n. i div ?r \<in> dom (pr_pages pr) \<longrightarrow> row_in st (pr_pages pr) i = moved_row st moves f i"
    using ok by (simp_all add: prepared_ok_def)
  have E: "u64_mult (page_count (unat old_size) ?r) ?P = ?E" "u64_mult (page_count ?n ?r) ?P = ?N" "?N \<le> off_max"
    using page_bytes_bound [OF st] by simp_all
  have NE: "?N \<le> length f"
    unfolding f(2) using le by (intro mult_le_mono1 page_count_mono) (simp add: word_le_nat_alt)
  have base: "unmoved_kept st ?n moves f f" by (simp add: unmoved_kept_def)
  have "io_bind (sys_open False False p) (\<lambda>_.
      io_bind (expect_size p ?E ''list file changed after deletion preparation'') (\<lambda>_.
      io_bind (io_fold (write_prepared pr ?P) ?ks ()) (\<lambda>_.
      io_bind (resize_file p ?N) (\<lambda>_. sync_file (so_sync_writes (st_options st)))))) d = (r, d')"
    using run pr(1-7) by (simp add: commit_prepared_mutation_def path E)
  then show ?thesis
  proof (cases rule: io_bind_cases)
    case (1 e)
    note o = sys_open_existing [OF 1(1)]
    have "content d' p = f" using o f(1) by (simp add: content_def)
    then show ?thesis using o 1(2) base by (simp add: files_kept_same)
  next
    case (2 x d1)
    note o = sys_open_existing [OF 2(1)]
    have c1: "content d1 p = f" using o f(1) by (simp add: content_def)
    from 2(2) show ?thesis
    proof (cases rule: io_bind_cases)
      case (1 e)
      note x = expect_size_result [OF 1(1)]
      have "content d' p = f" using x c1 by (simp add: content_def)
      then show ?thesis using o x 1(2) base c1 f(2) by (simp add: files_kept_same)
    next
      case (2 y d2)
      note x = expect_size_result [OF 2(1)]
      have c2: "content d2 p = f" using x c1 by (simp add: content_def)
      have k2: "files_kept p d d2" using o x by (simp add: files_kept_same)
      have b2: "benign d \<longrightarrow> benign d2" using o x by blast
      have inv: "commit_inv st ?n moves f {} (content d2 p)" by (simp add: commit_inv_def c2)
      have loop: "files_kept p d2 e2 \<and> (benign d2 \<longrightarrow> q = Inr () \<and> benign e2)
          \<and> unmoved_kept st ?n moves f (content e2 p)
          \<and> (q = Inr () \<longrightarrow> commit_inv st ?n moves f (set ?ks \<union> {}) (content e2 p))
          \<and> length (content e2 p) = length f"
        if "io_fold (write_prepared pr ?P) ?ks () d2 = (q, e2)" for q e2
        by (rule commit_loop_result [OF st that pr(1,10) _ pr(11) inv _ _ NE]) (use pr(8,9) in \<open>auto simp: write_pages_def\<close>)
      from 2(2) show ?thesis
      proof (cases rule: io_bind_cases)
        case (1 e)
        from loop [OF 1(1)] 1(2) b2 k2 files_kept_trans show ?thesis by blast
      next
        case (2 z d3)
        have z: "z = ()" by simp
        note L = loop [OF 2(1) [unfolded z]]
        have k3: "files_kept p d d3" using L k2 files_kept_trans by blast
        have rows: "record_at st (content d3 p) i = moved_row st moves f i" if "i < ?n" for i
        proof (cases "i \<in> (\<lambda>m. unat (mv_destination m)) ` set moves")
          case True
          then have "i div ?r \<in> set ?ks"
            using page_of_row [OF that, of ?r] by (auto simp: pr(8) write_pages_set row_page_def)
          then show ?thesis using L that by (simp add: commit_inv_def)
        next
          case False
          then show ?thesis using L that moved_row_other [OF False, of st f] by (simp add: unmoved_kept_def)
        qed
        have cut: "record_at st (file_truncate (content d3 p) ?N) i = record_at st (content d3 p) i" if "i < ?n" for i
          using row_in_file [OF st that] L NE by (simp add: record_at_def file_truncate_shorter segment_take)
        from 2(2) show ?thesis
        proof (cases rule: io_bind_cases)
          case (1 e)
          note t = resize_file_result [OF 1(1)]
          have "content d' p = content d3 p" using t by (simp add: content_def)
          then show ?thesis
            using t L 1(2) b2 E(3) files_kept_trans [OF k3 others_kept_files] by auto
        next
          case (2 w d4)
          note t = resize_file_result [OF 2(1)] and sy = sync_file_result [OF 2(2)]
          have c4: "content d' p = file_truncate (content d3 p) ?N" using t sy by (simp add: content_def)
          have "files_kept p d d'"
            using files_kept_trans [OF files_kept_trans [OF k3 others_kept_files [OF conjunct1 [OF t]]]] sy
            by (simp add: files_kept_same)
          moreover have "length (content d' p) = ?N" by (simp add: c4 file_truncate_def)
          moreover have "unmoved_kept st ?n moves f (content d' p)"
            using L cut by (simp add: unmoved_kept_def c4)
          ultimately show ?thesis using t sy L b2 E(3) rows cut by (simp add: c4)
        qed
      qed
    qed
  qed
qed


section \<open>The contracts of the store\<close>

lemma append_needs_alignment:
  assumes path: "list_path st list_no = Inr p" and cnt: "0 < cnt" and torn: "\<not> page_size st dvd length (content d p)"
    and run: "append_records st list_no old ids payloads pstride cnt d = (r, d')"
  shows "r \<noteq> Inr ()"
proof
  assume "r = Inr ()"
  then obtain d1 d2 n d3 where "create_directories (list_dir st list_no) d = (Inr (), d1)" "sys_open True False p d1 = (Inr (), d2)"
    "sys_fstat p d2 = (Inr n, d3)" "n mod page_size st = 0"
    using run cnt unfolding append_records_def Let_def
    by (auto simp: path elim!: io_bind_cases split: if_splits)
  note c = this
  have "content d2 p = content d p"
    using create_directories_result [OF c(1)] sys_open_create [OF c(2)] by (simp add: content_def)
  then have "n = length (content d p)" using sys_fstat_result(4) [OF c(3)] by simp
  then show False using torn c(4) by (simp add: dvd_eq_mod_eq_0)
qed

lemma row_id_record_bytes:
  assumes "record_at st f i = record_bytes st ids payloads pstride j"
  shows "row_id st f i = ids ! j"
  using assms by (simp add: row_id_def record_bytes_def)

text \<open>
  C26. Appending rows to a list file, on a file that holds at least the published pages. Under every
  outcome of the system calls (interrupted, short and failing ones included) the published rows keep
  their bytes and no other file changes. A normal return leaves a file of exactly the derived page
  count in which the new rows hold the given ids and payloads. When no call fails and the file is page
  aligned the append returns normally.
\<close>

theorem append_records_correct:
  assumes "store_ok st" and "list_path st list_no = Inr p" and "0 < cnt" and "unat old + cnt \<le> u32_max"
    and "payload_bytes st \<le> pstride"
    and "\<forall>j < cnt. length (segment payloads (j * pstride) (payload_bytes st)) = payload_bytes st"
    and "page_count (unat old) (st_per_page st) * page_size st \<le> length (content d p)"
    and "append_records st list_no old (Some ids) (Some payloads) pstride cnt d = (r, d')"
  shows "files_kept p d d' \<and> rows_kept st (unat old) (content d p) (content d' p)
    \<and> (r = Inr () \<longrightarrow> length (content d' p) = page_count (unat old + cnt) (st_per_page st) * page_size st
        \<and> (\<forall>j < cnt. record_at st (content d' p) (unat old + j) = record_bytes st ids payloads pstride j))
    \<and> (benign d \<and> page_size st dvd length (content d p) \<longrightarrow> r = Inr () \<and> benign d')"
  by (rule append_records_result [OF assms])

text \<open>
  Reading ids at list-local offsets changes no file, returns the id fields of the rows in input
  order (repetitions included), and returns normally when no call fails, the offsets are published and
  the file has exactly the derived page count.
\<close>

theorem read_logical_ids_correct:
  assumes "store_ok st" and "list_path st list_no = Inr p" and "read_logical_ids st list_no n offs d = (r, d')"
  shows "files d' = files d
    \<and> (\<forall>ids. r = Inr ids \<longrightarrow> ids = map (\<lambda>off. row_id st (content d p) (unat off)) offs)
    \<and> (benign d \<and> files d p \<noteq> None \<and> (\<forall>off \<in> set offs. off < n)
        \<and> length (content d p) = page_count (unat n) (st_per_page st) * page_size st
        \<longrightarrow> (\<exists>ids. r = Inr ids) \<and> benign d')"
  by (rule read_logical_ids_result [OF assms])

text \<open>
  What is appended is read back: after a successful append, reading all the new offsets of the
  list at its new size returns the appended ids in order, when no call fails.
\<close>

theorem append_then_read:
  assumes "store_ok st" and "list_path st list_no = Inr p" and "0 < cnt" and "unat old + cnt \<le> u32_max"
    and "payload_bytes st \<le> pstride" and "cnt = length ids"
    and "\<forall>j < cnt. length (segment payloads (j * pstride) (payload_bytes st)) = payload_bytes st"
    and "page_count (unat old) (st_per_page st) * page_size st \<le> length (content d p)"
    and "append_records st list_no old (Some ids) (Some payloads) pstride cnt d = (Inr (), d1)"
    and "benign d1" and "files d1 p \<noteq> None"
    and "read_logical_ids st list_no (old + of_nat cnt) (map (\<lambda>j. old + of_nat j) [0..<cnt]) d1 = (r, d2)"
  shows "r = Inr ids"
proof -
  note A = append_records_result [OF assms(1-5,7-9)]
  have off: "unat (old + of_nat j) = unat old + j" if "j \<le> cnt" for j
    using assms(4) that by (simp add: unat_word_ariths u32_max_def unat_of_nat take_bit_nat_eq_self mod_less)
  have ids: "map (\<lambda>off. row_id st (content d1 p) (unat off)) (map (\<lambda>j. old + of_nat j) [0..<cnt]) = ids"
    using A assms(6) off row_id_record_bytes by (intro nth_equalityI) simp_all
  have lt: "\<forall>off \<in> set (map (\<lambda>j. old + of_nat j) [0..<cnt]). off < old + of_nat cnt"
    using off by (auto simp: word_less_nat_alt)
  note R = read_logical_ids_result [OF assms(1,2,12)]
  have len: "length (content d1 p) = page_count (unat (old + of_nat cnt)) (st_per_page st) * page_size st"
    using A off [of cnt] by simp
  have "\<exists>ids. r = Inr ids" using R assms(10,11) lt len by blast
  then show ?thesis using R ids by auto
qed

text \<open>
  C27. Deletion. Preparing changes no file and observes the ids stored at the requested offsets.
  Committing the prepared mutation on an unchanged list file never touches another file nor, under any
  outcome (torn page writes included), a surviving row that no move overwrites. After a normal return
  the file has exactly the page count of the new size, every destination row holds the record its
  source held before, and all other surviving rows are unchanged. The commit returns normally when the
  file exists and no call fails.
\<close>

theorem delete_correct:
  assumes "store_ok st" and "list_path st list_no = Inr p" and "distinct (map mv_destination moves)"
    and "prepare_moves_and_truncate st list_no old_size new_size moves observed d = (Inr pr, d1)"
    and "content d2 p = content d1 p" and "commit_prepared_mutation st (Some pr) d2 = (r, d')"
  shows "files d1 = files d \<and> pr_observed pr = map (\<lambda>off. row_id st (content d p) (unat off)) observed
    \<and> files_kept p d2 d' \<and> unmoved_kept st (unat new_size) moves (content d p) (content d' p)
    \<and> (r = Inr () \<longrightarrow> length (content d' p) = page_count (unat new_size) (st_per_page st) * page_size st
        \<and> (\<forall>i < unat new_size. record_at st (content d' p) i = moved_row st moves (content d p) i))
    \<and> (benign d2 \<and> files d2 p \<noteq> None \<longrightarrow> r = Inr ())"
proof -
  note P = prepare_result [OF assms(1-4)]
  have ok: "prepared_ok st p list_no old_size new_size moves observed (content d p) pr"
    and len: "length (content d p) = page_count (unat old_size) (st_per_page st) * page_size st"
    and le: "new_size \<le> old_size" and mv: "moves_ok old_size new_size moves" and f: "files d1 = files d"
    using P by blast+
  have c: "content d2 p = content d p" using assms(5) f by (simp add: content_def)
  note C = commit_result [OF assms(1,2) le ok mv c len assms(6)]
  have "pr_observed pr = map (\<lambda>off. row_id st (content d p) (unat off)) observed"
    using ok by (simp add: prepared_ok_def)
  with C f show ?thesis by blast
qed

text \<open>
  \<open>apply_moves_and_truncate\<close> as a whole: valid moves with distinct destinations on a well-sized
  existing list file are applied when no call fails, and the result is the moved file.
\<close>

theorem apply_moves_correct:
  assumes "store_ok st" and "list_path st list_no = Inr p" and "distinct (map mv_destination moves)"
    and "moves_ok old_size new_size moves" and "new_size \<le> old_size" and "benign d" and "files d p \<noteq> None"
    and "length (content d p) = page_count (unat old_size) (st_per_page st) * page_size st"
    and "apply_moves_and_truncate st list_no old_size new_size moves d = (r, d')"
  shows "r = Inr () \<and> files_kept p d d'
    \<and> length (content d' p) = page_count (unat new_size) (st_per_page st) * page_size st
    \<and> (\<forall>i < unat new_size. record_at st (content d' p) i = moved_row st moves (content d p) i)"
proof -
  obtain q d1 where q: "prepare_moves_and_truncate st list_no old_size new_size moves [] d = (q, d1)" by fastforce
  note P = prepare_result [OF assms(1-3) q]
  obtain pr where pr: "q = Inr pr" using P assms(4-8) by auto
  have run: "commit_prepared_mutation st (Some pr) d1 = (r, d')"
    using assms(9) q pr by (simp add: apply_moves_and_truncate_def)
  have ok: "prepared_ok st p list_no old_size new_size moves [] (content d p) pr" and f: "files d1 = files d" "benign d1"
    using P pr assms(6) by blast+
  have c: "content d1 p = content d p" using f by (simp add: content_def)
  note C = commit_result [OF assms(1,2,5) ok assms(4) c assms(8) run]
  have r: "r = Inr ()" using C f assms(7) by simp
  have "files_kept p d d'" using C f(1) by (simp add: files_kept_def)
  then show ?thesis using C r by blast
qed

text \<open>
  Two different lists of a store have different files, whatever the sharding: the file name after
  the last separator determines the list number.
\<close>

theorem list_paths_distinct:
  assumes "list_path st a = Inr p" and "list_path st b = Inr q" and "a \<noteq> b"
  shows "p \<noteq> q"
  using list_path_inject assms by blast

text \<open>
  A torn append cannot be retried: on a list file whose length is no multiple of the page size,
  which is what a partly executed page write leaves behind, every append throws, whatever it is given.
\<close>

theorem torn_append_blocks_retry:
  assumes "list_path st list_no = Inr p" and "0 < cnt" and "\<not> page_size st dvd length (content d p)"
  shows "fst (append_records st list_no old ids payloads pstride cnt d) \<noteq> Inr ()"
  using append_needs_alignment [OF assms] by (metis surj_pair fst_conv)

section \<open>A concrete store\<close>

text \<open>Pages of sixteen bytes hold two records of an id and a four-byte payload.\<close>

definition tiny_store :: record_store where
  "tiny_store = make_store ''r'' 10 \<lparr>so_page_size = 16, so_payload_bytes = 4, so_lists_per_shard = 4,
    so_direct_io = False, so_sync_writes = True\<rparr>"

lemma tiny_store_ok: "store_ok tiny_store"
  by (simp add: store_ok_def store_args_ok_def tiny_store_def make_store_def is_power_of_two_def pointer_size_def)

lemma tiny_store_sizes [simp]:
  "page_size tiny_store = 16" "payload_bytes tiny_store = 4" "st_per_page tiny_store = 2" "st_stride tiny_store = 8"
  by (simp_all add: tiny_store_def make_store_def)

definition tiny_path :: "nat \<Rightarrow> string" where
  "tiny_path l = (case list_path tiny_store (of_nat l) of Inr p \<Rightarrow> p | Inl _ \<Rightarrow> [])"

lemma tiny_list_path: "l < 10 \<Longrightarrow> list_path tiny_store (of_nat l) = Inr (tiny_path l)"
proof -
  assume "l < 10"
  then have "unat (of_nat l :: u32) < st_nlist tiny_store"
    by (simp add: unat_u32_of_nat u32_max_def tiny_store_def make_store_def)
  from list_path_ok [OF this] show ?thesis by (auto simp: tiny_path_def)
qed

lemmas tiny_path_3 = tiny_list_path [of 3, simplified]
lemmas tiny_path_7 = tiny_list_path [of 7, simplified]

text \<open>List 3 holds three rows with ids 10, 11 and 12.\<close>

definition tiny_disk :: disk where
  "tiny_disk = \<lparr>files = [tiny_path 3 \<mapsto>
      le32 10 @ [1, 1, 1, 1] @ le32 11 @ [2, 2, 2, 2] @ le32 12 @ [3, 3, 3, 3] @ replicate 8 0],
    dirs = {}, transfers = [Eintr, Xfer 5], faults = []\<rparr>"

definition torn_disk :: disk where
  "torn_disk = \<lparr>files = [tiny_path 3 \<mapsto> replicate 7 0], dirs = {}, transfers = [], faults = []\<rparr>"

lemma tiny_disk_facts:
  "benign tiny_disk" "files tiny_disk (tiny_path 3) \<noteq> None" "length (content tiny_disk (tiny_path 3)) = 32"
  by (simp_all add: tiny_disk_def benign_def content_def)

theorem append_records_correct_witness:
  "\<exists>d'. append_records tiny_store 3 3 (Some [20, 21]) (Some [7, 7, 7, 7, 8, 8, 8, 8]) 4 2 tiny_disk = (Inr (), d')
    \<and> length (content d' (tiny_path 3)) = 48
    \<and> record_at tiny_store (content d' (tiny_path 3)) 4 = record_bytes tiny_store [20, 21] [7, 7, 7, 7, 8, 8, 8, 8] 4 1"
proof -
  obtain r d' where run: "append_records tiny_store 3 3 (Some [20, 21]) (Some [7, 7, 7, 7, 8, 8, 8, 8]) 4 2 tiny_disk = (r, d')"
    by fastforce
  have "\<forall>j < 2. length (segment [7, 7, 7, 7, 8, 8, 8, 8 :: u8] (j * 4) (payload_bytes tiny_store)) = payload_bytes tiny_store"
    by (auto simp: less_2_cases_iff segment_def)
  note A = append_records_correct [OF tiny_store_ok tiny_path_3 _ _ _ this _ run]
  have B: "files_kept (tiny_path 3) tiny_disk d'
    \<and> rows_kept tiny_store (unat (3 :: u32)) (content tiny_disk (tiny_path 3)) (content d' (tiny_path 3))
    \<and> (r = Inr () \<longrightarrow> length (content d' (tiny_path 3)) = page_count (unat (3 :: u32) + 2) 2 * 16
        \<and> (\<forall>j < 2. record_at tiny_store (content d' (tiny_path 3)) (unat (3 :: u32) + j) = record_bytes tiny_store [20, 21] [7, 7, 7, 7, 8, 8, 8, 8] 4 j))
    \<and> (benign tiny_disk \<and> 16 dvd length (content tiny_disk (tiny_path 3)) \<longrightarrow> r = Inr () \<and> benign d')"
    using A by (simp add: u32_max_def page_count_def tiny_disk_facts)
  then have r: "r = Inr ()" using tiny_disk_facts by simp
  have "\<forall>j < 2. record_at tiny_store (content d' (tiny_path 3)) (3 + j) = record_bytes tiny_store [20, 21] [7, 7, 7, 7, 8, 8, 8, 8] 4 j"
    using B r by simp
  from this [rule_format, of 1]
  have "record_at tiny_store (content d' (tiny_path 3)) 4 = record_bytes tiny_store [20, 21] [7, 7, 7, 7, 8, 8, 8, 8] 4 1"
    by simp
  moreover have "length (content d' (tiny_path 3)) = 48" using B r by (simp add: page_count_def)
  ultimately show ?thesis using run r by simp
qed

theorem read_logical_ids_correct_witness:
  "\<exists>d'. read_logical_ids tiny_store 3 3 [2, 0, 2] tiny_disk =
    (Inr (map (\<lambda>off. row_id tiny_store (content tiny_disk (tiny_path 3)) (unat off)) [2, 0, 2 :: u32]), d')"
proof -
  obtain r d' where run: "read_logical_ids tiny_store 3 3 [2, 0, 2] tiny_disk = (r, d')" by fastforce
  note R = read_logical_ids_correct [OF tiny_store_ok tiny_path_3 run]
  have "\<forall>off \<in> set [2, 0, 2 :: u32]. off < 3" by simp
  moreover have "length (content tiny_disk (tiny_path 3)) = page_count (unat (3 :: u32)) (st_per_page tiny_store) * page_size tiny_store"
    by (simp add: tiny_disk_facts page_count_def)
  ultimately have "\<exists>ids. r = Inr ids" using R tiny_disk_facts by blast
  with R run show ?thesis by auto
qed


definition tiny_moves :: "record_move list" where
  "tiny_moves = [\<lparr>mv_destination = 0, mv_source = 2\<rparr>]"

lemma tiny_moves_ok: "moves_ok 3 2 tiny_moves" "distinct (map mv_destination tiny_moves)"
  by (simp_all add: tiny_moves_def moves_ok_def)

theorem append_then_read_witness:
  "\<exists>d1 d2. append_records tiny_store 3 3 (Some [20, 21]) (Some [7, 7, 7, 7, 8, 8, 8, 8]) 4 2 tiny_disk = (Inr (), d1)
    \<and> read_logical_ids tiny_store 3 5 [3, 4] d1 = (Inr [20, 21], d2)"
proof -
  obtain r d1 where run: "append_records tiny_store 3 3 (Some [20, 21]) (Some [7, 7, 7, 7, 8, 8, 8, 8]) 4 2 tiny_disk = (r, d1)"
    by fastforce
  have pay: "\<forall>j < 2. length (segment [7, 7, 7, 7, 8, 8, 8, 8 :: u8] (j * 4) (payload_bytes tiny_store)) = payload_bytes tiny_store"
    by (auto simp: less_2_cases_iff segment_def)
  have old: "page_count (unat (3 :: u32)) (st_per_page tiny_store) * page_size tiny_store \<le> length (content tiny_disk (tiny_path 3))"
    by (simp add: tiny_disk_facts page_count_def)
  have "16 dvd length (content tiny_disk (tiny_path 3))" by (simp add: tiny_disk_facts)
  note A = append_records_result [OF tiny_store_ok tiny_path_3 _ _ _ pay old run, unfolded tiny_store_sizes]
  have B: "r = Inr () \<and> benign d1 \<and> files_kept (tiny_path 3) tiny_disk d1"
    using A tiny_disk_facts \<open>16 dvd _\<close> by (simp add: u32_max_def)
  then have some: "files d1 (tiny_path 3) \<noteq> None" using tiny_disk_facts by (simp add: files_kept_def)
  obtain q d2 where rd: "read_logical_ids tiny_store 3 (3 + of_nat 2) (map (\<lambda>j. 3 + of_nat j) [0..<2]) d1 = (q, d2)" by fastforce
  have "q = Inr [20, 21]"
    using append_then_read [OF tiny_store_ok tiny_path_3 _ _ _ _ pay old _ _ some rd] run B by (simp add: u32_max_def)
  moreover have "(3 :: u32) + of_nat 2 = 5" "map (\<lambda>j. (3 :: u32) + of_nat j) [0..<2] = [3, 4]"
    by (simp_all add: upt_rec)
  ultimately show ?thesis using run B rd by auto
qed

theorem delete_correct_witness:
  "\<exists>pr d1 d'. prepare_moves_and_truncate tiny_store 3 3 2 tiny_moves [1] tiny_disk = (Inr pr, d1)
    \<and> commit_prepared_mutation tiny_store (Some pr) d1 = (Inr (), d')
    \<and> record_at tiny_store (content d' (tiny_path 3)) 0 = record_at tiny_store (content tiny_disk (tiny_path 3)) 2"
proof -
  obtain q d1 where q: "prepare_moves_and_truncate tiny_store 3 3 2 tiny_moves [1] tiny_disk = (q, d1)" by fastforce
  note P = prepare_result [OF tiny_store_ok tiny_path_3 tiny_moves_ok(2) q]
  have len: "length (content tiny_disk (tiny_path 3)) = page_count (unat (3 :: u32)) (st_per_page tiny_store) * page_size tiny_store"
    by (simp add: tiny_disk_facts page_count_def)
  have "\<forall>off \<in> set [1 :: u32]. off < 3" "(2 :: u32) \<le> 3" by simp_all
  then obtain pr where pr: "q = Inr pr" using P tiny_disk_facts tiny_moves_ok(1) len by blast
  obtain r d' where run: "commit_prepared_mutation tiny_store (Some pr) d1 = (r, d')" by fastforce
  note D = delete_correct [OF tiny_store_ok tiny_path_3 tiny_moves_ok(2) q [unfolded pr] refl run]
  have f: "files d1 = files tiny_disk" "benign d1" using P tiny_disk_facts by blast+
  have r: "r = Inr ()" using D f tiny_disk_facts by simp
  have "moved_row tiny_store tiny_moves (content tiny_disk (tiny_path 3)) 0 = record_at tiny_store (content tiny_disk (tiny_path 3)) 2"
    by (simp add: moved_row_def tiny_moves_def)
  with D r have "record_at tiny_store (content d' (tiny_path 3)) 0 = record_at tiny_store (content tiny_disk (tiny_path 3)) 2" by simp
  with q pr run r show ?thesis by blast
qed

theorem apply_moves_correct_witness:
  "\<exists>d'. apply_moves_and_truncate tiny_store 3 3 2 tiny_moves tiny_disk = (Inr (), d')
    \<and> length (content d' (tiny_path 3)) = 16"
proof -
  obtain r d' where run: "apply_moves_and_truncate tiny_store 3 3 2 tiny_moves tiny_disk = (r, d')" by fastforce
  have len: "length (content tiny_disk (tiny_path 3)) = page_count (unat (3 :: u32)) (st_per_page tiny_store) * page_size tiny_store"
    by (simp add: tiny_disk_facts page_count_def)
  have "(2 :: u32) \<le> 3" by simp
  from apply_moves_correct [OF tiny_store_ok tiny_path_3 tiny_moves_ok(2,1) this tiny_disk_facts(1,2) len run]
  show ?thesis using run by (simp add: page_count_def)
qed

theorem list_paths_distinct_witness: "tiny_path 3 \<noteq> tiny_path 7"
  using list_paths_distinct [OF tiny_path_3 tiny_path_7] by simp

theorem torn_append_blocks_retry_witness:
  "fst (append_records tiny_store 3 0 (Some [20]) (Some [1, 2, 3, 4]) 4 1 torn_disk) \<noteq> Inr ()"
proof -
  have "\<not> page_size tiny_store dvd length (content torn_disk (tiny_path 3))"
    by (simp add: torn_disk_def content_def)
  from torn_append_blocks_retry [OF tiny_path_3 _ this] show ?thesis by simp
qed

end
