(* ===== verification/Float32_Functions.thy ===== *)
theory Float32_Functions
  imports Float32
begin

text \<open>
  The remaining binary32 operations of the scan code: conversion from unsigned integers, division and
  square root, each correctly rounded. A quotient or root that is not exact is represented by its
  floor at two extra bits with a sticky bit below them, which is enough for rounding to nearest even.
\<close>

section \<open>Operations\<close>

definition f32_of_nat :: "nat \<Rightarrow> f32" where
  "f32_of_nat n = f32_make False (round_mag 0 (n * 2 ^ 149))"

text \<open>\<open>n\<close> with a lowest bit that records whether something was cut off.\<close>

definition sticky :: "nat \<Rightarrow> bool \<Rightarrow> nat" where
  "sticky n inexact = 2 * n + (if inexact then 1 else 0)"

definition f32_div :: "f32 \<Rightarrow> f32 \<Rightarrow> f32" where
  "f32_div a b =
    (let s = (f32_sign a \<noteq> f32_sign b)
     in if f32_is_nan a \<or> f32_is_nan b then f32_nan
        else if f32_is_inf a then (if f32_is_inf b then f32_nan else f32_make s inf_mag)
        else if f32_is_inf b then f32_make s 0
        else if f32_mag b = 0 then (if f32_mag a = 0 then f32_nan else f32_make s inf_mag)
        else let n = f32_units (f32_mag a) * 2 ^ 151; d = f32_units (f32_mag b)
             in f32_make s (round_mag 3 (sticky (n div d) (n mod d \<noteq> 0))))"

fun isqrt :: "nat \<Rightarrow> nat" where
  "isqrt n = (if n = 0 then 0
    else let r = 2 * isqrt (n div 4) in if (r + 1) * (r + 1) \<le> n then r + 1 else r)"

declare isqrt.simps [simp del]

definition f32_sqrt :: "f32 \<Rightarrow> f32" where
  "f32_sqrt a =
    (if f32_is_nan a then f32_nan
     else if f32_mag a = 0 then a
     else if f32_sign a then f32_nan
     else if f32_is_inf a then a
     else let n = f32_units (f32_mag a) * 2 ^ 153; r = isqrt n
          in f32_make False (round_mag 3 (sticky r (r * r \<noteq> n))))"

section \<open>Properties\<close>

lemma isqrt_correct: "isqrt n * isqrt n \<le> n \<and> n < (isqrt n + 1) * (isqrt n + 1)"
proof (induction n rule: isqrt.induct)
  case (1 n)
  show ?case
  proof (cases "n = 0")
    case True
    then show ?thesis by (simp add: isqrt.simps)
  next
    case False
    let ?q = "isqrt (n div 4)"
    have IH: "?q * ?q \<le> n div 4" "n div 4 < (?q + 1) * (?q + 1)" using 1 [OF False] by simp_all
    have "4 * (?q * ?q) \<le> n" using IH(1) by linarith
    moreover have "n < 4 * ((?q + 1) * (?q + 1))" using IH(2) by linarith
    ultimately show ?thesis
      using False by (subst (1 2 3 4) isqrt.simps) (auto simp: Let_def algebra_simps)
  qed
qed

lemma f32_of_nat_0 [simp]: "f32_of_nat 0 = 0"
  by (simp add: f32_of_nat_def f32_make_def)

lemma f32_of_nat_nonneg: "\<not> f32_sign (f32_of_nat n)" "0 \<le> f32_smag (f32_of_nat n)" "\<not> f32_is_nan (f32_of_nat n)"
  by (simp_all add: f32_of_nat_def f32_smag_def f32_is_nan_def not_less)

lemma f32_add_commute: "f32_add a b = f32_add b a"
proof -
  have "f32_is_inf a \<Longrightarrow> f32_is_inf b \<Longrightarrow> f32_sign a = f32_sign b \<Longrightarrow> a = b"
    by (rule f32_fields_eq) (simp_all add: f32_is_inf_def)
  then show ?thesis
    by (cases "f32_is_inf a"; cases "f32_is_inf b") (auto simp: f32_add_def add.commute conj_commute Let_def)
qed

text \<open>A finite or infinite value that is not negative.\<close>

definition f32_nonneg :: "f32 \<Rightarrow> bool" where
  "f32_nonneg x \<longleftrightarrow> \<not> f32_is_nan x \<and> 0 \<le> f32_smag x"

lemma f32_nonneg_le: "f32_nonneg x \<longleftrightarrow> f32_le 0 x"
  by (auto simp: f32_nonneg_def f32_le_def)

lemma f32_finite_bounds: "f32_is_finite x \<longleftrightarrow> f32_lt x f32_inf \<and> f32_lt f32_ninf x"
  by (auto simp: f32_lt_def f32_is_finite_def f32_is_nan_def f32_smag_def)

section \<open>Bounds\<close>

lemma f32_of_nat_byte: "n \<le> 255 \<Longrightarrow> f32_mag (f32_of_nat n) \<le> 0x437F0000"
proof -
  assume "n \<le> 255"
  have "round_mag 0 (n * 2 ^ 149) \<le> round_mag 0 (f32_units 0x437F0000 * 2 ^ 0)"
    by (rule round_mag_mono) (use \<open>n \<le> 255\<close> in \<open>simp add: f32_units_def\<close>)
  also have "\<dots> = 0x437F0000" by (rule round_mag_exact) (simp add: inf_mag_def)
  finally show ?thesis by (simp add: f32_of_nat_def)
qed

lemma f32_of_nat_exact: "f32_mag (f32_of_nat 2) = 0x40000000" "f32_mag (f32_of_nat 255) = 0x437F0000"
proof -
  have a: "2 * 2 ^ 149 = f32_units 0x40000000 * 2 ^ 0" "255 * 2 ^ 149 = f32_units 0x437F0000 * 2 ^ 0" by (simp_all add: f32_units_def)
  show "f32_mag (f32_of_nat 2) = 0x40000000" "f32_mag (f32_of_nat 255) = 0x437F0000"
    unfolding f32_of_nat_def a by (subst round_mag_exact; simp add: inf_mag_def)+
qed

lemma error_unit_mag: "f32_mag (f32_div (f32_of_nat 2) (f32_of_nat 255)) \<le> 0x3F800000"
   "\<not> f32_sign (f32_div (f32_of_nat 2) (f32_of_nat 255))"
proof -
  let ?n = "f32_units 0x40000000 * 2 ^ 151" and ?d = "f32_units 0x437F0000"
  have e: "f32_div (f32_of_nat 2) (f32_of_nat 255) = f32_make False (round_mag 3 (sticky (?n div ?d) (?n mod ?d \<noteq> 0)))"
    by (simp add: f32_div_def Let_def f32_of_nat_exact f32_of_nat_nonneg f32_class_defs inf_mag_def)
  have "sticky (?n div ?d) (?n mod ?d \<noteq> 0) \<le> f32_units 0x3F800000 * 2 ^ 3"
    by (simp add: f32_units_def sticky_def)
  then have "round_mag 3 (sticky (?n div ?d) (?n mod ?d \<noteq> 0)) \<le> round_mag 3 (f32_units 0x3F800000 * 2 ^ 3)"
    by (rule round_mag_mono)
  also have "\<dots> = 0x3F800000" by (rule round_mag_exact) (simp add: inf_mag_def)
  finally show "f32_mag (f32_div (f32_of_nat 2) (f32_of_nat 255)) \<le> 0x3F800000" by (simp add: e)
  show "\<not> f32_sign (f32_div (f32_of_nat 2) (f32_of_nat 255))" by (simp add: e)
qed

lemma f32_mul_mag_le:
  assumes "f32_is_finite a" "f32_is_finite b" "f32_units (f32_mag a) \<le> p" "f32_units (f32_mag b) \<le> q" "p * q \<le> f32_units m * 2 ^ 149" "m < inf_mag"
  shows "f32_mag (f32_mul a b) \<le> m" "f32_is_finite (f32_mul a b)" 
proof -
  have "f32_units (f32_mag a) * f32_units (f32_mag b) \<le> f32_units m * 2 ^ 149"
    using mult_le_mono [OF assms(3,4)] assms(5) by linarith
  then have "round_mag 149 (f32_units (f32_mag a) * f32_units (f32_mag b)) \<le> m"
    using round_mag_mono round_mag_exact [of m 149] assms(6) by (metis less_imp_le)
  then show "f32_mag (f32_mul a b) \<le> m" 
    using assms(1,2) by (simp add: f32_mul_def Let_def f32_finite_iff)
  then show "f32_is_finite (f32_mul a b)" using assms(6) by (simp add: f32_is_finite_def)
qed

lemma one_units: "f32_units 0x3F800000 = 2 ^ 149" "f32_units 0x40000000 = 2 ^ 150"
  by (simp_all add: f32_units_def)

lemma round_mag_ge: "f32_units m * 2 ^ s \<le> n \<Longrightarrow> m \<le> inf_mag \<Longrightarrow> m \<le> round_mag s n"
  using round_mag_mono [of "f32_units m * 2 ^ s" n s] round_mag_exact [of m s] by simp

lemma round_mag_le: "n \<le> f32_units m * 2 ^ s \<Longrightarrow> m \<le> inf_mag \<Longrightarrow> round_mag s n \<le> m"
  using round_mag_mono [of n "f32_units m * 2 ^ s" s] round_mag_exact [of m s] by simp

lemma f32_of_nat_ge_1: "0 < n \<Longrightarrow> 0x3F800000 \<le> f32_mag (f32_of_nat n)"
  unfolding f32_of_nat_def by (simp, rule round_mag_ge) (simp_all add: one_units inf_mag_def)

lemma f32_units_mono: "m \<le> n \<Longrightarrow> f32_units m \<le> f32_units n"
  by (meson f32_units_less_iff leD leI)

lemma f32_sqrt_ge_1:
  assumes "0x3F800000 \<le> f32_mag x" and "\<not> f32_is_nan x" and "\<not> f32_sign x"
  shows "0x3F800000 \<le> f32_mag (f32_sqrt x)" "\<not> f32_is_nan (f32_sqrt x)" "\<not> f32_sign (f32_sqrt x)"
proof -
  let ?n = "f32_units (f32_mag x) * 2 ^ 153"
  have "f32_units 0x3F800000 * 2 ^ 153 \<le> ?n" using assms(1) f32_units_mono by (intro mult_le_mono1)
  then have "2 ^ 151 * 2 ^ 151 \<le> ?n" by (simp add: one_units)
  then have "2 ^ 151 < isqrt ?n + 1"
    using isqrt_correct [of ?n] mult_le_mono [of "isqrt ?n + 1" "2 ^ 151" "isqrt ?n + 1" "2 ^ 151"]
    by (meson le_less_trans not_less order.trans)
  then have "f32_units 0x3F800000 * 2 ^ 3 \<le> sticky (isqrt ?n) (isqrt ?n * isqrt ?n \<noteq> ?n)"
    by (simp add: one_units sticky_def)
  then have "0x3F800000 \<le> round_mag 3 (sticky (isqrt ?n) (isqrt ?n * isqrt ?n \<noteq> ?n))"
    by (rule round_mag_ge) (simp add: inf_mag_def)
  then show "0x3F800000 \<le> f32_mag (f32_sqrt x)" "\<not> f32_is_nan (f32_sqrt x)" "\<not> f32_sign (f32_sqrt x)"
    using assms by (auto simp: f32_sqrt_def Let_def f32_is_nan_def not_less)
qed

lemma f32_reciprocal:
  assumes "0x3F800000 \<le> f32_mag x" and "\<not> f32_is_nan x" and "\<not> f32_sign x"
  shows "f32_is_finite (f32_div (f32_of_nat 1) x)" "\<not> f32_sign (f32_div (f32_of_nat 1) x)"
proof -
  have one: "f32_mag (f32_of_nat 1) = 0x3F800000"
  proof -
    have "round_mag 0 (f32_units 0x3F800000 * 2 ^ 0) = 0x3F800000" by (rule round_mag_exact) (simp add: inf_mag_def)
    then show ?thesis by (simp add: f32_of_nat_def one_units)
  qed
  let ?n = "f32_units 0x3F800000 * 2 ^ 151" and ?d = "f32_units (f32_mag x)"
  have "2 ^ 149 \<le> ?d" using f32_units_mono [OF assms(1)] by (simp only: one_units)
  then have "?n div ?d \<le> ?n div 2 ^ 149" by (intro div_le_mono2) auto
  then have "sticky (?n div ?d) (?n mod ?d \<noteq> 0) \<le> f32_units 0x40000000 * 2 ^ 3"
    by (simp add: one_units sticky_def)
  then have "round_mag 3 (sticky (?n div ?d) (?n mod ?d \<noteq> 0)) \<le> 0x40000000"
    by (rule round_mag_le) (simp add: inf_mag_def)
  then show "f32_is_finite (f32_div (f32_of_nat 1) x)" "\<not> f32_sign (f32_div (f32_of_nat 1) x)"
    using assms one f32_of_nat_nonneg [of 1] 
    by (auto simp: f32_div_def Let_def f32_class_defs inf_mag_def)
qed

end
