(* ===== verification/Metric_Decode.thy ===== *)
theory Metric_Decode
  imports Metadata_Packing Float32_Functions Fused_Selection
begin

text \<open>
  Metadata decoding and metric reconstruction: \<open>RecastQuantizer::decode_metadata\<close>
  (src/src/quantizer.cpp) and, from src/src/fastscan.cpp, \<open>scalar_metric_values\<close>,
  \<open>postprocess_block_scalar\<close>, \<open>compute_metric_values_16_avx512\<close> and \<open>postprocess_16_avx512\<close>.

  The template arguments are ordinary arguments: the metric is a \<open>distance_metric\<close>, and the dot
  products of a block are \<open>dot_values\<close>, which holds the pointer that the \<open>QuantizedDot\<close> instance uses
  together with the reconstruction parameters. Each float operation of the source is one rounded
  operation of \<open>Float32\<close>, in the order of the source. A vector register is a list of sixteen lanes.
\<close>

section \<open>The view of a trained quantizer\<close>

record quantizer_view =
  qz_dimension :: nat
  qz_subquantizers :: nat
  qz_metric :: distance_metric
  qz_params :: metadata_decode_parameters

definition byte_float :: "u8 \<Rightarrow> f32" where
  "byte_float b = f32_of_nat (unat b)"

definition decode_metadata :: "quantizer_view \<Rightarrow> metadata \<Rightarrow> f32 \<times> f32 \<times> f32 \<times> bool" where
  "decode_metadata qz md =
    (let p = qz_params qz;
         vnorm = (if md_norm md = 255 then norm_max p else f32_mul (byte_float (md_norm md)) (norm_step p));
         scale = (if md_scale md = 255 then scale_max p else f32_mul (byte_float (md_scale md)) (scale_step p));
         direction_error = f32_mul (byte_float (md_error md)) (f32_div (f32_of_nat 2) (f32_of_nat 255));
         overflow = (md_scale md = 255 \<or> (qz_metric qz \<noteq> Cosine \<and> md_norm md = 255))
     in (vnorm, scale, direction_error, overflow))"

definition inverse_sqrt_dimension :: "quantizer_view \<Rightarrow> f32" where
  "inverse_sqrt_dimension qz = f32_div (f32_of_nat 1) (f32_sqrt (f32_of_nat (qz_dimension qz)))"

section \<open>The portable formulas\<close>

text \<open>The result pair; the second component starts as the caller's value and overflow leaves it.\<close>

definition scalar_metric_values ::
    "distance_metric \<Rightarrow> query_context \<Rightarrow> f32 \<Rightarrow> f32 \<Rightarrow> f32 \<Rightarrow> f32 \<Rightarrow> bool \<Rightarrow> f32 \<Rightarrow> f32 \<Rightarrow> f32 \<times> f32" where
  "scalar_metric_values metric q inv_sqrt vnorm scale direction_error overflow dot unc =
    (case metric of
       SquaredL2 \<Rightarrow>
         (f32_sub (f32_add (query_norm_squared q) (f32_mul vnorm vnorm)) (f32_mul (f32_mul (f32_of_nat 2) scale) dot),
          if overflow then unc
          else f32_mul (f32_mul (f32_mul (f32_mul (f32_of_nat 2) vnorm) (query_norm q)) direction_error) inv_sqrt)
     | InnerProduct \<Rightarrow>
         (f32_neg (f32_add (mean_dot_query q) (f32_mul scale dot)),
          if overflow then unc
          else f32_mul (f32_mul (f32_mul vnorm (query_norm q)) direction_error) inv_sqrt)
     | Cosine \<Rightarrow>
         (f32_sub (f32_of_nat 1) (f32_mul scale dot),
          if overflow then unc else f32_mul direction_error inv_sqrt))"

datatype dot_values =
    Exact_dots "f32 list"
  | Quantized_dots "16 word list" f32 f32

fun offset_dots :: "nat \<Rightarrow> dot_values \<Rightarrow> dot_values" where
  "offset_dots n (Exact_dots ds) = Exact_dots (drop n ds)"
| "offset_dots n (Quantized_dots qs inverse_scale bias) = Quantized_dots (drop n qs) inverse_scale bias"

fun scalar_dot :: "dot_values \<Rightarrow> nat \<Rightarrow> f32" where
  "scalar_dot (Exact_dots ds) lane = ds ! lane"
| "scalar_dot (Quantized_dots qs inverse_scale bias) lane =
    f32_add bias (f32_mul (f32_of_nat (unat (qs ! lane))) inverse_scale)"

record postprocessed_block =
  pb_estimates :: "f32 list"
  pb_uncertainties :: "f32 list"
  pb_lowers :: "f32 list"
  pb_uppers :: "f32 list"

text \<open>One row of the portable loop: estimate and uncertainty.\<close>

definition scalar_lane :: "quantizer_view \<Rightarrow> query_context \<Rightarrow> metadata \<Rightarrow> f32 \<Rightarrow> f32 \<times> f32" where
  "scalar_lane qz q md dot =
    (case decode_metadata qz md of (vnorm, scale, direction_error, overflow) \<Rightarrow>
      case scalar_metric_values (qz_metric qz) q (inverse_sqrt_dimension qz) vnorm scale direction_error overflow dot f32_inf of
        (estimate, unc) \<Rightarrow> (if \<not> f32_is_finite estimate then f32_inf else estimate, unc))"

definition postprocess_block_scalar ::
    "bool \<Rightarrow> quantizer_view \<Rightarrow> query_context \<Rightarrow> bytes \<Rightarrow> dot_values \<Rightarrow> f32 \<Rightarrow> nat \<Rightarrow> postprocessed_block" where
  "postprocess_block_scalar compute_intervals qz q tile dots z cnt =
    (let rows = map (\<lambda>lane. scalar_lane qz q (metadata_at_lane tile lane) (scalar_dot dots lane)) [0..<cnt];
         records = map (\<lambda>(e, u). \<lparr>de_id = 0, estimated_distance = e, uncertainty = u\<rparr>) rows
     in \<lparr>pb_estimates = map fst rows, pb_uncertainties = map snd rows,
         pb_lowers = (if compute_intervals then map (estimate_lower z) records else []),
         pb_uppers = (if compute_intervals then map (estimate_upper z) records else [])\<rparr>)"

section \<open>Sixteen-lane registers\<close>

definition set1 :: "'a \<Rightarrow> 'a list" where
  "set1 x = replicate 16 x"

definition mul_ps :: "f32 list \<Rightarrow> f32 list \<Rightarrow> f32 list" where
  "mul_ps a b = map2 f32_mul a b"

definition add_ps :: "f32 list \<Rightarrow> f32 list \<Rightarrow> f32 list" where
  "add_ps a b = map2 f32_add a b"

definition sub_ps :: "f32 list \<Rightarrow> f32 list \<Rightarrow> f32 list" where
  "sub_ps a b = map2 f32_sub a b"

text \<open>\<open>_mm512_mask_mov_ps\<close>: the lanes of the mask come from \<open>a\<close>, the others from \<open>src\<close>.\<close>

definition mask_mov :: "f32 list \<Rightarrow> bool list \<Rightarrow> f32 list \<Rightarrow> f32 list" where
  "mask_mov src m a = map2 (\<lambda>s (b, x). if b then x else s) src (zip m a)"

definition mask_not :: "bool list \<Rightarrow> bool list" where
  "mask_not m = map Not m"

definition cmp_lt :: "f32 list \<Rightarrow> f32 list \<Rightarrow> bool list" where
  "cmp_lt a b = map2 f32_lt a b"

definition cmp_gt :: "f32 list \<Rightarrow> f32 list \<Rightarrow> bool list" where
  "cmp_gt a b = map2 (\<lambda>x y. f32_lt y x) a b"

definition cmp_ge :: "f32 list \<Rightarrow> f32 list \<Rightarrow> bool list" where
  "cmp_ge a b = map2 (\<lambda>x y. f32_le y x) a b"

definition byte_lanes :: "bytes \<Rightarrow> f32 list" where
  "byte_lanes bs = map byte_float bs"

definition sentinel_mask :: "bytes \<Rightarrow> bool list" where
  "sentinel_mask bs = map (\<lambda>b. b = 255) bs"

fun vector_dots :: "dot_values \<Rightarrow> nat \<Rightarrow> f32 list" where
  "vector_dots (Exact_dots ds) lane_base = segment ds lane_base 16"
| "vector_dots (Quantized_dots qs inverse_scale bias) lane_base =
    add_ps (mul_ps (map (\<lambda>v. f32_of_nat (unat v)) (segment qs lane_base 16)) (set1 inverse_scale)) (set1 bias)"

record metric_values_16 =
  mv_estimates :: "f32 list"
  mv_uncertainties :: "f32 list"
  mv_finite :: "bool list"

text \<open>The metric-specific part: estimates, uncertainties and the overflow mask.\<close>

definition metric_formula_16 ::
    "distance_metric \<Rightarrow> query_context \<Rightarrow> f32 \<Rightarrow> f32 list \<Rightarrow> f32 list \<Rightarrow> f32 list \<Rightarrow> f32 list \<Rightarrow> bool list \<Rightarrow> bool list
      \<Rightarrow> f32 list \<times> f32 list \<times> bool list" where
  "metric_formula_16 metric q inv_sqrt norms scales errors dots norm_overflow scale_overflow =
    (case metric of
       SquaredL2 \<Rightarrow>
         (sub_ps (add_ps (set1 (query_norm_squared q)) (mul_ps norms norms))
            (mul_ps (set1 (f32_of_nat 2)) (mul_ps scales dots)),
          mul_ps (mul_ps norms errors) (set1 (f32_mul (f32_mul (f32_of_nat 2) (query_norm q)) inv_sqrt)),
          mask_or norm_overflow scale_overflow)
     | InnerProduct \<Rightarrow>
         (sub_ps (set1 0) (add_ps (set1 (mean_dot_query q)) (mul_ps scales dots)),
          mul_ps (mul_ps norms errors) (set1 (f32_mul (query_norm q) inv_sqrt)),
          mask_or norm_overflow scale_overflow)
     | Cosine \<Rightarrow>
         (sub_ps (set1 (f32_of_nat 1)) (mul_ps scales dots),
          mul_ps errors (set1 inv_sqrt),
          scale_overflow))"

definition compute_metric_values_16 ::
    "quantizer_view \<Rightarrow> query_context \<Rightarrow> bytes \<Rightarrow> dot_values \<Rightarrow> nat \<Rightarrow> metric_values_16" where
  "compute_metric_values_16 qz q tile dots lane_base =
    (let p = qz_params qz;
         norm_codes = segment tile lane_base 16;
         scale_codes = segment tile (block_lanes + lane_base) 16;
         error_codes = segment tile (2 * block_lanes + lane_base) 16;
         norm_overflow = sentinel_mask norm_codes;
         scale_overflow = sentinel_mask scale_codes;
         norms = mask_mov (mul_ps (byte_lanes norm_codes) (set1 (norm_step p))) norm_overflow (set1 (norm_max p));
         scales = mask_mov (mul_ps (byte_lanes scale_codes) (set1 (scale_step p))) scale_overflow (set1 (scale_max p));
         errors = mul_ps (byte_lanes error_codes) (set1 (f32_div (f32_of_nat 2) (f32_of_nat 255)));
         (estimates, uncertainties, overflow) =
           metric_formula_16 (qz_metric qz) q (inverse_sqrt_dimension qz) norms scales errors
             (vector_dots dots lane_base) norm_overflow scale_overflow;
         finite_estimate = mask_and (cmp_lt estimates (set1 f32_inf)) (cmp_gt estimates (set1 f32_ninf));
         finite_uncertainty = mask_and (mask_and (cmp_lt uncertainties (set1 f32_inf)) (cmp_ge uncertainties (set1 0)))
           (mask_not overflow)
     in \<lparr>mv_estimates = mask_mov (set1 f32_inf) finite_estimate estimates,
         mv_uncertainties = mask_mov (set1 f32_inf) finite_uncertainty uncertainties,
         mv_finite = finite_uncertainty\<rparr>)"

text \<open>The upper endpoints of the fused path, and the materialised planes of the other one.\<close>

definition upper_16 :: "f32 \<Rightarrow> metric_values_16 \<Rightarrow> f32 list" where
  "upper_16 z v =
    (if f32_eq z 0 then mv_estimates v
     else mask_mov (add_ps (mv_estimates v) (mul_ps (mv_uncertainties v) (set1 z)))
       (mask_not (mv_finite v)) (set1 f32_inf))"

definition lower_16 :: "f32 \<Rightarrow> metric_values_16 \<Rightarrow> f32 list" where
  "lower_16 z v =
    (if f32_eq z 0 then mv_estimates v
     else mask_mov (sub_ps (mv_estimates v) (mul_ps (mv_uncertainties v) (set1 z)))
       (mask_not (mv_finite v)) (set1 f32_ninf))"

definition postprocess_16 ::
    "bool \<Rightarrow> quantizer_view \<Rightarrow> query_context \<Rightarrow> bytes \<Rightarrow> dot_values \<Rightarrow> f32 \<Rightarrow> nat \<Rightarrow> postprocessed_block" where
  "postprocess_16 compute_intervals qz q tile dots z lane_base =
    (let v = compute_metric_values_16 qz q tile dots lane_base
     in \<lparr>pb_estimates = mv_estimates v, pb_uncertainties = mv_uncertainties v,
         pb_lowers = (if compute_intervals then lower_16 z v else []),
         pb_uppers = (if compute_intervals then upper_16 z v else [])\<rparr>)"

section \<open>What one vector lane computes\<close>

text \<open>The same computation for a single lane.\<close>

definition vector_lane :: "quantizer_view \<Rightarrow> query_context \<Rightarrow> metadata \<Rightarrow> f32 \<Rightarrow> f32 \<times> f32 \<times> bool" where
  "vector_lane qz q md dot =
    (case decode_metadata qz md of (vnorm, scale, direction_error, overflow) \<Rightarrow>
      let inv_sqrt = inverse_sqrt_dimension qz;
          (estimate, unc) = (case qz_metric qz of
             SquaredL2 \<Rightarrow>
               (f32_sub (f32_add (query_norm_squared q) (f32_mul vnorm vnorm)) (f32_mul (f32_of_nat 2) (f32_mul scale dot)),
                f32_mul (f32_mul vnorm direction_error) (f32_mul (f32_mul (f32_of_nat 2) (query_norm q)) inv_sqrt))
           | InnerProduct \<Rightarrow>
               (f32_sub 0 (f32_add (mean_dot_query q) (f32_mul scale dot)),
                f32_mul (f32_mul vnorm direction_error) (f32_mul (query_norm q) inv_sqrt))
           | Cosine \<Rightarrow> (f32_sub (f32_of_nat 1) (f32_mul scale dot), f32_mul direction_error inv_sqrt));
          fin = (f32_lt unc f32_inf \<and> f32_le 0 unc \<and> \<not> overflow)
      in (if f32_is_finite estimate then estimate else f32_inf, if fin then unc else f32_inf, fin))"

definition vector_upper :: "f32 \<Rightarrow> f32 \<times> f32 \<times> bool \<Rightarrow> f32" where
  "vector_upper z l = (case l of (e, u, fin) \<Rightarrow>
    if f32_eq z 0 then e else if fin then f32_add e (f32_mul u z) else f32_inf)"

definition vector_dot :: "dot_values \<Rightarrow> nat \<Rightarrow> f32" where
  "vector_dot dots lane = (case dots of
     Exact_dots ds \<Rightarrow> ds ! lane
   | Quantized_dots qs inverse_scale bias \<Rightarrow> f32_add (f32_mul (f32_of_nat (unat (qs ! lane))) inverse_scale) bias)"

fun dots_length :: "dot_values \<Rightarrow> nat" where
  "dots_length (Exact_dots ds) = length ds"
| "dots_length (Quantized_dots qs inverse_scale bias) = length qs"

lemma nth_map2_16: "length a = 16 \<Longrightarrow> length b = 16 \<Longrightarrow> l < 16 \<Longrightarrow> map2 f a b ! l = f (a ! l) (b ! l)"
  by simp

lemma register_length [simp]:
  "length (set1 x) = 16"
  "length (mul_ps a b) = min (length a) (length b)"
  "length (add_ps a b) = min (length a) (length b)"
  "length (sub_ps a b) = min (length a) (length b)"
  "length (mask_mov a m b) = min (length a) (min (length m) (length b))"
  "length (mask_not m) = length m"
  "length (mask_and m n) = min (length m) (length n)"
  "length (mask_or m n) = min (length m) (length n)"
  "length (cmp_lt a b) = min (length a) (length b)"
  "length (cmp_gt a b) = min (length a) (length b)"
  "length (cmp_ge a b) = min (length a) (length b)"
  "length (byte_lanes bs) = length bs" "length (sentinel_mask bs) = length bs"
  by (simp_all add: set1_def mul_ps_def add_ps_def sub_ps_def mask_mov_def mask_not_def mask_and_def mask_or_def
      cmp_lt_def cmp_gt_def cmp_ge_def byte_lanes_def sentinel_mask_def)

lemma register_nth [simp]:
  "l < 16 \<Longrightarrow> set1 x ! l = x"
  "l < length a \<Longrightarrow> l < length b \<Longrightarrow> mul_ps a b ! l = f32_mul (a ! l) (b ! l)"
  "l < length a \<Longrightarrow> l < length b \<Longrightarrow> add_ps a b ! l = f32_add (a ! l) (b ! l)"
  "l < length a \<Longrightarrow> l < length b \<Longrightarrow> sub_ps a b ! l = f32_sub (a ! l) (b ! l)"
  "l < length a \<Longrightarrow> l < length b \<Longrightarrow> l < length m \<Longrightarrow> mask_mov a m b ! l = (if m ! l then b ! l else a ! l)"
  "l < length m \<Longrightarrow> mask_not m ! l = (\<not> m ! l)"
  "l < length m \<Longrightarrow> l < length n \<Longrightarrow> mask_and m n ! l = (m ! l \<and> n ! l)"
  "l < length m \<Longrightarrow> l < length n \<Longrightarrow> mask_or m n ! l = (m ! l \<or> n ! l)"
  "l < length a \<Longrightarrow> l < length b \<Longrightarrow> cmp_lt a b ! l = f32_lt (a ! l) (b ! l)"
  "l < length a \<Longrightarrow> l < length b \<Longrightarrow> cmp_gt a b ! l = f32_lt (b ! l) (a ! l)"
  "l < length a \<Longrightarrow> l < length b \<Longrightarrow> cmp_ge a b ! l = f32_le (b ! l) (a ! l)"
  "l < length bs \<Longrightarrow> byte_lanes bs ! l = byte_float (bs ! l)"
  "l < length bs \<Longrightarrow> sentinel_mask bs ! l = (bs ! l = 255)"
  by (simp_all add: set1_def mul_ps_def add_ps_def sub_ps_def mask_mov_def mask_not_def mask_and_def mask_or_def
      cmp_lt_def cmp_gt_def cmp_ge_def byte_lanes_def sentinel_mask_def)

lemma vector_dots_lane:
  assumes "lane_base + 16 \<le> dots_length dots"
  shows "length (vector_dots dots lane_base) = 16"
    and "l < 16 \<Longrightarrow> vector_dots dots lane_base ! l = vector_dot dots (lane_base + l)"
  using assms by (cases dots; simp add: vector_dot_def nth_segment)+

lemma compute_metric_lane:
  fixes qz :: quantizer_view and q :: query_context
  assumes tile: "length tile = metadata_block_bytes" and base: "lane_base + 16 \<le> block_lanes"
    and dots: "lane_base + 16 \<le> dots_length dots"
  defines "v \<equiv> compute_metric_values_16 qz q tile dots lane_base"
  shows "length (mv_estimates v) = 16 \<and> length (mv_uncertainties v) = 16 \<and> length (mv_finite v) = 16
    \<and> (\<forall>l < 16. (mv_estimates v ! l, mv_uncertainties v ! l, mv_finite v ! l) =
        vector_lane qz q (metadata_at_lane tile (lane_base + l)) (vector_dot dots (lane_base + l)))"
proof -
  have len: "length (segment tile lane_base 16) = 16" "length (segment tile (block_lanes + lane_base) 16) = 16"
    "length (segment tile (2 * block_lanes + lane_base) 16) = 16"
    using tile base by (simp_all add: metadata_block_bytes_def block_lanes_def)
  have nth: "segment tile lane_base 16 ! l = md_norm (metadata_at_lane tile (lane_base + l))"
    "segment tile (block_lanes + lane_base) 16 ! l = md_scale (metadata_at_lane tile (lane_base + l))"
    "segment tile (2 * block_lanes + lane_base) 16 ! l = md_error (metadata_at_lane tile (lane_base + l))"
    if "l < 16" for l
    using that tile base
    by (simp_all add: nth_segment metadata_at_lane_def metadata_block_bytes_def block_lanes_def add.assoc)
  note d = vector_dots_lane [OF dots]
  show ?thesis
    by (cases "qz_metric qz")
      (auto simp: v_def compute_metric_values_16_def metric_formula_16_def vector_lane_def decode_metadata_def
        Let_def len nth d f32_finite_bounds)
qed


section \<open>What the lanes guarantee\<close>

lemma f32_mul_finite_not_nan: "f32_is_finite a \<Longrightarrow> f32_is_finite b \<Longrightarrow> \<not> f32_is_nan (f32_mul a b)"
  by (auto simp: f32_mul_def Let_def f32_finite_iff f32_is_nan_def not_less)

lemma f32_le_0: "f32_le 0 x \<longleftrightarrow> f32_nonneg x"
  by (simp add: f32_nonneg_le)

lemma f32_add_nonneg_not_nan:
  assumes "\<not> f32_is_nan e" and "f32_nonneg r" and "f32_is_finite e \<or> e = f32_inf"
  shows "\<not> f32_is_nan (f32_add e r)"
proof (cases "f32_is_finite e \<and> f32_is_finite r")
  case True
  then show ?thesis using f32_add_finite(2) by blast
next
  case False
  have "f32_is_inf r \<Longrightarrow> \<not> f32_sign r"
    using assms(2) by (auto simp: f32_nonneg_def f32_is_inf_def f32_smag_def inf_mag_def split: if_splits)
  then show ?thesis using False assms by (auto simp: f32_add_def f32_finite_iff f32_nonneg_def)
qed

lemma vector_lane_cases:
  assumes "vector_lane qz q md dot = (e, u, fin)"
  shows "f32_is_finite e \<or> e = f32_inf" and "fin \<Longrightarrow> f32_is_finite u \<and> f32_nonneg u" and "\<not> fin \<Longrightarrow> u = f32_inf"
proof -
  have "f32_lt x f32_inf \<Longrightarrow> f32_le 0 x \<Longrightarrow> f32_is_finite x" for x
    using f32_not_nan_bounds [of x]
    by (auto simp: f32_finite_iff f32_lt_def f32_le_def f32_is_inf_def f32_smag_def inf_mag_def split: if_splits)
  then show "f32_is_finite e \<or> e = f32_inf" and "fin \<Longrightarrow> f32_is_finite u \<and> f32_nonneg u" and "\<not> fin \<Longrightarrow> u = f32_inf"
    using assms by (auto simp: vector_lane_def Let_def f32_le_0 split: prod.splits if_splits)
qed

lemma vector_lane_estimate: "\<not> f32_is_nan (fst (vector_lane qz q md dot))"
  using vector_lane_cases(1) [of qz q md dot] by (cases "vector_lane qz q md dot") (auto simp: f32_finite_iff)

lemma vector_upper_not_nan:
  assumes "f32_is_finite z" and "f32_nonneg z"
  shows "\<not> f32_is_nan (vector_upper z (vector_lane qz q md dot))"
proof -
  obtain e u fin where l: "vector_lane qz q md dot = (e, u, fin)" by (metis prod_cases3)
  note c = vector_lane_cases [OF l]
  have e: "\<not> f32_is_nan e" using c(1) by (auto simp: f32_finite_iff)
  have "f32_nonneg (f32_mul u z)" if fin
    using f32_mul_finite_not_nan [of u z] radius_nonneg [of u z] c(2) [OF that] assms by (simp add: f32_nonneg_def)
  then show ?thesis using e f32_add_nonneg_not_nan [OF e _ c(1)] by (auto simp: l vector_upper_def)
qed

lemma scalar_lane_estimate: "\<not> f32_is_nan (fst (scalar_lane qz q md dot))"
  by (auto simp: scalar_lane_def f32_finite_iff split: prod.splits)

lemma scalar_vector_dot: "scalar_dot dots lane = vector_dot dots lane"
  by (cases dots) (simp_all add: vector_dot_def f32_add_commute)

text \<open>The cosine formulas of the two back ends are the same sequence of operations.\<close>

lemma byte_float_mag: "f32_mag (byte_float b) \<le> 0x437F0000"
proof -
  have "unat b < 2 ^ LENGTH(8)" by (rule unsigned_less)
  then show ?thesis using f32_of_nat_byte [of "unat b"] by (simp add: byte_float_def)
qed

lemma direction_error_bounds:
  "f32_is_finite (f32_mul (byte_float b) (f32_div (f32_of_nat 2) (f32_of_nat 255)))"
  "\<not> f32_sign (f32_mul (byte_float b) (f32_div (f32_of_nat 2) (f32_of_nat 255)))"
proof -
  let ?step = "f32_div (f32_of_nat 2) (f32_of_nat 255)"
  note b = byte_float_mag [of b]
  have f: "f32_is_finite (byte_float b)" "f32_is_finite ?step"
    using b error_unit_mag(1) by (simp_all add: f32_is_finite_def inf_mag_def)
  have u: "f32_units (f32_mag (byte_float b)) \<le> f32_units 0x437F0000" "f32_units (f32_mag ?step) \<le> f32_units 0x3F800000"
    using b error_unit_mag(1) by (meson f32_units_less_iff leD leI)+
  show "f32_is_finite (f32_mul (byte_float b) ?step)"
    by (rule f32_mul_mag_le(2) [OF f u, where m = "0x437F0000"]) (simp_all add: f32_units_def inf_mag_def)
  show "\<not> f32_sign (f32_mul (byte_float b) ?step)"
    using f error_unit_mag(2) f32_of_nat_nonneg(1) [of "unat b"]
    by (simp add: f32_mul_def Let_def f32_finite_iff byte_float_def)
qed

lemma f32_nonneg_cases: "f32_nonneg u \<Longrightarrow> f32_is_finite u \<or> u = f32_inf"
  by (rule f32_class_cases [of u]; auto simp: f32_nonneg_def f32_smag_def f32_is_inf_def inf_mag_def split: if_splits
      intro!: f32_fields_eq)

lemma cosine_lanes:
  assumes "qz_metric qz = Cosine" and "\<not> f32_sign (inverse_sqrt_dimension qz)"
    and "f32_is_finite (inverse_sqrt_dimension qz)"
  shows "\<exists>fin. vector_lane qz q md dot = (fst (scalar_lane qz q md dot), snd (scalar_lane qz q md dot), fin)"
proof -
  let ?err = "f32_mul (byte_float (md_error md)) (f32_div (f32_of_nat 2) (f32_of_nat 255))"
  let ?u = "f32_mul ?err (inverse_sqrt_dimension qz)"
  have "f32_nonneg ?u"
    using f32_mul_finite_not_nan [OF direction_error_bounds(1) assms(3)] f32_mul_nonneg [OF _ direction_error_bounds(2) assms(2)]
    by (simp add: f32_nonneg_def)
  then have "f32_lt ?u f32_inf \<and> f32_le 0 ?u \<or> ?u = f32_inf"
    using f32_nonneg_cases [of ?u] by (auto simp: f32_nonneg_le f32_finite_bounds)
  then show ?thesis using assms(1)
    by (auto simp: vector_lane_def scalar_lane_def decode_metadata_def scalar_metric_values_def Let_def)
qed

text \<open>The reciprocal root of a positive dimension is a finite value, so the hypotheses above hold.\<close>

lemma inverse_sqrt_dimension_ok:
  assumes "0 < qz_dimension qz"
  shows "f32_is_finite (inverse_sqrt_dimension qz)" "\<not> f32_sign (inverse_sqrt_dimension qz)"
  unfolding inverse_sqrt_dimension_def
  using f32_reciprocal [OF f32_sqrt_ge_1] f32_of_nat_ge_1 [OF assms] f32_of_nat_nonneg [of "qz_dimension qz"]
  by blast+

lemma f32_add_zero:
  assumes "\<not> f32_is_nan e" and "f32_mag r = 0"
  shows "f32_smag (f32_add e r) = f32_smag e"
proof -
  have "f32_neg (f32_neg r) = r" by (rule f32_fields_eq) (simp_all add: f32_mag_less)
  then show ?thesis using f32_sub_zero(1) [OF assms(1), of "f32_neg r"] assms(2) by (simp add: f32_sub_def)
qed

lemma vector_upper_endpoint:
  assumes l: "vector_lane qz q md dot = (e, u, fin)" and z: "f32_is_finite z" "f32_nonneg z"
  shows "f32_smag (vector_upper z (e, u, fin))
    = f32_smag (estimate_upper z \<lparr>de_id = i, estimated_distance = e, uncertainty = u\<rparr>)"
proof -
  note c = vector_lane_cases [OF l]
  have e: "\<not> f32_is_nan e" using c(1) by (auto simp: f32_finite_iff)
  show ?thesis
  proof (cases fin)
    case False
    then show ?thesis using c(3) by (simp add: vector_upper_def estimate_upper_def f32_eq_0_iff inf_mag_def)
  next
    case True
    have u: "f32_is_finite u" "f32_nonneg u" using c(2) True by blast+
    show ?thesis
    proof (cases "f32_eq u 0")
      case eq: True
      then have "f32_mag (f32_mul u z) = 0" using z(1) by (simp add: f32_eq_0_iff f32_mul_zero)
      then show ?thesis using True eq f32_add_zero [OF e] by (simp add: vector_upper_def estimate_upper_def)
    next
      case neq: False
      have "f32_nonneg (f32_mul u z)"
        using f32_mul_finite_not_nan [OF u(1) z(1)] radius_nonneg [of u z] u(2) z(2) by (simp add: f32_nonneg_def)
      then have "\<not> f32_is_nan (f32_add e (f32_mul u z))"
        using f32_add_nonneg_not_nan [OF e _ c(1)] by blast
      then show ?thesis using True neq u
        by (auto simp: vector_upper_def estimate_upper_def f32_finite_iff f32_mul_commute [of z u] Let_def)
    qed
  qed
qed

end
