(* ===== verification/Scan.thy ===== *)
theory Scan
  imports Metric_Decode Pq4_Packing
begin

text \<open>
  The scan pipeline of src/src/fastscan.cpp: LUT quantization, the choice of the accumulation
  kernel, the tile loops that postprocess a block (materialised or fused with the selector), and the
  public scans of \<open>RecastFastScanner\<close>.

  A consumer is a function on the state it updates. The Faiss LUT quantizer and its quantized
  kernel are the fields of \<open>faiss_scan_ops\<close>, arguments of the model. \<open>avx\<close> is the value of
  \<open>exact_pq4_avx512_supported()\<close>. The clock readings of \<open>ScanStats\<close> are left out.
\<close>

section \<open>State and parameters\<close>

record scan_stats =
  ss_valid_codes :: nat
  ss_padded_codes :: nat
  ss_exact_float_kernel :: bool
  ss_used_scalar_fallback :: bool

record faiss_scan_ops =
  quantize_LUT_and_bias :: "nat \<Rightarrow> f32 list \<Rightarrow> bytes \<times> f32 \<times> f32"
  pq4_accumulate_loop :: "nat \<Rightarrow> nat \<Rightarrow> nat \<Rightarrow> bytes \<Rightarrow> bytes \<Rightarrow> 16 word list"

record quantized_lut =
  ql_values :: bytes
  ql_scale :: f32
  ql_bias :: f32

section \<open>LUT quantization and kernel choice\<close>

text \<open>\<open>std::minmax_element\<close> finds the first smallest and the last largest element.\<close>

definition row_min :: "f32 list \<Rightarrow> f32" where
  "row_min row = fold (\<lambda>x best. if f32_lt x best then x else best) (tl row) (hd row)"

definition row_max :: "f32 list \<Rightarrow> f32" where
  "row_max row = fold (\<lambda>x best. if f32_lt x best then best else x) (tl row) (hd row)"

definition f32_max :: "f32 \<Rightarrow> f32 \<Rightarrow> f32" where
  "f32_max a b = (if f32_lt a b then b else a)"

definition lut_spans :: "f32 list \<Rightarrow> nat \<Rightarrow> f32 \<times> f32" where
  "lut_spans lut M =
    fold (\<lambda>m (max_span, constant_sum).
        let row = segment lut (m * 16) 16
        in (f32_max max_span (f32_sub (row_max row) (row_min row)), f32_add constant_sum (row_min row)))
      [0..<M] (0, 0)"

text \<open>The bit pattern of the source's constant \<open>1e-20f\<close>.\<close>

definition flat_span :: f32 where
  "flat_span = 0x1E3CE508"

definition quantize_lut :: "faiss_scan_ops \<Rightarrow> f32 list \<Rightarrow> nat \<Rightarrow> quantized_lut res" where
  "quantize_lut S lut M =
    (let (max_span, constant_sum) = lut_spans lut M
     in if f32_le max_span flat_span
        then Inr \<lparr>ql_values = replicate (M * 16) 0, ql_scale = f32_of_nat 1, ql_bias = constant_sum\<rparr>
        else let (vs, scale, bias) = quantize_LUT_and_bias S M lut
             in if \<not> f32_is_finite scale \<or> f32_le scale 0
                then Inl (Runtime_error ''Faiss produced an invalid PQ4 LUT scale'')
                else Inr \<lparr>ql_values = vs, ql_scale = scale, ql_bias = bias\<rparr>)"

definition choose_mode :: "bool \<Rightarrow> lut_mode \<Rightarrow> lut_mode" where
  "choose_mode avx requested =
    (if requested = Auto then (if avx then ExactFloat else QuantizedUint8) else requested)"

text \<open>The accumulation part of \<open>scan_block_metric\<close>: dot values, final mode, scalar fallback.\<close>

definition accumulate_block ::
    "bool \<Rightarrow> faiss_pq4_ops \<Rightarrow> faiss_scan_ops \<Rightarrow> nat \<Rightarrow> query_context \<Rightarrow> code_block_view \<Rightarrow> lut_mode
      \<Rightarrow> (dot_values \<times> lut_mode \<times> bool) res" where
  "accumulate_block avx F S M q b requested =
    (let mode = choose_mode avx requested
     in if mode = ExactFloat \<and> avx
        then res_bind (accumulate_exact_pq4_lut_avx512 avx (padded_rows b) (block_width b) M (packed_codes b) (dot_lut q))
          (\<lambda>exact_values. Inr (Exact_dots exact_values, ExactFloat, False))
        else if mode = ExactFloat \<or> mode = ScalarFloat
        then res_bind (accumulate_exact_pq4_lut_scalar F (block_rows b) (padded_rows b) (block_width b) M
            (packed_codes b) (dot_lut q))
          (\<lambda>exact_values. Inr (Exact_dots exact_values, ScalarFloat, mode = ExactFloat))
        else res_bind (quantize_lut S (dot_lut q) M)
          (\<lambda>lut. Inr (Quantized_dots
              (pq4_accumulate_loop S (padded_rows b) (block_width b) M (packed_codes b) (ql_values lut))
              (f32_div (f32_of_nat 1) (ql_scale lut)) (ql_bias lut), mode, False)))"

section \<open>Tile loops\<close>

definition tile_offsets :: "nat \<Rightarrow> nat list" where
  "tile_offsets n = map (\<lambda>k. block_lanes * k) [0..<(n + block_lanes - 1) div block_lanes]"

definition metadata_tile :: "code_block_view \<Rightarrow> nat \<Rightarrow> bytes" where
  "metadata_tile b offset =
    segment (packed_metadata b) (offset div block_lanes * metadata_block_bytes) metadata_block_bytes"

definition logical_count :: "code_block_view \<Rightarrow> nat \<Rightarrow> nat" where
  "logical_count b offset = min block_lanes (block_rows b - offset)"

definition ids_at :: "code_block_view \<Rightarrow> nat \<Rightarrow> u32 list option" where
  "ids_at b offset = map_option (drop offset) (block_ids b)"

definition base_at :: "code_block_view \<Rightarrow> nat \<Rightarrow> u32" where
  "base_at b offset = implicit_id_base b + of_nat offset"

text \<open>The two sixteen-lane stores of one tile fill the planes of a thirty-two row block.\<close>

definition join_halves :: "postprocessed_block \<Rightarrow> postprocessed_block \<Rightarrow> postprocessed_block" where
  "join_halves lo hi =
    \<lparr>pb_estimates = pb_estimates lo @ pb_estimates hi,
     pb_uncertainties = pb_uncertainties lo @ pb_uncertainties hi,
     pb_lowers = pb_lowers lo @ pb_lowers hi, pb_uppers = pb_uppers lo @ pb_uppers hi\<rparr>"

definition emit_postprocessed_blocks_avx512 ::
    "bool \<Rightarrow> quantizer_view \<Rightarrow> query_context \<Rightarrow> code_block_view \<Rightarrow> dot_values \<Rightarrow> f32
      \<Rightarrow> (nat \<Rightarrow> nat \<Rightarrow> postprocessed_block \<Rightarrow> 's \<Rightarrow> 's res) \<Rightarrow> 's \<Rightarrow> 's res" where
  "emit_postprocessed_blocks_avx512 compute_intervals qz q b dots z consume =
    res_fold (\<lambda>offset.
      let tile = metadata_tile b offset;
          lo = postprocess_16 compute_intervals qz q tile (offset_dots offset dots) z 0;
          hi = postprocess_16 compute_intervals qz q tile (offset_dots offset dots) z 16
      in consume offset (logical_count b offset) (join_halves lo hi)) (tile_offsets (block_rows b))"

definition emit_postprocessed_blocks ::
    "bool \<Rightarrow> bool \<Rightarrow> quantizer_view \<Rightarrow> query_context \<Rightarrow> code_block_view \<Rightarrow> dot_values \<Rightarrow> f32
      \<Rightarrow> (nat \<Rightarrow> nat \<Rightarrow> postprocessed_block \<Rightarrow> 's \<Rightarrow> 's res) \<Rightarrow> 's \<Rightarrow> 's res" where
  "emit_postprocessed_blocks avx compute_intervals qz q b dots z consume =
    (if avx then emit_postprocessed_blocks_avx512 compute_intervals qz q b dots z consume
     else res_fold (\<lambda>offset.
       let cnt = logical_count b offset
       in consume offset cnt
         (postprocess_block_scalar compute_intervals qz q (metadata_tile b offset) (offset_dots offset dots) z cnt))
       (tile_offsets (block_rows b)))"

text \<open>One half of a tile in the fused path.\<close>

definition add_half ::
    "quantizer_view \<Rightarrow> query_context \<Rightarrow> code_block_view \<Rightarrow> dot_values \<Rightarrow> f32 \<Rightarrow> nat \<Rightarrow> nat \<Rightarrow> nat \<Rightarrow> fused \<Rightarrow> fused res" where
  "add_half qz q b dots z offset lane_base cnt acc =
    (let v = compute_metric_values_16 qz q (metadata_tile b offset) (offset_dots offset dots) lane_base
     in add_16_avx512 (ids_at b (offset + lane_base)) (base_at b (offset + lane_base))
          (mv_estimates v) (mv_uncertainties v) (upper_16 z v) cnt acc)"

definition emit_selected_blocks_avx512 ::
    "quantizer_view \<Rightarrow> query_context \<Rightarrow> code_block_view \<Rightarrow> dot_values \<Rightarrow> f32 \<Rightarrow> fused \<Rightarrow> fused res" where
  "emit_selected_blocks_avx512 qz q b dots z =
    res_fold (\<lambda>offset acc.
      let cnt = logical_count b offset
      in res_bind (add_half qz q b dots z offset 0 (min 16 cnt) acc)
        (\<lambda>acc. if 16 < cnt then add_half qz q b dots z offset 16 (cnt - 16) acc else Inr acc))
      (tile_offsets (block_rows b))"

definition emit_selection_blocks ::
    "bool \<Rightarrow> quantizer_view \<Rightarrow> query_context \<Rightarrow> code_block_view \<Rightarrow> f32 \<Rightarrow> dot_values \<Rightarrow> fused \<Rightarrow> fused res" where
  "emit_selection_blocks avx qz q b z dots =
    (if avx then emit_selected_blocks_avx512 qz q b dots z
     else emit_postprocessed_blocks avx True qz q b dots z
       (\<lambda>offset cnt v. add_scalar_block avx (ids_at b offset) (base_at b offset)
          (pb_estimates v) (pb_uncertainties v) (pb_uppers v) cnt))"

section \<open>One block\<close>

definition block_invalid :: "nat \<Rightarrow> query_context \<Rightarrow> code_block_view \<Rightarrow> bool" where
  "block_invalid M q b \<longleftrightarrow> block_rows b > padded_rows b \<or> block_width b \<noteq> block_lanes
    \<or> padded_rows b mod block_width b \<noteq> 0 \<or> length (dot_lut q) \<noteq> M * 16"

definition update_stats :: "code_block_view \<Rightarrow> lut_mode \<Rightarrow> bool \<Rightarrow> scan_stats \<Rightarrow> scan_stats" where
  "update_stats b mode scalar_fallback st =
    st\<lparr>ss_valid_codes := ss_valid_codes st + block_rows b,
       ss_padded_codes := ss_padded_codes st + padded_rows b,
       ss_exact_float_kernel := (mode = ExactFloat \<or> mode = ScalarFloat),
       ss_used_scalar_fallback := (ss_used_scalar_fallback st \<or> scalar_fallback \<or> mode = ScalarFloat)\<rparr>"

text \<open>A null statistics pointer is \<open>None\<close>.\<close>

definition scan_block_metric ::
    "bool \<Rightarrow> faiss_pq4_ops \<Rightarrow> faiss_scan_ops \<Rightarrow> quantizer_view \<Rightarrow> query_context \<Rightarrow> code_block_view
      \<Rightarrow> lut_mode \<Rightarrow> (dot_values \<Rightarrow> 's \<Rightarrow> 's res) \<Rightarrow> 's \<times> scan_stats option \<Rightarrow> ('s \<times> scan_stats option) res" where
  "scan_block_metric avx F S qz q b requested emit acc_stats =
    (if block_invalid (qz_subquantizers qz) q b
     then Inl (Invalid_argument ''invalid Recast code block or query context'')
     else res_bind (accumulate_block avx F S (qz_subquantizers qz) q b requested) (\<lambda>(dots, mode, scalar_fallback).
       res_bind (emit dots (fst acc_stats)) (\<lambda>acc.
         Inr (acc, map_option (update_stats b mode scalar_fallback) (snd acc_stats)))))"

section \<open>The public scans\<close>

definition scanner_new :: "bool \<Rightarrow> unit res" where
  "scanner_new is_trained =
    (if \<not> is_trained then Inl (Invalid_argument ''scanner requires a trained quantizer'') else Inr ())"

definition push_estimates ::
    "code_block_view \<Rightarrow> nat \<Rightarrow> nat \<Rightarrow> postprocessed_block \<Rightarrow> distance_estimate list \<Rightarrow> distance_estimate list res" where
  "push_estimates b offset cnt v output =
    Inr (fold (\<lambda>lane out. out @
        [\<lparr>de_id = (case block_ids b of None \<Rightarrow> implicit_id_base b + of_nat offset + of_nat lane
                   | Some js \<Rightarrow> js ! (offset + lane)),
          estimated_distance = pb_estimates v ! lane, uncertainty = pb_uncertainties v ! lane\<rparr>])
      [0..<cnt] output)"

definition scan_all ::
    "bool \<Rightarrow> faiss_pq4_ops \<Rightarrow> faiss_scan_ops \<Rightarrow> quantizer_view \<Rightarrow> query_context \<Rightarrow> code_block_view
      \<Rightarrow> distance_estimate list option \<Rightarrow> scan_stats option \<Rightarrow> lut_mode
      \<Rightarrow> (distance_estimate list \<times> scan_stats option) res" where
  "scan_all avx F S qz q b output stats requested =
    (case output of
       None \<Rightarrow> Inl (Invalid_argument ''distance-estimate output must not be null'')
     | Some old \<Rightarrow> scan_block_metric avx F S qz q b requested
         (\<lambda>dots. emit_postprocessed_blocks avx False qz q b dots 0 (push_estimates b)) ([], stats))"

definition scan_interval_candidates ::
    "bool \<Rightarrow> faiss_pq4_ops \<Rightarrow> faiss_scan_ops \<Rightarrow> quantizer_view \<Rightarrow> query_context \<Rightarrow> code_block_view list
      \<Rightarrow> nat \<Rightarrow> f32 \<Rightarrow> nat \<Rightarrow> scan_stats option \<Rightarrow> lut_mode \<Rightarrow> (selection_result \<times> scan_stats option) res" where
  "scan_interval_candidates avx F S qz q blocks K z R stats requested =
    res_bind (fused_new K z R) (\<lambda>acc0.
    res_bind (res_fold (\<lambda>b. scan_block_metric avx F S qz q b requested (emit_selection_blocks avx qz q b z))
        blocks (acc0, stats)) (\<lambda>(acc, stats').
    res_bind (finish avx acc) (\<lambda>r. Inr (r, stats'))))"

end
