(* ===== verification/Scan_Correct.thy ===== *)
theory Scan_Correct
  imports Scan
begin

text \<open>
  Correctness of the scan pipeline. The tile loops feed the selector with batches; the batches of a
  block, put together, are its rows in order, each with the metric values of its own metadata and
  dot product. The selector theorems then apply to a whole query over many lists.
\<close>

section \<open>The values of one row\<close>

definition lane_values :: "bool \<Rightarrow> quantizer_view \<Rightarrow> query_context \<Rightarrow> metadata \<Rightarrow> f32 \<Rightarrow> f32 \<times> f32" where
  "lane_values avx qz q md dot =
    (if avx then (case vector_lane qz q md dot of (e, u, fin) \<Rightarrow> (e, u)) else scalar_lane qz q md dot)"

definition lane_upper :: "bool \<Rightarrow> f32 \<Rightarrow> quantizer_view \<Rightarrow> query_context \<Rightarrow> metadata \<Rightarrow> f32 \<Rightarrow> f32" where
  "lane_upper avx z qz q md dot =
    (if avx then vector_upper z (vector_lane qz q md dot)
     else case scalar_lane qz q md dot of (e, u) \<Rightarrow>
       estimate_upper z \<lparr>de_id = 0, estimated_distance = e, uncertainty = u\<rparr>)"

definition row_values :: "bool \<Rightarrow> quantizer_view \<Rightarrow> query_context \<Rightarrow> code_block_view \<Rightarrow> dot_values \<Rightarrow> nat \<Rightarrow> row" where
  "row_values avx qz q b dots i =
    (case lane_values avx qz q (get_metadata (packed_metadata b) i) (scalar_dot dots i) of (e, u) \<Rightarrow>
      (e, u, lane_id (block_ids b) (implicit_id_base b) i))"

definition row_upper :: "bool \<Rightarrow> f32 \<Rightarrow> quantizer_view \<Rightarrow> query_context \<Rightarrow> code_block_view \<Rightarrow> dot_values \<Rightarrow> nat \<Rightarrow> f32" where
  "row_upper avx z qz q b dots i =
    lane_upper avx z qz q (get_metadata (packed_metadata b) i) (scalar_dot dots i)"

text \<open>What the code relies on about a block view: readable metadata, ids and dot products.\<close>

definition view_ok :: "bool \<Rightarrow> code_block_view \<Rightarrow> bool" where
  "view_ok avx b \<longleftrightarrow> block_rows b \<le> padded_rows b \<and> block_width b = block_lanes
    \<and> padded_rows b mod block_lanes = 0 \<and> length (packed_metadata b) = 3 * padded_rows b
    \<and> (case block_ids b of None \<Rightarrow> True
       | Some js \<Rightarrow> (if avx then padded_rows b else block_rows b) \<le> length js)"

definition dots_ok :: "code_block_view \<Rightarrow> dot_values \<Rightarrow> bool" where
  "dots_ok b dots \<longleftrightarrow> dots_length dots = padded_rows b"

section \<open>Tiles\<close>

lemma tile_offset_cases:
  assumes "offset \<in> set (tile_offsets n)"
  obtains k where "offset = 32 * k" and "offset < n"
  using assms by (auto simp: tile_offsets_def block_lanes_def)

lemma concat_tiles:
  assumes f: "\<And>offset. offset \<in> set (tile_offsets n) \<Longrightarrow> f offset = map g [offset..<offset + min 32 (n - offset)]"
  shows "concat (map f (tile_offsets n)) = map g [0..<n]"
proof -
  let ?T = "(n + 31) div 32"
  have "concat (map f (map (\<lambda>k. 32 * k) [0..<t])) = map g [0..<min n (32 * t)]" if "t \<le> ?T" for t
    using that
  proof (induction t)
    case (Suc t)
    have "32 * t \<in> set (tile_offsets n)" using Suc.prems by (simp add: tile_offsets_def block_lanes_def)
    note ft = f [OF this]
    have lt: "32 * t < n" using Suc.prems by linarith
    then have "min n (32 * Suc t) = 32 * t + min 32 (n - 32 * t)" by (auto simp: min_def)
    then have "[0..<min n (32 * Suc t)] = [0..<32 * t] @ [32 * t..<32 * t + min 32 (n - 32 * t)]"
      using upt_add_eq_append [of 0 "32 * t"] by simp
    moreover have "min n (32 * t) = 32 * t" using lt by simp
    ultimately show ?case using Suc ft by simp
  qed simp
  from this [of ?T] have "concat (map f (map (\<lambda>k. 32 * k) [0..<?T])) = map g [0..<min n (32 * ?T)]" by simp
  moreover have "min n (32 * ?T) = n" by simp
  ultimately show ?thesis by (simp only: tile_offsets_def block_lanes_def) (simp add: add.commute)
qed

lemma tile_in_view:
  assumes "view_ok avx b" and "offset \<in> set (tile_offsets (block_rows b))"
  shows "offset mod 32 = 0" and "offset < block_rows b" and "offset + 32 \<le> padded_rows b"
    and "length (metadata_tile b offset) = metadata_block_bytes"
    and "l < 32 \<Longrightarrow> metadata_at_lane (metadata_tile b offset) l = get_metadata (packed_metadata b) (offset + l)"
proof -
  obtain k where k: "offset = 32 * k" "offset < block_rows b" using assms(2) by (rule tile_offset_cases)
  obtain p where p: "padded_rows b = 32 * p"
    using assms(1) by (auto simp: view_ok_def block_lanes_def)
  have r: "block_rows b \<le> padded_rows b" "length (packed_metadata b) = 96 * p" using assms(1) p by (auto simp: view_ok_def)
  then have "k < p" using k p by linarith
  then show "offset mod 32 = 0" "offset < block_rows b" "offset + 32 \<le> padded_rows b" using k p by auto
  have in_range: "96 * k + 96 \<le> length (packed_metadata b)" using r(2) \<open>k < p\<close> by linarith
  then show "length (metadata_tile b offset) = metadata_block_bytes"
    by (simp add: metadata_tile_def k(1) block_lanes_def metadata_block_bytes_def mult.commute)
  show "metadata_at_lane (metadata_tile b offset) l = get_metadata (packed_metadata b) (offset + l)" if "l < 32"
  proof -
    have "(offset + l) div 32 = k" "(offset + l) mod 32 = l" using that k(1) by auto
    then show ?thesis
      using in_range that
      by (simp add: metadata_at_lane_def get_metadata_def lane_index_def metadata_tile_def k(1) block_lanes_def
          metadata_block_bytes_def nth_segment mult.commute add.commute)
        (simp add: add.assoc)
  qed
qed

lemma offset_dots_simps [simp]: "dots_length (offset_dots n dots) = dots_length dots - n"
  "n \<le> dots_length dots \<Longrightarrow> scalar_dot (offset_dots n dots) l = scalar_dot dots (n + l)"
  by (cases dots; simp add: add.commute)+

lemma lane_id_offset:
  assumes "\<forall>js. block_ids b = Some js \<longrightarrow> n \<le> length js"
  shows "lane_id (ids_at b n) (base_at b n) l = lane_id (block_ids b) (implicit_id_base b) (n + l)"
  using assms by (auto simp: lane_id_def ids_at_def base_at_def add.assoc split: option.split)


section \<open>Batches of a block\<close>

definition half_batch ::
    "f32 \<Rightarrow> quantizer_view \<Rightarrow> query_context \<Rightarrow> code_block_view \<Rightarrow> dot_values \<Rightarrow> nat \<Rightarrow> nat \<Rightarrow> nat \<Rightarrow> batch" where
  "half_batch z qz q b dots offset lane_base n =
    (let v = compute_metric_values_16 qz q (metadata_tile b offset) (offset_dots offset dots) lane_base
     in (ids_at b (offset + lane_base), base_at b (offset + lane_base), mv_estimates v, mv_uncertainties v,
         upper_16 z v, n))"

definition tile_batch ::
    "f32 \<Rightarrow> quantizer_view \<Rightarrow> query_context \<Rightarrow> code_block_view \<Rightarrow> dot_values \<Rightarrow> nat \<Rightarrow> batch" where
  "tile_batch z qz q b dots offset =
    (let n = logical_count b offset;
         v = postprocess_block_scalar True qz q (metadata_tile b offset) (offset_dots offset dots) z n
     in (ids_at b offset, base_at b offset, pb_estimates v, pb_uncertainties v, pb_uppers v, n))"

definition tile_batches ::
    "bool \<Rightarrow> f32 \<Rightarrow> quantizer_view \<Rightarrow> query_context \<Rightarrow> code_block_view \<Rightarrow> dot_values \<Rightarrow> nat \<Rightarrow> batch list" where
  "tile_batches avx z qz q b dots offset =
    (let n = logical_count b offset
     in if \<not> avx then [tile_batch z qz q b dots offset]
        else half_batch z qz q b dots offset 0 (min 16 n) #
          (if 16 < n then [half_batch z qz q b dots offset 16 (n - 16)] else []))"

definition block_batches ::
    "bool \<Rightarrow> f32 \<Rightarrow> quantizer_view \<Rightarrow> query_context \<Rightarrow> code_block_view \<Rightarrow> dot_values \<Rightarrow> batch list" where
  "block_batches avx z qz q b dots = concat (map (tile_batches avx z qz q b dots) (tile_offsets (block_rows b)))"

definition add_batch :: "bool \<Rightarrow> batch \<Rightarrow> fused \<Rightarrow> fused res" where
  "add_batch avx = (if avx then add_vector else add_portable avx)"

definition batch_ok :: "bool \<Rightarrow> batch \<Rightarrow> bool" where
  "batch_ok avx = (if avx then vector_batch else portable_batch)"

lemma res_fold_concat: "res_fold f (concat xss) s = res_fold (res_fold f) xss s"
proof (induction xss arbitrary: s)
  case (Cons xs xss)
  then show ?case by (cases "res_fold f xs s") (simp_all add: res_fold_append)
qed simp

lemma res_bind_Inr_id [simp]: "res_bind r Inr = r"
  by (cases r) simp_all

lemma res_fold_single: "res_fold f [x] = f x" "res_fold f [] = Inr"
proof -
  show empty: "res_fold f [] = Inr" by (simp add: fun_eq_iff)
  show "res_fold f [x] = f x" by (simp add: fun_eq_iff empty)
qed

lemma emit_selection_batches:
  "emit_selection_blocks avx qz q b z dots = res_fold (add_batch avx) (block_batches avx z qz q b dots)"
proof (cases avx)
  case True
  have "(\<lambda>offset acc. let cnt = logical_count b offset
      in res_bind (add_half qz q b dots z offset 0 (min 16 cnt) acc)
        (\<lambda>acc. if 16 < cnt then add_half qz q b dots z offset 16 (cnt - 16) acc else Inr acc))
    = (\<lambda>offset. res_fold add_vector (tile_batches True z qz q b dots offset))"
    by (intro ext) (simp add: tile_batches_def half_batch_def add_half_def add_vector_def Let_def res_fold_single)
  with True show ?thesis
    by (simp add: emit_selection_blocks_def emit_selected_blocks_avx512_def block_batches_def add_batch_def
        res_fold_concat res_fold_map [symmetric] fun_eq_iff)
next
  case False
  then show ?thesis
    by (intro ext) (simp add: emit_selection_blocks_def emit_postprocessed_blocks_def block_batches_def add_batch_def
        res_fold_concat res_fold_map tile_batches_def tile_batch_def add_portable_def [abs_def] Let_def
        res_fold_single)
qed


lemma half_lanes:
  fixes b :: code_block_view and qz :: quantizer_view and q :: query_context
  assumes v: "view_ok avx b" and off: "offset \<in> set (tile_offsets (block_rows b))" and d: "dots_ok b dots"
    and base: "lane_base + 16 \<le> 32"
  defines "v \<equiv> compute_metric_values_16 qz q (metadata_tile b offset) (offset_dots offset dots) lane_base"
    and "lane \<equiv> \<lambda>l. vector_lane qz q (get_metadata (packed_metadata b) (offset + lane_base + l))
      (scalar_dot dots (offset + lane_base + l))"
  shows "length (mv_estimates v) = 16" "length (mv_uncertainties v) = 16" "length (mv_finite v) = 16"
    and "l < 16 \<Longrightarrow> mv_estimates v ! l = fst (lane l)" and "l < 16 \<Longrightarrow> mv_uncertainties v ! l = fst (snd (lane l))"
    and "l < 16 \<Longrightarrow> mv_finite v ! l = snd (snd (lane l))"
proof -
  note t = tile_in_view [OF v off]
  have d': "offset \<le> dots_length dots" "lane_base + 16 \<le> dots_length (offset_dots offset dots)"
    using d t(3) base by (simp_all add: dots_ok_def)
  note c = compute_metric_lane [OF t(4) _ d'(2), of qz q, unfolded block_lanes_def, OF base, folded v_def]
  show "length (mv_estimates v) = 16" "length (mv_uncertainties v) = 16" "length (mv_finite v) = 16"
    using c by blast+
  have eq: "(mv_estimates v ! l, mv_uncertainties v ! l, mv_finite v ! l) = lane l" if "l < 16" for l
    using c that base t(5) [of "lane_base + l"] d'(1)
    by (auto simp: scalar_vector_dot [symmetric] add.assoc lane_def dest!: spec [of _ l])
  then show "l < 16 \<Longrightarrow> mv_estimates v ! l = fst (lane l)" "l < 16 \<Longrightarrow> mv_uncertainties v ! l = fst (snd (lane l))"
    "l < 16 \<Longrightarrow> mv_finite v ! l = snd (snd (lane l))"
    by (metis fst_conv snd_conv)+
qed

lemma half_batch_rows:
  assumes v: "view_ok True b" and off: "offset \<in> set (tile_offsets (block_rows b))" and d: "dots_ok b dots"
    and base: "lane_base + 16 \<le> 32" and n: "n \<le> 16"
  shows "vector_batch (half_batch z qz q b dots offset lane_base n)"
    and "batch_rows (half_batch z qz q b dots offset lane_base n)
      = map (row_values True qz q b dots) [offset + lane_base..<offset + lane_base + n]"
    and "batch_uppers (half_batch z qz q b dots offset lane_base n)
      = map (row_upper True z qz q b dots) [offset + lane_base..<offset + lane_base + n]"
proof -
  note t = tile_in_view [OF v off]
  let ?v = "compute_metric_values_16 qz q (metadata_tile b offset) (offset_dots offset dots) lane_base"
  let ?lane = "\<lambda>l. vector_lane qz q (get_metadata (packed_metadata b) (offset + lane_base + l))
    (scalar_dot dots (offset + lane_base + l))"
  note len = half_lanes(1-3) [OF v off d base, of qz q]
  note lane = half_lanes(4-6) [OF v off d base, of _ qz q]
  have ups: "length (upper_16 z ?v) = 16" by (simp add: upper_16_def len)
  have up: "upper_16 z ?v ! l = vector_upper z (?lane l)" if "l < 16" for l
    using that lane by (simp add: upper_16_def vector_upper_def len split: prod.split)
  have ids: "\<forall>js. block_ids b = Some js \<longrightarrow> offset + lane_base + 16 \<le> length js"
    using v t(3) base by (auto simp: view_ok_def split: option.splits)
  show "vector_batch (half_batch z qz q b dots offset lane_base n)"
    using n len ups ids by (auto simp: half_batch_def vector_batch_def Let_def ids_at_def)
  have id: "lane_id (ids_at b (offset + lane_base)) (base_at b (offset + lane_base)) l
      = lane_id (block_ids b) (implicit_id_base b) (offset + lane_base + l)" for l
    using ids by (intro lane_id_offset) auto
  show "batch_rows (half_batch z qz q b dots offset lane_base n)
      = map (row_values True qz q b dots) [offset + lane_base..<offset + lane_base + n]"
    using n lane id
    by (intro nth_equalityI)
      (auto simp: half_batch_def batch_rows_def Let_def row_values_def lane_values_def split: prod.splits)
  show "batch_uppers (half_batch z qz q b dots offset lane_base n)
      = map (row_upper True z qz q b dots) [offset + lane_base..<offset + lane_base + n]"
    using n up ups
    by (intro nth_equalityI)
      (auto simp: half_batch_def batch_uppers_def Let_def row_upper_def lane_upper_def)
qed

lemma tile_batch_rows:
  assumes v: "view_ok False b" and off: "offset \<in> set (tile_offsets (block_rows b))" and d: "dots_ok b dots"
  defines "n \<equiv> min 32 (block_rows b - offset)"
  shows "portable_batch (tile_batch z qz q b dots offset)"
    and "batch_rows (tile_batch z qz q b dots offset) = map (row_values False qz q b dots) [offset..<offset + n]"
    and "batch_uppers (tile_batch z qz q b dots offset) = map (row_upper False z qz q b dots) [offset..<offset + n]"
proof -
  note t = tile_in_view [OF v off]
  have d': "offset \<le> dots_length dots" using d t(3) by (simp add: dots_ok_def)
  have n: "logical_count b offset = n" "n \<le> 32" by (simp_all add: n_def logical_count_def block_lanes_def)
  have ids: "\<forall>js. block_ids b = Some js \<longrightarrow> offset + n \<le> length js"
    using v t(2) by (auto simp: view_ok_def n_def split: option.splits)
  have id: "lane_id (ids_at b offset) (base_at b offset) l = lane_id (block_ids b) (implicit_id_base b) (offset + l)" for l
    using ids by (intro lane_id_offset) auto
  show "portable_batch (tile_batch z qz q b dots offset)"
    using ids by (auto simp: tile_batch_def portable_batch_def n postprocess_block_scalar_def Let_def ids_at_def)
  show "batch_rows (tile_batch z qz q b dots offset) = map (row_values False qz q b dots) [offset..<offset + n]"
    using n id t(5) d'
    by (intro nth_equalityI)
      (auto simp: tile_batch_def batch_rows_def Let_def row_values_def lane_values_def postprocess_block_scalar_def
        split: prod.splits)
  show "batch_uppers (tile_batch z qz q b dots offset) = map (row_upper False z qz q b dots) [offset..<offset + n]"
    using n t(5) d'
    by (intro nth_equalityI)
      (auto simp: tile_batch_def batch_uppers_def Let_def row_upper_def lane_upper_def postprocess_block_scalar_def
        split: prod.splits)
qed

lemma concat_map_concat: "concat (map f (concat (map g xs))) = concat (map (\<lambda>x. concat (map f (g x))) xs)"
  by (induction xs) simp_all

lemma block_batches_rows:
  assumes "view_ok avx b" and "dots_ok b dots"
  shows "\<forall>x \<in> set (block_batches avx z qz q b dots). batch_ok avx x"
    and "scanned_rows (block_batches avx z qz q b dots) = map (row_values avx qz q b dots) [0..<block_rows b]"
    and "scanned_uppers (block_batches avx z qz q b dots) = map (row_upper avx z qz q b dots) [0..<block_rows b]"
proof -
  let ?B = "tile_batches avx z qz q b dots"
  have tile: "(\<forall>x \<in> set (?B offset). batch_ok avx x)
      \<and> concat (map batch_rows (?B offset)) = map (row_values avx qz q b dots) [offset..<offset + min 32 (block_rows b - offset)]
      \<and> concat (map batch_uppers (?B offset)) = map (row_upper avx z qz q b dots) [offset..<offset + min 32 (block_rows b - offset)]"
    if off: "offset \<in> set (tile_offsets (block_rows b))" for offset
  proof (cases avx)
    case False
    then show ?thesis
      using tile_batch_rows [OF _ off assms(2)] assms(1) by (simp add: tile_batches_def batch_ok_def Let_def)
  next
    case True
    let ?n = "min 32 (block_rows b - offset)"
    have split: "[offset..<offset + ?n] = [offset..<offset + min 16 ?n] @ (if 16 < ?n then [offset + 16..<offset + 16 + (?n - 16)] else [])"
    proof (cases "16 < ?n")
      case True
      then obtain k where "?n = 16 + k" by (metis less_imp_add_positive)
      then show ?thesis using upt_add_eq_append [of offset "offset + 16" k] by (simp only:) (simp add: add.assoc)
    qed simp
    have "view_ok True b" using assms(1) True by simp
    note h = half_batch_rows [OF this off assms(2)]
    show ?thesis
      unfolding split using True h [of 0 "min 16 ?n" z qz q] h [of 16 "?n - 16" z qz q]
      by (auto simp: tile_batches_def batch_ok_def Let_def logical_count_def block_lanes_def)
  qed
  show "\<forall>x \<in> set (block_batches avx z qz q b dots). batch_ok avx x"
    using tile by (auto simp: block_batches_def)
  show "scanned_rows (block_batches avx z qz q b dots) = map (row_values avx qz q b dots) [0..<block_rows b]"
    using concat_tiles [of "block_rows b" "\<lambda>o'. concat (map batch_rows (?B o'))"] tile
    by (simp add: block_batches_def scanned_rows_def concat_map_concat)
  show "scanned_uppers (block_batches avx z qz q b dots) = map (row_upper avx z qz q b dots) [0..<block_rows b]"
    using concat_tiles [of "block_rows b" "\<lambda>o'. concat (map batch_uppers (?B o'))"] tile
    by (simp add: block_batches_def scanned_uppers_def concat_map_concat)
qed


section \<open>A query over many lists\<close>

text \<open>The dot products that the chosen kernel computes for a block.\<close>

definition block_dots ::
    "bool \<Rightarrow> faiss_pq4_ops \<Rightarrow> faiss_scan_ops \<Rightarrow> nat \<Rightarrow> query_context \<Rightarrow> lut_mode \<Rightarrow> code_block_view \<Rightarrow> dot_values" where
  "block_dots avx F S M q requested b =
    (case accumulate_block avx F S M q b requested of Inr (dots, mode, fallback) \<Rightarrow> dots | Inl e \<Rightarrow> Exact_dots [])"

text \<open>The requested mode can be run: the quantized kernel needs a usable LUT scale.\<close>

definition lut_ok :: "bool \<Rightarrow> faiss_scan_ops \<Rightarrow> nat \<Rightarrow> query_context \<Rightarrow> lut_mode \<Rightarrow> bool" where
  "lut_ok avx S M q requested \<longleftrightarrow> even_subquantizers M \<and> length (dot_lut q) = M * 16
    \<and> (choose_mode avx requested = QuantizedUint8 \<longrightarrow>
        (case quantize_lut S (dot_lut q) M of Inr lut \<Rightarrow> True | Inl e \<Rightarrow> False))"

definition query_rows ::
    "bool \<Rightarrow> faiss_pq4_ops \<Rightarrow> faiss_scan_ops \<Rightarrow> quantizer_view \<Rightarrow> query_context \<Rightarrow> lut_mode \<Rightarrow> code_block_view list \<Rightarrow> row list" where
  "query_rows avx F S qz q requested blocks =
    concat (map (\<lambda>b. map (row_values avx qz q b (block_dots avx F S (qz_subquantizers qz) q requested b)) [0..<block_rows b]) blocks)"

definition query_uppers ::
    "bool \<Rightarrow> faiss_pq4_ops \<Rightarrow> faiss_scan_ops \<Rightarrow> f32 \<Rightarrow> quantizer_view \<Rightarrow> query_context \<Rightarrow> lut_mode \<Rightarrow> code_block_view list \<Rightarrow> f32 list" where
  "query_uppers avx F S z qz q requested blocks =
    concat (map (\<lambda>b. map (row_upper avx z qz q b (block_dots avx F S (qz_subquantizers qz) q requested b)) [0..<block_rows b]) blocks)"

definition query_ids :: "code_block_view list \<Rightarrow> u32 list" where
  "query_ids blocks = concat (map (\<lambda>b. map (lane_id (block_ids b) (implicit_id_base b)) [0..<block_rows b]) blocks)"

definition final_mode :: "bool \<Rightarrow> lut_mode \<Rightarrow> lut_mode" where
  "final_mode avx requested =
    (let mode = choose_mode avx requested in if mode = ExactFloat \<and> \<not> avx then ScalarFloat else mode)"

lemma length_fold_update: "length (fold (\<lambda>i out. out[i := f i]) is out) = length out"
  by (induction "is" arbitrary: out) simp_all

lemma accumulate_block_ok:
  assumes "view_ok avx b" and "lut_ok avx S M q requested"
    and "\<forall>codes vs. length (pq4_accumulate_loop S (padded_rows b) 32 M codes vs) = padded_rows b"
  shows "\<exists>fallback. accumulate_block avx F S M q b requested
      = Inr (block_dots avx F S M q requested b, final_mode avx requested, fallback)
    \<and> (fallback \<longrightarrow> final_mode avx requested = ScalarFloat)"
    and "dots_ok b (block_dots avx F S M q requested b)"
proof -
  have v: "block_rows b \<le> padded_rows b" "block_width b = 32" "padded_rows b mod 32 = 0"
    using assms(1) by (simp_all add: view_ok_def block_lanes_def)
  have M: "0 < M" "M mod 2 = 0" using assms(2) by (auto simp: lut_ok_def even_subquantizers_def)
  have "\<exists>dots fallback. accumulate_block avx F S M q b requested = Inr (dots, final_mode avx requested, fallback)
      \<and> (fallback \<longrightarrow> final_mode avx requested = ScalarFloat) \<and> dots_ok b dots"
  proof (cases "choose_mode avx requested")
    case Auto
    then show ?thesis by (auto simp: choose_mode_def split: if_splits)
  next
    case ExactFloat
    have "length (accumulate_exact_pq4_lut_avx512_impl (padded_rows b) M M (packed_codes b) (dot_lut q)) = padded_rows b"
      using v(3) concat_uniform [of "padded_rows b div 32" "\<lambda>k. avx512_block (drop (k * (M div 2 * 32)) (packed_codes b)) M (dot_lut q)" 32]
      by (auto simp: accumulate_exact_pq4_lut_avx512_impl_def avx512_block_def split: prod.split)
    note * = this v M accumulate_block_def final_mode_def dots_ok_def Let_def
    show ?thesis
    proof (cases avx)
      case True
      with ExactFloat show ?thesis by (auto simp: * accumulate_exact_pq4_lut_avx512_def)
    next
      case False
      with ExactFloat show ?thesis
        by (auto simp: * accumulate_exact_pq4_lut_scalar_def length_fold_update not_less)
    qed
  next
    case QuantizedUint8
    then obtain lut where "quantize_lut S (dot_lut q) M = Inr lut"
      using assms(2) by (auto simp: lut_ok_def split: sum.splits)
    with QuantizedUint8 show ?thesis using v assms(3)
      by (auto simp: accumulate_block_def final_mode_def dots_ok_def Let_def)
  next
    case ScalarFloat
    then show ?thesis using v M
      by (auto simp: accumulate_block_def accumulate_exact_pq4_lut_scalar_def final_mode_def
          dots_ok_def length_fold_update not_less Let_def)
  qed
  then show "\<exists>fallback. accumulate_block avx F S M q b requested
      = Inr (block_dots avx F S M q requested b, final_mode avx requested, fallback)
    \<and> (fallback \<longrightarrow> final_mode avx requested = ScalarFloat)"
    and "dots_ok b (block_dots avx F S M q requested b)"
    by (auto simp: block_dots_def)
qed


text \<open>The statistics after a scan of several blocks.\<close>

definition scan_totals :: "bool \<Rightarrow> lut_mode \<Rightarrow> code_block_view list \<Rightarrow> scan_stats \<Rightarrow> scan_stats" where
  "scan_totals avx requested blocks st =
    (if blocks = [] then st
     else st\<lparr>ss_valid_codes := ss_valid_codes st + sum_list (map block_rows blocks),
       ss_padded_codes := ss_padded_codes st + sum_list (map padded_rows blocks),
       ss_exact_float_kernel := (final_mode avx requested \<noteq> QuantizedUint8),
       ss_used_scalar_fallback := (ss_used_scalar_fallback st \<or> final_mode avx requested = ScalarFloat)\<rparr>)"

definition loop_ok :: "faiss_scan_ops \<Rightarrow> code_block_view \<Rightarrow> bool" where
  "loop_ok S b \<longleftrightarrow> (\<forall>M codes vs. length (pq4_accumulate_loop S (padded_rows b) 32 M codes vs) = padded_rows b)"

lemma final_mode_cases: "final_mode avx requested \<noteq> Auto"
  by (auto simp: final_mode_def choose_mode_def Let_def split: if_splits)

lemma scan_block_ok:
  assumes "view_ok avx b" and "lut_ok avx S (qz_subquantizers qz) q requested" and "loop_ok S b"
  shows "scan_block_metric avx F S qz q b requested emit (acc, st)
    = res_bind (emit (block_dots avx F S (qz_subquantizers qz) q requested b) acc)
        (\<lambda>acc'. Inr (acc', map_option (scan_totals avx requested [b]) st))"
proof -
  let ?m = "final_mode avx requested"
  have "\<not> block_invalid (qz_subquantizers qz) q b"
    using assms(1,2) by (auto simp: block_invalid_def view_ok_def lut_ok_def)
  moreover obtain fallback where "accumulate_block avx F S (qz_subquantizers qz) q b requested
      = Inr (block_dots avx F S (qz_subquantizers qz) q requested b, ?m, fallback)" "fallback \<longrightarrow> ?m = ScalarFloat"
    using accumulate_block_ok(1) [OF assms(1,2), of F] assms(3) by (auto simp: loop_ok_def)
  moreover have "update_stats b ?m fallback = scan_totals avx requested [b]"
    using \<open>fallback \<longrightarrow> ?m = ScalarFloat\<close> final_mode_cases [of avx requested]
    by (cases ?m) (auto simp: fun_eq_iff update_stats_def scan_totals_def)
  ultimately show ?thesis by (simp add: scan_block_metric_def)
qed

lemma scan_totals_Cons: "scan_totals avx requested bs (scan_totals avx requested [b] st) = scan_totals avx requested (b # bs) st"
  by (auto simp: scan_totals_def)

lemma scan_blocks_ok:
  assumes "\<forall>b \<in> set blocks. view_ok avx b \<and> loop_ok S b" and "lut_ok avx S (qz_subquantizers qz) q requested"
    and "res_fold (add_batch avx) (concat (map (\<lambda>b. block_batches avx z qz q b (block_dots avx F S (qz_subquantizers qz) q requested b)) blocks)) acc
      = Inr acc'"
  shows "res_fold (\<lambda>b. scan_block_metric avx F S qz q b requested (emit_selection_blocks avx qz q b z)) blocks (acc, st)
    = Inr (acc', map_option (scan_totals avx requested blocks) st)"
  using assms(1,3)
proof (induction blocks arbitrary: acc st)
  case Nil
  then show ?case by (cases st) (simp_all add: scan_totals_def)
next
  case (Cons b bs)
  let ?x = "block_batches avx z qz q b (block_dots avx F S (qz_subquantizers qz) q requested b)"
  obtain a where a: "res_fold (add_batch avx) ?x acc = Inr a"
      "res_fold (add_batch avx) (concat (map (\<lambda>b. block_batches avx z qz q b (block_dots avx F S (qz_subquantizers qz) q requested b)) bs)) a
        = Inr acc'"
    using Cons.prems(2) by (auto simp: res_fold_append)
  have "scan_block_metric avx F S qz q b requested (emit_selection_blocks avx qz q b z) (acc, st)
      = Inr (a, map_option (scan_totals avx requested [b]) st)"
    using scan_block_ok [OF _ assms(2), of b F "emit_selection_blocks avx qz q b z" acc st] Cons.prems(1) a(1)
    by (simp add: emit_selection_batches)
  then show ?case
    using Cons.IH [OF _ a(2), of "map_option (scan_totals avx requested [b]) st"] Cons.prems(1)
    by (simp add: option.map_comp comp_def scan_totals_Cons)
qed

text \<open>The hypotheses of the selector hold for the rows of any query.\<close>

lemma row_values_not_nan: "\<not> f32_is_nan (fst (row_values avx qz q b dots i))"
  using vector_lane_estimate scalar_lane_estimate
  by (auto simp: row_values_def lane_values_def split: prod.splits) (metis fst_conv)+

lemma row_upper_not_nan:
  assumes "f32_is_finite z" and "\<not> f32_lt z 0"
  shows "\<not> f32_is_nan (row_upper avx z qz q b dots i)"
proof (cases avx)
  case True
  have "f32_nonneg z"
    using assms by (auto simp: f32_nonneg_def f32_lt_def f32_finite_not_nan)
  then show ?thesis
    using True vector_upper_not_nan [OF assms(1)] by (simp add: row_upper_def lane_upper_def)
next
  case False
  then show ?thesis
    using scalar_lane_estimate endpoints_not_nan(2)
    by (auto simp: row_upper_def lane_upper_def split: prod.split) (metis distance_estimate.select_convs(2) fst_conv)
qed

lemma row_values_id: "snd (snd (row_values avx qz q b dots i)) = lane_id (block_ids b) (implicit_id_base b) i"
  by (simp add: row_values_def split: prod.split)

lemma query_rows_ids: "map (\<lambda>r. snd (snd r)) (query_rows avx F S qz q requested blocks) = query_ids blocks"
  by (simp add: query_rows_def query_ids_def map_concat comp_def row_values_id)

lemma query_scan_ok:
  assumes "distinct (query_ids blocks)"
  shows "scan_ok (query_rows avx F S qz q requested blocks)"
proof -
  have "distinct (map row_key (query_rows avx F S qz q requested blocks))"
  proof -
    have "query_ids blocks = map snd (map row_key (query_rows avx F S qz q requested blocks))"
      unfolding query_rows_ids [of avx F S qz q requested blocks, symmetric]
      by (simp add: row_key_def split: prod.splits)
    with assms show ?thesis by (simp only: distinct_map [of snd])
  qed
  then show ?thesis
    using row_values_not_nan by (auto simp: scan_ok_def query_rows_def)
qed


lemma query_batches:
  fixes blocks :: "code_block_view list" and F :: faiss_pq4_ops and z :: f32
  assumes "\<forall>b \<in> set blocks. view_ok avx b \<and> loop_ok S b" and "lut_ok avx S (qz_subquantizers qz) q requested"
  defines "bs \<equiv> concat (map (\<lambda>b. block_batches avx z qz q b (block_dots avx F S (qz_subquantizers qz) q requested b)) blocks)"
  shows "\<forall>x \<in> set bs. batch_ok avx x"
    and "scanned_rows bs = query_rows avx F S qz q requested blocks"
    and "scanned_uppers bs = query_uppers avx F S z qz q requested blocks"
proof -
  let ?d = "block_dots avx F S (qz_subquantizers qz) q requested"
  have d: "dots_ok b (?d b)" if "b \<in> set blocks" for b
    using accumulate_block_ok(2) [OF _ assms(2), of b F] assms(1) that by (simp add: loop_ok_def)
  note r = block_batches_rows [where avx = avx and z = z and qz = qz and q = q, OF _ d]
  show "\<forall>x \<in> set bs. batch_ok avx x" using r(1) assms(1) by (auto simp: bs_def)
  have "map (\<lambda>b. concat (map batch_rows (block_batches avx z qz q b (?d b)))) blocks
      = map (\<lambda>b. map (row_values avx qz q b (?d b)) [0..<block_rows b]) blocks"
    using r(2) assms(1) by (intro map_cong) (auto simp: scanned_rows_def)
  then show "scanned_rows bs = query_rows avx F S qz q requested blocks"
    by (simp only: bs_def scanned_rows_def query_rows_def concat_map_concat)
  have "map (\<lambda>b. concat (map batch_uppers (block_batches avx z qz q b (?d b)))) blocks
      = map (\<lambda>b. map (row_upper avx z qz q b (?d b)) [0..<block_rows b]) blocks"
    using r(3) assms(1) by (intro map_cong) (auto simp: scanned_uppers_def)
  then show "scanned_uppers bs = query_uppers avx F S z qz q requested blocks"
    by (simp only: bs_def scanned_uppers_def query_uppers_def concat_map_concat)
qed

lemma select_batches_ok:
  assumes "selector_args_ok K z R" and "\<forall>x \<in> set bs. batch_ok avx x"
    and "\<forall>u \<in> set (scanned_uppers bs). \<not> f32_is_nan u" and "scan_ok (scanned_rows bs)" and "K \<le> length (scanned_rows bs)"
  shows "\<exists>acc0 acc r. fused_new K z R = Inr acc0 \<and> res_fold (add_batch avx) bs acc0 = Inr acc \<and> finish avx acc = Inr r
    \<and> selection_spec avx K z R (scanned_rows bs) (scanned_uppers bs) r"
proof (cases avx)
  case True
  then show ?thesis
    using select_vector_ok [OF assms(1) _ assms(3-5)] assms(2)
    by (auto simp: batch_ok_def add_batch_def select_vector_def)
next
  case False
  then show ?thesis
    using select_portable_ok [OF assms(1) _ assms(3-5), of False] assms(2)
    by (auto simp: batch_ok_def add_batch_def select_portable_def)
qed

lemma interval_scan_ok:
  assumes "selector_args_ok K z R" and "\<forall>b \<in> set blocks. view_ok avx b \<and> loop_ok S b"
    and "lut_ok avx S (qz_subquantizers qz) q requested" and "distinct (query_ids blocks)"
    and "K \<le> sum_list (map block_rows blocks)"
  shows "\<exists>r. scan_interval_candidates avx F S qz q blocks K z R st requested
      = Inr (r, map_option (scan_totals avx requested blocks) st)
    \<and> selection_spec avx K z R (query_rows avx F S qz q requested blocks)
        (query_uppers avx F S z qz q requested blocks) r"
proof -
  let ?bs = "concat (map (\<lambda>b. block_batches avx z qz q b (block_dots avx F S (qz_subquantizers qz) q requested b)) blocks)"
  note b = query_batches [OF assms(2,3), of z F]
  have z: "f32_is_finite z" "\<not> f32_lt z 0" using assms(1) by (simp_all add: selector_args_ok_def)
  have u: "\<forall>u \<in> set (scanned_uppers ?bs). \<not> f32_is_nan u"
    unfolding b(3) by (auto simp: query_uppers_def row_upper_not_nan [OF z])
  have s: "scan_ok (scanned_rows ?bs)" unfolding b(2) by (rule query_scan_ok [OF assms(4)])
  have k: "K \<le> length (scanned_rows ?bs)"
    unfolding b(2) using assms(5) by (simp add: query_rows_def length_concat comp_def)
  obtain acc0 acc r where a: "fused_new K z R = Inr acc0" "res_fold (add_batch avx) ?bs acc0 = Inr acc"
      "finish avx acc = Inr r" "selection_spec avx K z R (scanned_rows ?bs) (scanned_uppers ?bs) r"
    using select_batches_ok [OF assms(1) b(1) u s k] by blast
  have "scan_interval_candidates avx F S qz q blocks K z R st requested
      = Inr (r, map_option (scan_totals avx requested blocks) st)"
    using scan_blocks_ok [OF assms(2,3) a(2), of st] a(1,3) by (simp add: scan_interval_candidates_def)
  then show ?thesis using a(4) unfolding b(2,3) by blast
qed

text \<open>
  C12. Correctness of an interval scan over many lists. For valid selector parameters, well-formed
  block views, a usable query table and pairwise different ids, \<open>scan_interval_candidates\<close> throws
  nothing and selects over exactly the rows of all lists: every row appears once, with its own id
  and with the estimate, radius and upper endpoint that the metric formula gives for its own
  metadata and dot product, and the result meets the selector's specification on that global row
  list (one K-th upper bound and one shortlist for all lists, not one per list). The statistics are
  the totals over the lists. This holds for both back ends and for all LUT modes.
\<close>

theorem interval_scan_correct:
  assumes "selector_args_ok K z R" and "\<forall>b \<in> set blocks. view_ok avx b \<and> loop_ok S b"
    and "lut_ok avx S (qz_subquantizers qz) q requested" and "distinct (query_ids blocks)"
    and "K \<le> sum_list (map block_rows blocks)"
  shows "\<exists>r. scan_interval_candidates avx F S qz q blocks K z R st requested
      = Inr (r, map_option (scan_totals avx requested blocks) st)
    \<and> selection_spec avx K z R (query_rows avx F S qz q requested blocks)
        (query_uppers avx F S z qz q requested blocks) r"
  using assms by (rule interval_scan_ok)


section \<open>Scans that return every estimate\<close>

lemma fold_append: "fold (\<lambda>x out. out @ [f x]) xs out = out @ map f xs"
  by (induction xs arbitrary: out) simp_all

lemma res_fold_append_all:
  assumes "\<And>x out. x \<in> set xs \<Longrightarrow> g x out = Inr (out @ f x)"
  shows "res_fold g xs out = Inr (out @ concat (map f xs))"
  using assms by (induction xs arbitrary: out) simp_all

lemma push_tile:
  assumes "\<And>l. l < logical_count b offset \<Longrightarrow>
      (pb_estimates v ! l, pb_uncertainties v ! l) = lane_values avx qz q (get_metadata (packed_metadata b) (offset + l)) (scalar_dot dots (offset + l))"
  shows "push_estimates b offset (logical_count b offset) v out
    = Inr (out @ map (\<lambda>i. row_estimate (row_values avx qz q b dots i)) [offset..<offset + logical_count b offset])"
proof -
  let ?c = "logical_count b offset"
  let ?g = "\<lambda>lane. \<lparr>de_id = (case block_ids b of None \<Rightarrow> implicit_id_base b + of_nat offset + of_nat lane
          | Some js \<Rightarrow> js ! (offset + lane)),
        estimated_distance = pb_estimates v ! lane, uncertainty = pb_uncertainties v ! lane\<rparr>"
  have "?g l = row_estimate (row_values avx qz q b dots (offset + l))" if "l < ?c" for l
    using assms [OF that, symmetric]
    by (auto simp: row_values_def row_estimate_def lane_id_def add.assoc split: option.split)
  then have "map ?g [0..<?c] = map (\<lambda>i. row_estimate (row_values avx qz q b dots i)) [offset..<offset + ?c]"
    by (intro nth_equalityI) (simp_all cong: option.case_cong)
  then show ?thesis
    unfolding push_estimates_def fold_append by (simp only:)
qed

lemma emit_estimates:
  assumes v: "view_ok avx b" and d: "dots_ok b dots"
  shows "emit_postprocessed_blocks avx False qz q b dots z (push_estimates b) out
    = Inr (out @ map (\<lambda>i. row_estimate (row_values avx qz q b dots i)) [0..<block_rows b])"
proof -
  let ?f = "\<lambda>offset. map (\<lambda>i. row_estimate (row_values avx qz q b dots i)) [offset..<offset + logical_count b offset]"
  have all: "concat (map ?f (tile_offsets (block_rows b))) = map (\<lambda>i. row_estimate (row_values avx qz q b dots i)) [0..<block_rows b]"
    by (rule concat_tiles) (simp add: logical_count_def block_lanes_def)
  show ?thesis
  proof (cases avx)
    case True
    define g where "g = (\<lambda>offset. let tile = metadata_tile b offset;
          lo = postprocess_16 False qz q tile (offset_dots offset dots) z 0;
          hi = postprocess_16 False qz q tile (offset_dots offset dots) z 16
        in push_estimates b offset (logical_count b offset) (join_halves lo hi))"
    have "g offset out = Inr (out @ ?f offset)"
      if off: "offset \<in> set (tile_offsets (block_rows b))" for offset out
    proof -
      note h = half_lanes [OF v off d, where lane_base = 0 and qz = qz and q = q]
        half_lanes [OF v off d, where lane_base = 16 and qz = qz and q = q]
      have "(pb_estimates (join_halves (postprocess_16 False qz q (metadata_tile b offset) (offset_dots offset dots) z 0)
              (postprocess_16 False qz q (metadata_tile b offset) (offset_dots offset dots) z 16)) ! l,
            pb_uncertainties (join_halves (postprocess_16 False qz q (metadata_tile b offset) (offset_dots offset dots) z 0)
              (postprocess_16 False qz q (metadata_tile b offset) (offset_dots offset dots) z 16)) ! l)
          = lane_values avx qz q (get_metadata (packed_metadata b) (offset + l)) (scalar_dot dots (offset + l))"
        if "l < logical_count b offset" for l
        using that True h(4,5) [of l] h(10,11) [of "l - 16"] h(1,2,7,8)
        by (auto simp: join_halves_def postprocess_16_def Let_def nth_append lane_values_def logical_count_def
            block_lanes_def split: prod.splits)
      from push_tile [OF this] show ?thesis by (simp add: g_def Let_def)
    qed
    then have "res_fold g (tile_offsets (block_rows b)) out = Inr (out @ concat (map ?f (tile_offsets (block_rows b))))"
      by (rule res_fold_append_all)
    with True all show ?thesis
      by (simp add: emit_postprocessed_blocks_def emit_postprocessed_blocks_avx512_def g_def)
  next
    case False
    define g where "g = (\<lambda>offset. let cnt = logical_count b offset
        in push_estimates b offset cnt
          (postprocess_block_scalar False qz q (metadata_tile b offset) (offset_dots offset dots) z cnt))"
    have "g offset out = Inr (out @ ?f offset)"
      if off: "offset \<in> set (tile_offsets (block_rows b))" for offset out
    proof -
      note t = tile_in_view [OF v off]
      have "offset \<le> dots_length dots" using d t(3) by (simp add: dots_ok_def)
      then have "(pb_estimates (postprocess_block_scalar False qz q (metadata_tile b offset) (offset_dots offset dots) z (logical_count b offset)) ! l,
          pb_uncertainties (postprocess_block_scalar False qz q (metadata_tile b offset) (offset_dots offset dots) z (logical_count b offset)) ! l)
          = lane_values avx qz q (get_metadata (packed_metadata b) (offset + l)) (scalar_dot dots (offset + l))"
        if "l < logical_count b offset" for l
        using that False t(5) [of l]
        by (simp add: postprocess_block_scalar_def lane_values_def Let_def logical_count_def block_lanes_def)
      from push_tile [OF this] show ?thesis by (simp add: g_def Let_def)
    qed
    then have "res_fold g (tile_offsets (block_rows b)) out = Inr (out @ concat (map ?f (tile_offsets (block_rows b))))"
      by (rule res_fold_append_all)
    with False all show ?thesis
      by (simp add: emit_postprocessed_blocks_def g_def)
  qed
qed

text \<open>
  C34. Correctness of a full scan of one list. Whatever the output vector held before, it ends up with
  one estimate per logical row, in row order, with the row's own id and the metric values of its own
  metadata and dot product; padding lanes of the last tile never appear, and the statistics count
  the logical and the padded rows. A null output is rejected.
\<close>

theorem scan_all_correct:
  assumes "view_ok avx b" and "loop_ok S b" and "lut_ok avx S (qz_subquantizers qz) q requested"
  shows "scan_all avx F S qz q b (Some old) st requested
    = Inr (map row_estimate (query_rows avx F S qz q requested [b]), map_option (scan_totals avx requested [b]) st)
  \<and> scan_all avx F S qz q b None st requested
    = Inl (Invalid_argument ''distance-estimate output must not be null'')"
proof -
  have d: "dots_ok b (block_dots avx F S (qz_subquantizers qz) q requested b)"
    using accumulate_block_ok(2) [OF assms(1,3), of F] assms(2) by (simp add: loop_ok_def)
  show ?thesis
    using scan_block_ok [OF assms(1,3,2), of F "\<lambda>dots. emit_postprocessed_blocks avx False qz q b dots 0 (push_estimates b)" "[]" st]
      emit_estimates [OF assms(1) d]
    by (simp add: scan_all_def query_rows_def comp_def)
qed

section \<open>Agreement of the back ends\<close>

text \<open>
  The AVX-512 and the portable back end agree on the cosine metric. For the same dot products
  and any positive dimension, both give every row bit for bit the same estimate and the same
  radius, with the infinite radius of an overflowed record, and upper endpoints that are the same
  number (they can differ in the sign of a zero).
\<close>

theorem cosine_backends_agree:
  assumes "qz_metric qz = Cosine" and "0 < qz_dimension qz" and "f32_is_finite z" and "\<not> f32_lt z 0"
  shows "row_values True qz q b dots i = row_values False qz q b dots i
    \<and> f32_smag (row_upper True z qz q b dots i) = f32_smag (row_upper False z qz q b dots i)"
proof -
  let ?md = "get_metadata (packed_metadata b) i" and ?dot = "scalar_dot dots i"
  obtain fin where l: "vector_lane qz q ?md ?dot = (fst (scalar_lane qz q ?md ?dot), snd (scalar_lane qz q ?md ?dot), fin)"
    using cosine_lanes [OF assms(1)] inverse_sqrt_dimension_ok [OF assms(2)] by blast
  have "f32_nonneg z" using assms(3,4) by (auto simp: f32_nonneg_def f32_lt_def f32_finite_not_nan)
  from vector_upper_endpoint [OF l assms(3) this, of 0] l show ?thesis
    by (simp add: row_values_def lane_values_def row_upper_def lane_upper_def split: prod.split)
qed

section \<open>A concrete query\<close>

definition tiny_ops :: faiss_scan_ops where
  "tiny_ops = \<lparr>quantize_LUT_and_bias = (\<lambda>M lut. (replicate (M * 16) 0, 0x3F800000, 0)),
     pq4_accumulate_loop = (\<lambda>n bs M codes vs. replicate n 0)\<rparr>"

definition tiny_quantizer :: quantizer_view where
  "tiny_quantizer = \<lparr>qz_dimension = 4, qz_subquantizers = 2, qz_metric = Cosine,
     qz_params = \<lparr>norm_max = 0x3F800000, norm_step = 0x3F800000, scale_max = 0x3F800000, scale_step = 0x3F800000\<rparr>\<rparr>"

definition tiny_query :: query_context where
  "tiny_query = \<lparr>centered_query = [], transformed_query = [], dot_lut = replicate 32 0x3F000000,
     query_norm = 0x3F800000, query_norm_squared = 0x3F800000, mean_dot_query = 0\<rparr>"

definition tiny_view :: code_block_view where
  "tiny_view = \<lparr>packed_codes = replicate 32 0, packed_metadata = replicate 96 3, block_ids = None,
     block_rows = 2, padded_rows = 32, block_width = 32, implicit_id_base = 7\<rparr>"

definition zero_stats :: scan_stats where
  "zero_stats = \<lparr>ss_valid_codes = 0, ss_padded_codes = 0, ss_exact_float_kernel = False,
     ss_used_scalar_fallback = False\<rparr>"

lemma tiny_ok:
  "view_ok avx tiny_view" "loop_ok tiny_ops tiny_view" "lut_ok True tiny_ops (qz_subquantizers tiny_quantizer) tiny_query Auto"
  "distinct (query_ids [tiny_view])"
  by (simp_all add: view_ok_def tiny_view_def block_lanes_def loop_ok_def tiny_ops_def lut_ok_def tiny_quantizer_def
      tiny_query_def even_subquantizers_def choose_mode_def query_ids_def lane_id_def numeral_eq_Suc)

theorem interval_scan_correct_witness:
  "\<exists>r. scan_interval_candidates True kernel_layout tiny_ops tiny_quantizer tiny_query [tiny_view] 1 0x3F800000 2
      (Some zero_stats) Auto = Inr (r, Some (scan_totals True Auto [tiny_view] zero_stats))
    \<and> selection_spec True 1 0x3F800000 2 (query_rows True kernel_layout tiny_ops tiny_quantizer tiny_query Auto [tiny_view])
        (query_uppers True kernel_layout tiny_ops 0x3F800000 tiny_quantizer tiny_query Auto [tiny_view]) r"
  using interval_scan_correct [of 1 "0x3F800000" 2 "[tiny_view]" True tiny_ops tiny_quantizer tiny_query Auto
      kernel_layout "Some zero_stats"] tiny_ok
  by (simp add: selector_args_ok_def f32_one size_max_def tiny_view_def [THEN arg_cong [of _ _ block_rows]])

theorem scan_all_correct_witness:
  "scan_all True kernel_layout tiny_ops tiny_quantizer tiny_query tiny_view (Some []) (Some zero_stats) Auto
    = Inr (map row_estimate (query_rows True kernel_layout tiny_ops tiny_quantizer tiny_query Auto [tiny_view]),
        Some (scan_totals True Auto [tiny_view] zero_stats))"
  using scan_all_correct [OF tiny_ok(1-3), of kernel_layout "[]" "Some zero_stats"] by simp

theorem cosine_backends_agree_witness:
  "row_values True tiny_quantizer tiny_query tiny_view (Exact_dots (replicate 32 0x3F000000)) 1
    = row_values False tiny_quantizer tiny_query tiny_view (Exact_dots (replicate 32 0x3F000000)) 1"
  using cosine_backends_agree [of tiny_quantizer "0x3F800000"] by (simp add: tiny_quantizer_def f32_one)

end
