(* ===== verification/Scan_Guarantees.thy ===== *)
theory Scan_Guarantees
  imports Scan_Correct
begin

text \<open>
  What a caller gets from an interval scan: enough candidates for the K answers, and no true
  neighbour lost when the intervals enclose the exact distances and the cap dropped nothing.
\<close>

section \<open>Order statistics\<close>

lemma sorted_nth_le_iff:
  "sorted ys \<Longrightarrow> k < length ys \<Longrightarrow> ys ! k \<le> v \<longleftrightarrow> k < length (filter (\<lambda>x. x \<le> v) ys)" for v :: "'a :: linorder"
proof (induction ys arbitrary: k)
  case (Cons y ys)
  show ?case
  proof (cases k)
    case 0
    have "filter (\<lambda>x. x \<le> v) ys = []" if "\<not> y \<le> v"
      using that Cons.prems(1) by (auto simp: filter_empty_conv)
    with 0 show ?thesis by auto
  next
    case (Suc j)
    then have "ys ! j \<le> v \<Longrightarrow> y \<le> v" using Cons.prems by (auto intro: order.trans)
    moreover have "filter (\<lambda>x. x \<le> v) ys = []" if "\<not> y \<le> v"
      using that Cons.prems(1) by (auto simp: filter_empty_conv)
    ultimately show ?thesis using Suc Cons by auto
  qed
qed simp

lemma kth_le_iff:
  fixes v :: "'a :: linorder"
  assumes "k < length xs"
  shows "sort xs ! k \<le> v \<longleftrightarrow> k < length (filter (\<lambda>x. x \<le> v) xs)"
proof -
  have "length (filter (\<lambda>x. x \<le> v) (sort xs)) = length (filter (\<lambda>x. x \<le> v) xs)"
    by (metis mset_filter mset_sort size_mset)
  then show ?thesis using sorted_nth_le_iff [of "sort xs" k v] assms by simp
qed

lemma kth_mono:
  fixes f g :: "'a \<Rightarrow> 'b :: linorder"
  assumes "\<forall>x \<in> set xs. f x \<le> g x" and "k < length xs"
  shows "sort (map f xs) ! k \<le> sort (map g xs) ! k"
proof -
  let ?v = "sort (map g xs) ! k"
  have "k < length (filter (\<lambda>x. x \<le> ?v) (map g xs))"
    using kth_le_iff [of k "map g xs" ?v] assms(2) by simp
  moreover have "length (filter (\<lambda>x. x \<le> v) (map g xs)) \<le> length (filter (\<lambda>x. x \<le> v) (map f xs))" for v
    using assms(1) by (induction xs) (auto intro: order.trans)
  note this [of ?v]
  ultimately show ?thesis using kth_le_iff [of k "map f xs" ?v] assms(2) by simp
qed

lemma length_filter_prefix:
  "k \<le> length xs \<Longrightarrow> \<forall>i < k. P (xs ! i) \<Longrightarrow> k \<le> length (filter P xs)"
proof -
  assume k: "k \<le> length xs" "\<forall>i < k. P (xs ! i)"
  then have "filter P (take k xs) = take k xs" by (auto simp: filter_id_conv in_set_conv_nth)
  then have "k \<le> length (filter P (take k xs @ drop k xs))" using k(1) by (simp del: append_take_drop_id)
  then show ?thesis by simp
qed

section \<open>Selections whose intervals enclose their estimates\<close>

definition enclosed :: "bool \<Rightarrow> f32 \<Rightarrow> row \<Rightarrow> bool" where
  "enclosed avx z r \<longleftrightarrow> (f32_is_finite (fst r) \<or> fst r = f32_inf) \<and> \<not> f32_is_nan z \<and> 0 \<le> f32_smag z \<and> \<not> f32_sign (fst (snd r))
    \<and> (avx \<longrightarrow> f32_is_finite z \<and> \<not> f32_is_nan (fst (snd r)))"

lemma enclosed_endpoints:
  assumes "enclosed avx z r"
  shows "f32_le (estimate_lower z (row_estimate r)) (fst r)" "f32_le (fst r) (estimate_upper z (row_estimate r))"
proof -
  obtain e u i where r: "r = (e, u, i)" by (cases r)
  have "f32_le (estimate_lower z (row_estimate r)) (estimated_distance (row_estimate r)) \<and>
    f32_le (estimated_distance (row_estimate r)) (estimate_upper z (row_estimate r))"
    using assms by (intro endpoints_enclose) (auto simp: enclosed_def r row_estimate_def f32_smag_def f32_finite_iff)
  then show "f32_le (estimate_lower z (row_estimate r)) (fst r)" "f32_le (fst r) (estimate_upper z (row_estimate r))"
    by (simp_all add: r row_estimate_def)
qed

lemma enclosed_lower_keeps:
  assumes "enclosed avx z r" and "\<not> f32_is_nan kth" and "avx \<longrightarrow> f32_is_finite (fst r)"
  shows "lower_keeps avx z kth r \<longleftrightarrow> f32_le (estimate_lower z (row_estimate r)) kth"
proof -
  obtain e u i where r: "r = (e, u, i)" by (cases r)
  show ?thesis
  proof (cases avx)
    case True
    then have "lower_keeps_avx512 z kth r = lower_keeps_scalar z kth r"
      unfolding r using assms by (intro filters_agree) (auto simp: enclosed_def r f32_lt_def)
    then show ?thesis using True by (simp add: lower_keeps_def lower_keeps_scalar_def)
  next
    case False
    then show ?thesis by (simp add: lower_keeps_def lower_keeps_scalar_def)
  qed
qed


lemma sorted_estimates:
  "map (\<lambda>r. f32_smag (fst r)) (sort_key row_key A) = sort (map (\<lambda>r. f32_smag (fst r)) A)"
proof (rule properties_for_sort [symmetric])
  show "mset (map (\<lambda>r. f32_smag (fst r)) (sort_key row_key A)) = mset (map (\<lambda>r. f32_smag (fst r)) A)"
    by simp
  have key: "fst (row_key r) = f32_smag (fst r)" for r by (simp add: row_key_def split: prod.split)
  have "sorted (map fst ks)" if "sorted ks" for ks :: "(int \<times> u32) list"
    using that by (induction ks) (auto simp: less_eq_prod_def)
  from this [of "map row_key (sort_key row_key A)"] show "sorted (map (\<lambda>r. f32_smag (fst r)) (sort_key row_key A))"
    by (simp add: comp_def key)
qed

text \<open>At least K of the best rows pass the lower-bound test.\<close>

lemma enough_candidates:
  assumes spec: "selection_spec avx K z R A U r" and "0 < K" and cap: "R = 0 \<or> K \<le> R"
    and ups: "map f32_smag U = map (\<lambda>r. f32_smag (estimate_upper z (row_estimate r))) A"
    and enc: "\<forall>r \<in> set A. enclosed avx z r" and fin: "K \<le> length (filter (\<lambda>r. f32_is_finite (fst r)) A)"
  shows "K \<le> length (candidates r)"
proof -
  let ?S = "sort_key row_key A" and ?e = "\<lambda>r :: row. f32_smag (fst r)"
  have K: "K \<le> length A" using fin by (meson length_filter_le order.trans)
  have nth: "?e (?S ! i) = sort (map ?e A) ! i" if "i < length A" for i
    using that by (simp flip: sorted_estimates)
  have kth: "f32_smag (kth_upper_bound r) = kth_smallest K U" "\<not> f32_is_nan (kth_upper_bound r)"
    using spec by (simp_all add: selection_spec_def)
  have "?e s \<le> f32_smag (estimate_upper z (row_estimate s))" if "s \<in> set A" for s
    using enclosed_endpoints(2) [of avx z s] enc that by (auto simp: f32_le_def)
  then have dom: "sort (map ?e A) ! (K - 1) \<le> f32_smag (kth_upper_bound r)"
    unfolding kth(1) kth_smallest_def ups using K assms(2) by (intro kth_mono) auto
  have keep: "lower_keeps avx z (kth_upper_bound r) (?S ! i)" if i: "i < K" for i
  proof -
    have mem: "?S ! i \<in> set A" using i K nth_mem [of i ?S] by simp
    note e = enclosed_endpoints [of avx z "?S ! i"]
    have ei: "enclosed avx z (?S ! i)" using enc mem by blast
    have "length (filter (\<lambda>r. f32_is_finite (fst r)) A) \<le> length (filter (\<lambda>x. x \<le> int inf_mag - 1) (map ?e A))"
      by (induction A) (auto simp: f32_is_finite_def f32_smag_def)
    then have "sort (map ?e A) ! i \<le> int inf_mag - 1"
      using kth_le_iff [of i "map ?e A" "int inf_mag - 1"] i K fin by simp
    then have finite: "f32_is_finite (fst (?S ! i))"
      using nth [of i] i K ei by (auto simp: enclosed_def)
    have "?e (?S ! i) \<le> sort (map ?e A) ! (K - 1)"
      using nth [of i] i K by (simp add: sorted_nth_mono)
    then have "f32_le (fst (?S ! i)) (kth_upper_bound r)"
      using dom kth(2) finite by (simp add: f32_le_def f32_finite_not_nan)
    then have "f32_le (estimate_lower z (row_estimate (?S ! i))) (kth_upper_bound r)"
      using e(1) ei by (auto simp: f32_le_def)
    then show ?thesis using enclosed_lower_keeps [OF ei kth(2)] finite by simp
  qed
  have "K \<le> length (best_rows R A) \<and> (\<forall>i < K. best_rows R A ! i = ?S ! i)"
    using K cap by (auto simp: best_rows_def)
  then have "K \<le> length (filter (lower_keeps avx z (kth_upper_bound r)) (best_rows R A))"
    using keep by (intro length_filter_prefix) auto
  then show ?thesis using spec by (simp add: selection_spec_def)
qed

text \<open>No row whose true distance is among the K smallest is lost, unless the cap dropped rows.\<close>

lemma true_neighbour_kept:
  assumes spec: "selection_spec avx K z R A U r" and "0 < K" and K: "K \<le> length A"
    and ups: "map f32_smag U = map (\<lambda>r. f32_smag (estimate_upper z (row_estimate r))) A"
    and enc: "\<forall>r \<in> set A. enclosed avx z r" and fin: "avx \<longrightarrow> (\<forall>r \<in> set A. f32_is_finite (fst r))"
    and true: "\<forall>r \<in> set A. f32_le (estimate_lower z (row_estimate r)) (D r) \<and> f32_le (D r) (estimate_upper z (row_estimate r))"
    and whole: "\<not> truncated r" and s: "s \<in> set A" "f32_smag (D s) \<le> sort (map (\<lambda>r. f32_smag (D r)) A) ! (K - 1)"
  shows "row_estimate s \<in> set (candidates r)"
proof -
  have kth: "f32_smag (kth_upper_bound r) = kth_smallest K U" "\<not> f32_is_nan (kth_upper_bound r)"
    using spec by (simp_all add: selection_spec_def)
  have "f32_smag (D s) \<le> f32_smag (estimate_upper z (row_estimate s))" if "s \<in> set A" for s
    using true that by (auto simp: f32_le_def)
  then have "sort (map (\<lambda>r. f32_smag (D r)) A) ! (K - 1) \<le> f32_smag (kth_upper_bound r)"
    unfolding kth(1) kth_smallest_def ups using K assms(2) by (intro kth_mono) auto
  then have "f32_le (estimate_lower z (row_estimate s)) (kth_upper_bound r)"
    using true s kth(2) by (auto simp: f32_le_def)
  then have "lower_keeps avx z (kth_upper_bound r) s"
    using enclosed_lower_keeps [of avx z s] enc fin s(1) kth(2) by auto
  moreover have "set (best_rows R A) = set A"
    using spec whole by (auto simp: best_rows_def selection_spec_def)
  ultimately show ?thesis using spec s(1) by (auto simp: selection_spec_def)
qed


section \<open>The rows of a query\<close>

text \<open>The trained parameters and the query norm that scale a radius are not negative.\<close>

definition radius_signs_ok :: "quantizer_view \<Rightarrow> query_context \<Rightarrow> bool" where
  "radius_signs_ok qz q \<longleftrightarrow> 0 < qz_dimension qz \<and> \<not> f32_sign (norm_max (qz_params qz))
    \<and> \<not> f32_sign (norm_step (qz_params qz)) \<and> \<not> f32_sign (query_norm q)"

lemma f32_mul_sign: "\<not> f32_sign a \<Longrightarrow> \<not> f32_sign b \<Longrightarrow> \<not> f32_sign (f32_mul a b)"
  by (auto simp: f32_mul_def Let_def inf_mag_def f32_nan_def f32_sign_def [of "0x7FC00000"])

lemma radius_factor_signs:
  assumes "radius_signs_ok qz q"
  shows "\<not> f32_sign (inverse_sqrt_dimension qz)" "\<not> f32_sign (norm_max (qz_params qz))"
    "\<not> f32_sign (norm_step (qz_params qz))" "\<not> f32_sign (query_norm q)" "\<not> f32_sign (byte_float c)"
  using assms inverse_sqrt_dimension_ok(2) f32_of_nat_nonneg(1) by (simp_all add: radius_signs_ok_def byte_float_def)

lemma radius_sign:
  assumes "radius_signs_ok qz q"
  shows "\<not> f32_sign (snd (scalar_lane qz q md dot))" "\<not> f32_sign (fst (snd (vector_lane qz q md dot)))"
proof -
  note s = radius_factor_signs [OF assms] f32_of_nat_nonneg(1) error_unit_mag(2) f32_mul_sign
  show "\<not> f32_sign (snd (scalar_lane qz q md dot))"
    by (cases "qz_metric qz")
      (simp_all add: scalar_lane_def decode_metadata_def scalar_metric_values_def Let_def s)
  show "\<not> f32_sign (fst (snd (vector_lane qz q md dot)))"
    by (cases "qz_metric qz") (simp_all add: vector_lane_def decode_metadata_def Let_def s)
qed

lemma row_values_enclosed:
  assumes "radius_signs_ok qz q" and z: "f32_is_finite z" "\<not> f32_lt z 0"
  shows "enclosed avx z (row_values avx qz q b dots i)"
proof -
  have z': "\<not> f32_is_nan z" "0 \<le> f32_smag z" using z by (auto simp: f32_lt_def f32_finite_not_nan)
  let ?md = "get_metadata (packed_metadata b) i" and ?dot = "scalar_dot dots i"
  show ?thesis
  proof (cases avx)
    case True
    obtain e u fin where l: "vector_lane qz q ?md ?dot = (e, u, fin)" by (metis prod_cases3)
    have "\<not> f32_is_nan u" using vector_lane_cases(2,3) [OF l] by (cases fin) (auto simp: f32_finite_not_nan)
    then show ?thesis
      using vector_lane_cases(1) [OF l] radius_sign(2) [OF assms(1), of ?md ?dot] z z' True l
      by (simp add: enclosed_def row_values_def lane_values_def)
  next
    case False
    then show ?thesis
      using z' radius_sign(1) [OF assms(1), of ?md ?dot]
      by (auto simp: enclosed_def row_values_def lane_values_def scalar_lane_def split: prod.splits if_splits)
  qed
qed

lemma row_upper_endpoint:
  assumes "f32_is_finite z" and "\<not> f32_lt z 0"
  shows "f32_smag (row_upper avx z qz q b dots i) = f32_smag (estimate_upper z (row_estimate (row_values avx qz q b dots i)))"
proof (cases avx)
  case True
  obtain e u fin where l: "vector_lane qz q (get_metadata (packed_metadata b) i) (scalar_dot dots i) = (e, u, fin)"
    by (metis prod_cases3)
  have "f32_nonneg z" using assms by (auto simp: f32_nonneg_def f32_lt_def f32_finite_not_nan)
  from vector_upper_endpoint [OF l assms(1) this] l True show ?thesis
    by (simp add: row_upper_def lane_upper_def row_values_def lane_values_def row_estimate_def)
next
  case False
  then show ?thesis
    by (simp add: row_upper_def lane_upper_def row_values_def lane_values_def row_estimate_def estimate_upper_def
        split: prod.split)
qed

lemma query_rows_enclosed:
  assumes "radius_signs_ok qz q" and "f32_is_finite z" and "\<not> f32_lt z 0"
  shows "\<forall>r \<in> set (query_rows avx F S qz q requested blocks). enclosed avx z r"
    and "map f32_smag (query_uppers avx F S z qz q requested blocks)
      = map (\<lambda>r. f32_smag (estimate_upper z (row_estimate r))) (query_rows avx F S qz q requested blocks)"
  using row_values_enclosed [OF assms] row_upper_endpoint [OF assms(2,3)]
  by (auto simp: query_rows_def query_uppers_def map_concat comp_def)

text \<open>
  C25. An interval scan returns enough candidates. Under the hypotheses of the correctness theorem, if
  at least K of the scanned rows have a finite estimate and the decode parameters are not negative,
  the result has at least K candidates, for both back ends and with or without a cap. This is the
  condition whose violation makes the index throw "interval selection returned fewer than topk rows".
\<close>

theorem interval_scan_enough:
  assumes args: "selector_args_ok K z R" and views: "\<forall>b \<in> set blocks. view_ok avx b \<and> loop_ok S b"
    and lut: "lut_ok avx S (qz_subquantizers qz) q requested" and ids: "distinct (query_ids blocks)"
    and fin: "K \<le> length (filter (\<lambda>r. f32_is_finite (fst r)) (query_rows avx F S qz q requested blocks))"
    and signs: "radius_signs_ok qz q"
  shows "\<exists>r st'. scan_interval_candidates avx F S qz q blocks K z R st requested = Inr (r, st')
    \<and> K \<le> length (candidates r)"
proof -
  let ?A = "query_rows avx F S qz q requested blocks"
  have a: "0 < K" "R = 0 \<or> K \<le> R" "f32_is_finite z" "\<not> f32_lt z 0"
    using args by (simp_all add: selector_args_ok_def)
  have "length ?A = sum_list (map block_rows blocks)" by (simp add: query_rows_def length_concat comp_def)
  then have "K \<le> sum_list (map block_rows blocks)" using fin by (metis length_filter_le order.trans)
  from interval_scan_ok [OF args views lut ids this, of F st] obtain r where
    r: "scan_interval_candidates avx F S qz q blocks K z R st requested
        = Inr (r, map_option (scan_totals avx requested blocks) st)"
      "selection_spec avx K z R ?A (query_uppers avx F S z qz q requested blocks) r" by blast
  have "K \<le> length (candidates r)"
    using enough_candidates [OF r(2) a(1,2)] query_rows_enclosed [OF signs a(3,4)] fin by blast
  with r(1) show ?thesis by blast
qed


section \<open>Witnesses\<close>

text \<open>The concrete query with a zero table: every dot product is zero and every estimate is one.\<close>

definition zero_query :: query_context where
  "zero_query = tiny_query\<lparr>dot_lut := replicate 32 0\<rparr>"

lemma zero_lut_dot:
  assumes "\<forall>m. is_nibble (code m)"
  shows "dot_of_row code (replicate 32 0) 2 = 0"
proof -
  have "m * 16 + unat (code m) < 32" if "m < 2" for m
    using nibble_unat_less [of "code m"] assms that by auto
  then have "replicate 32 (0 :: f32) ! (m * 16 + unat (code m)) = 0" if "m < 2" for m
    using that by (simp only: nth_replicate)
  from this [of 0] this [of 1] show ?thesis by (simp add: dot_of_row_def numeral_2_eq_2 f32_add_def f32_sunits_def f32_make_def)
qed

lemma zero_query_dots:
  "block_dots False kernel_layout tiny_ops 2 zero_query ScalarFloat tiny_view = Exact_dots (replicate 32 0)"
proof -
  have same: "(replicate 32 0)[0 := 0, Suc 0 := 0] = replicate 32 (0 :: f32)"
    by (simp add: list_eq_iff_nth_eq nth_list_update)
  have "dot_of_row (get_packed_element kernel_layout codes 32 2 i) (replicate 32 0) 2 = 0" for codes i
    using kernel.get_nibble by (intro zero_lut_dot) blast
  then have "accumulate_exact_pq4_lut_scalar kernel_layout 2 32 32 2 codes (replicate 32 0) = Inr (replicate 32 0)" for codes
    using same by (simp add: accumulate_exact_pq4_lut_scalar_def numeral_2_eq_2)
  then show ?thesis
    by (simp add: block_dots_def accumulate_block_def choose_mode_def zero_query_def tiny_view_def Let_def)
qed

lemma tiny_signs: "radius_signs_ok tiny_quantizer zero_query"
  by (simp add: radius_signs_ok_def tiny_quantizer_def zero_query_def tiny_query_def f32_one)


lemma byte_scale_finite: "f32_is_finite (f32_mul (byte_float c) 0x3F800000)"
proof -
  have c: "f32_is_finite (byte_float c)" "f32_units (f32_mag (byte_float c)) \<le> f32_units 0x437F0000"
    using byte_float_mag [of c] f32_units_mono by (simp_all add: f32_is_finite_def inf_mag_def)
  have "f32_units (f32_mag 0x3F800000) \<le> f32_units 0x3F800000" by (simp add: f32_mag_def)
  then show ?thesis
    by (intro f32_mul_mag_le(2) [OF c(1) f32_one(1) c(2), where m = "0x437F0000"]) (simp_all add: f32_units_def inf_mag_def)
qed

lemma zero_query_estimate:
  assumes "i < 2"
  shows "f32_is_finite (fst (row_values False tiny_quantizer zero_query tiny_view (Exact_dots (replicate 32 0)) i))"
proof -
  let ?s = "f32_mul (byte_float 3) 0x3F800000"
  have one: "f32_mag (f32_of_nat 1) = 0x3F800000"
  proof -
    have "round_mag 0 (f32_units 0x3F800000 * 2 ^ 0) = 0x3F800000" by (rule round_mag_exact) (simp add: inf_mag_def)
    then show ?thesis by (simp add: f32_of_nat_def one_units)
  qed
  have "f32_mag (f32_mul ?s 0) = 0" using f32_mul_zero [of 0 ?s] byte_scale_finite by (simp add: f32_mul_commute)
  then have "f32_smag (f32_sub (f32_of_nat 1) (f32_mul ?s 0)) = 0x3F800000" "\<not> f32_is_nan (f32_sub (f32_of_nat 1) (f32_mul ?s 0))"
    using f32_sub_zero [of "f32_of_nat 1"] f32_of_nat_nonneg [of 1] one by (simp_all add: f32_smag_def)
  then have "f32_is_finite (f32_sub (f32_of_nat 1) (f32_mul ?s 0))"
    by (auto simp: f32_is_finite_def f32_smag_def inf_mag_def split: if_splits)
  moreover have "replicate 96 3 ! lane_index i k = (3 :: u8)" if "k < 3" for k
    using assms that by (intro nth_replicate) (simp add: lane_index_def block_lanes_def metadata_block_bytes_def)
  ultimately show ?thesis
    using assms by (simp add: row_values_def lane_values_def scalar_lane_def decode_metadata_def scalar_metric_values_def
        get_metadata_def tiny_view_def tiny_quantizer_def)
qed

lemma tiny_rows: "block_rows tiny_view = 2"
  by (simp add: tiny_view_def)

lemma zero_query_rows:
  "query_rows False kernel_layout tiny_ops tiny_quantizer zero_query ScalarFloat [tiny_view]
    = map (row_values False tiny_quantizer zero_query tiny_view (Exact_dots (replicate 32 0))) [0..<2]"
  by (simp add: query_rows_def zero_query_dots tiny_quantizer_def tiny_view_def [THEN arg_cong [of _ _ block_rows]])

lemma zero_query_ok: "lut_ok False tiny_ops (qz_subquantizers tiny_quantizer) zero_query ScalarFloat"
  "selector_args_ok 1 0x3F800000 2"
  by (simp_all add: lut_ok_def zero_query_def tiny_quantizer_def even_subquantizers_def choose_mode_def)
    (simp add: selector_args_ok_def f32_one size_max_def)

theorem interval_scan_enough_witness:
  "\<exists>r st'. scan_interval_candidates False kernel_layout tiny_ops tiny_quantizer zero_query [tiny_view] 1 0x3F800000 2
      (Some zero_stats) ScalarFloat = Inr (r, st') \<and> 1 \<le> length (candidates r)"
proof (rule interval_scan_enough)
  show "1 \<le> length (filter (\<lambda>r. f32_is_finite (fst r))
      (query_rows False kernel_layout tiny_ops tiny_quantizer zero_query ScalarFloat [tiny_view]))"
    using zero_query_estimate [of 0] zero_query_estimate [of 1] by (simp add: zero_query_rows upt_rec numeral_2_eq_2)
qed (use tiny_ok tiny_signs zero_query_ok in simp_all)



end
