(* ===== verification/Posting_List.thy ===== *)
theory Posting_List
  imports Pq4_Packing Metadata_Packing
begin

text \<open>
  The resident part of an inverted list, \<open>MemoryList\<close> of src/adapters/external\_list\_ivf.h, and the
  two steps of \<open>insert_batch\<close> that work on it (src/adapters/external\_list\_ivf.cpp): reserving and
  checking the destination before any file is touched, and writing the new rows after the files are.

  The buffers of a list are allocations of their own, so the overlap guards of the packing functions
  see disjoint ranges.
\<close>

section \<open>State\<close>

record memory_list =
  ml_codes :: bytes
  ml_metadata :: bytes
  ml_size :: u32
  ml_padded :: u32

definition empty_list :: memory_list where
  "empty_list = \<lparr>ml_codes = [], ml_metadata = [], ml_size = 0, ml_padded = 0\<rparr>"

section \<open>Operations\<close>

definition round_up :: "nat \<Rightarrow> nat \<Rightarrow> nat res" where
  "round_up v multiple =
    (if multiple = 0 \<or> v > size_max - (multiple - 1) then Inl (Overflow_error ''rounded size overflows'')
     else Inr ((v + multiple - 1) div multiple * multiple))"

text \<open>\<open>resize\<close> keeps the common prefix; \<open>memset\<close> fills what it added.\<close>

definition grow_buffer :: "nat \<Rightarrow> u8 \<Rightarrow> bytes \<Rightarrow> bytes" where
  "grow_buffer cap fill buf = take cap buf @ replicate (cap - length buf) fill"

definition new_extent :: "nat \<Rightarrow> memory_list \<Rightarrow> nat \<Rightarrow> (nat \<times> nat \<times> nat) res" where
  "new_extent code_size ml n =
    res_bind (checked_add (unat (ml_size ml)) n ''external IVF list size overflows'') (\<lambda>new_size.
      if new_size > u32_max then Inl (Overflow_error ''external IVF list exceeds uint32 offsets'')
      else res_bind (round_up new_size block_lanes) (\<lambda>new_padded.
        res_bind (checked_multiply new_padded code_size ''packed external list code size overflows'') (\<lambda>cap.
          Inr (new_size, new_padded, cap))))"

text \<open>Buffers that were resized before a later check throws stay resized.\<close>

definition reserve_list :: "faiss_pq4_ops \<Rightarrow> nat \<Rightarrow> nat \<Rightarrow> nat \<Rightarrow> memory_list \<Rightarrow> unit res \<times> memory_list" where
  "reserve_list F M code_size n ml =
    (case new_extent code_size ml n of
       Inl e \<Rightarrow> (Inl e, ml)
     | Inr (new_size, new_padded, code_capacity) \<Rightarrow>
         let ml1 = ml\<lparr>ml_codes := grow_buffer code_capacity 0 (ml_codes ml)\<rparr>
         in case packed_metadata_size_bbs32 new_padded of
              Inl e \<Rightarrow> (Inl e, ml1)
            | Inr metadata_capacity \<Rightarrow>
                let ml2 = ml1\<lparr>ml_metadata := grow_buffer metadata_capacity 255 (ml_metadata ml1)\<rparr>
                in (res_bind (validate_empty_packed_code_range_bbs32 F M (unat (ml_size ml)) new_size (ml_codes ml2))
                      (\<lambda>_. validate_empty_packed_metadata_range_bbs32 (unat (ml_size ml)) new_size (ml_metadata ml2)),
                    ml2))"

definition append_list :: "faiss_pq4_ops \<Rightarrow> nat \<Rightarrow> bytes \<Rightarrow> metadata list \<Rightarrow> nat \<Rightarrow> memory_list \<Rightarrow> unit res \<times> memory_list" where
  "append_list F M flat ms n ml =
    (let old_size = unat (ml_size ml); new_size = old_size + n
     in case append_flat_codes_bbs32 F (Inr False) flat M old_size new_size (ml_codes ml) of
          Inl e \<Rightarrow> (Inl e, ml)
        | Inr codes \<Rightarrow>
          let ml1 = ml\<lparr>ml_codes := codes\<rparr>
          in case write_metadata_range_bbs32 (Inr False) ms old_size new_size (ml_metadata ml1) of
               Inl e \<Rightarrow> (Inl e, ml1)
             | Inr metadata \<Rightarrow>
               let ml2 = ml1\<lparr>ml_metadata := metadata, ml_size := of_nat new_size\<rparr>
               in case round_up new_size block_lanes of
                    Inl e \<Rightarrow> (Inl e, ml2)
                  | Inr padded \<Rightarrow> (Inr (), ml2\<lparr>ml_padded := of_nat padded\<rparr>))"

text \<open>
  A loop over work items, each on the list \<open>key\<close> names: the first exception ends it, what was done
  stays. \<open>each_list\<close> is the case of list numbers.
\<close>

fun each_item ::
    "('a \<Rightarrow> u32) \<Rightarrow> ('a \<Rightarrow> memory_list \<Rightarrow> unit res \<times> memory_list) \<Rightarrow> 'a list \<Rightarrow> memory_list list \<Rightarrow> unit res \<times> memory_list list" where
  "each_item key f [] mls = (Inr (), mls)"
| "each_item key f (x # xs) mls =
    (case f x (mls ! unat (key x)) of
       (Inl e, ml) \<Rightarrow> (Inl e, mls[unat (key x) := ml])
     | (Inr u, ml) \<Rightarrow> each_item key f xs (mls[unat (key x) := ml]))"

definition each_list :: "(u32 \<Rightarrow> memory_list \<Rightarrow> unit res \<times> memory_list) \<Rightarrow> u32 list \<Rightarrow> memory_list list \<Rightarrow> unit res \<times> memory_list list" where
  "each_list = each_item (\<lambda>l. l)"

section \<open>Rows and the invariant\<close>

definition row_code :: "faiss_pq4_ops \<Rightarrow> nat \<Rightarrow> memory_list \<Rightarrow> nat \<Rightarrow> u8 list" where
  "row_code F M ml i = map (get_packed_element F (ml_codes ml) block_lanes M i) [0..<M]"

definition row_metadata :: "memory_list \<Rightarrow> nat \<Rightarrow> metadata" where
  "row_metadata ml i = get_metadata (ml_metadata ml) i"

text \<open>Whole tiles, the lanes after the last row empty, and sizes whose byte counts do not overflow.\<close>

definition tiles_ok :: "faiss_pq4_ops \<Rightarrow> nat \<Rightarrow> memory_list \<Rightarrow> nat \<Rightarrow> bool" where
  "tiles_ok F M ml blocks \<longleftrightarrow> length (ml_codes ml) = 16 * M * blocks \<and> length (ml_metadata ml) = 96 * blocks
    \<and> unat (ml_size ml) \<le> 32 * blocks
    \<and> (\<forall>i. unat (ml_size ml) \<le> i \<and> i < 32 * blocks \<longrightarrow>
        (\<forall>m < M. get_packed_element F (ml_codes ml) 32 M i m = 0) \<and> get_metadata (ml_metadata ml) i = empty_metadata)"

definition posting_ok :: "faiss_pq4_ops \<Rightarrow> nat \<Rightarrow> memory_list \<Rightarrow> bool" where
  "posting_ok F M ml \<longleftrightarrow> (\<exists>blocks. tiles_ok F M ml blocks)
    \<and> unat (ml_padded ml) = round_up_block (unat (ml_size ml))"

definition dims_ok :: "nat \<Rightarrow> bool" where
  "dims_ok M \<longleftrightarrow> even_subquantizers M \<and> M \<le> 2 ^ 20"

lemma empty_list_ok: "posting_ok F M empty_list"
  by (auto simp: posting_ok_def tiles_ok_def empty_list_def round_up_block_def block_lanes_def)

section \<open>Reserving\<close>

lemma length_grow_buffer [simp]: "length (grow_buffer cap fill buf) = cap"
  by (simp add: grow_buffer_def)

lemma segment_grow_old: "off + n \<le> length buf \<Longrightarrow> off + n \<le> cap \<Longrightarrow> segment (grow_buffer cap fill buf) off n = segment buf off n"
  by (simp add: grow_buffer_def segment_append_left segment_take)

lemma segment_grow_new:
  "length buf \<le> off \<Longrightarrow> off + n \<le> cap \<Longrightarrow> segment (grow_buffer cap fill buf) off n = replicate n fill"
  by (simp add: grow_buffer_def segment_def)

lemma nth_grow_buffer: "i < cap \<Longrightarrow> grow_buffer cap fill buf ! i = (if i < length buf then buf ! i else fill)"
  by (auto simp: grow_buffer_def nth_append min_def)

lemma grown_codes:
  assumes F: "faiss_pq4 F" and M: "even_subquantizers M" and "length buf = 16 * M * blocks" and "m < M" and "row < 32 * nb"
  shows "get_packed_element F (grow_buffer (16 * M * nb) 0 buf) 32 M row m
    = (if row < 32 * blocks then get_packed_element F buf 32 M row m else 0)"
proof -
  let ?t = "row div 32 * (16 * M)"
  note tile = faiss_pq4.get_tile [OF F M assms(4)]
  have "row div 32 < nb" using assms(5) by (simp add: less_mult_imp_div_less mult.commute)
  then have fits: "?t + 16 * M \<le> 16 * M * nb"
    using mult_le_mono1 [of "Suc (row div 32)" nb "16 * M"] by (simp add: mult_ac)
  have "get_packed_element F (grow_buffer (16 * M * nb) 0 buf) 32 M row m
      = get_packed_element F (segment (grow_buffer (16 * M * nb) 0 buf) ?t (16 * M)) 32 M (row mod 32) m"
    using assms(5) tile [of row nb "grow_buffer (16 * M * nb) 0 buf"] by simp
  also have "\<dots> = (if row < 32 * blocks then get_packed_element F buf 32 M row m else 0)"
  proof (cases "row < 32 * blocks")
    case True
    then have "row div 32 < blocks" by (simp add: less_mult_imp_div_less mult.commute)
    then have "?t + 16 * M \<le> length buf"
      using mult_le_mono1 [of "Suc (row div 32)" blocks "16 * M"] assms(3) by (simp add: mult_ac)
    then show ?thesis using True fits tile [of row blocks buf] assms(3) by (simp add: segment_grow_old)
  next
    case False
    then have "blocks \<le> row div 32" by simp
    then have "length buf \<le> ?t" using mult_le_mono1 [of blocks "row div 32" "16 * M"] assms(3) by (simp add: mult_ac)
    then show ?thesis
      using False fits faiss_pq4.get_zero [OF F M assms(4), of "row mod 32" 1] by (simp add: segment_grow_new)
  qed
  finally show ?thesis .
qed

lemma grown_metadata:
  assumes "length buf = 96 * blocks" and "row < 32 * nb"
  shows "get_metadata (grow_buffer (96 * nb) 255 buf) row = (if row < 32 * blocks then get_metadata buf row else empty_metadata)"
proof -
  have idx: "lane_index row f < 96 * k \<longleftrightarrow> row < 32 * k" if "f < 3" for f k
  proof -
    have "lane_index row f div 96 = row div 32" using that by (rule lane_index_div)
    moreover have "lane_index row f < 96 * k \<longleftrightarrow> lane_index row f div 96 < k" by (simp add: div_less_iff_less_mult mult.commute)
    moreover have "row < 32 * k \<longleftrightarrow> row div 32 < k" by (simp add: div_less_iff_less_mult mult.commute)
    ultimately show ?thesis by simp
  qed
  show ?thesis
    using assms idx [of _ nb] idx [of _ blocks] by (simp add: get_metadata_def nth_grow_buffer empty_metadata_def)
qed


lemma round_up_ok: "n \<le> u32_max \<Longrightarrow> round_up n block_lanes = Inr (round_up_block n)"
  by (simp add: round_up_def block_lanes_def round_up_block_def u32_max_def size_max_def)

lemma round_up_blocks:
  obtains nb where "round_up_block n = 32 * nb" and "n \<le> 32 * nb" and "n \<le> u32_max \<Longrightarrow> nb \<le> 2 ^ 27"
proof
  show "round_up_block n = 32 * ((n + 31) div 32)" "n \<le> 32 * ((n + 31) div 32)"
    by (simp_all add: round_up_block_def block_lanes_def)
  show "(n + 31) div 32 \<le> 2 ^ 27" if "n \<le> u32_max" using that by (simp add: u32_max_def)
qed

lemma dims_bound:
  assumes "dims_ok M" and "nb \<le> 2 ^ 27"
  shows "32 * nb * (M div 2) = 16 * M * nb" and "16 * M * nb \<le> size_max" and "96 * nb \<le> size_max - 31"
    and "32 * nb \<le> size_max - 31"
proof -
  show "32 * nb * (M div 2) = 16 * M * nb" using assms(1) by (auto simp: dims_ok_def even_subquantizers_def)
  have "M * nb \<le> 2 ^ 20 * 2 ^ 27" using assms by (intro mult_le_mono) (simp_all add: dims_ok_def)
  then show "16 * M * nb \<le> size_max" by (simp add: size_max_def)
  show "96 * nb \<le> size_max - 31" "32 * nb \<le> size_max - 31" using assms(2) by (simp_all add: size_max_def)
qed

text \<open>
  Reserving room for \<open>n\<close> more rows succeeds, keeps every row, and leaves whole empty tiles for the
  new rows. It does not change the published sizes.
\<close>

lemma reserve_list_ok:
  assumes F: "faiss_pq4 F" and M: "dims_ok M" and ml: "posting_ok F M ml" and n: "0 < n" "unat (ml_size ml) + n \<le> u32_max"
  obtains ml' nb where "reserve_list F M (M div 2) n ml = (Inr (), ml')" and "tiles_ok F M ml' nb"
    and "unat (ml_size ml) + n \<le> 32 * nb" and "nb \<le> 2 ^ 27" and "ml_size ml' = ml_size ml" and "ml_padded ml' = ml_padded ml"
    and "\<And>i. i < unat (ml_size ml) \<Longrightarrow> row_code F M ml' i = row_code F M ml i \<and> row_metadata ml' i = row_metadata ml i"
proof -
  let ?s = "unat (ml_size ml)" let ?new = "?s + n"
  obtain blocks where t: "tiles_ok F M ml blocks" using ml by (auto simp: posting_ok_def)
  obtain nb where nb: "round_up_block ?new = 32 * nb" "?new \<le> 32 * nb" "nb \<le> 2 ^ 27"
    using round_up_blocks [of ?new] n(2) by metis
  note b = dims_bound [OF M nb(3)]
  have even: "even_subquantizers M" using M by (simp add: dims_ok_def)
  have mul: "checked_multiply (32 * nb) (M div 2) msg = Inr (16 * M * nb)" for msg
    using checked_multiply_ok [of "32 * nb" "M div 2" msg] b(2) unfolding b(1) by blast
  have extent: "new_extent (M div 2) ml n = Inr (?new, 32 * nb, 16 * M * nb)"
    using n u32_max_le_size_max by (simp add: new_extent_def checked_add_ok round_up_ok nb(1) mul)
  have metadata: "packed_metadata_size_bbs32 (32 * nb) = Inr (96 * nb)"
    using b(3) by (simp add: packed_metadata_size_bbs32_def block_lanes_def)
  define ml' where "ml' = ml\<lparr>ml_codes := grow_buffer (16 * M * nb) 0 (ml_codes ml),
    ml_metadata := grow_buffer (96 * nb) 255 (ml_metadata ml)\<rparr>"
  have codes: "get_packed_element F (ml_codes ml') 32 M i m
      = (if i < 32 * blocks then get_packed_element F (ml_codes ml) 32 M i m else 0)" if "m < M" "i < 32 * nb" for i m
    using grown_codes [OF F even _ that] t by (simp add: ml'_def tiles_ok_def)
  have meta: "get_metadata (ml_metadata ml') i = (if i < 32 * blocks then get_metadata (ml_metadata ml) i else empty_metadata)"
    if "i < 32 * nb" for i
    using grown_metadata [OF _ that] t by (simp add: ml'_def tiles_ok_def)
  have tiles: "tiles_ok F M ml' nb"
    using t codes meta nb(2) by (auto simp: tiles_ok_def ml'_def)
  have empty_codes: "\<forall>row m. ?s \<le> row \<and> row < ?new \<and> m < M \<longrightarrow> get_packed_element F (ml_codes ml') 32 M row m = 0"
    and empty_meta: "\<forall>row. ?s \<le> row \<and> row < ?new \<longrightarrow> get_metadata (ml_metadata ml') row = empty_metadata"
    using tiles nb(2) by (auto simp: tiles_ok_def ml'_def)
  have vc: "validate_empty_packed_code_range_bbs32 F M ?s ?new (ml_codes ml') = Inr ()"
    using validate_codes_iff [OF even _ nb(2), of ?s "ml_codes ml'" F] n(1) b empty_codes by (simp add: ml'_def)
  have vm: "validate_empty_packed_metadata_range_bbs32 ?s ?new (ml_metadata ml') = Inr ()"
    using validate_metadata_range_iff [of ?s ?new nb "ml_metadata ml'"] n(1) nb(2) b empty_meta by (simp add: ml'_def)
  show thesis
  proof (rule that)
    show "reserve_list F M (M div 2) n ml = (Inr (), ml')"
      using vc vm by (simp add: reserve_list_def extent metadata Let_def ml'_def)
    show "row_code F M ml' i = row_code F M ml i \<and> row_metadata ml' i = row_metadata ml i" if "i < ?s" for i
      using that codes [of _ i] meta [of i] t nb(2) by (auto simp: row_code_def row_metadata_def block_lanes_def tiles_ok_def)
  qed (use tiles nb in \<open>simp_all add: ml'_def\<close>)
qed

text \<open>Writing the new rows into reserved tiles.\<close>

lemma append_list_ok:
  assumes F: "faiss_pq4 F" and M: "dims_ok M" and t: "tiles_ok F M ml nb" and n: "0 < n" "unat (ml_size ml) + n \<le> u32_max - 31"
    and nb: "unat (ml_size ml) + n \<le> 32 * nb" "nb \<le> 2 ^ 27"
    and flat: "length flat = n * (M div 2)" and ms: "length ms = n"
  obtains ml' where "append_list F M flat ms n ml = (Inr (), ml')" and "posting_ok F M ml'"
    and "unat (ml_size ml') = unat (ml_size ml) + n"
    and "\<And>i. i < unat (ml_size ml) \<Longrightarrow> row_code F M ml' i = row_code F M ml i \<and> row_metadata ml' i = row_metadata ml i"
    and "\<And>j. j < n \<Longrightarrow> row_code F M ml' (unat (ml_size ml) + j) = map (flat_code flat (M div 2) j) [0..<M]
      \<and> row_metadata ml' (unat (ml_size ml) + j) = ms ! j"
proof -
  let ?s = "unat (ml_size ml)" let ?new = "?s + n"
  note b = dims_bound [OF M nb(2)]
  have even: "even_subquantizers M" using M by (simp add: dims_ok_def)
  obtain codes where c: "append_flat_codes_bbs32 F (Inr False) flat M ?s ?new (ml_codes ml) = Inr codes"
      "length codes = length (ml_codes ml)"
      "\<And>row m. row < 32 * nb \<Longrightarrow> m < M \<Longrightarrow> get_packed_element F codes 32 M row m =
        (if ?s \<le> row \<and> row < ?new then flat_code flat (M div 2) (row - ?s) m else get_packed_element F (ml_codes ml) 32 M row m)"
    using append_flat_codes_ok [OF F even _ nb(1), of ?s "ml_codes ml" flat] t flat b nb(1)
    by (auto simp: tiles_ok_def)
  obtain md where d: "write_metadata_range_bbs32 (Inr False) ms ?s ?new (ml_metadata ml) = Inr md"
      "length md = length (ml_metadata ml)"
      "\<And>row. get_metadata md row = (if ?s \<le> row \<and> row < ?new then ms ! (row - ?s) else get_metadata (ml_metadata ml) row)"
    using write_metadata_range_ok [of ?s ?new nb "ml_metadata ml" ms] t ms b nb(1) by (auto simp: tiles_ok_def)
  have up: "round_up_block ?new \<le> u32_max"
    using n(2) by (simp add: round_up_block_def block_lanes_def u32_max_def)
  define ml' where "ml' = ml\<lparr>ml_codes := codes, ml_metadata := md, ml_size := of_nat ?new, ml_padded := of_nat (round_up_block ?new)\<rparr>"
  have sz: "unat (ml_size ml') = ?new" using n(2) unat_u32_of_nat [of ?new] by (simp add: ml'_def)
  show thesis
  proof (rule that)
    show "append_list F M flat ms n ml = (Inr (), ml')"
      using c(1) d(1) round_up_ok [of ?new] n(2) by (simp add: append_list_def Let_def ml'_def)
    have "tiles_ok F M ml' nb"
      using t c(2,3) d(2,3) nb(1) sz by (auto simp: tiles_ok_def ml'_def)
    then show "posting_ok F M ml'"
      using sz unat_u32_of_nat [OF up] by (auto simp: posting_ok_def ml'_def)
    show "row_code F M ml' i = row_code F M ml i \<and> row_metadata ml' i = row_metadata ml i" if "i < ?s" for i
      using that c(3) d(3) nb(1) by (simp add: row_code_def row_metadata_def ml'_def block_lanes_def)
    show "row_code F M ml' (?s + j) = map (flat_code flat (M div 2) j) [0..<M] \<and> row_metadata ml' (?s + j) = ms ! j"
      if "j < n" for j
      using that c(3) d(3) nb(1) by (simp add: row_code_def row_metadata_def ml'_def block_lanes_def)
  qed (use sz in simp)
qed


section \<open>Loops over lists\<close>

text \<open>
  A step that succeeds on every visited list: the loop succeeds, applies it once to each of them and
  leaves the other lists alone.
\<close>

lemma each_item_ok:
  assumes "distinct (map key xs)" and "\<forall>x \<in> set xs. unat (key x) < length mls \<and> (\<exists>ml. f x (mls ! unat (key x)) = (Inr (), ml))"
  shows "\<exists>mls'. each_item key f xs mls = (Inr (), mls') \<and> length mls' = length mls
    \<and> (\<forall>x \<in> set xs. f x (mls ! unat (key x)) = (Inr (), mls' ! unat (key x)))
    \<and> (\<forall>k. k \<notin> (\<lambda>x. unat (key x)) ` set xs \<longrightarrow> mls' ! k = mls ! k)"
  using assms
proof (induction xs arbitrary: mls)
  case (Cons x xs)
  then obtain ml where ml: "f x (mls ! unat (key x)) = (Inr (), ml)" by auto
  let ?mls = "mls[unat (key x) := ml]"
  have new: "unat (key x) \<noteq> unat (key y)" if "y \<in> set xs" for y
    using that Cons.prems(1) by (auto simp: word_unat_eq_iff)
  then have same: "?mls ! unat (key y) = mls ! unat (key y)" if "y \<in> set xs" for y using that by simp
  have "\<exists>mls'. each_item key f xs ?mls = (Inr (), mls') \<and> length mls' = length ?mls
    \<and> (\<forall>y \<in> set xs. f y (?mls ! unat (key y)) = (Inr (), mls' ! unat (key y)))
    \<and> (\<forall>k. k \<notin> (\<lambda>y. unat (key y)) ` set xs \<longrightarrow> mls' ! k = ?mls ! k)"
    using Cons.prems same by (intro Cons.IH) auto
  then obtain mls' where l': "each_item key f xs ?mls = (Inr (), mls')" "length mls' = length mls"
    "\<forall>y \<in> set xs. f y (?mls ! unat (key y)) = (Inr (), mls' ! unat (key y))"
    "\<forall>k. k \<notin> (\<lambda>y. unat (key y)) ` set xs \<longrightarrow> mls' ! k = ?mls ! k" by auto
  have "unat (key x) \<notin> (\<lambda>y. unat (key y)) ` set xs" using new by auto
  then have "mls' ! unat (key x) = ml" using l'(4) Cons.prems(2) by simp
  then show ?case using l' ml same by (intro exI [of _ mls']) (auto simp: nth_list_update)
qed simp

lemma each_list_ok:
  assumes "distinct ls" and "\<forall>l \<in> set ls. unat l < length mls \<and> (\<exists>ml. f l (mls ! unat l) = (Inr (), ml))"
  shows "\<exists>mls'. each_list f ls mls = (Inr (), mls') \<and> length mls' = length mls
    \<and> (\<forall>l \<in> set ls. f l (mls ! unat l) = (Inr (), mls' ! unat l))
    \<and> (\<forall>k. k \<notin> unat ` set ls \<longrightarrow> mls' ! k = mls ! k)"
  using each_item_ok [of "\<lambda>l. l" ls mls f] assms by (simp add: each_list_def)

end
