(* ===== verification/Batch_Grouping.thy ===== *)
theory Batch_Grouping
  imports Recast_Prelude
begin

text \<open>
  \<open>group_by_list\<close> of src/adapters/external\_list\_ivf.cpp: the counting sort that groups the rows of
  an update batch by inverted list. The reference definition is the stable grouping: the inputs of a
  list, in input order, lists in increasing order.
\<close>

section \<open>The three loops\<close>

record batch_plan =
  bp_offsets :: "nat list"
  bp_order :: "nat list"
  bp_touched :: "u32 list"

definition count_assignments :: "u32 list \<Rightarrow> nat \<Rightarrow> nat list res" where
  "count_assignments assignments nlist =
    res_fold (\<lambda>list_no offsets.
      if unat list_no \<ge> nlist then Inl (Invalid_argument ''batch contains an invalid IVF list number'')
      else Inr (offsets[unat list_no + 1 := offsets ! (unat list_no + 1) + 1]))
      assignments (replicate (nlist + 1) 0)"

definition prefix_step :: "nat \<Rightarrow> nat list \<times> u32 list \<Rightarrow> (nat list \<times> u32 list) res" where
  "prefix_step list_no s =
    (case s of (offsets, touched) \<Rightarrow>
      res_bind (checked_add (offsets ! list_no) (offsets ! (list_no + 1)) ''batch grouping prefix sum overflows'')
        (\<lambda>total. Inr (offsets[list_no + 1 := total],
          if offsets ! list_no \<noteq> total then touched @ [of_nat list_no] else touched)))"

definition place_inputs :: "u32 list \<Rightarrow> nat list \<Rightarrow> nat list" where
  "place_inputs assignments offsets =
    fst (fold (\<lambda>inp (order, cursors).
        let l = unat (assignments ! inp)
        in (order[cursors ! l := inp], cursors[l := cursors ! l + 1]))
      [0..<length assignments] (replicate (length assignments) 0, offsets))"

definition group_by_list :: "u32 list \<Rightarrow> nat \<Rightarrow> batch_plan res" where
  "group_by_list assignments nlist =
    res_bind (count_assignments assignments nlist) (\<lambda>counts.
    res_bind (res_fold prefix_step [0..<nlist] (counts, [])) (\<lambda>(offsets, touched).
      Inr \<lparr>bp_offsets = offsets, bp_order = place_inputs assignments offsets, bp_touched = touched\<rparr>))"

section \<open>The reference grouping\<close>

text \<open>The inputs of a list in input order, and the number of inputs of all lists before it.\<close>

definition inputs_of :: "u32 list \<Rightarrow> nat \<Rightarrow> nat list" where
  "inputs_of assignments l = filter (\<lambda>i. unat (assignments ! i) = l) [0..<length assignments]"

definition count_of :: "u32 list \<Rightarrow> nat \<Rightarrow> nat" where
  "count_of assignments l = length (filter (\<lambda>a. unat a = l) assignments)"

definition start_of :: "u32 list \<Rightarrow> nat \<Rightarrow> nat" where
  "start_of assignments l = (\<Sum>k<l. count_of assignments k)"

lemma length_inputs_of [simp]: "length (inputs_of as l) = count_of as l"
proof -
  have "filter (\<lambda>a. unat a = l) (map ((!) as) [0..<length as]) = map ((!) as) (inputs_of as l)"
    by (simp add: inputs_of_def filter_map comp_def)
  then show ?thesis by (simp add: count_of_def map_nth)
qed

lemma count_assignments_ok:
  assumes "\<forall>a \<in> set as. unat a < nlist"
  shows "count_assignments as nlist = Inr (0 # map (count_of as) [0..<nlist])"
proof -
  have "res_fold (\<lambda>list_no offsets.
      if unat list_no \<ge> nlist then Inl e
      else Inr (offsets[unat list_no + 1 := offsets ! (unat list_no + 1) + 1])) as (0 # cs)
    = Inr (0 # map (\<lambda>l. cs ! l + count_of as l) [0..<nlist])"
    if "length cs = nlist" for cs and e :: exc
    using assms that
  proof (induction as arbitrary: cs)
    case Nil
    then show ?case using map_nth [of cs] by (simp add: count_of_def)
  next
    case (Cons a as)
    let ?cs = "cs[unat a := cs ! unat a + 1]"
    have "map (\<lambda>l. ?cs ! l + count_of as l) [0..<nlist] = map (\<lambda>l. cs ! l + count_of (a # as) l) [0..<nlist]"
      using Cons.prems by (intro map_cong refl) (auto simp: count_of_def nth_list_update)
    then show ?case using Cons.IH [of ?cs] Cons.prems by simp
  qed
  from this [of "replicate nlist 0"] show ?thesis
    by (auto simp: count_assignments_def intro!: map_cong)
qed

lemma start_of_Suc: "start_of as (Suc l) = start_of as l + count_of as l"
  by (simp add: start_of_def)

lemma start_of_mono: "k \<le> l \<Longrightarrow> start_of as k \<le> start_of as l"
  by (induction l) (auto simp: start_of_Suc le_Suc_eq)

lemma start_of_all:
  assumes "\<forall>a \<in> set as. unat a < nlist"
  shows "start_of as nlist = length as"
  using assms
proof (induction as)
  case Nil
  then show ?case by (simp add: start_of_def count_of_def)
next
  case (Cons a as)
  have "start_of (a # as) n = start_of as n + (if unat a < n then 1 else 0)" for n
    by (induction n) (auto simp: start_of_def count_of_def)
  then show ?case using Cons by simp
qed


section \<open>The counting sort computes the stable grouping\<close>

definition touched_lists :: "u32 list \<Rightarrow> nat \<Rightarrow> u32 list" where
  "touched_lists as nlist = map of_nat (filter (\<lambda>l. 0 < count_of as l) [0..<nlist])"

lemma prefix_loop:
  assumes fits: "length as \<le> size_max" and lists: "\<forall>a \<in> set as. unat a < nlist" and "n \<le> nlist"
  shows "res_fold prefix_step [0..<n] (0 # map (count_of as) [0..<nlist], [])
    = Inr (map (start_of as) [0..<n + 1] @ map (count_of as) [n..<nlist], touched_lists as n)"
  using assms(3)
proof (induction n)
  case 0
  then show ?case by (simp add: start_of_def touched_lists_def)
next
  case (Suc n)
  let ?xs = "map (start_of as) [0..<n + 1] @ map (count_of as) [n..<nlist]"
  have nth: "?xs ! n = start_of as n" "?xs ! (n + 1) = count_of as n"
    using Suc.prems by (simp_all add: nth_append)
  have "start_of as (Suc n) \<le> size_max"
    using start_of_mono [OF Suc.prems, of as] start_of_all [OF lists] fits by simp
  then have add: "checked_add (start_of as n) (count_of as n) msg = Inr (start_of as (Suc n))" for msg
    by (simp add: checked_add_ok start_of_Suc)
  have upd: "?xs[n + 1 := start_of as (Suc n)] = map (start_of as) [0..<Suc n + 1] @ map (count_of as) [Suc n..<nlist]"
    using Suc.prems by (simp add: list_update_append upt_conv_Cons)
  have touched: "(if start_of as n \<noteq> start_of as (Suc n) then touched_lists as n @ [of_nat n] else touched_lists as n)
      = touched_lists as (Suc n)"
    by (simp add: touched_lists_def start_of_Suc)
  have step: "prefix_step n (?xs, touched_lists as n)
      = Inr (map (start_of as) [0..<Suc n + 1] @ map (count_of as) [Suc n..<nlist], touched_lists as (Suc n))"
    unfolding prefix_step_def prod.case nth add res_bind_simps upd touched ..
  have "res_fold prefix_step [0..<n] (0 # map (count_of as) [0..<nlist], []) = Inr (?xs, touched_lists as n)"
    using Suc by simp
  moreover have "[0..<Suc n] = [0..<n] @ [n]" by simp
  ultimately show ?case by (simp only: res_fold_append res_bind_simps res_fold.simps step)
qed

text \<open>After the first \<open>n\<close> inputs every group holds its inputs so far, and its cursor is behind them.\<close>

definition placed_upto :: "u32 list \<Rightarrow> nat \<Rightarrow> nat \<Rightarrow> nat list \<Rightarrow> nat list \<Rightarrow> bool" where
  "placed_upto as nlist n order cursors \<longleftrightarrow> length order = length as \<and> nlist < length cursors
    \<and> (\<forall>l < nlist. cursors ! l = start_of as l + length (filter (\<lambda>i. unat (as ! i) = l) [0..<n])
        \<and> segment order (start_of as l) (length (filter (\<lambda>i. unat (as ! i) = l) [0..<n]))
          = filter (\<lambda>i. unat (as ! i) = l) [0..<n])"

lemma inputs_prefix:
  assumes "n < length as" and "unat (as ! n) = l"
  shows "length (filter (\<lambda>i. unat (as ! i) = l) [0..<n]) < count_of as l"
proof -
  have "[0..<length as] = [0..<n] @ n # [Suc n..<length as]"
    using upt_add_eq_append [of 0 n "length as - n"] upt_conv_Cons [of n "length as"] assms(1) by simp
  then have "count_of as l = length (filter (\<lambda>i. unat (as ! i) = l) ([0..<n] @ n # [Suc n..<length as]))"
    using length_inputs_of [of as l] by (simp add: inputs_of_def)
  then show ?thesis using assms(2) by simp
qed

lemma place_step:
  assumes inv: "placed_upto as nlist n order cursors" and n: "n < length as" and lists: "\<forall>a \<in> set as. unat a < nlist"
  shows "placed_upto as nlist (Suc n) (order[cursors ! unat (as ! n) := n])
    (cursors[unat (as ! n) := cursors ! unat (as ! n) + 1])"
  unfolding placed_upto_def
proof (intro conjI allI impI)
  let ?a = "unat (as ! n)" and ?F = "\<lambda>l m. filter (\<lambda>i. unat (as ! i) = l) [0..<m]"
  have a: "?a < nlist" using lists n by simp
  have cur: "cursors ! ?a = start_of as ?a + length (?F ?a n)" using inv a by (simp add: placed_upto_def)
  have room: "length (?F ?a n) < count_of as ?a" by (rule inputs_prefix [OF n refl])
  have len: "length order = length as" using inv by (simp add: placed_upto_def)
  show "length (order[cursors ! ?a := n]) = length as" "nlist < length (cursors[?a := cursors ! ?a + 1])"
    using inv by (simp_all add: placed_upto_def)
  fix l assume l: "l < nlist"
  have old: "cursors ! l = start_of as l + length (?F l n)" "segment order (start_of as l) (length (?F l n)) = ?F l n"
    using inv l by (simp_all add: placed_upto_def)
  have bound: "start_of as l + count_of as l \<le> length as"
    using start_of_mono [of "Suc l" nlist as] start_of_all [OF lists] l by (simp add: start_of_Suc)
  show "cursors[?a := cursors ! ?a + 1] ! l = start_of as l + length (?F l (Suc n))"
    using old(1) inv a l by (auto simp: nth_list_update placed_upto_def)
  show "segment (order[cursors ! ?a := n]) (start_of as l) (length (?F l (Suc n))) = ?F l (Suc n)"
  proof (cases "l = ?a")
    case True
    have "segment (order[cursors ! ?a := n]) (start_of as l) (length (?F l n)) = ?F l n"
      using old(2) cur True by (simp add: segment_def take_update_swap drop_update_swap list_update_beyond)
    moreover have "order[cursors ! ?a := n] ! (start_of as l + length (?F l n)) = n"
      using cur True room bound len by simp
    ultimately show ?thesis
      using True room bound len by (simp add: segment_def take_Suc_conv_app_nth)
  next
    case False
    have out: "cursors ! ?a < start_of as l \<or> start_of as l + count_of as l \<le> cursors ! ?a"
    proof (cases "l < ?a")
      case True
      then show ?thesis using cur start_of_mono [of "Suc l" ?a as] by (simp add: start_of_Suc)
    next
      case F: False
      then show ?thesis using cur room False start_of_mono [of "Suc ?a" l as] by (simp add: start_of_Suc)
    qed
    have "length (?F l n) \<le> count_of as l"
      using n upt_add_eq_append [of 0 n "length as - n"] length_inputs_of [of as l] by (simp add: inputs_of_def)
    with out old(2) False show ?thesis
      by (auto simp: segment_def take_update_swap drop_update_swap list_update_beyond)
  qed
qed

lemma placed_inputs:
  assumes lists: "\<forall>a \<in> set as. unat a < nlist" and "length offsets = nlist + 1" and "\<forall>l \<le> nlist. offsets ! l = start_of as l"
  shows "length (place_inputs as offsets) = length as
    \<and> (\<forall>l < nlist. segment (place_inputs as offsets) (start_of as l) (count_of as l) = inputs_of as l)"
proof -
  let ?step = "\<lambda>inp (order, cursors). let l = unat (as ! inp)
        in (order[cursors ! l := inp], cursors[l := cursors ! l + 1])"
  have "case fold ?step [0..<n] (replicate (length as) 0, offsets) of (order, cursors) \<Rightarrow> placed_upto as nlist n order cursors"
    if "n \<le> length as" for n
    using that
  proof (induction n)
    case 0
    then show ?case using assms(2,3) by (simp add: placed_upto_def)
  next
    case (Suc n)
    then show ?case using place_step [OF _ _ lists, of n] by (auto simp: Let_def split: prod.splits)
  qed
  from this [of "length as"] show ?thesis
    using length_inputs_of [of as] by (auto simp: place_inputs_def placed_upto_def inputs_of_def)
qed

lemma group_by_list_ok:
  assumes "length as \<le> size_max" and lists: "\<forall>a \<in> set as. unat a < nlist"
  obtains order where "group_by_list as nlist
      = Inr \<lparr>bp_offsets = map (start_of as) [0..<nlist + 1], bp_order = order, bp_touched = touched_lists as nlist\<rparr>"
    and "length order = length as"
    and "\<And>l. l < nlist \<Longrightarrow> segment order (start_of as l) (count_of as l) = inputs_of as l"
    and "order = concat (map (inputs_of as) [0..<nlist])"
proof
  let ?offs = "map (start_of as) [0..<nlist + 1]"
  have offs: "length ?offs = nlist + 1" "\<forall>l \<le> nlist. ?offs ! l = start_of as l"
    by (auto simp: nth_append simp del: upt_Suc)
  have p: "res_fold prefix_step [0..<nlist] (0 # map (count_of as) [0..<nlist], []) = Inr (?offs, touched_lists as nlist)"
    using prefix_loop [OF assms, of nlist] by simp
  show "group_by_list as nlist
      = Inr \<lparr>bp_offsets = ?offs, bp_order = place_inputs as ?offs, bp_touched = touched_lists as nlist\<rparr>"
    unfolding group_by_list_def count_assignments_ok [OF lists] res_bind_simps p prod.case ..
  show "length (place_inputs as ?offs) = length as"
    "\<And>l. l < nlist \<Longrightarrow> segment (place_inputs as ?offs) (start_of as l) (count_of as l) = inputs_of as l"
    using placed_inputs [OF lists offs] by blast+
  then have "take (start_of as n) (place_inputs as ?offs) = concat (map (inputs_of as) [0..<n])" if "n \<le> nlist" for n
    using that
  proof (induction n)
    case (Suc n)
    then show ?case by (simp add: start_of_Suc take_add segment_def)
  qed (simp add: start_of_def)
  from this [of nlist] show "place_inputs as ?offs = concat (map (inputs_of as) [0..<nlist])"
    using placed_inputs [OF lists offs] start_of_all [OF lists] by simp
qed

lemma group_by_list_invalid:
  assumes "\<exists>a \<in> set as. nlist \<le> unat a"
  shows "group_by_list as nlist = Inl (Invalid_argument ''batch contains an invalid IVF list number'')"
proof -
  have "res_fold (\<lambda>list_no offsets.
      if unat list_no \<ge> nlist then Inl e
      else Inr (offsets[unat list_no + 1 := offsets ! (unat list_no + 1) + 1])) as cs = Inl e" for cs and e :: exc
    using assms by (induction as arbitrary: cs) auto
  then have "count_assignments as nlist = Inl (Invalid_argument ''batch contains an invalid IVF list number'')"
    unfolding count_assignments_def by blast
  then show ?thesis by (simp add: group_by_list_def)
qed

definition stable_order :: "u32 list \<Rightarrow> nat \<Rightarrow> nat list" where
  "stable_order assignments nlist = concat (map (inputs_of assignments) [0..<nlist])"

definition grouped_plan :: "u32 list \<Rightarrow> nat \<Rightarrow> batch_plan" where
  "grouped_plan assignments nlist =
    \<lparr>bp_offsets = map (start_of assignments) [0..<nlist + 1], bp_order = stable_order assignments nlist,
     bp_touched = touched_lists assignments nlist\<rparr>"

lemma length_stable_prefix: "length (concat (map (inputs_of as) [0..<l])) = start_of as l"
  by (induction l) (simp_all add: start_of_Suc start_of_def)

lemma segment_stable_order: "l < nlist \<Longrightarrow> segment (stable_order as nlist) (start_of as l) (count_of as l) = inputs_of as l"
proof -
  assume "l < nlist"
  then have "[0..<nlist] = [0..<l] @ l # [Suc l..<nlist]"
    using upt_add_eq_append [of 0 l "nlist - l"] by (simp add: upt_conv_Cons)
  then show ?thesis by (simp add: stable_order_def segment_def flip: length_stable_prefix)
qed

lemma length_stable_order: "\<forall>a \<in> set as. unat a < nlist \<Longrightarrow> length (stable_order as nlist) = length as"
  by (simp add: stable_order_def length_stable_prefix start_of_all)

lemma set_stable_order: "set (stable_order as nlist) \<subseteq> {..<length as}"
  by (auto simp: stable_order_def inputs_of_def)

lemma distinct_stable_order: "distinct (stable_order as nlist)"
proof (induction nlist)
  case (Suc n)
  have "stable_order as (Suc n) = stable_order as n @ inputs_of as n" by (simp add: stable_order_def)
  moreover have "set (stable_order as n) \<inter> set (inputs_of as n) = {}" by (auto simp: stable_order_def inputs_of_def)
  ultimately show ?case using Suc by (simp add: inputs_of_def)
qed (simp add: stable_order_def)

lemma group_by_list_plan:
  assumes "length as \<le> size_max" and "\<forall>a \<in> set as. unat a < nlist"
  shows "group_by_list as nlist = Inr (grouped_plan as nlist)"
  using group_by_list_ok [OF assms] unfolding grouped_plan_def stable_order_def by metis

text \<open>
  The counting sort of an update batch computes the stable grouping. For valid list numbers the
  boundaries are the running totals, the order is the concatenation of the inputs of every list in
  input order, the touched lists are the non-empty ones in increasing order, and the slice between
  the boundaries of a list is exactly its inputs; a list number out of range is rejected.
\<close>

theorem group_by_list_correct:
  assumes "length as \<le> size_max"
  shows "(if \<forall>a \<in> set as. unat a < nlist then group_by_list as nlist = Inr (grouped_plan as nlist)
      else group_by_list as nlist = Inl (Invalid_argument ''batch contains an invalid IVF list number''))
    \<and> (\<forall>l < nlist. segment (bp_order (grouped_plan as nlist)) (bp_offsets (grouped_plan as nlist) ! l)
          (bp_offsets (grouped_plan as nlist) ! (l + 1) - bp_offsets (grouped_plan as nlist) ! l) = inputs_of as l)"
proof (intro conjI allI impI)
  show "if \<forall>a \<in> set as. unat a < nlist then group_by_list as nlist = Inr (grouped_plan as nlist)
      else group_by_list as nlist = Inl (Invalid_argument ''batch contains an invalid IVF list number'')"
    using group_by_list_plan [OF assms, of nlist] group_by_list_invalid [of as nlist] by (auto simp: not_less)
  fix l assume "l < nlist"
  then show "segment (bp_order (grouped_plan as nlist)) (bp_offsets (grouped_plan as nlist) ! l)
          (bp_offsets (grouped_plan as nlist) ! (l + 1) - bp_offsets (grouped_plan as nlist) ! l) = inputs_of as l"
    using segment_stable_order [of l nlist as] by (simp add: grouped_plan_def nth_append start_of_Suc del: upt_Suc)
qed

theorem group_by_list_correct_witness:
  "group_by_list [2, 0, 2] 3 = Inr \<lparr>bp_offsets = [0, 1, 1, 3], bp_order = [1, 0, 2], bp_touched = [0, 2]\<rparr>"
proof -
  have "grouped_plan [2, 0, 2] 3 = \<lparr>bp_offsets = [0, 1, 1, 3], bp_order = [1, 0, 2], bp_touched = [0, 2]\<rparr>" by code_simp
  moreover have "\<forall>a \<in> set [2, 0, 2 :: u32]. unat a < 3" by simp
  ultimately show ?thesis using group_by_list_correct [of "[2, 0, 2]" 3] by (simp add: size_max_def)
qed

end
