(* ===== verification/List_Index.thy ===== *)
theory List_Index
  imports Posting_List Batch_Grouping Location_Directory Record_Deletion Scan
begin

text \<open>
  \<open>ExternalListRecastIndex\<close> (src/adapters/external\_list\_ivf.cpp): the resident posting lists, the
  record store with one file per list, and the location directory. This theory holds its state, its
  constructor checks and \<open>insert_batch\<close>.

  The router and the quantizer's encoder are functions of \<open>index_ops\<close>, arguments of the model. The
  loops over lists run in the order of the touched lists, as they do in a build without OpenMP; every
  iteration works on a list and a file of its own. The write lock makes an update atomic for readers,
  so operations are functions of the state. The diagnostic counters of the update statistics are left
  out.
\<close>

section \<open>State\<close>

datatype payload_format = Opaque_payload | Float32_payload | UInt8_payload | Int8_payload

record index_options =
  xo_storage_root :: string
  xo_payload_bytes :: nat
  xo_payload_format :: payload_format
  xo_page_size :: nat
  xo_lists_per_shard :: nat
  xo_queue_depth :: nat
  xo_max_open_files :: nat
  xo_direct_io :: bool
  xo_sync_writes :: bool
  xo_create_storage :: bool

record index_ops =
  op_pq4 :: faiss_pq4_ops
  op_scan :: faiss_scan_ops
  op_assign :: "nat \<Rightarrow> f32 list \<Rightarrow> u32 list"
  op_route :: "f32 list \<Rightarrow> nat \<Rightarrow> u32 list res"
  op_encode :: "nat \<Rightarrow> f32 list \<Rightarrow> bytes \<times> metadata list"
  op_prepare_query :: "f32 list \<Rightarrow> query_context res"

record list_index =
  ix_trained :: bool
  ix_quantizer :: quantizer_view
  ix_options :: index_options
  ix_store :: record_store
  ix_directory :: directory
  ix_lists :: "memory_list list"
  ix_next_id :: nat
  ix_active :: nat
  ix_generation :: nat

abbreviation ix_subquantizers :: "list_index \<Rightarrow> nat" where
  "ix_subquantizers ix \<equiv> qz_subquantizers (ix_quantizer ix)"

text \<open>\<open>code_size()\<close>: two 4-bit codes per byte.\<close>

definition code_size :: "list_index \<Rightarrow> nat" where
  "code_size ix = ix_subquantizers ix div 2"

definition index_store_options :: "index_options \<Rightarrow> store_options" where
  "index_store_options opts =
    \<lparr>so_page_size = xo_page_size opts, so_payload_bytes = xo_payload_bytes opts,
     so_lists_per_shard = xo_lists_per_shard opts, so_direct_io = xo_direct_io opts,
     so_sync_writes = xo_sync_writes opts\<rparr>"

definition index_directory :: "index_options \<Rightarrow> directory" where
  "index_directory opts =
    \<lparr>dir_path = path_join (xo_storage_root opts) ''locations.bin'', dir_page_size = xo_page_size opts,
     dir_direct_io = xo_direct_io opts, dir_sync = xo_sync_writes opts\<rparr>"

text \<open>
  The members of both constructors and the common part of their checks; a trained quantizer is
  required by the second constructor only, and only the second one may reopen a storage.
\<close>

definition index_open ::
    "(string \<Rightarrow> string) \<Rightarrow> bool \<Rightarrow> nat \<Rightarrow> nat \<Rightarrow> bool \<Rightarrow> quantizer_view \<Rightarrow> bool \<Rightarrow> index_options \<Rightarrow> list_index io" where
  "index_open parent linux_aio nlist router_dimension adopted qz trained opts =
    io_bind (store_open linux_aio (xo_storage_root opts) nlist (index_store_options opts) (xo_create_storage opts)) (\<lambda>st.
    io_bind (directory_open parent linux_aio (index_directory opts) (xo_create_storage opts)) (\<lambda>dir.
      if xo_storage_root opts = [] \<or> xo_payload_bytes opts = 0 \<or> xo_queue_depth opts = 0
         \<or> xo_max_open_files opts < xo_queue_depth opts \<or> (adopted \<and> \<not> trained) \<or> qz_dimension qz \<noteq> router_dimension
      then io_throw (Invalid_argument (if adopted then ''invalid trained external-list Recast state''
                                       else ''invalid external-list Recast configuration''))
      else if \<not> adopted \<and> \<not> xo_create_storage opts
      then io_throw (Invalid_argument ''checkpoint reload requires a trained RecastQuantizer'')
      else io_return \<lparr>ix_trained = trained, ix_quantizer = qz, ix_options = opts, ix_store = st, ix_directory = dir,
             ix_lists = replicate nlist empty_list, ix_next_id = 0, ix_active = 0, ix_generation = 0\<rparr>))"

section \<open>Insertion: the plan\<close>

record insert_plan =
  ip_groups :: batch_plan
  ip_ids :: "u32 list"
  ip_grouped_ids :: "u32 list"
  ip_grouped_codes :: bytes
  ip_grouped_metadata :: "metadata list"
  ip_grouped_payloads :: bytes

definition gather :: "nat \<Rightarrow> nat \<Rightarrow> bytes \<Rightarrow> nat list \<Rightarrow> bytes" where
  "gather stride n bs order = concat (map (\<lambda>i. segment bs (i * stride) n) order)"

definition plan_insert :: "index_ops \<Rightarrow> list_index \<Rightarrow> nat \<Rightarrow> f32 list option \<Rightarrow> bytes option \<Rightarrow> nat \<Rightarrow> insert_plan res" where
  "plan_insert ops ix n vectors payloads payload_stride =
    (if \<not> ix_trained ix \<or> vectors = None \<or> payloads = None
     then Inl (Invalid_argument ''invalid external-list insertion state or input'')
     else let stride = (if payload_stride = 0 then xo_payload_bytes (ix_options ix) else payload_stride)
     in if stride < xo_payload_bytes (ix_options ix)
     then Inl (Invalid_argument ''exact payload stride is too small'')
     else if ix_next_id ix > u32_max \<or> n > u32_max - ix_next_id ix
     then Inl (Overflow_error ''prototype exhausts its 32-bit Logical ID space'')
     else res_bind (checked_add (ix_active ix) n ''active external-list vector count overflows'') (\<lambda>_.
     res_bind (checked_multiply n (code_size ix) ''inserted PQ4 code size overflows'') (\<lambda>_.
       let (codes, ms) = op_encode ops n (the vectors);
           ids = map (\<lambda>i. of_nat (ix_next_id ix + i)) [0..<n]
       in res_bind (group_by_list (op_assign ops n (the vectors)) (length (ix_lists ix))) (\<lambda>groups.
          res_bind (checked_multiply n (xo_payload_bytes (ix_options ix)) ''grouped exact payload size overflows'') (\<lambda>_.
            Inr \<lparr>ip_groups = groups, ip_ids = ids, ip_grouped_ids = map ((!) ids) (bp_order groups),
              ip_grouped_codes = gather (code_size ix) (code_size ix) codes (bp_order groups),
              ip_grouped_metadata = map ((!) ms) (bp_order groups),
              ip_grouped_payloads = gather stride (xo_payload_bytes (ix_options ix)) (the payloads) (bp_order groups)\<rparr>)))))"

text \<open>The slice of a list in the grouped arrays.\<close>

definition group_begin :: "batch_plan \<Rightarrow> u32 \<Rightarrow> nat" where
  "group_begin groups l = bp_offsets groups ! unat l"

definition group_size :: "batch_plan \<Rightarrow> u32 \<Rightarrow> nat" where
  "group_size groups l = bp_offsets groups ! (unat l + 1) - bp_offsets groups ! unat l"

definition insert_updates :: "list_index \<Rightarrow> insert_plan \<Rightarrow> update list" where
  "insert_updates ix p =
    concat (map (\<lambda>l. map (\<lambda>j. (ip_grouped_ids p ! (group_begin (ip_groups p) l + j),
          \<lparr>dl_list = l, dl_offset = ml_size (ix_lists ix ! unat l) + of_nat j\<rparr>))
        [0..<group_size (ip_groups p) l]) (bp_touched (ip_groups p)))"

section \<open>Insertion: the commit\<close>

definition append_file :: "list_index \<Rightarrow> insert_plan \<Rightarrow> u32 \<Rightarrow> unit \<Rightarrow> unit io" where
  "append_file ix p l _ =
    append_records (ix_store ix) l (ml_size (ix_lists ix ! unat l))
      (Some (drop (group_begin (ip_groups p) l) (ip_grouped_ids p)))
      (Some (drop (group_begin (ip_groups p) l * xo_payload_bytes (ix_options ix)) (ip_grouped_payloads p)))
      (xo_payload_bytes (ix_options ix)) (group_size (ip_groups p) l)"

definition append_posting :: "index_ops \<Rightarrow> list_index \<Rightarrow> insert_plan \<Rightarrow> u32 \<Rightarrow> memory_list \<Rightarrow> unit res \<times> memory_list" where
  "append_posting ops ix p l =
    append_list (op_pq4 ops) (ix_subquantizers ix)
      (segment (ip_grouped_codes p) (group_begin (ip_groups p) l * code_size ix) (group_size (ip_groups p) l * code_size ix))
      (segment (ip_grouped_metadata p) (group_begin (ip_groups p) l) (group_size (ip_groups p) l))
      (group_size (ip_groups p) l)"

definition commit_insert :: "index_ops \<Rightarrow> nat \<Rightarrow> insert_plan \<Rightarrow> list_index \<Rightarrow> disk \<Rightarrow> u32 list res \<times> list_index \<times> disk" where
  "commit_insert ops n p ix d =
    (case io_bind (io_fold (append_file ix p) (bp_touched (ip_groups p)) ())
        (\<lambda>_. write_batch (ix_directory ix) (insert_updates ix p)) d of
       (Inl e, d') \<Rightarrow> (Inl e, ix, d')
     | (Inr _, d') \<Rightarrow>
         (case each_list (append_posting ops ix p) (bp_touched (ip_groups p)) (ix_lists ix) of
            (Inl e, mls) \<Rightarrow> (Inl e, ix\<lparr>ix_lists := mls\<rparr>, d')
          | (Inr _, mls) \<Rightarrow>
              (Inr (ip_ids p),
               ix\<lparr>ix_lists := mls, ix_next_id := ix_next_id ix + n, ix_active := ix_active ix + n\<rparr>, d')))"

definition insert_batch ::
    "index_ops \<Rightarrow> nat \<Rightarrow> f32 list option \<Rightarrow> bytes option \<Rightarrow> nat \<Rightarrow> list_index \<Rightarrow> disk \<Rightarrow> u32 list res \<times> list_index \<times> disk" where
  "insert_batch ops n vectors payloads payload_stride ix d =
    (if n = 0 then (Inr [], ix, d)
     else case plan_insert ops ix n vectors payloads payload_stride of
       Inl e \<Rightarrow> (Inl e, ix, d)
     | Inr p \<Rightarrow>
        (case each_list (\<lambda>l. reserve_list (op_pq4 ops) (ix_subquantizers ix) (code_size ix) (group_size (ip_groups p) l))
            (bp_touched (ip_groups p)) (ix_lists ix) of
           (Inl e, mls) \<Rightarrow> (Inl e, ix\<lparr>ix_lists := mls\<rparr>, d)
         | (Inr _, mls) \<Rightarrow> commit_insert ops n p (ix\<lparr>ix_lists := mls\<rparr>) d))"

text \<open>The overload that stores the float vectors themselves as exact payloads.\<close>

definition insert_float_batch ::
    "index_ops \<Rightarrow> nat \<Rightarrow> f32 list option \<Rightarrow> list_index \<Rightarrow> disk \<Rightarrow> u32 list res \<times> list_index \<times> disk" where
  "insert_float_batch ops n vectors ix d =
    (case checked_multiply (qz_dimension (ix_quantizer ix)) 4 ''float32 payload size overflows'' of
       Inl e \<Rightarrow> (Inl e, ix, d)
     | Inr expected \<Rightarrow>
        if xo_payload_bytes (ix_options ix) \<noteq> expected
           \<or> (xo_payload_format (ix_options ix) \<noteq> Opaque_payload \<and> xo_payload_format (ix_options ix) \<noteq> Float32_payload)
        then (Inl (Invalid_argument ''float32 convenience insertion disagrees with exact payload layout''), ix, d)
        else insert_batch ops n vectors (map_option (\<lambda>xs. concat (map le32 xs)) vectors) expected ix d)"

end
