(* ===== verification/List_Index_State.thy ===== *)
theory List_Index_State
  imports List_Index
begin

text \<open>
  The invariant of the external index and the abstract map it implements: every active id has one
  payload, one code and one metadata record.
\<close>

section \<open>Files and rows\<close>

definition file_of :: "list_index \<Rightarrow> nat \<Rightarrow> string" where
  "file_of ix l = (case list_path (ix_store ix) (of_nat l) of Inr p \<Rightarrow> p | Inl e \<Rightarrow> [])"

abbreviation list_content :: "list_index \<Rightarrow> disk \<Rightarrow> nat \<Rightarrow> bytes" where
  "list_content ix d l \<equiv> content d (file_of ix l)"

abbreviation dir_content :: "list_index \<Rightarrow> disk \<Rightarrow> bytes" where
  "dir_content ix d \<equiv> content d (dir_path (ix_directory ix))"

definition list_rows :: "list_index \<Rightarrow> nat \<Rightarrow> nat" where
  "list_rows ix l = unat (ml_size (ix_lists ix ! l))"

type_synonym entry = "bytes \<times> u8 list \<times> metadata"

definition entry_at :: "index_ops \<Rightarrow> list_index \<Rightarrow> disk \<Rightarrow> nat \<Rightarrow> nat \<Rightarrow> entry" where
  "entry_at ops ix d l i =
    (drop 4 (record_at (ix_store ix) (list_content ix d l) i),
     row_code (op_pq4 ops) (ix_subquantizers ix) (ix_lists ix ! l) i, row_metadata (ix_lists ix ! l) i)"

text \<open>The abstract index: what the directory and the lists say about an id.\<close>

definition index_lookup :: "index_ops \<Rightarrow> list_index \<Rightarrow> disk \<Rightarrow> u32 \<Rightarrow> entry option" where
  "index_lookup ops ix d i =
    (let loc = dir_lookup (dir_content ix d) i
     in if unat i < ix_next_id ix \<and> location_active loc
        then Some (entry_at ops ix d (unat (dl_list loc)) (unat (dl_offset loc))) else None)"

section \<open>The invariant\<close>

text \<open>What never changes: the layout, the file names and the dimensions.\<close>

definition index_static :: "index_ops \<Rightarrow> list_index \<Rightarrow> bool" where
  "index_static ops ix \<longleftrightarrow> faiss_pq4 (op_pq4 ops) \<and> dims_ok (ix_subquantizers ix) \<and> ix_trained ix
    \<and> store_ok (ix_store ix) \<and> directory_args_ok (ix_directory ix)
    \<and> payload_bytes (ix_store ix) = xo_payload_bytes (ix_options ix)
    \<and> length (ix_lists ix) = st_nlist (ix_store ix) \<and> st_nlist (ix_store ix) \<le> u32_max
    \<and> (\<forall>l < st_nlist (ix_store ix). file_of ix l \<noteq> dir_path (ix_directory ix))"

definition lists_ok :: "index_ops \<Rightarrow> list_index \<Rightarrow> bool" where
  "lists_ok ops ix \<longleftrightarrow> (\<forall>ml \<in> set (ix_lists ix). posting_ok (op_pq4 ops) (ix_subquantizers ix) ml)
    \<and> ix_active ix = (\<Sum>l<length (ix_lists ix). list_rows ix l) \<and> ix_active ix \<le> ix_next_id ix \<and> ix_next_id ix \<le> u32_max"

text \<open>Every list file has the pages of its rows, and its rows and the directory point at each other.\<close>

definition files_ok :: "list_index \<Rightarrow> disk \<Rightarrow> bool" where
  "files_ok ix d \<longleftrightarrow> dir_page_size (ix_directory ix) dvd length (dir_content ix d)
    \<and> (\<forall>l < length (ix_lists ix).
        length (list_content ix d l) = page_count (list_rows ix l) (st_per_page (ix_store ix)) * page_size (ix_store ix))"

definition rows_located :: "list_index \<Rightarrow> disk \<Rightarrow> bool" where
  "rows_located ix d \<longleftrightarrow> (\<forall>l < length (ix_lists ix). \<forall>i < list_rows ix l.
      unat (row_id (ix_store ix) (list_content ix d l) i) < ix_next_id ix
      \<and> dir_lookup (dir_content ix d) (row_id (ix_store ix) (list_content ix d l) i)
        = \<lparr>dl_list = of_nat l, dl_offset = of_nat i\<rparr>)"

definition ids_located :: "list_index \<Rightarrow> disk \<Rightarrow> bool" where
  "ids_located ix d \<longleftrightarrow> (\<forall>i. unat i < ix_next_id ix \<longrightarrow>
      dir_has (dir_content ix d) i
      \<and> (let loc = dir_lookup (dir_content ix d) i
         in location_active loc \<longrightarrow> unat (dl_list loc) < length (ix_lists ix)
          \<and> unat (dl_offset loc) < list_rows ix (unat (dl_list loc))
          \<and> row_id (ix_store ix) (list_content ix d (unat (dl_list loc))) (unat (dl_offset loc)) = i))"

definition index_ok :: "index_ops \<Rightarrow> list_index \<Rightarrow> disk \<Rightarrow> bool" where
  "index_ok ops ix d \<longleftrightarrow> index_static ops ix \<and> lists_ok ops ix \<and> files_ok ix d \<and> rows_located ix d \<and> ids_located ix d"

lemma unat_list_number:
  assumes "index_static ops ix" and "l < length (ix_lists ix)"
  shows "unat (of_nat l :: u32) = l"
  using assms by (intro unat_u32_of_nat) (auto simp: index_static_def)

lemma file_of_path:
  assumes "index_static ops ix" and "l < length (ix_lists ix)"
  shows "list_path (ix_store ix) (of_nat l) = Inr (file_of ix l)"
  using assms unat_list_number [OF assms] by (simp add: file_of_def list_path_def index_static_def)

lemma files_distinct:
  assumes "index_static ops ix" and "k < length (ix_lists ix)" and "l < length (ix_lists ix)" and "k \<noteq> l"
  shows "file_of ix k \<noteq> file_of ix l"
proof -
  have "(of_nat k :: u32) \<noteq> of_nat l"
    using unat_list_number [OF assms(1,2)] unat_list_number [OF assms(1,3)] assms(4) by metis
  then show ?thesis
    using list_path_inject [OF file_of_path [OF assms(1,2)]] file_of_path [OF assms(1,3)] by metis
qed

lemma list_rows_le_active:
  assumes "lists_ok ops ix" and "l < length (ix_lists ix)"
  shows "list_rows ix l \<le> ix_active ix"
  using assms member_le_sum [of l "{..<length (ix_lists ix)}" "list_rows ix"] by (simp add: lists_ok_def)

end
