(* ===== verification/List_Index_Plan.thy ===== *)
theory List_Index_Plan
  imports List_Index_State
begin

text \<open>
  The plan of an insertion into the external index: what the grouped arrays hold for every list, and
  the reservation of empty lanes before the first external write.
\<close>

section \<open>Grouped arrays\<close>

lemma take_concat_uniform:
  "\<forall>xs \<in> set xss. length xs = n \<Longrightarrow> k \<le> length xss \<Longrightarrow> take (k * n) (concat xss) = concat (take k xss)"
proof (induction xss arbitrary: k)
  case (Cons xs xss)
  then show ?case by (cases k) simp_all
qed simp

lemma drop_concat_uniform:
  "\<forall>xs \<in> set xss. length xs = n \<Longrightarrow> k \<le> length xss \<Longrightarrow> drop (k * n) (concat xss) = concat (drop k xss)"
proof (induction xss arbitrary: k)
  case (Cons xs xss)
  then show ?case by (cases k) simp_all
qed simp

definition readable :: "nat \<Rightarrow> nat \<Rightarrow> bytes \<Rightarrow> nat list \<Rightarrow> bool" where
  "readable stride n bs order \<longleftrightarrow> (\<forall>i \<in> set order. i * stride + n \<le> length bs)"

lemma length_gather: "readable s n bs order \<Longrightarrow> length (gather s n bs order) = length order * n"
  by (induction order) (simp_all add: gather_def readable_def)

lemma segment_gather:
  assumes "readable s n bs order" and "a + k \<le> length order"
  shows "segment (gather s n bs order) (a * n) (k * n) = gather s n bs (segment order a k)"
proof -
  let ?f = "\<lambda>i. segment bs (i * s) n"
  have u: "\<forall>xs \<in> set (map ?f order). length xs = n" using assms(1) by (simp add: readable_def)
  have "drop (a * n) (gather s n bs order) = concat (map ?f (drop a order))"
    using drop_concat_uniform [OF u, of a] assms(2) by (simp add: gather_def drop_map)
  moreover have "take (k * n) (concat (map ?f (drop a order))) = concat (take k (map ?f (drop a order)))"
  proof (rule take_concat_uniform)
    show "\<forall>xs \<in> set (map ?f (drop a order)). length xs = n" using u by (auto dest: in_set_dropD)
    show "k \<le> length (map ?f (drop a order))" using assms(2) by simp
  qed
  ultimately show ?thesis by (simp only: segment_def [of "gather s n bs order"]) (simp add: gather_def segment_def [of order] take_map drop_map)
qed

lemma nth_gather:
  assumes "readable s n bs order" and "j < length order" and "k < n"
  shows "gather s n bs order ! (j * n + k) = bs ! (order ! j * s + k)"
proof -
  have "segment (gather s n bs order) (j * n) (1 * n) = gather s n bs (segment order j 1)"
    using assms(2) by (intro segment_gather [OF assms(1)]) simp
  moreover have "segment order j 1 = [order ! j]" using assms(2) by (simp add: segment_def take_Suc_conv_app_nth)
  ultimately have "segment (gather s n bs order) (j * n) n = segment bs (order ! j * s) n" by (simp add: gather_def)
  moreover have "j * n + n \<le> length (gather s n bs order)"
    using mult_le_mono1 [of "Suc j" "length order" n] assms(1,2) by (simp add: length_gather)
  moreover have "order ! j * s + n \<le> length bs" using assms(1,2) by (simp add: readable_def)
  ultimately show ?thesis
    using nth_segment [of k n "j * n" "gather s n bs order"] nth_segment [of k n "order ! j * s" bs] assms(3) by simp
qed

lemma flat_code_gather:
  assumes "readable cs cs codes order" and "j < length order" and "m div 2 < cs"
  shows "flat_code (gather cs cs codes order) cs j m = flat_code codes cs (order ! j) m"
  using nth_gather [OF assms] by (simp add: flat_code_def)

lemma segment_gather_row:
  assumes "readable s n bs order" and "j < length order"
  shows "segment (gather s n bs order) (j * n) n = segment bs (order ! j * s) n"
proof -
  have "segment (gather s n bs order) (j * n) (1 * n) = gather s n bs (segment order j 1)"
    using assms(2) by (intro segment_gather [OF assms(1)]) simp
  moreover have "segment order j 1 = [order ! j]" using assms(2) by (simp add: segment_def take_Suc_conv_app_nth)
  ultimately show ?thesis by (simp add: gather_def)
qed

section \<open>The plan\<close>

text \<open>What a caller, the router and the encoder provide for a batch of \<open>n\<close> vectors.\<close>

definition payload_step :: "list_index \<Rightarrow> nat \<Rightarrow> nat" where
  "payload_step ix stride = (if stride = 0 then xo_payload_bytes (ix_options ix) else stride)"

definition batch_args_ok :: "index_ops \<Rightarrow> list_index \<Rightarrow> nat \<Rightarrow> f32 list \<Rightarrow> bytes \<Rightarrow> nat \<Rightarrow> bool" where
  "batch_args_ok ops ix n vectors payloads stride \<longleftrightarrow> 0 < n \<and> ix_next_id ix + n \<le> u32_max - 31
    \<and> xo_payload_bytes (ix_options ix) \<le> payload_step ix stride
    \<and> (\<forall>i < n. i * payload_step ix stride + xo_payload_bytes (ix_options ix) \<le> length payloads)
    \<and> length (op_assign ops n vectors) = n \<and> (\<forall>l \<in> set (op_assign ops n vectors). unat l < length (ix_lists ix))
    \<and> length (fst (op_encode ops n vectors)) = n * code_size ix \<and> length (snd (op_encode ops n vectors)) = n"

definition batch_ids :: "list_index \<Rightarrow> nat \<Rightarrow> u32 list" where
  "batch_ids ix n = map (\<lambda>i. of_nat (ix_next_id ix + i)) [0..<n]"

definition planned :: "index_ops \<Rightarrow> list_index \<Rightarrow> nat \<Rightarrow> f32 list \<Rightarrow> bytes \<Rightarrow> nat \<Rightarrow> insert_plan" where
  "planned ops ix n vectors payloads stride =
    (let groups = grouped_plan (op_assign ops n vectors) (length (ix_lists ix)); order = bp_order groups
     in \<lparr>ip_groups = groups, ip_ids = batch_ids ix n, ip_grouped_ids = map ((!) (batch_ids ix n)) order,
         ip_grouped_codes = gather (code_size ix) (code_size ix) (fst (op_encode ops n vectors)) order,
         ip_grouped_metadata = map ((!) (snd (op_encode ops n vectors))) order,
         ip_grouped_payloads = gather (payload_step ix stride) (xo_payload_bytes (ix_options ix)) payloads order\<rparr>)"

lemma plan_insert_ok:
  assumes st: "index_static ops ix" and ls: "lists_ok ops ix" and args: "batch_args_ok ops ix n vectors payloads stride"
  shows "plan_insert ops ix n (Some vectors) (Some payloads) stride = Inr (planned ops ix n vectors payloads stride)"
proof -
  let ?as = "op_assign ops n vectors" and ?pb = "xo_payload_bytes (ix_options ix)"
  have len: "length ?as = n" and lists: "\<forall>a \<in> set ?as. unat a < length (ix_lists ix)"
    using args unfolding batch_args_ok_def by blast+
  have n: "ix_next_id ix + n \<le> u32_max" using args unfolding batch_args_ok_def by linarith
  have "length ?as \<le> size_max" using n len u32_max_le_size_max by linarith
  note group = group_by_list_plan [OF this lists]
  have active: "checked_add (ix_active ix) n msg = Inr (ix_active ix + n)" for msg
  proof (rule checked_add_ok)
    show "ix_active ix + n \<le> size_max" using ls n u32_max_le_size_max by (simp add: lists_ok_def)
  qed
  have code: "checked_multiply n (code_size ix) msg = Inr (n * code_size ix)" for msg
  proof (rule checked_multiply_ok)
    have "n * code_size ix \<le> u32_max * 2 ^ 20"
      using st n by (intro mult_le_mono) (auto simp: index_static_def dims_ok_def code_size_def)
    then show "n * code_size ix \<le> size_max" by (simp add: u32_max_def size_max_def)
  qed
  have pay: "checked_multiply n ?pb msg = Inr (n * ?pb)" for msg
  proof (rule checked_multiply_ok)
    have "?pb \<le> 2 ^ 31" using st store_geometry(1,5) [of "ix_store ix"] by (auto simp: index_static_def store_ok_def store_args_ok_def)
    then have "n * ?pb \<le> u32_max * 2 ^ 31" using n by (intro mult_le_mono) auto
    then show "n * ?pb \<le> size_max" by (simp add: u32_max_def size_max_def)
  qed
  have guards: "ix_trained ix" "\<not> payload_step ix stride < ?pb" "\<not> (ix_next_id ix > u32_max \<or> n > u32_max - ix_next_id ix)"
    using st args n by (auto simp: index_static_def batch_args_ok_def)
  show ?thesis
    using guards unfolding plan_insert_def planned_def batch_ids_def payload_step_def
    by (simp only: Let_def active code pay res_bind_simps split: prod.split) (simp add: group)
qed

text \<open>The slices of a list: as many rows as inputs were assigned to it, in input order.\<close>

abbreviation assigned :: "index_ops \<Rightarrow> nat \<Rightarrow> f32 list \<Rightarrow> nat \<Rightarrow> nat" where
  "assigned ops n vectors l \<equiv> count_of (op_assign ops n vectors) l"

abbreviation inputs :: "index_ops \<Rightarrow> nat \<Rightarrow> f32 list \<Rightarrow> nat \<Rightarrow> nat list" where
  "inputs ops n vectors l \<equiv> inputs_of (op_assign ops n vectors) l"

lemma plan_slices:
  assumes st: "index_static ops ix" and args: "batch_args_ok ops ix n vectors payloads stride" and l: "l < length (ix_lists ix)"
  defines "p \<equiv> planned ops ix n vectors payloads stride"
    and "c \<equiv> assigned ops n vectors l" and "js \<equiv> inputs ops n vectors l"
  shows "c \<le> n" and "group_size (ip_groups p) (of_nat l) = c"
    and "\<And>j. j < c \<Longrightarrow> js ! j < n"
    and "\<And>j. j < c \<Longrightarrow> ip_grouped_ids p ! (group_begin (ip_groups p) (of_nat l) + j) = batch_ids ix n ! (js ! j)"
    and "\<And>j. j < c \<Longrightarrow> drop (group_begin (ip_groups p) (of_nat l)) (ip_grouped_ids p) ! j = batch_ids ix n ! (js ! j)"
    and "segment (ip_grouped_metadata p) (group_begin (ip_groups p) (of_nat l)) c = map ((!) (snd (op_encode ops n vectors))) js"
    and "segment (ip_grouped_codes p) (group_begin (ip_groups p) (of_nat l) * code_size ix) (c * code_size ix)
      = gather (code_size ix) (code_size ix) (fst (op_encode ops n vectors)) js"
    and "\<And>j. j < c \<Longrightarrow> segment (drop (group_begin (ip_groups p) (of_nat l) * xo_payload_bytes (ix_options ix)) (ip_grouped_payloads p))
        (j * xo_payload_bytes (ix_options ix)) (xo_payload_bytes (ix_options ix))
      = segment payloads (js ! j * payload_step ix stride) (xo_payload_bytes (ix_options ix))"
proof -
  let ?as = "op_assign ops n vectors" and ?pb = "xo_payload_bytes (ix_options ix)"
  let ?order = "stable_order ?as (length (ix_lists ix))"
  have len: "length ?as = n" and lists: "\<forall>a \<in> set ?as. unat a < length (ix_lists ix)"
    and enc: "length (fst (op_encode ops n vectors)) = n * code_size ix" "length (snd (op_encode ops n vectors)) = n"
    and pay: "\<forall>i < n. i * payload_step ix stride + ?pb \<le> length payloads"
    using args unfolding batch_args_ok_def by blast+
  have order: "length ?order = n" using length_stable_order [OF lists] len by simp
  have in_order: "set ?order \<subseteq> {..<n}" using set_stable_order [of ?as] len by simp
  have seg: "segment ?order (start_of ?as l) c = js" unfolding c_def js_def by (rule segment_stable_order [OF l])
  note simps = p_def planned_def Let_def grouped_plan_def
  have g: "group_begin (ip_groups p) (of_nat l) = start_of ?as l" "group_size (ip_groups p) (of_nat l) = c"
    using l unat_list_number [OF st l]
    by (simp_all add: simps group_begin_def group_size_def nth_append start_of_Suc c_def del: upt_Suc)
  have fit: "start_of ?as l + c \<le> n"
    using start_of_mono [of "Suc l" "length (ix_lists ix)" ?as] start_of_all [OF lists] l len by (simp add: start_of_Suc c_def)
  then show "c \<le> n" by simp
  show "group_size (ip_groups p) (of_nat l) = c" by (rule g(2))
  have js: "length js = c" by (simp add: js_def c_def)
  have nth: "?order ! (start_of ?as l + j) = js ! j" if "j < c" for j
    using that seg nth_segment [of j c "start_of ?as l" ?order] fit order by simp
  show lt: "js ! j < n" if "j < c" for j
    using nth_mem [of j js] that js len by (auto simp: js_def inputs_of_def)
  show ids: "ip_grouped_ids p ! (group_begin (ip_groups p) (of_nat l) + j) = batch_ids ix n ! (js ! j)" if "j < c" for j
    using that nth fit order unfolding g(1) by (simp add: simps)
  have "length (ip_grouped_ids p) = n" using order by (simp add: simps)
  then show "drop (group_begin (ip_groups p) (of_nat l)) (ip_grouped_ids p) ! j = batch_ids ix n ! (js ! j)" if "j < c" for j
    using ids [OF that] that fit g(1) by simp
  show "segment (ip_grouped_metadata p) (group_begin (ip_groups p) (of_nat l)) c = map ((!) (snd (op_encode ops n vectors))) js"
    unfolding g(1) using seg by (simp add: simps segment_map)
  have "readable (code_size ix) (code_size ix) (fst (op_encode ops n vectors)) ?order"
  proof -
    have "i * code_size ix + code_size ix \<le> n * code_size ix" if "i < n" for i
      using mult_le_mono1 [of "Suc i" n "code_size ix"] that by simp
    then show ?thesis using in_order enc by (auto simp: readable_def)
  qed
  from segment_gather [OF this, of "start_of ?as l" c] fit order seg
  show "segment (ip_grouped_codes p) (group_begin (ip_groups p) (of_nat l) * code_size ix) (c * code_size ix)
      = gather (code_size ix) (code_size ix) (fst (op_encode ops n vectors)) js"
    unfolding g(1) by (simp add: simps)
  have r: "readable (payload_step ix stride) ?pb payloads ?order" using in_order pay by (auto simp: readable_def)
  show "segment (drop (group_begin (ip_groups p) (of_nat l) * ?pb) (ip_grouped_payloads p)) (j * ?pb) ?pb
      = segment payloads (js ! j * payload_step ix stride) ?pb" if "j < c" for j
  proof -
    have "segment (drop (start_of ?as l * ?pb) (ip_grouped_payloads p)) (j * ?pb) ?pb
        = segment (ip_grouped_payloads p) ((start_of ?as l + j) * ?pb) ?pb"
      by (simp add: segment_def add.commute distrib_right)
    also have "\<dots> = segment payloads (?order ! (start_of ?as l + j) * payload_step ix stride) ?pb"
      using segment_gather_row [OF r, of "start_of ?as l + j"] that fit order by (simp add: simps)
    finally show ?thesis unfolding g(1) nth [OF that] .
  qed
qed

section \<open>Reserving\<close>

definition roomy :: "index_ops \<Rightarrow> list_index \<Rightarrow> (nat \<Rightarrow> nat) \<Rightarrow> bool" where
  "roomy ops ix c \<longleftrightarrow> (\<forall>l < length (ix_lists ix). 0 < c l \<longrightarrow> (\<exists>nb. nb \<le> 2 ^ 27 \<and> list_rows ix l + c l \<le> 32 * nb
    \<and> tiles_ok (op_pq4 ops) (ix_subquantizers ix) (ix_lists ix ! l) nb))"

text \<open>Two states of the resident lists that differ in empty capacity only.\<close>

definition same_rows :: "index_ops \<Rightarrow> list_index \<Rightarrow> memory_list list \<Rightarrow> bool" where
  "same_rows ops ix mls \<longleftrightarrow> length mls = length (ix_lists ix) \<and> (\<forall>l < length mls.
      ml_size (mls ! l) = ml_size (ix_lists ix ! l) \<and> posting_ok (op_pq4 ops) (ix_subquantizers ix) (mls ! l)
      \<and> (\<forall>i < list_rows ix l.
          row_code (op_pq4 ops) (ix_subquantizers ix) (mls ! l) i = row_code (op_pq4 ops) (ix_subquantizers ix) (ix_lists ix ! l) i
          \<and> row_metadata (mls ! l) i = row_metadata (ix_lists ix ! l) i))"

lemma touched_list:
  assumes "index_static ops ix" and "a \<in> set (touched_lists as (length (ix_lists ix)))"
  obtains l where "a = of_nat l" and "unat a = l" and "l < length (ix_lists ix)" and "0 < count_of as l"
proof -
  from assms(2) obtain l where l: "a = of_nat l" "l < length (ix_lists ix)" "0 < count_of as l"
    by (auto simp: touched_lists_def)
  from that [OF l(1) _ l(2,3)] show thesis unfolding l(1) using unat_list_number [OF assms(1) l(2)] by simp
qed

lemma touched_list_number:
  assumes "index_static ops ix" and "l < length (ix_lists ix)"
  shows "l \<in> unat ` set (touched_lists as (length (ix_lists ix))) \<longleftrightarrow> 0 < count_of as l"
proof
  assume "0 < count_of as l"
  then have "(of_nat l :: u32) \<in> set (touched_lists as (length (ix_lists ix)))" using assms(2) by (simp add: touched_lists_def)
  then have "unat (of_nat l :: u32) \<in> unat ` set (touched_lists as (length (ix_lists ix)))" by (rule imageI)
  then show "l \<in> unat ` set (touched_lists as (length (ix_lists ix)))" by (simp only: unat_list_number [OF assms])
next
  assume "l \<in> unat ` set (touched_lists as (length (ix_lists ix)))"
  then obtain a where a: "a \<in> set (touched_lists as (length (ix_lists ix)))" "l = unat a" by blast
  from a(1) show "0 < count_of as l" by (rule touched_list [OF assms(1)]) (simp add: a(2))
qed

lemma distinct_touched: "index_static ops ix \<Longrightarrow> distinct (touched_lists as (length (ix_lists ix)))"
  using unat_list_number [of ops ix] by (auto simp: touched_lists_def distinct_map inj_on_def) metis

lemma row_bound:
  assumes "lists_ok ops ix" and "batch_args_ok ops ix n vectors payloads stride" and "l < length (ix_lists ix)"
  shows "list_rows ix l + assigned ops n vectors l \<le> u32_max - 31"
proof -
  have "assigned ops n vectors l \<le> n"
    using assms(2) length_filter_le [of "\<lambda>a. unat a = l" "op_assign ops n vectors"] by (simp add: count_of_def batch_args_ok_def)
  then show ?thesis using assms(1,2) list_rows_le_active [OF assms(1,3)] by (auto simp: lists_ok_def batch_args_ok_def)
qed

lemma code_size_half: "code_size ix = ix_subquantizers ix div 2"
  by (simp add: code_size_def)

lemma reserve_all_ok:
  assumes st: "index_static ops ix" and ls: "lists_ok ops ix" and args: "batch_args_ok ops ix n vectors payloads stride"
    and g: "bp_touched g = touched_lists (op_assign ops n vectors) (length (ix_lists ix))"
      "\<And>l. l < length (ix_lists ix) \<Longrightarrow> group_size g (of_nat l) = assigned ops n vectors l"
  obtains mls where "each_list (\<lambda>l. reserve_list (op_pq4 ops) (ix_subquantizers ix) (code_size ix) (group_size g l))
      (bp_touched g) (ix_lists ix) = (Inr (), mls)"
    and "same_rows ops ix mls" and "roomy ops (ix\<lparr>ix_lists := mls\<rparr>) (assigned ops n vectors)"
proof -
  let ?as = "op_assign ops n vectors" and ?F = "op_pq4 ops" and ?M = "ix_subquantizers ix" and ?c = "assigned ops n vectors"
  let ?f = "\<lambda>l. reserve_list ?F ?M (code_size ix) (group_size g l)"
  have F: "faiss_pq4 ?F" and M: "dims_ok ?M" using st by (simp_all add: index_static_def)
  have po: "posting_ok ?F ?M (ix_lists ix ! l)" if "l < length (ix_lists ix)" for l
    using ls that by (simp add: lists_ok_def)
  have step: "\<exists>ml' nb. ?f (of_nat l) (ix_lists ix ! l) = (Inr (), ml') \<and> tiles_ok ?F ?M ml' nb \<and> list_rows ix l + ?c l \<le> 32 * nb
      \<and> nb \<le> 2 ^ 27 \<and> ml_size ml' = ml_size (ix_lists ix ! l) \<and> ml_padded ml' = ml_padded (ix_lists ix ! l)
      \<and> (\<forall>i < list_rows ix l. row_code ?F ?M ml' i = row_code ?F ?M (ix_lists ix ! l) i \<and> row_metadata ml' i = row_metadata (ix_lists ix ! l) i)"
    if l: "l < length (ix_lists ix)" "0 < ?c l" for l
  proof -
    have "unat (ml_size (ix_lists ix ! l)) + ?c l \<le> u32_max" using row_bound [OF ls args l(1)] by (simp add: list_rows_def)
    from reserve_list_ok [OF F M po [OF l(1)] l(2) this]
    show ?thesis unfolding g(2) [OF l(1)] code_size_half list_rows_def by metis
  qed
  have "\<exists>mls. each_list ?f (bp_touched g) (ix_lists ix) = (Inr (), mls) \<and> length mls = length (ix_lists ix)
      \<and> (\<forall>l \<in> set (bp_touched g). ?f l (ix_lists ix ! unat l) = (Inr (), mls ! unat l))
      \<and> (\<forall>k. k \<notin> unat ` set (bp_touched g) \<longrightarrow> mls ! k = ix_lists ix ! k)"
  proof (rule each_list_ok)
    show "distinct (bp_touched g)" unfolding g(1) by (rule distinct_touched [OF st])
    show "\<forall>l \<in> set (bp_touched g). unat l < length (ix_lists ix) \<and> (\<exists>ml. ?f l (ix_lists ix ! unat l) = (Inr (), ml))"
      unfolding g(1) using step touched_list [OF st] by metis
  qed
  then obtain mls where mls: "each_list ?f (bp_touched g) (ix_lists ix) = (Inr (), mls)" "length mls = length (ix_lists ix)"
    "\<And>l. l \<in> set (bp_touched g) \<Longrightarrow> ?f l (ix_lists ix ! unat l) = (Inr (), mls ! unat l)"
    "\<And>k. k \<notin> unat ` set (bp_touched g) \<Longrightarrow> mls ! k = ix_lists ix ! k" by blast
  have touched: "?f (of_nat l) (ix_lists ix ! l) = (Inr (), mls ! l)" if "l < length (ix_lists ix)" "0 < ?c l" for l
  proof -
    have "(of_nat l :: u32) \<in> set (bp_touched g)" using that unfolding g(1) by (simp add: touched_lists_def)
    from mls(3) [OF this] show ?thesis by (simp only: unat_list_number [OF st that(1)])
  qed
  have same: "mls ! l = ix_lists ix ! l" if "l < length (ix_lists ix)" "?c l = 0" for l
    using mls(4) [of l] that touched_list_number [OF st that(1), of ?as] unfolding g(1) by simp
  show thesis
  proof (rule that [OF mls(1)])
    have "ml_size (mls ! l) = ml_size (ix_lists ix ! l) \<and> posting_ok ?F ?M (mls ! l)
        \<and> (\<forall>i < list_rows ix l. row_code ?F ?M (mls ! l) i = row_code ?F ?M (ix_lists ix ! l) i \<and> row_metadata (mls ! l) i = row_metadata (ix_lists ix ! l) i)"
      if l: "l < length (ix_lists ix)" for l
    proof (cases "0 < ?c l")
      case True
      from step [OF l True] touched [OF l True] show ?thesis using po [OF l] by (auto simp: posting_ok_def)
    next
      case False
      then show ?thesis using same [OF l] po [OF l] by simp
    qed
    then show "same_rows ops ix mls" by (simp add: same_rows_def mls(2))
    show "roomy ops (ix\<lparr>ix_lists := mls\<rparr>) ?c"
      unfolding roomy_def
    proof (intro allI impI)
      fix l assume l: "l < length (ix_lists (ix\<lparr>ix_lists := mls\<rparr>))" "0 < ?c l"
      then have "l < length (ix_lists ix)" using mls(2) by simp
      from step [OF this l(2)] touched [OF this l(2)]
      show "\<exists>nb. nb \<le> 2 ^ 27 \<and> list_rows (ix\<lparr>ix_lists := mls\<rparr>) l + ?c l \<le> 32 * nb
          \<and> tiles_ok ?F (ix_subquantizers (ix\<lparr>ix_lists := mls\<rparr>)) (ix_lists (ix\<lparr>ix_lists := mls\<rparr>) ! l) nb"
        by (auto simp: list_rows_def)
    qed
  qed
qed

end
