(* ===== verification/List_Index_Landed.thy ===== *)
theory List_Index_Landed
  imports List_Index_Plan
begin

text \<open>
  Insertion into the external index. A successful batch adds its ids to the abstract map and keeps
  the invariant; a batch that throws, at any point and under any outcome of the file operations,
  leaves the abstract map as it was.
\<close>

section \<open>The list files\<close>

text \<open>What a plan appends to list \<open>l\<close>.\<close>

definition rows_appended :: "list_index \<Rightarrow> insert_plan \<Rightarrow> (nat \<Rightarrow> nat) \<Rightarrow> disk \<Rightarrow> nat \<Rightarrow> bool" where
  "rows_appended ix p c d l \<longleftrightarrow>
    length (list_content ix d l) = page_count (list_rows ix l + c l) (st_per_page (ix_store ix)) * page_size (ix_store ix)
    \<and> (\<forall>j < c l. record_at (ix_store ix) (list_content ix d l) (list_rows ix l + j)
        = record_bytes (ix_store ix) (drop (group_begin (ip_groups p) (of_nat l)) (ip_grouped_ids p))
            (drop (group_begin (ip_groups p) (of_nat l) * xo_payload_bytes (ix_options ix)) (ip_grouped_payloads p))
            (xo_payload_bytes (ix_options ix)) j)"

definition list_kept :: "list_index \<Rightarrow> disk \<Rightarrow> disk \<Rightarrow> nat \<Rightarrow> bool" where
  "list_kept ix d d' l \<longleftrightarrow> rows_kept (ix_store ix) (list_rows ix l) (list_content ix d l) (list_content ix d' l)"

definition payloads_planned :: "list_index \<Rightarrow> insert_plan \<Rightarrow> (nat \<Rightarrow> nat) \<Rightarrow> nat \<Rightarrow> bool" where
  "payloads_planned ix p c l \<longleftrightarrow> group_size (ip_groups p) (of_nat l) = c l \<and> 0 < c l \<and> list_rows ix l + c l \<le> u32_max
    \<and> (\<forall>j < c l. length (segment (drop (group_begin (ip_groups p) (of_nat l) * xo_payload_bytes (ix_options ix)) (ip_grouped_payloads p))
          (j * xo_payload_bytes (ix_options ix)) (xo_payload_bytes (ix_options ix))) = xo_payload_bytes (ix_options ix))"

lemma append_file_result:
  assumes st: "index_static ops ix" and l: "l < length (ix_lists ix)" and pl: "payloads_planned ix p c l"
    and fits: "page_count (list_rows ix l) (st_per_page (ix_store ix)) * page_size (ix_store ix) \<le> length (list_content ix d l)"
    and run: "append_file ix p (of_nat l) () d = (r, d')"
  shows "files_kept (file_of ix l) d d' \<and> list_kept ix d d' l \<and> (r = Inr () \<longrightarrow> rows_appended ix p c d' l)
    \<and> (benign d \<and> page_size (ix_store ix) dvd length (list_content ix d l) \<longrightarrow> r = Inr () \<and> benign d')"
proof -
  have ok: "store_ok (ix_store ix)" and pb: "payload_bytes (ix_store ix) = xo_payload_bytes (ix_options ix)"
    using st by (simp_all add: index_static_def)
  have c: "0 < c l" "unat (ml_size (ix_lists ix ! l)) + c l \<le> u32_max" "group_size (ip_groups p) (of_nat l) = c l"
    using pl by (simp_all add: payloads_planned_def list_rows_def)
  have pay: "\<forall>j < c l. length (segment (drop (group_begin (ip_groups p) (of_nat l) * xo_payload_bytes (ix_options ix)) (ip_grouped_payloads p))
      (j * xo_payload_bytes (ix_options ix)) (payload_bytes (ix_store ix))) = payload_bytes (ix_store ix)"
    using pl unfolding pb by (simp add: payloads_planned_def)
  have run': "append_records (ix_store ix) (of_nat l) (ml_size (ix_lists ix ! l))
      (Some (drop (group_begin (ip_groups p) (of_nat l)) (ip_grouped_ids p)))
      (Some (drop (group_begin (ip_groups p) (of_nat l) * xo_payload_bytes (ix_options ix)) (ip_grouped_payloads p)))
      (xo_payload_bytes (ix_options ix)) (c l) d = (r, d')"
    using run by (simp add: append_file_def unat_list_number [OF st l] c(3))
  from append_records_result [OF ok file_of_path [OF st l] c(1,2) _ pay _ run'] fits pb
  show ?thesis by (simp add: list_kept_def rows_appended_def list_rows_def)
qed

lemma rows_kept_refl: "page_count n (st_per_page st) * page_size st \<le> length f \<Longrightarrow> rows_kept st n f f"
  by (simp add: rows_kept_def)

lemma append_files_result:
  assumes st: "index_static ops ix" and "distinct ks" and "\<forall>l \<in> set ks. l < length (ix_lists ix) \<and> payloads_planned ix p c l
      \<and> page_count (list_rows ix l) (st_per_page (ix_store ix)) * page_size (ix_store ix) \<le> length (list_content ix d l)"
    and "io_fold (append_file ix p) (map of_nat ks) () d = (r, d')"
  shows "(\<forall>q. q \<notin> file_of ix ` set ks \<longrightarrow> files d' q = files d q) \<and> (\<forall>q. files d q \<noteq> None \<longrightarrow> files d' q \<noteq> None)
    \<and> (\<forall>l \<in> set ks. list_kept ix d d' l) \<and> (r = Inr () \<longrightarrow> (\<forall>l \<in> set ks. rows_appended ix p c d' l))
    \<and> (benign d \<and> (\<forall>l \<in> set ks. page_size (ix_store ix) dvd length (list_content ix d l)) \<longrightarrow> r = Inr () \<and> benign d')"
  using assms(2-)
proof (induction ks arbitrary: d)
  case (Cons k ks)
  have k: "k < length (ix_lists ix)" "payloads_planned ix p c k"
    "page_count (list_rows ix k) (st_per_page (ix_store ix)) * page_size (ix_store ix) \<le> length (list_content ix d k)"
    using Cons.prems(2) by simp_all
  obtain q d1 where q: "append_file ix p (of_nat k) () d = (q, d1)" by fastforce
  note one = append_file_result [OF st k q]
  have other: "files d1 (file_of ix l) = files d (file_of ix l)" if "l \<in> set ks" for l
  proof -
    have "file_of ix l \<noteq> file_of ix k" using that Cons.prems(1,2) by (intro files_distinct [OF st]) auto
    then show ?thesis using one by (simp add: files_kept_def)
  qed
  then have c1: "list_content ix d1 l = list_content ix d l" if "l \<in> set ks" for l using that by (simp add: content_def)
  have k_out: "file_of ix k \<notin> file_of ix ` set ks"
  proof
    assume "file_of ix k \<in> file_of ix ` set ks"
    then obtain l where "l \<in> set ks" "file_of ix k = file_of ix l" by blast
    then show False using files_distinct [OF st k(1), of l] Cons.prems(1,2) by auto
  qed
  have some: "\<forall>q. files d q \<noteq> None \<longrightarrow> files d1 q \<noteq> None" using one unfolding files_kept_def by metis
  show ?case
  proof (cases q)
    case (Inl e)
    then have "d' = d1" "r = Inl e" using Cons.prems(3) q by (simp_all add: io_bind_def)
    moreover have "list_kept ix d d1 l" if "l \<in> set ks" for l
      using that Cons.prems(2) c1 by (simp add: list_kept_def rows_kept_refl)
    ultimately show ?thesis using one Inl some by (auto simp: files_kept_def simp del: not_None_eq)
  next
    case (Inr u)
    then have tl: "io_fold (append_file ix p) (map of_nat ks) () d1 = (r, d')" using Cons.prems(3) q by (simp add: io_bind_def)
    have pre: "\<forall>l \<in> set ks. l < length (ix_lists ix) \<and> payloads_planned ix p c l
      \<and> page_count (list_rows ix l) (st_per_page (ix_store ix)) * page_size (ix_store ix) \<le> length (list_content ix d1 l)"
      using Cons.prems(2) c1 by simp
    have ih: "(\<forall>q. q \<notin> file_of ix ` set ks \<longrightarrow> files d' q = files d1 q) \<and> (\<forall>q. files d1 q \<noteq> None \<longrightarrow> files d' q \<noteq> None)
      \<and> (\<forall>l \<in> set ks. list_kept ix d1 d' l) \<and> (r = Inr () \<longrightarrow> (\<forall>l \<in> set ks. rows_appended ix p c d' l))
      \<and> (benign d1 \<and> (\<forall>l \<in> set ks. page_size (ix_store ix) dvd length (list_content ix d1 l)) \<longrightarrow> r = Inr () \<and> benign d')"
      using Cons.prems(1) by (intro Cons.IH [OF _ pre tl]) simp
    have ck: "list_content ix d' k = list_content ix d1 k" using ih k_out by (simp add: content_def)
    have "list_kept ix d d' k" "q = Inr () \<longrightarrow> rows_appended ix p c d' k"
      using one by (simp_all add: list_kept_def rows_appended_def ck)
    moreover have "\<forall>l \<in> set ks. list_kept ix d d' l" using ih c1 by (simp add: list_kept_def)
    moreover have "\<forall>q. q \<notin> file_of ix ` set (k # ks) \<longrightarrow> files d' q = files d q" using ih one by (simp add: files_kept_def)
    moreover have "\<forall>q. files d q \<noteq> None \<longrightarrow> files d' q \<noteq> None" using ih some by blast
    moreover have "benign d \<and> (\<forall>l \<in> set (k # ks). page_size (ix_store ix) dvd length (list_content ix d l)) \<longrightarrow> r = Inr () \<and> benign d'"
      using ih one c1 by simp
    ultimately show ?thesis using ih Inr by auto
  qed
qed auto

section \<open>The state after a commit\<close>

definition new_entry :: "index_ops \<Rightarrow> list_index \<Rightarrow> nat \<Rightarrow> f32 list \<Rightarrow> bytes \<Rightarrow> nat \<Rightarrow> nat \<Rightarrow> entry" where
  "new_entry ops ix n vectors payloads stride k =
    (segment payloads (k * payload_step ix stride) (xo_payload_bytes (ix_options ix)),
     map (flat_code (fst (op_encode ops n vectors)) (code_size ix) k) [0..<ix_subquantizers ix],
     snd (op_encode ops n vectors) ! k)"

text \<open>Row \<open>rows + j\<close> of a list is input \<open>j\<close> of that list; earlier rows and entries are kept.\<close>

definition list_landed :: "index_ops \<Rightarrow> list_index \<Rightarrow> nat \<Rightarrow> f32 list \<Rightarrow> memory_list list \<Rightarrow> nat \<Rightarrow> bool" where
  "list_landed ops ix n vectors mls l \<longleftrightarrow> posting_ok (op_pq4 ops) (ix_subquantizers ix) (mls ! l)
    \<and> unat (ml_size (mls ! l)) = list_rows ix l + assigned ops n vectors l
    \<and> (\<forall>i < list_rows ix l.
        row_code (op_pq4 ops) (ix_subquantizers ix) (mls ! l) i = row_code (op_pq4 ops) (ix_subquantizers ix) (ix_lists ix ! l) i
        \<and> row_metadata (mls ! l) i = row_metadata (ix_lists ix ! l) i)
    \<and> (\<forall>j < assigned ops n vectors l.
        row_code (op_pq4 ops) (ix_subquantizers ix) (mls ! l) (list_rows ix l + j)
          = map (flat_code (fst (op_encode ops n vectors)) (code_size ix) (inputs ops n vectors l ! j)) [0..<ix_subquantizers ix]
        \<and> row_metadata (mls ! l) (list_rows ix l + j) = snd (op_encode ops n vectors) ! (inputs ops n vectors l ! j))"

definition file_landed :: "index_ops \<Rightarrow> list_index \<Rightarrow> nat \<Rightarrow> f32 list \<Rightarrow> bytes \<Rightarrow> nat \<Rightarrow> disk \<Rightarrow> disk \<Rightarrow> nat \<Rightarrow> bool" where
  "file_landed ops ix n vectors payloads stride d d' l \<longleftrightarrow>
    length (list_content ix d' l)
      = page_count (list_rows ix l + assigned ops n vectors l) (st_per_page (ix_store ix)) * page_size (ix_store ix)
    \<and> list_kept ix d d' l
    \<and> (\<forall>j < assigned ops n vectors l. record_at (ix_store ix) (list_content ix d' l) (list_rows ix l + j)
        = le32 (batch_ids ix n ! (inputs ops n vectors l ! j))
          @ segment payloads (inputs ops n vectors l ! j * payload_step ix stride) (xo_payload_bytes (ix_options ix)))"

definition dir_kept :: "list_index \<Rightarrow> disk \<Rightarrow> disk \<Rightarrow> bool" where
  "dir_kept ix d d' \<longleftrightarrow> (\<forall>i. unat i < ix_next_id ix \<longrightarrow> dir_has (dir_content ix d') i
      \<and> dir_lookup (dir_content ix d') i = dir_lookup (dir_content ix d) i)"

definition dir_landed :: "index_ops \<Rightarrow> list_index \<Rightarrow> nat \<Rightarrow> f32 list \<Rightarrow> disk \<Rightarrow> disk \<Rightarrow> bool" where
  "dir_landed ops ix n vectors d d' \<longleftrightarrow> dir_page_size (ix_directory ix) dvd length (dir_content ix d') \<and> dir_kept ix d d'
    \<and> (\<forall>l < length (ix_lists ix). \<forall>j < assigned ops n vectors l.
        dir_has (dir_content ix d') (batch_ids ix n ! (inputs ops n vectors l ! j))
        \<and> dir_lookup (dir_content ix d') (batch_ids ix n ! (inputs ops n vectors l ! j))
          = \<lparr>dl_list = of_nat l, dl_offset = of_nat (list_rows ix l + j)\<rparr>)"

lemma batch_id:
  assumes "batch_args_ok ops ix n vectors payloads stride" and "k < n"
  shows "unat (batch_ids ix n ! k) = ix_next_id ix + k"
proof -
  have "ix_next_id ix + k \<le> u32_max" using assms by (auto simp: batch_args_ok_def)
  then show ?thesis using assms(2) unat_u32_of_nat [of "ix_next_id ix + k"] by (simp add: batch_ids_def)
qed

lemma assigned_input:
  assumes args: "batch_args_ok ops ix n vectors payloads stride" and "k < n"
  obtains l j where "l < length (ix_lists ix)" and "j < assigned ops n vectors l" and "inputs ops n vectors l ! j = k"
proof -
  let ?as = "op_assign ops n vectors"
  have len: "length ?as = n" and lists: "\<forall>a \<in> set ?as. unat a < length (ix_lists ix)"
    using args unfolding batch_args_ok_def by blast+
  have "k \<in> set (inputs_of ?as (unat (?as ! k)))" using assms(2) len by (simp add: inputs_of_def)
  then obtain j where "j < length (inputs_of ?as (unat (?as ! k)))" "inputs_of ?as (unat (?as ! k)) ! j = k"
    by (metis in_set_conv_nth)
  moreover have "unat (?as ! k) < length (ix_lists ix)" using lists assms(2) len by simp
  ultimately show thesis using that by simp
qed

lemma new_id:
  assumes args: "batch_args_ok ops ix n vectors payloads stride" and "ix_next_id ix \<le> unat i" and "unat i < ix_next_id ix + n"
  obtains l j where "l < length (ix_lists ix)" and "j < assigned ops n vectors l"
    and "inputs ops n vectors l ! j = unat i - ix_next_id ix" and "batch_ids ix n ! (inputs ops n vectors l ! j) = i"
proof -
  have k: "unat i - ix_next_id ix < n" using assms(2,3) by simp
  have "unat (batch_ids ix n ! (unat i - ix_next_id ix)) = unat i" using batch_id [OF args k] assms(2) by simp
  then have i: "batch_ids ix n ! (unat i - ix_next_id ix) = i" by (simp add: word_unat_eq_iff)
  obtain l j where "l < length (ix_lists ix)" "j < assigned ops n vectors l" "inputs ops n vectors l ! j = unat i - ix_next_id ix"
    by (rule assigned_input [OF args k])
  with that i show thesis by simp
qed

definition landed :: "index_ops \<Rightarrow> list_index \<Rightarrow> nat \<Rightarrow> f32 list \<Rightarrow> bytes \<Rightarrow> nat \<Rightarrow> memory_list list \<Rightarrow> disk \<Rightarrow> disk \<Rightarrow> bool" where
  "landed ops ix n vectors payloads stride mls d d' \<longleftrightarrow> length mls = length (ix_lists ix)
    \<and> (\<forall>l < length mls. list_landed ops ix n vectors mls l \<and> file_landed ops ix n vectors payloads stride d d' l)
    \<and> dir_landed ops ix n vectors d d'"

definition committed :: "list_index \<Rightarrow> nat \<Rightarrow> memory_list list \<Rightarrow> list_index" where
  "committed ix n mls = ix\<lparr>ix_lists := mls, ix_next_id := ix_next_id ix + n, ix_active := ix_active ix + n\<rparr>"

lemma committed_simps [simp]:
  "ix_lists (committed ix n mls) = mls" "ix_next_id (committed ix n mls) = ix_next_id ix + n"
  "ix_active (committed ix n mls) = ix_active ix + n" "ix_store (committed ix n mls) = ix_store ix"
  "ix_directory (committed ix n mls) = ix_directory ix" "ix_quantizer (committed ix n mls) = ix_quantizer ix"
  "ix_options (committed ix n mls) = ix_options ix" "ix_trained (committed ix n mls) = ix_trained ix"
  "file_of (committed ix n mls) = file_of ix"
  by (simp_all add: committed_def file_of_def fun_eq_iff)

lemma record_at_row_id: "row_id st f i = of_le32 (take 4 (record_at st f i))"
  by (simp add: row_id_def)

lemma row_id_kept: "list_kept ix d d' l \<Longrightarrow> i < list_rows ix l \<Longrightarrow>
    row_id (ix_store ix) (list_content ix d' l) i = row_id (ix_store ix) (list_content ix d l) i"
  by (simp add: list_kept_def rows_kept_def row_id_def)

lemma row_id_landed:
  "file_landed ops ix n vectors payloads stride d d' l \<Longrightarrow> j < assigned ops n vectors l \<Longrightarrow>
    row_id (ix_store ix) (list_content ix d' l) (list_rows ix l + j) = batch_ids ix n ! (inputs ops n vectors l ! j)"
  by (simp add: file_landed_def row_id_def)

lemma landed_rows:
  assumes "landed ops ix n vectors payloads stride mls d d'" and "l < length (ix_lists ix)"
  shows "list_rows (committed ix n mls) l = list_rows ix l + assigned ops n vectors l"
  using assms by (simp add: landed_def list_landed_def list_rows_def)

lemma landed_lists_ok:
  assumes ls: "lists_ok ops ix" and args: "batch_args_ok ops ix n vectors payloads stride"
    and la: "landed ops ix n vectors payloads stride mls d d'"
  shows "lists_ok ops (committed ix n mls)"
proof -
  let ?c = "assigned ops n vectors"
  have len: "length mls = length (ix_lists ix)" using la by (simp add: landed_def)
  have "start_of (op_assign ops n vectors) (length (ix_lists ix)) = n"
    using args start_of_all [of "op_assign ops n vectors" "length (ix_lists ix)"] by (simp add: batch_args_ok_def)
  then have "(\<Sum>l<length mls. list_rows (committed ix n mls) l) = (\<Sum>l<length (ix_lists ix). list_rows ix l) + n"
    using landed_rows [OF la] by (simp add: len sum.distrib start_of_def)
  moreover have "\<forall>ml \<in> set mls. posting_ok (op_pq4 ops) (ix_subquantizers ix) ml"
    using la by (auto simp: landed_def list_landed_def in_set_conv_nth)
  moreover have "ix_next_id ix + n \<le> u32_max" using args unfolding batch_args_ok_def by linarith
  ultimately show ?thesis using ls by (simp add: lists_ok_def)
qed

lemma landed_old_location:
  assumes ix: "index_ok ops ix d" and la: "landed ops ix n vectors payloads stride mls d d'"
    and i: "unat i < ix_next_id ix" and act: "location_active (dir_lookup (dir_content ix d) i)"
  defines "l \<equiv> unat (dl_list (dir_lookup (dir_content ix d) i))"
    and "off \<equiv> unat (dl_offset (dir_lookup (dir_content ix d) i))"
  shows "l < length (ix_lists ix)" and "off < list_rows ix l"
    and "row_id (ix_store ix) (list_content ix d' l) off = i"
    and "entry_at ops (committed ix n mls) d' l off = entry_at ops ix d l off"
proof -
  have loc: "l < length (ix_lists ix)" "off < list_rows ix l" "row_id (ix_store ix) (list_content ix d l) off = i"
    using ix i act unfolding index_ok_def ids_located_def l_def off_def Let_def by blast+
  show "l < length (ix_lists ix)" "off < list_rows ix l" by (rule loc)+
  have "list_kept ix d d' l" "list_landed ops ix n vectors mls l"
    using la loc(1) by (simp_all add: landed_def file_landed_def)
  note kept = this
  show "row_id (ix_store ix) (list_content ix d' l) off = i" using row_id_kept [OF kept(1) loc(2)] loc(3) by simp
  show "entry_at ops (committed ix n mls) d' l off = entry_at ops ix d l off"
    using kept loc(2) by (simp add: entry_at_def list_kept_def rows_kept_def list_landed_def)
qed

lemma landed_rows_located:
  assumes ix: "index_ok ops ix d" and args: "batch_args_ok ops ix n vectors payloads stride"
    and la: "landed ops ix n vectors payloads stride mls d d'"
  shows "rows_located (committed ix n mls) d'"
  unfolding rows_located_def
proof (intro allI impI)
  fix l i assume l': "l < length (ix_lists (committed ix n mls))" and i: "i < list_rows (committed ix n mls) l"
  have l: "l < length (ix_lists ix)" using l' la by (simp add: landed_def)
  have fl: "file_landed ops ix n vectors payloads stride d d' l" "list_kept ix d d' l"
    using la l by (simp_all add: landed_def file_landed_def)
  let ?id = "row_id (ix_store ix) (list_content ix d' l) i"
  show "unat (row_id (ix_store (committed ix n mls)) (list_content (committed ix n mls) d' l) i) < ix_next_id (committed ix n mls)
      \<and> dir_lookup (dir_content (committed ix n mls) d') (row_id (ix_store (committed ix n mls)) (list_content (committed ix n mls) d' l) i)
        = \<lparr>dl_list = of_nat l, dl_offset = of_nat i\<rparr>"
  proof (cases "i < list_rows ix l")
    case True
    have "unat ?id < ix_next_id ix \<and> dir_lookup (dir_content ix d) ?id = \<lparr>dl_list = of_nat l, dl_offset = of_nat i\<rparr>"
      using ix l True unfolding row_id_kept [OF fl(2) True] by (simp add: index_ok_def rows_located_def)
    then show ?thesis using la by (simp add: landed_def dir_landed_def dir_kept_def)
  next
    case False
    define j where "j = i - list_rows ix l"
    have j: "j < assigned ops n vectors l" "i = list_rows ix l + j"
      using False i landed_rows [OF la l] by (simp_all add: j_def)
    have id: "?id = batch_ids ix n ! (inputs ops n vectors l ! j)" unfolding j(2) by (rule row_id_landed [OF fl(1) j(1)])
    have "inputs ops n vectors l ! j < n"
      using plan_slices(3) [OF _ args l] ix j(1) by (simp add: index_ok_def)
    then have "unat ?id < ix_next_id ix + n" unfolding id using batch_id [OF args] by simp
    moreover have "dir_lookup (dir_content ix d') ?id = \<lparr>dl_list = of_nat l, dl_offset = of_nat i\<rparr>"
      unfolding id unfolding j(2) using la l j(1) by (simp add: landed_def dir_landed_def)
    ultimately show ?thesis by simp
  qed
qed

lemma list_offset:
  assumes "index_static ops ix" and "lists_ok ops ix" and "batch_args_ok ops ix n vectors payloads stride"
    and "l < length (ix_lists ix)" and "j < assigned ops n vectors l"
  shows "unat (of_nat (list_rows ix l + j) :: u32) = list_rows ix l + j"
    and "location_active \<lparr>dl_list = of_nat l, dl_offset = of_nat (list_rows ix l + j)\<rparr>"
proof -
  have "list_rows ix l + j < u32_max" using row_bound [OF assms(2,3,4)] assms(5) by (simp add: u32_max_def)
  then show off: "unat (of_nat (list_rows ix l + j) :: u32) = list_rows ix l + j" by (intro unat_u32_of_nat) simp
  have l: "unat (of_nat l :: u32) < u32_max"
    using unat_list_number [OF assms(1,4)] assms(1,4) by (simp add: index_static_def)
  have m: "unat (- 1 :: u32) = u32_max" by (simp add: u32_max_def unat_word_ariths unat_eq_nat_uint uint_word_ariths)
  have "(of_nat l :: u32) \<noteq> - 1" using l m by (metis less_irrefl)
  moreover have "(of_nat (list_rows ix l + j) :: u32) \<noteq> - 1"
    using off m \<open>list_rows ix l + j < u32_max\<close> by (metis less_irrefl)
  ultimately show "location_active \<lparr>dl_list = of_nat l, dl_offset = of_nat (list_rows ix l + j)\<rparr>"
    by (simp add: location_active_def)
qed

lemma landed_new_location:
  assumes ix: "index_ok ops ix d" and args: "batch_args_ok ops ix n vectors payloads stride"
    and la: "landed ops ix n vectors payloads stride mls d d'"
    and i: "ix_next_id ix \<le> unat i" "unat i < ix_next_id ix + n"
  defines "loc \<equiv> dir_lookup (dir_content ix d') i"
  shows "dir_has (dir_content ix d') i" and "location_active loc" and "unat (dl_list loc) < length mls"
    and "unat (dl_offset loc) < list_rows (committed ix n mls) (unat (dl_list loc))"
    and "row_id (ix_store ix) (list_content ix d' (unat (dl_list loc))) (unat (dl_offset loc)) = i"
    and "entry_at ops (committed ix n mls) d' (unat (dl_list loc)) (unat (dl_offset loc))
      = new_entry ops ix n vectors payloads stride (unat i - ix_next_id ix)"
proof -
  have st: "index_static ops ix" and ls: "lists_ok ops ix" using ix by (simp_all add: index_ok_def)
  obtain l j where lj: "l < length (ix_lists ix)" "j < assigned ops n vectors l"
      "inputs ops n vectors l ! j = unat i - ix_next_id ix" "batch_ids ix n ! (inputs ops n vectors l ! j) = i"
    by (rule new_id [OF args i])
  have dl: "dir_has (dir_content ix d') i" "loc = \<lparr>dl_list = of_nat l, dl_offset = of_nat (list_rows ix l + j)\<rparr>"
    using la lj(1,2) unfolding landed_def dir_landed_def loc_def lj(4) [symmetric] by blast+
  note off = list_offset [OF st ls args lj(1,2)]
  have nums: "unat (dl_list loc) = l" "unat (dl_offset loc) = list_rows ix l + j"
    unfolding dl(2) using unat_list_number [OF st lj(1)] off(1) by simp_all
  have fl: "file_landed ops ix n vectors payloads stride d d' l" and ll: "list_landed ops ix n vectors mls l"
    using la lj(1) by (simp_all add: landed_def)
  show "dir_has (dir_content ix d') i" by (rule dl(1))
  show "location_active loc" unfolding dl(2) by (rule off(2))
  show "unat (dl_list loc) < length mls" using la lj(1) by (simp add: landed_def nums)
  show "unat (dl_offset loc) < list_rows (committed ix n mls) (unat (dl_list loc))"
    unfolding nums using landed_rows [OF la lj(1)] lj(2) by simp
  show "row_id (ix_store ix) (list_content ix d' (unat (dl_list loc))) (unat (dl_offset loc)) = i"
    unfolding nums using row_id_landed [OF fl lj(2)] lj(4) by simp
  show "entry_at ops (committed ix n mls) d' (unat (dl_list loc)) (unat (dl_offset loc))
      = new_entry ops ix n vectors payloads stride (unat i - ix_next_id ix)"
    unfolding nums entry_at_def new_entry_def lj(3) [symmetric]
    using fl ll lj(2) by (simp add: file_landed_def list_landed_def)
qed

lemma landed_ids_located:
  assumes ix: "index_ok ops ix d" and args: "batch_args_ok ops ix n vectors payloads stride"
    and la: "landed ops ix n vectors payloads stride mls d d'"
  shows "ids_located (committed ix n mls) d'"
  unfolding ids_located_def Let_def
proof (intro allI impI)
  fix i :: u32 assume i: "unat i < ix_next_id (committed ix n mls)"
  have len: "length mls = length (ix_lists ix)" using la by (simp add: landed_def)
  show "dir_has (dir_content (committed ix n mls) d') i
    \<and> (location_active (dir_lookup (dir_content (committed ix n mls) d') i) \<longrightarrow>
      unat (dl_list (dir_lookup (dir_content (committed ix n mls) d') i)) < length (ix_lists (committed ix n mls))
      \<and> unat (dl_offset (dir_lookup (dir_content (committed ix n mls) d') i))
          < list_rows (committed ix n mls) (unat (dl_list (dir_lookup (dir_content (committed ix n mls) d') i)))
      \<and> row_id (ix_store (committed ix n mls)) (list_content (committed ix n mls) d'
            (unat (dl_list (dir_lookup (dir_content (committed ix n mls) d') i))))
          (unat (dl_offset (dir_lookup (dir_content (committed ix n mls) d') i))) = i)"
  proof (cases "unat i < ix_next_id ix")
    case True
    then have "dir_has (dir_content ix d') i" "dir_lookup (dir_content ix d') i = dir_lookup (dir_content ix d) i"
      using la by (simp_all add: landed_def dir_landed_def dir_kept_def)
    note d = this
    show ?thesis
    proof (cases "location_active (dir_lookup (dir_content ix d) i)")
      case act: True
      note o = landed_old_location [OF ix la True act]
      show ?thesis using o(1-3) landed_rows [OF la o(1)] d(1) by (simp add: d(2) len)
    next
      case False
      then show ?thesis using d by simp
    qed
  next
    case False
    then have "ix_next_id ix \<le> unat i" "unat i < ix_next_id ix + n" using i by simp_all
    note n = landed_new_location [OF ix args la this]
    show ?thesis using n(1,3,4,5) by simp
  qed
qed

text \<open>The state after a commit is well formed and its abstract map has exactly the new ids.\<close>

lemma landed_index_ok:
  assumes ix: "index_ok ops ix d" and args: "batch_args_ok ops ix n vectors payloads stride"
    and la: "landed ops ix n vectors payloads stride mls d d'"
  shows "index_ok ops (committed ix n mls) d'"
proof -
  have len: "length mls = length (ix_lists ix)" using la by (simp add: landed_def)
  have "index_static ops (committed ix n mls)" using ix len by (simp add: index_ok_def index_static_def)
  moreover have "lists_ok ops (committed ix n mls)" using landed_lists_ok [OF _ args la] ix by (simp add: index_ok_def)
  moreover have "files_ok (committed ix n mls) d'"
    using la landed_rows [OF la] by (auto simp: files_ok_def landed_def dir_landed_def file_landed_def)
  ultimately show ?thesis
    using landed_rows_located [OF ix args la] landed_ids_located [OF ix args la] by (simp add: index_ok_def)
qed

lemma landed_lookup:
  assumes ix: "index_ok ops ix d" and args: "batch_args_ok ops ix n vectors payloads stride"
    and la: "landed ops ix n vectors payloads stride mls d d'"
  shows "index_lookup ops (committed ix n mls) d' i
    = (if ix_next_id ix \<le> unat i \<and> unat i < ix_next_id ix + n
       then Some (new_entry ops ix n vectors payloads stride (unat i - ix_next_id ix))
       else index_lookup ops ix d i)"
proof (cases "unat i < ix_next_id ix")
  case True
  then have d: "dir_lookup (dir_content ix d') i = dir_lookup (dir_content ix d) i"
    using la by (simp add: landed_def dir_landed_def dir_kept_def)
  show ?thesis
    using True landed_old_location(4) [OF ix la True] by (simp add: index_lookup_def Let_def d)
next
  case False
  show ?thesis
  proof (cases "unat i < ix_next_id ix + n")
    case True
    then have "ix_next_id ix \<le> unat i" "unat i < ix_next_id ix + n" using False by simp_all
    note n = landed_new_location [OF ix args la this]
    show ?thesis using n(2,6) False True by (simp add: index_lookup_def Let_def)
  next
    case F: False
    then show ?thesis using False by (simp add: index_lookup_def Let_def)
  qed
qed

end
