(* ===== verification/List_Index_Insert.thy ===== *)
theory List_Index_Insert
  imports List_Index_Landed Scan_Correct
begin

text \<open>
  Insertion into the external index. A successful batch adds its ids to the abstract map and keeps
  the invariant; a batch that throws, at any point and under any outcome of the file operations,
  leaves the abstract map as it was.
\<close>

section \<open>The directory batch\<close>

lemma updates_planned:
  assumes st: "index_static ops ix" and args: "batch_args_ok ops ix n vectors payloads stride"
  shows "u \<in> set (insert_updates ix (planned ops ix n vectors payloads stride)) \<longleftrightarrow>
    (\<exists>l < length (ix_lists ix). \<exists>j < assigned ops n vectors l.
      u = (batch_ids ix n ! (inputs ops n vectors l ! j), \<lparr>dl_list = of_nat l, dl_offset = of_nat (list_rows ix l + j)\<rparr>))"
    (is "?L \<longleftrightarrow> ?R")
proof -
  let ?p = "planned ops ix n vectors payloads stride" and ?as = "op_assign ops n vectors"
  have touched: "bp_touched (ip_groups ?p) = touched_lists ?as (length (ix_lists ix))"
    by (simp add: planned_def grouped_plan_def Let_def)
  have row: "(ip_grouped_ids ?p ! (group_begin (ip_groups ?p) (of_nat l) + j),
        \<lparr>dl_list = of_nat l, dl_offset = ml_size (ix_lists ix ! unat (of_nat l :: u32)) + of_nat j\<rparr>)
      = (batch_ids ix n ! (inputs ops n vectors l ! j), \<lparr>dl_list = of_nat l, dl_offset = of_nat (list_rows ix l + j)\<rparr>)"
    if "l < length (ix_lists ix)" "j < assigned ops n vectors l" for l j
    using plan_slices(4) [OF st args that(1,2)] unat_list_number [OF st that(1)] by (simp add: list_rows_def)
  show ?thesis
  proof
    assume ?L
    then obtain a j where aj: "a \<in> set (touched_lists ?as (length (ix_lists ix)))" "j < group_size (ip_groups ?p) a"
      "u = (ip_grouped_ids ?p ! (group_begin (ip_groups ?p) a + j), \<lparr>dl_list = a, dl_offset = ml_size (ix_lists ix ! unat a) + of_nat j\<rparr>)"
      unfolding insert_updates_def touched by auto
    obtain l where l: "a = of_nat l" "l < length (ix_lists ix)" by (rule touched_list [OF st aj(1)])
    have "j < assigned ops n vectors l" using aj(2) plan_slices(2) [OF st args l(2)] by (simp add: l(1))
    then show ?R using row [OF l(2)] aj(3) l by blast
  next
    assume ?R
    then obtain l j where lj: "l < length (ix_lists ix)" "j < assigned ops n vectors l"
      "u = (batch_ids ix n ! (inputs ops n vectors l ! j), \<lparr>dl_list = of_nat l, dl_offset = of_nat (list_rows ix l + j)\<rparr>)" by blast
    have "(of_nat l :: u32) \<in> set (touched_lists ?as (length (ix_lists ix)))"
      using lj(1,2) unfolding touched_lists_def set_map by (intro imageI) simp
    moreover have "j < group_size (ip_groups ?p) (of_nat l)" using plan_slices(2) [OF st args lj(1)] lj(2) by simp
    ultimately show ?L unfolding insert_updates_def touched lj(3) row [OF lj(1,2), symmetric]
      by (simp del: of_nat_add) (intro bexI [of _ "of_nat l"] imageI, simp_all)
  qed
qed

lemma updates_distinct:
  assumes st: "index_static ops ix" and args: "batch_args_ok ops ix n vectors payloads stride"
  shows "distinct (map fst (insert_updates ix (planned ops ix n vectors payloads stride)))"
proof -
  let ?p = "planned ops ix n vectors payloads stride" and ?as = "op_assign ops n vectors" and ?N = "length (ix_lists ix)"
  have one: "map (\<lambda>j. ip_grouped_ids ?p ! (group_begin (ip_groups ?p) (of_nat l) + j)) [0..<group_size (ip_groups ?p) (of_nat l)]
      = map ((!) (batch_ids ix n)) (inputs_of ?as l)" if "l < ?N" for l
    by (rule nth_equalityI) (simp_all add: plan_slices(2,4) [OF st args that])
  have skip: "concat (map f (filter P xs)) = concat (map f xs)" if "\<And>x. \<not> P x \<Longrightarrow> f x = []"
    for f :: "nat \<Rightarrow> u32 list" and P xs
    using that by (induction xs) auto
  have "map fst (insert_updates ix ?p) = concat (map (\<lambda>l. map ((!) (batch_ids ix n)) (inputs_of ?as l)) (filter (\<lambda>l. 0 < count_of ?as l) [0..<?N]))"
  proof -
    have "bp_touched (ip_groups ?p) = map of_nat (filter (\<lambda>l. 0 < count_of ?as l) [0..<?N])"
      by (simp add: planned_def grouped_plan_def Let_def touched_lists_def)
    then have "map fst (insert_updates ix ?p) = concat (map (\<lambda>l. map (\<lambda>j. ip_grouped_ids ?p ! (group_begin (ip_groups ?p) (of_nat l) + j))
        [0..<group_size (ip_groups ?p) (of_nat l)]) (filter (\<lambda>l. 0 < count_of ?as l) [0..<?N]))"
      by (simp add: insert_updates_def map_concat comp_def)
    also have "\<dots> = concat (map (\<lambda>l. map ((!) (batch_ids ix n)) (inputs_of ?as l)) (filter (\<lambda>l. 0 < count_of ?as l) [0..<?N]))"
      by (rule arg_cong [where f = concat], rule map_cong [OF refl], rule one) simp
    finally show ?thesis .
  qed
  also have "\<dots> = map ((!) (batch_ids ix n)) (stable_order ?as ?N)"
  proof -
    have "map ((!) (batch_ids ix n)) (inputs_of ?as l) = []" if "\<not> 0 < count_of ?as l" for l
      using that by (simp flip: length_inputs_of)
    then show ?thesis by (simp add: skip stable_order_def map_concat comp_def)
  qed
  finally have "map fst (insert_updates ix ?p) = map ((!) (batch_ids ix n)) (stable_order ?as ?N)" .
  moreover have "inj_on ((!) (batch_ids ix n)) (set (stable_order ?as ?N))"
  proof (rule inj_onI)
    fix x y assume xy: "x \<in> set (stable_order ?as ?N)" "y \<in> set (stable_order ?as ?N)" "batch_ids ix n ! x = batch_ids ix n ! y"
    then have "x < n" "y < n" using set_stable_order [of ?as ?N] args by (auto simp: batch_args_ok_def)
    then show "x = y" using xy(3) batch_id [OF args] by (metis add_left_cancel)
  qed
  ultimately show ?thesis by (simp add: distinct_map distinct_stable_order del: map_map)
qed

lemma updates_new:
  assumes st: "index_static ops ix" and args: "batch_args_ok ops ix n vectors payloads stride"
    and "i \<in> fst ` set (insert_updates ix (planned ops ix n vectors payloads stride))"
  shows "ix_next_id ix \<le> unat i"
  using assms(3) plan_slices(3) [OF st args] batch_id [OF args] by (force simp: updates_planned [OF st args])

lemma write_batch_landed:
  assumes ix: "index_ok ops ix d0" and args: "batch_args_ok ops ix n vectors payloads stride"
    and same: "files d (dir_path (ix_directory ix)) = files d0 (dir_path (ix_directory ix))"
    and run: "write_batch (ix_directory ix) (insert_updates ix (planned ops ix n vectors payloads stride)) d = (r, d')"
  shows "others_kept (dir_path (ix_directory ix)) d d' \<and> dir_kept ix d0 d' \<and> (r = Inr () \<longrightarrow> dir_landed ops ix n vectors d0 d')
    \<and> (benign d \<and> files d (dir_path (ix_directory ix)) \<noteq> None \<longrightarrow> r = Inr () \<and> benign d')"
proof -
  let ?us = "insert_updates ix (planned ops ix n vectors payloads stride)" and ?f = "dir_content ix d0"
  have st: "index_static ops ix" and dir: "directory_args_ok (ix_directory ix)" using ix by (simp_all add: index_ok_def index_static_def)
  have c: "dir_content ix d = ?f" using same by (simp add: content_def)
  note w = write_batch_result [OF dir run]
  have dist: "distinct (map fst ?us)" by (rule updates_distinct [OF st args])
  have kept: "dir_kept ix d0 d'"
    unfolding dir_kept_def
  proof (intro allI impI)
    fix i :: u32 assume i: "unat i < ix_next_id ix"
    have has: "dir_has ?f i" using ix i by (simp add: index_ok_def ids_located_def)
    have "i \<notin> fst ` set ?us" using updates_new [OF st args] i by (meson not_le)
    then show "dir_has (dir_content ix d') i \<and> dir_lookup (dir_content ix d') i = dir_lookup ?f i"
      using w has c by (auto simp: untouched_kept_def dir_has_def)
  qed
  have "0 < n" using args by (simp add: batch_args_ok_def)
  then obtain l j where "l < length (ix_lists ix)" "j < assigned ops n vectors l" by (rule assigned_input [OF args])
  then have "?us \<noteq> []" using updates_planned [OF st args] by (metis empty_iff empty_set)
  then have ok: "r = Inr () \<longrightarrow> updates_ok (ix_directory ix) ?us d d'" using w by simp
  have "dir_landed ops ix n vectors d0 d'" if r: "r = Inr ()"
    unfolding dir_landed_def
  proof (intro conjI allI impI)
    show "dir_page_size (ix_directory ix) dvd length (dir_content ix d')" using ok r by (simp add: updates_ok_def)
    show "dir_kept ix d0 d'" by (rule kept)
    fix l j assume "l < length (ix_lists ix)" "j < assigned ops n vectors l"
    then have u: "(batch_ids ix n ! (inputs ops n vectors l ! j), \<lparr>dl_list = of_nat l, dl_offset = of_nat (list_rows ix l + j)\<rparr>) \<in> set ?us"
      using updates_planned [OF st args] by blast
    then show has: "dir_has (dir_content ix d') (batch_ids ix n ! (inputs ops n vectors l ! j))"
      using ok r unfolding updates_ok_def by (metis fst_conv)
    have "map_of ?us (batch_ids ix n ! (inputs ops n vectors l ! j)) = Some \<lparr>dl_list = of_nat l, dl_offset = of_nat (list_rows ix l + j)\<rparr>"
      by (rule map_of_is_SomeI [OF dist u])
    then show "dir_lookup (dir_content ix d') (batch_ids ix n ! (inputs ops n vectors l ! j))
        = \<lparr>dl_list = of_nat l, dl_offset = of_nat (list_rows ix l + j)\<rparr>"
      using ok r has by (simp add: updates_ok_def entry_after_def)
  qed
  moreover have "dir_page_size (ix_directory ix) dvd length (dir_content ix d)"
    using ix by (simp add: c index_ok_def files_ok_def)
  ultimately show ?thesis using w kept dist by (auto simp: untouched_kept_def)
qed

section \<open>The posting lists\<close>

lemma touched_planned: "bp_touched (ip_groups (planned ops ix n vectors payloads stride))
    = touched_lists (op_assign ops n vectors) (length (ix_lists ix))"
  by (simp add: planned_def grouped_plan_def Let_def)

lemma append_posting_ok:
  assumes st: "index_static ops ix" and ls: "lists_ok ops ix" and args: "batch_args_ok ops ix n vectors payloads stride"
    and room: "roomy ops ix (assigned ops n vectors)" and l: "l < length (ix_lists ix)" and c: "0 < assigned ops n vectors l"
  obtains ml where "append_posting ops ix (planned ops ix n vectors payloads stride) (of_nat l) (ix_lists ix ! l) = (Inr (), ml)"
    and "\<And>mls. mls ! l = ml \<Longrightarrow> list_landed ops ix n vectors mls l"
proof -
  let ?p = "planned ops ix n vectors payloads stride" and ?F = "op_pq4 ops" and ?M = "ix_subquantizers ix"
  let ?c = "assigned ops n vectors l" and ?js = "inputs ops n vectors l" and ?ml = "ix_lists ix ! l"
  have F: "faiss_pq4 ?F" and M: "dims_ok ?M" using st by (simp_all add: index_static_def)
  obtain nb where nb: "nb \<le> 2 ^ 27" "list_rows ix l + ?c \<le> 32 * nb" "tiles_ok ?F ?M ?ml nb"
    using room l c by (auto simp: roomy_def)
  note sl = plan_slices [OF st args l]
  let ?codes = "gather (code_size ix) (code_size ix) (fst (op_encode ops n vectors)) ?js"
  have enc: "length (fst (op_encode ops n vectors)) = n * code_size ix" using args by (simp add: batch_args_ok_def)
  have rd: "readable (code_size ix) (code_size ix) (fst (op_encode ops n vectors)) ?js"
  proof -
    have "i * code_size ix + code_size ix \<le> n * code_size ix" if "i \<in> set ?js" for i
    proof -
      have "i < n" using that args by (auto simp: inputs_of_def batch_args_ok_def)
      then show ?thesis using mult_le_mono1 [of "Suc i" n "code_size ix"] by simp
    qed
    then show ?thesis using enc by (simp add: readable_def)
  qed
  have len: "length ?codes = ?c * (?M div 2)" using length_gather [OF rd] by (simp add: code_size_def)
  have room': "unat (ml_size ?ml) + ?c \<le> u32_max - 31" "unat (ml_size ?ml) + ?c \<le> 32 * nb"
    using row_bound [OF ls args l] nb(2) by (simp_all add: list_rows_def)
  obtain ml where ml: "append_list ?F ?M ?codes (map ((!) (snd (op_encode ops n vectors))) ?js) ?c ?ml = (Inr (), ml)"
      "posting_ok ?F ?M ml" "unat (ml_size ml) = unat (ml_size ?ml) + ?c"
      "\<And>i. i < unat (ml_size ?ml) \<Longrightarrow> row_code ?F ?M ml i = row_code ?F ?M ?ml i \<and> row_metadata ml i = row_metadata ?ml i"
      "\<And>j. j < ?c \<Longrightarrow> row_code ?F ?M ml (unat (ml_size ?ml) + j) = map (flat_code ?codes (?M div 2) j) [0..<?M]
        \<and> row_metadata ml (unat (ml_size ?ml) + j) = map ((!) (snd (op_encode ops n vectors))) ?js ! j"
    using append_list_ok [OF F M nb(3) c room'(1) room'(2) nb(1) len] by (metis length_inputs_of length_map)
  have code: "map (flat_code ?codes (?M div 2) j) [0..<?M] = map (flat_code (fst (op_encode ops n vectors)) (code_size ix) (?js ! j)) [0..<?M]"
    if "j < ?c" for j
  proof (intro map_cong refl)
    fix m assume "m \<in> set [0..<?M]"
    then have "m div 2 < code_size ix" using M by (auto simp: code_size_def dims_ok_def even_subquantizers_def)
    then show "flat_code ?codes (?M div 2) j m = flat_code (fst (op_encode ops n vectors)) (code_size ix) (?js ! j) m"
      using flat_code_gather [OF rd, of j m] that by (simp add: code_size_def)
  qed
  show thesis
  proof (rule that)
    show "append_posting ops ix ?p (of_nat l) ?ml = (Inr (), ml)"
      using ml(1) by (simp add: append_posting_def sl(2,6,7))
    show "list_landed ops ix n vectors mls l" if "mls ! l = ml" for mls
      using ml(2-5) code by (simp add: list_landed_def that list_rows_def)
  qed
qed

lemma append_postings_ok:
  assumes st: "index_static ops ix" and ls: "lists_ok ops ix" and args: "batch_args_ok ops ix n vectors payloads stride"
    and room: "roomy ops ix (assigned ops n vectors)"
  obtains mls where "each_list (append_posting ops ix (planned ops ix n vectors payloads stride))
      (touched_lists (op_assign ops n vectors) (length (ix_lists ix))) (ix_lists ix) = (Inr (), mls)"
    and "length mls = length (ix_lists ix)" and "\<And>l. l < length (ix_lists ix) \<Longrightarrow> list_landed ops ix n vectors mls l"
proof -
  let ?f = "append_posting ops ix (planned ops ix n vectors payloads stride)" and ?as = "op_assign ops n vectors"
  let ?ts = "touched_lists ?as (length (ix_lists ix))"
  have "\<exists>mls. each_list ?f ?ts (ix_lists ix) = (Inr (), mls) \<and> length mls = length (ix_lists ix)
      \<and> (\<forall>l \<in> set ?ts. ?f l (ix_lists ix ! unat l) = (Inr (), mls ! unat l))
      \<and> (\<forall>k. k \<notin> unat ` set ?ts \<longrightarrow> mls ! k = ix_lists ix ! k)"
  proof (rule each_list_ok)
    show "distinct ?ts" by (rule distinct_touched [OF st])
    show "\<forall>a \<in> set ?ts. unat a < length (ix_lists ix) \<and> (\<exists>ml. ?f a (ix_lists ix ! unat a) = (Inr (), ml))"
    proof
      fix a assume "a \<in> set ?ts"
      then obtain l where l: "a = of_nat l" "unat a = l" "l < length (ix_lists ix)" "0 < assigned ops n vectors l"
        by (rule touched_list [OF st])
      show "unat a < length (ix_lists ix) \<and> (\<exists>ml. ?f a (ix_lists ix ! unat a) = (Inr (), ml))"
        using append_posting_ok [OF st ls args room l(3,4)] l(3) unfolding l(2) unfolding l(1) by metis
    qed
  qed
  then obtain mls where mls: "each_list ?f ?ts (ix_lists ix) = (Inr (), mls)" "length mls = length (ix_lists ix)"
    "\<And>l. l \<in> set ?ts \<Longrightarrow> ?f l (ix_lists ix ! unat l) = (Inr (), mls ! unat l)"
    "\<And>k. k \<notin> unat ` set ?ts \<Longrightarrow> mls ! k = ix_lists ix ! k" by blast
  show thesis
  proof (rule that [OF mls(1,2)])
    fix l assume l: "l < length (ix_lists ix)"
    show "list_landed ops ix n vectors mls l"
    proof (cases "0 < assigned ops n vectors l")
      case True
      have "(of_nat l :: u32) \<in> set ?ts" using True l by (simp add: touched_lists_def)
      from mls(3) [OF this] have "?f (of_nat l) (ix_lists ix ! l) = (Inr (), mls ! l)" by (simp only: unat_list_number [OF st l])
      with append_posting_ok [OF st ls args room l True] show ?thesis by (metis prod.inject)
    next
      case False
      then have "mls ! l = ix_lists ix ! l" using mls(4) [of l] touched_list_number [OF st l, of ?as] by metis
      moreover have "posting_ok (op_pq4 ops) (ix_subquantizers ix) (ix_lists ix ! l)" using ls l by (simp add: lists_ok_def)
      ultimately show ?thesis using False by (simp add: list_landed_def list_rows_def)
    qed
  qed
qed

section \<open>The commit\<close>

text \<open>What every outcome of the commit leaves untouched.\<close>

definition published :: "list_index \<Rightarrow> disk \<Rightarrow> disk \<Rightarrow> bool" where
  "published ix d d' \<longleftrightarrow> dir_kept ix d d' \<and> (\<forall>l < length (ix_lists ix). list_kept ix d d' l)"

lemma list_rows_in_file:
  "files_ok ix d \<Longrightarrow> l < length (ix_lists ix) \<Longrightarrow>
    page_count (list_rows ix l) (st_per_page (ix_store ix)) * page_size (ix_store ix) = length (list_content ix d l)"
  by (simp add: files_ok_def)

lemma append_all_files:
  assumes ix: "index_ok ops ix d" and args: "batch_args_ok ops ix n vectors payloads stride"
    and run: "io_fold (append_file ix (planned ops ix n vectors payloads stride))
      (touched_lists (op_assign ops n vectors) (length (ix_lists ix))) () d = (r, d')"
  shows "files d' (dir_path (ix_directory ix)) = files d (dir_path (ix_directory ix))
    \<and> (\<forall>l < length (ix_lists ix). list_kept ix d d' l)
    \<and> (r = Inr () \<longrightarrow> (\<forall>l < length (ix_lists ix). file_landed ops ix n vectors payloads stride d d' l))
    \<and> (benign d \<longrightarrow> r = Inr () \<and> benign d')"
proof -
  let ?p = "planned ops ix n vectors payloads stride" and ?as = "op_assign ops n vectors" and ?N = "length (ix_lists ix)"
  let ?pb = "xo_payload_bytes (ix_options ix)" and ?c = "assigned ops n vectors"
  define ks where "ks = filter (\<lambda>l. 0 < count_of ?as l) [0..<?N]"
  have ts: "touched_lists ?as ?N = map of_nat ks" by (simp add: touched_lists_def ks_def)
  have st: "index_static ops ix" and ls: "lists_ok ops ix" and fo: "files_ok ix d" using ix by (simp_all add: index_ok_def)
  have pay: "length (segment payloads (k * payload_step ix stride) ?pb) = ?pb" if "k < n" for k
    using args that by (simp add: batch_args_ok_def)
  have pp: "payloads_planned ix ?p ?c l" if "l < ?N" "0 < ?c l" for l
    using plan_slices(2,3,8) [OF st args that(1)] pay row_bound [OF ls args that(1)] that(2)
    by (simp add: payloads_planned_def)
  have pre: "\<forall>l \<in> set ks. l < ?N \<and> payloads_planned ix ?p ?c l
      \<and> page_count (list_rows ix l) (st_per_page (ix_store ix)) * page_size (ix_store ix) \<le> length (list_content ix d l)"
    using pp list_rows_in_file [OF fo] by (simp add: ks_def)
  have al: "\<forall>l \<in> set ks. page_size (ix_store ix) dvd length (list_content ix d l)"
    by (simp add: ks_def flip: list_rows_in_file [OF fo])
  have "distinct ks" by (simp add: ks_def)
  note res = append_files_result [OF st this pre run [unfolded ts]]
  have dirf: "dir_path (ix_directory ix) \<notin> file_of ix ` set ks" using st by (force simp: index_static_def ks_def)
  have untouched: "list_content ix d' l = list_content ix d l" if "l < ?N" "?c l = 0" for l
  proof -
    have "file_of ix l \<notin> file_of ix ` set ks" using that files_distinct [OF st that(1)] by (force simp: ks_def)
    then show ?thesis using res by (simp add: content_def)
  qed
  have kept: "list_kept ix d d' l" if l: "l < ?N" for l
  proof (cases "0 < ?c l")
    case True
    then show ?thesis using res l by (simp add: ks_def)
  next
    case False
    then show ?thesis using untouched [OF l] list_rows_in_file [OF fo l] by (simp add: list_kept_def rows_kept_def)
  qed
  have "file_landed ops ix n vectors payloads stride d d' l" if l: "l < ?N" and r: "r = Inr ()" for l
  proof (cases "0 < ?c l")
    case True
    then have "rows_appended ix ?p ?c d' l" using res l r by (simp add: ks_def)
    then show ?thesis using kept [OF l] plan_slices(5,8) [OF st args l] st
      by (simp add: file_landed_def rows_appended_def record_bytes_def index_static_def)
  next
    case False
    then show ?thesis using kept [OF l] untouched [OF l] list_rows_in_file [OF fo l] by (simp add: file_landed_def)
  qed
  with res dirf kept al show ?thesis by blast
qed

lemma commit_insert_result:
  assumes ix: "index_ok ops ix d" and args: "batch_args_ok ops ix n vectors payloads stride"
    and room: "roomy ops ix (assigned ops n vectors)"
    and run: "commit_insert ops n (planned ops ix n vectors payloads stride) ix d = (r, ix', d')"
  shows "(\<forall>e. r = Inl e \<longrightarrow> ix' = ix \<and> published ix d d')
    \<and> (\<forall>ids. r = Inr ids \<longrightarrow> ids = batch_ids ix n
        \<and> (\<exists>mls. ix' = committed ix n mls \<and> landed ops ix n vectors payloads stride mls d d'))
    \<and> (benign d \<and> files d (dir_path (ix_directory ix)) \<noteq> None \<longrightarrow> (\<exists>ids. r = Inr ids) \<and> benign d')"
proof -
  let ?p = "planned ops ix n vectors payloads stride" and ?dir = "ix_directory ix"
  have st: "index_static ops ix" and ls: "lists_ok ops ix" using ix by (simp_all add: index_ok_def)
  obtain q d2 where q: "io_bind (io_fold (append_file ix ?p) (bp_touched (ip_groups ?p)) ())
        (\<lambda>_. write_batch ?dir (insert_updates ix ?p)) d = (q, d2)" by fastforce
  have io: "published ix d d2 \<and> (q = Inr () \<longrightarrow> dir_landed ops ix n vectors d d2
      \<and> (\<forall>l < length (ix_lists ix). file_landed ops ix n vectors payloads stride d d2 l))
      \<and> (benign d \<and> files d (dir_path ?dir) \<noteq> None \<longrightarrow> q = Inr () \<and> benign d2)"
    using q
  proof (cases rule: io_bind_cases)
    case (1 e)
    note a = append_all_files [OF ix args 1(1) [unfolded touched_planned]]
    have "dir_content ix d2 = dir_content ix d" using a by (simp add: content_def)
    then have "dir_kept ix d d2" using ix by (simp add: dir_kept_def index_ok_def ids_located_def)
    then show ?thesis using a 1(2) by (auto simp: published_def)
  next
    case (2 u d1)
    note a = append_all_files [OF ix args 2(1) [unfolded touched_planned]]
    have same: "files d1 (dir_path ?dir) = files d (dir_path ?dir)" using a by blast
    note w = write_batch_landed [OF ix args same 2(2)]
    have files2: "list_content ix d2 l = list_content ix d1 l" if "l < length (ix_lists ix)" for l
      using w st that by (auto simp: others_kept_def content_def index_static_def)
    have "list_kept ix d d2 l" "file_landed ops ix n vectors payloads stride d d2 l" if "l < length (ix_lists ix)" for l
      using a that files2 [OF that] by (simp_all add: list_kept_def file_landed_def)
    then show ?thesis using w a same by (auto simp: published_def)
  qed
  show ?thesis
  proof (cases q)
    case (Inl e)
    then have "r = Inl e" "ix' = ix" "d' = d2" using run q by (simp_all add: commit_insert_def)
    then show ?thesis using io Inl by auto
  next
    case (Inr u)
    obtain mls where mls: "each_list (append_posting ops ix ?p) (bp_touched (ip_groups ?p)) (ix_lists ix) = (Inr (), mls)"
      "length mls = length (ix_lists ix)" "\<And>l. l < length (ix_lists ix) \<Longrightarrow> list_landed ops ix n vectors mls l"
      unfolding touched_planned by (rule append_postings_ok [OF st ls args room]) blast
    have "r = Inr (ip_ids ?p)" "ix' = committed ix n mls" "d' = d2"
      using run q mls(1) Inr by (simp_all add: commit_insert_def committed_def)
    moreover have "ip_ids ?p = batch_ids ix n" by (simp add: planned_def Let_def)
    moreover have "landed ops ix n vectors payloads stride mls d d2" using io mls(2,3) Inr by (simp add: landed_def)
    ultimately show ?thesis using io Inr by auto
  qed
qed

section \<open>Insertion\<close>

lemma published_lookup:
  assumes ix: "index_ok ops ix d" and "published ix d d'"
  shows "index_lookup ops ix d' i = index_lookup ops ix d i"
proof (cases "unat i < ix_next_id ix \<and> location_active (dir_lookup (dir_content ix d) i)")
  case True
  let ?l = "unat (dl_list (dir_lookup (dir_content ix d) i))"
  have same: "dir_lookup (dir_content ix d') i = dir_lookup (dir_content ix d) i"
    using assms(2) True by (simp add: published_def dir_kept_def)
  have "?l < length (ix_lists ix)" "unat (dl_offset (dir_lookup (dir_content ix d) i)) < list_rows ix ?l"
    using ix True unfolding index_ok_def ids_located_def Let_def by blast+
  then show ?thesis using assms(2) by (simp add: index_lookup_def Let_def same entry_at_def published_def list_kept_def rows_kept_def)
next
  case False
  then show ?thesis using assms(2) by (auto simp: index_lookup_def Let_def published_def dir_kept_def)
qed

text \<open>Reserving capacity does not show.\<close>

lemma same_rows_ok:
  assumes ix: "index_ok ops ix d" and same: "same_rows ops ix mls"
  shows "index_ok ops (ix\<lparr>ix_lists := mls\<rparr>) d"
    and "index_lookup ops (ix\<lparr>ix_lists := mls\<rparr>) d i = index_lookup ops ix d i"
proof -
  have len: "length mls = length (ix_lists ix)" using same by (simp add: same_rows_def)
  have f: "file_of (ix\<lparr>ix_lists := mls\<rparr>) = file_of ix" by (simp add: file_of_def fun_eq_iff)
  have rows: "list_rows (ix\<lparr>ix_lists := mls\<rparr>) l = list_rows ix l" if "l < length (ix_lists ix)" for l
    using same that by (simp add: same_rows_def list_rows_def)
  have "index_static ops (ix\<lparr>ix_lists := mls\<rparr>)" using ix len f by (simp add: index_ok_def index_static_def)
  moreover have "lists_ok ops (ix\<lparr>ix_lists := mls\<rparr>)"
  proof -
    have "(\<Sum>l<length mls. list_rows (ix\<lparr>ix_lists := mls\<rparr>) l) = (\<Sum>l<length (ix_lists ix). list_rows ix l)"
      unfolding len by (intro sum.cong refl) (simp add: rows)
    moreover have "\<forall>ml \<in> set mls. posting_ok (op_pq4 ops) (ix_subquantizers ix) ml"
      using same by (auto simp: same_rows_def in_set_conv_nth)
    ultimately show ?thesis using ix by (simp add: index_ok_def lists_ok_def)
  qed
  moreover have "files_ok (ix\<lparr>ix_lists := mls\<rparr>) d" using ix by (simp add: index_ok_def files_ok_def f len rows)
  moreover have "rows_located (ix\<lparr>ix_lists := mls\<rparr>) d" using ix by (simp add: index_ok_def rows_located_def f len rows)
  moreover have "ids_located (ix\<lparr>ix_lists := mls\<rparr>) d"
    using ix by (simp add: index_ok_def ids_located_def f len rows Let_def)
  ultimately show "index_ok ops (ix\<lparr>ix_lists := mls\<rparr>) d" by (simp add: index_ok_def)
  show "index_lookup ops (ix\<lparr>ix_lists := mls\<rparr>) d i = index_lookup ops ix d i"
  proof (cases "unat i < ix_next_id ix \<and> location_active (dir_lookup (dir_content ix d) i)")
    case True
    let ?l = "unat (dl_list (dir_lookup (dir_content ix d) i))"
    have "?l < length (ix_lists ix)" "unat (dl_offset (dir_lookup (dir_content ix d) i)) < list_rows ix ?l"
      using ix True unfolding index_ok_def ids_located_def Let_def by blast+
    then show ?thesis using same by (simp add: index_lookup_def Let_def entry_at_def f same_rows_def)
  next
    case False
    then show ?thesis by (auto simp: index_lookup_def Let_def)
  qed
qed

lemma relisted [simp]:
  "code_size (ix\<lparr>ix_lists := mls\<rparr>) = code_size ix" "payload_step (ix\<lparr>ix_lists := mls\<rparr>) = payload_step ix"
  "batch_ids (ix\<lparr>ix_lists := mls\<rparr>) n = batch_ids ix n"
  "new_entry ops (ix\<lparr>ix_lists := mls\<rparr>) n vectors payloads stride k = new_entry ops ix n vectors payloads stride k"
  by (simp_all add: code_size_def payload_step_def batch_ids_def new_entry_def fun_eq_iff)

lemma relisted_args:
  "length mls = length (ix_lists ix) \<Longrightarrow>
    batch_args_ok ops (ix\<lparr>ix_lists := mls\<rparr>) n vectors payloads stride = batch_args_ok ops ix n vectors payloads stride"
  "length mls = length (ix_lists ix) \<Longrightarrow>
    planned ops (ix\<lparr>ix_lists := mls\<rparr>) n vectors payloads stride = planned ops ix n vectors payloads stride"
  by (simp_all add: batch_args_ok_def planned_def)

lemma insert_batch_result:
  assumes ix: "index_ok ops ix d" and args: "batch_args_ok ops ix n vectors payloads stride"
    and run: "insert_batch ops n (Some vectors) (Some payloads) stride ix d = (r, ix', d')"
  shows "(\<forall>e. r = Inl e \<longrightarrow> (\<forall>i. index_lookup ops ix' d' i = index_lookup ops ix d i))
    \<and> (\<forall>ids. r = Inr ids \<longrightarrow> ids = batch_ids ix n \<and> index_ok ops ix' d' \<and> ix_next_id ix' = ix_next_id ix + n
        \<and> ix_active ix' = ix_active ix + n
        \<and> (\<forall>i. index_lookup ops ix' d' i
            = (if ix_next_id ix \<le> unat i \<and> unat i < ix_next_id ix + n
               then Some (new_entry ops ix n vectors payloads stride (unat i - ix_next_id ix))
               else index_lookup ops ix d i)))
    \<and> (benign d \<and> files d (dir_path (ix_directory ix)) \<noteq> None \<longrightarrow> (\<exists>ids. r = Inr ids) \<and> benign d')"
proof -
  let ?p = "planned ops ix n vectors payloads stride" and ?c = "assigned ops n vectors"
  have st: "index_static ops ix" and ls: "lists_ok ops ix" using ix by (simp_all add: index_ok_def)
  have "0 < n" using args by (simp add: batch_args_ok_def)
  obtain mls where mls: "each_list (\<lambda>l. reserve_list (op_pq4 ops) (ix_subquantizers ix) (code_size ix) (group_size (ip_groups ?p) l))
      (bp_touched (ip_groups ?p)) (ix_lists ix) = (Inr (), mls)"
    "same_rows ops ix mls" "roomy ops (ix\<lparr>ix_lists := mls\<rparr>) ?c"
    by (rule reserve_all_ok [OF st ls args touched_planned plan_slices(2) [OF st args]])
  let ?ix = "ix\<lparr>ix_lists := mls\<rparr>"
  have len: "length mls = length (ix_lists ix)" using mls(2) by (simp add: same_rows_def)
  have run': "commit_insert ops n (planned ops ?ix n vectors payloads stride) ?ix d = (r, ix', d')"
    using run \<open>0 < n\<close> mls(1) by (simp add: insert_batch_def plan_insert_ok [OF st ls args] relisted_args [OF len])
  have ix1: "index_ok ops ?ix d" by (rule same_rows_ok(1) [OF ix mls(2)])
  have args1: "batch_args_ok ops ?ix n vectors payloads stride" using args by (simp add: relisted_args [OF len])
  note lookup1 = same_rows_ok(2) [OF ix mls(2)]
  note c = commit_insert_result [OF ix1 args1 mls(3) run']
  have fail: "index_lookup ops ix' d' i = index_lookup ops ix d i" if "r = Inl e" for e i
    using c that published_lookup [OF ix1] lookup1 by metis
  have "ids = batch_ids ix n \<and> index_ok ops ix' d' \<and> ix_next_id ix' = ix_next_id ix + n
      \<and> ix_active ix' = ix_active ix + n
      \<and> (\<forall>i. index_lookup ops ix' d' i
          = (if ix_next_id ix \<le> unat i \<and> unat i < ix_next_id ix + n
             then Some (new_entry ops ix n vectors payloads stride (unat i - ix_next_id ix))
             else index_lookup ops ix d i))" if r: "r = Inr ids" for ids
  proof -
    obtain mls' where m: "ids = batch_ids ix n" "ix' = committed ?ix n mls'" "landed ops ?ix n vectors payloads stride mls' d d'"
      using c r by auto
    show ?thesis
      using m(1) landed_index_ok [OF ix1 args1 m(3)] landed_lookup [OF ix1 args1 m(3)] lookup1 by (simp add: m(2))
  qed
  with fail c show ?thesis by simp
qed

section \<open>A concrete index\<close>

text \<open>Ten empty lists over a fresh directory file.\<close>

definition tiny_options :: index_options where
  "tiny_options = \<lparr>xo_storage_root = ''r'', xo_payload_bytes = 4, xo_payload_format = UInt8_payload, xo_page_size = 16,
     xo_lists_per_shard = 4, xo_queue_depth = 1, xo_max_open_files = 64, xo_direct_io = False, xo_sync_writes = True,
     xo_create_storage = True\<rparr>"

text \<open>A router that sends input \<open>i\<close> to list \<open>i mod 2\<close> and an encoder with constant codes.\<close>

definition tiny_index_ops :: index_ops where
  "tiny_index_ops = \<lparr>op_pq4 = kernel_layout, op_scan = tiny_ops,
     op_assign = (\<lambda>n vs. map (\<lambda>i. of_nat (i mod 2)) [0..<n]), op_route = (\<lambda>q nprobe. Inr [0, 1]),
     op_encode = (\<lambda>n vs. (replicate n 0x21, replicate n \<lparr>md_norm = 1, md_scale = 2, md_error = 3\<rparr>)),
     op_prepare_query = (\<lambda>q. Inr tiny_query)\<rparr>"

definition tiny_index :: list_index where
  "tiny_index = \<lparr>ix_trained = True, ix_quantizer = tiny_quantizer, ix_options = tiny_options, ix_store = tiny_store,
     ix_directory = index_directory tiny_options, ix_lists = replicate 10 empty_list, ix_next_id = 0, ix_active = 0, ix_generation = 0\<rparr>"

definition new_disk :: "string option list \<Rightarrow> disk" where
  "new_disk fs = \<lparr>files = [''r/locations.bin'' \<mapsto> []], dirs = {}, transfers = [Eintr, Xfer 3], faults = fs\<rparr>"

lemma tiny_directory_path: "dir_path (ix_directory tiny_index) = ''r/locations.bin''"
  by (simp add: tiny_index_def index_directory_def tiny_options_def path_join_def)

lemma tiny_index_static: "index_static tiny_index_ops tiny_index"
proof -
  have "file_of tiny_index l \<noteq> dir_path (ix_directory tiny_index)" if "l < st_nlist tiny_store" for l
  proof
    assume eq: "file_of tiny_index l = dir_path (ix_directory tiny_index)"
    have "l < 10" using that by (simp add: tiny_store_def make_store_def)
    from tiny_list_path [OF this] have p: "list_path tiny_store (of_nat l) = Inr (tiny_path l)" .
    then have "file_of tiny_index l = tiny_path l" by (simp add: file_of_def tiny_index_def)
    then have "base_name ''r/locations.bin'' = ''list_'' @ zero_fill 8 (decimal (unat (of_nat l :: u32))) @ ''.bin''"
      using base_name_list_path [OF p] eq by (simp add: tiny_directory_path)
    moreover have "base_name ''r/locations.bin'' = ''locations.bin''" by (simp add: base_name_def)
    ultimately show False by simp
  qed
  then show ?thesis
    using kernel.faiss_pq4_axioms tiny_store_ok
    by (simp add: index_static_def tiny_index_ops_def tiny_index_def dims_ok_def even_subquantizers_def tiny_quantizer_def
        directory_args_ok_def index_directory_def tiny_options_def path_join_def is_power_of_two_def pointer_size_def entry_bytes_def
        tiny_store_def make_store_def u32_max_def)
qed

lemma tiny_index_ok: "index_ok tiny_index_ops tiny_index (new_disk fs)"
proof -
  have no: "content (new_disk fs) (file_of tiny_index l) = []" for l by (simp add: content_def new_disk_def)
  have "list_rows tiny_index l = 0" if "l < 10" for l using that by (simp add: list_rows_def tiny_index_def empty_list_def)
  moreover have "content (new_disk fs) (dir_path (ix_directory tiny_index)) = []"
    by (simp add: content_def new_disk_def tiny_directory_path)
  moreover have "length (ix_lists tiny_index) = 10" "ix_next_id tiny_index = 0" "ix_active tiny_index = 0"
    "set (ix_lists tiny_index) = {empty_list}" by (simp_all add: tiny_index_def)
  ultimately show ?thesis
    using tiny_index_static no empty_list_ok
    by (simp add: index_ok_def lists_ok_def files_ok_def rows_located_def ids_located_def page_count_def)
qed

abbreviation tiny_payloads :: bytes where "tiny_payloads \<equiv> [1, 1, 1, 1, 2, 2, 2, 2, 3, 3, 3, 3]"

lemma tiny_batch_ok: "batch_args_ok tiny_index_ops tiny_index 3 [] tiny_payloads 0"
proof -
  have "unat (of_nat (i mod 2) :: u32) < 10" for i :: nat
    using unat_u32_of_nat [of "i mod 2"] by (simp add: u32_max_def)
  then show ?thesis
    by (simp add: batch_args_ok_def tiny_index_ops_def tiny_index_def payload_step_def tiny_options_def code_size_def
      tiny_quantizer_def u32_max_def)
qed

text \<open>A fault of the first call of the commit ends the insertion.\<close>

lemma append_records_fault:
  assumes "faults d = Some e # fs" and "list_path st l = Inr p" and "0 < cnt" and "unat old + cnt \<le> u32_max"
    and "payload_bytes st \<le> pstride"
  shows "append_records st l old (Some ids) (Some pl) pstride cnt d
    = (Inl (system_error ''create_directories'' e), d\<lparr>faults := fs\<rparr>)"
proof -
  have "\<not> cnt > u32_max - unat old" using assms(4) by arith
  then show ?thesis
    using assms by (simp add: append_records_def create_directories_def sys_call_def io_bind_def io_lift_def)
qed

lemma insert_first_fault:
  assumes ix: "index_ok ops ix d" and args: "batch_args_ok ops ix n vectors payloads stride"
    and "faults d = Some e # fs"
  shows "\<exists>ix' d'. insert_batch ops n (Some vectors) (Some payloads) stride ix d
    = (Inl (system_error ''create_directories'' e), ix', d')"
proof -
  let ?p = "planned ops ix n vectors payloads stride"
  have st: "index_static ops ix" and ls: "lists_ok ops ix" using ix by (simp_all add: index_ok_def)
  have "0 < n" using args by (simp add: batch_args_ok_def)
  obtain mls where mls: "each_list (\<lambda>l. reserve_list (op_pq4 ops) (ix_subquantizers ix) (code_size ix) (group_size (ip_groups ?p) l))
      (bp_touched (ip_groups ?p)) (ix_lists ix) = (Inr (), mls)"
    "same_rows ops ix mls" "roomy ops (ix\<lparr>ix_lists := mls\<rparr>) (assigned ops n vectors)"
    by (rule reserve_all_ok [OF st ls args touched_planned plan_slices(2) [OF st args]])
  obtain l0 j where "l0 < length (ix_lists ix)" "j < assigned ops n vectors l0" by (rule assigned_input [OF args \<open>0 < n\<close>])
  then have "(of_nat l0 :: u32) \<in> set (bp_touched (ip_groups ?p))" by (auto simp: touched_planned touched_lists_def)
  then obtain a as where ts: "bp_touched (ip_groups ?p) = a # as" by (cases "bp_touched (ip_groups ?p)") auto
  then have "a \<in> set (touched_lists (op_assign ops n vectors) (length (ix_lists ix)))"
    using touched_planned [of ops ix n vectors payloads stride] by simp
  then obtain l where l: "a = of_nat l" "unat a = l" "l < length (ix_lists ix)" "0 < assigned ops n vectors l"
    by (rule touched_list [OF st])
  have "unat (ml_size (mls ! l)) + assigned ops n vectors l \<le> u32_max"
    using row_bound [OF ls args l(3)] mls(2) l(3) by (simp add: same_rows_def list_rows_def)
  then have "append_file (ix\<lparr>ix_lists := mls\<rparr>) ?p a () d = (Inl (system_error ''create_directories'' e), d\<lparr>faults := fs\<rparr>)"
    using append_records_fault [OF assms(3) file_of_path [OF st l(3)] l(4)] st l
    by (simp add: append_file_def plan_slices(2) [OF st args l(3)] index_static_def)
  then have "commit_insert ops n ?p (ix\<lparr>ix_lists := mls\<rparr>) d
      = (Inl (system_error ''create_directories'' e), ix\<lparr>ix_lists := mls\<rparr>, d\<lparr>faults := fs\<rparr>)"
    by (simp add: commit_insert_def ts io_bind_def)
  then show ?thesis using \<open>0 < n\<close> mls(1) by (simp add: insert_batch_def plan_insert_ok [OF st ls args])
qed

section \<open>Properties\<close>

text \<open>
  C1. Insertion refines the abstract map. When a batch of a well-formed index returns, the ids are the
  next consecutive ones, the index is well formed again, and its abstract map has gained exactly these
  ids, each with its own payload, code and metadata, whatever list the router chose and however the
  calls were split; every earlier id keeps its entry. A batch whose calls do not fail returns.
\<close>

theorem insert_batch_correct:
  assumes "index_ok ops ix d" and "batch_args_ok ops ix n vectors payloads stride"
    and "insert_batch ops n (Some vectors) (Some payloads) stride ix d = (r, ix', d')"
  shows "(\<forall>ids. r = Inr ids \<longrightarrow> ids = batch_ids ix n \<and> index_ok ops ix' d' \<and> ix_next_id ix' = ix_next_id ix + n
        \<and> ix_active ix' = ix_active ix + n
        \<and> (\<forall>i. index_lookup ops ix' d' i
            = (if ix_next_id ix \<le> unat i \<and> unat i < ix_next_id ix + n
               then Some (new_entry ops ix n vectors payloads stride (unat i - ix_next_id ix))
               else index_lookup ops ix d i)))
    \<and> (benign d \<and> files d (dir_path (ix_directory ix)) \<noteq> None \<longrightarrow> (\<exists>ids. r = Inr ids))"
  using insert_batch_result [OF assms] by blast

theorem insert_batch_correct_witness:
  "\<exists>ix' d'. insert_batch tiny_index_ops 3 (Some []) (Some tiny_payloads) 0 tiny_index (new_disk [None]) = (Inr [0, 1, 2], ix', d')
    \<and> index_lookup tiny_index_ops ix' d' 1 = Some ([2, 2, 2, 2], [1, 2], \<lparr>md_norm = 1, md_scale = 2, md_error = 3\<rparr>)"
proof -
  obtain r ix' d' where run: "insert_batch tiny_index_ops 3 (Some []) (Some tiny_payloads) 0 tiny_index (new_disk [None]) = (r, ix', d')"
    by (metis prod_cases3)
  note c = insert_batch_correct [OF tiny_index_ok tiny_batch_ok run]
  have "benign (new_disk [None]) \<and> files (new_disk [None]) (dir_path (ix_directory tiny_index)) \<noteq> None"
    by (simp add: benign_def new_disk_def tiny_directory_path)
  then obtain ids where ids: "r = Inr ids" using c by blast
  have "batch_ids tiny_index 3 = [0, 1, 2]" by (simp add: batch_ids_def tiny_index_def upt_rec)
  then have "r = Inr [0, 1, 2]" using c ids by simp
  moreover have "new_entry tiny_index_ops tiny_index 3 [] tiny_payloads 0 1
      = ([2, 2, 2, 2], [1, 2], \<lparr>md_norm = 1, md_scale = 2, md_error = 3\<rparr>)"
    by code_simp
  ultimately show ?thesis using c run ids by (simp add: tiny_index_def)
qed

text \<open>
  C2. A failed insertion is invisible. Whatever call fails, and wherever a page write is torn, a batch
  that throws leaves the abstract map of the index as it was: rows that were written are not published
  by the resident lists, and directory entries that were written belong to ids not yet handed out.
\<close>

theorem insert_failure_invisible:
  assumes "index_ok ops ix d" and "batch_args_ok ops ix n vectors payloads stride"
    and "insert_batch ops n (Some vectors) (Some payloads) stride ix d = (Inl e, ix', d')"
  shows "index_lookup ops ix' d' i = index_lookup ops ix d i"
  using insert_batch_result [OF assms] by blast

theorem insert_failure_invisible_witness:
  "\<exists>e ix' d'. insert_batch tiny_index_ops 3 (Some []) (Some tiny_payloads) 0 tiny_index (new_disk [Some ''io error'']) = (Inl e, ix', d')
    \<and> index_lookup tiny_index_ops ix' d' 0 = index_lookup tiny_index_ops tiny_index (new_disk [Some ''io error'']) 0"
proof -
  have "faults (new_disk [Some ''io error'']) = [Some ''io error'']" by (simp add: new_disk_def)
  from insert_first_fault [OF tiny_index_ok tiny_batch_ok this]
  obtain ix' d' where run: "insert_batch tiny_index_ops 3 (Some []) (Some tiny_payloads) 0 tiny_index (new_disk [Some ''io error''])
      = (Inl (system_error ''create_directories'' ''io error''), ix', d')" by blast
  from insert_failure_invisible [OF tiny_index_ok tiny_batch_ok run] run show ?thesis by blast
qed

end
