(* ===== verification/Deletion_Plan.thy ===== *)
theory Deletion_Plan
  imports Posting_List Batch_Grouping Location_Directory Record_Deletion
begin

text \<open>
  The first stage of \<open>erase_batch\<close> of src/adapters/external\_list\_ivf.cpp: for every touched list the
  sorted deleted offsets, the holes below the new size and the rows from the end that fill them.
\<close>

section \<open>The plan of one list\<close>

record prepared_move =
  pm_destination :: u32
  pm_source :: u32
  pm_id :: u32

text \<open>\<open>PreparedDeletion\<close> without its record mutation and its scratch blocks, which later stages add.\<close>

record deletion_plan =
  dp_list :: u32
  dp_old :: u32
  dp_new :: u32
  dp_padded :: u32
  dp_ids :: "u32 list"
  dp_offsets :: "u32 list"
  dp_expected :: "u32 list"
  dp_holes :: "u32 list"
  dp_sources :: "u32 list"
  dp_record_moves :: "record_move list"

text \<open>\<open>std::sort\<close> on pairs; \<open>std::binary_search\<close> on the sorted offsets is membership.\<close>

definition deleted_rows :: "u32 list \<Rightarrow> disk_location list \<Rightarrow> nat list \<Rightarrow> (u32 \<times> u32) list" where
  "deleted_rows ids locations inputs =
    sort_key (\<lambda>r. (unat (fst r), unat (snd r))) (map (\<lambda>i. (dl_offset (locations ! i), ids ! i)) inputs)"

fun adjacent_equal :: "u32 list \<Rightarrow> bool" where
  "adjacent_equal (x # y # xs) \<longleftrightarrow> x = y \<or> adjacent_equal (y # xs)"
| "adjacent_equal _ \<longleftrightarrow> False"

definition fill_sources :: "u32 \<Rightarrow> u32 \<Rightarrow> u32 list \<Rightarrow> u32 list" where
  "fill_sources old_size new_size offsets =
    filter (\<lambda>off. off \<notin> set offsets) (map of_nat (rev [unat new_size..<unat old_size]))"

definition plan_deletion :: "u32 list \<Rightarrow> disk_location list \<Rightarrow> memory_list list \<Rightarrow> batch_plan \<Rightarrow> u32 \<Rightarrow> deletion_plan res" where
  "plan_deletion ids locations mls groups list_no =
    (let old_size = ml_size (mls ! unat list_no);
         first = bp_offsets groups ! unat list_no;
         delete_count = bp_offsets groups ! (unat list_no + 1) - first
     in if delete_count > unat old_size then Inl (Invalid_argument ''too many rows deleted from one list'')
        else let new_size = old_size - of_nat delete_count
        in res_bind (round_up (unat new_size) block_lanes) (\<lambda>padded.
          let inputs = segment (bp_order groups) first delete_count;
              rows = deleted_rows ids locations inputs;
              offsets = map fst rows
          in if adjacent_equal offsets then Inl (Invalid_argument ''two Logical IDs resolve to one list slot'')
          else let holes = filter (\<lambda>off. off < new_size) offsets;
                   sources = fill_sources old_size new_size offsets
          in if length holes \<noteq> length sources then Inl (Logic_error ''invalid external swap-with-last move plan'')
          else Inr \<lparr>dp_list = list_no, dp_old = old_size, dp_new = new_size, dp_padded = of_nat padded,
                 dp_ids = map ((!) ids) inputs, dp_offsets = offsets, dp_expected = map snd rows,
                 dp_holes = holes, dp_sources = sources,
                 dp_record_moves = map2 (\<lambda>h s. \<lparr>mv_destination = h, mv_source = s\<rparr>) holes sources\<rparr>))"

section \<open>The plan is a swap-with-last\<close>

text \<open>The old row that ends up in row \<open>i\<close>.\<close>

definition row_origin :: "u32 list \<Rightarrow> u32 list \<Rightarrow> nat \<Rightarrow> nat" where
  "row_origin holes sources i =
    (case map_of (zip (map unat holes) (map unat sources)) i of Some s \<Rightarrow> s | None \<Rightarrow> i)"

definition deletion_ok :: "deletion_plan \<Rightarrow> bool" where
  "deletion_ok p \<longleftrightarrow> dp_new p \<le> dp_old p \<and> distinct (dp_offsets p) \<and> unat (dp_old p) = unat (dp_new p) + length (dp_offsets p)
    \<and> (\<forall>off \<in> set (dp_offsets p). off < dp_old p)
    \<and> set (dp_holes p) = {off \<in> set (dp_offsets p). off < dp_new p} \<and> distinct (dp_holes p)
    \<and> set (dp_sources p) = {off. dp_new p \<le> off \<and> off < dp_old p \<and> off \<notin> set (dp_offsets p)} \<and> distinct (dp_sources p)
    \<and> length (dp_holes p) = length (dp_sources p)
    \<and> dp_record_moves p = map2 (\<lambda>h s. \<lparr>mv_destination = h, mv_source = s\<rparr>) (dp_holes p) (dp_sources p)"

lemma adjacent_equal_sorted: "sorted (map unat xs) \<Longrightarrow> adjacent_equal xs \<longleftrightarrow> \<not> distinct xs"
proof (induction xs rule: adjacent_equal.induct)
  case (1 x y xs)
  have "x = y" if "x \<in> set xs"
  proof -
    have "unat x \<le> unat y" "unat y \<le> unat x" using 1(2) that by auto
    then show ?thesis by (simp add: word_unat_eq_iff)
  qed
  with 1 show ?case by auto
qed simp_all

lemma unat_of_nat_below: "k < unat (b :: u32) \<Longrightarrow> unat (of_nat k :: u32) = k"
  by (rule unat_u32_of_nat) (metis less_imp_le_nat order_trans u32_less_max)

lemma set_fill_sources: "set (fill_sources old_size new_size offs) = {off. new_size \<le> off \<and> off < old_size \<and> off \<notin> set offs}"
proof -
  have "(of_nat ` {unat new_size..<unat old_size} :: u32 set) = {off. new_size \<le> off \<and> off < old_size}"
  proof (intro equalityI subsetI)
    fix x assume "x \<in> (of_nat ` {unat new_size..<unat old_size} :: u32 set)"
    then obtain k where k: "x = of_nat k" "unat new_size \<le> k" "k < unat old_size" by auto
    then have "unat x = k" by (simp add: unat_of_nat_below)
    then show "x \<in> {off. new_size \<le> off \<and> off < old_size}" using k by (simp add: word_le_nat_alt word_less_nat_alt)
  next
    fix x assume "x \<in> {off. new_size \<le> off \<and> off < old_size}"
    then have "unat x \<in> {unat new_size..<unat old_size}" by (simp add: word_le_nat_alt word_less_nat_alt)
    then have "of_nat (unat x) \<in> (of_nat ` {unat new_size..<unat old_size} :: u32 set)" by (rule imageI)
    then show "x \<in> of_nat ` {unat new_size..<unat old_size}" by simp
  qed
  then show ?thesis by (auto simp: fill_sources_def)
qed

lemma distinct_fill_sources: "distinct (fill_sources old_size new_size offs)"
proof -
  have "inj_on (of_nat :: nat \<Rightarrow> u32) {unat new_size..<unat old_size}"
  proof (rule inj_onI)
    fix a b assume ab: "a \<in> {unat new_size..<unat old_size}" "b \<in> {unat new_size..<unat old_size}" "(of_nat a :: u32) = of_nat b"
    then show "a = b" using unat_of_nat_below [of _ old_size] by (metis atLeastLessThan_iff)
  qed
  then show ?thesis by (simp add: fill_sources_def distinct_map)
qed

lemma card_between: "finite {off :: u32. a \<le> off \<and> off < b} \<and> card {off :: u32. a \<le> off \<and> off < b} = unat b - unat a"
proof -
  have "set (fill_sources b a []) = {off. a \<le> off \<and> off < b}" by (simp add: set_fill_sources)
  moreover have "length (fill_sources b a []) = unat b - unat a" by (simp add: fill_sources_def)
  ultimately show ?thesis using distinct_card [OF distinct_fill_sources [of b a "[]"]] by (metis List.finite_set)
qed

text \<open>As many rows survive behind the new size as there are holes before it.\<close>

lemma holes_match_sources:
  fixes offs :: "u32 list"
  assumes "distinct offs" and "\<forall>off \<in> set offs. off < old_size" and "unat old_size = unat new_size + length offs"
  shows "length (filter (\<lambda>off. off < new_size) offs) = length (fill_sources old_size new_size offs)"
proof -
  let ?T = "{off :: u32. new_size \<le> off \<and> off < old_size}" and ?D = "set offs"
  have "length (fill_sources old_size new_size offs) = card (?T - ?D)"
    using distinct_card [OF distinct_fill_sources [of old_size new_size offs]]
    by (simp add: set_fill_sources set_diff_eq conj_assoc)
  also have "\<dots> = card ?T - card (?T \<inter> ?D)" using card_between [of new_size old_size] by (intro card_Diff_subset_Int) simp
  also have "card ?T = length offs" using card_between [of new_size old_size] assms(3) by simp
  also have "?T \<inter> ?D = set (filter (\<lambda>off. \<not> off < new_size) offs)" using assms(2) by (auto simp: not_less)
  also have "card \<dots> = length (filter (\<lambda>off. \<not> off < new_size) offs)" by (rule distinct_card) (simp add: assms(1))
  finally show ?thesis using sum_length_filter_compl [of "\<lambda>off. off < new_size" offs] by simp
qed

lemma deleted_rows_offsets:
  "mset (map fst (deleted_rows ids locations inputs)) = mset (map (\<lambda>i. dl_offset (locations ! i)) inputs)"
  "sorted (map unat (map fst (deleted_rows ids locations inputs)))"
proof -
  show "mset (map fst (deleted_rows ids locations inputs)) = mset (map (\<lambda>i. dl_offset (locations ! i)) inputs)"
    by (simp add: deleted_rows_def multiset.map_comp comp_def)
  have "sorted (map (\<lambda>r. (unat (fst r), unat (snd r))) (deleted_rows ids locations inputs))" by (simp add: deleted_rows_def)
  then have "sorted (map fst (map (\<lambda>r. (unat (fst r), unat (snd r))) (deleted_rows ids locations inputs)))"
    by (simp add: sorted_wrt_map) (auto elim!: sorted_wrt_mono_rel [rotated])
  then show "sorted (map unat (map fst (deleted_rows ids locations inputs)))" by (simp add: comp_def)
qed

lemma plan_deletion_clash:
  assumes g: "bp_offsets groups ! unat l = first" "bp_offsets groups ! (unat l + 1) = first + cnt"
    and "\<not> distinct (map (\<lambda>i. dl_offset (locations ! i)) (segment (bp_order groups) first cnt))"
  shows "\<exists>e. plan_deletion ids locations mls groups l = Inl e"
proof -
  have "adjacent_equal (map fst (deleted_rows ids locations (segment (bp_order groups) first cnt)))"
    using adjacent_equal_sorted [OF deleted_rows_offsets(2)] assms(3)
      mset_eq_imp_distinct_iff [OF deleted_rows_offsets(1)] by blast
  moreover have "round_up (unat x) block_lanes = Inr (round_up_block (unat x))" for x :: u32 by (rule round_up_ok) simp
  ultimately show ?thesis unfolding plan_deletion_def Let_def g by simp
qed

text \<open>A slot for every input, below the size of the list: the plan of the list exists.\<close>

lemma plan_deletion_ok:
  assumes "unat l < length mls" and g: "bp_offsets groups ! unat l = first" "bp_offsets groups ! (unat l + 1) = first + cnt"
    and inputs: "inputs = segment (bp_order groups) first cnt" "length inputs = cnt"
    and off: "\<forall>i \<in> set inputs. dl_offset (locations ! i) < ml_size (mls ! unat l)"
    and dist: "distinct (map (\<lambda>i. dl_offset (locations ! i)) inputs)"
  shows "\<exists>p. plan_deletion ids locations mls groups l = Inr p \<and> deletion_ok p \<and> dp_list p = l
    \<and> dp_old p = ml_size (mls ! unat l) \<and> dp_padded p = of_nat (round_up_block (unat (dp_new p)))
    \<and> dp_ids p = map ((!) ids) inputs
    \<and> set (zip (dp_offsets p) (dp_expected p)) = (\<lambda>i. (dl_offset (locations ! i), ids ! i)) ` set inputs
    \<and> length (dp_expected p) = length (dp_offsets p)"
proof -
  let ?old = "ml_size (mls ! unat l)" and ?rows = "deleted_rows ids locations inputs"
  let ?offs = "map fst ?rows" and ?new = "ml_size (mls ! unat l) - of_nat cnt"
  note mset = deleted_rows_offsets(1) [of ids locations inputs]
  have d: "distinct ?offs" using dist mset_eq_imp_distinct_iff [OF mset] by simp
  have "set ?offs = set (map (\<lambda>i. dl_offset (locations ! i)) inputs)" using mset by (rule mset_eq_setD)
  then have lt: "\<forall>o' \<in> set ?offs. o' < ?old" using off by auto
  have len: "length ?offs = cnt" by (simp add: deleted_rows_def inputs(2))
  have cnt: "cnt \<le> unat ?old"
  proof -
    note all = card_between [of 0 ?old]
    have "set ?offs \<subseteq> {off. (0 :: u32) \<le> off \<and> off < ?old}" using lt by auto
    then have "card (set ?offs) \<le> card {off. (0 :: u32) \<le> off \<and> off < ?old}" by (intro card_mono conjunct1 [OF all])
    then have "card (set ?offs) \<le> unat ?old" using all by simp
    then show ?thesis using distinct_card [OF d] len by simp
  qed
  have new: "unat ?new = unat ?old - cnt"
  proof -
    have "unat (of_nat cnt :: u32) = cnt" using cnt by (intro unat_u32_of_nat) (metis order_trans u32_less_max)
    then show ?thesis using cnt by (simp add: unat_sub word_le_nat_alt)
  qed
  have "sorted (map unat ?offs)" by (rule deleted_rows_offsets(2))
  then have adj: "\<not> adjacent_equal ?offs" using adjacent_equal_sorted [of ?offs] d by blast
  let ?holes = "filter (\<lambda>off. off < ?new) ?offs" and ?src = "fill_sources ?old ?new ?offs"
  have match: "length ?holes = length ?src"
    by (rule holes_match_sources [OF d lt]) (simp add: new len cnt del: length_map)
  have round: "round_up (unat ?new) block_lanes = Inr (round_up_block (unat ?new))" by (rule round_up_ok) simp
  let ?p = "\<lparr>dp_list = l, dp_old = ?old, dp_new = ?new, dp_padded = of_nat (round_up_block (unat ?new)),
                 dp_ids = map ((!) ids) inputs, dp_offsets = ?offs, dp_expected = map snd ?rows,
                 dp_holes = ?holes, dp_sources = ?src,
                 dp_record_moves = map2 (\<lambda>h s. \<lparr>mv_destination = h, mv_source = s\<rparr>) ?holes ?src\<rparr>"
  have run: "plan_deletion ids locations mls groups l = Inr ?p"
    using cnt adj match unfolding plan_deletion_def Let_def g by (simp add: round flip: inputs(1))
  have "deletion_ok ?p"
    using d lt len cnt new match
    by (auto simp: deletion_ok_def set_fill_sources distinct_fill_sources word_le_nat_alt simp del: length_map set_map map_map)
  moreover have "set (zip ?offs (map snd ?rows)) = (\<lambda>i. (dl_offset (locations ! i), ids ! i)) ` set inputs"
    by (simp add: zip_map_fst_snd deleted_rows_def)
  ultimately show ?thesis using run by (intro exI [of _ ?p]) simp
qed

end
