(* ===== verification/Posting_Deletion.thy ===== *)
theory Posting_Deletion
  imports Deletion_Plan
begin

text \<open>
  Deletion from a resident posting list, src/adapters/external\_list\_ivf.cpp: the affected tiles are
  unpacked into scratch blocks, the moves and the clearing work on the scratch blocks, and the commit
  packs them back. The vector of scratch blocks with its index map is one map from block numbers.
\<close>

section \<open>Scratch blocks\<close>

record block_scratch =
  bs_original_codes :: bytes
  bs_updated_codes :: bytes
  bs_original_metadata :: "metadata list"
  bs_updated_metadata :: "metadata list"

type_synonym scratch = "nat \<Rightarrow> block_scratch option"

definition affected_blocks :: "deletion_plan \<Rightarrow> nat list" where
  "affected_blocks p = sorted_list_of_set (set (map (\<lambda>h. unat h div block_lanes) (dp_holes p)
    @ (if dp_new p < dp_old p then [unat (dp_new p) div block_lanes..<(unat (dp_old p) - 1) div block_lanes + 1] else [])))"

definition load_scratch :: "faiss_pq4_ops \<Rightarrow> nat \<Rightarrow> nat \<Rightarrow> memory_list \<Rightarrow> nat \<Rightarrow> scratch \<Rightarrow> scratch res" where
  "load_scratch F M block_bytes ml k blocks =
    res_bind (checked_multiply k block_bytes ''packed deletion code offset overflows'') (\<lambda>code_off.
    res_bind (checked_multiply k metadata_block_bytes ''packed deletion metadata offset overflows'') (\<lambda>meta_off.
      if code_off > length (ml_codes ml) \<or> block_bytes > length (ml_codes ml) - code_off
         \<or> meta_off > length (ml_metadata ml) \<or> metadata_block_bytes > length (ml_metadata ml) - meta_off
      then Inl (Logic_error ''packed list is shorter than its logical size'')
      else res_bind (unpack_flat_block_bbs32 F (Inr False) (segment (ml_codes ml) code_off block_bytes) M block_bytes) (\<lambda>codes.
        res_bind (unpack_metadata_block_bbs32 (Inr False) (segment (ml_metadata ml) meta_off metadata_block_bytes) block_lanes) (\<lambda>ms.
          Inr (blocks(k \<mapsto> \<lparr>bs_original_codes = codes, bs_updated_codes = codes,
            bs_original_metadata = ms, bs_updated_metadata = ms\<rparr>))))))"

definition block_at :: "scratch \<Rightarrow> nat \<Rightarrow> block_scratch res" where
  "block_at blocks k = (case blocks k of None \<Rightarrow> Inl (Out_of_range ''unordered_map::at'') | Some b \<Rightarrow> Inr b)"

text \<open>Overwrites the code and the metadata of a row in the updated half of its block.\<close>

definition write_row :: "nat \<Rightarrow> nat \<Rightarrow> bytes \<Rightarrow> metadata \<Rightarrow> scratch \<Rightarrow> scratch res" where
  "write_row cs row code md blocks =
    res_bind (block_at blocks (row div block_lanes)) (\<lambda>b.
      Inr (blocks(row div block_lanes \<mapsto> b\<lparr>
        bs_updated_codes := patch (bs_updated_codes b) (row mod block_lanes * cs) code,
        bs_updated_metadata := (bs_updated_metadata b)[row mod block_lanes := md]\<rparr>)))"

definition move_row :: "nat \<Rightarrow> prepared_move \<Rightarrow> scratch \<Rightarrow> scratch res" where
  "move_row cs m blocks =
    res_bind (block_at blocks (unat (pm_destination m) div block_lanes)) (\<lambda>_.
    res_bind (block_at blocks (unat (pm_source m) div block_lanes)) (\<lambda>s.
      write_row cs (unat (pm_destination m))
        (segment (bs_original_codes s) (unat (pm_source m) mod block_lanes * cs) cs)
        (bs_original_metadata s ! (unat (pm_source m) mod block_lanes)) blocks))"

definition clear_row :: "nat \<Rightarrow> nat \<Rightarrow> scratch \<Rightarrow> scratch res" where
  "clear_row cs row = write_row cs row (replicate cs 0) empty_metadata"

definition pack_deletion ::
    "faiss_pq4_ops \<Rightarrow> nat \<Rightarrow> nat \<Rightarrow> nat \<Rightarrow> memory_list \<Rightarrow> deletion_plan \<Rightarrow> prepared_move list \<Rightarrow> scratch res" where
  "pack_deletion F M cs block_bytes ml p moves =
    res_bind (res_fold (load_scratch F M block_bytes ml) (affected_blocks p) (\<lambda>_. None)) (\<lambda>loaded.
    res_bind (res_fold (move_row cs) moves loaded) (\<lambda>moved.
      res_fold (clear_row cs) [unat (dp_new p)..<unat (dp_old p)] moved))"

section \<open>Commit\<close>

fun rewrite_blocks :: "faiss_pq4_ops \<Rightarrow> nat \<Rightarrow> nat \<Rightarrow> scratch \<Rightarrow> nat list \<Rightarrow> memory_list \<Rightarrow> unit res \<times> memory_list" where
  "rewrite_blocks F M block_bytes blocks [] ml = (Inr (), ml)"
| "rewrite_blocks F M block_bytes blocks (k # ks) ml =
    (case res_bind (block_at blocks k) (\<lambda>b.
        rewrite_flat_block_bbs32 F (Inr False) (bs_updated_codes b) M (segment (ml_codes ml) (k * block_bytes) block_bytes)) of
       Inl e \<Rightarrow> (Inl e, ml)
     | Inr codes \<Rightarrow>
        (let ml1 = ml\<lparr>ml_codes := patch (ml_codes ml) (k * block_bytes) codes\<rparr>
         in case res_bind (block_at blocks k) (\<lambda>b.
              rewrite_metadata_block_bbs32 (Inr False) (bs_updated_metadata b)
                (segment (ml_metadata ml) (k * metadata_block_bytes) metadata_block_bytes)) of
              Inl e \<Rightarrow> (Inl e, ml1)
            | Inr ms \<Rightarrow> rewrite_blocks F M block_bytes blocks ks
                (ml1\<lparr>ml_metadata := patch (ml_metadata ml) (k * metadata_block_bytes) ms\<rparr>)))"

definition commit_posting ::
    "faiss_pq4_ops \<Rightarrow> nat \<Rightarrow> nat \<Rightarrow> deletion_plan \<Rightarrow> scratch \<Rightarrow> memory_list \<Rightarrow> unit res \<times> memory_list" where
  "commit_posting F M block_bytes p blocks ml =
    (case rewrite_blocks F M block_bytes blocks (affected_blocks p) ml of
       (Inl e, ml') \<Rightarrow> (Inl e, ml')
     | (Inr _, ml') \<Rightarrow> (Inr (), ml'\<lparr>ml_size := dp_new p, ml_padded := dp_padded p\<rparr>))"

section \<open>Rows of scratch blocks\<close>

definition tile_codes :: "faiss_pq4_ops \<Rightarrow> nat \<Rightarrow> memory_list \<Rightarrow> nat \<Rightarrow> bytes" where
  "tile_codes F M ml k = packer_unpack_all F M 32 (segment (ml_codes ml) (k * (16 * M)) (16 * M))"

definition tile_metadata :: "memory_list \<Rightarrow> nat \<Rightarrow> metadata list" where
  "tile_metadata ml k = map (get_metadata (segment (ml_metadata ml) (k * 96) 96)) [0..<32]"

text \<open>The row \<open>i\<close> as it was in the list, and as it is in the updated half.\<close>

definition old_row :: "faiss_pq4_ops \<Rightarrow> nat \<Rightarrow> memory_list \<Rightarrow> nat \<Rightarrow> bytes \<times> metadata" where
  "old_row F M ml i = (segment (tile_codes F M ml (i div 32)) (i mod 32 * (M div 2)) (M div 2), tile_metadata ml (i div 32) ! (i mod 32))"

definition new_row :: "nat \<Rightarrow> scratch \<Rightarrow> nat \<Rightarrow> bytes \<times> metadata" where
  "new_row cs blocks i = (case blocks (i div 32) of
     Some b \<Rightarrow> (segment (bs_updated_codes b) (i mod 32 * cs) cs, bs_updated_metadata b ! (i mod 32))
   | None \<Rightarrow> ([], empty_metadata))"

definition scratch_ok :: "faiss_pq4_ops \<Rightarrow> nat \<Rightarrow> memory_list \<Rightarrow> nat set \<Rightarrow> scratch \<Rightarrow> bool" where
  "scratch_ok F M ml K blocks \<longleftrightarrow> dom blocks = K \<and> (\<forall>k \<in> K. \<forall>b. blocks k = Some b \<longrightarrow>
    bs_original_codes b = tile_codes F M ml k \<and> bs_original_metadata b = tile_metadata ml k
    \<and> length (bs_updated_codes b) = 32 * (M div 2) \<and> length (bs_updated_metadata b) = 32)"

lemma lane_fits: "i mod 32 * cs + cs \<le> 32 * (cs :: nat)"
  using mult_le_mono1 [OF Suc_leI [OF mod_less_divisor [of 32 i]], of cs] by (simp add: add.commute)

lemma write_row_ok:
  assumes ok: "scratch_ok F M ml K blocks" and row: "row div 32 \<in> K" and code: "length code = M div 2"
  shows "\<exists>blocks'. write_row (M div 2) row code md blocks = Inr blocks' \<and> scratch_ok F M ml K blocks'
    \<and> (\<forall>i. i div 32 \<in> K \<longrightarrow> new_row (M div 2) blocks' i = (if i = row then (code, md) else new_row (M div 2) blocks i))"
proof -
  let ?cs = "M div 2" and ?k = "row div 32" and ?l = "row mod 32"
  obtain b where b: "blocks ?k = Some b" using ok row by (auto simp: scratch_ok_def)
  have len: "length (bs_updated_codes b) = 32 * ?cs" "length (bs_updated_metadata b) = 32"
    using ok row b by (auto simp: scratch_ok_def)
  let ?b = "b\<lparr>bs_updated_codes := patch (bs_updated_codes b) (?l * ?cs) code, bs_updated_metadata := (bs_updated_metadata b)[?l := md]\<rparr>"
  let ?blocks = "blocks(?k \<mapsto> ?b)"
  have fit: "j mod 32 * ?cs + ?cs \<le> length (bs_updated_codes b)" for j using lane_fits [of j ?cs] len(1) by simp
  have run: "write_row ?cs row code md blocks = Inr ?blocks" by (simp add: write_row_def block_at_def b block_lanes_def)
  have "scratch_ok F M ml K ?blocks"
    unfolding scratch_ok_def
  proof (intro conjI ballI allI impI)
    show "dom ?blocks = K" using ok row by (auto simp: scratch_ok_def)
    fix k c assume k: "k \<in> K" "?blocks k = Some c"
    have "bs_original_codes c = tile_codes F M ml k \<and> bs_original_metadata c = tile_metadata ml k
        \<and> length (bs_updated_codes c) = 32 * ?cs \<and> length (bs_updated_metadata c) = 32"
    proof (cases "k = ?k")
      case True
      then have "c = ?b" using k(2) by simp
      then show ?thesis using ok b row len fit [of row] code True by (simp add: scratch_ok_def length_patch)
    next
      case False
      then show ?thesis using ok k by (simp add: scratch_ok_def)
    qed
    then show "bs_original_codes c = tile_codes F M ml k" "bs_original_metadata c = tile_metadata ml k"
      "length (bs_updated_codes c) = 32 * ?cs" "length (bs_updated_metadata c) = 32" by simp_all
  qed
  moreover have "new_row ?cs ?blocks i = (if i = row then (code, md) else new_row ?cs blocks i)" for i
  proof (cases "i div 32 = ?k")
    case True
    show ?thesis
    proof (cases "i = row")
      case True
      then show ?thesis using patch_lane_same [OF fit code, of row] len(2) by (simp add: new_row_def)
    next
      case False
      then have "?l \<noteq> i mod 32" using True by (metis div_mult_mod_eq)
      from patch_lane_other [OF this fit fit code] this show ?thesis using True False b len(2) by (simp add: new_row_def)
    qed
  qed (auto simp: new_row_def)
  ultimately show ?thesis using run by blast
qed

section \<open>Preparation\<close>

definition fresh_block :: "faiss_pq4_ops \<Rightarrow> nat \<Rightarrow> memory_list \<Rightarrow> nat \<Rightarrow> block_scratch" where
  "fresh_block F M ml k = \<lparr>bs_original_codes = tile_codes F M ml k, bs_updated_codes = tile_codes F M ml k,
     bs_original_metadata = tile_metadata ml k, bs_updated_metadata = tile_metadata ml k\<rparr>"

lemma code_tile_fits:
  assumes "length buf = 16 * M * nb" and "k < nb"
  shows "k * (16 * M) + 16 * M \<le> length buf"
proof -
  have "Suc k * (16 * M) \<le> nb * (16 * M)" using assms(2) by (intro mult_le_mono1) simp
  moreover have "length buf = nb * (16 * M)" using assms(1) by simp
  ultimately show ?thesis unfolding mult_Suc by linarith
qed

lemma tile_ranges:
  assumes "tiles_ok F M ml nb" and "k < nb"
  shows "k * (16 * M) + 16 * M \<le> length (ml_codes ml)" and "k * 96 + 96 \<le> length (ml_metadata ml)"
  using assms code_tile_fits [of "ml_codes ml" M nb k] by (simp_all add: tiles_ok_def)

lemma length_tile_codes:
  assumes "faiss_pq4 F" and "dims_ok M" and "tiles_ok F M ml nb" and "k < nb"
  shows "length (tile_codes F M ml k) = 32 * (M div 2)"
proof -
  have "length (segment (ml_codes ml) (k * (16 * M)) (16 * M)) = 16 * M"
    using tile_ranges(1) [OF assms(3,4)] by (intro length_segment_in)
  then have "length (tile_codes F M ml k) = 16 * M"
    using faiss_pq4.unpack_length [OF assms(1)] assms(2) by (simp add: tile_codes_def dims_ok_def)
  then show ?thesis using assms(2) by (auto simp: dims_ok_def even_subquantizers_def)
qed

lemma load_scratch_ok:
  assumes F: "faiss_pq4 F" and M: "dims_ok M" and t: "tiles_ok F M ml nb" and k: "k < nb" "k \<le> 2 ^ 27"
  shows "load_scratch F M (16 * M) ml k blocks = Inr (blocks(k \<mapsto> fresh_block F M ml k))"
proof -
  note r = tile_ranges [OF t k(1)] and b = dims_bound [OF M k(2)]
  have kb: "k * (16 * M) = 16 * M * k" by simp
  have "k * (16 * M) \<le> size_max" "k * 96 \<le> size_max" using b(2,3) unfolding kb by linarith+
  then have mul: "checked_multiply k (16 * M) msg = Inr (k * (16 * M))" "checked_multiply k 96 msg = Inr (k * 96)" for msg
    by (simp_all add: checked_multiply_ok)
  have even: "even_subquantizers M" and "16 * M \<le> size_max" using M by (simp_all add: dims_ok_def size_max_def)
  note blk = packed_code_block_bytes_ok [OF this]
  have codes: "unpack_flat_block_bbs32 F (Inr False) (segment (ml_codes ml) (k * (16 * M)) (16 * M)) M (16 * M) = Inr (tile_codes F M ml k)"
    using length_segment_in [OF r(1)] by (simp add: unpack_flat_block_bbs32_def blk tile_codes_def block_lanes_def)
  have ms: "unpack_metadata_block_bbs32 (Inr False) (segment (ml_metadata ml) (k * 96) 96) 32 = Inr (tile_metadata ml k)"
    using length_segment_in [OF r(2)] by (simp add: unpack_metadata_block_rows tile_metadata_def)
  have mb: "metadata_block_bytes = 96" "block_lanes = 32" by (simp_all add: metadata_block_bytes_def block_lanes_def)
  have "\<not> k * (16 * M) > length (ml_codes ml)" "\<not> 16 * M > length (ml_codes ml) - k * (16 * M)"
    "\<not> k * 96 > length (ml_metadata ml)" "\<not> 96 > length (ml_metadata ml) - k * 96"
    using r by linarith+
  then show ?thesis unfolding load_scratch_def mb mul res_bind_simps codes ms fresh_block_def by simp
qed

lemma new_row_fresh:
  assumes "blocks (i div 32) = Some (fresh_block F M ml (i div 32))"
  shows "new_row (M div 2) blocks i = old_row F M ml i"
  using assms by (simp add: new_row_def old_row_def fresh_block_def)

lemma load_all_ok:
  assumes F: "faiss_pq4 F" and M: "dims_ok M" and t: "tiles_ok F M ml nb" and ks: "\<forall>k \<in> set ks. k < nb \<and> k \<le> 2 ^ 27"
  shows "\<exists>blocks. res_fold (load_scratch F M (16 * M) ml) ks (\<lambda>_. None) = Inr blocks \<and> scratch_ok F M ml (set ks) blocks
    \<and> (\<forall>i. i div 32 \<in> set ks \<longrightarrow> new_row (M div 2) blocks i = old_row F M ml i)"
proof -
  have "res_fold (load_scratch F M (16 * M) ml) ks blocks
      = Inr (\<lambda>k. if k \<in> set ks then Some (fresh_block F M ml k) else blocks k)" for blocks
    using ks
  proof (induction ks arbitrary: blocks)
    case (Cons k ks)
    then show ?case using load_scratch_ok [OF F M t, of k] by (auto simp: fun_eq_iff)
  qed (simp add: fun_eq_iff)
  from this [of "\<lambda>_. None"]
  have run: "res_fold (load_scratch F M (16 * M) ml) ks (\<lambda>_. None) = Inr (\<lambda>k. if k \<in> set ks then Some (fresh_block F M ml k) else None)" .
  have "scratch_ok F M ml (set ks) (\<lambda>k. if k \<in> set ks then Some (fresh_block F M ml k) else None)"
    using length_tile_codes [OF F M t] ks by (auto simp: scratch_ok_def fresh_block_def tile_metadata_def split: if_splits)
  then show ?thesis using run new_row_fresh by (intro exI conjI) auto
qed

lemma move_row_ok:
  assumes ok: "scratch_ok F M ml K blocks" and d: "unat (pm_destination m) div 32 \<in> K" and s: "unat (pm_source m) div 32 \<in> K"
    and len: "length (tile_codes F M ml (unat (pm_source m) div 32)) = 32 * (M div 2)"
  shows "\<exists>blocks'. move_row (M div 2) m blocks = Inr blocks' \<and> scratch_ok F M ml K blocks'
    \<and> (\<forall>i. i div 32 \<in> K \<longrightarrow> new_row (M div 2) blocks' i
        = (if i = unat (pm_destination m) then old_row F M ml (unat (pm_source m)) else new_row (M div 2) blocks i))"
proof -
  obtain b c where b: "blocks (unat (pm_destination m) div 32) = Some b" and c: "blocks (unat (pm_source m) div 32) = Some c"
    using ok d s by (auto simp: scratch_ok_def)
  have org: "bs_original_codes c = tile_codes F M ml (unat (pm_source m) div 32)"
      "bs_original_metadata c = tile_metadata ml (unat (pm_source m) div 32)"
    using ok s c by (auto simp: scratch_ok_def)
  let ?code = "segment (bs_original_codes c) (unat (pm_source m) mod 32 * (M div 2)) (M div 2)"
  have "length ?code = M div 2" using lane_fits [of "unat (pm_source m)" "M div 2"] len by (intro length_segment_in) (simp add: org)
  from write_row_ok [OF ok d this, of "bs_original_metadata c ! (unat (pm_source m) mod 32)"]
  show ?thesis unfolding move_row_def block_at_def block_lanes_def b c option.case res_bind_simps old_row_def org by blast
qed

lemma move_rows_ok:
  assumes len: "\<forall>k \<in> K. length (tile_codes F M ml k) = 32 * (M div 2)"
    and "scratch_ok F M ml K blocks" and "\<forall>m \<in> set ms. unat (pm_destination m) div 32 \<in> K \<and> unat (pm_source m) div 32 \<in> K"
    and "distinct (map pm_destination ms)"
  shows "\<exists>blocks'. res_fold (move_row (M div 2)) ms blocks = Inr blocks' \<and> scratch_ok F M ml K blocks'
    \<and> (\<forall>i. i div 32 \<in> K \<longrightarrow> new_row (M div 2) blocks' i
        = (case map_of (map (\<lambda>m. (unat (pm_destination m), unat (pm_source m))) ms) i of
             Some s \<Rightarrow> old_row F M ml s | None \<Rightarrow> new_row (M div 2) blocks i))"
  using assms(2-)
proof (induction ms arbitrary: blocks)
  case (Cons m ms)
  let ?mp = "map_of (map (\<lambda>m. (unat (pm_destination m), unat (pm_source m))) ms)"
  obtain b1 where b1: "move_row (M div 2) m blocks = Inr b1" "scratch_ok F M ml K b1"
    "\<And>i. i div 32 \<in> K \<Longrightarrow> new_row (M div 2) b1 i
        = (if i = unat (pm_destination m) then old_row F M ml (unat (pm_source m)) else new_row (M div 2) blocks i)"
    using move_row_ok [OF Cons.prems(1), of m] Cons.prems(2) len by auto
  have "\<exists>blocks'. res_fold (move_row (M div 2)) ms b1 = Inr blocks' \<and> scratch_ok F M ml K blocks'
    \<and> (\<forall>i. i div 32 \<in> K \<longrightarrow> new_row (M div 2) blocks' i = (case ?mp i of Some s \<Rightarrow> old_row F M ml s | None \<Rightarrow> new_row (M div 2) b1 i))"
    using Cons.prems by (intro Cons.IH b1(2)) simp_all
  then obtain b2 where b2: "res_fold (move_row (M div 2)) ms b1 = Inr b2" "scratch_ok F M ml K b2"
    "\<And>i. i div 32 \<in> K \<Longrightarrow> new_row (M div 2) b2 i = (case ?mp i of Some s \<Rightarrow> old_row F M ml s | None \<Rightarrow> new_row (M div 2) b1 i)"
    by blast
  have "?mp (unat (pm_destination m)) = None"
    using Cons.prems(3) by (auto simp: map_of_eq_None_iff word_unat_eq_iff)
  then have "new_row (M div 2) b2 i = (case map_of (map (\<lambda>m. (unat (pm_destination m), unat (pm_source m))) (m # ms)) i of
             Some s \<Rightarrow> old_row F M ml s | None \<Rightarrow> new_row (M div 2) blocks i)" if "i div 32 \<in> K" for i
    using b2(3) [OF that] b1(3) [OF that] by (auto split: option.splits)
  with b1(1) b2(1,2) show ?case by auto
qed simp

lemma clear_rows_ok:
  assumes "scratch_ok F M ml K blocks" and "\<forall>row \<in> set rows. row div 32 \<in> K"
  shows "\<exists>blocks'. res_fold (clear_row (M div 2)) rows blocks = Inr blocks' \<and> scratch_ok F M ml K blocks'
    \<and> (\<forall>i. i div 32 \<in> K \<longrightarrow> new_row (M div 2) blocks' i
        = (if i \<in> set rows then (replicate (M div 2) 0, empty_metadata) else new_row (M div 2) blocks i))"
  using assms
proof (induction rows arbitrary: blocks)
  case (Cons row rows)
  obtain b1 where b1: "clear_row (M div 2) row blocks = Inr b1" "scratch_ok F M ml K b1"
    "\<And>i. i div 32 \<in> K \<Longrightarrow> new_row (M div 2) b1 i
        = (if i = row then (replicate (M div 2) 0, empty_metadata) else new_row (M div 2) blocks i)"
    using write_row_ok [OF Cons.prems(1), of row "replicate (M div 2) 0" empty_metadata] Cons.prems(2)
    unfolding clear_row_def by auto
  from Cons.IH [OF b1(2)] Cons.prems(2) obtain b2 where b2: "res_fold (clear_row (M div 2)) rows b1 = Inr b2" "scratch_ok F M ml K b2"
    "\<And>i. i div 32 \<in> K \<Longrightarrow> new_row (M div 2) b2 i
        = (if i \<in> set rows then (replicate (M div 2) 0, empty_metadata) else new_row (M div 2) b1 i)"
    by auto
  then show ?case using b1 by auto
qed simp

section \<open>Packing the blocks back\<close>

lemma tiles_disjoint: "k \<noteq> j \<Longrightarrow> k * s + s \<le> j * s \<or> j * s + s \<le> k * (s :: nat)"
  using mult_le_mono1 [of "Suc k" j s] mult_le_mono1 [of "Suc j" k s] by (cases "k < j") auto

lemma patch_tile_code:
  assumes F: "faiss_pq4 F" and M: "even_subquantizers M" and len: "length buf = 16 * M * nb" and "length tile = 16 * M"
    and k: "k < nb" and row: "row < 32 * nb" and m: "m < M"
  shows "get_packed_element F (patch buf (k * (16 * M)) tile) 32 M row m
    = (if row div 32 = k then get_packed_element F tile 32 M (row mod 32) m else get_packed_element F buf 32 M row m)"
proof -
  let ?B = "16 * M" and ?j = "row div 32"
  have fits: "i * ?B + ?B \<le> length buf" if "i < nb" for i
    by (rule code_tile_fits [OF len that])
  have j: "?j < nb" using row by (simp add: less_mult_imp_div_less mult.commute)
  have "k * ?B + length tile \<le> length buf" using fits [OF k] assms(4) by simp
  then have plen: "length (patch buf (k * ?B) tile) = 16 * M * nb" by (simp add: length_patch len)
  have "segment (patch buf (k * ?B) tile) (?j * ?B) ?B = (if ?j = k then tile else segment buf (?j * ?B) ?B)"
  proof (cases "?j = k")
    case True
    then show ?thesis using segment_patch_same [of "k * ?B" buf tile] fits [OF k] assms(4) by simp
  next
    case False
    then have "?j * ?B + ?B \<le> k * ?B \<or> k * ?B + length tile \<le> ?j * ?B"
      using tiles_disjoint [of ?j k ?B] assms(4) by simp
    then show ?thesis using False segment_patch_other [of "k * ?B" buf "?j * ?B" ?B tile] fits [OF k] fits [OF j] by simp
  qed
  then show ?thesis
    unfolding faiss_pq4.get_tile [OF F M m row plen] using faiss_pq4.get_tile [OF F M m row len] by simp
qed

lemma patch_tile_metadata:
  assumes len: "length buf = 96 * nb" and "length tile = 96" and k: "k < nb" and row: "row < 32 * nb"
  shows "get_metadata (patch buf (k * 96) tile) row = (if row div 32 = k then get_metadata tile (row mod 32) else get_metadata buf row)"
proof -
  let ?j = "row div 32"
  have fits: "i * 96 + 96 \<le> length buf" if "i < nb" for i using that len by simp
  have j: "?j < nb" using row by (simp add: less_mult_imp_div_less mult.commute)
  have plen: "length (patch buf (k * 96) tile) = 96 * nb" using fits [OF k] assms(2) len by (simp add: length_patch)
  have "segment (patch buf (k * 96) tile) (?j * 96) 96 = (if ?j = k then tile else segment buf (?j * 96) 96)"
  proof (cases "?j = k")
    case True
    then show ?thesis using segment_patch_same [of "k * 96" buf tile] fits [OF k] assms(2) by simp
  next
    case False
    then have "?j * 96 + 96 \<le> k * 96 \<or> k * 96 + length tile \<le> ?j * 96" using assms(2) by linarith
    then show ?thesis using False segment_patch_other [of "k * 96" buf "?j * 96" 96 tile] fits [OF k] fits [OF j] by simp
  qed
  moreover have "metadata_at_lane tile (row mod 32) = get_metadata tile (row mod 32)"
    using metadata_at_lane_get [of "row mod 32" 1 tile] assms(2) segment_full [of tile] by simp
  ultimately show ?thesis
    using metadata_at_lane_get [OF row plen] metadata_at_lane_get [OF row len] by (cases "?j = k") simp_all
qed

text \<open>The rewritten tile of a block decodes to the block.\<close>

lemma rewrite_tile:
  assumes F: "faiss_pq4 F" and M: "dims_ok M" and codes: "length flat = 32 * (M div 2)" and tile: "length tile = 16 * M"
    and md: "length ms = 32" "length mtile = 96"
  shows "\<exists>t mt. rewrite_flat_block_bbs32 F (Inr False) flat M tile = Inr t \<and> length t = 16 * M
    \<and> (\<forall>lane < 32. \<forall>m < M. get_packed_element F t 32 M lane m = flat_code flat (M div 2) lane m)
    \<and> rewrite_metadata_block_bbs32 (Inr False) ms mtile = Inr mt \<and> length mt = 96
    \<and> (\<forall>lane < 32. get_metadata mt lane = ms ! lane)"
proof -
  have even: "even_subquantizers M" and small: "16 * M \<le> size_max" using M by (simp_all add: dims_ok_def size_max_def)
  have flat: "length flat = 16 * M" using codes even by (auto simp: even_subquantizers_def)
  let ?t = "packer_pack_all F M 32 flat tile"
  obtain mt where mt: "pack_metadata_bbs32 ms 32 (32 * 1) mtile = Inr mt" "length mt = 96"
      "\<And>row. row < 32 * 1 \<Longrightarrow> get_metadata mt row = (if row < 32 then ms ! row else empty_metadata)"
    using pack_metadata_rows [of 32 1 ms mtile] md by (auto simp: size_max_def)
  have "rewrite_flat_block_bbs32 F (Inr False) flat M tile = Inr ?t"
    using flat tile by (simp add: rewrite_flat_block_bbs32_def packed_code_block_bytes_ok [OF even small] block_lanes_def)
  moreover have "rewrite_metadata_block_bbs32 (Inr False) ms mtile = Inr mt"
    using mt(1) md by (simp add: rewrite_metadata_block_bbs32_def block_lanes_def metadata_block_bytes_def)
  ultimately show ?thesis
    using mt(2,3) faiss_pq4.pack_all_length [OF F even flat tile] faiss_pq4.pack_all_get [OF F even flat tile]
    by (intro exI conjI) (assumption | simp)+
qed

lemma rewrite_blocks_ok:
  assumes F: "faiss_pq4 F" and M: "dims_ok M" and ok: "scratch_ok F M ml0 K blocks"
    and "distinct ks" and "set ks \<subseteq> K" and "\<forall>k \<in> set ks. k < nb"
    and "length (ml_codes ml) = 16 * M * nb" and "length (ml_metadata ml) = 96 * nb"
  shows "\<exists>ml'. rewrite_blocks F M (16 * M) blocks ks ml = (Inr (), ml')
    \<and> length (ml_codes ml') = 16 * M * nb \<and> length (ml_metadata ml') = 96 * nb
    \<and> (\<forall>row < 32 * nb. (\<forall>m < M. get_packed_element F (ml_codes ml') 32 M row m
          = (if row div 32 \<in> set ks then flat_code (bs_updated_codes (the (blocks (row div 32)))) (M div 2) (row mod 32) m
             else get_packed_element F (ml_codes ml) 32 M row m))
        \<and> get_metadata (ml_metadata ml') row
          = (if row div 32 \<in> set ks then bs_updated_metadata (the (blocks (row div 32))) ! (row mod 32)
             else get_metadata (ml_metadata ml) row))"
  using assms(4-)
proof (induction ks arbitrary: ml)
  case (Cons k ks)
  have even: "even_subquantizers M" using M by (simp add: dims_ok_def)
  have k: "k \<in> K" "k < nb" using Cons.prems by simp_all
  obtain b where b: "blocks k = Some b" using ok k(1) by (auto simp: scratch_ok_def)
  have bl: "length (bs_updated_codes b) = 32 * (M div 2)" "length (bs_updated_metadata b) = 32"
    using ok k(1) b by (auto simp: scratch_ok_def)
  have fit: "k * (16 * M) + 16 * M \<le> length (ml_codes ml)" "k * 96 + 96 \<le> length (ml_metadata ml)"
    using code_tile_fits [OF Cons.prems(4) k(2)] Cons.prems(5) k(2) by simp_all
  obtain t mt where t: "rewrite_flat_block_bbs32 F (Inr False) (bs_updated_codes b) M (segment (ml_codes ml) (k * (16 * M)) (16 * M)) = Inr t"
    "length t = 16 * M" "\<And>lane m. lane < 32 \<Longrightarrow> m < M \<Longrightarrow> get_packed_element F t 32 M lane m = flat_code (bs_updated_codes b) (M div 2) lane m"
    "rewrite_metadata_block_bbs32 (Inr False) (bs_updated_metadata b) (segment (ml_metadata ml) (k * 96) 96) = Inr mt"
    "length mt = 96" "\<And>lane. lane < 32 \<Longrightarrow> get_metadata mt lane = bs_updated_metadata b ! lane"
    using rewrite_tile [OF F M bl(1) length_segment_in [OF fit(1)] bl(2) length_segment_in [OF fit(2)]] by auto
  let ?ml = "ml\<lparr>ml_codes := patch (ml_codes ml) (k * (16 * M)) t, ml_metadata := patch (ml_metadata ml) (k * 96) mt\<rparr>"
  have step: "rewrite_blocks F M (16 * M) blocks (k # ks) ml = rewrite_blocks F M (16 * M) blocks ks ?ml"
    using t(1,4) b by (simp add: block_at_def metadata_block_bytes_def block_lanes_def)
  have len: "length (ml_codes ?ml) = 16 * M * nb" "length (ml_metadata ?ml) = 96 * nb"
    using fit t(2,5) Cons.prems(4,5) by (simp_all add: length_patch)
  from Cons.IH [OF _ _ _ len] Cons.prems(1-3) obtain ml' where ml': "rewrite_blocks F M (16 * M) blocks ks ?ml = (Inr (), ml')"
    "length (ml_codes ml') = 16 * M * nb" "length (ml_metadata ml') = 96 * nb"
    "\<And>row m. row < 32 * nb \<Longrightarrow> m < M \<Longrightarrow> get_packed_element F (ml_codes ml') 32 M row m
          = (if row div 32 \<in> set ks then flat_code (bs_updated_codes (the (blocks (row div 32)))) (M div 2) (row mod 32) m
             else get_packed_element F (ml_codes ?ml) 32 M row m)"
    "\<And>row. row < 32 * nb \<Longrightarrow> get_metadata (ml_metadata ml') row
          = (if row div 32 \<in> set ks then bs_updated_metadata (the (blocks (row div 32))) ! (row mod 32)
             else get_metadata (ml_metadata ?ml) row)"
    by auto
  have codes: "get_packed_element F (ml_codes ?ml) 32 M row m
      = (if row div 32 = k then flat_code (bs_updated_codes b) (M div 2) (row mod 32) m else get_packed_element F (ml_codes ml) 32 M row m)"
    if "row < 32 * nb" "m < M" for row m
    using patch_tile_code [OF F even Cons.prems(4) t(2) k(2) that] t(3) that(2) by simp
  have mds: "get_metadata (ml_metadata ?ml) row = (if row div 32 = k then bs_updated_metadata b ! (row mod 32) else get_metadata (ml_metadata ml) row)"
    if "row < 32 * nb" for row
    using patch_tile_metadata [OF Cons.prems(5) t(5) k(2) that] t(6) by simp
  show ?case unfolding step using ml' codes mds b by (intro exI [of _ ml']) simp
qed simp

section \<open>Deletion moves the last rows into the holes\<close>

lemma affected_blocks_set:
  "set (affected_blocks p) = (\<lambda>h. unat h div 32) ` set (dp_holes p)
    \<union> (if dp_new p < dp_old p then {unat (dp_new p) div 32..(unat (dp_old p) - 1) div 32} else {})"
  by (auto simp: affected_blocks_def block_lanes_def)

lemma distinct_affected: "distinct (affected_blocks p)"
  by (simp add: affected_blocks_def)

lemma deleted_range_affected:
  assumes "unat (dp_new p) \<le> i" and "i < unat (dp_old p)"
  shows "i div 32 \<in> set (affected_blocks p)"
proof -
  have "dp_new p < dp_old p" using assms by (simp add: word_less_nat_alt)
  moreover have "unat (dp_new p) div 32 \<le> i div 32" "i div 32 \<le> (unat (dp_old p) - 1) div 32"
    using assms by (simp_all add: div_le_mono)
  ultimately show ?thesis by (simp add: affected_blocks_set)
qed

lemma affected_in_tiles:
  assumes "deletion_ok p" and "unat (dp_old p) \<le> 32 * nb" and "k \<in> set (affected_blocks p)"
  shows "k < nb"
proof -
  have "i div 32 < nb" if "i < unat (dp_old p)" for i
    using that assms(2) by (intro less_mult_imp_div_less) simp
  moreover have "unat h < unat (dp_old p)" if "h \<in> set (dp_holes p)" for h
    using that assms(1) by (auto simp: deletion_ok_def word_less_nat_alt)
  moreover have "unat (dp_old p) - 1 < unat (dp_old p)" if "dp_new p < dp_old p" using that by (simp add: word_less_nat_alt)
  ultimately show ?thesis using assms(3) by (fastforce simp: affected_blocks_set split: if_splits)
qed

text \<open>Codes only depend on the bytes of their row.\<close>

lemma flat_code_segment:
  assumes "lane * cs + cs \<le> length flat" and "m div 2 < cs"
  shows "flat_code (segment flat (lane * cs) cs) cs 0 m = flat_code flat cs lane m"
  using assms by (simp add: flat_code_def nth_segment)

lemma flat_code_zeros: "m div 2 < cs \<Longrightarrow> flat_code (replicate cs 0) cs 0 m = 0"
  by (simp add: flat_code_def nibble_def high_nibble_def low_nibble_def)

lemma old_row_codes:
  assumes F: "faiss_pq4 F" and M: "dims_ok M" and t: "tiles_ok F M ml nb" and i: "i < 32 * nb" and m: "m < M"
  shows "flat_code (fst (old_row F M ml i)) (M div 2) 0 m = get_packed_element F (ml_codes ml) 32 M i m"
    and "snd (old_row F M ml i) = get_metadata (ml_metadata ml) i"
proof -
  have even: "even_subquantizers M" using M by (simp add: dims_ok_def)
  have k: "i div 32 < nb" using i by (simp add: less_mult_imp_div_less mult.commute)
  have cs: "m div 2 < M div 2" using m even by (auto simp: even_subquantizers_def)
  have len: "length (segment (ml_codes ml) (i div 32 * (16 * M)) (16 * M)) = 16 * M"
    by (rule length_segment_in [OF tile_ranges(1) [OF t k]])
  have "flat_code (fst (old_row F M ml i)) (M div 2) 0 m = flat_code (tile_codes F M ml (i div 32)) (M div 2) (i mod 32) m"
    unfolding old_row_def fst_conv
    using lane_fits [of i "M div 2"] length_tile_codes [OF F M t k] cs by (intro flat_code_segment) simp_all
  also have "\<dots> = get_packed_element F (segment (ml_codes ml) (i div 32 * (16 * M)) (16 * M)) 32 M (i mod 32) m"
    unfolding tile_codes_def by (rule faiss_pq4.unpack_code [OF F even len _ m]) simp
  also have "\<dots> = get_packed_element F (ml_codes ml) 32 M i m"
    using faiss_pq4.get_tile [OF F even m i] t by (simp add: tiles_ok_def)
  finally show "flat_code (fst (old_row F M ml i)) (M div 2) 0 m = get_packed_element F (ml_codes ml) 32 M i m" .
  have md: "length (ml_metadata ml) = 96 * nb" using t by (simp add: tiles_ok_def)
  have "get_metadata (segment (ml_metadata ml) (i div 32 * 96) 96) (i mod 32)
      = metadata_at_lane (segment (ml_metadata ml) (i div 32 * 96) 96) (i mod 32)"
    using metadata_at_lane_get [of "i mod 32" 1 "segment (ml_metadata ml) (i div 32 * 96) 96"]
      length_segment_in [OF tile_ranges(2) [OF t k]] segment_full [of "segment (ml_metadata ml) (i div 32 * 96) 96"] by simp
  also have "\<dots> = get_metadata (ml_metadata ml) i" by (rule metadata_at_lane_get [OF i md])
  finally show "snd (old_row F M ml i) = get_metadata (ml_metadata ml) i" by (simp add: old_row_def tile_metadata_def)
qed

lemma row_origin_moves:
  assumes "map pm_destination ms = holes" and "map pm_source ms = sources"
  shows "map_of (map (\<lambda>m. (unat (pm_destination m), unat (pm_source m))) ms) = map_of (zip (map unat holes) (map unat sources))"
proof -
  have "map (\<lambda>m. (unat (pm_destination m), unat (pm_source m))) ms = zip (map unat holes) (map unat sources)"
    unfolding assms [symmetric] by (induction ms) simp_all
  then show ?thesis by simp
qed

lemma pack_deletion_ok:
  assumes F: "faiss_pq4 F" and M: "dims_ok M" and t: "tiles_ok F M ml nb"
    and p: "deletion_ok p" and old: "dp_old p = ml_size ml"
    and ms: "map pm_destination ms = dp_holes p" "map pm_source ms = dp_sources p"
  shows "\<exists>blocks. pack_deletion F M (M div 2) (16 * M) ml p ms = Inr blocks \<and> scratch_ok F M ml (set (affected_blocks p)) blocks
    \<and> (\<forall>i. i div 32 \<in> set (affected_blocks p) \<longrightarrow> new_row (M div 2) blocks i
        = (if unat (dp_new p) \<le> i \<and> i < unat (dp_old p) then (replicate (M div 2) 0, empty_metadata)
           else old_row F M ml (row_origin (dp_holes p) (dp_sources p) i)))"
proof -
  let ?K = "set (affected_blocks p)"
  have in32: "unat (dp_old p) \<le> 32 * nb" using t old by (simp add: tiles_ok_def)
  have "unat (dp_old p) \<le> 32 * 2 ^ 27" by (rule order_trans [OF u32_less_max]) (simp add: u32_max_def)
  then have ks: "\<forall>k \<in> ?K. k < nb \<and> k \<le> 2 ^ 27"
    using affected_in_tiles [OF p in32] affected_in_tiles [OF p, of "2 ^ 27"] by (meson less_imp_le)
  obtain b1 where b1: "res_fold (load_scratch F M (16 * M) ml) (affected_blocks p) (\<lambda>_. None) = Inr b1" "scratch_ok F M ml ?K b1"
    "\<And>i. i div 32 \<in> ?K \<Longrightarrow> new_row (M div 2) b1 i = old_row F M ml i"
    using load_all_ok [OF F M t ks] by blast
  have len: "\<forall>k \<in> ?K. length (tile_codes F M ml k) = 32 * (M div 2)" using length_tile_codes [OF F M t] ks by blast
  have "unat (pm_destination m) div 32 \<in> ?K \<and> unat (pm_source m) div 32 \<in> ?K" if "m \<in> set ms" for m
  proof -
    have "pm_destination m \<in> set (dp_holes p)" "pm_source m \<in> set (dp_sources p)" using that by (auto simp flip: ms)
    then show ?thesis using p deleted_range_affected [of p "unat (pm_source m)"]
      by (auto simp: affected_blocks_set deletion_ok_def word_le_nat_alt word_less_nat_alt)
  qed
  then have mv: "\<forall>m \<in> set ms. unat (pm_destination m) div 32 \<in> ?K \<and> unat (pm_source m) div 32 \<in> ?K" by blast
  have "distinct (map pm_destination ms)" unfolding ms using p by (simp add: deletion_ok_def)
  from move_rows_ok [OF len b1(2) mv this] obtain b2 where b2: "res_fold (move_row (M div 2)) ms b1 = Inr b2" "scratch_ok F M ml ?K b2"
    "\<And>i. i div 32 \<in> ?K \<Longrightarrow> new_row (M div 2) b2 i
        = (case map_of (zip (map unat (dp_holes p)) (map unat (dp_sources p))) i of Some s \<Rightarrow> old_row F M ml s | None \<Rightarrow> new_row (M div 2) b1 i)"
    unfolding row_origin_moves [OF ms] by blast
  have rows: "\<forall>row \<in> set [unat (dp_new p)..<unat (dp_old p)]. row div 32 \<in> ?K" using deleted_range_affected [of p] by simp
  obtain b3 where b3: "res_fold (clear_row (M div 2)) [unat (dp_new p)..<unat (dp_old p)] b2 = Inr b3" "scratch_ok F M ml ?K b3"
    "\<And>i. i div 32 \<in> ?K \<Longrightarrow> new_row (M div 2) b3 i = (if i \<in> set [unat (dp_new p)..<unat (dp_old p)] then (replicate (M div 2) 0, empty_metadata)
        else new_row (M div 2) b2 i)"
    using clear_rows_ok [OF b2(2) rows] by blast
  have "pack_deletion F M (M div 2) (16 * M) ml p ms = Inr b3"
    by (simp only: pack_deletion_def b1(1) b2(1) b3(1) res_bind_simps)
  moreover have "new_row (M div 2) b3 i = (if unat (dp_new p) \<le> i \<and> i < unat (dp_old p) then (replicate (M div 2) 0, empty_metadata)
           else old_row F M ml (row_origin (dp_holes p) (dp_sources p) i))" if "i div 32 \<in> ?K" for i
    using b1(3) [OF that] b2(3) [OF that] b3(3) [OF that] by (simp add: row_origin_def split: option.splits)
  ultimately show ?thesis using b3(2) by blast
qed

text \<open>
  The loops over scratch blocks and the commit succeed and leave a well-formed list of the new size
  whose row \<open>i\<close> is the old row \<open>row_origin i\<close>.
\<close>

lemma row_origin_bound:
  assumes p: "deletion_ok p" and i: "i < unat (dp_new p)"
  shows "row_origin (dp_holes p) (dp_sources p) i < unat (dp_old p)"
proof (cases "map_of (zip (map unat (dp_holes p)) (map unat (dp_sources p))) i")
  case None
  moreover have "unat (dp_new p) \<le> unat (dp_old p)" using p by (simp add: deletion_ok_def word_le_nat_alt)
  ultimately show ?thesis using i by (simp add: row_origin_def)
next
  case (Some s)
  then have "s \<in> set (map unat (dp_sources p))" by (auto dest!: map_of_SomeD set_zip_rightD)
  then have "s < unat (dp_old p)" using p by (auto simp: deletion_ok_def word_less_nat_alt)
  then show ?thesis by (simp add: row_origin_def Some)
qed

lemma row_origin_other: "i \<notin> unat ` set holes \<Longrightarrow> row_origin holes sources i = i"
proof -
  assume "i \<notin> unat ` set holes"
  then have "map_of (zip (map unat holes) (map unat sources)) i = None"
    by (auto simp: map_of_eq_None_iff dest!: set_zip_leftD)
  then show ?thesis by (simp add: row_origin_def)
qed

lemma posting_deletion_ok:
  assumes F: "faiss_pq4 F" and M: "dims_ok M" and ml: "posting_ok F M ml" and p: "deletion_ok p" and old: "dp_old p = ml_size ml"
    and pad: "dp_padded p = of_nat (round_up_block (unat (dp_new p)))"
    and ms: "map pm_destination ms = dp_holes p" "map pm_source ms = dp_sources p"
  shows "\<exists>blocks ml'. pack_deletion F M (M div 2) (16 * M) ml p ms = Inr blocks
    \<and> commit_posting F M (16 * M) p blocks ml = (Inr (), ml') \<and> posting_ok F M ml'
    \<and> ml_size ml' = dp_new p
    \<and> (\<forall>i < unat (dp_new p). row_code F M ml' i = row_code F M ml (row_origin (dp_holes p) (dp_sources p) i)
        \<and> row_metadata ml' i = row_metadata ml (row_origin (dp_holes p) (dp_sources p) i))"
proof -
  let ?K = "set (affected_blocks p)" and ?org = "row_origin (dp_holes p) (dp_sources p)"
  obtain nb where t: "tiles_ok F M ml nb" using ml by (auto simp: posting_ok_def)
  have even: "even_subquantizers M" using M by (simp add: dims_ok_def)
  have in32: "unat (dp_old p) \<le> 32 * nb" and lens: "length (ml_codes ml) = 16 * M * nb" "length (ml_metadata ml) = 96 * nb"
    using t old by (simp_all add: tiles_ok_def)
  have le: "unat (dp_new p) \<le> unat (dp_old p)" using p by (simp add: deletion_ok_def word_le_nat_alt)
  have ks: "\<forall>k \<in> ?K. k < nb" using affected_in_tiles [OF p in32] by blast
  obtain blocks where b: "pack_deletion F M (M div 2) (16 * M) ml p ms = Inr blocks" "scratch_ok F M ml ?K blocks"
    "\<And>i. i div 32 \<in> ?K \<Longrightarrow> new_row (M div 2) blocks i
        = (if unat (dp_new p) \<le> i \<and> i < unat (dp_old p) then (replicate (M div 2) 0, empty_metadata) else old_row F M ml (?org i))"
    using pack_deletion_ok [OF F M t p old ms] by blast
  obtain ml1 where r: "rewrite_blocks F M (16 * M) blocks (affected_blocks p) ml = (Inr (), ml1)"
    "length (ml_codes ml1) = 16 * M * nb" "length (ml_metadata ml1) = 96 * nb"
    "\<And>row m. row < 32 * nb \<Longrightarrow> m < M \<Longrightarrow> get_packed_element F (ml_codes ml1) 32 M row m
          = (if row div 32 \<in> ?K then flat_code (bs_updated_codes (the (blocks (row div 32)))) (M div 2) (row mod 32) m
             else get_packed_element F (ml_codes ml) 32 M row m)"
    "\<And>row. row < 32 * nb \<Longrightarrow> get_metadata (ml_metadata ml1) row
          = (if row div 32 \<in> ?K then bs_updated_metadata (the (blocks (row div 32))) ! (row mod 32)
             else get_metadata (ml_metadata ml) row)"
    using rewrite_blocks_ok [OF F M b(2) distinct_affected subset_refl ks lens] by blast
  have blk: "flat_code (bs_updated_codes (the (blocks (row div 32)))) (M div 2) (row mod 32) m = flat_code (fst (new_row (M div 2) blocks row)) (M div 2) 0 m
      \<and> bs_updated_metadata (the (blocks (row div 32))) ! (row mod 32) = snd (new_row (M div 2) blocks row)"
    if row: "row div 32 \<in> ?K" and m: "m < M" for row m
  proof -
    have "row div 32 \<in> dom blocks" using b(2) row by (simp add: scratch_ok_def)
    then obtain c where c: "blocks (row div 32) = Some c" by blast
    have "length (bs_updated_codes c) = 32 * (M div 2)" using b(2) row c by (simp add: scratch_ok_def)
    note c = c this
    have "m div 2 < M div 2" using m even by (auto simp: even_subquantizers_def)
    then show ?thesis using flat_code_segment [of "row mod 32" "M div 2" "bs_updated_codes c" m] lane_fits [of row "M div 2"] c
      by (simp add: new_row_def)
  qed
  have M0: "0 < M" using even by (simp add: even_subquantizers_def)
  text \<open>Every lane: cleared behind the new size, moved or kept before it.\<close>
  have lane: "get_packed_element F (ml_codes ml1) 32 M i m = (if i < unat (dp_new p) then get_packed_element F (ml_codes ml) 32 M (?org i) m else 0)
      \<and> get_metadata (ml_metadata ml1) i = (if i < unat (dp_new p) then get_metadata (ml_metadata ml) (?org i) else empty_metadata)"
    if i: "i < 32 * nb" and m: "m < M" for i m
  proof (cases "i div 32 \<in> ?K")
    case True
    show ?thesis
    proof (cases "unat (dp_new p) \<le> i \<and> i < unat (dp_old p)")
      case d: True
      have "m div 2 < M div 2" using m even by (auto simp: even_subquantizers_def)
      then show ?thesis using r(4) [OF i m] r(5) [OF i] True blk [OF True m] b(3) [OF True] d flat_code_zeros by simp
    next
      case nd: False
      have o: "?org i < 32 * nb"
      proof (cases "i < unat (dp_new p)")
        case True
        then show ?thesis using row_origin_bound [OF p] in32 by (meson less_le_trans)
      next
        case False
        then have "i \<notin> unat ` set (dp_holes p)" using p by (auto simp: deletion_ok_def word_less_nat_alt)
        then show ?thesis using i by (simp add: row_origin_other)
      qed
      have keep: "get_packed_element F (ml_codes ml1) 32 M i m = get_packed_element F (ml_codes ml) 32 M (?org i) m
          \<and> get_metadata (ml_metadata ml1) i = get_metadata (ml_metadata ml) (?org i)"
        using r(4) [OF i m] r(5) [OF i] True blk [OF True m] b(3) [OF True] nd old_row_codes [OF F M t o m] by auto
      show ?thesis
      proof (cases "i < unat (dp_new p)")
        case False
        then have "unat (ml_size ml) \<le> i" "i \<notin> unat ` set (dp_holes p)"
          using nd old p by (auto simp: deletion_ok_def word_less_nat_alt)
        then show ?thesis using keep False t i m by (simp add: row_origin_other tiles_ok_def)
      qed (use keep in simp)
    qed
  next
    case False
    then have nh: "i \<notin> unat ` set (dp_holes p)" by (auto simp: affected_blocks_set)
    have "\<not> (unat (dp_new p) \<le> i \<and> i < unat (dp_old p))" using deleted_range_affected False by blast
    then have "unat (ml_size ml) \<le> i \<or> i < unat (dp_new p)" using old by auto
    then show ?thesis
      using r(4) [OF i m] r(5) [OF i] False t i m le old by (auto simp: row_origin_other [OF nh] tiles_ok_def)
  qed
  define ml' where "ml' = ml1\<lparr>ml_size := dp_new p, ml_padded := dp_padded p\<rparr>"
  have commit: "commit_posting F M (16 * M) p blocks ml = (Inr (), ml')" by (simp add: commit_posting_def r(1) ml'_def)
  have t': "tiles_ok F M ml' nb"
    using r(2,3) le in32 lane M0 by (auto simp: tiles_ok_def ml'_def)
  have "unat (of_nat (round_up_block (unat (dp_new p))) :: u32) = round_up_block (unat (dp_new p))"
  proof (rule unat_u32_of_nat)
    have "round_up_block (unat (dp_new p)) \<le> round_up_block (unat (ml_size ml))"
      using le old by (simp add: round_up_block_def div_le_mono)
    also have "\<dots> = unat (ml_padded ml)" using ml by (simp add: posting_ok_def)
    finally show "round_up_block (unat (dp_new p)) \<le> u32_max" using u32_less_max [of "ml_padded ml"] by (rule order_trans)
  qed
  then have ok': "posting_ok F M ml'" using t' by (auto simp: posting_ok_def ml'_def pad)
  have rows: "row_code F M ml' i = row_code F M ml (?org i) \<and> row_metadata ml' i = row_metadata ml (?org i)" if "i < unat (dp_new p)" for i
    using that lane [of i] le in32 M0 by (auto simp: row_code_def row_metadata_def ml'_def block_lanes_def)
  show ?thesis using b(1) commit ok' rows by (intro exI [of _ blocks] exI [of _ ml']) (auto simp: ml'_def)
qed

end
