(* ===== verification/Erase_Batch.thy ===== *)
theory Erase_Batch
  imports List_Index Posting_Deletion
begin

text \<open>
  \<open>erase_batch\<close> of src/adapters/external\_list\_ivf.cpp. Every list of the batch is planned, its record
  pages and its affected tiles are prepared, and the directory entries of the moved rows are checked
  before the first external write; the commit writes the record pages, the directory and the resident
  lists, in this order.
\<close>

section \<open>Loops that collect\<close>

fun res_map :: "('a \<Rightarrow> 'b res) \<Rightarrow> 'a list \<Rightarrow> 'b list res" where
  "res_map f [] = Inr []"
| "res_map f (x # xs) = res_bind (f x) (\<lambda>y. res_bind (res_map f xs) (\<lambda>ys. Inr (y # ys)))"

fun io_map :: "('a \<Rightarrow> 'b io) \<Rightarrow> 'a list \<Rightarrow> 'b list io" where
  "io_map f [] = io_return []"
| "io_map f (x # xs) = io_bind (f x) (\<lambda>y. io_bind (io_map f xs) (\<lambda>ys. io_return (y # ys)))"

section \<open>Preparation\<close>

text \<open>\<open>PreparedDeletion\<close> when all stages have filled it.\<close>

record deletion =
  dn_plan :: deletion_plan
  dn_mutation :: prepared
  dn_moves :: "prepared_move list"
  dn_blocks :: scratch

abbreviation dn_list :: "deletion \<Rightarrow> u32" where
  "dn_list d \<equiv> dp_list (dn_plan d)"

definition deletion_slot :: "memory_list list \<Rightarrow> disk_location \<Rightarrow> u32 res" where
  "deletion_slot mls loc =
    (if \<not> location_active loc \<or> unat (dl_list loc) \<ge> length mls \<or> dl_offset loc \<ge> ml_size (mls ! unat (dl_list loc))
     then Inl (Invalid_argument ''deletion references an inactive location'') else Inr (dl_list loc))"

definition prepare_records :: "list_index \<Rightarrow> deletion_plan \<Rightarrow> (prepared \<times> prepared_move list) io" where
  "prepare_records ix p =
    io_bind (prepare_moves_and_truncate (ix_store ix) (dp_list p) (dp_old p) (dp_new p) (dp_record_moves p)
        (dp_offsets p @ dp_sources p)) (\<lambda>pr.
      if \<exists>i < length (dp_offsets p). pr_observed pr ! i \<noteq> dp_expected p ! i
      then io_throw (Logic_error ''external record Logical ID disagrees with its directory entry'')
      else io_return (pr, map (\<lambda>i. \<lparr>pm_destination = dp_holes p ! i, pm_source = dp_sources p ! i,
               pm_id = pr_observed pr ! (length (dp_offsets p) + i)\<rparr>) [0..<length (dp_holes p)]))"

definition prepare_blocks ::
    "index_ops \<Rightarrow> list_index \<Rightarrow> nat \<Rightarrow> deletion_plan \<times> prepared \<times> prepared_move list \<Rightarrow> deletion res" where
  "prepare_blocks ops ix block_bytes q =
    (case q of (p, pr, ms) \<Rightarrow>
      res_bind (pack_deletion (op_pq4 ops) (ix_subquantizers ix) (code_size ix) block_bytes (ix_lists ix ! unat (dp_list p)) p ms)
        (\<lambda>blocks. Inr \<lparr>dn_plan = p, dn_mutation = pr, dn_moves = ms, dn_blocks = blocks\<rparr>))"

definition moved_rows :: "deletion list \<Rightarrow> (u32 \<times> prepared_move) list" where
  "moved_rows ds = concat (map (\<lambda>d. map (Pair (dn_list d)) (dn_moves d)) ds)"

definition moved_ids :: "deletion list \<Rightarrow> u32 list" where
  "moved_ids ds = map (\<lambda>r. pm_id (snd r)) (moved_rows ds)"

definition check_moved :: "deletion list \<Rightarrow> disk_location list \<Rightarrow> unit res" where
  "check_moved ds locations =
    (if \<exists>i < length (moved_rows ds). \<not> location_active (locations ! i)
        \<or> dl_list (locations ! i) \<noteq> fst (moved_rows ds ! i)
        \<or> dl_offset (locations ! i) \<noteq> pm_source (snd (moved_rows ds ! i))
     then Inl (Logic_error ''external directory disagrees with a move source'') else Inr ())"

definition erase_updates :: "deletion list \<Rightarrow> update list" where
  "erase_updates ds = concat (map (\<lambda>d.
      map (\<lambda>i. (i, tombstone)) (dp_ids (dn_plan d))
      @ map (\<lambda>m. (pm_id m, \<lparr>dl_list = dn_list d, dl_offset = pm_destination m\<rparr>)) (dn_moves d)) ds)"

definition prepare_erase :: "index_ops \<Rightarrow> list_index \<Rightarrow> nat \<Rightarrow> u32 list \<Rightarrow> (nat \<times> deletion list) io" where
  "prepare_erase ops ix n ids =
    io_bind (read_batch (ix_directory ix) ids) (\<lambda>locations.
    io_bind (io_lift (res_map (deletion_slot (ix_lists ix)) locations)) (\<lambda>assignments.
    io_bind (io_lift (group_by_list assignments (length (ix_lists ix)))) (\<lambda>groups.
    io_bind (io_lift (packed_code_block_bytes (ix_subquantizers ix))) (\<lambda>block_bytes.
    io_bind (io_lift (res_map (plan_deletion ids locations (ix_lists ix) groups) (bp_touched groups))) (\<lambda>plans.
    io_bind (io_map (prepare_records ix) plans) (\<lambda>recs.
    io_bind (io_lift (res_map (prepare_blocks ops ix block_bytes) (zip plans recs))) (\<lambda>ds.
    io_bind (io_lift (res_fold (\<lambda>d total. checked_add total (length (dn_moves d)) ''deletion move count overflows'') ds 0)) (\<lambda>_.
    io_bind (read_batch (ix_directory ix) (moved_ids ds)) (\<lambda>moved.
    io_bind (io_lift (check_moved ds moved)) (\<lambda>_.
    io_bind (io_lift (checked_add n (length (moved_ids ds)) ''deletion directory update count overflows'')) (\<lambda>_.
      io_return (block_bytes, ds))))))))))))"

section \<open>Commit\<close>

definition commit_erase :: "index_ops \<Rightarrow> nat \<Rightarrow> nat \<Rightarrow> deletion list \<Rightarrow> list_index \<Rightarrow> disk \<Rightarrow> nat res \<times> list_index \<times> disk" where
  "commit_erase ops n block_bytes ds ix d =
    (case io_bind (io_fold (\<lambda>x _. commit_prepared_mutation (ix_store ix) (Some (dn_mutation x))) ds ())
        (\<lambda>_. write_batch (ix_directory ix) (erase_updates ds)) d of
       (Inl e, d') \<Rightarrow> (Inl e, ix, d')
     | (Inr _, d') \<Rightarrow>
         (case each_item dn_list
              (\<lambda>x. commit_posting (op_pq4 ops) (ix_subquantizers ix) block_bytes (dn_plan x) (dn_blocks x)) ds (ix_lists ix) of
            (Inl e, mls) \<Rightarrow> (Inl e, ix\<lparr>ix_lists := mls\<rparr>, d')
          | (Inr _, mls) \<Rightarrow> (Inr n, ix\<lparr>ix_lists := mls, ix_active := ix_active ix - n\<rparr>, d')))"

definition erase_batch :: "index_ops \<Rightarrow> nat \<Rightarrow> u32 list option \<Rightarrow> list_index \<Rightarrow> disk \<Rightarrow> nat res \<times> list_index \<times> disk" where
  "erase_batch ops n logical_ids ix d =
    (if n = 0 then (Inr 0, ix, d)
     else if logical_ids = None \<or> n > ix_active ix
     then (Inl (Invalid_argument ''invalid external-list deletion batch''), ix, d)
     else let ids = take n (the logical_ids)
     in if \<not> distinct ids
     then (Inl (Invalid_argument ''deletion batch contains duplicate Logical IDs''), ix, d)
     else case prepare_erase ops ix n ids d of
       (Inl e, d') \<Rightarrow> (Inl e, ix, d')
     | (Inr (block_bytes, ds), d') \<Rightarrow> commit_erase ops n block_bytes ds ix d')"

end
