(* ===== verification/Erase_Landed.thy ===== *)
theory Erase_Landed
  imports List_Index_Insert Erase_Batch
begin

text \<open>
  The state after a committed deletion: every list keeps the rows that survive, the holes filled by
  rows from its end, and the directory follows. Such a state is well formed and its abstract map is the
  old one without the deleted ids.
\<close>

section \<open>What a deletion leaves\<close>

abbreviation id_at :: "list_index \<Rightarrow> disk \<Rightarrow> nat \<Rightarrow> nat \<Rightarrow> u32" where
  "id_at ix d l i \<equiv> row_id (ix_store ix) (list_content ix d l) i"

text \<open>Holes \<open>H\<close>, sources \<open>S\<close> and new sizes \<open>N\<close> of the lists, for a set of deleted ids.\<close>

definition swap_plan :: "list_index \<Rightarrow> disk \<Rightarrow> u32 set \<Rightarrow> (nat \<Rightarrow> u32 list) \<Rightarrow> (nat \<Rightarrow> u32 list) \<Rightarrow> (nat \<Rightarrow> nat) \<Rightarrow> nat \<Rightarrow> bool" where
  "swap_plan ix d ids H S N l \<longleftrightarrow> N l \<le> list_rows ix l \<and> distinct (H l) \<and> distinct (S l) \<and> length (H l) = length (S l)
    \<and> unat ` set (H l) = {off. off < N l \<and> id_at ix d l off \<in> ids}
    \<and> unat ` set (S l) = {off. N l \<le> off \<and> off < list_rows ix l \<and> id_at ix d l off \<notin> ids}"

abbreviation origin :: "(nat \<Rightarrow> u32 list) \<Rightarrow> (nat \<Rightarrow> u32 list) \<Rightarrow> nat \<Rightarrow> nat \<Rightarrow> nat" where
  "origin H S l i \<equiv> row_origin (H l) (S l) i"

definition list_erased ::
    "index_ops \<Rightarrow> list_index \<Rightarrow> (nat \<Rightarrow> u32 list) \<Rightarrow> (nat \<Rightarrow> u32 list) \<Rightarrow> (nat \<Rightarrow> nat) \<Rightarrow> memory_list list \<Rightarrow> disk \<Rightarrow> disk \<Rightarrow> nat \<Rightarrow> bool" where
  "list_erased ops ix H S N mls d d' l \<longleftrightarrow> posting_ok (op_pq4 ops) (ix_subquantizers ix) (mls ! l) \<and> unat (ml_size (mls ! l)) = N l
    \<and> length (list_content ix d' l) = page_count (N l) (st_per_page (ix_store ix)) * page_size (ix_store ix)
    \<and> (\<forall>i < N l. row_code (op_pq4 ops) (ix_subquantizers ix) (mls ! l) i
          = row_code (op_pq4 ops) (ix_subquantizers ix) (ix_lists ix ! l) (origin H S l i)
        \<and> row_metadata (mls ! l) i = row_metadata (ix_lists ix ! l) (origin H S l i)
        \<and> record_at (ix_store ix) (list_content ix d' l) i = record_at (ix_store ix) (list_content ix d l) (origin H S l i))"

definition moved_to :: "list_index \<Rightarrow> disk \<Rightarrow> (nat \<Rightarrow> u32 list) \<Rightarrow> (nat \<Rightarrow> u32 list) \<Rightarrow> u32 \<Rightarrow> nat \<Rightarrow> nat \<Rightarrow> bool" where
  "moved_to ix d H S i l k \<longleftrightarrow> l < length (ix_lists ix) \<and> k < length (H l) \<and> i = id_at ix d l (unat (S l ! k))"

definition dir_erased :: "list_index \<Rightarrow> u32 set \<Rightarrow> (nat \<Rightarrow> u32 list) \<Rightarrow> (nat \<Rightarrow> u32 list) \<Rightarrow> disk \<Rightarrow> disk \<Rightarrow> bool" where
  "dir_erased ix ids H S d d' \<longleftrightarrow> dir_page_size (ix_directory ix) dvd length (dir_content ix d')
    \<and> (\<forall>i. unat i < ix_next_id ix \<longrightarrow> dir_has (dir_content ix d') i
        \<and> (i \<in> ids \<longrightarrow> dir_lookup (dir_content ix d') i = tombstone)
        \<and> (\<forall>l k. moved_to ix d H S i l k \<longrightarrow> dir_lookup (dir_content ix d') i = \<lparr>dl_list = of_nat l, dl_offset = H l ! k\<rparr>)
        \<and> (i \<notin> ids \<and> (\<forall>l k. \<not> moved_to ix d H S i l k) \<longrightarrow> dir_lookup (dir_content ix d') i = dir_lookup (dir_content ix d) i))"

definition erased ::
    "index_ops \<Rightarrow> list_index \<Rightarrow> u32 set \<Rightarrow> (nat \<Rightarrow> u32 list) \<Rightarrow> (nat \<Rightarrow> u32 list) \<Rightarrow> (nat \<Rightarrow> nat) \<Rightarrow> memory_list list \<Rightarrow> disk \<Rightarrow> disk \<Rightarrow> bool" where
  "erased ops ix ids H S N mls d d' \<longleftrightarrow> length mls = length (ix_lists ix)
    \<and> (\<forall>l < length mls. swap_plan ix d ids H S N l \<and> list_erased ops ix H S N mls d d' l)
    \<and> dir_erased ix ids H S d d' \<and> (\<Sum>l<length mls. N l) + card ids = ix_active ix"

definition shrunk :: "list_index \<Rightarrow> nat \<Rightarrow> memory_list list \<Rightarrow> list_index" where
  "shrunk ix n mls = ix\<lparr>ix_lists := mls, ix_active := ix_active ix - n\<rparr>"

lemma shrunk_simps [simp]:
  "ix_lists (shrunk ix n mls) = mls" "ix_next_id (shrunk ix n mls) = ix_next_id ix"
  "ix_active (shrunk ix n mls) = ix_active ix - n" "ix_store (shrunk ix n mls) = ix_store ix"
  "ix_directory (shrunk ix n mls) = ix_directory ix" "ix_quantizer (shrunk ix n mls) = ix_quantizer ix"
  "ix_options (shrunk ix n mls) = ix_options ix" "ix_trained (shrunk ix n mls) = ix_trained ix"
  "file_of (shrunk ix n mls) = file_of ix"
  by (simp_all add: shrunk_def file_of_def fun_eq_iff)

section \<open>Where a surviving id is\<close>

text \<open>A row below the new size is a filled hole or an untouched row that survives.\<close>

lemma origin_cases:
  assumes sw: "swap_plan ix d ids H S N l" and i: "i < N l"
  obtains k where "k < length (H l)" and "i = unat (H l ! k)" and "origin H S l i = unat (S l ! k)"
  | "i \<notin> unat ` set (H l)" and "origin H S l i = i" and "id_at ix d l i \<notin> ids"
proof (cases "i \<in> unat ` set (H l)")
  case True
  then obtain k where k: "k < length (H l)" "i = unat (H l ! k)" by (auto simp: in_set_conv_nth)
  have len: "length (H l) = length (S l)" and d: "distinct (H l)" using sw by (simp_all add: swap_plan_def)
  have "distinct (map fst (zip (map unat (H l)) (map unat (S l))))"
    using d len by (simp add: distinct_map inj_on_def word_unat_eq_iff)
  moreover have "(unat (H l ! k), unat (S l ! k)) \<in> set (zip (map unat (H l)) (map unat (S l)))"
    using k(1) len unfolding set_zip by (auto intro!: exI [of _ k])
  ultimately have "map_of (zip (map unat (H l)) (map unat (S l))) (unat (H l ! k)) = Some (unat (S l ! k))"
    by (rule map_of_is_SomeI)
  then have "origin H S l i = unat (S l ! k)" by (simp add: row_origin_def k(2))
  with that(1) k show thesis by blast
next
  case False
  then have "id_at ix d l i \<notin> ids" using sw i by (auto simp: swap_plan_def)
  with that(2) False row_origin_other [OF False] show thesis by blast
qed

lemma source_row:
  assumes "swap_plan ix d ids H S N l" and "k < length (H l)"
  shows "N l \<le> unat (S l ! k)" and "unat (S l ! k) < list_rows ix l" and "id_at ix d l (unat (S l ! k)) \<notin> ids"
    and "unat (H l ! k) < N l"
proof -
  have "k < length (S l)" using assms by (simp add: swap_plan_def)
  then have "unat (S l ! k) \<in> unat ` set (S l)" "unat (H l ! k) \<in> unat ` set (H l)"
    using assms(2) by simp_all
  then show "N l \<le> unat (S l ! k)" "unat (S l ! k) < list_rows ix l" "id_at ix d l (unat (S l ! k)) \<notin> ids"
    "unat (H l ! k) < N l"
    using assms(1) by (auto simp: swap_plan_def)
qed

lemma located_row:
  assumes "index_ok ops ix d" and "l < length (ix_lists ix)" and "i < list_rows ix l"
  shows "unat (id_at ix d l i) < ix_next_id ix"
    and "unat (dl_list (dir_lookup (dir_content ix d) (id_at ix d l i))) = l"
    and "unat (dl_offset (dir_lookup (dir_content ix d) (id_at ix d l i))) = i"
    and "location_active (dir_lookup (dir_content ix d) (id_at ix d l i))"
proof -
  have st: "index_static ops ix" and ls: "lists_ok ops ix" using assms(1) by (simp_all add: index_ok_def)
  have loc: "unat (id_at ix d l i) < ix_next_id ix"
      "dir_lookup (dir_content ix d) (id_at ix d l i) = \<lparr>dl_list = of_nat l, dl_offset = of_nat i\<rparr>"
    using assms by (simp_all add: index_ok_def rows_located_def)
  show "unat (id_at ix d l i) < ix_next_id ix" by (rule loc(1))
  show "unat (dl_list (dir_lookup (dir_content ix d) (id_at ix d l i))) = l"
    unfolding loc(2) using unat_list_number [OF st assms(2)] by simp
  have rows: "list_rows ix l \<le> u32_max" by (simp add: list_rows_def)
  then have off: "unat (of_nat i :: u32) = i" using assms(3) by (intro unat_u32_of_nat) simp
  then show "unat (dl_offset (dir_lookup (dir_content ix d) (id_at ix d l i))) = i" unfolding loc(2) by simp
  have m: "unat (- 1 :: u32) = u32_max" by (simp add: u32_max_def unat_word_ariths unat_eq_nat_uint uint_word_ariths)
  have "(of_nat i :: u32) \<noteq> - 1" using off m rows assms(3) by (metis less_le_not_le less_le_trans)
  moreover have "(of_nat l :: u32) \<noteq> - 1"
    using unat_list_number [OF st assms(2)] m st assms(2) by (metis index_static_def less_le_not_le less_le_trans)
  ultimately show "location_active (dir_lookup (dir_content ix d) (id_at ix d l i))"
    unfolding loc(2) by (simp add: location_active_def)
qed

lemma located_unique:
  assumes "index_ok ops ix d" and "l < length (ix_lists ix)" and "i < list_rows ix l"
    and "k < length (ix_lists ix)" and "j < list_rows ix k" and "id_at ix d l i = id_at ix d k j"
  shows "l = k \<and> i = j"
  using located_row(2,3) [OF assms(1-3)] located_row(2,3) [OF assms(1,4,5)] assms(6) by simp

section \<open>The invariant and the abstract map\<close>

lemma erased_rows:
  assumes "erased ops ix ids H S N mls d d'" and "l < length (ix_lists ix)"
  shows "list_rows (shrunk ix n mls) l = N l"
  using assms by (simp add: erased_def list_erased_def list_rows_def)

lemma erased_id:
  assumes "erased ops ix ids H S N mls d d'" and "l < length (ix_lists ix)" and "i < N l"
  shows "id_at ix d' l i = id_at ix d l (origin H S l i)"
  using assms by (simp add: erased_def list_erased_def row_id_def)

lemma erased_plan:
  assumes "erased ops ix ids H S N mls d d'" and "l < length (ix_lists ix)"
  shows "swap_plan ix d ids H S N l"
  using assms by (simp add: erased_def)

lemma erased_lists_ok:
  assumes ls: "lists_ok ops ix" and er: "erased ops ix ids H S N mls d d'"
  shows "lists_ok ops (shrunk ix (card ids) mls)"
proof -
  have len: "length mls = length (ix_lists ix)" using er by (simp add: erased_def)
  have "(\<Sum>l<length mls. list_rows (shrunk ix (card ids) mls) l) = (\<Sum>l<length mls. N l)"
    using erased_rows [OF er] len by (intro sum.cong refl) simp
  moreover have "\<forall>ml \<in> set mls. posting_ok (op_pq4 ops) (ix_subquantizers ix) ml"
    using er by (auto simp: erased_def list_erased_def in_set_conv_nth)
  moreover have "ix_active ix - card ids = (\<Sum>l<length mls. N l)" using er unfolding erased_def by linarith
  moreover have "ix_active ix - card ids \<le> ix_next_id ix" "ix_next_id ix \<le> u32_max" using ls unfolding lists_ok_def by linarith+
  ultimately show ?thesis by (simp add: lists_ok_def)
qed

text \<open>Where the directory points for a surviving id, and what it finds there.\<close>

lemma erased_survivor:
  assumes ix: "index_ok ops ix d" and er: "erased ops ix ids H S N mls d d'"
    and l: "l < length (ix_lists ix)" and off: "off < list_rows ix l" and id: "id_at ix d l off \<notin> ids"
  shows "\<exists>i < N l. origin H S l i = off \<and> dir_lookup (dir_content ix d') (id_at ix d l off) = \<lparr>dl_list = of_nat l, dl_offset = of_nat i\<rparr>"
proof -
  note sw = erased_plan [OF er l]
  let ?id = "id_at ix d l off"
  have lt: "unat ?id < ix_next_id ix" using located_row(1) [OF ix l off] .
  show ?thesis
  proof (cases "N l \<le> off")
    case True
    then have "off \<in> unat ` set (S l)" using sw off id by (simp add: swap_plan_def)
    then obtain s where s: "s \<in> set (S l)" "off = unat s" by blast
    then obtain k where "k < length (S l)" "S l ! k = s" by (auto simp: in_set_conv_nth)
    then have k: "k < length (H l)" "off = unat (S l ! k)" using sw s(2) by (simp_all add: swap_plan_def)
    have "moved_to ix d H S ?id l k" using l k by (simp add: moved_to_def)
    then have "dir_lookup (dir_content ix d') ?id = \<lparr>dl_list = of_nat l, dl_offset = H l ! k\<rparr>"
      using er lt by (simp add: erased_def dir_erased_def)
    moreover have "origin H S l (unat (H l ! k)) = off"
    proof (rule origin_cases [OF sw source_row(4) [OF sw k(1)]])
      fix j assume j: "j < length (H l)" "unat (H l ! k) = unat (H l ! j)" "origin H S l (unat (H l ! k)) = unat (S l ! j)"
      then have "k = j" using sw k(1) by (simp add: swap_plan_def nth_eq_iff_index_eq word_unat_eq_iff flip: word_unat_eq_iff)
      then show ?thesis using j(3) k(2) by simp
    next
      assume "unat (H l ! k) \<notin> unat ` set (H l)"
      then show ?thesis using k(1) by (meson imageI nth_mem)
    qed
    ultimately show ?thesis using source_row(4) [OF sw k(1)] by (intro exI [of _ "unat (H l ! k)"]) simp
  next
    case False
    then have off': "off < N l" by simp
    have "off \<notin> unat ` set (H l)" using sw id by (auto simp: swap_plan_def)
    then have "origin H S l off = off" by (rule row_origin_other)
    moreover have "\<not> moved_to ix d H S ?id m k" for m k
    proof
      assume m: "moved_to ix d H S ?id m k"
      then have mk: "m < length (ix_lists ix)" "k < length (H m)" "?id = id_at ix d m (unat (S m ! k))" by (simp_all add: moved_to_def)
      note src = source_row [OF erased_plan [OF er mk(1)] mk(2)]
      have "l = m \<and> off = unat (S m ! k)" by (rule located_unique [OF ix l off mk(1) src(2) mk(3)])
      then show False using src(1) off' by simp
    qed
    then have "dir_lookup (dir_content ix d') ?id = dir_lookup (dir_content ix d) ?id"
      using er lt id by (simp add: erased_def dir_erased_def)
    moreover have "dir_lookup (dir_content ix d) ?id = \<lparr>dl_list = of_nat l, dl_offset = of_nat off\<rparr>"
      using ix l off by (simp add: index_ok_def rows_located_def)
    ultimately show ?thesis using off' by (intro exI [of _ off]) simp
  qed
qed

lemma erased_rows_located:
  assumes ix: "index_ok ops ix d" and er: "erased ops ix ids H S N mls d d'"
  shows "rows_located (shrunk ix n mls) d'"
  unfolding rows_located_def
proof (intro allI impI)
  fix l i assume l': "l < length (ix_lists (shrunk ix n mls))" and i': "i < list_rows (shrunk ix n mls) l"
  have l: "l < length (ix_lists ix)" using l' er by (simp add: erased_def)
  have i: "i < N l" using i' erased_rows [OF er l] by simp
  note sw = erased_plan [OF er l]
  have NR: "N l \<le> list_rows ix l" using sw by (simp add: swap_plan_def)
  have org: "origin H S l i < list_rows ix l \<and> id_at ix d l (origin H S l i) \<notin> ids"
    by (rule origin_cases [OF sw i]) (use source_row(2,3) [OF sw] i NR in simp_all)
  have id: "id_at ix d' l i = id_at ix d l (origin H S l i)" by (rule erased_id [OF er l i])
  have "dir_lookup (dir_content ix d') (id_at ix d' l i) = \<lparr>dl_list = of_nat l, dl_offset = of_nat i\<rparr>"
  proof (rule origin_cases [OF sw i])
    fix k assume k: "k < length (H l)" "i = unat (H l ! k)" "origin H S l i = unat (S l ! k)"
    have "moved_to ix d H S (id_at ix d' l i) l k" using l k id by (simp add: moved_to_def)
    moreover have "unat (id_at ix d' l i) < ix_next_id ix" unfolding id using located_row(1) [OF ix l] org by blast
    ultimately show ?thesis using er k(2) by (simp add: erased_def dir_erased_def)
  next
    assume o: "i \<notin> unat ` set (H l)" "origin H S l i = i" "id_at ix d l i \<notin> ids"
    obtain j where j: "j < N l" "origin H S l j = i" "dir_lookup (dir_content ix d') (id_at ix d l i) = \<lparr>dl_list = of_nat l, dl_offset = of_nat j\<rparr>"
      using erased_survivor [OF ix er l _ o(3)] i NR by (meson less_le_trans)
    have "j = i"
    proof (rule origin_cases [OF sw j(1)])
      fix k assume "k < length (H l)" "origin H S l j = unat (S l ! k)"
      then show ?thesis using source_row(1) [OF sw] j(2) i by (metis not_le)
    qed (use j(2) in simp)
    then show ?thesis using j(3) id o(2) by simp
  qed
  then show "unat (row_id (ix_store (shrunk ix n mls)) (list_content (shrunk ix n mls) d' l) i) < ix_next_id (shrunk ix n mls)
      \<and> dir_lookup (dir_content (shrunk ix n mls) d') (row_id (ix_store (shrunk ix n mls)) (list_content (shrunk ix n mls) d' l) i)
        = \<lparr>dl_list = of_nat l, dl_offset = of_nat i\<rparr>"
    using located_row(1) [OF ix l] org id by simp
qed

text \<open>What the old state says about an id that is active.\<close>

lemma active_row:
  assumes "index_ok ops ix d" and "unat i < ix_next_id ix" and "location_active (dir_lookup (dir_content ix d) i)"
  defines "l \<equiv> unat (dl_list (dir_lookup (dir_content ix d) i))" and "off \<equiv> unat (dl_offset (dir_lookup (dir_content ix d) i))"
  shows "l < length (ix_lists ix)" and "off < list_rows ix l" and "id_at ix d l off = i"
  using assms unfolding index_ok_def ids_located_def Let_def by blast+

lemma tombstone_inactive: "\<not> location_active tombstone"
  by (simp add: location_active_def tombstone_def)

text \<open>An id that is inactive in the old state is not moved.\<close>

lemma inactive_not_moved:
  assumes ix: "index_ok ops ix d" and er: "erased ops ix ids H S N mls d d'"
    and "\<not> location_active (dir_lookup (dir_content ix d) i)"
  shows "\<not> moved_to ix d H S i l k"
proof
  assume m: "moved_to ix d H S i l k"
  then have "l < length (ix_lists ix)" "k < length (H l)" "i = id_at ix d l (unat (S l ! k))" by (simp_all add: moved_to_def)
  moreover from this have "unat (S l ! k) < list_rows ix l" using source_row(2) [OF erased_plan [OF er]] by blast
  ultimately show False using located_row(4) [OF ix] assms(3) by blast
qed

lemma erased_location:
  assumes ix: "index_ok ops ix d" and er: "erased ops ix ids H S N mls d d'" and i: "unat i < ix_next_id ix"
  shows "dir_has (dir_content ix d') i"
    and "i \<in> ids \<or> \<not> location_active (dir_lookup (dir_content ix d) i) \<Longrightarrow> \<not> location_active (dir_lookup (dir_content ix d') i)"
    and "i \<notin> ids \<Longrightarrow> location_active (dir_lookup (dir_content ix d) i) \<Longrightarrow>
      \<exists>l j. l < length (ix_lists ix) \<and> j < N l \<and> dir_lookup (dir_content ix d') i = \<lparr>dl_list = of_nat l, dl_offset = of_nat j\<rparr>
        \<and> l = unat (dl_list (dir_lookup (dir_content ix d) i)) \<and> origin H S l j = unat (dl_offset (dir_lookup (dir_content ix d) i))
        \<and> id_at ix d' l j = i"
proof -
  show "dir_has (dir_content ix d') i" using er i by (simp add: erased_def dir_erased_def)
  show "\<not> location_active (dir_lookup (dir_content ix d') i)"
    if "i \<in> ids \<or> \<not> location_active (dir_lookup (dir_content ix d) i)"
  proof (cases "i \<in> ids")
    case True
    then show ?thesis using er i tombstone_inactive by (simp add: erased_def dir_erased_def)
  next
    case False
    then have "\<not> location_active (dir_lookup (dir_content ix d) i)" using that by simp
    then show ?thesis using er i False inactive_not_moved [OF ix er] by (simp add: erased_def dir_erased_def)
  qed
  assume id: "i \<notin> ids" and act: "location_active (dir_lookup (dir_content ix d) i)"
  note a = active_row [OF ix i act]
  let ?l = "unat (dl_list (dir_lookup (dir_content ix d) i))" and ?off = "unat (dl_offset (dir_lookup (dir_content ix d) i))"
  obtain j where j: "j < N ?l" "origin H S ?l j = ?off"
      "dir_lookup (dir_content ix d') i = \<lparr>dl_list = of_nat ?l, dl_offset = of_nat j\<rparr>"
    using erased_survivor [OF ix er a(1,2)] id a(3) by auto
  have "id_at ix d' ?l j = i" using erased_id [OF er a(1) j(1)] j(2) a(3) by simp
  then show "\<exists>l j. l < length (ix_lists ix) \<and> j < N l \<and> dir_lookup (dir_content ix d') i = \<lparr>dl_list = of_nat l, dl_offset = of_nat j\<rparr>
        \<and> l = ?l \<and> origin H S l j = ?off \<and> id_at ix d' l j = i"
    using a(1) j by blast
qed

lemma small_location:
  assumes "index_ok ops ix d" and "l < length (ix_lists ix)" and "j < list_rows ix l"
  shows "unat (of_nat l :: u32) = l" and "unat (of_nat j :: u32) = j"
proof -
  show "unat (of_nat l :: u32) = l" using unat_list_number [of ops ix l] assms(1,2) by (simp add: index_ok_def)
  have "list_rows ix l \<le> u32_max" by (simp add: list_rows_def)
  then show "unat (of_nat j :: u32) = j" using assms(3) by (intro unat_u32_of_nat) simp
qed

lemma active_location:
  assumes "index_ok ops ix d" and "l < length (ix_lists ix)" and "j < list_rows ix l"
  shows "location_active \<lparr>dl_list = of_nat l, dl_offset = of_nat j\<rparr>"
  using located_row(4) [OF assms] assms by (simp add: index_ok_def rows_located_def)

lemma erased_index_ok:
  assumes ix: "index_ok ops ix d" and er: "erased ops ix ids H S N mls d d'"
  shows "index_ok ops (shrunk ix (card ids) mls) d'"
proof -
  have len: "length mls = length (ix_lists ix)" using er by (simp add: erased_def)
  have "index_static ops (shrunk ix (card ids) mls)" using ix len by (simp add: index_ok_def index_static_def)
  moreover have "lists_ok ops (shrunk ix (card ids) mls)" using erased_lists_ok [OF _ er] ix by (simp add: index_ok_def)
  moreover have "files_ok (shrunk ix (card ids) mls) d'"
    using er erased_rows [OF er] by (simp add: files_ok_def erased_def dir_erased_def list_erased_def)
  moreover have "ids_located (shrunk ix (card ids) mls) d'"
    unfolding ids_located_def Let_def
  proof (intro allI impI)
    fix i :: u32 assume "unat i < ix_next_id (shrunk ix (card ids) mls)"
    then have i: "unat i < ix_next_id ix" by simp
    note e = erased_location [OF ix er i]
    show "dir_has (dir_content (shrunk ix (card ids) mls) d') i
      \<and> (location_active (dir_lookup (dir_content (shrunk ix (card ids) mls) d') i) \<longrightarrow>
        unat (dl_list (dir_lookup (dir_content (shrunk ix (card ids) mls) d') i)) < length (ix_lists (shrunk ix (card ids) mls))
        \<and> unat (dl_offset (dir_lookup (dir_content (shrunk ix (card ids) mls) d') i))
            < list_rows (shrunk ix (card ids) mls) (unat (dl_list (dir_lookup (dir_content (shrunk ix (card ids) mls) d') i)))
        \<and> row_id (ix_store (shrunk ix (card ids) mls)) (list_content (shrunk ix (card ids) mls) d'
              (unat (dl_list (dir_lookup (dir_content (shrunk ix (card ids) mls) d') i))))
            (unat (dl_offset (dir_lookup (dir_content (shrunk ix (card ids) mls) d') i))) = i)"
    proof (cases "i \<notin> ids \<and> location_active (dir_lookup (dir_content ix d) i)")
      case True
      then obtain l j where lj: "l < length (ix_lists ix)" "j < N l"
        "dir_lookup (dir_content ix d') i = \<lparr>dl_list = of_nat l, dl_offset = of_nat j\<rparr>" "id_at ix d' l j = i"
        using e(3) by blast
      have "j < list_rows ix l" using lj(2) erased_plan [OF er lj(1)] by (simp add: swap_plan_def)
      note sm = small_location [OF ix lj(1) this]
      show ?thesis using e(1) lj sm len erased_rows [OF er lj(1)] by simp
    next
      case False
      then show ?thesis using e(1,2) by simp
    qed
  qed
  ultimately show ?thesis using erased_rows_located [OF ix er] by (simp add: index_ok_def)
qed

lemma erased_lookup:
  assumes ix: "index_ok ops ix d" and er: "erased ops ix ids H S N mls d d'"
  shows "index_lookup ops (shrunk ix n mls) d' i = (if i \<in> ids then None else index_lookup ops ix d i)"
proof (cases "unat i < ix_next_id ix")
  case i: True
  note e = erased_location [OF ix er i]
  show ?thesis
  proof (cases "i \<notin> ids \<and> location_active (dir_lookup (dir_content ix d) i)")
    case True
    then obtain l j where lj: "l < length (ix_lists ix)" "j < N l"
      "dir_lookup (dir_content ix d') i = \<lparr>dl_list = of_nat l, dl_offset = of_nat j\<rparr>"
      "l = unat (dl_list (dir_lookup (dir_content ix d) i))" "origin H S l j = unat (dl_offset (dir_lookup (dir_content ix d) i))"
      using e(3) by blast
    have j: "j < list_rows ix l" using lj(2) erased_plan [OF er lj(1)] by (simp add: swap_plan_def)
    note sm = small_location [OF ix lj(1) j]
    have "entry_at ops (shrunk ix n mls) d' l j = entry_at ops ix d l (origin H S l j)"
      using er lj(1,2) by (simp add: entry_at_def erased_def list_erased_def)
    then show ?thesis
      using True i active_location [OF ix lj(1) j] by (simp add: index_lookup_def Let_def lj(3) sm lj(5) flip: lj(4))
  next
    case False
    then show ?thesis using e(2) by (auto simp: index_lookup_def Let_def)
  qed
next
  case False
  then show ?thesis by (simp add: index_lookup_def Let_def)
qed

end
