(* ===== verification/Erase_Prepare.thy ===== *)
theory Erase_Prepare
  imports Erase_Landed
begin

text \<open>
  The preparation of \<open>erase_batch\<close>: it only reads, and when it returns every plan agrees with the rows
  of its list.
\<close>

section \<open>Collecting loops\<close>

lemma res_map_Inr: "res_map f xs = Inr ys \<longleftrightarrow> list_all2 (\<lambda>x y. f x = Inr y) xs ys"
proof (induction xs arbitrary: ys)
  case (Cons x xs)
  then show ?case by (cases "f x"; cases "res_map f xs"; cases ys) auto
qed auto

lemma res_map_total: "(\<And>x. x \<in> set xs \<Longrightarrow> \<exists>y. f x = Inr y) \<Longrightarrow> \<exists>ys. res_map f xs = Inr ys"
  by (induction xs) fastforce+

section \<open>Steps that only read\<close>

text \<open>
  \<open>reading d0 f Q G\<close>: run on the files of \<open>d0\<close>, step \<open>f\<close> leaves them, a result satisfies \<open>Q\<close>, and under
  \<open>G\<close> the step returns when no file operation fails.
\<close>

definition reading :: "disk \<Rightarrow> 'a io \<Rightarrow> ('a \<Rightarrow> bool) \<Rightarrow> bool \<Rightarrow> bool" where
  "reading d0 f Q G \<longleftrightarrow> (\<forall>d r d'. files d = files d0 \<longrightarrow> f d = (r, d') \<longrightarrow>
    files d' = files d0 \<and> (benign d \<longrightarrow> benign d') \<and> (\<forall>y. r = Inr y \<longrightarrow> Q y) \<and> (benign d \<and> G \<longrightarrow> (\<exists>y. r = Inr y)))"

lemma readingI:
  assumes "\<And>d r d'. files d = files d0 \<Longrightarrow> f d = (r, d') \<Longrightarrow>
    files d' = files d0 \<and> (benign d \<longrightarrow> benign d') \<and> (\<forall>y. r = Inr y \<longrightarrow> Q y) \<and> (benign d \<and> G \<longrightarrow> (\<exists>y. r = Inr y))"
  shows "reading d0 f Q G"
  using assms unfolding reading_def by blast

lemma readingD:
  assumes "reading d0 f Q G" and "files d = files d0" and "f d = (r, d')"
  shows "files d' = files d0 \<and> (benign d \<longrightarrow> benign d') \<and> (\<forall>y. r = Inr y \<longrightarrow> Q y) \<and> (benign d \<and> G \<longrightarrow> (\<exists>y. r = Inr y))"
  using assms unfolding reading_def by blast

lemma reading_bind:
  assumes f: "reading d0 f Q G" and g: "\<And>y. Q y \<Longrightarrow> reading d0 (g y) R G"
  shows "reading d0 (io_bind f g) R G"
proof (rule readingI)
  fix d r d' assume d: "files d = files d0" and run: "io_bind f g d = (r, d')"
  from run show "files d' = files d0 \<and> (benign d \<longrightarrow> benign d') \<and> (\<forall>y. r = Inr y \<longrightarrow> R y) \<and> (benign d \<and> G \<longrightarrow> (\<exists>y. r = Inr y))"
  proof (cases rule: io_bind_cases)
    case (1 e)
    then show ?thesis using readingD [OF f d 1(1)] by auto
  next
    case (2 y d1)
    note one = readingD [OF f d 2(1)]
    then show ?thesis using readingD [OF g _ 2(2)] by auto
  qed
qed

lemma reading_lift: "(\<And>y. e = Inr y \<Longrightarrow> Q y) \<Longrightarrow> (G \<Longrightarrow> \<exists>y. e = Inr y) \<Longrightarrow> reading d0 (io_lift e) Q G"
  by (auto intro!: readingI)

lemma reading_weaken:
  assumes "reading d0 f Q G" and "\<And>y. Q y \<Longrightarrow> R y" and "G' \<Longrightarrow> G"
  shows "reading d0 f R G'"
  using assms unfolding reading_def by blast

lemma reading_return: "Q y \<Longrightarrow> reading d0 (io_return y) Q G"
  by (auto intro!: readingI)

lemma reading_map:
  "(\<And>x. x \<in> set xs \<Longrightarrow> reading d0 (f x) (Q x) G) \<Longrightarrow> reading d0 (io_map f xs) (list_all2 Q xs) G"
proof (induction xs)
  case Nil
  show ?case by (simp only: io_map.simps) (rule reading_return, simp)
next
  case (Cons x xs)
  then have "reading d0 (f x) (Q x) G" "reading d0 (io_map f xs) (list_all2 Q xs) G" by simp_all
  then show ?case by (simp only: io_map.simps) (rule reading_bind, assumption, rule reading_bind, assumption, rule reading_return, simp)
qed

lemma read_batch_benign:
  assumes args: "directory_args_ok dir" and run: "read_batch dir ids d = (r, d')"
  shows "benign d \<longrightarrow> benign d'"
proof (cases "ids = []")
  case True
  then show ?thesis using run by (auto simp: read_batch_def)
next
  case False
  have "io_bind (directory_size dir) (\<lambda>fsize.
       io_bind (io_lift (aligned_buffer (dir_page_size dir) (dir_page_size dir))) (\<lambda>_.
         read_groups dir fsize (requests_of dir ids) (replicate (length ids) tombstone))) d = (r, d')"
    using run False by (simp add: read_batch_def)
  then show ?thesis
  proof (cases rule: io_bind_cases)
    case (1 e)
    then show ?thesis using directory_size_result [OF 1(1)] by blast
  next
    case (2 k d1)
    have rg: "read_groups dir k (requests_of dir ids) (replicate (length ids) tombstone) d1 = (r, d')"
      using 2(2) by (simp add: aligned_buffer_ok [OF args])
    have pages: "\<forall>q \<in> set (requests_of dir ids). rq_page q = unat (rq_id q) div entries_per_page dir"
      by (auto simp: requests_of_set)
    show ?thesis using read_groups_result [OF rg args pages] directory_size_result [OF 2(1)] by blast
  qed
qed

lemma reading_read_batch:
  assumes args: "directory_args_ok dir"
    and G: "G \<Longrightarrow> dir_page_size dir dvd length (content d0 (dir_path dir)) \<and> (\<forall>i \<in> set ids. dir_has (content d0 (dir_path dir)) i)"
  shows "reading d0 (read_batch dir ids) (\<lambda>ls. ls = map (dir_lookup (content d0 (dir_path dir))) ids) G"
proof (rule readingI)
  fix d r d' assume d: "files d = files d0" and run: "read_batch dir ids d = (r, d')"
  have c: "content d (dir_path dir) = content d0 (dir_path dir)" using d by (simp add: content_def)
  note R = read_batch_result [OF args run, unfolded c]
  have "\<exists>y. r = Inr y" if "benign d" and G': G
  proof (cases "ids = []")
    case True
    then show ?thesis using run by (auto simp: read_batch_def)
  next
    case False
    then obtain i where "dir_has (content d0 (dir_path dir)) i" using G [OF G'] by (meson list.set_sel(1))
    then have "content d0 (dir_path dir) \<noteq> []" by (auto simp: dir_has_def entry_bytes_def)
    then have "files d (dir_path dir) \<noteq> None" unfolding d by (auto simp: content_def split: option.splits)
    then show ?thesis using R that G [OF G'] by blast
  qed
  moreover have "benign d \<longrightarrow> benign d'" by (rule read_batch_benign [OF args run])
  ultimately show "files d' = files d0 \<and> (benign d \<longrightarrow> benign d')
      \<and> (\<forall>y. r = Inr y \<longrightarrow> y = map (dir_lookup (content d0 (dir_path dir))) ids) \<and> (benign d \<and> G \<longrightarrow> (\<exists>y. r = Inr y))"
    using R d by simp
qed

section \<open>The plans\<close>

abbreviation loc_of :: "list_index \<Rightarrow> disk \<Rightarrow> u32 \<Rightarrow> disk_location" where
  "loc_of ix d i \<equiv> dir_lookup (dir_content ix d) i"

definition slots_ok :: "list_index \<Rightarrow> disk \<Rightarrow> u32 list \<Rightarrow> bool" where
  "slots_ok ix d ids \<longleftrightarrow> (\<forall>i \<in> set ids. location_active (loc_of ix d i) \<and> unat (dl_list (loc_of ix d i)) < length (ix_lists ix)
    \<and> dl_offset (loc_of ix d i) < ml_size (ix_lists ix ! unat (dl_list (loc_of ix d i))))"

lemma slots_result:
  "res_map (deletion_slot (ix_lists ix)) (map (loc_of ix d) ids)
    = (if slots_ok ix d ids then Inr (map (\<lambda>i. dl_list (loc_of ix d i)) ids)
       else Inl (Invalid_argument ''deletion references an inactive location''))"
  by (induction ids) (auto simp: slots_ok_def deletion_slot_def not_less not_le)

definition planned_deletion :: "list_index \<Rightarrow> disk \<Rightarrow> u32 list \<Rightarrow> nat \<Rightarrow> deletion_plan \<Rightarrow> bool" where
  "planned_deletion ix d ids l p \<longleftrightarrow> deletion_ok p \<and> dp_list p = of_nat l \<and> dp_old p = ml_size (ix_lists ix ! l)
    \<and> dp_padded p = of_nat (round_up_block (unat (dp_new p)))
    \<and> set (dp_ids p) = {i \<in> set ids. unat (dl_list (loc_of ix d i)) = l}
    \<and> set (zip (dp_offsets p) (dp_expected p)) = {(dl_offset (loc_of ix d i), i) | i. i \<in> set ids \<and> unat (dl_list (loc_of ix d i)) = l}
    \<and> length (dp_expected p) = length (dp_offsets p) \<and> distinct (dp_ids p) \<and> 0 < length (dp_offsets p)"

lemma plan_stage:
  assumes st: "index_static ops ix" and ids: "distinct ids" and slots: "slots_ok ix d ids" and l: "l < length (ix_lists ix)"
  defines "as \<equiv> map (\<lambda>i. dl_list (loc_of ix d i)) ids"
  assumes c: "0 < count_of as l"
  shows "plan_deletion ids (map (loc_of ix d) ids) (ix_lists ix) (grouped_plan as (length (ix_lists ix))) (of_nat l) = Inr p
      \<Longrightarrow> planned_deletion ix d ids l p"
    and "\<forall>i \<in> set ids. id_at ix d (unat (dl_list (loc_of ix d i))) (unat (dl_offset (loc_of ix d i))) = i
      \<Longrightarrow> \<exists>p. plan_deletion ids (map (loc_of ix d) ids) (ix_lists ix) (grouped_plan as (length (ix_lists ix))) (of_nat l) = Inr p"
proof -
  let ?locs = "map (loc_of ix d) ids" and ?g = "grouped_plan as (length (ix_lists ix))" and ?ins = "inputs_of as l"
  have ul: "unat (of_nat l :: u32) = l" by (rule unat_list_number [OF st l])
  have off: "bp_offsets ?g ! unat (of_nat l :: u32) = start_of as l"
      "bp_offsets ?g ! (unat (of_nat l :: u32) + 1) = start_of as l + count_of as l"
    using l unfolding ul by (simp_all add: grouped_plan_def nth_append start_of_Suc del: upt_Suc)
  have seg: "?ins = segment (bp_order ?g) (start_of as l) (count_of as l)"
    using segment_stable_order [OF l, of as] by (simp add: grouped_plan_def)
  have mem: "i \<in> set ?ins \<longleftrightarrow> i < length ids \<and> unat (dl_list (loc_of ix d (ids ! i))) = l" for i
    by (auto simp: inputs_of_def as_def)
  have img: "f ` set ?ins = {g i | i. i \<in> set ids \<and> unat (dl_list (loc_of ix d i)) = l}"
    if "\<And>i. i < length ids \<Longrightarrow> f i = g (ids ! i)" for f :: "nat \<Rightarrow> 'a" and g
  proof -
    have ins: "(!) ids ` set ?ins = {i \<in> set ids. unat (dl_list (loc_of ix d i)) = l}"
    proof -
      have "set ?ins = {i. i < length ids \<and> unat (dl_list (loc_of ix d (ids ! i))) = l}" using mem by blast
      then show ?thesis by (auto simp: in_set_conv_nth)
    qed
    have "f ` set ?ins = g ` (!) ids ` set ?ins"
      unfolding image_image using that by (intro image_cong refl) (simp add: mem)
    then show ?thesis unfolding ins by auto
  qed
  have ul': "unat (of_nat l :: u32) < length (ix_lists ix)" using l ul by simp
  have lt: "\<forall>i \<in> set ?ins. dl_offset (?locs ! i) < ml_size (ix_lists ix ! unat (of_nat l :: u32))"
    using slots unfolding ul by (auto simp: mem slots_ok_def)
  have good: "\<exists>p. plan_deletion ids ?locs (ix_lists ix) ?g (of_nat l) = Inr p \<and> planned_deletion ix d ids l p"
    if dist: "distinct (map (\<lambda>i. dl_offset (?locs ! i)) ?ins)"
  proof -
    obtain p where p: "plan_deletion ids ?locs (ix_lists ix) ?g (of_nat l) = Inr p" "deletion_ok p" "dp_list p = of_nat l"
      "dp_old p = ml_size (ix_lists ix ! l)" "dp_padded p = of_nat (round_up_block (unat (dp_new p)))" "dp_ids p = map ((!) ids) ?ins"
      "set (zip (dp_offsets p) (dp_expected p)) = (\<lambda>i. (dl_offset (?locs ! i), ids ! i)) ` set ?ins"
      "length (dp_expected p) = length (dp_offsets p)"
      using plan_deletion_ok [OF ul' off seg length_inputs_of lt dist, of ids] unfolding ul by blast
    have d1: "distinct (dp_ids p)" unfolding p(6) using ids by (auto simp: distinct_map inj_on_def nth_eq_iff_index_eq inputs_of_def as_def)
    have s1: "set (dp_ids p) = {i \<in> set ids. unat (dl_list (loc_of ix d i)) = l}"
      unfolding p(6) set_map using img [of "(!) ids" "\<lambda>i. i"] by auto
    have s2: "set (zip (dp_offsets p) (dp_expected p)) = {(dl_offset (loc_of ix d i), i) | i. i \<in> set ids \<and> unat (dl_list (loc_of ix d i)) = l}"
      unfolding p(7) by (rule img) simp
    have "set ?ins \<noteq> {}" using c length_inputs_of [of as l] by (metis length_greater_0_conv set_empty)
    then have "set (zip (dp_offsets p) (dp_expected p)) \<noteq> {}" unfolding p(7) by simp
    then have "0 < length (dp_offsets p)" by auto
    then show ?thesis using p(1-5,8) d1 s1 s2 by (simp add: planned_deletion_def)
  qed
  show "planned_deletion ix d ids l p" if "plan_deletion ids ?locs (ix_lists ix) ?g (of_nat l) = Inr p"
  proof (cases "distinct (map (\<lambda>i. dl_offset (?locs ! i)) ?ins)")
    case True
    with good that show ?thesis by auto
  next
    case False
    then show ?thesis using plan_deletion_clash [OF off, of ?locs ids "ix_lists ix"] that unfolding seg by auto
  qed
  assume self: "\<forall>i \<in> set ids. id_at ix d (unat (dl_list (loc_of ix d i))) (unat (dl_offset (loc_of ix d i))) = i"
  have "inj_on (\<lambda>i. dl_offset (?locs ! i)) (set ?ins)"
  proof (rule inj_onI)
    fix i j assume ij: "i \<in> set ?ins" "j \<in> set ?ins" "dl_offset (?locs ! i) = dl_offset (?locs ! j)"
    then have b: "i < length ids" "j < length ids" by (simp_all add: mem)
    then have "ids ! i = ids ! j" using self ij by (metis mem nth_map nth_mem)
    then show "i = j" using ids b by (simp add: nth_eq_iff_index_eq)
  qed
  then have "distinct (map (\<lambda>i. dl_offset (?locs ! i)) ?ins)" by (simp add: distinct_map inputs_of_def)
  with good show "\<exists>p. plan_deletion ids ?locs (ix_lists ix) ?g (of_nat l) = Inr p" by blast
qed

section \<open>The record pages\<close>

definition recorded :: "list_index \<Rightarrow> disk \<Rightarrow> nat \<Rightarrow> deletion_plan \<Rightarrow> prepared \<Rightarrow> prepared_move list \<Rightarrow> bool" where
  "recorded ix d l p pr ms \<longleftrightarrow>
    prepared_ok (ix_store ix) (file_of ix l) (of_nat l) (dp_old p) (dp_new p) (dp_record_moves p) (dp_offsets p @ dp_sources p)
      (list_content ix d l) pr
    \<and> (\<forall>k < length (dp_offsets p). id_at ix d l (unat (dp_offsets p ! k)) = dp_expected p ! k)
    \<and> ms = map (\<lambda>k. \<lparr>pm_destination = dp_holes p ! k, pm_source = dp_sources p ! k,
          pm_id = id_at ix d l (unat (dp_sources p ! k))\<rparr>) [0..<length (dp_holes p)]"

lemma deletion_moves_ok:
  assumes "deletion_ok p"
  shows "moves_ok (dp_old p) (dp_new p) (dp_record_moves p)" and "distinct (map mv_destination (dp_record_moves p))"
proof -
  have len: "length (dp_holes p) = length (dp_sources p)" using assms by (simp add: deletion_ok_def)
  have mv: "dp_record_moves p = map2 (\<lambda>h s. \<lparr>mv_destination = h, mv_source = s\<rparr>) (dp_holes p) (dp_sources p)"
    using assms by (simp add: deletion_ok_def)
  have "mv_destination m \<in> set (dp_holes p)" "mv_source m \<in> set (dp_sources p)" if "m \<in> set (dp_record_moves p)" for m
    using that unfolding mv by (auto dest: set_zip_leftD set_zip_rightD)
  then show "moves_ok (dp_old p) (dp_new p) (dp_record_moves p)"
    using assms unfolding moves_ok_def by (fastforce simp: deletion_ok_def not_le not_less)
  have "map mv_destination (dp_record_moves p) = dp_holes p" unfolding mv using len by (simp add: comp_def case_prod_beta map_fst_zip)
  then show "distinct (map mv_destination (dp_record_moves p))" using assms by (simp add: deletion_ok_def)
qed

lemma file_exists:
  assumes "index_ok ops ix d" and "l < length (ix_lists ix)" and "0 < list_rows ix l"
  shows "files d (file_of ix l) \<noteq> None"
proof
  assume "files d (file_of ix l) = None"
  then have "length (list_content ix d l) = 0" by (simp add: content_def)
  moreover have "0 < page_size (ix_store ix)" using store_geometry(3) assms(1) by (simp add: index_ok_def index_static_def)
  moreover have "0 < page_count (list_rows ix l) (st_per_page (ix_store ix))" using assms(3) by (simp add: page_count_def)
  moreover have "files_ok ix d" using assms(1) by (simp add: index_ok_def)
  ultimately show False using list_rows_in_file [of ix d l] assms(2) by simp
qed

lemma prepare_records_result:
  assumes ix: "index_ok ops ix d0" and l: "l < length (ix_lists ix)" and p: "planned_deletion ix d0 ids l p"
  shows "reading d0 (prepare_records ix p) (\<lambda>y. recorded ix d0 l p (fst y) (snd y))
    (\<forall>i \<in> set ids. id_at ix d0 (unat (dl_list (loc_of ix d0 i))) (unat (dl_offset (loc_of ix d0 i))) = i)"
proof (rule readingI)
  fix d r d' assume same: "files d = files d0" and run: "prepare_records ix p d = (r, d')"
  let ?st = "ix_store ix" and ?obs = "dp_offsets p @ dp_sources p" and ?n = "length (dp_offsets p)"
  have st: "index_static ops ix" and fo: "files_ok ix d0" using ix by (simp_all add: index_ok_def)
  have ok: "store_ok ?st" using st by (simp add: index_static_def)
  have del: "deletion_ok p" and dl: "dp_list p = of_nat l" and old: "dp_old p = ml_size (ix_lists ix ! l)"
    using p by (simp_all add: planned_deletion_def)
  have rows: "unat (dp_old p) = list_rows ix l" by (simp add: old list_rows_def)
  have c: "content d (file_of ix l) = list_content ix d0 l" using same by (simp add: content_def)
  have path: "list_path ?st (dp_list p) = Inr (file_of ix l)" unfolding dl by (rule file_of_path [OF st l])
  note mv = deletion_moves_ok [OF del]
  have len: "length (list_content ix d0 l) = page_count (unat (dp_old p)) (st_per_page ?st) * page_size ?st"
    using fo l by (simp add: files_ok_def rows)
  have obs: "\<forall>off \<in> set ?obs. off < dp_old p" using del by (auto simp: deletion_ok_def)
  have "0 < unat (dp_old p)" using del p by (simp add: deletion_ok_def planned_deletion_def)
  then have ex: "files d (file_of ix l) \<noteq> None" using file_exists [OF ix l] rows same by simp
  have lens: "length (dp_holes p) = length (dp_sources p)" "length (dp_expected p) = ?n" "dp_new p \<le> dp_old p"
    using del p by (simp_all add: deletion_ok_def planned_deletion_def)
  obtain q d1 where q: "prepare_moves_and_truncate ?st (dp_list p) (dp_old p) (dp_new p) (dp_record_moves p) ?obs d = (q, d1)" by fastforce
  note P = prepare_result [OF ok path mv(2) q, unfolded c]
  have f1: "files d1 = files d0" "benign d \<longrightarrow> benign d1" using P same by simp_all
  have returns: "\<exists>pr. q = Inr pr" if "benign d" using P that ex len lens(3) mv(1) obs by blast
  let ?goal = "files d' = files d0 \<and> (benign d \<longrightarrow> benign d') \<and> (\<forall>y. r = Inr y \<longrightarrow> recorded ix d0 l p (fst y) (snd y))
    \<and> (benign d \<and> (\<forall>i \<in> set ids. id_at ix d0 (unat (dl_list (loc_of ix d0 i))) (unat (dl_offset (loc_of ix d0 i))) = i)
        \<longrightarrow> (\<exists>y. r = Inr y))"
  show ?goal
  proof (cases q)
    case (Inl e)
    then have "r = Inl e" "d' = d1" using run q by (simp_all add: prepare_records_def io_bind_def)
    then show ?goal using f1 returns Inl by auto
  next
    case (Inr pr)
    have po: "prepared_ok ?st (file_of ix l) (of_nat l) (dp_old p) (dp_new p) (dp_record_moves p) ?obs (list_content ix d0 l) pr"
      using P Inr dl by auto
    then have ob: "pr_observed pr = map (\<lambda>off. id_at ix d0 l (unat off)) ?obs" by (simp add: prepared_ok_def)
    have ob1: "pr_observed pr ! k = id_at ix d0 l (unat (dp_offsets p ! k))" if "k < ?n" for k
      unfolding ob using that by (simp add: nth_append)
    have ob2: "pr_observed pr ! (?n + k) = id_at ix d0 l (unat (dp_sources p ! k))" if "k < length (dp_sources p)" for k
      unfolding ob using that by (simp add: nth_append)
    let ?ms = "map (\<lambda>i. \<lparr>pm_destination = dp_holes p ! i, pm_source = dp_sources p ! i,
               pm_id = pr_observed pr ! (?n + i)\<rparr>) [0..<length (dp_holes p)]"
    have ms: "?ms = map (\<lambda>k. \<lparr>pm_destination = dp_holes p ! k, pm_source = dp_sources p ! k,
          pm_id = id_at ix d0 l (unat (dp_sources p ! k))\<rparr>) [0..<length (dp_holes p)]"
      using ob2 lens(1) by (intro map_cong refl) simp
    have "prepare_records ix p d = (if \<exists>i < ?n. pr_observed pr ! i \<noteq> dp_expected p ! i
        then io_throw (Logic_error ''external record Logical ID disagrees with its directory entry'') else io_return (pr, ?ms)) d1"
      unfolding prepare_records_def by (simp only: io_bind_def q Inr prod.case sum.case)
    then have run': "(r, d') = (if \<exists>i < ?n. pr_observed pr ! i \<noteq> dp_expected p ! i
        then Inl (Logic_error ''external record Logical ID disagrees with its directory entry'') else Inr (pr, ?ms), d1)"
      unfolding run by (cases "\<exists>i < ?n. pr_observed pr ! i \<noteq> dp_expected p ! i") (simp_all only: if_True if_False io_simps)
    have good: "\<not> (\<exists>i < ?n. pr_observed pr ! i \<noteq> dp_expected p ! i)"
      if self: "\<forall>i \<in> set ids. id_at ix d0 (unat (dl_list (loc_of ix d0 i))) (unat (dl_offset (loc_of ix d0 i))) = i"
    proof -
      have "id_at ix d0 l (unat (dp_offsets p ! k)) = dp_expected p ! k" if k: "k < ?n" for k
      proof -
        have "(dp_offsets p ! k, dp_expected p ! k) \<in> set (zip (dp_offsets p) (dp_expected p))"
          unfolding set_zip using k lens(2) by (auto intro!: exI [of _ k])
        then obtain i where "i \<in> set ids" "unat (dl_list (loc_of ix d0 i)) = l" "dp_offsets p ! k = dl_offset (loc_of ix d0 i)"
            "dp_expected p ! k = i"
          using p by (auto simp: planned_deletion_def)
        then show ?thesis using self by auto
      qed
      then show ?thesis using ob1 by simp
    qed
    show ?goal
    proof (cases "\<exists>i < ?n. pr_observed pr ! i \<noteq> dp_expected p ! i")
      case True
      then have "\<not> (\<forall>i \<in> set ids. id_at ix d0 (unat (dl_list (loc_of ix d0 i))) (unat (dl_offset (loc_of ix d0 i))) = i)"
        using good by blast
      moreover have "r = Inl (Logic_error ''external record Logical ID disagrees with its directory entry'')" "d' = d1"
        using run' True by simp_all
      ultimately show ?goal using f1 by blast
    next
      case False
      then have "recorded ix d0 l p pr ?ms" using po ob1 unfolding recorded_def ms by auto
      then show ?goal using run' f1 False by simp
    qed
  qed
qed

section \<open>The whole preparation\<close>

definition erase_piece :: "index_ops \<Rightarrow> list_index \<Rightarrow> disk \<Rightarrow> u32 list \<Rightarrow> nat \<Rightarrow> deletion \<Rightarrow> bool" where
  "erase_piece ops ix d ids l x \<longleftrightarrow> planned_deletion ix d ids l (dn_plan x) \<and> recorded ix d l (dn_plan x) (dn_mutation x) (dn_moves x)
    \<and> pack_deletion (op_pq4 ops) (ix_subquantizers ix) (code_size ix) (16 * ix_subquantizers ix) (ix_lists ix ! l) (dn_plan x) (dn_moves x)
      = Inr (dn_blocks x)"

definition erase_lists :: "list_index \<Rightarrow> disk \<Rightarrow> u32 list \<Rightarrow> nat list" where
  "erase_lists ix d ids = filter (\<lambda>l. \<exists>i \<in> set ids. unat (dl_list (loc_of ix d i)) = l) [0..<length (ix_lists ix)]"

definition erase_prepared :: "index_ops \<Rightarrow> list_index \<Rightarrow> disk \<Rightarrow> u32 list \<Rightarrow> deletion list \<Rightarrow> bool" where
  "erase_prepared ops ix d ids ds \<longleftrightarrow> slots_ok ix d ids \<and> list_all2 (erase_piece ops ix d ids) (erase_lists ix d ids) ds"

lemma touched_erase_lists:
  "touched_lists (map (\<lambda>i. dl_list (loc_of ix d i)) ids) (length (ix_lists ix)) = map of_nat (erase_lists ix d ids)"
proof -
  have "0 < count_of (map (\<lambda>i. dl_list (loc_of ix d i)) ids) l \<longleftrightarrow> (\<exists>i \<in> set ids. unat (dl_list (loc_of ix d i)) = l)" for l
    by (auto simp: count_of_def filter_empty_conv simp flip: length_greater_0_conv)
  then show ?thesis by (simp add: touched_lists_def erase_lists_def)
qed

lemma recorded_moves:
  assumes "planned_deletion ix d ids l p" and "recorded ix d l p pr ms"
  shows "map pm_destination ms = dp_holes p" and "map pm_source ms = dp_sources p"
  using assms by (auto simp: recorded_def planned_deletion_def deletion_ok_def comp_def map_nth intro!: nth_equalityI)

lemma posting_of:
  assumes "index_ok ops ix d" and "l < length (ix_lists ix)"
  shows "posting_ok (op_pq4 ops) (ix_subquantizers ix) (ix_lists ix ! l)"
  using assms by (simp add: index_ok_def lists_ok_def)

lemma piece_posting:
  assumes ix: "index_ok ops ix d" and l: "l < length (ix_lists ix)"
    and p: "planned_deletion ix d ids l p" and rec: "recorded ix d l p pr ms"
  shows "\<exists>blocks ml'. pack_deletion (op_pq4 ops) (ix_subquantizers ix) (code_size ix) (16 * ix_subquantizers ix) (ix_lists ix ! l) p ms = Inr blocks
    \<and> commit_posting (op_pq4 ops) (ix_subquantizers ix) (16 * ix_subquantizers ix) p blocks (ix_lists ix ! l) = (Inr (), ml')
    \<and> posting_ok (op_pq4 ops) (ix_subquantizers ix) ml' \<and> ml_size ml' = dp_new p
    \<and> (\<forall>i < unat (dp_new p). row_code (op_pq4 ops) (ix_subquantizers ix) ml' i
          = row_code (op_pq4 ops) (ix_subquantizers ix) (ix_lists ix ! l) (row_origin (dp_holes p) (dp_sources p) i)
        \<and> row_metadata ml' i = row_metadata (ix_lists ix ! l) (row_origin (dp_holes p) (dp_sources p) i))"
proof -
  have st: "index_static ops ix" using ix by (simp add: index_ok_def)
  then have F: "faiss_pq4 (op_pq4 ops)" and M: "dims_ok (ix_subquantizers ix)" by (simp_all add: index_static_def)
  have pl: "deletion_ok p" "dp_old p = ml_size (ix_lists ix ! l)" "dp_padded p = of_nat (round_up_block (unat (dp_new p)))"
    using p by (simp_all add: planned_deletion_def)
  show ?thesis
    using posting_deletion_ok [OF F M posting_of [OF ix l] pl recorded_moves [OF p rec]] by (simp add: code_size_def)
qed

text \<open>Sizes: the moves of one list are no more than its deleted rows.\<close>

lemma planned_count:
  assumes "planned_deletion ix d ids l p"
  shows "length (dp_offsets p) = card {i \<in> set ids. unat (dl_list (loc_of ix d i)) = l}"
proof -
  let ?A = "{i \<in> set ids. unat (dl_list (loc_of ix d i)) = l}"
  have dist: "distinct (dp_offsets p)" and len: "length (dp_expected p) = length (dp_offsets p)"
    using assms by (simp_all add: planned_deletion_def deletion_ok_def)
  have "distinct (map fst (zip (dp_offsets p) (dp_expected p)))" using dist len by simp
  then have "distinct (zip (dp_offsets p) (dp_expected p))" by (simp add: distinct_map)
  then have "length (dp_offsets p) = card (set (zip (dp_offsets p) (dp_expected p)))" using len distinct_card by fastforce
  also have "set (zip (dp_offsets p) (dp_expected p)) = (\<lambda>i. (dl_offset (loc_of ix d i), i)) ` ?A"
    using assms by (auto simp: planned_deletion_def)
  also have "card \<dots> = card ?A" by (intro card_image inj_onI) simp
  finally show ?thesis .
qed

lemma moves_bound:
  assumes "erase_piece ops ix d ids l x"
  shows "length (dn_moves x) \<le> length ids"
proof -
  let ?p = "dn_plan x"
  have p: "planned_deletion ix d ids l ?p" and r: "recorded ix d l ?p (dn_mutation x) (dn_moves x)" using assms by (simp_all add: erase_piece_def)
  then have del: "deletion_ok ?p" by (simp add: planned_deletion_def)
  have "length (dn_moves x) = length (dp_holes ?p)" using r by (simp add: recorded_def)
  also have "\<dots> = card (set (dp_holes ?p))" using del distinct_card unfolding deletion_ok_def by metis
  also have "\<dots> \<le> card (set (dp_offsets ?p))" using del by (intro card_mono) (auto simp: deletion_ok_def)
  also have "\<dots> \<le> length (dp_offsets ?p)" by (rule card_length)
  also have "\<dots> \<le> card (set ids)" unfolding planned_count [OF p] by (intro card_mono) auto
  also have "\<dots> \<le> length ids" by (rule card_length)
  finally show ?thesis .
qed

lemma length_moved_ids: "length (moved_ids ds) = sum_list (map (\<lambda>x. length (dn_moves x)) ds)"
  by (induction ds) (simp_all add: moved_ids_def moved_rows_def)

lemma sum_list_bound: "\<forall>x \<in> set xs. f x \<le> (b :: nat) \<Longrightarrow> sum_list (map f xs) \<le> length xs * b"
  by (induction xs) auto

lemma count_moves_ok:
  "t + sum_list (map f xs) \<le> size_max \<Longrightarrow> res_fold (\<lambda>x total. checked_add total (f x) msg) xs t = Inr (t + sum_list (map f xs))"
  by (induction xs arbitrary: t) (simp_all add: checked_add_ok add.assoc)

text \<open>Every prepared deletion belongs to a touched list.\<close>

lemma piece_of:
  assumes "list_all2 (erase_piece ops ix d ids) (erase_lists ix d ids) ds" and "x \<in> set ds"
  obtains l where "l \<in> set (erase_lists ix d ids)" and "erase_piece ops ix d ids l x"
proof -
  obtain k where k: "k < length ds" "x = ds ! k" using assms(2) by (metis in_set_conv_nth)
  with assms(1) have "erase_lists ix d ids ! k \<in> set (erase_lists ix d ids)" "erase_piece ops ix d ids (erase_lists ix d ids ! k) x"
    by (simp_all add: list_all2_conv_all_nth)
  with that show thesis .
qed

lemma erase_moves_fit:
  assumes ix: "index_static ops ix" and n: "length ids \<le> u32_max" and ds: "list_all2 (erase_piece ops ix d ids) (erase_lists ix d ids) ds"
  shows "length ids + length (moved_ids ds) \<le> size_max"
proof -
  have "\<forall>x \<in> set ds. length (dn_moves x) \<le> length ids"
    using piece_of [OF ds] moves_bound by meson
  then have "length (moved_ids ds) \<le> length ds * length ids" unfolding length_moved_ids by (rule sum_list_bound)
  moreover have "length ds \<le> u32_max"
  proof -
    have "length ds = length (erase_lists ix d ids)" using ds by (simp add: list_all2_lengthD)
    also have "\<dots> \<le> length (ix_lists ix)" unfolding erase_lists_def by (rule order_trans [OF length_filter_le]) simp
    also have "\<dots> \<le> u32_max" using ix by (simp add: index_static_def)
    finally show ?thesis .
  qed
  moreover from this have "length ds * length ids \<le> u32_max * u32_max" using n by (rule mult_le_mono)
  moreover have "u32_max + u32_max * u32_max \<le> size_max" by (simp add: u32_max_def size_max_def)
  ultimately show ?thesis using n by linarith
qed

text \<open>The directory entry of a moved row is its source.\<close>

lemma moved_located:
  assumes ix: "index_ok ops ix d" and l: "l < length (ix_lists ix)" and x: "erase_piece ops ix d ids l x" and m: "m \<in> set (dn_moves x)"
  shows "loc_of ix d (pm_id m) = \<lparr>dl_list = of_nat l, dl_offset = pm_source m\<rparr>" and "location_active (loc_of ix d (pm_id m))"
    and "unat (pm_id m) < ix_next_id ix" and "pm_id m = id_at ix d l (unat (pm_source m))" and "unat (pm_source m) < list_rows ix l"
    and "pm_source m \<in> set (dp_sources (dn_plan x))"
proof -
  have p: "planned_deletion ix d ids l (dn_plan x)" and r: "recorded ix d l (dn_plan x) (dn_mutation x) (dn_moves x)"
    using x by (simp_all add: erase_piece_def)
  then show id: "pm_id m = id_at ix d l (unat (pm_source m))" using m by (auto simp: recorded_def)
  have "pm_source m \<in> set (map pm_source (dn_moves x))" using m by simp
  then show s: "pm_source m \<in> set (dp_sources (dn_plan x))" unfolding recorded_moves(2) [OF p r] .
  then show rows: "unat (pm_source m) < list_rows ix l"
    using p by (simp add: planned_deletion_def deletion_ok_def list_rows_def word_less_nat_alt)
  show "location_active (loc_of ix d (pm_id m))" "unat (pm_id m) < ix_next_id ix"
    unfolding id by (rule located_row(4) [OF ix l rows], rule located_row(1) [OF ix l rows])
  have "loc_of ix d (pm_id m) = \<lparr>dl_list = of_nat l, dl_offset = of_nat (unat (pm_source m))\<rparr>"
    unfolding id using ix l rows by (simp only: index_ok_def rows_located_def)
  then show "loc_of ix d (pm_id m) = \<lparr>dl_list = of_nat l, dl_offset = pm_source m\<rparr>" by simp
qed

lemma erase_lists_below: "l \<in> set (erase_lists ix d ids) \<Longrightarrow> l < length (ix_lists ix)"
  by (simp add: erase_lists_def)

lemma distinct_erase_lists: "distinct (erase_lists ix d ids)"
  by (simp add: erase_lists_def)

lemma moved_rows_piece:
  assumes "list_all2 (erase_piece ops ix d ids) (erase_lists ix d ids) ds" and "q \<in> set (moved_rows ds)"
  obtains l x where "l < length (ix_lists ix)" and "erase_piece ops ix d ids l x" and "x \<in> set ds"
    and "fst q = of_nat l" and "snd q \<in> set (dn_moves x)"
proof -
  from assms(2) obtain x where x: "x \<in> set ds" "fst q = dn_list x" "snd q \<in> set (dn_moves x)" by (auto simp: moved_rows_def)
  obtain l where l: "l \<in> set (erase_lists ix d ids)" "erase_piece ops ix d ids l x" using piece_of [OF assms(1) x(1)] .
  have "dn_list x = of_nat l" using l(2) by (simp add: erase_piece_def planned_deletion_def)
  with that [OF erase_lists_below [OF l(1)] l(2) x(1)] x(2,3) show thesis by simp
qed

lemma check_moved_ok:
  assumes ix: "index_ok ops ix d" and ds: "list_all2 (erase_piece ops ix d ids) (erase_lists ix d ids) ds"
  shows "check_moved ds (map (loc_of ix d) (moved_ids ds)) = Inr ()" and "\<forall>i \<in> set (moved_ids ds). dir_has (dir_content ix d) i"
proof -
  have row: "location_active (loc_of ix d (pm_id (snd q))) \<and> dl_list (loc_of ix d (pm_id (snd q))) = fst q
      \<and> dl_offset (loc_of ix d (pm_id (snd q))) = pm_source (snd q) \<and> unat (pm_id (snd q)) < ix_next_id ix"
    if "q \<in> set (moved_rows ds)" for q
  proof (rule moved_rows_piece [OF ds that])
    fix l x assume a: "l < length (ix_lists ix)" "erase_piece ops ix d ids l x" "x \<in> set ds" "fst q = of_nat l" "snd q \<in> set (dn_moves x)"
    show ?thesis using moved_located(1-3) [OF ix a(1,2,5)] a(4) by simp
  qed
  then show "check_moved ds (map (loc_of ix d) (moved_ids ds)) = Inr ()"
    by (auto simp: check_moved_def moved_ids_def)
  show "\<forall>i \<in> set (moved_ids ds). dir_has (dir_content ix d) i"
    using row ix by (auto simp: moved_ids_def index_ok_def ids_located_def Let_def)
qed

abbreviation all_active :: "index_ops \<Rightarrow> list_index \<Rightarrow> disk \<Rightarrow> u32 list \<Rightarrow> bool" where
  "all_active ops ix d ids \<equiv> \<forall>i \<in> set ids. index_lookup ops ix d i \<noteq> None"

lemma all_active_rows:
  assumes ix: "index_ok ops ix d" and act: "all_active ops ix d ids"
  shows "slots_ok ix d ids" and "\<forall>i \<in> set ids. id_at ix d (unat (dl_list (loc_of ix d i))) (unat (dl_offset (loc_of ix d i))) = i"
    and "\<forall>i \<in> set ids. dir_has (dir_content ix d) i"
proof -
  have a: "unat i < ix_next_id ix \<and> location_active (loc_of ix d i)" if "i \<in> set ids" for i
    using act that by (auto simp: index_lookup_def Let_def split: if_splits)
  show "slots_ok ix d ids"
    unfolding slots_ok_def using a active_row(1,2) [OF ix] by (simp add: list_rows_def word_less_nat_alt)
  show "\<forall>i \<in> set ids. id_at ix d (unat (dl_list (loc_of ix d i))) (unat (dl_offset (loc_of ix d i))) = i"
    using a active_row(3) [OF ix] by blast
  show "\<forall>i \<in> set ids. dir_has (dir_content ix d) i" using a ix by (simp add: index_ok_def ids_located_def Let_def)
qed

lemma slot_numbers:
  assumes "slots_ok ix d ids" and "length ids \<le> u32_max"
  defines "as \<equiv> map (\<lambda>i. dl_list (loc_of ix d i)) ids"
  shows "group_by_list as (length (ix_lists ix)) = Inr (grouped_plan as (length (ix_lists ix)))"
  using assms unfolding as_def by (intro group_by_list_plan) (auto simp: slots_ok_def u32_max_def size_max_def)

lemma plans_stage:
  assumes st: "index_static ops ix" and ids: "distinct ids" and slots: "slots_ok ix d ids"
  defines "as \<equiv> map (\<lambda>i. dl_list (loc_of ix d i)) ids"
  defines "run \<equiv> res_map (plan_deletion ids (map (loc_of ix d) ids) (ix_lists ix) (grouped_plan as (length (ix_lists ix))))
      (bp_touched (grouped_plan as (length (ix_lists ix))))"
  shows "run = Inr ps \<Longrightarrow> list_all2 (planned_deletion ix d ids) (erase_lists ix d ids) ps"
    and "\<forall>i \<in> set ids. id_at ix d (unat (dl_list (loc_of ix d i))) (unat (dl_offset (loc_of ix d i))) = i \<Longrightarrow> \<exists>ps. run = Inr ps"
proof -
  let ?plan = "plan_deletion ids (map (loc_of ix d) ids) (ix_lists ix) (grouped_plan as (length (ix_lists ix)))"
  have tl: "bp_touched (grouped_plan as (length (ix_lists ix))) = map of_nat (erase_lists ix d ids)"
    unfolding as_def by (simp add: grouped_plan_def touched_erase_lists)
  have c: "l < length (ix_lists ix) \<and> 0 < count_of as l" if "l \<in> set (erase_lists ix d ids)" for l
    using that by (auto simp: erase_lists_def count_of_def as_def filter_empty_conv)
  note one = plan_stage [OF st ids slots]
  show "list_all2 (planned_deletion ix d ids) (erase_lists ix d ids) ps" if "run = Inr ps"
  proof -
    have "list_all2 (\<lambda>l p. ?plan (of_nat l) = Inr p) (erase_lists ix d ids) ps"
      using that unfolding run_def tl res_map_Inr by (simp add: list_all2_map1)
    then show ?thesis
      by (rule list.rel_mono_strong) (use one(1) c in \<open>simp add: as_def\<close>)
  qed
  assume self: "\<forall>i \<in> set ids. id_at ix d (unat (dl_list (loc_of ix d i))) (unat (dl_offset (loc_of ix d i))) = i"
  show "\<exists>ps. run = Inr ps"
    unfolding run_def tl by (rule res_map_total) (use one(2) [OF _ _ self] c in \<open>auto simp: as_def\<close>)
qed

lemma planned_list:
  assumes "index_ok ops ix d" and "l < length (ix_lists ix)" and "planned_deletion ix d ids l p"
  shows "unat (dp_list p) = l"
  using assms unat_list_number [of ops ix l] by (simp add: planned_deletion_def index_ok_def)

lemma records_stage:
  assumes ix: "index_ok ops ix d" and ps: "list_all2 (planned_deletion ix d ids) (erase_lists ix d ids) ps"
  shows "reading d (io_map (prepare_records ix) ps) (list_all2 (\<lambda>p y. recorded ix d (unat (dp_list p)) p (fst y) (snd y)) ps)
    (\<forall>i \<in> set ids. id_at ix d (unat (dl_list (loc_of ix d i))) (unat (dl_offset (loc_of ix d i))) = i)"
proof (rule reading_map)
  fix p assume "p \<in> set ps"
  then obtain k where k: "k < length ps" "p = ps ! k" by (metis in_set_conv_nth)
  with ps have "erase_lists ix d ids ! k \<in> set (erase_lists ix d ids)" and p: "planned_deletion ix d ids (erase_lists ix d ids ! k) p"
    by (simp_all add: list_all2_conv_all_nth)
  then have l: "erase_lists ix d ids ! k < length (ix_lists ix)" by (simp only: erase_lists_below)
  show "reading d (prepare_records ix p) (\<lambda>y. recorded ix d (unat (dp_list p)) p (fst y) (snd y))
      (\<forall>i \<in> set ids. id_at ix d (unat (dl_list (loc_of ix d i))) (unat (dl_offset (loc_of ix d i))) = i)"
    using prepare_records_result [OF ix l p] unfolding planned_list [OF ix l p] .
qed

lemma blocks_stage:
  assumes ix: "index_ok ops ix d" and ps: "list_all2 (planned_deletion ix d ids) (erase_lists ix d ids) ps"
    and rs: "list_all2 (\<lambda>p y. recorded ix d (unat (dp_list p)) p (fst y) (snd y)) ps rs"
  shows "\<exists>ds. res_map (prepare_blocks ops ix (16 * ix_subquantizers ix)) (zip ps rs) = Inr ds
    \<and> list_all2 (erase_piece ops ix d ids) (erase_lists ix d ids) ds"
proof -
  let ?ks = "erase_lists ix d ids" and ?f = "prepare_blocks ops ix (16 * ix_subquantizers ix)"
  have len: "length ps = length ?ks" "length rs = length ps" using ps rs by (simp_all add: list_all2_conv_all_nth)
  have one: "\<exists>x. ?f (ps ! k, rs ! k) = Inr x \<and> erase_piece ops ix d ids (?ks ! k) x" if k: "k < length ps" for k
  proof -
    have p: "planned_deletion ix d ids (?ks ! k) (ps ! k)" and l: "?ks ! k < length (ix_lists ix)"
      using ps k by (auto simp: list_all2_conv_all_nth intro!: erase_lists_below nth_mem)
    have r: "recorded ix d (?ks ! k) (ps ! k) (fst (rs ! k)) (snd (rs ! k))"
      using rs k planned_list [OF ix l p] by (auto simp: list_all2_conv_all_nth)
    obtain blocks where "pack_deletion (op_pq4 ops) (ix_subquantizers ix) (code_size ix) (16 * ix_subquantizers ix)
        (ix_lists ix ! (?ks ! k)) (ps ! k) (snd (rs ! k)) = Inr blocks"
      using piece_posting [OF ix l p r] by blast
    then show ?thesis using p r planned_list [OF ix l p] by (simp add: prepare_blocks_def erase_piece_def case_prod_beta)
  qed
  have "\<exists>ds. res_map ?f (zip ps rs) = Inr ds"
  proof (rule res_map_total)
    fix q assume "q \<in> set (zip ps rs)"
    then obtain k where "k < length ps" "q = (ps ! k, rs ! k)" by (auto simp: set_zip)
    then show "\<exists>y. ?f q = Inr y" using one by blast
  qed
  then obtain ds where ds: "res_map ?f (zip ps rs) = Inr ds" by blast
  then have "list_all2 (\<lambda>q x. ?f q = Inr x) (zip ps rs) ds" by (simp add: res_map_Inr)
  then have "list_all2 (erase_piece ops ix d ids) ?ks ds" using one len by (fastforce simp: list_all2_conv_all_nth)
  with ds show ?thesis by blast
qed

lemma finish_stage:
  assumes ix: "index_ok ops ix d" and n: "length ids = n" "n \<le> u32_max"
    and ds: "list_all2 (erase_piece ops ix d ids) (erase_lists ix d ids) ds"
  shows "reading d (io_bind (read_batch (ix_directory ix) (moved_ids ds)) (\<lambda>moved.
      io_bind (io_lift (check_moved ds moved)) (\<lambda>_.
      io_bind (io_lift (checked_add n (length (moved_ids ds)) msg)) (\<lambda>_. io_return (b, ds))))) (\<lambda>y. y = (b, ds)) G"
proof -
  have st: "index_static ops ix" and dvd: "dir_page_size (ix_directory ix) dvd length (dir_content ix d)"
    using ix by (simp_all add: index_ok_def files_ok_def)
  then have args: "directory_args_ok (ix_directory ix)" by (simp add: index_static_def)
  note check = check_moved_ok [OF ix ds]
  have fits: "n + length (moved_ids ds) \<le> size_max" using erase_moves_fit [OF st _ ds] n by simp
  show ?thesis
  proof (rule reading_bind, rule reading_read_batch [OF args])
    show "dir_page_size (ix_directory ix) dvd length (dir_content ix d) \<and> (\<forall>i \<in> set (moved_ids ds). dir_has (dir_content ix d) i)"
      using dvd check(2) by blast
    fix moved assume moved: "moved = map (loc_of ix d) (moved_ids ds)"
    show "reading d (io_bind (io_lift (check_moved ds moved)) (\<lambda>_.
        io_bind (io_lift (checked_add n (length (moved_ids ds)) msg)) (\<lambda>_. io_return (b, ds)))) (\<lambda>y. y = (b, ds)) G"
      unfolding moved check(1) checked_add_ok [OF fits]
      by (rule reading_bind [where Q = "\<lambda>_. True"], rule reading_lift, simp, simp,
          rule reading_bind [where Q = "\<lambda>_. True"], rule reading_lift, simp, simp, rule reading_return, rule refl)
  qed
qed

text \<open>From the plans to the prepared deletions.\<close>

lemma prepare_stage:
  assumes ix: "index_ok ops ix d" and n: "length ids = n" "n \<le> u32_max"
    and ps: "list_all2 (planned_deletion ix d ids) (erase_lists ix d ids) ps"
  shows "reading d (io_bind (io_map (prepare_records ix) ps) (\<lambda>recs.
      io_bind (io_lift (res_map (prepare_blocks ops ix (16 * ix_subquantizers ix)) (zip ps recs))) (\<lambda>ds.
      io_bind (io_lift (res_fold (\<lambda>d total. checked_add total (length (dn_moves d)) msg1) ds 0)) (\<lambda>_.
      io_bind (read_batch (ix_directory ix) (moved_ids ds)) (\<lambda>moved.
      io_bind (io_lift (check_moved ds moved)) (\<lambda>_.
      io_bind (io_lift (checked_add n (length (moved_ids ds)) msg2)) (\<lambda>_. io_return (b, ds))))))))
    (\<lambda>y. fst y = b \<and> list_all2 (erase_piece ops ix d ids) (erase_lists ix d ids) (snd y))
    (\<forall>i \<in> set ids. id_at ix d (unat (dl_list (loc_of ix d i))) (unat (dl_offset (loc_of ix d i))) = i)" (is "reading _ _ ?Q ?G")
proof (rule reading_bind, rule records_stage [OF ix ps])
  have st: "index_static ops ix" using ix by (simp add: index_ok_def)
  fix rs assume "list_all2 (\<lambda>p y. recorded ix d (unat (dp_list p)) p (fst y) (snd y)) ps rs"
  from blocks_stage [OF ix ps this] obtain ds where
    ds: "res_map (prepare_blocks ops ix (16 * ix_subquantizers ix)) (zip ps rs) = Inr ds"
      "list_all2 (erase_piece ops ix d ids) (erase_lists ix d ids) ds" by blast
  have "length ids + length (moved_ids ds) \<le> size_max" by (rule erase_moves_fit [OF st _ ds(2)]) (simp add: n)
  then have count: "res_fold (\<lambda>d total. checked_add total (length (dn_moves d)) msg1) ds 0 = Inr (length (moved_ids ds))"
    using count_moves_ok [of 0 "\<lambda>x. length (dn_moves x)" ds msg1] by (simp add: length_moved_ids)
  have fin: "reading d (io_bind (read_batch (ix_directory ix) (moved_ids ds)) (\<lambda>moved.
      io_bind (io_lift (check_moved ds moved)) (\<lambda>_.
      io_bind (io_lift (checked_add n (length (moved_ids ds)) msg2)) (\<lambda>_. io_return (b, ds))))) ?Q ?G"
    by (rule reading_weaken [OF finish_stage [OF ix n ds(2), where G = True]]) (use ds(2) in auto)
  show "reading d (io_bind (io_lift (res_map (prepare_blocks ops ix (16 * ix_subquantizers ix)) (zip ps rs))) (\<lambda>ds.
      io_bind (io_lift (res_fold (\<lambda>d total. checked_add total (length (dn_moves d)) msg1) ds 0)) (\<lambda>_.
      io_bind (read_batch (ix_directory ix) (moved_ids ds)) (\<lambda>moved.
      io_bind (io_lift (check_moved ds moved)) (\<lambda>_.
      io_bind (io_lift (checked_add n (length (moved_ids ds)) msg2)) (\<lambda>_. io_return (b, ds))))))) ?Q ?G"
    unfolding ds(1)
    by (rule reading_bind [where Q = "\<lambda>x. x = ds"], rule reading_lift, simp, simp, erule ssubst, unfold count,
        rule reading_bind [where Q = "\<lambda>_. True"], rule reading_lift, simp, simp, rule fin)
qed

text \<open>A pure step whose value is known.\<close>

lemma reading_known: "reading d0 (g y) R G \<Longrightarrow> reading d0 (io_bind (io_lift (Inr y)) g) R G"
  by (rule reading_bind [where Q = "\<lambda>x. x = y"], rule reading_lift) auto

lemma prepare_erase_reading:
  assumes ix: "index_ok ops ix d" and ids: "distinct ids" and n: "length ids = n" "n \<le> u32_max"
  shows "reading d (prepare_erase ops ix n ids)
    (\<lambda>y. fst y = 16 * ix_subquantizers ix \<and> erase_prepared ops ix d ids (snd y)) (all_active ops ix d ids)"
  unfolding prepare_erase_def
proof (rule reading_bind)
  let ?as = "map (\<lambda>i. dl_list (loc_of ix d i)) ids" and ?locs = "map (loc_of ix d) ids" and ?G = "all_active ops ix d ids"
  have st: "index_static ops ix" and dvd: "dir_page_size (ix_directory ix) dvd length (dir_content ix d)"
    using ix by (simp_all add: index_ok_def files_ok_def)
  then have args: "directory_args_ok (ix_directory ix)" and M: "dims_ok (ix_subquantizers ix)" by (simp_all add: index_static_def)
  have bb: "packed_code_block_bytes (ix_subquantizers ix) = Inr (16 * ix_subquantizers ix)"
    using M by (intro packed_code_block_bytes_ok) (auto simp: dims_ok_def size_max_def)
  note act = all_active_rows [OF ix]
  show "reading d (read_batch (ix_directory ix) ids) (\<lambda>ls. ls = ?locs) ?G"
    by (rule reading_read_batch [OF args]) (use dvd act(3) in blast)
  fix locs assume locs: "locs = ?locs"
  let ?rest = "\<lambda>assignments.
      io_bind (io_lift (group_by_list assignments (length (ix_lists ix)))) (\<lambda>groups.
      io_bind (io_lift (packed_code_block_bytes (ix_subquantizers ix))) (\<lambda>block_bytes.
      io_bind (io_lift (res_map (plan_deletion ids locs (ix_lists ix) groups) (bp_touched groups))) (\<lambda>plans.
      io_bind (io_map (prepare_records ix) plans) (\<lambda>recs.
      io_bind (io_lift (res_map (prepare_blocks ops ix block_bytes) (zip plans recs))) (\<lambda>ds.
      io_bind (io_lift (res_fold (\<lambda>d total. checked_add total (length (dn_moves d)) ''deletion move count overflows'') ds 0)) (\<lambda>_.
      io_bind (read_batch (ix_directory ix) (moved_ids ds)) (\<lambda>moved.
      io_bind (io_lift (check_moved ds moved)) (\<lambda>_.
      io_bind (io_lift (checked_add n (length (moved_ids ds)) ''deletion directory update count overflows'')) (\<lambda>_.
        io_return (block_bytes, ds))))))))))"
  show "reading d (io_bind (io_lift (res_map (deletion_slot (ix_lists ix)) locs)) ?rest)
      (\<lambda>y. fst y = 16 * ix_subquantizers ix \<and> erase_prepared ops ix d ids (snd y)) ?G"
  proof (rule reading_bind [where Q = "\<lambda>a. slots_ok ix d ids \<and> a = ?as"])
    show "reading d (io_lift (res_map (deletion_slot (ix_lists ix)) locs)) (\<lambda>a. slots_ok ix d ids \<and> a = ?as) ?G"
      unfolding locs slots_result by (rule reading_lift) (use act(1) in \<open>auto split: if_splits\<close>)
    fix a assume "slots_ok ix d ids \<and> a = ?as"
    then have slots: "slots_ok ix d ids" and a: "a = ?as" by simp_all
    note groups = slot_numbers [OF slots n(2) [folded n(1)]]
    note plans = plans_stage [OF st ids slots]
    show "reading d (?rest a) (\<lambda>y. fst y = 16 * ix_subquantizers ix \<and> erase_prepared ops ix d ids (snd y)) ?G"
      unfolding a groups locs bb
    proof (rule reading_known, rule reading_known, rule reading_bind [where Q = "list_all2 (planned_deletion ix d ids) (erase_lists ix d ids)"])
      show "reading d (io_lift (res_map (plan_deletion ids ?locs (ix_lists ix) (grouped_plan ?as (length (ix_lists ix))))
          (bp_touched (grouped_plan ?as (length (ix_lists ix)))))) (list_all2 (planned_deletion ix d ids) (erase_lists ix d ids)) ?G"
        by (rule reading_lift, erule plans(1), rule plans(2), rule act(2))
      fix ps assume ps: "list_all2 (planned_deletion ix d ids) (erase_lists ix d ids) ps"
      show "reading d (io_bind (io_map (prepare_records ix) ps) (\<lambda>recs.
          io_bind (io_lift (res_map (prepare_blocks ops ix (16 * ix_subquantizers ix)) (zip ps recs))) (\<lambda>ds.
          io_bind (io_lift (res_fold (\<lambda>d total. checked_add total (length (dn_moves d)) ''deletion move count overflows'') ds 0)) (\<lambda>_.
          io_bind (read_batch (ix_directory ix) (moved_ids ds)) (\<lambda>moved.
          io_bind (io_lift (check_moved ds moved)) (\<lambda>_.
          io_bind (io_lift (checked_add n (length (moved_ids ds)) ''deletion directory update count overflows'')) (\<lambda>_.
            io_return (16 * ix_subquantizers ix, ds))))))))
        (\<lambda>y. fst y = 16 * ix_subquantizers ix \<and> erase_prepared ops ix d ids (snd y)) ?G"
        by (rule reading_weaken [OF prepare_stage [OF ix n ps]]) (use slots act(2) in \<open>auto simp: erase_prepared_def\<close>)
    qed
  qed
qed

end
