(* ===== verification/Erase_Commit.thy ===== *)
theory Erase_Commit
  imports Erase_Prepare
begin

text \<open>
  The commit of \<open>erase_batch\<close>: the record pages of the touched lists, the directory and the resident
  lists, in this order. When it returns, the state is the one described in \<open>Erase_Landed\<close>.
\<close>

section \<open>Record pages\<close>

definition file_shrunk :: "list_index \<Rightarrow> disk \<Rightarrow> disk \<Rightarrow> nat \<Rightarrow> deletion_plan \<Rightarrow> bool" where
  "file_shrunk ix d d' l p \<longleftrightarrow>
    length (list_content ix d' l) = page_count (unat (dp_new p)) (st_per_page (ix_store ix)) * page_size (ix_store ix)
    \<and> (\<forall>i < unat (dp_new p). record_at (ix_store ix) (list_content ix d' l) i
        = record_at (ix_store ix) (list_content ix d l) (row_origin (dp_holes p) (dp_sources p) i))"

lemma moved_row_origin:
  assumes "length holes = length sources"
  shows "moved_row st (map2 (\<lambda>h s. \<lparr>mv_destination = h, mv_source = s\<rparr>) holes sources) f i = record_at st f (row_origin holes sources i)"
proof -
  have "map (\<lambda>m. (unat (mv_destination m), unat (mv_source m))) (map2 (\<lambda>h s. \<lparr>mv_destination = h, mv_source = s\<rparr>) holes sources)
      = zip (map unat holes) (map unat sources)"
    using assms by (simp add: zip_map_map comp_def case_prod_beta)
  then show ?thesis by (simp add: moved_row_def row_origin_def split: option.splits)
qed

lemma piece_commit:
  assumes ix: "index_ok ops ix d0" and l: "l < length (ix_lists ix)" and x: "erase_piece ops ix d0 ids l x"
    and same: "files d (file_of ix l) = files d0 (file_of ix l)"
    and run: "commit_prepared_mutation (ix_store ix) (Some (dn_mutation x)) d = (r, d')"
  shows "files_kept (file_of ix l) d d' \<and> (benign d \<longrightarrow> r = Inr () \<and> benign d')
    \<and> (r = Inr () \<longrightarrow> file_shrunk ix d0 d' l (dn_plan x))"
proof -
  let ?p = "dn_plan x"
  have st: "index_static ops ix" and fo: "files_ok ix d0" using ix by (simp_all add: index_ok_def)
  then have ok: "store_ok (ix_store ix)" by (simp add: index_static_def)
  have p: "planned_deletion ix d0 ids l ?p" and rec: "recorded ix d0 l ?p (dn_mutation x) (dn_moves x)"
    using x by (simp_all add: erase_piece_def)
  then have del: "deletion_ok ?p" and old: "unat (dp_old ?p) = list_rows ix l" by (simp_all add: planned_deletion_def list_rows_def)
  have c: "content d (file_of ix l) = list_content ix d0 l" using same by (simp add: content_def)
  have len: "length (list_content ix d0 l) = page_count (unat (dp_old ?p)) (st_per_page (ix_store ix)) * page_size (ix_store ix)"
    using fo l by (simp add: files_ok_def old)
  have "0 < list_rows ix l" using del p by (simp add: deletion_ok_def planned_deletion_def flip: old)
  then have ex: "files d (file_of ix l) \<noteq> None" using file_exists [OF ix l] same by simp
  have le: "dp_new ?p \<le> dp_old ?p" using del by (simp add: deletion_ok_def)
  have po: "prepared_ok (ix_store ix) (file_of ix l) (of_nat l) (dp_old ?p) (dp_new ?p) (dp_record_moves ?p) (dp_offsets ?p @ dp_sources ?p)
      (list_content ix d0 l) (dn_mutation x)" using rec by (simp add: recorded_def)
  have mv: "moved_row (ix_store ix) (dp_record_moves ?p) (list_content ix d0 l) i
      = record_at (ix_store ix) (list_content ix d0 l) (row_origin (dp_holes ?p) (dp_sources ?p) i)" for i
    using del moved_row_origin by (simp add: deletion_ok_def)
  show ?thesis
    using commit_result [OF ok file_of_path [OF st l] le po deletion_moves_ok(1) [OF del] c len run] ex
    by (simp add: file_shrunk_def mv)
qed

lemma commit_files:
  assumes ix: "index_ok ops ix d0" and "list_all2 (erase_piece ops ix d0 ids) ks ds" and "distinct ks"
    and "\<forall>l \<in> set ks. l < length (ix_lists ix) \<and> files d (file_of ix l) = files d0 (file_of ix l)"
    and "io_fold (\<lambda>x _. commit_prepared_mutation (ix_store ix) (Some (dn_mutation x))) ds () d = (r, d')"
  shows "(\<forall>q. q \<notin> file_of ix ` set ks \<longrightarrow> files d' q = files d q) \<and> (\<forall>q. files d q \<noteq> None \<longrightarrow> files d' q \<noteq> None)
    \<and> (benign d \<longrightarrow> r = Inr () \<and> benign d')
    \<and> (r = Inr () \<longrightarrow> list_all2 (\<lambda>l x. file_shrunk ix d0 d' l (dn_plan x)) ks ds)"
  using assms(2-)
proof (induction ks ds arbitrary: d rule: list_all2_induct)
  case (Cons k ks x ds)
  have st: "index_static ops ix" using ix by (simp add: index_ok_def)
  have k: "k < length (ix_lists ix)" "files d (file_of ix k) = files d0 (file_of ix k)" using Cons.prems(2) by simp_all
  obtain q d1 where q: "commit_prepared_mutation (ix_store ix) (Some (dn_mutation x)) d = (q, d1)" by fastforce
  note one = piece_commit [OF ix k(1) Cons.hyps(1) k(2) q]
  have k_out: "file_of ix k \<notin> file_of ix ` set ks"
  proof
    assume "file_of ix k \<in> file_of ix ` set ks"
    then obtain l where "l \<in> set ks" "file_of ix k = file_of ix l" by blast
    then show False using files_distinct [OF st k(1), of l] Cons.prems(1,2) by auto
  qed
  have some: "\<forall>q. files d q \<noteq> None \<longrightarrow> files d1 q \<noteq> None" using one unfolding files_kept_def by metis
  show ?case
  proof (cases q)
    case (Inl e)
    then have "d' = d1" "r = Inl e" using Cons.prems(3) q by (simp_all add: io_bind_def)
    then show ?thesis using one Inl some by (auto simp: files_kept_def simp del: not_None_eq)
  next
    case (Inr u)
    then have tl: "io_fold (\<lambda>x _. commit_prepared_mutation (ix_store ix) (Some (dn_mutation x))) ds () d1 = (r, d')"
      using Cons.prems(3) q by (simp add: io_bind_def)
    have "files d1 (file_of ix l) = files d0 (file_of ix l)" if l: "l \<in> set ks" for l
    proof -
      have "file_of ix l \<noteq> file_of ix k" using k_out l by (metis imageI)
      then show ?thesis using one Cons.prems(2) l by (simp add: files_kept_def)
    qed
    then have ih: "(\<forall>q. q \<notin> file_of ix ` set ks \<longrightarrow> files d' q = files d1 q) \<and> (\<forall>q. files d1 q \<noteq> None \<longrightarrow> files d' q \<noteq> None)
      \<and> (benign d1 \<longrightarrow> r = Inr () \<and> benign d') \<and> (r = Inr () \<longrightarrow> list_all2 (\<lambda>l x. file_shrunk ix d0 d' l (dn_plan x)) ks ds)"
      using Cons.prems(1,2) by (intro Cons.IH [OF _ _ tl]) simp_all
    have "list_content ix d' k = list_content ix d1 k" using ih k_out by (simp add: content_def)
    then have "file_shrunk ix d0 d' k (dn_plan x)" using one Inr by (simp add: file_shrunk_def)
    moreover have "\<forall>q. q \<notin> file_of ix ` set (k # ks) \<longrightarrow> files d' q = files d q" using ih one by (simp add: files_kept_def)
    moreover have "\<forall>q. files d q \<noteq> None \<longrightarrow> files d' q \<noteq> None" using ih some by blast
    moreover have "benign d \<longrightarrow> r = Inr () \<and> benign d'" using ih one by simp
    ultimately show ?thesis using ih by simp
  qed
qed auto

section \<open>Directory updates\<close>

text \<open>Every key of a list's updates is an id the directory places in that list.\<close>

definition piece_keys :: "deletion \<Rightarrow> u32 list" where
  "piece_keys x = dp_ids (dn_plan x) @ map pm_id (dn_moves x)"

lemma deleted_slot:
  assumes p: "planned_deletion ix d ids l p" and "i \<in> set ids" and "unat (dl_list (loc_of ix d i)) = l"
  shows "dl_offset (loc_of ix d i) \<in> set (dp_offsets p)"
proof -
  have "(dl_offset (loc_of ix d i), i) \<in> set (zip (dp_offsets p) (dp_expected p))" using assms by (auto simp: planned_deletion_def)
  then show ?thesis by (rule set_zip_leftD)
qed

lemma piece_keys_ok:
  assumes ix: "index_ok ops ix d" and l: "l < length (ix_lists ix)" and x: "erase_piece ops ix d ids l x"
  shows "distinct (piece_keys x)" and "\<forall>i \<in> set (piece_keys x). unat (dl_list (loc_of ix d i)) = l"
    and "\<forall>m \<in> set (dn_moves x). pm_id m \<notin> set ids" and "set (dp_ids (dn_plan x)) = {i \<in> set ids. unat (dl_list (loc_of ix d i)) = l}"
proof -
  have p: "planned_deletion ix d ids l (dn_plan x)" and rec: "recorded ix d l (dn_plan x) (dn_mutation x) (dn_moves x)"
    using x by (simp_all add: erase_piece_def)
  have ul: "unat (of_nat l :: u32) = l" using ix l by (intro unat_list_number [of ops]) (simp_all add: index_ok_def)
  note mv = moved_located [OF ix l x]
  show del: "set (dp_ids (dn_plan x)) = {i \<in> set ids. unat (dl_list (loc_of ix d i)) = l}"
    using p by (simp add: planned_deletion_def)
  show out: "\<forall>m \<in> set (dn_moves x). pm_id m \<notin> set ids"
  proof (intro ballI notI)
    fix m assume m: "m \<in> set (dn_moves x)" and i: "pm_id m \<in> set ids"
    then have "dl_offset (loc_of ix d (pm_id m)) \<in> set (dp_offsets (dn_plan x))" using mv(1) ul by (intro deleted_slot [OF p i]) simp
    moreover have "pm_source m \<notin> set (dp_offsets (dn_plan x))" using mv(6) [OF m] p by (auto simp: planned_deletion_def deletion_ok_def)
    ultimately show False using mv(1) [OF m] by simp
  qed
  show "\<forall>i \<in> set (piece_keys x). unat (dl_list (loc_of ix d i)) = l" using del mv(1) ul by (auto simp: piece_keys_def)
  have "distinct (map pm_source (dn_moves x))"
    unfolding recorded_moves(2) [OF p rec] using p by (simp add: planned_deletion_def deletion_ok_def)
  moreover have "pm_source m = dl_offset (loc_of ix d (pm_id m))" if "m \<in> set (dn_moves x)" for m using mv(1) [OF that] by simp
  ultimately have "distinct (map (\<lambda>m. dl_offset (loc_of ix d (pm_id m))) (dn_moves x))" by (metis (no_types, lifting) map_cong)
  then have "distinct (map (\<lambda>i. dl_offset (loc_of ix d i)) (map pm_id (dn_moves x)))" by (simp add: comp_def)
  then have "distinct (map pm_id (dn_moves x))" by (simp only: distinct_map)
  then show "distinct (piece_keys x)" using p out del by (auto simp: piece_keys_def planned_deletion_def)
qed

lemma distinct_concat_classes:
  "list_all2 (\<lambda>l x. distinct (g x) \<and> (\<forall>k \<in> set (g x). h k = l)) ls xs \<Longrightarrow> distinct ls \<Longrightarrow> distinct (concat (map g xs))"
proof (induction ls xs rule: list_all2_induct)
  case (Cons l ls x xs)
  have "\<exists>l' \<in> set ls. h k = l'" if "k \<in> set (concat (map g xs))" for k
    using Cons.hyps(2) that by (induction ls xs rule: list_all2_induct) auto
  then show ?case using Cons by fastforce
qed simp

lemma update_keys: "map fst (erase_updates ds) = concat (map piece_keys ds)"
  by (induction ds) (simp_all add: erase_updates_def piece_keys_def comp_def)

lemma pieces_below:
  assumes "list_all2 (erase_piece ops ix d ids) (erase_lists ix d ids) ds"
  shows "list_all2 (\<lambda>l x. l < length (ix_lists ix) \<and> erase_piece ops ix d ids l x) (erase_lists ix d ids) ds"
  using assms erase_lists_below [of _ ix d ids] by (auto simp: list_all2_conv_all_nth intro: nth_mem)

lemma distinct_update_keys:
  assumes ix: "index_ok ops ix d" and ds: "list_all2 (erase_piece ops ix d ids) (erase_lists ix d ids) ds"
  shows "distinct (map fst (erase_updates ds))"
  unfolding update_keys
proof (rule distinct_concat_classes [OF _ distinct_erase_lists [of ix d ids]])
  show "list_all2 (\<lambda>l x. distinct (piece_keys x) \<and> (\<forall>k \<in> set (piece_keys x). unat (dl_list (loc_of ix d k)) = l)) (erase_lists ix d ids) ds"
    using pieces_below [OF ds] by (rule list.rel_mono_strong) (use piece_keys_ok(1,2) [OF ix] in blast)
qed

section \<open>The swap plans of all lists\<close>

lemma pieces_chosen:
  assumes "list_all2 P ks ds" and "distinct ks"
  obtains X where "ds = map X ks" and "\<forall>k \<in> set ks. P k (X k)"
proof -
  have "\<exists>X. ds = map X ks \<and> (\<forall>k \<in> set ks. P k (X k))"
    using assms
  proof (induction ks ds rule: list_all2_induct)
    case (Cons k ks x xs)
    then obtain X where X: "xs = map X ks" "\<forall>k \<in> set ks. P k (X k)" by auto
    then show ?case using Cons by (intro exI [of _ "X(k := x)"]) auto
  qed simp
  with that show thesis by blast
qed

definition fallen :: "list_index \<Rightarrow> disk \<Rightarrow> u32 list \<Rightarrow> nat \<Rightarrow> nat" where
  "fallen ix d ids l = card {i \<in> set ids. unat (dl_list (loc_of ix d i)) = l}"

definition rows_left :: "list_index \<Rightarrow> disk \<Rightarrow> u32 list \<Rightarrow> nat \<Rightarrow> nat" where
  "rows_left ix d ids l = list_rows ix l - fallen ix d ids l"

definition chosen :: "nat set \<Rightarrow> (nat \<Rightarrow> 'a list) \<Rightarrow> nat \<Rightarrow> 'a list" where
  "chosen K f l = (if l \<in> K then f l else [])"

lemma piece_rows:
  assumes "planned_deletion ix d ids l p"
  shows "unat (dp_new p) = rows_left ix d ids l" and "fallen ix d ids l \<le> list_rows ix l"
proof -
  have del: "deletion_ok p" and "unat (dp_old p) = list_rows ix l"
    using assms by (simp_all add: planned_deletion_def list_rows_def)
  moreover from del have "unat (dp_old p) = unat (dp_new p) + length (dp_offsets p)" unfolding deletion_ok_def by blast
  ultimately show "unat (dp_new p) = rows_left ix d ids l" "fallen ix d ids l \<le> list_rows ix l"
    using planned_count [OF assms] by (simp_all add: rows_left_def fallen_def)
qed

lemma piece_deleted_rows:
  assumes ix: "index_ok ops ix d" and l: "l < length (ix_lists ix)" and p: "planned_deletion ix d ids l p" and rec: "recorded ix d l p pr ms"
    and off: "off < list_rows ix l"
  shows "off \<in> unat ` set (dp_offsets p) \<longleftrightarrow> id_at ix d l off \<in> set ids"
proof
  assume "off \<in> unat ` set (dp_offsets p)"
  then obtain k where k: "k < length (dp_offsets p)" "off = unat (dp_offsets p ! k)" by (auto simp: in_set_conv_nth)
  then have "(dp_offsets p ! k, dp_expected p ! k) \<in> set (zip (dp_offsets p) (dp_expected p))"
    using p unfolding set_zip by (auto simp: planned_deletion_def intro!: exI [of _ k])
  then have "dp_expected p ! k \<in> set ids" using p by (auto simp: planned_deletion_def)
  then show "id_at ix d l off \<in> set ids" using rec k by (simp add: recorded_def)
next
  assume i: "id_at ix d l off \<in> set ids"
  have "dl_offset (loc_of ix d (id_at ix d l off)) \<in> set (dp_offsets p)" by (rule deleted_slot [OF p i located_row(2) [OF ix l off]])
  then show "off \<in> unat ` set (dp_offsets p)" using located_row(3) [OF ix l off] by (metis imageI)
qed

lemma word_image: "unat ` {w :: u32. P (unat w)} = {k. k \<le> u32_max \<and> P k}"
proof (intro equalityI subsetI)
  fix k assume "k \<in> {k. k \<le> u32_max \<and> P k}"
  then have "unat (of_nat k :: u32) = k" "P k" by (auto intro: unat_u32_of_nat)
  then show "k \<in> unat ` {w :: u32. P (unat w)}" by (metis (mono_tags) image_eqI mem_Collect_eq)
qed auto

lemma piece_swap:
  assumes ix: "index_ok ops ix d" and l: "l < length (ix_lists ix)" and x: "erase_piece ops ix d ids l (X l)" and K: "l \<in> K"
  shows "swap_plan ix d (set ids) (chosen K (\<lambda>l. dp_holes (dn_plan (X l)))) (chosen K (\<lambda>l. dp_sources (dn_plan (X l)))) (rows_left ix d ids) l"
proof -
  let ?p = "dn_plan (X l)"
  have p: "planned_deletion ix d ids l ?p" and rec: "recorded ix d l ?p (dn_mutation (X l)) (dn_moves (X l))"
    using x by (simp_all add: erase_piece_def)
  then have del: "deletion_ok ?p" by (simp add: planned_deletion_def)
  have old: "unat (dp_old ?p) = list_rows ix l" and new: "unat (dp_new ?p) = rows_left ix d ids l"
    using p piece_rows [OF p] by (simp_all add: planned_deletion_def list_rows_def)
  have le: "rows_left ix d ids l \<le> list_rows ix l" by (simp add: rows_left_def)
  note mem = piece_deleted_rows [OF ix l p rec]
  have img: "unat w \<in> unat ` set (dp_offsets ?p) \<longleftrightarrow> w \<in> set (dp_offsets ?p)" for w :: u32
    by (rule inj_image_mem_iff) (simp add: inj_on_def word_unat_eq_iff)
  have big: "list_rows ix l \<le> u32_max" by (simp add: list_rows_def)
  have "set (dp_holes ?p) = {w. unat w < rows_left ix d ids l \<and> unat w \<in> unat ` set (dp_offsets ?p)}"
    unfolding img using del by (auto simp: deletion_ok_def word_less_nat_alt new)
  also have "unat ` \<dots> = {k. k \<le> u32_max \<and> (k < rows_left ix d ids l \<and> k \<in> unat ` set (dp_offsets ?p))}" by (rule word_image)
  also have "\<dots> = {off. off < rows_left ix d ids l \<and> id_at ix d l off \<in> set ids}"
  proof (rule Collect_cong)
    fix k show "k \<le> u32_max \<and> (k < rows_left ix d ids l \<and> k \<in> unat ` set (dp_offsets ?p))
        \<longleftrightarrow> k < rows_left ix d ids l \<and> id_at ix d l k \<in> set ids"
      using mem [of k] le big by auto
  qed
  finally have holes: "unat ` set (dp_holes ?p) = {off. off < rows_left ix d ids l \<and> id_at ix d l off \<in> set ids}" .
  have "set (dp_sources ?p) = {w. rows_left ix d ids l \<le> unat w \<and> unat w < list_rows ix l \<and> unat w \<notin> unat ` set (dp_offsets ?p)}"
    unfolding img using del by (auto simp: deletion_ok_def word_less_nat_alt word_le_nat_alt new old)
  also have "unat ` \<dots> = {k. k \<le> u32_max \<and> (rows_left ix d ids l \<le> k \<and> k < list_rows ix l \<and> k \<notin> unat ` set (dp_offsets ?p))}" by (rule word_image)
  also have "\<dots> = {off. rows_left ix d ids l \<le> off \<and> off < list_rows ix l \<and> id_at ix d l off \<notin> set ids}" using mem big by auto
  finally have "unat ` set (dp_sources ?p) = {off. rows_left ix d ids l \<le> off \<and> off < list_rows ix l \<and> id_at ix d l off \<notin> set ids}" .
  then show ?thesis using holes K le del by (simp add: swap_plan_def chosen_def deletion_ok_def)
qed

lemma untouched_swap:
  assumes ix: "index_ok ops ix d" and l: "l < length (ix_lists ix)" and K: "l \<notin> K" and none: "\<forall>i \<in> set ids. unat (dl_list (loc_of ix d i)) \<noteq> l"
  shows "swap_plan ix d (set ids) (chosen K f) (chosen K g) (rows_left ix d ids) l" and "rows_left ix d ids l = list_rows ix l"
    and "fallen ix d ids l = 0"
proof -
  have "{i \<in> set ids. unat (dl_list (loc_of ix d i)) = l} = {}" using none by blast
  then show z: "fallen ix d ids l = 0" by (simp add: fallen_def)
  then show n: "rows_left ix d ids l = list_rows ix l" by (simp add: rows_left_def)
  have "id_at ix d l off \<notin> set ids" if "off < list_rows ix l" for off using located_row(2) [OF ix l that] none by blast
  then show "swap_plan ix d (set ids) (chosen K f) (chosen K g) (rows_left ix d ids) l" using K n by (auto simp: swap_plan_def chosen_def)
qed

lemma sum_rows_left:
  assumes ls: "lists_ok ops ix" and "\<forall>i \<in> set ids. unat (dl_list (loc_of ix d i)) < length (ix_lists ix)"
    and "\<forall>l < length (ix_lists ix). fallen ix d ids l \<le> list_rows ix l"
  shows "(\<Sum>l<length (ix_lists ix). rows_left ix d ids l) + card (set ids) = ix_active ix"
proof -
  let ?n = "length (ix_lists ix)"
  have "(\<Sum>l<?n. fallen ix d ids l) = (\<Sum>l<?n. \<Sum>i \<in> {i \<in> set ids. unat (dl_list (loc_of ix d i)) = l}. 1)" by (simp add: fallen_def)
  also have "\<dots> = (\<Sum>i \<in> set ids. 1)" using assms(2) by (intro sum.group) auto
  finally have "(\<Sum>l<?n. fallen ix d ids l) = card (set ids)" by simp
  moreover have "(\<Sum>l<?n. rows_left ix d ids l + fallen ix d ids l) = (\<Sum>l<?n. list_rows ix l)"
    using assms(3) by (intro sum.cong refl) (simp add: rows_left_def)
  moreover have "ix_active ix = (\<Sum>l<?n. list_rows ix l)" using ls by (simp add: lists_ok_def)
  ultimately show ?thesis by (simp add: sum.distrib)
qed

section \<open>The directory and the resident lists\<close>

lemma update_of:
  assumes ix: "index_ok ops ix d" and slots: "slots_ok ix d ids" and ds: "list_all2 (erase_piece ops ix d ids) (erase_lists ix d ids) ds"
  shows "(i, v) \<in> set (erase_updates ds) \<longleftrightarrow> i \<in> set ids \<and> v = tombstone
    \<or> (\<exists>x \<in> set ds. \<exists>m \<in> set (dn_moves x). i = pm_id m \<and> v = \<lparr>dl_list = dn_list x, dl_offset = pm_destination m\<rparr>)"
proof -
  have "i \<in> set ids \<longleftrightarrow> (\<exists>x \<in> set ds. i \<in> set (dp_ids (dn_plan x)))"
  proof
    assume i: "i \<in> set ids"
    let ?l = "unat (dl_list (loc_of ix d i))"
    have "?l \<in> set (erase_lists ix d ids)" using i slots by (auto simp: erase_lists_def slots_ok_def)
    then obtain k where k: "k < length (erase_lists ix d ids)" "erase_lists ix d ids ! k = ?l" by (metis in_set_conv_nth)
    then have "ds ! k \<in> set ds" and x: "erase_piece ops ix d ids ?l (ds ! k)" using ds by (auto simp: list_all2_conv_all_nth)
    moreover have "?l < length (ix_lists ix)" using i slots by (simp add: slots_ok_def)
    ultimately show "\<exists>x \<in> set ds. i \<in> set (dp_ids (dn_plan x))" using piece_keys_ok(4) [OF ix _ x] i by blast
  next
    assume "\<exists>x \<in> set ds. i \<in> set (dp_ids (dn_plan x))"
    then obtain x where x: "x \<in> set ds" "i \<in> set (dp_ids (dn_plan x))" by blast
    obtain l where l: "l \<in> set (erase_lists ix d ids)" "erase_piece ops ix d ids l x" by (rule piece_of [OF ds x(1)])
    then show "i \<in> set ids" using piece_keys_ok(4) [OF ix erase_lists_below [OF l(1)] l(2)] x(2) by blast
  qed
  then show ?thesis by (auto simp: erase_updates_def)
qed

lemma erased_directory:
  assumes ix: "index_ok ops ix d" and slots: "slots_ok ix d ids" and ds: "ds = map X (erase_lists ix d ids)"
    and X: "list_all2 (erase_piece ops ix d ids) (erase_lists ix d ids) ds"
    and c: "dir_content ix d1 = dir_content ix d"
    and up: "updates_ok (ix_directory ix) (erase_updates ds) d1 d'" and kept: "untouched_kept (ix_directory ix) (erase_updates ds) d1 d'"
  defines "K \<equiv> set (erase_lists ix d ids)"
  shows "dir_erased ix (set ids) (chosen K (\<lambda>l. dp_holes (dn_plan (X l)))) (chosen K (\<lambda>l. dp_sources (dn_plan (X l)))) d d'"
proof -
  let ?us = "erase_updates ds" and ?H = "chosen K (\<lambda>l. dp_holes (dn_plan (X l)))" and ?S = "chosen K (\<lambda>l. dp_sources (dn_plan (X l)))"
  note upd = update_of [OF ix slots X]
  have map: "map_of ?us i = Some v \<longleftrightarrow> (i, v) \<in> set ?us" for i v using distinct_update_keys [OF ix X] by simp
  have piece: "l < length (ix_lists ix) \<and> erase_piece ops ix d ids l (X l) \<and> X l \<in> set ds" if "l \<in> K" for l
  proof -
    have "\<forall>l \<in> K. erase_piece ops ix d ids l (X l)" using X unfolding ds K_def by (simp only: list_all2_map2 list_all2_same)
    then have "erase_piece ops ix d ids l (X l)" using that by blast
    then show ?thesis using that erase_lists_below [of l ix d ids] unfolding ds K_def by simp
  qed
  have mv: "dn_moves (X l) = map (\<lambda>k. \<lparr>pm_destination = dp_holes (dn_plan (X l)) ! k, pm_source = dp_sources (dn_plan (X l)) ! k,
          pm_id = id_at ix d l (unat (dp_sources (dn_plan (X l)) ! k))\<rparr>) [0..<length (dp_holes (dn_plan (X l)))]"
      "dn_list (X l) = of_nat l" if "l \<in> K" for l
    using piece [OF that] by (simp_all add: erase_piece_def recorded_def planned_deletion_def)
  have moved: "moved_to ix d ?H ?S i l k \<Longrightarrow> (i, \<lparr>dl_list = of_nat l, dl_offset = ?H l ! k\<rparr>) \<in> set ?us" for i l k
  proof -
    assume m: "moved_to ix d ?H ?S i l k"
    then have l: "l \<in> K" by (auto simp: moved_to_def chosen_def split: if_splits)
    then have k: "k < length (dp_holes (dn_plan (X l)))" "i = id_at ix d l (unat (dp_sources (dn_plan (X l)) ! k))"
      using m by (simp_all add: moved_to_def chosen_def)
    then have "dn_moves (X l) ! k \<in> set (dn_moves (X l))" "pm_id (dn_moves (X l) ! k) = i"
        "pm_destination (dn_moves (X l) ! k) = ?H l ! k"
      using mv(1) [OF l] l by (simp_all add: chosen_def)
    then show ?thesis unfolding upd using piece [OF l] mv(2) [OF l] by (intro disjI2 bexI [of _ "X l"]) auto
  qed
  have only: "i \<in> set ids \<or> (\<exists>l k. moved_to ix d ?H ?S i l k)" if iv: "(i, v) \<in> set ?us" for i v
  proof (rule ccontr)
    assume n: "\<not> ?thesis"
    then obtain x m where x: "x \<in> set ds" "m \<in> set (dn_moves x)" "i = pm_id m" using iv unfolding upd by blast
    then obtain l where l: "l \<in> K" "x = X l" unfolding ds K_def by auto
    then obtain k where "k < length (dp_holes (dn_plan (X l)))" "i = id_at ix d l (unat (dp_sources (dn_plan (X l)) ! k))"
      using x(2,3) mv(1) [OF l(1)] by (auto simp: l(2))
    then have "moved_to ix d ?H ?S i l k" using l(1) piece [OF l(1)] by (simp add: moved_to_def chosen_def)
    then show False using n by blast
  qed
  have ea: "dir_has (dir_content ix d') i \<and> dir_lookup (dir_content ix d') i = (case map_of ?us i of Some v \<Rightarrow> v | None \<Rightarrow> loc_of ix d i)"
    if i: "unat i < ix_next_id ix" for i
  proof -
    have "dir_has (dir_content ix d) i" using ix i by (simp add: index_ok_def ids_located_def)
    moreover have "length (dir_content ix d) \<le> length (dir_content ix d')" using kept c by (simp add: untouched_kept_def)
    ultimately have "dir_has (dir_content ix d) i" "dir_has (dir_content ix d') i" by (simp_all add: dir_has_def)
    then show ?thesis using up unfolding updates_ok_def c by (auto simp: entry_after_def split: option.splits)
  qed
  show ?thesis
    unfolding dir_erased_def
  proof (intro conjI allI impI)
    show "dir_page_size (ix_directory ix) dvd length (dir_content ix d')" using up by (simp add: updates_ok_def)
    fix i :: u32 assume i: "unat i < ix_next_id ix"
    note e = ea [OF i]
    show "dir_has (dir_content ix d') i" using e by blast
    show "loc_of ix d' i = tombstone" if "i \<in> set ids"
    proof -
      have "map_of ?us i = Some tombstone" using that unfolding map upd by blast
      then show ?thesis using e by simp
    qed
    show "loc_of ix d' i = \<lparr>dl_list = of_nat l, dl_offset = ?H l ! k\<rparr>" if "moved_to ix d ?H ?S i l k" for l k
    proof -
      have "map_of ?us i = Some \<lparr>dl_list = of_nat l, dl_offset = ?H l ! k\<rparr>" unfolding map by (rule moved [OF that])
      then show ?thesis using e by simp
    qed
    show "loc_of ix d' i = loc_of ix d i" if "i \<notin> set ids \<and> (\<forall>l k. \<not> moved_to ix d ?H ?S i l k)"
    proof -
      have "map_of ?us i = None" using only that map by (metis option.exhaust)
      then show ?thesis using e by simp
    qed
  qed
qed

lemma erased_postings:
  assumes ix: "index_ok ops ix d" and ds: "list_all2 (erase_piece ops ix d ids) (erase_lists ix d ids) ds"
  defines "f \<equiv> \<lambda>x. commit_posting (op_pq4 ops) (ix_subquantizers ix) (16 * ix_subquantizers ix) (dn_plan x) (dn_blocks x)"
  shows "\<exists>mls. each_item dn_list f ds (ix_lists ix) = (Inr (), mls) \<and> length mls = length (ix_lists ix)
    \<and> list_all2 (\<lambda>l x. f x (ix_lists ix ! l) = (Inr (), mls ! l)) (erase_lists ix d ids) ds
    \<and> (\<forall>l. l \<notin> set (erase_lists ix d ids) \<longrightarrow> mls ! l = ix_lists ix ! l)"
proof -
  let ?ks = "erase_lists ix d ids"
  have dl: "unat (dn_list x) = l \<and> (\<exists>ml. f x (ix_lists ix ! l) = (Inr (), ml))" if l: "l < length (ix_lists ix)" and x: "erase_piece ops ix d ids l x" for l x
  proof -
    have p: "planned_deletion ix d ids l (dn_plan x)" and r: "recorded ix d l (dn_plan x) (dn_mutation x) (dn_moves x)"
      and b: "pack_deletion (op_pq4 ops) (ix_subquantizers ix) (code_size ix) (16 * ix_subquantizers ix) (ix_lists ix ! l) (dn_plan x) (dn_moves x)
        = Inr (dn_blocks x)" using x by (simp_all add: erase_piece_def)
    show ?thesis using piece_posting [OF ix l p r] planned_list [OF ix l p] by (auto simp: f_def b)
  qed
  have keys: "map (\<lambda>x. unat (dn_list x)) ds = ?ks"
    using pieces_below [OF ds] dl by (auto simp: list_all2_conv_all_nth intro!: nth_equalityI)
  then have "distinct (map (\<lambda>x. unat (dn_list x)) ds)" using distinct_erase_lists [of ix d ids] by simp
  then have "distinct (map unat (map dn_list ds))" by (simp add: comp_def)
  then have dist: "distinct (map dn_list ds)" by (simp only: distinct_map)
  have "\<forall>x \<in> set ds. unat (dn_list x) < length (ix_lists ix) \<and> (\<exists>ml. f x (ix_lists ix ! unat (dn_list x)) = (Inr (), ml))"
  proof
    fix x assume "x \<in> set ds"
    then obtain l where l: "l \<in> set ?ks" "erase_piece ops ix d ids l x" by (rule piece_of [OF ds])
    show "unat (dn_list x) < length (ix_lists ix) \<and> (\<exists>ml. f x (ix_lists ix ! unat (dn_list x)) = (Inr (), ml))"
      using dl [OF erase_lists_below [OF l(1)] l(2)] erase_lists_below [OF l(1)] by simp
  qed
  from each_item_ok [of dn_list ds "ix_lists ix" f, OF dist this] obtain mls where m: "each_item dn_list f ds (ix_lists ix) = (Inr (), mls)" "length mls = length (ix_lists ix)"
    "\<forall>x \<in> set ds. f x (ix_lists ix ! unat (dn_list x)) = (Inr (), mls ! unat (dn_list x))"
    "\<forall>k. k \<notin> (\<lambda>x. unat (dn_list x)) ` set ds \<longrightarrow> mls ! k = ix_lists ix ! k" by blast
  have "(\<lambda>x. unat (dn_list x)) ` set ds = set ?ks" using keys by (metis list.set_map)
  moreover have "list_all2 (\<lambda>l x. f x (ix_lists ix ! l) = (Inr (), mls ! l)) ?ks ds"
    unfolding keys [symmetric] using m(3) by (simp add: list_all2_map1 list_all2_same)
  ultimately show ?thesis using m by (intro exI [of _ mls]) simp
qed

section \<open>The commit\<close>

lemma touched_erased:
  assumes ix: "index_ok ops ix d" and l: "l < length (ix_lists ix)" and x: "erase_piece ops ix d ids l (X l)" and K: "l \<in> K"
    and shr: "file_shrunk ix d d1 l (dn_plan (X l))"
    and post: "commit_posting (op_pq4 ops) (ix_subquantizers ix) (16 * ix_subquantizers ix) (dn_plan (X l)) (dn_blocks (X l)) (ix_lists ix ! l)
        = (Inr (), mls ! l)"
    and same: "list_content ix d2 l = list_content ix d1 l"
  shows "list_erased ops ix (chosen K (\<lambda>l. dp_holes (dn_plan (X l)))) (chosen K (\<lambda>l. dp_sources (dn_plan (X l)))) (rows_left ix d ids) mls d d2 l"
proof -
  let ?H = "chosen K (\<lambda>l. dp_holes (dn_plan (X l)))" and ?S = "chosen K (\<lambda>l. dp_sources (dn_plan (X l)))" and ?N = "rows_left ix d ids"
  have p: "planned_deletion ix d ids l (dn_plan (X l))" and rec: "recorded ix d l (dn_plan (X l)) (dn_mutation (X l)) (dn_moves (X l))"
    using x by (simp_all add: erase_piece_def)
  have hs: "?H l = dp_holes (dn_plan (X l))" "?S l = dp_sources (dn_plan (X l))" using K by (simp_all add: chosen_def)
  have "length (list_content ix d2 l) = page_count (?N l) (st_per_page (ix_store ix)) * page_size (ix_store ix)"
      "\<forall>i < ?N l. record_at (ix_store ix) (list_content ix d2 l) i = record_at (ix_store ix) (list_content ix d l) (origin ?H ?S l i)"
    using shr by (simp_all add: file_shrunk_def same piece_rows(1) [OF p] hs)
  moreover have "posting_ok (op_pq4 ops) (ix_subquantizers ix) (mls ! l)" "ml_size (mls ! l) = dp_new (dn_plan (X l))"
    "\<forall>i < ?N l. row_code (op_pq4 ops) (ix_subquantizers ix) (mls ! l) i
        = row_code (op_pq4 ops) (ix_subquantizers ix) (ix_lists ix ! l) (origin ?H ?S l i)
      \<and> row_metadata (mls ! l) i = row_metadata (ix_lists ix ! l) (origin ?H ?S l i)"
    using piece_posting [OF ix l p rec] x post unfolding piece_rows(1) [OF p] hs erase_piece_def by auto
  ultimately show ?thesis by (simp add: list_erased_def piece_rows(1) [OF p])
qed

lemma untouched_erased:
  assumes ix: "index_ok ops ix d" and l: "l < length (ix_lists ix)" and K: "l \<notin> K" and n: "N l = list_rows ix l"
    and "list_content ix d2 l = list_content ix d l" and "mls ! l = ix_lists ix ! l"
  shows "list_erased ops ix (chosen K f) (chosen K g) N mls d d2 l"
proof -
  have "length (list_content ix d l) = page_count (list_rows ix l) (st_per_page (ix_store ix)) * page_size (ix_store ix)"
    using ix l by (simp add: index_ok_def files_ok_def)
  then show ?thesis
    using posting_of [OF ix l] assms(3-) by (simp add: list_erased_def chosen_def list_rows_def row_origin_def)
qed

lemma commit_erase_result:
  assumes ix: "index_ok ops ix d0" and ids: "ids \<noteq> []" "card (set ids) = n" and prep: "erase_prepared ops ix d0 ids ds"
    and same: "files d = files d0" and run: "commit_erase ops n (16 * ix_subquantizers ix) ds ix d = (r, ix', d')"
  shows "(\<forall>k. r = Inr k \<longrightarrow> k = n \<and> (\<exists>H S N mls. ix' = shrunk ix n mls \<and> erased ops ix (set ids) H S N mls d0 d'))
    \<and> (benign d \<longrightarrow> (\<exists>k. r = Inr k))"
proof -
  let ?ks = "erase_lists ix d0 ids"
  have slots: "slots_ok ix d0 ids" and pieces: "list_all2 (erase_piece ops ix d0 ids) ?ks ds" using prep by (simp_all add: erase_prepared_def)
  have st: "index_static ops ix" and ls: "lists_ok ops ix" using ix by (simp_all add: index_ok_def)
  then have args: "directory_args_ok (ix_directory ix)" by (simp add: index_static_def)
  obtain X where X: "ds = map X ?ks" "\<forall>l \<in> set ?ks. erase_piece ops ix d0 ids l (X l)" by (rule pieces_chosen [OF pieces distinct_erase_lists])
  note below = erase_lists_below [of _ ix d0 ids]
  obtain q d1 where q: "io_fold (\<lambda>x _. commit_prepared_mutation (ix_store ix) (Some (dn_mutation x))) ds () d = (q, d1)" by fastforce
  have in_range: "\<forall>l \<in> set ?ks. l < length (ix_lists ix) \<and> files d (file_of ix l) = files d0 (file_of ix l)"
    using below same by simp
  note F = commit_files [OF ix pieces distinct_erase_lists in_range q]
  have dirout: "dir_path (ix_directory ix) \<notin> file_of ix ` set ?ks"
  proof
    assume "dir_path (ix_directory ix) \<in> file_of ix ` set ?ks"
    then obtain l where "l \<in> set ?ks" "dir_path (ix_directory ix) = file_of ix l" by blast
    then show False using below [of l] st unfolding index_static_def by metis
  qed
  have c1: "files d1 (dir_path (ix_directory ix)) = files d0 (dir_path (ix_directory ix))" using F dirout same by simp
  then have c: "dir_content ix d1 = dir_content ix d0" by (simp add: content_def)
  obtain t d2 where t: "write_batch (ix_directory ix) (erase_updates ds) d1 = (t, d2)" by fastforce
  note W = write_batch_result [OF args t]
  obtain i0 where i0: "i0 \<in> set ids" using ids(1) by (meson list.set_sel(1))
  have ne: "erase_updates ds \<noteq> []"
  proof -
    have "(i0, tombstone) \<in> set (erase_updates ds)" using i0 update_of [OF ix slots pieces] by blast
    then show ?thesis by auto
  qed
  have returns: "q = Inr () \<and> t = Inr ()" if "benign d"
  proof -
    have b: "q = Inr ()" "benign d1" using F that by blast+
    have "dir_content ix d0 \<noteq> []"
    proof -
      have "list_rows ix (unat (dl_list (loc_of ix d0 i0))) \<noteq> 0" using slots i0 by (auto simp: slots_ok_def list_rows_def word_less_nat_alt)
      then have "ix_active ix \<noteq> 0" using list_rows_le_active [OF ls, of "unat (dl_list (loc_of ix d0 i0))"] slots i0 by (simp add: slots_ok_def)
      then have "unat (0 :: u32) < ix_next_id ix" using ls by (simp add: lists_ok_def)
      then have "dir_has (dir_content ix d0) 0" using ix unfolding index_ok_def ids_located_def by blast
      then show ?thesis by (auto simp: dir_has_def entry_bytes_def)
    qed
    then have "files d1 (dir_path (ix_directory ix)) \<noteq> None" unfolding c1 by (auto simp: content_def split: option.splits)
    moreover have "dir_page_size (ix_directory ix) dvd length (dir_content ix d1)" using ix unfolding c by (simp add: index_ok_def files_ok_def)
    ultimately show ?thesis using W b distinct_update_keys [OF ix pieces] by blast
  qed
  obtain mls where mls: "each_item dn_list (\<lambda>x. commit_posting (op_pq4 ops) (ix_subquantizers ix) (16 * ix_subquantizers ix) (dn_plan x) (dn_blocks x)) ds (ix_lists ix) = (Inr (), mls)"
    "length mls = length (ix_lists ix)"
    "list_all2 (\<lambda>l x. commit_posting (op_pq4 ops) (ix_subquantizers ix) (16 * ix_subquantizers ix) (dn_plan x) (dn_blocks x) (ix_lists ix ! l)
        = (Inr (), mls ! l)) ?ks ds"
    "\<forall>l. l \<notin> set ?ks \<longrightarrow> mls ! l = ix_lists ix ! l"
    using erased_postings [OF ix pieces] by blast
  show ?thesis
  proof (cases "q = Inr () \<and> t = Inr ()")
    case False
    then have "\<exists>e. r = Inl e"
      using run q t by (cases q; cases t) (auto simp: commit_erase_def io_bind_def)
    then show ?thesis using False returns by auto
  next
    case True
    then have done_: "r = Inr n" "ix' = shrunk ix n mls" "d' = d2"
      using run q t by (auto simp: commit_erase_def io_bind_def mls(1) shrunk_def)
    let ?K = "set ?ks"
    let ?H = "chosen ?K (\<lambda>l. dp_holes (dn_plan (X l)))" and ?S = "chosen ?K (\<lambda>l. dp_sources (dn_plan (X l)))"
    let ?N = "rows_left ix d0 ids"
    have none: "\<forall>i \<in> set ids. unat (dl_list (loc_of ix d0 i)) \<noteq> l" if "l < length (ix_lists ix)" "l \<notin> ?K" for l
      using that by (auto simp: erase_lists_def)
    have others: "others_kept (dir_path (ix_directory ix)) d1 d2" using W by (simp add: untouched_kept_def)
    have lc: "list_content ix d2 l = list_content ix d1 l" if "l < length (ix_lists ix)" for l
    proof -
      have "file_of ix l \<noteq> dir_path (ix_directory ix)" using st that by (simp add: index_static_def)
      then show ?thesis using others by (simp add: others_kept_def content_def)
    qed
    have shr: "\<forall>l \<in> ?K. file_shrunk ix d0 d1 l (dn_plan (X l))"
    proof -
      have "list_all2 (\<lambda>l x. file_shrunk ix d0 d1 l (dn_plan x)) ?ks ds" using F True by blast
      then show ?thesis unfolding X(1) by (simp only: list_all2_map2 list_all2_same)
    qed
    have pst: "\<forall>l \<in> ?K. commit_posting (op_pq4 ops) (ix_subquantizers ix) (16 * ix_subquantizers ix) (dn_plan (X l)) (dn_blocks (X l)) (ix_lists ix ! l)
        = (Inr (), mls ! l)"
      using mls(3) unfolding X(1) by (simp only: list_all2_map2 list_all2_same)
    have lists: "swap_plan ix d0 (set ids) ?H ?S ?N l \<and> list_erased ops ix ?H ?S ?N mls d0 d2 l \<and> fallen ix d0 ids l \<le> list_rows ix l"
      if l: "l < length (ix_lists ix)" for l
    proof (cases "l \<in> ?K")
      case True
      then have x: "erase_piece ops ix d0 ids l (X l)" using X(2) by blast
      then have p: "planned_deletion ix d0 ids l (dn_plan (X l))" by (simp add: erase_piece_def)
      have "list_erased ops ix ?H ?S ?N mls d0 d2 l"
        by (rule touched_erased [where X = X, OF ix l x True _ _ lc [OF l]]) (use shr pst True in blast)+
      then show ?thesis using piece_swap [where X = X, OF ix l x True] piece_rows(2) [OF p] by blast
    next
      case out: False
      note u = untouched_swap [OF ix l out none [OF l out]]
      have "file_of ix l \<notin> file_of ix ` ?K"
      proof
        assume "file_of ix l \<in> file_of ix ` ?K"
        then obtain k where "k \<in> ?K" "file_of ix l = file_of ix k" by blast
        then show False using files_distinct [OF st l below] out by blast
      qed
      then have "list_content ix d1 l = list_content ix d0 l" using F same by (simp add: content_def)
      then have "list_content ix d2 l = list_content ix d0 l" using lc [OF l] by simp
      moreover have "mls ! l = ix_lists ix ! l" using mls(4) out by blast
      ultimately have "list_erased ops ix ?H ?S ?N mls d0 d2 l" by (intro untouched_erased [where N = ?N, OF ix l out u(2)])
      then show ?thesis using u by simp
    qed
    have "dir_erased ix (set ids) ?H ?S d0 d2"
      by (rule erased_directory [OF ix slots X(1) pieces c]) (use W True ne in blast)+
    moreover have "(\<Sum>l<length (ix_lists ix). ?N l) + card (set ids) = ix_active ix"
      by (rule sum_rows_left [OF ls]) (use slots lists in \<open>auto simp: slots_ok_def\<close>)
    ultimately have "erased ops ix (set ids) ?H ?S ?N mls d0 d2" using lists mls(2) by (simp add: erased_def)
    then show ?thesis using done_ by blast
  qed
qed

end
