(* ===== verification/Erase_Guarantees.thy ===== *)
theory Erase_Guarantees
  imports Erase_Commit
begin

text \<open>
  Deletion from the external index: a batch that returns removes exactly its ids from the abstract map
  and keeps the invariant; a batch with an unknown or repeated id is rejected before any write.
\<close>

section \<open>Preparation and commit together\<close>

text \<open>A prepared batch names active ids only, and active ids are no more than the active count.\<close>

lemma recorded_expected:
  assumes "planned_deletion ix d ids l p" and "recorded ix d l p pr ms" and "i \<in> set ids" and "unat (dl_list (loc_of ix d i)) = l"
  shows "id_at ix d l (unat (dl_offset (loc_of ix d i))) = i"
proof -
  have "(dl_offset (loc_of ix d i), i) \<in> set (zip (dp_offsets p) (dp_expected p))" using assms(1,3,4) by (auto simp: planned_deletion_def)
  then obtain k where "k < length (dp_offsets p)" "dp_offsets p ! k = dl_offset (loc_of ix d i)" "dp_expected p ! k = i"
    by (auto simp: set_zip)
  then show ?thesis using assms(2) by (auto simp: recorded_def)
qed

lemma prepared_active:
  assumes ix: "index_ok ops ix d" and prep: "erase_prepared ops ix d ids ds" and i: "i \<in> set ids"
  shows "index_lookup ops ix d i \<noteq> None"
proof -
  let ?l = "unat (dl_list (loc_of ix d i))"
  have slots: "slots_ok ix d ids" and pieces: "list_all2 (erase_piece ops ix d ids) (erase_lists ix d ids) ds"
    using prep by (simp_all add: erase_prepared_def)
  have l: "?l < length (ix_lists ix)" and off: "unat (dl_offset (loc_of ix d i)) < list_rows ix ?l"
    and act: "location_active (loc_of ix d i)" using slots i by (simp_all add: slots_ok_def list_rows_def word_less_nat_alt)
  have "?l \<in> set (erase_lists ix d ids)" using i l by (auto simp: erase_lists_def)
  then obtain k where "k < length (erase_lists ix d ids)" "erase_lists ix d ids ! k = ?l" by (metis in_set_conv_nth)
  then have "erase_piece ops ix d ids ?l (ds ! k)" using pieces by (auto simp: list_all2_conv_all_nth)
  then have "id_at ix d ?l (unat (dl_offset (loc_of ix d i))) = i" using i by (intro recorded_expected) (auto simp: erase_piece_def)
  then have "unat i < ix_next_id ix" using located_row(1) [OF ix l off] by simp
  then show ?thesis using act by (simp add: index_lookup_def Let_def)
qed

lemma active_bound:
  assumes ix: "index_ok ops ix d" and act: "all_active ops ix d ids"
  shows "card (set ids) \<le> ix_active ix"
proof -
  note rows = all_active_rows [OF ix act]
  have slot: "unat (dl_list (loc_of ix d i)) < length (ix_lists ix)" "unat (dl_offset (loc_of ix d i)) < list_rows ix (unat (dl_list (loc_of ix d i)))"
    if "i \<in> set ids" for i using rows(1) that by (simp_all add: slots_ok_def list_rows_def word_less_nat_alt)
  have "fallen ix d ids l \<le> list_rows ix l" for l
  proof -
    let ?A = "{i \<in> set ids. unat (dl_list (loc_of ix d i)) = l}"
    have "inj_on (\<lambda>i. unat (dl_offset (loc_of ix d i))) ?A"
    proof (rule inj_onI)
      fix i j assume ij: "i \<in> ?A" "j \<in> ?A" "unat (dl_offset (loc_of ix d i)) = unat (dl_offset (loc_of ix d j))"
      have "id_at ix d l (unat (dl_offset (loc_of ix d k))) = k" if "k \<in> ?A" for k using rows(2) that by auto
      from this [OF ij(1)] this [OF ij(2)] show "i = j" unfolding ij(3) by (rule box_equals [OF refl])
    qed
    moreover have "(\<lambda>i. unat (dl_offset (loc_of ix d i))) ` ?A \<subseteq> {..<list_rows ix l}" using slot(2) by auto
    ultimately have "card ?A \<le> card {..<list_rows ix l}" using finite_lessThan by (rule card_inj_on_le)
    then show ?thesis by (simp add: fallen_def)
  qed
  moreover have "lists_ok ops ix" using ix by (simp add: index_ok_def)
  ultimately show ?thesis using sum_rows_left [of ops ix ids d] slot(1) by simp
qed

lemma erase_batch_result:
  assumes ix: "index_ok ops ix d" and n: "n \<le> length req" and run: "erase_batch ops n (Some req) ix d = (r, ix', d')"
  defines "ids \<equiv> take n req"
  shows "(\<forall>k. r = Inr k \<longrightarrow> k = n \<and> distinct ids \<and> all_active ops ix d ids \<and> index_ok ops ix' d'
        \<and> ix_active ix' = ix_active ix - n \<and> ix_next_id ix' = ix_next_id ix \<and> ix_options ix' = ix_options ix
        \<and> (\<forall>i. index_lookup ops ix' d' i = (if i \<in> set ids then None else index_lookup ops ix d i)))
    \<and> (distinct ids \<and> all_active ops ix d ids \<and> benign d \<longrightarrow> (\<exists>k. r = Inr k))
    \<and> (\<not> (distinct ids \<and> all_active ops ix d ids) \<longrightarrow> (\<exists>e. r = Inl e) \<and> ix' = ix \<and> files d' = files d)"
proof (cases "n = 0")
  case True
  then show ?thesis using run ix by (auto simp: erase_batch_def ids_def)
next
  case n0: False
  have len: "length ids = n" and ne: "ids \<noteq> []" using n n0 by (auto simp: ids_def)
  have ls: "lists_ok ops ix" using ix by (simp add: index_ok_def)
  show ?thesis
  proof (cases "n \<le> ix_active ix \<and> distinct ids")
    case False
    have "(\<exists>e. r = Inl e) \<and> ix' = ix \<and> d' = d"
      using run n0 False by (auto simp: erase_batch_def ids_def Let_def split: if_splits)
    moreover have "\<not> (distinct ids \<and> all_active ops ix d ids)"
      using active_bound [OF ix, of ids] False len by (metis distinct_card)
    ultimately show ?thesis by auto
  next
    case ok: True
    have card: "card (set ids) = n" using ok len by (simp add: distinct_card)
    have u32: "n \<le> u32_max" using ok ls by (simp add: lists_ok_def)
    obtain q d1 where q: "prepare_erase ops ix n ids d = (q, d1)" by fastforce
    note P = readingD [OF prepare_erase_reading [OF ix _ len u32] refl q]
    have run': "(case q of Inl e \<Rightarrow> (Inl e, ix, d1) | Inr (b, ds) \<Rightarrow> commit_erase ops n b ds ix d1) = (r, ix', d')"
      using run n0 ok q by (simp add: erase_batch_def Let_def not_le flip: ids_def split: sum.splits prod.splits)
    show ?thesis
    proof (cases q)
      case (Inl e)
      then have res: "r = Inl e" "ix' = ix" "d' = d1" using run' by simp_all
      show ?thesis using P Inl ok unfolding res by auto
    next
      case (Inr y)
      obtain b ds where y: "y = (b, ds)" by fastforce
      have b: "b = 16 * ix_subquantizers ix" and prep: "erase_prepared ops ix d ids ds" and f: "files d1 = files d"
        and ben: "benign d \<longrightarrow> benign d1" using P Inr y ok by auto
      have act: "all_active ops ix d ids" using prepared_active [OF ix prep] by blast
      have "commit_erase ops n (16 * ix_subquantizers ix) ds ix d1 = (r, ix', d')" using run' by (simp add: Inr y b)
      note C = commit_erase_result [OF ix ne card prep f this]
      have "index_ok ops ix' d' \<and> ix_active ix' = ix_active ix - n \<and> ix_next_id ix' = ix_next_id ix \<and> ix_options ix' = ix_options ix
          \<and> (\<forall>i. index_lookup ops ix' d' i = (if i \<in> set ids then None else index_lookup ops ix d i)) \<and> k = n" if rk: "r = Inr k" for k
      proof -
        obtain H S N mls where e: "ix' = shrunk ix n mls" "erased ops ix (set ids) H S N mls d d'" "k = n" using C rk by blast
        show ?thesis
          using erased_index_ok [OF ix e(2)] erased_lookup [OF ix e(2)] e(3) unfolding e(1) card by simp
      qed
      then show ?thesis using C ok act ben by blast
    qed
  qed
qed

section \<open>Properties\<close>

text \<open>
  C29. Deletion refines the abstract map. When a batch of ids of a well-formed index returns, the ids
  were distinct and active, the index is well formed again, and its abstract map has lost exactly these
  ids: every other id keeps its payload, its code and its metadata although its row may have moved into
  a hole. A batch of distinct active ids returns when no call fails.
\<close>

theorem erase_batch_correct:
  assumes "index_ok ops ix d" and "n \<le> length req" and "erase_batch ops n (Some req) ix d = (r, ix', d')"
  shows "(\<forall>k. r = Inr k \<longrightarrow> k = n \<and> distinct (take n req) \<and> all_active ops ix d (take n req) \<and> index_ok ops ix' d'
        \<and> ix_active ix' = ix_active ix - n \<and> ix_next_id ix' = ix_next_id ix
        \<and> (\<forall>i. index_lookup ops ix' d' i = (if i \<in> set (take n req) then None else index_lookup ops ix d i)))
    \<and> (distinct (take n req) \<and> all_active ops ix d (take n req) \<and> benign d \<longrightarrow> (\<exists>k. r = Inr k))"
  using erase_batch_result [OF assms] by blast

text \<open>The tiny index after its first batch, on a disk whose later calls do not fail.\<close>

lemma tiny_filled:
  obtains ix d where "index_ok tiny_index_ops ix d" and "benign d" and "ix_next_id ix = 3" and "ix_active ix = 3"
    and "insert_batch tiny_index_ops 3 (Some []) (Some tiny_payloads) 0 tiny_index (new_disk [None]) = (Inr [0, 1, 2], ix, d)"
    and "\<And>i. index_lookup tiny_index_ops ix d i = (if unat i < 3 then Some (new_entry tiny_index_ops tiny_index 3 [] tiny_payloads 0 (unat i))
          else None)"
proof -
  obtain r ix d where run: "insert_batch tiny_index_ops 3 (Some []) (Some tiny_payloads) 0 tiny_index (new_disk [None]) = (r, ix, d)"
    by (metis prod_cases3)
  note c = insert_batch_result [OF tiny_index_ok tiny_batch_ok run]
  have "benign (new_disk [None]) \<and> files (new_disk [None]) (dir_path (ix_directory tiny_index)) \<noteq> None"
    by (simp add: benign_def new_disk_def tiny_directory_path)
  then obtain ids where ids: "r = Inr ids" "benign d" using c by blast
  have "batch_ids tiny_index 3 = [0, 1, 2]" by (simp add: batch_ids_def tiny_index_def upt_rec)
  then have r: "r = Inr [0, 1, 2]" using c ids by simp
  have z: "ix_next_id tiny_index = 0" "ix_active tiny_index = 0" by (simp_all add: tiny_index_def)
  have old: "index_lookup tiny_index_ops tiny_index (new_disk [None]) i = None" for i by (simp add: index_lookup_def Let_def z)
  show thesis using that [of ix d] c ids run unfolding r by (simp add: z old)
qed

theorem erase_batch_correct_witness:
  "\<exists>ix d ix' d'. erase_batch tiny_index_ops 1 (Some [0]) ix d = (Inr 1, ix', d') \<and> ix_active ix = 3 \<and> ix_active ix' = 2
    \<and> index_lookup tiny_index_ops ix' d' 0 = None
    \<and> index_lookup tiny_index_ops ix' d' 2 = Some ([3, 3, 3, 3], [1, 2], \<lparr>md_norm = 1, md_scale = 2, md_error = 3\<rparr>)"
proof -
  obtain ix d where ix: "index_ok tiny_index_ops ix d" "benign d" "ix_active ix = 3"
    "\<And>i. index_lookup tiny_index_ops ix d i = (if unat i < 3 then Some (new_entry tiny_index_ops tiny_index 3 [] tiny_payloads 0 (unat i))
          else None)" by (rule tiny_filled) blast
  obtain r ix' d' where run: "erase_batch tiny_index_ops 1 (Some [0]) ix d = (r, ix', d')" by (metis prod_cases3)
  note c = erase_batch_correct [OF ix(1) _ run]
  have "all_active tiny_index_ops ix d (take 1 [0])" by (simp add: ix(4))
  then obtain k where k: "r = Inr k" using c ix(2) by auto
  have "new_entry tiny_index_ops tiny_index 3 [] tiny_payloads 0 2 = ([3, 3, 3, 3], [1, 2], \<lparr>md_norm = 1, md_scale = 2, md_error = 3\<rparr>)"
    by code_simp
  then show ?thesis using c k run ix(3) by (intro exI [of _ ix] exI [of _ d] exI [of _ ix'] exI [of _ d']) (simp add: ix(4))
qed

text \<open>
  C32. A deletion batch is validated before it writes. If one of its ids repeats, was never handed out
  or is already deleted, the call throws, the index is the same and no file has changed, whatever the
  file operations do.
\<close>

theorem erase_rejects:
  assumes "index_ok ops ix d" and "n \<le> length req" and "\<not> (distinct (take n req) \<and> all_active ops ix d (take n req))"
    and "erase_batch ops n (Some req) ix d = (r, ix', d')"
  shows "(\<exists>e. r = Inl e) \<and> ix' = ix \<and> files d' = files d"
  using erase_batch_result [OF assms(1,2,4)] assms(3) by blast

theorem erase_rejects_witness:
  "\<exists>e d'. erase_batch tiny_index_ops 1 (Some [7]) tiny_index (new_disk [Some ''EIO'']) = (Inl e, tiny_index, d')"
proof -
  obtain r ix' d' where run: "erase_batch tiny_index_ops 1 (Some [7]) tiny_index (new_disk [Some ''EIO'']) = (r, ix', d')" by (metis prod_cases3)
  have "\<not> (distinct (take 1 [7]) \<and> all_active tiny_index_ops tiny_index (new_disk [Some ''EIO'']) (take 1 [7]))"
    by (simp add: index_lookup_def Let_def tiny_index_def)
  from erase_rejects [OF tiny_index_ok _ this run] run show ?thesis by auto
qed

end
