(* ===== verification/Index_Runs.thy ===== *)
theory Index_Runs
  imports Erase_Guarantees
begin

text \<open>
  Histories of the external index: any sequence of insertions and deletions that returned, and
  deletions that were rejected. The invariant holds after each of them, ids are never handed out twice
  and the entry of an id never changes while it lives.
\<close>

section \<open>Calls as steps\<close>

definition erasable :: "index_ops \<Rightarrow> list_index \<Rightarrow> disk \<Rightarrow> u32 list \<Rightarrow> bool" where
  "erasable ops ix d ids \<longleftrightarrow> distinct ids \<and> all_active ops ix d ids"

inductive index_step :: "index_ops \<Rightarrow> list_index \<times> disk \<Rightarrow> list_index \<times> disk \<Rightarrow> bool" for ops where
  inserted: "batch_args_ok ops ix n vectors payloads stride \<Longrightarrow>
    insert_batch ops n (Some vectors) (Some payloads) stride ix d = (Inr ids, ix', d') \<Longrightarrow> index_step ops (ix, d) (ix', d')"
| erased_ids: "n \<le> length req \<Longrightarrow> erase_batch ops n (Some req) ix d = (Inr k, ix', d') \<Longrightarrow> index_step ops (ix, d) (ix', d')"
| rejected: "n \<le> length req \<Longrightarrow> \<not> erasable ops ix d (take n req) \<Longrightarrow>
    erase_batch ops n (Some req) ix d = (r, ix', d') \<Longrightarrow> index_step ops (ix, d) (ix', d')"

inductive_cases index_stepE: "index_step ops (ix, d) (ix', d')"

text \<open>What one step does to the invariant, to the next id and to the entry of an old id.\<close>

definition step_keeps :: "index_ops \<Rightarrow> list_index \<times> disk \<Rightarrow> list_index \<times> disk \<Rightarrow> bool" where
  "step_keeps ops s t \<longleftrightarrow> index_ok ops (fst t) (snd t) \<and> ix_next_id (fst s) \<le> ix_next_id (fst t)
    \<and> (\<forall>i. unat i < ix_next_id (fst s) \<longrightarrow>
        index_lookup ops (fst t) (snd t) i \<in> {None, index_lookup ops (fst s) (snd s) i})"

lemma step_keeps_trans: "step_keeps ops s t \<Longrightarrow> step_keeps ops t u \<Longrightarrow> step_keeps ops s u"
  unfolding step_keeps_def by (metis (no_types, lifting) insertE insertI1 insertI2 less_le_trans order_trans singletonD)

lemma same_content: "files d' = files d \<Longrightarrow> content d' p = content d p"
  by (simp add: content_def)

lemma same_files:
  assumes "files d' = files d"
  shows "index_lookup ops ix d' i = index_lookup ops ix d i" and "index_ok ops ix d' \<longleftrightarrow> index_ok ops ix d"
proof -
  note c = same_content [OF assms]
  show "index_lookup ops ix d' i = index_lookup ops ix d i" by (simp add: index_lookup_def entry_at_def Let_def c)
  show "index_ok ops ix d' \<longleftrightarrow> index_ok ops ix d" by (simp add: index_ok_def files_ok_def rows_located_def ids_located_def c)
qed

lemma index_step_keeps:
  assumes "index_step ops (ix, d) (ix', d')" and ok: "index_ok ops ix d"
  shows "step_keeps ops (ix, d) (ix', d')"
  using assms(1)
proof (rule index_stepE)
  fix n vectors payloads stride ids
  assume "batch_args_ok ops ix n vectors payloads stride"
    and "insert_batch ops n (Some vectors) (Some payloads) stride ix d = (Inr ids, ix', d')"
  note r = insert_batch_result [OF ok this]
  then have "index_lookup ops ix' d' i = index_lookup ops ix d i" if "unat i < ix_next_id ix" for i using that by simp
  then show ?thesis using r by (simp add: step_keeps_def)
next
  fix n req k assume "n \<le> length req" and "erase_batch ops n (Some req) ix d = (Inr k, ix', d')"
  note r = erase_batch_result [OF ok this]
  then show ?thesis by (simp add: step_keeps_def)
next
  fix n req r assume n: "n \<le> length req" and rej: "\<not> erasable ops ix d (take n req)"
    and run: "erase_batch ops n (Some req) ix d = (r, ix', d')"
  have "ix' = ix" "files d' = files d" using erase_batch_result [OF ok n run] rej unfolding erasable_def by blast+
  then show ?thesis using ok by (simp add: step_keeps_def same_files [of d' d])
qed

abbreviation index_run :: "index_ops \<Rightarrow> list_index \<times> disk \<Rightarrow> list_index \<times> disk \<Rightarrow> bool" where
  "index_run ops \<equiv> (index_step ops)\<^sup>*\<^sup>*"

lemma index_run_keeps:
  assumes "index_run ops s t" and "index_ok ops (fst s) (snd s)"
  shows "step_keeps ops s t"
  using assms
proof (induction rule: rtranclp_induct)
  case base
  then show ?case by (simp add: step_keeps_def)
next
  case (step t u)
  then have st: "step_keeps ops s t" by blast
  then have "index_ok ops (fst t) (snd t)" by (simp add: step_keeps_def)
  then have "step_keeps ops t u" using step.hyps(2) index_step_keeps [of ops "fst t" "snd t" "fst u" "snd u"] by simp
  with st show ?case by (rule step_keeps_trans)
qed

section \<open>The active count\<close>

text \<open>The ids with an entry are in bijection with the rows of the lists.\<close>

lemma active_ids:
  assumes ix: "index_ok ops ix d"
  shows "card {i. index_lookup ops ix d i \<noteq> None} = ix_active ix"
proof -
  let ?rows = "SIGMA l:{..<length (ix_lists ix)}. {..<list_rows ix l}" and ?f = "\<lambda>(l, i). id_at ix d l i"
  have look: "index_lookup ops ix d i \<noteq> None \<longleftrightarrow> unat i < ix_next_id ix \<and> location_active (loc_of ix d i)" for i
    by (simp add: index_lookup_def Let_def del: not_None_eq)
  have "inj_on ?f ?rows" using located_unique [OF ix] by (auto intro!: inj_onI)
  moreover have "?f ` ?rows = {i. index_lookup ops ix d i \<noteq> None}"
  proof (intro equalityI subsetI)
    fix i assume "i \<in> ?f ` ?rows"
    then show "i \<in> {i. index_lookup ops ix d i \<noteq> None}" unfolding look using located_row(1,4) [OF ix] by auto
  next
    fix i assume "i \<in> {i. index_lookup ops ix d i \<noteq> None}"
    then have "unat i < ix_next_id ix" "location_active (loc_of ix d i)" unfolding look by simp_all
    from active_row [OF ix this] show "i \<in> ?f ` ?rows"
      by (intro image_eqI [of _ _ "(unat (dl_list (loc_of ix d i)), unat (dl_offset (loc_of ix d i)))"]) auto
  qed
  ultimately have "card {i. index_lookup ops ix d i \<noteq> None} = card ?rows" by (metis card_image)
  also have "\<dots> = (\<Sum>l<length (ix_lists ix). list_rows ix l)" by simp
  also have "\<dots> = ix_active ix" using ix by (simp add: index_ok_def lists_ok_def)
  finally show ?thesis .
qed

section \<open>Properties\<close>


text \<open>An insertion followed by the deletion of two of its ids.\<close>

lemma tiny_history:
  obtains ix d where "index_run tiny_index_ops (tiny_index, new_disk [None]) (ix, d)" and "ix_active ix = 1" and "ix_next_id ix = 3"
    and "\<And>i. index_lookup tiny_index_ops ix d i = (if unat i = 1 then Some (new_entry tiny_index_ops tiny_index 3 [] tiny_payloads 0 1) else None)"
proof -
  obtain ix d where ix: "index_ok tiny_index_ops ix d" "benign d" "ix_next_id ix = 3" "ix_active ix = 3"
    "insert_batch tiny_index_ops 3 (Some []) (Some tiny_payloads) 0 tiny_index (new_disk [None]) = (Inr [0, 1, 2], ix, d)"
    "\<And>i. index_lookup tiny_index_ops ix d i = (if unat i < 3 then Some (new_entry tiny_index_ops tiny_index 3 [] tiny_payloads 0 (unat i))
          else None)" by (rule tiny_filled) blast
  obtain r ix' d' where run: "erase_batch tiny_index_ops 2 (Some [2, 0]) ix d = (r, ix', d')" by (metis prod_cases3)
  have "2 \<le> length [2, 0 :: u32]" by simp
  note c = erase_batch_result [OF ix(1) this run]
  have "distinct (take 2 [2, 0 :: u32]) \<and> all_active tiny_index_ops ix d (take 2 [2, 0])"
    by (simp add: ix(6) del: not_None_eq)
  then obtain k where k: "r = Inr k" using c ix(2) by blast
  have "index_step tiny_index_ops (tiny_index, new_disk [None]) (ix, d)" using ix(5) tiny_batch_ok by (rule index_step.inserted [rotated])
  moreover have "index_step tiny_index_ops (ix, d) (ix', d')" using run unfolding k by (intro index_step.erased_ids) auto
  ultimately have "index_run tiny_index_ops (tiny_index, new_disk [None]) (ix', d')" by (meson converse_rtranclp_into_rtranclp r_into_rtranclp)
  moreover have "index_lookup tiny_index_ops ix' d' i
      = (if unat i = 1 then Some (new_entry tiny_index_ops tiny_index 3 [] tiny_payloads 0 1) else None)" for i
  proof -
    have "i = 0 \<longleftrightarrow> unat i = 0" "i = 2 \<longleftrightarrow> unat i = 2" by (simp_all add: word_unat_eq_iff)
    then show ?thesis using c k by (auto simp: ix(6))
  qed
  moreover have "ix_active ix' = 1" "ix_next_id ix' = 3" using c k ix(3,4) by auto
  ultimately show thesis using that by blast
qed




end
