(* ===== verification/Refine_Plan.thy ===== *)
theory Refine_Plan
  imports Record_Deletion Recast_Types Bounded_Heap "HOL-Library.Product_Lexorder"
begin

text \<open>
  Read planning of src/adapters/list\_file\_aio\_refiner.cpp: the candidates of a query are sorted by
  list and page, and the pages of one list that follow each other are merged into one read. The theorem
  says that the reads are disjoint, need each of their pages and cover every candidate record once.
\<close>

section \<open>Candidates and reads\<close>

record list_candidate =
  lc_list :: u32
  lc_offset :: u32
  lc_estimate :: f32
  lc_uncertainty :: f32

record refine_location =
  rl_list :: u32
  rl_page :: nat
  rl_index :: nat
  rl_record :: nat

text \<open>\<open>rp_items\<close> pairs a candidate index with the position of its record in the request buffer.\<close>

record read_plan =
  rp_list :: u32
  rp_offset :: nat
  rp_bytes :: nat
  rp_pages :: nat
  rp_items :: "(nat \<times> nat) list"

definition refine_location_of :: "record_store \<Rightarrow> list_candidate list \<Rightarrow> nat \<Rightarrow> refine_location" where
  "refine_location_of st cands i =
    \<lparr>rl_list = lc_list (cands ! i), rl_page = unat (lc_offset (cands ! i)) div st_per_page st, rl_index = i,
     rl_record = unat (lc_offset (cands ! i)) mod st_per_page st * st_stride st\<rparr>"

definition sorted_locations :: "record_store \<Rightarrow> list_candidate list \<Rightarrow> refine_location list" where
  "sorted_locations st cands =
    sort_key (\<lambda>l. (unat (rl_list l), rl_page l, rl_index l)) (map (refine_location_of st cands) [0..<length cands])"

text \<open>The values that \<open>previous_list\<close> and \<open>previous_page\<close> start with.\<close>

definition no_page :: nat where
  "no_page = 2 ^ 64 - 1"

text \<open>A page that is not the previous one: it extends the last read when it is the next page of the list.\<close>

definition open_page :: "record_store \<Rightarrow> refine_location \<Rightarrow> read_plan list \<times> u32 \<times> nat \<Rightarrow> (read_plan list \<times> u32 \<times> nat) res" where
  "open_page st l s =
    (case s of (plans, prev_list, prev_page) \<Rightarrow>
      let same_list = (rl_list l = prev_list);
          adjacent = (same_list \<and> prev_page \<noteq> no_page \<and> rl_page l = prev_page + 1)
      in res_bind
        (if adjacent then Inr plans
         else res_bind (checked_multiply (rl_page l) (page_size st) ''list-file read offset overflows'') (\<lambda>off.
           if off > off_max then Inl (Overflow_error ''list-file read offset exceeds off_t'')
           else Inr (plans @ [\<lparr>rp_list = rl_list l, rp_offset = off, rp_bytes = 0, rp_pages = 0, rp_items = []\<rparr>])))
        (\<lambda>plans'. let p = last plans'
           in res_bind (checked_multiply (rp_pages p + 1) (page_size st) ''merged list-file request size overflows'') (\<lambda>n.
             Inr (butlast plans' @ [p\<lparr>rp_pages := rp_pages p + 1, rp_bytes := n\<rparr>], rl_list l, rl_page l))))"

definition plan_location :: "record_store \<Rightarrow> refine_location \<Rightarrow> read_plan list \<times> u32 \<times> nat \<Rightarrow> (read_plan list \<times> u32 \<times> nat) res" where
  "plan_location st l s =
    res_bind (if rl_list l = fst (snd s) \<and> rl_page l = snd (snd s) then Inr s else open_page st l s) (\<lambda>(plans, prev).
      let p = last plans;
          page_in_request = rl_page l - rp_offset p div page_size st
      in Inr (butlast plans @ [p\<lparr>rp_items := rp_items p @ [(rl_index l, page_in_request * page_size st + rl_record l)]\<rparr>], prev))"

definition build_read_plans :: "record_store \<Rightarrow> list_candidate list \<Rightarrow> read_plan list res" where
  "build_read_plans st cands =
    res_bind (res_fold (plan_location st) (sorted_locations st cands) ([], - 1, no_page)) (\<lambda>s. Inr (fst s))"

fun distinct_lists :: "read_plan list \<Rightarrow> u32 list \<Rightarrow> u32 list" where
  "distinct_lists [] ls = ls"
| "distinct_lists (p # ps) ls =
    distinct_lists ps (if ls = [] \<or> last ls \<noteq> rp_list p then ls @ [rp_list p] else ls)"

section \<open>The invariant of the planning loop\<close>

text \<open>What a plan reads, as candidate index, list and file position.\<close>

definition plan_reads :: "read_plan \<Rightarrow> (nat \<times> u32 \<times> nat) list" where
  "plan_reads p = map (\<lambda>r. (fst r, rp_list p, rp_offset p + snd r)) (rp_items p)"

definition read_plan_ok :: "record_store \<Rightarrow> read_plan \<Rightarrow> bool" where
  "read_plan_ok st p \<longleftrightarrow> page_size st dvd rp_offset p \<and> 0 < rp_pages p \<and> rp_bytes p = rp_pages p * page_size st
    \<and> (\<forall>r \<in> set (rp_items p). snd r + st_stride st \<le> rp_bytes p)
    \<and> (\<lambda>r. snd r div page_size st) ` set (rp_items p) = {..<rp_pages p}"

definition plan_before :: "read_plan \<Rightarrow> read_plan \<Rightarrow> bool" where
  "plan_before p q \<longleftrightarrow> rp_list p < rp_list q \<or> rp_list p = rp_list q \<and> rp_offset p + rp_bytes p < rp_offset q"

definition location_ok :: "record_store \<Rightarrow> refine_location \<Rightarrow> bool" where
  "location_ok st l \<longleftrightarrow> rl_list l \<noteq> - 1 \<and> rl_page l \<le> u32_max \<and> rl_record l + st_stride st \<le> page_size st"

text \<open>A location comes after the earlier ones.\<close>

definition location_after :: "refine_location \<Rightarrow> refine_location \<Rightarrow> bool" where
  "location_after k l \<longleftrightarrow> rl_list k < rl_list l \<or> rl_list k = rl_list l \<and> rl_page k \<le> rl_page l"

definition planning :: "record_store \<Rightarrow> refine_location list \<Rightarrow> read_plan list \<times> u32 \<times> nat \<Rightarrow> bool" where
  "planning st ls s \<longleftrightarrow> (case s of (plans, prev_list, prev_page) \<Rightarrow>
    concat (map plan_reads plans) = map (\<lambda>l. (rl_index l, rl_list l, rl_page l * page_size st + rl_record l)) ls
    \<and> (\<forall>p \<in> set plans. read_plan_ok st p) \<and> sorted_wrt plan_before plans
    \<and> (if ls = [] then plans = [] \<and> prev_list = - 1 \<and> prev_page = no_page
       else plans \<noteq> [] \<and> prev_list = rl_list (last ls) \<and> prev_page = rl_page (last ls) \<and> prev_page \<le> u32_max
         \<and> rp_list (last plans) = prev_list
         \<and> rp_offset (last plans) + rp_bytes (last plans) = (prev_page + 1) * page_size st))"

lemma plan_reads_add:
  "plan_reads (p\<lparr>rp_items := rp_items p @ [(i, off)]\<rparr>) = plan_reads p @ [(i, rp_list p, rp_offset p + off)]"
  by (simp add: plan_reads_def)

text \<open>Adding an item of a page to the last plan.\<close>

lemma item_position:
  assumes psz: "0 < (psz :: nat)" and dvd: "psz dvd off" and pages: "off + n * psz = (page + 1) * psz" and "0 < n"
  shows "off + ((page - off div psz) * psz + r) = page * psz + r" and "page - off div psz = n - 1" and "off div psz \<le> page"
proof -
  obtain a where a: "off = psz * a" using dvd by (rule dvdE)
  have "(a + n) * psz = (page + 1) * psz" using pages by (simp add: a algebra_simps)
  then have e: "a + n = page + 1" using psz by (simp only: mult_cancel2) simp
  have d: "off div psz = a" using psz by (simp add: a)
  show "off div psz \<le> page" using e assms(4) d by simp
  show "page - off div psz = n - 1" using e assms(4) d by simp
  have "off + (page - a) * psz = page * psz" using e assms(4) by (simp add: a algebra_simps flip: add_mult_distrib2)
  then show "off + ((page - off div psz) * psz + r) = page * psz + r" by (simp add: d)
qed

lemma planning_put:
  assumes "concat (map plan_reads qs) @ plan_reads p
      = map (\<lambda>l. (rl_index l, rl_list l, rl_page l * page_size st + rl_record l)) (ls @ [l])"
    and "read_plan_ok st p" and "\<forall>q \<in> set qs. read_plan_ok st q" and "sorted_wrt plan_before qs"
    and "\<forall>q \<in> set qs. plan_before q p" and "rp_list p = rl_list l" and "rl_page l \<le> u32_max"
    and "rp_offset p + rp_bytes p = (rl_page l + 1) * page_size st"
  shows "planning st (ls @ [l]) (qs @ [p], rl_list l, rl_page l)"
  using assms by (auto simp: planning_def sorted_wrt_append)

lemma plan_before_trans: "plan_before p q \<Longrightarrow> plan_before q r \<Longrightarrow> plan_before p r"
  by (auto simp: plan_before_def)

text \<open>The item that a location adds to the read that holds its page.\<close>

lemma put_item:
  assumes psz: "0 < page_size st" and l: "location_ok st l" and dvd: "page_size st dvd rp_offset p" and n: "0 < rp_pages p"
    and b: "rp_bytes p = rp_pages p * page_size st" and pages: "rp_offset p + rp_bytes p = (rl_page l + 1) * page_size st"
    and old: "\<forall>r \<in> set (rp_items p). snd r + st_stride st \<le> rp_bytes p"
    and img: "insert (rp_pages p - 1) ((\<lambda>r. snd r div page_size st) ` set (rp_items p)) = {..<rp_pages p}"
    and str: "0 < st_stride st" and list: "rp_list p = rl_list l"
  defines "item \<equiv> (rl_index l, (rl_page l - rp_offset p div page_size st) * page_size st + rl_record l)"
  shows "read_plan_ok st (p\<lparr>rp_items := rp_items p @ [item]\<rparr>)"
    and "plan_reads (p\<lparr>rp_items := rp_items p @ [item]\<rparr>)
      = plan_reads p @ [(rl_index l, rl_list l, rl_page l * page_size st + rl_record l)]"
proof -
  note pos = item_position [OF psz dvd pages [unfolded b] n]
  have rec: "rl_record l + st_stride st \<le> page_size st" using l by (simp add: location_ok_def)
  then have lt: "rl_record l < page_size st" using str by simp
  have item: "item = (rl_index l, (rp_pages p - 1) * page_size st + rl_record l)" by (simp add: item_def pos(2))
  have "(rp_pages p - 1) * page_size st + page_size st = rp_pages p * page_size st"
    using n by (metis Suc_diff_1 add.commute mult_Suc)
  then have "snd item + st_stride st \<le> rp_bytes p" using rec by (simp add: item b)
  moreover have "snd item div page_size st = rp_pages p - 1" using lt psz by (simp add: item)
  ultimately show "read_plan_ok st (p\<lparr>rp_items := rp_items p @ [item]\<rparr>)"
    using dvd n b old img by (simp add: read_plan_ok_def)
  show "plan_reads (p\<lparr>rp_items := rp_items p @ [item]\<rparr>)
      = plan_reads p @ [(rl_index l, rl_list l, rl_page l * page_size st + rl_record l)]"
    unfolding item_def plan_reads_add using pos(1) [of "rl_record l"] by (simp add: list)
qed

lemma page_fits: "page \<le> u32_max \<Longrightarrow> psz \<le> 2 ^ 31 \<Longrightarrow> page * psz \<le> off_max"
proof -
  assume "page \<le> u32_max" and "psz \<le> 2 ^ 31"
  then have "page * psz \<le> u32_max * 2 ^ 31" by (rule mult_le_mono)
  also have "\<dots> \<le> off_max" by (simp add: u32_max_def off_max_def)
  finally show ?thesis .
qed

lemma plan_location_ok:
  assumes st: "store_ok st" and inv: "planning st ls s" and l: "location_ok st l"
    and after: "ls \<noteq> [] \<Longrightarrow> location_after (last ls) l"
  shows "\<exists>s'. plan_location st l s = Inr s' \<and> planning st (ls @ [l]) s'"
proof -
  note geo = store_geometry(3,5,6) [OF st]
  obtain plans pl pp where s: "s = (plans, pl, pp)" by (metis prod_cases3)
  let ?reads = "\<lambda>ls. map (\<lambda>l. (rl_index l, rl_list l, rl_page l * page_size st + rl_record l)) ls"
  have reads: "concat (map plan_reads plans) = ?reads ls" and all_ok: "\<forall>p \<in> set plans. read_plan_ok st p"
    and srt: "sorted_wrt plan_before plans" using inv by (simp_all add: planning_def s)
  have neg: "rl_list l \<noteq> - 1" and page: "rl_page l \<le> u32_max" using l by (simp_all add: location_ok_def)
  have last: "plans \<noteq> []" "pl = rl_list (last ls)" "pp = rl_page (last ls)" "pp \<le> u32_max" "rp_list (last plans) = pl"
      "rp_offset (last plans) + rp_bytes (last plans) = (pp + 1) * page_size st" if "ls \<noteq> []"
    using inv that by (simp_all add: planning_def s)
  have empty: "pl = - 1" "plans = []" if "ls = []" using inv that by (simp_all add: planning_def s)
  show ?thesis
  proof (cases "rl_list l = pl \<and> rl_page l = pp")
    case same: True
    then have ne: "ls \<noteq> []" using neg empty by auto
    obtain qs p where qs: "plans = qs @ [p]" using last(1) [OF ne] by (metis append_butlast_last_id)
    have ok: "read_plan_ok st p" using all_ok qs by simp
    have e: "rp_offset p + rp_bytes p = (rl_page l + 1) * page_size st" "rp_list p = rl_list l" using last(5,6) [OF ne] qs same by simp_all
    have img: "insert (rp_pages p - 1) ((\<lambda>r. snd r div page_size st) ` set (rp_items p)) = {..<rp_pages p}"
      using ok by (auto simp: read_plan_ok_def)
    have okp: "page_size st dvd rp_offset p" "0 < rp_pages p" "rp_bytes p = rp_pages p * page_size st"
      "\<forall>r \<in> set (rp_items p). snd r + st_stride st \<le> rp_bytes p" using ok unfolding read_plan_ok_def by blast+
    note put = put_item [OF geo(1) l okp(1,2,3) e(1) okp(4) img geo(3) e(2)]
    have "planning st (ls @ [l]) (qs @ [p\<lparr>rp_items := rp_items p @ [(rl_index l, (rl_page l - rp_offset p div page_size st) * page_size st + rl_record l)]\<rparr>], rl_list l, rl_page l)"
      by (rule planning_put [OF _ put(1)]) (use reads all_ok srt qs e page put(2) in \<open>simp_all add: sorted_wrt_append plan_before_def\<close>)
    moreover have "plan_location st l s = Inr (qs @ [p\<lparr>rp_items := rp_items p @ [(rl_index l, (rl_page l - rp_offset p div page_size st) * page_size st + rl_record l)]\<rparr>], rl_list l, rl_page l)"
      using same by (simp add: plan_location_def s qs Let_def)
    ultimately show ?thesis by blast
  next
    case fresh: False
    let ?adj = "rl_list l = pl \<and> pp \<noteq> no_page \<and> rl_page l = pp + 1"
    obtain qs p where qp: "qs @ [p] = (if ?adj then plans else plans @ [\<lparr>rp_list = rl_list l, rp_offset = rl_page l * page_size st, rp_bytes = 0, rp_pages = 0, rp_items = []\<rparr>])"
        and p: "rp_list p = rl_list l" "page_size st dvd rp_offset p" "rp_bytes p = rp_pages p * page_size st"
          "rp_offset p + rp_bytes p = rl_page l * page_size st"
          "\<forall>r \<in> set (rp_items p). snd r + st_stride st \<le> rp_bytes p"
          "(\<lambda>r. snd r div page_size st) ` set (rp_items p) = {..<rp_pages p}"
        and q: "concat (map plan_reads qs) @ plan_reads p = ?reads ls" "\<forall>q \<in> set qs. read_plan_ok st q" "sorted_wrt plan_before qs"
          "\<forall>q \<in> set qs. plan_before q p"
    proof (cases ?adj)
      case True
      then have ne: "ls \<noteq> []" using neg empty by auto
      obtain qs p where qs: "plans = qs @ [p]" using last(1) [OF ne] by (metis append_butlast_last_id)
      have "read_plan_ok st p" using all_ok qs by simp
      then have okp: "page_size st dvd rp_offset p" "rp_bytes p = rp_pages p * page_size st"
        "\<forall>r \<in> set (rp_items p). snd r + st_stride st \<le> rp_bytes p"
        "(\<lambda>r. snd r div page_size st) ` set (rp_items p) = {..<rp_pages p}" unfolding read_plan_ok_def by blast+
      show thesis
      proof (rule that [of qs p])
        show "rp_offset p + rp_bytes p = rl_page l * page_size st" using last(6) [OF ne] True qs by simp
      qed (use True qs last(5) [OF ne] okp reads all_ok srt in \<open>auto simp: sorted_wrt_append\<close>)
    next
      case False
      let ?p = "\<lparr>rp_list = rl_list l, rp_offset = rl_page l * page_size st, rp_bytes = 0, rp_pages = 0, rp_items = []\<rparr>"
      have "plan_before q ?p" if q: "q \<in> set plans" for q
      proof -
        have ne: "ls \<noteq> []" using q empty by auto
        have lst: "plan_before (last plans) ?p"
        proof (cases "rl_list l = pl")
          case True
          have "pp \<noteq> no_page" using last(4) [OF ne] by (auto simp: no_page_def u32_max_def)
          then have "pp + 1 < rl_page l" using True False fresh after [OF ne] last(2,3) [OF ne] by (auto simp: location_after_def)
          then have "(pp + 1) * page_size st < rl_page l * page_size st" using geo(1) by (simp only: mult_less_cancel2)
          then show ?thesis using last(5,6) [OF ne] True by (simp add: plan_before_def)
        next
          case False
          then show ?thesis using after [OF ne] last(2,5) [OF ne] by (auto simp: location_after_def plan_before_def)
        qed
        show ?thesis
        proof (cases "q = last plans")
          case False
          obtain qs p where qs: "plans = qs @ [p]" using last(1) [OF ne] by (metis append_butlast_last_id)
          then have "q \<in> set qs" "last plans = p" using q False by auto
          then have "plan_before q (last plans)" using srt qs by (simp add: sorted_wrt_append)
          then show ?thesis using lst by (rule plan_before_trans)
        qed (use lst in simp)
      qed
      then show thesis using that [of plans ?p] False reads all_ok srt by (simp add: plan_reads_def)
    qed
    let ?p1 = "p\<lparr>rp_pages := rp_pages p + 1, rp_bytes := (rp_pages p + 1) * page_size st\<rparr>"
    let ?p2 = "?p1\<lparr>rp_items := rp_items ?p1 @ [(rl_index l, (rl_page l - rp_offset ?p1 div page_size st) * page_size st + rl_record l)]\<rparr>"
    have e: "rp_offset ?p1 + rp_bytes ?p1 = (rl_page l + 1) * page_size st" using p(3,4) by simp
    have img: "insert (rp_pages ?p1 - 1) ((\<lambda>r. snd r div page_size st) ` set (rp_items ?p1)) = {..<rp_pages ?p1}"
      using p(6) by (simp add: lessThan_Suc)
    have okp: "page_size st dvd rp_offset ?p1" "0 < rp_pages ?p1" "rp_bytes ?p1 = rp_pages ?p1 * page_size st" "rp_list ?p1 = rl_list l"
      using p(1,2) by simp_all
    have items: "\<forall>r \<in> set (rp_items ?p1). snd r + st_stride st \<le> rp_bytes ?p1" using p(3,5) by (simp add: trans_le_add2)
    note put = put_item [OF geo(1) l okp(1,2,3) e items img geo(3) okp(4)]
    have "plan_reads ?p1 = plan_reads p" by (simp add: plan_reads_def)
    then have "planning st (ls @ [l]) (qs @ [?p2], rl_list l, rl_page l)"
      by (intro planning_put [OF _ put(1)]) (use q p(1) page e put(2) in \<open>simp_all add: plan_before_def flip: append_assoc\<close>)
    moreover have "plan_location st l s = Inr (qs @ [?p2], rl_list l, rl_page l)"
    proof -
      have off: "rl_page l * page_size st \<le> off_max" using page geo(2) by (rule page_fits)
      have "rl_page l * page_size st \<le> size_max" by (rule order_trans [OF off]) (simp add: off_max_def size_max_def)
      then have m1: "checked_multiply (rl_page l) (page_size st) msg = Inr (rl_page l * page_size st)" for msg by (rule checked_multiply_ok)
      have "(rp_pages p + 1) * page_size st \<le> off_max + page_size st" using p(3,4) off by simp
      also have "\<dots> \<le> size_max" using geo(2) by (simp add: off_max_def size_max_def)
      finally have m2: "checked_multiply (rp_pages p + 1) (page_size st) msg = Inr ((rp_pages p + 1) * page_size st)" for msg
        by (rule checked_multiply_ok)
      have "open_page st l s = Inr (qs @ [?p1], rl_list l, rl_page l)"
      proof (cases ?adj)
        case True
        have pl: "plans = qs @ [p]" using qp unfolding if_P [OF True] by simp
        show ?thesis using True m2 by (simp add: open_page_def s Let_def pl)
      next
        case False
        have pl: "plans = qs" "p = \<lparr>rp_list = rl_list l, rp_offset = rl_page l * page_size st, rp_bytes = 0, rp_pages = 0, rp_items = []\<rparr>"
          using qp unfolding if_not_P [OF False] by simp_all
        show ?thesis using False m1 m2 off by (auto simp: open_page_def s Let_def pl)
      qed
      then show ?thesis using fresh by (auto simp: plan_location_def s Let_def)
    qed
    ultimately show ?thesis by blast
  qed
qed

section \<open>All reads\<close>

lemma sorted_locations_facts:
  "set (sorted_locations st cands) = refine_location_of st cands ` {..<length cands}"
  "mset (sorted_locations st cands) = mset (map (refine_location_of st cands) [0..<length cands])"
  "sorted_wrt location_after (sorted_locations st cands)"
proof -
  show "mset (sorted_locations st cands) = mset (map (refine_location_of st cands) [0..<length cands])"
    by (simp add: sorted_locations_def)
  then show "set (sorted_locations st cands) = refine_location_of st cands ` {..<length cands}"
    by (simp add: sorted_locations_def atLeast0LessThan)
  have "sorted (map (\<lambda>l. (unat (rl_list l), rl_page l, rl_index l)) (sorted_locations st cands))"
    by (simp add: sorted_locations_def)
  then show "sorted_wrt location_after (sorted_locations st cands)"
    unfolding sorted_wrt_map
    by (rule sorted_wrt_mono_rel [rotated]) (auto simp: location_after_def word_less_nat_alt word_unat_eq_iff)
qed

lemma planning_all:
  assumes st: "store_ok st" and ok: "\<forall>l \<in> set ls. location_ok st l" and srt: "sorted_wrt location_after ls"
  shows "\<exists>s. res_fold (plan_location st) ls ([], - 1, no_page) = Inr s \<and> planning st ls s"
  using ok srt
proof (induction ls rule: rev_induct)
  case Nil
  then show ?case by (simp add: planning_def)
next
  case (snoc l ls)
  then obtain s where s: "res_fold (plan_location st) ls ([], - 1, no_page) = Inr s" "planning st ls s" by (auto simp: sorted_wrt_append)
  have "location_ok st l" using snoc.prems(1) by simp
  moreover have "location_after (last ls) l" if "ls \<noteq> []" using snoc.prems(2) that by (simp add: sorted_wrt_append)
  ultimately show ?case using plan_location_ok [OF st s(2)] s(1) by (auto simp: res_fold_append)
qed

text \<open>The reads of a query: every candidate record once, no page twice, no page for nothing.\<close>

definition plans_ok :: "record_store \<Rightarrow> list_candidate list \<Rightarrow> read_plan list \<Rightarrow> bool" where
  "plans_ok st cands plans \<longleftrightarrow> mset (concat (map plan_reads plans))
        = mset (map (\<lambda>i. (i, lc_list (cands ! i), row_pos st (unat (lc_offset (cands ! i))))) [0..<length cands])
    \<and> (\<forall>p \<in> set plans. read_plan_ok st p) \<and> sorted_wrt plan_before plans"

definition candidates_ok :: "record_store \<Rightarrow> list_candidate list \<Rightarrow> bool" where
  "candidates_ok st cands \<longleftrightarrow> (\<forall>c \<in> set cands. unat (lc_list c) < st_nlist st)"

lemma build_read_plans_ok:
  assumes st: "store_ok st" and nl: "st_nlist st \<le> u32_max" and c: "candidates_ok st cands"
  shows "\<exists>plans. build_read_plans st cands = Inr plans \<and> plans_ok st cands plans"
proof -
  note geo = store_geometry [OF st]
  let ?ls = "sorted_locations st cands"
  have "location_ok st l" if "l \<in> set ?ls" for l
  proof -
    obtain i where i: "i < length cands" "l = refine_location_of st cands i" using \<open>l \<in> set ?ls\<close> by (auto simp: sorted_locations_facts(1))
    have "unat (lc_list (cands ! i)) < u32_max" using c i(1) nl by (auto simp: candidates_ok_def intro: less_le_trans)
    moreover have "unat (- 1 :: u32) = u32_max" by (simp add: u32_max_def unat_word_ariths unat_eq_nat_uint uint_word_ariths)
    ultimately have "lc_list (cands ! i) \<noteq> - 1" by auto
    moreover have "unat (lc_offset (cands ! i)) div st_per_page st \<le> u32_max" by (rule order_trans [OF div_le_dividend u32_less_max])
    moreover have "unat (lc_offset (cands ! i)) mod st_per_page st * st_stride st + st_stride st \<le> page_size st"
    proof -
      have "unat (lc_offset (cands ! i)) mod st_per_page st + 1 \<le> st_per_page st" using geo(2) by (simp add: Suc_le_eq)
      then have "(unat (lc_offset (cands ! i)) mod st_per_page st + 1) * st_stride st \<le> st_per_page st * st_stride st" by (rule mult_le_mono1)
      then show ?thesis using geo(4) by simp
    qed
    ultimately show ?thesis unfolding i(2) by (simp add: location_ok_def refine_location_of_def)
  qed
  then obtain s where s: "res_fold (plan_location st) ?ls ([], - 1, no_page) = Inr s" "planning st ?ls s"
    using planning_all [OF st _ sorted_locations_facts(3)] by blast
  obtain plans pl pp where sp: "s = (plans, pl, pp)" by (metis prod_cases3)
  have "mset (concat (map plan_reads plans))
      = mset (map (\<lambda>l. (rl_index l, rl_list l, rl_page l * page_size st + rl_record l)) ?ls)"
    using s(2) unfolding planning_def sp prod.case by (metis (no_types, lifting))
  also have "\<dots> = mset (map (\<lambda>l. (rl_index l, rl_list l, rl_page l * page_size st + rl_record l)) (map (refine_location_of st cands) [0..<length cands]))"
    by (simp only: mset_map sorted_locations_facts(2))
  also have "\<dots> = mset (map (\<lambda>i. (i, lc_list (cands ! i), row_pos st (unat (lc_offset (cands ! i))))) [0..<length cands])"
    by (simp add: refine_location_of_def row_pos_def comp_def)
  finally have "plans_ok st cands plans" using s(2) by (simp add: plans_ok_def planning_def sp)
  then show ?thesis using s(1) by (simp add: build_read_plans_def sp)
qed

section \<open>The lists of the reads\<close>

lemma distinct_lists_sorted:
  assumes "sorted_wrt (\<lambda>p q. rp_list p \<le> rp_list q) plans" and "sorted_wrt (<) ls" and "\<forall>p \<in> set plans. ls \<noteq> [] \<longrightarrow> last ls \<le> rp_list p"
  shows "sorted_wrt (<) (distinct_lists plans ls) \<and> set (distinct_lists plans ls) = set ls \<union> rp_list ` set plans"
  using assms
proof (induction plans arbitrary: ls)
  case (Cons p plans)
  have le: "\<forall>q \<in> set plans. rp_list p \<le> rp_list q" using Cons.prems(1) by simp
  show ?case
  proof (cases "ls = [] \<or> last ls \<noteq> rp_list p")
    case True
    have lt: "x < rp_list p" if "x \<in> set ls" for x
    proof -
      have ne: "ls \<noteq> []" using that by auto
      then have "last ls < rp_list p" using Cons.prems(3) True by auto
      moreover have "x \<le> last ls"
      proof (cases "x = last ls")
        case False
        obtain ys y where y: "ls = ys @ [y]" using ne by (metis append_butlast_last_id)
        then show ?thesis using that False Cons.prems(2) by (auto simp: sorted_wrt_append)
      qed simp
      ultimately show ?thesis by (rule le_less_trans [rotated])
    qed
    then have "sorted_wrt (<) (ls @ [rp_list p])" using Cons.prems(2) by (simp add: sorted_wrt_append)
    then show ?thesis using Cons.IH [of "ls @ [rp_list p]"] Cons.prems(1) le True by auto
  next
    case False
    then have "rp_list p \<in> set ls" by (metis last_in_set)
    then show ?thesis using Cons.IH [of ls] Cons.prems False by auto
  qed
qed simp

lemma plans_lists:
  assumes "sorted_wrt plan_before plans"
  shows "sorted_wrt (<) (distinct_lists plans [])" and "set (distinct_lists plans []) = rp_list ` set plans"
    and "sorted_wrt (\<lambda>p q. rp_list p \<le> rp_list q) plans"
proof -
  show s: "sorted_wrt (\<lambda>p q. rp_list p \<le> rp_list q) plans"
    by (rule sorted_wrt_mono_rel [OF _ assms]) (auto simp: plan_before_def)
  show "sorted_wrt (<) (distinct_lists plans [])" "set (distinct_lists plans []) = rp_list ` set plans"
    using distinct_lists_sorted [OF s, of "[]"] by simp_all
qed

end
