(* ===== verification/Refine.thy ===== *)
theory Refine
  imports Refine_Plan
begin

text \<open>
  Exact re-ranking of src/adapters/list\_file\_aio\_refiner.cpp: the heap of the best neighbours, the
  list files of a batch, the blocking reader and the reader that keeps several asynchronous reads in
  flight. Counters of the statistics are 64-bit words; the clock readings are left out.
\<close>

section \<open>The exact heap\<close>

text \<open>\<open>ExactPairWorseFirst\<close> orders by distance and then by id; the queue is kept by the key.\<close>

definition neighbor_key :: "neighbor \<Rightarrow> int \<times> nat" where
  "neighbor_key n = (f32_smag (nb_distance n), unat (nb_id n))"

definition exact_worse_first :: "neighbor \<Rightarrow> neighbor \<Rightarrow> bool" where
  "exact_worse_first a b =
    (if \<not> f32_eq (nb_distance a) (nb_distance b) then f32_lt (nb_distance a) (nb_distance b) else nb_id a < nb_id b)"

type_synonym exact_heap = "neighbor list"

definition insert_exact :: "nat \<Rightarrow> u32 \<Rightarrow> f32 \<Rightarrow> exact_heap \<Rightarrow> exact_heap res" where
  "insert_exact topk i distance heap =
    (if \<not> f32_is_finite distance \<or> f32_lt distance 0
     then Inl (Runtime_error ''exact distance function returned an invalid value'')
     else let h = pq_push neighbor_key \<lparr>nb_id = i, nb_distance = distance\<rparr> heap
       in Inr (if length h > topk then pq_pop h else h))"

lemma length_pq_pop [termination_simp]: "length (pq_pop h) = length h - 1"
  by (simp add: pq_pop_def)

fun drain_heap :: "exact_heap \<Rightarrow> neighbor list" where
  "drain_heap [] = []"
| "drain_heap (x # xs) = pq_top (x # xs) # drain_heap (pq_pop (x # xs))"

definition finish_topk :: "exact_heap \<Rightarrow> neighbor list" where
  "finish_topk heap = rev (drain_heap heap)"

section \<open>Statistics and requests\<close>

record refine_stats =
  rs_vectors :: u64
  rs_pages :: u64
  rs_requests :: u64
  rs_bytes :: u64
  rs_files :: u64
  rs_peak :: nat

definition account_request :: "read_plan \<Rightarrow> refine_stats \<Rightarrow> refine_stats" where
  "account_request p s = s\<lparr>rs_requests := rs_requests s + 1, rs_pages := rs_pages s + of_nat (rp_pages p),
     rs_bytes := rs_bytes s + of_nat (rp_bytes p)\<rparr>"

text \<open>
  A query: its vector, the number of neighbours, and the caller's distance function, which reads the
  payload it is handed. The working state of a refinement is the heap with the statistics.
\<close>

type_synonym exact_distance = "f32 list \<Rightarrow> bytes \<Rightarrow> nat \<Rightarrow> f32"

record refine_query =
  rq_vector :: "f32 list"
  rq_dimension :: nat
  rq_topk :: nat
  rq_function :: exact_distance

type_synonym refine_state = "exact_heap \<times> refine_stats"

definition process_item :: "record_store \<Rightarrow> refine_query \<Rightarrow> nat \<Rightarrow> bytes \<Rightarrow> nat \<times> nat \<Rightarrow> exact_heap \<Rightarrow> exact_heap res" where
  "process_item st q request_bytes buf item heap =
    (let pos = snd item
     in if pos > request_bytes \<or> st_stride st > request_bytes - pos \<or> 4 + payload_bytes st > st_stride st
        then Inl (Logic_error ''candidate record is outside its read request'')
        else insert_exact (rq_topk q) (of_le32 (segment buf pos 4))
          (rq_function q (rq_vector q) (segment buf (pos + 4) (payload_bytes st)) (rq_dimension q)) heap)"

definition process_plan :: "record_store \<Rightarrow> refine_query \<Rightarrow> bytes \<Rightarrow> read_plan \<Rightarrow> refine_state \<Rightarrow> refine_state res" where
  "process_plan st q buf p s =
    res_bind (res_fold (process_item st q (rp_bytes p) buf) (rp_items p) (fst s)) (\<lambda>heap.
      Inr (heap, (snd s)\<lparr>rs_vectors := rs_vectors (snd s) + of_nat (length (rp_items p))\<rparr>))"

section \<open>List files\<close>

text \<open>An open file is its list number and its path.\<close>

type_synonym open_file = "u32 \<times> string"

text \<open>Every descriptor is closed; the first failure is reported after the last one.\<close>

fun close_all :: "open_file list \<Rightarrow> exc option \<Rightarrow> disk \<Rightarrow> exc option \<times> disk" where
  "close_all [] first_error d = (first_error, d)"
| "close_all (f # fs) first_error d =
    (case sys_call ''close(list file)'' d of
       (Inl e, d') \<Rightarrow> close_all fs (if first_error = None then Some e else first_error) d'
     | (Inr _, d') \<Rightarrow> close_all fs first_error d')"

definition close_files :: "open_file list \<Rightarrow> unit io" where
  "close_files fs d = (case close_all fs None d of (Some e, d') \<Rightarrow> (Inl e, d') | (None, d') \<Rightarrow> (Inr (), d'))"

text \<open>The files opened so far are closed when a later one cannot be opened.\<close>

fun open_files :: "record_store \<Rightarrow> u32 list \<Rightarrow> open_file list \<Rightarrow> open_file list io" where
  "open_files st [] fds d = (Inr fds, d)"
| "open_files st (l # ls) fds d =
    (case io_bind (io_lift (list_path st l)) (\<lambda>path. io_bind (sys_open False False path) (\<lambda>_. io_return path)) d of
       (Inl e, d') \<Rightarrow> (Inl e, snd (close_all fds None d'))
     | (Inr path, d') \<Rightarrow> open_files st ls (fds @ [(l, path)]) d')"

text \<open>\<open>std::lower_bound\<close> on the list numbers.\<close>

definition descriptor_for :: "open_file list \<Rightarrow> u32 \<Rightarrow> string res" where
  "descriptor_for fs l =
    (case dropWhile (\<lambda>f. fst f < l) fs of
       [] \<Rightarrow> Inl (Logic_error ''read plan references an unopened list file'')
     | f # _ \<Rightarrow> if fst f \<noteq> l then Inl (Logic_error ''read plan references an unopened list file'') else Inr (snd f))"

section \<open>The blocking reader\<close>

function pread_once :: "string \<Rightarrow> nat \<Rightarrow> nat \<Rightarrow> bytes io" where
  "pread_once path off n d =
    (case sys_pread path off n d of
       (Ret_eintr, d') \<Rightarrow> pread_once path off n d'
     | (Ret_err e, d') \<Rightarrow> (Inl (system_error ''pread(list file)'' e), d')
     | (Ret ys, d') \<Rightarrow> (Inr ys, d'))"
  by pat_completeness auto

termination pread_once
  by (relation "measure (\<lambda>(path, off, n, d). length (transfers d))") (auto dest!: sys_pread_measure(1) [OF sym])

declare pread_once.simps [simp del]

definition blocking_read :: "record_store \<Rightarrow> refine_query \<Rightarrow> open_file list \<Rightarrow> read_plan \<Rightarrow> nat \<times> refine_state \<Rightarrow> (nat \<times> refine_state) io" where
  "blocking_read st q fds p cs =
    (case cs of (capacity, heap, stats) \<Rightarrow>
      io_bind (if capacity < rp_bytes p then io_bind (io_lift (aligned_buffer (page_size st) (rp_bytes p))) (\<lambda>_. io_return (rp_bytes p))
               else io_return capacity) (\<lambda>capacity'.
      io_bind (io_lift (descriptor_for fds (rp_list p))) (\<lambda>path.
      io_bind (pread_once path (rp_offset p) (rp_bytes p)) (\<lambda>buf.
        if length buf \<noteq> rp_bytes p then io_throw (Runtime_error ''short read from list file'')
        else io_bind (io_lift (process_plan st q buf p
            (heap, account_request p (stats\<lparr>rs_peak := max (rs_peak stats) 1\<rparr>)))) (\<lambda>s. io_return (capacity', s))))))"

definition refine_blocking :: "record_store \<Rightarrow> refine_query \<Rightarrow> open_file list \<Rightarrow> read_plan list \<Rightarrow> refine_state \<Rightarrow> refine_state io" where
  "refine_blocking st q fds plans s =
    io_bind (io_lift (aligned_buffer (page_size st) (page_size st))) (\<lambda>_.
    io_bind (io_fold (blocking_read st q fds) plans (page_size st, s)) (\<lambda>cs. io_return (snd cs)))"

section \<open>Asynchronous reads\<close>

text \<open>
  The kernel side of libaio. \<open>io_submit\<close> accepts a number of the requests it is given, \<open>io_getevents\<close>
  returns some of the pending requests, in any order, each with the bytes that were read, an error, a
  nonzero \<open>res2\<close> or without its slot. The scripts say what the next calls do; an exhausted script accepts everything and
  completes the oldest request. A pending request is its slot with the path, offset and length.
\<close>

datatype aio_submit = Accept nat | Submit_error string

datatype aio_outcome = Full | Partial nat | Broken string | Flagged | Lost

datatype aio_wait = Ready "(nat \<times> aio_outcome) list" | Wait_eintr | Wait_error string

record aio_request =
  ar_slot :: nat
  ar_path :: string
  ar_offset :: nat
  ar_bytes :: nat

record aio_kernel =
  ak_context :: "nat option"
  ak_setups :: "string option list"
  ak_submits :: "aio_submit list"
  ak_waits :: "aio_wait list"
  ak_pending :: "aio_request list"

datatype aio_result = Aio_bytes bytes | Aio_error string | Aio_res2

type_synonym aio_event = "nat option \<times> aio_result"

definition io_submit :: "aio_request list \<Rightarrow> aio_kernel \<Rightarrow> nat res \<times> aio_kernel" where
  "io_submit rs k =
    (case ak_submits k of
       [] \<Rightarrow> (Inr (length rs), k\<lparr>ak_pending := ak_pending k @ rs\<rparr>)
     | Accept n # script \<Rightarrow> (Inr (min n (length rs)), k\<lparr>ak_submits := script, ak_pending := ak_pending k @ take n rs\<rparr>)
     | Submit_error e # script \<Rightarrow> (Inl (system_error ''io_submit'' e), k\<lparr>ak_submits := script\<rparr>))"

definition aio_event_of :: "disk \<Rightarrow> aio_request \<Rightarrow> aio_outcome \<Rightarrow> aio_event" where
  "aio_event_of d r w = (if w = Lost then None else Some (ar_slot r),
    (let avail = segment (content d (ar_path r)) (ar_offset r) (ar_bytes r)
     in case w of Full \<Rightarrow> Aio_bytes avail | Partial n \<Rightarrow> Aio_bytes (take n avail) | Broken e \<Rightarrow> Aio_error e | Flagged \<Rightarrow> Aio_res2 | Lost \<Rightarrow> Aio_bytes avail))"

text \<open>Each completion picks one of the requests that are still pending.\<close>

fun complete_some :: "disk \<Rightarrow> (nat \<times> aio_outcome) list \<Rightarrow> aio_request list \<Rightarrow> aio_event list \<times> aio_request list" where
  "complete_some d [] pending = ([], pending)"
| "complete_some d ((i, w) # picks) pending =
    (if pending = [] then ([], [])
     else let j = i mod length pending;
              (es, left) = complete_some d picks (take j pending @ drop (Suc j) pending)
          in (aio_event_of d (pending ! j) w # es, left))"

datatype wait_result = Events "aio_event list" | Interrupted | Failed string

definition io_getevents :: "nat \<Rightarrow> disk \<Rightarrow> aio_kernel \<Rightarrow> wait_result \<times> aio_kernel" where
  "io_getevents max_events d k =
    (case ak_waits k of
       [] \<Rightarrow> (let (es, left) = complete_some d (take max_events [(0, Full)]) (ak_pending k)
              in (Events es, k\<lparr>ak_pending := left\<rparr>))
     | Ready picks # script \<Rightarrow> (let (es, left) = complete_some d (take max_events picks) (ak_pending k)
              in (Events es, k\<lparr>ak_waits := script, ak_pending := left\<rparr>))
     | Wait_eintr # script \<Rightarrow> (Interrupted, k\<lparr>ak_waits := script\<rparr>)
     | Wait_error e # script \<Rightarrow> (Failed e, k\<lparr>ak_waits := script\<rparr>))"

text \<open>The thread's context object: a larger queue depth makes a new one. \<open>io_destroy\<close> cancels or
  waits for what is pending.\<close>

definition aio_reset :: "aio_kernel \<Rightarrow> aio_kernel" where
  "aio_reset k = (if ak_context k \<noteq> None then k\<lparr>ak_context := None, ak_pending := []\<rparr> else k)"

definition aio_acquire :: "nat \<Rightarrow> aio_kernel \<Rightarrow> unit res \<times> aio_kernel" where
  "aio_acquire queue_depth k =
    (if \<exists>capacity. ak_context k = Some capacity \<and> capacity \<ge> queue_depth then (Inr (), k)
     else let k' = aio_reset k
     in case ak_setups k' of
          Some e # script \<Rightarrow> (Inl (system_error ''io_setup'' e), k'\<lparr>ak_setups := script\<rparr>)
        | None # script \<Rightarrow> (Inr (), k'\<lparr>ak_context := Some queue_depth, ak_setups := script\<rparr>)
        | [] \<Rightarrow> (Inr (), k'\<lparr>ak_context := Some queue_depth\<rparr>))"

text \<open>A slot is the capacity of its buffer and the index of the plan it reads.\<close>

record aio_slot =
  as_capacity :: nat
  as_plan :: nat

definition prepare_aio :: "record_store \<Rightarrow> open_file list \<Rightarrow> read_plan list \<Rightarrow> nat \<Rightarrow> nat \<Rightarrow> aio_slot list \<Rightarrow> (aio_request \<times> aio_slot list) res" where
  "prepare_aio st fds plans i j slots =
    (let p = plans ! j
     in res_bind (descriptor_for fds (rp_list p)) (\<lambda>path.
        res_bind (if as_capacity (slots ! i) \<ge> rp_bytes p then Inr (as_capacity (slots ! i))
                  else res_bind (aligned_buffer (page_size st) (rp_bytes p)) (\<lambda>_. Inr (rp_bytes p))) (\<lambda>capacity.
          Inr (\<lparr>ar_slot = i, ar_path = path, ar_offset = rp_offset p, ar_bytes = rp_bytes p\<rparr>,
               slots[i := \<lparr>as_capacity = capacity, as_plan = j\<rparr>]))))"

function submit_requests :: "read_plan list \<Rightarrow> aio_slot list \<Rightarrow> aio_request list \<Rightarrow> refine_stats \<Rightarrow> aio_kernel \<Rightarrow> refine_stats res \<times> aio_kernel" where
  "submit_requests plans slots rs stats k =
    (if rs = [] then (Inr stats, k)
     else case io_submit rs k of
       (Inl e, k') \<Rightarrow> (Inl e, k')
     | (Inr n, k') \<Rightarrow>
         if n = 0 then (Inl (Runtime_error ''io_submit made no progress''), k')
         else submit_requests plans slots (drop n rs)
           (fold (\<lambda>r. account_request (plans ! as_plan (slots ! ar_slot r))) (take n rs) stats) k')"
  by pat_completeness auto

termination submit_requests
  by (relation "measure (\<lambda>(plans, slots, rs, stats, k). length rs)") auto

declare submit_requests.simps [simp del]

text \<open>The loop state: slots, next plan, requests to submit, requests in flight, heap and statistics.\<close>

type_synonym aio_state = "aio_slot list \<times> nat \<times> aio_request list \<times> nat \<times> refine_state"

definition aio_complete :: "record_store \<Rightarrow> refine_query \<Rightarrow> open_file list \<Rightarrow> read_plan list \<Rightarrow> aio_event \<Rightarrow> aio_state \<Rightarrow> aio_state res" where
  "aio_complete st q fds plans e x =
    (case x of (slots, next_plan, submissions, inflight, s) \<Rightarrow>
      case e of
        (None, _) \<Rightarrow> Inl (Runtime_error ''AIO completion lost its request slot'')
      | (Some i, Aio_res2) \<Rightarrow> Inl (Runtime_error ''O_DIRECT list read returned nonzero res2'')
      | (Some i, Aio_error err) \<Rightarrow> Inl (system_error ''O_DIRECT list read'' err)
      | (Some i, Aio_bytes buf) \<Rightarrow>
          let p = plans ! as_plan (slots ! i)
          in if length buf \<noteq> rp_bytes p then Inl (Runtime_error ''short O_DIRECT read from list file'')
             else res_bind (process_plan st q buf p s) (\<lambda>s'.
               if next_plan < length plans
               then res_bind (prepare_aio st fds plans i next_plan slots) (\<lambda>(r, slots').
                 Inr (slots', next_plan + 1, submissions @ [r], inflight - 1, s'))
               else Inr (slots, next_plan, submissions, inflight - 1, s')))"

lemma aio_complete_counts:
  assumes "aio_complete st q fds plans e (slots, next_plan, subs, inflight, s) = Inr (slots', next_plan', subs', inflight', s')"
  shows "inflight' = inflight - 1 \<and> length subs' + next_plan = length subs + next_plan' \<and> next_plan \<le> next_plan'
    \<and> (next_plan \<le> length plans \<longrightarrow> next_plan' \<le> length plans) \<and> (length plans < next_plan \<longrightarrow> next_plan' = next_plan)"
  using assms by (auto simp: aio_complete_def Let_def split: prod.splits option.splits aio_result.splits if_splits)

lemma aio_completes_counts:
  assumes "res_fold (aio_complete st q fds plans) es (slots, next_plan, subs, inflight, s) = Inr (slots', next_plan', subs', inflight', s')"
  shows "inflight' = inflight - length es \<and> length subs' + next_plan = length subs + next_plan' \<and> next_plan \<le> next_plan'
    \<and> (next_plan \<le> length plans \<longrightarrow> next_plan' \<le> length plans) \<and> (length plans < next_plan \<longrightarrow> next_plan' = next_plan)"
  using assms
proof (induction es arbitrary: slots next_plan subs inflight s)
  case (Cons e es)
  obtain slots1 next1 subs1 inflight1 s1 where one: "aio_complete st q fds plans e (slots, next_plan, subs, inflight, s) = Inr (slots1, next1, subs1, inflight1, s1)"
    and rest: "res_fold (aio_complete st q fds plans) es (slots1, next1, subs1, inflight1, s1) = Inr (slots', next_plan', subs', inflight', s')"
    using Cons.prems by auto
  show ?case using aio_complete_counts [OF one] Cons.IH [OF rest] by auto
qed simp

lemma aio_round_smaller:
  assumes "res_fold (aio_complete st q fds plans) es (slots, next_plan, [], inflight, s) = Inr (slots', next_plan', subs, inflight', s')"
    and "es \<noteq> []" and "0 < inflight"
  shows "inflight' + length subs + 2 * (length plans - next_plan') < inflight + 2 * (length plans - next_plan)"
  using aio_completes_counts [OF assms(1)] assms(2,3)
  by (cases es) auto

lemma io_getevents_waits:
  "io_getevents n d k = (Interrupted, k') \<Longrightarrow> length (ak_waits k') < length (ak_waits k)"
  by (auto simp: io_getevents_def Let_def split: list.splits aio_wait.splits prod.splits)

function aio_loop :: "record_store \<Rightarrow> refine_query \<Rightarrow> open_file list \<Rightarrow> read_plan list \<Rightarrow> nat \<Rightarrow> disk
    \<Rightarrow> aio_slot list \<Rightarrow> nat \<Rightarrow> nat \<Rightarrow> refine_state \<Rightarrow> aio_kernel \<Rightarrow> refine_state res \<times> aio_kernel" where
  "aio_loop st q fds plans queue_depth d slots next_plan inflight s k =
    (if inflight = 0 then (Inr s, k)
     else case io_getevents queue_depth d k of
       (Interrupted, k') \<Rightarrow> aio_loop st q fds plans queue_depth d slots next_plan inflight s k'
     | (Failed e, k') \<Rightarrow> (Inl (system_error ''io_getevents'' e), k')
     | (Events es, k') \<Rightarrow>
         if es = [] then (Inl (Runtime_error ''io_getevents made no progress''), k')
         else case res_fold (aio_complete st q fds plans) es (slots, next_plan, [], inflight, s) of
           Inl e \<Rightarrow> (Inl e, k')
         | Inr (slots', next_plan', submissions, inflight', s') \<Rightarrow>
             if submissions = [] then aio_loop st q fds plans queue_depth d slots' next_plan' inflight' s' k'
             else case submit_requests plans slots' submissions (snd s') k' of
               (Inl e, k'') \<Rightarrow> (Inl e, k'')
             | (Inr stats, k'') \<Rightarrow>
                 aio_loop st q fds plans queue_depth d slots' next_plan' (inflight' + length submissions)
                   (fst s', stats\<lparr>rs_peak := max (rs_peak stats) (inflight' + length submissions)\<rparr>) k'')"
  by pat_completeness auto

termination aio_loop
  by (relation "measures [\<lambda>(st, q, fds, plans, n, d, slots, next_plan, inflight, s, k). inflight + 2 * (length plans - next_plan),
    \<lambda>(st, q, fds, plans, n, d, slots, next_plan, inflight, s, k). length (ak_waits k)]")
    (auto dest!: aio_round_smaller io_getevents_waits [OF sym])

declare aio_loop.simps [simp del]

definition prepare_first :: "record_store \<Rightarrow> open_file list \<Rightarrow> read_plan list \<Rightarrow> nat \<Rightarrow> aio_request list \<times> aio_slot list \<Rightarrow> (aio_request list \<times> aio_slot list) res" where
  "prepare_first st fds plans i x =
    res_bind (prepare_aio st fds plans i i (snd x)) (\<lambda>(r, slots). Inr (fst x @ [r], slots))"

definition refine_aio :: "record_store \<Rightarrow> refine_query \<Rightarrow> open_file list \<Rightarrow> read_plan list \<Rightarrow> nat \<Rightarrow> disk \<Rightarrow> refine_state \<Rightarrow> aio_kernel
    \<Rightarrow> refine_state res \<times> aio_kernel" where
  "refine_aio st q fds plans queue_depth d s k =
    (let initial = min queue_depth (length plans)
     in case res_bind (aligned_buffer (page_size st) (page_size st)) (\<lambda>_.
          res_fold (prepare_first st fds plans) [0..<initial] ([], replicate queue_depth \<lparr>as_capacity = page_size st, as_plan = 0\<rparr>)) of
       Inl e \<Rightarrow> (Inl e, k)
     | Inr (rs, slots) \<Rightarrow>
         (case submit_requests plans slots rs (snd s) k of
            (Inl e, k') \<Rightarrow> (Inl e, k')
          | (Inr stats, k') \<Rightarrow>
              aio_loop st q fds plans queue_depth d slots initial initial
                (fst s, stats\<lparr>rs_peak := max (rs_peak stats) initial\<rparr>) k'))"

section \<open>The refiner\<close>

record refiner =
  rf_store :: record_store
  rf_queue_depth :: nat
  rf_max_open :: nat

definition refiner_new :: "bool \<Rightarrow> record_store \<Rightarrow> nat \<Rightarrow> nat \<Rightarrow> refiner res" where
  "refiner_new linux_aio st queue_depth max_open_files =
    (if queue_depth = 0 \<or> max_open_files < queue_depth then Inl (Invalid_argument ''invalid list-file refinement options'')
     else if \<not> linux_aio \<and> queue_depth \<noteq> 1
     then Inl (Invalid_argument ''queue_depth greater than one requires a Linux libaio build'')
     else Inr \<lparr>rf_store = st, rf_queue_depth = queue_depth, rf_max_open = max_open_files\<rparr>)"

text \<open>The reads of one batch of open files, with one worker pipeline.\<close>

definition read_batch_plans :: "refiner \<Rightarrow> refine_query \<Rightarrow> open_file list \<Rightarrow> read_plan list \<Rightarrow> refine_state \<Rightarrow> aio_kernel \<Rightarrow> disk
    \<Rightarrow> refine_state res \<times> aio_kernel \<times> disk" where
  "read_batch_plans rf q fds plans s k d =
    (if rf_queue_depth rf = 1
     then let (r, d') = refine_blocking (rf_store rf) q fds plans s d in (r, k, d')
     else let (r, k') = refine_aio (rf_store rf) q fds plans (rf_queue_depth rf) d s k in (r, k', d))"

definition aio_abort :: "refiner \<Rightarrow> aio_kernel \<Rightarrow> aio_kernel" where
  "aio_abort rf k = (if rf_queue_depth rf > 1 then aio_reset k else k)"

text \<open>
  The loop over the lists of the query, at most \<open>max_open_files\<close> at a time. Without a bound of at least
  one it would not end; the constructor rejects that. On an exception the context is destroyed, which
  cancels what is pending, and the files are closed.
\<close>

partial_function (option) refine_lists :: "refiner \<Rightarrow> refine_query \<Rightarrow> u32 list \<Rightarrow> read_plan list \<Rightarrow> refine_state \<Rightarrow> aio_kernel \<Rightarrow> disk
    \<Rightarrow> (refine_state res \<times> aio_kernel \<times> disk) option" where
  "refine_lists rf q todo plans s k d =
    (if todo = [] then Some (Inr s, k, d)
     else let batch = take (rf_max_open rf) todo
     in case open_files (rf_store rf) batch [] d of
          (Inl e, d1) \<Rightarrow> Some (Inl e, aio_abort rf k, d1)
        | (Inr fds, d1) \<Rightarrow>
            let ps = takeWhile (\<lambda>p. rp_list p \<le> last batch) plans;
                s1 = (fst s, (snd s)\<lparr>rs_files := rs_files (snd s) + of_nat (length fds)\<rparr>)
            in case read_batch_plans rf q fds ps s1 k d1 of
                 (Inl e, k2, d2) \<Rightarrow> Some (Inl e, aio_abort rf k2, snd (close_all fds None d2))
               | (Inr s2, k2, d2) \<Rightarrow>
                   (case close_files fds d2 of
                      (Inl e, d3) \<Rightarrow> Some (Inl e, aio_abort rf k2, d3)
                    | (Inr _, d3) \<Rightarrow> refine_lists rf q (drop (rf_max_open rf) todo) (drop (length ps) plans) s2 k2 d3))"

definition refine :: "refiner \<Rightarrow> f32 list option \<Rightarrow> nat \<Rightarrow> list_candidate list \<Rightarrow> nat \<Rightarrow> exact_distance option \<Rightarrow> refine_stats \<Rightarrow> aio_kernel \<Rightarrow> disk
    \<Rightarrow> ((neighbor list \<times> refine_stats) res \<times> aio_kernel \<times> disk) option" where
  "refine rf vector dimension cands topk distance_function stats k d =
    (if vector = None \<or> dimension = 0 \<or> topk = 0 \<or> length cands < topk \<or> distance_function = None
     then Some (Inl (Invalid_argument ''invalid list-file refinement request''), k, d)
     else if \<exists>c \<in> set cands. unat (lc_list c) \<ge> st_nlist (rf_store rf)
     then Some (Inl (Out_of_range ''refinement candidate list is invalid''), k, d)
     else case build_read_plans (rf_store rf) cands of
       Inl e \<Rightarrow> Some (Inl e, k, d)
     | Inr plans \<Rightarrow>
         let q = \<lparr>rq_vector = the vector, rq_dimension = dimension, rq_topk = topk, rq_function = the distance_function\<rparr>
         in case (if rf_queue_depth rf > 1 then aio_acquire (rf_queue_depth rf) k else (Inr (), k)) of
              (Inl e, k1) \<Rightarrow> Some (Inl e, k1, d)
            | (Inr _, k1) \<Rightarrow>
                (case refine_lists rf q (distinct_lists plans []) plans ([], stats) k1 d of
                   None \<Rightarrow> None
                 | Some (Inl e, k2, d2) \<Rightarrow> Some (Inl e, k2, d2)
                 | Some (Inr s, k2, d2) \<Rightarrow> Some (Inr (finish_topk (fst s), snd s), k2, d2)))"

end
