(* ===== verification/Refine_Heap.thy ===== *)
theory Refine_Heap
  imports Refine
begin

text \<open>
  What one read contributes: the exact neighbours of its records, of which the heap keeps the best.
\<close>

section \<open>The heap keeps the best neighbours\<close>

definition heap_ok :: "nat \<Rightarrow> neighbor multiset \<Rightarrow> exact_heap \<Rightarrow> bool" where
  "heap_ok topk S h \<longleftrightarrow> pq_ok neighbor_key h \<and> smallest_part neighbor_key topk S (mset h)"

lemma heap_ok_empty: "heap_ok topk {#} []"
  by (simp add: heap_ok_def)

lemma heap_ok_size: "heap_ok topk S h \<Longrightarrow> length h = min topk (size S)"
  by (simp add: heap_ok_def smallest_part_def)

lemma heap_ok_push:
  assumes "heap_ok topk S h" and "0 < topk"
  shows "heap_ok topk (add_mset x S) (let h' = pq_push neighbor_key x h in if length h' > topk then pq_pop h' else h')"
proof -
  have inv: "pq_ok neighbor_key h" and part: "smallest_part neighbor_key topk S (mset h)" using assms(1) by (simp_all add: heap_ok_def)
  have "length h \<le> topk" using heap_ok_size [OF assms(1)] by simp
  then consider "length h < topk" | "length h = topk" by linarith
  then show ?thesis
  proof cases
    case 1
    then have "size (mset h) < topk" by simp
    then show ?thesis using pq.grow [OF inv part, of x] 1 by (simp add: heap_ok_def Let_def)
  next
    case 2
    then have "size (mset h) = topk" by simp
    then show ?thesis using pq.push_pop [OF inv part, of x] pq.invar_pop [OF pq.invar_push [OF inv]] 2 by (simp add: heap_ok_def Let_def)
  qed
qed

text \<open>The comparison of the code and the key order agree on the distances the heap admits.\<close>

lemma exact_worse_first_key:
  assumes "f32_is_finite (nb_distance a)" and "f32_is_finite (nb_distance b)"
  shows "exact_worse_first a b \<longleftrightarrow> neighbor_key a < neighbor_key b"
  using f32_finite_not_nan [OF assms(1)] f32_finite_not_nan [OF assms(2)]
  by (auto simp: exact_worse_first_def neighbor_key_def f32_eq_def f32_lt_def less_prod_def word_less_nat_alt)

definition exact_valid :: "f32 \<Rightarrow> bool" where
  "exact_valid x \<longleftrightarrow> f32_is_finite x \<and> \<not> f32_lt x 0"

lemma insert_exact_ok:
  assumes "heap_ok topk S h" and "0 < topk"
  shows "insert_exact topk (nb_id x) (nb_distance x) h = Inr h' \<Longrightarrow> heap_ok topk (add_mset x S) h'"
    and "exact_valid (nb_distance x) \<Longrightarrow> \<exists>h'. insert_exact topk (nb_id x) (nb_distance x) h = Inr h'"
  using heap_ok_push [OF assms, of x]
  by (cases x; auto simp: insert_exact_def exact_valid_def Let_def split: if_splits)+

lemma drain_heap: "drain_heap h = h"
  by (induction h) (simp_all add: pq_top_def pq_pop_def)

lemma finish_topk_ok:
  assumes "heap_ok topk S h"
  shows "sorted (map neighbor_key (finish_topk h))" and "smallest_part neighbor_key topk S (mset (finish_topk h))"
  using assms by (simp_all add: heap_ok_def finish_topk_def drain_heap pq_ok_def sorted_wrt_rev sorted_wrt_map flip: rev_map)

section \<open>Neighbours of a read\<close>

definition path_of :: "record_store \<Rightarrow> u32 \<Rightarrow> string" where
  "path_of st l = (case list_path st l of Inr p \<Rightarrow> p | Inl e \<Rightarrow> [])"

definition neighbor_at :: "record_store \<Rightarrow> refine_query \<Rightarrow> bytes \<Rightarrow> nat \<Rightarrow> neighbor" where
  "neighbor_at st q f pos = (let record = segment f pos (st_stride st)
    in \<lparr>nb_id = of_le32 (take 4 record), nb_distance = rq_function q (rq_vector q) (drop 4 record) (rq_dimension q)\<rparr>)"

definition plan_neighbors :: "record_store \<Rightarrow> refine_query \<Rightarrow> disk \<Rightarrow> read_plan \<Rightarrow> neighbor multiset" where
  "plan_neighbors st q d p = mset (map (\<lambda>r. neighbor_at st q (content d (path_of st (rp_list p))) (rp_offset p + snd r)) (rp_items p))"

lemma segment_head: "i + a \<le> n \<Longrightarrow> segment (segment f off n) i a = take a (segment f (off + i) (a + m))"
  by (simp add: segment_def drop_take add.commute min_def)

lemma segment_tail: "i + (a + m) \<le> n \<Longrightarrow> segment (segment f off n) (i + a) m = drop a (segment f (off + i) (a + m))"
  by (simp add: segment_def drop_take min_def ac_simps)

lemma process_item_ok:
  assumes st: "store_ok st" and heap: "heap_ok (rq_topk q) S h" and k: "0 < rq_topk q"
    and r: "snd r + st_stride st \<le> n" and buf: "buf = segment f off n" "length buf = n"
  shows "process_item st q n buf r h = Inr h' \<Longrightarrow> heap_ok (rq_topk q) (add_mset (neighbor_at st q f (off + snd r)) S) h'"
    and "exact_valid (nb_distance (neighbor_at st q f (off + snd r))) \<Longrightarrow> \<exists>h'. process_item st q n buf r h = Inr h'"
proof -
  note geo = store_geometry(1) [OF st]
  have le: "snd r + (4 + payload_bytes st) \<le> n" using r geo by simp
  then have nless: "\<not> n - snd r < 4 + payload_bytes st" "\<not> n < snd r" by linarith+
  have s4: "segment buf (snd r) 4 = take 4 (segment f (off + snd r) (st_stride st))"
    unfolding buf(1) geo by (rule segment_head) (use le in simp)
  have sp: "segment buf (snd r + 4) (payload_bytes st) = drop 4 (segment f (off + snd r) (st_stride st))"
    unfolding buf(1) geo by (rule segment_tail) (use le in simp)
  have step: "process_item st q n buf r h = insert_exact (rq_topk q) (nb_id (neighbor_at st q f (off + snd r)))
      (nb_distance (neighbor_at st q f (off + snd r))) h"
    using le geo by (simp add: process_item_def neighbor_at_def Let_def s4 sp nless del: not_less)
  show "process_item st q n buf r h = Inr h' \<Longrightarrow> heap_ok (rq_topk q) (add_mset (neighbor_at st q f (off + snd r)) S) h'"
    "exact_valid (nb_distance (neighbor_at st q f (off + snd r))) \<Longrightarrow> \<exists>h'. process_item st q n buf r h = Inr h'"
    unfolding step using insert_exact_ok [OF heap k] by auto
qed

lemma process_items_ok:
  assumes st: "store_ok st" and k: "0 < rq_topk q" and buf: "buf = segment f off n" "length buf = n"
    and "heap_ok (rq_topk q) S h" and "\<forall>r \<in> set rs. snd r + st_stride st \<le> n"
  shows "(\<forall>h'. res_fold (process_item st q n buf) rs h = Inr h' \<longrightarrow>
        heap_ok (rq_topk q) (S + mset (map (\<lambda>r. neighbor_at st q f (off + snd r)) rs)) h')
    \<and> ((\<forall>r \<in> set rs. exact_valid (nb_distance (neighbor_at st q f (off + snd r)))) \<longrightarrow> (\<exists>h'. res_fold (process_item st q n buf) rs h = Inr h'))"
  using assms(5,6)
proof (induction rs arbitrary: S h)
  case (Cons r rs)
  have r: "snd r + st_stride st \<le> n" using Cons.prems(2) by simp
  note one = process_item_ok [OF st Cons.prems(1) k r buf]
  show ?case
  proof (cases "process_item st q n buf r h")
    case (Inl e)
    then show ?thesis using one(2) by auto
  next
    case (Inr h1)
    have "heap_ok (rq_topk q) (add_mset (neighbor_at st q f (off + snd r)) S) h1" using Inr by (rule one(1))
    then show ?thesis using Cons.IH [of "add_mset (neighbor_at st q f (off + snd r)) S" h1] Cons.prems(2) Inr by simp
  qed
qed simp

definition plan_valid :: "record_store \<Rightarrow> refine_query \<Rightarrow> disk \<Rightarrow> read_plan \<Rightarrow> bool" where
  "plan_valid st q d p \<longleftrightarrow> (\<forall>x \<in># plan_neighbors st q d p. exact_valid (nb_distance x))"

lemma process_plan_ok:
  assumes st: "store_ok st" and k: "0 < rq_topk q" and p: "read_plan_ok st p"
    and buf: "buf = segment (content d (path_of st (rp_list p))) (rp_offset p) (rp_bytes p)" "length buf = rp_bytes p"
    and heap: "heap_ok (rq_topk q) S (fst s)"
  shows "process_plan st q buf p s = Inr s' \<Longrightarrow> heap_ok (rq_topk q) (S + plan_neighbors st q d p) (fst s') \<and> rs_peak (snd s') = rs_peak (snd s)"
    and "plan_valid st q d p \<Longrightarrow> \<exists>s'. process_plan st q buf p s = Inr s'"
proof -
  have "\<forall>r \<in> set (rp_items p). snd r + st_stride st \<le> rp_bytes p" using p unfolding read_plan_ok_def by blast
  note r = process_items_ok [OF st k buf heap this]
  show "process_plan st q buf p s = Inr s' \<Longrightarrow> heap_ok (rq_topk q) (S + plan_neighbors st q d p) (fst s') \<and> rs_peak (snd s') = rs_peak (snd s)"
    using r by (auto simp: process_plan_def plan_neighbors_def)
  show "plan_valid st q d p \<Longrightarrow> \<exists>s'. process_plan st q buf p s = Inr s'"
    using r by (auto simp: process_plan_def plan_valid_def plan_neighbors_def)
qed

end
