(* ===== verification/Refine_Read.thy ===== *)
theory Refine_Read
  imports Refine_Heap
begin

text \<open>
  The files of a batch and the blocking reader: what they leave on the disk and in the working state.
\<close>

section \<open>Working state\<close>

text \<open>The heap holds the best of \<open>T\<close>, and the counter of exact vectors counts \<open>T\<close>.\<close>

definition working :: "refine_query \<Rightarrow> u64 \<Rightarrow> neighbor multiset \<Rightarrow> refine_state \<Rightarrow> bool" where
  "working q v T s \<longleftrightarrow> heap_ok (rq_topk q) T (fst s) \<and> rs_vectors (snd s) = v + of_nat (size T)"

lemma account_request_simps [simp]:
  "rs_vectors (account_request p s) = rs_vectors s" "rs_peak (account_request p s) = rs_peak s"
  by (simp_all add: account_request_def)

lemma size_plan_neighbors: "size (plan_neighbors st q d p) = length (rp_items p)"
  by (simp add: plan_neighbors_def)

lemma process_plan_working:
  assumes st: "store_ok st" and k: "0 < rq_topk q" and p: "read_plan_ok st p"
    and buf: "buf = segment (content d (path_of st (rp_list p))) (rp_offset p) (rp_bytes p)" "length buf = rp_bytes p"
    and w: "working q v T s"
  shows "process_plan st q buf p s = Inr s' \<Longrightarrow> working q v (T + plan_neighbors st q d p) s' \<and> rs_peak (snd s') = rs_peak (snd s)"
    and "plan_valid st q d p \<Longrightarrow> \<exists>s'. process_plan st q buf p s = Inr s'"
proof -
  have h: "heap_ok (rq_topk q) T (fst s)" and c: "rs_vectors (snd s) = v + of_nat (size T)" using w by (simp_all add: working_def)
  note pp = process_plan_ok [OF st k p buf h]
  show "\<exists>s'. process_plan st q buf p s = Inr s'" if "plan_valid st q d p" using that by (rule pp(2))
  assume r: "process_plan st q buf p s = Inr s'"
  have "rs_vectors (snd s') = rs_vectors (snd s) + of_nat (length (rp_items p))"
    using r by (cases "res_fold (process_item st q (rp_bytes p) buf) (rp_items p) (fst s)") (auto simp: process_plan_def)
  then show "working q v (T + plan_neighbors st q d p) s' \<and> rs_peak (snd s') = rs_peak (snd s)"
    using pp(1) [OF r] c by (simp add: working_def size_plan_neighbors)
qed

text \<open>A plan whose file holds all it reads.\<close>

definition readable :: "record_store \<Rightarrow> disk \<Rightarrow> read_plan \<Rightarrow> bool" where
  "readable st d p \<longleftrightarrow> rp_offset p + rp_bytes p \<le> length (content d (path_of st (rp_list p)))"

lemma readable_length:
  "readable st d p \<Longrightarrow> length (segment (content d (path_of st (rp_list p))) (rp_offset p) (rp_bytes p)) = rp_bytes p"
  by (simp add: readable_def segment_def)

lemma read_plan_pos: "store_ok st \<Longrightarrow> read_plan_ok st p \<Longrightarrow> 0 < rp_bytes p"
  using store_geometry(3) by (auto simp: read_plan_ok_def)

lemma plan_buffer_ok: "store_ok st \<Longrightarrow> read_plan_ok st p \<Longrightarrow> aligned_buffer (page_size st) (rp_bytes p) = Inr ()"
  using store_buffer_ok [of st] read_plan_pos [of st p] by (simp add: aligned_buffer_def split: if_splits)

section \<open>The files of a batch\<close>

text \<open>A disk whose calls succeed and whose reads are only interrupted.\<close>

definition smooth :: "disk \<Rightarrow> bool" where
  "smooth d \<longleftrightarrow> set (transfers d) \<subseteq> {Eintr} \<and> set (faults d) \<subseteq> {None}"

definition same_files :: "disk \<Rightarrow> disk \<Rightarrow> bool" where
  "same_files d d' \<longleftrightarrow> files d' = files d \<and> dirs d' = dirs d"

lemma same_files_refl [simp]: "same_files d d"
  by (simp add: same_files_def)

lemma same_files_trans: "same_files d e \<Longrightarrow> same_files e f \<Longrightarrow> same_files d f"
  by (simp add: same_files_def)

lemma same_files_content: "same_files d d' \<Longrightarrow> content d' p = content d p"
  by (simp add: same_files_def content_def)

lemma sys_call_smooth:
  "sys_call msg d = (r, d') \<Longrightarrow> same_files d d' \<and> (smooth d \<longrightarrow> r = Inr () \<and> smooth d')"
  by (auto simp: sys_call_def smooth_def same_files_def split: list.splits option.splits)

lemma close_all_same:
  "close_all fs e d = (r, d') \<Longrightarrow> same_files d d' \<and> (smooth d \<longrightarrow> r = e \<and> smooth d')"
proof (induction fs arbitrary: e d)
  case (Cons f fs)
  obtain q d1 where q: "sys_call ''close(list file)'' d = (q, d1)" by fastforce
  note one = sys_call_smooth [OF q]
  obtain e' where rest: "close_all fs e' d1 = (r, d')" and e': "q = Inr () \<Longrightarrow> e' = e" using Cons.prems q by (cases q) auto
  show ?case using Cons.IH [OF rest] one e' same_files_trans [of d d1 d'] by blast
qed simp

lemma close_files_same:
  "close_files fs d = (r, d') \<Longrightarrow> same_files d d' \<and> (smooth d \<longrightarrow> r = Inr () \<and> smooth d')"
  using close_all_same [of fs None d] by (auto simp: close_files_def split: prod.splits option.splits)

lemma sys_open_smooth:
  assumes "sys_open False False p d = (r, d')"
  shows "same_files d d' \<and> (smooth d \<and> files d p \<noteq> None \<longrightarrow> r = Inr () \<and> smooth d')"
proof -
  obtain q d1 where q: "sys_call (''open('' @ p @ '')'') d = (q, d1)" by fastforce
  note one = sys_call_smooth [OF q]
  show ?thesis using assms q one
    by (cases q; cases "files d p") (auto simp: sys_open_def same_files_def)
qed

lemma path_of_list_path: "unat l < st_nlist st \<Longrightarrow> list_path st l = Inr (path_of st l)"
  using list_path_ok [of l st] by (auto simp: path_of_def)

abbreviation batch_files :: "record_store \<Rightarrow> u32 list \<Rightarrow> open_file list" where
  "batch_files st ls \<equiv> map (\<lambda>l. (l, path_of st l)) ls"

lemma open_files_same:
  assumes "open_files st ls fds d = (r, d')" and "\<forall>l \<in> set ls. unat l < st_nlist st"
  shows "same_files d d' \<and> (\<forall>fs. r = Inr fs \<longrightarrow> fs = fds @ batch_files st ls)
    \<and> (smooth d \<and> (\<forall>l \<in> set ls. files d (path_of st l) \<noteq> None) \<longrightarrow> (\<exists>fs. r = Inr fs) \<and> smooth d')"
  using assms
proof (induction ls arbitrary: fds d)
  case (Cons l ls)
  obtain q d1 where q: "sys_open False False (path_of st l) d = (q, d1)" by fastforce
  note one = sys_open_smooth [OF q]
  have path: "list_path st l = Inr (path_of st l)" using Cons.prems(2) by (simp add: path_of_list_path)
  show ?case
  proof (cases q)
    case (Inl e)
    then have "\<not> (smooth d \<and> files d (path_of st l) \<noteq> None)" using one by auto
    moreover obtain c d2 where "close_all fds None d1 = (c, d2)" by fastforce
    ultimately show ?thesis using Cons.prems(1) q Inl path one close_all_same [of fds None d1] same_files_trans by auto
  next
    case (Inr u)
    then have rest: "open_files st ls (fds @ [(l, path_of st l)]) d1 = (r, d')" using Cons.prems(1) q path by simp
    have f: "files d1 = files d" using one by (simp add: same_files_def)
    show ?thesis using Cons.IH [OF rest] Cons.prems(2) one same_files_trans [of d d1 d'] unfolding f by auto
  qed
qed auto

lemma descriptor_for_batch:
  assumes "sorted_wrt (<) ls" and "l \<in> set ls"
  shows "descriptor_for (batch_files st ls) l = Inr (path_of st l)"
  using assms
proof (induction ls)
  case (Cons a ls)
  show ?case
  proof (cases "l = a")
    case False
    then have "a < l" and "l \<in> set ls" using Cons.prems by auto
    then show ?thesis using Cons by (simp add: descriptor_for_def)
  qed (simp add: descriptor_for_def)
qed simp

section \<open>The blocking reader\<close>

lemma sys_pread_smooth:
  assumes "sys_pread p off n d = (r, d')"
  shows "same_files d d'" and "r = Ret ys \<Longrightarrow> length ys = n \<Longrightarrow> ys = segment (content d p) off n"
    and "smooth d \<Longrightarrow> smooth d' \<and> (r = Ret_eintr \<or> r = Ret (segment (content d p) off n))"
proof -
  obtain t d1 where t: "next_transfer d = (t, d1)" by fastforce
  have d1: "same_files d d1" "smooth d \<Longrightarrow> smooth d1 \<and> (t = None \<or> t = Some Eintr)"
    using t by (auto simp: next_transfer_def same_files_def smooth_def split: list.splits)
  have d': "d' = d1" using assms t by (auto simp: sys_pread_def Let_def split: option.splits transfer.splits)
  show "same_files d d'" using d1(1) d' by simp
  show "smooth d \<Longrightarrow> smooth d' \<and> (r = Ret_eintr \<or> r = Ret (segment (content d p) off n))"
    using d1(2) d' assms t by (auto simp: sys_pread_def Let_def)
  have "take k xs = xs" if "length (take k xs) = n" "length xs \<le> n" for k and xs :: bytes using that by simp
  note full = this [of _ "segment (content d p) off n"]
  have len: "length (segment (content d p) off n) \<le> n" by (simp add: segment_def)
  show "ys = segment (content d p) off n" if r: "r = Ret ys" and n: "length ys = n"
  proof -
    consider "ys = segment (content d p) off n" | i where "ys = take i (segment (content d p) off n)"
      using r assms t by (auto simp: sys_pread_def Let_def split: option.splits transfer.splits)
    then show ?thesis
    proof cases
      case (2 i)
      then show ?thesis using full [of i] n len by simp
    qed
  qed
qed

lemma pread_once_result:
  assumes "pread_once p off n d = (r, d')"
  shows "same_files d d' \<and> (\<forall>ys. r = Inr ys \<and> length ys = n \<longrightarrow> ys = segment (content d p) off n)
    \<and> (smooth d \<longrightarrow> r = Inr (segment (content d p) off n) \<and> smooth d')"
  using assms
proof (induction p off n d rule: pread_once.induct)
  case (1 p off n d)
  note step = "1.prems" [unfolded pread_once.simps [of p off n d]]
  obtain q d1 where q: "sys_pread p off n d = (q, d1)" by fastforce
  note one = sys_pread_smooth [OF q]
  note c = same_files_content [OF one(1), of p]
  show ?case
  proof (cases q)
    case Ret_eintr
    then have "pread_once p off n d1 = (r, d')" using step q by simp
    from "1.IH" [OF q [symmetric] Ret_eintr this, unfolded c] show ?thesis using one(1,3) same_files_trans by blast
  next
    case (Ret_err e)
    then show ?thesis using step q one(1,3) by auto
  next
    case (Ret ys)
    then show ?thesis using step q one by auto
  qed
qed

text \<open>What a reader returns on reads \<open>ps\<close>, and when it returns.\<close>

definition reads_done :: "record_store \<Rightarrow> refine_query \<Rightarrow> disk \<Rightarrow> read_plan list \<Rightarrow> neighbor multiset" where
  "reads_done st q d ps = sum_list (map (plan_neighbors st q d) ps)"

lemma reads_done_simps [simp]:
  "reads_done st q d [] = {#}" "reads_done st q d (p # ps) = plan_neighbors st q d p + reads_done st q d ps"
  "reads_done st q d (ps @ rs) = reads_done st q d ps + reads_done st q d rs"
  by (simp_all add: reads_done_def)

lemma plan_neighbors_same: "same_files d d' \<Longrightarrow> plan_neighbors st q d' p = plan_neighbors st q d p"
  by (simp add: plan_neighbors_def same_files_content)

lemma reads_done_same: "same_files d d' \<Longrightarrow> reads_done st q d' ps = reads_done st q d ps"
  by (simp add: reads_done_def plan_neighbors_same [of d d'] cong: map_cong)

definition readable_valid :: "record_store \<Rightarrow> refine_query \<Rightarrow> disk \<Rightarrow> read_plan \<Rightarrow> bool" where
  "readable_valid st q d p \<longleftrightarrow> readable st d p \<and> plan_valid st q d p"

lemma readable_valid_same: "same_files d d' \<Longrightarrow> readable_valid st q d' p = readable_valid st q d p"
  by (simp add: readable_valid_def readable_def plan_valid_def same_files_content plan_neighbors_same [of d d'])

definition batch_ok :: "record_store \<Rightarrow> u32 list \<Rightarrow> read_plan list \<Rightarrow> bool" where
  "batch_ok st ls ps \<longleftrightarrow> sorted_wrt (<) ls \<and> (\<forall>p \<in> set ps. read_plan_ok st p \<and> rp_list p \<in> set ls)"

lemma blocking_read_result:
  assumes st: "store_ok st" and k: "0 < rq_topk q" and b: "batch_ok st ls ps" "p \<in> set ps"
    and w: "working q v T (heap, stats)"
    and run: "blocking_read st q (batch_files st ls) p (capacity, heap, stats) d = (r, d')"
  shows "same_files d d'
    \<and> (\<forall>c s. r = Inr (c, s) \<longrightarrow> working q v (T + plan_neighbors st q d p) s \<and> rs_peak (snd s) = max (rs_peak stats) 1)
    \<and> (smooth d \<and> readable_valid st q d p \<longrightarrow> (\<exists>c s. r = Inr (c, s)) \<and> smooth d')"
proof -
  have p: "read_plan_ok st p" and l: "rp_list p \<in> set ls" and srt: "sorted_wrt (<) ls" using b by (auto simp: batch_ok_def)
  let ?path = "path_of st (rp_list p)"
  let ?s = "(heap, account_request p (stats\<lparr>rs_peak := max (rs_peak stats) 1\<rparr>))"
  obtain x d1 where x: "pread_once ?path (rp_offset p) (rp_bytes p) d = (x, d1)" by fastforce
  note one = pread_once_result [OF x]
  have w': "working q v T ?s" using w by (simp add: working_def)
  obtain c where run': "io_bind (pread_once ?path (rp_offset p) (rp_bytes p)) (\<lambda>buf.
        if length buf \<noteq> rp_bytes p then io_throw (Runtime_error ''short read from list file'')
        else io_bind (io_lift (process_plan st q buf p ?s)) (\<lambda>s. io_return (c, s))) d = (r, d')"
  proof (cases "capacity < rp_bytes p")
    case True
    then show thesis using run that [of "rp_bytes p"]
      by (simp add: blocking_read_def plan_buffer_ok [OF st p] descriptor_for_batch [OF srt l])
  next
    case False
    then show thesis using run that [of capacity] by (simp add: blocking_read_def descriptor_for_batch [OF srt l])
  qed
  show ?thesis
  proof (cases x)
    case (Inl e)
    then show ?thesis using run' x one by auto
  next
    case (Inr buf)
    show ?thesis
    proof (cases "length buf = rp_bytes p")
      case False
      then have "\<not> (smooth d \<and> readable_valid st q d p)"
        using one Inr readable_length [of st d p] by (auto simp: readable_valid_def)
      then show ?thesis using run' x Inr False one by auto
    next
      case len: True
      then have buf: "buf = segment (content d ?path) (rp_offset p) (rp_bytes p)" using one Inr by blast
      note pp = process_plan_working [OF st k p buf len w']
      have fin: "(case process_plan st q buf p ?s of Inl e \<Rightarrow> (Inl e, d1) | Inr s \<Rightarrow> (Inr (c, s), d1)) = (r, d')"
        using run' x Inr len by (cases "process_plan st q buf p ?s") simp_all
      show ?thesis
      proof (cases "process_plan st q buf p ?s")
        case (Inl e)
        then show ?thesis using fin pp(2) one by (auto simp: readable_valid_def)
      next
        case (Inr s)
        then show ?thesis using fin pp(1) [OF Inr] one by auto
      qed
    qed
  qed
qed

lemma blocking_reads_result:
  assumes st: "store_ok st" and k: "0 < rq_topk q" and "batch_ok st ls ps" and "working q v T (heap, stats)"
    and "io_fold (blocking_read st q (batch_files st ls)) ps (capacity, heap, stats) d = (r, d')"
  shows "same_files d d'
    \<and> (\<forall>c s. r = Inr (c, s) \<longrightarrow> working q v (T + reads_done st q d ps) s \<and> rs_peak (snd s) \<le> max (rs_peak stats) 1)
    \<and> (smooth d \<and> (\<forall>p \<in> set ps. readable_valid st q d p) \<longrightarrow> (\<exists>c s. r = Inr (c, s)) \<and> smooth d')"
  using assms(3-5)
proof (induction ps arbitrary: T heap stats capacity d)
  case (Cons p ps)
  obtain x d1 where x: "blocking_read st q (batch_files st ls) p (capacity, heap, stats) d = (x, d1)" by fastforce
  note one = blocking_read_result [OF st k Cons.prems(1) _ Cons.prems(2) x, simplified]
  have b: "batch_ok st ls ps" using Cons.prems(1) by (simp add: batch_ok_def)
  show ?case
  proof (cases x)
    case (Inl e)
    then show ?thesis using Cons.prems(3) x one by auto
  next
    case (Inr y)
    obtain c1 h1 s1 where y: "y = (c1, h1, s1)" by (metis prod_cases3)
    have same: "same_files d d1" and w: "working q v (T + plan_neighbors st q d p) (h1, s1)" and pk: "rs_peak s1 = max (rs_peak stats) 1"
      and sm: "smooth d \<Longrightarrow> readable_valid st q d p \<Longrightarrow> smooth d1" using one Inr y by auto
    have rest: "io_fold (blocking_read st q (batch_files st ls)) ps (c1, h1, s1) d1 = (r, d')" using Cons.prems(3) x Inr y by simp
    note IH = Cons.IH [OF b w rest, unfolded reads_done_same [OF same] readable_valid_same [OF same]]
    show ?thesis using IH same_files_trans [OF same, of d'] sm pk by (auto simp: add.assoc)
  qed
qed (auto simp: io_return_def)

lemma refine_blocking_result:
  assumes st: "store_ok st" and k: "0 < rq_topk q" and b: "batch_ok st ls ps" and w: "working q v T s"
    and run: "refine_blocking st q (batch_files st ls) ps s d = (r, d')"
  shows "same_files d d'
    \<and> (\<forall>s'. r = Inr s' \<longrightarrow> working q v (T + reads_done st q d ps) s' \<and> rs_peak (snd s') \<le> max (rs_peak (snd s)) 1)
    \<and> (smooth d \<and> (\<forall>p \<in> set ps. readable_valid st q d p) \<longrightarrow> (\<exists>s'. r = Inr s') \<and> smooth d')"
proof -
  obtain x d1 where x: "io_fold (blocking_read st q (batch_files st ls)) ps (page_size st, s) d = (x, d1)" by fastforce
  then have x': "io_fold (blocking_read st q (batch_files st ls)) ps (page_size st, fst s, snd s) d = (x, d1)" by simp
  have w': "working q v T (fst s, snd s)" using w by simp
  note one = blocking_reads_result [OF st k b w' x']
  show ?thesis using one run x by (cases x) (auto simp: refine_blocking_def store_buffer_ok [OF st])
qed

end
