(* ===== verification/Refine_Aio.thy ===== *)
theory Refine_Aio
  imports Refine_Read
begin

text \<open>
  The reader with several asynchronous reads in flight. Its invariant says that the requests in flight
  use different buffers, each large enough for its read, and that together with the processed reads
  they make up the plans taken so far; it holds for every order in which the kernel completes requests.
\<close>

section \<open>The requests in flight\<close>

definition request_of :: "record_store \<Rightarrow> read_plan list \<Rightarrow> aio_slot list \<Rightarrow> nat \<Rightarrow> aio_request" where
  "request_of st plans slots i = (let p = plans ! as_plan (slots ! i)
    in \<lparr>ar_slot = i, ar_path = path_of st (rp_list p), ar_offset = rp_offset p, ar_bytes = rp_bytes p\<rparr>)"

definition request_ok :: "record_store \<Rightarrow> read_plan list \<Rightarrow> aio_slot list \<Rightarrow> nat \<Rightarrow> aio_request \<Rightarrow> bool" where
  "request_ok st plans slots next_plan r \<longleftrightarrow> ar_slot r < length slots \<and> as_plan (slots ! ar_slot r) < next_plan
    \<and> ar_bytes r \<le> as_capacity (slots ! ar_slot r) \<and> r = request_of st plans slots (ar_slot r)"

definition slot_neighbors :: "record_store \<Rightarrow> refine_query \<Rightarrow> disk \<Rightarrow> read_plan list \<Rightarrow> aio_slot list \<Rightarrow> nat \<Rightarrow> neighbor multiset" where
  "slot_neighbors st q d plans slots i = plan_neighbors st q d (plans ! as_plan (slots ! i))"

definition pending_ok :: "record_store \<Rightarrow> read_plan list \<Rightarrow> aio_slot list \<Rightarrow> nat \<Rightarrow> aio_request list \<Rightarrow> bool" where
  "pending_ok st plans slots next_plan P \<longleftrightarrow> distinct (map ar_slot P) \<and> (\<forall>r \<in> set P. request_ok st plans slots next_plan r)"

definition aio_inv :: "record_store \<Rightarrow> refine_query \<Rightarrow> disk \<Rightarrow> read_plan list \<Rightarrow> nat \<Rightarrow> u64 \<Rightarrow> neighbor multiset
    \<Rightarrow> aio_slot list \<Rightarrow> nat \<Rightarrow> aio_request list \<Rightarrow> refine_state \<Rightarrow> bool" where
  "aio_inv st q d plans queue_depth v S slots next_plan P s \<longleftrightarrow>
    length slots = queue_depth \<and> next_plan \<le> length plans \<and> (next_plan < length plans \<longrightarrow> P \<noteq> [])
    \<and> pending_ok st plans slots next_plan P
    \<and> (\<exists>T. working q v T s \<and> T + sum_list (map (slot_neighbors st q d plans slots \<circ> ar_slot) P)
        = S + reads_done st q d (take next_plan plans))"

lemma pending_ok_perm: "mset P' = mset P \<Longrightarrow> pending_ok st plans slots n P' = pending_ok st plans slots n P"
  unfolding pending_ok_def by (metis mset_eq_imp_distinct_iff mset_eq_setD mset_map)

lemma aio_inv_perm:
  assumes "mset P' = mset P"
  shows "aio_inv st q d plans n v S slots next_plan P' s = aio_inv st q d plans n v S slots next_plan P s"
proof -
  have "sum_list (map f P') = sum_list (map f P)" for f :: "aio_request \<Rightarrow> neighbor multiset"
    by (metis assms mset_map sum_mset_sum_list)
  moreover have "P' = [] \<longleftrightarrow> P = []" using assms by (metis mset_zero_iff)
  ultimately show ?thesis by (simp add: aio_inv_def pending_ok_perm [OF assms])
qed

text \<open>There are never more requests in flight than slots.\<close>

lemma pending_length: "pending_ok st plans slots n P \<Longrightarrow> length P \<le> length slots"
proof -
  assume ok: "pending_ok st plans slots n P"
  then have "set (map ar_slot P) \<subseteq> {..<length slots}" by (auto simp: pending_ok_def request_ok_def)
  then have "card (set (map ar_slot P)) \<le> card {..<length slots}" by (rule card_mono [OF finite_lessThan])
  moreover have "card (set (map ar_slot P)) = length P" using ok by (metis pending_ok_def distinct_card length_map)
  ultimately show "length P \<le> length slots" by simp
qed

text \<open>A slot that no pending request uses can take the next plan.\<close>

lemma prepare_aio_result:
  assumes st: "store_ok st" and b: "batch_ok st ls plans" and i: "i < length slots" and j: "j < length plans"
    and ok: "pending_ok st plans slots j P" and free: "i \<notin> ar_slot ` set P"
  obtains r slots' where "prepare_aio st (batch_files st ls) plans i j slots = Inr (r, slots')"
    and "length slots' = length slots" and "pending_ok st plans slots' (j + 1) (P @ [r])"
    and "map (slot_neighbors st q d plans slots' \<circ> ar_slot) (P @ [r])
      = map (slot_neighbors st q d plans slots \<circ> ar_slot) P @ [plan_neighbors st q d (plans ! j)]"
proof -
  let ?p = "plans ! j"
  have p: "read_plan_ok st ?p" and l: "rp_list ?p \<in> set ls" and srt: "sorted_wrt (<) ls" using b j by (auto simp: batch_ok_def)
  let ?slot = "\<lparr>as_capacity = max (as_capacity (slots ! i)) (rp_bytes ?p), as_plan = j\<rparr>"
  let ?r = "\<lparr>ar_slot = i, ar_path = path_of st (rp_list ?p), ar_offset = rp_offset ?p, ar_bytes = rp_bytes ?p\<rparr>"
  have keep: "slots[i := ?slot] ! ar_slot x = slots ! ar_slot x" if "x \<in> set P" for x using free that by (metis image_eqI nth_list_update_neq)
  show thesis
  proof (rule that [of ?r "slots[i := ?slot]"])
    show "prepare_aio st (batch_files st ls) plans i j slots = Inr (?r, slots[i := ?slot])"
      by (cases "as_capacity (slots ! i) \<ge> rp_bytes ?p")
        (simp_all add: prepare_aio_def Let_def descriptor_for_batch [OF srt l] plan_buffer_ok [OF st p] max_def)
    have "request_ok st plans (slots[i := ?slot]) (j + 1) x" if "x \<in> set P" for x
      using ok that keep [OF that] by (auto simp: pending_ok_def request_ok_def request_of_def)
    moreover have "request_ok st plans (slots[i := ?slot]) (j + 1) ?r"
      using i by (simp add: request_ok_def request_of_def Let_def)
    ultimately show "pending_ok st plans (slots[i := ?slot]) (j + 1) (P @ [?r])"
      using ok free by (auto simp: pending_ok_def)
    show "map (slot_neighbors st q d plans (slots[i := ?slot]) \<circ> ar_slot) (P @ [?r])
      = map (slot_neighbors st q d plans slots \<circ> ar_slot) P @ [plan_neighbors st q d ?p]"
      using i keep by (simp add: slot_neighbors_def)
  qed simp
qed

section \<open>Completions\<close>

lemma aio_event_bytes:
  "aio_event_of d r w = (i, Aio_bytes buf) \<Longrightarrow> length buf = ar_bytes r \<Longrightarrow> buf = segment (content d (ar_path r)) (ar_offset r) (ar_bytes r)"
  by (auto simp: aio_event_of_def Let_def segment_def split: aio_outcome.splits)

lemma complete_some_result:
  assumes "complete_some d picks pending = (es, left)"
  shows "\<exists>rs. mset pending = mset (rs @ left) \<and> list_all2 (\<lambda>r e. \<exists>w \<in> snd ` set picks. e = aio_event_of d r w) rs es
    \<and> (picks \<noteq> [] \<and> pending \<noteq> [] \<longrightarrow> es \<noteq> [])"
  using assms
proof (induction d picks pending arbitrary: es left rule: complete_some.induct)
  case (1 d pending)
  then show ?case by (auto intro: exI [of _ "[]"])
next
  case (2 d i w picks pending)
  show ?case
  proof (cases "pending = []")
    case True
    then show ?thesis using 2 by auto
  next
    case False
    define j where "j = i mod length pending"
    obtain es' where run: "complete_some d picks (take j pending @ drop (Suc j) pending) = (es', left)"
      and es: "es = aio_event_of d (pending ! j) w # es'" using 2(2) False by (auto simp: j_def Let_def split: prod.splits)
    have j: "j < length pending" using False by (simp add: j_def)
    obtain rs where rs: "mset (take j pending @ drop (Suc j) pending) = mset (rs @ left)"
      "list_all2 (\<lambda>r e. \<exists>w \<in> snd ` set picks. e = aio_event_of d r w) rs es'"
      using "2.IH" [OF False j_def run] by blast
    have "mset pending = mset (take j pending @ pending ! j # drop (Suc j) pending)" using j by (simp only: id_take_nth_drop [symmetric])
    also have "\<dots> = add_mset (pending ! j) (mset (take j pending @ drop (Suc j) pending))" by simp
    also have "\<dots> = mset ((pending ! j # rs) @ left)" unfolding rs(1) by simp
    finally have m: "mset pending = mset ((pending ! j # rs) @ left)" .
    have "list_all2 (\<lambda>r e. \<exists>w \<in> snd ` set ((i, w) # picks). e = aio_event_of d r w) rs es'"
      using rs(2) by (rule list_all2_mono) auto
    then show ?thesis using m es by (intro exI [of _ "pending ! j # rs"]) auto
  qed
qed

text \<open>One completion of a request in flight.\<close>

lemma aio_complete_result:
  assumes st: "store_ok st" and k: "0 < rq_topk q" and b: "batch_ok st ls plans"
    and inv: "aio_inv st q d plans n v S slots next_plan (r # P) s" and e: "e = aio_event_of d r w"
  shows "aio_complete st q (batch_files st ls) plans e (slots, next_plan, subs, inflight, s) = Inr (slots', next', subs', inflight', s') \<Longrightarrow>
      \<exists>new. subs' = subs @ new \<and> aio_inv st q d plans n v S slots' next' (P @ new) s' \<and> rs_peak (snd s') = rs_peak (snd s)"
    and "w = Full \<Longrightarrow> \<forall>p \<in> set plans. readable_valid st q d p \<Longrightarrow>
      \<exists>x. aio_complete st q (batch_files st ls) plans e (slots, next_plan, subs, inflight, s) = Inr x"
proof -
  let ?i = "ar_slot r"
  let ?p = "plans ! as_plan (slots ! ?i)"
  obtain T where inv': "length slots = n" "next_plan \<le> length plans" "pending_ok st plans slots next_plan (r # P)"
    "working q v T s" "T + (plan_neighbors st q d ?p + sum_list (map (slot_neighbors st q d plans slots \<circ> ar_slot) P))
        = S + reads_done st q d (take next_plan plans)"
    using inv unfolding aio_inv_def by (auto simp: slot_neighbors_def)
  have r: "?i < length slots" "as_plan (slots ! ?i) < next_plan" "r = request_of st plans slots ?i"
    and P: "pending_ok st plans slots next_plan P" "?i \<notin> ar_slot ` set P" using inv'(3) by (auto simp: pending_ok_def request_ok_def)
  have req: "ar_bytes r = rp_bytes ?p" "ar_offset r = rp_offset ?p" "ar_path r = path_of st (rp_list ?p)"
    using r(3) by (metis request_of_def aio_request.select_convs)+
  have in_plans: "?p \<in> set plans" using r(2) inv'(2) by simp
  have p: "read_plan_ok st ?p" using b in_plans by (simp add: batch_ok_def)
  note pp = process_plan_working [OF st k p _ _ inv'(4), of _ d]
  have step: "aio_complete st q (batch_files st ls) plans (Some ?i, Aio_bytes buf) (slots, next_plan, subs, inflight, s)
    = (if length buf \<noteq> rp_bytes ?p then Inl (Runtime_error ''short O_DIRECT read from list file'')
       else res_bind (process_plan st q buf ?p s) (\<lambda>s'.
         if next_plan < length plans
         then res_bind (prepare_aio st (batch_files st ls) plans ?i next_plan slots) (\<lambda>(r, slots'). Inr (slots', next_plan + 1, subs @ [r], inflight - 1, s'))
         else Inr (slots, next_plan, subs, inflight - 1, s')))" for buf
    by (simp add: aio_complete_def Let_def)
  show "\<exists>new. subs' = subs @ new \<and> aio_inv st q d plans n v S slots' next' (P @ new) s' \<and> rs_peak (snd s') = rs_peak (snd s)"
    if run: "aio_complete st q (batch_files st ls) plans e (slots, next_plan, subs, inflight, s) = Inr (slots', next', subs', inflight', s')"
  proof -
    obtain buf where ev: "e = (Some ?i, Aio_bytes buf)" using run by (auto simp: aio_complete_def e aio_event_of_def Let_def split: aio_outcome.splits if_splits)
    have len: "length buf = rp_bytes ?p" using run unfolding ev step by (auto split: if_splits)
    have buf: "buf = segment (content d (path_of st (rp_list ?p))) (rp_offset ?p) (rp_bytes ?p)"
      using aio_event_bytes [of d r w "Some ?i" buf] ev e len req by simp
    obtain s1 where s1: "process_plan st q buf ?p s = Inr s1" using run unfolding ev step by (cases "process_plan st q buf ?p s") (auto split: if_splits)
    note w1 = pp(1) [OF buf len s1]
    show ?thesis
    proof (cases "next_plan < length plans")
      case True
      obtain r' slots1 where pre: "prepare_aio st (batch_files st ls) plans ?i next_plan slots = Inr (r', slots1)"
        "length slots1 = length slots" "pending_ok st plans slots1 (next_plan + 1) (P @ [r'])"
        "map (slot_neighbors st q d plans slots1 \<circ> ar_slot) (P @ [r'])
          = map (slot_neighbors st q d plans slots \<circ> ar_slot) P @ [plan_neighbors st q d (plans ! next_plan)]"
        by (rule prepare_aio_result [OF st b r(1) True P])
      have out: "slots' = slots1" "next' = next_plan + 1" "subs' = subs @ [r']" "s' = s1"
        using run unfolding ev step by (simp_all add: len s1 True pre(1))
      have "T + plan_neighbors st q d ?p + sum_list (map (slot_neighbors st q d plans slots1 \<circ> ar_slot) (P @ [r']))
          = S + reads_done st q d (take (next_plan + 1) plans)"
        unfolding pre(4) using inv'(5) True by (simp add: take_Suc_conv_app_nth add.assoc)
      then have "aio_inv st q d plans n v S slots1 (next_plan + 1) (P @ [r']) s1"
        using w1 pre(2,3) inv'(1) True unfolding aio_inv_def by auto
      then show ?thesis using out w1 by auto
    next
      case False
      have out: "slots' = slots" "next' = next_plan" "subs' = subs" "s' = s1"
        using run unfolding ev step by (simp_all add: len s1 False)
      have "aio_inv st q d plans n v S slots next_plan P s1"
        using w1 inv'(1,2,5) P(1) False unfolding aio_inv_def by (auto simp: add.assoc)
      then show ?thesis using out w1 by auto
    qed
  qed
  show "\<exists>x. aio_complete st q (batch_files st ls) plans e (slots, next_plan, subs, inflight, s) = Inr x"
    if "w = Full" and all: "\<forall>p \<in> set plans. readable_valid st q d p"
  proof -
    let ?buf = "segment (content d (path_of st (rp_list ?p))) (rp_offset ?p) (rp_bytes ?p)"
    have ev: "e = (Some ?i, Aio_bytes ?buf)" using that(1) by (simp add: e aio_event_of_def req)
    have len: "length ?buf = rp_bytes ?p" and val: "plan_valid st q d ?p"
      using all in_plans readable_length [of st d ?p] by (auto simp: readable_valid_def)
    obtain s1 where "process_plan st q ?buf ?p s = Inr s1" using pp(2) [OF refl len val] by blast
    moreover have "\<exists>x. prepare_aio st (batch_files st ls) plans ?i next_plan slots = Inr x" if "next_plan < length plans"
      by (rule prepare_aio_result [OF st b r(1) that P]) blast
    ultimately show ?thesis unfolding ev step using len by (cases "next_plan < length plans") auto
  qed
qed

text \<open>All completions of one call.\<close>

lemma aio_completes_result:
  assumes st: "store_ok st" and k: "0 < rq_topk q" and b: "batch_ok st ls plans"
    and "list_all2 (\<lambda>r e. \<exists>w \<in> W. e = aio_event_of d r w) rs es"
    and "aio_inv st q d plans n v S slots next_plan (rs @ P) s"
  shows "(\<forall>slots' next' subs' inflight' s'.
        res_fold (aio_complete st q (batch_files st ls) plans) es (slots, next_plan, subs, inflight, s) = Inr (slots', next', subs', inflight', s') \<longrightarrow>
        (\<exists>new. subs' = subs @ new \<and> aio_inv st q d plans n v S slots' next' (P @ new) s' \<and> rs_peak (snd s') = rs_peak (snd s)))
    \<and> (W \<subseteq> {Full} \<and> (\<forall>p \<in> set plans. readable_valid st q d p) \<longrightarrow>
        (\<exists>x. res_fold (aio_complete st q (batch_files st ls) plans) es (slots, next_plan, subs, inflight, s) = Inr x))"
  using assms(4,5)
proof (induction rs es arbitrary: slots next_plan subs inflight s P rule: list_all2_induct)
  case Nil
  then show ?case by auto
next
  case (Cons r rs e es)
  obtain w where w: "w \<in> W" "e = aio_event_of d r w" using Cons.hyps by blast
  have inv: "aio_inv st q d plans n v S slots next_plan (r # rs @ P) s" using Cons.prems by simp
  note one = aio_complete_result [OF st k b inv w(2), of subs inflight]
  show ?case
  proof (cases "aio_complete st q (batch_files st ls) plans e (slots, next_plan, subs, inflight, s)")
    case (Inl x)
    then show ?thesis using one(2) w(1) by auto
  next
    case (Inr x)
    obtain slots1 next1 subs1 inflight1 s1 where x: "x = (slots1, next1, subs1, inflight1, s1)" by (metis prod_cases5)
    obtain new where new: "subs1 = subs @ new" "aio_inv st q d plans n v S slots1 next1 (rs @ P @ new) s1" "rs_peak (snd s1) = rs_peak (snd s)"
      using one(1) [OF Inr [unfolded x]] by auto
    show ?thesis using Cons.IH [OF new(2), of subs1 inflight1] new(1,3) Inr x by auto
  qed
qed

section \<open>Submissions\<close>

text \<open>A kernel that accepts requests, and reads all that is asked.\<close>

definition steady :: "aio_kernel \<Rightarrow> bool" where
  "steady k \<longleftrightarrow> set (ak_setups k) \<subseteq> {None} \<and> (\<forall>x \<in> set (ak_submits k). \<exists>n > 0. x = Accept n)
    \<and> (\<forall>x \<in> set (ak_waits k). x = Wait_eintr \<or> (\<exists>picks. x = Ready picks \<and> picks \<noteq> [] \<and> snd ` set picks \<subseteq> {Full}))"

lemma io_submit_result:
  assumes "io_submit rs k = (x, k')"
  shows "ak_context k' = ak_context k" and "x = Inr n \<Longrightarrow> ak_pending k' = ak_pending k @ take n rs \<and> n \<le> length rs"
    and "steady k \<Longrightarrow> steady k' \<and> (rs \<noteq> [] \<longrightarrow> (\<exists>n > 0. x = Inr n))"
  using assms by (auto simp: io_submit_def steady_def min_def split: list.splits aio_submit.splits if_splits)

lemma account_requests_same [simp]:
  "rs_vectors (fold (\<lambda>r. account_request (f r)) rs s) = rs_vectors s" "rs_peak (fold (\<lambda>r. account_request (f r)) rs s) = rs_peak s"
  by (induction rs arbitrary: s) simp_all

lemma submit_requests_result:
  assumes "submit_requests plans slots rs stats k = (x, k')"
  shows "ak_context k' = ak_context k
    \<and> (\<forall>stats'. x = Inr stats' \<longrightarrow> ak_pending k' = ak_pending k @ rs \<and> rs_vectors stats' = rs_vectors stats \<and> rs_peak stats' = rs_peak stats)
    \<and> (steady k \<longrightarrow> steady k' \<and> (\<exists>stats'. x = Inr stats'))"
  using assms
proof (induction plans slots rs stats k rule: submit_requests.induct)
  case (1 plans slots rs stats k)
  note step = "1.prems" [unfolded submit_requests.simps [of plans slots rs stats k]]
  show ?case
  proof (cases "rs = []")
    case True
    then show ?thesis using step by auto
  next
    case ne: False
    obtain y k1 where y: "io_submit rs k = (y, k1)" by fastforce
    note one = io_submit_result [OF y]
    show ?thesis
    proof (cases y)
      case (Inl e)
      then show ?thesis using step ne y one by auto
    next
      case (Inr n)
      show ?thesis
      proof (cases "n = 0")
        case True
        then show ?thesis using step ne y one Inr by auto
      next
        case pos: False
        have "submit_requests plans slots (drop n rs) (fold (\<lambda>r. account_request (plans ! as_plan (slots ! ar_slot r))) (take n rs) stats) k1 = (x, k')"
          using step ne y Inr pos by simp
        note IH = "1.IH" [OF ne y [symmetric] Inr pos this]
        have "ak_pending k1 @ drop n rs = ak_pending k @ rs" using one(2) [OF Inr] by simp
        note IH' = IH [unfolded this account_requests_same one(1)]
        show ?thesis using IH' one(3) by blast
      qed
    qed
  qed
qed

section \<open>The loop\<close>

lemma io_getevents_result:
  assumes "io_getevents n d k = (x, k')"
  shows "ak_context k' = ak_context k" and "\<forall>es. x \<noteq> Events es \<Longrightarrow> ak_pending k' = ak_pending k"
    and "x = Events es \<Longrightarrow> \<exists>picks. complete_some d picks (ak_pending k) = (es, ak_pending k')
      \<and> (steady k \<and> 0 < n \<longrightarrow> picks \<noteq> [] \<and> snd ` set picks \<subseteq> {Full})"
    and "steady k \<Longrightarrow> steady k' \<and> (\<forall>e. x \<noteq> Failed e)"
proof -
  have sub: "snd ` set (take n picks) \<subseteq> snd ` set picks" for picks :: "(nat \<times> aio_outcome) list"
    by (intro image_mono set_take_subset)
  show "ak_context k' = ak_context k" "\<forall>es. x \<noteq> Events es \<Longrightarrow> ak_pending k' = ak_pending k" "steady k \<Longrightarrow> steady k' \<and> (\<forall>e. x \<noteq> Failed e)"
    using assms by (auto simp: io_getevents_def steady_def split: list.splits aio_wait.splits prod.splits)
  show "\<exists>picks. complete_some d picks (ak_pending k) = (es, ak_pending k') \<and> (steady k \<and> 0 < n \<longrightarrow> picks \<noteq> [] \<and> snd ` set picks \<subseteq> {Full})"
    if x: "x = Events es"
  proof (cases "ak_waits k")
    case Nil
    then show ?thesis using assms x
      by (intro exI [of _ "take n [(0, Full)]"]) (auto simp: io_getevents_def take_Cons' split: prod.splits)
  next
    case (Cons a script)
    then obtain picks where a: "a = Ready picks" using assms x by (cases a) (auto simp: io_getevents_def)
    have "complete_some d (take n picks) (ak_pending k) = (es, ak_pending k')"
      using assms x Cons a by (auto simp: io_getevents_def split: prod.splits)
    moreover have "take n picks \<noteq> [] \<and> snd ` set (take n picks) \<subseteq> {Full}" if "steady k" "0 < n"
    proof -
      have "picks \<noteq> []" "snd ` set picks \<subseteq> {Full}" using that(1) Cons a by (auto simp: steady_def)
      then show ?thesis using that(2) sub [of picks] by auto
    qed
    ultimately show ?thesis by blast
  qed
qed

lemma aio_loop_result:
  assumes st: "store_ok st" and k: "0 < rq_topk q" and b: "batch_ok st ls plans" and n: "0 < n"
    and "aio_loop st q (batch_files st ls) plans n d slots next_plan inflight s kern = (r, kern')"
    and "aio_inv st q d plans n v S slots next_plan (ak_pending kern) s" and "inflight = length (ak_pending kern)"
    and "rs_peak (snd s) \<le> m" and "n \<le> m"
  shows "ak_context kern' = ak_context kern
    \<and> (\<forall>s'. r = Inr s' \<longrightarrow> working q v (S + reads_done st q d plans) s' \<and> ak_pending kern' = [] \<and> rs_peak (snd s') \<le> m)
    \<and> (steady kern \<and> (\<forall>p \<in> set plans. readable_valid st q d p) \<longrightarrow> (\<exists>s'. r = Inr s') \<and> steady kern')"
  using assms
proof (induction st q "batch_files st ls" plans n d slots next_plan inflight s kern rule: aio_loop.induct)
  case (1 st q plans n d slots next_plan inflight s kern)
  note st = "1.prems"(1) and k = "1.prems"(2) and b = "1.prems"(3) and n = "1.prems"(4)
    and step = "1.prems"(5) [unfolded aio_loop.simps [of st q _ plans n d slots next_plan inflight s kern]]
    and inv = "1.prems"(6) and infl = "1.prems"(7) and pk = "1.prems"(8) and m = "1.prems"(9)
  show ?case
  proof (cases "inflight = 0")
    case True
    then have "(r, kern') = (Inr s, kern)" and P: "ak_pending kern = []" using step infl by simp_all
    moreover have "working q v (S + reads_done st q d plans) s" using inv P by (auto simp: aio_inv_def)
    ultimately show ?thesis using pk by auto
  next
    case go: False
    obtain x k1 where x: "io_getevents n d kern = (x, k1)" by fastforce
    note ev = io_getevents_result [OF x]
    show ?thesis
    proof (cases x)
      case Interrupted
      then have p1: "ak_pending k1 = ak_pending kern" using ev(2) by simp
      have run: "aio_loop st q (batch_files st ls) plans n d slots next_plan inflight s k1 = (r, kern')" using step go x Interrupted by simp
      show ?thesis using "1.hyps"(3) [OF go x [symmetric] Interrupted st k b n run, unfolded p1 ev(1)] inv infl pk m ev(4) by blast
    next
      case (Failed e)
      then show ?thesis using step go x ev(1,4) by auto
    next
      case (Events es)
      obtain picks where picks: "complete_some d picks (ak_pending kern) = (es, ak_pending k1)"
        "steady kern \<Longrightarrow> picks \<noteq> [] \<and> snd ` set picks \<subseteq> {Full}" using ev(3) [OF Events] n by blast
      obtain rs where rs: "mset (ak_pending kern) = mset (rs @ ak_pending k1)"
        "list_all2 (\<lambda>r e. \<exists>w \<in> snd ` set picks. e = aio_event_of d r w) rs es" "picks \<noteq> [] \<and> ak_pending kern \<noteq> [] \<Longrightarrow> es \<noteq> []"
        using complete_some_result [OF picks(1)] by blast
      have inv1: "aio_inv st q d plans n v S slots next_plan (rs @ ak_pending k1) s" using inv aio_inv_perm [OF rs(1) [symmetric]] by simp
      show ?thesis
      proof (cases "es = []")
        case True
        then have "\<not> steady kern" using rs(3) picks(2) infl go by auto
        then show ?thesis using step go x Events True ev(1) by auto
      next
        case ne: False
        note comp = aio_completes_result [OF st k b rs(2) inv1, of "[]" inflight]
        show ?thesis
        proof (cases "res_fold (aio_complete st q (batch_files st ls) plans) es (slots, next_plan, [], inflight, s)")
          case (Inl e)
          then have "\<not> (steady kern \<and> (\<forall>p \<in> set plans. readable_valid st q d p))" using comp picks(2) by auto
          then show ?thesis using step go x Events ne Inl ev(1) by auto
        next
          case (Inr y)
          obtain slots1 next1 subs inflight1 s1 where y: "y = (slots1, next1, subs, inflight1, s1)" by (metis prod_cases5)
          have inv2: "aio_inv st q d plans n v S slots1 next1 (ak_pending k1 @ subs) s1" and pk1: "rs_peak (snd s1) = rs_peak (snd s)"
            using comp Inr y by (cases s1; auto)+
          have "inflight1 = inflight - length es" using aio_completes_counts [OF Inr [unfolded y]] by simp
          moreover have "length rs = length es" using rs(2) by (rule list_all2_lengthD)
          moreover have "length (ak_pending kern) = length rs + length (ak_pending k1)" using arg_cong [OF rs(1), of size] by simp
          ultimately have infl1: "inflight1 = length (ak_pending k1)" using infl by simp
          show ?thesis
          proof (cases "subs = []")
            case True
            have run: "aio_loop st q (batch_files st ls) plans n d slots1 next1 inflight1 s1 k1 = (r, kern')"
              using step go x Events ne Inr y True by simp
            have "rs_peak (snd s1) \<le> m" using pk pk1 by simp
            then show ?thesis
              using "1.hyps"(1) [OF go x [symmetric] Events ne Inr y [symmetric] refl refl refl True st k b n run] inv2 True infl1 m ev(1,4) by auto
          next
            case subs: False
            obtain z k2 where z: "submit_requests plans slots1 subs (snd s1) k1 = (z, k2)" by fastforce
            note sub = submit_requests_result [OF z]
            show ?thesis
            proof (cases z)
              case (Inl e)
              then have "\<not> steady kern" using sub ev(4) by auto
              then show ?thesis using step go x Events ne Inr y subs z Inl ev(1) sub by auto
            next
              case stats: (Inr stats)
              let ?s = "(fst s1, stats\<lparr>rs_peak := max (rs_peak stats) (inflight1 + length subs)\<rparr>)"
              have run: "aio_loop st q (batch_files st ls) plans n d slots1 next1 (inflight1 + length subs) ?s k2 = (r, kern')"
                using step go x Events ne Inr y subs z stats by simp
              have p2: "ak_pending k2 = ak_pending k1 @ subs" and st2: "rs_vectors stats = rs_vectors (snd s1)" "rs_peak stats = rs_peak (snd s1)"
                using sub stats by auto
              have inv3: "aio_inv st q d plans n v S slots1 next1 (ak_pending k2) ?s"
                using inv2 st2 unfolding p2 aio_inv_def working_def by auto
              have "length (ak_pending k1 @ subs) \<le> n" using pending_length inv2 unfolding aio_inv_def by metis
              then have pk2: "rs_peak (snd ?s) \<le> m" using pk pk1 st2 m infl1 by simp
              have len2: "inflight1 + length subs = length (ak_pending k2)" using infl1 p2 by simp
              show ?thesis
                using "1.hyps"(2) [OF go x [symmetric] Events ne Inr y [symmetric] refl refl refl subs z [symmetric] stats st k b n run inv3 len2 pk2 m] sub ev(1,4)
                by auto
            qed
          qed
        qed
      qed
    qed
  qed
qed

section \<open>The whole reader\<close>

lemma prepare_first_result:
  assumes st: "store_ok st" and b: "batch_ok st ls plans" and "m \<le> length slots0" and "m \<le> length plans"
  shows "\<exists>rs slots. res_fold (prepare_first st (batch_files st ls) plans) [0..<m] ([], slots0) = Inr (rs, slots)
    \<and> length slots = length slots0 \<and> map ar_slot rs = [0..<m] \<and> pending_ok st plans slots m rs
    \<and> map (slot_neighbors st q d plans slots \<circ> ar_slot) rs = map (plan_neighbors st q d) (take m plans)"
  using assms(3,4)
proof (induction m)
  case 0
  then show ?case by (simp add: pending_ok_def)
next
  case (Suc m)
  have "m \<le> length slots0" "m \<le> length plans" using Suc.prems by simp_all
  from Suc.IH [OF this] obtain rs slots where IH: "res_fold (prepare_first st (batch_files st ls) plans) [0..<m] ([], slots0) = Inr (rs, slots)"
    "length slots = length slots0" "map ar_slot rs = [0..<m]" "pending_ok st plans slots m rs"
    "map (slot_neighbors st q d plans slots \<circ> ar_slot) rs = map (plan_neighbors st q d) (take m plans)" by blast
  have m: "m < length slots" "m < length plans" using Suc.prems IH(2) by simp_all
  have "set (map ar_slot rs) = {0..<m}" using IH(3) by simp
  then have free: "m \<notin> ar_slot ` set rs" by (metis atLeastLessThan_iff image_set less_irrefl)
  obtain r slots1 where pre: "prepare_aio st (batch_files st ls) plans m m slots = Inr (r, slots1)"
    "length slots1 = length slots" "pending_ok st plans slots1 (m + 1) (rs @ [r])"
    "map (slot_neighbors st q d plans slots1 \<circ> ar_slot) (rs @ [r])
      = map (slot_neighbors st q d plans slots \<circ> ar_slot) rs @ [plan_neighbors st q d (plans ! m)]"
    by (rule prepare_aio_result [OF st b m IH(4) free])
  have "ar_slot r = m" using pre(1) by (auto simp: prepare_aio_def Let_def split: sum.splits if_splits)
  then have slots: "map ar_slot (rs @ [r]) = [0..<Suc m]" using IH(3) by simp
  have "prepare_first st (batch_files st ls) plans m (rs, slots) = Inr (rs @ [r], slots1)" by (simp add: prepare_first_def pre(1))
  then have run: "res_fold (prepare_first st (batch_files st ls) plans) [0..<Suc m] ([], slots0) = Inr (rs @ [r], slots1)"
    by (simp add: res_fold_append IH(1))
  have "map (slot_neighbors st q d plans slots1 \<circ> ar_slot) (rs @ [r]) = map (plan_neighbors st q d) (take (Suc m) plans)"
    unfolding pre(4) IH(5) using m(2) by (simp add: take_Suc_conv_app_nth)
  then show ?case using run slots pre(2,3) IH(2) by (metis Suc_eq_plus1)
qed

lemma refine_aio_result:
  assumes st: "store_ok st" and k: "0 < rq_topk q" and b: "batch_ok st ls plans" and n: "0 < n"
    and w: "working q v S s" and idle: "ak_pending kern = []"
    and run: "refine_aio st q (batch_files st ls) plans n d s kern = (r, kern')"
  shows "ak_context kern' = ak_context kern
    \<and> (\<forall>s'. r = Inr s' \<longrightarrow> working q v (S + reads_done st q d plans) s' \<and> ak_pending kern' = [] \<and> rs_peak (snd s') \<le> max (rs_peak (snd s)) n)
    \<and> (steady kern \<and> (\<forall>p \<in> set plans. readable_valid st q d p) \<longrightarrow> (\<exists>s'. r = Inr s') \<and> steady kern')"
proof -
  let ?m = "min n (length plans)"
  let ?slots = "replicate n \<lparr>as_capacity = page_size st, as_plan = 0\<rparr>"
  have "?m \<le> length ?slots" "?m \<le> length plans" by simp_all
  from prepare_first_result [OF st b this, of q d] obtain rs slots where
    pre: "res_fold (prepare_first st (batch_files st ls) plans) [0..<?m] ([], ?slots) = Inr (rs, slots)"
    "length slots = n" "map ar_slot rs = [0..<?m]" "pending_ok st plans slots ?m rs"
    "map (slot_neighbors st q d plans slots \<circ> ar_slot) rs = map (plan_neighbors st q d) (take ?m plans)" unfolding length_replicate by blast
  have len: "length rs = ?m" using pre(3) by (metis length_map length_upt diff_zero)
  obtain z k1 where z: "submit_requests plans slots rs (snd s) kern = (z, k1)" by fastforce
  note sub = submit_requests_result [OF z]
  show ?thesis
  proof (cases z)
    case (Inl e)
    then have "(r, kern') = (Inl e, k1)" using run pre(1) z by (simp add: refine_aio_def Let_def store_buffer_ok [OF st])
    then show ?thesis using sub Inl by auto
  next
    case (Inr stats)
    let ?s = "(fst s, stats\<lparr>rs_peak := max (rs_peak stats) ?m\<rparr>)"
    have stats: "ak_pending k1 = rs" "rs_vectors stats = rs_vectors (snd s)" "rs_peak stats = rs_peak (snd s)" using sub Inr idle by auto
    have loop: "aio_loop st q (batch_files st ls) plans n d slots ?m ?m ?s k1 = (r, kern')"
      using run pre(1) z Inr by (simp add: refine_aio_def Let_def store_buffer_ok [OF st])
    have "working q v S ?s" using w stats by (simp add: working_def)
    moreover have "?m < length plans \<longrightarrow> rs \<noteq> []" using len n by auto
    ultimately have inv: "aio_inv st q d plans n v S slots ?m (ak_pending k1) ?s"
      unfolding aio_inv_def stats(1) pre(5) reads_done_def using pre(2,4) by auto
    have "rs_peak (snd ?s) \<le> max (rs_peak (snd s)) n" "n \<le> max (rs_peak (snd s)) n" "?m = length (ak_pending k1)" using stats len by auto
    note loop_ok = aio_loop_result [OF st k b n loop inv this(3,1,2)]
    have "ak_context k1 = ak_context kern" "steady kern \<longrightarrow> steady k1" using sub by blast+
    then show ?thesis using loop_ok by auto
  qed
qed

end
