(* ===== verification/Refine_Correct.thy ===== *)
theory Refine_Correct
  imports Refine_Aio
begin

text \<open>
  The refiner as a whole: batches of files, the exact neighbours of the candidates, and the properties.
\<close>

section \<open>One batch\<close>

definition refiner_ok :: "refiner \<Rightarrow> bool" where
  "refiner_ok rf \<longleftrightarrow> store_ok (rf_store rf) \<and> 0 < rf_queue_depth rf \<and> 0 < rf_max_open rf"

text \<open>Nothing in flight, and the context a deep queue needs.\<close>

definition kernel_ready :: "refiner \<Rightarrow> aio_kernel \<Rightarrow> bool" where
  "kernel_ready rf k \<longleftrightarrow> ak_pending k = [] \<and> (1 < rf_queue_depth rf \<longrightarrow> ak_context k \<noteq> None)"

lemma aio_abort_ready: "kernel_ready rf k \<Longrightarrow> ak_pending (aio_abort rf k) = []"
  by (auto simp: kernel_ready_def aio_abort_def aio_reset_def)

lemma batch_reads_result:
  assumes rf: "refiner_ok rf" and k: "0 < rq_topk q" and b: "batch_ok (rf_store rf) ls ps" and w: "working q v T s"
    and kern: "kernel_ready rf kern"
    and run: "read_batch_plans rf q (batch_files (rf_store rf) ls) ps s kern d = (r, kern', d')"
  shows "same_files d d' \<and> ak_pending (aio_abort rf kern') = []
    \<and> (\<forall>s'. r = Inr s' \<longrightarrow> working q v (T + reads_done (rf_store rf) q d ps) s' \<and> kernel_ready rf kern'
        \<and> rs_peak (snd s') \<le> max (rs_peak (snd s)) (rf_queue_depth rf))
    \<and> (smooth d \<and> steady kern \<and> (\<forall>p \<in> set ps. readable_valid (rf_store rf) q d p) \<longrightarrow> (\<exists>s'. r = Inr s') \<and> smooth d' \<and> steady kern')"
proof (cases "rf_queue_depth rf = 1")
  case True
  have st: "store_ok (rf_store rf)" using rf by (simp add: refiner_ok_def)
  obtain x d1 where x: "refine_blocking (rf_store rf) q (batch_files (rf_store rf) ls) ps s d = (x, d1)" by fastforce
  have out: "r = x" "kern' = kern" "d' = d1" using run x True by (simp_all add: read_batch_plans_def)
  show ?thesis using refine_blocking_result [OF st k b w x] aio_abort_ready [OF kern] kern True unfolding out by auto
next
  case False
  have st: "store_ok (rf_store rf)" and n: "0 < rf_queue_depth rf" and n1: "1 < rf_queue_depth rf" using rf False by (auto simp: refiner_ok_def)
  have idle: "ak_pending kern = []" and ctx: "ak_context kern \<noteq> None" using kern n1 by (simp_all add: kernel_ready_def)
  obtain x k1 where x: "refine_aio (rf_store rf) q (batch_files (rf_store rf) ls) ps (rf_queue_depth rf) d s kern = (x, k1)" by fastforce
  have out: "r = x" "kern' = k1" "d' = d" using run x False by (simp_all add: read_batch_plans_def)
  note one = refine_aio_result [OF st k b n w idle x]
  have "ak_pending (aio_abort rf k1) = []" using one ctx n1 by (simp add: aio_abort_def aio_reset_def)
  then show ?thesis using one ctx unfolding out by (auto simp: kernel_ready_def)
qed

section \<open>All batches\<close>

lemma sorted_split:
  assumes "sorted_wrt (<) (xs @ ys :: u32 list)" and "xs \<noteq> []" and "z \<in> set (xs @ ys)"
  shows "z \<in> set xs \<longleftrightarrow> z \<le> last xs"
proof -
  have l: "last xs \<in> set xs" using assms(2) by simp
  have "z \<le> last xs" if "z \<in> set xs"
  proof (cases "z = last xs")
    case False
    obtain us where us: "xs = us @ [last xs]" using assms(2) by (metis append_butlast_last_id)
    have "z \<in> set us" using that False us by (metis UnE empty_iff empty_set set_ConsD set_append)
    moreover have "sorted_wrt (<) (us @ [last xs])" using assms(1) us by (metis sorted_wrt_append)
    ultimately have "z < last xs" by (simp add: sorted_wrt_append)
    then show ?thesis by simp
  qed simp
  moreover have "last xs < z" if "z \<in> set ys" using assms(1) l that by (simp add: sorted_wrt_append)
  ultimately show ?thesis using assms(3) by (auto simp: not_le [symmetric])
qed

lemma takeWhile_sorted_set:
  assumes "sorted_wrt (\<lambda>p q. f p \<le> f q) ps"
  shows "x \<in> set (dropWhile (\<lambda>p. f p \<le> (b :: u32)) ps) \<Longrightarrow> b < f x"
  using assms by (induction ps) (auto split: if_splits)

definition remaining :: "record_store \<Rightarrow> u32 list \<Rightarrow> read_plan list \<Rightarrow> bool" where
  "remaining st todo plans \<longleftrightarrow> sorted_wrt (<) todo \<and> (\<forall>l \<in> set todo. unat l < st_nlist st)
    \<and> sorted_wrt (\<lambda>p q. rp_list p \<le> rp_list q) plans \<and> (\<forall>p \<in> set plans. read_plan_ok st p \<and> rp_list p \<in> set todo)"

lemma remaining_split:
  assumes rem: "remaining st todo plans" and todo: "todo \<noteq> []" "0 < n"
  defines "ps \<equiv> takeWhile (\<lambda>p. rp_list p \<le> last (take n todo)) plans"
  shows "batch_ok st (take n todo) ps" and "remaining st (drop n todo) (drop (length ps) plans)"
    and "ps @ drop (length ps) plans = plans"
proof -
  have eq: "drop (length ps) plans = dropWhile (\<lambda>p. rp_list p \<le> last (take n todo)) plans"
    by (simp add: ps_def dropWhile_eq_drop)
  show app: "ps @ drop (length ps) plans = plans" unfolding eq by (simp add: ps_def)
  have srt: "sorted_wrt (<) (take n todo @ drop n todo)" using rem by (simp add: remaining_def)
  have ne: "take n todo \<noteq> []" using todo by simp
  have lists: "\<forall>p \<in> set plans. read_plan_ok st p \<and> rp_list p \<in> set (take n todo @ drop n todo)"
    and psrt: "sorted_wrt (\<lambda>p q. rp_list p \<le> rp_list q) plans" using rem by (simp_all add: remaining_def)
  have "rp_list p \<in> set (take n todo)" if "p \<in> set ps" for p
  proof -
    have le: "rp_list p \<le> last (take n todo)" and mem: "p \<in> set plans" using that unfolding ps_def by (auto dest: set_takeWhileD)
    have "rp_list p \<in> set (take n todo @ drop n todo)" using lists mem by blast
    from sorted_split [OF srt ne this] le show ?thesis by simp
  qed
  moreover have sub: "set ps \<subseteq> set plans" "set (drop (length ps) plans) \<subseteq> set plans" by (auto simp: ps_def dest: set_takeWhileD in_set_dropD)
  ultimately show "batch_ok st (take n todo) ps" using srt lists by (auto simp: batch_ok_def sorted_wrt_append)
  have "rp_list p \<in> set (drop n todo)" if "p \<in> set (drop (length ps) plans)" for p
  proof -
    have "last (take n todo) < rp_list p" using takeWhile_sorted_set [OF psrt] that unfolding eq by blast
    moreover have inp: "rp_list p \<in> set (take n todo @ drop n todo)" using lists that sub(2) by blast
    ultimately have "rp_list p \<notin> set (take n todo)" using sorted_split [OF srt ne inp] by simp
    then show ?thesis using inp by (simp only: set_append Un_iff) simp
  qed
  moreover have "sorted_wrt (\<lambda>p q. rp_list p \<le> rp_list q) (drop (length ps) plans)" using psrt app by (metis sorted_wrt_append)
  ultimately show "remaining st (drop n todo) (drop (length ps) plans)"
    using srt rem lists sub by (auto simp: remaining_def sorted_wrt_append dest: in_set_dropD)
qed

text \<open>Whatever the calls return, the loop ends with the files unchanged and nothing in flight.\<close>

lemma refine_lists_result:
  assumes rf: "refiner_ok rf" and k: "0 < rq_topk q" and "remaining (rf_store rf) todo plans"
    and "working q v T s" and "kernel_ready rf kern"
  shows "\<exists>r kern' d'. refine_lists rf q todo plans s kern d = Some (r, kern', d') \<and> same_files d d' \<and> ak_pending kern' = []
    \<and> (\<forall>s'. r = Inr s' \<longrightarrow> working q v (T + reads_done (rf_store rf) q d plans) s'
        \<and> rs_peak (snd s') \<le> max (rs_peak (snd s)) (rf_queue_depth rf))
    \<and> (smooth d \<and> steady kern \<and> (\<forall>l \<in> set todo. files d (path_of (rf_store rf) l) \<noteq> None)
        \<and> (\<forall>p \<in> set plans. readable_valid (rf_store rf) q d p) \<longrightarrow> (\<exists>s'. r = Inr s'))"
  using assms(3-5)
proof (induction "length todo" arbitrary: todo plans T s kern d rule: less_induct)
  case less
  let ?st = "rf_store rf" and ?n = "rf_max_open rf"
  note eqs = refine_lists.simps [of rf q todo plans s kern d]
  show ?case
  proof (cases "todo = []")
    case True
    then have "plans = []" using less.prems(1) by (auto simp: remaining_def) 
    moreover have "refine_lists rf q todo plans s kern d = Some (Inr s, kern, d)" using True eqs by simp
    ultimately show ?thesis using less.prems(2,3) by (auto simp: kernel_ready_def)
  next
    case ne: False
    have n: "0 < ?n" using rf by (simp add: refiner_ok_def)
    let ?batch = "take ?n todo"
    let ?ps = "takeWhile (\<lambda>p. rp_list p \<le> last ?batch) plans"
    let ?rest = "drop (length ?ps) plans"
    note split = remaining_split [OF less.prems(1) ne n]
    have sub: "set ?ps \<subseteq> set plans" "set ?rest \<subseteq> set plans" using split(3) by (metis set_append sup_ge1, metis set_append sup_ge2)
    have bl: "\<forall>l \<in> set ?batch. unat l < st_nlist ?st" using less.prems(1) by (auto simp: remaining_def dest: in_set_takeD)
    obtain x d1 where x: "open_files ?st ?batch [] d = (x, d1)" by fastforce
    note op = open_files_same [OF x bl]
    show ?thesis
    proof (cases x)
      case (Inl e)
      then have "refine_lists rf q todo plans s kern d = Some (Inl e, aio_abort rf kern, d1)" using ne x eqs by simp
      then show ?thesis using op Inl aio_abort_ready [OF less.prems(3)] by (auto dest: in_set_takeD)
    next
      case (Inr fds)
      have fds: "fds = batch_files ?st ?batch" and same1: "same_files d d1" using op Inr by auto
      define s1 where "s1 = (fst s, (snd s)\<lparr>rs_files := rs_files (snd s) + of_nat (length fds)\<rparr>)"
      have w1: "working q v T s1" and pk1: "rs_peak (snd s1) = rs_peak (snd s)" using less.prems(2) by (simp_all add: working_def s1_def)
      obtain y k2 d2 where y: "read_batch_plans rf q fds ?ps s1 kern d1 = (y, k2, d2)" by (metis prod_cases3)
      note rd = batch_reads_result [OF rf k split(1) w1 less.prems(3) y [unfolded fds], folded fds,
          unfolded reads_done_same [OF same1] readable_valid_same [OF same1]]
      have same2: "same_files d d2" using same_files_trans [OF same1] rd by blast
      show ?thesis
      proof (cases y)
        case (Inl e)
        obtain c d3 where c: "close_all fds None d2 = (c, d3)" by fastforce
        have "refine_lists rf q todo plans s kern d = Some (Inl e, aio_abort rf k2, d3)" using ne x Inr y Inl c eqs by (simp add: Let_def s1_def)
        moreover have "same_files d d3" using close_all_same [OF c] same_files_trans [OF same2] by blast
        moreover have "\<not> (smooth d \<and> steady kern \<and> (\<forall>l \<in> set todo. files d (path_of ?st l) \<noteq> None) \<and> (\<forall>p \<in> set plans. readable_valid ?st q d p))"
          using op rd Inl sub(1) by (auto dest: in_set_takeD)
        ultimately show ?thesis using rd by auto
      next
        case s2: (Inr s2)
        obtain c d3 where c: "close_files fds d2 = (c, d3)" by fastforce
        note cl = close_files_same [OF c]
        have same3: "same_files d d3" using cl same_files_trans [OF same2] by blast
        show ?thesis
        proof (cases c)
          case (Inl e)
          have "refine_lists rf q todo plans s kern d = Some (Inl e, aio_abort rf k2, d3)" using ne x Inr y s2 c Inl eqs by (simp add: Let_def s1_def)
          moreover have "\<not> (smooth d \<and> steady kern \<and> (\<forall>l \<in> set todo. files d (path_of ?st l) \<noteq> None) \<and> (\<forall>p \<in> set plans. readable_valid ?st q d p))"
            using op rd cl Inl sub(1) by (auto dest: in_set_takeD)
          ultimately show ?thesis using rd same3 by auto
        next
          case (Inr u)
          have step: "refine_lists rf q todo plans s kern d = refine_lists rf q (drop ?n todo) ?rest s2 k2 d3"
            using ne x \<open>x = Inr fds\<close> y s2 c Inr eqs by (simp add: Let_def s1_def)
          have short: "length (drop ?n todo) < length todo" using ne n by simp
          have w2: "working q v (T + reads_done ?st q d ?ps) s2" and rdy: "kernel_ready rf k2"
            and pk: "rs_peak (snd s2) \<le> max (rs_peak (snd s)) (rf_queue_depth rf)" using rd s2 pk1 by auto
          have f3: "files d3 = files d" using same3 by (simp add: same_files_def)
          have tot: "T + reads_done ?st q d ?ps + reads_done ?st q d ?rest = T + reads_done ?st q d plans"
            using reads_done_simps(3) [of ?st q d ?ps ?rest] split(3) by (simp add: add.assoc)
          obtain r kern' d' where IH: "refine_lists rf q (drop ?n todo) ?rest s2 k2 d3 = Some (r, kern', d')" "same_files d3 d'" "ak_pending kern' = []"
            "\<forall>s'. r = Inr s' \<longrightarrow> working q v (T + reads_done ?st q d plans) s' \<and> rs_peak (snd s') \<le> max (rs_peak (snd s2)) (rf_queue_depth rf)"
            "smooth d3 \<and> steady k2 \<and> (\<forall>l \<in> set (drop ?n todo). files d (path_of ?st l) \<noteq> None)
              \<and> (\<forall>p \<in> set ?rest. readable_valid ?st q d p) \<longrightarrow> (\<exists>s'. r = Inr s')"
            using less.hyps [OF short split(2) w2 rdy, of d3, unfolded reads_done_same [OF same3] readable_valid_same [OF same3] f3 tot] by blast
          have ok: "\<exists>s'. r = Inr s'" if h: "smooth d" "steady kern" "\<forall>l \<in> set todo. files d (path_of ?st l) \<noteq> None" "\<forall>p \<in> set plans. readable_valid ?st q d p"
          proof -
            have "smooth d1" using op h(1,3) by (auto dest: in_set_takeD)
            then have "smooth d2" "steady k2" using rd h(2,4) sub(1) by auto
            then have "smooth d3" using cl by blast
            then show ?thesis using IH(5) \<open>steady k2\<close> h(3,4) sub(2) by (auto dest: in_set_dropD)
          qed
          have "same_files d d'" using IH(2) by (rule same_files_trans [OF same3])
          moreover have "rs_peak (snd s') \<le> max (rs_peak (snd s)) (rf_queue_depth rf)" if "r = Inr s'" for s'
            using IH(4) that pk by fastforce
          ultimately show ?thesis unfolding step using IH(1,3,4) ok by auto
        qed
      qed
    qed
  qed
qed

section \<open>The candidates of the reads\<close>

text \<open>The exact neighbour that a candidate's record in its list file gives.\<close>

definition exact_neighbor :: "record_store \<Rightarrow> refine_query \<Rightarrow> disk \<Rightarrow> list_candidate \<Rightarrow> neighbor" where
  "exact_neighbor st q d c = (let record = record_at st (content d (path_of st (lc_list c))) (unat (lc_offset c))
    in \<lparr>nb_id = of_le32 (take 4 record), nb_distance = rq_function q (rq_vector q) (drop 4 record) (rq_dimension q)\<rparr>)"

text \<open>A file of whole pages that holds the candidate's record.\<close>

definition candidate_stored :: "record_store \<Rightarrow> disk \<Rightarrow> list_candidate \<Rightarrow> bool" where
  "candidate_stored st d c \<longleftrightarrow> page_size st dvd length (content d (path_of st (lc_list c)))
    \<and> row_pos st (unat (lc_offset c)) + st_stride st \<le> length (content d (path_of st (lc_list c)))"

lemma reads_done_candidates:
  assumes ok: "plans_ok st cands plans"
  shows "reads_done st q d plans = mset (map (exact_neighbor st q d) cands)"
proof -
  let ?g = "\<lambda>(i :: nat, l, pos). neighbor_at st q (content d (path_of st l)) pos"
  have "map (\<lambda>r. neighbor_at st q (content d (path_of st (rp_list p))) (rp_offset p + snd r)) (rp_items p) = map ?g (plan_reads p)" for p
    by (simp add: plan_reads_def)
  then have "plan_neighbors st q d p = image_mset ?g (mset (plan_reads p))" for p
    by (simp only: plan_neighbors_def mset_map)
  then have "reads_done st q d plans = image_mset ?g (mset (concat (map plan_reads plans)))"
    by (induction plans) simp_all
  also have "mset (concat (map plan_reads plans)) = mset (map (\<lambda>i. (i, lc_list (cands ! i), row_pos st (unat (lc_offset (cands ! i))))) [0..<length cands])"
    using ok unfolding plans_ok_def by blast
  also have "image_mset ?g \<dots> = mset (map (\<lambda>i. exact_neighbor st q d (cands ! i)) [0..<length cands])"
    unfolding mset_map [symmetric] map_map by (simp only: comp_def case_prod_conv neighbor_at_def exact_neighbor_def record_at_def)
  also have "\<dots> = mset (map (exact_neighbor st q d) cands)"
    by (rule arg_cong [where f = mset], rule nth_equalityI) simp_all
  finally show ?thesis .
qed

lemma plans_ok_reads:
  assumes "plans_ok st cands plans"
  shows "set (concat (map plan_reads plans)) = set (map (\<lambda>i. (i, lc_list (cands ! i), row_pos st (unat (lc_offset (cands ! i))))) [0..<length cands])"
  by (rule mset_eq_setD) (use assms in \<open>unfold plans_ok_def, blast\<close>)

lemma plan_readable:
  assumes st: "store_ok st" and ok: "plans_ok st cands plans" and p: "p \<in> set plans" and c: "\<forall>c \<in> set cands. candidate_stored st d c"
  shows "readable st d p"
proof -
  let ?P = "page_size st" and ?len = "length (content d (path_of st (rp_list p)))"
  have P: "0 < ?P" and str: "0 < st_stride st" using store_geometry(3,6) [OF st] by simp_all
  have "read_plan_ok st p" using ok p by (simp add: plans_ok_def)
  then have geo: "?P dvd rp_offset p" "0 < rp_pages p" "rp_bytes p = rp_pages p * ?P"
    and img: "(\<lambda>r. snd r div ?P) ` set (rp_items p) = {..<rp_pages p}" unfolding read_plan_ok_def by blast+
  have "rp_pages p - 1 \<in> (\<lambda>r. snd r div ?P) ` set (rp_items p)" using img geo(2) by simp
  then obtain r where r: "r \<in> set (rp_items p)" "rp_pages p - 1 = snd r div ?P" by blast
  have "(fst r, rp_list p, rp_offset p + snd r) \<in> set (concat (map plan_reads plans))"
    using p r(1) by (force simp: plan_reads_def)
  also note plans_ok_reads [OF ok]
  finally obtain j where j: "j < length cands" "rp_list p = lc_list (cands ! j)" "rp_offset p + snd r = row_pos st (unat (lc_offset (cands ! j)))"
    by auto
  have "candidate_stored st d (cands ! j)" using c j(1) by simp
  then have dvd: "?P dvd ?len" and fits: "rp_offset p + snd r < ?len" using j str by (simp_all add: candidate_stored_def)
  obtain a b where a: "rp_offset p = ?P * a" and b: "?len = ?P * b" using geo(1) dvd by (metis dvdE)
  have "?P * (a + (rp_pages p - 1)) \<le> rp_offset p + snd r" using r(2) by (simp add: a distrib_left)
  from le_less_trans [OF this fits] have "?P * (a + (rp_pages p - 1)) < ?P * b" by (simp only: b)
  then have "a + (rp_pages p - 1) < b" by (metis nat_mult_less_cancel_disj)
  then have "a + rp_pages p \<le> b" using geo(2) by linarith
  then have "?P * (a + rp_pages p) \<le> ?P * b" by (rule mult_le_mono2)
  then show ?thesis by (simp add: readable_def a b geo(3) distrib_left mult.commute)
qed

lemma plans_readable_valid:
  assumes st: "store_ok st" and ok: "plans_ok st cands plans" and c: "\<forall>c \<in> set cands. candidate_stored st d c"
    and v: "\<forall>c \<in> set cands. exact_valid (nb_distance (exact_neighbor st q d c))"
  shows "\<forall>p \<in> set plans. readable_valid st q d p"
proof
  fix p assume p: "p \<in> set plans"
  have "set_mset (plan_neighbors st q d p) \<subseteq> set_mset (reads_done st q d plans)"
    using p by (induction plans) auto
  then have "plan_valid st q d p" using v by (auto simp: plan_valid_def reads_done_candidates [OF ok])
  then show "readable_valid st q d p" using plan_readable [OF st ok p c] by (simp add: readable_valid_def)
qed

section \<open>The refiner\<close>

lemma refiner_new_ok:
  "refiner_new aio st n m = Inr rf \<Longrightarrow> store_ok st \<Longrightarrow> refiner_ok rf \<and> rf_store rf = st \<and> rf_queue_depth rf = n \<and> rf_max_open rf = m"
  by (auto simp: refiner_new_def refiner_ok_def split: if_splits)

lemma aio_acquire_ready:
  "aio_acquire n k = (r, k') \<Longrightarrow> ak_pending k = [] \<Longrightarrow>
    ak_pending k' = [] \<and> (\<forall>u. r = Inr u \<longrightarrow> ak_context k' \<noteq> None) \<and> (steady k \<longrightarrow> r = Inr () \<and> steady k')"
  by (auto simp: aio_acquire_def aio_reset_def steady_def Let_def split: if_splits list.splits option.splits)

lemma working_start: "working q (rs_vectors stats) {#} ([], stats)"
  by (simp add: working_def heap_ok_empty)

definition request_valid :: "refiner \<Rightarrow> f32 list option \<Rightarrow> nat \<Rightarrow> list_candidate list \<Rightarrow> nat \<Rightarrow> exact_distance option \<Rightarrow> bool" where
  "request_valid rf vector dimension cands topk f \<longleftrightarrow> vector \<noteq> None \<and> 0 < dimension \<and> 0 < topk \<and> topk \<le> length cands \<and> f \<noteq> None
    \<and> candidates_ok (rf_store rf) cands"

lemma refine_result:
  assumes rf: "refiner_ok rf" and nl: "st_nlist (rf_store rf) \<le> u32_max" and idle: "ak_pending kern = []"
    and val: "request_valid rf (Some x) dimension cands topk (Some f)"
  defines "q \<equiv> \<lparr>rq_vector = x, rq_dimension = dimension, rq_topk = topk, rq_function = f\<rparr>"
  shows "\<exists>r kern' d'. refine rf (Some x) dimension cands topk (Some f) stats kern d = Some (r, kern', d') \<and> same_files d d' \<and> ak_pending kern' = []
    \<and> (\<forall>ns stats'. r = Inr (ns, stats') \<longrightarrow> sorted (map neighbor_key ns)
        \<and> smallest_part neighbor_key topk (mset (map (exact_neighbor (rf_store rf) q d) cands)) (mset ns)
        \<and> rs_vectors stats' = rs_vectors stats + of_nat (length cands) \<and> rs_peak stats' \<le> max (rs_peak stats) (rf_queue_depth rf))
    \<and> (smooth d \<and> steady kern \<and> (\<forall>c \<in> set cands. candidate_stored (rf_store rf) d c \<and> exact_valid (nb_distance (exact_neighbor (rf_store rf) q d c)))
        \<longrightarrow> (\<exists>y. r = Inr y))"
proof -
  let ?st = "rf_store rf"
  have st: "store_ok ?st" using rf by (simp add: refiner_ok_def)
  have c: "candidates_ok ?st cands" and topk: "0 < topk" "topk \<le> length cands" "0 < dimension" using val by (simp_all add: request_valid_def)
  obtain plans where plans: "build_read_plans ?st cands = Inr plans" "plans_ok ?st cands plans" using build_read_plans_ok [OF st nl c] by blast
  have srt: "sorted_wrt plan_before plans" and pok: "\<forall>p \<in> set plans. read_plan_ok ?st p" using plans(2) by (simp_all add: plans_ok_def)
  note lists = plans_lists [OF srt]
  note reads = plans_ok_reads [OF plans(2)]
  have in_range: "unat (rp_list p) < st_nlist ?st" if p: "p \<in> set plans" for p
  proof -
    have "read_plan_ok ?st p" using pok p by blast
    then have "rp_items p \<noteq> []" unfolding read_plan_ok_def by auto
    then obtain r where "r \<in> set (rp_items p)" by (metis last_in_set)
    then have "(fst r, rp_list p, rp_offset p + snd r) \<in> set (concat (map plan_reads plans))"
      using p by (force simp: plan_reads_def)
    then show ?thesis using c unfolding reads candidates_ok_def by auto
  qed
  have rem: "remaining ?st (distinct_lists plans []) plans"
    using lists pok in_range by (auto simp: remaining_def)
  have k: "0 < rq_topk q" using topk by (simp add: q_def)
  have guards: "\<not> (\<exists>c \<in> set cands. st_nlist ?st \<le> unat (lc_list c))" using c by (auto simp: candidates_ok_def)
  obtain a k1 where a: "(if rf_queue_depth rf > 1 then aio_acquire (rf_queue_depth rf) kern else (Inr (), kern)) = (a, k1)" by fastforce
  have acq: "ak_pending k1 = []" "\<forall>u. a = Inr u \<longrightarrow> kernel_ready rf k1" "steady kern \<longrightarrow> a = Inr () \<and> steady k1"
    using a idle aio_acquire_ready [of "rf_queue_depth rf" kern a k1] by (auto simp: kernel_ready_def split: if_splits)
  have run: "refine rf (Some x) dimension cands topk (Some f) stats kern d
      = (case a of Inl e \<Rightarrow> Some (Inl e, k1, d) | Inr _ \<Rightarrow>
          (case refine_lists rf q (distinct_lists plans []) plans ([], stats) k1 d of
                   None \<Rightarrow> None
                 | Some (Inl e, k2, d2) \<Rightarrow> Some (Inl e, k2, d2)
                 | Some (Inr s, k2, d2) \<Rightarrow> Some (Inr (finish_topk (fst s), snd s), k2, d2)))"
    unfolding refine_def Let_def option.sel q_def [symmetric] plans(1) sum.case a prod.case
    using topk guards by (cases a) simp_all
  show ?thesis
  proof (cases a)
    case (Inl e)
    then show ?thesis using run acq by auto
  next
    case (Inr u)
    have rdy: "kernel_ready rf k1" using acq(2) Inr by blast
    obtain r k2 d2 where r: "refine_lists rf q (distinct_lists plans []) plans ([], stats) k1 d = Some (r, k2, d2)" "same_files d d2" "ak_pending k2 = []"
      "\<forall>s'. r = Inr s' \<longrightarrow> working q (rs_vectors stats) (reads_done ?st q d plans) s' \<and> rs_peak (snd s') \<le> max (rs_peak stats) (rf_queue_depth rf)"
      "smooth d \<and> steady k1 \<and> (\<forall>l \<in> set (distinct_lists plans []). files d (path_of ?st l) \<noteq> None)
        \<and> (\<forall>p \<in> set plans. readable_valid ?st q d p) \<longrightarrow> (\<exists>s'. r = Inr s')"
      using refine_lists_result [OF rf k rem working_start [of q stats] rdy, where d = d]
      unfolding snd_conv empty_neutral(1) add_0 by blast
    have exist: "files d (path_of ?st l) \<noteq> None" if l: "l \<in> set (distinct_lists plans [])" and rd: "\<forall>p \<in> set plans. readable_valid ?st q d p" for l
    proof -
      obtain p where p: "p \<in> set plans" "l = rp_list p" using l lists(2) by auto
      have "0 < rp_bytes p" using read_plan_pos [OF st] pok p(1) by blast
      then show ?thesis using rd p by (auto simp: readable_valid_def readable_def content_def split: option.splits)
    qed
    show ?thesis
    proof (cases r)
      case (Inl e)
      then have "refine rf (Some x) dimension cands topk (Some f) stats kern d = Some (Inl e, k2, d2)" using run Inr r(1) by simp
      moreover have "\<not> (smooth d \<and> steady kern \<and> (\<forall>c \<in> set cands. candidate_stored ?st d c \<and> exact_valid (nb_distance (exact_neighbor ?st q d c))))"
      proof
        assume h: "smooth d \<and> steady kern \<and> (\<forall>c \<in> set cands. candidate_stored ?st d c \<and> exact_valid (nb_distance (exact_neighbor ?st q d c)))"
        then have "\<forall>p \<in> set plans. readable_valid ?st q d p" using plans_readable_valid [OF st plans(2), of d q] by blast
        then have "\<exists>s'. r = Inr s'" using r(5) exist acq(3) h by blast
        then show False using Inl by simp
      qed
      ultimately show ?thesis using r(2,3) by auto
    next
      case s: (Inr s)
      then have out: "refine rf (Some x) dimension cands topk (Some f) stats kern d = Some (Inr (finish_topk (fst s), snd s), k2, d2)"
        using run Inr r(1) by simp
      have "working q (rs_vectors stats) (mset (map (exact_neighbor ?st q d) cands)) s" "rs_peak (snd s) \<le> max (rs_peak stats) (rf_queue_depth rf)"
        using r(4) s unfolding reads_done_candidates [OF plans(2)] by auto
      then have h: "heap_ok topk (mset (map (exact_neighbor ?st q d) cands)) (fst s)" and "rs_vectors (snd s) = rs_vectors stats + of_nat (length cands)"
        and "rs_peak (snd s) \<le> max (rs_peak stats) (rf_queue_depth rf)" by (simp_all add: working_def q_def)
      then show ?thesis using out r(2,3) finish_topk_ok [OF h] by auto
    qed
  qed
qed

text \<open>A request that returned, in terms of the records on disk.\<close>

lemma refine_sound:
  assumes "refiner_new aio st queue_depth max_open_files = Inr rf" and "store_ok st" and "st_nlist st \<le> u32_max"
    and "ak_pending kern = []" and "candidates_ok st cands"
    and "refine rf (Some x) dimension cands topk (Some f) stats kern d = Some (Inr (ns, stats'), kern', d')"
  shows "sorted (map neighbor_key ns)
    \<and> smallest_part neighbor_key topk
        (mset (map (exact_neighbor st \<lparr>rq_vector = x, rq_dimension = dimension, rq_topk = topk, rq_function = f\<rparr> d) cands)) (mset ns)
    \<and> length ns = topk \<and> rs_vectors stats' = rs_vectors stats + of_nat (length cands)
    \<and> rs_peak stats' \<le> max (rs_peak stats) queue_depth \<and> files d' = files d \<and> ak_pending kern' = []"
proof -
  have rf: "refiner_ok rf" "rf_store rf = st" "rf_queue_depth rf = queue_depth" using refiner_new_ok [OF assms(1,2)] by simp_all
  have topk: "topk \<le> length cands" "request_valid rf (Some x) dimension cands topk (Some f)"
    using assms(5,6) rf(2) by (auto simp: refine_def request_valid_def split: if_splits)
  note r = refine_result [OF rf(1) _ assms(4) topk(2), of stats d, unfolded rf(2,3), OF assms(3)]
  have "length ns = topk" if "smallest_part neighbor_key topk S (mset ns)" "size S = length cands" for S
    using that topk(1) by (simp add: smallest_part_def)
  then show ?thesis using r unfolding assms(6) by (auto simp: same_files_def)
qed

end
