(* ===== verification/Index_Search.thy ===== *)
theory Index_Search
  imports List_Index_State Refine_Correct Scan_Guarantees
begin

text \<open>
  Search in the external index (src/adapters/external\_list\_ivf.cpp): the probed lists are scanned with
  query-local tokens as row ids, the selected tokens are turned back into list and offset, and the
  located rows are re-ranked with their exact records.
\<close>

section \<open>Operations\<close>

record token_span =
  ts_begin :: u32
  ts_end :: u32
  ts_list :: u32

record located_selection =
  lo_candidates :: "list_candidate list"
  lo_probed :: nat
  lo_lists :: nat

record search_stats =
  se_scan :: scan_stats
  se_refine :: refine_stats
  se_probed :: nat
  se_lists :: nat

text \<open>A view reads the metadata of its padded rows only; the buffer behind it may be larger.\<close>

definition list_view :: "memory_list \<Rightarrow> u32 \<Rightarrow> code_block_view" where
  "list_view ml begin =
    \<lparr>packed_codes = ml_codes ml, packed_metadata = take (3 * unat (ml_padded ml)) (ml_metadata ml), block_ids = None,
     block_rows = unat (ml_size ml), padded_rows = unat (ml_padded ml), block_width = block_lanes, implicit_id_base = begin\<rparr>"

definition add_span :: "list_index \<Rightarrow> u32 \<Rightarrow> token_span list \<times> code_block_view list \<times> nat
    \<Rightarrow> (token_span list \<times> code_block_view list \<times> nat) res" where
  "add_span ix list_no s =
    (case s of (spans, blocks, token_base) \<Rightarrow>
      let ml = ix_lists ix ! unat list_no
      in if ml_size ml = 0 then Inr s
         else if token_base + unat (ml_size ml) > u32_max
         then Inl (Overflow_error ''query-local candidate token space overflows'')
         else let begin = of_nat token_base; stop = token_base + unat (ml_size ml)
              in Inr (spans @ [\<lparr>ts_begin = begin, ts_end = of_nat stop, ts_list = list_no\<rparr>], blocks @ [list_view ml begin], stop))"

text \<open>\<open>std::lower_bound\<close> over the ends of the spans.\<close>

definition locate_token :: "token_span list \<Rightarrow> distance_estimate \<Rightarrow> list_candidate res" where
  "locate_token spans e =
    (case dropWhile (\<lambda>s. ts_end s \<le> de_id e) spans of
       [] \<Rightarrow> Inl (Logic_error ''FastScan returned an invalid query-local token'')
     | s # _ \<Rightarrow>
        if de_id e < ts_begin s then Inl (Logic_error ''FastScan returned an invalid query-local token'')
        else Inr \<lparr>lc_list = ts_list s, lc_offset = de_id e - ts_begin s, lc_estimate = estimated_distance e, lc_uncertainty = uncertainty e\<rparr>)"

definition locate_tokens :: "token_span list \<Rightarrow> distance_estimate list \<Rightarrow> list_candidate list res" where
  "locate_tokens spans es = res_fold (\<lambda>e out. res_bind (locate_token spans e) (\<lambda>c. Inr (out @ [c]))) es []"

definition select_candidates :: "index_ops \<Rightarrow> bool \<Rightarrow> list_index \<Rightarrow> f32 list option \<Rightarrow> nat \<Rightarrow> nat \<Rightarrow> f32 \<Rightarrow> nat
    \<Rightarrow> scan_stats option \<Rightarrow> lut_mode \<Rightarrow> (located_selection \<times> scan_stats option) res" where
  "select_candidates ops avx ix query topk nprobe z max_candidates stats requested =
    (if query = None \<or> topk = 0 \<or> ix_active ix < topk
     then Inl (Invalid_argument ''invalid external-list search request'')
     else res_bind (op_route ops (the query) nprobe) (\<lambda>selected.
       res_bind (res_fold (add_span ix) selected ([], [], 0)) (\<lambda>(spans, blocks, token_base).
         if token_base < topk then Inl (Invalid_argument ''probed IVF lists contain fewer than topk rows'')
         else res_bind (scanner_new (ix_trained ix)) (\<lambda>_.
              res_bind (op_prepare_query ops (the query)) (\<lambda>context.
              res_bind (scan_interval_candidates avx (op_pq4 ops) (op_scan ops) (ix_quantizer ix) context blocks topk z max_candidates stats requested)
                (\<lambda>(r, stats').
                  if length (candidates r) < topk then Inl (Logic_error ''interval selection returned fewer than topk rows'')
                  else res_bind (locate_tokens spans (candidates r)) (\<lambda>cands.
                    Inr (\<lparr>lo_candidates = cands, lo_probed = length spans,
                          lo_lists = length (remdups_adj (sort (map lc_list cands)))\<rparr>, stats'))))))))"

definition fresh_stats :: refine_stats where
  "fresh_stats = \<lparr>rs_vectors = 0, rs_pages = 0, rs_requests = 0, rs_bytes = 0, rs_files = 0, rs_peak = 0\<rparr>"

definition index_search :: "index_ops \<Rightarrow> bool \<Rightarrow> bool \<Rightarrow> list_index \<Rightarrow> f32 list option \<Rightarrow> nat \<Rightarrow> nat \<Rightarrow> f32 \<Rightarrow> nat
    \<Rightarrow> exact_distance option \<Rightarrow> search_stats option \<Rightarrow> lut_mode \<Rightarrow> aio_kernel \<Rightarrow> disk
    \<Rightarrow> ((neighbor list \<times> search_stats option) res \<times> aio_kernel \<times> disk) option" where
  "index_search ops avx linux_aio ix query topk nprobe z max_candidates distance_function stats requested k d =
    (case res_bind (select_candidates ops avx ix query topk nprobe z max_candidates (map_option se_scan stats) requested) (\<lambda>(sel, scan).
       res_bind (refiner_new linux_aio (ix_store ix) (xo_queue_depth (ix_options ix)) (xo_max_open_files (ix_options ix))) (\<lambda>rf.
         Inr (sel, scan, rf))) of
       Inl e \<Rightarrow> Some (Inl e, k, d)
     | Inr (sel, scan, rf) \<Rightarrow>
        (case refine rf query (qz_dimension (ix_quantizer ix)) (lo_candidates sel) topk distance_function
            (case stats of None \<Rightarrow> fresh_stats | Some s \<Rightarrow> se_refine s) k d of
           None \<Rightarrow> None
         | Some (Inl e, k', d') \<Rightarrow> Some (Inl e, k', d')
         | Some (Inr (ns, rstats), k', d') \<Rightarrow>
             Some (Inr (ns, map_option (\<lambda>s. \<lparr>se_scan = the scan, se_refine = rstats,
               se_probed = se_probed s + lo_probed sel, se_lists = se_lists s + lo_lists sel\<rparr>) stats), k', d')))"

definition index_size :: "list_index \<Rightarrow> nat" where
  "index_size ix = ix_active ix"

definition index_next_id :: "list_index \<Rightarrow> nat" where
  "index_next_id ix = ix_next_id ix"

definition index_list_size :: "list_index \<Rightarrow> u32 \<Rightarrow> nat res" where
  "index_list_size ix list_no =
    (if unat list_no \<ge> length (ix_lists ix) then Inl (Out_of_range ''IVF list number is invalid'')
     else Inr (unat (ml_size (ix_lists ix ! unat list_no))))"

section \<open>Tokens\<close>

text \<open>The rows of the probed lists; the token of a row is its place in this list.\<close>

definition probed_rows :: "list_index \<Rightarrow> u32 list \<Rightarrow> (u32 \<times> nat) list" where
  "probed_rows ix ls = concat (map (\<lambda>l. map (\<lambda>i. (l, i)) [0..<list_rows ix (unat l)]) ls)"

fun spans_from :: "list_index \<Rightarrow> u32 list \<Rightarrow> nat \<Rightarrow> token_span list" where
  "spans_from ix [] base = []"
| "spans_from ix (l # ls) base =
    (if list_rows ix (unat l) = 0 then spans_from ix ls base
     else \<lparr>ts_begin = of_nat base, ts_end = of_nat (base + list_rows ix (unat l)), ts_list = l\<rparr>
       # spans_from ix ls (base + list_rows ix (unat l)))"

fun views_from :: "list_index \<Rightarrow> u32 list \<Rightarrow> nat \<Rightarrow> code_block_view list" where
  "views_from ix [] base = []"
| "views_from ix (l # ls) base =
    (if list_rows ix (unat l) = 0 then views_from ix ls base
     else list_view (ix_lists ix ! unat l) (of_nat base) # views_from ix ls (base + list_rows ix (unat l)))"

lemma probed_rows_Cons [simp]:
  "probed_rows ix [] = []" "probed_rows ix (l # ls) = map (\<lambda>i. (l, i)) [0..<list_rows ix (unat l)] @ probed_rows ix ls"
  by (simp_all add: probed_rows_def)

lemma add_span_none: "list_rows ix (unat l) = 0 \<Longrightarrow> add_span ix l s = Inr s"
  by (cases s) (simp add: add_span_def list_rows_def Let_def unat_eq_0)

lemma add_span_some:
  "list_rows ix (unat l) \<noteq> 0 \<Longrightarrow> add_span ix l (spans, blocks, base)
    = (if base + list_rows ix (unat l) > u32_max then Inl (Overflow_error ''query-local candidate token space overflows'')
       else Inr (spans @ [\<lparr>ts_begin = of_nat base, ts_end = of_nat (base + list_rows ix (unat l)), ts_list = l\<rparr>],
         blocks @ [list_view (ix_lists ix ! unat l) (of_nat base)], base + list_rows ix (unat l)))"
  by (simp add: add_span_def list_rows_def Let_def unat_eq_0)

lemma add_spans:
  assumes "res_fold (add_span ix) ls (spans, blocks, base) = Inr s" and "base \<le> u32_max"
  shows "s = (spans @ spans_from ix ls base, blocks @ views_from ix ls base, base + length (probed_rows ix ls))
    \<and> base + length (probed_rows ix ls) \<le> u32_max"
  using assms
proof (induction ls arbitrary: spans blocks base)
  case (Cons l ls)
  show ?case
  proof (cases "list_rows ix (unat l) = 0")
    case True
    then show ?thesis using Cons.prems Cons.IH add_span_none [OF True] by simp
  next
    case False
    have fits: "base + list_rows ix (unat l) \<le> u32_max"
      using Cons.prems(1) add_span_some [OF False] by (simp split: if_splits)
    have "res_fold (add_span ix) ls (spans @ [\<lparr>ts_begin = of_nat base, ts_end = of_nat (base + list_rows ix (unat l)), ts_list = l\<rparr>],
        blocks @ [list_view (ix_lists ix ! unat l) (of_nat base)], base + list_rows ix (unat l)) = Inr s"
      using Cons.prems(1) fits by (simp add: add_span_some [OF False])
    from Cons.IH [OF this fits] show ?thesis using False by (simp add: add.assoc)
  qed
qed simp

lemma add_spans_ok:
  assumes "base + length (probed_rows ix ls) \<le> u32_max"
  shows "\<exists>s. res_fold (add_span ix) ls (spans, blocks, base) = Inr s"
  using assms
proof (induction ls arbitrary: spans blocks base)
  case (Cons l ls)
  show ?case
  proof (cases "list_rows ix (unat l) = 0")
    case True
    then show ?thesis using Cons add_span_none [OF True] by simp
  next
    case False
    have "base + list_rows ix (unat l) + length (probed_rows ix ls) \<le> u32_max" using Cons.prems by simp
    from Cons.IH [OF this] Cons.prems show ?thesis by (simp add: add_span_some [OF False])
  qed
qed simp

lemma unat_add_u32: "a + b \<le> u32_max \<Longrightarrow> unat (of_nat a + of_nat b :: u32) = a + b"
  using unat_u32_of_nat [of "a + b"] by simp

text \<open>A token is turned back into the row it stands for.\<close>

lemma locate_span:
  assumes "base + length (probed_rows ix ls) \<le> u32_max" and "j < length (probed_rows ix ls)" and "de_id e = of_nat (base + j)"
  shows "locate_token (spans_from ix ls base) e = Inr \<lparr>lc_list = fst (probed_rows ix ls ! j), lc_offset = of_nat (snd (probed_rows ix ls ! j)),
    lc_estimate = estimated_distance e, lc_uncertainty = uncertainty e\<rparr>"
  using assms
proof (induction ls arbitrary: base j)
  case (Cons l ls)
  let ?n = "list_rows ix (unat l)"
  show ?case
  proof (cases "?n = 0")
    case True
    then show ?thesis using Cons by simp
  next
    case False
    have small: "unat (of_nat (base + j) :: u32) = base + j" "unat (of_nat base :: u32) = base" "unat (of_nat (base + ?n) :: u32) = base + ?n"
      using Cons.prems(1,2) by (simp_all add: unat_u32_of_nat unat_add_u32)
    show ?thesis
    proof (cases "j < ?n")
      case True
      then have "\<not> (of_nat (base + ?n) :: u32) \<le> of_nat (base + j)" "\<not> (of_nat (base + j) :: u32) < of_nat base"
        unfolding word_le_nat_alt word_less_nat_alt small by simp_all
      then show ?thesis using True False Cons.prems(3) by (simp add: locate_token_def nth_append)
    next
      case ge: False
      then have drop: "(of_nat (base + ?n) :: u32) \<le> of_nat (base + j)" unfolding word_le_nat_alt small by simp
      obtain i where i: "j = ?n + i" using ge by (metis le_Suc_ex not_less)
      have "locate_token (spans_from ix ls (base + ?n)) e = Inr \<lparr>lc_list = fst (probed_rows ix ls ! i), lc_offset = of_nat (snd (probed_rows ix ls ! i)),
          lc_estimate = estimated_distance e, lc_uncertainty = uncertainty e\<rparr>"
        using Cons.prems i by (intro Cons.IH) (simp_all add: add.assoc)
      then show ?thesis using False drop Cons.prems(3) i by (simp add: locate_token_def nth_append)
    qed
  qed
qed simp

lemma map_upt_split: "map f [b..<b + n + m] = map f [b..<b + n] @ map f [b + n..<b + n + m]"
  by (subst upt_add_eq_append) simp_all

lemma query_ids_views:
  "query_ids (views_from ix ls base) = map of_nat [base..<base + length (probed_rows ix ls)]"
proof (induction ls arbitrary: base)
  case Nil
  then show ?case by (simp add: query_ids_def)
next
  case (Cons l ls)
  let ?n = "list_rows ix (unat l)"
  have ids: "map (lane_id None (of_nat base)) [0..<?n] = map of_nat [base..<base + ?n]"
    by (rule nth_equalityI) (simp_all add: lane_id_def)
  show ?case
  proof (cases "?n = 0")
    case True
    then show ?thesis using Cons.IH [of base] by simp
  next
    case False
    have "query_ids (views_from ix (l # ls) base) = map (lane_id None (of_nat base)) [0..<?n] @ query_ids (views_from ix ls (base + ?n))"
      using False by (simp add: query_ids_def list_view_def list_rows_def)
    also have "\<dots> = map of_nat [base..<base + ?n + length (probed_rows ix ls)]"
      unfolding ids Cons.IH map_upt_split ..
    finally show ?thesis by (simp add: add.assoc)
  qed
qed

lemma block_rows_views: "sum_list (map block_rows (views_from ix ls base)) = length (probed_rows ix ls)"
  by (induction ls arbitrary: base) (auto simp: list_view_def list_rows_def)

lemma views_ok:
  assumes ix: "index_ok ops ix d" and ls: "\<forall>l \<in> set ls. unat l < length (ix_lists ix)"
  shows "\<forall>b \<in> set (views_from ix ls base). view_ok avx b"
  using ls
proof (induction ls arbitrary: base)
  case (Cons l ls)
  let ?ml = "ix_lists ix ! unat l"
  have "posting_ok (op_pq4 ops) (ix_subquantizers ix) ?ml" using ix Cons.prems by (simp add: index_ok_def lists_ok_def)
  then obtain blocks where t: "tiles_ok (op_pq4 ops) (ix_subquantizers ix) ?ml blocks" and p: "unat (ml_padded ?ml) = round_up_block (unat (ml_size ?ml))"
    by (auto simp: posting_ok_def)
  have "unat (ml_size ?ml) \<le> 32 * blocks" "length (ml_metadata ?ml) = 96 * blocks" using t by (simp_all add: tiles_ok_def)
  then have "3 * unat (ml_padded ?ml) \<le> length (ml_metadata ?ml)" "unat (ml_size ?ml) \<le> unat (ml_padded ?ml)" "unat (ml_padded ?ml) mod 32 = 0"
    by (auto simp: p round_up_block_def block_lanes_def)
  then have "view_ok avx (list_view ?ml b)" for b by (simp add: view_ok_def list_view_def block_lanes_def)
  then show ?case using Cons by auto
qed simp

end
