(* ===== verification/Refine_Guarantees.thy ===== *)
theory Refine_Guarantees
  imports Refine_Correct
begin

text \<open>
  The properties of the exact re-ranking, with a query over two list files as the concrete input.
\<close>

section \<open>The properties\<close>

text \<open>C10. The neighbours that \<open>refine\<close> returns are the \<open>topk\<close> best of the exact neighbours that the
  candidates' records on disk give, in order of distance and then id, for every queue depth, every batch
  size of open files and every order in which the reads complete; every candidate is counted once, no
  more reads than the queue depth were in flight, no file is changed and nothing is left in flight.\<close>
theorem refine_correct:
  assumes "refiner_new aio st queue_depth max_open_files = Inr rf" and "store_ok st" and "st_nlist st \<le> u32_max"
    and "ak_pending kern = []" and "candidates_ok st cands"
    and "refine rf (Some x) dimension cands topk (Some f) stats kern d = Some (Inr (ns, stats'), kern', d')"
  shows "sorted (map neighbor_key ns)
    \<and> smallest_part neighbor_key topk
        (mset (map (exact_neighbor st \<lparr>rq_vector = x, rq_dimension = dimension, rq_topk = topk, rq_function = f\<rparr> d) cands)) (mset ns)
    \<and> length ns = topk \<and> rs_vectors stats' = rs_vectors stats + of_nat (length cands)
    \<and> rs_peak stats' \<le> max (rs_peak stats) queue_depth \<and> files d' = files d \<and> ak_pending kern' = []"
  using assms by (rule refine_sound)

text \<open>C11. A valid request always returns: whatever the disk and the kernel do, with the files unchanged and
  nothing in flight; and when no call fails, every candidate is stored and every exact distance is valid,
  it returns the neighbours and not an exception.\<close>
theorem refine_returns:
  assumes "refiner_new aio st queue_depth max_open_files = Inr rf" and "store_ok st" and "st_nlist st \<le> u32_max"
    and "ak_pending kern = []" and "candidates_ok st cands" and "0 < dimension" "0 < topk" "topk \<le> length cands"
  shows "\<exists>r kern' d'. refine rf (Some x) dimension cands topk (Some f) stats kern d = Some (r, kern', d')
    \<and> files d' = files d \<and> ak_pending kern' = []
    \<and> (smooth d \<and> steady kern \<and> (\<forall>c \<in> set cands. candidate_stored st d c
          \<and> exact_valid (nb_distance (exact_neighbor st \<lparr>rq_vector = x, rq_dimension = dimension, rq_topk = topk, rq_function = f\<rparr> d c)))
        \<longrightarrow> (\<exists>y. r = Inr y))"
proof -
  have rf: "refiner_ok rf" "rf_store rf = st" "rf_queue_depth rf = queue_depth" using refiner_new_ok [OF assms(1,2)] by simp_all
  have "request_valid rf (Some x) dimension cands topk (Some f)" using assms(5-8) rf(2) by (simp add: request_valid_def)
  from refine_result [OF rf(1) _ assms(4) this, of stats d, unfolded rf(2,3), OF assms(3)]
  show ?thesis unfolding same_files_def by blast
qed

text \<open>The read plans need every candidate's record exactly once, at its place in its list file;
  they are sorted, never read a page twice, and every page they read holds a needed record.\<close>
theorem read_plans_correct:
  assumes "store_ok st" and "st_nlist st \<le> u32_max" and "candidates_ok st cands"
  shows "\<exists>plans. build_read_plans st cands = Inr plans
    \<and> mset (concat (map plan_reads plans))
      = mset (map (\<lambda>i. (i, lc_list (cands ! i), row_pos st (unat (lc_offset (cands ! i))))) [0..<length cands])
    \<and> sorted_wrt plan_before plans
    \<and> (\<forall>p \<in> set plans. page_size st dvd rp_offset p \<and> rp_bytes p = rp_pages p * page_size st
        \<and> (\<forall>r \<in> set (rp_items p). snd r + st_stride st \<le> rp_bytes p)
        \<and> (\<lambda>r. snd r div page_size st) ` set (rp_items p) = {..<rp_pages p})"
  using build_read_plans_ok [OF assms] unfolding plans_ok_def read_plan_ok_def by blast

section \<open>A query over two list files\<close>

text \<open>List 3 holds three records and list 7 one; the distance is a power of two of the first payload byte.\<close>

definition tiny_query_disk :: disk where
  "tiny_query_disk = \<lparr>files = [tiny_path 3 \<mapsto>
      le32 10 @ [4, 1, 1, 1] @ le32 11 @ [2, 2, 2, 2] @ le32 12 @ [3, 3, 3, 3] @ replicate 8 0,
      tiny_path 7 \<mapsto> le32 9 @ [2, 0, 0, 0] @ replicate 8 0],
    dirs = {}, transfers = [Eintr], faults = [None]\<rparr>"

definition byte_distance :: exact_distance where
  "byte_distance v payload n = push_bit 23 (127 + ucast (payload ! 0))"

definition tiny_candidates :: "list_candidate list" where
  "tiny_candidates = map (\<lambda>(l, off). \<lparr>lc_list = l, lc_offset = off, lc_estimate = 0, lc_uncertainty = 0\<rparr>) [(7, 0), (3, 2), (3, 0), (3, 1)]"

definition no_stats :: refine_stats where
  "no_stats = \<lparr>rs_vectors = 0, rs_pages = 0, rs_requests = 0, rs_bytes = 0, rs_files = 0, rs_peak = 0\<rparr>"

definition tiny_refiner :: refiner where
  "tiny_refiner = \<lparr>rf_store = tiny_store, rf_queue_depth = 2, rf_max_open = 2\<rparr>"

text \<open>A kernel that takes one request at a time, and completes the second one first.\<close>

definition tiny_kernel :: aio_kernel where
  "tiny_kernel = \<lparr>ak_context = None, ak_setups = [None], ak_submits = [Accept 1], ak_waits = [Wait_eintr, Ready [(1, Full), (0, Full)]], ak_pending = []\<rparr>"

definition tiny_request :: refine_query where
  "tiny_request = \<lparr>rq_vector = [0], rq_dimension = 1, rq_topk = 2, rq_function = byte_distance\<rparr>"

lemma tiny_query_paths:
  "path_of tiny_store 3 = tiny_path 3" "path_of tiny_store 7 = tiny_path 7"
  by (simp_all add: path_of_def tiny_path_3 tiny_path_7)

lemma tiny_query_contents:
  "content tiny_query_disk (tiny_path 3) = le32 10 @ [4, 1, 1, 1] @ le32 11 @ [2, 2, 2, 2] @ le32 12 @ [3, 3, 3, 3] @ replicate 8 0"
  "content tiny_query_disk (tiny_path 7) = le32 9 @ [2, 0, 0, 0] @ replicate 8 0"
proof -
  have "tiny_path 3 \<noteq> tiny_path 7" by code_simp
  then show "content tiny_query_disk (tiny_path 3) = le32 10 @ [4, 1, 1, 1] @ le32 11 @ [2, 2, 2, 2] @ le32 12 @ [3, 3, 3, 3] @ replicate 8 0"
    "content tiny_query_disk (tiny_path 7) = le32 9 @ [2, 0, 0, 0] @ replicate 8 0"
    by (simp_all add: content_def tiny_query_disk_def)
qed

lemma tiny_exact_neighbors:
  "map (exact_neighbor tiny_store tiny_request tiny_query_disk) tiny_candidates
    = map (\<lambda>(i, x). \<lparr>nb_id = i, nb_distance = x\<rparr>) [(9, 0x40800000), (12, 0x41000000), (10, 0x41800000), (11, 0x40800000)]"
  by (simp add: tiny_candidates_def exact_neighbor_def record_at_def row_pos_def segment_def tiny_query_paths tiny_query_contents
      Let_def byte_distance_def tiny_request_def le32_def of_le32_def)

lemma tiny_candidates_stored: "\<forall>c \<in> set tiny_candidates. candidate_stored tiny_store tiny_query_disk c"
  by (simp add: tiny_candidates_def candidate_stored_def row_pos_def tiny_query_paths tiny_query_contents)

lemma tiny_query_ok:
  "refiner_new True tiny_store 2 2 = Inr tiny_refiner" "st_nlist tiny_store \<le> u32_max" "ak_pending tiny_kernel = []"
  "candidates_ok tiny_store tiny_candidates" "smooth tiny_query_disk" "steady tiny_kernel"
  by (simp_all add: refiner_new_def tiny_refiner_def tiny_store_def make_store_def tiny_kernel_def candidates_ok_def
      tiny_candidates_def smooth_def tiny_query_disk_def steady_def u32_max_def)

lemma tiny_distances_valid:
  "\<forall>c \<in> set tiny_candidates. exact_valid (nb_distance (exact_neighbor tiny_store tiny_request tiny_query_disk c))"
proof -
  have "\<forall>n \<in> set (map (exact_neighbor tiny_store tiny_request tiny_query_disk) tiny_candidates). exact_valid (nb_distance n)"
    unfolding tiny_exact_neighbors exact_valid_def
    by (simp add: f32_class_defs f32_order_defs f32_smag_def f32_sign_def f32_mag_def inf_mag_def)
  then show ?thesis by simp
qed

theorem refine_returns_witness:
  "\<exists>y kern' d'. refine tiny_refiner (Some [0]) 1 tiny_candidates 2 (Some byte_distance) no_stats tiny_kernel tiny_query_disk = Some (Inr y, kern', d')"
proof -
  have "0 < (1 :: nat)" "0 < (2 :: nat)" "2 \<le> length tiny_candidates" by (simp_all add: tiny_candidates_def)
  from refine_returns [OF tiny_query_ok(1) tiny_store_ok tiny_query_ok(2,3,4) this, of "[0]" byte_distance no_stats tiny_query_disk,
      folded tiny_request_def] tiny_query_ok(5,6) tiny_candidates_stored tiny_distances_valid
  show ?thesis by blast
qed

theorem refine_correct_witness:
  "\<exists>ns stats' kern' d'. refine tiny_refiner (Some [0]) 1 tiny_candidates 2 (Some byte_distance) no_stats tiny_kernel tiny_query_disk
      = Some (Inr (ns, stats'), kern', d') \<and> map neighbor_key ns = [(0x40800000, 9), (0x40800000, 11)] \<and> rs_vectors stats' = 4"
proof -
  have rf: "refiner_ok tiny_refiner" "rf_store tiny_refiner = tiny_store" using refiner_new_ok [OF tiny_query_ok(1) tiny_store_ok] by simp_all
  have "request_valid tiny_refiner (Some [0]) 1 tiny_candidates 2 (Some byte_distance)"
    using tiny_query_ok(4) rf(2) by (simp add: request_valid_def tiny_candidates_def)
  from refine_result [OF rf(1) _ tiny_query_ok(3) this, of no_stats tiny_query_disk, folded tiny_request_def, unfolded rf(2)]
    tiny_query_ok(2,5,6) tiny_candidates_stored tiny_distances_valid
  obtain ns stats' kern' d' where run: "refine tiny_refiner (Some [0]) 1 tiny_candidates 2 (Some byte_distance) no_stats tiny_kernel tiny_query_disk
      = Some (Inr (ns, stats'), kern', d')" by auto
  note c = refine_correct [OF tiny_query_ok(1) tiny_store_ok tiny_query_ok(2,3,4) run, folded tiny_request_def]
  have "sorted_list_of_multiset (image_mset neighbor_key (mset ns))
      = take 2 (sorted_list_of_multiset (image_mset neighbor_key (mset (map (exact_neighbor tiny_store tiny_request tiny_query_disk) tiny_candidates))))"
    using c by (intro smallest_part_keys) blast
  then have "sort (map neighbor_key ns) = take 2 (sort (map neighbor_key (map (exact_neighbor tiny_store tiny_request tiny_query_disk) tiny_candidates)))"
    by (simp only: sorted_list_of_multiset_mset mset_map [symmetric])
  also have "\<dots> = [(0x40800000, 9), (0x40800000, 11)]" unfolding tiny_exact_neighbors
    by (simp add: neighbor_key_def f32_smag_def f32_sign_def f32_mag_def)
  finally have "map neighbor_key ns = [(0x40800000, 9), (0x40800000, 11)]" using c by (simp add: sorted_sort_id)
  moreover have "rs_vectors stats' = 4" using c by (simp add: no_stats_def tiny_candidates_def)
  ultimately show ?thesis using run by (intro exI conjI)
qed

theorem read_plans_correct_witness:
  "\<exists>plans. build_read_plans tiny_store tiny_candidates = Inr plans \<and> sorted_wrt plan_before plans
    \<and> mset (concat (map plan_reads plans)) = {#(0, 7, 0), (1, 3, 16), (2, 3, 0), (3, 3, 8)#}"
proof -
  obtain plans where p: "build_read_plans tiny_store tiny_candidates = Inr plans" "sorted_wrt plan_before plans"
    "mset (concat (map plan_reads plans))
      = mset (map (\<lambda>i. (i, lc_list (tiny_candidates ! i), row_pos tiny_store (unat (lc_offset (tiny_candidates ! i))))) [0..<length tiny_candidates])"
    using read_plans_correct [OF tiny_store_ok tiny_query_ok(2,4)] by blast
  have "map (\<lambda>i. (i, lc_list (tiny_candidates ! i), row_pos tiny_store (unat (lc_offset (tiny_candidates ! i))))) [0..<length tiny_candidates]
      = [(0, 7, 0), (1, 3, 16), (2, 3, 0), (3, 3, 8)]"
    by code_simp
  then show ?thesis using p by (simp del: mset_map)
qed

section \<open>A failing read\<close>

text \<open>C35. When one of two reads in flight fails, the reader of asynchronous reads throws while the kernel still
  owns the other one, whose buffer the unwinding of the reader's frame frees; the context is destroyed
  only afterwards, in the handler of \<open>refine\<close>, after which nothing is in flight.\<close>
theorem failed_read_frees_busy_buffer:
  assumes "store_ok st" and "batch_ok st ls plans" and "2 \<le> queue_depth" and "2 \<le> length plans"
    and "ak_pending kern = []" and "ak_submits kern = []" and "ak_waits kern = Ready [(0, Broken err)] # script"
  shows "\<exists>kern'. refine_aio st q (batch_files st ls) plans queue_depth d s kern = (Inl (system_error ''O_DIRECT list read'' err), kern')
    \<and> ak_pending kern' \<noteq> []"
proof -
  let ?m = "min queue_depth (length plans)"
  let ?slots = "replicate queue_depth \<lparr>as_capacity = page_size st, as_plan = 0\<rparr>"
  have "?m \<le> length ?slots" "?m \<le> length plans" by simp_all
  from prepare_first_result [OF assms(1,2) this, of q d] obtain rs slots where
    pre: "res_fold (prepare_first st (batch_files st ls) plans) [0..<?m] ([], ?slots) = Inr (rs, slots)" "map ar_slot rs = [0..<?m]" by blast
  have "length rs = ?m" using pre(2) by (metis length_map length_upt diff_zero)
  then obtain r r' left where rs: "rs = r # r' # left" using assms(3,4) by (cases rs; cases "tl rs") auto
  have "\<exists>stats. submit_requests plans slots rs (snd s) kern = (Inr stats, kern\<lparr>ak_pending := rs\<rparr>)"
    using assms(5,6) by (subst submit_requests.simps) (simp add: rs io_submit_def submit_requests.simps [of _ _ "[]"])
  then obtain stats where sub: "submit_requests plans slots rs (snd s) kern = (Inr stats, kern\<lparr>ak_pending := rs\<rparr>)" by blast
  have "aio_loop st q (batch_files st ls) plans queue_depth d slots ?m ?m s' (kern\<lparr>ak_pending := rs\<rparr>)
      = (Inl (system_error ''O_DIRECT list read'' err), kern\<lparr>ak_pending := r' # left, ak_waits := script\<rparr>)" for s'
    using assms(3,4,7) by (subst aio_loop.simps) (cases s', auto simp: io_getevents_def take_Cons' rs aio_complete_def aio_event_of_def Let_def min_def)
  then have "refine_aio st q (batch_files st ls) plans queue_depth d s kern
      = (Inl (system_error ''O_DIRECT list read'' err), kern\<lparr>ak_pending := r' # left, ak_waits := script\<rparr>)"
    unfolding refine_aio_def Let_def by (simp add: store_buffer_ok [OF assms(1)] pre(1) sub)
  then show ?thesis by simp
qed

definition two_reads :: "read_plan list" where
  "two_reads = [\<lparr>rp_list = 3, rp_offset = 0, rp_bytes = 16, rp_pages = 1, rp_items = [(0, 8)]\<rparr>,
    \<lparr>rp_list = 7, rp_offset = 0, rp_bytes = 16, rp_pages = 1, rp_items = [(1, 0)]\<rparr>]"

theorem failed_read_frees_busy_buffer_witness:
  "\<exists>kern'. refine_aio tiny_store tiny_request (batch_files tiny_store [3, 7]) two_reads 2 tiny_query_disk ([], no_stats)
      (tiny_kernel\<lparr>ak_submits := [], ak_waits := [Ready [(0, Broken ''EIO'')]]\<rparr>)
    = (Inl (Runtime_error ''O_DIRECT list read failed: EIO''), kern') \<and> ak_pending kern' \<noteq> []"
proof -
  let ?kern = "tiny_kernel\<lparr>ak_submits := [], ak_waits := [Ready [(0, Broken ''EIO'')]]\<rparr>"
  have b: "batch_ok tiny_store [3, 7] two_reads" by (simp add: batch_ok_def two_reads_def read_plan_ok_def lessThan_Suc)
  have "2 \<le> (2 :: nat)" "2 \<le> length two_reads" "ak_pending ?kern = []" "ak_submits ?kern = []" "ak_waits ?kern = Ready [(0, Broken ''EIO'')] # []"
    by (simp_all add: two_reads_def tiny_kernel_def)
  from failed_read_frees_busy_buffer [OF tiny_store_ok b this, of tiny_request tiny_query_disk "([], no_stats)"]
  show ?thesis by (simp add: system_error_def)
qed

end
