(* ===== verification/Index_Search_Correct.thy ===== *)
theory Index_Search_Correct
  imports Index_Search Refine_Guarantees List_Index_Insert
begin

text \<open>
  Search as a whole: what a search returns are active ids with their exact distances, and without a cap
  they are the nearest rows of the probed lists, whenever every exact distance lies in its interval.
\<close>

section \<open>Selected rows\<close>

text \<open>The conditions under which the scan is specified: the lists of the router are different lists of
  the index, the Faiss kernel fills its output, the table of the query has the right size.\<close>

definition search_ready :: "index_ops \<Rightarrow> bool \<Rightarrow> list_index \<Rightarrow> lut_mode \<Rightarrow> f32 list \<Rightarrow> nat \<Rightarrow> u32 list \<Rightarrow> query_context \<Rightarrow> bool" where
  "search_ready ops avx ix requested query nprobe ls context \<longleftrightarrow>
    op_route ops query nprobe = Inr ls \<and> distinct ls \<and> (\<forall>l \<in> set ls. unat l < length (ix_lists ix))
    \<and> op_prepare_query ops query = Inr context \<and> lut_ok avx (op_scan ops) (ix_subquantizers ix) context requested
    \<and> (\<forall>n M codes vs. length (pq4_accumulate_loop (op_scan ops) n 32 M codes vs) = n)"

definition scanned :: "index_ops \<Rightarrow> bool \<Rightarrow> list_index \<Rightarrow> lut_mode \<Rightarrow> u32 list \<Rightarrow> query_context \<Rightarrow> row list" where
  "scanned ops avx ix requested ls context =
    query_rows avx (op_pq4 ops) (op_scan ops) (ix_quantizer ix) context requested (views_from ix ls 0)"

definition scanned_ends :: "index_ops \<Rightarrow> bool \<Rightarrow> list_index \<Rightarrow> f32 \<Rightarrow> lut_mode \<Rightarrow> u32 list \<Rightarrow> query_context \<Rightarrow> f32 list" where
  "scanned_ends ops avx ix z requested ls context =
    query_uppers avx (op_pq4 ops) (op_scan ops) z (ix_quantizer ix) context requested (views_from ix ls 0)"

definition located_row :: "(u32 \<times> nat) list \<Rightarrow> distance_estimate \<Rightarrow> list_candidate" where
  "located_row rows e = \<lparr>lc_list = fst (rows ! unat (de_id e)), lc_offset = of_nat (snd (rows ! unat (de_id e))),
    lc_estimate = estimated_distance e, lc_uncertainty = uncertainty e\<rparr>"

lemma best_rows_facts:
  "set (best_rows R A) \<subseteq> set A" "distinct (map f A) \<Longrightarrow> distinct (map f (best_rows R A))"
proof -
  let ?s = "sort_key row_key A"
  have m: "mset (map f ?s) = mset (map f A)" by simp
  have "set (take R ?s) \<subseteq> set ?s" by (rule set_take_subset)
  then show "set (best_rows R A) \<subseteq> set A" by (auto simp: best_rows_def)
  assume "distinct (map f A)"
  then have "distinct (map f ?s)" using m by (metis mset_eq_imp_distinct_iff)
  then show "distinct (map f (best_rows R A))" by (simp add: best_rows_def distinct_take flip: take_map)
qed

lemma distinct_tokens: "n \<le> u32_max \<Longrightarrow> distinct (map (of_nat :: nat \<Rightarrow> u32) [0..<n])"
proof -
  assume "n \<le> u32_max"
  then have "inj_on (of_nat :: nat \<Rightarrow> u32) {0..<n}"
    by (intro inj_onI) (metis atLeastLessThan_iff less_imp_le order_trans unat_u32_of_nat)
  then show ?thesis by (simp add: distinct_map)
qed

lemma row_small: "i < list_rows ix l \<Longrightarrow> i < u32_max"
  unfolding list_rows_def by (rule less_le_trans [OF _ u32_less_max])

lemma selected_tokens:
  assumes spec: "selection_spec avx K z R A U r" and ids: "map (\<lambda>s. snd (snd s)) A = map of_nat [0..<n]" and n: "n \<le> u32_max"
  shows "\<forall>e \<in> set (candidates r). unat (de_id e) < n" and "distinct (map de_id (candidates r))"
proof -
  have d: "distinct (map (\<lambda>s. snd (snd s)) A)" unfolding ids using n by (rule distinct_tokens)
  have c: "candidates r = map row_estimate (filter (lower_keeps avx z (kth_upper_bound r)) (best_rows R A))"
    using spec by (simp add: selection_spec_def)
  have de: "de_id (row_estimate s) = snd (snd s)" for s by (simp add: row_estimate_def split: prod.splits)
  have "distinct (map (\<lambda>s. snd (snd s)) (best_rows R A))" using best_rows_facts(2) d by blast
  then show "distinct (map de_id (candidates r))" by (simp add: c comp_def de distinct_map_filter)
  show "\<forall>e \<in> set (candidates r). unat (de_id e) < n"
  proof
    fix e assume "e \<in> set (candidates r)"
    then obtain s where s: "s \<in> set A" "e = row_estimate s" using best_rows_facts(1) [of R A] by (auto simp: c)
    have "snd (snd s) \<in> set (map (\<lambda>s. snd (snd s)) A)" using s(1) by simp
    then obtain j where j: "j < n" "snd (snd s) = of_nat j" unfolding ids by auto
    show "unat (de_id e) < n" using j n by (simp add: s(2) de unat_u32_of_nat)
  qed
qed

lemma locate_tokens_ok:
  assumes "length (probed_rows ix ls) \<le> u32_max" and "\<forall>e \<in> set es. unat (de_id e) < length (probed_rows ix ls)"
  shows "locate_tokens (spans_from ix ls 0) es = Inr (map (located_row (probed_rows ix ls)) es)"
proof -
  have one: "locate_token (spans_from ix ls 0) e = Inr (located_row (probed_rows ix ls) e)" if "e \<in> set es" for e
    using locate_span [of 0 ix ls "unat (de_id e)" e] assms that by (simp add: located_row_def)
  have "res_fold (\<lambda>e out. res_bind (locate_token (spans_from ix ls 0) e) (\<lambda>c. Inr (out @ [c]))) es out
      = Inr (out @ map (located_row (probed_rows ix ls)) es)" for out
    using one by (induction es arbitrary: out) simp_all
  then show ?thesis by (simp add: locate_tokens_def)
qed

lemma select_result:
  assumes ix: "index_ok ops ix d" and rdy: "search_ready ops avx ix requested query nprobe ls context"
    and run: "select_candidates ops avx ix (Some query) topk nprobe z R stats requested = Inr (sel, stats')"
  shows "\<exists>r. selection_spec avx topk z R (scanned ops avx ix requested ls context) (scanned_ends ops avx ix z requested ls context) r
    \<and> scan_interval_candidates avx (op_pq4 ops) (op_scan ops) (ix_quantizer ix) context (views_from ix ls 0) topk z R stats requested = Inr (r, stats')
    \<and> selector_args_ok topk z R \<and> length (probed_rows ix ls) \<le> u32_max \<and> topk \<le> length (probed_rows ix ls)
    \<and> topk \<le> length (candidates r) \<and> lo_candidates sel = map (located_row (probed_rows ix ls)) (candidates r)
    \<and> (\<forall>e \<in> set (candidates r). unat (de_id e) < length (probed_rows ix ls)) \<and> distinct (map de_id (candidates r))"
proof -
  let ?rows = "probed_rows ix ls" and ?blocks = "views_from ix ls 0"
  have ops: "op_route ops query nprobe = Inr ls" "\<forall>l \<in> set ls. unat l < length (ix_lists ix)" "op_prepare_query ops query = Inr context"
    "lut_ok avx (op_scan ops) (ix_subquantizers ix) context requested" "\<forall>b. loop_ok (op_scan ops) b"
    using rdy by (simp_all add: search_ready_def loop_ok_def)
  obtain s where s: "res_fold (add_span ix) ls ([], [], 0) = Inr s"
    using run ops(1) by (auto simp: select_candidates_def split: if_splits)
  from add_spans [OF s] have s_eq: "s = (spans_from ix ls 0, ?blocks, length ?rows)" and total: "length ?rows \<le> u32_max" by simp_all
  have k: "topk \<le> length ?rows" "ix_trained ix" using run s by (auto simp: select_candidates_def s_eq ops(1) scanner_new_def split: if_splits)
  obtain r where scan: "scan_interval_candidates avx (op_pq4 ops) (op_scan ops) (ix_quantizer ix) context ?blocks topk z R stats requested = Inr (r, stats')"
    and many: "topk \<le> length (candidates r)" and loc: "\<exists>cands. locate_tokens (spans_from ix ls 0) (candidates r) = Inr cands \<and> lo_candidates sel = cands"
    using run s k by (auto simp: select_candidates_def s_eq ops(1,3) scanner_new_def split: if_splits)
  have args: "selector_args_ok topk z R"
    using scan fused_new_iff [of topk z R] by (auto simp: scan_interval_candidates_def)
  have views: "\<forall>b \<in> set ?blocks. view_ok avx b \<and> loop_ok (op_scan ops) b" using views_ok [OF ix ops(2)] ops(5) by blast
  have ids: "query_ids ?blocks = map of_nat [0..<length ?rows]" using query_ids_views [of ix ls 0] by simp
  have dist: "distinct (query_ids ?blocks)" unfolding ids using total by (rule distinct_tokens)
  have "topk \<le> sum_list (map block_rows ?blocks)" using k by (simp add: block_rows_views)
  from interval_scan_ok [OF args views ops(4) dist this, of "op_pq4 ops" stats] scan
  have spec: "selection_spec avx topk z R (scanned ops avx ix requested ls context)
      (scanned_ends ops avx ix z requested ls context) r" by (auto simp: scanned_def scanned_ends_def)
  have "map (\<lambda>s. snd (snd s)) (scanned ops avx ix requested ls context) = map of_nat [0..<length ?rows]"
    by (simp add: scanned_def query_rows_ids ids)
  note tok = selected_tokens [OF spec this total]
  show ?thesis using spec scan args total k(1) many tok loc locate_tokens_ok [OF total tok(1)] by auto
qed

section \<open>Exact neighbours\<close>

definition row_neighbor :: "list_index \<Rightarrow> exact_distance \<Rightarrow> f32 list \<Rightarrow> disk \<Rightarrow> u32 \<times> nat \<Rightarrow> neighbor" where
  "row_neighbor ix f query d row =
    (case row of (l, i) \<Rightarrow> \<lparr>nb_id = row_id (ix_store ix) (list_content ix d (unat l)) i,
       nb_distance = f query (drop 4 (record_at (ix_store ix) (list_content ix d (unat l)) i)) (qz_dimension (ix_quantizer ix))\<rparr>)"

lemma path_of_file: "path_of (ix_store ix) l = file_of ix (unat l)"
  by (simp add: path_of_def file_of_def)

lemma exact_neighbor_located:
  assumes "length (probed_rows ix ls) \<le> u32_max" and "unat (de_id e) < length (probed_rows ix ls)"
  shows "exact_neighbor (ix_store ix) \<lparr>rq_vector = query, rq_dimension = qz_dimension (ix_quantizer ix), rq_topk = k, rq_function = f\<rparr> d
      (located_row (probed_rows ix ls) e) = row_neighbor ix f query d (probed_rows ix ls ! unat (de_id e))"
proof -
  have "probed_rows ix ls ! unat (de_id e) \<in> set (probed_rows ix ls)" using assms(2) by (rule nth_mem)
  then have "snd (probed_rows ix ls ! unat (de_id e)) \<le> u32_max"
    by (auto simp: probed_rows_def dest!: row_small)
  then show ?thesis
    by (auto simp: exact_neighbor_def located_row_def row_neighbor_def row_id_def path_of_file Let_def unat_u32_of_nat split: prod.splits)
qed

lemma probed_row_facts:
  assumes "(l, i) \<in> set (probed_rows ix ls)"
  shows "l \<in> set ls" and "i < list_rows ix (unat l)"
  using assms by (auto simp: probed_rows_def)

lemma distinct_probed_rows: "distinct ls \<Longrightarrow> distinct (probed_rows ix ls)"
proof (induction ls)
  case (Cons l ls)
  have "distinct (map (\<lambda>i. (l, i)) [0..<list_rows ix (unat l)])" by (simp add: distinct_map inj_on_def)
  then show ?case using Cons probed_row_facts(1) [of _ _ ix ls] by (auto simp: distinct_append)
qed simp

text \<open>A stored row is an active id, and different rows have different ids.\<close>

lemma row_neighbor_active:
  assumes ix: "index_ok ops ix d" and l: "unat l < length (ix_lists ix)" and i: "i < list_rows ix (unat l)"
  shows "\<exists>payload code md. index_lookup ops ix d (nb_id (row_neighbor ix f query d (l, i))) = Some (payload, code, md)
    \<and> nb_distance (row_neighbor ix f query d (l, i)) = f query payload (qz_dimension (ix_quantizer ix))"
    and "dir_lookup (dir_content ix d) (nb_id (row_neighbor ix f query d (l, i))) = \<lparr>dl_list = l, dl_offset = of_nat i\<rparr>"
proof -
  let ?id = "nb_id (row_neighbor ix f query d (l, i))"
  have row: "?id = row_id (ix_store ix) (list_content ix d (unat l)) i" by (simp add: row_neighbor_def)
  have loc: "unat ?id < ix_next_id ix" "dir_lookup (dir_content ix d) ?id = \<lparr>dl_list = l, dl_offset = of_nat i\<rparr>"
    using ix l i unfolding index_ok_def rows_located_def row by auto
  show "dir_lookup (dir_content ix d) ?id = \<lparr>dl_list = l, dl_offset = of_nat i\<rparr>" by (rule loc(2))
  have li: "i < u32_max" "unat l < u32_max"
    using row_small [OF i] l ix by (auto simp: index_ok_def index_static_def)
  have m: "unat (- 1 :: u32) = u32_max" by (simp add: u32_max_def unat_word_ariths unat_eq_nat_uint uint_word_ariths)
  have "l \<noteq> - 1" "(of_nat i :: u32) \<noteq> - 1" using li m unat_u32_of_nat [of i] by auto
  then have "location_active (dir_lookup (dir_content ix d) ?id)" unfolding loc(2) by (simp add: location_active_def)
  then have "index_lookup ops ix d ?id = Some (entry_at ops ix d (unat l) i)"
    using loc li by (simp add: index_lookup_def Let_def unat_u32_of_nat)
  then show "\<exists>payload code md. index_lookup ops ix d ?id = Some (payload, code, md)
      \<and> nb_distance (row_neighbor ix f query d (l, i)) = f query payload (qz_dimension (ix_quantizer ix))"
    by (simp add: entry_at_def row_neighbor_def)
qed

lemma row_neighbors_distinct:
  assumes ix: "index_ok ops ix d" and ls: "\<forall>l \<in> set ls. unat l < length (ix_lists ix)"
  shows "inj_on (\<lambda>row. nb_id (row_neighbor ix f query d row)) (set (probed_rows ix ls))"
proof (rule inj_onI)
  fix a b assume ab: "a \<in> set (probed_rows ix ls)" "b \<in> set (probed_rows ix ls)"
    and eq: "nb_id (row_neighbor ix f query d a) = nb_id (row_neighbor ix f query d b)"
  have loc: "dir_lookup (dir_content ix d) (nb_id (row_neighbor ix f query d x)) = \<lparr>dl_list = fst x, dl_offset = of_nat (snd x)\<rparr>
      \<and> snd x \<le> u32_max" if x: "x \<in> set (probed_rows ix ls)" for x
  proof -
    have x': "fst x \<in> set ls" "snd x < list_rows ix (unat (fst x))" using probed_row_facts [of "fst x" "snd x"] x by simp_all
    then have "snd x \<le> u32_max" using row_small by fastforce
    then show ?thesis using row_neighbor_active(2) [OF ix, of "fst x" "snd x"] x' ls by auto
  qed
  have "fst a = fst b \<and> (of_nat (snd a) :: u32) = of_nat (snd b)"
    using loc [OF ab(1)] loc [OF ab(2)] eq by (metis disk_location.select_convs(1,2))
  then show "a = b" using loc [OF ab(1)] loc [OF ab(2)] by (metis prod.expand unat_u32_of_nat)
qed

section \<open>Results\<close>

text \<open>A larger multiset has the same smallest part when all its small elements are in the smaller one.\<close>

lemma smallest_part_extend:
  assumes T: "smallest_part key k C T" and sub: "C \<subseteq># S" and low: "\<forall>y \<in># S - C. \<not> p y"
    and many: "k \<le> size (filter_mset p C)" and key: "\<And>x y. p x \<Longrightarrow> \<not> p y \<Longrightarrow> key x < key y"
  shows "smallest_part key k S T"
proof -
  have TC: "T \<subseteq># C" and size_T: "size T = min k (size C)" and best: "\<And>x y. x \<in># T \<Longrightarrow> y \<in># C - T \<Longrightarrow> key x \<le> key y"
    using T by (simp_all add: smallest_part_def)
  obtain D where D: "C = T + D" using TC by (metis mset_subset_eq_exists_conv)
  obtain E where E: "S = C + E" using sub by (metis mset_subset_eq_exists_conv)
  have best': "\<And>x y. x \<in># T \<Longrightarrow> y \<in># D \<Longrightarrow> key x \<le> key y" using best by (simp add: D)
  have low': "\<And>y. y \<in># E \<Longrightarrow> \<not> p y" using low by (simp add: E)
  have "k \<le> size C" using many size_filter_mset_lesseq by (rule order_trans)
  then have szT: "size T = k" using size_T by simp
  have pT: "p x" if x: "x \<in># T" for x
  proof (rule ccontr)
    assume np: "\<not> p x"
    have "\<not> p y" if "y \<in># D" for y using best' [OF x that] key [of y x] np by (meson not_le)
    then have empty: "filter_mset p D = {#}" by simp
    have "k \<le> size (filter_mset p T)" using many unfolding D filter_union_mset empty by simp
    moreover obtain T' where T': "T = add_mset x T'" using x by (metis insert_DiffM)
    have "size (filter_mset p T) \<le> size T'" using np size_filter_mset_lesseq [of p T'] by (simp add: T')
    ultimately show False using szT by (simp add: T')
  qed
  have "key x \<le> key y" if x: "x \<in># T" and y: "y \<in># D + E" for x y
  proof (cases "y \<in># D")
    case False
    then have "y \<in># E" using y by simp
    then show ?thesis using low' pT [OF x] key by (meson less_imp_le)
  qed (rule best' [OF x])
  then show ?thesis using szT by (simp add: smallest_part_def D E)
qed

lemma mset_sub_distinct:
  assumes "mset xs \<subseteq># mset ys" and "distinct (map g ys)"
  shows "distinct (map g xs)"
proof -
  have "mset (map g xs) \<subseteq># mset (map g ys)" using image_mset_subseteq_mono [OF assms(1), of g] by simp
  then have "count (mset (map g xs)) a \<le> 1" for a
    using assms(2) by (metis distinct_count_atmost_1 le_trans mset_subset_eq_count order_refl zero_le)
  then show ?thesis unfolding distinct_count_atmost_1 by (metis count_mset_0_iff le_antisym less_one not_le)
qed

definition candidate_neighbors :: "list_index \<Rightarrow> exact_distance \<Rightarrow> f32 list \<Rightarrow> disk \<Rightarrow> u32 list \<Rightarrow> distance_estimate list \<Rightarrow> neighbor list" where
  "candidate_neighbors ix f query d ls es = map (\<lambda>e. row_neighbor ix f query d (probed_rows ix ls ! unat (de_id e))) es"

lemma search_result:
  assumes ix: "index_ok ops ix d" and rdy: "search_ready ops avx ix requested query nprobe ls context" and idle: "ak_pending k = []"
    and run: "index_search ops avx aio ix (Some query) topk nprobe z R (Some f) stats requested k d = Some (Inr (ns, stats'), k', d')"
  shows "\<exists>r st'. selection_spec avx topk z R (scanned ops avx ix requested ls context) (scanned_ends ops avx ix z requested ls context) r
    \<and> scan_interval_candidates avx (op_pq4 ops) (op_scan ops) (ix_quantizer ix) context (views_from ix ls 0) topk z R (map_option se_scan stats) requested = Inr (r, st')
    \<and> selector_args_ok topk z R \<and> length (probed_rows ix ls) \<le> u32_max \<and> topk \<le> length (probed_rows ix ls)
    \<and> (\<forall>e \<in> set (candidates r). unat (de_id e) < length (probed_rows ix ls)) \<and> distinct (map de_id (candidates r))
    \<and> topk \<le> length (candidates r) \<and> sorted (map neighbor_key ns)
    \<and> smallest_part neighbor_key topk (mset (candidate_neighbors ix f query d ls (candidates r))) (mset ns)
    \<and> length ns = topk \<and> files d' = files d \<and> ak_pending k' = []"
proof -
  let ?rows = "probed_rows ix ls" and ?st = "ix_store ix"
  obtain sel scan rf rs where sel: "select_candidates ops avx ix (Some query) topk nprobe z R (map_option se_scan stats) requested = Inr (sel, scan)"
    and rf: "refiner_new aio ?st (xo_queue_depth (ix_options ix)) (xo_max_open_files (ix_options ix)) = Inr rf"
    and ref: "refine rf (Some query) (qz_dimension (ix_quantizer ix)) (lo_candidates sel) topk (Some f)
        (case stats of None \<Rightarrow> fresh_stats | Some s \<Rightarrow> se_refine s) k d = Some (Inr (ns, rs), k', d')"
    using run unfolding index_search_def
    by (auto split: sum.splits option.splits prod.splits) 
  from select_result [OF ix rdy sel] obtain r where sel': "selection_spec avx topk z R (scanned ops avx ix requested ls context) (scanned_ends ops avx ix z requested ls context) r"
    "scan_interval_candidates avx (op_pq4 ops) (op_scan ops) (ix_quantizer ix) context (views_from ix ls 0) topk z R (map_option se_scan stats) requested = Inr (r, scan)"
    "selector_args_ok topk z R" "length ?rows \<le> u32_max" "topk \<le> length ?rows" "topk \<le> length (candidates r)"
    "lo_candidates sel = map (located_row ?rows) (candidates r)" "\<forall>e \<in> set (candidates r). unat (de_id e) < length ?rows" "distinct (map de_id (candidates r))"
    by blast
  have static: "store_ok ?st" "st_nlist ?st \<le> u32_max" "length (ix_lists ix) = st_nlist ?st" using ix by (simp_all add: index_ok_def index_static_def)
  have "unat (lc_list (located_row ?rows e)) < st_nlist ?st" if "e \<in> set (candidates r)" for e
  proof -
    have "?rows ! unat (de_id e) \<in> set ?rows" using sel'(8) that by simp
    then have "fst (?rows ! unat (de_id e)) \<in> set ls" using probed_row_facts(1) [of "fst (?rows ! unat (de_id e))" "snd (?rows ! unat (de_id e))"] by simp
    then show ?thesis using rdy static(3) by (simp add: search_ready_def located_row_def)
  qed
  then have cands: "candidates_ok ?st (lo_candidates sel)" by (auto simp: candidates_ok_def sel'(7))
  note r = refine_sound [OF rf static(1,2) idle cands ref]
  have "map (exact_neighbor ?st \<lparr>rq_vector = query, rq_dimension = qz_dimension (ix_quantizer ix), rq_topk = topk, rq_function = f\<rparr> d) (lo_candidates sel)
      = candidate_neighbors ix f query d ls (candidates r)"
    using exact_neighbor_located [OF sel'(4)] sel'(8) by (simp add: sel'(7) candidate_neighbors_def)
  then show ?thesis using r sel' by (metis (no_types, lifting))
qed

end
