(* ===== verification/Search_Guarantees.thy ===== *)
theory Search_Guarantees
  imports Index_Search_Correct Refine_Guarantees
begin

text \<open>
  The properties of a search in the external index, with an index of three vectors as the concrete input.
\<close>

section \<open>Helper lemmas\<close>

lemma candidate_neighbors_distinct:
  assumes ix: "index_ok ops ix d" and ls: "\<forall>l \<in> set ls. unat l < length (ix_lists ix)" "distinct ls"
    and es: "\<forall>e \<in> set es. unat (de_id e) < length (probed_rows ix ls)" "distinct (map de_id es)"
  shows "distinct (map nb_id (candidate_neighbors ix f query d ls es))"
proof -
  let ?rows = "probed_rows ix ls"
  have "inj_on (\<lambda>e. ?rows ! unat (de_id e)) (set es)"
  proof (rule inj_onI)
    fix a b assume ab: "a \<in> set es" "b \<in> set es" "?rows ! unat (de_id a) = ?rows ! unat (de_id b)"
    then have "unat (de_id a) = unat (de_id b)"
      using nth_eq_iff_index_eq [OF distinct_probed_rows [OF ls(2)]] es(1) by blast
    then have "de_id a = de_id b" by (simp only: word_unat_eq_iff)
    then show "a = b" using ab es(2) by (auto simp: distinct_map inj_on_def)
  qed
  moreover have "distinct es" using es(2) by (rule distinct_map [THEN iffD1, THEN conjunct1])
  ultimately have "distinct (map (\<lambda>e. ?rows ! unat (de_id e)) es)" by (simp add: distinct_map)
  moreover have "set (map (\<lambda>e. ?rows ! unat (de_id e)) es) \<subseteq> set ?rows" using es(1) by auto
  then have "inj_on (\<lambda>row. nb_id (row_neighbor ix f query d row)) (set (map (\<lambda>e. ?rows ! unat (de_id e)) es))"
    using row_neighbors_distinct [OF ix ls(1)] by (rule inj_on_subset [rotated])
  ultimately have "distinct (map (\<lambda>row. nb_id (row_neighbor ix f query d row)) (map (\<lambda>e. ?rows ! unat (de_id e)) es))"
    by (subst distinct_map) blast
  then show ?thesis by (simp add: candidate_neighbors_def comp_def)
qed

lemma probed_rows_le_active:
  assumes ix: "index_ok ops ix d" and ls: "\<forall>l \<in> set ls. unat l < length (ix_lists ix)" "distinct ls"
  shows "length (probed_rows ix ls) \<le> ix_active ix"
proof -
  have "length (probed_rows ix ls) = (\<Sum>l\<leftarrow>ls. list_rows ix (unat l))" by (induction ls) simp_all
  also have "\<dots> = (\<Sum>l\<in>set ls. list_rows ix (unat l))" using ls(2) by (simp add: sum_list_distinct_conv_sum_set)
  also have "\<dots> = (\<Sum>j\<in>unat ` set ls. list_rows ix j)" by (subst sum.reindex) (auto simp: inj_on_def word_unat_eq_iff)
  also have "\<dots> \<le> (\<Sum>j<length (ix_lists ix). list_rows ix j)" using ls(1) by (intro sum_mono2) auto
  also have "\<dots> = ix_active ix" using ix by (simp add: index_ok_def lists_ok_def)
  finally show ?thesis .
qed

lemma total_rows:
  assumes "index_ok ops ix d" and "\<forall>l \<in> set ls. unat l < length (ix_lists ix)" "distinct ls"
  shows "length (probed_rows ix ls) \<le> u32_max"
  using probed_rows_le_active [OF assms] assms(1) by (simp add: index_ok_def lists_ok_def)

text \<open>The rows whose value is at most the K-th smallest value.\<close>

lemma filter_kth_size:
  fixes g :: "'a \<Rightarrow> int"
  assumes "0 < k" and "k \<le> length xs"
  shows "k \<le> length (filter (\<lambda>x. g x \<le> sort (map g xs) ! (k - 1)) xs)"
proof -
  have "k - 1 < length (filter (\<lambda>v. v \<le> sort (map g xs) ! (k - 1)) (map g xs))"
    using kth_le_iff [of "k - 1" "map g xs" "sort (map g xs) ! (k - 1)"] assms by simp
  then show ?thesis using assms(1) by (simp add: filter_map comp_def)
qed

lemma set_sub_mset: "distinct xs \<Longrightarrow> distinct ys \<Longrightarrow> set xs \<subseteq> set ys \<Longrightarrow> mset xs \<subseteq># mset ys"
  using subset_imp_msubset_mset_set [of "set xs" "set ys"] by (simp add: mset_set_set)

lemma row_estimate_id: "de_id (row_estimate s) = snd (snd s)"
  by (simp add: row_estimate_def split: prod.splits)

lemma scanned_token:
  assumes "j < length (probed_rows ix ls)"
  shows "j < length (scanned ops avx ix requested ls context)" and "snd (snd (scanned ops avx ix requested ls context ! j)) = of_nat j"
proof -
  have ids: "map (\<lambda>s. snd (snd s)) (scanned ops avx ix requested ls context) = map of_nat [0..<length (probed_rows ix ls)]"
    using query_ids_views [of ix ls 0] by (simp add: scanned_def query_rows_ids)
  have "length (scanned ops avx ix requested ls context) = length (probed_rows ix ls)" using arg_cong [OF ids, of length] by simp
  then show l: "j < length (scanned ops avx ix requested ls context)" using assms by simp
  show "snd (snd (scanned ops avx ix requested ls context ! j)) = of_nat j"
    using arg_cong [OF ids, of "\<lambda>xs. xs ! j"] l assms by simp
qed

text \<open>The exact distance of a probed row lies between the endpoints of its estimate.\<close>

definition distances_enclosed :: "index_ops \<Rightarrow> bool \<Rightarrow> list_index \<Rightarrow> lut_mode \<Rightarrow> u32 list \<Rightarrow> query_context \<Rightarrow> f32 \<Rightarrow> exact_distance \<Rightarrow> f32 list \<Rightarrow> disk \<Rightarrow> bool" where
  "distances_enclosed ops avx ix requested ls context z f query d \<longleftrightarrow>
    (\<forall>j < length (probed_rows ix ls).
      let e = row_estimate (scanned ops avx ix requested ls context ! j);
          x = nb_distance (row_neighbor ix f query d (probed_rows ix ls ! j))
      in f32_le (estimate_lower z e) x \<and> f32_le x (estimate_upper z e))"

lemma search_exact_result:
  assumes ix: "index_ok ops ix d" and rdy: "search_ready ops avx ix requested query nprobe ls context" and idle: "ak_pending k = []"
    and run: "index_search ops avx aio ix (Some query) topk nprobe z R (Some f) stats requested k d = Some (Inr (ns, stats'), k', d')"
    and cap: "R = 0 \<or> length (probed_rows ix ls) \<le> R" and signs: "radius_signs_ok (ix_quantizer ix) context"
    and fin: "avx \<longrightarrow> (\<forall>r \<in> set (scanned ops avx ix requested ls context). f32_is_finite (fst r))"
    and enc: "distances_enclosed ops avx ix requested ls context z f query d"
  shows "smallest_part neighbor_key topk (mset (map (row_neighbor ix f query d) (probed_rows ix ls))) (mset ns)"
proof -
  let ?rows = "probed_rows ix ls" and ?A = "scanned ops avx ix requested ls context" and ?blocks = "views_from ix ls 0"
  let ?n = "length ?rows" and ?nb = "row_neighbor ix f query d"
  obtain r st' where spec: "selection_spec avx topk z R ?A (scanned_ends ops avx ix z requested ls context) r"
    and scan: "scan_interval_candidates avx (op_pq4 ops) (op_scan ops) (ix_quantizer ix) context ?blocks topk z R (map_option se_scan stats) requested = Inr (r, st')"
    and args: "selector_args_ok topk z R" and total: "?n \<le> u32_max" and topk: "topk \<le> ?n"
    and tok: "\<forall>e \<in> set (candidates r). unat (de_id e) < ?n" "distinct (map de_id (candidates r))"
    and part: "smallest_part neighbor_key topk (mset (candidate_neighbors ix f query d ls (candidates r))) (mset ns)"
    using search_result [OF ix rdy idle run] by blast
  define D where "D t = nb_distance (?nb (?rows ! unat t))" for t :: u32
  have ops: "\<forall>l \<in> set ls. unat l < length (ix_lists ix)" "lut_ok avx (op_scan ops) (ix_subquantizers ix) context requested" "\<forall>b. loop_ok (op_scan ops) b"
    using rdy by (simp_all add: search_ready_def loop_ok_def)
  have views: "\<forall>b \<in> set ?blocks. view_ok avx b \<and> loop_ok (op_scan ops) b" using views_ok [OF ix ops(1)] ops(3) by blast
  have ids: "query_ids ?blocks = map of_nat [0..<?n]" using query_ids_views [of ix ls 0] by simp
  have dist: "distinct (query_ids ?blocks)" unfolding ids using total by (rule distinct_tokens)
  have rows: "sum_list (map block_rows ?blocks) = ?n" by (rule block_rows_views)
  have A: "?A = query_rows avx (op_pq4 ops) (op_scan ops) (ix_quantizer ix) context requested ?blocks" by (simp add: scanned_def)
  have U: "scanned_ends ops avx ix z requested ls context = query_uppers avx (op_pq4 ops) (op_scan ops) z (ix_quantizer ix) context requested ?blocks"
    by (simp add: scanned_ends_def)
  have lenA: "length ?A = ?n" by (simp add: A query_rows_def length_concat comp_def rows)
  have true: "\<forall>s \<in> set ?A. f32_le (estimate_lower z (row_estimate s)) (D (snd (snd s))) \<and> f32_le (D (snd (snd s))) (estimate_upper z (row_estimate s))"
  proof
    fix s assume "s \<in> set ?A"
    then obtain j where j: "j < ?n" "s = ?A ! j" unfolding in_set_conv_nth lenA by blast
    have "snd (snd s) = of_nat j" using scanned_token(2) [OF j(1)] j(2) by simp
    then have "D (snd (snd s)) = nb_distance (?nb (?rows ! j))" using j(1) total by (simp add: D_def unat_u32_of_nat)
    then show "f32_le (estimate_lower z (row_estimate s)) (D (snd (snd s))) \<and> f32_le (D (snd (snd s))) (estimate_upper z (row_estimate s))"
      using enc j by (simp add: distances_enclosed_def Let_def)
  qed
  have a: "0 < topk" "f32_is_finite z" "\<not> f32_lt z 0" using args by (simp_all add: selector_args_ok_def)
  have topA: "topk \<le> length ?A" using topk lenA by simp
  have "\<not> truncated r" using spec cap lenA by (auto simp: selection_spec_def)
  note kept = true_neighbour_kept [OF spec a(1) topA query_rows_enclosed(2) [OF signs a(2,3), of avx "op_pq4 ops" "op_scan ops" requested ?blocks, folded A U]
      query_rows_enclosed(1) [OF signs a(2,3), of avx "op_pq4 ops" "op_scan ops" requested ?blocks, folded A] fin true this]
  define kth where "kth = sort (map (\<lambda>j. f32_smag (D (of_nat j))) [0..<?n]) ! (topk - 1)"
  have kthA: "sort (map (\<lambda>s. f32_smag (D (snd (snd s)))) ?A) ! (topk - 1) = kth"
  proof -
    have "map (\<lambda>s. f32_smag (D (snd (snd s)))) ?A = map (\<lambda>j. f32_smag (D (of_nat j))) [0..<?n]"
      by (rule nth_equalityI) (simp_all add: lenA scanned_token(2))
    then show ?thesis by (simp add: kth_def)
  qed
  have close: "of_nat j \<in> de_id ` set (candidates r)" if j: "j < ?n" "f32_smag (D (of_nat j)) \<le> kth" for j
  proof -
    have s: "?A ! j \<in> set ?A" using j(1) lenA by simp
    have "row_estimate (?A ! j) \<in> set (candidates r)"
      using kept [OF s] j(2) unfolding kthA scanned_token(2) [OF j(1)] .
    moreover have "de_id (row_estimate (?A ! j)) = of_nat j" unfolding row_estimate_id by (rule scanned_token(2) [OF j(1)])
    ultimately show ?thesis by (metis imageI)
  qed
  let ?tok = "map (\<lambda>e. unat (de_id e)) (candidates r)"
  have dtok: "distinct ?tok" using tok(2) by (auto simp: distinct_map inj_on_def word_unat_eq_iff)
  have stok: "set ?tok \<subseteq> {0..<?n}" using tok(1) by auto
  let ?p = "\<lambda>x. f32_smag (nb_distance x) \<le> kth"
  have Dj: "f32_smag (D (of_nat j)) = f32_smag (nb_distance (?nb (?rows ! j)))" if "j < ?n" for j
    using that total by (simp add: D_def unat_u32_of_nat)
  have C: "mset (candidate_neighbors ix f query d ls (candidates r)) = image_mset (\<lambda>j. ?nb (?rows ! j)) (mset ?tok)"
    unfolding candidate_neighbors_def mset_map multiset.map_comp comp_def ..
  have S: "mset (map ?nb ?rows) = image_mset (\<lambda>j. ?nb (?rows ! j)) (mset [0..<?n])"
    by (subst map_nth [of ?rows, symmetric], unfold mset_map multiset.map_comp comp_def) (simp add: map_nth)
  have toksub: "mset ?tok \<subseteq># mset [0..<?n]"
    using stok dtok by (intro set_sub_mset) simp_all
  have sub: "mset (candidate_neighbors ix f query d ls (candidates r)) \<subseteq># mset (map ?nb ?rows)"
    unfolding C S using toksub by (rule image_mset_subseteq_mono)
  have rest: "mset (map ?nb ?rows) - mset (candidate_neighbors ix f query d ls (candidates r))
      = image_mset (\<lambda>j. ?nb (?rows ! j)) (mset [0..<?n] - mset ?tok)"
    unfolding C S using toksub by (simp add: image_mset_Diff)
  have low: "\<forall>y \<in># mset (map ?nb ?rows) - mset (candidate_neighbors ix f query d ls (candidates r)). \<not> ?p y"
  proof
    fix y assume "y \<in># mset (map ?nb ?rows) - mset (candidate_neighbors ix f query d ls (candidates r))"
    then obtain j where y: "y = ?nb (?rows ! j)" and j: "j \<in># mset [0..<?n] - mset ?tok" unfolding rest by auto
    have jn: "j < ?n" using in_diffD [OF j] by simp
    have "count (mset ?tok) j < count (mset [0..<?n]) j" using j by (simp add: in_diff_count)
    then have "j \<notin> set ?tok" using dtok by (metis count_mset_0_iff distinct_count_atmost_1 distinct_upt less_numeral_extra(3) not_less_zero less_one)
    moreover have "unat (of_nat j :: u32) = j" using jn total by (simp add: unat_u32_of_nat)
    ultimately have "of_nat j \<notin> de_id ` set (candidates r)" by (auto simp: image_iff)
    then show "\<not> ?p y" using close [OF jn] Dj [OF jn] y by auto
  qed
  have "topk \<le> length (filter (\<lambda>j. f32_smag (D (of_nat j)) \<le> kth) [0..<?n])"
    unfolding kth_def using a(1) topk by (intro filter_kth_size) simp_all
  also have "\<dots> \<le> size (filter_mset ?p (mset (candidate_neighbors ix f query d ls (candidates r))))"
  proof -
    have "set (filter (\<lambda>j. f32_smag (D (of_nat j)) \<le> kth) [0..<?n]) \<subseteq> set (filter (\<lambda>j. ?p (?nb (?rows ! j))) ?tok)"
      using close total by (auto simp: Dj unat_u32_of_nat image_iff) (metis unat_u32_of_nat less_imp_le order_trans)
    then have "length (filter (\<lambda>j. f32_smag (D (of_nat j)) \<le> kth) [0..<?n]) \<le> length (filter (\<lambda>j. ?p (?nb (?rows ! j))) ?tok)"
      by (metis card_mono List.finite_set distinct_card distinct_filter distinct_upt dtok)
    then show ?thesis by (simp only: C filter_mset_image_mset size_image_mset mset_filter [symmetric] size_mset)
  qed
  finally have many: "topk \<le> size (filter_mset ?p (mset (candidate_neighbors ix f query d ls (candidates r))))" .
  show ?thesis
    by (rule smallest_part_extend [OF part sub low many]) (auto simp: neighbor_key_def less_prod_def)
qed

section \<open>A search that returns\<close>

lemma select_returns:
  assumes ix: "index_ok ops ix d" and rdy: "search_ready ops avx ix requested query nprobe ls context" and args: "selector_args_ok topk z R"
    and fin: "topk \<le> length (filter (\<lambda>r. f32_is_finite (fst r)) (scanned ops avx ix requested ls context))"
    and signs: "radius_signs_ok (ix_quantizer ix) context"
  shows "\<exists>sel scan. select_candidates ops avx ix (Some query) topk nprobe z R stats requested = Inr (sel, scan)"
proof -
  let ?rows = "probed_rows ix ls" and ?A = "scanned ops avx ix requested ls context" and ?blocks = "views_from ix ls 0"
  have ops: "op_route ops query nprobe = Inr ls" "\<forall>l \<in> set ls. unat l < length (ix_lists ix)" "distinct ls" "op_prepare_query ops query = Inr context"
    "lut_ok avx (op_scan ops) (ix_subquantizers ix) context requested" "\<forall>b. loop_ok (op_scan ops) b"
    using rdy by (simp_all add: search_ready_def loop_ok_def)
  have total: "length ?rows \<le> u32_max" by (rule total_rows [OF ix ops(2,3)])
  obtain s where s: "res_fold (add_span ix) ls ([], [], 0) = Inr s" using add_spans_ok [of 0 ix ls "[]" "[]"] total by auto
  from add_spans [OF s] have s_eq: "s = (spans_from ix ls 0, ?blocks, length ?rows)" by simp
  have A: "?A = query_rows avx (op_pq4 ops) (op_scan ops) (ix_quantizer ix) context requested ?blocks" by (simp add: scanned_def)
  have rows: "sum_list (map block_rows ?blocks) = length ?rows" by (rule block_rows_views)
  have lenA: "length ?A = length ?rows" by (simp add: A query_rows_def length_concat comp_def rows)
  have k: "topk \<le> length ?rows" using fin lenA by (metis length_filter_le order.trans)
  have "ix_trained ix" using ix by (simp add: index_ok_def index_static_def)
  moreover have "topk \<le> ix_active ix" using k probed_rows_le_active [OF ix ops(2,3)] by simp
  moreover have a: "0 < topk" "R = 0 \<or> topk \<le> R" "f32_is_finite z" "\<not> f32_lt z 0" using args by (simp_all add: selector_args_ok_def)
  have views: "\<forall>b \<in> set ?blocks. view_ok avx b \<and> loop_ok (op_scan ops) b" using views_ok [OF ix ops(2)] ops(6) by blast
  have ids: "query_ids ?blocks = map of_nat [0..<length ?rows]" using query_ids_views [of ix ls 0] by simp
  have dist: "distinct (query_ids ?blocks)" unfolding ids using total by (rule distinct_tokens)
  have K: "topk \<le> sum_list (map block_rows ?blocks)" using k rows by simp
  from interval_scan_ok [OF args views ops(5) dist K, of "op_pq4 ops" stats] obtain r where
    scan: "scan_interval_candidates avx (op_pq4 ops) (op_scan ops) (ix_quantizer ix) context ?blocks topk z R stats requested
        = Inr (r, map_option (scan_totals avx requested ?blocks) stats)"
    and spec: "selection_spec avx topk z R ?A (scanned_ends ops avx ix z requested ls context) r" by (auto simp: A scanned_ends_def)
  have U: "scanned_ends ops avx ix z requested ls context = query_uppers avx (op_pq4 ops) (op_scan ops) z (ix_quantizer ix) context requested ?blocks"
    by (simp add: scanned_ends_def)
  have many: "topk \<le> length (candidates r)"
    by (rule enough_candidates [OF spec a(1,2)
          query_rows_enclosed(2) [OF signs a(3,4), of avx "op_pq4 ops" "op_scan ops" requested ?blocks, folded A U]
          query_rows_enclosed(1) [OF signs a(3,4), of avx "op_pq4 ops" "op_scan ops" requested ?blocks, folded A] fin])
  have "map (\<lambda>s. snd (snd s)) ?A = map of_nat [0..<length ?rows]" by (simp add: A query_rows_ids ids)
  note tok = selected_tokens [OF spec this total]
  note loc = locate_tokens_ok [OF total tok(1)]
  ultimately show ?thesis using a(1) k many
    by (simp add: select_candidates_def ops(1,4) s s_eq scanner_new_def scan loc)
qed

lemma search_returns_result:
  assumes ix: "index_ok ops ix d" and rdy: "search_ready ops avx ix requested query nprobe ls context" and idle: "ak_pending k = []"
    and args: "selector_args_ok topk z R" and fin: "topk \<le> length (filter (\<lambda>r. f32_is_finite (fst r)) (scanned ops avx ix requested ls context))"
    and signs: "radius_signs_ok (ix_quantizer ix) context"
    and rf: "refiner_new aio (ix_store ix) (xo_queue_depth (ix_options ix)) (xo_max_open_files (ix_options ix)) = Inr rf"
    and dim: "0 < qz_dimension (ix_quantizer ix)" and io: "smooth d" "steady k"
    and valid: "\<forall>row \<in> set (probed_rows ix ls). exact_valid (nb_distance (row_neighbor ix f query d row))"
  shows "\<exists>ns stats' k' d'. index_search ops avx aio ix (Some query) topk nprobe z R (Some f) stats requested k d = Some (Inr (ns, stats'), k', d')"
proof -
  let ?rows = "probed_rows ix ls" and ?st = "ix_store ix"
  obtain sel scan where sel: "select_candidates ops avx ix (Some query) topk nprobe z R (map_option se_scan stats) requested = Inr (sel, scan)"
    using select_returns [OF ix rdy args fin signs] by blast
  from select_result [OF ix rdy sel] obtain r :: selection_result where
    r: "length ?rows \<le> u32_max" "topk \<le> length (candidates r)" "lo_candidates sel = map (located_row ?rows) (candidates r)"
      "\<forall>e \<in> set (candidates r). unat (de_id e) < length ?rows" by blast
  have static: "store_ok ?st" "st_nlist ?st \<le> u32_max" "length (ix_lists ix) = st_nlist ?st" using ix by (simp_all add: index_ok_def index_static_def)
  let ?q = "\<lparr>rq_vector = query, rq_dimension = qz_dimension (ix_quantizer ix), rq_topk = topk, rq_function = f\<rparr>"
  have one: "unat (lc_list (located_row ?rows e)) < st_nlist ?st \<and> candidate_stored ?st d (located_row ?rows e)
      \<and> exact_valid (nb_distance (exact_neighbor ?st ?q d (located_row ?rows e)))" if e: "e \<in> set (candidates r)" for e
  proof -
    obtain l i where li: "?rows ! unat (de_id e) = (l, i)" by fastforce
    have mem: "(l, i) \<in> set ?rows" using r(4) e li by (metis nth_mem)
    note row = probed_row_facts [OF mem]
    have l: "unat l < length (ix_lists ix)" using row(1) rdy by (simp add: search_ready_def)
    have len: "length (list_content ix d (unat l)) = page_count (list_rows ix (unat l)) (st_per_page ?st) * page_size ?st"
      using ix l by (simp add: index_ok_def files_ok_def)
    have off: "unat (lc_offset (located_row ?rows e)) = i" "lc_list (located_row ?rows e) = l"
      using row_small [OF row(2)] by (simp_all add: located_row_def li unat_u32_of_nat)
    have "candidate_stored ?st d (located_row ?rows e)"
      unfolding candidate_stored_def off path_of_file len using row_in_file [OF static(1) row(2)] by simp
    moreover have "exact_valid (nb_distance (exact_neighbor ?st ?q d (located_row ?rows e)))"
      using exact_neighbor_located [OF r(1), of e query topk f d] r(4) e valid mem by (simp add: li)
    ultimately show ?thesis using l static(3) off(2) by simp
  qed
  note rfo = refiner_new_ok [OF rf static(1)]
  have cands: "candidates_ok ?st (lo_candidates sel)" using one by (auto simp: candidates_ok_def r(3))
  have "0 < topk" using args by (simp add: selector_args_ok_def)
  then have "request_valid rf (Some query) (qz_dimension (ix_quantizer ix)) (lo_candidates sel) topk (Some f)"
    using cands rfo dim r(2,3) by (simp add: request_valid_def)
  then obtain x k' d' where "refine rf (Some query) (qz_dimension (ix_quantizer ix)) (lo_candidates sel) topk (Some f)
      (case stats of None \<Rightarrow> fresh_stats | Some s \<Rightarrow> se_refine s) k d = Some (Inr x, k', d')"
    using refine_result [of rf k query "qz_dimension (ix_quantizer ix)" "lo_candidates sel" topk f "case stats of None \<Rightarrow> fresh_stats | Some s \<Rightarrow> se_refine s" d]
      rfo static idle io one r(3) by (auto simp del: map_map)
  then show ?thesis by (cases x) (simp add: index_search_def sel rf)
qed

section \<open>The properties\<close>

text \<open>
  C3. Soundness of a search. Whatever the scan selects, a search that returns gives \<open>topk\<close> different active ids of the
  index, each with the exact distance between the query and the payload stored under that id, in order
  of distance and then id; no file is changed and no read is left in flight.
\<close>

theorem search_correct:
  assumes "index_ok ops ix d" and "search_ready ops avx ix requested query nprobe ls context" and "ak_pending k = []"
    and "index_search ops avx aio ix (Some query) topk nprobe z R (Some f) stats requested k d = Some (Inr (ns, stats'), k', d')"
  shows "length ns = topk \<and> distinct (map nb_id ns) \<and> sorted (map neighbor_key ns)
    \<and> (\<forall>n \<in> set ns. \<exists>payload code md. index_lookup ops ix d (nb_id n) = Some (payload, code, md)
        \<and> nb_distance n = f query payload (qz_dimension (ix_quantizer ix)))
    \<and> files d' = files d \<and> ak_pending k' = []"
proof -
  let ?rows = "probed_rows ix ls"
  have ls: "\<forall>l \<in> set ls. unat l < length (ix_lists ix)" "distinct ls" using assms(2) by (simp_all add: search_ready_def)
  obtain r :: selection_result where tok: "\<forall>e \<in> set (candidates r). unat (de_id e) < length ?rows" "distinct (map de_id (candidates r))"
    and part: "smallest_part neighbor_key topk (mset (candidate_neighbors ix f query d ls (candidates r))) (mset ns)"
    and rest: "sorted (map neighbor_key ns)" "length ns = topk" "files d' = files d" "ak_pending k' = []"
    using search_result [OF assms] by blast
  have sub: "mset ns \<subseteq># mset (candidate_neighbors ix f query d ls (candidates r))" using part by (simp add: smallest_part_def)
  have "distinct (map nb_id ns)" using mset_sub_distinct [OF sub candidate_neighbors_distinct [OF assms(1) ls tok]] .
  moreover have "\<exists>payload code md. index_lookup ops ix d (nb_id n) = Some (payload, code, md)
      \<and> nb_distance n = f query payload (qz_dimension (ix_quantizer ix))" if n: "n \<in> set ns" for n
  proof -
    have "n \<in> set (candidate_neighbors ix f query d ls (candidates r))" using n sub by (metis mset_subset_eqD set_mset_mset)
    then obtain e where e: "e \<in> set (candidates r)" "n = row_neighbor ix f query d (?rows ! unat (de_id e))" by (auto simp: candidate_neighbors_def)
    obtain l i where li: "?rows ! unat (de_id e) = (l, i)" by fastforce
    have "(l, i) \<in> set ?rows" using tok(1) e(1) li by (metis nth_mem)
    from probed_row_facts [OF this] show ?thesis using row_neighbor_active(1) [OF assms(1), of l i] ls(1) e(2) li by auto
  qed
  ultimately show ?thesis using rest by blast
qed


text \<open>
  C5. A search returns. On a disk and a kernel whose calls do not fail, with at least \<open>topk\<close> finite estimates among
  the probed rows and valid exact distances, no exception of the scan, of the token lookup or of the
  re-ranking can occur: the token space of 32 bits suffices for every index, every selected row is
  stored, and the result is a list of neighbours.
\<close>

theorem search_returns:
  assumes "index_ok ops ix d" and "search_ready ops avx ix requested query nprobe ls context" and "ak_pending k = []"
    and "selector_args_ok topk z R" and "topk \<le> length (filter (\<lambda>r. f32_is_finite (fst r)) (scanned ops avx ix requested ls context))"
    and "radius_signs_ok (ix_quantizer ix) context"
    and "refiner_new aio (ix_store ix) (xo_queue_depth (ix_options ix)) (xo_max_open_files (ix_options ix)) = Inr rf"
    and "0 < qz_dimension (ix_quantizer ix)" and "smooth d" "steady k"
    and "\<forall>row \<in> set (probed_rows ix ls). exact_valid (nb_distance (row_neighbor ix f query d row))"
  shows "\<exists>ns stats' k' d'. index_search ops avx aio ix (Some query) topk nprobe z R (Some f) stats requested k d = Some (Inr (ns, stats'), k', d')"
  using assms by (rule search_returns_result)

section \<open>A search over three vectors\<close>

text \<open>The index of three vectors with a query whose table is zero, so that every estimate is one.\<close>

definition all_lists :: "u32 list" where
  "all_lists = map of_nat [0..<10]"

definition tiny_search_ops :: index_ops where
  "tiny_search_ops = tiny_index_ops\<lparr>op_prepare_query := (\<lambda>q. Inr zero_query), op_route := (\<lambda>q nprobe. Inr all_lists)\<rparr>"

lemma fold_zero_updates: "fold (\<lambda>i out. out[i := 0]) is (replicate n (0 :: f32)) = replicate n 0"
proof (induction "is")
  case (Cons i js)
  have "(replicate n 0)[i := 0] = replicate n (0 :: f32)"
  proof (rule nth_equalityI)
    fix j assume "j < length ((replicate n (0 :: f32))[i := 0])"
    then show "(replicate n 0)[i := 0] ! j = replicate n (0 :: f32) ! j" by (cases "i = j") simp_all
  qed simp
  then show ?case using Cons by simp
qed simp

lemma zero_view_dots:
  assumes "view_ok False b"
  shows "block_dots False kernel_layout tiny_ops 2 zero_query ScalarFloat b = Exact_dots (replicate (padded_rows b) 0)"
proof -
  have dot: "dot_of_row (get_packed_element kernel_layout codes 32 2 i) (replicate 32 0) 2 = 0" for codes i
    using kernel.get_nibble by (intro zero_lut_dot) blast
  have b: "block_width b = 32" "block_rows b \<le> padded_rows b" "padded_rows b mod 32 = 0" using assms by (simp_all add: view_ok_def block_lanes_def)
  have "accumulate_exact_pq4_lut_scalar kernel_layout (block_rows b) (padded_rows b) 32 2 (packed_codes b) (replicate 32 0)
      = Inr (replicate (padded_rows b) 0)"
    using b by (simp add: accumulate_exact_pq4_lut_scalar_def dot fold_zero_updates)
  then show ?thesis by (simp add: block_dots_def accumulate_block_def choose_mode_def zero_query_def b Let_def)
qed

lemma zero_dot_estimate:
  "f32_is_finite (fst (scalar_lane tiny_quantizer zero_query md 0)) \<and> f32_smag (fst (scalar_lane tiny_quantizer zero_query md 0)) = 0x3F800000"
proof -
  define scale where "scale = (if md_scale md = 255 then 0x3F800000 else f32_mul (byte_float (md_scale md)) 0x3F800000)"
  have one: "f32_mag (f32_of_nat 1) = 0x3F800000"
  proof -
    have "round_mag 0 (f32_units 0x3F800000 * 2 ^ 0) = 0x3F800000" by (rule round_mag_exact) (simp add: inf_mag_def)
    then show ?thesis by (simp add: f32_of_nat_def one_units)
  qed
  have "f32_is_finite scale" using byte_scale_finite f32_one by (simp add: scale_def)
  then have "f32_mag (f32_mul scale 0) = 0" using f32_mul_zero [of 0 scale] by (simp add: f32_mul_commute)
  then have e: "f32_smag (f32_sub (f32_of_nat 1) (f32_mul scale 0)) = 0x3F800000" "\<not> f32_is_nan (f32_sub (f32_of_nat 1) (f32_mul scale 0))"
    using f32_sub_zero [of "f32_of_nat 1"] f32_of_nat_nonneg [of 1] one by (simp_all add: f32_smag_def)
  then have fin: "f32_is_finite (f32_sub (f32_of_nat 1) (f32_mul scale 0))"
    by (auto simp: f32_is_finite_def f32_smag_def inf_mag_def split: if_splits)
  have "fst (scalar_lane tiny_quantizer zero_query md 0) = f32_sub (f32_of_nat 1) (f32_mul scale 0)"
    using fin by (cases "md_scale md = 255") (simp_all add: scalar_lane_def decode_metadata_def scalar_metric_values_def tiny_quantizer_def scale_def Let_def)
  then show ?thesis using e fin by simp
qed

lemma zero_scan:
  assumes ix: "index_ok tiny_search_ops ix d" and ls: "\<forall>l \<in> set ls. unat l < length (ix_lists ix)" and qz: "ix_quantizer ix = tiny_quantizer"
    and r: "r \<in> set (scanned tiny_search_ops False ix ScalarFloat ls zero_query)"
  shows "f32_is_finite (fst r) \<and> f32_smag (fst r) = 0x3F800000"
proof -
  have ops: "op_pq4 tiny_search_ops = kernel_layout" "op_scan tiny_search_ops = tiny_ops" "qz_subquantizers tiny_quantizer = 2"
    by (simp_all add: tiny_search_ops_def tiny_index_ops_def tiny_quantizer_def)
  obtain b i where b: "b \<in> set (views_from ix ls 0)" "i < block_rows b"
    and r: "r = row_values False tiny_quantizer zero_query b (block_dots False kernel_layout tiny_ops 2 zero_query ScalarFloat b) i"
    using r by (auto simp: scanned_def query_rows_def ops qz)
  have view: "view_ok False b" using views_ok [OF ix ls] b(1) by blast
  then have "i < padded_rows b" using b(2) by (simp add: view_ok_def)
  then have "fst r = fst (scalar_lane tiny_quantizer zero_query (get_metadata (packed_metadata b) i) 0)"
    by (simp add: r row_values_def lane_values_def zero_view_dots [OF view] split: prod.splits)
  then show ?thesis using zero_dot_estimate by simp
qed

lemma index_ok_ops: "op_pq4 ops' = op_pq4 ops \<Longrightarrow> index_ok ops' ix d = index_ok ops ix d"
  by (simp add: index_ok_def index_static_def lists_ok_def)

lemma index_ok_files: "files d' = files d \<Longrightarrow> index_ok ops ix d' = index_ok ops ix d"
  by (simp add: index_ok_def files_ok_def rows_located_def ids_located_def content_def)

lemma insert_keeps_setup:
  assumes "insert_batch ops n vectors payloads stride ix d = (r, ix', d')"
  shows "ix_quantizer ix' = ix_quantizer ix \<and> ix_options ix' = ix_options ix \<and> ix_store ix' = ix_store ix"
  using assms by (auto simp: insert_batch_def commit_insert_def split: if_splits sum.splits prod.splits)

text \<open>The filled index on a disk without faults.\<close>

lemma tiny_searchable:
  obtains ix d where "index_ok tiny_search_ops ix d" and "smooth d" and "ix_quantizer ix = tiny_quantizer" and "ix_options ix = tiny_options"
    and "ix_store ix = tiny_store" and "length (ix_lists ix) = 10" and "ix_active ix = 3"
    and "\<And>i. index_lookup tiny_search_ops ix d i = (if unat i < 3 then Some (new_entry tiny_index_ops tiny_index 3 [] tiny_payloads 0 (unat i)) else None)"
proof -
  obtain r ix d where run: "insert_batch tiny_index_ops 3 (Some []) (Some tiny_payloads) 0 tiny_index (new_disk [None]) = (r, ix, d)"
    by (metis prod_cases3)
  note c = insert_batch_result [OF tiny_index_ok tiny_batch_ok run]
  have "benign (new_disk [None]) \<and> files (new_disk [None]) (dir_path (ix_directory tiny_index)) \<noteq> None"
    by (simp add: benign_def new_disk_def tiny_directory_path)
  then obtain ids where ids: "r = Inr ids" using c by blast
  let ?d = "d\<lparr>transfers := [], faults := []\<rparr>"
  have ops: "op_pq4 tiny_search_ops = op_pq4 tiny_index_ops" by (simp add: tiny_search_ops_def)
  have ok: "index_ok tiny_index_ops ix d" using c ids by simp
  then have ok': "index_ok tiny_search_ops ix ?d" unfolding index_ok_ops [OF ops] by (subst index_ok_files [of ?d d]) simp_all
  have keep: "ix_quantizer ix = tiny_quantizer" "ix_options ix = tiny_options" "ix_store ix = tiny_store"
    using insert_keeps_setup [OF run] by (simp_all add: tiny_index_def)
  have "length (ix_lists ix) = 10" using ok keep(3) by (simp add: index_ok_def index_static_def tiny_store_def make_store_def)
  moreover have "ix_active ix = 3" using c ids by (simp add: tiny_index_def)
  moreover have "index_lookup tiny_index_ops tiny_index (new_disk [None]) i = None" for i by (simp add: index_lookup_def Let_def tiny_index_def)
  then have "index_lookup tiny_index_ops ix d i = (if unat i < 3 then Some (new_entry tiny_index_ops tiny_index 3 [] tiny_payloads 0 (unat i)) else None)" for i
    using c ids by (simp add: tiny_index_def)
  moreover have "index_lookup tiny_search_ops ix ?d i = index_lookup tiny_index_ops ix d i" for i
    by (simp add: index_lookup_def entry_at_def content_def ops Let_def)
  ultimately show thesis using that [of ix ?d] ok' keep by (simp add: smooth_def)
qed

lemma tiny_probed:
  assumes "index_ok ops ix d" and "length (ix_lists ix) = 10"
  shows "length (probed_rows ix all_lists) = ix_active ix" and "distinct all_lists" and "\<forall>l \<in> set all_lists. unat l < length (ix_lists ix)"
proof -
  have u: "unat (of_nat l :: u32) = l" if "l < 10" for l using that by (simp add: unat_u32_of_nat u32_max_def)
  have "length (probed_rows ix ls) = (\<Sum>l\<leftarrow>ls. list_rows ix (unat l))" for ls by (induction ls) simp_all
  moreover have "map (\<lambda>l. list_rows ix (unat l)) all_lists = map (list_rows ix) [0..<10]"
    unfolding all_lists_def map_map comp_def by (rule map_cong [OF refl]) (simp add: u)
  ultimately have "length (probed_rows ix all_lists) = (\<Sum>l\<leftarrow>[0..<10]. list_rows ix l)" by simp
  also have "\<dots> = (\<Sum>l<10. list_rows ix l)" by (simp add: sum_list_distinct_conv_sum_set lessThan_atLeast0)
  finally show "length (probed_rows ix all_lists) = ix_active ix" using assms by (simp add: index_ok_def lists_ok_def)
  show "distinct all_lists" by (simp add: all_lists_def upt_rec)
  show "\<forall>l \<in> set all_lists. unat l < length (ix_lists ix)" using assms(2) by (auto simp: all_lists_def u)
qed

text \<open>Two searches: one with a distance that depends on the payload, one with a constant distance.\<close>

definition even_distance :: exact_distance where
  "even_distance v payload n = 0x3F800000"

lemma tiny_search_runs:
  assumes ix: "index_ok tiny_search_ops ix d" and io: "smooth d" and qz: "ix_quantizer ix = tiny_quantizer" "ix_options ix = tiny_options"
    "ix_store ix = tiny_store" "length (ix_lists ix) = 10" "ix_active ix = 3"
    and valid: "\<And>row. row \<in> set (probed_rows ix all_lists) \<Longrightarrow> exact_valid (nb_distance (row_neighbor ix f [0] d row))"
  shows "search_ready tiny_search_ops False ix ScalarFloat [0] 10 all_lists zero_query"
    and "selector_args_ok 2 0x3F800000 0"
    and "2 \<le> length (filter (\<lambda>r. f32_is_finite (fst r)) (scanned tiny_search_ops False ix ScalarFloat all_lists zero_query))"
    and "radius_signs_ok (ix_quantizer ix) zero_query"
    and "refiner_new True (ix_store ix) (xo_queue_depth (ix_options ix)) (xo_max_open_files (ix_options ix))
      = Inr \<lparr>rf_store = tiny_store, rf_queue_depth = 1, rf_max_open = 64\<rparr>"
    and "0 < qz_dimension (ix_quantizer ix)" and "steady tiny_kernel" and "ak_pending tiny_kernel = []"
    and "\<exists>ns stats' k' d'. index_search tiny_search_ops False True ix (Some [0]) 2 10 0x3F800000 0 (Some f) None ScalarFloat tiny_kernel d
      = Some (Inr (ns, stats'), k', d')"
proof -
  note p = tiny_probed [OF ix qz(4)]
  show rdy: "search_ready tiny_search_ops False ix ScalarFloat [0] 10 all_lists zero_query"
    using p zero_query_ok(1) by (simp add: search_ready_def tiny_search_ops_def tiny_index_ops_def qz(1) tiny_ops_def)
  show args: "selector_args_ok 2 0x3F800000 0" by (simp add: selector_args_ok_def f32_one)
  let ?A = "scanned tiny_search_ops False ix ScalarFloat all_lists zero_query"
  have "length ?A = 3"
    using query_ids_views [of ix all_lists 0] p(1) qz(5) arg_cong [OF query_rows_ids, of length]
    by (simp add: scanned_def)
  moreover have "filter (\<lambda>r. f32_is_finite (fst r)) ?A = ?A" using zero_scan [OF ix p(3) qz(1)] by (simp add: filter_id_conv)
  ultimately show fin: "2 \<le> length (filter (\<lambda>r. f32_is_finite (fst r)) ?A)" by simp
  show signs: "radius_signs_ok (ix_quantizer ix) zero_query" using tiny_signs by (simp add: qz(1))
  show rf: "refiner_new True (ix_store ix) (xo_queue_depth (ix_options ix)) (xo_max_open_files (ix_options ix))
      = Inr \<lparr>rf_store = tiny_store, rf_queue_depth = 1, rf_max_open = 64\<rparr>"
    by (simp add: refiner_new_def qz(2,3) tiny_options_def)
  show dim: "0 < qz_dimension (ix_quantizer ix)" by (simp add: qz(1) tiny_quantizer_def)
  note k = tiny_query_ok(6,3)
  show "steady tiny_kernel" "ak_pending tiny_kernel = []" using k by simp_all
  show "\<exists>ns stats' k' d'. index_search tiny_search_ops False True ix (Some [0]) 2 10 0x3F800000 0 (Some f) None ScalarFloat tiny_kernel d
      = Some (Inr (ns, stats'), k', d')"
    using valid by (intro search_returns_result [OF ix rdy k(2) args fin signs rf dim io k(1)]) blast
qed

lemma even_valid: "exact_valid (nb_distance (row_neighbor ix even_distance query d row))"
  using f32_one by (simp add: row_neighbor_def even_distance_def exact_valid_def split: prod.split)

lemma even_enclosed:
  assumes ix: "index_ok tiny_search_ops ix d" and qz: "ix_quantizer ix = tiny_quantizer" "length (ix_lists ix) = 10"
  shows "distances_enclosed tiny_search_ops False ix ScalarFloat all_lists zero_query 0x3F800000 even_distance [0] d"
  unfolding distances_enclosed_def Let_def
proof (intro allI impI)
  fix j assume j: "j < length (probed_rows ix all_lists)"
  let ?r = "scanned tiny_search_ops False ix ScalarFloat all_lists zero_query ! j"
  have mem: "?r \<in> set (scanned tiny_search_ops False ix ScalarFloat all_lists zero_query)" using scanned_token(1) [OF j] by simp
  have "enclosed False 0x3F800000 ?r"
    using query_rows_enclosed(1) [OF tiny_signs, of "0x3F800000" False] f32_one mem by (auto simp: scanned_def qz(1))
  note e = enclosed_endpoints [OF this]
  have "f32_smag (fst ?r) = f32_smag 0x3F800000" "f32_is_finite (fst ?r)"
    using zero_scan [OF ix tiny_probed(3) [OF ix qz(2)] qz(1) mem] by (simp_all add: f32_smag_def f32_mag_def f32_sign_def)
  then show "f32_le (estimate_lower 0x3F800000 (row_estimate ?r)) (nb_distance (row_neighbor ix even_distance [0] d (probed_rows ix all_lists ! j)))
      \<and> f32_le (nb_distance (row_neighbor ix even_distance [0] d (probed_rows ix all_lists ! j))) (estimate_upper 0x3F800000 (row_estimate ?r))"
    using e f32_one by (simp add: row_neighbor_def even_distance_def f32_le_def split: prod.split)
qed

theorem search_correct_witness:
  "\<exists>ix d ns stats' k' d'. index_search tiny_search_ops False True ix (Some [0]) 2 10 0x3F800000 0 (Some byte_distance) None ScalarFloat tiny_kernel d
      = Some (Inr (ns, stats'), k', d') \<and> length ns = 2 \<and> distinct (map nb_id ns) \<and> (\<forall>n \<in> set ns. unat (nb_id n) < 3)"
proof -
  obtain ix d where t: "index_ok tiny_search_ops ix d" "smooth d" "ix_quantizer ix = tiny_quantizer" "ix_options ix = tiny_options"
    "ix_store ix = tiny_store" "length (ix_lists ix) = 10" "ix_active ix = 3"
    and look: "\<And>i. index_lookup tiny_search_ops ix d i = (if unat i < 3 then Some (new_entry tiny_index_ops tiny_index 3 [] tiny_payloads 0 (unat i)) else None)"
    by (rule tiny_searchable) blast
  have small: "exact_valid (byte_distance [0] (fst (new_entry tiny_index_ops tiny_index 3 [] tiny_payloads 0 i)) m)" if "i < 3" for i m
  proof -
    have "i = 0 \<or> i = 1 \<or> i = 2" using that by linarith
    then show ?thesis
      by (auto simp: new_entry_def byte_distance_def segment_def payload_step_def tiny_index_def tiny_options_def exact_valid_def
          f32_class_defs f32_order_defs f32_smag_def f32_sign_def f32_mag_def inf_mag_def)
  qed
  have valid: "exact_valid (nb_distance (row_neighbor ix byte_distance [0] d row))" if "row \<in> set (probed_rows ix all_lists)" for row
  proof -
    obtain l i where row: "row = (l, i)" by fastforce
    note f = probed_row_facts [OF that [unfolded row]]
    obtain payload code md where p: "index_lookup tiny_search_ops ix d (nb_id (row_neighbor ix byte_distance [0] d (l, i))) = Some (payload, code, md)"
      "nb_distance (row_neighbor ix byte_distance [0] d (l, i)) = byte_distance [0] payload (qz_dimension (ix_quantizer ix))"
      using row_neighbor_active(1) [OF t(1) _ f(2)] f(1) tiny_probed(3) [OF t(1,6)] by blast
    then show ?thesis using small [of "unat (nb_id (row_neighbor ix byte_distance [0] d (l, i)))"] by (simp add: row look split: if_splits)
  qed
  note s = tiny_search_runs [OF t valid]
  obtain ns stats' k' d' where run: "index_search tiny_search_ops False True ix (Some [0]) 2 10 0x3F800000 0 (Some byte_distance) None ScalarFloat tiny_kernel d
      = Some (Inr (ns, stats'), k', d')" using s(9) by blast
  from search_correct [OF t(1) s(1,8) run] have "length ns = 2 \<and> distinct (map nb_id ns) \<and> (\<forall>n \<in> set ns. unat (nb_id n) < 3)"
    by (auto simp: look split: if_splits)
  then show ?thesis using run by blast
qed


theorem search_returns_witness:
  "\<exists>ix d ns stats' k' d'. index_search tiny_search_ops False True ix (Some [0]) 2 10 0x3F800000 0 (Some even_distance) None ScalarFloat tiny_kernel d
      = Some (Inr (ns, stats'), k', d')"
proof -
  obtain ix d where t: "index_ok tiny_search_ops ix d" "smooth d" "ix_quantizer ix = tiny_quantizer" "ix_options ix = tiny_options"
    "ix_store ix = tiny_store" "length (ix_lists ix) = 10" "ix_active ix = 3" by (rule tiny_searchable) blast
  note s = tiny_search_runs [OF t even_valid]
  show ?thesis using search_returns [OF t(1) s(1,8,2,3,4,5,6) t(2) s(7)] even_valid by blast
qed

end
