(* ===== verification/Float64.thy ===== *)
theory Float64
  imports Float32_Functions
begin

text \<open>
  The C++ type \<open>double\<close> is IEEE-754 binary64, a 64-bit pattern here. As in \<open>Float32\<close>, every operation
  computes the exact result as an integer number of units (\<open>2^-1074\<close>) and rounds it once to nearest,
  ties to even. The planner of the uneven product quantizer is the only code that uses doubles.
\<close>

section \<open>Bit patterns\<close>

type_synonym f64 = u64

definition f64_sign :: "f64 \<Rightarrow> bool" where
  "f64_sign x \<longleftrightarrow> 2 ^ 63 \<le> unat x"

definition f64_mag :: "f64 \<Rightarrow> nat" where
  "f64_mag x = unat x mod 2 ^ 63"

definition f64_make :: "bool \<Rightarrow> nat \<Rightarrow> f64" where
  "f64_make s m = of_nat (m + (if s then 2 ^ 63 else 0))"

definition inf_mag64 :: nat where
  "inf_mag64 = 2047 * 2 ^ 52"

definition f64_nan :: f64 where
  "f64_nan = 0x7FF8000000000000"

definition f64_is_nan :: "f64 \<Rightarrow> bool" where
  "f64_is_nan x \<longleftrightarrow> inf_mag64 < f64_mag x"

definition f64_is_inf :: "f64 \<Rightarrow> bool" where
  "f64_is_inf x \<longleftrightarrow> f64_mag x = inf_mag64"

definition f64_smag :: "f64 \<Rightarrow> int" where
  "f64_smag x = (if f64_sign x then - int (f64_mag x) else int (f64_mag x))"

definition f64_lt :: "f64 \<Rightarrow> f64 \<Rightarrow> bool" where
  "f64_lt a b \<longleftrightarrow> \<not> f64_is_nan a \<and> \<not> f64_is_nan b \<and> f64_smag a < f64_smag b"

definition f64_le :: "f64 \<Rightarrow> f64 \<Rightarrow> bool" where
  "f64_le a b \<longleftrightarrow> \<not> f64_is_nan a \<and> \<not> f64_is_nan b \<and> f64_smag a \<le> f64_smag b"

definition f64_eq :: "f64 \<Rightarrow> f64 \<Rightarrow> bool" where
  "f64_eq a b \<longleftrightarrow> \<not> f64_is_nan a \<and> \<not> f64_is_nan b \<and> f64_smag a = f64_smag b"

section \<open>Arithmetic\<close>

definition f64_units :: "nat \<Rightarrow> nat" where
  "f64_units m = (if m < 2 ^ 53 then m else (2 ^ 52 + m mod 2 ^ 52) * 2 ^ (m div 2 ^ 52 - 1))"

definition f64_sunits :: "f64 \<Rightarrow> int" where
  "f64_sunits x = (if f64_sign x then - int (f64_units (f64_mag x)) else int (f64_units (f64_mag x)))"

text \<open>Magnitude of the nearest double to \<open>n * 2^-(1074 + s)\<close>.\<close>

definition round_mag64 :: "nat \<Rightarrow> nat \<Rightarrow> nat" where
  "round_mag64 s n =
    (let k = max s (bitlen n - 53) in min inf_mag64 (rne_shift n k + (k - s) * 2 ^ 52))"

definition f64_neg :: "f64 \<Rightarrow> f64" where
  "f64_neg x = f64_make (\<not> f64_sign x) (f64_mag x)"

definition f64_abs :: "f64 \<Rightarrow> f64" where
  "f64_abs x = f64_make False (f64_mag x)"

definition f64_add :: "f64 \<Rightarrow> f64 \<Rightarrow> f64" where
  "f64_add a b =
    (if f64_is_nan a \<or> f64_is_nan b then f64_nan
     else if f64_is_inf a then (if f64_is_inf b \<and> f64_sign a \<noteq> f64_sign b then f64_nan else a)
     else if f64_is_inf b then b
     else let v = f64_sunits a + f64_sunits b
       in if v = 0 then f64_make (f64_sign a \<and> f64_sign b) 0
          else f64_make (v < 0) (round_mag64 0 (nat \<bar>v\<bar>)))"

definition f64_sub :: "f64 \<Rightarrow> f64 \<Rightarrow> f64" where
  "f64_sub a b = f64_add a (f64_neg b)"

definition f64_mul :: "f64 \<Rightarrow> f64 \<Rightarrow> f64" where
  "f64_mul a b =
    (let s = (f64_sign a \<noteq> f64_sign b)
     in if f64_is_nan a \<or> f64_is_nan b then f64_nan
        else if f64_is_inf a \<or> f64_is_inf b then
          (if f64_mag a = 0 \<or> f64_mag b = 0 then f64_nan else f64_make s inf_mag64)
        else f64_make s (round_mag64 1074 (f64_units (f64_mag a) * f64_units (f64_mag b))))"

definition f64_div :: "f64 \<Rightarrow> f64 \<Rightarrow> f64" where
  "f64_div a b =
    (let s = (f64_sign a \<noteq> f64_sign b)
     in if f64_is_nan a \<or> f64_is_nan b then f64_nan
        else if f64_is_inf a then (if f64_is_inf b then f64_nan else f64_make s inf_mag64)
        else if f64_is_inf b then f64_make s 0
        else if f64_mag b = 0 then (if f64_mag a = 0 then f64_nan else f64_make s inf_mag64)
        else let n = f64_units (f64_mag a) * 2 ^ 1076; d = f64_units (f64_mag b)
             in f64_make s (round_mag64 3 (sticky (n div d) (n mod d \<noteq> 0))))"

definition f64_of_nat :: "nat \<Rightarrow> f64" where
  "f64_of_nat n = f64_make False (round_mag64 0 (n * 2 ^ 1074))"

text \<open>The conversion of a \<open>float\<close> is exact: a unit of binary32 is \<open>2^925\<close> units of binary64.\<close>

definition f64_of_f32 :: "f32 \<Rightarrow> f64" where
  "f64_of_f32 x =
    (if f32_is_nan x then f64_nan
     else f64_make (f32_sign x) (if f32_is_inf x then inf_mag64 else round_mag64 0 (f32_units (f32_mag x) * 2 ^ 925)))"

text \<open>\<open>std::max\<close> returns its first argument unless that one is smaller.\<close>

definition f64_max :: "f64 \<Rightarrow> f64 \<Rightarrow> f64" where
  "f64_max a b = (if f64_lt a b then b else a)"

definition f64_sum :: "f64 list \<Rightarrow> f64" where
  "f64_sum xs = fold (\<lambda>x acc. f64_add acc x) xs 0"

section \<open>Comparisons of doubles that are not NaN\<close>

lemmas f64_order_defs = f64_lt_def f64_le_def f64_eq_def

lemma f64_lt_irrefl [simp]: "\<not> f64_lt a a"
  by (simp add: f64_lt_def)

lemma f64_lt_trans: "f64_lt a b \<Longrightarrow> f64_lt b c \<Longrightarrow> f64_lt a c"
  by (simp add: f64_lt_def)

end
