(* ===== verification/Persistence.thy ===== *)
theory Persistence
  imports External_Io
begin

text \<open>
  The sequential readers and writers of persisted state (src/src/persistence\_io.h). A Faiss
  \<open>IOWriter\<close> is its data so far and the number of bytes it takes of a request; \<open>VectorIOWriter\<close>
  takes all of them. A \<open>VectorIOReader\<close> is its data and its read position \<open>rp\<close>. The templates take the
  object representation of a scalar, little-endian on the supported hosts, and its inverse.
\<close>

section \<open>Bytes\<close>

record io_writer =
  wr_data :: bytes
  wr_takes :: "nat \<Rightarrow> nat"

record io_reader =
  rd_data :: bytes
  rd_pos :: nat

definition vector_writer :: io_writer where
  "vector_writer = \<lparr>wr_data = [], wr_takes = (\<lambda>n. n)\<rparr>"

definition write_bytes :: "bytes \<Rightarrow> io_writer \<Rightarrow> io_writer res" where
  "write_bytes bs w =
    (if bs \<noteq> [] \<and> wr_takes w (length bs) \<noteq> length bs
     then Inl (Runtime_error ''failed to write Recast quantizer state'')
     else Inr (w\<lparr>wr_data := wr_data w @ bs\<rparr>))"

definition read_bytes :: "nat \<Rightarrow> io_reader \<Rightarrow> (bytes \<times> io_reader) res" where
  "read_bytes n r =
    (let got = min n (length (rd_data r) - rd_pos r)
     in if n \<noteq> 0 \<and> got \<noteq> n then Inl (Runtime_error ''truncated Recast quantizer state'')
        else Inr (segment (rd_data r) (rd_pos r) n, r\<lparr>rd_pos := rd_pos r + n\<rparr>))"

definition read_bind :: "(io_reader \<Rightarrow> ('a \<times> io_reader) res) \<Rightarrow> ('a \<Rightarrow> io_reader \<Rightarrow> ('b \<times> io_reader) res) \<Rightarrow> io_reader \<Rightarrow> ('b \<times> io_reader) res" where
  "read_bind p f r = res_bind (p r) (\<lambda>(x, r'). f x r')"

definition read_return :: "'a \<Rightarrow> io_reader \<Rightarrow> ('a \<times> io_reader) res" where
  "read_return x r = Inr (x, r)"

definition read_lift :: "'a res \<Rightarrow> io_reader \<Rightarrow> ('a \<times> io_reader) res" where
  "read_lift m r = res_bind m (\<lambda>x. Inr (x, r))"

fun read_fold :: "('a \<Rightarrow> 's \<Rightarrow> io_reader \<Rightarrow> ('s \<times> io_reader) res) \<Rightarrow> 'a list \<Rightarrow> 's \<Rightarrow> io_reader \<Rightarrow> ('s \<times> io_reader) res" where
  "read_fold f [] s = read_return s"
| "read_fold f (x # xs) s = read_bind (f x s) (read_fold f xs)"

definition write_seq :: "(io_writer \<Rightarrow> io_writer res) \<Rightarrow> (io_writer \<Rightarrow> io_writer res) \<Rightarrow> io_writer \<Rightarrow> io_writer res" where
  "write_seq f g w = res_bind (f w) g"

section \<open>Scalars and vectors\<close>

definition write_scalar :: "('a \<Rightarrow> bytes) \<Rightarrow> 'a \<Rightarrow> io_writer \<Rightarrow> io_writer res" where
  "write_scalar rep x = write_bytes (rep x)"

definition read_scalar :: "(bytes \<Rightarrow> 'a) \<Rightarrow> nat \<Rightarrow> io_reader \<Rightarrow> ('a \<times> io_reader) res" where
  "read_scalar unrep size_of = read_bind (read_bytes size_of) (\<lambda>bs. read_return (unrep bs))"

definition checked_size :: "u64 \<Rightarrow> nat \<Rightarrow> string \<Rightarrow> nat res" where
  "checked_size value maximum name =
    (if unat value > maximum \<or> unat value > size_max then Inl (Runtime_error (''invalid persisted '' @ name))
     else Inr (unat value))"

definition le64 :: "u64 \<Rightarrow> bytes" where
  "le64 w = map (\<lambda>i. ucast (drop_bit (8 * i) w)) [0..<8]"

definition of_le64 :: "bytes \<Rightarrow> u64" where
  "of_le64 bs = foldr (\<lambda>i acc. push_bit (8 * i) (ucast (bs ! i)) OR acc) [0..<8] 0"

definition write_vector :: "('a \<Rightarrow> bytes) \<Rightarrow> nat \<Rightarrow> 'a list \<Rightarrow> io_writer \<Rightarrow> io_writer res" where
  "write_vector rep size_of xs =
    write_seq (write_scalar le64 (of_nat (length xs))) (\<lambda>w.
      if xs = [] then Inr w
      else if length xs > size_max div size_of then Inl (Overflow_error ''persistent vector byte size overflows'')
      else write_bytes (concat (map rep xs)) w)"

definition read_vector :: "(bytes \<Rightarrow> 'a) \<Rightarrow> nat \<Rightarrow> nat \<Rightarrow> string \<Rightarrow> io_reader \<Rightarrow> ('a list \<times> io_reader) res" where
  "read_vector unrep size_of maximum name =
    read_bind (read_scalar of_le64 8) (\<lambda>v. read_bind (read_lift (checked_size v maximum name)) (\<lambda>n.
      if n = 0 then read_return []
      else if n > size_max div size_of then read_lift (Inl (Overflow_error ''persistent vector byte size overflows''))
      else read_bind (read_bytes (n * size_of)) (\<lambda>bs. read_return (map (\<lambda>i. unrep (segment bs (i * size_of) size_of)) [0..<n]))))"

section \<open>Round trips\<close>

text \<open>
  \<open>writes f bs\<close>: into a writer that takes every request, \<open>f\<close> appends \<open>bs\<close>. \<open>reads p bs x\<close>: from a reader
  that stands before \<open>bs\<close>, \<open>p\<close> returns \<open>x\<close> and stands behind.
\<close>

definition writes :: "(io_writer \<Rightarrow> io_writer res) \<Rightarrow> bytes \<Rightarrow> bool" where
  "writes f bs \<longleftrightarrow> (\<forall>w. (\<forall>n. wr_takes w n = n) \<longrightarrow> f w = Inr (w\<lparr>wr_data := wr_data w @ bs\<rparr>))"

definition reads :: "(io_reader \<Rightarrow> ('a \<times> io_reader) res) \<Rightarrow> bytes \<Rightarrow> 'a \<Rightarrow> bool" where
  "reads p bs x \<longleftrightarrow> (\<forall>r rest. rd_pos r \<le> length (rd_data r) \<and> drop (rd_pos r) (rd_data r) = bs @ rest
    \<longrightarrow> p r = Inr (x, r\<lparr>rd_pos := rd_pos r + length bs\<rparr>))"

lemma writes_bytes [intro]: "writes (write_bytes bs) bs"
  by (simp add: writes_def write_bytes_def)

lemma writes_seq [intro]: "writes f bs \<Longrightarrow> writes g cs \<Longrightarrow> writes (write_seq f g) (bs @ cs)"
  by (simp add: writes_def write_seq_def)

lemma writes_nothing [intro]: "writes Inr []"
  by (simp add: writes_def)

lemma writes_fold [intro]: "(\<And>x. x \<in> set xs \<Longrightarrow> writes (f x) (g x)) \<Longrightarrow> writes (res_fold f xs) (concat (map g xs))"
proof (induction xs)
  case (Cons x xs)
  then have "writes (write_seq (f x) (res_fold f xs)) (g x @ concat (map g xs))" by (intro writes_seq) simp_all
  moreover have "write_seq (f x) (res_fold f xs) = res_fold f (x # xs)" by (simp add: write_seq_def fun_eq_iff)
  ultimately show ?case by (simp only: list.map concat.simps)
qed (simp add: writes_def)

lemma reads_bytes [intro]: "reads (read_bytes (length bs)) bs bs"
  unfolding reads_def
proof (intro allI impI)
  fix r :: io_reader and rest assume r: "rd_pos r \<le> length (rd_data r) \<and> drop (rd_pos r) (rd_data r) = bs @ rest"
  then have "length (rd_data r) - rd_pos r = length bs + length rest" by (metis length_append length_drop)
  then show "read_bytes (length bs) r = Inr (bs, r\<lparr>rd_pos := rd_pos r + length bs\<rparr>)"
    using r by (simp add: read_bytes_def segment_def)
qed

lemma reads_return [intro]: "reads (read_return x) [] x"
  by (simp add: reads_def read_return_def)

lemma reads_lift: "m = Inr x \<Longrightarrow> reads (read_lift m) [] x"
  by (simp add: reads_def read_lift_def)

lemma reads_bind [intro]:
  assumes "reads p bs x" and "reads (f x) cs y"
  shows "reads (read_bind p f) (bs @ cs) y"
  unfolding reads_def
proof (intro allI impI)
  fix r :: io_reader and rest assume r: "rd_pos r \<le> length (rd_data r) \<and> drop (rd_pos r) (rd_data r) = (bs @ cs) @ rest"
  let ?r = "r\<lparr>rd_pos := rd_pos r + length bs\<rparr>"
  have "p r = Inr (x, ?r)" using assms(1) r unfolding reads_def by simp
  moreover have "f x ?r = Inr (y, ?r\<lparr>rd_pos := rd_pos ?r + length cs\<rparr>)"
  proof -
    have "length bs \<le> length (rd_data r) - rd_pos r" using r by (metis append.assoc le_add1 length_append length_drop)
    then have "rd_pos r + length bs \<le> length (rd_data r)" using r by linarith
    moreover have "drop (rd_pos r + length bs) (rd_data r) = cs @ rest"
      using r by (metis add.commute append.assoc append_eq_conv_conj drop_drop)
    ultimately have "rd_pos ?r \<le> length (rd_data ?r) \<and> drop (rd_pos ?r) (rd_data ?r) = cs @ rest" using r by simp
    then show ?thesis using assms(2) unfolding reads_def by blast
  qed
  ultimately show "read_bind p f r = Inr (y, r\<lparr>rd_pos := rd_pos r + length (bs @ cs)\<rparr>)"
    by (simp add: read_bind_def add.assoc)
qed

lemma reads_bind_nothing: "reads p [] x \<Longrightarrow> reads (f x) cs y \<Longrightarrow> reads (read_bind p f) cs y"
  using reads_bind [of p "[]" x f cs y] by simp

lemma reads_lift_bind: "m = Inr x \<Longrightarrow> reads (f x) cs y \<Longrightarrow> reads (read_bind (read_lift m) f) cs y"
  by (rule reads_bind_nothing [OF reads_lift])

lemma reads_fold:
  assumes "\<And>k. k < length xs \<Longrightarrow> reads (f (xs ! k) (st k)) (bs k) (st (Suc k))"
  shows "reads (read_fold f xs (st 0)) (concat (map bs [0..<length xs])) (st (length xs))"
  using assms
proof (induction xs arbitrary: st bs)
  case Nil
  show ?case by (simp add: reads_return)
next
  case (Cons x xs)
  have "reads (read_fold f xs (st (Suc 0))) (concat (map (\<lambda>k. bs (Suc k)) [0..<length xs])) (st (Suc (length xs)))"
    using Cons.IH [of "\<lambda>k. st (Suc k)" "\<lambda>k. bs (Suc k)"] Cons.prems [of "Suc k" for k] by simp
  moreover have "reads (f x (st 0)) (bs 0) (st (Suc 0))" using Cons.prems [of 0] by simp
  moreover have "concat (map bs [0..<length (x # xs)]) = bs 0 @ concat (map (\<lambda>k. bs (Suc k)) [0..<length xs])"
    by (simp add: upt_conv_Cons map_Suc_upt [symmetric] comp_def del: upt_Suc)
  ultimately show ?case by (simp add: reads_bind del: upt_Suc)
qed

lemma checked_size_ok: "n \<le> maximum \<Longrightarrow> n \<le> size_max \<Longrightarrow> checked_size (of_nat n) maximum name = Inr n"
  by (simp add: checked_size_def size_max_def unat_of_nat take_bit_nat_eq_self)

section \<open>The interface of a scalar's representation\<close>

locale scalar_codec =
  fixes rep :: "'a \<Rightarrow> bytes" and unrep :: "bytes \<Rightarrow> 'a" and size_of :: nat
  assumes length_rep: "length (rep x) = size_of"
    and unrep_rep: "unrep (rep x) = x"
    and size_pos: "0 < size_of"
begin

lemma writes_scalar: "writes (write_scalar rep x) (rep x)"
  by (simp add: write_scalar_def writes_bytes)

lemma reads_scalar: "reads (read_scalar unrep size_of) (rep x) x"
proof -
  have "reads (read_scalar unrep size_of) (rep x @ []) (unrep (rep x))"
    unfolding read_scalar_def using reads_bind [OF reads_bytes reads_return, of "rep x" unrep] by (simp add: length_rep)
  then show ?thesis by (simp add: unrep_rep)
qed

lemma segment_concat: "i < length xs \<Longrightarrow> segment (concat (map rep xs)) (i * size_of) size_of = rep (xs ! i)"
proof (induction xs arbitrary: i)
  case (Cons x xs)
  then show ?case by (cases i) (simp_all add: segment_def length_rep)
qed simp

end

interpretation u8_scalar: scalar_codec "\<lambda>b :: u8. [b]" hd 1
  by unfold_locales simp_all

interpretation u32_scalar: scalar_codec le32 of_le32 4
  by unfold_locales simp_all

lemma of_le64_le64: "of_le64 (le64 w) = w"
proof (rule bit_word_eqI)
  fix n assume n: "n < LENGTH(64)"
  have "bit (of_le64 (le64 w)) n \<longleftrightarrow> (\<exists>i < 8. 8 * i \<le> n \<and> n - 8 * i < 8 \<and> bit w n)"
  proof -
    have fold: "bit (foldr (\<lambda>i acc. push_bit (8 * i) (ucast (le64 w ! i)) OR acc) is 0 :: u64) n
        \<longleftrightarrow> (\<exists>i \<in> set is. bit (push_bit (8 * i) (ucast (le64 w ! i)) :: u64) n)" for "is"
      by (induction "is") (simp_all add: bit_or_iff)
    have "bit (push_bit (8 * i) (ucast (le64 w ! i)) :: u64) n \<longleftrightarrow> 8 * i \<le> n \<and> n - 8 * i < 8 \<and> bit w n" if "i < 8" for i
      using that n by (auto simp: le64_def bit_simps)
    then show ?thesis unfolding of_le64_def fold by auto
  qed
  moreover have "n div 8 < 8 \<and> 8 * (n div 8) \<le> n \<and> n - 8 * (n div 8) < 8" using n by auto
  ultimately show "bit (of_le64 (le64 w)) n = bit w n" by blast
qed

interpretation u64_scalar: scalar_codec le64 of_le64 8
  by unfold_locales (simp_all add: of_le64_le64, simp add: le64_def)

context scalar_codec
begin

lemma writes_vector:
  assumes "length xs \<le> size_max div size_of"
  shows "writes (write_vector rep size_of xs) (le64 (of_nat (length xs)) @ concat (map rep xs))"
proof (cases "xs = []")
  case True
  then show ?thesis using writes_seq [OF u64_scalar.writes_scalar writes_nothing] by (simp add: write_vector_def)
next
  case False
  have "(\<lambda>w. if xs = [] then Inr w else if length xs > size_max div size_of
      then Inl (Overflow_error ''persistent vector byte size overflows'') else write_bytes (concat (map rep xs)) w)
    = write_bytes (concat (map rep xs))"
    using assms False by (simp add: fun_eq_iff)
  then show ?thesis unfolding write_vector_def by (metis u64_scalar.writes_scalar writes_bytes writes_seq)
qed

lemma reads_vector:
  assumes "length xs \<le> maximum" and "length xs \<le> size_max div size_of"
  shows "reads (read_vector unrep size_of maximum name) (le64 (of_nat (length xs)) @ concat (map rep xs)) xs"
proof -
  have small: "length xs \<le> size_max" using assms(2) by (meson div_le_dividend le_trans)
  show ?thesis
    unfolding read_vector_def
  proof (intro reads_bind [OF u64_scalar.reads_scalar] reads_lift_bind [OF checked_size_ok [OF assms(1) small]])
    show "reads (if length xs = 0 then read_return []
        else if length xs > size_max div size_of then read_lift (Inl (Overflow_error ''persistent vector byte size overflows''))
        else read_bind (read_bytes (length xs * size_of))
          (\<lambda>bs. read_return (map (\<lambda>i. unrep (segment bs (i * size_of) size_of)) [0..<length xs]))) (concat (map rep xs)) xs"
    proof (cases "xs = []")
      case False
      have len: "length (concat (map rep xs)) = length xs * size_of" by (simp add: length_concat comp_def length_rep sum_list_triv)
      have "map (\<lambda>i. unrep (segment (concat (map rep xs)) (i * size_of) size_of)) [0..<length xs] = xs"
        by (rule nth_equalityI) (simp_all add: segment_concat unrep_rep)
      then have "reads (read_bind (read_bytes (length xs * size_of))
          (\<lambda>bs. read_return (map (\<lambda>i. unrep (segment bs (i * size_of) size_of)) [0..<length xs]))) (concat (map rep xs) @ []) xs"
        using reads_return [of xs] by (intro reads_bind [OF reads_bytes [of "concat (map rep xs)", unfolded len]]) simp
      then show ?thesis using assms(2) False by simp
    qed (simp add: reads_return)
  qed
qed

end

end
