(* ===== verification/Uneven_Pq.thy ===== *)
theory Uneven_Pq
  imports Float64 Persistence
begin

text \<open>
  \<open>UnevenProductQuantizer\<close> (src/src/uneven\_product\_quantizer.cpp and its header): a 4-bit product
  quantizer whose groups have different widths. Groups of equal width form a bucket, which is trained
  and evaluated by one Faiss \<open>ProductQuantizer\<close>.

  The Faiss codebooks are the operations of \<open>faiss_pq_ops\<close>, and \<open>log2\<close> is a function of it as well: the
  C++ standard does not fix its last bit. The printed layout report and the \<open>verbose\<close> flag of the
  buckets are left out.
\<close>

section \<open>Faiss product quantizers\<close>

text \<open>The public fields of \<open>faiss::ProductQuantizer\<close> that the code reads.\<close>

record codebook =
  pq_d :: nat
  pq_M :: nat
  pq_nbits :: nat
  pq_ksub :: nat
  pq_code_size :: nat
  pq_centroids :: "f32 list"

record faiss_pq_ops =
  fq_new :: "nat \<Rightarrow> nat \<Rightarrow> nat \<Rightarrow> codebook"
  fq_train :: "codebook \<Rightarrow> nat \<Rightarrow> f32 list \<Rightarrow> codebook"
  fq_encode :: "codebook \<Rightarrow> f32 list \<Rightarrow> nat \<Rightarrow> bytes"
  fq_decode :: "codebook \<Rightarrow> bytes \<Rightarrow> nat \<Rightarrow> f32 list"
  fq_inner_table :: "codebook \<Rightarrow> f32 list \<Rightarrow> f32 list"
  fq_distance_table :: "codebook \<Rightarrow> f32 list \<Rightarrow> f32 list"
  fq_write :: "codebook \<Rightarrow> bytes"
  fq_read :: "io_reader \<Rightarrow> (codebook \<times> io_reader) res"
  fq_log2 :: "f64 \<Rightarrow> f64"

section \<open>State\<close>

record bucket =
  bk_width :: nat
  bk_count :: nat
  bk_first :: nat
  bk_offset :: nat
  bk_dim :: nat
  bk_bytes :: nat
  bk_dims :: "nat list"
  bk_pq :: codebook

record uneven_pq =
  up_d :: nat
  up_M :: nat
  up_nbits :: nat
  up_ksub :: nat
  up_code_size :: nat
  up_max_width :: nat
  up_report :: bool
  up_verbose :: bool
  up_trained :: bool
  up_groups :: "nat list list"
  up_budgets :: "f64 list"
  up_loads :: "f64 list"
  up_buckets :: "bucket list"

record bucket_info =
  bi_width :: nat
  bi_count :: nat
  bi_first :: nat
  bi_offset :: nat

record assignment =
  as_groups :: "nat list list"
  as_loads :: "f64 list"
  as_score :: f64

section \<open>Constants and small functions\<close>

definition faiss_check :: "bool \<Rightarrow> string \<Rightarrow> unit res" where
  "faiss_check cond msg = (if cond then Inr () else Inl (Faiss_exception msg))"

definition faiss_assert :: "bool \<Rightarrow> string \<Rightarrow> unit res" where
  "faiss_assert cond expr = (if cond then Inr () else Inl (Aborted expr))"

text \<open>\<open>1e-12\<close>, the value of both \<open>kRelativeVarianceFloor\<close> and \<open>kScoreTolerance\<close>, and other literals.\<close>

definition f64_1em12 :: f64 where "f64_1em12 = 0x3D719799812DEA11"
definition f64_1em8 :: f64 where "f64_1em8 = 0x3E45798EE2308C3A"
definition f64_half :: f64 where "f64_half = 0x3FE0000000000000"
definition f64_one :: f64 where "f64_one = 0x3FF0000000000000"

definition almost_equal :: "f64 \<Rightarrow> f64 \<Rightarrow> bool" where
  "almost_equal a b =
    (let scale = f64_max (f64_max f64_one (f64_abs a)) (f64_abs b)
     in f64_le (f64_abs (f64_sub a b)) (f64_mul f64_1em12 scale))"

text \<open>The comparator of both sorts: larger value first, then the smaller index. \<open>!=\<close> holds for a NaN.\<close>

definition larger_first :: "f64 list \<Rightarrow> nat \<Rightarrow> nat \<Rightarrow> bool" where
  "larger_first v a b = (if \<not> f64_eq (v ! a) (v ! b) then f64_lt (v ! b) (v ! a) else a < b)"

fun insert_by :: "('a \<Rightarrow> 'a \<Rightarrow> bool) \<Rightarrow> 'a \<Rightarrow> 'a list \<Rightarrow> 'a list" where
  "insert_by lt x [] = [x]"
| "insert_by lt x (y # ys) = (if lt y x then y # insert_by lt x ys else x # y # ys)"

text \<open>\<open>std::stable_sort\<close>.\<close>

definition stable_sort_by :: "('a \<Rightarrow> 'a \<Rightarrow> bool) \<Rightarrow> 'a list \<Rightarrow> 'a list" where
  "stable_sort_by lt xs = foldr (insert_by lt) xs []"

section \<open>Construction\<close>

definition uneven_new :: "nat \<Rightarrow> nat \<Rightarrow> nat \<Rightarrow> uneven_pq res" where
  "uneven_new d M nbits =
    res_bind (faiss_check (0 < d) ''vector dimension must be positive'') (\<lambda>_.
    res_bind (faiss_check (0 < M \<and> M \<le> d) ''the number of PQ groups must be in [1, d]'') (\<lambda>_.
    res_bind (faiss_check (nbits = 4) ''UnevenProductQuantizer currently supports PQ4 only'') (\<lambda>_.
    res_bind (faiss_check (M mod 2 = 0) ''an even number of PQ groups is required'') (\<lambda>_.
    res_bind (faiss_check (d mod 2 = 0) ''even-sized dimension buckets require even d'') (\<lambda>_.
      Inr \<lparr>up_d = d, up_M = M, up_nbits = nbits, up_ksub = 2 ^ nbits, up_code_size = M div 2, up_max_width = 0,
           up_report = True, up_verbose = False, up_trained = False, up_groups = [], up_budgets = [], up_loads = [],
           up_buckets = []\<rparr>)))))"

section \<open>Bit budgets\<close>

definition column_means :: "nat \<Rightarrow> nat \<Rightarrow> f32 list \<Rightarrow> f64 list" where
  "column_means d n x =
    (let inv_n = f64_div f64_one (f64_of_nat n)
     in map (\<lambda>j. f64_mul (f64_sum (map (\<lambda>i. f64_of_f32 (x ! (i * d + j))) [0..<n])) inv_n) [0..<d])"

definition column_variances :: "nat \<Rightarrow> nat \<Rightarrow> f32 list \<Rightarrow> f64 list \<Rightarrow> f64 list" where
  "column_variances d n x means =
    (let inv_n = f64_div f64_one (f64_of_nat n)
     in map (\<lambda>j. f64_mul (f64_sum (map (\<lambda>i.
          let delta = f64_sub (f64_of_f32 (x ! (i * d + j))) (means ! j) in f64_mul delta delta) [0..<n])) inv_n) [0..<d])"

text \<open>The descent of the water level over the heights in descending order.\<close>

fun lower_level :: "f64 list \<Rightarrow> f64 \<Rightarrow> f64 \<Rightarrow> nat \<Rightarrow> f64 \<times> f64" where
  "lower_level [] remaining level active = (remaining, level)"
| "lower_level (next_height # hs) remaining level active =
    (let gap = f64_max 0 (f64_sub level next_height);
         cost = f64_mul (f64_of_nat active) gap
     in if f64_le cost (f64_add remaining f64_1em12)
        then lower_level hs (f64_max 0 (f64_sub remaining cost)) next_height (active + 1)
        else (0, f64_sub level (f64_div remaining (f64_of_nat active))))"

definition compute_ideal_bit_budgets :: "faiss_pq_ops \<Rightarrow> uneven_pq \<Rightarrow> nat \<Rightarrow> f32 list option \<Rightarrow> f64 list res" where
  "compute_ideal_bit_budgets F U n x =
    res_bind (faiss_check (0 < n \<and> x \<noteq> None) ''training set is empty'') (\<lambda>_.
      let d = up_d U; variances = column_variances d n (the x) (column_means d n (the x));
          max_variance = fold (\<lambda>v m. if f64_lt m v then v else m) (tl variances) (hd variances)
      in res_bind (faiss_check (f64_lt 0 max_variance) ''cannot train uneven PQ on a zero-variance data set'') (\<lambda>_.
        let variance_floor = f64_mul max_variance f64_1em12;
            heights = map (\<lambda>v. f64_mul f64_half (fq_log2 F (f64_max variance_floor v))) variances;
            order = stable_sort_by (larger_first heights) [0..<d];
            target = f64_mul (f64_of_nat (up_M U)) (f64_of_nat (up_nbits U));
            (remaining, level) = lower_level (map ((!) heights) (tl order)) target (heights ! hd order) 1;
            level' = (if f64_lt 0 remaining then f64_sub level (f64_div remaining (f64_of_nat d)) else level);
            budgets = map (\<lambda>h. f64_max 0 (f64_sub h level')) heights
        in res_bind (faiss_check (f64_le (f64_abs (f64_sub (f64_sum budgets) target)) (f64_mul f64_1em8 (f64_max f64_one target)))
             ''reverse water-filling did not preserve the total bit budget'') (\<lambda>_. Inr budgets)))"

section \<open>Assigning dimensions to groups\<close>

text \<open>The lightest group with room; ties go to the smaller capacity, then to the smaller index.\<close>

definition better_group :: "nat list \<Rightarrow> f64 list \<Rightarrow> nat \<Rightarrow> nat \<Rightarrow> bool" where
  "better_group caps loads g best \<longleftrightarrow>
    f64_lt (loads ! g) (loads ! best)
    \<or> almost_equal (loads ! g) (loads ! best) \<and> caps ! g < caps ! best
    \<or> almost_equal (loads ! g) (loads ! best) \<and> caps ! g = caps ! best \<and> g < best"

definition choose_group :: "nat \<Rightarrow> nat list \<Rightarrow> nat list list \<Rightarrow> f64 list \<Rightarrow> nat" where
  "choose_group M caps groups loads =
    fold (\<lambda>g best. if caps ! g \<le> length (groups ! g) then best
        else if best = M \<or> better_group caps loads g best then g else best) [0..<M] M"

definition place_dimension :: "nat \<Rightarrow> nat list \<Rightarrow> f64 list \<Rightarrow> nat \<Rightarrow> nat list list \<times> f64 list \<Rightarrow> (nat list list \<times> f64 list) res" where
  "place_dimension M caps budgets dimension s =
    (case s of (groups, loads) \<Rightarrow>
      let best = choose_group M caps groups loads
      in res_bind (faiss_assert (best < M) ''best_group < M'') (\<lambda>_.
        Inr (groups[best := groups ! best @ [dimension]], loads[best := f64_add (loads ! best) (budgets ! dimension)])))"

text \<open>One swap of the local improvement; all pairs of positions in two different groups, in loop order.\<close>

definition swap_delta :: "f64 list \<Rightarrow> nat list list \<Rightarrow> f64 list \<Rightarrow> nat \<Rightarrow> nat \<Rightarrow> nat \<Rightarrow> nat \<Rightarrow> f64" where
  "swap_delta budgets groups loads a b ia ib =
    (let wa = budgets ! (groups ! a ! ia); wb = budgets ! (groups ! b ! ib);
         new_a = f64_add (f64_sub (loads ! a) wa) wb;
         new_b = f64_add (f64_sub (loads ! b) wb) wa;
         before = f64_add (f64_mul (loads ! a) (loads ! a)) (f64_mul (loads ! b) (loads ! b));
         after = f64_add (f64_mul new_a new_a) (f64_mul new_b new_b)
     in f64_sub after before)"

definition swap_positions :: "nat \<Rightarrow> nat list list \<Rightarrow> (nat \<times> nat \<times> nat \<times> nat) list" where
  "swap_positions M groups =
    [(a, b, ia, ib). a \<leftarrow> [0..<M], b \<leftarrow> [a + 1..<M], ia \<leftarrow> [0..<length (groups ! a)], ib \<leftarrow> [0..<length (groups ! b)]]"

definition best_swap :: "nat \<Rightarrow> f64 list \<Rightarrow> nat list list \<Rightarrow> f64 list \<Rightarrow> (nat \<times> nat \<times> nat \<times> nat) option" where
  "best_swap M budgets groups loads =
    snd (fold (\<lambda>(a, b, ia, ib) (best_delta, best).
        let delta = swap_delta budgets groups loads a b ia ib
        in if f64_lt delta best_delta then (delta, Some (a, b, ia, ib)) else (best_delta, best))
      (swap_positions M groups) (f64_neg f64_1em12, None))"

definition apply_swap :: "f64 list \<Rightarrow> nat \<times> nat \<times> nat \<times> nat \<Rightarrow> nat list list \<times> f64 list \<Rightarrow> nat list list \<times> f64 list" where
  "apply_swap budgets s gl =
    (case s of (a, b, ia, ib) \<Rightarrow> case gl of (groups, loads) \<Rightarrow>
      let dim_a = groups ! a ! ia; dim_b = groups ! b ! ib; wa = budgets ! dim_a; wb = budgets ! dim_b;
          groups1 = groups[a := (groups ! a)[ia := dim_b]];
          loads1 = loads[a := f64_add (loads ! a) (f64_sub wb wa)]
      in (groups1[b := (groups1 ! b)[ib := dim_a]], loads1[b := f64_add (loads1 ! b) (f64_sub wa wb)]))"

fun improve_swaps :: "nat \<Rightarrow> nat \<Rightarrow> f64 list \<Rightarrow> nat list list \<times> f64 list \<Rightarrow> nat list list \<times> f64 list" where
  "improve_swaps 0 M budgets s = s"
| "improve_swaps (Suc passes) M budgets s =
    (case best_swap M budgets (fst s) (snd s) of
       None \<Rightarrow> s
     | Some p \<Rightarrow> improve_swaps passes M budgets (apply_swap budgets p s))"

definition assignment_score :: "nat \<Rightarrow> nat \<Rightarrow> f64 list \<Rightarrow> f64" where
  "assignment_score M nbits loads =
    (let target = f64_of_nat nbits;
         squared_error = fold (\<lambda>load acc. let err = f64_sub load target in f64_add acc (f64_mul err err)) loads 0
     in f64_div squared_error (f64_add (f64_mul (f64_mul (f64_of_nat M) target) target) f64_1em12))"

definition assign_dimensions :: "uneven_pq \<Rightarrow> nat list \<Rightarrow> f64 list \<Rightarrow> assignment res" where
  "assign_dimensions U paired budgets =
    res_bind (faiss_assert (length paired = up_M U div 2) ''paired_capacities.size() == M / 2'') (\<lambda>_.
    res_bind (faiss_assert (length budgets = up_d U) ''bit_budgets.size() == d'') (\<lambda>_.
      let caps = sort (concat (map (\<lambda>c. [c, c]) paired))
      in res_bind (faiss_assert (sum_list caps = up_d U) ''sum of capacities == d'') (\<lambda>_.
         res_bind (res_fold (place_dimension (up_M U) caps budgets) (stable_sort_by (larger_first budgets) [0..<up_d U])
             (replicate (up_M U) [], replicate (up_M U) 0)) (\<lambda>s.
           let (groups, loads) = improve_swaps 8 (up_M U) budgets s
           in Inr \<lparr>as_groups = groups, as_loads = loads, as_score = assignment_score (up_M U) (up_nbits U) loads\<rparr>))))"

section \<open>Planning the capacities\<close>

text \<open>The other representative of a transfer between two pairs of equal width.\<close>

definition transfer_target :: "nat list \<Rightarrow> nat \<Rightarrow> nat \<Rightarrow> nat option" where
  "transfer_target caps from_pair to_pair =
    (if to_pair \<noteq> from_pair then Some to_pair
     else find (\<lambda>k. caps ! k = caps ! to_pair) [to_pair + 1..<length caps])"

definition try_transfer :: "uneven_pq \<Rightarrow> f64 list \<Rightarrow> nat \<Rightarrow> nat list \<Rightarrow> nat \<Rightarrow> nat
    \<Rightarrow> f64 \<times> nat list \<times> nat \<Rightarrow> (f64 \<times> nat list \<times> nat) res" where
  "try_transfer U budgets maximum caps from_pair to_pair s =
    (case s of (best_score, best_caps, previous_to) \<Rightarrow>
      if caps ! to_pair = previous_to then Inr s
      else if maximum \<le> caps ! to_pair then Inr (best_score, best_caps, caps ! to_pair)
      else case transfer_target caps from_pair to_pair of
        None \<Rightarrow> Inr (best_score, best_caps, caps ! to_pair)
      | Some actual_to \<Rightarrow>
          let shrunk = caps[from_pair := caps ! from_pair - 1];
              trial = sort (shrunk[actual_to := shrunk ! actual_to + 1])
          in if trial = caps then Inr (best_score, best_caps, caps ! to_pair)
             else res_bind (assign_dimensions U trial budgets) (\<lambda>a.
               if f64_lt (f64_add (as_score a) f64_1em12) best_score then Inr (as_score a, trial, caps ! to_pair)
               else Inr (best_score, best_caps, caps ! to_pair)))"

definition try_source :: "uneven_pq \<Rightarrow> f64 list \<Rightarrow> nat \<Rightarrow> nat list \<Rightarrow> nat
    \<Rightarrow> f64 \<times> nat list \<times> nat \<Rightarrow> (f64 \<times> nat list \<times> nat) res" where
  "try_source U budgets maximum caps from_pair s =
    (case s of (best_score, best_caps, previous_from) \<Rightarrow>
      if caps ! from_pair = previous_from then Inr s
      else if caps ! from_pair \<le> 1 then Inr (best_score, best_caps, caps ! from_pair)
      else res_bind (res_fold (try_transfer U budgets maximum caps from_pair) [0..<length caps] (best_score, best_caps, size_max))
        (\<lambda>(score, found, _). Inr (score, found, caps ! from_pair)))"

fun climb :: "nat \<Rightarrow> uneven_pq \<Rightarrow> f64 list \<Rightarrow> nat \<Rightarrow> nat list \<Rightarrow> f64 \<Rightarrow> nat list res" where
  "climb 0 U budgets maximum caps current = Inr caps"
| "climb (Suc passes) U budgets maximum caps current =
    res_bind (res_fold (try_source U budgets maximum caps) [0..<length caps] (current, [], size_max)) (\<lambda>(score, found, _).
      if found = [] then Inr caps else climb passes U budgets maximum found score)"

definition initial_capacities :: "uneven_pq \<Rightarrow> nat list" where
  "initial_capacities U =
    (let pair_count = up_M U div 2; paired_dimensions = up_d U div 2;
         base = paired_dimensions div pair_count; larger = paired_dimensions mod pair_count
     in map (\<lambda>i. if pair_count - larger \<le> i then base + 1 else base) [0..<pair_count])"

definition width_limit :: "uneven_pq \<Rightarrow> nat" where
  "width_limit U = (if up_max_width U = 0 then (up_d U + up_M U - 1) div up_M U + 2 else up_max_width U)"

definition plan_paired_capacities :: "uneven_pq \<Rightarrow> f64 list \<Rightarrow> nat list res" where
  "plan_paired_capacities U budgets =
    res_bind (faiss_check ((up_d U + up_M U - 1) div up_M U \<le> width_limit U) ''max_subspace_dimension is too small'') (\<lambda>_.
    res_bind (assign_dimensions U (initial_capacities U) budgets) (\<lambda>a.
      climb 16 U budgets (width_limit U) (initial_capacities U) (as_score a)))"

end
