(* ===== verification/Uneven_Codec.thy ===== *)
theory Uneven_Codec
  imports Uneven_Pq
begin

text \<open>
  The second half of \<open>UnevenProductQuantizer\<close>: buckets, training, encoding, decoding, lookup tables
  and persistence. Buffers are flat and row-major, as in the source.
\<close>

section \<open>Buckets\<close>

definition run_end :: "nat list list \<Rightarrow> nat \<Rightarrow> nat" where
  "run_end groups first = first + length (takeWhile (\<lambda>g. length g = length (groups ! first)) (drop first groups))"

definition make_bucket :: "faiss_pq_ops \<Rightarrow> nat \<Rightarrow> nat list list \<Rightarrow> nat \<Rightarrow> nat \<Rightarrow> bucket" where
  "make_bucket F nbits groups first count =
    \<lparr>bk_width = length (groups ! first), bk_count = count, bk_first = first, bk_offset = first div 2,
     bk_dim = length (groups ! first) * count, bk_bytes = count div 2,
     bk_dims = concat (segment groups first count), bk_pq = fq_new F (length (groups ! first) * count) count nbits\<rparr>"

lemma run_end_greater: "first < length groups \<Longrightarrow> first < run_end groups first"
  by (cases "drop first groups") (auto simp: run_end_def nth_via_drop)

text \<open>The buckets of the groups from \<open>first\<close> on; the group count is \<open>M\<close>.\<close>

function bucket_loop :: "faiss_pq_ops \<Rightarrow> nat \<Rightarrow> nat list list \<Rightarrow> nat \<Rightarrow> bucket list res" where
  "bucket_loop F nbits groups first =
    (if length groups \<le> first then Inr []
     else let count = run_end groups first - first
       in res_bind (faiss_check (count mod 2 = 0) ''each subspace-dimension bucket must contain an even group count'') (\<lambda>_.
          res_bind (bucket_loop F nbits groups (run_end groups first)) (\<lambda>bs.
            Inr (make_bucket F nbits groups first count # bs))))"
  by pat_completeness auto
termination
  by (relation "measure (\<lambda>(F, nbits, groups, first). length groups - first)") (auto simp: not_le intro: diff_less_mono2 run_end_greater)

declare bucket_loop.simps [simp del]

definition mark_dimension :: "nat \<Rightarrow> nat \<Rightarrow> bool list \<Rightarrow> bool list res" where
  "mark_dimension d dimension seen =
    res_bind (faiss_check (dimension < d) ''dimension index is out of range'') (\<lambda>_.
    res_bind (faiss_check (\<not> seen ! dimension) ''dimension assigned to more than one group'') (\<lambda>_.
      Inr (seen[dimension := True])))"

definition check_bucket :: "nat \<Rightarrow> bucket \<Rightarrow> bool list \<times> nat \<times> nat \<times> nat \<Rightarrow> (bool list \<times> nat \<times> nat \<times> nat) res" where
  "check_bucket d b s =
    (case s of (seen, dimension_count, byte_count, expected_first) \<Rightarrow>
      res_bind (faiss_check (bk_count b mod 2 = 0) ''bucket group count is not even'') (\<lambda>_.
      res_bind (faiss_check (bk_first b = expected_first) ''bucket group offsets are not contiguous'') (\<lambda>_.
      res_bind (faiss_check (bk_offset b = expected_first div 2) ''bucket code offsets are not byte aligned'') (\<lambda>_.
      res_bind (res_fold (mark_dimension d) (bk_dims b) seen) (\<lambda>seen'.
        Inr (seen', dimension_count + bk_dim b, byte_count + bk_bytes b, expected_first + bk_count b))))))"

definition validate_layout :: "uneven_pq \<Rightarrow> unit res" where
  "validate_layout U =
    res_bind (faiss_check (length (up_groups U) = up_M U) ''uneven PQ layout has the wrong group count'') (\<lambda>_.
    res_bind (res_fold (check_bucket (up_d U)) (up_buckets U) (replicate (up_d U) False, 0, 0, 0))
      (\<lambda>(seen, dimension_count, byte_count, expected_first).
        res_bind (faiss_check (expected_first = up_M U) ''layout omits PQ groups'') (\<lambda>_.
        res_bind (faiss_check (dimension_count = up_d U) ''layout omits dimensions'') (\<lambda>_.
          faiss_check (byte_count = up_code_size U) ''uneven PQ code contains padding bytes''))))"

text \<open>The loop over \<open>first < M\<close> reads the sizes of \<open>M\<close> groups.\<close>

definition build_buckets :: "faiss_pq_ops \<Rightarrow> uneven_pq \<Rightarrow> nat list list \<Rightarrow> uneven_pq res" where
  "build_buckets F U groups =
    res_bind (bucket_loop F (up_nbits U) (take (up_M U) groups) 0) (\<lambda>bs.
      let U' = U\<lparr>up_groups := groups, up_buckets := bs\<rparr> in res_bind (validate_layout U') (\<lambda>_. Inr U'))"

section \<open>Training\<close>

definition gather_bucket :: "nat \<Rightarrow> bucket \<Rightarrow> nat \<Rightarrow> f32 list \<Rightarrow> f32 list" where
  "gather_bucket d b n x = concat (map (\<lambda>i. map (\<lambda>j. x ! (i * d + bk_dims b ! j)) [0..<bk_dim b]) [0..<n])"

definition group_load :: "f64 list \<Rightarrow> nat list \<Rightarrow> f64" where
  "group_load budgets dims = f64_sum (map ((!) budgets) dims)"

definition uneven_train :: "faiss_pq_ops \<Rightarrow> uneven_pq \<Rightarrow> nat \<Rightarrow> f32 list option \<Rightarrow> uneven_pq res" where
  "uneven_train F U n x =
    res_bind (compute_ideal_bit_budgets F U n x) (\<lambda>budgets.
    res_bind (plan_paired_capacities U budgets) (\<lambda>paired.
    res_bind (assign_dimensions U paired budgets) (\<lambda>a.
    res_bind (build_buckets F (U\<lparr>up_trained := False, up_budgets := [], up_loads := []\<rparr>) (as_groups a)) (\<lambda>U1.
      let U2 = U1\<lparr>up_buckets := map (\<lambda>b. b\<lparr>bk_pq := fq_train F (bk_pq b) n (gather_bucket (up_d U) b n (the x))\<rparr>) (up_buckets U1),
                  up_budgets := budgets, up_loads := as_loads a\<rparr>
      in res_bind (faiss_check (length (up_loads U2) = up_M U2) ''uneven PQ diagnostics have the wrong group count'') (\<lambda>_.
         res_bind (faiss_check (almost_equal (f64_sum (up_loads U2)) (f64_sum (up_budgets U2)))
           ''final group loads do not preserve the ideal bit budget'') (\<lambda>_.
         res_bind (res_fold (\<lambda>g _. faiss_check (almost_equal (group_load (up_budgets U2) (up_groups U2 ! g)) (up_loads U2 ! g))
             ''stored group load does not match its assigned dimensions'') [0..<up_M U2] ()) (\<lambda>_.
           Inr (U2\<lparr>up_trained := True\<rparr>))))))))"

section \<open>Codes and tables\<close>

definition splice_bucket :: "nat \<Rightarrow> bucket \<Rightarrow> nat \<Rightarrow> bytes \<Rightarrow> bytes \<Rightarrow> bytes" where
  "splice_bucket code_size b n bucket_codes codes =
    fold (\<lambda>i out. patch out (i * code_size + bk_offset b) (segment bucket_codes (i * bk_bytes b) (bk_bytes b))) [0..<n] codes"

definition uneven_encode :: "faiss_pq_ops \<Rightarrow> uneven_pq \<Rightarrow> f32 list option \<Rightarrow> nat \<Rightarrow> bytes res" where
  "uneven_encode F U x n =
    res_bind (faiss_check (up_trained U) ''uneven PQ is not trained'') (\<lambda>_.
    res_bind (faiss_check (n = 0 \<or> x \<noteq> None) ''invalid encoding input'') (\<lambda>_.
      Inr (if n = 0 then [] else
        fold (\<lambda>b codes. splice_bucket (up_code_size U) b n (fq_encode F (bk_pq b) (gather_bucket (up_d U) b n (the x)) n) codes)
          (up_buckets U) (replicate (n * up_code_size U) 0))))"

definition take_codes :: "nat \<Rightarrow> bucket \<Rightarrow> nat \<Rightarrow> bytes \<Rightarrow> bytes" where
  "take_codes code_size b n codes = concat (map (\<lambda>i. segment codes (i * code_size + bk_offset b) (bk_bytes b)) [0..<n])"

definition scatter_row :: "nat \<Rightarrow> bucket \<Rightarrow> f32 list \<Rightarrow> nat \<Rightarrow> f32 list \<Rightarrow> f32 list" where
  "scatter_row d b rows i x = fold (\<lambda>j out. out[i * d + bk_dims b ! j := rows ! (i * bk_dim b + j)]) [0..<bk_dim b] x"

definition uneven_decode :: "faiss_pq_ops \<Rightarrow> uneven_pq \<Rightarrow> bytes option \<Rightarrow> nat \<Rightarrow> f32 list res" where
  "uneven_decode F U codes n =
    res_bind (faiss_check (up_trained U) ''uneven PQ is not trained'') (\<lambda>_.
    res_bind (faiss_check (n = 0 \<or> codes \<noteq> None) ''invalid decoding input'') (\<lambda>_.
      Inr (if n = 0 then [] else
        fold (\<lambda>b x. fold (scatter_row (up_d U) b (fq_decode F (bk_pq b) (take_codes (up_code_size U) b n (the codes)) n)) [0..<n] x)
          (up_buckets U) (replicate (n * up_d U) 0))))"

text \<open>The table is written in place; \<open>kind\<close> is the Faiss function that fills a bucket's part.\<close>

definition uneven_table :: "(codebook \<Rightarrow> f32 list \<Rightarrow> f32 list) \<Rightarrow> uneven_pq \<Rightarrow> f32 list \<Rightarrow> f32 list \<Rightarrow> f32 list res" where
  "uneven_table kind U x table =
    res_bind (faiss_check (up_trained U) ''uneven PQ is not trained'') (\<lambda>_.
      Inr (fold (\<lambda>b t. patch t (bk_first b * up_ksub U) (kind (bk_pq b) (gather_bucket (up_d U) b 1 x))) (up_buckets U) table))"

definition uneven_inner_prod_table :: "faiss_pq_ops \<Rightarrow> uneven_pq \<Rightarrow> f32 list \<Rightarrow> f32 list \<Rightarrow> f32 list res" where
  "uneven_inner_prod_table F = uneven_table (fq_inner_table F)"

definition uneven_distance_table :: "faiss_pq_ops \<Rightarrow> uneven_pq \<Rightarrow> f32 list \<Rightarrow> f32 list \<Rightarrow> f32 list res" where
  "uneven_distance_table F = uneven_table (fq_distance_table F)"

definition uneven_tables :: "(uneven_pq \<Rightarrow> f32 list \<Rightarrow> f32 list \<Rightarrow> f32 list res) \<Rightarrow> uneven_pq \<Rightarrow> nat \<Rightarrow> f32 list \<Rightarrow> f32 list \<Rightarrow> f32 list res" where
  "uneven_tables one U n x tables =
    (let cells = up_M U * up_ksub U
     in res_fold (\<lambda>i t. res_bind (one U (segment x (i * up_d U) (up_d U)) (segment t (i * cells) cells)) (\<lambda>row. Inr (patch t (i * cells) row)))
          [0..<n] tables)"

definition bucket_infos :: "uneven_pq \<Rightarrow> bucket_info list" where
  "bucket_infos U = map (\<lambda>b. \<lparr>bi_width = bk_width b, bi_count = bk_count b, bi_first = bk_first b, bi_offset = bk_offset b\<rparr>) (up_buckets U)"

section \<open>Persistence\<close>

abbreviation write_size :: "nat \<Rightarrow> io_writer \<Rightarrow> io_writer res" where
  "write_size n \<equiv> write_scalar le64 (of_nat n)"

abbreviation write_flag :: "bool \<Rightarrow> io_writer \<Rightarrow> io_writer res" where
  "write_flag b \<equiv> write_scalar (\<lambda>b :: u8. [b]) (if b then 1 else 0)"

definition write_bucket :: "faiss_pq_ops \<Rightarrow> bucket \<Rightarrow> io_writer \<Rightarrow> io_writer res" where
  "write_bucket F b =
    write_seq (write_size (bk_width b)) (write_seq (write_size (bk_count b)) (write_seq (write_size (bk_first b))
    (write_seq (write_size (bk_offset b)) (write_bytes (fq_write F (bk_pq b))))))"

definition uneven_write :: "faiss_pq_ops \<Rightarrow> uneven_pq \<Rightarrow> io_writer \<Rightarrow> io_writer res" where
  "uneven_write F U w =
    (if \<not> up_trained U then Inl (Invalid_argument ''cannot persist an untrained uneven PQ'')
     else res_bind (validate_layout U) (\<lambda>_.
       write_seq (write_scalar le32 1) (write_seq (write_size (up_d U)) (write_seq (write_size (up_M U))
       (write_seq (write_size (up_nbits U)) (write_seq (write_size (up_max_width U)) (write_seq (write_flag (up_report U))
       (write_seq (write_flag (up_verbose U)) (write_seq (write_size (length (up_groups U)))
       (write_seq (res_fold (\<lambda>g. write_vector le64 8 (map of_nat g)) (up_groups U))
       (write_seq (write_vector le64 8 (up_budgets U)) (write_seq (write_vector le64 8 (up_loads U))
       (write_seq (write_size (length (up_buckets U))) (res_fold (write_bucket F) (up_buckets U))))))))))))) w))"

abbreviation read_size :: "nat \<Rightarrow> string \<Rightarrow> io_reader \<Rightarrow> (nat \<times> io_reader) res" where
  "read_size maximum name \<equiv> read_bind (read_scalar of_le64 8) (\<lambda>v. read_lift (checked_size v maximum name))"

abbreviation read_flag :: "io_reader \<Rightarrow> (bool \<times> io_reader) res" where
  "read_flag \<equiv> read_bind (read_scalar hd 1) (\<lambda>b :: u8. read_return (b \<noteq> 0))"

definition read_group :: "nat \<Rightarrow> nat list list \<times> nat \<Rightarrow> io_reader \<Rightarrow> ((nat list list \<times> nat) \<times> io_reader) res" where
  "read_group d s =
    read_bind (read_vector of_le64 8 d ''group dimension list'') (\<lambda>persisted.
    read_bind (read_lift (res_fold (\<lambda>v g. res_bind (checked_size v (d - 1) ''group dimension index'') (\<lambda>j. Inr (g @ [j]))) persisted [])) (\<lambda>group.
      if group = [] \<or> d - length group < snd s then read_lift (Inl (Runtime_error ''invalid persisted uneven group dimensions''))
      else read_return (fst s @ [group], snd s + length group)))"

definition read_bucket :: "faiss_pq_ops \<Rightarrow> uneven_pq \<Rightarrow> bucket \<Rightarrow> bucket list \<Rightarrow> io_reader \<Rightarrow> (bucket list \<times> io_reader) res" where
  "read_bucket F U b done =
    read_bind (read_size (up_d U) ''bucket subspace dimension'') (\<lambda>width.
    read_bind (read_size (up_M U) ''bucket subspace count'') (\<lambda>cnt.
    read_bind (read_size (up_M U) ''bucket first subspace'') (\<lambda>first.
    read_bind (read_size (up_code_size U) ''bucket code offset'') (\<lambda>offset.
      if width \<noteq> bk_width b \<or> cnt \<noteq> bk_count b \<or> first \<noteq> bk_first b \<or> offset \<noteq> bk_offset b
      then read_lift (Inl (Runtime_error ''persisted uneven bucket layout is inconsistent''))
      else read_bind (fq_read F) (\<lambda>pq.
        if pq_d pq \<noteq> bk_dim b \<or> pq_M pq \<noteq> bk_count b \<or> pq_nbits pq \<noteq> up_nbits U \<or> pq_ksub pq \<noteq> up_ksub U
           \<or> pq_code_size pq \<noteq> bk_bytes b \<or> length (pq_centroids pq) \<noteq> bk_dim b * up_ksub U
        then read_lift (Inl (Runtime_error ''persisted uneven PQ codebook is incompatible''))
        else read_return (done @ [b\<lparr>bk_pq := pq\<rparr>]))))))"

definition uneven_read_groups :: "uneven_pq \<Rightarrow> io_reader \<Rightarrow> (nat list list \<times> io_reader) res" where
  "uneven_read_groups U =
    read_bind (read_size (up_M U) ''uneven group count'') (\<lambda>group_count.
      if group_count \<noteq> up_M U then read_lift (Inl (Runtime_error ''persisted uneven PQ has the wrong group count''))
      else read_bind (read_fold (\<lambda>_. read_group (up_d U)) [0..<group_count] ([], 0)) (\<lambda>(groups, total).
        if total \<noteq> up_d U then read_lift (Inl (Runtime_error ''persisted uneven groups do not cover dimension''))
        else read_return groups))"

definition check_loads :: "uneven_pq \<Rightarrow> unit res" where
  "check_loads U = res_fold (\<lambda>g _.
    if almost_equal (group_load (up_budgets U) (up_groups U ! g)) (up_loads U ! g) then Inr ()
    else Inl (Runtime_error ''persisted uneven group load is inconsistent'')) [0..<up_M U] ()"

definition uneven_read :: "faiss_pq_ops \<Rightarrow> io_reader \<Rightarrow> (uneven_pq \<times> io_reader) res" where
  "uneven_read F =
    read_bind (read_scalar of_le32 4) (\<lambda>version.
      if version \<noteq> 1 then read_lift (Inl (Runtime_error ''unsupported uneven-PQ persistence version'')) else
    read_bind (read_size (2 ^ 20) ''dimension'') (\<lambda>d.
    read_bind (read_size d ''subquantizer count'') (\<lambda>M.
    read_bind (read_size 64 ''bits per subquantizer'') (\<lambda>nbits.
    read_bind (read_lift (uneven_new d M nbits)) (\<lambda>U0.
    read_bind (read_size d ''maximum subspace dimension'') (\<lambda>max_width.
    read_bind read_flag (\<lambda>report.
    read_bind read_flag (\<lambda>verbose.
    read_bind (uneven_read_groups U0) (\<lambda>groups.
    read_bind (read_vector of_le64 8 d ''ideal bit budgets'') (\<lambda>budgets.
    read_bind (read_vector of_le64 8 M ''group bit loads'') (\<lambda>loads.
      if length budgets \<noteq> d \<or> length loads \<noteq> M
      then read_lift (Inl (Runtime_error ''persisted uneven diagnostics have wrong sizes'')) else
    read_bind (read_lift (build_buckets F (U0\<lparr>up_max_width := max_width, up_report := report, up_verbose := verbose,
        up_budgets := budgets, up_loads := loads\<rparr>) groups)) (\<lambda>U1.
    read_bind (read_size M ''uneven bucket count'') (\<lambda>bucket_count.
      if bucket_count \<noteq> length (up_buckets U1)
      then read_lift (Inl (Runtime_error ''persisted uneven bucket count is inconsistent'')) else
    read_bind (read_fold (read_bucket F U1) (up_buckets U1) []) (\<lambda>bs.
      let U2 = U1\<lparr>up_buckets := bs\<rparr>
      in read_bind (read_lift (validate_layout U2)) (\<lambda>_.
         read_bind (read_lift (check_loads U2)) (\<lambda>_.
           read_return (U2\<lparr>up_trained := True\<rparr>)))))))))))))))))"

end
