(* ===== verification/Uneven_Plan.thy ===== *)
theory Uneven_Plan
  imports Uneven_Codec "HOL-Library.Multiset"
begin

text \<open>
  The planner of the uneven product quantizer always produces a partition of the dimensions into
  groups whose sizes are the planned capacities, whatever the bit budgets are and however the
  floating-point comparisons turn out, NaN included.
\<close>

section \<open>Sorting\<close>

lemma mset_insert_by [simp]: "mset (insert_by lt x ys) = add_mset x (mset ys)"
  by (induction ys) simp_all

lemma mset_stable_sort_by [simp]: "mset (stable_sort_by lt xs) = mset xs"
  by (induction xs) (simp_all add: stable_sort_by_def)

lemma set_stable_sort_by [simp]: "set (stable_sort_by lt xs) = set xs"
  by (rule mset_eq_setD) simp

lemma length_stable_sort_by [simp]: "length (stable_sort_by lt xs) = length xs"
  by (rule mset_eq_length) simp

section \<open>Placing the dimensions\<close>

lemma choose_group_cases:
  "choose_group M caps groups loads = M \<and> (\<forall>g < M. caps ! g \<le> length (groups ! g))
    \<or> choose_group M caps groups loads < M \<and> length (groups ! choose_group M caps groups loads) < caps ! choose_group M caps groups loads"
proof -
  let ?f = "\<lambda>g best. if caps ! g \<le> length (groups ! g) then best else if best = M \<or> better_group caps loads g best then g else best"
  have "k \<le> M \<Longrightarrow> (fold ?f [0..<k] M = M \<and> (\<forall>g < k. caps ! g \<le> length (groups ! g)))
      \<or> fold ?f [0..<k] M < k \<and> length (groups ! fold ?f [0..<k] M) < caps ! fold ?f [0..<k] M" for k
  proof (induction k)
    case (Suc k)
    then show ?case by (auto simp: less_Suc_eq)
  qed simp
  from this [of M] show ?thesis unfolding choose_group_def by auto
qed

text \<open>The groups hold the placed dimensions and no group is over its capacity.\<close>

definition placed :: "nat \<Rightarrow> nat list \<Rightarrow> nat list \<Rightarrow> nat list list \<times> f64 list \<Rightarrow> bool" where
  "placed M caps ds s \<longleftrightarrow> length (fst s) = M \<and> length (snd s) = M \<and> mset (concat (fst s)) = mset ds
    \<and> (\<forall>g < M. length (fst s ! g) \<le> caps ! g)"

lemma mset_concat_update:
  "i < length xs \<Longrightarrow> mset (concat (xs[i := ys])) + mset (xs ! i) = mset (concat xs) + mset ys"
proof (induction xs arbitrary: i)
  case (Cons x xs)
  then show ?case by (cases i) (simp_all add: ac_simps)
qed simp

lemma length_concat_sum: "length (concat xs) = (\<Sum>i<length xs. length (xs ! i))"
  by (simp add: length_concat sum_list_sum_nth atLeast0LessThan)

lemma place_dimension_ok:
  assumes "placed M caps ds s" and "length caps = M" and "length ds < sum_list caps"
  shows "\<exists>s'. place_dimension M caps budgets dimension s = Inr s' \<and> placed M caps (ds @ [dimension]) s'"
proof -
  obtain groups loads where s: "s = (groups, loads)" by fastforce
  let ?best = "choose_group M caps groups loads"
  have p: "length groups = M" "length loads = M" "mset (concat groups) = mset ds" "\<forall>g < M. length (groups ! g) \<le> caps ! g"
    using assms(1) by (simp_all add: placed_def s)
  have "\<not> (\<forall>g < M. caps ! g \<le> length (groups ! g))"
  proof
    assume "\<forall>g < M. caps ! g \<le> length (groups ! g)"
    then have "(\<Sum>g<M. caps ! g) \<le> (\<Sum>g<M. length (groups ! g))" by (intro sum_mono) simp
    moreover have "length (concat groups) = length ds" using p(3) by (metis size_mset)
    ultimately show False using assms(2,3) p(1) by (simp add: length_concat_sum sum_list_sum_nth atLeast0LessThan)
  qed
  then have b: "?best < M" "length (groups ! ?best) < caps ! ?best" using choose_group_cases [of M caps groups loads] by auto
  have "mset (concat (groups[?best := groups ! ?best @ [dimension]])) = mset (ds @ [dimension])"
    using mset_concat_update [of ?best groups "groups ! ?best @ [dimension]"] b(1) p(1,3)
    by (simp add: union_mset_add_mset_right)
  then show ?thesis using b p by (auto simp: place_dimension_def s Let_def faiss_assert_def placed_def nth_list_update)
qed

lemma place_all_ok:
  assumes "placed M caps done s" and "length caps = M" and "length (done @ ds) \<le> sum_list caps"
  shows "\<exists>s'. res_fold (place_dimension M caps budgets) ds s = Inr s' \<and> placed M caps (done @ ds) s'"
  using assms
proof (induction ds arbitrary: "done" s)
  case (Cons x ds)
  obtain s1 where s1: "place_dimension M caps budgets x s = Inr s1" "placed M caps (done @ [x]) s1"
    using place_dimension_ok [OF Cons.prems(1,2), of budgets x] Cons.prems(3) by auto
  from Cons.IH [OF s1(2) Cons.prems(2)] Cons.prems(3) show ?case by (simp add: s1(1))
qed simp

section \<open>Local improvement\<close>

lemma best_swap_valid:
  assumes "best_swap M budgets groups loads = Some (a, b, ia, ib)"
  shows "a < M \<and> b < M \<and> a \<noteq> b \<and> ia < length (groups ! a) \<and> ib < length (groups ! b)"
proof -
  let ?f = "\<lambda>(a, b, ia, ib) (best_delta, best).
        let delta = swap_delta budgets groups loads a b ia ib
        in if f64_lt delta best_delta then (delta, Some (a, b, ia, ib)) else (best_delta, best)"
  have "snd (fold ?f ps s) = None \<or> snd (fold ?f ps s) \<in> Some ` set ps \<or> snd (fold ?f ps s) = snd s" for ps s
  proof (induction ps arbitrary: s)
    case (Cons p ps)
    show ?case using Cons [of "?f p s"] by (auto simp: Let_def split: prod.splits if_splits)
  qed simp
  from this [of "swap_positions M groups" "(f64_neg f64_1em12, None)"] assms have "(a, b, ia, ib) \<in> set (swap_positions M groups)"
    by (auto simp: best_swap_def)
  then show ?thesis by (auto simp: swap_positions_def)
qed

text \<open>A swap keeps the sizes of all groups and the dimensions as a whole.\<close>

definition same_shape :: "nat list list \<Rightarrow> nat list list \<Rightarrow> bool" where
  "same_shape gs hs \<longleftrightarrow> map length gs = map length hs \<and> mset (concat gs) = mset (concat hs)"

lemma swap_mset:
  fixes groups :: "nat list list"
  assumes "a < length groups" "b < length groups" "a \<noteq> b" and "ia < length (groups ! a)" "ib < length (groups ! b)"
  shows "mset (concat ((groups[a := (groups ! a)[ia := groups ! b ! ib]])[b := (groups ! b)[ib := groups ! a ! ia]])) = mset (concat groups)"
    (is "mset (concat ?h) = _")
proof (rule multiset_eqI)
  fix x
  let ?ga = "groups ! a" and ?gb = "groups ! b"
  let ?g1 = "groups[a := ?ga[ia := ?gb ! ib]]"
  have 1: "mset (concat ?g1) + mset ?ga = mset (concat groups) + mset (?ga[ia := ?gb ! ib])"
    using assms(1) by (rule mset_concat_update)
  have 2: "mset (concat ?h) + mset ?gb = mset (concat ?g1) + mset (?gb[ib := ?ga ! ia])"
    using mset_concat_update [of b ?g1] assms by simp
  have upd: "mset (ys[j := v]) + {#ys ! j#} = mset ys + {#v#}" if "j < length ys" for ys :: "nat list" and j v
    using that by (simp add: mset_update)
  show "count (mset (concat ?h)) x = count (mset (concat groups)) x"
    using arg_cong [OF 1, of "\<lambda>m. count m x"] arg_cong [OF 2, of "\<lambda>m. count m x"]
      arg_cong [OF upd [OF assms(4), of "?gb ! ib"], of "\<lambda>m. count m x"] arg_cong [OF upd [OF assms(5), of "?ga ! ia"], of "\<lambda>m. count m x"]
    unfolding count_union by linarith
qed

lemma improve_swaps_shape:
  assumes "length (fst s) = M" and "length (snd s) = M"
  shows "same_shape (fst (improve_swaps passes M budgets s)) (fst s) \<and> length (snd (improve_swaps passes M budgets s)) = M"
  using assms
proof (induction passes M budgets s rule: improve_swaps.induct)
  case (2 passes M budgets s)
  show ?case
  proof (cases "best_swap M budgets (fst s) (snd s)")
    case None
    then show ?thesis using "2.prems" by (simp add: same_shape_def)
  next
    case (Some p)
    obtain a b ia ib where p: "p = (a, b, ia, ib)" by (metis prod_cases4)
    obtain groups loads where s: "s = (groups, loads)" by fastforce
    have v: "a < M" "b < M" "a \<noteq> b" "ia < length (groups ! a)" "ib < length (groups ! b)"
      using best_swap_valid [OF Some [unfolded p]] by (simp_all add: s)
    let ?t = "apply_swap budgets p s"
    have len: "length (fst ?t) = M" "length (snd ?t) = M" using "2.prems" by (simp_all add: apply_swap_def p s Let_def)
    have "fst ?t = (groups[a := (groups ! a)[ia := groups ! b ! ib]])[b := (groups ! b)[ib := groups ! a ! ia]]"
      using v by (simp add: apply_swap_def p s Let_def)
    moreover have "map length ((groups[a := (groups ! a)[ia := groups ! b ! ib]])[b := (groups ! b)[ib := groups ! a ! ia]]) = map length groups"
      using v(3) by (simp add: map_update) (metis length_map list_update_id list_update_swap nth_map v(1,2) "2.prems"(1) s fst_conv)
    ultimately have "same_shape (fst ?t) (fst s)"
      using swap_mset [of a groups b ia ib] v "2.prems"(1) by (simp add: same_shape_def s)
    then show ?thesis using "2.IH" [OF Some len] Some by (simp add: same_shape_def)
  qed
qed (simp add: same_shape_def)

section \<open>The assignment\<close>

text \<open>The planned capacities of the pairs, and the capacities of the groups.\<close>

definition paired_ok :: "uneven_pq \<Rightarrow> nat list \<Rightarrow> bool" where
  "paired_ok U paired \<longleftrightarrow> length paired = up_M U div 2 \<and> 2 * sum_list paired = up_d U"

definition group_widths :: "nat list \<Rightarrow> nat list" where
  "group_widths paired = sort (concat (map (\<lambda>c. [c, c]) paired))"

lemma group_widths_total [simp]:
  "length (group_widths paired) = 2 * length paired" "sum_list (group_widths paired) = 2 * sum_list paired"
proof -
  show "length (group_widths paired) = 2 * length paired" by (simp add: group_widths_def, induction paired) simp_all
  have "sum_list (group_widths paired) = sum_list (concat (map (\<lambda>c. [c, c]) paired))"
    unfolding group_widths_def by (metis mset_sort sum_mset_sum_list)
  also have "\<dots> = 2 * sum_list paired" by (induction paired) simp_all
  finally show "sum_list (group_widths paired) = 2 * sum_list paired" .
qed

definition partition_of :: "nat \<Rightarrow> nat list \<Rightarrow> nat list list \<Rightarrow> bool" where
  "partition_of d widths groups \<longleftrightarrow> map length groups = widths \<and> mset (concat groups) = mset [0..<d]"

lemma assign_dimensions_ok:
  assumes "paired_ok U paired" and "length budgets = up_d U" and "up_M U mod 2 = 0"
  shows "\<exists>a. assign_dimensions U paired budgets = Inr a \<and> partition_of (up_d U) (group_widths paired) (as_groups a) \<and> length (as_loads a) = up_M U"
proof -
  let ?caps = "group_widths paired" and ?M = "up_M U" and ?ds = "stable_sort_by (larger_first budgets) [0..<up_d U]"
  have caps: "length ?caps = ?M" "sum_list ?caps = up_d U" using assms(1,3) by (auto simp: paired_ok_def)
  have "placed ?M ?caps [] (replicate ?M [], replicate ?M 0)" by (simp add: placed_def concat_replicate_trivial)
  from place_all_ok [OF this caps(1), of ?ds budgets] caps(2) obtain s where
    s: "res_fold (place_dimension ?M ?caps budgets) ?ds (replicate ?M [], replicate ?M 0) = Inr s" "placed ?M ?caps ?ds s" by auto
  let ?t = "improve_swaps 8 ?M budgets s"
  have shape: "same_shape (fst ?t) (fst s)" "length (snd ?t) = ?M" using improve_swaps_shape [of s ?M 8 budgets] s(2) by (simp_all add: placed_def)
  have "map length (fst s) = ?caps"
  proof (rule nth_equalityI)
    show l: "length (map length (fst s)) = length ?caps" using s(2) caps(1) by (simp add: placed_def)
    have "length (concat (fst s)) = up_d U" using s(2) by (metis diff_zero length_stable_sort_by length_upt placed_def size_mset)
    then have eq: "(\<Sum>g<?M. length (fst s ! g)) = (\<Sum>g<?M. ?caps ! g)"
      using s(2) caps by (simp add: placed_def length_concat_sum sum_list_sum_nth atLeast0LessThan)
    have le: "length (fst s ! g) \<le> ?caps ! g" if "g < ?M" for g using s(2) that by (simp add: placed_def)
    fix g assume "g < length (map length (fst s))"
    then have g: "g < ?M" using s(2) by (simp add: placed_def)
    have "length (fst s ! g) = ?caps ! g"
    proof (rule ccontr)
      assume "length (fst s ! g) \<noteq> ?caps ! g"
      then have "length (fst s ! g) < ?caps ! g" using le [OF g] by simp
      then have "(\<Sum>g<?M. length (fst s ! g)) < (\<Sum>g<?M. ?caps ! g)" using g le by (intro sum_strict_mono_ex1) auto
      then show False using eq by simp
    qed
    then show "map length (fst s) ! g = ?caps ! g" using g s(2) by (simp add: placed_def)
  qed
  moreover have "mset (concat (fst s)) = mset [0..<up_d U]" using s(2) by (simp add: placed_def)
  ultimately have "partition_of (up_d U) ?caps (fst ?t)" using shape(1) by (simp add: partition_of_def same_shape_def)
  moreover have "assign_dimensions U paired budgets
      = Inr \<lparr>as_groups = fst ?t, as_loads = snd ?t, as_score = assignment_score ?M (up_nbits U) (snd ?t)\<rparr>"
    using assms(1,2) caps(2) s(1)
    by (simp add: assign_dimensions_def faiss_assert_def paired_ok_def flip: group_widths_def) (simp add: Let_def split: prod.split)
  ultimately show ?thesis using shape(2) by simp
qed

section \<open>The capacities\<close>

text \<open>What every profile of the hill climb satisfies.\<close>

definition profile_ok :: "uneven_pq \<Rightarrow> nat list \<Rightarrow> bool" where
  "profile_ok U caps \<longleftrightarrow> paired_ok U caps \<and> sorted caps \<and> (\<forall>c \<in> set caps. 1 \<le> c \<and> c \<le> width_limit U)"

lemma transfer_profile:
  assumes "profile_ok U caps" and "from_pair < length caps" "to_pair < length caps" "from_pair \<noteq> to_pair"
    and "1 < caps ! from_pair" and "caps ! to_pair < width_limit U"
  shows "profile_ok U (sort (caps[from_pair := caps ! from_pair - 1, to_pair := caps[from_pair := caps ! from_pair - 1] ! to_pair + 1]))"
proof -
  let ?t = "caps[from_pair := caps ! from_pair - 1, to_pair := caps ! to_pair + 1]"
  have eq: "caps[from_pair := caps ! from_pair - 1, to_pair := caps[from_pair := caps ! from_pair - 1] ! to_pair + 1] = ?t"
    using assms(4) by simp
  have le: "caps ! from_pair \<le> sum_list caps" using assms(2) by (simp add: elem_le_sum_list)
  have "sum_list (caps[from_pair := caps ! from_pair - 1]) = sum_list caps - 1"
    using sum_list_update [OF assms(2), of "caps ! from_pair - 1"] assms(5) le by simp
  moreover have "sum_list ?t = sum_list (caps[from_pair := caps ! from_pair - 1]) + 1"
    using sum_list_update [of to_pair "caps[from_pair := caps ! from_pair - 1]" "caps ! to_pair + 1"] assms(3,4)
      elem_le_sum_list [of to_pair "caps[from_pair := caps ! from_pair - 1]"] by simp
  ultimately have "sum_list ?t = sum_list caps" using assms(5) le by simp
  moreover have "1 \<le> c \<and> c \<le> width_limit U" if "c \<in> set ?t" for c
  proof -
    obtain k where k: "k < length caps" "c = ?t ! k" using \<open>c \<in> set ?t\<close> by (auto simp: in_set_conv_nth simp del: nth_list_update)
    have "1 \<le> caps ! k \<and> caps ! k \<le> width_limit U" using assms(1) k(1) by (simp add: profile_ok_def)
    then show ?thesis using k assms(2-6) by (auto simp: nth_list_update)
  qed
  moreover have "sum_list (sort ?t) = sum_list ?t" by (metis mset_sort sum_mset_sum_list)
  ultimately show ?thesis unfolding eq using assms(1) by (simp add: profile_ok_def paired_ok_def)
qed

definition found_ok :: "uneven_pq \<Rightarrow> f64 \<times> nat list \<times> nat \<Rightarrow> bool" where
  "found_ok U s \<longleftrightarrow> fst (snd s) = [] \<or> profile_ok U (fst (snd s))"

text \<open>The planner's members that the operations read.\<close>

definition planner_ok :: "uneven_pq \<Rightarrow> f64 list \<Rightarrow> bool" where
  "planner_ok U budgets \<longleftrightarrow> length budgets = up_d U \<and> up_M U mod 2 = 0"

lemma try_transfer_ok:
  assumes "planner_ok U budgets" and caps: "profile_ok U caps" and "from_pair < length caps" "to_pair < length caps" "1 < caps ! from_pair" and s: "found_ok U s"
  shows "\<exists>s'. try_transfer U budgets (width_limit U) caps from_pair to_pair s = Inr s' \<and> found_ok U s'"
proof -
  obtain score found previous where s': "s = (score, found, previous)" by (metis prod_cases3)
  show ?thesis
  proof (cases "caps ! to_pair = previous \<or> width_limit U \<le> caps ! to_pair \<or> transfer_target caps from_pair to_pair = None")
    case True
    then show ?thesis using s by (auto simp: try_transfer_def s' found_ok_def split: option.split)
  next
    case False
    then obtain k where k: "transfer_target caps from_pair to_pair = Some k" by auto
    then have k': "k < length caps" "k \<noteq> from_pair" "caps ! k = caps ! to_pair"
      using assms(4) by (auto simp: transfer_target_def find_Some_iff split: if_splits)
    let ?trial = "sort (caps[from_pair := caps ! from_pair - 1, k := caps[from_pair := caps ! from_pair - 1] ! k + 1])"
    have trial: "profile_ok U ?trial" using False k' by (intro transfer_profile [OF caps assms(3) k'(1) _ assms(5)]) auto
    then obtain a where a: "assign_dimensions U ?trial budgets = Inr a"
      using assign_dimensions_ok [of U ?trial budgets] assms(1) by (auto simp: profile_ok_def planner_ok_def)
    show ?thesis using False k a trial s by (auto simp: try_transfer_def s' Let_def found_ok_def)
  qed
qed

lemma try_source_ok:
  assumes "planner_ok U budgets" and caps: "profile_ok U caps" and "from_pair < length caps" and s: "found_ok U s"
  shows "\<exists>s'. try_source U budgets (width_limit U) caps from_pair s = Inr s' \<and> found_ok U s'"
proof -
  obtain score found previous where s': "s = (score, found, previous)" by (metis prod_cases3)
  show ?thesis
  proof (cases "caps ! from_pair = previous \<or> caps ! from_pair \<le> 1")
    case True
    then show ?thesis using s by (auto simp: try_source_def s' found_ok_def)
  next
    case False
    have "\<exists>t. res_fold (try_transfer U budgets (width_limit U) caps from_pair) [0..<length caps] (score, found, size_max) = Inr t \<and> found_ok U t"
    proof (rule res_fold_total)
      show "found_ok U (score, found, size_max)" using s by (simp add: s' found_ok_def)
    qed (use False try_transfer_ok [OF assms(1) caps assms(3)] in auto)
    then show ?thesis using False by (auto simp: try_source_def s' found_ok_def)
  qed
qed

lemma climb_ok:
  assumes "planner_ok U budgets" and "profile_ok U caps"
  shows "\<exists>caps'. climb passes U budgets (width_limit U) caps score = Inr caps' \<and> profile_ok U caps'"
  using assms(2)
proof (induction passes arbitrary: caps score)
  case (Suc passes)
  have "\<exists>s. res_fold (try_source U budgets (width_limit U) caps) [0..<length caps] (score, [], size_max) = Inr s \<and> found_ok U s"
  proof (rule res_fold_total)
    show "found_ok U (score, [], size_max)" by (simp add: found_ok_def)
  qed (use try_source_ok [OF assms(1) Suc.prems] in auto)
  then obtain s where s: "res_fold (try_source U budgets (width_limit U) caps) [0..<length caps] (score, [], size_max) = Inr s" "found_ok U s" by blast
  show ?case
  proof (cases "fst (snd s) = []")
    case True
    then show ?thesis using s Suc.prems by (cases s) simp
  next
    case False
    then have "profile_ok U (fst (snd s))" using s(2) by (simp add: found_ok_def)
    from Suc.IH [OF this] show ?thesis using s(1) False by (cases s) simp
  qed
qed simp

text \<open>A quantizer as its constructor leaves it, as far as the planner is concerned.\<close>

definition uneven_dims_ok :: "uneven_pq \<Rightarrow> bool" where
  "uneven_dims_ok U \<longleftrightarrow> 0 < up_M U \<and> up_M U \<le> up_d U \<and> up_M U mod 2 = 0 \<and> up_d U mod 2 = 0 \<and> up_nbits U = 4 \<and> up_ksub U = 16
    \<and> up_code_size U = up_M U div 2"

lemma uneven_new_iff:
  "uneven_new d M nbits = Inr U \<longleftrightarrow> 0 < M \<and> M \<le> d \<and> M mod 2 = 0 \<and> d mod 2 = 0 \<and> nbits = 4
    \<and> U = \<lparr>up_d = d, up_M = M, up_nbits = 4, up_ksub = 16, up_code_size = M div 2, up_max_width = 0,
           up_report = True, up_verbose = False, up_trained = False, up_groups = [], up_budgets = [], up_loads = [], up_buckets = []\<rparr>"
  by (auto simp: uneven_new_def faiss_check_def)

lemma uneven_new_dims: "uneven_new d M nbits = Inr U \<Longrightarrow> uneven_dims_ok U \<and> up_d U = d \<and> up_M U = M"
  by (auto simp: uneven_new_iff uneven_dims_ok_def)

lemma initial_profile:
  assumes "uneven_dims_ok U" and "(up_d U + up_M U - 1) div up_M U \<le> width_limit U"
  shows "profile_ok U (initial_capacities U)"
proof -
  obtain m e where m: "up_M U = 2 * m" and e: "up_d U = 2 * e" and pos: "0 < m" "m \<le> e"
    using assms(1) by (auto simp: uneven_dims_ok_def elim!: evenE simp flip: even_iff_mod_2_eq_zero)
  let ?q = "e div m" and ?r = "e mod m"
  have eq: "initial_capacities U = map (\<lambda>i. if m - ?r \<le> i then ?q + 1 else ?q) [0..<m]" (is "_ = ?caps")
    using pos by (simp add: initial_capacities_def m e Let_def)
  have r: "?r < m" using pos by simp
  have split: "?caps = replicate (m - ?r) ?q @ replicate ?r (?q + 1)"
    by (rule nth_equalityI) (use r in \<open>auto simp: nth_append\<close>)
  have sum: "sum_list ?caps = e"
  proof -
    have "sum_list ?caps = (m - ?r) * ?q + ?r * (?q + 1)" by (simp add: split sum_list_replicate)
    also have "\<dots> = m * ?q + ?r"
    proof -
      have "(m - ?r) * ?q + ?r * ?q = m * ?q" using r by (metis add_mult_distrib le_add_diff_inverse2 less_imp_le)
      then show ?thesis unfolding add_mult_distrib2 mult_1_right by linarith
    qed
    also have "\<dots> = e" by simp
    finally show ?thesis .
  qed
  have q: "1 \<le> ?q" using pos by (simp add: Suc_leI div_greater_zero_iff)
  have "c \<le> width_limit U" if "c \<in> set ?caps" for c
  proof -
    have c: "c \<le> ?q \<or> (c = ?q + 1 \<and> 0 < ?r)" using that unfolding split by auto
    have "?q + (if 0 < ?r then 1 else 0) \<le> (2 * e + 2 * m - 1) div (2 * m)"
    proof -
      have "(2 * m) * (?q + (if 0 < ?r then 1 else 0)) \<le> 2 * e + 2 * m - 1"
      proof (cases "0 < ?r")
        case True
        have "m * ?q + 1 \<le> e" using True mult_div_mod_eq [of m e] by linarith
        then show ?thesis using True by (simp add: algebra_simps)
      next
        case False
        then have "m * ?q = e" by (metis add.right_neutral mult_div_mod_eq not_gr_zero)
        then show ?thesis using False pos(1) by (simp add: algebra_simps)
      qed
      then show ?thesis using pos(1) by (simp add: less_eq_div_iff_mult_less_eq mult.commute)
    qed
    then show ?thesis using c assms(2) by (auto simp: m e split: if_splits)
  qed
  moreover have "sorted ?caps" unfolding split by (simp add: sorted_append sorted_replicate)
  moreover have "\<forall>c \<in> set ?caps. 1 \<le> c" unfolding split using q by auto
  ultimately show ?thesis using sum unfolding eq by (simp add: profile_ok_def paired_ok_def m e)
qed

lemma plan_ok:
  assumes "uneven_dims_ok U" and "(up_d U + up_M U - 1) div up_M U \<le> width_limit U" and "length budgets = up_d U"
  shows "\<exists>caps. plan_paired_capacities U budgets = Inr caps \<and> profile_ok U caps"
proof -
  note init = initial_profile [OF assms(1,2)]
  have p: "planner_ok U budgets" using assms(1,3) by (simp add: planner_ok_def uneven_dims_ok_def)
  obtain a where "assign_dimensions U (initial_capacities U) budgets = Inr a"
    using assign_dimensions_ok [of U "initial_capacities U" budgets] init p by (auto simp: profile_ok_def planner_ok_def)
  then show ?thesis using climb_ok [OF p init, of 16 "as_score a"] assms(2) by (simp add: plan_paired_capacities_def faiss_check_def)
qed

lemma automatic_limit: "up_max_width U = 0 \<Longrightarrow> (up_d U + up_M U - 1) div up_M U \<le> width_limit U"
  by (simp add: width_limit_def)

end
