(* ===== verification/Uneven_Layout.thy ===== *)
theory Uneven_Layout
  imports Uneven_Plan
begin

text \<open>
  The layout of the buckets: from any grouping that the planner can return, the buckets cover the
  groups, the dimensions and the bytes of a code without gaps, and the runtime checks of the layout
  never fail.
\<close>

section \<open>Chains of buckets\<close>

fun bucket_chain :: "nat list list \<Rightarrow> nat \<Rightarrow> bucket list \<Rightarrow> bool" where
  "bucket_chain gs first [] \<longleftrightarrow> first = length gs"
| "bucket_chain gs first (b # bs) \<longleftrightarrow>
    bk_first b = first \<and> 0 < bk_count b \<and> even (bk_count b) \<and> first + bk_count b \<le> length gs
    \<and> (\<forall>g \<in> set (segment gs first (bk_count b)). length g = bk_width b) \<and> bk_offset b = first div 2
    \<and> bk_dim b = bk_width b * bk_count b \<and> bk_bytes b = bk_count b div 2 \<and> bk_dims b = concat (segment gs first (bk_count b))
    \<and> bucket_chain gs (first + bk_count b) bs"

lemma run_length: "takeWhile P xs = take (length (takeWhile P xs)) xs"
  by (metis append_eq_conv_conj takeWhile_dropWhile_id)

lemma run_segment:
  assumes "first < length gs"
  shows "segment gs first (run_end gs first - first) = takeWhile (\<lambda>g. length g = length (gs ! first)) (drop first gs)"
    and "run_end gs first \<le> length gs"
proof -
  let ?run = "takeWhile (\<lambda>g. length g = length (gs ! first)) (drop first gs)"
  show "segment gs first (run_end gs first - first) = ?run"
    unfolding segment_def run_end_def by (simp add: run_length [symmetric])
  have "length ?run \<le> length (drop first gs)" by (rule length_takeWhile_le)
  then show "run_end gs first \<le> length gs" using assms by (simp add: run_end_def)
qed

lemma bucket_loop_chain:
  assumes "bucket_loop F nbits gs first = Inr bs" and "even first" "first \<le> length gs"
  shows "bucket_chain gs first bs"
  using assms
proof (induction F nbits gs first arbitrary: bs rule: bucket_loop.induct)
  case (1 F nbits gs first)
  show ?case
  proof (cases "length gs \<le> first")
    case True
    then show ?thesis using "1.prems" by (simp add: bucket_loop.simps [of F nbits gs first])
  next
    case False
    let ?e = "run_end gs first" let ?c = "?e - first"
    obtain bs' where bs': "bs = make_bucket F nbits gs first ?c # bs'" "?c mod 2 = 0" "bucket_loop F nbits gs ?e = Inr bs'"
      using "1.prems"(1) False by (auto simp: bucket_loop.simps [of F nbits gs first] Let_def faiss_check_def split: if_splits)
    have e: "first < ?e" "?e \<le> length gs" using run_end_greater [of first gs] run_segment(2) [of first gs] False by simp_all
    have "\<forall>g \<in> set (segment gs first ?c). length g = length (gs ! first)"
      using run_segment(1) [of first gs] False by (auto dest: set_takeWhileD)
    moreover have "bucket_chain gs ?e bs'" using e "1.prems"(2) bs'(2,3) False by (intro "1.IH") auto
    ultimately show ?thesis using bs' e by (auto simp: make_bucket_def)
  qed
qed

text \<open>Sorted widths that come in pairs give runs of even length.\<close>

definition paired_widths :: "nat list \<Rightarrow> bool" where
  "paired_widths ws \<longleftrightarrow> sorted ws \<and> (\<forall>w. even (count (mset ws) w))"

lemma takeWhile_sorted_count:
  "sorted (w # ws) \<Longrightarrow> length (takeWhile (\<lambda>v. v = w) (w # ws)) = count (mset (w # ws)) w" for w :: nat
proof (induction ws)
  case (Cons v ws)
  show ?case
  proof (cases "v = w")
    case True
    then show ?thesis using Cons by simp
  next
    case False
    then have "w \<notin> set (v # ws)" using Cons.prems by auto
    then have "count (mset (v # ws)) w = 0" by (metis count_mset_0_iff)
    then show ?thesis using False by simp
  qed
qed simp

lemma paired_widths_run:
  assumes "paired_widths ws" and "first < length ws" and "run = length (takeWhile (\<lambda>v. v = ws ! first) (drop first ws))"
    and "paired_widths (drop first ws)"
  shows "even run" and "paired_widths (drop (first + run) ws)"
proof -
  have d: "drop first ws = ws ! first # drop (Suc first) ws" using assms(2) by (rule Cons_nth_drop_Suc [symmetric])
  have s: "sorted (ws ! first # drop (Suc first) ws)" using assms(4) unfolding paired_widths_def d by blast
  have run: "run = count (mset (drop first ws)) (ws ! first)" using takeWhile_sorted_count [OF s] unfolding assms(3) d .
  then show "even run" using assms(4) by (simp add: paired_widths_def)
  have tw: "takeWhile (\<lambda>v. v = ws ! first) (drop first ws) = replicate run (ws ! first)"
    unfolding assms(3) by (metis (mono_tags, lifting) replicate_length_same set_takeWhileD)
  have "drop first ws = replicate run (ws ! first) @ drop (first + run) ws"
    by (metis add.commute append_take_drop_id assms(3) drop_drop run_length tw)
  then have "mset (drop first ws) = mset (replicate run (ws ! first)) + mset (drop (first + run) ws)"
    by (metis mset_append)
  then have "count (mset (drop (first + run) ws)) w = count (mset (drop first ws)) w - (if w = ws ! first then run else 0)" for w
    by (simp add: count_replicate_mset)
  then have "even (count (mset (drop (first + run) ws)) w)" for w
    using assms(4) run by (cases "w = ws ! first") (simp_all add: paired_widths_def)
  moreover have "sorted (drop (first + run) ws)" using assms(1) by (simp add: paired_widths_def sorted_wrt_drop)
  ultimately show "paired_widths (drop (first + run) ws)" by (simp add: paired_widths_def)
qed

lemma bucket_loop_ok:
  assumes "paired_widths (map length gs)" and "paired_widths (drop first (map length gs))"
  shows "\<exists>bs. bucket_loop F nbits gs first = Inr bs"
  using assms
proof (induction F nbits gs first rule: bucket_loop.induct)
  case (1 F nbits gs first)
  show ?case
  proof (cases "length gs \<le> first")
    case True
    then show ?thesis by (simp add: bucket_loop.simps [of F nbits gs first])
  next
    case False
    let ?run = "length (takeWhile (\<lambda>g. length g = length (gs ! first)) (drop first gs))"
    have "takeWhile (\<lambda>v. v = map length gs ! first) (drop first (map length gs))
        = map length (takeWhile (\<lambda>g. length g = length (gs ! first)) (drop first gs))"
      using False by (simp add: drop_map takeWhile_map comp_def)
    then have run: "?run = length (takeWhile (\<lambda>v. v = map length gs ! first) (drop first (map length gs)))" by simp
    have "first < length (map length gs)" using False by simp
    note pw = paired_widths_run [OF "1.prems"(1) this run "1.prems"(2)]
    have c: "run_end gs first - first = ?run" "run_end gs first = first + ?run" by (simp_all add: run_end_def)
    obtain bs where "bucket_loop F nbits gs (run_end gs first) = Inr bs"
      using "1.IH" [OF False refl] pw "1.prems"(1) c by (auto simp: faiss_check_def even_iff_mod_2_eq_zero)
    then show ?thesis using False pw(1) c by (simp add: bucket_loop.simps [of F nbits gs first] Let_def faiss_check_def even_iff_mod_2_eq_zero)
  qed
qed

lemma group_widths_paired: "paired_widths (group_widths paired)"
proof -
  have "even (count (mset (concat (map (\<lambda>c. [c, c]) paired))) w)" for w by (induction paired) simp_all
  then show ?thesis by (simp add: paired_widths_def group_widths_def)
qed

section \<open>The layout check\<close>

lemma mark_dimensions:
  assumes "distinct ds" and "\<forall>x \<in> set ds. x < d \<and> \<not> seen ! x" and "length seen = d"
  shows "\<exists>seen'. res_fold (mark_dimension d) ds seen = Inr seen' \<and> length seen' = d \<and> (\<forall>x < d. seen' ! x \<longleftrightarrow> seen ! x \<or> x \<in> set ds)"
  using assms
proof (induction ds arbitrary: seen)
  case (Cons y ds)
  have "\<exists>seen'. res_fold (mark_dimension d) ds (seen[y := True]) = Inr seen' \<and> length seen' = d
      \<and> (\<forall>x < d. seen' ! x \<longleftrightarrow> seen[y := True] ! x \<or> x \<in> set ds)"
    using Cons.prems by (intro Cons.IH) (auto simp: nth_list_update)
  then obtain seen' where s: "res_fold (mark_dimension d) ds (seen[y := True]) = Inr seen'" "length seen' = d"
    "\<forall>x < d. seen' ! x \<longleftrightarrow> seen[y := True] ! x \<or> x \<in> set ds" by blast
  have "mark_dimension d y seen = Inr (seen[y := True])" using Cons.prems by (simp add: mark_dimension_def faiss_check_def)
  then have "res_fold (mark_dimension d) (y # ds) seen = Inr seen'" using s(1) by simp
  then show ?case using s(2,3) Cons.prems by (auto simp: nth_list_update)
qed simp

lemma chain_dims:
  assumes "bucket_chain gs first bs"
  shows "concat (map bk_dims bs) = concat (drop first gs)"
  using assms
proof (induction gs first bs rule: bucket_chain.induct)
  case (2 gs first b bs)
  then have "concat (map bk_dims (b # bs)) = concat (segment gs first (bk_count b)) @ concat (drop (first + bk_count b) gs)" by simp
  also have "\<dots> = concat (drop first gs)" by (metis add.commute append_take_drop_id concat_append drop_drop segment_def)
  finally show ?case .
qed simp

lemma chain_le: "bucket_chain gs first bs \<Longrightarrow> first \<le> length gs"
  by (induction gs first bs rule: bucket_chain.induct) auto

lemma chain_dim:
  assumes "bucket_chain gs first bs" and "b \<in> set bs"
  shows "length (bk_dims b) = bk_dim b" and "0 < bk_count b" and "even (bk_count b)" and "bk_bytes b = bk_count b div 2"
    and "bk_dim b = bk_width b * bk_count b" and "first \<le> bk_first b" and "bk_first b + bk_count b \<le> length gs"
    and "even first \<Longrightarrow> bk_first b = 2 * bk_offset b"
proof -
  have "length (bk_dims b) = bk_dim b \<and> 0 < bk_count b \<and> even (bk_count b) \<and> bk_bytes b = bk_count b div 2 \<and> bk_dim b = bk_width b * bk_count b
      \<and> first \<le> bk_first b \<and> bk_first b + bk_count b \<le> length gs \<and> (even first \<longrightarrow> bk_first b = 2 * bk_offset b)"
    using assms
  proof (induction gs first bs rule: bucket_chain.induct)
    case (2 gs first c bs)
    have "length (bk_dims c) = bk_dim c" 
    proof -
      have "map length (segment gs first (bk_count c)) = map (\<lambda>_. bk_width c) (segment gs first (bk_count c))"
        using "2.prems"(1) by simp
      also have "\<dots> = replicate (bk_count c) (bk_width c)" using "2.prems"(1) by (simp add: map_replicate_const)
      finally show ?thesis using "2.prems"(1) by (simp add: length_concat sum_list_replicate mult.commute)
    qed
    then show ?case using 2 chain_le by (cases "b = c") auto
  qed simp
  then show "length (bk_dims b) = bk_dim b" "0 < bk_count b" "even (bk_count b)" "bk_bytes b = bk_count b div 2"
    "bk_dim b = bk_width b * bk_count b" "first \<le> bk_first b" "bk_first b + bk_count b \<le> length gs"
    "even first \<Longrightarrow> bk_first b = 2 * bk_offset b" by simp_all
qed

lemma chain_sorted: "bucket_chain gs first bs \<Longrightarrow> sorted_wrt (\<lambda>b c. bk_first b + bk_count b \<le> bk_first c) bs"
proof (induction gs first bs rule: bucket_chain.induct)
  case (2 gs first b bs)
  then show ?case using chain_dim(6) [of gs "first + bk_count b" bs] by auto
qed simp

lemma check_buckets_ok:
  assumes "bucket_chain gs first bs" and "even first" and "distinct (concat (drop first gs))"
    and "\<forall>x \<in> set (concat (drop first gs)). x < d \<and> \<not> seen ! x" and "length seen = d"
  shows "\<exists>seen'. res_fold (check_bucket d) bs (seen, dc, bc, first)
    = Inr (seen', dc + length (concat (drop first gs)), bc + (length gs - first) div 2, length gs)"
  using assms
proof (induction gs first bs arbitrary: seen dc bc rule: bucket_chain.induct)
  case (2 gs first b bs)
  let ?rest = "drop (first + bk_count b) gs"
  have split: "concat (drop first gs) = bk_dims b @ concat ?rest"
    using "2.prems"(1) by (metis add.commute append_take_drop_id bucket_chain.simps(2) concat_append drop_drop segment_def)
  obtain seen1 where s1: "res_fold (mark_dimension d) (bk_dims b) seen = Inr seen1" "length seen1 = d"
    "\<forall>x < d. seen1 ! x \<longleftrightarrow> seen ! x \<or> x \<in> set (bk_dims b)"
    using mark_dimensions [of "bk_dims b" d seen] "2.prems"(3-5) unfolding split by auto
  have dist: "distinct (concat ?rest)" "\<forall>x \<in> set (concat ?rest). x < d \<and> \<not> seen1 ! x"
    using "2.prems"(3,4) s1(3) unfolding split by auto
  have chain: "bucket_chain gs (first + bk_count b) bs" "even (first + bk_count b)" using "2.prems"(1,2) by simp_all
  have bd: "length (bk_dims b) = bk_dim b" using chain_dim(1) [OF "2.prems"(1)] by simp
  have "(length gs - first) div 2 = bk_bytes b + (length gs - (first + bk_count b)) div 2"
  proof -
    have "length gs - first = bk_count b + (length gs - (first + bk_count b))" using "2.prems"(1) by simp
    moreover obtain k where "bk_count b = 2 * k" using "2.prems"(1) by (auto elim: evenE)
    moreover have "bk_bytes b = bk_count b div 2" using "2.prems"(1) by simp
    ultimately show ?thesis by simp
  qed
  then show ?case
    using "2.IH" [OF chain dist s1(2), of "dc + bk_dim b" "bc + bk_bytes b"] "2.prems"(1) s1(1) bd
    by (auto simp: check_bucket_def faiss_check_def split add.assoc even_iff_mod_2_eq_zero)
qed simp

lemma validate_layout_ok:
  assumes "bucket_chain (up_groups U) 0 (up_buckets U)" and "mset (concat (up_groups U)) = mset [0..<up_d U]"
    and "length (up_groups U) = up_M U" and "up_code_size U = up_M U div 2"
  shows "validate_layout U = Inr ()"
proof -
  have d: "distinct (concat (up_groups U))" using assms(2) by (metis distinct_upt mset_eq_imp_distinct_iff)
  have s: "set (concat (up_groups U)) = {0..<up_d U}" using mset_eq_setD [OF assms(2)] by simp
  have l: "length (concat (up_groups U)) = up_d U" using mset_eq_length [OF assms(2)] by simp
  have "\<forall>x \<in> set (concat (drop 0 (up_groups U))). x < up_d U \<and> \<not> replicate (up_d U) False ! x" using s by simp
  from check_buckets_ok [OF assms(1) _ _ this, of 0 0] d obtain seen' where
    "res_fold (check_bucket (up_d U)) (up_buckets U) (replicate (up_d U) False, 0, 0, 0)
      = Inr (seen', length (concat (up_groups U)), length (up_groups U) div 2, length (up_groups U))" by auto
  then show ?thesis using assms(3,4) l by (simp add: validate_layout_def faiss_check_def)
qed

end
