(* ===== verification/Uneven_Correct.thy ===== *)
theory Uneven_Correct
  imports Uneven_Layout
begin

text \<open>
  What a trained uneven product quantizer computes: its code is the direct sum of the codes of its
  buckets, decoding undoes it bucket by bucket, its lookup tables are those of the buckets, and
  writing and reading it back is the identity.
\<close>

section \<open>Assumptions on Faiss\<close>

definition codebook_for :: "codebook \<Rightarrow> nat \<Rightarrow> nat \<Rightarrow> bool" where
  "codebook_for c D M \<longleftrightarrow> pq_d c = D \<and> pq_M c = M \<and> pq_nbits c = 4 \<and> pq_ksub c = 16 \<and> pq_code_size c = M div 2
    \<and> length (pq_centroids c) = D * 16"

text \<open>
  Documented behaviour of \<open>faiss::ProductQuantizer\<close> with four bits: the sizes of its members and of its
  outputs, and that \<open>read_ProductQuantizer\<close> restores what \<open>write_ProductQuantizer\<close> wrote.
\<close>

definition faiss_pq_sizes :: "faiss_pq_ops \<Rightarrow> bool" where
  "faiss_pq_sizes F \<longleftrightarrow>
    (\<forall>w M. 0 < w \<longrightarrow> 0 < M \<longrightarrow> even M \<longrightarrow> codebook_for (fq_new F (w * M) M 4) (w * M) M)
    \<and> (\<forall>c D M n x. codebook_for c D M \<longrightarrow> codebook_for (fq_train F c n x) D M)
    \<and> (\<forall>c D M n x. codebook_for c D M \<longrightarrow> length x = n * D \<longrightarrow> length (fq_encode F c x n) = n * (M div 2))
    \<and> (\<forall>c D M n bs. codebook_for c D M \<longrightarrow> length bs = n * (M div 2) \<longrightarrow> length (fq_decode F c bs n) = n * D)
    \<and> (\<forall>c D M x. codebook_for c D M \<longrightarrow> length x = D \<longrightarrow> length (fq_inner_table F c x) = M * 16)
    \<and> (\<forall>c D M x. codebook_for c D M \<longrightarrow> length x = D \<longrightarrow> length (fq_distance_table F c x) = M * 16)"

definition faiss_pq_io :: "faiss_pq_ops \<Rightarrow> bool" where
  "faiss_pq_io F \<longleftrightarrow> (\<forall>c D M. codebook_for c D M \<longrightarrow> D \<le> 2 ^ 20 \<longrightarrow> M \<le> 2 ^ 20 \<longrightarrow> reads (fq_read F) (fq_write F c) c)"

section \<open>The invariant\<close>

text \<open>
  A trained quantizer: the groups partition the dimensions, and the buckets are those that
  \<open>build_buckets\<close> makes of them, with codebooks of matching size.
\<close>

definition same_layout :: "bucket \<Rightarrow> bucket \<Rightarrow> bool" where
  "same_layout a b \<longleftrightarrow> b = a\<lparr>bk_pq := bk_pq b\<rparr>"

definition uneven_ok :: "faiss_pq_ops \<Rightarrow> uneven_pq \<Rightarrow> bool" where
  "uneven_ok F U \<longleftrightarrow> uneven_dims_ok U \<and> up_trained U \<and> length (up_groups U) = up_M U
    \<and> mset (concat (up_groups U)) = mset [0..<up_d U] \<and> (\<forall>g \<in> set (up_groups U). g \<noteq> [])
    \<and> (\<exists>bs. bucket_loop F 4 (up_groups U) 0 = Inr bs \<and> list_all2 same_layout bs (up_buckets U))
    \<and> (\<forall>b \<in> set (up_buckets U). codebook_for (bk_pq b) (bk_dim b) (bk_count b))
    \<and> length (up_budgets U) = up_d U \<and> length (up_loads U) = up_M U
    \<and> (\<forall>g < up_M U. almost_equal (group_load (up_budgets U) (up_groups U ! g)) (up_loads U ! g))"

lemma same_layout_fields:
  "same_layout a b \<Longrightarrow> bk_width b = bk_width a \<and> bk_count b = bk_count a \<and> bk_first b = bk_first a \<and> bk_offset b = bk_offset a
    \<and> bk_dim b = bk_dim a \<and> bk_bytes b = bk_bytes a \<and> bk_dims b = bk_dims a"
  by (cases a; cases b) (simp add: same_layout_def)

lemma chain_same_layout: "list_all2 same_layout as bs \<Longrightarrow> bucket_chain gs first as \<longleftrightarrow> bucket_chain gs first bs"
proof (induction "as" bs arbitrary: first rule: list_all2_induct)
  case (Cons a "as" b bs)
  then show ?case using same_layout_fields [OF Cons(1)] by simp
qed simp

lemma uneven_chain: "uneven_ok F U \<Longrightarrow> bucket_chain (up_groups U) 0 (up_buckets U)"
  using bucket_loop_chain [of F 4 "up_groups U" 0] chain_same_layout by (auto simp: uneven_ok_def)

lemma uneven_validated: "uneven_ok F U \<Longrightarrow> validate_layout U = Inr ()"
  using uneven_chain [of F U] by (intro validate_layout_ok) (auto simp: uneven_ok_def uneven_dims_ok_def)

section \<open>Training\<close>

lemma partition_build:
  assumes "uneven_dims_ok U" and "profile_ok U caps" and "partition_of (up_d U) (group_widths caps) groups"
  shows "\<exists>bs. bucket_loop F 4 groups 0 = Inr bs \<and> bucket_chain groups 0 bs \<and> length groups = up_M U
    \<and> build_buckets F U groups = Inr (U\<lparr>up_groups := groups, up_buckets := bs\<rparr>) \<and> (\<forall>g \<in> set groups. g \<noteq> [])"
proof -
  have widths: "map length groups = group_widths caps" and perm: "mset (concat groups) = mset [0..<up_d U]"
    using assms(3) by (simp_all add: partition_of_def)
  have M: "length groups = up_M U"
    using arg_cong [OF widths, of length] assms(1,2) by (auto simp: profile_ok_def paired_ok_def uneven_dims_ok_def)
  have "paired_widths (map length groups)" using group_widths_paired widths by simp
  then obtain bs where bs: "bucket_loop F 4 groups 0 = Inr bs" using bucket_loop_ok [of groups 0 F 4] by auto
  have chain: "bucket_chain groups 0 bs" by (rule bucket_loop_chain [OF bs]) simp_all
  let ?U = "U\<lparr>up_groups := groups, up_buckets := bs\<rparr>"
  have "validate_layout ?U = Inr ()" using chain perm M assms(1) by (intro validate_layout_ok) (simp_all add: uneven_dims_ok_def)
  then have "build_buckets F U groups = Inr ?U" using bs M assms(1) by (simp add: build_buckets_def uneven_dims_ok_def)
  moreover have "g \<noteq> []" if "g \<in> set groups" for g
  proof -
    have "length g \<in> set (map length groups)" using that by simp
    then have "length g \<in> set caps" unfolding widths group_widths_def by auto
    then show ?thesis using assms(2) by (auto simp: profile_ok_def)
  qed
  ultimately show ?thesis using bs chain M by blast
qed

lemma bucket_loop_books:
  assumes "bucket_loop F nbits gs first = Inr bs" and "b \<in> set bs"
  shows "bk_pq b = fq_new F (bk_width b * bk_count b) (bk_count b) nbits \<and> bk_width b \<in> length ` set gs"
  using assms
proof (induction F nbits gs first arbitrary: bs rule: bucket_loop.induct)
  case (1 F nbits gs first)
  then have lt: "first < length gs" by (auto simp: bucket_loop.simps [of F nbits gs first] split: if_splits)
  then obtain bs' where bs': "bs = make_bucket F nbits gs first (run_end gs first - first) # bs'"
    "bucket_loop F nbits gs (run_end gs first) = Inr bs'"
    using "1.prems"(1) by (auto simp: bucket_loop.simps [of F nbits gs first] Let_def)
  show ?case
  proof (cases "b \<in> set bs'")
    case True
    then show ?thesis using "1.IH" [OF _ refl bs'(2)] lt by simp
  next
    case False
    then show ?thesis using "1.prems"(2) bs'(1) lt by (auto simp: make_bucket_def)
  qed
qed

lemma res_fold_checks: "res_fold (\<lambda>g _. faiss_check (P g) msg) gs () = Inr () \<longleftrightarrow> (\<forall>g \<in> set gs. P g)"
  by (induction gs) (auto simp: faiss_check_def)

lemma budgets_length: "compute_ideal_bit_budgets F U n x = Inr budgets \<Longrightarrow> length budgets = up_d U"
  by (auto simp: compute_ideal_bit_budgets_def Let_def column_variances_def split: prod.splits)

lemma uneven_train_ok:
  assumes "faiss_pq_sizes F" and "uneven_dims_ok U" and "uneven_train F U n x = Inr U'"
  shows "uneven_ok F U' \<and> up_d U' = up_d U \<and> up_M U' = up_M U \<and> up_max_width U' = up_max_width U"
proof -
  obtain budgets paired a U1 where b: "compute_ideal_bit_budgets F U n x = Inr budgets" and p: "plan_paired_capacities U budgets = Inr paired"
    and a: "assign_dimensions U paired budgets = Inr a"
    and U1: "build_buckets F (U\<lparr>up_trained := False, up_budgets := [], up_loads := []\<rparr>) (as_groups a) = Inr U1"
    and U': "U' = U1\<lparr>up_buckets := map (\<lambda>b. b\<lparr>bk_pq := fq_train F (bk_pq b) n (gather_bucket (up_d U) b n (the x))\<rparr>) (up_buckets U1),
        up_budgets := budgets, up_loads := as_loads a, up_trained := True\<rparr>"
    and checks: "\<forall>g < up_M U1. almost_equal (group_load budgets (up_groups U1 ! g)) (as_loads a ! g)"
    using assms(3) by (auto simp: uneven_train_def Let_def res_fold_checks)
  let ?U0 = "U\<lparr>up_trained := False, up_budgets := [], up_loads := []\<rparr>"
  have len: "length budgets = up_d U" by (rule budgets_length [OF b])
  have "(up_d U + up_M U - 1) div up_M U \<le> width_limit U" using p by (simp add: plan_paired_capacities_def faiss_check_def split: if_splits)
  from plan_ok [OF assms(2) this len] p have prof: "profile_ok U paired" by simp
  then have part: "partition_of (up_d U) (group_widths paired) (as_groups a)" and loads: "length (as_loads a) = up_M U"
    using assign_dimensions_ok [of U paired budgets] a len assms(2) by (auto simp: profile_ok_def uneven_dims_ok_def)
  have "width_limit ?U0 = width_limit U" by (simp add: width_limit_def)
  then have dims0: "uneven_dims_ok ?U0" "profile_ok ?U0 paired"
    using assms(2) prof by (simp_all add: uneven_dims_ok_def profile_ok_def paired_ok_def)
  obtain bs where bs: "bucket_loop F 4 (as_groups a) 0 = Inr bs" "bucket_chain (as_groups a) 0 bs" "length (as_groups a) = up_M U"
    "U1 = ?U0\<lparr>up_groups := as_groups a, up_buckets := bs\<rparr>" "\<forall>g \<in> set (as_groups a). g \<noteq> []"
    using partition_build [OF dims0, of "as_groups a" F] part U1 by auto
  have chain: "bucket_chain (as_groups a) 0 bs" by (rule bs(2))
  have cb: "codebook_for (bk_pq c) (bk_dim c) (bk_count c)" if "c \<in> set bs" for c
  proof -
    have "0 < bk_width c" using bucket_loop_books [OF bs(1) that] bs(5) by auto
    then show ?thesis using bucket_loop_books [OF bs(1) that] chain_dim(2,3,5) [OF chain that] assms(1) by (simp add: faiss_pq_sizes_def)
  qed
  let ?train = "\<lambda>b. b\<lparr>bk_pq := fq_train F (bk_pq b) n (gather_bucket (up_d U) b n (the x))\<rparr>"
  have "list_all2 same_layout bs (map ?train bs)" by (simp add: list_all2_conv_all_nth same_layout_def)
  moreover have "codebook_for (bk_pq (?train c)) (bk_dim (?train c)) (bk_count (?train c))" if "c \<in> set bs" for c
    using cb [OF that] assms(1) by (simp add: faiss_pq_sizes_def)
  ultimately show ?thesis
    using bs assms(2) part len loads checks unfolding U'
    by (simp add: uneven_ok_def uneven_dims_ok_def partition_of_def bs(4))
qed

lemma uneven_train_errors:
  assumes "uneven_dims_ok U" and "compute_ideal_bit_budgets F U n x = Inr budgets"
    and "(up_d U + up_M U - 1) div up_M U \<le> width_limit U" and "uneven_train F U n x = Inl e"
  shows "e = Faiss_exception ''final group loads do not preserve the ideal bit budget''
    \<or> e = Faiss_exception ''stored group load does not match its assigned dimensions''"
proof -
  let ?U0 = "U\<lparr>up_trained := False, up_budgets := [], up_loads := []\<rparr>"
  have len: "length budgets = up_d U" by (rule budgets_length [OF assms(2)])
  obtain paired where p: "plan_paired_capacities U budgets = Inr paired" "profile_ok U paired" using plan_ok [OF assms(1,3) len] by blast
  obtain a where a: "assign_dimensions U paired budgets = Inr a" "partition_of (up_d U) (group_widths paired) (as_groups a)" "length (as_loads a) = up_M U"
    using assign_dimensions_ok [of U paired budgets] p(2) len assms(1) by (auto simp: profile_ok_def uneven_dims_ok_def)
  have "width_limit ?U0 = width_limit U" by (simp add: width_limit_def)
  then have dims0: "uneven_dims_ok ?U0" "profile_ok ?U0 paired"
    using assms(1) p(2) by (simp_all add: uneven_dims_ok_def profile_ok_def paired_ok_def)
  obtain bs where bs: "build_buckets F ?U0 (as_groups a) = Inr (?U0\<lparr>up_groups := as_groups a, up_buckets := bs\<rparr>)"
    using partition_build [OF dims0, of "as_groups a" F] a(2) by auto
  have fold: "res_fold (\<lambda>g _. faiss_check (P g) msg) gs () = Inl e' \<Longrightarrow> e' = Faiss_exception msg" for P msg and gs :: "nat list" and e'
    by (induction gs) (auto simp: faiss_check_def split: if_splits)
  from assms(4) show ?thesis
    using assms(2) p(1) a(1,3) bs
    by (auto simp: uneven_train_def Let_def faiss_check_def [of "length _ = _"] faiss_check_def [of "almost_equal _ (f64_sum _)"] res_bind_def
        dest: fold split: if_splits sum.splits)
qed

section \<open>Disjoint updates\<close>

lemma fold_updates:
  assumes "distinct (map key ys)" and "\<forall>y \<in> set ys. key y < length out"
  shows "length (fold (\<lambda>y out. out[key y := val y]) ys out) = length out
    \<and> (\<forall>y \<in> set ys. fold (\<lambda>y out. out[key y := val y]) ys out ! key y = val y)
    \<and> (\<forall>p. p \<notin> key ` set ys \<longrightarrow> fold (\<lambda>y out. out[key y := val y]) ys out ! p = out ! p)"
  using assms
proof (induction ys arbitrary: out)
  case (Cons y ys)
  have "length (fold (\<lambda>y out. out[key y := val y]) ys (out[key y := val y])) = length (out[key y := val y])
    \<and> (\<forall>z \<in> set ys. fold (\<lambda>y out. out[key y := val y]) ys (out[key y := val y]) ! key z = val z)
    \<and> (\<forall>p. p \<notin> key ` set ys \<longrightarrow> fold (\<lambda>y out. out[key y := val y]) ys (out[key y := val y]) ! p = out[key y := val y] ! p)"
    using Cons.prems by (intro Cons.IH) simp_all
  then show ?case using Cons.prems by (auto simp: nth_list_update)
qed simp

definition apart :: "nat \<times> nat \<Rightarrow> nat \<times> nat \<Rightarrow> bool" where
  "apart r s \<longleftrightarrow> fst r + snd r \<le> fst s \<or> fst s + snd s \<le> fst r"

lemma fold_patches:
  assumes "sorted_wrt (\<lambda>p q. apart (off p, length (dat p)) (off q, length (dat q))) ps"
    and "\<forall>p \<in> set ps. off p + length (dat p) \<le> length out"
  shows "length (fold (\<lambda>p out. patch out (off p) (dat p)) ps out) = length out
    \<and> (\<forall>p \<in> set ps. segment (fold (\<lambda>p out. patch out (off p) (dat p)) ps out) (off p) (length (dat p)) = dat p)
    \<and> (\<forall>o' n. o' + n \<le> length out \<longrightarrow> (\<forall>p \<in> set ps. apart (off p, length (dat p)) (o', n))
        \<longrightarrow> segment (fold (\<lambda>p out. patch out (off p) (dat p)) ps out) o' n = segment out o' n)"
  using assms
proof (induction ps arbitrary: out)
  case (Cons p ps)
  let ?out = "patch out (off p) (dat p)"
  have fits: "off p + length (dat p) \<le> length out" using Cons.prems(2) by simp
  have IH: "length (fold (\<lambda>p out. patch out (off p) (dat p)) ps ?out) = length ?out
    \<and> (\<forall>q \<in> set ps. segment (fold (\<lambda>p out. patch out (off p) (dat p)) ps ?out) (off q) (length (dat q)) = dat q)
    \<and> (\<forall>o' n. o' + n \<le> length ?out \<longrightarrow> (\<forall>q \<in> set ps. apart (off q, length (dat q)) (o', n))
        \<longrightarrow> segment (fold (\<lambda>p out. patch out (off p) (dat p)) ps ?out) o' n = segment ?out o' n)"
    using Cons.prems fits by (intro Cons.IH) simp_all
  have len: "length ?out = length out" using fits by simp
  have "segment (fold (\<lambda>p out. patch out (off p) (dat p)) ps ?out) (off p) (length (dat p)) = segment ?out (off p) (length (dat p))"
  proof -
    have "\<forall>q \<in> set ps. apart (off q, length (dat q)) (off p, length (dat p))" using Cons.prems(1) by (auto simp: apart_def)
    then show ?thesis using IH [THEN conjunct2, THEN conjunct2, rule_format, of "off p" "length (dat p)"] fits len by simp
  qed
  also have "\<dots> = dat p" using fits by (simp add: segment_patch_same)
  finally have own: "segment (fold (\<lambda>p out. patch out (off p) (dat p)) ps ?out) (off p) (length (dat p)) = dat p" .
  have "segment ?out o' n = segment out o' n" if "o' + n \<le> length out" "apart (off p, length (dat p)) (o', n)" for o' n
    using fits that by (intro segment_patch_other) (auto simp: apart_def)
  then show ?case using IH own len by simp
qed simp

lemma fold_nested: "fold (\<lambda>b. fold (f b) (g b)) bs x = fold (\<lambda>(b, i). f b i) (concat (map (\<lambda>b. map (Pair b) (g b)) bs)) x"
proof (induction bs arbitrary: x)
  case (Cons b bs)
  have "fold (\<lambda>(b, i). f b i) (map (Pair b) ys) x = fold (f b) ys x" for ys by (induction ys arbitrary: x) simp_all
  then show ?case using Cons by simp
qed simp

lemma concat_rows: "concat (map (\<lambda>i. segment ys (i * w) w) [0..<k]) = take (k * w) ys"
proof (induction k)
  case (Suc k)
  have "take (Suc k * w) ys = take (k * w) ys @ segment ys (k * w) w"
    using take_add [of "k * w" w ys] by (simp add: segment_def add.commute)
  then show ?case using Suc by simp
qed simp

text \<open>Row \<open>i\<close> of bucket \<open>b\<close>, for all buckets and all rows, in the order of the loops.\<close>

definition bucket_rows :: "bucket list \<Rightarrow> nat \<Rightarrow> (bucket \<times> nat) list" where
  "bucket_rows bs n = concat (map (\<lambda>b. map (Pair b) [0..<n]) bs)"

lemma set_bucket_rows [simp]: "(b, i) \<in> set (bucket_rows bs n) \<longleftrightarrow> b \<in> set bs \<and> i < n"
  by (force simp: bucket_rows_def)

lemma bucket_rows_sorted:
  assumes "sorted_wrt (\<lambda>b c. lo b + w b \<le> lo c) bs" and "\<forall>b \<in> set bs. lo b + w b \<le> size_of"
  shows "sorted_wrt (\<lambda>p q. apart (snd p * size_of + lo (fst p), w (fst p)) (snd q * size_of + lo (fst q), w (fst q))) (bucket_rows bs n)"
  using assms
proof (induction bs)
  case (Cons b bs)
  have row: "i * size_of + (lo b + w b) \<le> j * size_of" if "i < j" "b \<in> set (c # cs)" "\<forall>b \<in> set (c # cs). lo b + w b \<le> size_of"
    for i j b c cs
  proof -
    have "Suc i * size_of \<le> j * size_of" using that(1) by (intro mult_le_mono1) simp
    moreover have "lo b + w b \<le> size_of" using that(2,3) by blast
    ultimately show ?thesis by simp
  qed
  have own: "sorted_wrt (\<lambda>p q. apart (snd p * size_of + lo (fst p), w (fst p)) (snd q * size_of + lo (fst q), w (fst q))) (map (Pair b) [0..<n])"
  proof -
    have "apart (i * size_of + lo b, w b) (j * size_of + lo b, w b)" if "i < j" for i j
      using row [OF that, of b b bs] Cons.prems(2) by (simp add: apart_def)
    then show ?thesis by (simp add: sorted_wrt_map sorted_wrt_iff_nth_less)
  qed
  have "apart (i * size_of + lo b, w b) (j * size_of + lo c, w c)" if "c \<in> set bs" for i j c
  proof -
    consider "i < j" | "j < i" | "i = j" by linarith
    then show ?thesis
    proof cases
      case 1
      then show ?thesis using row [OF 1, of b b bs] Cons.prems(2) by (simp add: apart_def)
    next
      case 2
      then show ?thesis using row [OF 2, of c b bs] Cons.prems(2) that by (simp add: apart_def)
    next
      case 3
      then show ?thesis using Cons.prems(1) that by (simp add: apart_def)
    qed
  qed
  then show ?case using Cons own by (auto simp: bucket_rows_def sorted_wrt_append)
qed (simp add: bucket_rows_def)

section \<open>Encoding\<close>

text \<open>The Faiss code of bucket \<open>b\<close> for \<open>n\<close> vectors.\<close>

abbreviation bucket_codes :: "faiss_pq_ops \<Rightarrow> uneven_pq \<Rightarrow> bucket \<Rightarrow> nat \<Rightarrow> f32 list \<Rightarrow> bytes" where
  "bucket_codes F U b n x \<equiv> fq_encode F (bk_pq b) (gather_bucket (up_d U) b n x) n"

lemma length_gather_bucket [simp]: "length (gather_bucket d b n x) = n * bk_dim b"
  by (simp add: gather_bucket_def length_concat comp_def sum_list_triv)

lemma bucket_codes_length:
  assumes "faiss_pq_sizes F" and ok: "uneven_ok F U" and b: "b \<in> set (up_buckets U)"
  shows "length (bucket_codes F U b n x) = n * bk_bytes b"
proof -
  have "codebook_for (bk_pq b) (bk_dim b) (bk_count b)" using ok b by (simp add: uneven_ok_def)
  then show ?thesis using assms(1) chain_dim(4) [OF uneven_chain [OF ok] b] length_gather_bucket by (simp add: faiss_pq_sizes_def)
qed

lemma bucket_bytes:
  assumes ok: "uneven_ok F U"
  shows "sorted_wrt (\<lambda>b c. bk_offset b + bk_bytes b \<le> bk_offset c) (up_buckets U)"
    and "b \<in> set (up_buckets U) \<Longrightarrow> bk_offset b + bk_bytes b \<le> up_code_size U"
proof -
  note chain = uneven_chain [OF ok]
  have b: "bk_first b = 2 * bk_offset b" "bk_count b = 2 * bk_bytes b" if "b \<in> set (up_buckets U)" for b
    using chain_dim(3,4,8) [OF chain that] by auto
  show "sorted_wrt (\<lambda>b c. bk_offset b + bk_bytes b \<le> bk_offset c) (up_buckets U)"
    by (rule sorted_wrt_mono_rel [OF _ chain_sorted [OF chain]]) (simp add: b)
  show "b \<in> set (up_buckets U) \<Longrightarrow> bk_offset b + bk_bytes b \<le> up_code_size U"
  proof -
    assume "b \<in> set (up_buckets U)"
    then have "2 * (bk_offset b + bk_bytes b) \<le> up_M U" using chain_dim(7) [OF chain] b ok by (simp add: uneven_ok_def)
    then show ?thesis using ok by (simp add: uneven_ok_def uneven_dims_ok_def)
  qed
qed

lemma row_end: "i < n \<Longrightarrow> o' + m \<le> w \<Longrightarrow> i * w + (o' + m) \<le> n * w" for i n w o' m :: nat
proof -
  assume "i < n" "o' + m \<le> w"
  then have "i * w + (o' + m) \<le> Suc i * w" by simp
  also have "\<dots> \<le> n * w" using \<open>i < n\<close> by (intro mult_le_mono1) simp
  finally show ?thesis .
qed

lemma uneven_encode_ok:
  assumes sizes: "faiss_pq_sizes F" and ok: "uneven_ok F U"
  shows "\<exists>codes. uneven_encode F U (Some x) n = Inr codes \<and> length codes = n * up_code_size U
    \<and> (\<forall>b \<in> set (up_buckets U). take_codes (up_code_size U) b n codes = bucket_codes F U b n x)"
proof (cases "n = 0")
  case True
  have "bucket_codes F U b 0 x = []" if "b \<in> set (up_buckets U)" for b using bucket_codes_length [OF sizes ok that, of 0 x] by simp
  then show ?thesis using True ok by (simp add: uneven_encode_def faiss_check_def uneven_ok_def take_codes_def)
next
  case False
  let ?cs = "up_code_size U" and ?bs = "up_buckets U"
  define dat where "dat p = segment (bucket_codes F U (fst p) n x) (snd p * bk_bytes (fst p)) (bk_bytes (fst p))" for p :: "bucket \<times> nat"
  define off where "off p = snd p * ?cs + bk_offset (fst p)" for p :: "bucket \<times> nat"
  let ?init = "replicate (n * ?cs) (0 :: u8)"
  define codes where "codes = fold (\<lambda>p out. patch out (off p) (dat p)) (bucket_rows ?bs n) ?init"
  have len: "length (dat p) = bk_bytes (fst p)" if "p \<in> set (bucket_rows ?bs n)" for p
  proof -
    have p: "fst p \<in> set ?bs" "snd p < n" using that set_bucket_rows [of "fst p" "snd p"] by simp_all
    have "snd p * bk_bytes (fst p) + (0 + bk_bytes (fst p)) \<le> n * bk_bytes (fst p)" by (rule row_end [OF p(2)]) simp
    then show ?thesis using bucket_codes_length [OF sizes ok p(1), of n x] by (simp add: dat_def length_segment)
  qed
  have sorted: "sorted_wrt (\<lambda>p q. apart (off p, length (dat p)) (off q, length (dat q))) (bucket_rows ?bs n)"
  proof (rule sorted_wrt_mono_rel)
    show "sorted_wrt (\<lambda>p q. apart (snd p * ?cs + bk_offset (fst p), bk_bytes (fst p)) (snd q * ?cs + bk_offset (fst q), bk_bytes (fst q))) (bucket_rows ?bs n)"
      using bucket_bytes [OF ok] by (intro bucket_rows_sorted) simp_all
  qed (simp add: off_def len)
  have fits: "off p + length (dat p) \<le> length ?init" if "p \<in> set (bucket_rows ?bs n)" for p
  proof -
    have p: "fst p \<in> set ?bs" "snd p < n" using that set_bucket_rows [of "fst p" "snd p"] by simp_all
    show ?thesis using row_end [OF p(2) bucket_bytes(2) [OF ok p(1)]] len [OF that] by (simp add: off_def)
  qed
  have res: "length codes = n * ?cs" "\<And>p. p \<in> set (bucket_rows ?bs n) \<Longrightarrow> segment codes (off p) (length (dat p)) = dat p"
    using fold_patches [OF sorted, of ?init] fits by (simp_all add: codes_def)
  have "fold (\<lambda>b codes. splice_bucket ?cs b n (bucket_codes F U b n x) codes) ?bs ?init = codes"
    unfolding splice_bucket_def fold_nested codes_def bucket_rows_def off_def dat_def by (simp add: case_prod_unfold)
  then have "uneven_encode F U (Some x) n = Inr codes" using False ok by (simp add: uneven_encode_def faiss_check_def uneven_ok_def)
  moreover have "take_codes ?cs b n codes = bucket_codes F U b n x" if b: "b \<in> set ?bs" for b
  proof -
    have "segment codes (i * ?cs + bk_offset b) (bk_bytes b) = segment (bucket_codes F U b n x) (i * bk_bytes b) (bk_bytes b)" if "i < n" for i
      using res(2) [of "(b, i)"] len [of "(b, i)"] b that by (simp add: off_def dat_def)
    then have "take_codes ?cs b n codes = concat (map (\<lambda>i. segment (bucket_codes F U b n x) (i * bk_bytes b) (bk_bytes b)) [0..<n])"
      unfolding take_codes_def by (intro arg_cong [where f = concat] map_cong) simp_all
    also have "\<dots> = take (n * bk_bytes b) (bucket_codes F U b n x)"
      by (rule concat_rows)
    finally show ?thesis using bucket_codes_length [OF sizes ok b, of n x] by simp
  qed
  ultimately show ?thesis using res(1) by blast
qed

section \<open>Decoding\<close>

text \<open>The cells of a reconstruction: bucket by its position, row and column.\<close>

definition bucket_cells :: "bucket list \<Rightarrow> nat \<Rightarrow> (bucket \<times> nat \<times> nat) list" where
  "bucket_cells bs n = concat (map (\<lambda>b. concat (map (\<lambda>i. map (\<lambda>j. (b, i, j)) [0..<bk_dim b]) [0..<n])) bs)"

lemma set_bucket_cells [simp]: "(b, i, j) \<in> set (bucket_cells bs n) \<longleftrightarrow> b \<in> set bs \<and> i < n \<and> j < bk_dim b"
  by (force simp: bucket_cells_def)

lemma row_key: "i * d + x = j * d + y \<Longrightarrow> x < d \<Longrightarrow> y < d \<Longrightarrow> i = j \<and> x = y" for i j d x y :: nat
proof -
  assume eq: "i * d + x = j * d + y" and x: "x < d" and y: "y < d"
  have "(i * d + x) div d = i" "(j * d + y) div d = j" using x y by simp_all
  then have "i = j" using eq by metis
  then show ?thesis using eq by simp
qed

lemma cell_keys_distinct:
  assumes "distinct (concat (map bk_dims bs))" and "\<forall>x \<in> set (concat (map bk_dims bs)). x < d"
    and "\<forall>b \<in> set bs. length (bk_dims b) = bk_dim b"
  shows "distinct (map (\<lambda>(b, i, j). i * d + bk_dims b ! j) (bucket_cells bs n))"
  using assms
proof (induction bs)
  case (Cons b bs)
  let ?key = "\<lambda>(b, i, j). i * d + bk_dims b ! j"
  let ?own = "concat (map (\<lambda>i. map (\<lambda>j. (b, i, j)) [0..<bk_dim b]) [0..<n])"
  have lt: "bk_dims c ! j < d" if "c \<in> set (b # bs)" "j < bk_dim c" for c j
  proof -
    have "j < length (bk_dims c)" using that Cons.prems(3) by auto
    then have "bk_dims c ! j \<in> set (bk_dims c)" by simp
    then show ?thesis using that(1) Cons.prems(2) by auto
  qed
  have "map ?key ?own = concat (map (\<lambda>i. map (\<lambda>j. i * d + bk_dims b ! j) [0..<bk_dim b]) [0..<n])"
    by (simp add: map_concat comp_def)
  moreover have "distinct (concat (map (\<lambda>i. map (\<lambda>j. i * d + bk_dims b ! j) [0..<bk_dim b]) [0..<k]))" for k
  proof (induction k)
    case (Suc k)
    have "distinct (map (\<lambda>j. k * d + bk_dims b ! j) [0..<bk_dim b])"
      using Cons.prems(1,3) by (auto simp: distinct_map inj_on_def nth_eq_iff_index_eq)
    moreover have "k * d + bk_dims b ! j \<noteq> i * d + bk_dims b ! j'" if "i < k" "j < bk_dim b" "j' < bk_dim b" for i j j'
      using row_key [of k d "bk_dims b ! j" i "bk_dims b ! j'"] lt [of b] that by auto
    ultimately show ?case using Suc by force
  qed simp
  ultimately have own: "distinct (map ?key ?own)" by simp
  have "distinct (map ?key (bucket_cells bs n))" using Cons by simp
  moreover have "?key p \<noteq> ?key q" if "p \<in> set ?own" "q \<in> set (bucket_cells bs n)" for p q
  proof
    assume eq: "?key p = ?key q"
    have "\<exists>i j. p = (b, i, j) \<and> j < bk_dim b" using that(1) by auto
    then obtain i j where p: "p = (b, i, j)" "j < bk_dim b" by blast
    obtain c i' j' where q: "q = (c, i', j')" by (metis prod_cases3)
    have "c \<in> set bs" "j' < bk_dim c" using that(2) unfolding q by simp_all
    note pq = p q this
    have "bk_dims b ! j = bk_dims c ! j'" using row_key [of i d "bk_dims b ! j" i' "bk_dims c ! j'"] lt [of b j] lt [of c j'] eq pq by auto
    moreover have "bk_dims b ! j \<in> set (bk_dims b)" "bk_dims c ! j' \<in> set (bk_dims c)" using pq Cons.prems(3) by simp_all
    ultimately show False using Cons.prems(1) pq(4) by auto
  qed
  ultimately show ?case using own by (fastforce simp: bucket_cells_def)
qed (simp add: bucket_cells_def)

lemma fold_table_cells:
  "fold (\<lambda>b. fold (\<lambda>i. fold (f b i) [0..<bk_dim b]) [0..<n]) bs x = fold (\<lambda>(b, i, j). f b i j) (bucket_cells bs n) x"
proof (induction bs arbitrary: x)
  case (Cons b bs)
  have "fold (\<lambda>(b, i, j). f b i j) (map (\<lambda>j. (b, i, j)) js) x = fold (f b i) js x" for i js x by (induction js arbitrary: x) simp_all
  then have "fold (\<lambda>(b, i, j). f b i j) (concat (map (\<lambda>i. map (\<lambda>j. (b, i, j)) [0..<bk_dim b]) is)) x = fold (\<lambda>i. fold (f b i) [0..<bk_dim b]) is x" for "is" x
    by (induction "is" arbitrary: x) simp_all
  then show ?case using Cons by (simp add: bucket_cells_def)
qed (simp add: bucket_cells_def)

lemma uneven_dims:
  assumes ok: "uneven_ok F U"
  shows "distinct (concat (map bk_dims (up_buckets U)))" and "set (concat (map bk_dims (up_buckets U))) = {0..<up_d U}"
proof -
  have "concat (map bk_dims (up_buckets U)) = concat (up_groups U)" using chain_dims [OF uneven_chain [OF ok]] by simp
  moreover have "distinct (concat (up_groups U))" using ok by (metis distinct_upt mset_eq_imp_distinct_iff uneven_ok_def)
  moreover have "set (concat (up_groups U)) = {0..<up_d U}"
    using mset_eq_setD [of "concat (up_groups U)" "[0..<up_d U]"] ok by (simp add: uneven_ok_def)
  ultimately show "distinct (concat (map bk_dims (up_buckets U)))" "set (concat (map bk_dims (up_buckets U))) = {0..<up_d U}" by simp_all
qed

lemma uneven_decode_ok:
  assumes sizes: "faiss_pq_sizes F" and ok: "uneven_ok F U" and len: "length codes = n * up_code_size U"
  shows "\<exists>x. uneven_decode F U (Some codes) n = Inr x \<and> length x = n * up_d U
    \<and> (\<forall>b \<in> set (up_buckets U). gather_bucket (up_d U) b n x = fq_decode F (bk_pq b) (take_codes (up_code_size U) b n codes) n)"
proof -
  let ?bs = "up_buckets U" and ?d = "up_d U"
  define rows where "rows b = fq_decode F (bk_pq b) (take_codes (up_code_size U) b n codes) n" for b
  define key where "key p = (case p of (b, i, j) \<Rightarrow> i * ?d + bk_dims b ! j)" for p :: "bucket \<times> nat \<times> nat"
  define val where "val p = (case p of (b, i, j) \<Rightarrow> rows b ! (i * bk_dim b + j))" for p :: "bucket \<times> nat \<times> nat"
  let ?init = "replicate (n * ?d) (0 :: f32)"
  define x where "x = fold (\<lambda>p out. out[key p := val p]) (bucket_cells ?bs n) ?init"
  have dims: "\<forall>b \<in> set ?bs. length (bk_dims b) = bk_dim b" using chain_dim(1) [OF uneven_chain [OF ok]] by blast
  have lt: "bk_dims b ! j < ?d" if "b \<in> set ?bs" "j < bk_dim b" for b j
  proof -
    have "bk_dims b ! j \<in> set (bk_dims b)" using that dims by simp
    then have "bk_dims b ! j \<in> set (concat (map bk_dims ?bs))" using that(1) by auto
    then show ?thesis unfolding uneven_dims(2) [OF ok] by simp
  qed
  have "distinct (map key (bucket_cells ?bs n))"
    unfolding key_def using uneven_dims [OF ok] dims by (intro cell_keys_distinct) simp_all
  moreover have "\<forall>p \<in> set (bucket_cells ?bs n). key p < length ?init"
  proof
    fix p assume "p \<in> set (bucket_cells ?bs n)"
    moreover obtain b i j where "p = (b, i, j)" by (metis prod_cases3)
    ultimately have p: "p = (b, i, j)" "b \<in> set ?bs" "i < n" "j < bk_dim b" by simp_all
    have "i * ?d + (bk_dims b ! j + 1) \<le> n * ?d" using lt [OF p(2,4)] by (intro row_end [OF p(3)]) simp
    then show "key p < length ?init" by (simp add: key_def p(1))
  qed
  ultimately have res: "length x = n * ?d" "\<And>p. p \<in> set (bucket_cells ?bs n) \<Longrightarrow> x ! key p = val p"
    using fold_updates [of key "bucket_cells ?bs n" ?init val] by (simp_all add: x_def)
  have fold: "fold (\<lambda>b x. fold (scatter_row ?d b (rows b)) [0..<n] x) ?bs ?init = x"
    unfolding scatter_row_def fold_table_cells x_def key_def val_def by (simp add: case_prod_unfold)
  have dec: "uneven_decode F U (Some codes) n = Inr x"
    using fold res(1) ok by (cases "n = 0") (simp_all add: uneven_decode_def faiss_check_def uneven_ok_def rows_def)
  have "gather_bucket ?d b n x = rows b" if b: "b \<in> set ?bs" for b
  proof -
    have cb: "codebook_for (bk_pq b) (bk_dim b) (bk_count b)" using ok b by (simp add: uneven_ok_def)
    have "length (take_codes (up_code_size U) b n codes) = n * bk_bytes b"
    proof -
      have "length (segment codes (i * up_code_size U + bk_offset b) (bk_bytes b)) = bk_bytes b" if "i < n" for i
        using row_end [OF that bucket_bytes(2) [OF ok b]] len by simp
      then have "map (\<lambda>i. length (segment codes (i * up_code_size U + bk_offset b) (bk_bytes b))) [0..<n] = map (\<lambda>_. bk_bytes b) [0..<n]"
        by simp
      then show ?thesis by (simp add: take_codes_def length_concat comp_def sum_list_triv del: map_eq_conv)
    qed
    then have lr: "length (rows b) = n * bk_dim b"
      using sizes cb chain_dim(4) [OF uneven_chain [OF ok] b] by (simp add: faiss_pq_sizes_def rows_def)
    have "gather_bucket ?d b n x = concat (map (\<lambda>i. map (\<lambda>j. rows b ! (i * bk_dim b + j)) [0..<bk_dim b]) [0..<n])"
      unfolding gather_bucket_def
    proof (intro arg_cong [where f = concat] map_cong refl)
      fix i j assume "i \<in> set [0..<n]" "j \<in> set [0..<bk_dim b]"
      then show "x ! (i * ?d + bk_dims b ! j) = rows b ! (i * bk_dim b + j)" using res(2) [of "(b, i, j)"] b by (simp add: key_def val_def)
    qed
    also have "\<dots> = take (n * bk_dim b) (rows b)"
    proof -
      have "map (\<lambda>j. rows b ! (i * bk_dim b + j)) [0..<bk_dim b] = segment (rows b) (i * bk_dim b) (bk_dim b)" if "i < n" for i
        using row_end [OF that, of 0 "bk_dim b" "bk_dim b"] lr by (intro nth_equalityI) (simp_all add: nth_segment)
      then have "concat (map (\<lambda>i. map (\<lambda>j. rows b ! (i * bk_dim b + j)) [0..<bk_dim b]) [0..<n])
          = concat (map (\<lambda>i. segment (rows b) (i * bk_dim b) (bk_dim b)) [0..<n])"
        by (intro arg_cong [where f = concat] map_cong) simp_all
      then show ?thesis by (simp only: concat_rows)
    qed
    finally show ?thesis using lr by simp
  qed
  then show ?thesis using dec res(1) by (auto simp: rows_def)
qed

section \<open>Lookup tables\<close>

lemma uneven_table_ok:
  assumes ok: "uneven_ok F U" and len: "length table = up_M U * 16"
    and size: "\<And>b. b \<in> set (up_buckets U) \<Longrightarrow> length (kind (bk_pq b) (gather_bucket (up_d U) b 1 x)) = bk_count b * 16"
  shows "\<exists>t. uneven_table kind U x table = Inr t \<and> length t = up_M U * 16
    \<and> (\<forall>b \<in> set (up_buckets U). segment t (bk_first b * 16) (bk_count b * 16) = kind (bk_pq b) (gather_bucket (up_d U) b 1 x))"
proof -
  let ?bs = "up_buckets U"
  define dat where "dat b = kind (bk_pq b) (gather_bucket (up_d U) b 1 x)" for b
  define off where "off b = bk_first b * 16" for b :: bucket
  note chain = uneven_chain [OF ok]
  have "sorted_wrt (\<lambda>p q. apart (off p, length (dat p)) (off q, length (dat q))) ?bs"
    by (rule sorted_wrt_mono_rel [OF _ chain_sorted [OF chain]]) (simp add: size [unfolded One_nat_def] dat_def off_def apart_def)
  moreover have "\<forall>b \<in> set ?bs. off b + length (dat b) \<le> length table"
  proof
    fix b assume b: "b \<in> set ?bs"
    have "bk_first b + bk_count b \<le> up_M U" using chain_dim(7) [OF chain b] ok by (simp add: uneven_ok_def)
    then show "off b + length (dat b) \<le> length table" using len by (simp add: size [OF b] dat_def off_def del: One_nat_def)
  qed
  ultimately have "length (fold (\<lambda>b t. patch t (off b) (dat b)) ?bs table) = length table
    \<and> (\<forall>b \<in> set ?bs. segment (fold (\<lambda>b t. patch t (off b) (dat b)) ?bs table) (off b) (length (dat b)) = dat b)"
    using fold_patches [of off dat ?bs table] by blast
  moreover have "uneven_table kind U x table = Inr (fold (\<lambda>b t. patch t (off b) (dat b)) ?bs table)"
    using ok by (simp add: uneven_table_def faiss_check_def uneven_ok_def uneven_dims_ok_def off_def dat_def)
  ultimately show ?thesis using len by (simp add: off_def dat_def size [unfolded One_nat_def])
qed

end
