(* ===== verification/Uneven_Guarantees.thy ===== *)
theory Uneven_Guarantees
  imports Uneven_Correct
begin

text \<open>
  The properties of the uneven product quantizer: training, coding, lookup tables and persistence.
\<close>

section \<open>Writing and reading back\<close>

lemma reads_if: "\<not> P \<Longrightarrow> reads q bs x \<Longrightarrow> reads (if P then p else q) bs x"
  by simp

lemma writes_size: "writes (write_size n) (le64 (of_nat n))"
  by (rule u64_scalar.writes_scalar)

lemma reads_size: "n \<le> maximum \<Longrightarrow> n \<le> size_max \<Longrightarrow> reads (read_size maximum name) (le64 (of_nat n)) n"
proof -
  assume "n \<le> maximum" "n \<le> size_max"
  then have "reads (read_size maximum name) (le64 (of_nat n) @ []) n"
    by (intro reads_bind [OF u64_scalar.reads_scalar] reads_lift checked_size_ok)
  then show ?thesis by simp
qed

definition flag_bytes :: "bool \<Rightarrow> bytes" where
  "flag_bytes b = [if b then 1 else 0]"

lemma writes_flag: "writes (write_flag b) (flag_bytes b)"
  unfolding flag_bytes_def by (rule u8_scalar.writes_scalar)

lemma reads_flag: "reads read_flag (flag_bytes b) b"
proof -
  let ?v = "(if b then 1 else 0) :: u8"
  have "reads read_flag ([?v] @ []) (?v \<noteq> 0)" by (intro reads_bind [OF u8_scalar.reads_scalar] reads_return)
  then show ?thesis by (cases b) (simp_all add: flag_bytes_def)
qed

definition group_bytes :: "nat list \<Rightarrow> bytes" where
  "group_bytes g = le64 (of_nat (length g)) @ concat (map le64 (map of_nat g))"

definition bucket_bytes_of :: "faiss_pq_ops \<Rightarrow> bucket \<Rightarrow> bytes" where
  "bucket_bytes_of F b = le64 (of_nat (bk_width b)) @ le64 (of_nat (bk_count b)) @ le64 (of_nat (bk_first b))
    @ le64 (of_nat (bk_offset b)) @ fq_write F (bk_pq b)"

definition uneven_bytes :: "faiss_pq_ops \<Rightarrow> uneven_pq \<Rightarrow> bytes" where
  "uneven_bytes F U = le32 1 @ le64 (of_nat (up_d U)) @ le64 (of_nat (up_M U)) @ le64 (of_nat (up_nbits U)) @ le64 (of_nat (up_max_width U))
    @ flag_bytes (up_report U) @ flag_bytes (up_verbose U) @ le64 (of_nat (length (up_groups U))) @ concat (map group_bytes (up_groups U))
    @ (le64 (of_nat (length (up_budgets U))) @ concat (map le64 (up_budgets U)))
    @ (le64 (of_nat (length (up_loads U))) @ concat (map le64 (up_loads U)))
    @ le64 (of_nat (length (up_buckets U))) @ concat (map (bucket_bytes_of F) (up_buckets U))"

text \<open>What the persistent format can hold.\<close>

definition persistable :: "uneven_pq \<Rightarrow> bool" where
  "persistable U \<longleftrightarrow> up_d U \<le> 2 ^ 20 \<and> up_max_width U \<le> up_d U"

lemma writes_bucket: "writes (write_bucket F b) (bucket_bytes_of F b)"
  unfolding write_bucket_def bucket_bytes_of_def by (intro writes_seq writes_size writes_bytes)

lemma group_length: "uneven_ok F U \<Longrightarrow> g \<in> set (up_groups U) \<Longrightarrow> length g \<le> up_d U"
proof -
  assume ok: "uneven_ok F U" and "g \<in> set (up_groups U)"
  then have "length g \<le> sum_list (map length (up_groups U))" by (simp add: member_le_sum_list)
  also have "\<dots> = up_d U" using ok mset_eq_length [of "concat (up_groups U)" "[0..<up_d U]"] by (simp add: uneven_ok_def length_concat)
  finally show ?thesis .
qed

lemma small_vector: "n \<le> 2 ^ 20 \<Longrightarrow> n \<le> size_max div 8 \<and> n \<le> size_max" for n :: nat
  by (simp add: size_max_def)

lemma uneven_write_ok:
  assumes ok: "uneven_ok F U" and fits: "persistable U"
  shows "writes (uneven_write F U) (uneven_bytes F U)"
proof -
  have M: "up_M U \<le> up_d U" using ok by (simp add: uneven_ok_def uneven_dims_ok_def)
  have small: "n \<le> size_max div 8" if "n \<le> up_d U" for n using small_vector [of n] that fits by (simp add: persistable_def)
  have groups: "writes (write_vector le64 8 (map of_nat g)) (group_bytes g)" if "g \<in> set (up_groups U)" for g
    using u64_scalar.writes_vector [of "map of_nat g"] small group_length [OF ok that] by (simp add: group_bytes_def)
  have tables: "writes (write_vector le64 8 (up_budgets U)) (le64 (of_nat (length (up_budgets U))) @ concat (map le64 (up_budgets U)))"
    "writes (write_vector le64 8 (up_loads U)) (le64 (of_nat (length (up_loads U))) @ concat (map le64 (up_loads U)))"
    using u64_scalar.writes_vector [of "up_budgets U"] u64_scalar.writes_vector [of "up_loads U"] small M ok by (simp_all add: uneven_ok_def)
  have "uneven_write F U = write_seq (write_scalar le32 1) (write_seq (write_size (up_d U)) (write_seq (write_size (up_M U))
       (write_seq (write_size (up_nbits U)) (write_seq (write_size (up_max_width U)) (write_seq (write_flag (up_report U))
       (write_seq (write_flag (up_verbose U)) (write_seq (write_size (length (up_groups U)))
       (write_seq (res_fold (\<lambda>g. write_vector le64 8 (map of_nat g)) (up_groups U))
       (write_seq (write_vector le64 8 (up_budgets U)) (write_seq (write_vector le64 8 (up_loads U))
       (write_seq (write_size (length (up_buckets U))) (res_fold (write_bucket F) (up_buckets U)))))))))))))"
    using ok uneven_validated [OF ok] by (simp add: fun_eq_iff uneven_write_def uneven_ok_def)
  then show ?thesis unfolding uneven_bytes_def
    by (simp only:) (intro writes_seq u32_scalar.writes_scalar writes_size writes_flag writes_fold groups tables writes_bucket)
qed

lemma reads_group:
  assumes "length g \<le> d" and "d \<le> 2 ^ 20" and "\<forall>x \<in> set g. x < d" and "g \<noteq> []" and "snd s + length g \<le> d"
  shows "reads (read_group d s) (group_bytes g) (fst s @ [g], snd s + length g)"
proof -
  have vec: "reads (read_vector of_le64 8 d ''group dimension list'') (group_bytes g) (map of_nat g)"
    using u64_scalar.reads_vector [of "map of_nat g" d] assms(1,2) small_vector [of "length g"] by (simp add: group_bytes_def)
  have chk: "checked_size (of_nat x) (d - 1) ''group dimension index'' = Inr x" if "x \<in> set g" for x
  proof (rule checked_size_ok)
    show "x \<le> d - 1" "x \<le> size_max" using that assms(2,3) by (auto simp: size_max_def)
  qed
  have fold: "res_fold (\<lambda>v g. res_bind (checked_size v (d - 1) ''group dimension index'') (\<lambda>j. Inr (g @ [j]))) (map of_nat h) acc = Inr (acc @ h)"
    if "set h \<subseteq> set g" for h acc
    using that by (induction h arbitrary: acc) (simp_all add: chk [unfolded One_nat_def])
  have "reads (read_group d s) (group_bytes g @ []) (fst s @ [g], snd s + length g)"
    unfolding read_group_def
  proof (rule reads_bind [OF vec], rule reads_lift_bind)
    show "res_fold (\<lambda>v g. res_bind (checked_size v (d - 1) ''group dimension index'') (\<lambda>j. Inr (g @ [j]))) (map of_nat g) [] = Inr g"
      using fold [of g "[]"] by simp
    show "reads (if g = [] \<or> d - length g < snd s then read_lift (Inl (Runtime_error ''invalid persisted uneven group dimensions''))
        else read_return (fst s @ [g], snd s + length g)) [] (fst s @ [g], snd s + length g)"
      using assms(1,4,5) by (intro reads_if reads_return) simp
  qed
  then show ?thesis by simp
qed

lemma reads_groups:
  assumes ok: "uneven_ok F U" and fits: "persistable U" and V: "up_d V = up_d U" "up_M V = up_M U"
  shows "reads (uneven_read_groups V) (le64 (of_nat (length (up_groups U))) @ concat (map group_bytes (up_groups U))) (up_groups U)"
proof -
  let ?gs = "up_groups U" and ?d = "up_d U" and ?M = "up_M U"
  have M: "length ?gs = ?M" "?M \<le> ?d" "?d \<le> 2 ^ 20" using ok fits by (simp_all add: uneven_ok_def uneven_dims_ok_def persistable_def)
  have total: "length (concat ?gs) = ?d" using ok mset_eq_length [of "concat ?gs" "[0..<?d]"] by (simp add: uneven_ok_def)
  have elems: "set (concat ?gs) = {0..<?d}" using ok mset_eq_setD [of "concat ?gs" "[0..<?d]"] by (simp add: uneven_ok_def)
  have step: "reads (read_group ?d (take k ?gs, length (concat (take k ?gs)))) (group_bytes (?gs ! k)) (take (Suc k) ?gs, length (concat (take (Suc k) ?gs)))"
    if "k < ?M" for k
  proof -
    have k: "take (Suc k) ?gs = take k ?gs @ [?gs ! k]" using that M(1) by (simp add: take_Suc_conv_app_nth)
    have mem: "?gs ! k \<in> set ?gs" using that M(1) by simp
    have "length (concat (take k ?gs)) + length (?gs ! k) \<le> length (concat ?gs)"
      using k by (metis append_take_drop_id concat_append concat.simps(1,2) append_Nil2 le_add1 length_append)
    moreover have "\<forall>x \<in> set (?gs ! k). x < ?d" using mem elems by auto
    moreover have "?gs ! k \<noteq> []" using ok mem by (simp add: uneven_ok_def)
    ultimately show ?thesis
      using reads_group [of "?gs ! k" ?d "(take k ?gs, length (concat (take k ?gs)))"] group_length [OF ok mem] M(3) total
      by (simp add: k)
  qed
  have "reads (read_fold (\<lambda>_. read_group ?d) [0..<?M] (take 0 ?gs, length (concat (take 0 ?gs))))
      (concat (map (\<lambda>k. group_bytes (?gs ! k)) [0..<length [0..<?M]])) (take (length [0..<?M]) ?gs, length (concat (take (length [0..<?M]) ?gs)))"
    by (rule reads_fold) (simp add: step)
  moreover have "map (\<lambda>k. group_bytes (?gs ! k)) [0..<?M] = map group_bytes ?gs" using M(1) by (intro nth_equalityI) simp_all
  ultimately have fold: "reads (read_fold (\<lambda>_. read_group ?d) [0..<?M] ([], 0)) (concat (map group_bytes ?gs)) (?gs, ?d)"
    using M(1) total by simp
  have "reads (read_bind (read_fold (\<lambda>_. read_group ?d) [0..<?M] ([], 0)) (\<lambda>(groups, total).
        if total \<noteq> ?d then read_lift (Inl (Runtime_error ''persisted uneven groups do not cover dimension''))
        else read_return groups)) (concat (map group_bytes ?gs) @ []) ?gs"
    by (rule reads_bind [OF fold]) (simp add: reads_return)
  then have "reads (if ?M \<noteq> up_M V then read_lift (Inl (Runtime_error ''persisted uneven PQ has the wrong group count''))
      else read_bind (read_fold (\<lambda>_. read_group (up_d V)) [0..<?M] ([], 0)) (\<lambda>(groups, total).
        if total \<noteq> up_d V then read_lift (Inl (Runtime_error ''persisted uneven groups do not cover dimension''))
        else read_return groups)) (concat (map group_bytes ?gs)) ?gs"
    by (simp add: V)
  then show ?thesis unfolding uneven_read_groups_def M(1)
    using M V by (intro reads_bind [OF reads_size]) (simp_all add: size_max_def)
qed

lemma reads_bucket:
  assumes io: "faiss_pq_io F" and same: "same_layout b c" and cb: "codebook_for (bk_pq c) (bk_dim c) (bk_count c)"
    and V: "up_nbits V = 4" "up_ksub V = 16" "up_d V \<le> 2 ^ 20" "up_M V \<le> up_d V" "up_code_size V = up_M V div 2"
    and bounds: "bk_width c \<le> up_d V" "bk_dim c \<le> up_d V" "bk_first c + bk_count c \<le> up_M V" "bk_first c = 2 * bk_offset c" "bk_bytes c = bk_count c div 2"
  shows "reads (read_bucket F V b done) (bucket_bytes_of F c) (done @ [c])"
proof -
  note s = same_layout_fields [OF same]
  have "bk_dim c \<le> 2 ^ 20" "bk_count c \<le> 2 ^ 20" using bounds V by simp_all
  then have pq: "reads (fq_read F) (fq_write F (bk_pq c)) (bk_pq c)" using io cb by (simp add: faiss_pq_io_def)
  have final: "b\<lparr>bk_pq := bk_pq c\<rparr> = c" using same by (simp add: same_layout_def)
  have off: "bk_offset c \<le> up_code_size V" using bounds(3,4) V(5) by simp
  have small: "n \<le> size_max" if "n \<le> up_d V" for n using that V(3) by (simp add: size_max_def)
  have "reads (read_bucket F V b done) (le64 (of_nat (bk_width c)) @ le64 (of_nat (bk_count c)) @ le64 (of_nat (bk_first c))
      @ le64 (of_nat (bk_offset c)) @ fq_write F (bk_pq c) @ []) (done @ [c])"
    unfolding read_bucket_def
  proof (intro reads_bind [OF reads_size] reads_if reads_bind [OF pq])
    show "reads (read_return (done @ [b\<lparr>bk_pq := bk_pq c\<rparr>])) [] (done @ [c])" unfolding final by (rule reads_return)
  qed (use bounds V off small cb s in \<open>auto simp: codebook_for_def\<close>)
  then show ?thesis by (simp add: bucket_bytes_of_def)
qed

lemma reads_buckets:
  assumes ok: "uneven_ok F U" and fits: "persistable U" and io: "faiss_pq_io F" and bs: "list_all2 same_layout bs (up_buckets U)"
    and V: "up_nbits V = 4" "up_ksub V = 16" "up_d V = up_d U" "up_M V = up_M U" "up_code_size V = up_M V div 2"
  shows "reads (read_fold (read_bucket F V) bs []) (concat (map (bucket_bytes_of F) (up_buckets U))) (up_buckets U)"
proof -
  let ?cs = "up_buckets U"
  have len: "length bs = length ?cs" using bs by (rule list_all2_lengthD)
  have M: "up_d U \<le> 2 ^ 20" "up_M U \<le> up_d U" "length (up_groups U) = up_M U"
    using ok fits by (simp_all add: uneven_ok_def uneven_dims_ok_def persistable_def)
  note chain = uneven_chain [OF ok]
  have step: "reads (read_bucket F V (bs ! k) (take k ?cs)) (bucket_bytes_of F (?cs ! k)) (take (Suc k) ?cs)" if k: "k < length bs" for k
  proof -
    have mem: "?cs ! k \<in> set ?cs" using k len by simp
    have bd: "bk_dim (?cs ! k) \<le> up_d U"
    proof -
      have "length (bk_dims (?cs ! k)) \<le> length (concat (map bk_dims ?cs))" using mem by (simp add: length_concat comp_def member_le_sum_list)
      also have "\<dots> = up_d U" using uneven_dims [OF ok] by (metis card_atLeastLessThan diff_zero distinct_card)
      finally show ?thesis using chain_dim(1) [OF chain mem] by simp
    qed
    have "bk_width (?cs ! k) * 1 \<le> bk_dim (?cs ! k)"
      unfolding chain_dim(5) [OF chain mem] using chain_dim(2) [OF chain mem] by (intro mult_le_mono2) simp
    then have "bk_width (?cs ! k) \<le> up_d V" using V(3) bd by simp
    moreover have "same_layout (bs ! k) (?cs ! k)" using bs k by (rule list_all2_nthD)
    moreover have "codebook_for (bk_pq (?cs ! k)) (bk_dim (?cs ! k)) (bk_count (?cs ! k))" using ok mem by (simp add: uneven_ok_def)
    ultimately have "reads (read_bucket F V (bs ! k) (take k ?cs)) (bucket_bytes_of F (?cs ! k)) (take k ?cs @ [?cs ! k])"
      using io V M bd chain_dim(4,7,8) [OF chain mem] by (intro reads_bucket) simp_all
    then show ?thesis using k len by (simp add: take_Suc_conv_app_nth)
  qed
  have "reads (read_fold (read_bucket F V) bs (take 0 ?cs)) (concat (map (\<lambda>k. bucket_bytes_of F (?cs ! k)) [0..<length bs])) (take (length bs) ?cs)"
    by (rule reads_fold) (rule step)
  moreover have "map (\<lambda>k. bucket_bytes_of F (?cs ! k)) [0..<length bs] = map (bucket_bytes_of F) ?cs"
    using len by (intro nth_equalityI) simp_all
  ultimately show ?thesis using len by simp
qed

lemma check_loads_ok: "uneven_ok F U \<Longrightarrow> check_loads U = Inr ()"
proof -
  assume ok: "uneven_ok F U"
  have "res_fold (\<lambda>g _. if P g then Inr () else Inl e) gs () = Inr ()" if "\<forall>g \<in> set gs. P g" for P e and gs :: "nat list"
    using that by (induction gs) simp_all
  then show ?thesis using ok by (simp add: check_loads_def uneven_ok_def)
qed

lemma uneven_read_ok:
  assumes ok: "uneven_ok F U" and fits: "persistable U" and io: "faiss_pq_io F"
  shows "reads (uneven_read F) (uneven_bytes F U) U"
proof -
  let ?d = "up_d U" and ?M = "up_M U"
  have dims: "uneven_dims_ok U" "0 < ?M" "?M \<le> ?d" "?M mod 2 = 0" "?d mod 2 = 0" "up_nbits U = 4" "up_ksub U = 16" "up_code_size U = ?M div 2"
    using ok by (simp_all add: uneven_ok_def uneven_dims_ok_def)
  have small: "?d \<le> 2 ^ 20" "up_max_width U \<le> ?d" using fits by (simp_all add: persistable_def)
  have sm: "n \<le> size_max \<and> n \<le> size_max div 8" if "n \<le> ?d" for n using that small(1) by (simp add: size_max_def)
  have lens: "length (up_budgets U) = ?d" "length (up_loads U) = ?M" "length (up_groups U) = ?M" using ok by (simp_all add: uneven_ok_def)
  obtain bs where bs: "bucket_loop F 4 (up_groups U) 0 = Inr bs" "list_all2 same_layout bs (up_buckets U)" using ok by (auto simp: uneven_ok_def)
  obtain U0 where U0: "uneven_new ?d ?M 4 = Inr U0" using dims by (simp add: uneven_new_iff)
  have U0_eq: "U0 = \<lparr>up_d = ?d, up_M = ?M, up_nbits = 4, up_ksub = 16, up_code_size = ?M div 2, up_max_width = 0,
           up_report = True, up_verbose = False, up_trained = False, up_groups = [], up_budgets = [], up_loads = [], up_buckets = []\<rparr>"
    using U0 by (simp add: uneven_new_iff)
  let ?V = "U0\<lparr>up_max_width := up_max_width U, up_report := up_report U, up_verbose := up_verbose U, up_budgets := up_budgets U, up_loads := up_loads U\<rparr>"
  let ?W = "?V\<lparr>up_groups := up_groups U, up_buckets := bs\<rparr>"
  have "validate_layout ?W = Inr ()"
    using bucket_loop_chain [OF bs(1)] ok lens by (intro validate_layout_ok) (simp_all add: U0_eq uneven_ok_def)
  then have build: "build_buckets F ?V (up_groups U) = Inr ?W" using bs(1) lens(3) by (simp add: build_buckets_def U0_eq)
  have count: "length bs = length (up_buckets U)" using bs(2) by (rule list_all2_lengthD)
  have buckets_le: "length (up_buckets U) \<le> ?M"
  proof -
    have "bucket_chain gs first cs \<Longrightarrow> first + length cs \<le> length gs" for gs first cs
      by (induction gs first cs rule: bucket_chain.induct) auto
    from this [OF uneven_chain [OF ok]] show ?thesis using lens(3) by simp
  qed
  have final: "?W\<lparr>up_buckets := up_buckets U, up_trained := True\<rparr> = U"
    using dims ok by (cases U) (simp add: U0_eq uneven_ok_def)
  have U2: "validate_layout (?W\<lparr>up_buckets := up_buckets U\<rparr>) = Inr ()" "check_loads (?W\<lparr>up_buckets := up_buckets U\<rparr>) = Inr ()"
    using uneven_validated [OF ok] check_loads_ok [OF ok] arg_cong [OF final, of validate_layout] arg_cong [OF final, of check_loads]
    by (simp_all add: validate_layout_def check_loads_def)
  have tables: "reads (read_vector of_le64 8 ?d ''ideal bit budgets'') (le64 (of_nat (length (up_budgets U))) @ concat (map le64 (up_budgets U))) (up_budgets U)"
    "reads (read_vector of_le64 8 ?M ''group bit loads'') (le64 (of_nat (length (up_loads U))) @ concat (map le64 (up_loads U))) (up_loads U)"
    using sm [of ?d] sm [of ?M] dims(3) lens by (intro u64_scalar.reads_vector; simp)+
  have groups: "reads (uneven_read_groups U0) (le64 (of_nat (length (up_groups U))) @ concat (map group_bytes (up_groups U))) (up_groups U)"
    by (rule reads_groups [OF ok fits]) (simp_all add: U0_eq)
  have books: "reads (read_fold (read_bucket F ?W) (up_buckets ?W) []) (concat (map (bucket_bytes_of F) (up_buckets U))) (up_buckets U)"
    using reads_buckets [OF ok fits io bs(2), of ?W] by (simp add: U0_eq)
  have last: "reads (let U2 = ?W\<lparr>up_buckets := up_buckets U\<rparr>
      in read_bind (read_lift (validate_layout U2)) (\<lambda>_. read_bind (read_lift (check_loads U2)) (\<lambda>_. read_return (U2\<lparr>up_trained := True\<rparr>)))) [] U"
    unfolding Let_def
    using reads_return [of U] final by (intro reads_lift_bind [OF U2(1)] reads_lift_bind [OF U2(2)]) simp
  have "reads (uneven_read F) (le32 1 @ le64 (of_nat ?d) @ le64 (of_nat ?M) @ le64 (of_nat (up_nbits U)) @ le64 (of_nat (up_max_width U))
    @ flag_bytes (up_report U) @ flag_bytes (up_verbose U) @ (le64 (of_nat (length (up_groups U))) @ concat (map group_bytes (up_groups U)))
    @ (le64 (of_nat (length (up_budgets U))) @ concat (map le64 (up_budgets U)))
    @ (le64 (of_nat (length (up_loads U))) @ concat (map le64 (up_loads U)))
    @ le64 (of_nat (length (up_buckets U))) @ concat (map (bucket_bytes_of F) (up_buckets U)) @ []) U"
    unfolding uneven_read_def
    apply (rule reads_bind [OF u32_scalar.reads_scalar], rule reads_if, simp)
    apply (rule reads_bind [OF reads_size], use small sm in simp, use sm in simp)
    apply (rule reads_bind [OF reads_size], use dims in simp, use sm dims in simp)
    apply (rule reads_bind [OF reads_size], use dims in simp, use dims in \<open>simp add: size_max_def\<close>)
    apply (subst dims(6), rule reads_lift_bind [OF U0])
    apply (rule reads_bind [OF reads_size], use small in simp, use small sm in simp)
    apply (rule reads_bind [OF reads_flag], rule reads_bind [OF reads_flag])
    apply (rule reads_bind [OF groups], rule reads_bind [OF tables(1)], rule reads_bind [OF tables(2)])
    apply (rule reads_if, use lens in simp, rule reads_lift_bind [OF build])
    apply (rule reads_bind [OF reads_size], use buckets_le in simp, use sm [of "length (up_buckets U)"] buckets_le dims(3) in simp)
    apply (rule reads_if, use count in simp, rule reads_bind [OF books], rule last)
    done
  then show ?thesis by (simp add: uneven_bytes_def)
qed

section \<open>The properties\<close>

text \<open>
  C24. The planner of the uneven product quantizer never fails. For every constructed quantizer and every list
  of bit budgets, whatever their values and however the comparisons of doubles turn out, the hill climb
  and the greedy assignment with its swaps return groups that partition the dimensions, with widths
  that come in pairs, and \<open>build_buckets\<close> makes of them buckets that pass the layout check: they cover the
  groups and the bytes of a code in order and without gaps. No assertion that would end the process fails.
\<close>

theorem uneven_plan_layout:
  assumes "uneven_new d M 4 = Inr U" and "length budgets = d"
  shows "\<exists>paired a U'. plan_paired_capacities U budgets = Inr paired \<and> assign_dimensions U paired budgets = Inr a
    \<and> build_buckets F U (as_groups a) = Inr U' \<and> map length (as_groups a) = sort (concat (map (\<lambda>c. [c, c]) paired))
    \<and> length (as_groups a) = M \<and> distinct (concat (as_groups a)) \<and> set (concat (as_groups a)) = {0..<d}
    \<and> (\<forall>c \<in> set paired. 1 \<le> c \<and> c \<le> (d + M - 1) div M + 2)
    \<and> bucket_chain (as_groups a) 0 (up_buckets U') \<and> validate_layout U' = Inr ()"
proof -
  have U: "uneven_dims_ok U" "up_d U = d" "up_M U = M" "up_max_width U = 0" using assms(1) uneven_new_dims [OF assms(1)] by (auto simp: uneven_new_iff)
  obtain paired where p: "plan_paired_capacities U budgets = Inr paired" "profile_ok U paired"
    using plan_ok [OF U(1) automatic_limit [OF U(4)]] assms(2) U(2) by auto
  obtain a where a: "assign_dimensions U paired budgets = Inr a" "partition_of d (group_widths paired) (as_groups a)"
    using assign_dimensions_ok [of U paired budgets] p(2) assms(2) U by (auto simp: profile_ok_def uneven_dims_ok_def)
  obtain bs where bs: "bucket_chain (as_groups a) 0 bs" "length (as_groups a) = M" "build_buckets F U (as_groups a) = Inr (U\<lparr>up_groups := as_groups a, up_buckets := bs\<rparr>)"
    using partition_build [OF U(1) p(2), of "as_groups a" F] a(2) U(2,3) by auto
  have perm: "distinct (concat (as_groups a))" "set (concat (as_groups a)) = {0..<d}"
    using a(2) mset_eq_setD [of "concat (as_groups a)" "[0..<d]"] mset_eq_imp_distinct_iff [of "concat (as_groups a)" "[0..<d]"]
    by (simp_all add: partition_of_def)
  moreover have "validate_layout (U\<lparr>up_groups := as_groups a, up_buckets := bs\<rparr>) = Inr ()"
    using bs a(2) U by (intro validate_layout_ok) (simp_all add: partition_of_def uneven_dims_ok_def)
  moreover have "map length (as_groups a) = sort (concat (map (\<lambda>c. [c, c]) paired))" using a(2) by (simp add: partition_of_def group_widths_def)
  moreover have "\<forall>c \<in> set paired. 1 \<le> c \<and> c \<le> (d + M - 1) div M + 2" using p(2) U by (simp add: profile_ok_def width_limit_def)
  ultimately show ?thesis using p(1) a(1) bs by (intro exI [of _ paired] exI [of _ a] exI [of _ "U\<lparr>up_groups := as_groups a, up_buckets := bs\<rparr>"]) simp
qed

text \<open>
  C23. The codec of the uneven quantizer is the direct sum of the codecs of its buckets: encoding returns, the bytes of
  every bucket are what Faiss computes from that bucket's coordinates, and decoding these codes gives
  vectors whose coordinates in every bucket are what Faiss decodes, for any number of vectors.
\<close>

theorem uneven_codec_correct:
  assumes "faiss_pq_sizes F" and "uneven_ok F U"
  shows "\<exists>codes y. uneven_encode F U (Some x) n = Inr codes \<and> length codes = n * up_code_size U
    \<and> uneven_decode F U (Some codes) n = Inr y \<and> length y = n * up_d U
    \<and> (\<forall>b \<in> set (up_buckets U). take_codes (up_code_size U) b n codes = fq_encode F (bk_pq b) (gather_bucket (up_d U) b n x) n
        \<and> gather_bucket (up_d U) b n y = fq_decode F (bk_pq b) (fq_encode F (bk_pq b) (gather_bucket (up_d U) b n x) n) n)"
proof -
  obtain codes where c: "uneven_encode F U (Some x) n = Inr codes" "length codes = n * up_code_size U"
    "\<forall>b \<in> set (up_buckets U). take_codes (up_code_size U) b n codes = bucket_codes F U b n x"
    using uneven_encode_ok [OF assms] by blast
  from uneven_decode_ok [OF assms c(2)] c show ?thesis by auto
qed

text \<open>
  The lookup tables of the uneven quantizer are those of its buckets: both tables return, and the cells of
  a bucket's groups are what Faiss computes from the query's coordinates in that bucket.
\<close>

theorem uneven_tables_correct:
  assumes "faiss_pq_sizes F" and "uneven_ok F U" and "length table = up_M U * 16"
  shows "\<exists>t u. uneven_inner_prod_table F U x table = Inr t \<and> uneven_distance_table F U x table = Inr u
    \<and> (\<forall>b \<in> set (up_buckets U).
        segment t (bk_first b * 16) (bk_count b * 16) = fq_inner_table F (bk_pq b) (gather_bucket (up_d U) b 1 x)
        \<and> segment u (bk_first b * 16) (bk_count b * 16) = fq_distance_table F (bk_pq b) (gather_bucket (up_d U) b 1 x))"
proof -
  have cb: "codebook_for (bk_pq b) (bk_dim b) (bk_count b)" if "b \<in> set (up_buckets U)" for b using assms(2) that by (simp add: uneven_ok_def)
  have len: "length (fq_inner_table F (bk_pq b) (gather_bucket (up_d U) b 1 x)) = bk_count b * 16"
    "length (fq_distance_table F (bk_pq b) (gather_bucket (up_d U) b 1 x)) = bk_count b * 16" if "b \<in> set (up_buckets U)" for b
    using assms(1) cb [OF that] length_gather_bucket [of "up_d U" b 1 x] unfolding faiss_pq_sizes_def by (metis mult_1)+
  from uneven_table_ok [OF assms(2,3), of "fq_inner_table F" x, OF len(1)] uneven_table_ok [OF assms(2,3), of "fq_distance_table F" x, OF len(2)]
  show ?thesis unfolding uneven_inner_prod_table_def uneven_distance_table_def by blast
qed


section \<open>A concrete quantizer\<close>

text \<open>
  A Faiss instance whose code repeats the low byte of the first coordinate, and a quantizer with two
  buckets: two groups of one dimension and two groups of two dimensions.
\<close>

definition tiny_pq_ops :: faiss_pq_ops where
  "tiny_pq_ops = \<lparr>fq_new = (\<lambda>D M nb. \<lparr>pq_d = D, pq_M = M, pq_nbits = nb, pq_ksub = 2 ^ nb, pq_code_size = M div 2, pq_centroids = replicate (D * 16) 0\<rparr>),
     fq_train = (\<lambda>c n x. c),
     fq_encode = (\<lambda>c x n. map (\<lambda>k. ucast (x ! (k div (pq_M c div 2) * pq_d c))) [0..<n * (pq_M c div 2)]),
     fq_decode = (\<lambda>c bs n. map (\<lambda>k. ucast (bs ! (k div pq_d c * (pq_M c div 2)))) [0..<n * pq_d c]),
     fq_inner_table = (\<lambda>c x. replicate (pq_M c * 16) (x ! 0)), fq_distance_table = (\<lambda>c x. replicate (pq_M c * 16) 0),
     fq_write = (\<lambda>c. le64 (of_nat (pq_d c)) @ le64 (of_nat (pq_M c)) @ le64 (of_nat (length (pq_centroids c))) @ concat (map le32 (pq_centroids c))),
     fq_read = read_bind (read_size size_max ''d'') (\<lambda>D. read_bind (read_size size_max ''M'') (\<lambda>M.
       read_bind (read_vector of_le32 4 size_max ''centroids'') (\<lambda>cs.
         read_return \<lparr>pq_d = D, pq_M = M, pq_nbits = 4, pq_ksub = 16, pq_code_size = M div 2, pq_centroids = cs\<rparr>))),
     fq_log2 = (\<lambda>x. 0)\<rparr>"

lemma tiny_pq_sizes: "faiss_pq_sizes tiny_pq_ops"
  by (auto simp: faiss_pq_sizes_def tiny_pq_ops_def codebook_for_def)

lemma tiny_pq_io: "faiss_pq_io tiny_pq_ops"
  unfolding faiss_pq_io_def
proof (intro allI impI)
  fix c :: codebook and D M :: nat
  assume c: "codebook_for c D M" and le: "D \<le> 2 ^ 20" "M \<le> 2 ^ 20"
  have small: "D \<le> size_max" "M \<le> size_max" "length (pq_centroids c) \<le> size_max" "length (pq_centroids c) \<le> size_max div 4"
    using c le by (simp_all add: codebook_for_def size_max_def)
  have "\<lparr>pq_d = D, pq_M = M, pq_nbits = 4, pq_ksub = 16, pq_code_size = M div 2, pq_centroids = pq_centroids c\<rparr> = c"
    using c by (cases c) (simp add: codebook_for_def)
  then have ret: "reads (read_return \<lparr>pq_d = D, pq_M = M, pq_nbits = 4, pq_ksub = 16, pq_code_size = M div 2, pq_centroids = pq_centroids c\<rparr>) [] c"
    using reads_return [of c] by simp
  have "reads (fq_read tiny_pq_ops) (le64 (of_nat D) @ le64 (of_nat M) @ (le64 (of_nat (length (pq_centroids c))) @ concat (map le32 (pq_centroids c))) @ []) c"
    unfolding tiny_pq_ops_def faiss_pq_ops.select_convs
    by (intro reads_bind [OF reads_size] reads_bind [OF u32_scalar.reads_vector] ret small order_refl)
  then show "reads (fq_read tiny_pq_ops) (fq_write tiny_pq_ops c) c" using c by (simp add: tiny_pq_ops_def codebook_for_def)
qed

definition tiny_groups :: "nat list list" where
  "tiny_groups = [[3], [0], [1, 5], [2, 4]]"

definition tiny_buckets :: "bucket list" where
  "tiny_buckets = [make_bucket tiny_pq_ops 4 tiny_groups 0 2, make_bucket tiny_pq_ops 4 tiny_groups 2 2]"

definition tiny_uneven :: uneven_pq where
  "tiny_uneven = \<lparr>up_d = 6, up_M = 4, up_nbits = 4, up_ksub = 16, up_code_size = 2, up_max_width = 0, up_report = False, up_verbose = False,
     up_trained = True, up_groups = tiny_groups, up_budgets = replicate 6 0, up_loads = replicate 4 0, up_buckets = tiny_buckets\<rparr>"

lemma f64_zero_sum: "f64_add 0 0 = 0"
  by (simp add: f64_add_def f64_is_nan_def f64_is_inf_def f64_mag_def inf_mag64_def f64_sunits_def f64_units_def f64_sign_def f64_make_def)

lemma almost_equal_zero: "almost_equal 0 0"
proof -
  have z: "f64_sub 0 0 = 0" "f64_abs 0 = 0"
    by (simp_all add: f64_sub_def f64_neg_def f64_abs_def f64_add_def f64_is_nan_def f64_is_inf_def f64_mag_def inf_mag64_def f64_sunits_def f64_units_def
        f64_sign_def f64_make_def)
  have one: "f64_max (f64_max f64_one 0) 0 = f64_one"
    by (simp add: f64_max_def f64_lt_def f64_one_def f64_smag_def f64_sign_def f64_mag_def)
  have "f64_mul f64_1em12 f64_one = f64_make False (round_mag64 1074 (f64_units (f64_mag f64_1em12) * f64_units (f64_mag f64_one)))"
    by (simp add: f64_mul_def f64_1em12_def f64_one_def f64_is_nan_def f64_is_inf_def f64_mag_def inf_mag64_def f64_sign_def)
  moreover have r: "round_mag64 s k \<le> inf_mag64" for s k by (simp add: round_mag64_def Let_def)
  ultimately obtain m where m: "f64_mul f64_1em12 f64_one = f64_make False m" "m \<le> inf_mag64" by blast
  have "unat (f64_make False m) = m" using m(2) by (simp add: f64_make_def unat_of_nat take_bit_nat_eq_self inf_mag64_def)
  then have "\<not> f64_is_nan (f64_make False m)" "0 \<le> f64_smag (f64_make False m)" "\<not> f64_sign (f64_make False m)"
    using m(2) by (simp_all add: f64_is_nan_def f64_smag_def f64_sign_def f64_mag_def inf_mag64_def)
  then show ?thesis unfolding almost_equal_def Let_def z one m(1)
    by (simp add: f64_le_def f64_is_nan_def [of 0] f64_smag_def [of 0] f64_mag_def inf_mag64_def)
qed

lemma tiny_bucket_loop: "bucket_loop tiny_pq_ops 4 tiny_groups 0 = Inr tiny_buckets"
  by (simp add: bucket_loop.simps run_end_def tiny_groups_def faiss_check_def tiny_buckets_def numeral_2_eq_2)

lemma tiny_uneven_ok: "uneven_ok tiny_pq_ops tiny_uneven"
proof -
  have "list_all2 same_layout tiny_buckets tiny_buckets" by (simp add: list_all2_conv_all_nth same_layout_def)
  moreover have "\<forall>b \<in> set tiny_buckets. codebook_for (bk_pq b) (bk_dim b) (bk_count b)"
    by (simp add: tiny_buckets_def make_bucket_def tiny_groups_def tiny_pq_ops_def codebook_for_def)
  moreover have "group_load (replicate 6 0) g = 0" if "g \<in> set tiny_groups" for g
    using that by (auto simp: tiny_groups_def group_load_def f64_sum_def f64_zero_sum numeral_eq_Suc)
  then have "almost_equal (group_load (replicate 6 0) (tiny_groups ! g)) (replicate 4 0 ! g)" if "g < 4" for g
  proof -
    have "tiny_groups ! g \<in> set tiny_groups" using that by (intro nth_mem) (simp add: tiny_groups_def)
    then show ?thesis using \<open>\<And>g. g \<in> set tiny_groups \<Longrightarrow> group_load (replicate 6 0) g = 0\<close> that almost_equal_zero by simp
  qed
  moreover have "mset (concat tiny_groups) = mset [0..<6]" by (simp add: tiny_groups_def upt_rec numeral_eq_Suc add_mset_commute)
  ultimately show ?thesis
    using tiny_bucket_loop by (simp add: uneven_ok_def uneven_dims_ok_def tiny_uneven_def) (simp add: tiny_groups_def)
qed

theorem uneven_plan_layout_witness:
  "\<exists>U paired a U'. uneven_new 6 4 4 = Inr U \<and> plan_paired_capacities U (replicate 6 f64_nan) = Inr paired
    \<and> assign_dimensions U paired (replicate 6 f64_nan) = Inr a \<and> build_buckets tiny_pq_ops U (as_groups a) = Inr U'
    \<and> set (concat (as_groups a)) = {0..<6}"
proof -
  obtain U where U: "uneven_new 6 4 4 = Inr U" by (simp add: uneven_new_iff)
  show ?thesis using uneven_plan_layout [OF U, of "replicate 6 f64_nan" tiny_pq_ops] U by auto
qed

theorem uneven_codec_correct_witness:
  "\<exists>codes y. uneven_encode tiny_pq_ops tiny_uneven (Some [1, 2, 3, 4, 5, 6]) 1 = Inr codes
    \<and> uneven_decode tiny_pq_ops tiny_uneven (Some codes) 1 = Inr y \<and> length codes = 2 \<and> y ! 3 = 4 \<and> y ! 0 = 4"
proof -
  let ?x = "[1, 2, 3, 4, 5, 6] :: f32 list"
  let ?b = "make_bucket tiny_pq_ops 4 tiny_groups 0 2"
  have b: "?b \<in> set (up_buckets tiny_uneven)" by (simp add: tiny_uneven_def tiny_buckets_def)
  have d: "up_d tiny_uneven = 6" "up_code_size tiny_uneven = 2" by (simp_all add: tiny_uneven_def)
  have g: "gather_bucket 6 ?b 1 v = [v ! 3, v ! 0]" for v
    by (simp add: gather_bucket_def make_bucket_def tiny_groups_def segment_def upt_rec)
  have "fq_encode tiny_pq_ops (bk_pq ?b) [4, 1] 1 = [4]" by (simp add: tiny_pq_ops_def make_bucket_def)
  moreover have "fq_decode tiny_pq_ops (bk_pq ?b) [4] 1 = [4, 4]" by (simp add: tiny_pq_ops_def make_bucket_def tiny_groups_def upt_rec)
  moreover obtain codes y where c: "uneven_encode tiny_pq_ops tiny_uneven (Some ?x) 1 = Inr codes" "length codes = 1 * up_code_size tiny_uneven"
    "uneven_decode tiny_pq_ops tiny_uneven (Some codes) 1 = Inr y"
    "gather_bucket 6 ?b 1 y = fq_decode tiny_pq_ops (bk_pq ?b) (fq_encode tiny_pq_ops (bk_pq ?b) (gather_bucket 6 ?b 1 ?x) 1) 1"
    using uneven_codec_correct [OF tiny_pq_sizes tiny_uneven_ok, of ?x 1] b unfolding d(1) by blast
  ultimately have "y ! 3 = 4" "y ! 0 = 4" unfolding g by simp_all
  then show ?thesis using c(1-3) d(2) by auto
qed

theorem uneven_tables_correct_witness:
  "\<exists>t. uneven_inner_prod_table tiny_pq_ops tiny_uneven [1, 2, 3, 4, 5, 6] (replicate 64 0) = Inr t \<and> segment t 32 32 = replicate 32 2"
proof -
  let ?x = "[1, 2, 3, 4, 5, 6] :: f32 list"
  let ?b = "make_bucket tiny_pq_ops 4 tiny_groups 2 2"
  have b: "?b \<in> set (up_buckets tiny_uneven)" "bk_first ?b * 16 = 32" "bk_count ?b * 16 = 32"
    by (simp_all add: tiny_uneven_def tiny_buckets_def make_bucket_def)
  have "gather_bucket 6 ?b 1 ?x ! 0 = 2"
    by (simp add: gather_bucket_def make_bucket_def tiny_groups_def segment_def upt_rec)
  then have "fq_inner_table tiny_pq_ops (bk_pq ?b) (gather_bucket (up_d tiny_uneven) ?b 1 ?x) = replicate 32 2"
    by (simp add: tiny_pq_ops_def make_bucket_def tiny_uneven_def)
  moreover have "length (replicate 64 (0 :: f32)) = up_M tiny_uneven * 16" by (simp add: tiny_uneven_def)
  ultimately show ?thesis using uneven_tables_correct [OF tiny_pq_sizes tiny_uneven_ok, of "replicate 64 0" ?x] b by metis
qed


end
