(* ===== verification/Quantizer.thy ===== *)
theory Quantizer
  imports Uneven_Codec Metric_Decode Scan
begin

text \<open>
  \<open>RecastQuantizer\<close> (src/src/quantizer.cpp, src/include/recastlib/quantizer.h): the split of a vector
  into norm and direction, the codec of the directions with its three metadata bytes, and the
  preparation of a query.

  Faiss is the record \<open>faiss_ops\<close>: its product quantizers, the PCA training, the application of a linear
  transform and of its transpose, the vector kernels, and the persistence of a transform.
  \<open>fo_lround_range\<close> is the value of \<open>std::lround\<close> for numbers that a \<open>long\<close> cannot hold, which the
  standard leaves unspecified. The exactly one pointer of \<open>uniform\<close> and \<open>uneven\<close> that is set is the
  datatype \<open>direction_pq\<close>. An input pointer is \<open>None\<close> when it is null; output pointers are not null. The parallel loops have
  independent iterations and run in order here. Exceptions that Faiss itself throws while it trains,
  and the state of an object whose \<open>train\<close> has thrown, are not modelled.
\<close>

section \<open>State\<close>

record quantizer_config =
  qc_dimension :: nat
  qc_subquantizers :: nat
  qc_grouping :: grouping_mode
  qc_transform :: transform_mode
  qc_metric :: distance_metric
  qc_centering :: centering_mode

text \<open>The public fields of \<open>faiss::LinearTransform\<close> that the code reads.\<close>

record linear_transform =
  lt_d_in :: nat
  lt_d_out :: nat
  lt_A :: "f32 list"
  lt_b :: "f32 list"
  lt_trained :: bool
  lt_orthonormal :: bool

datatype vector_transform = Linear_transform linear_transform | Other_transform

record faiss_ops =
  fo_pq :: faiss_pq_ops
  fo_pca :: "nat \<Rightarrow> nat \<Rightarrow> nat \<Rightarrow> f32 list \<Rightarrow> linear_transform"
  fo_apply :: "linear_transform \<Rightarrow> nat \<Rightarrow> f32 list \<Rightarrow> f32 list"
  fo_transpose :: "linear_transform \<Rightarrow> nat \<Rightarrow> f32 list \<Rightarrow> f32 list"
  fo_norm_L2sqr :: "f32 list \<Rightarrow> f32"
  fo_L2sqr :: "f32 list \<Rightarrow> f32 list \<Rightarrow> f32"
  fo_inner_product :: "f32 list \<Rightarrow> f32 list \<Rightarrow> f32"
  fo_write_transform :: "linear_transform \<Rightarrow> bytes"
  fo_read_transform :: "io_reader \<Rightarrow> (vector_transform \<times> io_reader) res"
  fo_lround_range :: "f32 \<Rightarrow> int"

datatype direction_pq = Uniform_backend codebook | Uneven_backend uneven_pq

record recast_quantizer =
  rq_config :: quantizer_config
  rq_mean :: "f32 list"
  rq_rotation :: "linear_transform option"
  rq_pq :: direction_pq
  rq_params :: metadata_decode_parameters
  rq_trained :: bool

text \<open>The accessors that the scanner uses.\<close>

definition rq_view :: "recast_quantizer \<Rightarrow> quantizer_view" where
  "rq_view q = \<lparr>qz_dimension = qc_dimension (rq_config q), qz_subquantizers = qc_subquantizers (rq_config q),
     qz_metric = qc_metric (rq_config q), qz_params = rq_params q\<rparr>"

definition rq_code_size :: "recast_quantizer \<Rightarrow> nat" where
  "rq_code_size q = qc_subquantizers (rq_config q) div 2"

section \<open>Scalar quantization\<close>

text \<open>\<open>1e-12f\<close>, \<open>1e-7f\<close>, \<open>0.5f\<close>\<close>

definition min_norm :: f32 where "min_norm = 0x2B8CBCCC"
definition f32_1em7 :: f32 where "f32_1em7 = 0x33D6BF95"
definition f32_half :: f32 where "f32_half = 0x3F000000"

definition f32_min :: "f32 \<Rightarrow> f32 \<Rightarrow> f32" where
  "f32_min a b = (if f32_lt b a then b else a)"

text \<open>A finite value is \<open>f32_sunits\<close> multiples of \<open>2^-149\<close>.\<close>

definition f32_lround :: "faiss_ops \<Rightarrow> f32 \<Rightarrow> int" where
  "f32_lround F x =
    (let u = f32_sunits x; n = (2 * \<bar>u\<bar> + 2 ^ 149) div 2 ^ 150; r = (if u < 0 then - n else n)
     in if f32_is_finite x \<and> - (2 ^ 63) \<le> r \<and> r < 2 ^ 63 then r else fo_lround_range F x)"

definition f32_ceil :: "f32 \<Rightarrow> int" where
  "f32_ceil x = - ((- f32_sunits x) div 2 ^ 149)"

definition clamp_code :: "int \<Rightarrow> int \<Rightarrow> u8" where
  "clamp_code hi code = of_int (max 0 (min hi code))"

definition normalize :: "faiss_ops \<Rightarrow> f32 list \<Rightarrow> f32 list \<times> f32" where
  "normalize F v =
    (let vnorm = f32_sqrt (fo_norm_L2sqr F v)
     in if f32_le vnorm min_norm then (replicate (length v) 0, 0)
        else let inverse = f32_div (f32_of_nat 1) vnorm
             in (map (\<lambda>x. f32_mul x inverse) v, vnorm))"

definition linear_overflow :: "f32 \<Rightarrow> f32 \<Rightarrow> f32 \<Rightarrow> bool" where
  "linear_overflow value maximum step \<longleftrightarrow>
    \<not> f32_is_finite value \<or> f32_lt (f32_add maximum (f32_mul f32_half step)) value"

definition quantize_linear :: "faiss_ops \<Rightarrow> f32 \<Rightarrow> f32 \<Rightarrow> f32 \<Rightarrow> u8" where
  "quantize_linear F value maximum step =
    (if linear_overflow value maximum step then 255
     else if f32_le maximum 0 then 0
     else clamp_code 254 (f32_lround F (f32_div value step)))"

definition quantize_error_upper :: "f32 \<Rightarrow> u8" where
  "quantize_error_upper error =
    (let e = f32_max 0 (f32_min (f32_of_nat 2) error)
     in clamp_code 255 (f32_ceil (f32_sub (f32_div (f32_mul e (f32_of_nat 255)) (f32_of_nat 2)) f32_1em7)))"

section \<open>Construction\<close>

definition quantizer_new :: "faiss_ops \<Rightarrow> quantizer_config \<Rightarrow> recast_quantizer res" where
  "quantizer_new F cfg =
    (let d = qc_dimension cfg; M = qc_subquantizers cfg;
         q = (\<lambda>pq. \<lparr>rq_config = cfg, rq_mean = replicate d 0, rq_rotation = None, rq_pq = pq,
                rq_params = \<lparr>norm_max = 0, norm_step = f32_of_nat 1, scale_max = 0, scale_step = f32_of_nat 1\<rparr>, rq_trained = False\<rparr>)
     in if d = 0 \<or> M = 0 \<or> M > d \<or> M mod 2 \<noteq> 0
        then Inl (Invalid_argument ''dimension and an even M in [2, dimension] are required'')
        else if qc_grouping cfg = Uniform \<and> d mod M \<noteq> 0
        then Inl (Invalid_argument ''uniform PQ requires dimension divisible by M'')
        else if qc_metric cfg = Cosine \<and> qc_centering cfg \<noteq> CenteringNone
        then Inl (Invalid_argument ''cosine distance requires origin-centered encoding'')
        else if qc_grouping cfg = Uniform then Inr (q (Uniform_backend (fq_new (fo_pq F) d M 4)))
        else res_bind (uneven_new d M 4) (\<lambda>U. Inr (q (Uneven_backend (U\<lparr>up_report := False\<rparr>)))))"

section \<open>The direction codec\<close>

definition rq_transform :: "faiss_ops \<Rightarrow> recast_quantizer \<Rightarrow> nat \<Rightarrow> f32 list \<Rightarrow> f32 list" where
  "rq_transform F q n x = (case rq_rotation q of Some R \<Rightarrow> fo_apply F R n x | None \<Rightarrow> x)"

definition rq_inverse_transform :: "faiss_ops \<Rightarrow> recast_quantizer \<Rightarrow> nat \<Rightarrow> f32 list \<Rightarrow> f32 list" where
  "rq_inverse_transform F q n x = (case rq_rotation q of Some R \<Rightarrow> fo_transpose F R n x | None \<Rightarrow> x)"

definition train_direction_quantizer :: "faiss_ops \<Rightarrow> direction_pq \<Rightarrow> nat \<Rightarrow> f32 list \<Rightarrow> direction_pq res" where
  "train_direction_quantizer F pq n x =
    (case pq of
       Uniform_backend c \<Rightarrow> Inr (Uniform_backend (fq_train (fo_pq F) c n x))
     | Uneven_backend U \<Rightarrow> res_bind (uneven_train (fo_pq F) U n (Some x)) (\<lambda>U'. Inr (Uneven_backend U')))"

definition direction_codes :: "faiss_ops \<Rightarrow> direction_pq \<Rightarrow> nat \<Rightarrow> f32 list \<Rightarrow> bytes res" where
  "direction_codes F pq n x =
    (case pq of Uniform_backend c \<Rightarrow> Inr (fq_encode (fo_pq F) c x n) | Uneven_backend U \<Rightarrow> uneven_encode (fo_pq F) U (Some x) n)"

definition decode_codes :: "faiss_ops \<Rightarrow> direction_pq \<Rightarrow> nat \<Rightarrow> bytes \<Rightarrow> f32 list res" where
  "decode_codes F pq n codes =
    (case pq of Uniform_backend c \<Rightarrow> Inr (fq_decode (fo_pq F) c codes n) | Uneven_backend U \<Rightarrow> uneven_decode (fo_pq F) U (Some codes) n)"

text \<open>\<open>lut\<close> is the content of the output buffer before the call.\<close>

definition direction_lut :: "faiss_ops \<Rightarrow> direction_pq \<Rightarrow> f32 list \<Rightarrow> f32 list \<Rightarrow> f32 list res" where
  "direction_lut F pq x lut =
    (case pq of
       Uniform_backend c \<Rightarrow> Inr (let t = fq_inner_table (fo_pq F) c x in t @ drop (length t) lut)
     | Uneven_backend U \<Rightarrow> uneven_inner_prod_table (fo_pq F) U x lut)"

section \<open>Training\<close>

abbreviation row_of :: "nat \<Rightarrow> f32 list \<Rightarrow> nat \<Rightarrow> f32 list" where
  "row_of d x i \<equiv> segment x (i * d) d"

definition training_mean :: "centering_mode \<Rightarrow> nat \<Rightarrow> nat \<Rightarrow> f32 list \<Rightarrow> f32 list" where
  "training_mean centering d n x =
    (if centering = Mean
     then let totals = map (\<lambda>j. foldl (\<lambda>s i. f32_add s (x ! (i * d + j))) 0 [0..<n]) [0..<d];
              inverse_count = f32_div (f32_of_nat 1) (f32_of_nat n)
          in map (\<lambda>s. f32_mul s inverse_count) totals
     else replicate d 0)"

definition centered_rows :: "nat \<Rightarrow> nat \<Rightarrow> f32 list \<Rightarrow> f32 list \<Rightarrow> f32 list" where
  "centered_rows d n mean x = concat (map (\<lambda>i. map2 f32_sub (row_of d x i) mean) [0..<n])"

definition normalized_rows :: "faiss_ops \<Rightarrow> nat \<Rightarrow> nat \<Rightarrow> f32 list \<Rightarrow> f32 list \<times> f32 list" where
  "normalized_rows F d n x =
    (let rows = map (\<lambda>i. normalize F (row_of d x i)) [0..<n] in (concat (map fst rows), map snd rows))"

definition trained_rotation :: "faiss_ops \<Rightarrow> quantizer_config \<Rightarrow> linear_transform option \<Rightarrow> nat \<Rightarrow> f32 list \<Rightarrow> linear_transform option res" where
  "trained_rotation F cfg old n centered =
    (let d = qc_dimension cfg;
         R = (case qc_transform cfg of
                Pca \<Rightarrow> Some (fo_pca F d 0 n centered)
              | ParametricOpq \<Rightarrow> Some (fo_pca F d (qc_subquantizers cfg) n centered)
              | TransformNone \<Rightarrow> old)
     in case R of
          None \<Rightarrow> Inr None
        | Some t \<Rightarrow> if \<not> lt_orthonormal t then Inl (Runtime_error ''Recast requires an orthonormal PCA transform'')
                    else Inr (Some (t\<lparr>lt_b := replicate (length (lt_b t)) 0\<rparr>)))"

text \<open>The scale of a row: what its reconstruction is multiplied with, if it has one.\<close>

definition row_scale :: "distance_metric \<Rightarrow> f32 \<Rightarrow> f32 \<Rightarrow> f32 option" where
  "row_scale metric vnorm reconstruction_norm =
    (if f32_lt min_norm reconstruction_norm \<and> (metric \<noteq> Cosine \<or> f32_lt min_norm vnorm)
     then Some (if metric = Cosine then f32_div (f32_of_nat 1) reconstruction_norm else f32_div vnorm reconstruction_norm)
     else None)"

definition largest_scale :: "faiss_ops \<Rightarrow> distance_metric \<Rightarrow> nat \<Rightarrow> nat \<Rightarrow> f32 list \<Rightarrow> f32 list \<Rightarrow> f32" where
  "largest_scale F metric d n norms reconstructed =
    foldl (\<lambda>m i. case row_scale metric (norms ! i) (f32_sqrt (fo_norm_L2sqr F (row_of d reconstructed i))) of
        Some s \<Rightarrow> f32_max m s | None \<Rightarrow> m) 0 [0..<n]"

definition range_step :: "f32 \<Rightarrow> f32" where
  "range_step maximum = (if f32_lt 0 maximum then f32_div maximum (f32_of_nat 254) else f32_of_nat 1)"

definition quantizer_train :: "faiss_ops \<Rightarrow> nat \<Rightarrow> f32 list option \<Rightarrow> recast_quantizer \<Rightarrow> recast_quantizer res" where
  "quantizer_train F n vectors q =
    (if n = 0 \<or> vectors = None then Inl (Invalid_argument ''training vectors must not be empty'')
     else let cfg = rq_config q; d = qc_dimension cfg; x = the vectors;
              mean = training_mean (qc_centering cfg) d n x;
              centered = centered_rows d n mean x;
              (directions, norms) = normalized_rows F d n centered;
              nmax = foldl f32_max 0 norms
          in res_bind (trained_rotation F cfg (rq_rotation q) n centered) (\<lambda>R.
             let transformed = rq_transform F (q\<lparr>rq_rotation := R\<rparr>) n directions
             in res_bind (train_direction_quantizer F (rq_pq q) n transformed) (\<lambda>pq.
                res_bind (direction_codes F pq n transformed) (\<lambda>codes.
                res_bind (decode_codes F pq n codes) (\<lambda>reconstructed.
                let smax = largest_scale F (qc_metric cfg) d n norms reconstructed
                in Inr (q\<lparr>rq_mean := mean, rq_rotation := R, rq_pq := pq,
                     rq_params := \<lparr>norm_max = nmax, norm_step = range_step nmax, scale_max = smax, scale_step = range_step smax\<rparr>,
                     rq_trained := True\<rparr>))))))"

section \<open>Encoding and decoding\<close>

definition row_metadata_of :: "faiss_ops \<Rightarrow> recast_quantizer \<Rightarrow> f32 list \<Rightarrow> f32 \<Rightarrow> f32 list \<Rightarrow> metadata" where
  "row_metadata_of F q direction vnorm reconstructed =
    (let p = rq_params q; (reconstruction, reconstruction_norm) = normalize F reconstructed;
         norm_code = quantize_linear F vnorm (norm_max p) (norm_step p)
     in case row_scale (qc_metric (rq_config q)) vnorm reconstruction_norm of
          Some scale \<Rightarrow> \<lparr>md_norm = norm_code, md_scale = quantize_linear F scale (scale_max p) (scale_step p),
            md_error = quantize_error_upper (f32_sqrt (fo_L2sqr F direction reconstruction))\<rparr>
        | None \<Rightarrow> \<lparr>md_norm = norm_code, md_scale = 255, md_error = 255\<rparr>)"

definition quantizer_encode :: "faiss_ops \<Rightarrow> recast_quantizer \<Rightarrow> nat \<Rightarrow> f32 list option \<Rightarrow> (bytes \<times> metadata list) res" where
  "quantizer_encode F q n vectors =
    (if \<not> rq_trained q \<or> (n > 0 \<and> vectors = None) then Inl (Invalid_argument ''invalid encode input or untrained quantizer'')
     else if n = 0 then Inr ([], [])
     else let d = qc_dimension (rq_config q);
              (units, norms) = normalized_rows F d n (centered_rows d n (rq_mean q) (the vectors));
              directions = rq_transform F q n units
          in res_bind (direction_codes F (rq_pq q) n directions) (\<lambda>codes.
             res_bind (decode_codes F (rq_pq q) n codes) (\<lambda>reconstructed.
               Inr (codes, map (\<lambda>i. row_metadata_of F q (row_of d directions i) (norms ! i) (row_of d reconstructed i)) [0..<n]))))"

definition quantizer_decode :: "faiss_ops \<Rightarrow> recast_quantizer \<Rightarrow> nat \<Rightarrow> bytes option \<Rightarrow> metadata list \<Rightarrow> f32 list res" where
  "quantizer_decode F q n codes ms =
    (if \<not> rq_trained q \<or> (n > 0 \<and> codes = None) then Inl (Invalid_argument ''invalid decode input or untrained quantizer'')
     else if n = 0 then Inr []
     else let d = qc_dimension (rq_config q)
          in res_bind (decode_codes F (rq_pq q) n (the codes)) (\<lambda>directions.
             let restored = concat (map (\<lambda>i.
                   let (vnorm, scale, error, overflow) = decode_metadata (rq_view q) (ms ! i);
                       factor = (if qc_metric (rq_config q) = Cosine then f32_mul vnorm scale else scale)
                   in map (\<lambda>y. f32_mul y factor) (row_of d directions i)) [0..<n]);
                 centered = rq_inverse_transform F q n restored
             in Inr (concat (map (\<lambda>i. map2 f32_add (row_of d centered i) (rq_mean q)) [0..<n]))))"

section \<open>Queries\<close>

text \<open>The query as the metric wants it, with its norm if it is normalized.\<close>

definition metric_query :: "faiss_ops \<Rightarrow> recast_quantizer \<Rightarrow> f32 list \<Rightarrow> f32 list \<times> f32" where
  "metric_query F q x =
    (let translated = (if qc_metric (rq_config q) = SquaredL2 then map2 f32_sub x (rq_mean q) else x)
     in if qc_metric (rq_config q) = Cosine then normalize F translated else (translated, 0))"

definition quantizer_prepare_query :: "faiss_ops \<Rightarrow> recast_quantizer \<Rightarrow> f32 list option \<Rightarrow> query_context res" where
  "quantizer_prepare_query F q query =
    (if \<not> rq_trained q \<or> query = None then Inl (Invalid_argument ''invalid query or untrained quantizer'')
     else let cfg = rq_config q; d = qc_dimension cfg; x = take d (the query);
              (centered, vnorm) = metric_query F q x
          in if qc_metric cfg = Cosine \<and> f32_le vnorm min_norm
             then Inl (Invalid_argument ''cosine query must have nonzero norm'')
             else let squared = (if qc_metric cfg = Cosine then f32_of_nat 1 else fo_norm_L2sqr F centered);
                      qnorm = (if qc_metric cfg = Cosine then f32_of_nat 1 else f32_sqrt squared);
                      mean_dot = (if qc_metric cfg = InnerProduct \<and> qc_centering cfg = Mean then fo_inner_product F x (rq_mean q) else 0);
                      transformed = rq_transform F q 1 centered
                  in res_bind (direction_lut F (rq_pq q) transformed (replicate (qc_subquantizers cfg * 16) 0)) (\<lambda>lut.
                     Inr \<lparr>centered_query = centered, transformed_query = transformed, dot_lut = lut, query_norm = qnorm,
                          query_norm_squared = squared, mean_dot_query = mean_dot\<rparr>))"

definition quantizer_dot_lut :: "faiss_ops \<Rightarrow> recast_quantizer \<Rightarrow> f32 list option \<Rightarrow> f32 list option \<Rightarrow> f32 list res" where
  "quantizer_dot_lut F q rotated lut =
    (if \<not> rq_trained q \<or> rotated = None \<or> lut = None
     then Inl (Invalid_argument ''invalid LUT input or untrained quantizer'')
     else direction_lut F (rq_pq q) (the rotated) (the lut))"

end
