(* ===== verification/Error_Code.thy ===== *)
theory Error_Code
  imports Quantizer
begin

text \<open>
  The direction-error byte of \<open>quantize_error_upper\<close> (src/src/quantizer.cpp). The comment promises that
  decoding never understates the measured error; the slack \<open>1e-7\<close> breaks this just above a code.
\<close>

section \<open>The constants and one product\<close>

lemmas f32_eval = f32_mul_def f32_sub_def f32_add_def f32_neg_def f32_class_defs f32_order_defs f32_of_nat_def f32_smag_def
  f32_mag_def f32_sign_def inf_mag_def f32_units_def f32_sunits_def round_mag_def rne_shift_def bitlen.simps f32_make_def Let_def

lemma error_constants: "f32_of_nat 2 = 0x40000000" "f32_of_nat 255 = 0x437F0000"
  by (simp_all add: f32_eval)

lemma quotient_classes:
  "\<not> f32_is_nan 0x40000000" "\<not> f32_is_nan 0x437F0000" "\<not> f32_is_nan 0x40000001"
  "\<not> f32_is_inf 0x40000000" "\<not> f32_is_inf 0x437F0000" "\<not> f32_is_inf 0x40000001"
  "\<not> f32_sign 0x40000000" "\<not> f32_sign 0x437F0000" "\<not> f32_sign 0x40000001"
  by (simp_all add: f32_class_defs f32_mag_def f32_sign_def inf_mag_def)

lemma quotient_units:
  "f32_units (f32_mag 0x40000001) = 0x800001 * 2 ^ 127" "f32_units (f32_mag 0x40000000) = 0x800000 * 2 ^ 127"
  "f32_units (f32_mag 0x437F0000) = 0xFF0000 * 2 ^ 133" "f32_mag 0x40000000 \<noteq> 0" "f32_mag 0x437F0000 \<noteq> 0"
  by (simp_all add: f32_units_def f32_mag_def)

lemma exact_quotient:
  "(0x800001 * 2 ^ 127 * 2 ^ 151) div (0x800000 * 2 ^ 127) = (0x800001 * 2 ^ 128 :: nat)"
  "(0x800001 * 2 ^ 127 * 2 ^ 151) mod (0x800000 * 2 ^ 127) = (0 :: nat)"
  by simp_all

lemma inexact_quotient:
  "(0x800000 * 2 ^ 127 * 2 ^ 151) div (0xFF0000 * 2 ^ 133) = (22388199101269958918561348540384237433454849 :: nat)"
  "(0x800000 * 2 ^ 127 * 2 ^ 151) mod (0xFF0000 * 2 ^ 133) = (713623846352979940529142984724747568191373312 :: nat)"
  by simp_all

lemma quotient_roundings:
  "round_mag 3 (2 * (0x800001 * 2 ^ 128)) = 0x3F800001"
  "round_mag 3 (2 * 22388199101269958918561348540384237433454849 + 1) = 0x3C008081"
  by (simp_all add: round_mag_def bitlen.simps rne_shift_def inf_mag_def)

lemma half_product: "f32_div 0x40000001 0x40000000 = 0x3F800001"
  unfolding f32_div_def Let_def
  by (simp only: quotient_classes quotient_units exact_quotient sticky_def simp_thms if_True if_False quotient_roundings add_0_right)
    (simp add: f32_make_def)

lemma error_step: "f32_div 0x40000000 0x437F0000 = 0x3C008081"
proof -
  have "(713623846352979940529142984724747568191373312 :: nat) \<noteq> 0" by simp
  then show ?thesis unfolding f32_div_def Let_def
    by (simp only: quotient_classes quotient_units inexact_quotient sticky_def simp_thms if_True if_False quotient_roundings)
      (simp add: f32_make_def)
qed

section \<open>An understated error\<close>

text \<open>The error is the float after \<open>2 / 255\<close>.\<close>

lemma understated_code: "quantize_error_upper 0x3C008082 = 1"
proof -
  have "f32_max 0 (f32_min (f32_of_nat 2) 0x3C008082) = 0x3C008082" by (simp add: f32_max_def f32_min_def f32_eval)
  moreover have "f32_mul 0x3C008082 0x437F0000 = 0x40000001" by (simp add: f32_eval)
  moreover have "f32_sub 0x3F800001 f32_1em7 = 0x3F800000" by (simp add: f32_eval f32_1em7_def)
  moreover have "f32_ceil 0x3F800000 = 1" by (simp add: f32_eval f32_ceil_def)
  ultimately show ?thesis unfolding quantize_error_upper_def Let_def
    by (simp only: error_constants half_product) (simp add: clamp_code_def)
qed

lemma understated_value: "f32_mul (byte_float 1) (f32_div (f32_of_nat 2) (f32_of_nat 255)) = 0x3C008081"
proof -
  have "f32_mul (byte_float 1) 0x3C008081 = 0x3C008081" by (simp add: f32_eval byte_float_def)
  then show ?thesis by (simp only: error_constants error_step)
qed


end
