(* ===== verification/File_Streams.thy ===== *)
theory File_Streams
  imports Persistence
begin

text \<open>
  The C++ file streams and path operations that the persistence code uses, over the disk of
  \<open>External_Io\<close>. An output stream is the path it was opened with and its good bit; a write appends its
  bytes or, when a system call fails, a prefix of them, and clears the good bit for good. Buffering is
  not modelled: an error shows at the write and not at the next flush. An input stream is a path and a
  position; a read that cannot deliver all its bytes is \<open>None\<close>.
\<close>

section \<open>Output streams\<close>

record out_stream =
  os_path :: string
  os_good :: bool

text \<open>\<open>std::ofstream(path, binary | trunc)\<close>.\<close>

definition open_out :: "string \<Rightarrow> disk \<Rightarrow> out_stream \<times> disk" where
  "open_out p d = (case sys_open True True p d of (r, d') \<Rightarrow> (\<lparr>os_path = p, os_good = (r = Inr ())\<rparr>, d'))"

definition stream_write :: "bytes \<Rightarrow> out_stream \<Rightarrow> disk \<Rightarrow> out_stream \<times> disk" where
  "stream_write bs s d =
    (if \<not> os_good s then (s, d)
     else case pwrite_exact (os_path s) bs (length (content d (os_path s))) d of
       (r, d') \<Rightarrow> (s\<lparr>os_good := (r = Inr ())\<rparr>, d'))"

text \<open>Writes one after the other; \<open>throw\<close> is the exception of the check behind each of them, if any.\<close>

fun stream_writes :: "(bytes \<times> exc option) list \<Rightarrow> out_stream \<Rightarrow> out_stream io" where
  "stream_writes [] s d = (Inr s, d)"
| "stream_writes ((bs, throw) # ws) s d =
    (case stream_write bs s d of (s', d') \<Rightarrow>
      case throw of
        Some e \<Rightarrow> if os_good s' then stream_writes ws s' d' else (Inl e, d')
      | None \<Rightarrow> stream_writes ws s' d')"

text \<open>Opening a file, \<open>e\<close> when that fails, and writing it; the last write stands for the flush.\<close>

definition write_stream_file :: "string \<Rightarrow> exc \<Rightarrow> (bytes \<times> exc option) list \<Rightarrow> unit io" where
  "write_stream_file p e ws d =
    (case open_out p d of (s, d1) \<Rightarrow>
      if \<not> os_good s then (Inl e, d1)
      else case stream_writes ws s d1 of (r, d2) \<Rightarrow> (res_bind r (\<lambda>_. Inr ()), d2))"

section \<open>Input streams\<close>

text \<open>\<open>std::ifstream(path, binary)\<close>; \<open>False\<close> when it cannot be opened.\<close>

definition open_in :: "string \<Rightarrow> disk \<Rightarrow> bool \<times> disk" where
  "open_in p d = (case sys_open False False p d of (r, d') \<Rightarrow> (r = Inr (), d'))"

definition stream_read :: "string \<Rightarrow> nat \<Rightarrow> nat \<Rightarrow> disk \<Rightarrow> bytes option \<times> disk" where
  "stream_read p pos n d =
    (case pread_exact p n pos d of (Inr bs, d') \<Rightarrow> (Some bs, d') | (Inl e, d') \<Rightarrow> (None, d'))"

text \<open>Is there another byte? \<open>read(&extra, 1)\<close> and \<open>peek()\<close> ask this.\<close>

definition stream_more :: "string \<Rightarrow> nat \<Rightarrow> disk \<Rightarrow> bool \<times> disk" where
  "stream_more p pos d = (case stream_read p pos 1 d of (r, d') \<Rightarrow> (r \<noteq> None, d'))"

section \<open>Paths\<close>

definition rename_file :: "string \<Rightarrow> string \<Rightarrow> (string \<Rightarrow> exc) \<Rightarrow> unit io" where
  "rename_file src dest exn d =
    (case sys_call ''rename'' d of
       (Inl (Runtime_error e), d') \<Rightarrow> (Inl (exn e), d')
     | (Inl e, d') \<Rightarrow> (Inl e, d')
     | (Inr _, d') \<Rightarrow>
        (case files d' src of
           None \<Rightarrow> (Inl (exn ''No such file or directory''), d')
         | Some f \<Rightarrow> (Inr (), d'\<lparr>files := ((files d')(src := None))(dest \<mapsto> f)\<rparr>)))"

text \<open>\<open>std::filesystem::remove\<close> with an ignored error code.\<close>

definition remove_file :: "string \<Rightarrow> disk \<Rightarrow> disk" where
  "remove_file p d = (case sys_call ''remove'' d of
     (Inl e, d') \<Rightarrow> d' | (Inr _, d') \<Rightarrow> d'\<lparr>files := (files d')(p := None)\<rparr>)"

definition is_regular_file :: "string \<Rightarrow> bool io" where
  "is_regular_file p = io_bind (sys_call ''status'') (\<lambda>_ d. (Inr (files d p \<noteq> None), d))"

section \<open>What the operations do\<close>

text \<open>Files other than \<open>p\<close> stay as they are.\<close>

definition only_file :: "string \<Rightarrow> disk \<Rightarrow> disk \<Rightarrow> bool" where
  "only_file p d d' \<longleftrightarrow> (\<forall>q. q \<noteq> p \<longrightarrow> files d' q = files d q)"

lemma only_file_trans: "only_file p d d1 \<Longrightarrow> only_file p d1 d2 \<Longrightarrow> only_file p d d2"
  by (simp add: only_file_def)

lemma only_file_refl [simp]: "only_file p d d"
  by (simp add: only_file_def)

lemma sys_open_truncated:
  assumes "sys_open True True p d = (r, d')"
  shows "only_file p d d' \<and> (r = Inr () \<longrightarrow> files d' p = Some []) \<and> (benign d \<longrightarrow> r = Inr () \<and> benign d')"
proof (rule sys_call_cases [OF assms [unfolded sys_open_def]])
  fix d1
  assume "files d1 = files d" "dirs d1 = dirs d" "benign d \<longrightarrow> benign d1"
    and "(case files d1 p of
           None \<Rightarrow> if True then (Inr (), set_content p [] d1)
                   else (Inl (system_error (''open('' @ p @ '')'') ''No such file or directory''), d1)
         | Some f \<Rightarrow> (Inr (), if True then set_content p [] d1 else d1)) = (r, d')"
  then show ?thesis by (auto simp: only_file_def split: option.splits)
qed (auto simp: only_file_def)

lemma open_out_result:
  assumes "open_out p d = (s, d')"
  shows "os_path s = p \<and> only_file p d d' \<and> (os_good s \<longrightarrow> files d' p = Some []) \<and> (benign d \<longrightarrow> os_good s \<and> benign d')"
proof -
  obtain r where "sys_open True True p d = (r, d')" "s = \<lparr>os_path = p, os_good = (r = Inr ())\<rparr>"
    using assms by (auto simp: open_out_def split: prod.splits)
  then show ?thesis using sys_open_truncated [of p d r d'] by simp
qed

lemma others_kept_only: "others_kept p d d' \<Longrightarrow> only_file p d d' \<and> (files d p \<noteq> None \<longrightarrow> files d' p \<noteq> None)"
  by (simp add: others_kept_def only_file_def)

lemma stream_write_result:
  assumes "stream_write bs s d = (s', d')" and "files d (os_path s) \<noteq> None"
  shows "os_path s' = os_path s \<and> only_file (os_path s) d d' \<and> files d' (os_path s) \<noteq> None
    \<and> (os_good s' \<longrightarrow> os_good s \<and> content d' (os_path s) = content d (os_path s) @ bs)
    \<and> (benign d \<longrightarrow> os_good s \<longrightarrow> os_good s' \<and> benign d')"
proof (cases "os_good s")
  case True
  obtain r where w: "pwrite_exact (os_path s) bs (length (content d (os_path s))) d = (r, d')" and s': "s' = s\<lparr>os_good := (r = Inr ())\<rparr>"
    using assms(1) True by (auto simp: stream_write_def split: prod.splits)
  have "patch f (length f) bs = f @ bs" for f by (simp add: patch_def)
  then have "file_write f (length f) bs = f @ bs" for f by (simp add: file_write_def)
  moreover obtain n where n: "content d' (os_path s) = file_write (content d (os_path s)) (length (content d (os_path s))) (take n bs)"
    "r = Inr () \<Longrightarrow> n = length bs" "benign d \<Longrightarrow> r = Inr () \<and> benign d'" "others_kept (os_path s) d d'"
    by (rule pwrite_exact_result [OF w]) blast
  ultimately have "r = Inr () \<Longrightarrow> content d' (os_path s) = content d (os_path s) @ bs" by simp
  then show ?thesis using n(3) others_kept_only [OF n(4)] s' True assms(2) by simp
qed (use assms in \<open>auto simp: stream_write_def\<close>)

text \<open>What a run of writes has done: \<open>last_checked\<close> says that the last of them is followed by a check.\<close>

definition writes_done :: "(bytes \<times> exc option) list \<Rightarrow> out_stream \<Rightarrow> disk \<Rightarrow> out_stream res \<Rightarrow> disk \<Rightarrow> bool" where
  "writes_done ws s d r d' \<longleftrightarrow> only_file (os_path s) d d'
    \<and> (\<forall>s'. r = Inr s' \<longrightarrow> os_good s' \<longrightarrow> os_good s \<and> files d' (os_path s) = Some (content d (os_path s) @ concat (map fst ws)))
    \<and> (\<forall>s'. r = Inr s' \<longrightarrow> ws \<noteq> [] \<longrightarrow> snd (last ws) \<noteq> None \<longrightarrow> os_good s')
    \<and> (benign d \<longrightarrow> os_good s \<longrightarrow> (\<exists>s'. r = Inr s' \<and> os_good s') \<and> benign d')"

lemma writes_done_step:
  assumes sw: "os_path s1 = os_path s \<and> only_file (os_path s) d d1 \<and> files d1 (os_path s) \<noteq> None
      \<and> (os_good s1 \<longrightarrow> os_good s \<and> content d1 (os_path s) = content d (os_path s) @ bs)
      \<and> (benign d \<longrightarrow> os_good s \<longrightarrow> os_good s1 \<and> benign d1)"
    and ih: "writes_done ws s1 d1 r d'" and nil: "ws = [] \<Longrightarrow> throw = None \<or> (\<forall>s'. r = Inr s' \<longrightarrow> os_good s')"
  shows "writes_done ((bs, throw) # ws) s d r d'"
proof -
  have path: "os_path s1 = os_path s" using sw by simp
  have "only_file (os_path s) d d'" using sw ih only_file_trans unfolding writes_done_def path by blast
  moreover have "os_good s \<and> files d' (os_path s) = Some (content d (os_path s) @ concat (map fst ((bs, throw) # ws)))"
    if "r = Inr s'" "os_good s'" for s'
  proof -
    have "os_good s1" "files d' (os_path s) = Some (content d1 (os_path s) @ concat (map fst ws))"
      using ih that unfolding writes_done_def path by blast+
    then show ?thesis using sw by simp
  qed
  moreover have "os_good s'" if "r = Inr s'" "snd (last ((bs, throw) # ws)) \<noteq> None" for s'
    using ih nil that unfolding writes_done_def by (cases "ws = []") auto
  moreover have "(\<exists>s'. r = Inr s' \<and> os_good s') \<and> benign d'" if "benign d" "os_good s"
    using sw ih that unfolding writes_done_def by blast
  ultimately show ?thesis unfolding writes_done_def by blast
qed

lemma stream_writes_done:
  assumes "stream_writes ws s d = (r, d')" and "files d (os_path s) \<noteq> None"
  shows "writes_done ws s d r d'"
  using assms
proof (induction ws arbitrary: s d)
  case Nil
  then show ?case by (auto simp: writes_done_def content_def)
next
  case (Cons w ws)
  obtain bs throw where bs: "w = (bs, throw)" by (metis surj_pair)
  obtain s1 d1 where w: "stream_write bs s d = (s1, d1)" by (metis surj_pair)
  note sw = stream_write_result [OF w Cons.prems(2)]
  show ?case
  proof (cases "throw = None \<or> os_good s1")
    case True
    then have run: "stream_writes ws s1 d1 = (r, d')" using Cons.prems(1) w bs by (auto split: option.splits)
    have "files d1 (os_path s1) \<noteq> None" using sw by simp
    then have "writes_done ws s1 d1 r d'" by (rule Cons.IH [OF run])
    moreover have "throw = None \<or> (\<forall>s'. r = Inr s' \<longrightarrow> os_good s')" if "ws = []" using run True that by auto
    ultimately show ?thesis unfolding bs by (rule writes_done_step [OF sw])
  next
    case False
    then have "r = Inl (the throw)" "d' = d1" using Cons.prems(1) w bs by auto
    then show ?thesis using sw False unfolding writes_done_def by simp
  qed
qed

lemma write_stream_file_result:
  assumes "write_stream_file p e ws d = (r, d')" and "ws \<noteq> []" and "snd (last ws) \<noteq> None"
  shows "only_file p d d' \<and> (r = Inr () \<longrightarrow> files d' p = Some (concat (map fst ws))) \<and> (benign d \<longrightarrow> r = Inr () \<and> benign d')"
proof -
  obtain s d1 where o: "open_out p d = (s, d1)" by (metis surj_pair)
  note out = open_out_result [OF o]
  show ?thesis
  proof (cases "os_good s")
    case True
    obtain q where w: "stream_writes ws s d1 = (q, d')" "r = res_bind q (\<lambda>_. Inr ())"
      using assms(1) o True by (auto simp: write_stream_file_def split: prod.splits)
    have "files d1 p = Some []" using out True by simp
    then have "content d1 p = []" "files d1 (os_path s) \<noteq> None" using out by (simp_all add: content_def)
    note wd = stream_writes_done [OF w(1) this(2), unfolded writes_done_def]
    have "only_file p d d'" using wd out only_file_trans [of p d d1 d'] by simp
    moreover have "files d' p = Some (concat (map fst ws))" if "r = Inr ()"
    proof -
      obtain s' where "q = Inr s'" using w(2) \<open>r = Inr ()\<close> by (cases q) simp_all
      then show ?thesis using wd assms(2,3) out \<open>content d1 p = []\<close> by simp
    qed
    moreover have "r = Inr () \<and> benign d'" if "benign d" using wd out that True w(2) by auto
    ultimately show ?thesis by simp
  next
    case False
    then show ?thesis using assms(1) o out by (auto simp: write_stream_file_def)
  qed
qed

lemma rename_file_result:
  assumes "rename_file src dest exn d = (r, d')"
  shows "(r = Inr () \<longrightarrow> (\<exists>f. files d src = Some f \<and> files d' = (files d)(src := None, dest \<mapsto> f))) \<and> (r \<noteq> Inr () \<longrightarrow> files d' = files d)
    \<and> (benign d \<longrightarrow> files d src \<noteq> None \<longrightarrow> r = Inr ()) \<and> (benign d \<longrightarrow> benign d')"
proof -
  obtain c d1 where c: "sys_call ''rename'' d = (c, d1)" by (metis surj_pair)
  note res = sys_call_result [OF c]
  have "benign (d1\<lparr>files := f\<rparr>) = benign d1" for f by (simp add: benign_def)
  then show ?thesis using assms c res
    by (auto simp: rename_file_def split: sum.splits option.splits exc.splits)
qed

lemma remove_file_result: "files (remove_file p d) q = files d q \<or> q = p \<and> files (remove_file p d) p = None"
proof -
  obtain c d1 where c: "sys_call ''remove'' d = (c, d1)" by (metis surj_pair)
  show ?thesis using sys_call_result(1) [OF c] by (cases c) (simp_all add: remove_file_def c)
qed

lemma remove_file_benign: "benign d \<Longrightarrow> benign (remove_file p d) \<and> files (remove_file p d) = (files d)(p := None)"
proof -
  assume b: "benign d"
  obtain c d1 where c: "sys_call ''remove'' d = (c, d1)" by (metis surj_pair)
  have "benign (d1\<lparr>files := f\<rparr>) = benign d1" for f by (simp add: benign_def)
  then show ?thesis using sys_call_result [OF c] b c by (auto simp: remove_file_def)
qed

lemma stream_read_result:
  assumes "stream_read p pos n d = (r, d')"
  shows "files d' = files d \<and> (\<forall>bs. r = Some bs \<longrightarrow> bs = segment (content d p) pos n \<and> length bs = n)
    \<and> (benign d \<longrightarrow> benign d' \<and> (pos + n \<le> length (content d p) \<longrightarrow> r = Some (segment (content d p) pos n)))"
proof -
  obtain q where q: "pread_exact p n pos d = (q, d')" and r: "r = (case q of Inr bs \<Rightarrow> Some bs | Inl e \<Rightarrow> None)"
    using assms by (auto simp: stream_read_def split: prod.splits sum.splits)
  show ?thesis using pread_exact_result [OF q] r by (cases q) auto
qed

lemma stream_more_result:
  assumes "stream_more p pos d = (b, d')"
  shows "files d' = files d \<and> (b \<longrightarrow> pos < length (content d p)) \<and> (benign d \<longrightarrow> benign d' \<and> (b \<longleftrightarrow> pos < length (content d p)))"
proof -
  obtain r' where r: "stream_read p pos 1 d = (r', d')" "b = (r' \<noteq> None)"
    using assms by (auto simp: stream_more_def split: prod.splits)
  have seg: "length (segment (content d p) pos 1) = 1 \<Longrightarrow> pos < length (content d p)" by (simp add: segment_def)
  note res = stream_read_result [OF r(1)]
  show ?thesis
  proof (cases r')
    case None
    then show ?thesis using res r(2) by (simp add: Suc_le_eq)
  next
    case (Some bs)
    then have "bs = segment (content d p) pos 1" "length bs = 1" using res by blast+
    then have "pos < length (content d p)" using seg by simp
    then show ?thesis using res r(2) Some by simp
  qed
qed

lemma open_in_result:
  assumes "open_in p d = (b, d')"
  shows "files d' = files d \<and> (b \<longrightarrow> files d p \<noteq> None) \<and> (benign d \<longrightarrow> benign d') \<and> (benign d \<longrightarrow> files d p \<noteq> None \<longrightarrow> b)"
proof -
  obtain r where "sys_open False False p d = (r, d')" "b = (r = Inr ())" using assms by (auto simp: open_in_def split: prod.splits)
  then show ?thesis using sys_open_existing [of p d r d'] by auto
qed

end
