(* ===== verification/Quantizer_File.thy ===== *)
theory Quantizer_File
  imports Quantizer File_Streams
begin

text \<open>
  The model files of \<open>RecastQuantizer\<close>: \<open>save\<close> and \<open>load\<close> of src/src/quantizer.cpp. The clock reading
  in the name of the temporary file is the argument \<open>stamp\<close>.
\<close>

section \<open>Header fields\<close>

definition model_magic :: bytes where
  "model_magic = [0x52, 0x43, 0x51, 0x4D, 0x4F, 0x44, 0x4C, 0x31]"

definition model_version :: u32 where "model_version = 1"
definition endian_marker :: u32 where "endian_marker = 0x01020304"
definition maximum_model_bytes :: nat where "maximum_model_bytes = 2 ^ 30"

definition checksum :: "bytes \<Rightarrow> u64" where
  "checksum bs = foldl (\<lambda>hash byte. (hash XOR ucast byte) * 1099511628211) 1469598103934665603 bs"

fun grouping_code :: "grouping_mode \<Rightarrow> u32" where
  "grouping_code Uniform = 0" | "grouping_code Uneven = 1"

fun transform_code :: "transform_mode \<Rightarrow> u32" where
  "transform_code TransformNone = 0" | "transform_code Pca = 1" | "transform_code ParametricOpq = 2"

fun metric_code :: "distance_metric \<Rightarrow> u32" where
  "metric_code SquaredL2 = 0" | "metric_code InnerProduct = 1" | "metric_code Cosine = 2"

fun centering_code :: "centering_mode \<Rightarrow> u32" where
  "centering_code CenteringNone = 0" | "centering_code Mean = 1"

definition decode_grouping :: "u32 \<Rightarrow> grouping_mode res" where
  "decode_grouping v = (if v = grouping_code Uniform then Inr Uniform else if v = grouping_code Uneven then Inr Uneven
     else Inl (Runtime_error ''invalid persisted grouping mode''))"

definition decode_transform :: "u32 \<Rightarrow> transform_mode res" where
  "decode_transform v = (if v = transform_code TransformNone then Inr TransformNone else if v = transform_code Pca then Inr Pca
     else if v = transform_code ParametricOpq then Inr ParametricOpq else Inl (Runtime_error ''invalid persisted transform mode''))"

definition decode_metric :: "u32 \<Rightarrow> distance_metric res" where
  "decode_metric v = (if v = metric_code SquaredL2 then Inr SquaredL2 else if v = metric_code InnerProduct then Inr InnerProduct
     else if v = metric_code Cosine then Inr Cosine else Inl (Runtime_error ''invalid persisted distance metric''))"

definition decode_centering :: "u32 \<Rightarrow> centering_mode res" where
  "decode_centering v = (if v = centering_code CenteringNone then Inr CenteringNone else if v = centering_code Mean then Inr Mean
     else Inl (Runtime_error ''invalid persisted centering mode''))"

section \<open>Saving\<close>

definition write_config :: "quantizer_config \<Rightarrow> io_writer \<Rightarrow> io_writer res" where
  "write_config c =
    write_seq (write_size (qc_dimension c)) (write_seq (write_size (qc_subquantizers c))
    (write_seq (write_scalar le32 (grouping_code (qc_grouping c))) (write_seq (write_scalar le32 (transform_code (qc_transform c)))
    (write_seq (write_scalar le32 (metric_code (qc_metric c))) (write_scalar le32 (centering_code (qc_centering c)))))))"

definition write_rotation :: "faiss_ops \<Rightarrow> linear_transform option \<Rightarrow> io_writer \<Rightarrow> io_writer res" where
  "write_rotation F R =
    write_seq (write_flag (R \<noteq> None)) (case R of Some t \<Rightarrow> write_bytes (fo_write_transform F t) | None \<Rightarrow> Inr)"

definition write_backend :: "faiss_ops \<Rightarrow> direction_pq \<Rightarrow> io_writer \<Rightarrow> io_writer res" where
  "write_backend F pq =
    (case pq of
       Uniform_backend c \<Rightarrow> write_seq (write_scalar (\<lambda>b :: u8. [b]) 0) (write_bytes (fq_write (fo_pq F) c))
     | Uneven_backend U \<Rightarrow> write_seq (write_scalar (\<lambda>b :: u8. [b]) 1) (uneven_write (fo_pq F) U))"

definition write_params :: "metadata_decode_parameters \<Rightarrow> io_writer \<Rightarrow> io_writer res" where
  "write_params p =
    write_seq (write_scalar le32 (norm_max p)) (write_seq (write_scalar le32 (norm_step p))
    (write_seq (write_scalar le32 (scale_max p)) (write_scalar le32 (scale_step p))))"

definition write_payload :: "faiss_ops \<Rightarrow> recast_quantizer \<Rightarrow> io_writer \<Rightarrow> io_writer res" where
  "write_payload F q =
    write_seq (write_config (rq_config q)) (write_seq (write_vector le32 4 (rq_mean q))
    (write_seq (write_rotation F (rq_rotation q)) (write_seq (write_backend F (rq_pq q)) (write_params (rq_params q)))))"

text \<open>The directory part of a path.\<close>

definition parent_path :: "string \<Rightarrow> string" where
  "parent_path p = rev (tl (dropWhile (\<lambda>c. c \<noteq> CHR ''/'') (rev p)))"

text \<open>The writes of the model file, with the exception of the check that follows each of them.\<close>

definition model_writes :: "bytes \<Rightarrow> (bytes \<times> exc option) list" where
  "model_writes payload =
    (let failed = Some (Runtime_error ''failed to write quantizer model'')
     in [(model_magic, None), (le32 model_version, failed), (le32 endian_marker, failed),
         (le64 (of_nat (length payload)), failed), (le64 (checksum payload), failed)]
        @ (if payload = [] then [] else [(payload, None)]) @ [([], Some (Runtime_error ''quantizer model write failed''))])"

text \<open>What happens inside the \<open>try\<close> block.\<close>

definition publish_model :: "string \<Rightarrow> string \<Rightarrow> bytes \<Rightarrow> unit io" where
  "publish_model temporary path payload =
    io_bind (write_stream_file temporary (Runtime_error (''cannot create quantizer model: '' @ path)) (model_writes payload))
      (\<lambda>_. rename_file temporary path Runtime_error)"

definition make_parent :: "string \<Rightarrow> unit io" where
  "make_parent path = (if parent_path path \<noteq> [] then create_directories (parent_path path) else io_return ())"

definition quantizer_save :: "faiss_ops \<Rightarrow> string \<Rightarrow> string \<Rightarrow> recast_quantizer \<Rightarrow> unit io" where
  "quantizer_save F stamp path q =
    (if \<not> rq_trained q \<or> path = [] then io_throw (Invalid_argument ''a trained quantizer and nonempty model path are required'')
     else io_bind (io_lift (write_payload F q vector_writer)) (\<lambda>w.
          io_bind (make_parent path) (\<lambda>_ d.
          let temporary = path @ ''.tmp.'' @ stamp
          in case publish_model temporary path (wr_data w) d of
               (Inl e, d') \<Rightarrow> (Inl e, remove_file temporary d')
             | (Inr _, d') \<Rightarrow> (Inr (), d'))))"

section \<open>Loading\<close>

definition read_config :: "io_reader \<Rightarrow> (quantizer_config \<times> io_reader) res" where
  "read_config =
    read_bind (read_size (2 ^ 20) ''quantizer dimension'') (\<lambda>d.
    read_bind (read_size d ''quantizer subquantizers'') (\<lambda>M.
    read_bind (read_scalar of_le32 4) (\<lambda>g. read_bind (read_lift (decode_grouping g)) (\<lambda>grouping.
    read_bind (read_scalar of_le32 4) (\<lambda>t. read_bind (read_lift (decode_transform t)) (\<lambda>transform.
    read_bind (read_scalar of_le32 4) (\<lambda>m. read_bind (read_lift (decode_metric m)) (\<lambda>metric.
    read_bind (read_scalar of_le32 4) (\<lambda>c. read_bind (read_lift (decode_centering c)) (\<lambda>centering.
      read_return \<lparr>qc_dimension = d, qc_subquantizers = M, qc_grouping = grouping, qc_transform = transform,
        qc_metric = metric, qc_centering = centering\<rparr>))))))))))"

definition rotation_ok :: "nat \<Rightarrow> linear_transform \<Rightarrow> bool" where
  "rotation_ok d t \<longleftrightarrow> lt_trained t \<and> lt_d_in t = d \<and> lt_d_out t = d \<and> length (lt_A t) = d * d \<and> lt_orthonormal t"

definition read_rotation :: "faiss_ops \<Rightarrow> quantizer_config \<Rightarrow> io_reader \<Rightarrow> (linear_transform option \<times> io_reader) res" where
  "read_rotation F c =
    read_bind read_flag (\<lambda>has_rotation.
      if has_rotation \<noteq> (qc_transform c \<noteq> TransformNone)
      then read_lift (Inl (Runtime_error ''persisted transform presence is inconsistent''))
      else if \<not> has_rotation then read_return None
      else read_bind (fo_read_transform F) (\<lambda>v.
        case v of
          Linear_transform t \<Rightarrow>
            if rotation_ok (qc_dimension c) t then read_return (Some t)
            else read_lift (Inl (Runtime_error ''persisted Recast transform is incompatible''))
        | Other_transform \<Rightarrow> read_lift (Inl (Runtime_error ''persisted Recast transform is incompatible''))))"

definition uniform_ok :: "nat \<Rightarrow> nat \<Rightarrow> codebook \<Rightarrow> bool" where
  "uniform_ok d M c \<longleftrightarrow> pq_d c = d \<and> pq_M c = M \<and> pq_nbits c = 4 \<and> pq_ksub c = 16 \<and> pq_code_size c = M div 2
    \<and> length (pq_centroids c) = d * 16"

definition read_backend :: "faiss_ops \<Rightarrow> quantizer_config \<Rightarrow> io_reader \<Rightarrow> (direction_pq \<times> io_reader) res" where
  "read_backend F c =
    read_bind (read_scalar hd 1) (\<lambda>backend :: u8.
      if backend \<noteq> (if qc_grouping c = Uniform then 0 else 1)
      then read_lift (Inl (Runtime_error ''persisted direction-quantizer backend is inconsistent''))
      else if backend = 0
      then read_bind (fq_read (fo_pq F)) (\<lambda>pq.
        if uniform_ok (qc_dimension c) (qc_subquantizers c) pq then read_return (Uniform_backend pq)
        else read_lift (Inl (Runtime_error ''persisted uniform PQ4 codebook is incompatible'')))
      else read_bind (uneven_read (fo_pq F)) (\<lambda>U.
        if up_d U \<noteq> qc_dimension c \<or> up_M U \<noteq> qc_subquantizers c \<or> up_nbits U \<noteq> 4
        then read_lift (Inl (Runtime_error ''persisted uneven PQ4 codebook is incompatible''))
        else read_return (Uneven_backend U)))"

definition params_ok :: "metadata_decode_parameters \<Rightarrow> bool" where
  "params_ok p \<longleftrightarrow> f32_is_finite (norm_max p) \<and> \<not> f32_lt (norm_max p) 0
    \<and> f32_is_finite (norm_step p) \<and> \<not> f32_le (norm_step p) 0
    \<and> f32_is_finite (scale_max p) \<and> \<not> f32_lt (scale_max p) 0
    \<and> f32_is_finite (scale_step p) \<and> \<not> f32_le (scale_step p) 0"

definition read_params :: "io_reader \<Rightarrow> (metadata_decode_parameters \<times> io_reader) res" where
  "read_params =
    read_bind (read_scalar of_le32 4) (\<lambda>nmax. read_bind (read_scalar of_le32 4) (\<lambda>nstep.
    read_bind (read_scalar of_le32 4) (\<lambda>smax. read_bind (read_scalar of_le32 4) (\<lambda>sstep.
      let p = \<lparr>norm_max = nmax, norm_step = nstep, scale_max = smax, scale_step = sstep\<rparr>
      in if params_ok p then read_return p else read_lift (Inl (Runtime_error ''persisted metadata ranges are invalid''))))))"

definition read_payload :: "faiss_ops \<Rightarrow> io_reader \<Rightarrow> (recast_quantizer \<times> io_reader) res" where
  "read_payload F =
    read_bind read_config (\<lambda>c.
    read_bind (read_lift (quantizer_new F c)) (\<lambda>q0.
    read_bind (read_vector of_le32 4 (qc_dimension c) ''quantizer mean'') (\<lambda>mean.
      if length mean \<noteq> qc_dimension c then read_lift (Inl (Runtime_error ''persisted quantizer mean has wrong dimension''))
      else read_bind (read_rotation F c) (\<lambda>R. read_bind (read_backend F c) (\<lambda>pq. read_bind read_params (\<lambda>p.
        read_return (q0\<lparr>rq_mean := mean, rq_rotation := R, rq_pq := pq, rq_params := p\<rparr>)))))))"

definition load_payload :: "faiss_ops \<Rightarrow> bytes \<Rightarrow> recast_quantizer res" where
  "load_payload F payload =
    res_bind (read_payload F \<lparr>rd_data = payload, rd_pos = 0\<rparr>) (\<lambda>(q, r).
      if rd_pos r \<noteq> length (rd_data r) then Inl (Runtime_error ''Recast quantizer model contains trailing state'')
      else Inr (q\<lparr>rq_trained := True\<rparr>))"

definition read_file_field :: "string \<Rightarrow> nat \<Rightarrow> nat \<Rightarrow> string \<Rightarrow> bytes io" where
  "read_file_field path pos n message d =
    (case stream_read path pos n d of
       (None, d') \<Rightarrow> (Inl (Runtime_error message), d') | (Some bs, d') \<Rightarrow> (Inr bs, d'))"

text \<open>The payload of \<open>n\<close> bytes behind the header, with its length and its checksum tested.\<close>

definition read_model_body :: "string \<Rightarrow> nat \<Rightarrow> u64 \<Rightarrow> bytes io" where
  "read_model_body path n expected_sum =
    io_bind (if n = 0 then io_return [] else read_file_field path 32 n ''Recast quantizer model length is inconsistent'') (\<lambda>payload d.
      case stream_more path (32 + n) d of (extra, d') \<Rightarrow>
        if extra then (Inl (Runtime_error ''Recast quantizer model length is inconsistent''), d')
        else if checksum payload \<noteq> expected_sum then (Inl (Runtime_error ''Recast quantizer model checksum mismatch''), d')
        else (Inr payload, d'))"

text \<open>The checked payload of a model file.\<close>

definition read_model :: "string \<Rightarrow> bytes io" where
  "read_model path d =
    (case open_in path d of (opened, d1) \<Rightarrow>
      if \<not> opened then (Inl (Runtime_error (''cannot open quantizer model: '' @ path)), d1) else
      io_bind (read_file_field path 0 8 ''invalid Recast quantizer model magic'') (\<lambda>magic.
      if magic \<noteq> model_magic then io_throw (Runtime_error ''invalid Recast quantizer model magic'') else
      io_bind (read_file_field path 8 4 ''truncated quantizer model header'') (\<lambda>version.
      if of_le32 version \<noteq> model_version then io_throw (Runtime_error ''unsupported Recast quantizer model version'') else
      io_bind (read_file_field path 12 4 ''truncated quantizer model header'') (\<lambda>endian.
      if of_le32 endian \<noteq> endian_marker then io_throw (Runtime_error ''Recast quantizer model has incompatible endianness'') else
      io_bind (read_file_field path 16 8 ''truncated quantizer model header'') (\<lambda>size_bytes.
      io_bind (read_file_field path 24 8 ''truncated quantizer model header'') (\<lambda>sum_bytes.
      let n = unat (of_le64 size_bytes)
      in if n > maximum_model_bytes \<or> n > size_max then io_throw (Runtime_error ''Recast quantizer model payload is too large'') else
      read_model_body path n (of_le64 sum_bytes)))))) d1)"

definition quantizer_load :: "faiss_ops \<Rightarrow> string \<Rightarrow> recast_quantizer io" where
  "quantizer_load F path =
    (if path = [] then io_throw (Invalid_argument ''quantizer model path must not be empty'')
     else io_bind (read_model path) (\<lambda>payload. io_lift (load_payload F payload)))"

end
