(* ===== verification/Index_Checkpoint.thy ===== *)
theory Index_Checkpoint
  imports List_Index Quantizer_File
begin

text \<open>
  Checkpoints of the external index: \<open>checkpoint\<close> and \<open>load_checkpoint_locked\<close> of
  src/adapters/external\_list\_ivf.cpp. The vectors themselves are in the list files and in the directory;
  a checkpoint adds the quantizer, the sizes of the lists, their packed codes and metadata, and a
  manifest, whose renaming publishes all of them. The member \<open>quantizer_\<close> is an argument, and \<open>stamp\<close> is the
  clock reading in the name of the temporary file of its \<open>save\<close>.
\<close>

section \<open>Paths and the manifest\<close>

definition checkpoint_path :: "index_options \<Rightarrow> string \<Rightarrow> string" where
  "checkpoint_path opts name = path_join (xo_storage_root opts) name"

definition generation_path :: "index_options \<Rightarrow> string \<Rightarrow> nat \<Rightarrow> string" where
  "generation_path opts prefix generation =
    path_join (xo_storage_root opts) (prefix @ ''.'' @ decimal generation @ ''.bin'')"

abbreviation sizes_path :: "index_options \<Rightarrow> nat \<Rightarrow> string" where
  "sizes_path opts \<equiv> generation_path opts ''list_sizes''"

abbreviation postings_path :: "index_options \<Rightarrow> nat \<Rightarrow> string" where
  "postings_path opts \<equiv> generation_path opts ''postings_no_ids''"

record checkpoint_manifest =
  mf_magic :: bytes
  mf_format_version :: nat
  mf_dimension :: nat
  mf_subquantizers :: nat
  mf_nlist :: nat
  mf_page_size :: nat
  mf_payload_bytes :: nat
  mf_payload_format :: nat
  mf_record_stride :: nat
  mf_records_per_page :: nat
  mf_next_id :: nat
  mf_active_count :: nat
  mf_posting_block_size :: nat
  mf_metadata_layout_version :: nat
  mf_generation :: nat

definition manifest_magic :: bytes where
  "manifest_magic = [0x52, 0x43, 0x58, 0x4C, 0x49, 0x53, 0x54, 0x31]"

fun payload_code :: "payload_format \<Rightarrow> nat" where
  "payload_code Opaque_payload = 0" | "payload_code Float32_payload = 1"
| "payload_code UInt8_payload = 2" | "payload_code Int8_payload = 3"

text \<open>The manifest as it lies in memory: 120 bytes without padding.\<close>

definition manifest_fields :: "checkpoint_manifest \<Rightarrow> nat list" where
  "manifest_fields m =
    [mf_format_version m, mf_dimension m, mf_subquantizers m, mf_nlist m, mf_page_size m, mf_payload_bytes m, mf_payload_format m,
     mf_record_stride m, mf_records_per_page m, mf_next_id m, mf_active_count m, mf_posting_block_size m,
     mf_metadata_layout_version m, mf_generation m]"

definition manifest_bytes :: "checkpoint_manifest \<Rightarrow> bytes" where
  "manifest_bytes m = mf_magic m @ concat (map (\<lambda>v. le64 (of_nat v)) (manifest_fields m))"

definition manifest_of :: "bytes \<Rightarrow> checkpoint_manifest" where
  "manifest_of bs =
    (let field = (\<lambda>k. unat (of_le64 (segment bs (8 + 8 * k) 8)))
     in \<lparr>mf_magic = take 8 bs, mf_format_version = field 0, mf_dimension = field 1, mf_subquantizers = field 2, mf_nlist = field 3,
         mf_page_size = field 4, mf_payload_bytes = field 5, mf_payload_format = field 6, mf_record_stride = field 7,
         mf_records_per_page = field 8, mf_next_id = field 9, mf_active_count = field 10, mf_posting_block_size = field 11,
         mf_metadata_layout_version = field 12, mf_generation = field 13\<rparr>)"

definition current_manifest :: "list_index \<Rightarrow> nat \<Rightarrow> checkpoint_manifest" where
  "current_manifest ix generation =
    \<lparr>mf_magic = manifest_magic, mf_format_version = 1, mf_dimension = qz_dimension (ix_quantizer ix),
     mf_subquantizers = ix_subquantizers ix, mf_nlist = length (ix_lists ix), mf_page_size = page_size (ix_store ix),
     mf_payload_bytes = payload_bytes (ix_store ix), mf_payload_format = payload_code (xo_payload_format (ix_options ix)),
     mf_record_stride = st_stride (ix_store ix), mf_records_per_page = st_per_page (ix_store ix),
     mf_next_id = ix_next_id ix, mf_active_count = ix_active ix, mf_posting_block_size = block_lanes,
     mf_metadata_layout_version = 1, mf_generation = generation\<rparr>"

section \<open>Writing\<close>

text \<open>
  \<open>write_binary\<close>: the byte count cannot overflow where it is called, since one element or a byte buffer
  is written. An empty buffer is not written at all.
\<close>

definition write_binary :: "bytes \<Rightarrow> (bytes \<times> exc option) list" where
  "write_binary bs = (if bs = [] then [] else [(bs, Some (Runtime_error ''checkpoint write failed''))])"

definition replace_file :: "string \<Rightarrow> string \<Rightarrow> unit io" where
  "replace_file temporary destination =
    rename_file temporary destination (\<lambda>err. Runtime_error (''cannot publish checkpoint file '' @ destination @ '': '' @ err))"

text \<open>One block of \<open>checkpoint\<close>: create, write, flush and close \<open>temporary\<close>.\<close>

definition checkpoint_file :: "string \<Rightarrow> string \<Rightarrow> (out_stream \<Rightarrow> out_stream io) \<Rightarrow> unit io" where
  "checkpoint_file temporary name body d =
    (case open_out temporary d of (s, d1) \<Rightarrow>
      if \<not> os_good s then (Inl (Runtime_error (''cannot create '' @ name @ '' checkpoint'')), d1)
      else io_bind (io_bind (body s) (stream_writes [([], Some (Runtime_error (''cannot flush '' @ name @ '' checkpoint'')))]))
        (\<lambda>_. io_return ()) d1)"

definition write_sizes :: "memory_list list \<Rightarrow> out_stream \<Rightarrow> out_stream io" where
  "write_sizes mls = stream_writes (concat (map (\<lambda>ml. write_binary (le32 (ml_size ml))) mls))"

text \<open>The bytes of a list: those of its padded rows, if its buffers hold them.\<close>

definition list_image :: "nat \<Rightarrow> memory_list \<Rightarrow> (bytes \<times> bytes) res" where
  "list_image code_bytes ml =
    res_bind (checked_multiply (unat (ml_padded ml)) code_bytes ''checkpoint logical code size overflows'') (\<lambda>logical_codes.
    res_bind (packed_metadata_size_bbs32 (unat (ml_padded ml))) (\<lambda>logical_metadata.
      if logical_codes > length (ml_codes ml) \<or> logical_metadata > length (ml_metadata ml)
      then Inl (Logic_error ''packed list is shorter than its logical checkpoint'')
      else Inr (take logical_codes (ml_codes ml), take logical_metadata (ml_metadata ml))))"

fun write_postings :: "nat \<Rightarrow> memory_list list \<Rightarrow> out_stream \<Rightarrow> out_stream io" where
  "write_postings code_bytes [] s = io_return s"
| "write_postings code_bytes (ml # mls) s =
    io_bind (io_lift (list_image code_bytes ml)) (\<lambda>(codes, metadata).
    io_bind (stream_writes (write_binary codes @ write_binary metadata) s) (write_postings code_bytes mls))"

definition write_manifest :: "checkpoint_manifest \<Rightarrow> out_stream \<Rightarrow> out_stream io" where
  "write_manifest m = stream_writes (write_binary (manifest_bytes m))"

text \<open>A block of \<open>checkpoint\<close> followed by the renaming of its file.\<close>

definition publish_file :: "string \<Rightarrow> string \<Rightarrow> (out_stream \<Rightarrow> out_stream io) \<Rightarrow> unit io" where
  "publish_file destination name body =
    io_bind (checkpoint_file (destination @ ''.tmp'') name body) (\<lambda>_. replace_file (destination @ ''.tmp'') destination)"

definition checkpoint_guard :: "list_index \<Rightarrow> unit io" where
  "checkpoint_guard ix =
    (if \<not> ix_trained ix then io_throw (Logic_error ''cannot checkpoint an untrained external-list index'')
     else io_bind (is_regular_file (checkpoint_path (ix_options ix) ''router.faiss'')) (\<lambda>present.
       if \<not> present then io_throw (Logic_error ''persisted external-list router is missing'')
       else create_directories (xo_storage_root (ix_options ix))))"

definition publish_quantizer :: "faiss_ops \<Rightarrow> string \<Rightarrow> recast_quantizer \<Rightarrow> list_index \<Rightarrow> unit io" where
  "publish_quantizer F stamp q ix =
    (let final = checkpoint_path (ix_options ix) ''quantizer.recast''; temporary = checkpoint_path (ix_options ix) ''quantizer.recast.tmp''
     in io_bind (quantizer_save F stamp temporary q) (\<lambda>_. replace_file temporary final))"

definition publish_state :: "list_index \<Rightarrow> nat \<Rightarrow> unit io" where
  "publish_state ix generation =
    (let opts = ix_options ix in
     io_bind (publish_file (sizes_path opts generation) ''list_sizes'' (write_sizes (ix_lists ix))) (\<lambda>_.
     io_bind (publish_file (postings_path opts generation) ''postings'' (write_postings (code_size ix) (ix_lists ix))) (\<lambda>_.
       publish_file (checkpoint_path opts ''manifest.bin'') ''manifest'' (write_manifest (current_manifest ix generation)))))"

definition next_generation :: "list_index \<Rightarrow> nat" where
  "next_generation ix = (ix_generation ix + 1) mod 2 ^ 64"

definition remove_generation :: "index_options \<Rightarrow> nat \<Rightarrow> disk \<Rightarrow> disk" where
  "remove_generation opts generation d =
    (if generation \<noteq> 0 then remove_file (postings_path opts generation) (remove_file (sizes_path opts generation) d) else d)"

definition index_checkpoint :: "faiss_ops \<Rightarrow> string \<Rightarrow> recast_quantizer \<Rightarrow> list_index \<Rightarrow> disk \<Rightarrow> unit res \<times> list_index \<times> disk" where
  "index_checkpoint F stamp q ix d =
    (case io_bind (checkpoint_guard ix) (\<lambda>_. io_bind (publish_quantizer F stamp q ix) (\<lambda>_.
        if next_generation ix = 0 then io_throw (Overflow_error ''checkpoint generation overflows'')
        else publish_state ix (next_generation ix))) d of
       (Inl e, d') \<Rightarrow> (Inl e, ix, d')
     | (Inr _, d') \<Rightarrow> (Inr (), ix\<lparr>ix_generation := next_generation ix\<rparr>, remove_generation (ix_options ix) (ix_generation ix) d'))"

section \<open>Reading\<close>

definition read_binary :: "string \<Rightarrow> nat \<Rightarrow> nat \<Rightarrow> bytes io" where
  "read_binary path pos n =
    (if n = 0 then io_return [] else read_file_field path pos n ''checkpoint file is truncated'')"

definition reject_more :: "string \<Rightarrow> nat \<Rightarrow> string \<Rightarrow> unit io" where
  "reject_more path pos trailing d =
    (case stream_more path pos d of (extra, d') \<Rightarrow> (if extra then Inl (Runtime_error trailing) else Inr (), d'))"

definition open_checkpoint :: "string \<Rightarrow> string \<Rightarrow> unit io" where
  "open_checkpoint path missing d =
    (case open_in path d of (opened, d') \<Rightarrow> (if opened then Inr () else Inl (Runtime_error missing), d'))"

text \<open>A file of exactly \<open>n\<close> bytes.\<close>

definition read_checkpoint :: "string \<Rightarrow> nat \<Rightarrow> string \<Rightarrow> string \<Rightarrow> bytes io" where
  "read_checkpoint path n missing trailing =
    io_bind (open_checkpoint path missing) (\<lambda>_. io_bind (read_binary path 0 n) (\<lambda>bs.
    io_bind (reject_more path n trailing) (\<lambda>_. io_return bs)))"

definition manifest_ok :: "list_index \<Rightarrow> checkpoint_manifest \<Rightarrow> bool" where
  "manifest_ok ix m \<longleftrightarrow> mf_magic m = manifest_magic \<and> mf_format_version m = 1
    \<and> mf_dimension m = qz_dimension (ix_quantizer ix) \<and> mf_subquantizers m = ix_subquantizers ix
    \<and> mf_nlist m = length (ix_lists ix) \<and> mf_page_size m = page_size (ix_store ix)
    \<and> mf_payload_bytes m = payload_bytes (ix_store ix)
    \<and> mf_payload_format m = payload_code (xo_payload_format (ix_options ix))
    \<and> mf_record_stride m = st_stride (ix_store ix) \<and> mf_records_per_page m = st_per_page (ix_store ix)
    \<and> mf_posting_block_size m = block_lanes \<and> mf_metadata_layout_version m = 1
    \<and> mf_generation m \<noteq> 0 \<and> mf_next_id m \<le> u32_max \<and> mf_active_count m \<le> size_max"

definition validate_size :: "list_index \<Rightarrow> u32 list \<Rightarrow> nat \<Rightarrow> nat \<Rightarrow> nat io" where
  "validate_size ix sizes l active_sum =
    io_bind (io_lift (checked_add active_sum (unat (sizes ! l)) ''checkpoint active count overflows'')) (\<lambda>active.
    io_bind (validate_list_file (ix_store ix) (of_nat l) (sizes ! l)) (\<lambda>_. io_return active))"

fun read_postings :: "string \<Rightarrow> nat \<Rightarrow> u32 list \<Rightarrow> nat \<Rightarrow> memory_list list io" where
  "read_postings path code_bytes [] pos =
    io_bind (reject_more path pos ''external-list postings have trailing bytes'') (\<lambda>_. io_return [])"
| "read_postings path code_bytes (n # ns) pos =
    io_bind (io_lift (round_up (unat n) block_lanes)) (\<lambda>rounded.
    let padded = of_nat rounded :: u32 in
    io_bind (io_lift (checked_multiply (unat padded) code_bytes ''checkpoint code size overflows'')) (\<lambda>cb.
    io_bind (io_lift (packed_metadata_size_bbs32 (unat padded))) (\<lambda>mb.
    io_bind (read_binary path pos cb) (\<lambda>codes.
    io_bind (read_binary path (pos + cb) mb) (\<lambda>metadata.
    io_bind (read_postings path code_bytes ns (pos + cb + mb)) (\<lambda>mls.
      io_return (\<lparr>ml_codes = codes, ml_metadata = metadata, ml_size = n, ml_padded = padded\<rparr> # mls)))))))"

definition read_manifest :: "list_index \<Rightarrow> checkpoint_manifest io" where
  "read_manifest ix =
    io_bind (is_regular_file (checkpoint_path (ix_options ix) ''router.faiss'')) (\<lambda>present.
    if \<not> present then io_throw (Runtime_error ''external-list PQFastScan router is missing'') else
    io_bind (read_checkpoint (checkpoint_path (ix_options ix) ''manifest.bin'') 120
      ''external-list manifest is missing'' ''external-list manifest has trailing bytes'') (\<lambda>bs.
    if \<not> manifest_ok ix (manifest_of bs) then io_throw (Runtime_error ''external-list manifest is incompatible'')
    else io_return (manifest_of bs)))"

definition read_sizes :: "list_index \<Rightarrow> checkpoint_manifest \<Rightarrow> u32 list io" where
  "read_sizes ix m =
    (let n = length (ix_lists ix) in
     io_bind (read_checkpoint (sizes_path (ix_options ix) (mf_generation m)) (4 * n)
       ''external-list sizes checkpoint is missing'' ''external-list sizes have trailing bytes'') (\<lambda>bs.
     let sizes = map (\<lambda>l. of_le32 (segment bs (4 * l) 4)) [0..<n] in
     io_bind (io_fold (validate_size ix sizes) [0..<n] 0) (\<lambda>active_sum.
     if active_sum \<noteq> mf_active_count m then io_throw (Runtime_error ''manifest active count disagrees with list sizes'')
     else io_return sizes)))"

definition load_checkpoint_locked :: "list_index \<Rightarrow> list_index io" where
  "load_checkpoint_locked ix =
    io_bind (read_manifest ix) (\<lambda>m. io_bind (read_sizes ix m) (\<lambda>sizes.
    let postings = postings_path (ix_options ix) (mf_generation m) in
    io_bind (open_checkpoint postings ''external-list postings are missing'') (\<lambda>_.
    io_bind (read_postings postings (code_size ix) sizes 0) (\<lambda>mls.
      io_return (ix\<lparr>ix_lists := mls, ix_next_id := mf_next_id m, ix_active := mf_active_count m,
        ix_generation := mf_generation m\<rparr>)))))"

text \<open>
  The constructor that takes a trained quantizer: without \<open>create_storage\<close> it loads the router, an object
  of the caller, and then the checkpoint.
\<close>

definition index_reopen ::
    "(string \<Rightarrow> string) \<Rightarrow> bool \<Rightarrow> nat \<Rightarrow> nat \<Rightarrow> (string \<Rightarrow> unit io) \<Rightarrow> quantizer_view \<Rightarrow> bool \<Rightarrow> index_options \<Rightarrow> list_index io" where
  "index_reopen parent linux_aio nlist router_dimension load_router qz trained opts =
    io_bind (index_open parent linux_aio nlist router_dimension True qz trained opts) (\<lambda>ix.
      if xo_create_storage opts then io_return ix
      else io_bind (load_router (checkpoint_path opts ''router.faiss'')) (\<lambda>_. load_checkpoint_locked ix))"

end
