(* ===== verification/Uneven_Read.thy ===== *)
theory Uneven_Read
  imports Uneven_Correct
begin

text \<open>
  What a successful read establishes: whatever bytes \<open>UnevenProductQuantizer::read\<close> is given, the
  quantizer that it returns satisfies the invariant of trained quantizers.
\<close>

section \<open>Readers that return\<close>

named_theorems read_elims

lemma read_bind_Inr [read_elims]: "read_bind p f r = Inr z \<longleftrightarrow> (\<exists>x r1. p r = Inr (x, r1) \<and> f x r1 = Inr z)"
  by (auto simp: read_bind_def)

lemma read_lift_Inr [read_elims]: "read_lift m r = Inr (x, r') \<longleftrightarrow> m = Inr x \<and> r' = r"
  by (auto simp: read_lift_def)

lemma read_return_Inr [read_elims]: "read_return x r = Inr (y, r') \<longleftrightarrow> y = x \<and> r' = r"
  by (auto simp: read_return_def)

lemma read_if_Inr [read_elims]: "(if c then read_lift (Inl e) else p) r = Inr z \<longleftrightarrow> \<not> c \<and> p r = Inr z"
  by (auto simp: read_lift_def)

lemma checked_size_Inr [read_elims]: "checked_size v maximum name = Inr n \<longleftrightarrow> n = unat v \<and> n \<le> maximum \<and> n \<le> size_max"
  by (auto simp: checked_size_def)

lemma faiss_check_Inr [read_elims]: "faiss_check c message = Inr u \<longleftrightarrow> c"
  by (simp add: faiss_check_def)

lemma read_fold_inv:
  assumes "read_fold f xs s r = Inr (s', r')" and "P 0 s"
    and "\<And>k s r s' r'. k < length xs \<Longrightarrow> P k s \<Longrightarrow> f (xs ! k) s r = Inr (s', r') \<Longrightarrow> P (Suc k) s'"
  shows "P (length xs) s'"
  using assms
proof (induction xs arbitrary: s r P)
  case Nil
  then show ?case by (simp add: read_elims)
next
  case (Cons x xs)
  obtain s1 r1 where s1: "f x s r = Inr (s1, r1)" "read_fold f xs s1 r1 = Inr (s', r')"
    using Cons.prems(1) by (auto simp: read_elims)
  have "P (Suc 0) s1" using Cons.prems(3) [of 0 s r s1 r1] Cons.prems(2) s1(1) by simp
  moreover have "P (Suc (Suc k)) t'" if "k < length xs" "P (Suc k) t" "f (xs ! k) t u = Inr (t', u')" for k t u t' u'
    using Cons.prems(3) [of "Suc k" t u t' u'] that by simp
  ultimately show ?case using Cons.IH [OF s1(2), of "\<lambda>k. P (Suc k)"] by simp
qed

lemma read_vector_bound: "read_vector unrep w maximum name r = Inr (xs, r') \<Longrightarrow> length xs \<le> maximum"
  by (auto simp: read_vector_def read_elims split: if_splits)

section \<open>Groups\<close>

definition groups_read :: "nat \<Rightarrow> nat list list \<times> nat \<Rightarrow> bool" where
  "groups_read d s \<longleftrightarrow> snd s = length (concat (fst s)) \<and> (\<forall>g \<in> set (fst s). g \<noteq> [] \<and> (\<forall>x \<in> set g. x < d))"

lemma checked_indices:
  assumes "res_fold (\<lambda>v g. res_bind (checked_size v (d - 1) name) (\<lambda>j. Inr (g @ [j]))) vs g0 = Inr g" and "0 < d" and "\<forall>x \<in> set g0. x < d"
  shows "\<forall>x \<in> set g. x < d"
  using assms
proof (induction vs arbitrary: g0)
  case (Cons v vs)
  obtain j where j: "checked_size v (d - 1) name = Inr j"
    "res_fold (\<lambda>v g. res_bind (checked_size v (d - 1) name) (\<lambda>j. Inr (g @ [j]))) vs (g0 @ [j]) = Inr g"
    using Cons.prems(1) by (auto simp del: One_nat_def)
  have "j \<le> d - 1" using j(1) by (simp add: checked_size_Inr)
  then have "j < d" using Cons.prems(2) by simp
  then have "\<forall>x \<in> set (g0 @ [j]). x < d" using Cons.prems(3) by auto
  then show ?case by (rule Cons.IH [OF j(2) Cons.prems(2)])
qed simp

lemma read_group_Inr:
  assumes "read_group d s r = Inr (s', r')"
  shows "\<exists>vs g. res_fold (\<lambda>v g. res_bind (checked_size v (d - 1) ''group dimension index'') (\<lambda>j. Inr (g @ [j]))) vs [] = Inr g
    \<and> g \<noteq> [] \<and> s' = (fst s @ [g], snd s + length g)"
  using assms unfolding read_group_def by (simp only: read_elims de_Morgan_disj) blast

lemma read_group_step:
  assumes "read_group d s r = Inr (s', r')" and "0 < d" and "groups_read d s"
  shows "groups_read d s' \<and> length (fst s') = Suc (length (fst s))"
proof -
  obtain vs g where g: "res_fold (\<lambda>v g. res_bind (checked_size v (d - 1) ''group dimension index'') (\<lambda>j. Inr (g @ [j]))) vs [] = Inr g"
    "g \<noteq> []" "s' = (fst s @ [g], snd s + length g)"
    using read_group_Inr [OF assms(1)] by blast
  have "\<forall>x \<in> set g. x < d" using checked_indices [OF g(1) assms(2)] by simp
  then show ?thesis using assms(3) g(2,3) by (simp add: groups_read_def)
qed

lemma uneven_read_groups_type:
  assumes "uneven_read_groups U r = Inr (gs, r')" and "0 < up_d U"
  shows "length gs = up_M U" and "length (concat gs) = up_d U" and "\<forall>g \<in> set gs. g \<noteq> [] \<and> (\<forall>x \<in> set g. x < up_d U)"
proof -
  obtain r1 total where fold: "read_fold (\<lambda>_. read_group (up_d U)) [0..<up_M U] ([], 0) r1 = Inr ((gs, total), r')" and total: "total = up_d U"
    using assms(1) by (auto simp: uneven_read_groups_def read_elims split: prod.splits)
  have "groups_read (up_d U) (gs, total) \<and> length (fst (gs, total)) = length [0..<up_M U]"
  proof (rule read_fold_inv [OF fold, of "\<lambda>k s. groups_read (up_d U) s \<and> length (fst s) = k"])
    show "groups_read (up_d U) ([], 0) \<and> length (fst ([], 0)) = 0" by (simp add: groups_read_def)
  qed (use read_group_step assms(2) in blast)
  then show "length gs = up_M U" "length (concat gs) = up_d U" "\<forall>g \<in> set gs. g \<noteq> [] \<and> (\<forall>x \<in> set g. x < up_d U)"
    using total by (auto simp: groups_read_def)
qed

section \<open>The layout check as a test\<close>

lemma mark_dimension_Inr: "mark_dimension d y seen = Inr t \<longleftrightarrow> y < d \<and> \<not> seen ! y \<and> t = seen[y := True]"
  by (auto simp: mark_dimension_def read_elims)

lemma mark_dimensions_Inr:
  assumes "res_fold (mark_dimension d) ds seen = Inr seen'" and "length seen = d"
  shows "length seen' = d \<and> distinct ds \<and> (\<forall>x \<in> set ds. x < d \<and> \<not> seen ! x) \<and> (\<forall>x < d. seen' ! x \<longleftrightarrow> seen ! x \<or> x \<in> set ds)"
  using assms
proof (induction ds arbitrary: seen)
  case (Cons y ds)
  have y: "y < d" "\<not> seen ! y" and fold: "res_fold (mark_dimension d) ds (seen[y := True]) = Inr seen'"
    using Cons.prems(1) by (simp_all add: mark_dimension_Inr)
  have len: "length (seen[y := True]) = d" using Cons.prems(2) by simp
  note ih = Cons.IH [OF fold len]
  have "y \<notin> set ds" using ih y(1) Cons.prems(2) by (metis nth_list_update_eq)
  moreover have "\<forall>x \<in> set ds. x < d \<and> \<not> seen ! x"
    using ih by (metis nth_list_update_neq calculation)
  moreover have "seen' ! x \<longleftrightarrow> seen ! x \<or> x \<in> set (y # ds)" if "x < d" for x
    using ih that y(1) Cons.prems(2) by (cases "x = y") simp_all
  ultimately show ?case using ih y by simp
qed simp

lemma check_bucket_Inr:
  assumes "check_bucket d b (seen, dc, bc, first) = Inr t"
  shows "\<exists>seen1. res_fold (mark_dimension d) (bk_dims b) seen = Inr seen1 \<and> t = (seen1, dc + bk_dim b, bc + bk_bytes b, first + bk_count b)"
  using assms by (auto simp: check_bucket_def read_elims)

lemma check_buckets_Inr:
  assumes "res_fold (check_bucket d) bs (seen, dc, bc, first) = Inr t" and "length seen = d"
  shows "distinct (concat (map bk_dims bs)) \<and> (\<forall>x \<in> set (concat (map bk_dims bs)). x < d \<and> \<not> seen ! x)"
  using assms
proof (induction bs arbitrary: seen dc bc first)
  case (Cons b bs)
  obtain u where u: "check_bucket d b (seen, dc, bc, first) = Inr u" "res_fold (check_bucket d) bs u = Inr t"
    using Cons.prems(1) by auto
  obtain s1 where s1: "res_fold (mark_dimension d) (bk_dims b) seen = Inr s1" "u = (s1, dc + bk_dim b, bc + bk_bytes b, first + bk_count b)"
    using check_bucket_Inr [OF u(1)] by blast
  note m = mark_dimensions_Inr [OF s1(1) Cons.prems(2)]
  note ih = Cons.IH [OF u(2) [unfolded s1(2)] conjunct1 [OF m]]
  then have "set (bk_dims b) \<inter> set (concat (map bk_dims bs)) = {}" using m by blast
  moreover have "\<forall>x \<in> set (concat (map bk_dims bs)). x < d \<and> \<not> seen ! x" using ih m by blast
  ultimately show ?case using ih m by auto
qed simp

lemma validate_layout_Inr:
  assumes "validate_layout U = Inr ()" and "bucket_chain (up_groups U) 0 (up_buckets U)" and "length (concat (up_groups U)) = up_d U"
  shows "mset (concat (up_groups U)) = mset [0..<up_d U]"
proof -
  obtain seen dc bc first where "res_fold (check_bucket (up_d U)) (up_buckets U) (replicate (up_d U) False, 0, 0, 0) = Inr (seen, dc, bc, first)"
    using assms(1) by (auto simp: validate_layout_def split: prod.splits)
  from check_buckets_Inr [OF this] have d: "distinct (concat (up_groups U))" "set (concat (up_groups U)) \<subseteq> {0..<up_d U}"
    using chain_dims [OF assms(2)] by auto
  have "set (concat (up_groups U)) = {0..<up_d U}"
    using d distinct_card [OF d(1)] assms(3) by (intro card_subset_eq) simp_all
  then show ?thesis using d(1) by (intro set_eq_iff_mset_eq_distinct [THEN iffD1]) simp_all
qed

section \<open>Codebooks\<close>

lemma read_bucket_Inr:
  assumes "read_bucket F U b done r = Inr (bs, r')"
  shows "\<exists>pq. bs = done @ [b\<lparr>bk_pq := pq\<rparr>] \<and> pq_d pq = bk_dim b \<and> pq_M pq = bk_count b \<and> pq_nbits pq = up_nbits U
    \<and> pq_ksub pq = up_ksub U \<and> pq_code_size pq = bk_bytes b \<and> length (pq_centroids pq) = bk_dim b * up_ksub U"
  using assms by (auto simp: read_bucket_def read_elims)

lemma read_buckets_Inr:
  assumes "read_fold (read_bucket F U) bs [] r = Inr (cs, r')" and "up_nbits U = 4" "up_ksub U = 16"
    and "\<forall>b \<in> set bs. bk_bytes b = bk_count b div 2"
  shows "list_all2 same_layout bs cs \<and> (\<forall>c \<in> set cs. codebook_for (bk_pq c) (bk_dim c) (bk_count c))"
proof -
  let ?P = "\<lambda>k cs. list_all2 same_layout (take k bs) cs \<and> (\<forall>c \<in> set cs. codebook_for (bk_pq c) (bk_dim c) (bk_count c))"
  have "?P (length bs) cs"
  proof (rule read_fold_inv [OF assms(1), of ?P])
    fix k s r s' r' assume k: "k < length bs" "?P k s" "read_bucket F U (bs ! k) s r = Inr (s', r')"
    obtain pq where pq: "s' = s @ [(bs ! k)\<lparr>bk_pq := pq\<rparr>]" "pq_d pq = bk_dim (bs ! k)" "pq_M pq = bk_count (bs ! k)" "pq_nbits pq = 4"
      "pq_ksub pq = 16" "pq_code_size pq = bk_bytes (bs ! k)" "length (pq_centroids pq) = bk_dim (bs ! k) * 16"
      using read_bucket_Inr [OF k(3)] assms(2,3) by auto
    have "same_layout (bs ! k) ((bs ! k)\<lparr>bk_pq := pq\<rparr>)" by (simp add: same_layout_def)
    moreover have "bk_bytes (bs ! k) = bk_count (bs ! k) div 2" using assms(4) k(1) by simp
    ultimately show "?P (Suc k) s'" using k(1,2) pq by (simp add: take_Suc_conv_app_nth list_all2_appendI codebook_for_def)
  qed simp
  then show ?thesis by simp
qed

lemma check_loads_Inr:
  assumes "check_loads U = Inr ()" and "g < up_M U"
  shows "almost_equal (group_load (up_budgets U) (up_groups U ! g)) (up_loads U ! g)"
proof -
  have "\<forall>g \<in> set gs. P g" if "res_fold (\<lambda>g _. if P g then Inr () else Inl e) gs () = Inr ()" for P e and gs :: "nat list"
    using that by (induction gs) (auto split: if_splits)
  from this [OF assms(1) [unfolded check_loads_def]] assms(2) show ?thesis by simp
qed

lemma uneven_read_type:
  assumes "uneven_read F r = Inr (U, r')"
  shows "uneven_ok F U \<and> up_max_width U \<le> up_d U \<and> up_d U \<le> 2 ^ 20"
proof -
  obtain d M nbits U0 width report verbose groups budgets loads U1 bs r1 r2 r3 where
    new: "uneven_new d M nbits = Inr U0" and d: "d \<le> 2 ^ 20" and width: "width \<le> d"
    and groups: "uneven_read_groups U0 r1 = Inr (groups, r2)" and len: "length budgets = d" "length loads = M"
    and build: "build_buckets F (U0\<lparr>up_max_width := width, up_report := report, up_verbose := verbose, up_budgets := budgets, up_loads := loads\<rparr>) groups = Inr U1"
    and fold: "read_fold (read_bucket F U1) (up_buckets U1) [] r3 = Inr (bs, r')"
    and valid: "validate_layout (U1\<lparr>up_buckets := bs\<rparr>) = Inr ()" and loads: "check_loads (U1\<lparr>up_buckets := bs\<rparr>) = Inr ()"
    and U: "U = U1\<lparr>up_buckets := bs, up_trained := True\<rparr>"
    using assms by (auto simp: uneven_read_def read_elims Let_def)
  note dims = uneven_new_dims [OF new]
  obtain bs0 where bs0: "bucket_loop F 4 (take M groups) 0 = Inr bs0"
    and U1: "U1 = U0\<lparr>up_max_width := width, up_report := report, up_verbose := verbose, up_budgets := budgets, up_loads := loads, up_groups := groups, up_buckets := bs0\<rparr>"
    using build dims by (auto simp: build_buckets_def uneven_dims_ok_def Let_def)
  have pos: "0 < up_d U0" using dims by (simp add: uneven_dims_ok_def)
  note g = uneven_read_groups_type [OF groups pos]
  have loop: "bucket_loop F 4 groups 0 = Inr bs0" using bs0 g(1) dims by simp
  have chain0: "bucket_chain groups 0 bs0" using bucket_loop_chain [OF loop] by simp
  have fields: "up_nbits U1 = 4" "up_ksub U1 = 16" "up_buckets U1 = bs0" using U1 dims by (simp_all add: uneven_dims_ok_def)
  have books: "list_all2 same_layout bs0 bs" "\<forall>c \<in> set bs. codebook_for (bk_pq c) (bk_dim c) (bk_count c)"
    using read_buckets_Inr [OF fold fields(1,2)] chain_dim(4) [OF chain0] fields(3) by auto
  have chain: "bucket_chain groups 0 bs" using chain0 chain_same_layout [OF books(1)] by simp
  have "mset (concat groups) = mset [0..<d]"
    using validate_layout_Inr [OF valid] chain g(2) dims U1 by simp
  moreover have "\<forall>i < M. almost_equal (group_load budgets (groups ! i)) (loads ! i)"
    using check_loads_Inr [OF loads] U1 dims by simp
  ultimately show ?thesis using dims U U1 g loop books len d width
    by (auto simp: uneven_ok_def uneven_dims_ok_def)
qed

end
