(* ===== verification/Quantizer_Correct.thy ===== *)
theory Quantizer_Correct
  imports Quantizer_File Uneven_Read Uneven_Guarantees
begin

text \<open>
  The invariant of a trained quantizer, established by training and by loading, and what its coding
  and query operations need of it. The model file as bytes, and its round trip.
\<close>

section \<open>Documented behaviour of Faiss\<close>

definition faiss_sizes :: "faiss_ops \<Rightarrow> bool" where
  "faiss_sizes F \<longleftrightarrow> faiss_pq_sizes (fo_pq F)
    \<and> (\<forall>R d n x. lt_d_in R = d \<longrightarrow> lt_d_out R = d \<longrightarrow> length x = n * d \<longrightarrow>
        length (fo_apply F R n x) = n * d \<and> length (fo_transpose F R n x) = n * d)
    \<and> (\<forall>d bins n x. let R = fo_pca F d bins n x in lt_trained R \<and> lt_d_in R = d \<and> lt_d_out R = d \<and> length (lt_A R) = d * d)"

definition faiss_io :: "faiss_ops \<Rightarrow> bool" where
  "faiss_io F \<longleftrightarrow> faiss_pq_io (fo_pq F)
    \<and> (\<forall>t d. rotation_ok d t \<longrightarrow> length (lt_b t) \<le> d \<longrightarrow> d \<le> 2 ^ 20 \<longrightarrow> reads (fo_read_transform F) (fo_write_transform F t) (Linear_transform t))"

section \<open>The invariant\<close>

definition config_ok :: "quantizer_config \<Rightarrow> bool" where
  "config_ok c \<longleftrightarrow> 0 < qc_dimension c \<and> 0 < qc_subquantizers c \<and> qc_subquantizers c \<le> qc_dimension c \<and> even (qc_subquantizers c)
    \<and> (if qc_grouping c = Uniform then qc_dimension c mod qc_subquantizers c = 0 else even (qc_dimension c))
    \<and> (qc_metric c = Cosine \<longrightarrow> qc_centering c = CenteringNone)"

definition backend_ok :: "faiss_ops \<Rightarrow> quantizer_config \<Rightarrow> direction_pq \<Rightarrow> bool" where
  "backend_ok F c pq \<longleftrightarrow>
    (case pq of
       Uniform_backend cb \<Rightarrow> qc_grouping c = Uniform \<and> codebook_for cb (qc_dimension c) (qc_subquantizers c)
     | Uneven_backend U \<Rightarrow> qc_grouping c = Uneven \<and> uneven_ok (fo_pq F) U \<and> up_d U = qc_dimension c
         \<and> up_M U = qc_subquantizers c \<and> up_max_width U \<le> up_d U)"

definition rotation_fits :: "quantizer_config \<Rightarrow> linear_transform option \<Rightarrow> bool" where
  "rotation_fits c R \<longleftrightarrow> (R \<noteq> None \<longleftrightarrow> qc_transform c \<noteq> TransformNone) \<and> (\<forall>t. R = Some t \<longrightarrow> rotation_ok (qc_dimension c) t)"

text \<open>The bias of a trained transform has one entry per dimension, or none.\<close>

definition bias_fits :: "quantizer_config \<Rightarrow> linear_transform option \<Rightarrow> bool" where
  "bias_fits c R \<longleftrightarrow> (\<forall>t. R = Some t \<longrightarrow> length (lt_b t) \<le> qc_dimension c)"

text \<open>A trained quantizer; \<open>params_ok\<close> says that its metadata ranges are usable.\<close>

definition quantizer_shape :: "faiss_ops \<Rightarrow> recast_quantizer \<Rightarrow> bool" where
  "quantizer_shape F q \<longleftrightarrow> rq_trained q \<and> config_ok (rq_config q) \<and> length (rq_mean q) = qc_dimension (rq_config q)
    \<and> rotation_fits (rq_config q) (rq_rotation q) \<and> backend_ok F (rq_config q) (rq_pq q)"

definition quantizer_ok :: "faiss_ops \<Rightarrow> recast_quantizer \<Rightarrow> bool" where
  "quantizer_ok F q \<longleftrightarrow> quantizer_shape F q \<and> params_ok (rq_params q)"

lemma uneven_new_ok: "even d \<Longrightarrow> even M \<Longrightarrow> 0 < M \<Longrightarrow> M \<le> d \<Longrightarrow> \<exists>U. uneven_new d M 4 = Inr U"
  by (auto simp: uneven_new_iff even_iff_mod_2_eq_zero)

lemma quantizer_new_Inr:
  assumes "quantizer_new F c = Inr q"
  shows "config_ok c" and "rq_config q = c" and "rq_rotation q = None" and "\<not> rq_trained q" and "length (rq_mean q) = qc_dimension c"
    and "case rq_pq q of Uniform_backend cb \<Rightarrow> qc_grouping c = Uniform \<and> cb = fq_new (fo_pq F) (qc_dimension c) (qc_subquantizers c) 4
         | Uneven_backend U \<Rightarrow> qc_grouping c = Uneven \<and> uneven_dims_ok U \<and> up_d U = qc_dimension c \<and> up_M U = qc_subquantizers c \<and> up_max_width U = 0"
  using assms by (cases "qc_grouping c"; auto simp: quantizer_new_def config_ok_def Let_def uneven_new_iff uneven_dims_ok_def
      even_iff_mod_2_eq_zero split: if_splits)+

lemma quantizer_new_accepts: "config_ok c \<Longrightarrow> \<exists>q. quantizer_new F c = Inr q"
  using uneven_new_ok [of "qc_dimension c" "qc_subquantizers c"]
  by (cases "qc_grouping c") (auto simp: quantizer_new_def config_ok_def Let_def even_iff_mod_2_eq_zero)

section \<open>Loading establishes it\<close>

lemma read_rotation_Inr:
  assumes "read_rotation F c r = Inr (R, r')"
  shows "rotation_fits c R"
proof (cases "qc_transform c = TransformNone")
  case True
  then show ?thesis using assms by (auto simp: read_rotation_def read_elims rotation_fits_def)
next
  case False
  then obtain v r1 where "(case v of
          Linear_transform t \<Rightarrow>
            if rotation_ok (qc_dimension c) t then read_return (Some t)
            else read_lift (Inl (Runtime_error ''persisted Recast transform is incompatible''))
        | Other_transform \<Rightarrow> read_lift (Inl (Runtime_error ''persisted Recast transform is incompatible''))) r1 = Inr (R, r')"
    using assms False by (auto simp: read_rotation_def read_elims split: if_splits)
  then show ?thesis using False by (cases v) (auto simp: read_elims rotation_fits_def split: if_splits)
qed

lemma read_backend_Inr: "read_backend F c r = Inr (pq, r') \<Longrightarrow> backend_ok F c pq"
proof -
  assume "read_backend F c r = Inr (pq, r')"
  then obtain backend :: u8 and r1 where b: "backend = (if qc_grouping c = Uniform then 0 else 1)"
    and rest: "(if backend = 0 then read_bind (fq_read (fo_pq F)) (\<lambda>pq.
        if uniform_ok (qc_dimension c) (qc_subquantizers c) pq then read_return (Uniform_backend pq)
        else read_lift (Inl (Runtime_error ''persisted uniform PQ4 codebook is incompatible'')))
      else read_bind (uneven_read (fo_pq F)) (\<lambda>U.
        if up_d U \<noteq> qc_dimension c \<or> up_M U \<noteq> qc_subquantizers c \<or> up_nbits U \<noteq> 4
        then read_lift (Inl (Runtime_error ''persisted uneven PQ4 codebook is incompatible''))
        else read_return (Uneven_backend U))) r1 = Inr (pq, r')"
    unfolding read_backend_def by (simp only: read_elims) blast
  show ?thesis
  proof (cases "qc_grouping c")
    case Uniform
    then show ?thesis using rest b by (auto simp: read_elims backend_ok_def uniform_ok_def codebook_for_def split: if_splits)
  next
    case Uneven
    then obtain U r2 where "uneven_read (fo_pq F) r1 = Inr (U, r2)" "up_d U = qc_dimension c" "up_M U = qc_subquantizers c" "pq = Uneven_backend U"
      using rest b by (auto simp: read_elims)
    then show ?thesis using uneven_read_type [of "fo_pq F" r1 U r2] Uneven by (simp add: backend_ok_def)
  qed
qed

lemma read_params_Inr: "read_params r = Inr (p, r') \<Longrightarrow> params_ok p"
  by (auto simp: read_params_def read_elims Let_def split: if_splits)

lemma read_config_Inr: "read_config r = Inr (c, r') \<Longrightarrow> qc_dimension c \<le> 2 ^ 20"
  by (auto simp: read_config_def read_elims)

lemma load_payload_type:
  assumes "load_payload F payload = Inr q"
  shows "quantizer_ok F q \<and> qc_dimension (rq_config q) \<le> 2 ^ 20"
proof -
  obtain q1 r where read: "read_payload F \<lparr>rd_data = payload, rd_pos = 0\<rparr> = Inr (q1, r)" and q: "q = q1\<lparr>rq_trained := True\<rparr>"
    using assms by (auto simp: load_payload_def split: if_splits)
  obtain c q0 mean R pq p r1 r2 r3 r4 r5 where
    parts: "read_config \<lparr>rd_data = payload, rd_pos = 0\<rparr> = Inr (c, r1)" "quantizer_new F c = Inr q0" "length mean = qc_dimension c"
      "read_rotation F c r2 = Inr (R, r3)" "read_backend F c r3 = Inr (pq, r4)" "read_params r4 = Inr (p, r5)"
    and q1: "q1 = q0\<lparr>rq_mean := mean, rq_rotation := R, rq_pq := pq, rq_params := p\<rparr>"
    using read by (auto simp: read_payload_def read_elims)
  note new = quantizer_new_Inr [OF parts(2)]
  show ?thesis
    using new(1,2) read_config_Inr [OF parts(1)] parts(3) read_rotation_Inr [OF parts(4)] read_backend_Inr [OF parts(5)]
      read_params_Inr [OF parts(6)] unfolding q q1 by (simp add: quantizer_ok_def quantizer_shape_def)
qed

section \<open>The payload as bytes\<close>

definition config_bytes :: "quantizer_config \<Rightarrow> bytes" where
  "config_bytes c = le64 (of_nat (qc_dimension c)) @ le64 (of_nat (qc_subquantizers c)) @ le32 (grouping_code (qc_grouping c))
    @ le32 (transform_code (qc_transform c)) @ le32 (metric_code (qc_metric c)) @ le32 (centering_code (qc_centering c))"

definition rotation_bytes :: "faiss_ops \<Rightarrow> linear_transform option \<Rightarrow> bytes" where
  "rotation_bytes F R = flag_bytes (R \<noteq> None) @ (case R of Some t \<Rightarrow> fo_write_transform F t | None \<Rightarrow> [])"

definition backend_bytes :: "faiss_ops \<Rightarrow> direction_pq \<Rightarrow> bytes" where
  "backend_bytes F pq =
    (case pq of Uniform_backend c \<Rightarrow> [0] @ fq_write (fo_pq F) c | Uneven_backend U \<Rightarrow> [1] @ uneven_bytes (fo_pq F) U)"

definition params_bytes :: "metadata_decode_parameters \<Rightarrow> bytes" where
  "params_bytes p = le32 (norm_max p) @ le32 (norm_step p) @ le32 (scale_max p) @ le32 (scale_step p)"

definition model_payload :: "faiss_ops \<Rightarrow> recast_quantizer \<Rightarrow> bytes" where
  "model_payload F q = config_bytes (rq_config q) @ (le64 (of_nat (length (rq_mean q))) @ concat (map le32 (rq_mean q)))
    @ rotation_bytes F (rq_rotation q) @ backend_bytes F (rq_pq q) @ params_bytes (rq_params q)"

lemma small_dimension:
  assumes "quantizer_shape F q" and "qc_dimension (rq_config q) \<le> 2 ^ 20"
  shows "length (rq_mean q) \<le> size_max div 4" and "qc_subquantizers (rq_config q) \<le> qc_dimension (rq_config q)"
  using assms by (auto simp: quantizer_shape_def config_ok_def size_max_def)

lemma write_payload_ok:
  assumes ok: "quantizer_shape F q" and small: "qc_dimension (rq_config q) \<le> 2 ^ 20"
  shows "writes (write_payload F q) (model_payload F q)"
proof -
  have config: "writes (write_config (rq_config q)) (config_bytes (rq_config q))"
    unfolding write_config_def config_bytes_def by (intro writes_seq writes_size u32_scalar.writes_scalar)
  have rotation: "writes (write_rotation F (rq_rotation q)) (rotation_bytes F (rq_rotation q))"
    unfolding write_rotation_def rotation_bytes_def
    by (intro writes_seq writes_flag) (auto split: option.splits)
  have params: "writes (write_params (rq_params q)) (params_bytes (rq_params q))"
    unfolding write_params_def params_bytes_def by (intro writes_seq u32_scalar.writes_scalar)
  have backend: "writes (write_backend F (rq_pq q)) (backend_bytes F (rq_pq q))"
  proof (cases "rq_pq q")
    case (Uniform_backend c)
    show ?thesis unfolding write_backend_def backend_bytes_def Uniform_backend direction_pq.case
      by (intro writes_seq u8_scalar.writes_scalar writes_bytes)
  next
    case (Uneven_backend U)
    then have "uneven_ok (fo_pq F) U" "persistable U"
      using ok small by (simp_all add: quantizer_shape_def backend_ok_def persistable_def)
    then show ?thesis unfolding write_backend_def backend_bytes_def Uneven_backend direction_pq.case
      by (intro writes_seq u8_scalar.writes_scalar uneven_write_ok)
  qed
  show ?thesis unfolding write_payload_def model_payload_def
    by (intro writes_seq config rotation backend params u32_scalar.writes_vector small_dimension [OF ok small])
qed

lemma reads_code:
  "g w = Inr x \<Longrightarrow> reads (f x) bs y \<Longrightarrow> reads (read_bind (read_scalar of_le32 4) (\<lambda>v. read_bind (read_lift (g v)) f)) (le32 w @ bs) y"
  by (intro reads_bind [OF u32_scalar.reads_scalar] reads_lift_bind) simp_all

lemma decode_codes_inverse [simp]:
  shows "decode_grouping (grouping_code g) = Inr g" and "decode_transform (transform_code t) = Inr t"
    and "decode_metric (metric_code m) = Inr m" and "decode_centering (centering_code k) = Inr k"
proof -
  show "decode_grouping (grouping_code g) = Inr g" by (cases g) (simp_all add: decode_grouping_def)
  show "decode_transform (transform_code t) = Inr t" by (cases t) (simp_all add: decode_transform_def)
  show "decode_metric (metric_code m) = Inr m" by (cases m) (simp_all add: decode_metric_def)
  show "decode_centering (centering_code k) = Inr k" by (cases k) (simp_all add: decode_centering_def)
qed

lemma reads_config:
  assumes "config_ok c" and "qc_dimension c \<le> 2 ^ 20"
  shows "reads read_config (config_bytes c) c"
proof -
  have eta: "\<lparr>qc_dimension = qc_dimension c, qc_subquantizers = qc_subquantizers c, qc_grouping = qc_grouping c, qc_transform = qc_transform c,
      qc_metric = qc_metric c, qc_centering = qc_centering c\<rparr> = c" by (cases c) simp
  have "reads read_config (le64 (of_nat (qc_dimension c)) @ le64 (of_nat (qc_subquantizers c)) @ le32 (grouping_code (qc_grouping c))
      @ le32 (transform_code (qc_transform c)) @ le32 (metric_code (qc_metric c)) @ le32 (centering_code (qc_centering c)) @ []) c"
    unfolding read_config_def using assms
    by (intro reads_bind [OF reads_size] reads_code [where g = decode_grouping, OF decode_codes_inverse(1)] reads_code [where g = decode_transform, OF decode_codes_inverse(2)]
        reads_code [where g = decode_metric, OF decode_codes_inverse(3)] reads_code [where g = decode_centering, OF decode_codes_inverse(4)])
      (simp_all add: config_ok_def size_max_def eta reads_return)
  then show ?thesis by (simp add: config_bytes_def)
qed

lemma reads_rotation:
  assumes "rotation_fits c R" and "bias_fits c R" and "faiss_io F" and "qc_dimension c \<le> 2 ^ 20"
  shows "reads (read_rotation F c) (rotation_bytes F R) R"
proof (cases R)
  case None
  then show ?thesis using assms(1) unfolding read_rotation_def rotation_bytes_def
    by (intro reads_bind [OF reads_flag]) (auto simp: rotation_fits_def reads_return)
next
  case (Some t)
  then have t: "rotation_ok (qc_dimension c) t" "qc_transform c \<noteq> TransformNone" using assms(1) by (auto simp: rotation_fits_def)
  have "reads (fo_read_transform F) (fo_write_transform F t) (Linear_transform t)" using t Some assms(2-4) by (auto simp: faiss_io_def bias_fits_def)
  from reads_bind [OF this reads_return [of "Some t"]] have "reads (read_bind (fo_read_transform F) (\<lambda>v. case v of
          Linear_transform t \<Rightarrow> if rotation_ok (qc_dimension c) t then read_return (Some t)
            else read_lift (Inl (Runtime_error ''persisted Recast transform is incompatible''))
        | Other_transform \<Rightarrow> read_lift (Inl (Runtime_error ''persisted Recast transform is incompatible''))))
      (fo_write_transform F t @ []) (Some t)"
    using t by (intro reads_bind [OF \<open>reads (fo_read_transform F) _ _\<close>]) (simp add: reads_return)
  then show ?thesis using t unfolding read_rotation_def rotation_bytes_def Some
    by (intro reads_bind [OF reads_flag]) simp
qed

lemma reads_backend:
  assumes "backend_ok F c pq" and "faiss_io F" and "qc_dimension c \<le> 2 ^ 20" and "config_ok c"
  shows "reads (read_backend F c) (backend_bytes F pq) pq"
proof (cases pq)
  case (Uniform_backend cb)
  then have cb: "codebook_for cb (qc_dimension c) (qc_subquantizers c)" "qc_grouping c = Uniform" using assms(1) by (simp_all add: backend_ok_def)
  have "reads (fq_read (fo_pq F)) (fq_write (fo_pq F) cb) cb" using cb assms(2-4) by (auto simp: faiss_io_def faiss_pq_io_def config_ok_def)
  then have "reads (read_bind (fq_read (fo_pq F)) (\<lambda>pq.
        if uniform_ok (qc_dimension c) (qc_subquantizers c) pq then read_return (Uniform_backend pq)
        else read_lift (Inl (Runtime_error ''persisted uniform PQ4 codebook is incompatible'')))) (fq_write (fo_pq F) cb @ []) (Uniform_backend cb)"
    using cb by (intro reads_bind) (auto simp: uniform_ok_def codebook_for_def reads_return)
  then have "reads (read_backend F c) ([0] @ fq_write (fo_pq F) cb) pq"
    unfolding read_backend_def using cb Uniform_backend by (intro reads_bind [OF u8_scalar.reads_scalar]) simp
  then show ?thesis by (simp add: backend_bytes_def Uniform_backend)
next
  case (Uneven_backend U)
  then have U: "uneven_ok (fo_pq F) U" "qc_grouping c = Uneven" "up_d U = qc_dimension c" "up_M U = qc_subquantizers c" "persistable U"
    using assms(1,3) by (simp_all add: backend_ok_def persistable_def)
  have "reads (uneven_read (fo_pq F)) (uneven_bytes (fo_pq F) U) U"
    using U assms(2) by (intro uneven_read_ok) (simp_all add: faiss_io_def)
  then have "reads (read_bind (uneven_read (fo_pq F)) (\<lambda>U.
        if up_d U \<noteq> qc_dimension c \<or> up_M U \<noteq> qc_subquantizers c \<or> up_nbits U \<noteq> 4
        then read_lift (Inl (Runtime_error ''persisted uneven PQ4 codebook is incompatible''))
        else read_return (Uneven_backend U))) (uneven_bytes (fo_pq F) U @ []) (Uneven_backend U)"
    using U by (intro reads_bind) (auto simp: uneven_ok_def uneven_dims_ok_def reads_return)
  then have "reads (read_backend F c) ([1] @ uneven_bytes (fo_pq F) U) pq"
    unfolding read_backend_def using U Uneven_backend by (intro reads_bind [OF u8_scalar.reads_scalar]) simp
  then show ?thesis by (simp add: backend_bytes_def Uneven_backend)
qed

lemma reads_params:
  assumes "params_ok p"
  shows "reads read_params (params_bytes p) p"
proof -
  have eta: "\<lparr>norm_max = norm_max p, norm_step = norm_step p, scale_max = scale_max p, scale_step = scale_step p\<rparr> = p" by (cases p) simp
  have "reads read_params (le32 (norm_max p) @ le32 (norm_step p) @ le32 (scale_max p) @ le32 (scale_step p) @ []) p"
    unfolding read_params_def
    by (intro reads_bind [OF u32_scalar.reads_scalar]) (simp add: eta assms reads_return)
  then show ?thesis by (simp add: params_bytes_def)
qed

lemma load_payload_ok:
  assumes ok: "quantizer_ok F q" and bias: "bias_fits (rq_config q) (rq_rotation q)" and io: "faiss_io F" and small: "qc_dimension (rq_config q) \<le> 2 ^ 20"
  shows "load_payload F (model_payload F q) = Inr q"
proof -
  have shape: "quantizer_shape F q" and p: "params_ok (rq_params q)" using ok by (simp_all add: quantizer_ok_def)
  have c: "config_ok (rq_config q)" and R: "rotation_fits (rq_config q) (rq_rotation q)" and pq: "backend_ok F (rq_config q) (rq_pq q)"
    and mean: "length (rq_mean q) = qc_dimension (rq_config q)" and t: "rq_trained q"
    using shape by (simp_all add: quantizer_shape_def)
  obtain q0 where q0: "quantizer_new F (rq_config q) = Inr q0" using quantizer_new_accepts [OF c] by blast
  note new = quantizer_new_Inr [OF q0]
  let ?q = "q0\<lparr>rq_mean := rq_mean q, rq_rotation := rq_rotation q, rq_pq := rq_pq q, rq_params := rq_params q\<rparr>"
  have vec: "reads (read_vector of_le32 4 (qc_dimension (rq_config q)) ''quantizer mean'')
      (le64 (of_nat (length (rq_mean q))) @ concat (map le32 (rq_mean q))) (rq_mean q)"
    using small_dimension(1) [OF shape small] mean by (intro u32_scalar.reads_vector) simp_all
  have q: "?q\<lparr>rq_trained := True\<rparr> = q" using new(2) t by (cases q; cases q0) simp
  have "reads (read_payload F) (config_bytes (rq_config q) @ (le64 (of_nat (length (rq_mean q))) @ concat (map le32 (rq_mean q)))
      @ rotation_bytes F (rq_rotation q) @ backend_bytes F (rq_pq q) @ params_bytes (rq_params q) @ []) ?q"
    unfolding read_payload_def
    by (intro reads_bind [OF reads_config [OF c small]] reads_lift_bind [OF q0] reads_bind [OF vec] reads_if
        reads_bind [OF reads_rotation [OF R bias io small]] reads_bind [OF reads_backend [OF pq io small c]] reads_bind [OF reads_params [OF p]] reads_return)
      (simp add: mean)
  then have "read_payload F \<lparr>rd_data = model_payload F q, rd_pos = 0\<rparr> = Inr (?q, \<lparr>rd_data = model_payload F q, rd_pos = length (model_payload F q)\<rparr>)"
    unfolding reads_def model_payload_def [symmetric] by (simp add: model_payload_def)
  then show ?thesis using q by (simp add: load_payload_def)
qed

section \<open>Metadata ranges that cannot be loaded\<close>

text \<open>\<open>rejects p bs\<close>: from a reader that stands before \<open>bs\<close>, \<open>p\<close> throws.\<close>

definition rejects :: "(io_reader \<Rightarrow> ('a \<times> io_reader) res) \<Rightarrow> bytes \<Rightarrow> bool" where
  "rejects p bs \<longleftrightarrow> (\<forall>r rest. rd_pos r \<le> length (rd_data r) \<and> drop (rd_pos r) (rd_data r) = bs @ rest \<longrightarrow> (\<exists>e. p r = Inl e))"

lemma reads_advance:
  assumes "reads p bs x" and "rd_pos r \<le> length (rd_data r)" and "drop (rd_pos r) (rd_data r) = bs @ tail"
  shows "p r = Inr (x, r\<lparr>rd_pos := rd_pos r + length bs\<rparr>)" and "rd_pos r + length bs \<le> length (rd_data r)"
    and "drop (rd_pos r + length bs) (rd_data r) = tail"
proof -
  show "p r = Inr (x, r\<lparr>rd_pos := rd_pos r + length bs\<rparr>)" using assms unfolding reads_def by blast
  have "length bs \<le> length (rd_data r) - rd_pos r" using arg_cong [OF assms(3), of length] by simp
  then show "rd_pos r + length bs \<le> length (rd_data r)" using assms(2) by linarith
  show "drop (rd_pos r + length bs) (rd_data r) = tail"
    using assms(3) by (metis add.commute append_eq_conv_conj drop_drop)
qed

lemma rejects_bind:
  assumes "reads p bs x" and "rejects (f x) cs"
  shows "rejects (read_bind p f) (bs @ cs)"
  unfolding rejects_def
proof (intro allI impI, elim conjE)
  fix r :: io_reader and rest assume r: "rd_pos r \<le> length (rd_data r)" "drop (rd_pos r) (rd_data r) = (bs @ cs) @ rest"
  note a = reads_advance [OF assms(1) r(1) r(2) [unfolded append_assoc]]
  obtain e where "f x (r\<lparr>rd_pos := rd_pos r + length bs\<rparr>) = Inl e"
    using assms(2) a(2,3) unfolding rejects_def by force
  then show "\<exists>e. read_bind p f r = Inl e" using a(1) by (simp add: read_bind_def)
qed

lemma rejects_lift_bind: "m = Inr x \<Longrightarrow> rejects (f x) cs \<Longrightarrow> rejects (read_bind (read_lift m) f) cs"
  using rejects_bind [OF reads_lift, of m x f cs] by simp

lemma rejects_first: "rejects p bs \<Longrightarrow> rejects (read_bind p f) bs"
  by (force simp: rejects_def read_bind_def)

lemma rejects_if: "\<not> c \<Longrightarrow> rejects p bs \<Longrightarrow> rejects (if c then q else p) bs"
  by simp

lemma rejects_params: "\<not> params_ok p \<Longrightarrow> rejects read_params (params_bytes p)"
proof -
  assume bad: "\<not> params_ok p"
  have eta: "\<lparr>norm_max = norm_max p, norm_step = norm_step p, scale_max = scale_max p, scale_step = scale_step p\<rparr> = p" by (cases p) simp
  have "rejects read_params (le32 (norm_max p) @ le32 (norm_step p) @ le32 (scale_max p) @ le32 (scale_step p) @ [])"
    unfolding read_params_def
    by (intro rejects_bind [OF u32_scalar.reads_scalar]) (simp add: eta bad rejects_def read_lift_def)
  then show ?thesis by (simp add: params_bytes_def)
qed

lemma load_payload_rejects:
  assumes shape: "quantizer_shape F q" and bad: "\<not> params_ok (rq_params q)" and bias: "bias_fits (rq_config q) (rq_rotation q)"
    and io: "faiss_io F" and small: "qc_dimension (rq_config q) \<le> 2 ^ 20"
  shows "\<exists>e. load_payload F (model_payload F q) = Inl e"
proof -
  have c: "config_ok (rq_config q)" and R: "rotation_fits (rq_config q) (rq_rotation q)" and pq: "backend_ok F (rq_config q) (rq_pq q)"
    and mean: "length (rq_mean q) = qc_dimension (rq_config q)"
    using shape by (simp_all add: quantizer_shape_def)
  obtain q0 where q0: "quantizer_new F (rq_config q) = Inr q0" using quantizer_new_accepts [OF c] by blast
  have vec: "reads (read_vector of_le32 4 (qc_dimension (rq_config q)) ''quantizer mean'')
      (le64 (of_nat (length (rq_mean q))) @ concat (map le32 (rq_mean q))) (rq_mean q)"
    using small_dimension(1) [OF shape small] mean by (intro u32_scalar.reads_vector) simp_all
  have "rejects (read_payload F) (model_payload F q)"
    unfolding read_payload_def model_payload_def
    by (intro rejects_bind [OF reads_config [OF c small]] rejects_lift_bind [OF q0] rejects_bind [OF vec] rejects_if
        rejects_bind [OF reads_rotation [OF R bias io small]] rejects_bind [OF reads_backend [OF pq io small c]]
        rejects_first [OF rejects_params [OF bad]])
      (simp add: mean)
  then obtain e where "read_payload F \<lparr>rd_data = model_payload F q, rd_pos = 0\<rparr> = Inl e"
    unfolding rejects_def by force
  then show ?thesis by (simp add: load_payload_def)
qed

end
