(* ===== verification/Quantizer_Disk.thy ===== *)
theory Quantizer_Disk
  imports Quantizer_Correct
begin

text \<open>
  Model files on a disk: what \<open>save\<close> leaves behind under every outcome of the system calls, and what
  a file that \<open>load\<close> accepts contains.
\<close>

definition model_file :: "bytes \<Rightarrow> bytes" where
  "model_file payload = model_magic @ le32 model_version @ le32 endian_marker @ le64 (of_nat (length payload))
    @ le64 (checksum payload) @ payload"

abbreviation temporary_path :: "string \<Rightarrow> string \<Rightarrow> string" where
  "temporary_path path stamp \<equiv> path @ ''.tmp.'' @ stamp"

lemma model_writes_file: "concat (map fst (model_writes payload)) = model_file payload"
  by (simp add: model_writes_def model_file_def Let_def)

lemma model_writes_checked: "model_writes payload \<noteq> []" "snd (last (model_writes payload)) \<noteq> None"
  by (simp_all add: model_writes_def Let_def)

section \<open>Saving\<close>

lemma publish_model_result:
  assumes "publish_model tmp path payload d = (r, d')" and "tmp \<noteq> path"
  shows "(r = Inr () \<longrightarrow> files d' path = Some (model_file payload) \<and> files d' tmp = None)
    \<and> (r \<noteq> Inr () \<longrightarrow> files d' path = files d path) \<and> (\<forall>p. p \<noteq> path \<longrightarrow> p \<noteq> tmp \<longrightarrow> files d' p = files d p)
    \<and> (benign d \<longrightarrow> r = Inr () \<and> benign d')"
proof -
  let ?e = "Runtime_error (''cannot create quantizer model: '' @ path)"
  obtain q d1 where w: "write_stream_file tmp ?e (model_writes payload) d = (q, d1)" by (metis surj_pair)
  note res = write_stream_file_result [OF w model_writes_checked, unfolded model_writes_file only_file_def]
  show ?thesis
  proof (cases q)
    case (Inl e)
    then have "r = Inl e" "d' = d1" using assms(1) w by (simp_all add: publish_model_def)
    then show ?thesis using res assms(2) Inl by simp
  next
    case (Inr u)
    then have "rename_file tmp path Runtime_error d1 = (r, d')" using assms(1) w by (simp add: publish_model_def)
    from rename_file_result [OF this] show ?thesis using res assms(2) Inr by auto
  qed
qed

lemma quantizer_save_result:
  assumes "quantizer_save F stamp path q d = (r, d')"
  shows "(r = Inr () \<longrightarrow> (\<exists>w. write_payload F q vector_writer = Inr w \<and> files d' path = Some (model_file (wr_data w))))
    \<and> (r \<noteq> Inr () \<longrightarrow> files d' path = files d path)
    \<and> (\<forall>p. p \<noteq> path \<longrightarrow> p \<noteq> temporary_path path stamp \<longrightarrow> files d' p = files d p)
    \<and> (r = Inr () \<longrightarrow> files d' (temporary_path path stamp) = None)
    \<and> (benign d \<longrightarrow> rq_trained q \<longrightarrow> path \<noteq> [] \<longrightarrow> write_payload F q vector_writer = Inr w0 \<longrightarrow> r = Inr () \<and> benign d')"
proof (cases "rq_trained q \<and> path \<noteq> []")
  case False
  then show ?thesis using assms by (auto simp: quantizer_save_def)
next
  case True
  show ?thesis
  proof (cases "write_payload F q vector_writer")
    case (Inl e)
    then show ?thesis using assms True by (auto simp: quantizer_save_def)
  next
    case (Inr w)
    let ?mk = "make_parent path"
    let ?tmp = "temporary_path path stamp"
    obtain c d1 where mk: "?mk d = (c, d1)" by (metis surj_pair)
    have mk': "files d1 = files d \<and> (benign d \<longrightarrow> c = Inr () \<and> benign d1)"
      using mk create_directories_result [of "parent_path path" d c d1] by (auto simp: make_parent_def split: if_splits)
    show ?thesis
    proof (cases c)
      case (Inl e)
      have "io_bind ?mk g d = (Inl e, d1)" for g :: "unit \<Rightarrow> unit io" by (rule io_bind_Inl) (use mk Inl in simp)
      then have "r = Inl e \<and> d' = d1" using assms True Inr by (simp add: quantizer_save_def)
      then show ?thesis using mk' Inl by simp
    next
      case cInr: (Inr u)
      obtain p d2 where p: "publish_model ?tmp path (wr_data w) d1 = (p, d2)" by (metis surj_pair)
      note pub = publish_model_result [OF p]
      have run: "(r, d') = (case p of Inl e \<Rightarrow> (Inl e, remove_file ?tmp d2) | Inr _ \<Rightarrow> (Inr (), d2))"
      proof -
        have "io_bind ?mk g d = g u d1" for g :: "unit \<Rightarrow> unit io" by (rule io_bind_Inr) (use mk cInr in simp)
        then show ?thesis using assms True Inr p by (cases p) (auto simp: quantizer_save_def)
      qed
      show ?thesis
      proof (cases p)
        case (Inl e)
        then have r: "r = Inl e" "d' = remove_file ?tmp d2" using run by simp_all
        have "files d' x = files d2 x" if "x \<noteq> ?tmp" for x using remove_file_result [of ?tmp d2 x] that r(2) by auto
        then show ?thesis using pub mk' r Inl by simp
      next
        case pInr: (Inr u)
        then have "r = Inr ()" "d' = d2" using run by simp_all
        then show ?thesis using pub mk' pInr Inr by simp
      qed
    qed
  qed
qed

section \<open>Loading\<close>

lemma read_field_Inr:
  assumes "read_file_field p pos n m d = (Inr bs, d')"
  shows "files d' = files d" and "bs = segment (content d p) pos n" and "length bs = n"
proof -
  have read: "stream_read p pos n d = (Some bs, d')"
    using assms by (auto simp: read_file_field_def split: prod.splits option.splits)
  from stream_read_result [OF read] show "files d' = files d" and "bs = segment (content d p) pos n" and "length bs = n" by blast+
qed

lemma read_field_ok:
  assumes "benign d" and "pos + n \<le> length (content d p)"
  shows "\<exists>d'. read_file_field p pos n m d = (Inr (segment (content d p) pos n), d') \<and> benign d' \<and> content d' p = content d p"
proof -
  obtain r d' where s: "stream_read p pos n d = (r, d')" by (metis surj_pair)
  note res = stream_read_result [OF s]
  have "r = Some (segment (content d p) pos n)" "benign d'" using res assms by blast+
  moreover have "content d' p = content d p" using res content_cong by blast
  ultimately show ?thesis using s by (simp add: read_file_field_def)
qed

lemma le64_of_le64: "length bs = 8 \<Longrightarrow> le64 (of_le64 bs) = bs"
proof (rule nth_equalityI)
  assume len: "length bs = 8"
  then show "length (le64 (of_le64 bs)) = length bs" by (simp add: le64_def)
  fix i assume "i < length (le64 (of_le64 bs))"
  then have i: "i < 8" by (simp add: le64_def)
  show "le64 (of_le64 bs) ! i = bs ! i"
  proof (rule bit_word_eqI)
    fix k assume "k < LENGTH(8)"
    then have k: "k < 8" by simp
    have fold: "bit (foldr (\<lambda>i acc. push_bit (8 * i) (ucast (bs ! i)) OR acc) is 0 :: u64) m
        \<longleftrightarrow> (\<exists>i \<in> set is. bit (push_bit (8 * i) (ucast (bs ! i)) :: u64) m)" for "is" m
      by (induction "is") (simp_all add: bit_or_iff)
    have "bit (push_bit (8 * j) (ucast (bs ! j)) :: u64) (8 * i + k) \<longleftrightarrow> j = i \<and> bit (bs ! i) k" for j
    proof (cases j i rule: linorder_cases)
      case less
      then have "8 \<le> 8 * i + k - 8 * j" by linarith
      then have "\<not> bit (bs ! j) (8 * i + k - 8 * j)" using bit_imp_le_length [of "bs ! j"] by fastforce
      then show ?thesis using less by (simp add: bit_simps)
    next
      case equal
      then show ?thesis using i k by (simp add: bit_simps)
    next
      case greater
      then show ?thesis using k by (simp add: bit_simps)
    qed
    then have "bit (of_le64 bs) (8 * i + k) \<longleftrightarrow> bit (bs ! i) k" unfolding of_le64_def fold using i by auto
    then show "bit (le64 (of_le64 bs) ! i) k = bit (bs ! i) k" using i k by (simp add: le64_def bit_simps)
  qed
qed

text \<open>The four header fields behind the magic, and the payload, as segments of the file.\<close>

lemma header_segments:
  assumes "segment f 0 8 = model_magic" and "of_le32 (segment f 8 4) = model_version" and "of_le32 (segment f 12 4) = endian_marker"
    and "length (segment f 8 4) = 4" "length (segment f 12 4) = 4" "length (segment f 16 8) = 8" "length (segment f 24 8) = 8"
    and "length (segment f 32 n) = n" and "n = unat (of_le64 (segment f 16 8))" and "checksum (segment f 32 n) = of_le64 (segment f 24 8)"
  shows "\<exists>tail. f = model_file (segment f 32 n) @ tail"
proof -
  have step: "drop m f = segment f m k @ drop (m + k) f" for m k
    by (metis add.commute append_take_drop_id drop_drop segment_def)
  have cut: "f = segment f 0 8 @ segment f 8 4 @ segment f 12 4 @ segment f 16 8 @ segment f 24 8 @ segment f 32 n @ drop (32 + n) f"
    using step [of 0 8] step [of 8 4] step [of 12 4] step [of 16 8] step [of 24 8] step [of 32 n] by simp
  have "segment f 8 4 = le32 model_version" "segment f 12 4 = le32 endian_marker"
    using assms(2-5) le32_of_le32 by metis+
  moreover have "segment f 16 8 = le64 (of_nat (length (segment f 32 n)))" using assms(6,8,9) le64_of_le64 by simp
  moreover have "segment f 24 8 = le64 (checksum (segment f 32 n))" using assms(7,10) le64_of_le64 by simp
  ultimately show ?thesis using cut assms(1) by (metis append.assoc model_file_def)
qed

lemma io_bind_Inr_iff: "io_bind m f d = (Inr x, d2) \<longleftrightarrow> (\<exists>y d1. m d = (Inr y, d1) \<and> f y d1 = (Inr x, d2))"
  by (auto simp: io_bind_def split: prod.splits sum.splits)

lemma io_if_Inr_iff: "(if c then io_throw e else m) d = (Inr x, d2) \<longleftrightarrow> \<not> c \<and> m d = (Inr x, d2)"
  by simp

lemma read_field_benign:
  assumes "read_file_field p k n m d = (r, d')" and "benign d"
  shows "benign d'"
proof -
  obtain q where q: "stream_read p k n d = (q, d')"
    using assms(1) by (auto simp: read_file_field_def split: prod.splits option.splits)
  show ?thesis using stream_read_result [OF q] assms(2) by simp
qed

lemma read_body_Inr:
  assumes "read_model_body path n s d = (Inr payload, d')"
  shows "payload = segment (content d path) 32 n \<and> length payload = n \<and> files d' = files d \<and> checksum payload = s
    \<and> (benign d \<longrightarrow> length (content d path) \<le> 32 + n)"
proof -
  obtain y d1 where f0: "(if n = 0 then io_return [] else read_file_field path 32 n ''Recast quantizer model length is inconsistent'') d = (Inr y, d1)"
    and t: "(case stream_more path (32 + n) d1 of (extra, d') \<Rightarrow>
        if extra then (Inl (Runtime_error ''Recast quantizer model length is inconsistent''), d')
        else if checksum y \<noteq> s then (Inl (Runtime_error ''Recast quantizer model checksum mismatch''), d')
        else (Inr y, d')) = (Inr payload, d')"
    using assms unfolding read_model_body_def io_bind_Inr_iff by blast
  obtain m d2 where m': "stream_more path (32 + n) d1 = (m, d2)" by (metis surj_pair)
  have f: "(if n = 0 then io_return [] else read_file_field path 32 n ''Recast quantizer model length is inconsistent'') d = (Inr payload, d1)"
    and m: "stream_more path (32 + n) d1 = (False, d')" and s: "checksum payload = s"
    using f0 t m' by (simp_all split: if_split_asm)
  have p: "payload = segment (content d path) 32 n \<and> length payload = n \<and> files d1 = files d \<and> (benign d \<longrightarrow> benign d1)"
  proof (cases "n = 0")
    case False
    then have r: "read_file_field path 32 n ''Recast quantizer model length is inconsistent'' d = (Inr payload, d1)" using f by simp
    show ?thesis using read_field_Inr [OF r] read_field_benign [OF r] by blast
  qed (use f in \<open>simp add: segment_def\<close>)
  then have "content d1 path = content d path" by (simp add: content_def)
  then have "benign d \<longrightarrow> length (content d path) \<le> 32 + n" and "files d' = files d" using stream_more_result [OF m] p by auto
  then show ?thesis using p s by blast
qed

lemma read_model_Inr:
  assumes "read_model path d = (Inr payload, d')"
  shows "files d' = files d \<and> length payload \<le> maximum_model_bytes
    \<and> (\<exists>tail. content d path = model_file payload @ tail \<and> (benign d \<longrightarrow> tail = []))"
proof -
  let ?f = "content d path"
  obtain d0 where opened: "open_in path d = (True, d0)" using assms by (auto simp: read_model_def split: prod.splits if_splits)
  obtain magic d1 version d2 endian d3 sz d4 sm d5 where
    f1: "read_file_field path 0 8 ''invalid Recast quantizer model magic'' d0 = (Inr magic, d1)" "magic = model_magic"
    and f2: "read_file_field path 8 4 ''truncated quantizer model header'' d1 = (Inr version, d2)" "of_le32 version = model_version"
    and f3: "read_file_field path 12 4 ''truncated quantizer model header'' d2 = (Inr endian, d3)" "of_le32 endian = endian_marker"
    and f4: "read_file_field path 16 8 ''truncated quantizer model header'' d3 = (Inr sz, d4)"
    and f5: "read_file_field path 24 8 ''truncated quantizer model header'' d4 = (Inr sm, d5)"
    and bound: "unat (of_le64 sz) \<le> maximum_model_bytes"
    and body: "read_model_body path (unat (of_le64 sz)) (of_le64 sm) d5 = (Inr payload, d')"
    using assms unfolding read_model_def opened prod.case Let_def
    by (simp only: io_bind_Inr_iff io_if_Inr_iff not_True_eq_False if_False not_not de_Morgan_disj not_less) blast
  let ?n = "unat (of_le64 sz)"
  note o' = open_in_result [OF opened]
  note r1 = read_field_Inr [OF f1(1)] and r2 = read_field_Inr [OF f2(1)] and r3 = read_field_Inr [OF f3(1)]
    and r4 = read_field_Inr [OF f4] and r5 = read_field_Inr [OF f5] and b = read_body_Inr [OF body]
  have c: "content d0 path = ?f" "content d1 path = ?f" "content d2 path = ?f" "content d3 path = ?f" "content d4 path = ?f" "content d5 path = ?f"
    using o' r1(1) r2(1) r3(1) r4(1) r5(1) by (simp_all add: content_def)
  have p: "payload = segment ?f 32 ?n" "length payload = ?n" "checksum payload = of_le64 sm" using b c by metis+
  have "\<exists>tail. ?f = model_file (segment ?f 32 ?n) @ tail"
  proof (rule header_segments)
    show "segment ?f 0 8 = model_magic" "of_le32 (segment ?f 8 4) = model_version" "of_le32 (segment ?f 12 4) = endian_marker"
      "length (segment ?f 8 4) = 4" "length (segment ?f 12 4) = 4" "length (segment ?f 16 8) = 8" "length (segment ?f 24 8) = 8"
      using f1(2) f2(2) f3(2) r1(2) r2(2,3) r3(2,3) r4(2,3) r5(2,3) c by metis+
    show "length (segment ?f 32 ?n) = ?n" using p by simp
    show "?n = unat (of_le64 (segment ?f 16 8))" using r4(2) c by simp
    show "checksum (segment ?f 32 ?n) = of_le64 (segment ?f 24 8)" using p r5(2) c by simp
  qed
  then obtain tail where tail: "?f = model_file payload @ tail" unfolding p(1) [symmetric] by blast
  have len: "length (model_file payload) = 32 + ?n" using p(2) by (simp add: model_file_def model_magic_def le64_def)
  have "benign d5" if "benign d"
  proof -
    have "benign d0" using o' that by simp
    from read_field_benign [OF f5 read_field_benign [OF f4 read_field_benign [OF f3(1) read_field_benign [OF f2(1) read_field_benign [OF f1(1) this]]]]]
    show ?thesis .
  qed
  then have "tail = []" if "benign d" using b c tail len that by (metis (no_types, lifting) add_le_cancel_left add_0_right le_zero_eq length_0_conv length_append)
  moreover have "files d' = files d" using b o' r1(1) r2(1) r3(1) r4(1) r5(1) by simp
  ultimately show ?thesis using tail bound p(2) by auto
qed

lemma model_file_segments:
  assumes "f = model_file payload"
  shows "segment f 0 8 = model_magic" and "segment f 8 4 = le32 model_version" and "segment f 12 4 = le32 endian_marker"
    and "segment f 16 8 = le64 (of_nat (length payload))" and "segment f 24 8 = le64 (checksum payload)"
    and "segment f 32 (length payload) = payload" and "length f = 32 + length payload"
  using assms by (simp_all add: model_file_def model_magic_def segment_def le32_def le64_def upt_rec)

lemma read_model_ok:
  assumes b: "benign d" and f: "files d path = Some (model_file payload)" and n: "length payload \<le> maximum_model_bytes"
  shows "\<exists>d'. read_model path d = (Inr payload, d')"
proof -
  let ?f = "model_file payload"
  note segs = model_file_segments [OF refl, of payload]
  have c0: "content d path = ?f" using f by (simp add: content_def)
  obtain opened d0 where op: "open_in path d = (opened, d0)" by (metis surj_pair)
  have o': "opened" "benign d0" "content d0 path = ?f" using open_in_result [OF op] b f by (simp_all add: content_def)
  obtain d1 where d1: "read_file_field path 0 8 ''invalid Recast quantizer model magic'' d0 = (Inr model_magic, d1)" "benign d1" "content d1 path = ?f"
    using read_field_ok [OF o'(2), of 0 8 path] o'(3) segs by auto
  obtain d2 where d2: "read_file_field path 8 4 ''truncated quantizer model header'' d1 = (Inr (le32 model_version), d2)" "benign d2" "content d2 path = ?f"
    using read_field_ok [OF d1(2), of 8 4 path] d1(3) segs by auto
  obtain d3 where d3: "read_file_field path 12 4 ''truncated quantizer model header'' d2 = (Inr (le32 endian_marker), d3)" "benign d3" "content d3 path = ?f"
    using read_field_ok [OF d2(2), of 12 4 path] d2(3) segs by auto
  obtain d4 where d4: "read_file_field path 16 8 ''truncated quantizer model header'' d3 = (Inr (le64 (of_nat (length payload))), d4)" "benign d4" "content d4 path = ?f"
    using read_field_ok [OF d3(2), of 16 8 path] d3(3) segs by auto
  obtain d5 where d5: "read_file_field path 24 8 ''truncated quantizer model header'' d4 = (Inr (le64 (checksum payload)), d5)" "benign d5" "content d5 path = ?f"
    using read_field_ok [OF d4(2), of 24 8 path] d4(3) segs by auto
  have size: "unat (of_nat (length payload) :: u64) = length payload"
    using n by (simp add: unat_of_nat take_bit_nat_eq_self maximum_model_bytes_def)
  obtain d6 where d6: "(if length payload = 0 then io_return [] else read_file_field path 32 (length payload) ''Recast quantizer model length is inconsistent'') d5 = (Inr payload, d6)"
    "benign d6" "content d6 path = ?f"
    using read_field_ok [OF d5(2), of 32 "length payload" path] d5 segs by (cases "payload = []") auto
  obtain m d7 where m: "stream_more path (32 + length payload) d6 = (m, d7)" by (metis surj_pair)
  have "\<not> m" using stream_more_result [OF m] d6 segs(7) by simp
  then have body: "read_model_body path (length payload) (checksum payload) d5 = (Inr payload, d7)"
    unfolding read_model_body_def using m by (subst io_bind_Inr [where d = d5 and x = payload and d' = d6]) (use d6(1) in simp_all)
  have fits: "\<not> (length payload > maximum_model_bytes \<or> length payload > size_max)"
    using n by (simp add: maximum_model_bytes_def size_max_def)
  have "read_model path d = (Inr payload, d7)"
    unfolding read_model_def op prod.case Let_def
    using o'(1) d1(1) d2(1) d3(1) d4(1) d5(1) body fits by (simp add: size of_le64_le64 io_bind_def)
  then show ?thesis by blast
qed

end
