(* ===== verification/Checkpoint_Frames.thy ===== *)
theory Checkpoint_Frames
  imports Index_Checkpoint Quantizer_Disk List_Index_State
begin

text \<open>
  Proof rules for programs of the I/O monad: what holds after a return, what holds after an exception, and
  that a program whose calls all succeed returns. With them, what each block of \<open>checkpoint\<close> does to the
  files.
\<close>

section \<open>Triples\<close>

text \<open>
  From a disk with \<open>P\<close> the program returns into \<open>Q\<close> or throws into \<open>E\<close>; when \<open>ok\<close> holds and no call fails it
  returns.
\<close>

definition io_spec :: "bool \<Rightarrow> (disk \<Rightarrow> bool) \<Rightarrow> 'a io \<Rightarrow> ('a \<Rightarrow> disk \<Rightarrow> bool) \<Rightarrow> (disk \<Rightarrow> bool) \<Rightarrow> bool" where
  "io_spec ok P m Q E \<longleftrightarrow> (\<forall>d r d'. P d \<longrightarrow> m d = (r, d') \<longrightarrow>
      (\<forall>x. r = Inr x \<longrightarrow> Q x d') \<and> (\<forall>e. r = Inl e \<longrightarrow> E d') \<and> (ok \<longrightarrow> benign d \<longrightarrow> (\<exists>x. r = Inr x) \<and> benign d'))"

lemma io_specI:
  assumes "\<And>d x d'. P d \<Longrightarrow> m d = (Inr x, d') \<Longrightarrow> Q x d' \<and> (ok \<longrightarrow> benign d \<longrightarrow> benign d')"
    and "\<And>d e d'. P d \<Longrightarrow> m d = (Inl e, d') \<Longrightarrow> E d' \<and> (ok \<longrightarrow> \<not> benign d)"
  shows "io_spec ok P m Q E"
  unfolding io_spec_def
proof (intro allI impI)
  fix d r d' assume "P d" and "m d = (r, d')"
  then show "(\<forall>x. r = Inr x \<longrightarrow> Q x d') \<and> (\<forall>e. r = Inl e \<longrightarrow> E d') \<and> (ok \<longrightarrow> benign d \<longrightarrow> (\<exists>x. r = Inr x) \<and> benign d')"
    using assms(1) [of d _ d'] assms(2) [of d _ d'] by (cases r) simp_all
qed

lemma io_spec_bind:
  assumes "io_spec ok P m Q E" and "\<And>x. io_spec ok (Q x) (f x) R E"
  shows "io_spec ok P (io_bind m f) R E"
  unfolding io_spec_def
proof (intro allI impI)
  fix d r d2 assume P: "P d" and run: "io_bind m f d = (r, d2)"
  from run show "(\<forall>x. r = Inr x \<longrightarrow> R x d2) \<and> (\<forall>e. r = Inl e \<longrightarrow> E d2) \<and> (ok \<longrightarrow> benign d \<longrightarrow> (\<exists>x. r = Inr x) \<and> benign d2)"
  proof (rule io_bind_cases)
    fix e assume "m d = (Inl e, d2)" "r = Inl e"
    then show ?thesis using assms(1) P unfolding io_spec_def by fastforce
  next
    fix x d1 assume m: "m d = (Inr x, d1)" and f: "f x d1 = (r, d2)"
    then have "Q x d1" "ok \<longrightarrow> benign d \<longrightarrow> benign d1" using assms(1) P unfolding io_spec_def by blast+
    then show ?thesis using assms(2) [of x] f unfolding io_spec_def by blast
  qed
qed

lemma io_spec_weaken:
  assumes "io_spec ok P m Q E" and "\<And>d. P' d \<Longrightarrow> P d" and "\<And>x d. Q x d \<Longrightarrow> Q' x d" and "\<And>d. E d \<Longrightarrow> E' d" and "ok' \<Longrightarrow> ok"
  shows "io_spec ok' P' m Q' E'"
  using assms unfolding io_spec_def by blast

lemma io_spec_run:
  assumes "io_spec ok P m Q E" and "P d" and "m d = (r, d')"
  shows "r = Inr x \<Longrightarrow> Q x d'" and "r = Inl e \<Longrightarrow> E d'" and "ok \<Longrightarrow> benign d \<Longrightarrow> (\<exists>x. r = Inr x) \<and> benign d'"
  using assms unfolding io_spec_def by blast+

lemma io_spec_return: "(\<And>d. P d \<Longrightarrow> Q x d) \<Longrightarrow> io_spec ok P (io_return x) Q E"
  by (rule io_specI) auto

lemma io_spec_throw: "(\<And>d. P d \<Longrightarrow> E d) \<Longrightarrow> \<not> ok \<Longrightarrow> io_spec ok P (io_throw e) Q E"
  by (rule io_specI) auto

section \<open>Stream bodies\<close>

text \<open>A program that appends \<open>bs\<close> to its stream, or throws.\<close>

definition appends :: "bool \<Rightarrow> (out_stream \<Rightarrow> out_stream io) \<Rightarrow> bytes \<Rightarrow> bool" where
  "appends ok body bs \<longleftrightarrow> (\<forall>p (d :: disk) f. files d p = Some f \<longrightarrow>
      io_spec ok (\<lambda>d1. d1 = d) (body \<lparr>os_path = p, os_good = True\<rparr>)
        (\<lambda>s d'. s = \<lparr>os_path = p, os_good = True\<rparr> \<and> only_file p d d' \<and> files d' p = Some (f @ bs)) (only_file p d))"

lemma appends_bind:
  assumes "appends ok a x" and "appends ok b y"
  shows "appends ok (\<lambda>s. io_bind (a s) b) (x @ y)"
  unfolding appends_def
proof (intro allI impI)
  fix p and d :: disk and f assume p: "files d p = Some f"
  let ?s = "\<lparr>os_path = p, os_good = True\<rparr>"
  show "io_spec ok (\<lambda>d1. d1 = d) (io_bind (a ?s) b)
      (\<lambda>s d'. s = ?s \<and> only_file p d d' \<and> files d' p = Some (f @ x @ y)) (only_file p d)"
  proof (rule io_spec_bind)
    show "io_spec ok (\<lambda>d1. d1 = d) (a ?s) (\<lambda>s d'. s = ?s \<and> only_file p d d' \<and> files d' p = Some (f @ x)) (only_file p d)"
      using assms(1) p unfolding appends_def by blast
    show "io_spec ok (\<lambda>d'. s = ?s \<and> only_file p d d' \<and> files d' p = Some (f @ x)) (b s)
        (\<lambda>s d'. s = ?s \<and> only_file p d d' \<and> files d' p = Some (f @ x @ y)) (only_file p d)" for s
    proof (cases "s = ?s")
      case True
      have "io_spec ok (\<lambda>d1. d1 = d2) (b ?s) (\<lambda>s d'. s = ?s \<and> only_file p d2 d' \<and> files d' p = Some ((f @ x) @ y)) (only_file p d2)"
        if "files d2 p = Some (f @ x)" for d2
        using assms(2) that unfolding appends_def by blast
      then show ?thesis unfolding True io_spec_def append_assoc using only_file_trans [of p d] by blast
    qed (simp add: io_spec_def)
  qed
qed

lemma appends_return: "appends ok io_return []"
  by (auto simp: appends_def intro!: io_spec_return)

lemma appends_weaken: "appends ok body bs \<Longrightarrow> (ok' \<Longrightarrow> ok) \<Longrightarrow> appends ok' body bs"
  unfolding appends_def io_spec_def by blast

text \<open>Writes that are all checked.\<close>

lemma stream_writes_path: "stream_writes ws s d = (Inr s', d') \<Longrightarrow> os_path s' = os_path s"
proof (induction ws arbitrary: s d)
  case (Cons w ws)
  obtain bs throw where w: "w = (bs, throw)" by (metis surj_pair)
  obtain s1 d1 where s1: "stream_write bs s d = (s1, d1)" by (metis surj_pair)
  then have "os_path s1 = os_path s" by (auto simp: stream_write_def split: if_splits prod.splits)
  then show ?case using Cons s1 by (auto simp: w split: option.splits if_splits)
qed simp

lemma appends_writes:
  assumes "\<forall>w \<in> set ws. snd w \<noteq> None"
  shows "appends ok (stream_writes ws) (concat (map fst ws))"
  unfolding appends_def
proof (intro allI impI io_specI)
  fix p and d :: disk and f d1 s d'
  assume p: "files d p = Some f" and "d1 = d" and run: "stream_writes ws \<lparr>os_path = p, os_good = True\<rparr> d1 = (Inr s, d')"
  then have run: "stream_writes ws \<lparr>os_path = p, os_good = True\<rparr> d = (Inr s, d')" by simp
  note wd = stream_writes_done [OF this, unfolded writes_done_def out_stream.select_convs]
  have last: "ws \<noteq> [] \<Longrightarrow> snd (last ws) \<noteq> None" using assms by simp
  have good: "os_good s"
  proof (cases "ws = []")
    case False
    then show ?thesis using wd last p by simp
  qed (use run in auto)
  then have "s = \<lparr>os_path = p, os_good = True\<rparr>" using stream_writes_path [OF run] by (cases s) simp
  moreover have "content d p = f" using p by (simp add: content_def)
  ultimately show "(s = \<lparr>os_path = p, os_good = True\<rparr> \<and> only_file p d d' \<and> files d' p = Some (f @ concat (map fst ws)))
      \<and> (ok \<longrightarrow> benign d1 \<longrightarrow> benign d')"
    using wd good p \<open>d1 = d\<close> by simp
next
  fix p and d :: disk and f d1 e d'
  assume p: "files d p = Some f" and "d1 = d" and run: "stream_writes ws \<lparr>os_path = p, os_good = True\<rparr> d1 = (Inl e, d')"
  then have run: "stream_writes ws \<lparr>os_path = p, os_good = True\<rparr> d = (Inl e, d')" by simp
  show "only_file p d d' \<and> (ok \<longrightarrow> \<not> benign d1)"
    using stream_writes_done [OF run, unfolded writes_done_def out_stream.select_convs] p \<open>d1 = d\<close> by simp
qed

lemma binary_bytes [simp]: "concat (map fst (write_binary bs)) = bs"
  by (simp add: write_binary_def)

lemma binary_checked: "\<forall>w \<in> set (write_binary bs). snd w \<noteq> None"
  by (simp add: write_binary_def)

lemma appends_sizes: "appends ok (write_sizes mls) (concat (map (\<lambda>ml. le32 (ml_size ml)) mls))"
proof -
  let ?ws = "concat (map (\<lambda>ml. write_binary (le32 (ml_size ml))) mls)"
  have "concat (map fst ?ws) = concat (map (\<lambda>ml. le32 (ml_size ml)) mls)" by (induction mls) simp_all
  moreover have "\<forall>w \<in> set ?ws. snd w \<noteq> None" using binary_checked by auto
  ultimately show ?thesis using appends_writes [of ?ws ok] by (simp add: write_sizes_def)
qed

lemma appends_manifest: "appends ok (write_manifest m) (manifest_bytes m)"
  using appends_writes [OF binary_checked, of ok "manifest_bytes m"] by (simp add: write_manifest_def)

text \<open>The bytes of a list in the postings file.\<close>

definition image_bytes :: "nat \<Rightarrow> memory_list \<Rightarrow> bytes" where
  "image_bytes cb ml = take (unat (ml_padded ml) * cb) (ml_codes ml) @ take (unat (ml_padded ml) * 3) (ml_metadata ml)"

definition image_ok :: "nat \<Rightarrow> memory_list \<Rightarrow> bool" where
  "image_ok cb ml \<longleftrightarrow> (\<exists>x. list_image cb ml = Inr x)"

lemma list_image_Inr:
  assumes "list_image cb ml = Inr (codes, metadata)"
  shows "codes @ metadata = image_bytes cb ml"
  using assms
  by (auto simp: list_image_def image_bytes_def res_bind_eq_Inr checked_multiply_def packed_metadata_size_bbs32_def split: if_splits)

lemma appends_postings: "appends (ok \<and> (\<forall>ml \<in> set mls. image_ok cb ml)) (write_postings cb mls) (concat (map (image_bytes cb) mls))"
proof (induction mls)
  case Nil
  have "write_postings cb [] = io_return" by (rule ext) simp
  then show ?case unfolding list.map concat.simps by (simp only: appends_return)
next
  case (Cons ml mls)
  let ?ok = "ok \<and> (\<forall>m \<in> set (ml # mls). image_ok cb m)"
  have ih: "appends ?ok (write_postings cb mls) (concat (map (image_bytes cb) mls))"
    by (rule appends_weaken [OF Cons.IH]) simp
  show ?case
  proof (cases "list_image cb ml")
    case (Inl e)
    then have bad: "\<not> image_ok cb ml" by (simp add: image_ok_def)
    have "write_postings cb (ml # mls) s = io_throw e" for s
      by (rule ext) (simp add: Inl io_bind_def)
    then show ?thesis unfolding appends_def by (auto intro!: io_spec_throw simp: bad simp del: write_postings.simps)
  next
    case (Inr x)
    obtain codes metadata where x: "x = (codes, metadata)" by (metis surj_pair)
    let ?ws = "write_binary codes @ write_binary metadata"
    have "appends ?ok (\<lambda>s. io_bind (stream_writes ?ws s) (write_postings cb mls)) ((codes @ metadata) @ concat (map (image_bytes cb) mls))"
      using appends_bind [OF appends_writes [of ?ws] ih] binary_checked by auto
    moreover have "write_postings cb (ml # mls) = (\<lambda>s. io_bind (stream_writes ?ws s) (write_postings cb mls))"
      by (rule ext) (simp add: Inr x)
    ultimately show ?thesis using list_image_Inr [of cb ml codes metadata] Inr x by simp
  qed
qed

section \<open>One published file\<close>

text \<open>Files outside \<open>S\<close> are those of \<open>d0\<close>.\<close>

definition frame :: "string set \<Rightarrow> disk \<Rightarrow> disk \<Rightarrow> bool" where
  "frame S d0 d \<longleftrightarrow> (\<forall>p. p \<notin> S \<longrightarrow> files d p = files d0 p)"

lemma frame_refl [simp]: "frame S d d"
  by (simp add: frame_def)

lemma frame_only: "frame S d0 d \<Longrightarrow> only_file p d d' \<Longrightarrow> p \<in> S \<Longrightarrow> frame S d0 d'"
  by (auto simp: frame_def only_file_def)

lemma frame_keep: "frame S d0 d \<Longrightarrow> p \<notin> S \<Longrightarrow> files d p = files d0 p"
  by (simp add: frame_def)

lemma frame_mono: "frame S d d' \<Longrightarrow> S \<subseteq> T \<Longrightarrow> frame T d d'"
  by (auto simp: frame_def)

lemma frame_same: "files d' = files d \<Longrightarrow> frame S d d'"
  by (simp add: frame_def)

lemma frame_trans: "frame S d0 d1 \<Longrightarrow> frame S' d1 d2 \<Longrightarrow> S \<subseteq> T \<Longrightarrow> S' \<subseteq> T \<Longrightarrow> frame T d0 d2"
  unfolding frame_def by (metis subsetD)

lemma checkpoint_file_spec:
  assumes "appends ok body bs"
  shows "io_spec ok (\<lambda>d1. d1 = d) (checkpoint_file p name body) (\<lambda>_ d'. only_file p d d' \<and> files d' p = Some bs) (only_file p d)"
proof -
  let ?s = "\<lparr>os_path = p, os_good = True\<rparr>"
  let ?run = "\<lambda>s. io_bind (body s) (stream_writes [([], Some (Runtime_error (''cannot flush '' @ name @ '' checkpoint'')))])"
  have "appends ok ?run (bs @ concat (map fst [([] :: bytes, Some (Runtime_error (''cannot flush '' @ name @ '' checkpoint'')))]))"
    using appends_bind [OF assms appends_writes [of "[([], Some (Runtime_error (''cannot flush '' @ name @ '' checkpoint'')))]"]] by simp
  then have app: "appends ok ?run bs" by simp
  have run: "io_spec ok (\<lambda>d1. d1 = d1') (?run ?s) (\<lambda>s d'. s = ?s \<and> only_file p d1' d' \<and> files d' p = Some bs) (only_file p d1')"
    if "files d1' p = Some []" for d1'
    using app [unfolded appends_def, rule_format, OF that] by simp
  show ?thesis
    unfolding io_spec_def
  proof (intro allI impI)
    fix d0 r d' assume "d0 = d" and res: "checkpoint_file p name body d0 = (r, d')"
    obtain s d1 where o: "open_out p d = (s, d1)" by (metis surj_pair)
    note out = open_out_result [OF o]
    show "(\<forall>x. r = Inr x \<longrightarrow> only_file p d d' \<and> files d' p = Some bs) \<and> (\<forall>e. r = Inl e \<longrightarrow> only_file p d d')
        \<and> (ok \<longrightarrow> benign d0 \<longrightarrow> (\<exists>x. r = Inr x) \<and> benign d')"
    proof (cases "os_good s")
      case True
      then have s: "s = ?s" "files d1 p = Some []" using out by (cases s, simp)+
      obtain q where q: "?run ?s d1 = (q, d')" "r = res_bind q (\<lambda>_. Inr ())"
        using res o True \<open>d0 = d\<close> s(1) by (auto simp: checkpoint_file_def io_bind_def split: prod.splits sum.splits)
      note spec = io_spec_run [OF run [OF s(2)] refl q(1)]
      show ?thesis
      proof (cases q)
        case (Inl e)
        then show ?thesis using spec out q(2) only_file_trans [of p d d1 d'] \<open>d0 = d\<close> by auto
      next
        case (Inr x)
        then show ?thesis using spec out q(2) only_file_trans [of p d d1 d'] \<open>d0 = d\<close> by auto
      qed
    next
      case False
      then show ?thesis using res o out \<open>d0 = d\<close> by (auto simp: checkpoint_file_def)
    qed
  qed
qed

lemma replace_file_spec:
  "io_spec (files d src \<noteq> None) (\<lambda>d1. d1 = d) (replace_file src dest)
    (\<lambda>_ d'. \<exists>f. files d src = Some f \<and> files d' = (files d)(src := None, dest \<mapsto> f)) (\<lambda>d'. files d' = files d)"
proof (rule io_specI)
  fix d1 x d' assume "d1 = d" and "replace_file src dest d1 = (Inr x, d')"
  then have run: "rename_file src dest (\<lambda>err. Runtime_error (''cannot publish checkpoint file '' @ dest @ '': '' @ err)) d = (Inr x, d')"
    by (simp add: replace_file_def)
  show "(\<exists>f. files d src = Some f \<and> files d' = (files d)(src := None, dest \<mapsto> f)) \<and> (files d src \<noteq> None \<longrightarrow> benign d1 \<longrightarrow> benign d')"
    using rename_file_result [OF run] \<open>d1 = d\<close> by simp
next
  fix d1 e d' assume "d1 = d" and "replace_file src dest d1 = (Inl e, d')"
  then have run: "rename_file src dest (\<lambda>err. Runtime_error (''cannot publish checkpoint file '' @ dest @ '': '' @ err)) d = (Inl e, d')"
    by (simp add: replace_file_def)
  show "files d' = files d \<and> (files d src \<noteq> None \<longrightarrow> \<not> benign d1)"
    using rename_file_result [OF run] \<open>d1 = d\<close> by auto
qed

text \<open>
  A published file is complete, and its renaming is the only step that changes the file itself: an
  exception leaves it as it was.
\<close>

lemma publish_file_spec:
  assumes "appends ok body bs"
  shows "io_spec ok (\<lambda>d1. d1 = d) (publish_file p name body)
    (\<lambda>_ d'. frame {p, p @ ''.tmp''} d d' \<and> files d' p = Some bs) (frame {p @ ''.tmp''} d)"
  unfolding publish_file_def
proof (rule io_spec_bind)
  let ?t = "p @ ''.tmp''"
  show "io_spec ok (\<lambda>d1. d1 = d) (checkpoint_file ?t name body) (\<lambda>_ d'. only_file ?t d d' \<and> files d' ?t = Some bs) (frame {?t} d)"
    by (rule io_spec_weaken [OF checkpoint_file_spec [OF assms, of d]]) (auto simp: frame_def only_file_def)
  show "io_spec ok (\<lambda>d'. only_file ?t d d' \<and> files d' ?t = Some bs) (replace_file ?t p)
      (\<lambda>_ d'. frame {p, ?t} d d' \<and> files d' p = Some bs) (frame {?t} d)"
    unfolding io_spec_def
  proof (intro allI impI)
    fix d1 r d' assume d1: "only_file ?t d d1 \<and> files d1 ?t = Some bs" and run: "replace_file ?t p d1 = (r, d')"
    note spec = io_spec_run [OF replace_file_spec [of d1 ?t p] refl run]
    show "(\<forall>x. r = Inr x \<longrightarrow> frame {p, ?t} d d' \<and> files d' p = Some bs) \<and> (\<forall>e. r = Inl e \<longrightarrow> frame {?t} d d')
        \<and> (ok \<longrightarrow> benign d1 \<longrightarrow> (\<exists>x. r = Inr x) \<and> benign d')"
      using spec d1 by (auto simp: frame_def only_file_def)
  qed
qed

end
