(* ===== verification/Checkpoint_Write.thy ===== *)
theory Checkpoint_Write
  imports Checkpoint_Frames
begin

text \<open>
  What \<open>checkpoint\<close> does to the files, under every outcome of the system calls.
\<close>

section \<open>Distinct paths\<close>

definition root_prefix :: "index_options \<Rightarrow> string" where
  "root_prefix opts = path_join (xo_storage_root opts) []"

lemma path_join_prefix: "path_join a x = path_join a [] @ x"
  by (simp add: path_join_def)

lemma checkpoint_paths:
  "checkpoint_path opts name = root_prefix opts @ name"
  "generation_path opts prefix g = root_prefix opts @ prefix @ ''.'' @ decimal g @ ''.bin''"
  unfolding checkpoint_path_def generation_path_def root_prefix_def by (rule path_join_prefix)+

lemma decimal_inject: "decimal m = decimal n \<longleftrightarrow> m = n"
  by (metis undec_decimal)

text \<open>The files that a checkpoint of generation \<open>g\<close> may write before it renames the manifest.\<close>

definition state_scratch :: "index_options \<Rightarrow> nat \<Rightarrow> string set" where
  "state_scratch opts g =
    {sizes_path opts g, sizes_path opts g @ ''.tmp'', postings_path opts g, postings_path opts g @ ''.tmp'',
     checkpoint_path opts ''manifest.bin'' @ ''.tmp''}"

definition quantizer_scratch :: "index_options \<Rightarrow> string \<Rightarrow> string set" where
  "quantizer_scratch opts stamp =
    {checkpoint_path opts ''quantizer.recast'', checkpoint_path opts ''quantizer.recast.tmp'',
     checkpoint_path opts ''quantizer.recast.tmp'' @ ''.tmp.'' @ stamp}"

definition old_generation :: "index_options \<Rightarrow> nat \<Rightarrow> string set" where
  "old_generation opts g = {sizes_path opts g, postings_path opts g}"

lemma scratch_paths:
  "checkpoint_path opts ''manifest.bin'' \<notin> state_scratch opts g"
  "checkpoint_path opts ''manifest.bin'' \<notin> quantizer_scratch opts stamp"
  "checkpoint_path opts ''manifest.bin'' \<notin> old_generation opts h"
  "checkpoint_path opts ''quantizer.recast'' \<notin> state_scratch opts g"
  "checkpoint_path opts ''quantizer.recast'' \<notin> old_generation opts g"
  "checkpoint_path opts ''quantizer.recast'' \<noteq> checkpoint_path opts ''manifest.bin''"
  by (simp_all add: state_scratch_def quantizer_scratch_def old_generation_def checkpoint_paths)

lemma generation_paths:
  "sizes_path opts g \<notin> {postings_path opts h, postings_path opts h @ ''.tmp'', checkpoint_path opts ''manifest.bin'',
    checkpoint_path opts ''manifest.bin'' @ ''.tmp''}"
  "postings_path opts g \<notin> {sizes_path opts h, sizes_path opts h @ ''.tmp'', checkpoint_path opts ''manifest.bin'',
    checkpoint_path opts ''manifest.bin'' @ ''.tmp''}"
  "sizes_path opts g = sizes_path opts h \<longleftrightarrow> g = h" "postings_path opts g = postings_path opts h \<longleftrightarrow> g = h"
  by (simp_all add: checkpoint_paths decimal_inject)

lemma tmp_suffix: "decimal g @ ''.bin'' \<noteq> decimal h @ ''.bin.tmp''"
proof
  assume "decimal g @ ''.bin'' = decimal h @ ''.bin.tmp''"
  then have "last (decimal g @ ''.bin'') = last (decimal h @ ''.bin.tmp'')" by (rule arg_cong)
  then show False by simp
qed

lemma other_generation:
  assumes "h \<noteq> g"
  shows "sizes_path opts h \<notin> state_scratch opts g \<union> quantizer_scratch opts stamp"
    and "postings_path opts h \<notin> state_scratch opts g \<union> quantizer_scratch opts stamp"
  using assms tmp_suffix by (simp_all add: state_scratch_def quantizer_scratch_def checkpoint_paths decimal_inject)

section \<open>The state files\<close>

lemma io_spec_from:
  assumes "\<And>d. P d \<Longrightarrow> io_spec ok (\<lambda>d1. d1 = d) m (Q d) (E d)" and "\<And>d x d'. P d \<Longrightarrow> Q d x d' \<Longrightarrow> Q' x d'" and "\<And>d d'. P d \<Longrightarrow> E d d' \<Longrightarrow> E' d'"
  shows "io_spec ok P m Q' E'"
  unfolding io_spec_def
proof (intro allI impI)
  fix d r d' assume "P d" and "m d = (r, d')"
  then show "(\<forall>x. r = Inr x \<longrightarrow> Q' x d') \<and> (\<forall>e. r = Inl e \<longrightarrow> E' d') \<and> (ok \<longrightarrow> benign d \<longrightarrow> (\<exists>x. r = Inr x) \<and> benign d')"
    using io_spec_run [OF assms(1) refl] assms(2,3) by metis
qed

definition sizes_bytes :: "memory_list list \<Rightarrow> bytes" where
  "sizes_bytes mls = concat (map (\<lambda>ml. le32 (ml_size ml)) mls)"

definition postings_bytes :: "nat \<Rightarrow> memory_list list \<Rightarrow> bytes" where
  "postings_bytes cb mls = concat (map (image_bytes cb) mls)"

text \<open>The files of the state are complete, the manifest being the last one.\<close>

definition state_published :: "list_index \<Rightarrow> nat \<Rightarrow> disk \<Rightarrow> bool" where
  "state_published ix g d \<longleftrightarrow> files d (sizes_path (ix_options ix) g) = Some (sizes_bytes (ix_lists ix))
    \<and> files d (postings_path (ix_options ix) g) = Some (postings_bytes (code_size ix) (ix_lists ix))
    \<and> files d (checkpoint_path (ix_options ix) ''manifest.bin'') = Some (manifest_bytes (current_manifest ix g))"

lemma publish_state_spec:
  "io_spec (\<forall>ml \<in> set (ix_lists ix). image_ok (code_size ix) ml) (\<lambda>d1. d1 = d) (publish_state ix g)
    (\<lambda>_ d'. frame (insert (checkpoint_path (ix_options ix) ''manifest.bin'') (state_scratch (ix_options ix) g)) d d' \<and> state_published ix g d')
    (frame (state_scratch (ix_options ix) g) d)"
proof -
  let ?ok = "\<forall>ml \<in> set (ix_lists ix). image_ok (code_size ix) ml"
  let ?opts = "ix_options ix" let ?m = "checkpoint_path ?opts ''manifest.bin''"
  let ?s = "sizes_path ?opts g" let ?p = "postings_path ?opts g" let ?T = "state_scratch ?opts g"
  let ?S = "{?s, ?s @ ''.tmp''}" let ?P = "{?s, ?s @ ''.tmp'', ?p, ?p @ ''.tmp''}"
  let ?sizes = "\<lambda>d'. files d' ?s = Some (sizes_bytes (ix_lists ix))"
  let ?postings = "\<lambda>d'. files d' ?p = Some (postings_bytes (code_size ix) (ix_lists ix))"
  note distinct = generation_paths(1,2) [of ?opts g g]
  have sub: "?S \<subseteq> ?T" "?P \<subseteq> ?T" "{?s @ ''.tmp''} \<subseteq> ?T" "{?p @ ''.tmp''} \<subseteq> ?T" "{?m @ ''.tmp''} \<subseteq> ?T" "?S \<subseteq> ?P" "{?p, ?p @ ''.tmp''} \<subseteq> ?P"
    "{?m, ?m @ ''.tmp''} \<subseteq> insert ?m ?T" "?P \<subseteq> insert ?m ?T"
    by (auto simp: state_scratch_def)
  have sizes: "io_spec ?ok (\<lambda>d1. d1 = d) (publish_file ?s ''list_sizes'' (write_sizes (ix_lists ix))) (\<lambda>_ d'. frame ?S d d' \<and> ?sizes d') (frame ?T d)"
    unfolding sizes_bytes_def by (rule io_spec_weaken [OF publish_file_spec [OF appends_sizes]]) (auto elim: frame_mono [OF _ sub(3)])
  have postings: "io_spec ?ok (\<lambda>d'. frame ?S d d' \<and> ?sizes d')
      (publish_file ?p ''postings'' (write_postings (code_size ix) (ix_lists ix))) (\<lambda>_ d'. frame ?P d d' \<and> ?sizes d' \<and> ?postings d') (frame ?T d)"
  proof (rule io_spec_from)
    fix d1 assume "frame ?S d d1 \<and> ?sizes d1"
    show "io_spec ?ok (\<lambda>d2. d2 = d1) (publish_file ?p ''postings'' (write_postings (code_size ix) (ix_lists ix)))
        (\<lambda>_ d'. frame {?p, ?p @ ''.tmp''} d1 d' \<and> files d' ?p = Some (concat (map (image_bytes (code_size ix)) (ix_lists ix))))
        (frame {?p @ ''.tmp''} d1)"
      using publish_file_spec [OF appends_postings [of True]] by simp
  next
    fix d1 x d' assume 1: "frame ?S d d1 \<and> ?sizes d1"
      and 2: "frame {?p, ?p @ ''.tmp''} d1 d' \<and> files d' ?p = Some (concat (map (image_bytes (code_size ix)) (ix_lists ix)))"
    have "files d' ?s = files d1 ?s" using frame_keep 2 distinct by blast
    then show "frame ?P d d' \<and> ?sizes d' \<and> ?postings d'"
      using 1 2 frame_trans [OF _ _ sub(6,7)] unfolding postings_bytes_def by metis
  next
    fix d1 d' assume "frame ?S d d1 \<and> ?sizes d1" and "frame {?p @ ''.tmp''} d1 d'"
    then show "frame ?T d d'" using frame_trans [OF _ _ sub(1,4)] by blast
  qed
  have manifest: "io_spec ?ok (\<lambda>d'. frame ?P d d' \<and> ?sizes d' \<and> ?postings d')
      (publish_file ?m ''manifest'' (write_manifest (current_manifest ix g)))
      (\<lambda>_ d'. frame (insert ?m ?T) d d' \<and> state_published ix g d') (frame ?T d)"
  proof (rule io_spec_from [OF publish_file_spec [OF appends_manifest]])
    fix d1 x d' assume 1: "frame ?P d d1 \<and> ?sizes d1 \<and> ?postings d1"
      and 2: "frame {?m, ?m @ ''.tmp''} d1 d' \<and> files d' ?m = Some (manifest_bytes (current_manifest ix g))"
    have "files d' ?s = files d1 ?s" "files d' ?p = files d1 ?p" using frame_keep 2 distinct by blast+
    then show "frame (insert ?m ?T) d d' \<and> state_published ix g d'"
      using 1 2 frame_trans [OF _ _ sub(9,8)] unfolding state_published_def by metis
  next
    fix d1 d' assume "frame ?P d d1 \<and> ?sizes d1 \<and> ?postings d1" and "frame {?m @ ''.tmp''} d1 d'"
    then show "frame ?T d d'" using frame_trans [OF _ _ sub(2,5)] by blast
  qed
  show ?thesis unfolding publish_state_def Let_def by (rule io_spec_bind [OF sizes io_spec_bind [OF postings manifest]])
qed

section \<open>The quantizer file and the guards\<close>

definition quantizer_complete :: "faiss_ops \<Rightarrow> recast_quantizer \<Rightarrow> list_index \<Rightarrow> disk \<Rightarrow> bool" where
  "quantizer_complete F q ix d \<longleftrightarrow> (\<exists>w. write_payload F q vector_writer = Inr w
    \<and> files d (checkpoint_path (ix_options ix) ''quantizer.recast'') = Some (model_file (wr_data w)))"

definition quantizer_kept :: "faiss_ops \<Rightarrow> recast_quantizer \<Rightarrow> list_index \<Rightarrow> disk \<Rightarrow> disk \<Rightarrow> bool" where
  "quantizer_kept F q ix d d' \<longleftrightarrow> quantizer_complete F q ix d'
    \<or> files d' (checkpoint_path (ix_options ix) ''quantizer.recast'') = files d (checkpoint_path (ix_options ix) ''quantizer.recast'')"

lemma publish_quantizer_spec:
  "io_spec (rq_trained q \<and> (\<exists>w. write_payload F q vector_writer = Inr w)) (\<lambda>d1. d1 = d) (publish_quantizer F stamp q ix)
    (\<lambda>_ d'. frame (quantizer_scratch (ix_options ix) stamp) d d' \<and> quantizer_complete F q ix d')
    (\<lambda>d'. frame (quantizer_scratch (ix_options ix) stamp) d d' \<and> quantizer_kept F q ix d d')"
proof -
  let ?opts = "ix_options ix"
  let ?t = "checkpoint_path ?opts ''quantizer.recast.tmp''" let ?f = "checkpoint_path ?opts ''quantizer.recast''"
  let ?tt = "?t @ ''.tmp.'' @ stamp"
  let ?ok = "rq_trained q \<and> (\<exists>w. write_payload F q vector_writer = Inr w)"
  have distinct: "?t \<noteq> ?f" "?tt \<noteq> ?f" "?tt \<noteq> ?t" "?t \<noteq> []" by (simp_all add: checkpoint_paths)
  let ?E = "\<lambda>d'. frame (quantizer_scratch ?opts stamp) d d' \<and> quantizer_kept F q ix d d'"
  let ?saved = "\<lambda>d'. frame {?t, ?tt} d d' \<and> (\<exists>w. write_payload F q vector_writer = Inr w \<and> files d' ?t = Some (model_file (wr_data w)))"
  have sub: "{?t, ?tt} \<subseteq> quantizer_scratch ?opts stamp" "{?t, ?f} \<subseteq> quantizer_scratch ?opts stamp" by (auto simp: quantizer_scratch_def)
  have fresh: "?f \<notin> {?t, ?tt}" using distinct(1,2) by (simp add: eq_commute)
  have save: "io_spec ?ok (\<lambda>d1. d1 = d) (quantizer_save F stamp ?t q) (\<lambda>_. ?saved) ?E"
    unfolding io_spec_def
  proof (intro allI impI)
    fix d1 r d' assume "d1 = d" and "quantizer_save F stamp ?t q d1 = (r, d')"
    then have run: "quantizer_save F stamp ?t q d = (r, d')" by simp
    have other: "\<forall>p. p \<noteq> ?t \<longrightarrow> p \<noteq> ?tt \<longrightarrow> files d' p = files d p"
      and written: "r = Inr () \<longrightarrow> (\<exists>w. write_payload F q vector_writer = Inr w \<and> files d' ?t = Some (model_file (wr_data w)))"
      using quantizer_save_result [OF run, of undefined] by blast+
    have fr: "frame {?t, ?tt} d d'" unfolding frame_def using other by blast
    have E: "?E d'" using frame_mono [OF fr sub(1)] frame_keep [OF fr fresh] unfolding quantizer_kept_def by blast
    have "?saved d'" if "r = Inr x" for x using fr written that by (metis (full_types) old.unit.exhaust)
    moreover have "(\<exists>x. r = Inr x) \<and> benign d'" if ok: ?ok "benign d1"
    proof -
      obtain w where w: "write_payload F q vector_writer = Inr w" using ok by blast
      have "r = Inr () \<and> benign d'"
        using quantizer_save_result [OF run, of w] w ok distinct(4) \<open>d1 = d\<close> by blast
      then show ?thesis by blast
    qed
    ultimately show "(\<forall>x. r = Inr x \<longrightarrow> ?saved d') \<and> (\<forall>e. r = Inl e \<longrightarrow> ?E d') \<and> (?ok \<longrightarrow> benign d1 \<longrightarrow> (\<exists>x. r = Inr x) \<and> benign d')"
      using E by blast
  qed
  have repl: "io_spec ?ok ?saved (replace_file ?t ?f) (\<lambda>_ d'. frame (quantizer_scratch ?opts stamp) d d' \<and> quantizer_complete F q ix d') ?E"
  proof (rule io_spec_from [OF io_spec_weaken [OF replace_file_spec]])
    fix d1 :: disk and x and d' :: disk
    assume 1: "?saved d1" and 2: "\<exists>f. files d1 ?t = Some f \<and> files d' = (files d1)(?t := None, ?f \<mapsto> f)"
    obtain f where f: "files d1 ?t = Some f" "files d' = (files d1)(?t := None, ?f \<mapsto> f)" using 2 by blast
    obtain w where w: "frame {?t, ?tt} d d1" "write_payload F q vector_writer = Inr w" "files d1 ?t = Some (model_file (wr_data w))"
      using 1 by blast
    have "frame {?t, ?f} d1 d'" using f(2) by (simp add: frame_def)
    from frame_trans [OF w(1) this sub]
    have "frame (quantizer_scratch ?opts stamp) d d'" .
    moreover have "files d' ?f = Some (model_file (wr_data w))" using f w(3) by simp
    ultimately show "frame (quantizer_scratch ?opts stamp) d d' \<and> quantizer_complete F q ix d'"
      using w(2) unfolding quantizer_complete_def by blast
  next
    fix d1 :: disk and d' :: disk
    assume 1: "?saved d1" and 2: "files d' = files d1"
    have "frame {?t, ?tt} d d'" using 1 2 by (simp add: frame_def)
    from frame_mono [OF this sub(1)] frame_keep [OF this fresh] show "?E d'" unfolding quantizer_kept_def by blast
  qed auto
  show ?thesis unfolding publish_quantizer_def Let_def by (rule io_spec_bind [OF save repl])
qed

lemma is_regular_file_result:
  assumes "is_regular_file p d = (r, d')"
  shows "files d' = files d \<and> (\<forall>b. r = Inr b \<longrightarrow> b = (files d p \<noteq> None)) \<and> (benign d \<longrightarrow> (\<exists>b. r = Inr b) \<and> benign d')"
  by (rule sys_call_cases [OF assms [unfolded is_regular_file_def]]) auto

lemma is_regular_file_spec:
  "io_spec True (\<lambda>d1. files d1 = files d) (is_regular_file p) (\<lambda>b d'. files d' = files d \<and> b = (files d p \<noteq> None)) (\<lambda>d'. files d' = files d)"
  by (rule io_specI; drule is_regular_file_result) auto

lemma create_directories_spec:
  "io_spec True (\<lambda>d1. files d1 = files d) (create_directories p) (\<lambda>_ d'. files d' = files d) (\<lambda>d'. files d' = files d)"
  by (rule io_specI; drule create_directories_result) auto

lemma checkpoint_guard_spec:
  "io_spec (ix_trained ix \<and> files d (checkpoint_path (ix_options ix) ''router.faiss'') \<noteq> None) (\<lambda>d1. files d1 = files d) (checkpoint_guard ix)
    (\<lambda>_ d'. files d' = files d) (\<lambda>d'. files d' = files d)"
proof (cases "ix_trained ix")
  case False
  then show ?thesis by (auto simp: checkpoint_guard_def intro: io_spec_throw)
next
  case True
  let ?r = "checkpoint_path (ix_options ix) ''router.faiss''"
  let ?ok = "ix_trained ix \<and> files d ?r \<noteq> None"
  have "io_spec ?ok (\<lambda>d'. files d' = files d \<and> b = (files d ?r \<noteq> None))
      (if \<not> b then io_throw (Logic_error ''persisted external-list router is missing'') else create_directories (xo_storage_root (ix_options ix)))
      (\<lambda>_ d'. files d' = files d) (\<lambda>d'. files d' = files d)" for b
  proof (cases "b = (files d ?r \<noteq> None)")
    case True
    have "io_spec ?ok (\<lambda>d'. files d' = files d \<and> b = (files d ?r \<noteq> None)) (create_directories p)
        (\<lambda>_ d'. files d' = files d) (\<lambda>d'. files d' = files d)" for p
      by (rule io_spec_weaken [OF create_directories_spec [of d]]) auto
    then show ?thesis using True by (cases b) (auto intro: io_spec_throw)
  qed (simp add: io_spec_def)
  moreover have "io_spec ?ok (\<lambda>d1. files d1 = files d) (is_regular_file ?r) (\<lambda>b d'. files d' = files d \<and> b = (files d ?r \<noteq> None)) (\<lambda>d'. files d' = files d)"
    by (rule io_spec_weaken [OF is_regular_file_spec]) auto
  ultimately have "io_spec ?ok (\<lambda>d1. files d1 = files d) (io_bind (is_regular_file ?r) (\<lambda>present.
       if \<not> present then io_throw (Logic_error ''persisted external-list router is missing'')
       else create_directories (xo_storage_root (ix_options ix)))) (\<lambda>_ d'. files d' = files d) (\<lambda>d'. files d' = files d)"
    by (intro io_spec_bind [where Q = "\<lambda>b d'. files d' = files d \<and> b = (files d ?r \<noteq> None)"])
  then show ?thesis using True by (simp add: checkpoint_guard_def)
qed

section \<open>The whole checkpoint\<close>

definition checkpoint_scratch :: "index_options \<Rightarrow> string \<Rightarrow> nat \<Rightarrow> string set" where
  "checkpoint_scratch opts stamp g = state_scratch opts g \<union> quantizer_scratch opts stamp"

definition checkpoint_ready :: "faiss_ops \<Rightarrow> recast_quantizer \<Rightarrow> list_index \<Rightarrow> disk \<Rightarrow> bool" where
  "checkpoint_ready F q ix d \<longleftrightarrow> ix_trained ix \<and> files d (checkpoint_path (ix_options ix) ''router.faiss'') \<noteq> None
    \<and> rq_trained q \<and> (\<exists>w. write_payload F q vector_writer = Inr w) \<and> next_generation ix \<noteq> 0
    \<and> (\<forall>ml \<in> set (ix_lists ix). image_ok (code_size ix) ml)"

lemma next_generation_other: "next_generation ix \<noteq> ix_generation ix"
proof
  let ?n = "ix_generation ix"
  assume "next_generation ix = ?n"
  then have eq: "(?n + 1) mod 2 ^ 64 = ?n" by (simp add: next_generation_def)
  then have "?n < 2 ^ 64" by (metis mod_less_divisor zero_less_numeral zero_less_power)
  then have "?n + 1 < 2 ^ 64 \<or> ?n + 1 = 2 ^ 64" by linarith
  then show False
  proof
    assume "?n + 1 < 2 ^ 64"
    then show False using eq by simp
  next
    assume last: "?n + 1 = 2 ^ 64"
    then have "?n = 0" using eq by (metis mod_self)
    then show False using last by simp
  qed
qed

lemma publish_all_spec:
  fixes ix :: list_index and d :: disk
  defines "opts \<equiv> ix_options ix" and "g \<equiv> next_generation ix"
  shows "io_spec (checkpoint_ready F q ix d) (\<lambda>d1. d1 = d)
    (io_bind (checkpoint_guard ix) (\<lambda>_. io_bind (publish_quantizer F stamp q ix) (\<lambda>_.
      if next_generation ix = 0 then io_throw (Overflow_error ''checkpoint generation overflows'') else publish_state ix g)))
    (\<lambda>_ d'. g \<noteq> 0 \<and> frame (insert (checkpoint_path opts ''manifest.bin'') (checkpoint_scratch opts stamp g)) d d'
      \<and> state_published ix g d' \<and> quantizer_complete F q ix d')
    (\<lambda>d'. frame (checkpoint_scratch opts stamp g) d d' \<and> quantizer_kept F q ix d d')"
    (is "io_spec ?ok _ _ ?Q ?E")
proof -
  let ?m = "checkpoint_path opts ''manifest.bin''" let ?f = "checkpoint_path opts ''quantizer.recast''"
  let ?qs = "quantizer_scratch opts stamp" let ?ss = "state_scratch opts g" let ?cs = "checkpoint_scratch opts stamp g"
  have sub: "?qs \<subseteq> ?cs" "?ss \<subseteq> ?cs" "?qs \<subseteq> insert ?m ?cs" "insert ?m ?ss \<subseteq> insert ?m ?cs" by (auto simp: checkpoint_scratch_def)
  have fresh: "?f \<notin> insert ?m ?ss" using scratch_paths(4,6) by blast
  have complete_cong: "files d2 ?f = files d1 ?f \<Longrightarrow> quantizer_complete F q ix d1 \<Longrightarrow> quantizer_complete F q ix d2" for d1 d2
    by (simp add: quantizer_complete_def opts_def)
  have guard: "io_spec ?ok (\<lambda>d1. d1 = d) (checkpoint_guard ix) (\<lambda>_ d'. files d' = files d) ?E"
    by (rule io_spec_weaken [OF checkpoint_guard_spec [of ix d]])
      (auto simp: checkpoint_ready_def quantizer_kept_def intro: frame_same)
  have quantizer: "io_spec ?ok (\<lambda>d'. files d' = files d) (publish_quantizer F stamp q ix) (\<lambda>_ d'. frame ?qs d d' \<and> quantizer_complete F q ix d') ?E"
  proof (rule io_spec_from [OF io_spec_weaken [OF publish_quantizer_spec]])
    fix d1 d' :: disk and x :: unit
    assume same: "files d1 = files d" and "frame (quantizer_scratch (ix_options ix) stamp) d1 d' \<and> quantizer_complete F q ix d'"
    then show "frame ?qs d d' \<and> quantizer_complete F q ix d'" by (simp add: frame_def opts_def)
  next
    fix d1 d' :: disk
    assume same: "files d1 = files d" and 1: "frame (quantizer_scratch (ix_options ix) stamp) d1 d' \<and> quantizer_kept F q ix d1 d'"
    then have "frame ?qs d d'" "quantizer_kept F q ix d d'" by (simp_all add: frame_def opts_def quantizer_kept_def)
    then show "?E d'" using frame_mono [OF _ sub(1)] by blast
  qed (auto simp: checkpoint_ready_def)
  have state: "io_spec ?ok (\<lambda>d'. frame ?qs d d' \<and> quantizer_complete F q ix d')
      (if next_generation ix = 0 then io_throw (Overflow_error ''checkpoint generation overflows'') else publish_state ix g) ?Q ?E"
  proof (cases "g = 0")
    case True
    have "frame ?qs d d' \<and> quantizer_complete F q ix d' \<Longrightarrow> ?E d'" for d'
      using frame_mono [OF _ sub(1)] by (auto simp: quantizer_kept_def)
    moreover have "\<not> ?ok" using True by (simp add: checkpoint_ready_def g_def)
    ultimately show ?thesis using True by (simp add: io_spec_throw g_def)
  next
    case False
    have "io_spec ?ok (\<lambda>d'. frame ?qs d d' \<and> quantizer_complete F q ix d') (publish_state ix g) ?Q ?E"
    proof (rule io_spec_from [OF io_spec_weaken [OF publish_state_spec]])
      fix d1 d' :: disk and x :: unit
      assume 1: "frame ?qs d d1 \<and> quantizer_complete F q ix d1"
        and 2: "frame (insert (checkpoint_path (ix_options ix) ''manifest.bin'') (state_scratch (ix_options ix) g)) d1 d' \<and> state_published ix g d'"
      then have fr: "frame (insert ?m ?ss) d1 d'" unfolding opts_def by blast
      have "frame (insert ?m ?cs) d d'" using 1 fr frame_trans [OF _ _ sub(3,4)] by blast
      then show "?Q x d'" using 1 2 False complete_cong [OF frame_keep [OF fr fresh]] by blast
    next
      fix d1 d' :: disk
      assume 1: "frame ?qs d d1 \<and> quantizer_complete F q ix d1" and 2: "frame (state_scratch (ix_options ix) g) d1 d'"
      then have fr: "frame ?ss d1 d'" unfolding opts_def by blast
      have "frame ?cs d d'" using 1 fr frame_trans [OF _ _ sub(1,2)] by blast
      moreover have "quantizer_complete F q ix d'" using 1 complete_cong frame_keep [OF fr] fresh by blast
      ultimately show "?E d'" by (simp add: quantizer_kept_def)
    qed (auto simp: checkpoint_ready_def)
    then show ?thesis using False by (simp add: g_def)
  qed
  show ?thesis by (rule io_spec_bind [OF guard io_spec_bind [OF quantizer state]])
qed

lemma remove_generation_result:
  "frame (old_generation opts g) d (remove_generation opts g d)" "benign d \<Longrightarrow> benign (remove_generation opts g d)"
proof -
  have one: "frame {p} d (remove_file p d)" for p d
    using remove_file_result [of p d] by (auto simp: frame_def)
  show "frame (old_generation opts g) d (remove_generation opts g d)"
    using frame_trans [OF one one] by (auto simp: remove_generation_def old_generation_def)
  show "benign (remove_generation opts g d)" if "benign d"
    using that remove_file_benign by (auto simp: remove_generation_def)
qed

lemma index_checkpoint_result:
  fixes ix :: list_index and d :: disk
  assumes "index_checkpoint F stamp q ix d = (r, ix', d')"
  defines "opts \<equiv> ix_options ix" and "g \<equiv> next_generation ix"
  shows "(r \<noteq> Inr () \<longrightarrow> ix' = ix \<and> frame (checkpoint_scratch opts stamp g) d d' \<and> quantizer_kept F q ix d d')
    \<and> (r = Inr () \<longrightarrow> g \<noteq> 0 \<and> ix' = ix\<lparr>ix_generation := g\<rparr> \<and> state_published ix g d' \<and> quantizer_complete F q ix d'
        \<and> frame (insert (checkpoint_path opts ''manifest.bin'') (checkpoint_scratch opts stamp g \<union> old_generation opts (ix_generation ix))) d d')
    \<and> (checkpoint_ready F q ix d \<longrightarrow> benign d \<longrightarrow> r = Inr () \<and> benign d')"
proof -
  let ?m = "checkpoint_path opts ''manifest.bin''" let ?old = "old_generation opts (ix_generation ix)"
  let ?run = "io_bind (checkpoint_guard ix) (\<lambda>_. io_bind (publish_quantizer F stamp q ix) (\<lambda>_.
      if next_generation ix = 0 then io_throw (Overflow_error ''checkpoint generation overflows'') else publish_state ix (next_generation ix)))"
  obtain c d1 where c: "?run d = (c, d1)" by (metis surj_pair)
  note spec = io_spec_run [OF publish_all_spec [of F q ix d stamp] refl c]
  show ?thesis
  proof (cases c)
    case (Inl e)
    then have "r = Inl e" "ix' = ix" "d' = d1" using assms(1) c by (simp_all add: index_checkpoint_def)
    then show ?thesis using spec(2) [OF Inl] spec(3) Inl unfolding opts_def g_def by blast
  next
    case (Inr x)
    then have res: "r = Inr ()" "ix' = ix\<lparr>ix_generation := g\<rparr>" "d' = remove_generation opts (ix_generation ix) d1"
      using assms(1) c by (simp_all add: index_checkpoint_def g_def opts_def)
    note Q = spec(1) [OF Inr, folded opts_def g_def]
    note old = remove_generation_result(1) [of opts "ix_generation ix" d1, folded res(3)]
    have neq: "g \<noteq> ix_generation ix" unfolding g_def by (rule next_generation_other)
    have keep: "p \<notin> ?old \<Longrightarrow> files d' p = files d1 p" for p using frame_keep [OF old] .
    have "sizes_path opts g \<notin> ?old" "postings_path opts g \<notin> ?old"
      using neq generation_paths(1,2) [of opts g "ix_generation ix"] generation_paths(3,4) [of opts g "ix_generation ix"]
      by (simp_all add: old_generation_def)
    then have "files d' (sizes_path opts g) = files d1 (sizes_path opts g)" "files d' (postings_path opts g) = files d1 (postings_path opts g)"
      "files d' ?m = files d1 ?m" "files d' (checkpoint_path opts ''quantizer.recast'') = files d1 (checkpoint_path opts ''quantizer.recast'')"
      using scratch_paths(3,5) by (intro keep; blast)+
    then have "state_published ix g d'" "quantizer_complete F q ix d'"
      using Q unfolding state_published_def quantizer_complete_def opts_def by presburger+
    moreover have "frame (insert ?m (checkpoint_scratch opts stamp g \<union> ?old)) d d'"
    proof (rule frame_trans [OF _ old])
      show "frame (insert ?m (checkpoint_scratch opts stamp g)) d d1" using Q by (elim conjE)
    qed auto
    moreover have "checkpoint_ready F q ix d \<longrightarrow> benign d \<longrightarrow> benign d'"
      using spec(3) remove_generation_result(2) res(3) by blast
    ultimately show ?thesis using res Q by blast
  qed
qed

end
