(* ===== verification/Checkpoint_Load.thy ===== *)
theory Checkpoint_Load
  imports Checkpoint_Write
begin

text \<open>
  Loading a checkpoint: what the bytes of a checkpoint parse to, that loading succeeds on a complete one
  when no call fails, and that the loaded index has the entries of the saved one.
\<close>

section \<open>Reads that succeed\<close>

definition yields :: "'a io \<Rightarrow> disk \<Rightarrow> 'a \<Rightarrow> bool" where
  "yields m d x \<longleftrightarrow> (\<exists>d'. m d = (Inr x, d') \<and> files d' = files d \<and> benign d')"

lemma yields_return: "benign d \<Longrightarrow> yields (io_return x) d x"
  by (simp add: yields_def)

lemma yields_bind:
  assumes "yields m d x" and "\<And>d'. files d' = files d \<Longrightarrow> benign d' \<Longrightarrow> yields (f x) d' y"
  shows "yields (io_bind m f) d y"
proof -
  obtain d1 where d1: "m d = (Inr x, d1)" "files d1 = files d" "benign d1" using assms(1) by (auto simp: yields_def)
  then obtain d2 where "f x d1 = (Inr y, d2)" "files d2 = files d1" "benign d2" using assms(2) by (auto simp: yields_def)
  then show ?thesis using d1 by (simp add: yields_def)
qed

lemma yields_lift: "r = Inr x \<Longrightarrow> benign d \<Longrightarrow> yields (f x) d y \<Longrightarrow> yields (io_bind (io_lift r) f) d y"
  by simp

lemma yields_open:
  assumes "benign d" and "files d p \<noteq> None"
  shows "yields (open_checkpoint p missing) d ()"
proof -
  obtain b d' where o: "open_in p d = (b, d')" by (metis surj_pair)
  have b: "b" "files d' = files d" "benign d'" using open_in_result [OF o] assms by blast+
  then show ?thesis using o by (simp add: yields_def open_checkpoint_def)
qed

lemma yields_read:
  assumes "benign d" and "pos + n \<le> length (content d p)"
  shows "yields (read_binary p pos n) d (segment (content d p) pos n)"
proof (cases "n = 0")
  case True
  then show ?thesis using assms(1) by (simp add: read_binary_def yields_def)
next
  case False
  obtain r d' where r: "stream_read p pos n d = (r, d')" by (metis surj_pair)
  have "r = Some (segment (content d p) pos n)" "files d' = files d" "benign d'" using stream_read_result [OF r] assms by blast+
  then show ?thesis using r False by (simp add: yields_def read_binary_def read_file_field_def)
qed

lemma yields_reject:
  assumes "benign d" and "length (content d p) \<le> pos"
  shows "yields (reject_more p pos trailing) d ()"
proof -
  obtain b d' where o: "stream_more p pos d = (b, d')" by (metis surj_pair)
  have "\<not> b" "files d' = files d" "benign d'" using stream_more_result [OF o] assms by auto
  then show ?thesis using o by (simp add: yields_def reject_more_def)
qed

lemma content_same: "files d' = files d \<Longrightarrow> content d' p = content d p"
  by (simp add: content_def)

lemma yields_checkpoint:
  assumes "benign d" and "files d p = Some bs" and "length bs = n"
  shows "yields (read_checkpoint p n missing trailing) d bs"
proof -
  have c: "content d p = bs" using assms(2) by (simp add: content_def)
  have seg: "segment bs 0 n = bs" using assms(3) segment_full [of bs] by simp
  show ?thesis unfolding read_checkpoint_def
  proof (rule yields_bind [OF yields_open [OF assms(1)]])
    fix d1 assume d1: "files d1 = files d" "benign d1"
    have "yields (read_binary p 0 n) d1 bs"
      using yields_read [OF d1(2), of 0 n p] content_same [OF d1(1), of p] c assms(3) seg by simp
    then show "yields (io_bind (read_binary p 0 n) (\<lambda>bs. io_bind (reject_more p n trailing) (\<lambda>_. io_return bs))) d1 bs"
    proof (rule yields_bind)
      fix d2 assume d2: "files d2 = files d1" "benign d2"
      have "length (content d2 p) \<le> n" using content_same [of d2 d p] d1(1) d2(1) c assms(3) by simp
      from yields_reject [OF d2(2) this]
      show "yields (io_bind (reject_more p n trailing) (\<lambda>_. io_return bs)) d2 bs" by (rule yields_bind) (rule yields_return)
    qed
  qed (simp add: assms(2))
qed

section \<open>The manifest\<close>

lemma length_manifest_bytes: "length (mf_magic m) = 8 \<Longrightarrow> length (manifest_bytes m) = 120"
  by (simp add: manifest_bytes_def manifest_fields_def u64_scalar.length_rep)

lemma manifest_field:
  assumes "length (mf_magic m) = 8" and "k < 14" and "\<forall>v \<in> set (manifest_fields m). v < 2 ^ 64"
  shows "unat (of_le64 (segment (manifest_bytes m) (8 + 8 * k) 8)) = manifest_fields m ! k"
proof -
  let ?ws = "map of_nat (manifest_fields m) :: u64 list"
  have len: "length (manifest_fields m) = 14" by (simp add: manifest_fields_def)
  have "concat (map (\<lambda>v. le64 (of_nat v)) (manifest_fields m)) = concat (map le64 ?ws)" by (simp add: comp_def)
  then have "segment (manifest_bytes m) (8 + 8 * k) 8 = segment (concat (map le64 ?ws)) (k * 8) 8"
    using assms(1) by (simp add: manifest_bytes_def segment_def mult.commute)
  also have "\<dots> = le64 (of_nat (manifest_fields m ! k))"
    using u64_scalar.segment_concat [of k ?ws] assms(2) len by simp
  finally show ?thesis
    using assms(2,3) len by (simp add: of_le64_le64 unat_of_nat take_bit_nat_eq_self)
qed

lemma manifest_of_bytes:
  assumes "length (mf_magic m) = 8" and "\<forall>v \<in> set (manifest_fields m). v < 2 ^ 64"
  shows "manifest_of (manifest_bytes m) = m"
proof -
  define field where "field = (\<lambda>k. unat (of_le64 (segment (manifest_bytes m) (8 + 8 * k) 8)))"
  have fields: "field k = manifest_fields m ! k" if "k < 14" for k
    unfolding field_def by (rule manifest_field [OF assms(1) that assms(2)])
  have magic: "take 8 (manifest_bytes m) = mf_magic m" using assms(1) by (simp add: manifest_bytes_def)
  show ?thesis
    unfolding manifest_of_def Let_def field_def [symmetric]
    by (simp add: magic fields) (simp add: manifest_fields_def)
qed

section \<open>Sizes\<close>

lemma sizes_of_bytes:
  "map (\<lambda>l. of_le32 (segment (sizes_bytes mls) (4 * l) 4)) [0..<length mls] = map ml_size mls"
proof (rule nth_equalityI)
  fix l assume "l < length (map (\<lambda>l. of_le32 (segment (sizes_bytes mls) (4 * l) 4)) [0..<length mls])"
  then have "l < length mls" by simp
  then show "map (\<lambda>l. of_le32 (segment (sizes_bytes mls) (4 * l) 4)) [0..<length mls] ! l = map ml_size mls ! l"
    using u32_scalar.segment_concat [of l "map ml_size mls"] by (simp add: sizes_bytes_def comp_def mult.commute)
qed simp

lemma length_sizes_bytes: "length (sizes_bytes mls) = 4 * length mls"
  by (induction mls) (simp_all add: sizes_bytes_def)

lemma yields_validate:
  assumes "benign d" and "list_path st l = Inr p" and "store_ok st"
    and "length (content d p) = page_count (unat n) (st_per_page st) * page_size st"
  shows "yields (validate_list_file st l n) d ()"
proof -
  have "unat n \<le> u32_max" by (rule u32_less_max)
  note bytes = page_bytes_bound(2) [OF assms(3) this, of "st_per_page st"]
  obtain c d1 where c: "sys_call (''stat('' @ p @ '')'') d = (c, d1)" by (metis surj_pair)
  note res = sys_call_result [OF c]
  have ok: "c = Inr ()" "benign d1" using res(3) [OF assms(1)] by simp_all
  show ?thesis
  proof (cases "files d p")
    case None
    have "page_size st \<noteq> 0" using assms(3) by (auto simp: store_ok_def store_args_ok_def pointer_size_def)
    then have "n = 0" using None assms(4) by (auto simp: content_def page_count_def unat_eq_zero split: if_splits)
    then show ?thesis using ok c res assms(2) None by (simp add: yields_def validate_list_file_def)
  next
    case (Some f)
    then show ?thesis using ok c res assms(2,4) bytes by (simp add: yields_def validate_list_file_def content_def)
  qed
qed

lemma yields_validate_sizes:
  assumes "benign d" and "store_ok (ix_store ix)"
    and "\<And>l. l \<in> set ls \<Longrightarrow> \<exists>p. list_path (ix_store ix) (of_nat l) = Inr p
      \<and> length (content d p) = page_count (unat (sizes ! l)) (st_per_page (ix_store ix)) * page_size (ix_store ix)"
    and "s + sum_list (map (\<lambda>l. unat (sizes ! l)) ls) \<le> size_max"
  shows "yields (io_fold (validate_size ix sizes) ls s) d (s + sum_list (map (\<lambda>l. unat (sizes ! l)) ls))"
  using assms
proof (induction ls arbitrary: s d)
  case (Cons l ls)
  let ?s = "s + unat (sizes ! l)"
  have add: "checked_add s (unat (sizes ! l)) msg = Inr ?s" for msg using Cons.prems(4) by (simp add: checked_add_ok)
  obtain p where p: "list_path (ix_store ix) (of_nat l) = Inr p"
      "length (content d p) = page_count (unat (sizes ! l)) (st_per_page (ix_store ix)) * page_size (ix_store ix)"
    using Cons.prems(3) by (meson list.set_intros(1))
  have step: "yields (validate_size ix sizes l s) d ?s"
    unfolding validate_size_def add io_bind_lift
    by (rule yields_bind [OF yields_validate [OF Cons.prems(1) p(1) assms(2) p(2)]]) (rule yields_return)
  have "yields (io_fold (validate_size ix sizes) ls ?s) d' (?s + sum_list (map (\<lambda>l. unat (sizes ! l)) ls))" if "files d' = files d" "benign d'" for d'
  proof (rule Cons.IH [OF that(2) assms(2)])
    show "\<exists>p. list_path (ix_store ix) (of_nat k) = Inr p
      \<and> length (content d' p) = page_count (unat (sizes ! k)) (st_per_page (ix_store ix)) * page_size (ix_store ix)" if "k \<in> set ls" for k
      using Cons.prems(3) [of k] \<open>k \<in> set ls\<close> content_same [OF \<open>files d' = files d\<close>] by simp
  qed (use Cons.prems(4) in simp)
  then show ?case unfolding io_fold.simps list.map sum_list.Cons add.assoc [symmetric] by (intro yields_bind [OF step])
qed (simp add: yields_return)

section \<open>Postings\<close>

text \<open>The list that loading makes of a saved one: its buffers end with its padded rows.\<close>

definition tight :: "nat \<Rightarrow> memory_list \<Rightarrow> memory_list" where
  "tight cb ml = ml\<lparr>ml_codes := take (unat (ml_padded ml) * cb) (ml_codes ml),
     ml_metadata := take (unat (ml_padded ml) * 3) (ml_metadata ml)\<rparr>"

definition list_ready :: "nat \<Rightarrow> memory_list \<Rightarrow> bool" where
  "list_ready cb ml \<longleftrightarrow> image_ok cb ml \<and> unat (ml_padded ml) = round_up_block (unat (ml_size ml))"

lemma image_ok_sizes:
  assumes "image_ok cb ml"
  shows "checked_multiply (unat (ml_padded ml)) cb msg = Inr (unat (ml_padded ml) * cb)"
    and "packed_metadata_size_bbs32 (unat (ml_padded ml)) = Inr (unat (ml_padded ml) * 3)"
    and "unat (ml_padded ml) * cb \<le> length (ml_codes ml)" and "unat (ml_padded ml) * 3 \<le> length (ml_metadata ml)"
  using assms
  by (auto simp: image_ok_def list_image_def res_bind_eq_Inr checked_multiply_def packed_metadata_size_bbs32_def split: if_splits)

lemma image_bytes_parts:
  assumes "image_ok cb ml"
  shows "image_bytes cb ml = ml_codes (tight cb ml) @ ml_metadata (tight cb ml)"
    and "length (ml_codes (tight cb ml)) = unat (ml_padded ml) * cb" and "length (ml_metadata (tight cb ml)) = unat (ml_padded ml) * 3"
  using image_ok_sizes [OF assms] by (simp_all add: image_bytes_def tight_def)

lemma segment_middle: "segment (a @ b @ c) (length a) (length b) = b"
  by (simp add: segment_def)

lemma yields_postings:
  assumes "benign d" and "content d p = before @ postings_bytes cb mls" and "\<forall>ml \<in> set mls. list_ready cb ml"
  shows "yields (read_postings p cb (map ml_size mls) (length before)) d (map (tight cb) mls)"
  using assms
proof (induction mls arbitrary: d before)
  case Nil
  have "yields (reject_more p (length before) ''external-list postings have trailing bytes'') d ()"
    using Nil.prems by (intro yields_reject) (simp_all add: postings_bytes_def)
  then show ?case unfolding list.map read_postings.simps by (rule yields_bind) (rule yields_return)
next
  case (Cons ml mls)
  let ?t = "tight cb ml" let ?pos = "length before"
  have ok: "image_ok cb ml" and padded: "unat (ml_padded ml) = round_up_block (unat (ml_size ml))"
    using Cons.prems(3) by (simp_all add: list_ready_def)
  note parts = image_bytes_parts [OF ok]
  have round: "round_up (unat (ml_size ml)) block_lanes = Inr (unat (ml_padded ml))"
    unfolding padded by (rule round_up_ok) simp
  have word: "(of_nat (unat (ml_padded ml)) :: u32) = ml_padded ml" by simp
  have c: "content d p = before @ ml_codes ?t @ ml_metadata ?t @ postings_bytes cb mls"
    using Cons.prems(2) parts(1) by (simp add: postings_bytes_def)
  have codes: "yields (read_binary p ?pos (unat (ml_padded ml) * cb)) d1 (ml_codes ?t)" if "files d1 = files d" "benign d1" for d1
    using yields_read [OF that(2), of ?pos "unat (ml_padded ml) * cb" p] content_same [OF that(1), of p] c parts
      segment_middle [of before "ml_codes ?t"] by simp
  have metadata: "yields (read_binary p (?pos + unat (ml_padded ml) * cb) (unat (ml_padded ml) * 3)) d1 (ml_metadata ?t)"
    if "files d1 = files d" "benign d1" for d1
    using yields_read [OF that(2), of "?pos + unat (ml_padded ml) * cb" "unat (ml_padded ml) * 3" p] content_same [OF that(1), of p] c parts
      segment_middle [of "before @ ml_codes ?t" "ml_metadata ?t"] by simp
  have more: "yields (read_postings p cb (map ml_size mls) (?pos + unat (ml_padded ml) * cb + unat (ml_padded ml) * 3)) d1 (map (tight cb) mls)"
    if "files d1 = files d" "benign d1" for d1
    using Cons.IH [OF that(2), of "before @ ml_codes ?t @ ml_metadata ?t"] Cons.prems(3) content_same [OF that(1), of p] c parts
    by (simp add: add.assoc)
  have tight: "\<lparr>ml_codes = ml_codes ?t, ml_metadata = ml_metadata ?t, ml_size = ml_size ml, ml_padded = ml_padded ml\<rparr> = ?t"
    by (cases ml) (simp add: tight_def)
  show ?case
    unfolding list.map read_postings.simps round io_bind_lift Let_def word image_ok_sizes(1,2) [OF ok]
  proof (rule yields_bind [OF codes [OF refl Cons.prems(1)]])
    fix d1 assume d1: "files d1 = files d" "benign d1"
    show "yields (io_bind (read_binary p (?pos + unat (ml_padded ml) * cb) (unat (ml_padded ml) * 3))
        (\<lambda>metadata. io_bind (read_postings p cb (map ml_size mls) (?pos + unat (ml_padded ml) * cb + unat (ml_padded ml) * 3))
          (\<lambda>mls. io_return (\<lparr>ml_codes = ml_codes ?t, ml_metadata = metadata, ml_size = ml_size ml, ml_padded = ml_padded ml\<rparr> # mls))))
      d1 (?t # map (tight cb) mls)"
    proof (rule yields_bind [OF metadata [OF d1]])
      fix d2 assume d2: "files d2 = files d1" "benign d2"
      have "files d2 = files d" using d1 d2 by simp
      from more [OF this d2(2)]
      show "yields (io_bind (read_postings p cb (map ml_size mls) (?pos + unat (ml_padded ml) * cb + unat (ml_padded ml) * 3))
          (\<lambda>mls. io_return (\<lparr>ml_codes = ml_codes ?t, ml_metadata = ml_metadata ?t, ml_size = ml_size ml, ml_padded = ml_padded ml\<rparr> # mls)))
        d2 (?t # map (tight cb) mls)"
        unfolding tight by (rule yields_bind) (rule yields_return)
    qed
  qed
qed

section \<open>Saved lists and their tight copies\<close>

lemma posting_tiles:
  assumes "dims_ok M" and "posting_ok F M ml"
  obtains blocks nb where "tiles_ok F M ml blocks" and "unat (ml_padded ml) = 32 * nb" and "nb \<le> blocks" and "unat (ml_size ml) \<le> 32 * nb"
    and "nb \<le> 2 ^ 27" and "round_up_block (unat (ml_size ml)) = 32 * nb"
proof -
  obtain blocks where t: "tiles_ok F M ml blocks" using assms(2) by (auto simp: posting_ok_def)
  let ?nb = "(unat (ml_size ml) + 31) div 32"
  have "unat (ml_size ml) \<le> u32_max" by simp
  then have "?nb \<le> 2 ^ 27" by (simp add: u32_max_def)
  moreover have "unat (ml_size ml) \<le> 32 * blocks" using t by (simp add: tiles_ok_def)
  then have "?nb \<le> blocks" by linarith
  moreover have "unat (ml_padded ml) = 32 * ?nb" using assms(2) by (simp add: posting_ok_def round_up_block_def block_lanes_def)
  ultimately show thesis using that [OF t, of ?nb] by (simp add: round_up_block_def block_lanes_def)
qed

lemma posting_list_ready:
  assumes M: "dims_ok M" and ml: "posting_ok F M ml"
  shows "list_ready (M div 2) ml"
proof -
  obtain blocks nb where t: "tiles_ok F M ml blocks" "unat (ml_padded ml) = 32 * nb" "nb \<le> blocks" "nb \<le> 2 ^ 27"
    using posting_tiles [OF assms] by metis
  note b = dims_bound [OF M t(4)]
  have codes: "32 * nb * (M div 2) \<le> length (ml_codes ml)"
    unfolding b(1) using t(1,3) mult_le_mono2 [of nb blocks "16 * M"] by (simp add: tiles_ok_def)
  have "checked_multiply (32 * nb) (M div 2) msg = Inr (32 * nb * (M div 2))" for msg
    by (rule checked_multiply_ok) (simp only: b(1,2))
  moreover have "packed_metadata_size_bbs32 (32 * nb) = Inr (32 * nb * 3)" using b(3) by (simp add: packed_metadata_size_bbs32_def block_lanes_def)
  moreover have "32 * nb * 3 \<le> length (ml_metadata ml)" using t by (simp add: tiles_ok_def)
  ultimately have "image_ok (M div 2) ml" using codes by (simp add: image_ok_def list_image_def t(2))
  then show ?thesis using ml by (simp add: list_ready_def posting_ok_def)
qed

lemma take_grow: "cap \<le> length buf \<Longrightarrow> take cap buf = grow_buffer cap fill buf"
  by (simp add: grow_buffer_def)

lemma tight_posting:
  assumes F: "faiss_pq4 F" and M: "dims_ok M" and ml: "posting_ok F M ml"
  defines "t \<equiv> tight (M div 2) ml"
  shows "posting_ok F M t" and "i < unat (ml_size ml) \<Longrightarrow> row_code F M t i = row_code F M ml i \<and> row_metadata t i = row_metadata ml i"
proof -
  obtain blocks nb where tiles: "tiles_ok F M ml blocks" and nb: "unat (ml_padded ml) = 32 * nb" "nb \<le> blocks" "unat (ml_size ml) \<le> 32 * nb" "nb \<le> 2 ^ 27"
    using posting_tiles [OF M ml] by metis
  have even: "even_subquantizers M" using M by (simp add: dims_ok_def)
  have caps: "32 * nb * (M div 2) = 16 * M * nb" "16 * M * nb \<le> length (ml_codes ml)" "96 * nb \<le> length (ml_metadata ml)"
    using dims_bound(1) [OF M nb(4)] tiles nb(2) by (simp_all add: tiles_ok_def)
  have t: "ml_codes t = grow_buffer (16 * M * nb) 0 (ml_codes ml)" "ml_metadata t = grow_buffer (96 * nb) 255 (ml_metadata ml)"
    "ml_size t = ml_size ml" "ml_padded t = ml_padded ml"
    using take_grow [OF caps(2), of 0] take_grow [OF caps(3), of 255] by (simp_all add: t_def tight_def nb(1) caps(1))
  have codes: "get_packed_element F (ml_codes t) 32 M i m = get_packed_element F (ml_codes ml) 32 M i m" if "m < M" "i < 32 * nb" for i m
    using grown_codes [OF F even _ that, of "ml_codes ml" blocks] tiles that nb(2) by (simp add: t tiles_ok_def)
  have meta: "get_metadata (ml_metadata t) i = get_metadata (ml_metadata ml) i" if "i < 32 * nb" for i
    using grown_metadata [OF _ that, of "ml_metadata ml" blocks] tiles that nb(2) by (simp add: t tiles_ok_def)
  have "tiles_ok F M t nb" using tiles codes meta nb by (simp add: tiles_ok_def t)
  then show "posting_ok F M t" using ml t by (auto simp: posting_ok_def)
  show "i < unat (ml_size ml) \<Longrightarrow> row_code F M t i = row_code F M ml i \<and> row_metadata t i = row_metadata ml i"
    using codes meta nb(3) by (simp add: row_code_def row_metadata_def block_lanes_def)
qed

end
