(* ===== verification/Checkpoint_Restore.thy ===== *)
theory Checkpoint_Restore
  imports Checkpoint_Load List_Index_State
begin

text \<open>
  The files of the live index lie outside those of a checkpoint, so that a checkpoint never disturbs it;
  loading a published checkpoint gives an index with the same entries.
\<close>

section \<open>The files of the index are not those of a checkpoint\<close>

text \<open>Record store and directory lie below the storage root, as the constructors place them.\<close>

definition index_rooted :: "list_index \<Rightarrow> bool" where
  "index_rooted ix \<longleftrightarrow> st_root (ix_store ix) = xo_storage_root (ix_options ix)
    \<and> dir_path (ix_directory ix) = checkpoint_path (ix_options ix) ''locations.bin''"

definition checkpoint_files :: "index_options \<Rightarrow> string \<Rightarrow> nat \<Rightarrow> nat \<Rightarrow> string set" where
  "checkpoint_files opts stamp g old =
    insert (checkpoint_path opts ''manifest.bin'') (checkpoint_scratch opts stamp g \<union> old_generation opts old)"

lemma path_join_extends: "\<exists>z. path_join a b = a @ z"
  by (auto simp: path_join_def)

lemma file_of_records:
  assumes "index_rooted ix" and "index_static ops ix" and "l < length (ix_lists ix)"
  shows "\<exists>z. file_of ix l = root_prefix (ix_options ix) @ ''records'' @ z"
proof -
  have root: "st_root (ix_store ix) = xo_storage_root (ix_options ix)" using assms(1) by (simp add: index_rooted_def)
  obtain y where y: "list_dir (ix_store ix) (of_nat l) = path_join (xo_storage_root (ix_options ix)) ''records'' @ y"
    unfolding list_dir_def root using path_join_extends by blast
  have "file_of ix l = path_join (list_dir (ix_store ix) (of_nat l)) (''list_'' @ zero_fill 8 (decimal (unat (of_nat l :: u32))) @ ''.bin'')"
    using file_of_path [OF assms(2,3)] by (auto simp: list_path_def split: if_splits)
  then obtain z where "file_of ix l = list_dir (ix_store ix) (of_nat l) @ z" using path_join_extends by metis
  moreover have "path_join (xo_storage_root (ix_options ix)) ''records'' = root_prefix (ix_options ix) @ ''records''"
    unfolding root_prefix_def by (rule path_join_prefix)
  ultimately show ?thesis using y by simp
qed

lemmas checkpoint_file_sets = checkpoint_files_def checkpoint_scratch_def state_scratch_def quantizer_scratch_def old_generation_def checkpoint_paths

lemma index_files_fresh:
  assumes "index_rooted ix" and "index_static ops ix"
  shows "l < length (ix_lists ix) \<Longrightarrow> file_of ix l \<notin> checkpoint_files (ix_options ix) stamp g old"
    and "dir_path (ix_directory ix) \<notin> checkpoint_files (ix_options ix) stamp g old"
proof -
  show "file_of ix l \<notin> checkpoint_files (ix_options ix) stamp g old" if l: "l < length (ix_lists ix)"
  proof -
    obtain z where "file_of ix l = root_prefix (ix_options ix) @ ''records'' @ z" using file_of_records [OF assms l] by blast
    then show ?thesis by (simp add: checkpoint_file_sets)
  qed
  show "dir_path (ix_directory ix) \<notin> checkpoint_files (ix_options ix) stamp g old"
    using assms(1) by (simp add: index_rooted_def checkpoint_file_sets)
qed

text \<open>Entries and invariant depend on the index files only.\<close>

lemma index_files_same:
  assumes "\<And>l. l < length (ix_lists ix) \<Longrightarrow> content d' (file_of ix l) = content d (file_of ix l)"
    and "content d' (dir_path (ix_directory ix)) = content d (dir_path (ix_directory ix))"
  shows "index_ok ops ix d \<Longrightarrow> index_ok ops ix d'" and "index_ok ops ix d \<Longrightarrow> index_lookup ops ix d' i = index_lookup ops ix d i"
proof -
  assume ok: "index_ok ops ix d"
  show "index_ok ops ix d'"
    using ok assms by (simp add: index_ok_def files_ok_def rows_located_def ids_located_def Let_def)
  let ?loc = "dir_lookup (dir_content ix d) i"
  have "unat (dl_list ?loc) < length (ix_lists ix)" if "unat i < ix_next_id ix" "location_active ?loc"
    using ok that by (auto simp: index_ok_def ids_located_def Let_def)
  then show "index_lookup ops ix d' i = index_lookup ops ix d i"
    using assms by (simp add: index_lookup_def Let_def entry_at_def)
qed

lemma frame_index:
  assumes "index_rooted ix" and ok: "index_ok ops ix d" and fr: "frame (checkpoint_files (ix_options ix) stamp g old) d d'"
  shows "index_ok ops ix d'" and "index_lookup ops ix d' i = index_lookup ops ix d i"
proof -
  have st: "index_static ops ix" using ok by (simp add: index_ok_def)
  have lists: "content d' (file_of ix l) = content d (file_of ix l)" if "l < length (ix_lists ix)" for l
    using frame_keep [OF fr index_files_fresh(1) [OF assms(1) st that]] by (simp add: content_def)
  have dir: "content d' (dir_path (ix_directory ix)) = content d (dir_path (ix_directory ix))"
    using frame_keep [OF fr index_files_fresh(2) [OF assms(1) st]] by (simp add: content_def)
  show "index_ok ops ix d'" "index_lookup ops ix d' i = index_lookup ops ix d i"
    using index_files_same [OF lists dir ok] by blast+
qed

lemma generation_irrelevant:
  "index_ok ops (ix\<lparr>ix_generation := g\<rparr>) d = index_ok ops ix d" "index_lookup ops (ix\<lparr>ix_generation := g\<rparr>) d i = index_lookup ops ix d i"
  by (simp_all add: index_ok_def index_static_def lists_ok_def files_ok_def rows_located_def ids_located_def index_lookup_def
      entry_at_def file_of_def list_rows_def Let_def)

section \<open>Loading a published checkpoint\<close>

text \<open>The index as the constructor leaves it before it loads the checkpoint of \<open>ix\<close>.\<close>

definition reopened :: "list_index \<Rightarrow> list_index" where
  "reopened ix = ix\<lparr>ix_options := (ix_options ix)\<lparr>xo_create_storage := False\<rparr>,
     ix_lists := replicate (length (ix_lists ix)) empty_list, ix_next_id := 0, ix_active := 0, ix_generation := 0\<rparr>"

text \<open>The index that loading gives.\<close>

definition restored :: "list_index \<Rightarrow> nat \<Rightarrow> list_index" where
  "restored ix g = (reopened ix)\<lparr>ix_lists := map (tight (code_size ix)) (ix_lists ix), ix_next_id := ix_next_id ix,
     ix_active := ix_active ix, ix_generation := g\<rparr>"

lemma restored_ok:
  assumes ok: "index_ok ops ix d"
  shows "index_ok ops (restored ix g) d" and "index_lookup ops (restored ix g) d i = index_lookup ops ix d i"
proof -
  let ?ix = "restored ix g"
  have st: "index_static ops ix" and lists: "lists_ok ops ix" using ok by (simp_all add: index_ok_def)
  have F: "faiss_pq4 (op_pq4 ops)" and M: "dims_ok (ix_subquantizers ix)" using st by (simp_all add: index_static_def)
  have posting: "posting_ok (op_pq4 ops) (ix_subquantizers ix) (ix_lists ix ! l)" if "l < length (ix_lists ix)" for l
    using lists that by (simp add: lists_ok_def)
  note same = restored_def reopened_def
  have rows: "list_rows ?ix l = list_rows ix l" if "l < length (ix_lists ix)" for l
    using that by (simp add: list_rows_def same tight_def)
  have lf: "file_of ?ix l = file_of ix l" for l by (simp add: file_of_def same)
  have sum: "(\<Sum>l<length (ix_lists ix). list_rows ?ix l) = (\<Sum>l<length (ix_lists ix). list_rows ix l)"
    by (rule sum.cong) (simp_all add: rows)
  have "posting_ok (op_pq4 ops) (ix_subquantizers ix) ml" if "ml \<in> set (map (tight (code_size ix)) (ix_lists ix))" for ml
    using that lists tight_posting(1) [OF F M] by (auto simp: lists_ok_def code_size_def)
  then have "lists_ok ops ?ix" using lists sum by (simp add: lists_ok_def) (simp add: same)
  moreover have "index_static ops ?ix" using st lf by (simp add: index_static_def) (simp add: same)
  moreover have "files_ok ?ix d" "rows_located ?ix d" "ids_located ?ix d"
    using ok rows lf by (simp_all add: index_ok_def files_ok_def rows_located_def ids_located_def Let_def) (simp_all add: same)
  ultimately show "index_ok ops ?ix d" by (simp add: index_ok_def)
  let ?loc = "dir_lookup (dir_content ix d) i"
  have "entry_at ops ?ix d (unat (dl_list ?loc)) (unat (dl_offset ?loc)) = entry_at ops ix d (unat (dl_list ?loc)) (unat (dl_offset ?loc))"
    if "unat i < ix_next_id ix" "location_active ?loc"
  proof -
    have l: "unat (dl_list ?loc) < length (ix_lists ix)" "unat (dl_offset ?loc) < list_rows ix (unat (dl_list ?loc))"
      using ok that by (auto simp: index_ok_def ids_located_def Let_def)
    then show ?thesis
      using tight_posting(2) [OF F M posting [OF l(1)], of "unat (dl_offset ?loc)"] lf
      by (simp add: entry_at_def list_rows_def) (simp add: same code_size_def)
  qed
  then show "index_lookup ops ?ix d i = index_lookup ops ix d i"
    by (simp add: index_lookup_def Let_def) (simp add: same)
qed

lemma reopened_simps [simp]:
  "checkpoint_path (ix_options (reopened ix)) = checkpoint_path (ix_options ix)"
  "generation_path (ix_options (reopened ix)) = generation_path (ix_options ix)"
  "ix_store (reopened ix) = ix_store ix" "ix_quantizer (reopened ix) = ix_quantizer ix" "length (ix_lists (reopened ix)) = length (ix_lists ix)"
  "xo_payload_format (ix_options (reopened ix)) = xo_payload_format (ix_options ix)" "code_size (reopened ix) = code_size ix"
  by (auto simp: reopened_def checkpoint_path_def generation_path_def code_size_def fun_eq_iff)

lemma current_manifest_small:
  assumes st: "index_static ops ix" and "lists_ok ops ix" and dim: "qz_dimension (ix_quantizer ix) \<le> 2 ^ 20" and g: "g < 2 ^ 64"
  shows "\<forall>v \<in> set (manifest_fields (current_manifest ix g)). v < 2 ^ 64"
proof -
  have store: "store_ok (ix_store ix)" using st by (simp add: index_static_def)
  note geo = store_geometry [OF store]
  have "st_stride (ix_store ix) \<le> page_size (ix_store ix)" using geo(2,4) by (metis One_nat_def Suc_leI le_trans mult_le_mono1 nat_mult_1)
  then have "page_size (ix_store ix) \<le> 2 ^ 31" "st_stride (ix_store ix) \<le> 2 ^ 31" "payload_bytes (ix_store ix) \<le> 2 ^ 31" using geo(1,5) by linarith+
  moreover have "st_per_page (ix_store ix) \<le> u32_max" by (rule geo(7))
  moreover have "length (ix_lists ix) \<le> u32_max" "ix_subquantizers ix \<le> 2 ^ 20" using st by (simp_all add: index_static_def dims_ok_def)
  moreover have "ix_next_id ix \<le> u32_max" "ix_active ix \<le> u32_max" using assms(2) by (simp_all add: lists_ok_def)
  moreover have "payload_code (xo_payload_format (ix_options ix)) < 2 ^ 64" by (cases "xo_payload_format (ix_options ix)") simp_all
  ultimately show ?thesis using dim g by (simp add: manifest_fields_def current_manifest_def block_lanes_def u32_max_def)
qed

lemma yields_manifest:
  assumes ok: "index_ok ops ix d" and dim: "qz_dimension (ix_quantizer ix) \<le> 2 ^ 20" and g: "g < 2 ^ 64" "g \<noteq> 0"
    and pub: "state_published ix g d" and router: "files d (checkpoint_path (ix_options ix) ''router.faiss'') \<noteq> None" and "benign d"
  shows "yields (read_manifest (reopened ix)) d (current_manifest ix g)"
proof -
  let ?m = "current_manifest ix g"
  have st: "index_static ops ix" and lists: "lists_ok ops ix" using ok by (simp_all add: index_ok_def)
  have magic: "length (mf_magic ?m) = 8" by (simp add: current_manifest_def manifest_magic_def)
  have parse: "manifest_of (manifest_bytes ?m) = ?m" by (rule manifest_of_bytes [OF magic current_manifest_small [OF st lists dim g(1)]])
  have "ix_next_id ix \<le> u32_max" "ix_active ix \<le> size_max"
    using lists u32_max_le_size_max by (simp_all add: lists_ok_def)
  then have accepted: "manifest_ok (reopened ix) ?m"
    using g(2) by (simp add: manifest_ok_def current_manifest_def)
  obtain r d1 where present: "is_regular_file (checkpoint_path (ix_options ix) ''router.faiss'') d = (r, d1)" by (metis surj_pair)
  have d1: "r = Inr True" "files d1 = files d" "benign d1"
    using is_regular_file_result [OF present] router assms(7) by auto
  have "yields (is_regular_file (checkpoint_path (ix_options ix) ''router.faiss'')) d True"
    using present d1 by (simp add: yields_def)
  then show ?thesis unfolding read_manifest_def reopened_simps
  proof (rule yields_bind)
    fix d2 assume d2: "files d2 = files d" "benign d2"
    let ?read = "read_checkpoint (checkpoint_path (ix_options ix) ''manifest.bin'') 120 ''external-list manifest is missing'' ''external-list manifest has trailing bytes''"
    have "yields ?read d2 (manifest_bytes ?m)"
      by (rule yields_checkpoint [OF d2(2) _ length_manifest_bytes [OF magic]]) (use pub d2(1) in \<open>simp add: state_published_def\<close>)
    then have "yields (io_bind ?read (\<lambda>bs. if \<not> manifest_ok (reopened ix) (manifest_of bs)
        then io_throw (Runtime_error ''external-list manifest is incompatible'') else io_return (manifest_of bs))) d2 ?m"
      by (rule yields_bind) (simp add: parse accepted yields_return)
    then show "yields (if \<not> True then io_throw (Runtime_error ''external-list PQFastScan router is missing'')
        else io_bind ?read (\<lambda>bs. if \<not> manifest_ok (reopened ix) (manifest_of bs)
          then io_throw (Runtime_error ''external-list manifest is incompatible'') else io_return (manifest_of bs))) d2 ?m" by simp
  qed
qed

lemma yields_sizes:
  assumes ok: "index_ok ops ix d" and pub: "state_published ix g d" and "benign d"
  shows "yields (read_sizes (reopened ix) (current_manifest ix g)) d (map ml_size (ix_lists ix))"
proof -
  let ?m = "current_manifest ix g" let ?n = "length (ix_lists ix)" let ?sizes = "map ml_size (ix_lists ix)"
  have st: "index_static ops ix" and lists: "lists_ok ops ix" using ok by (simp_all add: index_ok_def)
  have gen: "mf_generation ?m = g" "mf_active_count ?m = ix_active ix" by (simp_all add: current_manifest_def)
  have file_bytes: "files d (sizes_path (ix_options ix) g) = Some (sizes_bytes (ix_lists ix))" using pub by (simp add: state_published_def)
  have rows: "unat (?sizes ! l) = list_rows ix l" if "l < ?n" for l using that by (simp add: list_rows_def)
  have sum: "sum_list (map (\<lambda>l. unat (?sizes ! l)) [0..<?n]) = ix_active ix"
  proof -
    have "sum_list (map (\<lambda>l. unat (?sizes ! l)) [0..<?n]) = (\<Sum>l \<in> {0..<?n}. unat (?sizes ! l))"
      by (simp add: interv_sum_list_conv_sum_set_nat)
    also have "\<dots> = (\<Sum>l<?n. list_rows ix l)" by (rule sum.cong) (auto simp: list_rows_def)
    finally show ?thesis using lists by (simp add: lists_ok_def)
  qed
  have validate: "yields (io_fold (validate_size (reopened ix) ?sizes) [0..<?n] 0) d' (ix_active ix)" if d': "files d' = files d" "benign d'" for d'
  proof -
    have "yields (io_fold (validate_size (reopened ix) ?sizes) [0..<?n] 0) d' (0 + sum_list (map (\<lambda>l. unat (?sizes ! l)) [0..<?n]))"
    proof (rule yields_validate_sizes [OF d'(2)])
      show "store_ok (ix_store (reopened ix))" using st by (simp add: index_static_def)
      fix l assume "l \<in> set [0..<?n]"
      then have l: "l < ?n" by simp
      have "length (list_content ix d l) = page_count (list_rows ix l) (st_per_page (ix_store ix)) * page_size (ix_store ix)"
        using ok l by (simp add: index_ok_def files_ok_def)
      then show "\<exists>p. list_path (ix_store (reopened ix)) (of_nat l) = Inr p
          \<and> length (content d' p) = page_count (unat (?sizes ! l)) (st_per_page (ix_store (reopened ix))) * page_size (ix_store (reopened ix))"
        unfolding reopened_simps rows [OF l] using file_of_path [OF st l] content_same [OF d'(1)] by auto
    next
      show "0 + sum_list (map (\<lambda>l. unat (?sizes ! l)) [0..<?n]) \<le> size_max"
        unfolding sum using lists u32_max_le_size_max by (simp add: lists_ok_def)
    qed
    then show ?thesis unfolding sum by simp
  qed
  have "yields (read_checkpoint (sizes_path (ix_options ix) g) (4 * ?n) ''external-list sizes checkpoint is missing''
      ''external-list sizes have trailing bytes'') d (sizes_bytes (ix_lists ix))"
    by (rule yields_checkpoint [OF assms(3) file_bytes length_sizes_bytes])
  then show ?thesis unfolding read_sizes_def Let_def reopened_simps gen
  proof (rule yields_bind)
    fix d1 assume d1: "files d1 = files d" "benign d1"
    show "yields (io_bind (io_fold (validate_size (reopened ix) (map (\<lambda>l. of_le32 (segment (sizes_bytes (ix_lists ix)) (4 * l) 4)) [0..<?n])) [0..<?n] 0)
        (\<lambda>active_sum. if active_sum \<noteq> ix_active ix then io_throw (Runtime_error ''manifest active count disagrees with list sizes'')
          else io_return (map (\<lambda>l. of_le32 (segment (sizes_bytes (ix_lists ix)) (4 * l) 4)) [0..<?n]))) d1 ?sizes"
      unfolding sizes_of_bytes by (rule yields_bind [OF validate [OF d1]]) (simp add: yields_return)
  qed
qed

lemma yields_load:
  assumes ok: "index_ok ops ix d" and dim: "qz_dimension (ix_quantizer ix) \<le> 2 ^ 20" and g: "g < 2 ^ 64" "g \<noteq> 0"
    and pub: "state_published ix g d" and router: "files d (checkpoint_path (ix_options ix) ''router.faiss'') \<noteq> None" and "benign d"
  shows "yields (load_checkpoint_locked (reopened ix)) d (restored ix g)"
proof -
  let ?m = "current_manifest ix g" let ?p = "postings_path (ix_options ix) g"
  have st: "index_static ops ix" and lists: "lists_ok ops ix" using ok by (simp_all add: index_ok_def)
  have gen: "mf_generation ?m = g" "mf_active_count ?m = ix_active ix" "mf_next_id ?m = ix_next_id ix"
    by (simp_all add: current_manifest_def)
  have M: "dims_ok (ix_subquantizers ix)" using st by (simp add: index_static_def)
  have ready: "\<forall>ml \<in> set (ix_lists ix). list_ready (code_size ix) ml"
    using lists posting_list_ready [OF M] by (auto simp: lists_ok_def code_size_def)
  have final: "(reopened ix)\<lparr>ix_lists := map (tight (code_size ix)) (ix_lists ix), ix_next_id := ix_next_id ix, ix_active := ix_active ix,
      ix_generation := g\<rparr> = restored ix g" by (simp add: restored_def)
  show ?thesis unfolding load_checkpoint_locked_def
  proof (rule yields_bind [OF yields_manifest [OF assms]])
    fix d1 assume d1: "files d1 = files d" "benign d1"
    have ok1: "index_ok ops ix d1" using index_files_same(1) [OF _ _ ok, of d1] content_same [OF d1(1)] by simp
    have pub1: "state_published ix g d1" using pub d1(1) by (simp add: state_published_def)
    show "yields (io_bind (read_sizes (reopened ix) ?m) (\<lambda>sizes.
        let postings = postings_path (ix_options (reopened ix)) (mf_generation ?m) in
        io_bind (open_checkpoint postings ''external-list postings are missing'') (\<lambda>_.
        io_bind (read_postings postings (code_size (reopened ix)) sizes 0) (\<lambda>mls.
          io_return ((reopened ix)\<lparr>ix_lists := mls, ix_next_id := mf_next_id ?m, ix_active := mf_active_count ?m,
            ix_generation := mf_generation ?m\<rparr>))))) d1 (restored ix g)"
      unfolding Let_def reopened_simps gen
    proof (rule yields_bind [OF yields_sizes [OF ok1 pub1 d1(2)]])
      fix d2 assume d2: "files d2 = files d1" "benign d2"
      have file_bytes: "files d2 ?p = Some (postings_bytes (code_size ix) (ix_lists ix))" using pub1 d2(1) by (simp add: state_published_def)
      have "yields (open_checkpoint ?p ''external-list postings are missing'') d2 ()"
        by (rule yields_open [OF d2(2)]) (simp add: file_bytes)
      then show "yields (io_bind (open_checkpoint ?p ''external-list postings are missing'') (\<lambda>_.
          io_bind (read_postings ?p (code_size ix) (map ml_size (ix_lists ix)) 0) (\<lambda>mls.
            io_return ((reopened ix)\<lparr>ix_lists := mls, ix_next_id := ix_next_id ix, ix_active := ix_active ix, ix_generation := g\<rparr>)))) d2 (restored ix g)"
      proof (rule yields_bind)
        fix d3 assume d3: "files d3 = files d2" "benign d3"
        have "content d3 ?p = [] @ postings_bytes (code_size ix) (ix_lists ix)" using file_bytes d3(1) by (simp add: content_def)
        from yields_postings [OF d3(2) this ready]
        have "yields (read_postings ?p (code_size ix) (map ml_size (ix_lists ix)) 0) d3 (map (tight (code_size ix)) (ix_lists ix))" by simp
        then show "yields (io_bind (read_postings ?p (code_size ix) (map ml_size (ix_lists ix)) 0) (\<lambda>mls.
            io_return ((reopened ix)\<lparr>ix_lists := mls, ix_next_id := ix_next_id ix, ix_active := ix_active ix, ix_generation := g\<rparr>))) d3 (restored ix g)"
          by (rule yields_bind) (unfold final, rule yields_return)
      qed
    qed
  qed
qed

end
