(* ===== verification/Checkpoint_Accept.thy ===== *)
theory Checkpoint_Accept
  imports Checkpoint_Restore
begin

text \<open>
  What loading a checkpoint accepts, under every outcome of the system calls: the bytes of the files are
  those that the loaded index would write.
\<close>

section \<open>Reads that returned\<close>

lemma read_binary_Inr:
  assumes "read_binary p pos n d = (Inr bs, d')"
  shows "files d' = files d \<and> bs = segment (content d p) pos n \<and> length bs = n \<and> (benign d \<longrightarrow> benign d')"
proof (cases "n = 0")
  case True
  then show ?thesis using assms by (auto simp: read_binary_def)
next
  case False
  obtain r d1 where r: "stream_read p pos n d = (r, d1)" by (metis surj_pair)
  have run: "r = Some bs" "d' = d1" using assms r False by (auto simp: read_binary_def read_file_field_def split: option.splits)
  show ?thesis using stream_read_result [OF r] run by blast
qed

lemma reject_more_Inr:
  assumes "reject_more p pos trailing d = (Inr u, d')"
  shows "files d' = files d \<and> (benign d \<longrightarrow> length (content d p) \<le> pos \<and> benign d')"
proof -
  obtain b d1 where o: "stream_more p pos d = (b, d1)" by (metis surj_pair)
  have run: "\<not> b" "d' = d1" using assms o by (auto simp: reject_more_def split: if_splits)
  then show ?thesis using stream_more_result [OF o] by auto
qed

lemma open_checkpoint_Inr:
  assumes "open_checkpoint p missing d = (Inr u, d')"
  shows "files d' = files d \<and> (benign d \<longrightarrow> benign d')"
proof -
  obtain b d1 where o: "open_in p d = (b, d1)" by (metis surj_pair)
  have "d' = d1" using assms o by (auto simp: open_checkpoint_def split: if_splits)
  then show ?thesis using open_in_result [OF o] by blast
qed

text \<open>The content of a file that was read completely; a failing read may hide what follows.\<close>

definition holds :: "disk \<Rightarrow> string \<Rightarrow> bytes \<Rightarrow> bool" where
  "holds d p bs \<longleftrightarrow> (\<exists>tail. content d p = bs @ tail \<and> (benign d \<longrightarrow> tail = []))"

lemma read_checkpoint_Inr:
  assumes "read_checkpoint p n missing trailing d = (Inr bs, d')"
  shows "files d' = files d \<and> length bs = n \<and> holds d p bs \<and> (benign d \<longrightarrow> benign d')"
proof -
  obtain d1 d2 where o: "open_checkpoint p missing d = (Inr (), d1)" and b: "read_binary p 0 n d1 = (Inr bs, d2)"
    and m: "reject_more p n trailing d2 = (Inr (), d')"
    using assms by (auto simp: read_checkpoint_def io_bind_Inr_iff)
  note 1 = open_checkpoint_Inr [OF o] and 2 = read_binary_Inr [OF b] and 3 = reject_more_Inr [OF m]
  have c: "content d1 p = content d p" "content d2 p = content d p" using content_same 1 2 by metis+
  have "content d p = bs @ drop n (content d p)" using 2 c by (simp add: segment_def)
  moreover have "benign d \<longrightarrow> drop n (content d p) = []" using 1 2 3 c by simp
  ultimately have "holds d p bs" unfolding holds_def by blast
  moreover have "length bs = n" "benign d \<longrightarrow> benign d'" using 1 2 3 by blast+
  moreover have "files d' = files d" using 1 2 3 by metis
  ultimately show ?thesis by blast
qed

section \<open>Parsing and printing back\<close>

lemma concat_segments: "concat (map (\<lambda>k. segment bs (a + n * k) n) [0..<m]) = segment bs a (n * m)"
  by (induction m) (simp_all add: segment_split [symmetric] add.commute)

lemma manifest_bytes_of:
  assumes "length bs = 120"
  shows "manifest_bytes (manifest_of bs) = bs"
proof -
  let ?field = "\<lambda>k. unat (of_le64 (segment bs (8 + 8 * k) 8))"
  have fields: "manifest_fields (manifest_of bs) = map ?field [0..<14]"
    by (simp add: manifest_fields_def manifest_of_def Let_def upt_rec)
  have le: "le64 (of_nat (?field k)) = segment bs (8 + 8 * k) 8" if "k < 14" for k
    using that assms by (simp add: le64_of_le64 segment_def)
  have "concat (map (\<lambda>v. le64 (of_nat v)) (map ?field [0..<14])) = concat (map (\<lambda>k. segment bs (8 + 8 * k) 8) [0..<14])"
    unfolding map_map comp_def by (rule arg_cong [where f = concat], rule map_cong [OF refl], rule le) simp
  also have "\<dots> = segment bs 8 112" using concat_segments [of bs 8 8 14] by simp
  finally have "manifest_bytes (manifest_of bs) = take 8 bs @ segment bs 8 112"
    unfolding manifest_bytes_def fields by (simp add: manifest_of_def Let_def)
  then show ?thesis using assms by (simp add: segment_def)
qed

lemma sizes_bytes_of:
  assumes "length bs = 4 * n" and "map ml_size mls = map (\<lambda>l. of_le32 (segment bs (4 * l) 4)) [0..<n]"
  shows "sizes_bytes mls = bs"
proof -
  have le: "le32 (of_le32 (segment bs (4 * l) 4)) = segment bs (0 + 4 * l) 4" if "l < n" for l
    using that assms(1) by (simp add: le32_of_le32 segment_def)
  have "sizes_bytes mls = concat (map le32 (map ml_size mls))" by (simp add: sizes_bytes_def comp_def)
  also have "\<dots> = concat (map (\<lambda>l. segment bs (0 + 4 * l) 4) [0..<n])"
    unfolding assms(2) map_map comp_def by (rule arg_cong [where f = concat], rule map_cong [OF refl], rule le) simp
  also have "\<dots> = segment bs 0 (4 * n)" by (rule concat_segments)
  finally show ?thesis using assms(1) segment_full [of bs] by simp
qed

section \<open>Sizes and postings\<close>

definition list_file_sized :: "list_index \<Rightarrow> disk \<Rightarrow> nat \<Rightarrow> u32 \<Rightarrow> bool" where
  "list_file_sized ix d l n \<longleftrightarrow> (\<exists>p. list_path (ix_store ix) (of_nat l) = Inr p
    \<and> length (content d p) = u64_mult (page_count (unat n) (st_per_page (ix_store ix))) (page_size (ix_store ix)))"

lemma validate_list_file_Inr:
  assumes "validate_list_file (ix_store ix) (of_nat l) n d = (Inr u, d')"
  shows "files d' = files d \<and> list_file_sized ix d l n \<and> (benign d \<longrightarrow> benign d')"
proof -
  obtain p where p: "list_path (ix_store ix) (of_nat l) = Inr p"
    using assms by (auto simp: validate_list_file_def io_bind_Inr_iff)
  obtain c d1 where c: "sys_call (''stat('' @ p @ '')'') d = (c, d1)" by (metis surj_pair)
  note res = sys_call_result [OF c]
  have "length (content d p) = u64_mult (page_count (unat n) (st_per_page (ix_store ix))) (page_size (ix_store ix)) \<and> d' = d1"
    using assms p c res(1)
    by (auto simp: validate_list_file_def content_def page_count_def u64_mult_def split: sum.splits option.splits if_splits)
  then show ?thesis using res p by (auto simp: list_file_sized_def)
qed

lemma validate_sizes_Inr:
  assumes "io_fold (validate_size ix sizes) ls s d = (Inr active, d')" and "s \<le> size_max"
  shows "files d' = files d \<and> active = s + sum_list (map (\<lambda>l. unat (sizes ! l)) ls) \<and> active \<le> size_max
    \<and> (\<forall>l \<in> set ls. list_file_sized ix d l (sizes ! l)) \<and> (benign d \<longrightarrow> benign d')"
  using assms
proof (induction ls arbitrary: s d)
  case (Cons l ls)
  obtain a d1 where v: "validate_size ix sizes l s d = (Inr a, d1)" and more: "io_fold (validate_size ix sizes) ls a d1 = (Inr active, d')"
    using Cons.prems(1) by (auto simp: io_bind_Inr_iff)
  have a: "a = s + unat (sizes ! l)" "a \<le> size_max" and f: "validate_list_file (ix_store ix) (of_nat l) (sizes ! l) d = (Inr (), d1)"
    using v Cons.prems(2) by (auto simp: validate_size_def io_bind_Inr_iff checked_add_iff)
  note 1 = validate_list_file_Inr [OF f] and 2 = Cons.IH [OF more a(2)]
  have "list_file_sized ix d1 k n \<longleftrightarrow> list_file_sized ix d k n" for k n
    using content_same [of d1 d] 1 by (simp add: list_file_sized_def)
  then show ?case using 1 2 a(1) by simp
qed simp

text \<open>What the buffers of a loaded list look like.\<close>

definition list_loaded :: "nat \<Rightarrow> memory_list \<Rightarrow> bool" where
  "list_loaded cb ml \<longleftrightarrow> ml_padded ml = of_nat (round_up_block (unat (ml_size ml)))
    \<and> length (ml_codes ml) = unat (ml_padded ml) * cb \<and> length (ml_metadata ml) = unat (ml_padded ml) * 3"

lemma list_loaded_image: "list_loaded cb ml \<Longrightarrow> image_bytes cb ml = ml_codes ml @ ml_metadata ml"
  by (simp add: list_loaded_def image_bytes_def)

lemma read_postings_Inr:
  assumes "read_postings p cb sizes pos d = (Inr mls, d')" and "pos \<le> length (content d p)"
  shows "files d' = files d \<and> map ml_size mls = sizes \<and> (\<forall>ml \<in> set mls. list_loaded cb ml)
    \<and> (\<exists>tail. drop pos (content d p) = postings_bytes cb mls @ tail \<and> (benign d \<longrightarrow> tail = []))"
  using assms
proof (induction sizes arbitrary: pos d mls)
  case Nil
  then show ?case using reject_more_Inr [of p pos _ d "()" d'] by (auto simp: io_bind_Inr_iff postings_bytes_def)
next
  case (Cons n ns)
  let ?padded = "of_nat (round_up_block (unat n)) :: u32"
  have round: "round_up (unat n) block_lanes = Inr (round_up_block (unat n))" by (rule round_up_ok) simp
  obtain cb' mb codes metadata ms d1 d2 where
    cb': "checked_multiply (unat ?padded) cb ''checkpoint code size overflows'' = Inr cb'" and mb: "packed_metadata_size_bbs32 (unat ?padded) = Inr mb"
    and rc: "read_binary p pos cb' d = (Inr codes, d1)" and rm: "read_binary p (pos + cb') mb d1 = (Inr metadata, d2)"
    and more: "read_postings p cb ns (pos + cb' + mb) d2 = (Inr ms, d')"
    and mls: "mls = \<lparr>ml_codes = codes, ml_metadata = metadata, ml_size = n, ml_padded = ?padded\<rparr> # ms"
    using Cons.prems(1) unfolding read_postings.simps round io_bind_lift Let_def by (auto simp: io_bind_Inr_iff)
  have sizes: "cb' = unat ?padded * cb" "mb = unat ?padded * 3"
    using cb' mb by (auto simp: checked_multiply_def packed_metadata_size_bbs32_def split: if_splits)
  note 1 = read_binary_Inr [OF rc] and 2 = read_binary_Inr [OF rm]
  have c: "content d1 p = content d p" "content d2 p = content d p" using content_same 1 2 by metis+
  have parts: "segment (content d p) pos (cb' + mb) = codes @ metadata" using 1 2 c by (simp add: segment_split)
  have len: "length codes = cb'" "length metadata = mb" using 1 2 by blast+
  then have "length (segment (content d p) pos (cb' + mb)) = cb' + mb" using parts by simp
  then have fits: "pos + cb' + mb \<le> length (content d p)" using Cons.prems(2) by (simp add: segment_def)
  note 3 = Cons.IH [OF more, unfolded c, OF fits]
  let ?ml = "\<lparr>ml_codes = codes, ml_metadata = metadata, ml_size = n, ml_padded = ?padded\<rparr>"
  have ml: "list_loaded cb ?ml" using len sizes by (simp add: list_loaded_def)
  obtain tail where tail: "drop (pos + cb' + mb) (content d p) = postings_bytes cb ms @ tail" "benign d2 \<longrightarrow> tail = []" using 3 by blast
  have "drop pos (content d p) = segment (content d p) pos (cb' + mb) @ drop (cb' + mb) (drop pos (content d p))"
    unfolding segment_def by (rule append_take_drop_id [symmetric])
  also have "\<dots> = (codes @ metadata) @ postings_bytes cb ms @ tail"
    unfolding parts drop_drop using tail(1) by (simp add: add_ac)
  also have "\<dots> = postings_bytes cb (?ml # ms) @ tail"
    using list_loaded_image [OF ml] by (simp add: postings_bytes_def)
  finally have "drop pos (content d p) = postings_bytes cb mls @ tail" unfolding mls .
  moreover have "benign d \<longrightarrow> tail = []" using tail(2) 1 2 by blast
  moreover have "files d' = files d" using 1 2 3 by metis
  moreover have "map ml_size mls = n # ns" "\<forall>ml \<in> set mls. list_loaded cb ml" using 3 ml mls by simp_all
  ultimately show ?case by blast
qed

section \<open>The whole load\<close>

lemma read_manifest_Inr:
  assumes "read_manifest ix d = (Inr m, d')"
  shows "files d' = files d \<and> manifest_ok ix m \<and> holds d (checkpoint_path (ix_options ix) ''manifest.bin'') (manifest_bytes m)
    \<and> (benign d \<longrightarrow> benign d')"
proof -
  let ?p = "checkpoint_path (ix_options ix) ''manifest.bin''"
  obtain b d1 bs where b: "is_regular_file (checkpoint_path (ix_options ix) ''router.faiss'') d = (Inr b, d1)"
    and bs: "read_checkpoint ?p 120 ''external-list manifest is missing'' ''external-list manifest has trailing bytes'' d1 = (Inr bs, d')"
    and m: "m = manifest_of bs" "manifest_ok ix m"
    using assms unfolding read_manifest_def by (auto simp: io_bind_Inr_iff io_if_Inr_iff split: if_splits)
  note 1 = is_regular_file_result [OF b] and 2 = read_checkpoint_Inr [OF bs]
  have "manifest_bytes m = bs" using 2 m(1) manifest_bytes_of by blast
  moreover have "holds d ?p bs" using 1 2 content_same [of d1 d ?p] unfolding holds_def by metis
  moreover have "files d' = files d" using 1 2 by metis
  ultimately show ?thesis using 1 2 m(2) by blast
qed

lemma read_sizes_Inr:
  assumes "read_sizes ix m d = (Inr sizes, d')"
  defines "n \<equiv> length (ix_lists ix)"
  shows "files d' = files d \<and> length sizes = n \<and> mf_active_count m = sum_list (map (\<lambda>l. unat (sizes ! l)) [0..<n])
    \<and> (\<forall>l < n. list_file_sized ix d l (sizes ! l))
    \<and> (\<forall>mls. map ml_size mls = sizes \<longrightarrow> holds d (sizes_path (ix_options ix) (mf_generation m)) (sizes_bytes mls))
    \<and> (benign d \<longrightarrow> benign d')"
proof -
  let ?p = "sizes_path (ix_options ix) (mf_generation m)"
  obtain bs d1 active where bs: "read_checkpoint ?p (4 * n) ''external-list sizes checkpoint is missing''
        ''external-list sizes have trailing bytes'' d = (Inr bs, d1)"
    and sizes: "sizes = map (\<lambda>l. of_le32 (segment bs (4 * l) 4)) [0..<n]"
    and fold: "io_fold (validate_size ix sizes) [0..<n] 0 d1 = (Inr active, d')" and active: "active = mf_active_count m"
    using assms(1) unfolding read_sizes_def Let_def n_def [symmetric] by (auto simp: io_bind_Inr_iff split: if_splits)
  note 1 = read_checkpoint_Inr [OF bs] and 2 = validate_sizes_Inr [OF fold]
  have sized: "list_file_sized ix d1 l k \<longleftrightarrow> list_file_sized ix d l k" for l k
    using 1 content_same [of d1 d] unfolding list_file_sized_def by metis
  have "sizes_bytes mls = bs" if "map ml_size mls = sizes" for mls
    using sizes_bytes_of [of bs n mls] that sizes 1 by blast
  then have "\<forall>mls. map ml_size mls = sizes \<longrightarrow> holds d ?p (sizes_bytes mls)" using 1 by blast
  moreover have "\<forall>l < n. list_file_sized ix d l (sizes ! l)" using 2 sized by simp
  moreover have "mf_active_count m = sum_list (map (\<lambda>l. unat (sizes ! l)) [0..<n])" using 2 active by simp
  moreover have "files d' = files d" "benign d \<longrightarrow> benign d'" using 1 2 by (metis le0)+
  moreover have "length sizes = n" unfolding sizes by simp
  ultimately show ?thesis by blast
qed

text \<open>
  The loaded index fits its files: they hold what it would write itself, and every list file has the pages
  of its rows.
\<close>

definition checkpoint_matches :: "list_index \<Rightarrow> disk \<Rightarrow> bool" where
  "checkpoint_matches ix d \<longleftrightarrow>
    holds d (checkpoint_path (ix_options ix) ''manifest.bin'') (manifest_bytes (current_manifest ix (ix_generation ix)))
    \<and> holds d (sizes_path (ix_options ix) (ix_generation ix)) (sizes_bytes (ix_lists ix))
    \<and> holds d (postings_path (ix_options ix) (ix_generation ix)) (postings_bytes (code_size ix) (ix_lists ix))"

definition loaded_ok :: "list_index \<Rightarrow> disk \<Rightarrow> bool" where
  "loaded_ok ix d \<longleftrightarrow> ix_generation ix \<noteq> 0 \<and> ix_next_id ix \<le> u32_max
    \<and> ix_active ix = (\<Sum>l<length (ix_lists ix). list_rows ix l)
    \<and> (\<forall>ml \<in> set (ix_lists ix). list_loaded (code_size ix) ml)
    \<and> (\<forall>l < length (ix_lists ix). list_file_sized ix d l (ml_size (ix_lists ix ! l)))"

lemma load_checkpoint_Inr:
  assumes "load_checkpoint_locked ix0 d = (Inr ix, d')"
  shows "files d' = files d \<and> checkpoint_matches ix d \<and> loaded_ok ix d \<and> length (ix_lists ix) = length (ix_lists ix0)
    \<and> (\<exists>mls n a g. ix = ix0\<lparr>ix_lists := mls, ix_next_id := n, ix_active := a, ix_generation := g\<rparr>)"
proof -
  obtain m d1 sizes d2 d3 mls where m: "read_manifest ix0 d = (Inr m, d1)" and sizes: "read_sizes ix0 m d1 = (Inr sizes, d2)"
    and o: "open_checkpoint (postings_path (ix_options ix0) (mf_generation m)) ''external-list postings are missing'' d2 = (Inr (), d3)"
    and mls: "read_postings (postings_path (ix_options ix0) (mf_generation m)) (code_size ix0) sizes 0 d3 = (Inr mls, d')"
    and ix: "ix = ix0\<lparr>ix_lists := mls, ix_next_id := mf_next_id m, ix_active := mf_active_count m, ix_generation := mf_generation m\<rparr>"
    using assms unfolding load_checkpoint_locked_def Let_def by (auto simp: io_bind_Inr_iff)
  note 1 = read_manifest_Inr [OF m] and 2 = read_sizes_Inr [OF sizes] and 3 = open_checkpoint_Inr [OF o] and 4 = read_postings_Inr [OF mls]
  have d: "files d1 = files d" "files d2 = files d" "files d3 = files d" "benign d \<longrightarrow> benign d1 \<and> benign d3"
    using 1 2 3 by (metis, metis, metis, blast)
  have c: "content d1 p = content d p" "content d3 p = content d p" for p using content_same d by metis+
  have lists: "map ml_size mls = sizes" "\<forall>ml \<in> set mls. list_loaded (code_size ix0) ml" "files d' = files d" using 4 d by auto
  have n: "length mls = length (ix_lists ix0)" using 2 lists(1) by (metis length_map)
  have size_at: "sizes ! l = ml_size (mls ! l)" if "l < length mls" for l using lists(1) that nth_map by metis
  have same: "ix_options ix = ix_options ix0" "ix_store ix = ix_store ix0" "ix_quantizer ix = ix_quantizer ix0" "code_size ix = code_size ix0"
    "ix_lists ix = mls" "ix_generation ix = mf_generation m" "ix_active ix = mf_active_count m" "ix_next_id ix = mf_next_id m"
    unfolding ix by (simp_all add: code_size_def)
  have mok: "manifest_ok ix0 m" using 1 by blast
  have "current_manifest ix (mf_generation m) = m"
    using mok n by (simp add: current_manifest_def manifest_ok_def same)
  then have "holds d (checkpoint_path (ix_options ix) ''manifest.bin'') (manifest_bytes (current_manifest ix (ix_generation ix)))"
    using 1 same by simp
  moreover have "holds d1 (sizes_path (ix_options ix0) (mf_generation m)) (sizes_bytes mls)" using 2 lists(1) by blast
  then have "holds d (sizes_path (ix_options ix) (ix_generation ix)) (sizes_bytes (ix_lists ix))"
    unfolding same using c d(4) unfolding holds_def by metis
  moreover have "holds d (postings_path (ix_options ix) (ix_generation ix)) (postings_bytes (code_size ix) (ix_lists ix))"
    unfolding same holds_def using 4 c d(4) by (metis drop0 le0)
  ultimately have "checkpoint_matches ix d" by (simp add: checkpoint_matches_def)
  moreover have "loaded_ok ix d"
  proof -
    have sum: "mf_active_count m = (\<Sum>l<length mls. list_rows ix l)"
    proof -
      have "mf_active_count m = (\<Sum>l \<in> {0..<length mls}. unat (sizes ! l))"
        using 2 n by (simp add: interv_sum_list_conv_sum_set_nat)
      also have "\<dots> = (\<Sum>l<length mls. list_rows ix l)" by (rule sum.cong) (auto simp: list_rows_def same size_at)
      finally show ?thesis .
    qed
    have sized: "list_file_sized ix d l (ml_size (mls ! l))" if "l < length mls" for l
    proof -
      have "list_file_sized ix0 d1 l (sizes ! l)" using 2 that n by metis
      then show ?thesis unfolding list_file_sized_def same c size_at [OF that] .
    qed
    show ?thesis using sum sized lists(2) mok unfolding loaded_ok_def same manifest_ok_def by blast
  qed
  moreover have "length (ix_lists ix) = length (ix_lists ix0)" using n same(5) by simp
  moreover have "\<exists>mls n a g. ix = ix0\<lparr>ix_lists := mls, ix_next_id := n, ix_active := a, ix_generation := g\<rparr>" using ix by blast
  ultimately show ?thesis using lists(3) by blast
qed

lemma index_open_Inr:
  assumes "index_open parent linux_aio nlist rd adopted qz trained opts d = (Inr ix, d')" and "\<not> xo_create_storage opts"
  shows "files d' = files d \<and> (benign d \<longrightarrow> benign d') \<and> length (ix_lists ix) = nlist \<and> ix_options ix = opts \<and> ix_quantizer ix = qz
    \<and> qz_dimension qz = rd \<and> (adopted \<longrightarrow> trained)"
proof -
  obtain st d1 dir where st: "store_open linux_aio (xo_storage_root opts) nlist (index_store_options opts) False d = (Inr st, d1)"
    and dir: "directory_open parent linux_aio (index_directory opts) False d1 = (Inr dir, d')"
    and ix: "ix = \<lparr>ix_trained = trained, ix_quantizer = qz, ix_options = opts, ix_store = st, ix_directory = dir,
             ix_lists = replicate nlist empty_list, ix_next_id = 0, ix_active = 0, ix_generation = 0\<rparr>"
      "qz_dimension qz = rd" "adopted \<longrightarrow> trained"
    using assms by (auto simp: index_open_def io_bind_Inr_iff io_if_Inr_iff split: if_splits)
  have d1: "d1 = d" using st by (auto simp: store_open_def io_bind_Inr_iff io_lift_def Let_def split: if_splits)
  obtain u d2 where u: "(if parent (dir_path (index_directory opts)) \<noteq> [] then create_directories (parent (dir_path (index_directory opts)))
        else io_return ()) d1 = (Inr u, d2)" and o: "sys_open False False (dir_path (index_directory opts)) d2 = (Inr (), d')"
    using dir by (auto simp: directory_open_def io_bind_Inr_iff io_lift_def io_if_Inr_iff split: if_splits)
  have "files d2 = files d1 \<and> (benign d1 \<longrightarrow> benign d2)" using u create_directories_result by (auto split: if_splits)
  then have "files d' = files d \<and> (benign d \<longrightarrow> benign d')" using sys_open_existing [OF o] d1 by auto
  then show ?thesis using ix by simp
qed

end
