(* ===== verification/Quantizer_Coding.thy ===== *)
theory Quantizer_Coding
  imports Quantizer_Disk List_Index_Plan
begin

text \<open>
  Training, encoding and query preparation on quantizers that satisfy the invariant, and the operations
  of the external index that a quantizer provides.
\<close>

section \<open>The direction codec\<close>

lemma backend_uniform:
  "backend_ok F c (Uniform_backend cb) \<longleftrightarrow> qc_grouping c = Uniform \<and> codebook_for cb (qc_dimension c) (qc_subquantizers c)"
  by (simp add: backend_ok_def)

lemma uneven_sizes: "uneven_ok F U \<Longrightarrow> up_code_size U = up_M U div 2"
  by (simp add: uneven_ok_def uneven_dims_ok_def)

lemma direction_codes_ok:
  assumes "faiss_sizes F" and "backend_ok F c pq" and "length x = n * qc_dimension c"
  shows "\<exists>codes. direction_codes F pq n x = Inr codes \<and> length codes = n * (qc_subquantizers c div 2)"
proof (cases pq)
  case (Uniform_backend cb)
  then show ?thesis using assms by (auto simp: direction_codes_def backend_ok_def faiss_sizes_def faiss_pq_sizes_def)
next
  case (Uneven_backend U)
  then have U: "uneven_ok (fo_pq F) U" "up_M U = qc_subquantizers c" using assms(2) by (simp_all add: backend_ok_def)
  have sizes: "faiss_pq_sizes (fo_pq F)" using assms(1) by (simp add: faiss_sizes_def)
  show ?thesis using uneven_encode_ok [OF sizes U(1), of x n] uneven_sizes [OF U(1)] U(2) Uneven_backend by (auto simp: direction_codes_def)
qed

lemma decode_codes_ok:
  assumes "faiss_sizes F" and "backend_ok F c pq" and "length codes = n * (qc_subquantizers c div 2)"
  shows "\<exists>x. decode_codes F pq n codes = Inr x \<and> length x = n * qc_dimension c"
proof (cases pq)
  case (Uniform_backend cb)
  then show ?thesis using assms by (auto simp: decode_codes_def backend_ok_def faiss_sizes_def faiss_pq_sizes_def)
next
  case (Uneven_backend U)
  then have U: "uneven_ok (fo_pq F) U" "up_M U = qc_subquantizers c" "up_d U = qc_dimension c" using assms(2) by (simp_all add: backend_ok_def)
  have sizes: "faiss_pq_sizes (fo_pq F)" using assms(1) by (simp add: faiss_sizes_def)
  show ?thesis using uneven_decode_ok [OF sizes U(1), of codes n] uneven_sizes [OF U(1)] U(2,3) assms(3) Uneven_backend by (auto simp: decode_codes_def)
qed

lemma direction_lut_ok:
  assumes "faiss_sizes F" and "backend_ok F c pq" and "length x = qc_dimension c" and "length lut = qc_subquantizers c * 16"
  shows "\<exists>t. direction_lut F pq x lut = Inr t \<and> length t = qc_subquantizers c * 16"
proof (cases pq)
  case (Uniform_backend cb)
  then have "length (fq_inner_table (fo_pq F) cb x) = qc_subquantizers c * 16"
    using assms(1-3) by (auto simp: backend_ok_def faiss_sizes_def faiss_pq_sizes_def)
  then show ?thesis using assms(4) Uniform_backend by (simp add: direction_lut_def Let_def)
next
  case (Uneven_backend U)
  then have U: "uneven_ok (fo_pq F) U" "up_M U = qc_subquantizers c" using assms(2) by (simp_all add: backend_ok_def)
  have cb: "codebook_for (bk_pq b) (bk_dim b) (bk_count b)" if "b \<in> set (up_buckets U)" for b using U(1) that by (simp add: uneven_ok_def)
  have len: "length (fq_inner_table (fo_pq F) (bk_pq b) (gather_bucket (up_d U) b 1 x)) = bk_count b * 16" if "b \<in> set (up_buckets U)" for b
    using assms(1) cb [OF that] length_gather_bucket [of "up_d U" b 1 x] unfolding faiss_sizes_def faiss_pq_sizes_def by (metis mult_1)
  show ?thesis using uneven_table_ok [OF U(1), of lut "fq_inner_table (fo_pq F)" x, OF _ len] assms(4) U(2) Uneven_backend
    by (auto simp: direction_lut_def uneven_inner_prod_table_def)
qed

lemma transform_length:
  assumes "faiss_sizes F" and "rotation_fits c (rq_rotation q)" and "length x = n * qc_dimension c"
  shows "length (rq_transform F q n x) = n * qc_dimension c"
  using assms by (auto simp: rq_transform_def rotation_fits_def rotation_ok_def faiss_sizes_def split: option.splits)

section \<open>Rows\<close>

lemma length_normalize [simp]: "length (fst (normalize F v)) = length v"
  by (simp add: normalize_def Let_def)

lemma length_flat: "(\<And>i. i < n \<Longrightarrow> length (g i) = d) \<Longrightarrow> length (concat (map g [0..<n])) = n * d"
  by (induction n) simp_all

lemma length_row_of: "length x = n * d \<Longrightarrow> i < n \<Longrightarrow> length (segment x (i * d) d) = d"
proof -
  assume "length x = n * d" "i < n"
  moreover have "(i + 1) * d \<le> n * d" using \<open>i < n\<close> by (intro mult_le_mono1) simp
  ultimately show ?thesis by (simp add: segment_def)
qed

lemma segment_flat:
  assumes "\<And>i. i < n \<Longrightarrow> length (g i) = d" and "i < n"
  shows "segment (concat (map g [0..<n])) (i * d) d = g i"
  using assms
proof (induction n)
  case (Suc n)
  have len: "length (concat (map g [0..<n])) = n * d" using Suc.prems(1) by (intro length_flat) simp
  show ?case
  proof (cases "i < n")
    case True
    then have "(i + 1) * d \<le> n * d" by (intro mult_le_mono1) simp
    then show ?thesis using Suc.IH Suc.prems(1) True len by (simp add: segment_def)
  next
    case False
    then have "i = n" using Suc.prems(2) by simp
    then show ?thesis using len Suc.prems(1) by (simp add: segment_def)
  qed
qed simp

lemma length_centered: "length x = n * d \<Longrightarrow> length mean = d \<Longrightarrow> length (centered_rows d n mean x) = n * d"
  unfolding centered_rows_def by (intro length_flat) (simp add: length_row_of [of x n d])

lemma normalized_rows_ok:
  assumes "length x = n * d"
  shows "length (fst (normalized_rows F d n x)) = n * d" and "length (snd (normalized_rows F d n x)) = n"
    and "i < n \<Longrightarrow> snd (normalized_rows F d n x) ! i = snd (normalize F (row_of d x i))"
proof -
  have "length (concat (map (\<lambda>i. fst (normalize F (row_of d x i))) [0..<n])) = n * d"
    using assms by (intro length_flat) (simp add: length_row_of [of x n d])
  then show "length (fst (normalized_rows F d n x)) = n * d" by (simp add: normalized_rows_def Let_def comp_def)
qed (simp_all add: normalized_rows_def Let_def)

lemma centered_row:
  "length x = n * d \<Longrightarrow> length mean = d \<Longrightarrow> i < n \<Longrightarrow> row_of d (centered_rows d n mean x) i = map2 f32_sub (row_of d x i) mean"
  unfolding centered_rows_def by (rule segment_flat) (simp_all add: length_row_of [of x n d])

section \<open>Codes below the sentinel\<close>

lemma clamp_code_le: "0 \<le> hi \<Longrightarrow> hi \<le> 255 \<Longrightarrow> int (unat (clamp_code hi k)) \<le> hi"
  by (simp add: clamp_code_def unsigned_of_int take_bit_int_eq_self)

lemma quantize_linear_sentinel: "quantize_linear F v m s = 255 \<longleftrightarrow> linear_overflow v m s"
proof -
  have "clamp_code 254 k \<noteq> 255" for k
  proof
    assume "clamp_code 254 k = 255"
    then have "int (unat (255 :: u8)) \<le> 254" using clamp_code_le [of 254 k] by simp
    then show False by simp
  qed
  then show ?thesis by (simp add: quantize_linear_def)
qed

text \<open>The rows whose estimate the scanner must not trust.\<close>

definition out_of_range :: "recast_quantizer \<Rightarrow> f32 \<Rightarrow> f32 \<Rightarrow> bool" where
  "out_of_range q vnorm reconstruction_norm \<longleftrightarrow>
    (case row_scale (qc_metric (rq_config q)) vnorm reconstruction_norm of
       None \<Rightarrow> True
     | Some s \<Rightarrow> linear_overflow s (scale_max (rq_params q)) (scale_step (rq_params q)))
    \<or> qc_metric (rq_config q) \<noteq> Cosine \<and> linear_overflow vnorm (norm_max (rq_params q)) (norm_step (rq_params q))"

lemma metadata_overflow_flag:
  "snd (snd (snd (decode_metadata (rq_view q) (row_metadata_of F q direction vnorm reconstructed))))
    \<longleftrightarrow> out_of_range q vnorm (snd (normalize F reconstructed))"
  by (cases "normalize F reconstructed")
    (auto simp: row_metadata_of_def decode_metadata_def out_of_range_def rq_view_def Let_def quantize_linear_sentinel split: option.splits)

section \<open>Encoding, queries and training\<close>

definition encoded_norm :: "faiss_ops \<Rightarrow> recast_quantizer \<Rightarrow> f32 list \<Rightarrow> nat \<Rightarrow> f32" where
  "encoded_norm F q x i = snd (normalize F (map2 f32_sub (row_of (qc_dimension (rq_config q)) x i) (rq_mean q)))"

definition reconstruction_norm_of :: "faiss_ops \<Rightarrow> recast_quantizer \<Rightarrow> nat \<Rightarrow> bytes \<Rightarrow> nat \<Rightarrow> f32" where
  "reconstruction_norm_of F q n codes i =
    (case decode_codes F (rq_pq q) n codes of
       Inr y \<Rightarrow> snd (normalize F (row_of (qc_dimension (rq_config q)) y i)) | Inl e \<Rightarrow> 0)"

lemma quantizer_encode_ok:
  assumes F: "faiss_sizes F" and q: "quantizer_shape F q" and x: "length x = n * qc_dimension (rq_config q)"
  shows "\<exists>codes ms. quantizer_encode F q n (Some x) = Inr (codes, ms) \<and> length codes = n * rq_code_size q \<and> length ms = n
    \<and> (\<forall>i < n. snd (snd (snd (decode_metadata (rq_view q) (ms ! i)))) \<longleftrightarrow>
        out_of_range q (encoded_norm F q x i) (reconstruction_norm_of F q n codes i))"
proof (cases "n = 0")
  case True
  then show ?thesis using q by (simp add: quantizer_encode_def quantizer_shape_def)
next
  case False
  let ?c = "rq_config q" let ?d = "qc_dimension ?c"
  have c: "rq_trained q" "length (rq_mean q) = ?d" "rotation_fits ?c (rq_rotation q)" "backend_ok F ?c (rq_pq q)"
    using q by (simp_all add: quantizer_shape_def)
  let ?z = "centered_rows ?d n (rq_mean q) x"
  obtain units norms where u: "normalized_rows F ?d n ?z = (units, norms)" by (metis surj_pair)
  have z: "length ?z = n * ?d" using x c(2) by (rule length_centered)
  have norms: "norms ! i = encoded_norm F q x i" if "i < n" for i
    using normalized_rows_ok(3) [OF z that, of F] u centered_row [OF x c(2) that] by (simp add: encoded_norm_def)
  have "length units = n * ?d" using normalized_rows_ok(1) [OF z, of F] u by simp
  then have dirs: "length (rq_transform F q n units) = n * ?d" by (rule transform_length [OF F c(3)])
  obtain codes where codes: "direction_codes F (rq_pq q) n (rq_transform F q n units) = Inr codes" "length codes = n * rq_code_size q"
    using direction_codes_ok [OF F c(4) dirs] by (auto simp: rq_code_size_def)
  obtain y where y: "decode_codes F (rq_pq q) n codes = Inr y"
    using decode_codes_ok [OF F c(4), of codes n] codes(2) by (auto simp: rq_code_size_def)
  let ?ms = "map (\<lambda>i. row_metadata_of F q (row_of ?d (rq_transform F q n units) i) (norms ! i) (row_of ?d y i)) [0..<n]"
  have "quantizer_encode F q n (Some x) = Inr (codes, ?ms)"
    using False c(1) codes(1) y u by (simp add: quantizer_encode_def Let_def)
  then show ?thesis using codes(2) norms y
    by (intro exI [of _ codes] exI [of _ ?ms]) (simp add: metadata_overflow_flag reconstruction_norm_of_def)
qed

lemma quantizer_prepare_query_ok:
  assumes F: "faiss_sizes F" and q: "quantizer_shape F q" and x: "length x = qc_dimension (rq_config q)"
  shows "(case quantizer_prepare_query F q (Some x) of
      Inr context \<Rightarrow> length (centered_query context) = qc_dimension (rq_config q) \<and> length (transformed_query context) = qc_dimension (rq_config q)
        \<and> length (dot_lut context) = qc_subquantizers (rq_config q) * 16
    | Inl e \<Rightarrow> qc_metric (rq_config q) = Cosine \<and> f32_le (snd (normalize F x)) min_norm \<and> e = Invalid_argument ''cosine query must have nonzero norm'')"
proof -
  let ?c = "rq_config q" let ?d = "qc_dimension ?c"
  have c: "rq_trained q" "length (rq_mean q) = ?d" "rotation_fits ?c (rq_rotation q)" "backend_ok F ?c (rq_pq q)"
    using q by (simp_all add: quantizer_shape_def)
  obtain centered vnorm where n: "metric_query F q x = (centered, vnorm)" by (metis surj_pair)
  have "length (fst (metric_query F q x)) = ?d" using x c(2) by (simp add: metric_query_def Let_def)
  then have len: "length centered = ?d" using n by simp
  then have tr: "length (rq_transform F q 1 centered) = ?d" using transform_length [OF F c(3), of centered 1] by simp
  obtain lut where lut: "direction_lut F (rq_pq q) (rq_transform F q 1 centered) (replicate (qc_subquantizers ?c * 16) 0) = Inr lut"
    "length lut = qc_subquantizers ?c * 16"
    using direction_lut_ok [OF F c(4) tr, of "replicate (qc_subquantizers ?c * 16) 0"] by auto
  have take: "take ?d x = x" using x by simp
  show ?thesis
  proof (cases "qc_metric ?c = Cosine \<and> f32_le vnorm min_norm")
    case True
    then have "quantizer_prepare_query F q (Some x) = Inl (Invalid_argument ''cosine query must have nonzero norm'')"
      using c(1) n take by (simp add: quantizer_prepare_query_def)
    moreover have "metric_query F q x = normalize F x" using True by (simp add: metric_query_def)
    then have "normalize F x = (centered, vnorm)" using n by simp
    ultimately show ?thesis using True by simp
  next
    case False
    then show ?thesis using c(1) n lut tr len take by (auto simp: quantizer_prepare_query_def Let_def)
  qed
qed

lemma quantizer_train_shape:
  assumes F: "faiss_sizes F" and new: "quantizer_new F c = Inr q0" and run: "quantizer_train F n (Some x) q0 = Inr q"
  shows "quantizer_shape F q \<and> rq_config q = c"
proof -
  note new = quantizer_new_Inr [OF new]
  obtain mean R pq p z tz where parts: "trained_rotation F c None n z = Inr R" "train_direction_quantizer F (rq_pq q0) n tz = Inr pq"
    "mean = training_mean (qc_centering c) (qc_dimension c) n x"
    and q: "q = q0\<lparr>rq_mean := mean, rq_rotation := R, rq_pq := pq, rq_params := p, rq_trained := True\<rparr>"
    using run new(2,3) by (auto simp: quantizer_train_def Let_def split: if_splits prod.splits)
  have mean: "length mean = qc_dimension c" unfolding parts(3) by (simp add: training_mean_def Let_def)
  have "lt_trained (fo_pca F d b n z) \<and> lt_d_in (fo_pca F d b n z) = d \<and> lt_d_out (fo_pca F d b n z) = d
      \<and> length (lt_A (fo_pca F d b n z)) = d * d" for d b
    using F by (simp add: faiss_sizes_def Let_def)
  then have R: "rotation_fits c R"
    using parts(1) by (auto simp: trained_rotation_def Let_def rotation_fits_def rotation_ok_def split: transform_mode.splits if_splits)
  have pq: "backend_ok F c pq"
  proof (cases "rq_pq q0")
    case (Uniform_backend cb)
    then have cb: "qc_grouping c = Uniform" "cb = fq_new (fo_pq F) (qc_dimension c) (qc_subquantizers c) 4" using new(6) by simp_all
    obtain w where w: "qc_dimension c = w * qc_subquantizers c" using new(1) cb(1) by (auto simp: config_ok_def)
    then have "0 < w" "0 < qc_subquantizers c" "even (qc_subquantizers c)" using new(1) by (auto simp: config_ok_def)
    then have "codebook_for cb (qc_dimension c) (qc_subquantizers c)"
      unfolding cb(2) w using F by (simp add: faiss_sizes_def faiss_pq_sizes_def)
    then show ?thesis using parts(2) F cb(1) Uniform_backend
      by (auto simp: train_direction_quantizer_def backend_ok_def faiss_sizes_def faiss_pq_sizes_def)
  next
    case (Uneven_backend U)
    then have U: "qc_grouping c = Uneven" "uneven_dims_ok U" "up_d U = qc_dimension c" "up_M U = qc_subquantizers c" "up_max_width U = 0"
      using new(6) by simp_all
    obtain U' where U': "uneven_train (fo_pq F) U n (Some tz) = Inr U'" "pq = Uneven_backend U'"
      using parts(2) Uneven_backend by (auto simp: train_direction_quantizer_def)
    have "faiss_pq_sizes (fo_pq F)" using F by (simp add: faiss_sizes_def)
    from uneven_train_ok [OF this U(2) U'(1)] show ?thesis using U U'(2) by (simp add: backend_ok_def)
  qed
  show ?thesis unfolding q using new(1,2) mean R pq by (simp add: quantizer_shape_def)
qed

section \<open>The operations a quantizer gives to the index\<close>

definition with_quantizer :: "faiss_ops \<Rightarrow> recast_quantizer \<Rightarrow> index_ops \<Rightarrow> index_ops" where
  "with_quantizer F q ops = ops\<lparr>
     op_encode := (\<lambda>n x. case quantizer_encode F q n (Some x) of Inr r \<Rightarrow> r | Inl e \<Rightarrow> ([], [])),
     op_prepare_query := (\<lambda>x. quantizer_prepare_query F q (Some x))\<rparr>"

end
