(* ===== verification/Quantizer_Guarantees.thy ===== *)
theory Quantizer_Guarantees
  imports Quantizer_Coding Scan_Correct
begin

text \<open>
  The properties of \<open>RecastQuantizer\<close>: training and loading establish its invariant, saving is atomic and
  is undone by loading, encoding marks exactly the rows it cannot represent, queries fit the scanner.
\<close>

section \<open>Saving and then loading\<close>

lemma quantizer_save_load:
  assumes "quantizer_ok F q" and "bias_fits (rq_config q) (rq_rotation q)" and "faiss_io F"
    and "qc_dimension (rq_config q) \<le> 2 ^ 20" and "length (model_payload F q) \<le> maximum_model_bytes" and "benign d" and "path \<noteq> []"
  shows "\<exists>d1 d2. quantizer_save F stamp path q d = (Inr (), d1) \<and> quantizer_load F path d1 = (Inr q, d2)"
proof -
  have shape: "quantizer_shape F q" using assms(1) by (simp add: quantizer_ok_def)
  have "writes (write_payload F q) (model_payload F q)" by (rule write_payload_ok [OF shape assms(4)])
  then have w: "write_payload F q vector_writer = Inr (vector_writer\<lparr>wr_data := model_payload F q\<rparr>)"
    by (simp add: writes_def vector_writer_def)
  have trained: "rq_trained q" using shape by (simp add: quantizer_shape_def)
  obtain r d1 where s: "quantizer_save F stamp path q d = (r, d1)" by (metis surj_pair)
  note res = quantizer_save_result [OF s, of "vector_writer\<lparr>wr_data := model_payload F q\<rparr>"]
  have r: "r = Inr ()" "benign d1" using res w assms(6,7) trained by simp_all
  then have "files d1 path = Some (model_file (model_payload F q))" using res w by auto
  then obtain d2 where "read_model path d1 = (Inr (model_payload F q), d2)" using read_model_ok [OF r(2) _ assms(5)] by blast
  then have "quantizer_load F path d1 = (Inr q, d2)"
    using load_payload_ok [OF assms(1-4)] assms(7) by (simp add: quantizer_load_def)
  then show ?thesis using s r(1) by blast
qed

section \<open>The properties\<close>

text \<open>
  C16. Loading accepts only complete models. When \<open>load\<close> returns, under every outcome of the system calls,
  the file starts with the magic, the version, the byte order mark, the payload length and the payload's
  checksum, followed by a payload of that length (and nothing else when no call fails), no file has
  changed, and the quantizer is well formed: its configuration is one that the constructor accepts, its
  mean, transform and codebooks have the sizes of the configuration, an uneven quantizer covers every
  dimension once in byte-aligned buckets, and its metadata ranges are finite with positive steps.
\<close>

theorem quantizer_load_sound:
  assumes "quantizer_load F path d = (Inr q, d')"
  shows "quantizer_ok F q \<and> qc_dimension (rq_config q) \<le> 2 ^ 20 \<and> files d' = files d
    \<and> (\<exists>payload tail. content d path = model_file payload @ tail \<and> (benign d \<longrightarrow> tail = []) \<and> length payload \<le> maximum_model_bytes
        \<and> load_payload F payload = Inr q)"
proof -
  obtain payload where p: "read_model path d = (Inr payload, d')" "load_payload F payload = Inr q"
    using assms by (auto simp: quantizer_load_def io_bind_Inr_iff split: if_splits)
  show ?thesis using read_model_Inr [OF p(1)] load_payload_type [OF p(2)] p(2) by blast
qed


text \<open>
  C17. Saving is atomic: under every outcome of the system calls the model file is either what it was before,
  and then \<open>save\<close> throws, or the complete new model, and then \<open>save\<close> returns and its temporary file is
  gone. No other file changes, apart from the temporary one.
\<close>

theorem quantizer_save_atomic:
  assumes "quantizer_save F stamp path q d = (r, d')"
  shows "(case r of
      Inr _ \<Rightarrow> (\<exists>w. write_payload F q vector_writer = Inr w \<and> files d' path = Some (model_file (wr_data w))) \<and> files d' (path @ ''.tmp.'' @ stamp) = None
    | Inl _ \<Rightarrow> files d' path = files d path)
    \<and> (\<forall>p. p \<noteq> path \<longrightarrow> p \<noteq> path @ ''.tmp.'' @ stamp \<longrightarrow> files d' p = files d p)"
  using quantizer_save_result [OF assms] by (cases r) auto

text \<open>
  C18. Encoding: on a trained quantizer every batch is encoded, with \<open>M / 2\<close> code bytes and one metadata record
  per row, and the overflow flag that the scanner decodes from a record is set exactly for the rows that
  the trained ranges do not cover (no reconstructed direction, scale above its range or, except for the
  cosine metric, norm above its range).
\<close>

theorem quantizer_encode_correct:
  assumes "faiss_sizes F" and "quantizer_shape F q" and "length x = n * qc_dimension (rq_config q)"
  shows "\<exists>codes ms. quantizer_encode F q n (Some x) = Inr (codes, ms) \<and> length codes = n * rq_code_size q \<and> length ms = n
    \<and> (\<forall>i < n. snd (snd (snd (decode_metadata (rq_view q) (ms ! i)))) \<longleftrightarrow>
        out_of_range q (encoded_norm F q x i) (reconstruction_norm_of F q n codes i))"
  using quantizer_encode_ok [OF assms] .

text \<open>
  C19. A trained quantizer provides what the external index needs of it: with its operations, insertion gets
  codes and metadata of the right sizes, and a prepared query has a lookup table for exactly the
  subquantizers of the index, so that only the quantized table of the eight-bit mode can fail. Preparing
  fails only for a cosine query without a direction.
\<close>

theorem quantizer_serves_index:
  assumes "faiss_sizes F" and "quantizer_shape F q" and "ix_quantizer ix = rq_view q"
    and "length vectors = n * qc_dimension (rq_config q)" and "length query = qc_dimension (rq_config q)"
  shows "length (fst (op_encode (with_quantizer F q ops) n vectors)) = n * code_size ix
    \<and> length (snd (op_encode (with_quantizer F q ops) n vectors)) = n
    \<and> (case op_prepare_query (with_quantizer F q ops) query of
         Inr context \<Rightarrow> length (dot_lut context) = ix_subquantizers ix * 16
           \<and> (choose_mode avx requested \<noteq> QuantizedUint8 \<longrightarrow> lut_ok avx S (ix_subquantizers ix) context requested)
       | Inl e \<Rightarrow> qc_metric (rq_config q) = Cosine \<and> f32_le (snd (normalize F query)) min_norm)"
proof -
  obtain codes ms where e: "quantizer_encode F q n (Some vectors) = Inr (codes, ms)" "length codes = n * rq_code_size q" "length ms = n"
    using quantizer_encode_ok [OF assms(1,2,4)] by blast
  have M: "ix_subquantizers ix = qc_subquantizers (rq_config q)" "code_size ix = rq_code_size q"
    using assms(3) by (simp_all add: rq_view_def code_size_def rq_code_size_def)
  have even: "even_subquantizers (qc_subquantizers (rq_config q))"
    using assms(2) by (simp add: even_subquantizers_def quantizer_shape_def config_ok_def even_iff_mod_2_eq_zero)
  show ?thesis
    using quantizer_prepare_query_ok [OF assms(1,2,5)] e M even
    by (auto simp: with_quantizer_def lut_ok_def split: sum.splits)
qed

text \<open>
  Training establishes the invariant: when training a newly constructed quantizer returns, the quantizer
  is well formed (apart from the finiteness of its metadata ranges, which training does not check).
\<close>

theorem quantizer_train_type:
  assumes "faiss_sizes F" and "quantizer_new F c = Inr q0" and "quantizer_train F n (Some x) q0 = Inr q"
  shows "quantizer_shape F q \<and> rq_config q = c"
  by (rule quantizer_train_shape [OF assms])

text \<open>
  C38. Where saving and loading disagree: a trained quantizer whose metadata ranges are not usable, for example
  because a training vector was so long that its norm is infinite, is saved without an exception, and
  loading the file throws.
\<close>

theorem unusable_ranges_not_loadable:
  assumes "quantizer_shape F q" and "\<not> params_ok (rq_params q)" and "bias_fits (rq_config q) (rq_rotation q)" and "faiss_io F"
    and "qc_dimension (rq_config q) \<le> 2 ^ 20" and "length (model_payload F q) \<le> maximum_model_bytes" and "benign d" and "path \<noteq> []"
  shows "\<exists>d1 d2 e. quantizer_save F stamp path q d = (Inr (), d1) \<and> quantizer_load F path d1 = (Inl e, d2)"
proof -
  have "writes (write_payload F q) (model_payload F q)" by (rule write_payload_ok [OF assms(1,5)])
  then have w: "write_payload F q vector_writer = Inr (vector_writer\<lparr>wr_data := model_payload F q\<rparr>)"
    by (simp add: writes_def vector_writer_def)
  have trained: "rq_trained q" using assms(1) by (simp add: quantizer_shape_def)
  obtain r d1 where s: "quantizer_save F stamp path q d = (r, d1)" by (metis surj_pair)
  note res = quantizer_save_result [OF s, of "vector_writer\<lparr>wr_data := model_payload F q\<rparr>"]
  have r: "r = Inr ()" "benign d1" using res w assms(7,8) trained by simp_all
  then have "files d1 path = Some (model_file (model_payload F q))" using res w by auto
  then obtain d2 where "read_model path d1 = (Inr (model_payload F q), d2)" using read_model_ok [OF r(2) _ assms(6)] by blast
  moreover obtain e where "load_payload F (model_payload F q) = Inl e" using load_payload_rejects [OF assms(1-5)] by blast
  ultimately have "quantizer_load F path d1 = (Inl e, d2)" using assms(8) by (simp add: quantizer_load_def)
  then show ?thesis using s r(1) by blast
qed

section \<open>A concrete quantizer\<close>

text \<open>
  A Faiss instance over the product quantizers of \<open>tiny_pq_ops\<close>, with identity transforms and constant
  norms, and a trained quantizer over it.
\<close>

definition tiny_rotation :: "nat \<Rightarrow> linear_transform" where
  "tiny_rotation d = \<lparr>lt_d_in = d, lt_d_out = d, lt_A = replicate (d * d) 0, lt_b = [], lt_trained = True, lt_orthonormal = True\<rparr>"

definition tiny_faiss :: faiss_ops where
  "tiny_faiss = \<lparr>fo_pq = tiny_pq_ops, fo_pca = (\<lambda>d bins n x. tiny_rotation d), fo_apply = (\<lambda>R n x. x), fo_transpose = (\<lambda>R n x. x),
     fo_norm_L2sqr = (\<lambda>v. 0x3F800000), fo_L2sqr = (\<lambda>v w. 0), fo_inner_product = (\<lambda>v w. 0),
     fo_write_transform = (\<lambda>t. le64 (of_nat (lt_d_in t)) @ (le64 (of_nat (length (lt_A t))) @ concat (map le32 (lt_A t)))
       @ (le64 (of_nat (length (lt_b t))) @ concat (map le32 (lt_b t)))),
     fo_read_transform = read_bind (read_size size_max ''d'') (\<lambda>d. read_bind (read_vector of_le32 4 size_max ''A'') (\<lambda>A.
       read_bind (read_vector of_le32 4 size_max ''b'') (\<lambda>b.
         read_return (Linear_transform \<lparr>lt_d_in = d, lt_d_out = d, lt_A = A, lt_b = b, lt_trained = True, lt_orthonormal = True\<rparr>)))),
     fo_lround_range = (\<lambda>x. 0)\<rparr>"

lemma tiny_faiss_sizes: "faiss_sizes tiny_faiss"
  using tiny_pq_sizes by (simp add: faiss_sizes_def tiny_faiss_def tiny_rotation_def Let_def)

lemma tiny_faiss_io: "faiss_io tiny_faiss"
proof -
  have "reads (fo_read_transform tiny_faiss) (fo_write_transform tiny_faiss t) (Linear_transform t)"
    if t: "rotation_ok d t" "length (lt_b t) \<le> d" "d \<le> 2 ^ 20" for t d
  proof -
    have "d * d \<le> 2 ^ 20 * 2 ^ 20" using t(3) by (intro mult_le_mono)
    then have small: "lt_d_in t \<le> size_max" "length (lt_A t) \<le> size_max" "length (lt_A t) \<le> size_max div 4"
      "length (lt_b t) \<le> size_max" "length (lt_b t) \<le> size_max div 4"
      using t by (simp_all add: rotation_ok_def size_max_def)
    have "\<lparr>lt_d_in = lt_d_in t, lt_d_out = lt_d_in t, lt_A = lt_A t, lt_b = lt_b t, lt_trained = True, lt_orthonormal = True\<rparr> = t"
      using t(1) by (cases t) (simp add: rotation_ok_def)
    then have ret: "reads (read_return (Linear_transform \<lparr>lt_d_in = lt_d_in t, lt_d_out = lt_d_in t, lt_A = lt_A t, lt_b = lt_b t,
        lt_trained = True, lt_orthonormal = True\<rparr>)) [] (Linear_transform t)"
      using reads_return [of "Linear_transform t"] by simp
    have "reads (fo_read_transform tiny_faiss) (le64 (of_nat (lt_d_in t)) @ (le64 (of_nat (length (lt_A t))) @ concat (map le32 (lt_A t)))
        @ (le64 (of_nat (length (lt_b t))) @ concat (map le32 (lt_b t))) @ []) (Linear_transform t)"
      unfolding tiny_faiss_def faiss_ops.select_convs
      by (intro reads_bind [OF reads_size] reads_bind [OF u32_scalar.reads_vector] ret small order_refl)
    then show ?thesis by (simp add: tiny_faiss_def)
  qed
  then show ?thesis using tiny_pq_io by (simp add: faiss_io_def) (simp add: tiny_faiss_def)
qed

definition tiny_config :: quantizer_config where
  "tiny_config = \<lparr>qc_dimension = 2, qc_subquantizers = 2, qc_grouping = Uniform, qc_transform = Pca, qc_metric = SquaredL2, qc_centering = Mean\<rparr>"

definition tiny_params :: "f32 \<Rightarrow> metadata_decode_parameters" where
  "tiny_params m = \<lparr>norm_max = m, norm_step = 0x3F800000, scale_max = 0x3F800000, scale_step = 0x3F800000\<rparr>"

definition tiny_recast :: "f32 \<Rightarrow> recast_quantizer" where
  "tiny_recast m = \<lparr>rq_config = tiny_config, rq_mean = [0, 0], rq_rotation = Some (tiny_rotation 2),
     rq_pq = Uniform_backend (fq_new tiny_pq_ops 2 2 4), rq_params = tiny_params m, rq_trained = True\<rparr>"

lemma tiny_shape: "quantizer_shape tiny_faiss (tiny_recast m)"
  by (simp add: quantizer_shape_def tiny_recast_def tiny_config_def config_ok_def rotation_fits_def rotation_ok_def tiny_rotation_def
      backend_ok_def codebook_for_def tiny_pq_ops_def)

lemma tiny_params_ok: "params_ok (tiny_params 0x3F800000)" "\<not> params_ok (tiny_params f32_inf)"
  by (simp_all add: params_ok_def tiny_params_def f32_class_defs f32_order_defs f32_smag_def f32_mag_def f32_sign_def inf_mag_def f32_inf_def)

lemma tiny_bias: "bias_fits (rq_config (tiny_recast m)) (rq_rotation (tiny_recast m))"
  by (simp add: bias_fits_def tiny_recast_def tiny_rotation_def)

lemma tiny_dimension: "qc_dimension (rq_config (tiny_recast m)) = 2"
  by (simp add: tiny_recast_def tiny_config_def)

lemma tiny_payload: "length (model_payload tiny_faiss (tiny_recast m)) \<le> maximum_model_bytes"
  by (simp add: model_payload_def config_bytes_def rotation_bytes_def backend_bytes_def params_bytes_def tiny_recast_def tiny_rotation_def
      tiny_faiss_def tiny_pq_ops_def flag_bytes_def le64_def length_concat comp_def sum_list_replicate maximum_model_bytes_def)

definition calm_disk :: disk where
  "calm_disk = \<lparr>files = Map.empty, dirs = {}, transfers = [Eintr, Xfer 3], faults = [None]\<rparr>"

lemma calm_disk_benign: "benign calm_disk"
  by (simp add: benign_def calm_disk_def)

lemma tiny_recast_ok: "quantizer_ok tiny_faiss (tiny_recast 0x3F800000)"
  using tiny_shape tiny_params_ok(1) by (simp add: quantizer_ok_def) (simp add: tiny_recast_def)

lemma tiny_small: "qc_dimension (rq_config (tiny_recast m)) \<le> 2 ^ 20"
  by (simp add: tiny_dimension)

theorem quantizer_load_sound_witness:
  "\<exists>d d' payload. quantizer_load tiny_faiss ''m'' d = (Inr (tiny_recast 0x3F800000), d') \<and> content d ''m'' = model_file payload"
proof -
  obtain d1 d2 where d: "quantizer_save tiny_faiss ''1'' ''m'' (tiny_recast 0x3F800000) calm_disk = (Inr (), d1)"
    "quantizer_load tiny_faiss ''m'' d1 = (Inr (tiny_recast 0x3F800000), d2)"
    using quantizer_save_load [OF tiny_recast_ok tiny_bias tiny_faiss_io tiny_small tiny_payload calm_disk_benign, of "''m''"] by blast
  have "benign d1" using quantizer_save_result [OF d(1)] write_payload_ok [OF tiny_shape [of "0x3F800000"] tiny_small] tiny_shape [of "0x3F800000"] calm_disk_benign
    by (simp add: writes_def vector_writer_def quantizer_shape_def)
  then show ?thesis using quantizer_load_sound [OF d(2)] d(2) by auto
qed


theorem quantizer_save_atomic_witness:
  "\<exists>r d'. quantizer_save tiny_faiss ''1'' ''m'' (tiny_recast 0x3F800000) (calm_disk\<lparr>transfers := [Xfail ''ENOSPC'']\<rparr>) = (r, d')
    \<and> (\<forall>e. r = Inl e \<longrightarrow> files d' ''m'' = None)"
proof -
  obtain r d' where s: "quantizer_save tiny_faiss ''1'' ''m'' (tiny_recast 0x3F800000) (calm_disk\<lparr>transfers := [Xfail ''ENOSPC'']\<rparr>) = (r, d')"
    by (metis surj_pair)
  show ?thesis using quantizer_save_atomic [OF s] s by (auto simp: calm_disk_def split: sum.splits)
qed

theorem quantizer_encode_correct_witness:
  "\<exists>codes ms. quantizer_encode tiny_faiss (tiny_recast 0x3F800000) 2 (Some [1, 2, 3, 4]) = Inr (codes, ms) \<and> length codes = 2 \<and> length ms = 2"
proof -
  have "rq_code_size (tiny_recast 0x3F800000) = 1" by (simp add: rq_code_size_def tiny_recast_def tiny_config_def)
  then show ?thesis
    using quantizer_encode_correct [OF tiny_faiss_sizes tiny_shape [of "0x3F800000"], of "[1, 2, 3, 4]" 2] by (auto simp: tiny_dimension)
qed

theorem quantizer_serves_index_witness:
  "\<forall>ops. length (fst (op_encode (with_quantizer tiny_faiss (tiny_recast 0x3F800000) ops) 1 [5, 6])) = 1
    \<and> (\<forall>context. op_prepare_query (with_quantizer tiny_faiss (tiny_recast 0x3F800000) ops) [5, 6] = Inr context \<longrightarrow> length (dot_lut context) = 32)"
proof (rule allI)
  let ?q = "tiny_recast 0x3F800000"
  define ix :: list_index where "ix = undefined\<lparr>ix_quantizer := rq_view ?q\<rparr>"
  then have ix: "ix_quantizer ix = rq_view ?q" by simp
  have s: "code_size ix = 1" "ix_subquantizers ix = 2" by (simp_all add: code_size_def ix rq_view_def tiny_recast_def tiny_config_def)
  fix ops :: index_ops
  show "length (fst (op_encode (with_quantizer tiny_faiss ?q ops) 1 [5, 6])) = 1
      \<and> (\<forall>context. op_prepare_query (with_quantizer tiny_faiss ?q ops) [5, 6] = Inr context \<longrightarrow> length (dot_lut context) = 32)"
    using quantizer_serves_index [OF tiny_faiss_sizes tiny_shape [of "0x3F800000"] ix, of "[5, 6]" 1 "[5, 6]" ops] s
    by (auto simp: tiny_dimension)
qed

lemma tiny_training:
  "\<exists>q0 q. quantizer_new tiny_faiss tiny_config = Inr q0 \<and> quantizer_train tiny_faiss 1 (Some [7, 8]) q0 = Inr q"
proof -
  obtain q0 where q0: "quantizer_new tiny_faiss tiny_config = Inr q0" "rq_config q0 = tiny_config" "rq_rotation q0 = None"
      "rq_pq q0 = Uniform_backend (fq_new tiny_pq_ops 2 2 4)"
    by (simp add: quantizer_new_def tiny_config_def Let_def tiny_faiss_def)
  have "trained_rotation tiny_faiss tiny_config None 1 z = Inr (Some (tiny_rotation 2))" for z
    by (simp add: trained_rotation_def tiny_config_def tiny_faiss_def tiny_rotation_def)
  then obtain q where "quantizer_train tiny_faiss 1 (Some [7, 8]) q0 = Inr q"
    by (simp add: quantizer_train_def q0 case_prod_beta train_direction_quantizer_def direction_codes_def decode_codes_def Let_def)
  then show ?thesis using q0(1) by blast
qed

theorem quantizer_train_type_witness:
  "\<exists>q0 q. quantizer_new tiny_faiss tiny_config = Inr q0 \<and> quantizer_train tiny_faiss 1 (Some [7, 8]) q0 = Inr q \<and> quantizer_shape tiny_faiss q"
proof -
  obtain q0 q where q: "quantizer_new tiny_faiss tiny_config = Inr q0" "quantizer_train tiny_faiss 1 (Some [7, 8]) q0 = Inr q"
    using tiny_training by blast
  then show ?thesis using quantizer_train_type [OF tiny_faiss_sizes q] by blast
qed

theorem unusable_ranges_not_loadable_witness:
  "\<exists>d1 d2 e. quantizer_save tiny_faiss ''1'' ''m'' (tiny_recast f32_inf) calm_disk = (Inr (), d1) \<and> quantizer_load tiny_faiss ''m'' d1 = (Inl e, d2)"
proof -
  have "\<not> params_ok (rq_params (tiny_recast f32_inf))" using tiny_params_ok(2) by (simp add: tiny_recast_def)
  from unusable_ranges_not_loadable [OF tiny_shape this tiny_bias tiny_faiss_io tiny_small tiny_payload calm_disk_benign, of "''m''"] show ?thesis by blast
qed

end
