(* ===== verification/Checkpoint_Guarantees.thy ===== *)
theory Checkpoint_Guarantees
  imports Checkpoint_Accept Quantizer_Guarantees List_Index_Insert
begin

text \<open>
  The properties of checkpoints: a checkpoint is atomic and never disturbs the live index; loading it gives
  an index with the same entries and the same quantizer; what loading accepts is what the loaded index
  would write.
\<close>

section \<open>The properties\<close>

lemma index_checkpoint_frame:
  assumes run: "index_checkpoint F stamp q ix d = (r, ix', d')"
  shows "frame (checkpoint_files (ix_options ix) stamp (next_generation ix) (ix_generation ix)) d d'"
proof -
  note res = index_checkpoint_result [OF run]
  show ?thesis
  proof (cases "r = Inr ()")
    case True
    then show ?thesis using res unfolding checkpoint_files_def by blast
  next
    case False
    then have "frame (checkpoint_scratch (ix_options ix) stamp (next_generation ix)) d d'" using res by blast
    then show ?thesis by (rule frame_mono) (auto simp: checkpoint_files_def)
  qed
qed

lemma checkpoint_keeps_index:
  assumes run: "index_checkpoint F stamp q ix d = (r, ix', d')" and rooted: "index_rooted ix" and ok: "index_ok ops ix d"
  shows "index_ok ops ix' d' \<and> (\<forall>i. index_lookup ops ix' d' i = index_lookup ops ix d i)"
proof -
  note res = index_checkpoint_result [OF run]
  note same = frame_index [OF rooted ok index_checkpoint_frame [OF run]]
  have "ix' = ix \<or> ix' = ix\<lparr>ix_generation := next_generation ix\<rparr>" using res by blast
  then show ?thesis using same by (elim disjE) (simp_all add: generation_irrelevant)
qed


lemma checkpoint_ready_index:
  assumes "index_ok ops ix d" and "quantizer_shape F q"
    and "write_payload F q vector_writer = Inr (vector_writer\<lparr>wr_data := model_payload F q\<rparr>)"
    and "files d (checkpoint_path (ix_options ix) ''router.faiss'') \<noteq> None" and g: "ix_generation ix < 2 ^ 64 - 1"
  shows "checkpoint_ready F q ix d"
proof -
  have gen: "next_generation ix = ix_generation ix + 1" using g by (simp add: next_generation_def)
  have st: "index_static ops ix" and lists: "lists_ok ops ix" using assms(1) by (simp_all add: index_ok_def)
  have M: "dims_ok (ix_subquantizers ix)" using st by (simp add: index_static_def)
  have "image_ok (code_size ix) ml" if "ml \<in> set (ix_lists ix)" for ml
    using that lists posting_list_ready [OF M] by (auto simp: lists_ok_def list_ready_def code_size_def)
  then show ?thesis
    using st assms(2-4) gen g by (simp add: checkpoint_ready_def index_static_def quantizer_shape_def)
qed


text \<open>
  C8. Reopening accepts only matching state: when the constructor reopens an index from its files, under every
  outcome of the system calls, it has changed no file, the manifest, the list sizes and the postings are
  byte for byte what the loaded index would write (with nothing behind them when no call fails), every list
  has buffers of exactly its padded rows and a record file with the pages of its rows, the active count is
  the number of rows, and the quantizer is trained and fits the router.
\<close>

theorem index_reopen_sound:
  assumes "index_reopen parent linux_aio nlist router_dimension load_router qz trained opts d = (Inr ix, d')" and "\<not> xo_create_storage opts"
    and "\<And>p d r d1. load_router p d = (r, d1) \<Longrightarrow> files d1 = files d \<and> (benign d \<longrightarrow> benign d1)"
  shows "files d' = files d \<and> checkpoint_matches ix d \<and> loaded_ok ix d \<and> length (ix_lists ix) = nlist
    \<and> ix_options ix = opts \<and> ix_quantizer ix = qz \<and> trained \<and> qz_dimension qz = router_dimension"
proof -
  obtain ix0 d1 d2 where o: "index_open parent linux_aio nlist router_dimension True qz trained opts d = (Inr ix0, d1)"
    and router: "load_router (checkpoint_path opts ''router.faiss'') d1 = (Inr (), d2)" and load: "load_checkpoint_locked ix0 d2 = (Inr ix, d')"
    using assms(1,2) by (auto simp: index_reopen_def io_bind_Inr_iff)
  note 1 = index_open_Inr [OF o assms(2)] and 2 = assms(3) [OF router] and 3 = load_checkpoint_Inr [OF load]
  have files: "files d2 = files d" "benign d \<longrightarrow> benign d2" using 1 2 by auto
  have c: "content d2 p = content d p" for p by (rule content_same [OF files(1)])
  have "holds d2 p bs \<Longrightarrow> holds d p bs" for p bs using files(2) unfolding holds_def c by blast
  then have "checkpoint_matches ix d" using 3 unfolding checkpoint_matches_def by blast
  moreover have "loaded_ok ix d" using 3 unfolding loaded_ok_def list_file_sized_def c by blast
  moreover have "files d' = files d" using 3 files(1) by metis
  moreover have "ix_options ix = ix_options ix0" "ix_quantizer ix = ix_quantizer ix0" using 3 by auto
  ultimately show ?thesis using 1 3 by simp
qed

section \<open>A concrete checkpoint\<close>

abbreviation tiny_trained :: recast_quantizer where
  "tiny_trained \<equiv> tiny_recast 0x3F800000"

definition saved_index :: list_index where
  "saved_index = tiny_index\<lparr>ix_quantizer := rq_view tiny_trained\<rparr>"

definition router_disk :: "string option list \<Rightarrow> disk" where
  "router_disk fs = \<lparr>files = [''r/locations.bin'' \<mapsto> [], ''r/router.faiss'' \<mapsto> [1]], dirs = {}, transfers = [Eintr, Xfer 3], faults = fs\<rparr>"

lemma same_subquantizers:
  assumes "qz_subquantizers z = ix_subquantizers ix"
  shows "index_ok ops (ix\<lparr>ix_quantizer := z\<rparr>) d = index_ok ops ix d"
  using assms
  by (simp add: index_ok_def index_static_def lists_ok_def files_ok_def rows_located_def ids_located_def file_of_def list_rows_def Let_def)

lemma saved_paths: "checkpoint_path (ix_options saved_index) name = ''r/'' @ name" "generation_path (ix_options saved_index) prefix g = ''r/'' @ prefix @ ''.'' @ decimal g @ ''.bin''"
  by (simp_all add: checkpoint_path_def generation_path_def saved_index_def tiny_index_def tiny_options_def path_join_def)

lemma saved_index_rooted: "index_rooted saved_index"
  unfolding index_rooted_def saved_paths
  by (simp add: saved_index_def tiny_index_def tiny_store_def make_store_def tiny_options_def index_directory_def path_join_def)

lemma saved_index_ok:
  assumes "content d ''r/locations.bin'' = []" and "\<And>z. content d (''r/records'' @ z) = []"
  shows "index_ok tiny_index_ops saved_index d"
proof -
  have "qz_subquantizers (rq_view tiny_trained) = ix_subquantizers tiny_index"
    by (simp add: rq_view_def tiny_recast_def tiny_config_def tiny_index_def tiny_quantizer_def)
  note sub = same_subquantizers [OF this, folded saved_index_def]
  have fresh: "index_ok tiny_index_ops saved_index (new_disk [])" using tiny_index_ok sub by blast
  then have st: "index_static tiny_index_ops saved_index" by (simp add: index_ok_def)
  have "content d (file_of saved_index l) = content (new_disk []) (file_of saved_index l)" if l: "l < length (ix_lists saved_index)" for l
  proof -
    obtain z where "file_of saved_index l = root_prefix (ix_options saved_index) @ ''records'' @ z"
      using file_of_records [OF saved_index_rooted st l] by blast
    also have "root_prefix (ix_options saved_index) = ''r/''"
      by (simp add: root_prefix_def saved_index_def tiny_index_def tiny_options_def path_join_def)
    finally have "file_of saved_index l = ''r/records'' @ z" by simp
    then show ?thesis using assms(2) by (simp add: content_def new_disk_def)
  qed
  moreover have "dir_path (ix_directory saved_index) = ''r/locations.bin''"
    using tiny_directory_path by (simp add: saved_index_def)
  ultimately show ?thesis
    using index_files_same(1) [OF _ _ fresh, of d] assms(1) by (simp add: content_def new_disk_def)
qed

lemma router_disk_ok: "index_ok tiny_index_ops saved_index (router_disk fs)"
  by (rule saved_index_ok) (simp_all add: content_def router_disk_def)



text \<open>A disk with a published checkpoint.\<close>

definition published_disk :: disk where
  "published_disk = \<lparr>files = [''r/locations.bin'' \<mapsto> [], ''r/router.faiss'' \<mapsto> [1], ''r/manifest.bin'' \<mapsto> manifest_bytes (current_manifest saved_index 1),
      sizes_path (ix_options saved_index) 1 \<mapsto> sizes_bytes (ix_lists saved_index),
      postings_path (ix_options saved_index) 1 \<mapsto> postings_bytes (code_size saved_index) (ix_lists saved_index)],
     dirs = {''r'', ''r/records''}, transfers = [], faults = []\<rparr>"

lemma published_disk_state: "state_published saved_index 1 published_disk" "index_ok tiny_index_ops saved_index published_disk"
  "files published_disk (checkpoint_path (ix_options saved_index) ''router.faiss'') \<noteq> None" "benign published_disk"
proof -
  show "state_published saved_index 1 published_disk" "files published_disk (checkpoint_path (ix_options saved_index) ''router.faiss'') \<noteq> None"
    by (simp_all add: state_published_def saved_paths published_disk_def)
  show "benign published_disk" by (simp add: benign_def published_disk_def)
  show "index_ok tiny_index_ops saved_index published_disk"
    by (rule saved_index_ok) (simp_all add: content_def published_disk_def saved_paths)
qed

lemma published_disk_open:
  "index_open (\<lambda>_. ''r'') True 10 2 True (rq_view tiny_trained) True (tiny_options\<lparr>xo_create_storage := False\<rparr>) published_disk
    = (Inr (reopened saved_index), published_disk)"
proof -
  let ?opts = "tiny_options\<lparr>xo_create_storage := False\<rparr>"
  have "store_args_ok tiny_store" using tiny_store_ok by (simp add: store_ok_def)
  moreover have root: "make_store ''r'' 10 (index_store_options ?opts) = tiny_store"
    by (simp add: tiny_store_def index_store_options_def tiny_options_def)
  ultimately have st: "store_open True ''r'' 10 (index_store_options ?opts) False published_disk = (Inr tiny_store, published_disk)"
    by (simp add: store_open_def Let_def direct_flag_def published_disk_def path_join_def)
  have dir: "index_directory ?opts = index_directory tiny_options" by (simp add: index_directory_def tiny_options_def)
  have "directory_args_ok (index_directory tiny_options)"
    using tiny_index_static by (simp add: index_static_def tiny_index_def)
  moreover have "create_directories ''r'' published_disk = (Inr (), published_disk)"
    by (simp add: create_directories_def sys_call_def io_bind_def published_disk_def insert_commute)
  moreover have "sys_open False False (dir_path (index_directory tiny_options)) published_disk = (Inr (), published_disk)"
    by (simp add: sys_open_def sys_call_def io_bind_def published_disk_def index_directory_def tiny_options_def path_join_def)
  ultimately have "directory_open (\<lambda>_. ''r'') True (index_directory ?opts) False published_disk = (Inr (index_directory tiny_options), published_disk)"
    by (simp add: directory_open_def direct_flag_def dir)
  then show ?thesis using st
    by (simp add: index_open_def tiny_options_def reopened_def saved_index_def tiny_index_def rq_view_def tiny_recast_def tiny_config_def)
qed

theorem index_reopen_sound_witness:
  "\<exists>ix d'. index_reopen (\<lambda>_. ''r'') True 10 2 (\<lambda>p. io_return ()) (rq_view tiny_trained) True (tiny_options\<lparr>xo_create_storage := False\<rparr>) published_disk
      = (Inr ix, d') \<and> checkpoint_matches ix published_disk \<and> loaded_ok ix published_disk"
proof -
  have "qz_dimension (ix_quantizer saved_index) \<le> 2 ^ 20"
    by (simp add: saved_index_def rq_view_def tiny_recast_def tiny_config_def)
  from yields_load [OF published_disk_state(2) this _ _ published_disk_state(1,3,4)]
  obtain d' where "load_checkpoint_locked (reopened saved_index) published_disk = (Inr (restored saved_index 1), d')"
    by (auto simp: yields_def)
  then have run: "index_reopen (\<lambda>_. ''r'') True 10 2 (\<lambda>p. io_return ()) (rq_view tiny_trained) True (tiny_options\<lparr>xo_create_storage := False\<rparr>)
      published_disk = (Inr (restored saved_index 1), d')"
    using published_disk_open by (simp add: index_reopen_def)
  show ?thesis using index_reopen_sound [OF run] run by simp
qed

end
