(* ===== verification/Faiss_Router.thy ===== *)
theory Faiss_Router
  imports External_Io Rank_Key
begin

text \<open>
  \<open>FaissIvfRouter\<close> (src/adapters/faiss\_router.cpp): the life cycle of the coarse router, from float
  centroids to the compact PQFastScan index, and its two queries. The Faiss objects are records of the
  fields that the code reads, with their contents; what Faiss does with them is an argument of type
  \<open>router_ops\<close>. \<open>trainer_\<close> and \<open>centroids_\<close> are always released together, so they are one option.
\<close>

section \<open>State\<close>

text \<open>\<open>faiss::IndexPQFastScan\<close>, and what \<open>faiss::read_index\<close> may return.\<close>

record fastscan_index =
  fs_d :: nat
  fs_ntotal :: nat
  fs_M :: nat
  fs_nbits :: nat
  fs_trained :: bool
  fs_codebook :: "f32 list"
  fs_codes :: bytes

datatype faiss_index = Fastscan_index fastscan_index | Other_index

text \<open>The IVF trainer with the flat index of its centroids.\<close>

record ivf_trainer =
  iv_trained :: bool
  iv_ntotal :: nat
  iv_centroids :: "f32 list"

record router_ops =
  ro_ivf_train :: "nat \<Rightarrow> nat \<Rightarrow> ivf_trainer \<Rightarrow> nat \<Rightarrow> f32 list \<Rightarrow> ivf_trainer"
  ro_new :: "nat \<Rightarrow> nat \<Rightarrow> fastscan_index"
  ro_reset :: "fastscan_index \<Rightarrow> fastscan_index"
  ro_train :: "fastscan_index \<Rightarrow> nat \<Rightarrow> f32 list \<Rightarrow> fastscan_index"
  ro_add :: "fastscan_index \<Rightarrow> nat \<Rightarrow> f32 list \<Rightarrow> fastscan_index"
  ro_search :: "fastscan_index \<Rightarrow> nat \<Rightarrow> f32 list \<Rightarrow> nat \<Rightarrow> int list"
  ro_write :: "fastscan_index \<Rightarrow> string \<Rightarrow> unit io"
  ro_read :: "string \<Rightarrow> faiss_index io"

record ivf_router =
  ir_dimension :: nat
  ir_nlist :: nat
  ir_ivf :: "ivf_trainer option"
  ir_pq :: fastscan_index

section \<open>Construction and training\<close>

definition router_new :: "router_ops \<Rightarrow> nat \<Rightarrow> nat \<Rightarrow> ivf_router res" where
  "router_new R d n =
    (if d = 0 \<or> n = 0 then Inl (Invalid_argument ''IVF dimension and nlist must be positive'')
     else Inr \<lparr>ir_dimension = d, ir_nlist = n, ir_ivf = Some \<lparr>iv_trained = False, iv_ntotal = 0, iv_centroids = []\<rparr>, ir_pq = ro_new R d n\<rparr>)"

definition ivf_ready :: "ivf_router \<Rightarrow> ivf_trainer \<Rightarrow> bool" where
  "ivf_ready r iv \<longleftrightarrow> iv_trained iv \<and> iv_ntotal iv = ir_nlist r"

definition pq_ready :: "ivf_router \<Rightarrow> fastscan_index \<Rightarrow> bool" where
  "pq_ready r pq \<longleftrightarrow> fs_trained pq \<and> fs_ntotal pq = ir_nlist r"

definition router_train :: "router_ops \<Rightarrow> nat \<Rightarrow> f32 list option \<Rightarrow> ivf_router \<Rightarrow> unit res \<times> ivf_router" where
  "router_train R n vectors r =
    (case ir_ivf r of
       None \<Rightarrow> (Inl (Logic_error ''original IVF centroid state was already released''), r)
     | Some iv \<Rightarrow>
        if n = 0 \<or> vectors = None then (Inl (Invalid_argument ''IVF training vectors must not be empty''), r)
        else let iv' = ro_ivf_train R (ir_dimension r) (ir_nlist r) iv n (the vectors); r' = r\<lparr>ir_ivf := Some iv'\<rparr>
             in if \<not> ivf_ready r iv' then (Inl (Runtime_error ''Faiss IVF router training failed''), r') else (Inr (), r'))"

text \<open>The compact index over all centroids, in the order of the lists.\<close>

definition train_pq_router :: "router_ops \<Rightarrow> ivf_router \<Rightarrow> unit res \<times> ivf_router" where
  "train_pq_router R r =
    (case ir_ivf r of
       None \<Rightarrow> (Inl (Logic_error ''original IVF centroid state was already released''), r)
     | Some iv \<Rightarrow>
        if \<not> ivf_ready r iv then (Inl (Invalid_argument ''IVF centroids must be trained before the PQFastScan router''), r)
        else if ir_nlist r < 16
        then (Inl (Invalid_argument ''four-bit PQFastScan centroid routing requires at least 16 lists''), r)
        else let centroids = take (ir_nlist r * ir_dimension r) (iv_centroids iv);
                 pq = ro_add R (ro_train R (ro_reset R (ir_pq r)) (ir_nlist r) centroids) (ir_nlist r) centroids
             in if \<not> pq_ready r pq
                then (Inl (Runtime_error ''Faiss PQFastScan centroid router training failed''), r\<lparr>ir_pq := pq\<rparr>)
                else (Inr (), r\<lparr>ir_pq := pq, ir_ivf := None\<rparr>))"

definition pq_fits :: "ivf_router \<Rightarrow> fastscan_index \<Rightarrow> bool" where
  "pq_fits r pq \<longleftrightarrow> fs_d pq = ir_dimension r \<and> fs_ntotal pq = ir_nlist r \<and> fs_M pq = ir_dimension r \<and> fs_nbits pq = 4"

definition load_pq_router :: "router_ops \<Rightarrow> string \<Rightarrow> ivf_router \<Rightarrow> ivf_router io" where
  "load_pq_router R path r =
    io_bind (ro_read R path) (\<lambda>loaded.
      case loaded of
        Fastscan_index pq \<Rightarrow>
          if pq_fits r pq then io_return (r\<lparr>ir_pq := pq, ir_ivf := None\<rparr>)
          else io_throw (Invalid_argument ''persisted PQFastScan router is incompatible'')
      | Other_index \<Rightarrow> io_throw (Invalid_argument ''persisted PQFastScan router is incompatible''))"

definition reconstruct_centroid :: "nat \<Rightarrow> bool \<Rightarrow> ivf_router \<Rightarrow> f32 list res" where
  "reconstruct_centroid list_no output_given r =
    (case ir_ivf r of
       None \<Rightarrow> Inl (Logic_error ''original IVF centroids were released after centroid compaction'')
     | Some iv \<Rightarrow>
        if list_no \<ge> ir_nlist r \<or> \<not> output_given then Inl (Invalid_argument ''invalid centroid reconstruction request'')
        else Inr (segment (iv_centroids iv) (list_no * ir_dimension r) (ir_dimension r)))"

section \<open>Queries\<close>

definition label_valid :: "ivf_router \<Rightarrow> int \<Rightarrow> bool" where
  "label_valid r label \<longleftrightarrow> 0 \<le> label \<and> label < int (ir_nlist r)"

definition assign_pq :: "router_ops \<Rightarrow> nat \<Rightarrow> f32 list option \<Rightarrow> ivf_router \<Rightarrow> u32 list res" where
  "assign_pq R n vectors r =
    (if \<not> pq_ready r (ir_pq r) \<or> (n > 0 \<and> vectors = None) then Inl (Invalid_argument ''invalid PQFastScan IVF assignment input'')
     else if n = 0 then Inr []
     else let labels = ro_search R (ir_pq r) n (the vectors) 1
          in if \<exists>label \<in> set labels. \<not> label_valid r label
             then Inl (Runtime_error ''Faiss returned an invalid PQFastScan IVF assignment'')
             else Inr (map of_int labels))"

text \<open>Negative labels stand for missing results; others are not compared with \<open>nlist_\<close>.\<close>

definition route_pq :: "router_ops \<Rightarrow> f32 list option \<Rightarrow> nat \<Rightarrow> ivf_router \<Rightarrow> u32 list res" where
  "route_pq R query nprobe r =
    (if \<not> pq_ready r (ir_pq r) \<or> query = None \<or> nprobe = 0 then Inl (Invalid_argument ''invalid PQFastScan IVF route input'')
     else Inr (map of_int (filter (\<lambda>label. 0 \<le> label) (ro_search R (ir_pq r) 1 (the query) (min nprobe (ir_nlist r))))))"

section \<open>Routes and assignments\<close>

text \<open>
  What the code relies on: a search returns \<open>n * k\<close> labels, each of them a stored number or \<open>-1\<close>, and one
  query has no number twice.
\<close>

definition search_labels :: "router_ops \<Rightarrow> bool" where
  "search_labels R \<longleftrightarrow> (\<forall>pq n x k. length (ro_search R pq n x k) = n * k
    \<and> (\<forall>label \<in> set (ro_search R pq n x k). label = -1 \<or> 0 \<le> label \<and> label < int (fs_ntotal pq))
    \<and> distinct (filter (\<lambda>label. 0 \<le> label) (ro_search R pq 1 x k)))"

lemma unat_label:
  assumes "0 \<le> label" and "label < int n" and "n \<le> 2 ^ 32"
  shows "unat (of_int label :: u32) = nat label"
proof -
  have "int n \<le> int (2 ^ 32)" using assms(3) by (simp only: of_nat_le_iff)
  then have "label < 2 ^ 32" using assms(2) by simp
  then have "uint (of_int label :: u32) = label" using assms(1) by (simp add: uint_word_of_int_eq take_bit_int_eq_self)
  then show ?thesis by (simp add: unat_eq_nat_uint)
qed

lemma assign_pq_valid:
  assumes "assign_pq R n vectors r = Inr ls" and "search_labels R" and "ir_nlist r \<le> 2 ^ 32"
  shows "length ls = n \<and> (\<forall>l \<in> set ls. unat l < ir_nlist r)"
proof (cases "n = 0")
  case True
  then show ?thesis using assms(1) by (auto simp: assign_pq_def split: if_splits)
next
  case False
  let ?labels = "ro_search R (ir_pq r) n (the vectors) 1"
  have ls: "ls = map of_int ?labels" "\<forall>label \<in> set ?labels. label_valid r label"
    using assms(1) False by (auto simp: assign_pq_def Let_def split: if_splits)
  have "length ?labels = n" using assms(2) by (simp add: search_labels_def)
  moreover have "unat (of_int label :: u32) < ir_nlist r" if "label \<in> set ?labels" for label
    using ls(2) that unat_label [of label "ir_nlist r"] assms(3) by (auto simp: label_valid_def)
  ultimately show ?thesis using ls(1) by auto
qed

lemma route_pq_valid:
  assumes "route_pq R query nprobe r = Inr ls" and "search_labels R" and "ir_nlist r \<le> 2 ^ 32"
  shows "length ls \<le> min nprobe (ir_nlist r) \<and> (\<forall>l \<in> set ls. unat l < ir_nlist r) \<and> distinct ls"
proof -
  let ?k = "min nprobe (ir_nlist r)"
  let ?labels = "ro_search R (ir_pq r) 1 (the query) ?k" let ?kept = "filter (\<lambda>label. 0 \<le> label) ?labels"
  have ready: "fs_ntotal (ir_pq r) = ir_nlist r" and ls: "ls = map of_int ?kept"
    using assms(1) by (auto simp: route_pq_def pq_ready_def split: if_splits)
  have labels: "length ?labels = ?k" "\<forall>label \<in> set ?labels. label = -1 \<or> 0 \<le> label \<and> label < int (ir_nlist r)" "distinct ?kept"
    using assms(2) ready unfolding search_labels_def by (metis mult_1, metis, metis)
  have kept: "unat (of_int label :: u32) = nat label \<and> 0 \<le> label \<and> nat label < ir_nlist r" if "label \<in> set ?kept" for label
    using labels(2) that unat_label [of label "ir_nlist r"] assms(3) by auto
  have "inj_on (of_int :: int \<Rightarrow> u32) (set ?kept)"
  proof (rule inj_onI)
    fix a b assume "a \<in> set ?kept" "b \<in> set ?kept" and "(of_int a :: u32) = of_int b"
    then show "a = b" using kept [of a] kept [of b] by (metis eq_nat_nat_iff)
  qed
  then have "distinct ls" using labels(3) ls by (simp add: distinct_map)
  moreover have "length ls \<le> ?k" 
    unfolding ls length_map using length_filter_le labels(1) by metis
  moreover have "\<forall>l \<in> set ls. unat l < ir_nlist r" using kept ls by fastforce
  ultimately show ?thesis by blast
qed

end
