(* ===== verification/Index_Training.thy ===== *)
theory Index_Training
  imports Faiss_Router Checkpoint_Frames Quantizer_Guarantees List_Index_Insert
begin

text \<open>
  Training the external index: \<open>train\<close> and \<open>persist_and_install_pq_router\<close> of
  src/adapters/external\_list\_ivf.cpp. The router, an object of the caller, the quantizer member and the
  index are arguments and results.
\<close>

section \<open>Operations\<close>

definition router_centroids :: "ivf_router \<Rightarrow> f32 list res" where
  "router_centroids r =
    res_fold (\<lambda>l cs. res_bind (reconstruct_centroid l True r) (\<lambda>c. Inr (cs @ c))) [0..<ir_nlist r] []"

definition persisted_router :: "router_ops \<Rightarrow> ivf_router \<Rightarrow> fastscan_index res" where
  "persisted_router R r =
    (let d = ir_dimension r; n = ir_nlist r
     in if n < 16 \<or> d > 2 ^ 31 - 1 then Inl (Invalid_argument ''invalid dimensions for persisted PQFastScan router'')
        else res_bind (checked_multiply n d ''persisted router centroid buffer overflows'') (\<lambda>_.
             res_bind (router_centroids r) (\<lambda>centroids.
             let pq = ro_add R (ro_train R (ro_new R d n) n centroids) n centroids
             in if \<not> pq_ready r pq then Inl (Runtime_error ''persisted PQFastScan router training failed'') else Inr pq)))"

definition persist_and_install_pq_router :: "router_ops \<Rightarrow> index_options \<Rightarrow> ivf_router \<Rightarrow> ivf_router io" where
  "persist_and_install_pq_router R opts r =
    (let temporary = checkpoint_path opts ''router.faiss.tmp''; destination = checkpoint_path opts ''router.faiss''
     in io_bind (io_lift (persisted_router R r)) (\<lambda>pq.
        io_bind (create_directories (xo_storage_root opts)) (\<lambda>_.
        io_bind (ro_write R pq temporary) (\<lambda>_.
        io_bind (replace_file temporary destination) (\<lambda>_. load_pq_router R destination r)))))"

text \<open>
  A throw inside the training of the quantizer leaves it with some fields replaced; that state, which no
  operation accepts as trained, is not described: the result is \<open>None\<close>.
\<close>

definition index_train ::
    "router_ops \<Rightarrow> faiss_ops \<Rightarrow> nat \<Rightarrow> f32 list option \<Rightarrow> list_index \<Rightarrow> recast_quantizer \<Rightarrow> ivf_router \<Rightarrow> disk
      \<Rightarrow> unit res \<times> list_index \<times> recast_quantizer option \<times> ivf_router \<times> disk" where
  "index_train R F n vectors ix q r d =
    (if ix_active ix \<noteq> 0 \<or> ix_next_id ix \<noteq> 0
     then (Inl (Logic_error ''cannot retrain a nonempty external-list index''), ix, Some q, r, d)
     else case router_train R n vectors r of
       (Inl e, r1) \<Rightarrow> (Inl e, ix, Some q, r1, d)
     | (Inr _, r1) \<Rightarrow>
        (case quantizer_train F n vectors q of
           Inl e \<Rightarrow> (Inl e, ix, None, r1, d)
         | Inr q1 \<Rightarrow>
            let ix1 = ix\<lparr>ix_trained := True, ix_quantizer := rq_view q1\<rparr>
            in case persist_and_install_pq_router R (ix_options ix) r1 d of
                 (Inl e, d') \<Rightarrow> (Inl e, ix1, Some q1, r1, d')
               | (Inr r2, d') \<Rightarrow> (Inr (), ix1, Some q1, r2, d')))"

section \<open>What training does\<close>

text \<open>Faiss writes the file it is given and reads without writing.\<close>

definition router_files :: "router_ops \<Rightarrow> bool" where
  "router_files R \<longleftrightarrow> (\<forall>pq p d r d'. ro_write R pq p d = (r, d') \<longrightarrow> only_file p d d')
    \<and> (\<forall>p d r d'. ro_read R p d = (r, d') \<longrightarrow> files d' = files d)"

lemma router_train_result:
  assumes "router_train R n vectors r = (res, r1)"
  shows "ir_dimension r1 = ir_dimension r \<and> ir_nlist r1 = ir_nlist r \<and> (ir_ivf r = None \<longrightarrow> r1 = r \<and> (\<exists>e. res = Inl (Logic_error e)))"
  using assms by (auto simp: router_train_def Let_def split: option.splits if_splits)

lemma load_pq_router_result:
  assumes "load_pq_router R p r d = (Inr r2, d')" and "router_files R"
  shows "files d' = files d \<and> ir_ivf r2 = None \<and> pq_fits r2 (ir_pq r2) \<and> ir_dimension r2 = ir_dimension r \<and> ir_nlist r2 = ir_nlist r"
proof -
  obtain f d1 where rd: "ro_read R p d = (Inr f, d1)"
    and rest: "(case f of Fastscan_index pq \<Rightarrow> if pq_fits r pq then io_return (r\<lparr>ir_pq := pq, ir_ivf := None\<rparr>)
          else io_throw (Invalid_argument ''persisted PQFastScan router is incompatible'')
      | Other_index \<Rightarrow> io_throw (Invalid_argument ''persisted PQFastScan router is incompatible'')) d1 = (Inr r2, d')"
    using assms(1) by (auto simp: load_pq_router_def io_bind_Inr_iff)
  obtain pq where pq: "pq_fits r pq" "r2 = r\<lparr>ir_pq := pq, ir_ivf := None\<rparr>" "d' = d1"
    using rest by (auto split: faiss_index.splits if_splits)
  then show ?thesis using assms(2) rd by (auto simp: router_files_def pq_fits_def)
qed

lemma persist_and_install_result:
  assumes "persist_and_install_pq_router R opts r d = (Inr r2, d')" and "router_files R"
  shows "ir_ivf r2 = None \<and> pq_fits r2 (ir_pq r2) \<and> ir_dimension r2 = ir_dimension r \<and> ir_nlist r2 = ir_nlist r
    \<and> files d' (checkpoint_path opts ''router.faiss'') \<noteq> None
    \<and> frame {checkpoint_path opts ''router.faiss'', checkpoint_path opts ''router.faiss.tmp''} d d'
    \<and> 16 \<le> ir_nlist r"
proof -
  let ?t = "checkpoint_path opts ''router.faiss.tmp''" and ?f = "checkpoint_path opts ''router.faiss''"
  obtain pq d1 d2 d3 where pq: "persisted_router R r = Inr pq" and mk: "create_directories (xo_storage_root opts) d = (Inr (), d1)"
    and w: "ro_write R pq ?t d1 = (Inr (), d2)" and mv: "replace_file ?t ?f d2 = (Inr (), d3)" and load: "load_pq_router R ?f r d3 = (Inr r2, d')"
    using assms(1) by (auto simp: persist_and_install_pq_router_def Let_def io_bind_Inr_iff)
  note 1 = create_directories_result [OF mk] and 4 = load_pq_router_result [OF load assms(2)]
  have 2: "only_file ?t d1 d2" using assms(2) w unfolding router_files_def by blast
  obtain f where 3: "files d2 ?t = Some f" "files d3 = (files d2)(?t := None, ?f \<mapsto> f)"
    using io_spec_run(1) [OF replace_file_spec [of d2 ?t ?f] refl mv refl] by blast
  have "frame {?t} d d1" by (rule frame_same) (use 1 in blast)
  then have "frame {?t} d d2" using frame_only [OF _ 2] by blast
  moreover have "frame {?t, ?f} d2 d3" using 3(2) by (simp add: frame_def)
  ultimately have "frame {?f, ?t} d d3" by (rule frame_trans) auto
  then have "frame {?f, ?t} d d'" by (rule frame_trans [OF _ frame_same]) (use 4 in auto)
  moreover have "files d' ?f \<noteq> None" using 3(2) 4 by simp
  moreover have "16 \<le> ir_nlist r" using pq by (simp add: persisted_router_def Let_def split: if_splits)
  ultimately show ?thesis using 4 by blast
qed

lemma index_train_cases:
  assumes "index_train R F n vectors ix q r d = (Inr (), ix', Some q', r', d')"
  obtains r1 where "router_train R n vectors r = (Inr (), r1)" and "quantizer_train F n vectors q = Inr q'"
    and "persist_and_install_pq_router R (ix_options ix) r1 d = (Inr r', d')" and "ix' = ix\<lparr>ix_trained := True, ix_quantizer := rq_view q'\<rparr>"
    and "ix_active ix = 0" and "ix_next_id ix = 0"
  using assms by (auto simp: index_train_def Let_def split: if_splits prod.splits sum.splits)

section \<open>The properties\<close>

text \<open>
  C20. After training an index is ready: when \<open>train\<close> of an empty index returns, the quantizer is well formed with
  its configuration, the index sees it as trained, the router has at least 16 lists, is compact, keeps its
  dimensions and fits its index, the router file is published, and no other file has changed.
\<close>

theorem index_train_ready:
  assumes "index_train R F n (Some x) ix q r d = (Inr (), ix', Some q', r', d')" and "router_files R"
    and "faiss_sizes F" and "quantizer_new F c = Inr q"
  shows "quantizer_shape F q' \<and> rq_config q' = c \<and> ix' = ix\<lparr>ix_trained := True, ix_quantizer := rq_view q'\<rparr>
    \<and> ir_ivf r' = None \<and> pq_fits r' (ir_pq r') \<and> ir_dimension r' = ir_dimension r \<and> ir_nlist r' = ir_nlist r \<and> 16 \<le> ir_nlist r
    \<and> files d' (checkpoint_path (ix_options ix) ''router.faiss'') \<noteq> None
    \<and> (\<forall>p. p \<notin> {checkpoint_path (ix_options ix) ''router.faiss'', checkpoint_path (ix_options ix) ''router.faiss.tmp''} \<longrightarrow> files d' p = files d p)"
  using assms(1)
proof (rule index_train_cases)
  fix r1 assume r1: "router_train R n (Some x) r = (Inr (), r1)" and q': "quantizer_train F n (Some x) q = Inr q'"
    and p: "persist_and_install_pq_router R (ix_options ix) r1 d = (Inr r', d')" and ix': "ix' = ix\<lparr>ix_trained := True, ix_quantizer := rq_view q'\<rparr>"
  note shape = quantizer_train_shape [OF assms(3,4) q'] and router = persist_and_install_result [OF p assms(2)] and dims = router_train_result [OF r1]
  have "\<forall>p. p \<notin> {checkpoint_path (ix_options ix) ''router.faiss'', checkpoint_path (ix_options ix) ''router.faiss.tmp''} \<longrightarrow> files d' p = files d p"
    using router frame_keep by blast
  then show ?thesis using shape router dims ix' by simp
qed

text \<open>
  C21. An index is trained once: after \<open>train\<close> has returned, every further \<open>train\<close> throws, although the index is
  still empty, because installing the compact router has released the centroids. It changes nothing.
\<close>

theorem index_train_once:
  assumes "index_train R F n vectors ix q r d = (Inr (), ix', Some q', r', d')" and "router_files R"
  shows "\<exists>e. index_train R F n2 vectors2 ix' q' r' d2 = (Inl (Logic_error e), ix', Some q', r', d2)"
  using assms(1)
proof (rule index_train_cases)
  fix r1 assume p: "persist_and_install_pq_router R (ix_options ix) r1 d = (Inr r', d')"
    and ix': "ix' = ix\<lparr>ix_trained := True, ix_quantizer := rq_view q'\<rparr>" "ix_active ix = 0" "ix_next_id ix = 0"
  have "ir_ivf r' = None" using persist_and_install_result [OF p assms(2)] by blast
  then show ?thesis using ix' by (simp add: index_train_def router_train_def)
qed

section \<open>A concrete training\<close>

text \<open>Sixteen lists; every search finds the lists in their order.\<close>

definition tiny_fastscan :: "nat \<Rightarrow> nat \<Rightarrow> fastscan_index" where
  "tiny_fastscan d n = \<lparr>fs_d = d, fs_ntotal = n, fs_M = d, fs_nbits = 4, fs_trained = True, fs_codebook = [], fs_codes = []\<rparr>"

definition tiny_router_ops :: router_ops where
  "tiny_router_ops = \<lparr>ro_ivf_train = (\<lambda>d nlist iv n x. \<lparr>iv_trained = True, iv_ntotal = nlist, iv_centroids = replicate (nlist * d) 0\<rparr>),
     ro_new = (\<lambda>d n. tiny_fastscan d 0), ro_reset = (\<lambda>pq. pq\<lparr>fs_ntotal := 0\<rparr>), ro_train = (\<lambda>pq n x. pq), ro_add = (\<lambda>pq n x. pq\<lparr>fs_ntotal := n\<rparr>),
     ro_search = (\<lambda>pq n x k. concat (replicate n (map (\<lambda>j. if j < fs_ntotal pq then int j else -1) [0..<k]))),
     ro_write = (\<lambda>pq p d. (Inr (), set_content p [1] d)), ro_read = (\<lambda>p d. (Inr (Fastscan_index (tiny_fastscan 2 16)), d))\<rparr>"

definition tiny_router :: ivf_router where
  "tiny_router = \<lparr>ir_dimension = 2, ir_nlist = 16, ir_ivf = Some \<lparr>iv_trained = False, iv_ntotal = 0, iv_centroids = []\<rparr>, ir_pq = tiny_fastscan 2 0\<rparr>"

lemma tiny_router_files: "router_files tiny_router_ops"
  by (simp add: router_files_def tiny_router_ops_def set_content_def only_file_def)

lemma tiny_router_installs:
  "\<exists>r' d'. persist_and_install_pq_router tiny_router_ops tiny_options
      (tiny_router\<lparr>ir_ivf := Some \<lparr>iv_trained = True, iv_ntotal = 16, iv_centroids = replicate (16 * 2) 0\<rparr>\<rparr>) calm_disk = (Inr r', d')"
proof -
  let ?r = "tiny_router\<lparr>ir_ivf := Some \<lparr>iv_trained = True, iv_ntotal = 16, iv_centroids = replicate (16 * 2) 0\<rparr>\<rparr>"
  have "\<exists>cs. res_fold (\<lambda>l cs. res_bind (reconstruct_centroid l True ?r) (\<lambda>c. Inr (cs @ c))) ls s = Inr cs" if "\<forall>l \<in> set ls. l < 16" for ls s
    using that by (induction ls arbitrary: s) (simp_all add: reconstruct_centroid_def tiny_router_def)
  from this [of "[0..<16]" "[]"] obtain cs where cs: "router_centroids ?r = Inr cs"
    by (auto simp: router_centroids_def tiny_router_def)
  then have "persisted_router tiny_router_ops ?r = Inr (tiny_fastscan 2 16)"
    by (simp add: persisted_router_def Let_def tiny_router_def tiny_router_ops_def tiny_fastscan_def pq_ready_def checked_multiply_def size_max_def)
  moreover have "load_pq_router tiny_router_ops p ?r d = (Inr (?r\<lparr>ir_pq := tiny_fastscan 2 16, ir_ivf := None\<rparr>), d)" for p d
    by (simp add: load_pq_router_def io_bind_def tiny_router_ops_def pq_fits_def tiny_fastscan_def tiny_router_def)
  moreover have "ro_write tiny_router_ops pq p d = (Inr (), set_content p [1] d)" for pq p d by (simp add: tiny_router_ops_def)
  ultimately show ?thesis
    by (simp add: persist_and_install_pq_router_def Let_def io_bind_def create_directories_def sys_call_def calm_disk_def replace_file_def
        rename_file_def set_content_def)
qed

lemma tiny_training_run:
  "\<exists>q ix' q' r' d'. quantizer_new tiny_faiss tiny_config = Inr q
    \<and> index_train tiny_router_ops tiny_faiss 1 (Some [7, 8]) tiny_index q tiny_router calm_disk = (Inr (), ix', Some q', r', d')"
proof -
  obtain q q' where q: "quantizer_new tiny_faiss tiny_config = Inr q" "quantizer_train tiny_faiss 1 (Some [7, 8]) q = Inr q'"
    using tiny_training by blast
  obtain r' d' where r': "persist_and_install_pq_router tiny_router_ops tiny_options
      (tiny_router\<lparr>ir_ivf := Some \<lparr>iv_trained = True, iv_ntotal = 16, iv_centroids = replicate (16 * 2) 0\<rparr>\<rparr>) calm_disk = (Inr r', d')"
    using tiny_router_installs by blast
  have "router_train tiny_router_ops 1 (Some [7, 8]) tiny_router
      = (Inr (), tiny_router\<lparr>ir_ivf := Some \<lparr>iv_trained = True, iv_ntotal = 16, iv_centroids = replicate (16 * 2) 0\<rparr>\<rparr>)"
    by (simp add: router_train_def tiny_router_def tiny_router_ops_def ivf_ready_def Let_def)
  moreover have "ix_active tiny_index = 0" "ix_next_id tiny_index = 0" "ix_options tiny_index = tiny_options" by (simp_all add: tiny_index_def)
  ultimately show ?thesis using q r' by (simp add: index_train_def)
qed

theorem index_train_ready_witness:
  "\<exists>q ix' q' r' d'. index_train tiny_router_ops tiny_faiss 1 (Some [7, 8]) tiny_index q tiny_router calm_disk = (Inr (), ix', Some q', r', d')
    \<and> quantizer_shape tiny_faiss q' \<and> ir_ivf r' = None"
proof -
  obtain q ix' q' r' d' where run: "quantizer_new tiny_faiss tiny_config = Inr q"
    "index_train tiny_router_ops tiny_faiss 1 (Some [7, 8]) tiny_index q tiny_router calm_disk = (Inr (), ix', Some q', r', d')"
    using tiny_training_run by blast
  then show ?thesis using index_train_ready [OF run(2) tiny_router_files tiny_faiss_sizes run(1)] by blast
qed

theorem index_train_once_witness:
  "\<exists>q ix' q' r' d' e. index_train tiny_router_ops tiny_faiss 1 (Some [7, 8]) tiny_index q tiny_router calm_disk = (Inr (), ix', Some q', r', d')
    \<and> index_train tiny_router_ops tiny_faiss 1 (Some [7, 8]) ix' q' r' d' = (Inl (Logic_error e), ix', Some q', r', d')"
proof -
  obtain q ix' q' r' d' where run:
    "index_train tiny_router_ops tiny_faiss 1 (Some [7, 8]) tiny_index q tiny_router calm_disk = (Inr (), ix', Some q', r', d')"
    using tiny_training_run by blast
  then show ?thesis using index_train_once [OF run tiny_router_files] by blast
qed

end
