(* ===== verification/Spec2Isabelle.thy ===== *)
theory Spec2Isabelle
  imports Fused_Selection Interval_Threshold Pq4_Packing Metadata_Packing Location_Directory Record_Deletion
    Scan_Guarantees Index_Runs Search_Guarantees Uneven_Guarantees
    Error_Code Checkpoint_Guarantees Index_Training
begin

text \<open>
  A verification library for the RECAST vector-search code: a 4-bit product quantizer whose scanner
  returns, for each row, an approximate distance with an error radius, selects the rows that can be
  among the K nearest, and re-ranks them with exact vectors kept in files.

  \<^bold>\<open>The parts and how they interact.\<close> A query table of float dot products (LUT) meets
  the packed codes of a list in a PQ4 kernel, which yields one dot product per row. Metadata of three
  bytes per row and a metric formula turn it into an estimate and a radius. The fused interval
  accumulator keeps the K smallest upper endpoints and the R best rows over all lists of a query. The
  external index keeps the full vectors in one file per list (the record store) and the position of
  every id in a directory file.

  \<^bold>\<open>Theories and code.\<close>

  \<^item> \<open>Recast_Prelude\<close>: results (\<open>res\<close> = exception or value, \<open>res_bind\<close>, \<open>res_fold\<close>), segments and
    patches of byte lists, checked size arithmetic (external_io_util.h).
  \<^item> \<open>Float32\<close>, \<open>Float32_Functions\<close>: binary32 on 32-bit patterns, each operation computed exactly
    and rounded once to nearest even; monotonicity, and bounds of the operations used.
  \<^item> \<open>Recast_Types\<close>: the value types of types.h, quantizer.h and fastscan.h, interval endpoints.
  \<^item> \<open>Rank_Key\<close>, \<open>Bounded_Heap\<close>, \<open>Interval_Threshold\<close>: the order-preserving 64-bit keys and the
    priority queue of fastscan.cpp, and the fuzzy rank search of interval_selection_internal.h.
  \<^item> \<open>Fused_Accumulator\<close> (definitions), \<open>Fused_Correct\<close> (compaction and reservoir invariants) and
    \<open>Fused_Selection\<close> (the selector theorems): \<open>FusedIntervalAccumulator\<close> of fastscan.cpp.
  \<^item> \<open>Metadata_Packing\<close>, \<open>Pq4_Layout\<close>, \<open>Pq4_Packing\<close>: packed metadata and code tiles
    (fastscan.cpp, pq4_update_packing.cpp) and the two exact LUT kernels (exact_pq4.cpp).
  \<^item> \<open>Metric_Decode\<close>: metadata decoding (quantizer.cpp) and the metric formulas of both back ends.
  \<^item> \<open>Scan\<close> (definitions) and \<open>Scan_Correct\<close> (theorems): the scan pipeline of fastscan.cpp.
  \<^item> \<open>External_Io\<close>: \<open>pread_exact\<close>, \<open>pwrite_exact\<close>, aligned buffers and file sync over a disk whose
    calls follow a script of outcomes (full, short, interrupted, failed).
  \<^item> \<open>Location_Directory\<close>: external_location_directory.cpp.
  \<^item> \<open>Record_Store\<close> (definitions), \<open>Record_Rows\<close> (appends and id reads), \<open>Record_Deletion\<close>
    (prepared deletions and the store's properties): list_file_record_store.cpp.

  \<^item> \<open>Scan_Guarantees\<close>: what a selection over all rows means for the true neighbours.
  \<^item> \<open>Batch_Grouping\<close>, \<open>Posting_List\<close>, \<open>List_Index\<close> (definitions of \<open>insert_batch\<close>),
    \<open>List_Index_State\<close> (the index invariant and the abstract map \<open>index_lookup\<close>),
    \<open>List_Index_Plan\<close>, \<open>List_Index_Landed\<close>, \<open>List_Index_Insert\<close> (insertion), \<open>Deletion_Plan\<close>,
    \<open>Posting_Deletion\<close>, \<open>Erase_Batch\<close> (definitions of \<open>erase_batch\<close>), \<open>Erase_Landed\<close>,
    \<open>Erase_Prepare\<close>, \<open>Erase_Commit\<close>, \<open>Erase_Guarantees\<close> (deletion) and \<open>Index_Runs\<close> (histories as
    an inductive step relation): external_list_ivf.cpp.
  \<^item> \<open>Refine_Plan\<close> (read planning), \<open>Refine\<close> (definitions of the readers and of \<open>refine\<close>),
    \<open>Refine_Heap\<close>, \<open>Refine_Read\<close> (blocking reader), \<open>Refine_Aio\<close> (asynchronous reader and its
    invariant), \<open>Refine_Correct\<close> and \<open>Refine_Guarantees\<close>: list_file_aio_refiner.cpp.
  \<^item> \<open>Index_Search\<close> (definitions of \<open>search\<close> and its tokens), \<open>Index_Search_Correct\<close> and
    \<open>Search_Guarantees\<close>: the search of external_list_ivf.cpp, which joins scan and re-ranking.
  \<^item> \<open>Float64\<close> (binary64), \<open>Persistence\<close> (persistence_io.h: fields and vectors in byte streams),
    \<open>Uneven_Pq\<close> (bit budgets and planning) and \<open>Uneven_Codec\<close> (buckets, training, coding, tables,
    persistence), \<open>Uneven_Plan\<close>, \<open>Uneven_Layout\<close>, \<open>Uneven_Correct\<close> and \<open>Uneven_Guarantees\<close>:
    uneven_product_quantizer.cpp. \<open>Uneven_Read\<close>: what its reader accepts.
  \<^item> \<open>File_Streams\<close>: file streams, renaming and removing of the standard library over the disk of
    \<open>External_Io\<close>.
  \<^item> \<open>Quantizer\<close> (training, encoding, decoding, queries), \<open>Quantizer_File\<close> (\<open>save\<close> and \<open>load\<close>),
    \<open>Quantizer_Correct\<close> (its invariant and the payload of a model), \<open>Quantizer_Disk\<close> (the model file under
    every outcome script), \<open>Quantizer_Coding\<close> (sizes, the overflow flag, training),
    \<open>Quantizer_Guarantees\<close> and \<open>Error_Code\<close> (the error byte): quantizer.cpp.
  \<^item> \<open>Index_Checkpoint\<close> (definitions of \<open>checkpoint\<close>, its loading and the reopening constructor),
    \<open>Checkpoint_Frames\<close> (triples and frames of I/O programs, one published file), \<open>Checkpoint_Write\<close> (a whole
    checkpoint), \<open>Checkpoint_Load\<close>, \<open>Checkpoint_Restore\<close> (loading succeeds and restores the entries),
    \<open>Checkpoint_Accept\<close> (what loading accepts) and \<open>Checkpoint_Guarantees\<close>: external_list_ivf.cpp.
  \<^item> \<open>Faiss_Router\<close> (the coarse router, its life cycle, assignments and routes): faiss_router.cpp; \<open>Index_Training\<close>
    (\<open>train\<close> of the index, with the router file that it installs): external_list_ivf.cpp.

  \<^bold>\<open>State and operations.\<close> A class is a record with its fields; a method is a function
  that returns the new state. An exception is the value \<open>Inl\<close> of its class with the message of the
  source. File operations are functions of the disk and of the outcome script, so every theorem about
  them holds for every sequence of short, interrupted and failed calls. The AVX-512 functions are
  modelled beside the portable ones, with a register as a list of sixteen lanes and a mask as sixteen
  booleans; the argument \<open>avx\<close> is the value of \<open>exact_pq4_avx512_supported()\<close>.

  \<^bold>\<open>What the lemmas show.\<close> The selector returns the specified selection on both back ends,
  however its reservoir is shrunk, and the fuzzy search cuts at an exact rank. A scan feeds it with
  exactly the rows of all lists, and no true neighbour is lost whose distance lies in its interval. The
  kernels and the back ends agree where the code promises it, and the theorems on infinite rows show
  where they do not. Packing and unpacking are inverse. Directory and record store refine an abstract
  map and an abstract row list under every outcome script; insertion and deletion of the index refine
  the map from ids to entries, and every history keeps the invariant. Re-ranking returns the best exact
  neighbours of its candidates for every order in which the kernel completes the reads. A search returns
  active ids with their exact distances and, while the intervals hold, the nearest rows of its lists.
  A model file is replaced atomically, \<open>load\<close> accepts only well-formed quantizers and undoes \<open>save\<close>, and
  encoding marks exactly the rows that the trained ranges do not cover. A checkpoint is published by one
  renaming, leaves the live index and the previous checkpoint alone when it fails, and loading it restores
  every entry. Training leaves a usable quantizer and a compact router, and cannot be repeated.

  \<^bold>\<open>Bounds and fuel.\<close> \<open>fuzzy_search\<close> takes \<open>fuzzy_rounds\<close>, the loop bound of the source itself.
  The transfer loops recurse on the outcome script and on the bytes left, the asynchronous reader on the
  reads that are left and on the script of the kernel. \<open>refine_lists\<close> is a partial function: it would
  not end for a file bound of zero, which the constructor rejects, and \<open>refine_returns\<close> proves that it
  ends otherwise. Sizes are natural numbers with the overflow guards of the source; ids and list
  numbers are 32-bit words. Page sizes are assumed to be at most 2 GiB (\<open>store_ok\<close>), so that no
  product with a page count overflows.

  \<^bold>\<open>Parameters.\<close> Faiss operations are arguments: the code layout (locale \<open>faiss_pq4\<close>,
  interpreted on the layout that exact_pq4.cpp itself decodes) and the quantized LUT kernel. The index
  takes the list assignment, the routing, the encoder and the query preparation as the functions of
  \<open>index_ops\<close>; \<open>with_quantizer\<close> fills in the modelled quantizer. The quantizer takes the product
  quantizer, the PCA, the norms and the serialisers of Faiss as \<open>faiss_ops\<close>; \<open>faiss_sizes\<close> says which
  sizes its results have and \<open>faiss_io\<close> that reading undoes writing. The router takes
  the Faiss indexes it owns as \<open>router_ops\<close>; \<open>search_labels\<close> says which labels a search returns and
  \<open>router_files\<close> which files are written. The exact distance of the refiner is the caller's function.

  \<^bold>\<open>Concurrency.\<close> The index holds its lock for the whole of an operation, so operations are
  functions of the state. Loops over lists run in list order, as in a build without OpenMP; each
  iteration has a list and a file of its own. Asynchronous reads are completed by a kernel with a
  script, in any order.

  \<^bold>\<open>Not modelled.\<close> Exceptions that Faiss throws while it trains or searches are left out. Clock readings
  and the counters of the update statistics are left out. A compiler that fuses a multiplication and an
  addition of the vector code into one rounding is outside the model: every intrinsic rounds once.
\<close>

end
